(* ===== verification/Prelude.thy ===== *)
theory Prelude
  imports Main "HOL-Library.Word"
begin

unbundle bit_operations_syntax

text \<open>
  Shared vocabulary of the development: the machine integer types of the C code, the arithmetic of
  \<^verbatim>\<open>size_t\<close> on the 64-bit targets of the application, byte buffers that are updated in place
  (\<^verbatim>\<open>memcpy\<close>, \<^verbatim>\<open>memmove\<close>, \<^verbatim>\<open>memset\<close>), and the big- and little-endian value of a byte
  string. The collections \<open>size_t_simps\<close>, \<open>blit_simps\<close> and \<open>endian_simps\<close> hold the rules that
  the component proofs pass to the simplifier.
\<close>

section \<open>Machine integers\<close>

type_synonym u8 = "8 word"
type_synonym u16 = "16 word"
type_synonym u32 = "32 word"
type_synonym u64 = "64 word"

named_theorems size_t_simps \<open>arithmetic of size_t with the wrap-around decided\<close>
named_theorems blit_simps \<open>buffers after an in-place write\<close>
named_theorems endian_simps \<open>byte strings and the number they stand for\<close>

text \<open>
  A \<^verbatim>\<open>size_t\<close> is modelled by a natural number; the operations of the code that can overflow
  write the wrap-around out. \<^verbatim>\<open>SIZE_MAX + 1\<close> is \<open>2 ^ 64\<close>.
\<close>

abbreviation size_t_end :: nat where
  "size_t_end \<equiv> 18446744073709551616"

definition size_add :: "nat \<Rightarrow> nat \<Rightarrow> nat" where
  "size_add a b = (a + b) mod size_t_end"

definition size_mul :: "nat \<Rightarrow> nat \<Rightarrow> nat" where
  "size_mul a b = (a * b) mod size_t_end"

definition INT_MAX :: nat where "INT_MAX = 2147483647"

lemma size_add_small [size_t_simps]: "a + b < size_t_end \<Longrightarrow> size_add a b = a + b"
  by (simp add: size_add_def)

lemma size_mul_small [size_t_simps]: "a * b < size_t_end \<Longrightarrow> size_mul a b = a * b"
  by (simp add: size_mul_def)

lemma size_add_less_end [simp]: "size_add a b < size_t_end"
  by (simp add: size_add_def)

text \<open>The idiom \<^verbatim>\<open>if (a + b < a)\<close> detects exactly the sums that do not fit.\<close>

lemma size_add_overflow:
  assumes "a < size_t_end" and "b < size_t_end"
  shows "size_add a b < a \<longleftrightarrow> size_t_end \<le> a + b"
proof (cases "a + b < size_t_end")
  case True
  then show ?thesis by (simp add: size_add_def)
next
  case False
  with assms have "size_add a b = a + b - size_t_end"
    by (simp add: size_add_def mod_if)
  with False assms show ?thesis by simp
qed

section \<open>Buffers written in place\<close>

text \<open>
  \<open>blit dst off src\<close> is \<open>dst\<close> after \<^verbatim>\<open>memcpy(dst + off, src, length src)\<close>. A write within the
  bounds of the buffer keeps its length; the callers prove that theirs are.
\<close>

definition blit :: "'a list \<Rightarrow> nat \<Rightarrow> 'a list \<Rightarrow> 'a list" where
  "blit dst off src = take off dst @ src @ drop (off + length src) dst"

text \<open>\<^verbatim>\<open>memmove(buf + dst, buf + src, n)\<close>: the source is read before the target is written.\<close>

definition memmove :: "'a list \<Rightarrow> nat \<Rightarrow> nat \<Rightarrow> nat \<Rightarrow> 'a list" where
  "memmove buf dst src n = blit buf dst (take n (drop src buf))"

lemma length_blit [simp]: "off + length src \<le> length dst \<Longrightarrow> length (blit dst off src) = length dst"
  by (simp add: blit_def)

lemma blit_Nil [simp]: "blit dst off [] = dst"
  by (simp add: blit_def)

lemma take_blit_before [blit_simps]:
  "n \<le> off \<Longrightarrow> off \<le> length dst \<Longrightarrow> take n (blit dst off src) = take n dst"
  by (simp add: blit_def min_absorb1)

lemma take_blit_through [blit_simps]:
  "off \<le> length dst \<Longrightarrow> n = off + length src \<Longrightarrow> take n (blit dst off src) = take off dst @ src"
  by (simp add: blit_def)

lemma drop_blit_after [blit_simps]:
  "off + length src \<le> n \<Longrightarrow> off \<le> length dst \<Longrightarrow> drop n (blit dst off src) = drop n dst"
  by (simp add: blit_def)

lemma take_blit_within:
  "off + length src \<le> n \<Longrightarrow> n \<le> length dst \<Longrightarrow> take n (blit dst off src) = blit (take n dst) off src"
proof -
  assume "off + length src \<le> n" and "n \<le> length dst"
  then have "off \<le> n" "length src \<le> n - off" "min off n = off" by simp_all
  then show ?thesis using \<open>n \<le> length dst\<close> by (simp add: blit_def drop_take)
qed

lemma blit_update: "off < length dst \<Longrightarrow> blit dst off [x] = dst[off := x]"
  by (simp add: blit_def upd_conv_take_nth_drop)

lemma length_memmove [simp]:
  "dst + n \<le> length buf \<Longrightarrow> length (memmove buf dst src n) = length buf"
  by (simp add: memmove_def)

section \<open>Byte order\<close>

lemma unat_u8_less [simp]: "unat (b :: u8) < 256"
  using unsigned_less [of b, where ?'a = nat] by simp

lemma u8_modulus: "(256 :: u8) = 0"
  by simp

lemma ucast_eq_of_nat: "ucast b = of_nat (unat b)"
  by simp

text \<open>
  The reference meaning of the byte strings the code reads and writes: \<open>be_val\<close> is the number a
  big-endian string stands for and \<open>be_bytes n v\<close> the \<open>n\<close>-byte big-endian string of \<open>v\<close> modulo
  \<open>256 ^ n\<close>; \<open>le_val\<close> and \<open>le_bytes\<close> are the little-endian ones.
\<close>

primrec be_bytes :: "nat \<Rightarrow> nat \<Rightarrow> u8 list" where
  "be_bytes 0 v = []"
| "be_bytes (Suc n) v = be_bytes n (v div 256) @ [of_nat v]"

definition be_val :: "u8 list \<Rightarrow> nat" where
  "be_val bs = foldl (\<lambda>a b. a * 256 + unat b) 0 bs"

definition le_bytes :: "nat \<Rightarrow> nat \<Rightarrow> u8 list" where
  "le_bytes n v = rev (be_bytes n v)"

definition le_val :: "u8 list \<Rightarrow> nat" where
  "le_val bs = be_val (rev bs)"

lemma length_be_bytes [simp]: "length (be_bytes n v) = n"
  by (induction n arbitrary: v) auto

lemma length_le_bytes [simp]: "length (le_bytes n v) = n"
  by (simp add: le_bytes_def)

lemma be_val_Nil [endian_simps]: "be_val [] = 0"
  by (simp add: be_val_def)

lemma be_val_snoc [endian_simps]: "be_val (bs @ [b]) = be_val bs * 256 + unat b"
  by (simp add: be_val_def)

lemma be_val_bound: "be_val bs < 256 ^ length bs"
proof (induction bs rule: rev_induct)
  case Nil
  then show ?case by (simp add: endian_simps)
next
  case (snoc b bs)
  have "be_val bs * 256 + unat b < (be_val bs + 1) * 256" by simp
  also have "\<dots> \<le> 256 ^ length bs * 256" using snoc by (intro mult_right_mono) auto
  finally show ?case by (simp add: endian_simps mult.commute)
qed

lemma be_val_bytes [endian_simps]: "be_val (be_bytes n v) = v mod 256 ^ n"
proof (induction n arbitrary: v)
  case 0
  then show ?case by (simp add: endian_simps)
next
  case (Suc n)
  have "be_val (be_bytes (Suc n) v) = (v div 256) mod 256 ^ n * 256 + v mod 256"
    by (simp add: endian_simps Suc.IH unat_of_nat)
  also have "\<dots> = v mod 256 ^ Suc n"
    using mod_mult2_eq [of v 256 "256 ^ n"] by simp
  finally show ?case .
qed

lemma be_bytes_val [endian_simps]: "be_bytes (length bs) (be_val bs) = bs"
proof (induction bs rule: rev_induct)
  case Nil
  then show ?case by simp
next
  case (snoc b bs)
  have d: "(be_val bs * 256 + unat b) div 256 = be_val bs" by simp
  have b: "(of_nat (be_val bs * 256 + unat b) :: u8) = b"
    using u8_modulus by (simp only: of_nat_add of_nat_mult of_nat_numeral mult_zero_right of_nat_unat add_0 ucast_id)
  show ?case
    by (simp only: length_append_singleton be_bytes.simps be_val_snoc d b snoc.IH)
qed

lemma be_val_inject: "length as = length bs \<Longrightarrow> be_val as = be_val bs \<Longrightarrow> as = bs"
  by (metis be_bytes_val)

lemma le_val_bytes [endian_simps]: "le_val (le_bytes n v) = v mod 256 ^ n"
  by (simp add: le_val_def le_bytes_def endian_simps)

lemma le_bytes_val [endian_simps]: "le_bytes (length bs) (le_val bs) = bs"
  using be_bytes_val [of "rev bs"] by (simp add: le_val_def le_bytes_def)

text \<open>
  The loop \<^verbatim>\<open>r <<= 8; r |= b\<close> of the parsers is Horner's rule: the shifted word and the byte have
  no bit in common, so the disjunction is a sum.
\<close>

lemma shift_or_byte:
  "push_bit 8 r OR ucast (b :: u8) = (r :: 'a::len word) * 256 + ucast b"
proof -
  have "push_bit 8 r AND ucast b = (0 :: 'a word)"
    by (rule bit_word_eqI) (auto simp: bit_simps dest: bit_imp_le_length)
  then have "push_bit 8 r OR ucast b = push_bit 8 r + (ucast b :: 'a word)"
    by (simp add: disjunctive_add_eq_or)
  then show ?thesis by (simp add: push_bit_eq_mult mult.commute)
qed

lemma foldl_shift_or:
  "foldl (\<lambda>r b. push_bit 8 r OR ucast b) 0 bs = (of_nat (be_val bs) :: 'a::len word)"
proof (induction bs rule: rev_induct)
  case Nil
  then show ?case by (simp add: endian_simps)
next
  case (snoc b bs)
  then show ?case
    by (simp add: shift_or_byte endian_simps mult.commute flip: ucast_eq_of_nat)
qed

section \<open>Bits of words\<close>

lemma unat_drop_bit: "unat (drop_bit n (v :: 'a::len word)) = unat v div 2 ^ n"
  unfolding unsigned_drop_bit_eq by (simp add: drop_bit_eq_div take_bit_nat_eq_self)

lemma unat_push_bit:
  "unat (v :: 'a::len word) * 2 ^ n < 2 ^ LENGTH('a) \<Longrightarrow> unat (push_bit n v) = unat v * 2 ^ n"
  unfolding unsigned_push_bit_eq by (simp only: push_bit_eq_mult take_bit_nat_eq_self)

lemma drop_bit_zero: "drop_bit n v = 0 \<longleftrightarrow> unat (v :: 'a::len word) < 2 ^ n"
  by (simp only: unat_drop_bit flip: unat_eq_0) (simp add: div_eq_0_iff)

lemma nat_mult_or: "b < 2 ^ n \<Longrightarrow> a * 2 ^ n OR b = a * 2 ^ n + (b :: nat)"
proof -
  assume "b < 2 ^ n"
  then have "take_bit n b = b" by (simp only: take_bit_nat_eq_self)
  then have "push_bit n a AND b = 0"
    by (metis (no_types) bit_eq_iff bit_and_iff bit_push_bit_iff bit_take_bit_iff bit_0_eq bot_apply bot_bool_def leD)
  then show ?thesis by (simp only: disjunctive_add_eq_or push_bit_eq_mult)
qed

lemma unat_push_or:
  fixes v w :: "'a::len word"
  assumes "unat w < 2 ^ n" "unat v * 2 ^ n < 2 ^ LENGTH('a)"
  shows "unat (push_bit n v OR w) = unat v * 2 ^ n + unat w"
  by (simp only: unsigned_or_eq unat_push_bit [OF assms(2)] nat_mult_or [OF assms(1)])

lemma u8_and_7f: "unat (b AND 0x7f :: u8) = unat b mod 128"
proof -
  have "b AND 0x7f = take_bit 7 b" by (simp only: take_bit_eq_mask mask_eq_exp_minus_1) simp
  then show ?thesis by (simp only: unsigned_take_bit_eq) (simp add: take_bit_eq_mod)
qed

lemma bit_u8_80: "bit (0x80 :: u8) n \<longleftrightarrow> n = 7"
proof -
  have "bit (2 ^ 7 :: u8) n \<longleftrightarrow> n = 7"
    by (simp only: bit_exp_iff) (auto simp: possible_bit_def)
  then show ?thesis by simp
qed

lemma word_zero_iff: "w = 0 \<longleftrightarrow> (\<forall>n. \<not> bit (w :: 'a::len word) n)"
  by (metis bit_0_eq bit_eqI bot_apply bot_bool_def)

lemma u8_and_80: "b AND 0x80 = 0 \<longleftrightarrow> unat (b::u8) < 128"
proof -
  have "b AND 0x80 = 0 \<longleftrightarrow> \<not> bit b 7"
    unfolding word_zero_iff [of "b AND 0x80"] bit_and_iff bit_u8_80 by auto
  also have "\<dots> \<longleftrightarrow> drop_bit 7 b = 0"
  proof -
    have "\<not> bit b (7 + n)" if "n \<noteq> 0" for n
      using bit_imp_le_length [of b "7 + n"] that by auto
    then show ?thesis
      unfolding word_zero_iff [of "drop_bit 7 b"] bit_drop_bit_eq o_def by (metis add_0_right)
  qed
  finally show ?thesis by (simp only: drop_bit_zero) simp
qed

lemma and_shifted_mask:
  "n AND push_bit k (mask m) = push_bit k (take_bit m (drop_bit k (n :: nat)))"
  by (rule bit_eqI) (auto simp: bit_simps)

end
