(* ===== verification/Mem.thy ===== *)
theory Mem
  imports Prelude
begin

text \<open>
  The allocator wrappers and the byte-string helpers of \<^verbatim>\<open>crypto/mem.c\<close>.

  The C library's \<^verbatim>\<open>malloc\<close> is a parameter \<open>M\<close>: \<open>M n\<close> is \<open>None\<close> when it returns NULL and
  otherwise the unspecified contents of the \<open>n\<close> bytes it returns. \<open>malloc_spec\<close> states what the
  code relies on: the block has the size asked for, and no object takes up a quarter of the 64-bit
  address space or more. Pointers into a
  block are not modelled: a block is the list of its bytes. C strings are the bytes up to and
  without their terminator when an operation needs one that ends; operations that look for the
  terminator take the memory they may read as a list.
\<close>

section \<open>OPENSSL_malloc and OPENSSL_realloc\<close>

type_synonym malloc = "nat \<Rightarrow> u8 list option"

definition malloc_spec :: "malloc \<Rightarrow> bool" where
  "malloc_spec M \<longleftrightarrow> (\<forall>n b. M n = Some b \<longrightarrow> length b = n \<and> n < 2 ^ 62)"

definition OPENSSL_MALLOC_PREFIX :: nat where
  "OPENSSL_MALLOC_PREFIX = 8"

text \<open>
  The block is allocated with eight extra bytes in front that hold its size; the caller is given
  the bytes after them. The addition is that of \<^verbatim>\<open>size_t\<close>.
\<close>

definition OPENSSL_malloc :: "malloc \<Rightarrow> nat \<Rightarrow> u8 list option" where
  "OPENSSL_malloc M sz =
     (case M (size_add sz OPENSSL_MALLOC_PREFIX) of
        None \<Rightarrow> None
      | Some ptr \<Rightarrow> Some (drop OPENSSL_MALLOC_PREFIX ptr))"

text \<open>
  \<^verbatim>\<open>old_size\<close> is the size stored in front of the block, which is the number of bytes its owner
  was given (lemma \<open>OPENSSL_malloc_length\<close>).
\<close>

definition OPENSSL_realloc :: "malloc \<Rightarrow> u8 list option \<Rightarrow> nat \<Rightarrow> u8 list option" where
  "OPENSSL_realloc M orig_ptr new_size =
     (case orig_ptr of
        None \<Rightarrow> OPENSSL_malloc M new_size
      | Some orig \<Rightarrow>
          (case OPENSSL_malloc M new_size of
             None \<Rightarrow> None
           | Some ret \<Rightarrow>
               (let old_size = length orig;
                    to_copy = (if old_size < new_size then old_size else new_size)
                in Some (blit ret 0 (take to_copy orig)))))"

text \<open>The contents of the block as \<^verbatim>\<open>OPENSSL_free\<close> hands it to \<^verbatim>\<open>free\<close>.\<close>

definition OPENSSL_cleanse :: "u8 list \<Rightarrow> u8 list" where
  "OPENSSL_cleanse ptr = replicate (length ptr) 0"

section \<open>Comparison, hashing and strings\<close>

definition CRYPTO_memcmp :: "u8 list \<Rightarrow> u8 list \<Rightarrow> nat \<Rightarrow> u8" where
  "CRYPTO_memcmp a b len = foldl (\<lambda>x i. x OR (a ! i XOR b ! i)) 0 [0..<len]"

definition OPENSSL_hash32 :: "u8 list \<Rightarrow> u32" where
  "OPENSSL_hash32 ptr = foldl (\<lambda>h c. (h XOR ucast c) * 16777619) 2166136261 ptr"

fun OPENSSL_strnlen :: "u8 list \<Rightarrow> nat \<Rightarrow> nat" where
  "OPENSSL_strnlen s 0 = 0"
| "OPENSSL_strnlen [] (Suc len) = 0"
| "OPENSSL_strnlen (c # s) (Suc len) = (if c = 0 then 0 else Suc (OPENSSL_strnlen s len))"

definition OPENSSL_tolower :: "int \<Rightarrow> int" where
  "OPENSSL_tolower c = (if 65 \<le> c \<and> c \<le> 90 then c + (97 - 65) else c)"


text \<open>
  \<^verbatim>\<open>char\<close> is signed on the targets. \<open>char_at\<close> reads the character at the current position of a
  C string given without its terminator: the terminator once the bytes are used up.
\<close>

definition char_at :: "u8 list \<Rightarrow> int" where
  "char_at s = (case s of [] \<Rightarrow> 0 | c # _ \<Rightarrow> sint c)"

function OPENSSL_strcasecmp :: "u8 list \<Rightarrow> u8 list \<Rightarrow> int" where
  "OPENSSL_strcasecmp a b =
     (let aa = OPENSSL_tolower (char_at a); bb = OPENSSL_tolower (char_at b)
      in if aa < bb then -1 else if aa > bb then 1 else if aa = 0 then 0
         else OPENSSL_strcasecmp (tl a) (tl b))"
  by pat_completeness auto
termination
  by (relation "measure (\<lambda>(a, b). length a)")
    (auto simp: char_at_def OPENSSL_tolower_def split: list.splits)

fun OPENSSL_strncasecmp :: "u8 list \<Rightarrow> u8 list \<Rightarrow> nat \<Rightarrow> int" where
  "OPENSSL_strncasecmp a b 0 = 0"
| "OPENSSL_strncasecmp a b (Suc n) =
     (let aa = OPENSSL_tolower (char_at a); bb = OPENSSL_tolower (char_at b)
      in if aa < bb then -1 else if aa > bb then 1 else if aa = 0 then 0
         else OPENSSL_strncasecmp (tl a) (tl b) n)"

declare OPENSSL_strcasecmp.simps [simp del]

text \<open>\<^verbatim>\<open>strlen(s) + 1\<close> bytes are copied, the terminator included.\<close>

definition OPENSSL_strdup :: "malloc \<Rightarrow> u8 list \<Rightarrow> u8 list option" where
  "OPENSSL_strdup M s =
     (let len = size_add (length s) 1
      in case OPENSSL_malloc M len of
           None \<Rightarrow> None
         | Some ret \<Rightarrow> Some (blit ret 0 (s @ [0])))"

section \<open>Lemmas on blocks and strings\<close>

lemma OPENSSL_malloc_length:
  assumes "malloc_spec M" and "OPENSSL_malloc M sz = Some b" and "sz < size_t_end - 8"
  shows "length b = sz"
  using assms by (auto simp: OPENSSL_malloc_def malloc_spec_def OPENSSL_MALLOC_PREFIX_def
      size_add_small split: option.splits)

lemma OPENSSL_malloc_bound:
  assumes "malloc_spec M" and "OPENSSL_malloc M sz = Some b" and "sz < size_t_end - 8"
  shows "sz < 2 ^ 62"
  using assms by (auto simp: OPENSSL_malloc_def malloc_spec_def OPENSSL_MALLOC_PREFIX_def
      size_add_small split: option.splits dest!: spec [of _ "sz + 8"])

lemma OPENSSL_realloc_length:
  assumes "malloc_spec M" and "OPENSSL_realloc M p n = Some b" and "n < size_t_end - 8"
  shows "length b = n"
  using assms by (auto simp: OPENSSL_realloc_def OPENSSL_malloc_length Let_def
      split: option.splits if_splits)

lemma OPENSSL_realloc_bound:
  assumes "malloc_spec M" and "OPENSSL_realloc M p n = Some b" and "n < size_t_end - 8"
  shows "n < 2 ^ 62"
  using assms by (auto simp: OPENSSL_realloc_def Let_def dest: OPENSSL_malloc_bound
      split: option.splits if_splits)

lemma OPENSSL_realloc_keeps:
  assumes "malloc_spec M" and "OPENSSL_realloc M (Some p) n = Some b" and "n < size_t_end - 8"
    and "k \<le> length p" and "k \<le> n"
  shows "take k b = take k p"
  using assms OPENSSL_malloc_length [OF assms(1)]
  by (auto simp: OPENSSL_realloc_def Let_def blit_def min_def split: option.splits if_splits)

text \<open>An allocator that behaves as assumed: it fails for the sizes no object can have only.\<close>

definition zero_malloc :: malloc where
  "zero_malloc n = (if n < 2 ^ 62 then Some (replicate n 0) else None)"

lemma zero_malloc_spec: "malloc_spec zero_malloc"
  by (simp add: malloc_spec_def zero_malloc_def)

text \<open>An allocator that never fails for a size an object can have.\<close>

definition malloc_total :: "malloc \<Rightarrow> bool" where
  "malloc_total M \<longleftrightarrow> malloc_spec M \<and> (\<forall>n. n < 2 ^ 62 \<longrightarrow> M n \<noteq> None)"

lemma malloc_total_spec: "malloc_total M \<Longrightarrow> malloc_spec M"
  by (simp add: malloc_total_def)

lemma zero_malloc_total: "malloc_total zero_malloc"
  by (simp add: malloc_total_def zero_malloc_spec) (simp add: zero_malloc_def)

lemma OPENSSL_malloc_total:
  assumes "malloc_total M" and "n < 2 ^ 62 - 8"
  shows "\<exists>p. OPENSSL_malloc M n = Some p"
proof -
  have "size_add n OPENSSL_MALLOC_PREFIX = n + 8"
    using assms(2) by (simp add: OPENSSL_MALLOC_PREFIX_def size_add_small)
  moreover have "n + 8 < 2 ^ 62" using assms(2) by simp
  ultimately show ?thesis using assms(1) by (auto simp: OPENSSL_malloc_def malloc_total_def split: option.splits)
qed

section \<open>Properties\<close>

text \<open>
  \<^verbatim>\<open>OPENSSL_malloc\<close> does not guard the addition of its prefix: a request within eight bytes of
  the largest \<^verbatim>\<open>size_t\<close> wraps around and is served with a block of fewer than eight bytes, of which
  the caller is given none.
\<close>

theorem malloc_request_wraps:
  assumes "malloc_spec M" and "size_t_end - 8 \<le> n" and "n < size_t_end" and "M (n - (size_t_end - 8)) \<noteq> None"
  shows "OPENSSL_malloc M n = Some []"
proof -
  from assms(2,3) have "size_add n OPENSSL_MALLOC_PREFIX = n - (size_t_end - 8)"
    by (simp add: size_add_def OPENSSL_MALLOC_PREFIX_def mod_if)
  moreover from assms obtain p where "M (n - (size_t_end - 8)) = Some p" by blast
  moreover from this assms have "length p < 8" by (auto simp: malloc_spec_def)
  ultimately show ?thesis by (simp add: OPENSSL_malloc_def OPENSSL_MALLOC_PREFIX_def)
qed

theorem malloc_request_wraps_witness: "OPENSSL_malloc zero_malloc (size_t_end - 3) = Some []"
  by (rule malloc_request_wraps [OF zero_malloc_spec]) (simp_all add: zero_malloc_def)

end
