(* ===== verification/Buf.thy ===== *)
theory Buf
  imports Prelude Mem
begin

text \<open>
  \<^verbatim>\<open>crypto/buf/buf.c\<close>: the growable byte buffer \<^verbatim>\<open>BUF_MEM\<close> and the string helpers. The \<^verbatim>\<open>data\<close>
  pointer of a \<^verbatim>\<open>BUF_MEM\<close> is the list of the bytes allocated for it, the empty list for NULL. The
  allocator \<open>M\<close> is the parameter described in the theory \<open>Mem\<close>. A return value of zero or NULL is
  \<open>False\<close>, \<open>0\<close> or \<open>None\<close>; the error queue is not modelled.
\<close>

section \<open>BUF_MEM\<close>

record BUF_MEM =
  bm_length :: nat
  bm_data :: "u8 list"
  bm_max :: nat

definition BUF_MEM_new :: "malloc \<Rightarrow> BUF_MEM option" where
  "BUF_MEM_new M =
     (case OPENSSL_malloc M 24 of
        None \<Rightarrow> None
      | Some _ \<Rightarrow> Some \<lparr>bm_length = 0, bm_data = [], bm_max = 0\<rparr>)"

text \<open>A NULL \<open>data\<close> is reallocated as a fresh block, which copying no bytes does as well.\<close>

definition BUF_MEM_reserve :: "malloc \<Rightarrow> BUF_MEM \<Rightarrow> nat \<Rightarrow> bool \<times> BUF_MEM" where
  "BUF_MEM_reserve M buf cap =
     (if bm_max buf \<ge> cap then (True, buf)
      else let n = size_add cap 3
           in if n < cap then (False, buf)
              else let n = n div 3; alloc_size = size_mul n 4
                   in if alloc_size div 4 \<noteq> n then (False, buf)
                      else (case OPENSSL_realloc M (Some (bm_data buf)) alloc_size of
                              None \<Rightarrow> (False, buf)
                            | Some new_buf \<Rightarrow> (True, buf\<lparr>bm_data := new_buf, bm_max := alloc_size\<rparr>)))"

definition BUF_MEM_grow :: "malloc \<Rightarrow> BUF_MEM \<Rightarrow> nat \<Rightarrow> nat \<times> BUF_MEM" where
  "BUF_MEM_grow M buf len =
     (case BUF_MEM_reserve M buf len of
        (False, buf) \<Rightarrow> (0, buf)
      | (True, buf) \<Rightarrow>
          (let buf = (if bm_length buf < len
                      then buf\<lparr>bm_data := blit (bm_data buf) (bm_length buf)
                                           (replicate (len - bm_length buf) 0)\<rparr>
                      else buf)
           in (len, buf\<lparr>bm_length := len\<rparr>)))"

definition BUF_MEM_grow_clean :: "malloc \<Rightarrow> BUF_MEM \<Rightarrow> nat \<Rightarrow> nat \<times> BUF_MEM" where
  "BUF_MEM_grow_clean M buf len = BUF_MEM_grow M buf len"

definition BUF_MEM_append :: "malloc \<Rightarrow> BUF_MEM \<Rightarrow> u8 list \<Rightarrow> bool \<times> BUF_MEM" where
  "BUF_MEM_append M buf inp =
     (let len = length inp; new_len = size_add (bm_length buf) len
      in if new_len < len then (False, buf)
         else (case BUF_MEM_reserve M buf new_len of
                 (False, buf) \<Rightarrow> (False, buf)
               | (True, buf) \<Rightarrow>
                   (True, buf\<lparr>bm_data := blit (bm_data buf) (bm_length buf) inp,
                              bm_length := new_len\<rparr>)))"

section \<open>Strings\<close>

text \<open>\<open>str\<close> is the memory from the pointer on; reading stops at \<open>max_len\<close> or at a zero byte.\<close>

fun BUF_strnlen :: "u8 list \<Rightarrow> nat \<Rightarrow> nat" where
  "BUF_strnlen str 0 = 0"
| "BUF_strnlen [] (Suc max_len) = 0"
| "BUF_strnlen (c # str) (Suc max_len) = (if c = 0 then 0 else Suc (BUF_strnlen str max_len))"

definition BUF_strndup :: "malloc \<Rightarrow> u8 list option \<Rightarrow> nat \<Rightarrow> u8 list option" where
  "BUF_strndup M str sz =
     (case str of
        None \<Rightarrow> None
      | Some str \<Rightarrow>
          (let sz = BUF_strnlen str sz; alloc_size = size_add sz 1
           in if alloc_size < sz then None
              else (case OPENSSL_malloc M alloc_size of
                      None \<Rightarrow> None
                    | Some ret \<Rightarrow> Some ((blit ret 0 (take sz str))[sz := 0]))))"

text \<open>\<^verbatim>\<open>strlen(str)\<close>: \<open>str\<close> is the memory of a C string, its terminator included.\<close>

definition strlen :: "u8 list \<Rightarrow> nat" where
  "strlen str = length (takeWhile (\<lambda>c. c \<noteq> 0) str)"

definition BUF_strdup :: "malloc \<Rightarrow> u8 list option \<Rightarrow> u8 list option" where
  "BUF_strdup M str =
     (case str of None \<Rightarrow> None | Some s \<Rightarrow> BUF_strndup M (Some s) (strlen s))"

text \<open>
  The loop of \<^verbatim>\<open>BUF_strlcpy\<close>: \<open>out\<close> are the bytes written so far. The result is what is written at
  \<^verbatim>\<open>dst\<close> (with the terminator when there is room for one) and \<^verbatim>\<open>l + strlen(src)\<close>.
\<close>

fun BUF_strlcpy_loop :: "u8 list \<Rightarrow> nat \<Rightarrow> u8 list \<Rightarrow> nat \<Rightarrow> u8 list \<times> nat" where
  "BUF_strlcpy_loop out l (c # src) (Suc (Suc n)) =
     (if c \<noteq> 0 then BUF_strlcpy_loop (out @ [c]) (Suc l) src (Suc n)
      else (out @ [0], l + strlen (c # src)))"
| "BUF_strlcpy_loop out l src (Suc n) = (out @ [0], l + strlen src)"
| "BUF_strlcpy_loop out l src 0 = (out, l + strlen src)"

definition BUF_strlcpy :: "u8 list \<Rightarrow> u8 list \<Rightarrow> nat \<Rightarrow> u8 list \<times> nat" where
  "BUF_strlcpy dst src dst_size =
     (case BUF_strlcpy_loop [] 0 src dst_size of (w, n) \<Rightarrow> (blit dst 0 w, n))"

text \<open>\<^verbatim>\<open>BUF_strlcat\<close> advances over the string in \<^verbatim>\<open>dst\<close>, at most \<^verbatim>\<open>dst_size\<close> bytes.\<close>

fun BUF_strlcat_skip :: "nat \<Rightarrow> u8 list \<Rightarrow> nat \<Rightarrow> nat \<times> nat" where
  "BUF_strlcat_skip l (c # dst) (Suc n) =
     (if c \<noteq> 0 then BUF_strlcat_skip (Suc l) dst n else (l, Suc n))"
| "BUF_strlcat_skip l dst n = (l, n)"

definition BUF_strlcat :: "u8 list \<Rightarrow> u8 list \<Rightarrow> nat \<Rightarrow> u8 list \<times> nat" where
  "BUF_strlcat dst src dst_size =
     (case BUF_strlcat_skip 0 dst dst_size of
        (l, n) \<Rightarrow> (case BUF_strlcpy (drop l dst) src n of (d, r) \<Rightarrow> (take l dst @ d, l + r)))"

definition BUF_memdup :: "malloc \<Rightarrow> u8 list \<Rightarrow> nat \<Rightarrow> u8 list option" where
  "BUF_memdup M data sz =
     (if sz = 0 then None
      else (case OPENSSL_malloc M sz of
              None \<Rightarrow> None
            | Some ret \<Rightarrow> Some (blit ret 0 (take sz data))))"

section \<open>Lemmas\<close>

text \<open>The invariant of a buffer: the bytes up to \<open>length\<close> are in the block, which has \<open>max\<close> bytes.\<close>

definition BUF_MEM_wf :: "BUF_MEM \<Rightarrow> bool" where
  "BUF_MEM_wf b \<longleftrightarrow> bm_length b \<le> bm_max b \<and> length (bm_data b) = bm_max b
     \<and> bm_max b < size_t_end - 8"

definition BUF_MEM_contents :: "BUF_MEM \<Rightarrow> u8 list" where
  "BUF_MEM_contents b = take (bm_length b) (bm_data b)"

lemma strnlen_take: "BUF_strnlen str n = length (takeWhile (\<lambda>c. c \<noteq> 0) (take n str))"
  by (induction str n rule: BUF_strnlen.induct) auto

lemma strnlen_take_eq: "take (BUF_strnlen str n) str = takeWhile (\<lambda>c. c \<noteq> 0) (take n str)"
  by (induction str n rule: BUF_strnlen.induct) auto

end
