(* ===== verification/Cbb.thy ===== *)
theory Cbb
  imports Prelude Mem
begin

text \<open>
  \<^verbatim>\<open>crypto/bytestring/cbb.c\<close>: the builder of length-prefixed byte strings, up to the ASN.1
  writers, which are in the theory \<open>CbbAsn1\<close>.

  All the CBBs of one builder share one \<^verbatim>\<open>struct cbb_buffer_st\<close>, and at most one length prefix is
  pending in each CBB, so the CBBs below a given one form a chain. A value of type \<open>CBB\<close> is what
  the code can reach from a \<^verbatim>\<open>CBB *\<close>: the shared buffer, the fields of the CBB itself and those of
  its child, of the child's child and so on. An operation on the pending child works on
  \<open>CBB_child\<close> of its parent, and \<open>CBB_return\<close> puts the result back under the parent, which sees the
  changed buffer because it shares it. Every operation returns its return value and the CBB it
  leaves, on failure too. A child that has been flushed has a NULL base and is not part of any
  chain; the interface forbids its use. \<^verbatim>\<open>base == NULL\<close> of the CBB an operation is called on is
  \<open>None\<close>. The contents of \<^verbatim>\<open>buf\<close> are \<open>bb_cap\<close> bytes, of which \<open>bb_len\<close> are valid.
\<close>

section \<open>State\<close>

record cbb_buffer_st =
  bb_buf :: "u8 list"
  bb_len :: nat
  bb_cap :: nat
  bb_can_resize :: bool
  bb_error :: bool

record cbb_fields =
  cbb_offset :: nat
  cbb_pending_len_len :: nat
  cbb_pending_is_asn1 :: bool
  cbb_is_top_level :: bool

record CBB =
  cbb_base :: "cbb_buffer_st option"
  cbb_self :: cbb_fields
  cbb_chain :: "cbb_fields list"

definition zero_fields :: cbb_fields where
  "zero_fields = \<lparr>cbb_offset = 0, cbb_pending_len_len = 0, cbb_pending_is_asn1 = False,
                  cbb_is_top_level = False\<rparr>"

definition CBB_zero :: CBB where
  "CBB_zero = \<lparr>cbb_base = None, cbb_self = zero_fields, cbb_chain = []\<rparr>"

definition CBB_child :: "CBB \<Rightarrow> CBB" where
  "CBB_child cbb = cbb\<lparr>cbb_self := hd (cbb_chain cbb), cbb_chain := tl (cbb_chain cbb)\<rparr>"

definition CBB_return :: "CBB \<Rightarrow> CBB \<Rightarrow> CBB" where
  "CBB_return cbb child =
     cbb\<lparr>cbb_base := cbb_base child, cbb_chain := cbb_self child # cbb_chain child\<rparr>"

section \<open>Creation and destruction\<close>

text \<open>\<^verbatim>\<open>sizeof(struct cbb_buffer_st)\<close> is 32 on the 64-bit targets.\<close>

definition cbb_init :: "malloc \<Rightarrow> CBB \<Rightarrow> u8 list \<Rightarrow> nat \<Rightarrow> bool \<times> CBB" where
  "cbb_init M cbb buf cap =
     (case OPENSSL_malloc M 32 of
        None \<Rightarrow> (False, cbb)
      | Some _ \<Rightarrow>
          (True, cbb\<lparr>cbb_base := Some \<lparr>bb_buf = buf, bb_len = 0, bb_cap = cap,
                                         bb_can_resize = True, bb_error = False\<rparr>,
                     cbb_self := (cbb_self cbb)\<lparr>cbb_is_top_level := True\<rparr>\<rparr>))"

definition CBB_init :: "malloc \<Rightarrow> nat \<Rightarrow> bool \<times> CBB" where
  "CBB_init M initial_capacity =
     (let buf = OPENSSL_malloc M initial_capacity
      in if initial_capacity > 0 \<and> buf = None then (False, CBB_zero)
         else cbb_init M CBB_zero (case buf of None \<Rightarrow> [] | Some b \<Rightarrow> b) initial_capacity)"

definition CBB_init_fixed :: "malloc \<Rightarrow> u8 list \<Rightarrow> nat \<Rightarrow> bool \<times> CBB" where
  "CBB_init_fixed M buf len =
     (case cbb_init M CBB_zero buf len of
        (False, cbb) \<Rightarrow> (False, cbb)
      | (True, cbb) \<Rightarrow>
          (True, cbb\<lparr>cbb_base := map_option (\<lambda>b. b\<lparr>bb_can_resize := False\<rparr>) (cbb_base cbb)\<rparr>))"

definition CBB_cleanup :: "CBB \<Rightarrow> CBB" where
  "CBB_cleanup cbb = cbb\<lparr>cbb_base := None\<rparr>"

section \<open>The shared buffer\<close>

text \<open>
  \<^verbatim>\<open>cbb_buffer_reserve\<close> for a non-NULL base; on success \<^verbatim>\<open>*out\<close> is \<^verbatim>\<open>base->buf + base->len\<close>.
\<close>

definition cbb_buffer_reserve :: "malloc \<Rightarrow> cbb_buffer_st \<Rightarrow> nat \<Rightarrow> bool \<times> cbb_buffer_st" where
  "cbb_buffer_reserve M base len =
     (let newlen = size_add (bb_len base) len
      in if newlen < bb_len base then (False, base\<lparr>bb_error := True\<rparr>)
         else if newlen > bb_cap base
         then if \<not> bb_can_resize base then (False, base\<lparr>bb_error := True\<rparr>)
              else let newcap = size_mul (bb_cap base) 2;
                       newcap = (if newcap < bb_cap base \<or> newcap < newlen then newlen else newcap)
                   in (case OPENSSL_realloc M (Some (bb_buf base)) newcap of
                         None \<Rightarrow> (False, base\<lparr>bb_error := True\<rparr>)
                       | Some newbuf \<Rightarrow> (True, base\<lparr>bb_buf := newbuf, bb_cap := newcap\<rparr>))
         else (True, base))"

definition cbb_buffer_add :: "malloc \<Rightarrow> cbb_buffer_st \<Rightarrow> nat \<Rightarrow> bool \<times> cbb_buffer_st" where
  "cbb_buffer_add M base len =
     (case cbb_buffer_reserve M base len of
        (False, base) \<Rightarrow> (False, base)
      | (True, base) \<Rightarrow> (True, base\<lparr>bb_len := bb_len base + len\<rparr>))"

text \<open>
  The loop \<^verbatim>\<open>for (i = n - 1; i < n; i--) { buf[off + i] = v; v >>= 8; }\<close>, which ends when the
  unsigned \<^verbatim>\<open>i\<close> wraps around below zero; the result is the buffer and what is left of \<^verbatim>\<open>v\<close>.
\<close>

fun put_be :: "u8 list \<Rightarrow> nat \<Rightarrow> nat \<Rightarrow> nat \<Rightarrow> u8 list \<times> nat" where
  "put_be buf off 0 v = (buf, v)"
| "put_be buf off (Suc i) v = put_be (buf[off + i := of_nat v]) off i (v div 256)"

definition cbb_buffer_add_u :: "malloc \<Rightarrow> cbb_buffer_st \<Rightarrow> u32 \<Rightarrow> nat \<Rightarrow> bool \<times> cbb_buffer_st" where
  "cbb_buffer_add_u M base v len_len =
     (if len_len = 0 then (True, base)
      else let off = bb_len base
           in (case cbb_buffer_add M base len_len of
                 (False, base) \<Rightarrow> (False, base)
               | (True, base) \<Rightarrow>
                   (case put_be (bb_buf base) off len_len (unat v) of
                      (buf, v) \<Rightarrow>
                        let base = base\<lparr>bb_buf := buf\<rparr>
                        in if v \<noteq> 0 then (False, base\<lparr>bb_error := True\<rparr>) else (True, base))))"

section \<open>Length prefixes\<close>

text \<open>
  What \<^verbatim>\<open>CBB_flush\<close> does for the child \<open>ch\<close> once the child's own child is flushed: the length of
  the contents is written into the pending prefix. An ASN.1 prefix has one byte reserved and the
  contents are moved when the length needs more. The result is the fields of the child on failure,
  where the CBB keeps it.
\<close>

definition flush_length ::
  "malloc \<Rightarrow> cbb_buffer_st \<Rightarrow> cbb_fields \<Rightarrow> nat \<Rightarrow> bool \<times> cbb_buffer_st \<times> cbb_fields" where
  "flush_length M base ch child_start =
     (let len = bb_len base - child_start;
          fail = (\<lambda>base ch. (False, base\<lparr>bb_error := True\<rparr>, ch));
          finish = (\<lambda>base ch len.
             case put_be (bb_buf base) (cbb_offset ch) (cbb_pending_len_len ch) len of
               (buf, len) \<Rightarrow>
                 let base = base\<lparr>bb_buf := buf\<rparr>
                 in if len \<noteq> 0 then fail base ch else (True, base, ch))
      in if \<not> cbb_pending_is_asn1 ch then finish base ch len
         else if len > 0xfffffffe then fail base ch
         else let (len_len, initial_length_byte, len') =
                    (if len > 0xffffff then (5, 0x84, len)
                     else if len > 0xffff then (4, 0x83, len)
                     else if len > 0xff then (3, 0x82, len)
                     else if len > 0x7f then (2, 0x81, len)
                     else (1, of_nat len, 0)) :: nat \<times> u8 \<times> nat;
                  extra_bytes = len_len - 1;
                  moved = (if len_len \<noteq> 1
                           then case cbb_buffer_add M base extra_bytes of
                                  (False, base) \<Rightarrow> (False, base)
                                | (True, base) \<Rightarrow>
                                    (True, base\<lparr>bb_buf := memmove (bb_buf base)
                                              (child_start + extra_bytes) child_start len'\<rparr>)
                           else (True, base))
              in (case moved of
                    (False, base) \<Rightarrow> fail base ch
                  | (True, base) \<Rightarrow>
                      finish (base\<lparr>bb_buf := (bb_buf base)[cbb_offset ch := initial_length_byte]\<rparr>)
                             (ch\<lparr>cbb_offset := cbb_offset ch + 1,
                                 cbb_pending_len_len := len_len - 1\<rparr>) len'))"

text \<open>\<^verbatim>\<open>CBB_flush\<close> on the shared buffer and the chain below the CBB it is called on.\<close>

fun flush_chain ::
  "malloc \<Rightarrow> cbb_buffer_st \<Rightarrow> cbb_fields list \<Rightarrow> bool \<times> cbb_buffer_st \<times> cbb_fields list" where
  "flush_chain M base [] = (\<not> bb_error base, base, [])"
| "flush_chain M base (ch # rest) =
     (if bb_error base then (False, base, ch # rest)
      else if cbb_pending_len_len ch = 0 then (True, base, ch # rest)
      else let child_start = size_add (cbb_offset ch) (cbb_pending_len_len ch)
           in (case flush_chain M base rest of
                 (False, base, rest) \<Rightarrow> (False, base\<lparr>bb_error := True\<rparr>, ch # rest)
               | (True, base, rest) \<Rightarrow>
                   if child_start < cbb_offset ch \<or> bb_len base < child_start
                   then (False, base\<lparr>bb_error := True\<rparr>, ch # rest)
                   else (case flush_length M base ch child_start of
                           (False, base, ch) \<Rightarrow> (False, base, ch # rest)
                         | (True, base, _) \<Rightarrow> (True, base, []))))"

definition CBB_flush :: "malloc \<Rightarrow> CBB \<Rightarrow> bool \<times> CBB" where
  "CBB_flush M cbb =
     (case cbb_base cbb of
        None \<Rightarrow> (False, cbb)
      | Some base \<Rightarrow>
          (case flush_chain M base (cbb_chain cbb) of
             (ok, base, chain) \<Rightarrow> (ok, cbb\<lparr>cbb_base := Some base, cbb_chain := chain\<rparr>)))"

section \<open>Operations\<close>

text \<open>The idiom \<^verbatim>\<open>if (!op(cbb)) { return 0; }\<close> followed by the rest of the function.\<close>

definition cbb_then :: "bool \<times> CBB \<Rightarrow> (CBB \<Rightarrow> bool \<times> CBB) \<Rightarrow> bool \<times> CBB" where
  "cbb_then r k = (case r of (False, cbb) \<Rightarrow> (False, cbb) | (True, cbb) \<Rightarrow> k cbb)"

text \<open>
  A call on \<^verbatim>\<open>cbb->base\<close> after a successful \<^verbatim>\<open>CBB_flush\<close>, which fails for a NULL base, so
  \<open>None\<close> is not reached.
\<close>

definition on_base :: "CBB \<Rightarrow> (cbb_buffer_st \<Rightarrow> bool \<times> cbb_buffer_st) \<Rightarrow> bool \<times> CBB" where
  "on_base cbb f =
     (case cbb_base cbb of
        None \<Rightarrow> (False, cbb)
      | Some base \<Rightarrow> (case f base of (ok, base) \<Rightarrow> (ok, cbb\<lparr>cbb_base := Some base\<rparr>)))"

text \<open>
  \<^verbatim>\<open>CBB_finish\<close>: the arguments tell which output pointers are NULL; on success the result holds the
  buffer and the number of valid bytes in it.
\<close>

definition CBB_finish ::
  "malloc \<Rightarrow> CBB \<Rightarrow> bool \<Rightarrow> bool \<Rightarrow> (u8 list \<times> nat) option \<times> CBB" where
  "CBB_finish M cbb out_data_null out_len_null =
     (if \<not> cbb_is_top_level (cbb_self cbb) then (None, cbb)
      else (case CBB_flush M cbb of
              (False, cbb) \<Rightarrow> (None, cbb)
            | (True, cbb) \<Rightarrow>
                (case cbb_base cbb of
                   None \<Rightarrow> (None, cbb)
                 | Some base \<Rightarrow>
                     if bb_can_resize base \<and> (out_data_null \<or> out_len_null) then (None, cbb)
                     else (Some (bb_buf base, bb_len base),
                           CBB_cleanup (cbb\<lparr>cbb_base := Some (base\<lparr>bb_buf := []\<rparr>)\<rparr>)))))"

text \<open>
  \<^verbatim>\<open>CBB_data\<close> and \<^verbatim>\<open>CBB_len\<close> assert that no child is pending and dereference the base; \<open>None\<close> stands
  for the violation of either.
\<close>

definition CBB_data :: "CBB \<Rightarrow> u8 list option" where
  "CBB_data cbb =
     (case cbb_base cbb of
        None \<Rightarrow> None
      | Some base \<Rightarrow>
          if cbb_chain cbb \<noteq> [] then None
          else Some (drop (cbb_offset (cbb_self cbb) + cbb_pending_len_len (cbb_self cbb)) (bb_buf base)))"

definition CBB_len :: "CBB \<Rightarrow> nat option" where
  "CBB_len cbb =
     (case cbb_base cbb of
        None \<Rightarrow> None
      | Some base \<Rightarrow>
          let start = cbb_offset (cbb_self cbb) + cbb_pending_len_len (cbb_self cbb)
          in if cbb_chain cbb \<noteq> [] \<or> \<not> start \<le> bb_len base then None
             else Some (bb_len base - start))"

definition cbb_add_length_prefixed :: "malloc \<Rightarrow> CBB \<Rightarrow> nat \<Rightarrow> bool \<times> CBB" where
  "cbb_add_length_prefixed M cbb len_len =
     cbb_then (CBB_flush M cbb)
       (\<lambda>cbb.
          let offset = (case cbb_base cbb of None \<Rightarrow> 0 | Some base \<Rightarrow> bb_len base)
          in cbb_then
               (on_base cbb (\<lambda>base.
                  case cbb_buffer_add M base len_len of
                    (False, base) \<Rightarrow> (False, base)
                  | (True, base) \<Rightarrow>
                      (True, base\<lparr>bb_buf := blit (bb_buf base) offset (replicate len_len 0)\<rparr>)))
               (\<lambda>cbb. (True, cbb\<lparr>cbb_chain :=
                  [zero_fields\<lparr>cbb_offset := offset, cbb_pending_len_len := len_len,
                              cbb_pending_is_asn1 := False\<rparr>]\<rparr>)))"

definition CBB_add_u8_length_prefixed :: "malloc \<Rightarrow> CBB \<Rightarrow> bool \<times> CBB" where
  "CBB_add_u8_length_prefixed M cbb = cbb_add_length_prefixed M cbb 1"

definition CBB_add_u16_length_prefixed :: "malloc \<Rightarrow> CBB \<Rightarrow> bool \<times> CBB" where
  "CBB_add_u16_length_prefixed M cbb = cbb_add_length_prefixed M cbb 2"

definition CBB_add_u24_length_prefixed :: "malloc \<Rightarrow> CBB \<Rightarrow> bool \<times> CBB" where
  "CBB_add_u24_length_prefixed M cbb = cbb_add_length_prefixed M cbb 3"

definition CBB_add_bytes :: "malloc \<Rightarrow> CBB \<Rightarrow> u8 list \<Rightarrow> bool \<times> CBB" where
  "CBB_add_bytes M cbb data =
     cbb_then (CBB_flush M cbb)
       (\<lambda>cbb. on_base cbb (\<lambda>base.
          let dest = bb_len base
          in (case cbb_buffer_add M base (length data) of
                (False, base) \<Rightarrow> (False, base)
              | (True, base) \<Rightarrow> (True, base\<lparr>bb_buf := blit (bb_buf base) dest data\<rparr>))))"

text \<open>
  \<^verbatim>\<open>CBB_add_space\<close> and \<^verbatim>\<open>CBB_reserve\<close> give the caller a pointer to the end of the valid bytes as
  they were; the caller's writes through it are not part of the operation.
\<close>

definition CBB_add_space :: "malloc \<Rightarrow> CBB \<Rightarrow> nat \<Rightarrow> bool \<times> CBB" where
  "CBB_add_space M cbb len =
     cbb_then (CBB_flush M cbb) (\<lambda>cbb. on_base cbb (\<lambda>base. cbb_buffer_add M base len))"

definition CBB_reserve :: "malloc \<Rightarrow> CBB \<Rightarrow> nat \<Rightarrow> bool \<times> CBB" where
  "CBB_reserve M cbb len =
     cbb_then (CBB_flush M cbb) (\<lambda>cbb. on_base cbb (\<lambda>base. cbb_buffer_reserve M base len))"

definition CBB_did_write :: "CBB \<Rightarrow> nat \<Rightarrow> bool \<times> CBB" where
  "CBB_did_write cbb len =
     on_base cbb (\<lambda>base.
       let newlen = size_add (bb_len base) len
       in if cbb_chain cbb \<noteq> [] \<or> newlen < bb_len base \<or> newlen > bb_cap base then (False, base)
          else (True, base\<lparr>bb_len := newlen\<rparr>))"

definition CBB_add_u8 :: "malloc \<Rightarrow> CBB \<Rightarrow> u8 \<Rightarrow> bool \<times> CBB" where
  "CBB_add_u8 M cbb value =
     cbb_then (CBB_flush M cbb) (\<lambda>cbb. on_base cbb (\<lambda>base. cbb_buffer_add_u M base (ucast value) 1))"

definition CBB_add_u16 :: "malloc \<Rightarrow> CBB \<Rightarrow> u16 \<Rightarrow> bool \<times> CBB" where
  "CBB_add_u16 M cbb value =
     cbb_then (CBB_flush M cbb) (\<lambda>cbb. on_base cbb (\<lambda>base. cbb_buffer_add_u M base (ucast value) 2))"

definition CBB_add_u24 :: "malloc \<Rightarrow> CBB \<Rightarrow> u32 \<Rightarrow> bool \<times> CBB" where
  "CBB_add_u24 M cbb value =
     cbb_then (CBB_flush M cbb) (\<lambda>cbb. on_base cbb (\<lambda>base. cbb_buffer_add_u M base value 3))"

definition CBB_add_u32 :: "malloc \<Rightarrow> CBB \<Rightarrow> u32 \<Rightarrow> bool \<times> CBB" where
  "CBB_add_u32 M cbb value =
     cbb_then (CBB_flush M cbb) (\<lambda>cbb. on_base cbb (\<lambda>base. cbb_buffer_add_u M base value 4))"

definition CBB_discard_child :: "CBB \<Rightarrow> CBB" where
  "CBB_discard_child cbb =
     (case cbb_chain cbb of
        [] \<Rightarrow> cbb
      | ch # _ \<Rightarrow>
          cbb\<lparr>cbb_base := map_option (\<lambda>base. base\<lparr>bb_len := cbb_offset ch\<rparr>) (cbb_base cbb),
              cbb_chain := []\<rparr>)"

end
