(* ===== verification/Cbs.thy ===== *)
theory Cbs
  imports Prelude Mem Buf
begin

text \<open>
  \<^verbatim>\<open>crypto/bytestring/cbs.c\<close>: the parser of TLS and DER byte strings. A \<^verbatim>\<open>CBS\<close> (a pointer and a
  length) is the list of the bytes it points at. An operation maps the CBS to what it returns, with
  \<open>None\<close> for the return value zero, and to the CBS it leaves behind, on failure too: several
  operations have already advanced the CBS when they fail. Output parameters are part of the result
  and are given only when the operation returns one; the code writes some of them before it fails,
  which no caller may read. The parsing of OID text is in the theory \<open>Oid\<close>.
\<close>

section \<open>Constants of include/openssl/bytestring.h\<close>

definition CBS_ASN1_TAG_SHIFT :: nat where "CBS_ASN1_TAG_SHIFT = 24"
definition CBS_ASN1_CONSTRUCTED :: u32 where "CBS_ASN1_CONSTRUCTED = 0x20000000"
definition CBS_ASN1_TAG_NUMBER_MASK :: u32 where "CBS_ASN1_TAG_NUMBER_MASK = 0x1fffffff"
definition CBS_ASN1_BOOLEAN :: u32 where "CBS_ASN1_BOOLEAN = 1"
definition CBS_ASN1_INTEGER :: u32 where "CBS_ASN1_INTEGER = 2"
definition CBS_ASN1_BITSTRING :: u32 where "CBS_ASN1_BITSTRING = 3"
definition CBS_ASN1_OCTETSTRING :: u32 where "CBS_ASN1_OCTETSTRING = 4"

section \<open>Bytes and fixed-width integers\<close>

type_synonym CBS = "u8 list"
type_synonym 'a cbs_result = "'a option \<times> CBS"

text \<open>The idiom \<^verbatim>\<open>if (!op(cbs, &v)) { return 0; }\<close> followed by the rest of the function.\<close>

definition cbs_then :: "'a cbs_result \<Rightarrow> ('a \<Rightarrow> CBS \<Rightarrow> 'b cbs_result) \<Rightarrow> 'b cbs_result" where
  "cbs_then r k = (case r of (None, cbs) \<Rightarrow> (None, cbs) | (Some v, cbs) \<Rightarrow> k v cbs)"

definition CBS_init :: "u8 list \<Rightarrow> nat \<Rightarrow> CBS" where
  "CBS_init data len = take len data"

definition cbs_get :: "CBS \<Rightarrow> nat \<Rightarrow> u8 list cbs_result" where
  "cbs_get cbs n = (if length cbs < n then (None, cbs) else (Some (take n cbs), drop n cbs))"

definition CBS_skip :: "CBS \<Rightarrow> nat \<Rightarrow> unit cbs_result" where
  "CBS_skip cbs len = cbs_then (cbs_get cbs len) (\<lambda>_ cbs. (Some (), cbs))"

definition CBS_data :: "CBS \<Rightarrow> u8 list" where
  "CBS_data cbs = cbs"

definition CBS_len :: "CBS \<Rightarrow> nat" where
  "CBS_len cbs = length cbs"

definition CBS_contains_zero_byte :: "CBS \<Rightarrow> bool" where
  "CBS_contains_zero_byte cbs = (0 \<in> set cbs)"

definition CBS_mem_equal :: "CBS \<Rightarrow> u8 list \<Rightarrow> nat \<Rightarrow> bool" where
  "CBS_mem_equal cbs data len =
     (if len \<noteq> CBS_len cbs then False else CRYPTO_memcmp cbs data len = 0)"

definition cbs_get_u :: "CBS \<Rightarrow> nat \<Rightarrow> u32 cbs_result" where
  "cbs_get_u cbs len =
     cbs_then (cbs_get cbs len)
       (\<lambda>data cbs. (Some (foldl (\<lambda>result b. push_bit 8 result OR ucast b) 0 data), cbs))"

definition CBS_get_u8 :: "CBS \<Rightarrow> u8 cbs_result" where
  "CBS_get_u8 cbs = cbs_then (cbs_get cbs 1) (\<lambda>v cbs. (Some (v ! 0), cbs))"

definition CBS_get_u16 :: "CBS \<Rightarrow> u16 cbs_result" where
  "CBS_get_u16 cbs = cbs_then (cbs_get_u cbs 2) (\<lambda>v cbs. (Some (ucast v), cbs))"

definition CBS_get_u24 :: "CBS \<Rightarrow> u32 cbs_result" where
  "CBS_get_u24 cbs = cbs_get_u cbs 3"

definition CBS_get_u32 :: "CBS \<Rightarrow> u32 cbs_result" where
  "CBS_get_u32 cbs = cbs_get_u cbs 4"

definition CBS_get_last_u8 :: "CBS \<Rightarrow> u8 cbs_result" where
  "CBS_get_last_u8 cbs =
     (if length cbs = 0 then (None, cbs)
      else (Some (cbs ! (length cbs - 1)), take (length cbs - 1) cbs))"

definition CBS_get_bytes :: "CBS \<Rightarrow> nat \<Rightarrow> CBS cbs_result" where
  "CBS_get_bytes cbs len = cbs_then (cbs_get cbs len) (\<lambda>v cbs. (Some (CBS_init v len), cbs))"

text \<open>\<open>out\<close> is the caller's buffer; the result is the buffer after the copy.\<close>

definition CBS_copy_bytes :: "CBS \<Rightarrow> u8 list \<Rightarrow> nat \<Rightarrow> u8 list cbs_result" where
  "CBS_copy_bytes cbs out len = cbs_then (cbs_get cbs len) (\<lambda>v cbs. (Some (blit out 0 v), cbs))"

definition cbs_get_length_prefixed :: "CBS \<Rightarrow> nat \<Rightarrow> CBS cbs_result" where
  "cbs_get_length_prefixed cbs len_len =
     cbs_then (cbs_get_u cbs len_len) (\<lambda>len cbs. CBS_get_bytes cbs (unat len))"

definition CBS_get_u8_length_prefixed :: "CBS \<Rightarrow> CBS cbs_result" where
  "CBS_get_u8_length_prefixed cbs = cbs_get_length_prefixed cbs 1"

definition CBS_get_u16_length_prefixed :: "CBS \<Rightarrow> CBS cbs_result" where
  "CBS_get_u16_length_prefixed cbs = cbs_get_length_prefixed cbs 2"

definition CBS_get_u24_length_prefixed :: "CBS \<Rightarrow> CBS cbs_result" where
  "CBS_get_u24_length_prefixed cbs = cbs_get_length_prefixed cbs 3"

section \<open>Identifier and length octets\<close>

text \<open>
  The loop of \<^verbatim>\<open>parse_base128_integer\<close>: each iteration reads one octet (\<^verbatim>\<open>CBS_get_u8\<close> fails on the
  empty CBS) and the loop goes on while the octet has its high bit set.
\<close>

fun parse_base128_loop :: "u64 \<Rightarrow> CBS \<Rightarrow> u64 cbs_result" where
  "parse_base128_loop v [] = (None, [])"
| "parse_base128_loop v (b # cbs) =
     (if drop_bit (64 - 7) v \<noteq> 0 then (None, cbs)
      else if v = 0 \<and> b = 0x80 then (None, cbs)
      else let v' = push_bit 7 v OR ucast (b AND 0x7f)
           in if b AND 0x80 \<noteq> 0 then parse_base128_loop v' cbs else (Some v', cbs))"

definition parse_base128_integer :: "CBS \<Rightarrow> u64 cbs_result" where
  "parse_base128_integer cbs = parse_base128_loop 0 cbs"

definition parse_asn1_tag :: "CBS \<Rightarrow> u32 cbs_result" where
  "parse_asn1_tag cbs =
     cbs_then (CBS_get_u8 cbs)
       (\<lambda>tag_byte cbs.
          let tag = push_bit CBS_ASN1_TAG_SHIFT (ucast tag_byte AND 0xe0) :: u32;
              tag_number = ucast (tag_byte AND 0x1f) :: u32
          in if tag_number = 0x1f
             then cbs_then (parse_base128_integer cbs)
               (\<lambda>v cbs. if v > ucast CBS_ASN1_TAG_NUMBER_MASK \<or> v < 0x1f then (None, cbs)
                         else (Some (tag OR ucast v), cbs))
             else (Some (tag OR tag_number), cbs))"

text \<open>
  The parser of one element works on a copy of the CBS (\<open>header\<close>); \<open>cbs\<close> itself is advanced by the
  final \<^verbatim>\<open>CBS_get_bytes\<close> only. The result is the element with its header, its tag and the length of
  its header. \<^verbatim>\<open>size_t\<close> has 64 bits, so the guarded sum \<^verbatim>\<open>len + header_len + num_bytes\<close> is written
  with its wrap-around.
\<close>

definition cbs_get_any_asn1_element :: "CBS \<Rightarrow> bool \<Rightarrow> (CBS \<times> u32 \<times> nat) cbs_result" where
  "cbs_get_any_asn1_element cbs ber_ok =
     (let get = (\<lambda>len tag header_len.
                   cbs_then (CBS_get_bytes cbs len)
                     (\<lambda>out cbs. (Some (out, tag, header_len), cbs)))
      in case parse_asn1_tag cbs of
        (None, _) \<Rightarrow> (None, cbs)
      | (Some tag, header) \<Rightarrow>
       (case CBS_get_u8 header of
          (None, _) \<Rightarrow> (None, cbs)
        | (Some length_byte, header) \<Rightarrow>
            let header_len = CBS_len cbs - CBS_len header
            in if length_byte AND 0x80 = 0
               then get (unat length_byte + header_len) tag header_len
               else let num_bytes = unat (length_byte AND 0x7f)
                    in if ber_ok \<and> tag AND CBS_ASN1_CONSTRUCTED \<noteq> 0 \<and> num_bytes = 0
                       then get header_len tag header_len
                       else if num_bytes = 0 \<or> num_bytes > 4 then (None, cbs)
                       else (case cbs_get_u header num_bytes of
                          (None, _) \<Rightarrow> (None, cbs)
                        | (Some len32, _) \<Rightarrow>
                            if len32 < 128 then (None, cbs)
                            else if drop_bit ((num_bytes - 1) * 8) len32 = 0 then (None, cbs)
                            else let len = unat len32;
                                     total = size_add (size_add len header_len) num_bytes
                                 in if total < len then (None, cbs)
                                    else get total tag (header_len + num_bytes))))"

definition CBS_get_any_asn1_element :: "CBS \<Rightarrow> (CBS \<times> u32 \<times> nat) cbs_result" where
  "CBS_get_any_asn1_element cbs = cbs_get_any_asn1_element cbs False"

definition CBS_get_any_ber_asn1_element :: "CBS \<Rightarrow> (CBS \<times> u32 \<times> nat) cbs_result" where
  "CBS_get_any_ber_asn1_element cbs = cbs_get_any_asn1_element cbs True"

text \<open>
  \<^verbatim>\<open>CBS_get_any_asn1\<close> passes its \<open>out\<close> parameter on to \<^verbatim>\<open>CBS_skip\<close>, which dereferences it, so the
  case of a NULL \<open>out\<close> is kept in the model.
\<close>

datatype 'r outcome = Returned 'r | Null_dereference

definition CBS_get_any_asn1 :: "bool \<Rightarrow> CBS \<Rightarrow> (CBS \<times> u32) cbs_result outcome" where
  "CBS_get_any_asn1 out_is_null cbs =
     (case CBS_get_any_asn1_element cbs of
        (None, cbs) \<Rightarrow> Returned (None, cbs)
      | (Some (out, tag, header_len), cbs) \<Rightarrow>
          if out_is_null then Null_dereference
          else (case CBS_skip out header_len of
                  (None, _) \<Rightarrow> Returned (None, cbs)
                | (Some _, out) \<Rightarrow> Returned (Some (out, tag), cbs)))"

definition cbs_get_asn1 :: "CBS \<Rightarrow> u32 \<Rightarrow> bool \<Rightarrow> CBS cbs_result" where
  "cbs_get_asn1 cbs tag_value skip_header =
     cbs_then (CBS_get_any_asn1_element cbs)
       (\<lambda>(out, tag, header_len) cbs.
          if tag \<noteq> tag_value then (None, cbs)
          else if skip_header
          then (case CBS_skip out header_len of
                  (None, _) \<Rightarrow> (None, cbs)
                | (Some _, out) \<Rightarrow> (Some out, cbs))
          else (Some out, cbs))"

definition CBS_get_asn1 :: "CBS \<Rightarrow> u32 \<Rightarrow> CBS cbs_result" where
  "CBS_get_asn1 cbs tag_value = cbs_get_asn1 cbs tag_value True"

definition CBS_get_asn1_element :: "CBS \<Rightarrow> u32 \<Rightarrow> CBS cbs_result" where
  "CBS_get_asn1_element cbs tag_value = cbs_get_asn1 cbs tag_value False"

definition CBS_peek_asn1_tag :: "CBS \<Rightarrow> u32 \<Rightarrow> bool" where
  "CBS_peek_asn1_tag cbs tag_value =
     (if CBS_len cbs < 1 then False
      else (case parse_asn1_tag cbs of
              (None, _) \<Rightarrow> False
            | (Some actual_tag, _) \<Rightarrow> tag_value = actual_tag))"

section \<open>Integers, booleans and optional elements\<close>

text \<open>The loop of \<^verbatim>\<open>CBS_get_asn1_uint64\<close>: each octet is shifted in unless the top one is in use.\<close>

fun get_asn1_uint64_loop :: "u64 \<Rightarrow> u8 list \<Rightarrow> u64 option" where
  "get_asn1_uint64_loop out [] = Some out"
| "get_asn1_uint64_loop out (b # data) =
     (if drop_bit 56 out \<noteq> 0 then None
      else get_asn1_uint64_loop (push_bit 8 out OR ucast b) data)"

definition CBS_get_asn1_uint64 :: "CBS \<Rightarrow> u64 cbs_result" where
  "CBS_get_asn1_uint64 cbs =
     cbs_then (CBS_get_asn1 cbs CBS_ASN1_INTEGER)
       (\<lambda>bytes cbs.
          let data = CBS_data bytes; len = CBS_len bytes
          in if len = 0 then (None, cbs)
             else if data ! 0 AND 0x80 \<noteq> 0 then (None, cbs)
             else if data ! 0 = 0 \<and> len > 1 \<and> data ! 1 AND 0x80 = 0 then (None, cbs)
             else (get_asn1_uint64_loop 0 data, cbs))"

definition CBS_get_asn1_bool :: "CBS \<Rightarrow> bool cbs_result" where
  "CBS_get_asn1_bool cbs =
     cbs_then (CBS_get_asn1 cbs CBS_ASN1_BOOLEAN)
       (\<lambda>bytes cbs.
          if CBS_len bytes \<noteq> 1 then (None, cbs)
          else let value = CBS_data bytes ! 0
               in if value \<noteq> 0 \<and> value \<noteq> 0xff then (None, cbs) else (Some (value \<noteq> 0), cbs))"

text \<open>\<open>Some c\<close> stands for \<^verbatim>\<open>*out_present = 1\<close> with the contents \<open>c\<close> in \<^verbatim>\<open>*out\<close>.\<close>

definition CBS_get_optional_asn1 :: "CBS \<Rightarrow> u32 \<Rightarrow> CBS option cbs_result" where
  "CBS_get_optional_asn1 cbs tag =
     (if CBS_peek_asn1_tag cbs tag
      then cbs_then (CBS_get_asn1 cbs tag) (\<lambda>out cbs. (Some (Some out), cbs))
      else (Some None, cbs))"

text \<open>The result is the string (empty when the element is absent) and \<^verbatim>\<open>*out_present\<close>.\<close>

definition CBS_get_optional_asn1_octet_string :: "CBS \<Rightarrow> u32 \<Rightarrow> (CBS \<times> bool) cbs_result" where
  "CBS_get_optional_asn1_octet_string cbs tag =
     cbs_then (CBS_get_optional_asn1 cbs tag)
       (\<lambda>present cbs.
          case present of
            Some child \<Rightarrow>
              (case CBS_get_asn1 child CBS_ASN1_OCTETSTRING of
                 (None, _) \<Rightarrow> (None, cbs)
               | (Some out, child) \<Rightarrow>
                   if CBS_len child \<noteq> 0 then (None, cbs) else (Some (out, True), cbs))
          | None \<Rightarrow> (Some ([], False), cbs))"

definition CBS_get_optional_asn1_uint64 :: "CBS \<Rightarrow> u32 \<Rightarrow> u64 \<Rightarrow> u64 cbs_result" where
  "CBS_get_optional_asn1_uint64 cbs tag default_value =
     cbs_then (CBS_get_optional_asn1 cbs tag)
       (\<lambda>present cbs.
          case present of
            Some child \<Rightarrow>
              (case CBS_get_asn1_uint64 child of
                 (None, _) \<Rightarrow> (None, cbs)
               | (Some out, child) \<Rightarrow>
                   if CBS_len child \<noteq> 0 then (None, cbs) else (Some out, cbs))
          | None \<Rightarrow> (Some default_value, cbs))"

definition CBS_get_optional_asn1_bool :: "CBS \<Rightarrow> u32 \<Rightarrow> int \<Rightarrow> int cbs_result" where
  "CBS_get_optional_asn1_bool cbs tag default_value =
     cbs_then (CBS_get_optional_asn1 cbs tag)
       (\<lambda>present cbs.
          case present of
            Some child \<Rightarrow>
              (case CBS_get_asn1 child CBS_ASN1_BOOLEAN of
                 (None, _) \<Rightarrow> (None, cbs)
               | (Some child2, child) \<Rightarrow>
                   if CBS_len child2 \<noteq> 1 \<or> CBS_len child \<noteq> 0 then (None, cbs)
                   else let boolean = CBS_data child2 ! 0
                        in if boolean = 0 then (Some 0, cbs)
                           else if boolean = 0xff then (Some 1, cbs)
                           else (None, cbs))
          | None \<Rightarrow> (Some default_value, cbs))"

section \<open>Bit strings\<close>

definition CBS_is_valid_asn1_bitstring :: "CBS \<Rightarrow> bool" where
  "CBS_is_valid_asn1_bitstring cbs =
     (case CBS_get_u8 cbs of
        (None, _) \<Rightarrow> False
      | (Some num_unused_bits, inp) \<Rightarrow>
          if num_unused_bits > 7 then False
          else if num_unused_bits = 0 then True
          else (case CBS_get_last_u8 inp of
                  (None, _) \<Rightarrow> False
                | (Some last_byte, _) \<Rightarrow>
                    last_byte AND (push_bit (unat num_unused_bits) 1 - 1) = 0))"

definition CBS_asn1_bitstring_has_bit :: "CBS \<Rightarrow> u32 \<Rightarrow> bool" where
  "CBS_asn1_bitstring_has_bit cbs bit_index =
     (if \<not> CBS_is_valid_asn1_bitstring cbs then False
      else let byte_num = unat (drop_bit 3 bit_index + 1);
               bit_num = unat (7 - (bit_index AND 7))
           in byte_num < CBS_len cbs \<and> CBS_data cbs ! byte_num AND push_bit bit_num 1 \<noteq> 0)"

section \<open>Copies\<close>

text \<open>\<^verbatim>\<open>CBS_stow\<close> frees the old buffer; the result is \<^verbatim>\<open>*out_ptr\<close>, \<^verbatim>\<open>*out_len\<close> and the return value.\<close>

definition CBS_stow :: "malloc \<Rightarrow> CBS \<Rightarrow> u8 list option \<times> nat \<times> bool" where
  "CBS_stow M cbs =
     (if length cbs = 0 then (None, 0, True)
      else (case BUF_memdup M cbs (length cbs) of
              None \<Rightarrow> (None, 0, False)
            | Some p \<Rightarrow> (Some p, length cbs, True)))"

definition CBS_strdup :: "malloc \<Rightarrow> CBS \<Rightarrow> u8 list option" where
  "CBS_strdup M cbs = BUF_strndup M (Some cbs) (length cbs)"

end
