(* ===== verification/Der.thy ===== *)
theory Der
  imports Cbs Codec
begin

text \<open>
  The reference meaning of the byte strings that \<^verbatim>\<open>cbs.c\<close> parses and \<^verbatim>\<open>cbb.c\<close> writes: base-128
  integers, identifier octets, length octets and whole elements of the distinguished encoding
  rules, as functions on numbers and lists. The theorems show that the parser accepts exactly these
  strings, so a parsed element is always the canonical one.
\<close>

section \<open>Reference encodings\<close>

fun base128_hi :: "nat \<Rightarrow> u8 list" where
  "base128_hi n = (if n = 0 then [] else base128_hi (n div 128) @ [of_nat (n mod 128 + 128)])"

declare base128_hi.simps [simp del]

definition base128 :: "nat \<Rightarrow> u8 list" where
  "base128 n = base128_hi (n div 128) @ [of_nat (n mod 128)]"

definition der_tag :: "u32 \<Rightarrow> u8 list" where
  "der_tag tag =
     (let leading = unat tag div 2 ^ 29 * 32; number = unat tag mod 2 ^ 29
      in if number < 31 then [of_nat (leading + number)]
         else of_nat (leading + 31) # base128 number)"

text \<open>The number of octets of a length in the long form, for lengths below \<open>2 ^ 32\<close>.\<close>

definition length_octets :: "nat \<Rightarrow> nat" where
  "length_octets n = (if n < 2 ^ 8 then 1 else if n < 2 ^ 16 then 2 else if n < 2 ^ 24 then 3 else 4)"

definition der_length :: "nat \<Rightarrow> u8 list" where
  "der_length n =
     (if n < 128 then [of_nat n] else of_nat (128 + length_octets n) # be_bytes (length_octets n) n)"

definition der_element :: "u32 \<Rightarrow> u8 list \<Rightarrow> u8 list" where
  "der_element tag contents = der_tag tag @ der_length (length contents) @ contents"

section \<open>Base-128 integers\<close>

lemma base128_hi_0 [simp]: "base128_hi 0 = []"
  by (simp add: base128_hi.simps)

lemma base128_hi_step:
  "0 < v * 128 + d \<Longrightarrow> d < 128 \<Longrightarrow> base128_hi (v * 128 + d) = base128_hi v @ [of_nat (d + 128)]"
  by (simp add: base128_hi.simps [of "v * 128 + d"])

lemma high_octet_nat: "128 \<le> n \<Longrightarrow> n < 256 \<Longrightarrow> n mod 128 + 128 = (n :: nat)"
  by (simp add: le_mod_geq)

lemma u8_high: "128 \<le> unat (b :: u8) \<Longrightarrow> of_nat (unat b mod 128 + 128) = b"
  by (simp only: high_octet_nat unat_u8_less of_nat_unat ucast_id)

lemma u8_low: "unat (b :: u8) < 128 \<Longrightarrow> of_nat (unat b mod 128) = b"
  by simp

lemma unat_of_nat_u8: "n < 256 \<Longrightarrow> unat (of_nat n :: u8) = n"
  by (simp add: unsigned_of_nat take_bit_nat_eq_self)

lemma unat_of_nat_u64: "n < 2 ^ 64 \<Longrightarrow> unat (of_nat n :: u64) = n"
  by (simp add: unsigned_of_nat take_bit_nat_eq_self)

text \<open>One iteration of the loop on numbers.\<close>

lemma base128_accumulate:
  assumes "drop_bit (64 - 7) (v :: u64) = 0"
  shows "unat (push_bit 7 v OR ucast (b AND 0x7f :: u8)) = unat v * 128 + unat b mod 128"
proof -
  have w: "unat (ucast (b AND 0x7f :: u8) :: u64) = unat b mod 128"
    by (simp only: unsigned_ucast_eq u8_and_7f) (simp add: take_bit_nat_eq_self)
  from assms have "unat v < 2 ^ 57" by (simp only: drop_bit_zero) simp
  then have fits: "unat v * 2 ^ 7 < 2 ^ LENGTH(64)" by simp
  have small: "unat (ucast (b AND 0x7f :: u8) :: u64) < 2 ^ 7" by (simp only: w) simp
  show ?thesis by (simp only: unat_push_or [OF small fits] w) simp
qed

lemma parse_base128_loop_hi:
  "n < 2 ^ 64 \<Longrightarrow> parse_base128_loop 0 (base128_hi n @ rest) = parse_base128_loop (of_nat n) rest"
proof (induction n arbitrary: rest rule: base128_hi.induct)
  case (1 n)
  show ?case
  proof (cases "n = 0")
    case False
    define v b where "v = (of_nat (n div 128) :: u64)" and "b = (of_nat (n mod 128 + 128) :: u8)"
    have v: "unat v = n div 128" unfolding v_def using "1.prems" by (intro unat_of_nat_u64) simp
    have b: "unat b = n mod 128 + 128" unfolding b_def by (intro unat_of_nat_u8) simp
    have top: "drop_bit (64 - 7) v = 0" using "1.prems" by (simp only: drop_bit_zero v) simp
    have minimal: "\<not> (v = 0 \<and> b = 0x80)"
    proof
      assume *: "v = 0 \<and> b = 0x80"
      then have "n div 128 = 0" "n mod 128 = 0" using v b by (auto simp: unat_eq_0)
      with False show False using div_mult_mod_eq [of n 128] by simp
    qed
    have acc: "push_bit 7 v OR ucast (b AND 0x7f) = of_nat n"
    proof (rule unsigned_word_eqI [where ?'a = nat])
      show "unat (push_bit 7 v OR ucast (b AND 0x7f)) = unat (of_nat n :: u64)"
        using "1.prems" by (simp only: base128_accumulate [OF top] unat_of_nat_u64 v b) simp
    qed
    have more: "b AND 0x80 \<noteq> 0" by (simp add: u8_and_80 b)
    have "parse_base128_loop 0 (base128_hi n @ rest) = parse_base128_loop v (b # rest)"
      using "1.IH" [OF False, of "b # rest"] "1.prems" False
      by (simp add: base128_hi.simps [of n] v_def b_def)
    also have "\<dots> = parse_base128_loop (of_nat n) rest"
      unfolding parse_base128_loop.simps(2) Let_def acc using top minimal more by (simp only: if_False if_True simp_thms)
    finally show ?thesis .
  qed simp
qed

theorem parse_base128_integer_base128:
  assumes "n < 2 ^ 64"
  shows "parse_base128_integer (base128 n @ rest) = (Some (of_nat n), rest)"
proof -
  define v b where "v = (of_nat (n div 128) :: u64)" and "b = (of_nat (n mod 128) :: u8)"
  have v: "unat v = n div 128" unfolding v_def using assms by (intro unat_of_nat_u64) simp
  have b: "unat b = n mod 128" unfolding b_def by (intro unat_of_nat_u8) (simp add: less_trans [of _ 128])
  have top: "drop_bit (64 - 7) v = 0" using assms by (simp only: drop_bit_zero v) simp
  have minimal: "\<not> (v = 0 \<and> b = 0x80)"
  proof
    assume "v = 0 \<and> b = 0x80"
    then have "unat b = 128" by simp
    with b show False using mod_less_divisor [of 128 n] by simp
  qed
  have acc: "push_bit 7 v OR ucast (b AND 0x7f) = of_nat n"
  proof (rule unsigned_word_eqI [where ?'a = nat])
    show "unat (push_bit 7 v OR ucast (b AND 0x7f)) = unat (of_nat n :: u64)"
      using assms by (simp only: base128_accumulate [OF top] unat_of_nat_u64 v b) simp
  qed
  have last: "b AND 0x80 = 0" by (simp add: u8_and_80 b)
  have "parse_base128_integer (base128 n @ rest) = parse_base128_loop v (b # rest)"
    using parse_base128_loop_hi [of "n div 128" "b # rest"] assms
    by (simp add: parse_base128_integer_def base128_def v_def b_def)
  also have "\<dots> = (Some (of_nat n), rest)"
    unfolding parse_base128_loop.simps(2) Let_def acc using top minimal last by (simp only: if_False simp_thms)
  finally show ?thesis .
qed

lemma parse_base128_loop_canonical:
  "parse_base128_loop v cbs = (Some r, rest) \<Longrightarrow> base128_hi (unat v) @ cbs = base128 (unat r) @ rest"
proof (induction cbs arbitrary: v)
  case Nil
  then show ?case by simp
next
  case (Cons b cbs)
  from Cons.prems have top: "drop_bit (64 - 7) v = 0" and minimal: "\<not> (v = 0 \<and> b = 0x80)"
    by (auto split: if_splits)
  define v' where "v' = push_bit 7 v OR ucast (b AND 0x7f)"
  have v': "unat v' = unat v * 128 + unat b mod 128"
    unfolding v'_def by (rule base128_accumulate [OF top])
  show ?case
  proof (cases "b AND 0x80 = 0")
    case True
    with Cons.prems top minimal have r: "r = v'" "rest = cbs"
      by (auto simp: v'_def Let_def)
    from True have "unat b < 128" by (simp only: u8_and_80)
    then show ?thesis by (simp add: r base128_def v' u8_low)
  next
    case False
    with Cons.prems top minimal have "parse_base128_loop v' cbs = (Some r, rest)"
      by (auto simp: v'_def Let_def split: if_splits)
    then have IH: "base128_hi (unat v') @ cbs = base128 (unat r) @ rest" by (rule Cons.IH)
    from False have b: "128 \<le> unat b" by (simp add: u8_and_80 not_less)
    have "0 < unat v * 128 + unat b mod 128"
    proof (rule ccontr)
      assume "\<not> ?thesis"
      then have "unat v = 0" "unat b mod 128 = 0" by auto
      moreover from this b have "unat b = 128"
        using high_octet_nat [OF b unat_u8_less] by simp
      ultimately have "v = 0 \<and> b = 0x80" by (simp add: unat_eq_0 word_eq_iff_unsigned [of b, where ?'a = nat])
      with minimal show False ..
    qed
    then have "base128_hi (unat v') = base128_hi (unat v) @ [b]"
      by (simp only: v' base128_hi_step u8_high [OF b] mod_less_divisor zero_less_numeral)
    with IH show ?thesis by simp
  qed
qed

theorem parse_base128_integer_canonical:
  "parse_base128_integer cbs = (Some r, rest) \<Longrightarrow> cbs = base128 (unat r) @ rest"
  using parse_base128_loop_canonical [of 0 cbs r rest] by (simp add: parse_base128_integer_def)

section \<open>Identifier octets\<close>

lemma nat_and_leading: "n < 256 \<Longrightarrow> n AND 0xe0 = n div 32 * (32 :: nat)"
proof -
  assume "n < 256"
  have "(0xe0 :: nat) = push_bit 5 (mask 3)" by (simp add: mask_eq_exp_minus_1)
  then have "n AND 0xe0 = push_bit 5 (take_bit 3 (drop_bit 5 n))" by (simp only: and_shifted_mask)
  also have "\<dots> = n div 32 * 32"
    using \<open>n < 256\<close> by (simp add: push_bit_eq_mult drop_bit_eq_div take_bit_eq_mod)
  finally show ?thesis .
qed

lemma u8_and_1f: "unat (b AND 0x1f :: u8) = unat b mod 32"
proof -
  have "b AND 0x1f = take_bit 5 b" by (simp only: take_bit_eq_mask mask_eq_exp_minus_1) simp
  then show ?thesis by (simp only: unsigned_take_bit_eq) (simp add: take_bit_eq_mod)
qed

lemma unat_ucast_u8_u32 [simp]: "unat (ucast (b :: u8) :: u32) = unat b"
proof -
  have "unat b < 2 ^ LENGTH(32)" by (rule less_le_trans [OF unat_u8_less]) simp
  then show ?thesis by (simp only: unsigned_ucast_eq take_bit_nat_eq_self)
qed

lemma unat_tag_class:
  "unat (push_bit CBS_ASN1_TAG_SHIFT (ucast (b :: u8) AND 0xe0) :: u32) = unat b div 32 * 2 ^ 29"
proof -
  have w: "unat (ucast b AND 0xe0 :: u32) = unat b div 32 * 32"
    by (simp only: unsigned_and_eq unat_ucast_u8_u32) (simp add: nat_and_leading)
  have "unat b div 32 < 8" by (simp add: div_less_iff_less_mult)
  then have "unat (ucast b AND 0xe0 :: u32) * 2 ^ 24 < 2 ^ LENGTH(32)" unfolding w by simp
  then show ?thesis unfolding CBS_ASN1_TAG_SHIFT_def by (simp only: unat_push_bit w) simp
qed

lemma unat_tag_or:
  assumes "unat n < 2 ^ 29"
  shows "unat (push_bit CBS_ASN1_TAG_SHIFT (ucast (b :: u8) AND 0xe0) OR (n :: u32))
           = unat b div 32 * 2 ^ 29 + unat n"
  by (simp only: unsigned_or_eq unat_tag_class nat_mult_or [OF assms])

lemma unat_u32_less: "unat (w :: u32) < 2 ^ 32"
  using unsigned_less [of w, where ?'a = nat] by simp

lemma CBS_get_u8_simps [simp]:
  "CBS_get_u8 [] = (None, [])"
  "CBS_get_u8 (b # cbs) = (Some b, cbs)"
  by (simp_all add: CBS_get_u8_def cbs_get_def cbs_then_def)

lemma unat_tag_limit: "unat (ucast CBS_ASN1_TAG_NUMBER_MASK :: u64) = 2 ^ 29 - 1"
  by (simp add: CBS_ASN1_TAG_NUMBER_MASK_def)

text \<open>The parser of identifier octets accepts exactly the canonical ones.\<close>

theorem parse_asn1_tag_der: "parse_asn1_tag (der_tag tag @ rest) = (Some tag, rest)"
proof -
  define l n where "l = unat tag div 2 ^ 29" and "n = unat tag mod 2 ^ 29"
  have l: "l < 8" unfolding l_def using unat_u32_less [of tag] by (simp add: less_mult_imp_div_less)
  have n: "n < 2 ^ 29" unfolding n_def by simp
  have tag: "unat tag = l * 2 ^ 29 + n" unfolding l_def n_def by (simp only: div_mult_mod_eq)
  have u32: "unat (of_nat n :: u32) = n"
    using n by (simp add: unsigned_of_nat take_bit_nat_eq_self)
  show ?thesis
  proof (cases "n < 31")
    case True
    define b where "b = (of_nat (l * 32 + n) :: u8)"
    have b: "unat b = l * 32 + n" unfolding b_def using l True by (intro unat_of_nat_u8) simp
    have low: "(ucast (b AND 0x1f) :: u32) = of_nat n"
      by (rule unsigned_word_eqI [where ?'a = nat])
        (simp only: unat_ucast_u8_u32 u8_and_1f b u32, use True in simp)
    have "push_bit CBS_ASN1_TAG_SHIFT (ucast b AND 0xe0) OR of_nat n = tag"
    proof (rule unsigned_word_eqI [where ?'a = nat])
      have small: "unat (of_nat n :: u32) < 2 ^ 29" by (simp only: u32 n)
      have q: "(l * 32 + n) div 32 = l" using True by simp
      show "unat (push_bit CBS_ASN1_TAG_SHIFT (ucast b AND 0xe0) OR of_nat n :: u32) = unat tag"
        using unat_tag_or [OF small, of b] by (simp only: u32 b tag q)
    qed
    moreover have "(of_nat n :: u32) \<noteq> 0x1f"
    proof
      assume "(of_nat n :: u32) = 0x1f"
      then have "unat (of_nat n :: u32) = 31" by simp
      with u32 True show False by simp
    qed
    moreover have "der_tag tag = [b]"
      using True unfolding der_tag_def Let_def b_def l_def [symmetric] n_def [symmetric] by simp
    ultimately show ?thesis by (simp add: parse_asn1_tag_def cbs_then_def low Let_def)
  next
    case False
    define b where "b = (of_nat (l * 32 + 31) :: u8)"
    have b: "unat b = l * 32 + 31" unfolding b_def using l by (intro unat_of_nat_u8) simp
    have low: "(ucast (b AND 0x1f) :: u32) = 0x1f"
      by (rule unsigned_word_eqI [where ?'a = nat])
        (simp only: unat_ucast_u8_u32 u8_and_1f b, simp)
    define v where "v = (of_nat n :: u64)"
    have v: "unat v = n" unfolding v_def using n by (intro unat_of_nat_u64) simp
    have p: "parse_base128_integer (base128 n @ rest) = (Some v, rest)"
      unfolding v_def using n by (intro parse_base128_integer_base128) simp
    have range: "\<not> v > ucast CBS_ASN1_TAG_NUMBER_MASK" "\<not> v < 0x1f"
      using n False by (simp_all only: word_less_nat_alt v unat_tag_limit) simp_all
    have "(ucast v :: u32) = of_nat n" unfolding v_def using n
      by (intro unsigned_word_eqI [where ?'a = nat])
        (simp add: unsigned_ucast_eq unsigned_of_nat take_bit_nat_eq_self)
    moreover have "push_bit CBS_ASN1_TAG_SHIFT (ucast b AND 0xe0) OR of_nat n = tag"
    proof (rule unsigned_word_eqI [where ?'a = nat])
      have small: "unat (of_nat n :: u32) < 2 ^ 29" by (simp only: u32 n)
      have q: "(l * 32 + 31) div 32 = l" by simp
      show "unat (push_bit CBS_ASN1_TAG_SHIFT (ucast b AND 0xe0) OR of_nat n :: u32) = unat tag"
        using unat_tag_or [OF small, of b] by (simp only: u32 b tag q)
    qed
    moreover have "der_tag tag = b # base128 n"
      using False unfolding der_tag_def Let_def b_def l_def [symmetric] n_def [symmetric] by simp
    ultimately show ?thesis
      using range by (simp add: parse_asn1_tag_def cbs_then_def low Let_def p)
  qed
qed

theorem parse_asn1_tag_canonical:
  assumes "parse_asn1_tag cbs = (Some tag, rest)"
  shows "cbs = der_tag tag @ rest"
proof (cases cbs)
  case Nil
  with assms show ?thesis by (simp add: parse_asn1_tag_def cbs_then_def)
next
  case (Cons b cbs')
  have l: "unat b div 32 < 8" by (simp add: div_less_iff_less_mult)
  show ?thesis
  proof (cases "(ucast (b AND 0x1f) :: u32) = 0x1f")
    case True
    then have "unat (ucast (b AND 0x1f) :: u32) = 31" by simp
    then have b31: "unat b mod 32 = 31" by (simp only: unat_ucast_u8_u32 u8_and_1f)
    from assms Cons True obtain v where
      v: "parse_base128_integer cbs' = (Some v, rest)"
      and range: "\<not> v > ucast CBS_ASN1_TAG_NUMBER_MASK" "\<not> v < 0x1f"
      and tag: "tag = push_bit CBS_ASN1_TAG_SHIFT (ucast b AND 0xe0) OR ucast v"
      by (auto simp: parse_asn1_tag_def cbs_then_def Let_def split: prod.splits option.splits if_splits)
    from range have bounds: "unat v < 2 ^ 29" "31 \<le> unat v"
      by (simp_all only: word_less_nat_alt unat_tag_limit not_less) simp_all
    have uv: "unat (ucast v :: u32) = unat v"
      using bounds(1) by (simp add: unsigned_ucast_eq take_bit_nat_eq_self)
    have t: "unat tag = unat b div 32 * 2 ^ 29 + unat v"
      unfolding tag by (simp only: unat_tag_or uv bounds(1))
    have q: "unat tag div 2 ^ 29 = unat b div 32" and m: "unat tag mod 2 ^ 29 = unat v"
      using bounds(1) by (simp_all add: t)
    have "of_nat (unat b div 32 * 32 + 31) = b"
      using b31 by (metis div_mult_mod_eq of_nat_unat ucast_id)
    then have "der_tag tag = b # base128 (unat v)"
      using bounds(2) unfolding der_tag_def Let_def q m by simp
    then show ?thesis using parse_base128_integer_canonical [OF v] Cons by simp
  next
    case False
    define n where "n = unat b mod 32"
    have "n \<noteq> 31"
    proof
      assume "n = 31"
      then have "unat (ucast (b AND 0x1f) :: u32) = 31"
        by (simp only: unat_ucast_u8_u32 u8_and_1f n_def)
      then have "(ucast (b AND 0x1f) :: u32) = 0x1f"
        by (intro unsigned_word_eqI [where ?'a = nat]) simp
      with False show False by simp
    qed
    then have n: "n < 31" using mod_less_divisor [of 32 "unat b"] unfolding n_def by simp
    from assms Cons False have rest: "rest = cbs'"
      and tag: "tag = push_bit CBS_ASN1_TAG_SHIFT (ucast b AND 0xe0) OR ucast (b AND 0x1f)"
      by (auto simp: parse_asn1_tag_def cbs_then_def Let_def)
    have un: "unat (ucast (b AND 0x1f) :: u32) = n"
      by (simp only: unat_ucast_u8_u32 u8_and_1f n_def)
    have t: "unat tag = unat b div 32 * 2 ^ 29 + n"
    proof -
      have "n < 2 ^ 29" using n by simp
      then show ?thesis unfolding tag by (simp only: unat_tag_or un)
    qed
    have q: "unat tag div 2 ^ 29 = unat b div 32" and m: "unat tag mod 2 ^ 29 = n"
      using n by (simp_all add: t)
    have "of_nat (unat b div 32 * 32 + n) = b"
      unfolding n_def by (metis div_mult_mod_eq of_nat_unat ucast_id)
    then have "der_tag tag = [b]" using n unfolding der_tag_def Let_def q m by simp
    with rest Cons show ?thesis by simp
  qed
qed

lemma base128_hi_length: "n < 128 ^ k \<Longrightarrow> length (base128_hi n) \<le> k"
proof (induction n arbitrary: k rule: base128_hi.induct)
  case (1 n)
  show ?case
  proof (cases "n = 0")
    case False
    with "1.prems" obtain j where k: "k = Suc j" by (cases k) auto
    with "1.prems" have "n div 128 < 128 ^ j" by (simp add: div_less_iff_less_mult mult.commute)
    with "1.IH" [OF False] have "length (base128_hi (n div 128)) \<le> j" by simp
    with False k show ?thesis by (simp add: base128_hi.simps [of n])
  qed simp
qed

lemma der_tag_length: "1 \<le> length (der_tag tag)" "length (der_tag tag) \<le> 6"
proof -
  have "unat tag mod 2 ^ 29 div 128 < 128 ^ 4"
    using mod_less_divisor [of "2 ^ 29" "unat tag"] by (simp add: div_less_iff_less_mult)
  then have "length (base128 (unat tag mod 2 ^ 29)) \<le> 5"
    using base128_hi_length by (simp add: base128_def)
  then show "1 \<le> length (der_tag tag)" "length (der_tag tag) \<le> 6"
    by (auto simp: der_tag_def Let_def)
qed

section \<open>Length octets\<close>

lemma cbs_get_u_eq:
  "length d = n \<Longrightarrow> cbs_get_u (d @ rest) n = (Some (of_nat (be_val d)), rest)"
  by (simp add: cbs_get_u_def cbs_get_def cbs_then_def foldl_shift_or)

lemma cbs_get_u_inv:
  "cbs_get_u cbs n = (Some v, rest) \<Longrightarrow>
     \<exists>d. length d = n \<and> cbs = d @ rest \<and> v = of_nat (be_val d)"
  by (auto simp: cbs_get_u_def cbs_get_def cbs_then_def foldl_shift_or split: if_splits
      intro!: exI [of _ "take n cbs"])

lemma CBS_get_bytes_eq [simp]:
  "CBS_get_bytes cbs n = (if length cbs < n then (None, cbs) else (Some (take n cbs), drop n cbs))"
  by (simp add: CBS_get_bytes_def CBS_init_def cbs_get_def cbs_then_def)

lemma length_octets_bounds:
  assumes "128 \<le> n" and "n < 2 ^ 32"
  shows "n < 256 ^ length_octets n" and "256 ^ (length_octets n - 1) \<le> n"
    and "1 \<le> length_octets n" and "length_octets n \<le> 4"
  using assms by (auto simp: length_octets_def)

lemma length_octets_unique:
  assumes "n < 256 ^ k" and "256 ^ (k - 1) \<le> n" and "1 \<le> k" and "k \<le> 4" and "128 \<le> n"
  shows "length_octets n = k"
proof -
  from assms(3,4) have "k = 1 \<or> k = 2 \<or> k = 3 \<or> k = 4" by presburger
  with assms(1,2) show ?thesis by (auto simp: length_octets_def)
qed

text \<open>
  The long form read by the element parser: \<open>k\<close> octets hold \<open>n\<close>, and neither a short form nor one
  octet less would do, exactly when they are the canonical octets of \<open>n\<close>.
\<close>

lemma unat_be_val_u32: "length d \<le> 4 \<Longrightarrow> unat (of_nat (be_val d) :: u32) = be_val d"
proof -
  assume "length d \<le> 4"
  then have "(256 :: nat) ^ length d \<le> 256 ^ 4" by (intro power_increasing) auto
  then have "be_val d < 2 ^ 32" using be_val_bound [of d] by simp
  then show ?thesis by (simp add: unsigned_of_nat take_bit_nat_eq_self)
qed

lemma long_form_canonical:
  assumes d: "length d = k" and k: "1 \<le> k" "k \<le> 4"
    and big: "\<not> (of_nat (be_val d) :: u32) < 128"
    and top: "drop_bit ((k - 1) * 8) (of_nat (be_val d) :: u32) \<noteq> 0"
  shows "of_nat (128 + k) # d = der_length (be_val d)" and "128 \<le> be_val d"
proof -
  let ?n = "be_val d"
  have n: "unat (of_nat ?n :: u32) = ?n" using d k by (intro unat_be_val_u32) simp
  show "128 \<le> ?n" using big by (simp only: word_less_nat_alt n) simp
  have "2 ^ ((k - 1) * 8) \<le> ?n" using top by (simp only: drop_bit_zero n not_less)
  then have lower: "256 ^ (k - 1) \<le> ?n" by (simp add: power_mult mult.commute [of _ 8])
  have "?n < 256 ^ k" using be_val_bound [of d] d by simp
  then have k': "length_octets ?n = k" using lower k \<open>128 \<le> ?n\<close> by (rule length_octets_unique)
  have "be_bytes k ?n = d" using be_bytes_val [of d] d by simp
  then show "of_nat (128 + k) # d = der_length ?n"
    using \<open>128 \<le> ?n\<close> by (simp add: der_length_def k')
qed

lemma long_form_accepted:
  assumes "128 \<le> n" and "n < 2 ^ 32"
  defines "k \<equiv> length_octets n"
  shows "\<not> (of_nat n :: u32) < 128" and "drop_bit ((k - 1) * 8) (of_nat n :: u32) \<noteq> 0"
    and "be_val (be_bytes k n) = n" and "unat (of_nat n :: u32) = n"
proof -
  show n: "unat (of_nat n :: u32) = n"
    using assms(2) by (simp add: unsigned_of_nat take_bit_nat_eq_self)
  show "\<not> (of_nat n :: u32) < 128" using assms(1) by (simp only: word_less_nat_alt n) simp
  have "256 ^ (k - 1) \<le> n" unfolding k_def using assms by (intro length_octets_bounds)
  then have "2 ^ ((k - 1) * 8) \<le> n" by (simp add: power_mult mult.commute [of _ 8])
  then show "drop_bit ((k - 1) * 8) (of_nat n :: u32) \<noteq> 0"
    by (simp only: drop_bit_zero n not_less)
  show "be_val (be_bytes k n) = n"
    using length_octets_bounds(1) [OF assms(1,2)] by (simp add: be_val_bytes k_def)
qed

lemma der_length_length: "1 \<le> length (der_length n)" "length (der_length n) \<le> 5"
  by (auto simp: der_length_def length_octets_def)

section \<open>Elements\<close>

abbreviation der_header :: "u32 \<Rightarrow> nat \<Rightarrow> u8 list" where
  "der_header tag n \<equiv> der_tag tag @ der_length n"

lemma der_element_eq: "der_element tag c = der_header tag (length c) @ c"
  by (simp add: der_element_def)

lemma der_header_length: "2 \<le> length (der_header tag n)" "length (der_header tag n) \<le> 11"
  using der_tag_length [of tag] der_length_length [of n] by simp_all

lemma u8_small: "n < 128 \<Longrightarrow> (of_nat n :: u8) AND 0x80 = 0"
  by (simp only: u8_and_80) (simp add: unat_of_nat_u8)

lemma u8_long: "k \<le> 4 \<Longrightarrow> (of_nat (128 + k) :: u8) AND 0x80 \<noteq> 0"
  by (simp only: u8_and_80 not_less) (simp add: unat_of_nat_u8 del: of_nat_add)

lemma u8_long_count: "k \<le> 4 \<Longrightarrow> unat ((of_nat (128 + k) :: u8) AND 0x7f) = k"
  by (simp only: u8_and_7f) (simp add: unat_of_nat_u8 del: of_nat_add)

text \<open>Every canonical element is accepted, in both modes of the parser.\<close>

lemma cbs_get_any_asn1_element_der:
  assumes c: "length c < 2 ^ 32"
  shows "cbs_get_any_asn1_element (der_element tag c @ rest) ber_ok
           = (Some (der_element tag c, tag, length (der_header tag (length c))), rest)"
proof -
  let ?cbs = "der_element tag c @ rest"
  let ?t = "der_tag tag"
  have tag: "parse_asn1_tag ?cbs = (Some tag, der_length (length c) @ c @ rest)"
    by (simp add: der_element_def parse_asn1_tag_der)
  show ?thesis
  proof (cases "length c < 128")
    case True
    then have dl: "der_length (length c) = [of_nat (length c)]" by (simp add: der_length_def)
    have u: "unat (of_nat (length c) :: u8) = length c" using True by (intro unat_of_nat_u8) simp
    have n: "length (der_element tag c) = length c + length ?t + 1"
      by (simp add: der_element_def dl)
    show ?thesis
      unfolding cbs_get_any_asn1_element_def tag Let_def CBS_len_def
      by (simp add: dl u8_small [OF True] u n cbs_then_def)
  next
    case False
    define k where "k = length_octets (length c)"
    have k: "1 \<le> k" "k \<le> 4" unfolding k_def length_octets_def by auto
    have "128 \<le> length c" using False by simp
    note long = long_form_accepted [OF this c, folded k_def]
    have dl: "der_length (length c) = of_nat (128 + k) # be_bytes k (length c)"
      using False by (simp add: der_length_def k_def)
    have get: "cbs_get_u (be_bytes k (length c) @ c @ rest) k = (Some (of_nat (length c)), c @ rest)"
      using cbs_get_u_eq [of "be_bytes k (length c)" k] by (simp add: long(3))
    have n: "length (der_element tag c) = length c + length ?t + 1 + k"
      by (simp add: der_element_def dl)
    have total: "size_add (size_add (length c) (length ?t + 1)) k = length c + length ?t + 1 + k"
      using c k der_tag_length [of tag] by (simp add: size_add_def)
    show ?thesis
      unfolding cbs_get_any_asn1_element_def tag Let_def CBS_len_def
      using k long(1,2)
      by (simp add: dl u8_long u8_long_count get n total [simplified] long(4) cbs_then_def
          del: of_nat_add)
  qed
qed

text \<open>
  Conversely, what the DER parser accepts is a canonical element: identifier and length octets are
  the only ones for their tag and contents.
\<close>

lemma cbs_get_any_asn1_element_canonical:
  assumes ok: "cbs_get_any_asn1_element cbs ber_ok = (Some (out, tag, hl), rest)"
    and definite: "\<not> (ber_ok \<and> length out = hl \<and> hl > 0 \<and> out ! (hl - 1) = 0x80)"
  shows "\<exists>c. out = der_element tag c \<and> cbs = out @ rest \<and> length c < 2 ^ 32
             \<and> hl = length (der_header tag (length c))"
proof -
  from ok obtain header where tag: "parse_asn1_tag cbs = (Some tag, header)"
    by (auto simp: cbs_get_any_asn1_element_def Let_def cbs_then_def
        split: prod.splits option.splits if_splits)
  then have cbs: "cbs = der_tag tag @ header" by (rule parse_asn1_tag_canonical)
  from ok tag obtain b cbs' where header: "header = b # cbs'"
    by (cases header) (auto simp: cbs_get_any_asn1_element_def Let_def)
  let ?h = "length (der_tag tag) + 1"
  have h: "length cbs - length cbs' = ?h" by (simp add: cbs header)
  show ?thesis
  proof (cases "b AND 0x80 = 0")
    case True
    then have b: "unat b < 128" by (simp only: u8_and_80)
    define c where "c = take (unat b) cbs'"
    from ok have fits: "unat b \<le> length cbs'" and out: "out = take (unat b + ?h) cbs"
      and rest: "rest = drop (unat b + ?h) cbs" and hl: "hl = ?h"
      unfolding cbs_get_any_asn1_element_def tag Let_def CBS_len_def header
      by (auto simp: True cbs_then_def cbs header split: if_splits)
    have lc: "length c = unat b" unfolding c_def using fits by simp
    have dl: "der_length (length c) = [b]" using b by (simp add: der_length_def lc)
    have "der_element tag c = der_tag tag @ b # c" by (simp add: der_element_def dl)
    then have "out = der_element tag c" by (simp add: out cbs header c_def)
    moreover have "cbs = out @ rest" by (simp add: out rest)
    ultimately show ?thesis using lc b hl dl by (intro exI [of _ c]) simp
  next
    case False
    then have b: "128 \<le> unat b" by (simp only: u8_and_80 not_less)
    define k where "k = unat (b AND 0x7f)"
    have bk: "b = of_nat (128 + k)" unfolding k_def u8_and_7f
      using u8_high [OF b] by (simp only: add.commute)
    have indef: "\<not> (ber_ok \<and> tag AND CBS_ASN1_CONSTRUCTED \<noteq> 0 \<and> k = 0)"
    proof
      assume *: "ber_ok \<and> tag AND CBS_ASN1_CONSTRUCTED \<noteq> 0 \<and> k = 0"
      with ok have "hl = ?h" "out = take ?h cbs"
        unfolding cbs_get_any_asn1_element_def tag Let_def CBS_len_def header
        by (auto simp: False cbs_then_def cbs header k_def split: if_splits)
      moreover have "b = 0x80" using bk * by simp
      ultimately show False using definite * by (simp add: cbs header nth_append)
    qed
    from ok obtain v r where k: "1 \<le> k" "k \<le> 4" and v: "cbs_get_u cbs' k = (Some v, r)"
      and big: "\<not> v < 128" and top: "drop_bit ((k - 1) * 8) v \<noteq> 0"
      and fits: "\<not> length cbs < size_add (size_add (unat v) ?h) k"
      and out: "out = take (size_add (size_add (unat v) ?h) k) cbs"
      and rest: "rest = drop (size_add (size_add (unat v) ?h) k) cbs" and hl: "hl = ?h + k"
      unfolding cbs_get_any_asn1_element_def tag Let_def CBS_len_def header
      using indef
      by (auto simp: False cbs_then_def h k_def [symmetric] header
          split: if_splits prod.splits option.splits)
    from v obtain d where d: "length d = k" "cbs' = d @ r" "v = of_nat (be_val d)"
      using cbs_get_u_inv by blast
    have uv: "unat v = be_val d" using d k by (simp add: unat_be_val_u32)
    have dl: "b # d = der_length (be_val d)" and "128 \<le> be_val d"
      using long_form_canonical [OF d(1) k] big top d(3) bk by simp_all
    have v32: "be_val d < 2 ^ 32" using unat_u32_less [of v] by (simp only: uv)
    have n: "size_add (size_add (unat v) ?h) k = be_val d + ?h + k"
      using v32 k der_tag_length [of tag] by (simp add: size_add_def uv)
    define c where "c = take (be_val d) r"
    have lc: "length c = be_val d"
      using fits unfolding n c_def by (simp add: cbs header d)
    have "out = der_element tag c"
      unfolding out n by (simp add: cbs header d(1,2) der_element_def lc flip: dl, simp add: c_def)
    moreover have "cbs = out @ rest" by (simp add: out rest)
    ultimately show ?thesis using lc v32 hl d(1) by (intro exI [of _ c]) (simp flip: dl)
  qed
qed

theorem CBS_get_any_asn1_element_iff:
  "CBS_get_any_asn1_element cbs = (Some (out, tag, hl), rest) \<longleftrightarrow>
     (\<exists>c. length c < 2 ^ 32 \<and> out = der_element tag c \<and> cbs = out @ rest
          \<and> hl = length (der_header tag (length c)))"
  (is "?l \<longleftrightarrow> ?r")
proof
  assume ?l
  then have "\<exists>c. out = der_element tag c \<and> cbs = out @ rest \<and> length c < 2 ^ 32
               \<and> hl = length (der_header tag (length c))"
    unfolding CBS_get_any_asn1_element_def by (rule cbs_get_any_asn1_element_canonical) simp
  then show ?r by (elim exE conjE) (intro exI conjI)
next
  assume ?r
  then obtain c where c: "length c < 2 ^ 32" "out = der_element tag c" "cbs = out @ rest"
    "hl = length (der_header tag (length c))" by (elim exE conjE)
  show ?l
    unfolding CBS_get_any_asn1_element_def c(2-4) by (rule cbs_get_any_asn1_element_der [OF c(1)])
qed

lemma cbs_get_any_asn1_element_fail:
  "cbs_get_any_asn1_element cbs ber_ok = (None, rest) \<Longrightarrow> rest = cbs"
  by (auto simp: cbs_get_any_asn1_element_def Let_def cbs_then_def
      split: prod.splits option.splits if_splits)

lemma CBS_skip_header [simp]:
  "CBS_skip (der_element tag c) (length (der_header tag (length c))) = (Some (), c)"
  by (simp add: CBS_skip_def cbs_get_def cbs_then_def der_element_eq)

lemma drop_der_header [simp]:
  "drop (length (der_header tag (length c))) (der_element tag c) = c"
  by (simp add: der_element_eq)

lemma cbs_get_asn1_iff:
  "cbs_get_asn1 cbs tag skip = (Some x, rest) \<longleftrightarrow>
     (\<exists>c. length c < 2 ^ 32 \<and> cbs = der_element tag c @ rest
          \<and> x = (if skip then c else der_element tag c))"
proof
  assume a: "cbs_get_asn1 cbs tag skip = (Some x, rest)"
  obtain r cbs' where r: "CBS_get_any_asn1_element cbs = (r, cbs')" by fastforce
  with a obtain out tag' hl where "r = Some (out, tag', hl)"
    by (cases r) (auto simp: cbs_get_asn1_def cbs_then_def)
  with r a have e: "CBS_get_any_asn1_element cbs = (Some (out, tag, hl), rest)"
    by (auto simp: cbs_get_asn1_def cbs_then_def split: prod.splits option.splits if_splits)
  then obtain c where c: "length c < 2 ^ 32" "out = der_element tag c" "cbs = out @ rest"
    "hl = length (der_header tag (length c))"
    unfolding CBS_get_any_asn1_element_iff by blast
  with a e have "x = (if skip then c else der_element tag c)"
    by (simp add: cbs_get_asn1_def cbs_then_def del: length_append split: if_splits)
  with c show "\<exists>c. length c < 2 ^ 32 \<and> cbs = der_element tag c @ rest
          \<and> x = (if skip then c else der_element tag c)" by blast
next
  assume "\<exists>c. length c < 2 ^ 32 \<and> cbs = der_element tag c @ rest
          \<and> x = (if skip then c else der_element tag c)"
  then obtain c where c: "length c < 2 ^ 32" "cbs = der_element tag c @ rest"
    "x = (if skip then c else der_element tag c)" by blast
  then have "CBS_get_any_asn1_element cbs
      = (Some (der_element tag c, tag, length (der_header tag (length c))), rest)"
    unfolding CBS_get_any_asn1_element_iff by blast
  with c(3) show "cbs_get_asn1 cbs tag skip = (Some x, rest)"
    by (simp add: cbs_get_asn1_def cbs_then_def del: length_append)
qed

theorem CBS_get_asn1_iff:
  "CBS_get_asn1 cbs tag = (Some c, rest) \<longleftrightarrow>
     length c < 2 ^ 32 \<and> cbs = der_element tag c @ rest"
  by (auto simp: CBS_get_asn1_def cbs_get_asn1_iff)

theorem CBS_get_asn1_element_iff:
  "CBS_get_asn1_element cbs tag = (Some x, rest) \<longleftrightarrow>
     (\<exists>c. length c < 2 ^ 32 \<and> x = der_element tag c \<and> cbs = x @ rest)"
  by (auto simp: CBS_get_asn1_element_def cbs_get_asn1_iff)

section \<open>The codecs of the byte string parser\<close>

text \<open>
  Decoders in the shape of the contract \<open>prefix_codec\<close>: the value and the rest, or \<open>None\<close>.
\<close>

definition cbs_decoder :: "(CBS \<Rightarrow> 'a cbs_result) \<Rightarrow> u8 list \<Rightarrow> ('a \<times> u8 list) option" where
  "cbs_decoder p bs = (case p bs of (None, _) \<Rightarrow> None | (Some x, rest) \<Rightarrow> Some (x, rest))"

interpretation base128: prefix_codec "\<lambda>v :: u64. base128 (unat v)" "cbs_decoder parse_base128_integer"
  "\<lambda>_. True"
proof
  fix v :: u64 and rest
  have "unat v < 2 ^ 64" using unsigned_less [of v, where ?'a = nat] by simp
  then show "cbs_decoder parse_base128_integer (base128 (unat v) @ rest) = Some (v, rest)"
    by (simp add: cbs_decoder_def parse_base128_integer_base128)
qed

interpretation der_identifier: prefix_codec der_tag "cbs_decoder parse_asn1_tag" "\<lambda>_. True"
  by unfold_locales (simp add: cbs_decoder_def parse_asn1_tag_der)

interpretation der: prefix_codec "\<lambda>(tag, c). der_element tag c"
  "\<lambda>bs. case CBS_get_any_asn1_element bs of
          (Some (out, tag, hl), rest) \<Rightarrow> Some ((tag, drop hl out), rest) | _ \<Rightarrow> None"
  "\<lambda>(tag, c). length c < 2 ^ 32"
  by unfold_locales
    (auto simp: CBS_get_any_asn1_element_def cbs_get_any_asn1_element_der simp del: length_append)

interpretation be_uint: prefix_codec "be_bytes n" "cbs_decoder (\<lambda>bs. map_prod (map_option unat) id (cbs_get_u bs n))"
  "\<lambda>v. v < 256 ^ n \<and> n \<le> 4" for n
proof
  fix v :: nat and rest assume v: "v < 256 ^ n \<and> n \<le> 4"
  then have "be_val (be_bytes n v) = v" by (simp add: be_val_bytes)
  moreover from this v have "unat (of_nat v :: u32) = v"
    using unat_be_val_u32 [of "be_bytes n v"] by simp
  ultimately show "cbs_decoder (\<lambda>bs. map_prod (map_option unat) id (cbs_get_u bs n)) (be_bytes n v @ rest)
      = Some (v, rest)"
    by (simp add: cbs_decoder_def cbs_get_u_eq)
qed

text \<open>No element of the distinguished encoding rules is a proper prefix of another one.\<close>

theorem der_elements_prefix_free:
  assumes "length c < 2 ^ 32" and "length d < 2 ^ 32"
    and "der_element t c @ r = der_element u d @ s"
  shows "t = u \<and> c = d \<and> r = s"
  using der.enc_prefix_free [of "(t, c)" "(u, d)" r s] assms by simp

section \<open>Properties\<close>

text \<open>
  C1: The parser of elements accepts exactly the distinguished encodings: it splits off \<open>out\<close> with
  tag \<open>tag\<close> and header length \<open>hl\<close> if and only if \<open>out\<close> is the one DER element of that tag with some
  contents of less than 2 to the 32 octets, identifier and length octets in their shortest form, and
  it consumes that element and nothing else.
\<close>

theorem element_parser_exact:
  "CBS_get_any_asn1_element cbs = (Some (out, tag, hl), rest) \<longleftrightarrow>
     (\<exists>c. length c < 2 ^ 32 \<and> out = der_element tag c \<and> cbs = out @ rest
          \<and> hl = length (der_header tag (length c)))"
  by (rule CBS_get_any_asn1_element_iff)

text \<open>
  \<^verbatim>\<open>CBS_get_any_asn1\<close> called with a NULL \<^verbatim>\<open>out\<close>, which it passes on to a function that documents
  NULL as allowed, dereferences NULL whenever the input starts with a well-formed element.
\<close>

theorem get_any_asn1_null_out:
  "CBS_get_any_asn1 True (der_element tag []) = Null_dereference"
proof -
  have "CBS_get_any_asn1_element (der_element tag []) = (Some (der_element tag [], tag, length (der_header tag 0)), [])"
    unfolding CBS_get_any_asn1_element_iff by (rule exI [of _ "[]"]) simp
  then show ?thesis by (simp add: CBS_get_any_asn1_def)
qed

end
