(* ===== verification/CbbProps.thy ===== *)
theory CbbProps
  imports Cbb Der
begin

text \<open>
  Correctness of the builder: its invariant, what each operation appends to the bytes written so
  far, and the refinement of \<^verbatim>\<open>CBB_flush\<close> to a specification on byte strings in which every pending
  prefix is replaced by the length of what follows it.
\<close>

section \<open>Invariant\<close>

definition wf_buffer :: "cbb_buffer_st \<Rightarrow> bool" where
  "wf_buffer b \<longleftrightarrow> length (bb_buf b) = bb_cap b \<and> bb_len b \<le> bb_cap b \<and> bb_cap b < 2 ^ 62"

definition written :: "cbb_buffer_st \<Rightarrow> u8 list" where
  "written b = take (bb_len b) (bb_buf b)"

definition wf_prefix :: "cbb_fields \<Rightarrow> bool" where
  "wf_prefix f \<longleftrightarrow> (if cbb_pending_is_asn1 f then cbb_pending_len_len f = 1
                   else 1 \<le> cbb_pending_len_len f \<and> cbb_pending_len_len f \<le> 3)"

text \<open>\<open>wf_chain start fs n\<close>: the pending prefixes lie in order between \<open>start\<close> and \<open>n\<close>.\<close>

fun wf_chain :: "nat \<Rightarrow> cbb_fields list \<Rightarrow> nat \<Rightarrow> bool" where
  "wf_chain start [] n = (start \<le> n)"
| "wf_chain start (f # fs) n =
     (start \<le> cbb_offset f \<and> wf_prefix f
      \<and> wf_chain (cbb_offset f + cbb_pending_len_len f) fs n)"

definition fields_end :: "cbb_fields \<Rightarrow> nat" where
  "fields_end f = cbb_offset f + cbb_pending_len_len f"

text \<open>\<open>ready c b\<close>: the builder \<open>c\<close> with buffer \<open>b\<close> is usable, no error has occurred.\<close>

definition ready :: "CBB \<Rightarrow> cbb_buffer_st \<Rightarrow> bool" where
  "ready c b \<longleftrightarrow> cbb_base c = Some b \<and> wf_buffer b \<and> \<not> bb_error b
     \<and> wf_chain (fields_end (cbb_self c)) (cbb_chain c) (bb_len b)"

lemma wf_chain_mono: "wf_chain s fs n \<Longrightarrow> n \<le> m \<Longrightarrow> wf_chain s fs m"
  by (induction s fs n rule: wf_chain.induct) auto

lemma wf_chain_bound: "wf_chain s fs n \<Longrightarrow> s \<le> n"
  by (induction s fs n rule: wf_chain.induct) auto

lemma length_written: "wf_buffer b \<Longrightarrow> length (written b) = bb_len b"
  by (simp add: wf_buffer_def written_def)

section \<open>Writing into the buffer\<close>

lemma put_be_eq:
  "off + n \<le> length buf \<Longrightarrow> put_be buf off n v = (blit buf off (be_bytes n v), v div 256 ^ n)"
proof (induction n arbitrary: buf v)
  case 0
  then show ?case by simp
next
  case (Suc n)
  have "blit (buf[off + n := x]) off bs = blit buf off (bs @ [x])" if "length bs = n" for bs and x :: u8
    using Suc.prems that by (simp add: blit_def take_update_cancel drop_update_swap Cons_nth_drop_Suc
        upd_conv_take_nth_drop min_def)
  moreover have "v div 256 div 256 ^ n = v div 256 ^ Suc n" by (simp add: div_mult2_eq)
  ultimately show ?case using Suc by simp
qed

lemma reserve_True:
  assumes M: "malloc_spec M" and wf: "wf_buffer b" and n: "n < 2 ^ 62"
    and r: "cbb_buffer_reserve M b n = (True, b')"
  shows "wf_buffer b'" "bb_len b' = bb_len b" "bb_error b' = bb_error b"
    "bb_can_resize b' = bb_can_resize b" "written b' = written b" "bb_len b + n \<le> bb_cap b'"
proof -
  from wf n have sum: "size_add (bb_len b) n = bb_len b + n" "bb_len b + n < 2 ^ 63"
    by (simp_all add: wf_buffer_def size_add_def)
  have dbl: "size_mul (bb_cap b) 2 = bb_cap b * 2" "bb_cap b * 2 < 2 ^ 63"
    using wf by (simp_all add: wf_buffer_def size_mul_def)
  have *: "wf_buffer b' \<and> bb_len b' = bb_len b \<and> bb_error b' = bb_error b
    \<and> bb_can_resize b' = bb_can_resize b \<and> written b' = written b \<and> bb_len b + n \<le> bb_cap b'"
  proof (cases "bb_len b + n > bb_cap b")
    case False
    then show ?thesis using r wf by (simp add: cbb_buffer_reserve_def sum)
  next
    case True
    define newcap where "newcap = (if bb_cap b * 2 < bb_len b + n then bb_len b + n else bb_cap b * 2)"
    have nc: "newcap < 2 ^ 63" "bb_len b + n \<le> newcap" "bb_len b \<le> newcap"
      using sum dbl by (simp_all add: newcap_def)
    from r True obtain nb where nb: "OPENSSL_realloc M (Some (bb_buf b)) newcap = Some nb"
      and b': "b' = b\<lparr>bb_buf := nb, bb_cap := newcap\<rparr>"
      by (auto simp: cbb_buffer_reserve_def sum dbl newcap_def Let_def split: if_splits option.splits)
    have nc8: "newcap < size_t_end - 8" using nc by simp
    have "take (bb_len b) nb = written b"
      using OPENSSL_realloc_keeps [OF M nb nc8] wf nc by (simp add: wf_buffer_def written_def)
    then show ?thesis
      using OPENSSL_realloc_length [OF M nb nc8] OPENSSL_realloc_bound [OF M nb nc8] wf nc
      by (simp add: wf_buffer_def written_def b')
  qed
  then show "wf_buffer b'" "bb_len b' = bb_len b" "bb_error b' = bb_error b"
    "bb_can_resize b' = bb_can_resize b" "written b' = written b" "bb_len b + n \<le> bb_cap b'"
    by simp_all
qed

lemma reserve_False: "cbb_buffer_reserve M b n = (False, b') \<Longrightarrow> b' = b\<lparr>bb_error := True\<rparr>"
  by (auto simp: cbb_buffer_reserve_def Let_def split: if_splits option.splits)

lemma add_True:
  assumes "malloc_spec M" and "wf_buffer b" and "n < 2 ^ 62"
    and "cbb_buffer_add M b n = (True, b')"
  shows "wf_buffer b'" "bb_len b' = bb_len b + n" "bb_error b' = bb_error b"
    "bb_can_resize b' = bb_can_resize b" "take (bb_len b) (bb_buf b') = written b"
    "bb_len b + n \<le> length (bb_buf b')"
proof -
  from assms(4) obtain b1 where r: "cbb_buffer_reserve M b n = (True, b1)"
    and b': "b' = b1\<lparr>bb_len := bb_len b1 + n\<rparr>"
    by (auto simp: cbb_buffer_add_def split: prod.splits bool.splits)
  note res = reserve_True [OF assms(1-3) r]
  show "wf_buffer b'" "bb_len b' = bb_len b + n" "bb_error b' = bb_error b"
    "bb_can_resize b' = bb_can_resize b"
    using res by (auto simp: b' wf_buffer_def)
  show "take (bb_len b) (bb_buf b') = written b" using res(2,5) by (simp add: b' written_def)
  show "bb_len b + n \<le> length (bb_buf b')" using res(1,6) by (simp add: b' wf_buffer_def)
qed

lemma add_False: "cbb_buffer_add M b n = (False, b') \<Longrightarrow> b' = b\<lparr>bb_error := True\<rparr>"
  by (auto simp: cbb_buffer_add_def dest: reserve_False split: prod.splits bool.splits)

text \<open>What every write through a freshly added region amounts to.\<close>

lemma add_blit:
  assumes "malloc_spec M" and "wf_buffer b" and "length d < 2 ^ 62"
    and "cbb_buffer_add M b (length d) = (True, b1)"
  defines "b' \<equiv> b1\<lparr>bb_buf := blit (bb_buf b1) (bb_len b) d\<rparr>"
  shows "wf_buffer b'" "written b' = written b @ d" "bb_error b' = bb_error b"
    "bb_can_resize b' = bb_can_resize b" "bb_len b' = bb_len b + length d"
proof -
  note add = add_True [OF assms(1-4)]
  show "wf_buffer b'" using add by (simp add: wf_buffer_def b'_def)
  show "written b' = written b @ d"
    using add(2,5,6) by (simp add: b'_def written_def take_blit_through)
  show "bb_error b' = bb_error b" "bb_can_resize b' = bb_can_resize b"
    "bb_len b' = bb_len b + length d"
    using add by (simp_all add: b'_def)
qed

lemma add_u_True:
  assumes "malloc_spec M" and "wf_buffer b" and "0 < n" and "n \<le> 4"
    and r: "cbb_buffer_add_u M b v n = (True, b')"
  shows "wf_buffer b'" "written b' = written b @ be_bytes n (unat v)" "bb_error b' = bb_error b"
    "bb_can_resize b' = bb_can_resize b" "unat v < 256 ^ n"
proof -
  have n62: "length (be_bytes n (unat v)) < 2 ^ 62" using assms(4) by simp
  from r \<open>0 < n\<close> obtain b1 where a: "cbb_buffer_add M b (length (be_bytes n (unat v))) = (True, b1)"
    by (auto simp: cbb_buffer_add_u_def Let_def split: prod.splits bool.splits)
  note add = add_True [OF assms(1,2) n62 a]
  from r \<open>0 < n\<close> a add(6) have q: "unat v div 256 ^ n = 0"
    and b': "b' = b1\<lparr>bb_buf := blit (bb_buf b1) (bb_len b) (be_bytes n (unat v))\<rparr>"
    by (auto simp: cbb_buffer_add_u_def Let_def put_be_eq split: if_splits)
  from q show "unat v < 256 ^ n" by (simp add: div_eq_0_iff)
  show "wf_buffer b'" "written b' = written b @ be_bytes n (unat v)" "bb_error b' = bb_error b"
    "bb_can_resize b' = bb_can_resize b"
    using add_blit [OF assms(1,2) n62 a] by (simp_all add: b')
qed

section \<open>Flushing refines the encoding of the pending prefixes\<close>

definition prefix_bytes :: "cbb_fields \<Rightarrow> nat \<Rightarrow> u8 list option" where
  "prefix_bytes f n =
     (if cbb_pending_is_asn1 f then if n > 0xfffffffe then None else Some (der_length n)
      else if n < 256 ^ cbb_pending_len_len f then Some (be_bytes (cbb_pending_len_len f) n)
      else None)"

text \<open>The bytes of a builder with its pending prefixes resolved, innermost first.\<close>

fun flush_spec :: "u8 list \<Rightarrow> cbb_fields list \<Rightarrow> u8 list option" where
  "flush_spec w [] = Some w"
| "flush_spec w (f # fs) =
     (case flush_spec w fs of
        None \<Rightarrow> None
      | Some w' \<Rightarrow>
          let c = drop (fields_end f) w'
          in (case prefix_bytes f (length c) of
                None \<Rightarrow> None
              | Some p \<Rightarrow> Some (take (cbb_offset f) w' @ p @ c)))"

text \<open>The choice of the number of length bytes made by the code.\<close>

lemma length_bytes_choice:
  "(if n > 0xffffff then (5, 0x84, n)
    else if n > 0xffff then (4, 0x83, n)
    else if n > 0xff then (3, 0x82, n)
    else if n > 0x7f then (2, 0x81, n)
    else (1, of_nat n, 0))
   = (if n < 128 then (1 :: nat, of_nat n :: u8, 0 :: nat)
      else (length_octets n + 1, of_nat (128 + length_octets n), n))"
  by (simp add: length_octets_def)

lemma update_append_at: "off < length w \<Longrightarrow> w[off := x] = take off w @ x # drop (Suc off) w"
  by (rule upd_conv_take_nth_drop)

text \<open>A prefix of fixed width, and the end of an ASN.1 prefix: the bytes go where they were reserved.\<close>

lemma put_be_written:
  assumes wf: "wf_buffer b" and fits: "off + n \<le> bb_len b"
    and p: "put_be (bb_buf b) off n v = (buf, 0)"
  shows "wf_buffer (b\<lparr>bb_buf := buf\<rparr>)"
    and "written (b\<lparr>bb_buf := buf\<rparr>) = take off (written b) @ be_bytes n v @ drop (off + n) (written b)"
    and "v < 256 ^ n"
proof -
  from wf fits have l: "off + n \<le> length (bb_buf b)" by (simp add: wf_buffer_def)
  from p have buf: "buf = blit (bb_buf b) off (be_bytes n v)" and q: "v div 256 ^ n = 0"
    by (simp_all add: put_be_eq [OF l])
  show "wf_buffer (b\<lparr>bb_buf := buf\<rparr>)" using wf l by (simp add: wf_buffer_def buf)
  show "written (b\<lparr>bb_buf := buf\<rparr>) = take off (written b) @ be_bytes n v @ drop (off + n) (written b)"
  proof -
    have "written (b\<lparr>bb_buf := buf\<rparr>) = blit (written b) off (be_bytes n v)"
      using fits wf by (simp add: written_def buf take_blit_within wf_buffer_def)
    then show ?thesis by (simp add: blit_def)
  qed
  show "v < 256 ^ n" using q by (simp add: div_eq_0_iff)
qed

text \<open>Making room for \<open>k\<close> more bytes of an ASN.1 length by moving the contents along.\<close>

lemma move_contents:
  fixes x :: u8
  assumes M: "malloc_spec M" and wf: "wf_buffer b" and k: "k \<le> 4"
    and cs: "cs \<le> bb_len b" and off: "cs = Suc off"
    and a: "cbb_buffer_add M b k = (True, b1)"
  defines "b2 \<equiv> b1\<lparr>bb_buf := (memmove (bb_buf b1) (cs + k) cs (bb_len b - cs))[off := x]\<rparr>"
  shows "wf_buffer b2" and "bb_len b2 = bb_len b + k"
    and "take (Suc off) (written b2) = take off (written b) @ [x]"
    and "drop (cs + k) (written b2) = drop cs (written b)"
    and "bb_error b2 = bb_error b" and "bb_can_resize b2 = bb_can_resize b"
proof -
  have "k < 2 ^ 62" using k by simp
  note add = add_True [OF M wf this a]
  have c: "take (bb_len b - cs) (drop cs (bb_buf b1)) = drop cs (written b)"
    using cs by (simp flip: add(5) add: drop_take)
  have lc: "length (drop cs (written b)) = bb_len b - cs" by (simp add: length_written [OF wf])
  have fits: "cs + k + length (drop cs (written b)) \<le> length (bb_buf b1)"
    using add(6) cs lc by simp
  have buf: "bb_buf b2 = (blit (bb_buf b1) (cs + k) (drop cs (written b)))[off := x]"
    by (simp add: b2_def memmove_def c)
  show "wf_buffer b2" using add(1) fits by (simp add: b2_def memmove_def c wf_buffer_def)
  show len: "bb_len b2 = bb_len b + k" using add(2) by (simp add: b2_def)
  have off1: "off < length (bb_buf b1)" using cs off add(6) by simp
  have "take (Suc off) (bb_buf b2) = take off (bb_buf b1) @ [x]"
    using off1 fits off by (simp add: buf take_Suc_conv_app_nth take_update_cancel take_blit_before)
  moreover have "take off (bb_buf b1) = take off (written b)"
    using cs off by (simp flip: add(5) add: min_def)
  ultimately show "take (Suc off) (written b2) = take off (written b) @ [x]"
    using len cs off by (simp add: written_def min_def)
  have "take (bb_len b + k) (blit (bb_buf b1) (cs + k) (drop cs (written b)))
      = take (cs + k) (bb_buf b1) @ drop cs (written b)"
    using fits cs lc by (intro take_blit_through) simp_all
  moreover have "length (take (cs + k) (bb_buf b1)) = cs + k" using fits by simp
  ultimately have "drop (cs + k) (take (bb_len b + k) (bb_buf b2)) = drop cs (written b)"
    using off by (simp add: buf take_update_swap drop_update_cancel)
  then show "drop (cs + k) (written b2) = drop cs (written b)" by (simp add: written_def len)
  show "bb_error b2 = bb_error b" "bb_can_resize b2 = bb_can_resize b"
    using add by (simp_all add: b2_def)
qed

lemma flush_length_True:
  assumes M: "malloc_spec M" and wf: "wf_buffer b" and pre: "wf_prefix ch"
    and cs: "cs = fields_end ch" "cs \<le> bb_len b"
    and r: "flush_length M b ch cs = (True, b', ch')"
  shows "wf_buffer b' \<and> bb_error b' = bb_error b \<and> bb_can_resize b' = bb_can_resize b \<and>
    (\<exists>p. prefix_bytes ch (bb_len b - cs) = Some p
      \<and> written b' = take (cbb_offset ch) (written b) @ p @ drop cs (written b))"
proof (cases "cbb_pending_is_asn1 ch")
  case False
  let ?n = "cbb_pending_len_len ch"
  from r False obtain buf where p: "put_be (bb_buf b) (cbb_offset ch) ?n (bb_len b - cs) = (buf, 0)"
    and b': "b' = b\<lparr>bb_buf := buf\<rparr>"
    by (auto simp: flush_length_def Let_def split: prod.splits if_splits)
  from cs have fits: "cbb_offset ch + ?n \<le> bb_len b" by (simp add: fields_end_def)
  show ?thesis
    using put_be_written [OF wf fits p] False
    by (simp add: b' prefix_bytes_def cs(1) fields_end_def)
next
  case True
  define n off where "n = bb_len b - cs" and "off = cbb_offset ch"
  have cso: "cs = Suc off" using pre True cs(1) by (simp add: wf_prefix_def fields_end_def off_def)
  have big: "\<not> n > 0xfffffffe" using r True
    by (auto simp: flush_length_def Let_def n_def split: if_splits)
  have lw: "length (written b) = bb_len b" by (rule length_written [OF wf])
  show ?thesis
  proof (cases "n < 128")
    case small: True
    have b': "b' = b\<lparr>bb_buf := (bb_buf b)[off := of_nat n]\<rparr>"
      using r True big small unfolding flush_length_def Let_def length_bytes_choice
      by (simp add: n_def off_def)
    have "off < length (bb_buf b)" "off < bb_len b" using cso cs(2) wf by (simp_all add: wf_buffer_def)
    then have "written b' = (written b)[off := of_nat n]"
      by (simp add: b' written_def take_update_swap)
    also have "\<dots> = take off (written b) @ [of_nat n] @ drop cs (written b)"
      using \<open>off < bb_len b\<close> by (simp add: update_append_at cso lw)
    finally have "written b' = take off (written b) @ [of_nat n] @ drop cs (written b)" .
    then show ?thesis
      using wf big small True
      by (simp add: b' wf_buffer_def prefix_bytes_def der_length_def n_def [symmetric] off_def [symmetric])
  next
    case large: False
    define k where "k = length_octets n"
    have k: "1 \<le> k" "k \<le> 4" by (auto simp: k_def length_octets_def)
    define x where "x = (128 + of_nat k :: u8)"
    from r True big large obtain b1 where a: "cbb_buffer_add M b k = (True, b1)"
      unfolding flush_length_def Let_def length_bytes_choice
      using k by (auto simp: n_def [symmetric] k_def [symmetric] split: prod.splits bool.splits)
    define b2 where "b2 = b1\<lparr>bb_buf := (memmove (bb_buf b1) (cs + k) cs n)[off := x]\<rparr>"
    note mv = move_contents [OF M wf k(2) cs(2) cso a, of x, folded n_def, folded b2_def]
    from r True big large a k obtain buf where
      p: "put_be ((memmove (bb_buf b1) (cs + k) cs n)[off := x]) (off + 1) k n = (buf, 0)"
      and b1': "b' = b1\<lparr>bb_buf := buf\<rparr>"
      unfolding flush_length_def Let_def length_bytes_choice
      by (auto simp: n_def [symmetric] off_def [symmetric] k_def [symmetric] x_def
          split: prod.splits if_splits)
    from p have p: "put_be (bb_buf b2) (off + 1) k n = (buf, 0)" by (simp add: b2_def)
    from b1' have b': "b' = b2\<lparr>bb_buf := buf\<rparr>" by (simp add: b2_def)
    have fits: "off + 1 + k \<le> bb_len b2" using mv(2) cso cs(2) by simp
    note w = put_be_written [OF mv(1) fits p]
    have "written b' = (take off (written b) @ [x]) @ be_bytes k n @ drop cs (written b)"
      using w(2) mv(3,4) by (simp add: b' cso)
    then show ?thesis
      using w(1) mv(5,6) big large True
      by (simp add: b' prefix_bytes_def der_length_def n_def [symmetric] off_def [symmetric]
          k_def [symmetric] x_def)
  qed
qed

lemma flush_length_False:
  "flush_length M b ch cs = (False, b', ch') \<Longrightarrow> bb_error b'"
  by (auto simp: flush_length_def Let_def split: prod.splits if_splits bool.splits)

theorem flush_chain_refines:
  assumes M: "malloc_spec M"
  shows "flush_chain M b fs = (True, b', fs') \<Longrightarrow> wf_buffer b \<Longrightarrow>
    wf_chain s fs (bb_len b) \<Longrightarrow>
    fs' = [] \<and> wf_buffer b' \<and> \<not> bb_error b \<and> \<not> bb_error b' \<and> s \<le> bb_len b'
    \<and> bb_can_resize b' = bb_can_resize b \<and> take s (written b') = take s (written b)
    \<and> flush_spec (written b) fs = Some (written b')"
proof (induction fs arbitrary: s b b' fs')
  case Nil
  then show ?case by auto
next
  case (Cons ch fs)
  let ?cs = "fields_end ch"
  from Cons.prems(3) have pre: "wf_prefix ch" and s: "s \<le> cbb_offset ch"
    and ch: "wf_chain ?cs fs (bb_len b)"
    by (auto simp: fields_end_def)
  have "bb_len b < 2 ^ 62" using Cons.prems(2) by (simp add: wf_buffer_def)
  then have cs: "size_add (cbb_offset ch) (cbb_pending_len_len ch) = ?cs"
    using wf_chain_bound [OF ch] by (simp add: size_add_def fields_end_def)
  have "cbb_pending_len_len ch \<noteq> 0" using pre by (auto simp: wf_prefix_def split: if_splits)
  with Cons.prems(1) cs obtain b1 fs1 ch' where
    f: "flush_chain M b fs = (True, b1, fs1)" and len: "?cs \<le> bb_len b1"
    and l: "flush_length M b1 ch ?cs = (True, b', ch')" and fs': "fs' = []"
    by (auto simp: Let_def not_less split: if_splits prod.splits bool.splits)
  note IH = Cons.IH [OF f Cons.prems(2) ch]
  then have wf1: "wf_buffer b1" by simp
  from flush_length_True [OF M wf1 pre refl len l] obtain p where
    p: "prefix_bytes ch (bb_len b1 - ?cs) = Some p" and
    w: "written b' = take (cbb_offset ch) (written b1) @ p @ drop ?cs (written b1)" and
    rest: "wf_buffer b'" "bb_error b' = bb_error b1" "bb_can_resize b' = bb_can_resize b1" by blast
  have lw: "length (written b1) = bb_len b1" by (rule length_written [OF wf1])
  have o: "cbb_offset ch \<le> ?cs" by (simp add: fields_end_def)
  have "length (written b') = bb_len b'" by (rule length_written [OF rest(1)])
  moreover have "s \<le> length (written b')" using s o len lw by (simp add: w)
  moreover have "take s (written b') = take s (written b1)"
    using s o len lw by (simp add: w min_def)
  moreover have "take s (written b1) = take s (written b)"
  proof -
    have "take s (take ?cs (written b1)) = take s (take ?cs (written b))" using IH by simp
    then show ?thesis using s o by (simp add: min_def)
  qed
  moreover have "flush_spec (written b) (ch # fs) = Some (written b')"
    using IH p w lw by simp
  ultimately show ?case using IH rest fs' by simp
qed

end
