(* ===== verification/CbbOps.thy ===== *)
theory CbbOps
  imports CbbProps
begin

text \<open>
  The contract of the operations of \<^verbatim>\<open>cbb.c\<close>: on success an operation appends its bytes to what
  the builder stands for, on failure the builder is dead. What a builder stands for is \<open>CBB_bytes\<close>,
  the bytes in its buffer with every pending length prefix filled in. Nested builders compose by
  the lemma \<open>nested_appends\<close>.
\<close>

section \<open>What a builder stands for\<close>

definition CBB_bytes :: "CBB \<Rightarrow> u8 list option" where
  "CBB_bytes c =
     (case cbb_base c of None \<Rightarrow> None | Some b \<Rightarrow> flush_spec (written b) (cbb_chain c))"

text \<open>
  \<open>appends c c' d\<close>: \<open>c'\<close> stands for the bytes of \<open>c\<close> and \<open>d\<close> after them, and what precedes the
  contents of \<open>c\<close> in the shared buffer is as it was.
\<close>

definition appends :: "CBB \<Rightarrow> CBB \<Rightarrow> u8 list \<Rightarrow> bool" where
  "appends c c' d \<longleftrightarrow>
     cbb_self c' = cbb_self c
     \<and> map_option bb_can_resize (cbb_base c') = map_option bb_can_resize (cbb_base c)
     \<and> (\<exists>b w. ready c' b \<and> CBB_bytes c = Some w \<and> CBB_bytes c' = Some (w @ d)
            \<and> take (fields_end (cbb_self c)) w = take (fields_end (cbb_self c)) (written (the (cbb_base c))))"

text \<open>A builder is dead when it has no buffer or the error flag of the buffer is set.\<close>

definition CBB_failed :: "CBB \<Rightarrow> bool" where
  "CBB_failed c = (case cbb_base c of None \<Rightarrow> True | Some b \<Rightarrow> bb_error b)"

lemma ready_base: "ready c b \<Longrightarrow> cbb_base c = Some b"
  by (simp add: ready_def)

lemma CBB_bytes_no_child: "ready c b \<Longrightarrow> cbb_chain c = [] \<Longrightarrow> CBB_bytes c = Some (written b)"
  by (simp add: CBB_bytes_def ready_def)

lemma cbb_then_True: "cbb_then r k = (True, c') \<Longrightarrow> \<exists>c. r = (True, c) \<and> k c = (True, c')"
  by (auto simp: cbb_then_def split: prod.splits bool.splits)

lemma cbb_thenE:
  assumes "cbb_then r k = (True, c')"
  obtains c where "r = (True, c)" and "k c = (True, c')"
  using cbb_then_True [OF assms] by blast

lemma on_base_True:
  "on_base c f = (True, c') \<Longrightarrow> cbb_base c = Some b \<Longrightarrow>
     \<exists>b'. f b = (True, b') \<and> c' = c\<lparr>cbb_base := Some b'\<rparr>"
  by (auto simp: on_base_def split: prod.splits)

section \<open>Flushing\<close>

lemma flush_self: "CBB_flush M c = (ok, c') \<Longrightarrow> cbb_self c' = cbb_self c"
  by (auto simp: CBB_flush_def split: option.splits prod.splits)

lemma CBB_flush_appends:
  assumes M: "malloc_spec M" and c: "ready c b" and r: "CBB_flush M c = (True, c')"
  shows "appends c c' []" and "cbb_chain c' = []"
proof -
  from c r obtain b' fs' where f: "flush_chain M b (cbb_chain c) = (True, b', fs')"
    and c': "c' = c\<lparr>cbb_base := Some b', cbb_chain := fs'\<rparr>"
    by (auto simp: CBB_flush_def ready_def split: prod.splits)
  from c have wf: "wf_buffer b" and ch: "wf_chain (fields_end (cbb_self c)) (cbb_chain c) (bb_len b)"
    by (simp_all add: ready_def)
  note F = flush_chain_refines [OF M f wf ch]
  then have "ready c' b'" by (simp add: ready_def c')
  moreover have "CBB_bytes c = Some (written b')" using F c by (simp add: CBB_bytes_def ready_def)
  moreover have "CBB_bytes c' = Some (written b' @ [])" using F by (simp add: CBB_bytes_def c')
  ultimately show "appends c c' []" using F c by (auto simp: appends_def c' ready_def)
  show "cbb_chain c' = []" using F by (simp add: c')
qed

text \<open>A write to the end of the buffer, after a flush.\<close>

lemma appends_buffer:
  assumes a: "appends c c1 d" and ch: "cbb_chain c1 = []" and f: "cbb_base c1 = Some b1"
    and w: "wf_buffer b2" "written b2 = written b1 @ e" "bb_error b2 = bb_error b1"
      "bb_can_resize b2 = bb_can_resize b1"
  shows "appends c (c1\<lparr>cbb_base := Some b2\<rparr>) (d @ e)"
proof -
  from a f have r: "ready c1 b1" by (auto simp: appends_def ready_def)
  have "bb_len b1 \<le> bb_len b2"
    using arg_cong [OF w(2), of length] length_written [of b1] length_written [of b2] r w(1)
    by (simp add: ready_def)
  then have "ready (c1\<lparr>cbb_base := Some b2\<rparr>) b2"
    using r ch w by (simp add: ready_def)
  with a ch f w show ?thesis
    by (auto simp: appends_def CBB_bytes_def ready_def)
qed

lemma appends_trans [trans]:
  assumes "appends c c1 d" and "appends c1 c2 e"
  shows "appends c c2 (d @ e)"
proof -
  from assms(1) obtain b w where "ready c1 b" "CBB_bytes c = Some w" "CBB_bytes c1 = Some (w @ d)"
    "take (fields_end (cbb_self c)) w = take (fields_end (cbb_self c)) (written (the (cbb_base c)))"
    by (auto simp: appends_def)
  with assms show ?thesis by (auto simp: appends_def)
qed

lemma appends_refl: "ready c b \<Longrightarrow> cbb_chain c = [] \<Longrightarrow> appends c c []"
  by (simp add: appends_def CBB_bytes_def ready_def)

lemma appends_ready: "appends c c' d \<Longrightarrow> \<exists>b. ready c' b"
  by (auto simp: appends_def)

lemma appends_flush:
  assumes "malloc_spec M" and "appends c c1 d" and "CBB_flush M c1 = (True, c2)"
  shows "appends c c2 d"
  using appends_trans [OF assms(2) CBB_flush_appends(1) [OF assms(1) _ assms(3)]] appends_ready [OF assms(2)]
  by auto

section \<open>Fixed-width integers and byte strings\<close>

lemma flush_then_buffer:
  assumes M: "malloc_spec M" and c: "ready c b"
    and r: "cbb_then (CBB_flush M c) (\<lambda>c. on_base c f) = (True, c')"
    and f: "\<And>b1 b2. wf_buffer b1 \<Longrightarrow> f b1 = (True, b2) \<Longrightarrow>
      wf_buffer b2 \<and> written b2 = written b1 @ e \<and> bb_error b2 = bb_error b1
      \<and> bb_can_resize b2 = bb_can_resize b1"
  shows "appends c c' e \<and> cbb_chain c' = []"
proof -
  from r obtain c1 where fl: "CBB_flush M c = (True, c1)" and o: "on_base c1 f = (True, c')"
    by (rule cbb_thenE)
  note a = CBB_flush_appends [OF M c fl]
  then obtain b1 where b1: "cbb_base c1 = Some b1" "wf_buffer b1" by (auto simp: appends_def ready_def)
  from on_base_True [OF o b1(1)] obtain b2 where b2: "f b1 = (True, b2)"
    and c': "c' = c1\<lparr>cbb_base := Some b2\<rparr>" by blast
  from f [OF b1(2) b2] appends_buffer [OF a b1(1)] a(2) c' show ?thesis by (simp add: c')
qed

lemma add_u_appends:
  assumes M: "malloc_spec M" and c: "ready c b" and n: "0 < n" "n \<le> 4"
    and r: "cbb_then (CBB_flush M c) (\<lambda>c. on_base c (\<lambda>base. cbb_buffer_add_u M base v n)) = (True, c')"
  shows "appends c c' (be_bytes n (unat v)) \<and> cbb_chain c' = []"
  by (rule flush_then_buffer [OF M c r]) (use add_u_True [OF M _ n] in blast)

lemma unat_ucast_u16_u32 [simp]: "unat (ucast (v :: u16) :: u32) = unat v"
proof -
  have "unat v < 2 ^ LENGTH(32)"
    using unsigned_less [of v, where ?'a = nat] by simp
  then show ?thesis by (simp only: unsigned_ucast_eq take_bit_nat_eq_self)
qed

lemma be_bytes_u8: "be_bytes 1 (unat (v :: u8)) = [v]"
  by simp

lemma CBB_add_u8_appends:
  "malloc_spec M \<Longrightarrow> ready c b \<Longrightarrow> CBB_add_u8 M c v = (True, c') \<Longrightarrow> 
     appends c c' [v] \<and> cbb_chain c' = []"
  unfolding CBB_add_u8_def
  by (drule add_u_appends [where n = 1]) (simp_all only: be_bytes_u8 unat_ucast_u8_u32, simp_all)

lemma CBB_add_u16_appends:
  "malloc_spec M \<Longrightarrow> ready c b \<Longrightarrow> CBB_add_u16 M c v = (True, c') \<Longrightarrow> 
     appends c c' (be_bytes 2 (unat v)) \<and> cbb_chain c' = []"
  unfolding CBB_add_u16_def
  by (drule add_u_appends [where n = 2]) (simp_all only: unat_ucast_u16_u32, simp_all)

lemma CBB_add_u24_appends:
  "malloc_spec M \<Longrightarrow> ready c b \<Longrightarrow> CBB_add_u24 M c v = (True, c') \<Longrightarrow> 
     appends c c' (be_bytes 3 (unat v)) \<and> cbb_chain c' = []"
  unfolding CBB_add_u24_def by (drule add_u_appends) simp_all

lemma CBB_add_u32_appends:
  "malloc_spec M \<Longrightarrow> ready c b \<Longrightarrow> CBB_add_u32 M c v = (True, c') \<Longrightarrow> 
     appends c c' (be_bytes 4 (unat v)) \<and> cbb_chain c' = []"
  unfolding CBB_add_u32_def by (drule add_u_appends) simp_all

lemma CBB_add_bytes_appends:
  assumes M: "malloc_spec M" and c: "ready c b" and d: "length d < 2 ^ 62"
    and r: "CBB_add_bytes M c d = (True, c')"
  shows "appends c c' d \<and> cbb_chain c' = []"
  by (rule flush_then_buffer [OF M c r [unfolded CBB_add_bytes_def]])
    (use add_blit [OF M _ d] in \<open>fastforce split: prod.splits bool.splits\<close>)

section \<open>Nested builders\<close>

text \<open>\<open>opens c c1 pre f\<close>: \<open>c1\<close> is \<open>c\<close> after \<open>pre\<close> was added and the child \<open>f\<close> was opened.\<close>

definition opens :: "CBB \<Rightarrow> CBB \<Rightarrow> u8 list \<Rightarrow> cbb_fields \<Rightarrow> bool" where
  "opens c c1 pre f \<longleftrightarrow>
     cbb_chain c1 = [f]
     \<and> (\<exists>c0 b z. appends c c0 pre \<and> cbb_chain c0 = [] \<and> cbb_self c1 = cbb_self c0
            \<and> map_option bb_can_resize (cbb_base c1) = map_option bb_can_resize (cbb_base c0)
            \<and> ready c1 b \<and> written b = written (the (cbb_base c0)) @ z
            \<and> length z = cbb_pending_len_len f
            \<and> cbb_offset f = length (written (the (cbb_base c0))))"

lemma opens_child_ready:
  assumes "opens c c1 pre f"
  shows "\<exists>b. ready (CBB_child c1) b"
  using assms by (auto simp: opens_def ready_def CBB_child_def fields_end_def)

lemma opens_child_chain: "opens c c1 pre f \<Longrightarrow> cbb_chain (CBB_child c1) = []"
  by (auto simp: opens_def CBB_child_def)

text \<open>
  Whatever is added to the child is added to the parent behind the prefix that tells its length;
  the prefix must be able to hold it.
\<close>

lemma nested_appends:
  assumes o: "opens c c1 pre f" and a: "appends (CBB_child c1) ch d"
    and p: "prefix_bytes f (length d) = Some p"
  shows "appends c (CBB_return c1 ch) (pre @ p @ d)"
proof -
  from o obtain c0 b z where c0: "appends c c0 pre" "cbb_chain c0 = []" "cbb_self c1 = cbb_self c0"
    and rs: "map_option bb_can_resize (cbb_base c1) = map_option bb_can_resize (cbb_base c0)"
    and rb: "ready c1 b" and w: "written b = written (the (cbb_base c0)) @ z"
    and z: "length z = cbb_pending_len_len f" and off: "cbb_offset f = length (written (the (cbb_base c0)))"
    and ch1: "cbb_chain c1 = [f]"
    by (auto simp: opens_def)
  define w0 where "w0 = written (the (cbb_base c0))"
  have child: "CBB_bytes (CBB_child c1) = Some (w0 @ z)" "cbb_self (CBB_child c1) = f"
    using ch1 rb w by (simp_all add: CBB_bytes_def CBB_child_def ready_def w0_def)
  from a child obtain b' where ch: "ready ch b'" "flush_spec (written b') (cbb_chain ch) = Some (w0 @ z @ d)"
      "cbb_self ch = f" "cbb_base ch = Some b'" "bb_can_resize b' = bb_can_resize b"
    using rb by (auto simp: appends_def CBB_bytes_def ready_def CBB_child_def)
  have fe: "fields_end f = length (w0 @ z)" by (simp add: fields_end_def off z w0_def)
  have "flush_spec (written b') (f # cbb_chain ch) = Some (w0 @ p @ d)"
    using ch(2) p fe by (simp add: off flip: w0_def)
  then have bytes: "CBB_bytes (CBB_return c1 ch) = Some (w0 @ p @ d)"
    using ch by (simp add: CBB_bytes_def CBB_return_def)
  from c0(1) obtain b0 wc where b0: "ready c0 b0" "CBB_bytes c = Some wc" "CBB_bytes c0 = Some (wc @ pre)"
    by (auto simp: appends_def)
  have w0: "w0 = wc @ pre" using CBB_bytes_no_child [OF b0(1) c0(2)] b0 by (simp add: w0_def ready_def)
  have "ready (CBB_return c1 ch) b'"
    using ch(1,3) rb ch1 by (simp add: ready_def CBB_return_def fields_end_def)
  then show ?thesis
    using c0(1,3) rs ch(4,5) bytes rb b0(2)
    by (auto simp: appends_def CBB_return_def w0 ready_def)
qed

text \<open>A child whose contents do not fit its prefix cannot be flushed.\<close>

lemma nested_too_long:
  assumes M: "malloc_spec M" and o: "opens c c1 pre f" and a: "appends (CBB_child c1) ch d"
    and p: "prefix_bytes f (length d) = None"
  shows "fst (CBB_flush M (CBB_return c1 ch)) = False"
proof (rule ccontr)
  assume "fst (CBB_flush M (CBB_return c1 ch)) \<noteq> False"
  then obtain c3 where fl: "CBB_flush M (CBB_return c1 ch) = (True, c3)" by (metis (full_types) prod.collapse)
  from o obtain b w0 z where rb: "ready c1 b" and w: "written b = w0 @ z"
    and fe: "fields_end f = length (w0 @ z)" and ch1: "cbb_chain c1 = [f]"
    by (auto simp: opens_def fields_end_def)
  have child: "CBB_bytes (CBB_child c1) = Some (w0 @ z)" "cbb_self (CBB_child c1) = f"
    using ch1 rb w by (simp_all add: CBB_bytes_def CBB_child_def ready_def)
  from a child obtain b' where ch: "ready ch b'" "flush_spec (written b') (cbb_chain ch) = Some (w0 @ z @ d)"
      "cbb_self ch = f" "cbb_base ch = Some b'"
    by (auto simp: appends_def CBB_bytes_def ready_def)
  have "ready (CBB_return c1 ch) b'"
    using ch(1,3) rb ch1 by (simp add: ready_def CBB_return_def fields_end_def)
  from CBB_flush_appends(1) [OF M this fl] have "CBB_bytes (CBB_return c1 ch) \<noteq> None"
    by (auto simp: appends_def)
  moreover have "CBB_bytes (CBB_return c1 ch) = None"
    using ch p fe by (simp add: CBB_bytes_def CBB_return_def)
  ultimately show False by simp
qed

lemma opens_intro:
  assumes a: "appends c c0 pre" and ch: "cbb_chain c0 = []" and b0: "cbb_base c0 = Some b0"
    and b: "wf_buffer b" "written b = written b0 @ z" "bb_error b = bb_error b0"
      "bb_can_resize b = bb_can_resize b0"
    and f: "wf_prefix f" "cbb_offset f = bb_len b0" "cbb_pending_len_len f = length z"
  shows "opens c (c0\<lparr>cbb_base := Some b, cbb_chain := [f]\<rparr>) pre f"
proof -
  from a b0 have r0: "ready c0 b0" by (auto simp: appends_def ready_def)
  then have l0: "length (written b0) = bb_len b0" by (simp add: ready_def length_written)
  have "bb_len b = bb_len b0 + length z"
    using length_written [OF b(1)] b(2) l0 by simp
  then have "ready (c0\<lparr>cbb_base := Some b, cbb_chain := [f]\<rparr>) b"
    using r0 b f ch by (simp add: ready_def)
  then show ?thesis
    using a ch b0 b f l0 unfolding opens_def by (intro conjI exI [of _ c0] exI [of _ b] exI [of _ z]) simp_all
qed

lemma cbb_add_length_prefixed_opens:
  assumes M: "malloc_spec M" and c: "ready c b" and n: "1 \<le> n" "n \<le> 3"
    and r: "cbb_add_length_prefixed M c n = (True, c1)"
  shows "\<exists>f. opens c c1 [] f \<and> cbb_pending_len_len f = n \<and> \<not> cbb_pending_is_asn1 f"
proof -
  from r obtain c0 where fl: "CBB_flush M c = (True, c0)"
    and r2: "(let offset = (case cbb_base c0 of None \<Rightarrow> 0 | Some base \<Rightarrow> bb_len base)
          in cbb_then
               (on_base c0 (\<lambda>base.
                  case cbb_buffer_add M base n of
                    (False, base) \<Rightarrow> (False, base)
                  | (True, base) \<Rightarrow>
                      (True, base\<lparr>bb_buf := blit (bb_buf base) offset (replicate n 0)\<rparr>)))
               (\<lambda>cbb. (True, cbb\<lparr>cbb_chain :=
                  [zero_fields\<lparr>cbb_offset := offset, cbb_pending_len_len := n,
                              cbb_pending_is_asn1 := False\<rparr>]\<rparr>))) = (True, c1)"
    unfolding cbb_add_length_prefixed_def by (rule cbb_thenE)
  note a = CBB_flush_appends [OF M c fl]
  then obtain b0 where b0: "cbb_base c0 = Some b0" "wf_buffer b0"
    by (auto simp: appends_def ready_def)
  from r2 b0 obtain b1 where ad: "cbb_buffer_add M b0 n = (True, b1)"
    and c1: "c1 = c0\<lparr>cbb_base := Some (b1\<lparr>bb_buf := blit (bb_buf b1) (bb_len b0) (replicate n 0)\<rparr>),
        cbb_chain := [zero_fields\<lparr>cbb_offset := bb_len b0, cbb_pending_len_len := n,
                              cbb_pending_is_asn1 := False\<rparr>]\<rparr>"
    by (auto simp: Let_def cbb_then_def on_base_def split: prod.splits bool.splits)
  have ln: "length (replicate n (0 :: u8)) < 2 ^ 62" using n by simp
  from ad have ad': "cbb_buffer_add M b0 (length (replicate n (0 :: u8))) = (True, b1)" by simp
  note w = add_blit [OF M b0(2) ln ad']
  show ?thesis
    unfolding c1
    by (rule exI, rule conjI, rule opens_intro [OF a b0(1) w(1,2,3,4)]) (use n in \<open>simp_all add: wf_prefix_def zero_fields_def\<close>)
qed

section \<open>Failure\<close>

lemma CBB_flush_failed: "CBB_failed c \<Longrightarrow> CBB_flush M c = (False, c)"
proof (cases "cbb_base c")
  case (Some b)
  moreover assume "CBB_failed c"
  ultimately show ?thesis
    by (cases "cbb_chain c") (simp_all add: CBB_failed_def CBB_flush_def)
qed (simp add: CBB_flush_def)

lemma flush_chain_False: "flush_chain M b fs = (False, b', fs') \<Longrightarrow> bb_error b'"
  by (cases fs) (auto simp: Let_def split: if_splits prod.splits bool.splits dest: flush_length_False)

lemma CBB_flush_False: "CBB_flush M c = (False, c') \<Longrightarrow> CBB_failed c'"
  by (auto simp: CBB_flush_def CBB_failed_def split: option.splits prod.splits dest: flush_chain_False)

lemma flush_then_failed: "CBB_failed c \<Longrightarrow> cbb_then (CBB_flush M c) k = (False, c)"
  by (simp add: cbb_then_def CBB_flush_failed)

lemma flush_then_False:
  assumes "cbb_then (CBB_flush M c) (\<lambda>c. on_base c f) = (False, c')"
    and "\<And>b b'. f b = (False, b') \<Longrightarrow> bb_error b'"
  shows "CBB_failed c'"
  using assms(1) assms(2)
  by (auto simp: cbb_then_def on_base_def CBB_failed_def dest: CBB_flush_False
      split: prod.splits bool.splits option.splits)

lemma add_u_False: "cbb_buffer_add_u M b v n = (False, b') \<Longrightarrow> bb_error b'"
  by (auto simp: cbb_buffer_add_u_def Let_def split: if_splits prod.splits bool.splits dest: add_False)

lemmas CBB_adders = CBB_add_u8_def CBB_add_u16_def CBB_add_u24_def CBB_add_u32_def CBB_add_bytes_def
  CBB_add_space_def CBB_reserve_def

lemma CBB_add_False:
  "CBB_add_u8 M c v8 = (False, c') \<Longrightarrow> CBB_failed c'"
  "CBB_add_u16 M c v16 = (False, c') \<Longrightarrow> CBB_failed c'"
  "CBB_add_u24 M c v32 = (False, c') \<Longrightarrow> CBB_failed c'"
  "CBB_add_u32 M c v32 = (False, c') \<Longrightarrow> CBB_failed c'"
  "CBB_add_bytes M c d = (False, c') \<Longrightarrow> CBB_failed c'"
  "CBB_add_space M c n = (False, c') \<Longrightarrow> CBB_failed c'"
  "CBB_reserve M c n = (False, c') \<Longrightarrow> CBB_failed c'"
  unfolding CBB_adders
  by (erule flush_then_False; auto dest: add_u_False add_False reserve_False split: prod.splits bool.splits)+

lemma CBB_add_failed:
  assumes "CBB_failed c"
  shows "CBB_add_u8 M c v8 = (False, c)" "CBB_add_u16 M c v16 = (False, c)"
    "CBB_add_u24 M c v32 = (False, c)" "CBB_add_u32 M c v32 = (False, c)"
    "CBB_add_bytes M c d = (False, c)" "CBB_add_space M c n = (False, c)"
    "CBB_reserve M c n = (False, c)" "cbb_add_length_prefixed M c k = (False, c)"
  unfolding CBB_adders cbb_add_length_prefixed_def by (simp_all add: flush_then_failed [OF assms])

section \<open>The first and the last operation of a builder\<close>

lemma CBB_init_ready:
  assumes M: "malloc_spec M" and n: "n < size_t_end - 8" and r: "CBB_init M n = (True, c)"
  shows "\<exists>b. ready c b \<and> bb_can_resize b \<and> CBB_bytes c = Some [] \<and> cbb_chain c = []
    \<and> cbb_is_top_level (cbb_self c) \<and> fields_end (cbb_self c) = 0"
proof -
  define buf where "buf = (case OPENSSL_malloc M n of None \<Rightarrow> [] | Some b \<Rightarrow> b)"
  have len: "length buf = n \<and> n < 2 ^ 62"
  proof (cases "OPENSSL_malloc M n")
    case None
    with r have "n = 0" by (auto simp: CBB_init_def Let_def split: if_splits)
    with None show ?thesis by (simp add: buf_def)
  next
    case (Some b)
    with OPENSSL_malloc_length [OF M Some n] OPENSSL_malloc_bound [OF M Some n]
    show ?thesis by (simp add: buf_def)
  qed
  from r have "cbb_init M CBB_zero buf n = (True, c)"
    by (simp add: CBB_init_def buf_def Let_def split: if_splits)
  then have "cbb_base c = Some \<lparr>bb_buf = buf, bb_len = 0, bb_cap = n, bb_can_resize = True, bb_error = False\<rparr>"
    "cbb_chain c = []" "cbb_self c = zero_fields\<lparr>cbb_is_top_level := True\<rparr>"
    by (auto simp: cbb_init_def CBB_zero_def split: option.splits)
  with len show ?thesis
    by (simp add: ready_def wf_buffer_def CBB_bytes_def written_def zero_fields_def fields_end_def)
qed

lemma CBB_finish_bytes:
  assumes M: "malloc_spec M" and c: "ready c b"
    and r: "CBB_finish M c dn ln = (Some (buf, len), c')"
  shows "CBB_bytes c = Some (take len buf)" and "len \<le> length buf" and "len < 2 ^ 62" and "CBB_failed c'"
proof -
  from r obtain c1 where fl: "CBB_flush M c = (True, c1)"
    by (auto simp: CBB_finish_def split: if_splits prod.splits bool.splits)
  note a = CBB_flush_appends [OF M c fl]
  then obtain b1 where b1: "ready c1 b1" using appends_ready by blast
  with r fl have "buf = bb_buf b1" "len = bb_len b1" and c': "CBB_failed c'"
    by (auto simp: CBB_finish_def ready_def CBB_cleanup_def CBB_failed_def split: if_splits)
  then show "CBB_bytes c = Some (take len buf)" "len \<le> length buf" "len < 2 ^ 62" "CBB_failed c'"
    using a(1) CBB_bytes_no_child [OF b1 a(2)] b1
    by (auto simp: appends_def written_def ready_def wf_buffer_def)
qed

lemma appends_bytes: "appends c c' d \<Longrightarrow> CBB_bytes c = Some w \<Longrightarrow> CBB_bytes c' = Some (w @ d)"
  by (auto simp: appends_def)

end
