(* ===== verification/CbbLive.thy ===== *)
theory CbbLive
  imports CbbOps
begin

text \<open>
  When the operations of \<^verbatim>\<open>cbb.c\<close> succeed: a growable builder fails only when the allocator does or
  when the contents of a child do not fit its length prefix, and a fixed one only when its buffer is
  full. Sizes up to \<open>2 ^ 60\<close> are considered, so that doubling the capacity stays within what
  \<open>malloc_spec\<close> lets an allocator return.
\<close>

definition roomy :: "cbb_buffer_st \<Rightarrow> bool" where
  "roomy b \<longleftrightarrow> wf_buffer b \<and> bb_can_resize b \<and> bb_cap b < 2 ^ 61"

section \<open>Growable buffers\<close>

lemma reserve_live:
  assumes M: "malloc_total M" and b: "roomy b" and n: "bb_len b + n \<le> 2 ^ 60"
  shows "\<exists>b'. cbb_buffer_reserve M b n = (True, b') \<and> roomy b'"
proof -
  have sum: "size_add (bb_len b) n = bb_len b + n" using n by (simp add: size_add_small)
  have dbl: "size_mul (bb_cap b) 2 = bb_cap b * 2" using b by (simp add: size_mul_small roomy_def)
  have n62: "n < 2 ^ 62" using n by simp
  show ?thesis
  proof (cases "bb_len b + n > bb_cap b")
    case False
    then show ?thesis using b by (simp add: cbb_buffer_reserve_def sum)
  next
    case True
    define newcap where "newcap = (if bb_cap b * 2 < bb_len b + n then bb_len b + n else bb_cap b * 2)"
    have nc: "newcap < 2 ^ 61" using True n by (auto simp: newcap_def)
    then obtain p where p: "OPENSSL_realloc M (Some (bb_buf b)) newcap = Some p"
      using OPENSSL_malloc_total [OF M, of newcap] by (auto simp: OPENSSL_realloc_def Let_def)
    have r: "cbb_buffer_reserve M b n = (True, b\<lparr>bb_buf := p, bb_cap := newcap\<rparr>)"
      using True b p by (simp add: cbb_buffer_reserve_def sum dbl Let_def roomy_def newcap_def [symmetric])
    moreover have "wf_buffer (b\<lparr>bb_buf := p, bb_cap := newcap\<rparr>)"
      using reserve_True(1) [OF malloc_total_spec [OF M] _ n62 r] b by (simp add: roomy_def)
    ultimately show ?thesis using b nc by (auto simp: roomy_def)
  qed
qed

lemma add_live:
  assumes M: "malloc_total M" and b: "roomy b" and n: "bb_len b + n \<le> 2 ^ 60"
  shows "\<exists>b'. cbb_buffer_add M b n = (True, b') \<and> roomy b' \<and> bb_len b' = bb_len b + n"
proof -
  from reserve_live [OF M b n] obtain b1 where r: "cbb_buffer_reserve M b n = (True, b1)" "roomy b1" by blast
  then have a: "cbb_buffer_add M b n = (True, b1\<lparr>bb_len := bb_len b1 + n\<rparr>)" by (simp add: cbb_buffer_add_def)
  have n62: "n < 2 ^ 62" using n by simp
  show ?thesis
    using add_True(1,2) [OF malloc_total_spec [OF M] _ n62 a] b a r(2) by (simp add: roomy_def)
qed

lemma add_u_live:
  assumes M: "malloc_total M" and b: "roomy b" and n: "bb_len b + n \<le> 2 ^ 60" "0 < n"
    and v: "unat v < 256 ^ n"
  shows "\<exists>b'. cbb_buffer_add_u M b v n = (True, b') \<and> roomy b'"
proof -
  from add_live [OF M b n(1)] obtain b1 where a: "cbb_buffer_add M b n = (True, b1)" "roomy b1"
    "bb_len b1 = bb_len b + n" by blast
  have l: "bb_len b + n \<le> length (bb_buf b1)" using a by (simp add: roomy_def wf_buffer_def)
  show ?thesis
    using a n v l by (simp add: cbb_buffer_add_u_def put_be_eq roomy_def wf_buffer_def)
qed

section \<open>Flushing\<close>

lemma prefix_bytes_length:
  "wf_prefix f \<Longrightarrow> prefix_bytes f n = Some p \<Longrightarrow> cbb_pending_len_len f \<le> length p"
  using der_length_length [of n] by (auto simp: wf_prefix_def prefix_bytes_def split: if_splits)

lemma flush_spec_length:
  "flush_spec w fs = Some w' \<Longrightarrow> wf_chain s fs (length w) \<Longrightarrow> length w \<le> length w'"
proof (induction fs arbitrary: s w')
  case Nil
  then show ?case by simp
next
  case (Cons f fs)
  let ?e = "fields_end f"
  from Cons.prems obtain w1 p where w1: "flush_spec w fs = Some w1"
    and p: "prefix_bytes f (length (drop ?e w1)) = Some p"
    and w': "w' = take (cbb_offset f) w1 @ p @ drop ?e w1"
    by (auto simp: Let_def split: option.splits)
  from Cons.prems(2) have ch: "wf_chain ?e fs (length w)" and pre: "wf_prefix f"
    by (simp_all add: fields_end_def)
  have "length w \<le> length w1" by (rule Cons.IH [OF w1 ch])
  moreover have "?e \<le> length w" by (rule wf_chain_bound [OF ch])
  moreover have "cbb_pending_len_len f \<le> length p" by (rule prefix_bytes_length [OF pre p])
  ultimately show ?case by (simp add: w' fields_end_def)
qed

lemma flush_length_live:
  assumes M: "malloc_total M" and b: "roomy b" and pre: "wf_prefix ch"
    and cs: "cs = fields_end ch" "cs \<le> bb_len b"
    and p: "prefix_bytes ch (bb_len b - cs) = Some p"
    and len: "cbb_offset ch + length p + (bb_len b - cs) \<le> 2 ^ 60"
  shows "\<exists>b' ch'. flush_length M b ch cs = (True, b', ch') \<and> roomy b'"
proof (cases "cbb_pending_is_asn1 ch")
  case False
  have "cbb_offset ch + cbb_pending_len_len ch \<le> length (bb_buf b)"
    using cs b by (simp add: fields_end_def roomy_def wf_buffer_def)
  then show ?thesis
    using p b cs False
    by (simp add: flush_length_def put_be_eq prefix_bytes_def Let_def roomy_def wf_buffer_def fields_end_def
        split: if_splits)
next
  case True
  define n off where "n = bb_len b - cs" and "off = cbb_offset ch"
  have cso: "cs = Suc off" using pre True cs(1) by (simp add: wf_prefix_def fields_end_def off_def)
  have big: "\<not> n > 0xfffffffe" and pd: "p = der_length n" using p True
    by (auto simp: prefix_bytes_def n_def split: if_splits)
  have loff: "off < length (bb_buf b)" using cso cs(2) b by (simp add: roomy_def wf_buffer_def)
  show ?thesis
  proof (cases "n < 128")
    case small: True
    then show ?thesis
      using True big b loff unfolding flush_length_def Let_def length_bytes_choice
      by (auto simp: n_def off_def roomy_def wf_buffer_def)
  next
    case large: False
    define k where "k = length_octets n"
    have k: "1 \<le> k" "k \<le> 4" by (auto simp: k_def length_octets_def)
    have lp: "length p = Suc k" using large by (simp add: pd der_length_def k_def)
    have fits: "bb_len b + k \<le> 2 ^ 60"
      using len lp cso cs(2) unfolding n_def [symmetric] off_def [symmetric] by (simp add: n_def)
    from add_live [OF M b fits] obtain b1 where a: "cbb_buffer_add M b k = (True, b1)" "roomy b1"
      "bb_len b1 = bb_len b + k" by blast
    define x where "x = (128 + of_nat k :: u8)"
    define b2 where "b2 = b1\<lparr>bb_buf := (memmove (bb_buf b1) (cs + k) cs n)[off := x]\<rparr>"
    note mv = move_contents [OF malloc_total_spec [OF M] _ k(2) cs(2) cso a(1), of x, folded n_def, folded b2_def]
    have wf2: "wf_buffer b2" and l2: "bb_len b2 = bb_len b + k" using mv(1,2) b by (simp_all add: roomy_def)
    have l: "off + 1 + k \<le> length (bb_buf b2)"
      using wf2 l2 cso cs(2) by (simp add: wf_buffer_def)
    have nk: "n div 256 ^ k = 0"
      using length_octets_bounds(1) [of n] large big unfolding k_def by simp
    have pb: "put_be ((memmove (bb_buf b1) (cs + k) cs n)[off := x]) (off + 1) k n
        = (blit (bb_buf b2) (off + 1) (be_bytes k n), 0)"
      using put_be_eq [OF l, of n] nk by (simp add: b2_def)
    have "flush_length M b ch cs
        = (True, b2\<lparr>bb_buf := blit (bb_buf b2) (off + 1) (be_bytes k n)\<rparr>,
           ch\<lparr>cbb_offset := off + 1, cbb_pending_len_len := k\<rparr>)"
      using True big large a(1) k pb unfolding flush_length_def Let_def length_bytes_choice
      by (simp add: n_def [symmetric] off_def [symmetric] k_def [symmetric] x_def [symmetric] b2_def)
    moreover have "roomy (b2\<lparr>bb_buf := blit (bb_buf b2) (off + 1) (be_bytes k n)\<rparr>)"
      using a(2) wf2 l by (simp add: roomy_def wf_buffer_def b2_def)
    ultimately show ?thesis by blast
  qed
qed

lemma flush_chain_live:
  assumes M: "malloc_total M"
  shows "roomy b \<Longrightarrow> \<not> bb_error b \<Longrightarrow> wf_chain s fs (bb_len b) \<Longrightarrow>
    flush_spec (written b) fs = Some w \<Longrightarrow> length w \<le> 2 ^ 60 \<Longrightarrow>
    \<exists>b'. flush_chain M b fs = (True, b', []) \<and> roomy b'"
proof (induction fs arbitrary: s w)
  case Nil
  then show ?case by simp
next
  case (Cons ch fs)
  let ?cs = "fields_end ch"
  from Cons.prems(1) have wf: "wf_buffer b" by (simp add: roomy_def)
  then have lw: "length (written b) = bb_len b" by (rule length_written)
  from Cons.prems(4) obtain w1 p where w1: "flush_spec (written b) fs = Some w1"
    and p: "prefix_bytes ch (length (drop ?cs w1)) = Some p"
    and w: "w = take (cbb_offset ch) w1 @ p @ drop ?cs w1"
    by (auto simp: Let_def split: option.splits)
  from Cons.prems(3) have pre: "wf_prefix ch" and ch: "wf_chain ?cs fs (bb_len b)"
    by (simp_all add: fields_end_def)
  have l1: "bb_len b \<le> length w1" "?cs \<le> bb_len b"
    using flush_spec_length [OF w1, of ?cs] ch wf_chain_bound [OF ch] lw by simp_all
  have lenw: "cbb_offset ch + length p + (length w1 - ?cs) = length w"
    using l1 by (simp add: w fields_end_def)
  then have "length w1 \<le> length w"
    using prefix_bytes_length [OF pre p] l1 by (simp add: fields_end_def)
  with Cons.prems(5) have "length w1 \<le> 2 ^ 60" by simp
  from Cons.IH [OF Cons.prems(1,2) ch w1 this] obtain b1 where
    f: "flush_chain M b fs = (True, b1, [])" and b1: "roomy b1" by blast
  note F = flush_chain_refines [OF malloc_total_spec [OF M] f wf ch]
  have w1b: "written b1 = w1" using F w1 by simp
  have len1: "length w1 = bb_len b1" using length_written [of b1] b1 w1b by (simp add: roomy_def)
  have "bb_len b < 2 ^ 62" using wf by (simp add: wf_buffer_def)
  then have cs: "size_add (cbb_offset ch) (cbb_pending_len_len ch) = ?cs"
    using l1 by (simp add: size_add_def fields_end_def)
  have nz: "cbb_pending_len_len ch \<noteq> 0" using pre by (auto simp: wf_prefix_def split: if_splits)
  have "?cs \<le> bb_len b1" using l1 len1 by simp
  from flush_length_live [OF M b1 pre refl this, of p] p lenw len1 Cons.prems(5)
  obtain b' ch' where "flush_length M b1 ch ?cs = (True, b', ch')" "roomy b'" by auto
  with f cs nz Cons.prems(2) l1 len1 show ?case by (simp add: fields_end_def)
qed

lemma CBB_flush_live:
  assumes M: "malloc_total M" and c: "ready c b" "roomy b"
    and w: "CBB_bytes c = Some w" "length w \<le> 2 ^ 60"
  shows "\<exists>c' b'. CBB_flush M c = (True, c') \<and> cbb_base c' = Some b' \<and> roomy b' \<and> bb_len b' = length w
    \<and> \<not> bb_error b'"
proof -
  from c w(1) have "\<not> bb_error b" "wf_chain (fields_end (cbb_self c)) (cbb_chain c) (bb_len b)"
    "flush_spec (written b) (cbb_chain c) = Some w" "wf_buffer b" and base: "cbb_base c = Some b"
    by (simp_all add: ready_def CBB_bytes_def)
  with flush_chain_live [OF M c(2) _ _ _ w(2)] obtain b' where
    f: "flush_chain M b (cbb_chain c) = (True, b', [])" and r: "roomy b'" by blast
  note F = flush_chain_refines [OF malloc_total_spec [OF M] f \<open>wf_buffer b\<close>
      \<open>wf_chain (fields_end (cbb_self c)) (cbb_chain c) (bb_len b)\<close>]
  have "bb_len b' = length w"
    using F \<open>flush_spec (written b) (cbb_chain c) = Some w\<close> length_written [of b'] by simp
  then show ?thesis using f r base F by (simp add: CBB_flush_def)
qed

section \<open>Operations\<close>

text \<open>\<open>live c w\<close>: \<open>c\<close> is a growable builder in good order that stands for \<open>w\<close>.\<close>

definition live :: "CBB \<Rightarrow> u8 list \<Rightarrow> bool" where
  "live c w \<longleftrightarrow> (\<exists>b. ready c b \<and> roomy b \<and> CBB_bytes c = Some w)"

lemma live_ready: "live c w \<Longrightarrow> \<exists>b. ready c b"
  by (auto simp: live_def)

lemma live_bytes: "live c w \<Longrightarrow> CBB_bytes c = Some w"
  by (auto simp: live_def)

text \<open>A write to the buffer after a flush, for a write that succeeds when there is room.\<close>

lemma flush_then_live:
  assumes M: "malloc_total M" and c: "live c w" and w: "length w + n \<le> 2 ^ 60"
    and f: "\<And>b. roomy b \<Longrightarrow> bb_len b + n \<le> 2 ^ 60 \<Longrightarrow> \<exists>b'. f b = (True, b') \<and> roomy b'"
    and a: "\<And>c' b. ready c b \<Longrightarrow> cbb_then (CBB_flush M c) (\<lambda>c. on_base c f) = (True, c') \<Longrightarrow>
      appends c c' d \<and> cbb_chain c' = []"
  shows "\<exists>c'. cbb_then (CBB_flush M c) (\<lambda>c. on_base c f) = (True, c') \<and> live c' (w @ d) \<and> cbb_chain c' = []"
proof -
  from c obtain b where b: "ready c b" "roomy b" "CBB_bytes c = Some w" by (auto simp: live_def)
  have "length w \<le> 2 ^ 60" using w by simp
  from CBB_flush_live [OF M b this] obtain c1 b1 where
    c1: "CBB_flush M c = (True, c1)" "cbb_base c1 = Some b1" "roomy b1" "bb_len b1 = length w" by blast
  from f [OF c1(3)] w c1(4) obtain b2 where b2: "f b1 = (True, b2)" "roomy b2" by auto
  then have r: "cbb_then (CBB_flush M c) (\<lambda>c. on_base c f) = (True, c1\<lparr>cbb_base := Some b2\<rparr>)"
    using c1 by (simp add: cbb_then_def on_base_def)
  note ap = a [OF b(1) r]
  then obtain b3 where "ready (c1\<lparr>cbb_base := Some b2\<rparr>) b3" using appends_ready by blast
  then have "ready (c1\<lparr>cbb_base := Some b2\<rparr>) b2" by (simp add: ready_def)
  with r b2 ap appends_bytes [OF _ b(3)] show ?thesis unfolding live_def by blast
qed

lemma CBB_flush_live':
  assumes M: "malloc_total M" and c: "live c w" and w: "length w \<le> 2 ^ 60"
  shows "\<exists>c'. CBB_flush M c = (True, c') \<and> live c' w \<and> cbb_chain c' = []"
proof -
  from c obtain b where b: "ready c b" "roomy b" "CBB_bytes c = Some w" by (auto simp: live_def)
  from CBB_flush_live [OF M b w] obtain c1 b1 where
    c1: "CBB_flush M c = (True, c1)" "cbb_base c1 = Some b1" "roomy b1" by blast
  note a = CBB_flush_appends [OF malloc_total_spec [OF M] b(1) c1(1)]
  then have "ready c1 b1" using c1(2) appends_ready [OF a(1)] by (auto simp: ready_def)
  with c1 a appends_bytes [OF a(1) b(3)] show ?thesis by (auto simp: live_def)
qed

lemma CBB_add_bytes_live:
  assumes M: "malloc_total M" and c: "live c w" and w: "length w + length d \<le> 2 ^ 60"
  shows "\<exists>c'. CBB_add_bytes M c d = (True, c') \<and> live c' (w @ d) \<and> cbb_chain c' = []"
proof -
  have d: "length d < 2 ^ 62" using w by simp
  show ?thesis
    unfolding CBB_add_bytes_def
  proof (rule flush_then_live [OF M c w])
    fix b assume b: "roomy b" "bb_len b + length d \<le> 2 ^ 60"
    from add_live [OF M b] obtain b1 where b1: "cbb_buffer_add M b (length d) = (True, b1)" "roomy b1" by blast
    have "wf_buffer b" using b by (simp add: roomy_def)
    from add_blit(1) [OF malloc_total_spec [OF M] this d b1(1)] b1
    show "\<exists>b'. (let dest = bb_len b
          in (case cbb_buffer_add M b (length d) of
                (False, base) \<Rightarrow> (False, base)
              | (True, base) \<Rightarrow> (True, base\<lparr>bb_buf := blit (bb_buf base) dest d\<rparr>))) = (True, b') \<and> roomy b'"
      by (simp add: roomy_def)
  next
    show "appends c c' d \<and> cbb_chain c' = []"
      if "ready c b" and "cbb_then (CBB_flush M c) (\<lambda>cbb. on_base cbb (\<lambda>base.
          let dest = bb_len base
          in (case cbb_buffer_add M base (length d) of
                (False, base) \<Rightarrow> (False, base)
              | (True, base) \<Rightarrow> (True, base\<lparr>bb_buf := blit (bb_buf base) dest d\<rparr>)))) = (True, c')" for c' b
      using CBB_add_bytes_appends [OF malloc_total_spec [OF M] that(1) d, unfolded CBB_add_bytes_def, OF that(2)] .
  qed
qed

lemma add_u_op_live:
  assumes M: "malloc_total M" and c: "live c w" and n: "length w + n \<le> 2 ^ 60" "0 < n" "n \<le> 4"
    and v: "unat v < 256 ^ n"
  shows "\<exists>c'. cbb_then (CBB_flush M c) (\<lambda>c. on_base c (\<lambda>base. cbb_buffer_add_u M base v n)) = (True, c')
    \<and> live c' (w @ be_bytes n (unat v)) \<and> cbb_chain c' = []"
  by (rule flush_then_live [OF M c n(1)])
    (use add_u_live [OF M _ _ n(2) v] add_u_appends [OF malloc_total_spec [OF M] _ n(2,3)] in blast)+

lemma CBB_add_u8_live:
  assumes M: "malloc_total M" and c: "live c w" and w: "length w + 1 \<le> 2 ^ 60"
  shows "\<exists>c'. CBB_add_u8 M c v = (True, c') \<and> live c' (w @ [v]) \<and> cbb_chain c' = []"
  using add_u_op_live [OF M c w, of "ucast v"]
  unfolding CBB_add_u8_def unat_ucast_u8_u32 be_bytes_u8 by simp

lemma CBB_add_u16_live:
  assumes M: "malloc_total M" and c: "live c w" and w: "length w + 2 \<le> 2 ^ 60"
  shows "\<exists>c'. CBB_add_u16 M c v = (True, c') \<and> live c' (w @ be_bytes 2 (unat v)) \<and> cbb_chain c' = []"
  using add_u_op_live [OF M c w, of "ucast v"] unsigned_less [of v, where ?'a = nat]
  unfolding CBB_add_u16_def unat_ucast_u16_u32 by simp

lemma CBB_add_u24_live:
  assumes M: "malloc_total M" and c: "live c w" and w: "length w + 3 \<le> 2 ^ 60" and v: "unat v < 2 ^ 24"
  shows "\<exists>c'. CBB_add_u24 M c v = (True, c') \<and> live c' (w @ be_bytes 3 (unat v)) \<and> cbb_chain c' = []"
  using add_u_op_live [OF M c w, of v] v unfolding CBB_add_u24_def by simp

lemma CBB_add_u32_live:
  assumes M: "malloc_total M" and c: "live c w" and w: "length w + 4 \<le> 2 ^ 60"
  shows "\<exists>c'. CBB_add_u32 M c v = (True, c') \<and> live c' (w @ be_bytes 4 (unat v)) \<and> cbb_chain c' = []"
  using add_u_op_live [OF M c w, of v] unsigned_less [of v, where ?'a = nat] unfolding CBB_add_u32_def by simp

lemma CBB_init_live:
  assumes M: "malloc_total M" and n: "n < 2 ^ 61"
  shows "\<exists>c. CBB_init M n = (True, c) \<and> live c [] \<and> cbb_is_top_level (cbb_self c) \<and> cbb_chain c = []"
proof -
  obtain p where p: "OPENSSL_malloc M n = Some p" using OPENSSL_malloc_total [OF M, of n] n by auto
  obtain q where q: "OPENSSL_malloc M 32 = Some q" using OPENSSL_malloc_total [OF M, of 32] by auto
  from p q have i: "\<exists>c. CBB_init M n = (True, c) \<and> (\<exists>b. cbb_base c = Some b \<and> bb_cap b = n)"
    by (simp add: CBB_init_def cbb_init_def)
  then obtain c b where c: "CBB_init M n = (True, c)" "cbb_base c = Some b" "bb_cap b = n" by blast
  have n8: "n < size_t_end - 8" using n by simp
  from CBB_init_ready [OF malloc_total_spec [OF M] n8 c(1)] c n show ?thesis
    by (auto simp: live_def roomy_def ready_def)
qed

lemma CBB_finish_live:
  assumes M: "malloc_total M" and c: "live c w" and w: "length w \<le> 2 ^ 60"
    and top: "cbb_is_top_level (cbb_self c)"
  shows "\<exists>buf len c'. CBB_finish M c False False = (Some (buf, len), c') \<and> take len buf = w"
proof -
  from CBB_flush_live' [OF M c w] obtain c1 where c1: "CBB_flush M c = (True, c1)" "live c1 w" by blast
  then obtain b1 where "cbb_base c1 = Some b1" by (auto simp: live_def ready_def)
  with c1 top have f: "\<exists>buf len c'. CBB_finish M c False False = (Some (buf, len), c')"
    by (simp add: CBB_finish_def)
  then obtain buf len c' where f: "CBB_finish M c False False = (Some (buf, len), c')" by blast
  from c obtain b where "ready c b" using live_ready by blast
  from CBB_finish_bytes(1) [OF malloc_total_spec [OF M] this f] live_bytes [OF c] f show ?thesis by auto
qed

section \<open>Fixed buffers\<close>

lemma reserve_fixed:
  assumes "\<not> bb_can_resize b" and "wf_buffer b" and "n < 2 ^ 62"
  shows "cbb_buffer_reserve M b n =
    (if bb_len b + n \<le> bb_cap b then (True, b) else (False, b\<lparr>bb_error := True\<rparr>))"
  using assms by (simp add: cbb_buffer_reserve_def wf_buffer_def size_add_def Let_def)

lemma CBB_add_bytes_fixed:
  assumes c: "ready c b" "cbb_chain c = []" "\<not> bb_can_resize b" and d: "length d < 2 ^ 62"
  shows "CBB_add_bytes M c d =
    (if bb_len b + length d \<le> bb_cap b
     then (True, c\<lparr>cbb_base := Some (b\<lparr>bb_buf := blit (bb_buf b) (bb_len b) d,
                                     bb_len := bb_len b + length d\<rparr>)\<rparr>)
     else (False, c\<lparr>cbb_base := Some (b\<lparr>bb_error := True\<rparr>)\<rparr>))"
  using c d
  by (simp add: CBB_add_bytes_def cbb_then_def CBB_flush_def on_base_def ready_def cbb_buffer_add_def
      reserve_fixed)

end
