(* ===== verification/DerInt.thy ===== *)
theory DerInt
  imports Der
begin

text \<open>
  The contents octets of the INTEGER and BOOLEAN elements: the shortest two's complement form of a
  non-negative number, and the proof that \<^verbatim>\<open>CBS_get_asn1_uint64\<close> and \<^verbatim>\<open>CBS_get_asn1_bool\<close> accept
  exactly the canonical elements.
\<close>

section \<open>Shortest two's complement form\<close>

fun uint_octets :: "nat \<Rightarrow> u8 list" where
  "uint_octets n = (if n < 128 then [of_nat n] else uint_octets (n div 256) @ [of_nat n])"

declare uint_octets.simps [simp del]

lemma uint_octets_small: "n < 128 \<Longrightarrow> uint_octets n = [of_nat n]"
  by (simp add: uint_octets.simps)

lemma uint_octets_big: "128 \<le> n \<Longrightarrow> uint_octets n = uint_octets (n div 256) @ [of_nat n]"
  by (simp add: uint_octets.simps [of n])

lemma uint_octets_nonempty [simp]: "uint_octets n \<noteq> []"
  by (simp add: uint_octets.simps [of n])

lemma be_val_uint_octets: "be_val (uint_octets n) = n"
proof (induction n rule: uint_octets.induct)
  case (1 n)
  show ?case
  proof (cases "n < 128")
    case True
    then show ?thesis by (simp add: uint_octets_small be_val_def unat_of_nat_u8)
  next
    case False
    have "unat (of_nat n :: u8) = n mod 256" by (simp add: unat_of_nat)
    with False 1 show ?thesis
      by (simp only: not_less uint_octets_big be_val_snoc div_mult_mod_eq if_True simp_thms)
  qed
qed

definition minimal_octets :: "u8 list \<Rightarrow> bool" where
  "minimal_octets d \<longleftrightarrow> d \<noteq> [] \<and> unat (d ! 0) < 128
     \<and> \<not> (d ! 0 = 0 \<and> 1 < length d \<and> unat (d ! 1) < 128)"

lemma uint_octets_minimal: "minimal_octets (uint_octets n)"
proof (induction n rule: uint_octets.induct)
  case (1 n)
  show ?case
  proof (cases "n < 128")
    case True
    then show ?thesis by (simp add: uint_octets_small minimal_octets_def unat_of_nat_u8)
  next
    case False
    let ?x = "uint_octets (n div 256)"
    have IH: "minimal_octets ?x" using 1 False by simp
    have first: "(?x @ [of_nat n]) ! 0 = ?x ! 0" by (simp add: nth_append)
    show ?thesis
    proof (cases "n div 256 < 128")
      case True
      have "n div 256 = 0 \<Longrightarrow> unat (of_nat n :: u8) = n"
        by (intro unat_of_nat_u8) (simp add: div_eq_0_iff)
      moreover have "(of_nat (n div 256) :: u8) = 0 \<longleftrightarrow> n div 256 = 0"
        using unat_of_nat_u8 [of "n div 256"] True by (auto simp flip: unat_eq_0 simp del: unat_eq_0)
      ultimately show ?thesis
        using False True by (auto simp: uint_octets_big uint_octets_small [OF True] minimal_octets_def unat_of_nat_u8)
    next
      case big: False
      then have l: "1 < length ?x"
        using uint_octets_big [of "n div 256"] uint_octets_nonempty [of "n div 256 div 256"] by simp
      with IH first show ?thesis
        using False by (auto simp: uint_octets_big minimal_octets_def nth_append)
    qed
  qed
qed

lemma minimal_octets_eq: "minimal_octets d \<Longrightarrow> d = uint_octets (be_val d)"
proof (induction d rule: rev_induct)
  case Nil
  then show ?case by (simp add: minimal_octets_def)
next
  case (snoc b xs)
  show ?case
  proof (cases "xs = []")
    case True
    with snoc.prems show ?thesis by (simp add: minimal_octets_def be_val_def uint_octets_small)
  next
    case False
    then have m: "minimal_octets xs"
      using snoc.prems by (cases xs) (auto simp: minimal_octets_def nth_append split: if_splits)
    then have xs: "xs = uint_octets (be_val xs)" by (rule snoc.IH)
    have "128 \<le> be_val (xs @ [b])"
    proof (cases "be_val xs = 0")
      case True
      then have "xs = [0]" using xs by (simp add: uint_octets_small)
      with snoc.prems show ?thesis by (simp add: minimal_octets_def be_val_def)
    next
      case False
      then show ?thesis by (simp add: be_val_snoc)
    qed
    moreover have "be_val (xs @ [b]) div 256 = be_val xs" by (simp add: be_val_snoc)
    moreover have "(of_nat (be_val (xs @ [b])) :: u8) = b"
      using be_bytes_val [of "xs @ [b]"] by simp
    ultimately show ?thesis using xs by (simp add: uint_octets_big)
  qed
qed

lemma minimal_octets_iff: "minimal_octets d \<longleftrightarrow> d = uint_octets (be_val d)"
  using minimal_octets_eq uint_octets_minimal by metis

lemma uint_octets_length: "n < 256 ^ k \<Longrightarrow> length (uint_octets n) \<le> Suc k"
proof (induction n arbitrary: k rule: uint_octets.induct)
  case (1 n)
  show ?case
  proof (cases "n < 128")
    case True
    then show ?thesis by (simp add: uint_octets_small)
  next
    case False
    with "1.prems" obtain j where k: "k = Suc j" by (cases k) auto
    then have "n div 256 < 256 ^ j" using "1.prems" by (simp add: div_less_iff_less_mult mult.commute)
    with 1 False k show ?thesis by (simp add: uint_octets_big)
  qed
qed

section \<open>The parser\<close>

lemma be_val_Cons: "be_val (b # d) = unat b * 256 ^ length d + be_val d"
proof (induction d rule: rev_induct)
  case Nil
  then show ?case by (simp add: be_val_def)
next
  case (snoc c d)
  have "be_val (b # d @ [c]) = be_val (b # d) * 256 + unat c" using be_val_snoc [of "b # d" c] by simp
  with snoc show ?case by (simp add: be_val_snoc algebra_simps)
qed

lemma get_asn1_uint64_loop_eq:
  "get_asn1_uint64_loop out d =
     (if unat out * 256 ^ length d + be_val d < 2 ^ 64
      then Some (of_nat (unat out * 256 ^ length d + be_val d)) else None)"
proof (induction d arbitrary: out)
  case Nil
  have "unat out < 2 ^ 64" using unsigned_less [of out, where ?'a = nat] by simp
  then show ?case by (simp add: be_val_Nil)
next
  case (Cons b d)
  let ?s = "unat out * 256 ^ length (b # d) + be_val (b # d)"
  show ?case
  proof (cases "drop_bit 56 out = 0")
    case False
    then have "2 ^ 56 * 256 \<le> unat out * (256 :: nat)" by (simp only: drop_bit_zero not_less mult_le_mono1)
    also have "\<dots> \<le> unat out * 256 * 256 ^ length d" by simp
    finally have "2 ^ 64 \<le> ?s" by (simp add: mult.assoc)
    with False show ?thesis by simp
  next
    case True
    then have o: "unat out < 2 ^ 56" by (simp only: drop_bit_zero)
    have w: "unat (ucast b :: u64) = unat b"
    proof -
      have "unat b < 2 ^ LENGTH(64)" by (rule less_le_trans [OF unat_u8_less]) simp
      then show ?thesis by (simp only: unsigned_ucast_eq take_bit_nat_eq_self)
    qed
    have "unat (push_bit 8 out OR ucast b) = unat out * 2 ^ 8 + unat b"
      using o by (subst unat_push_or) (simp_all only: w, simp_all)
    then have "unat (push_bit 8 out OR ucast b) * 256 ^ length d + be_val d = ?s"
      by (simp add: be_val_Cons algebra_simps)
    with True Cons [of "push_bit 8 out OR ucast b"] show ?thesis by simp
  qed
qed

lemma CBS_get_asn1_uint64_eq:
  "CBS_get_asn1_uint64 cbs =
     cbs_then (CBS_get_asn1 cbs CBS_ASN1_INTEGER)
       (\<lambda>d cbs. (if minimal_octets d \<and> be_val d < 2 ^ 64 then Some (of_nat (be_val d)) else None, cbs))"
proof -
  have "(0 :: nat) * x + y = y" for x y by simp
  then show ?thesis
    unfolding CBS_get_asn1_uint64_def CBS_data_def CBS_len_def Let_def u8_and_80 not_less
      get_asn1_uint64_loop_eq unsigned_0
    by (intro arg_cong [of _ _ "cbs_then _"] ext) (simp add: minimal_octets_def not_less)
qed

lemma asn1_uint64_iff:
  "CBS_get_asn1_uint64 cbs = (Some v, rest) \<longleftrightarrow>
     cbs = der_element CBS_ASN1_INTEGER (uint_octets (unat v)) @ rest"
proof
  assume "CBS_get_asn1_uint64 cbs = (Some v, rest)"
  then obtain d where d: "CBS_get_asn1 cbs CBS_ASN1_INTEGER = (Some d, rest)"
    and v: "minimal_octets d" "be_val d < 2 ^ 64" "v = of_nat (be_val d)"
    by (auto simp: CBS_get_asn1_uint64_eq cbs_then_def split: prod.splits option.splits if_splits)
  have "unat v = be_val d" unfolding v(3) by (rule unat_of_nat_u64 [OF v(2)])
  with d v(1) show "cbs = der_element CBS_ASN1_INTEGER (uint_octets (unat v)) @ rest"
    by (simp add: CBS_get_asn1_iff minimal_octets_iff)
next
  assume cbs: "cbs = der_element CBS_ASN1_INTEGER (uint_octets (unat v)) @ rest"
  have v: "unat v < 2 ^ 64" using unsigned_less [of v, where ?'a = nat] by simp
  then have "length (uint_octets (unat v)) \<le> Suc 8" by (intro uint_octets_length) simp
  then have "CBS_get_asn1 cbs CBS_ASN1_INTEGER = (Some (uint_octets (unat v)), rest)"
    by (simp add: CBS_get_asn1_iff cbs)
  with v show "CBS_get_asn1_uint64 cbs = (Some v, rest)"
    by (simp add: CBS_get_asn1_uint64_eq cbs_then_def uint_octets_minimal be_val_uint_octets)
qed

lemma asn1_bool_iff:
  "CBS_get_asn1_bool cbs = (Some v, rest) \<longleftrightarrow>
     cbs = der_element CBS_ASN1_BOOLEAN [if v then 0xff else 0] @ rest"
proof
  assume "CBS_get_asn1_bool cbs = (Some v, rest)"
  then obtain d where d: "CBS_get_asn1 cbs CBS_ASN1_BOOLEAN = (Some d, rest)"
    and l: "length d = 1" and v: "d ! 0 = 0 \<and> \<not> v \<or> d ! 0 = 0xff \<and> v"
    by (auto simp: CBS_get_asn1_bool_def CBS_len_def CBS_data_def Let_def cbs_then_def
        split: prod.splits option.splits if_splits)
  from l obtain x where "d = [x]" by (cases d) auto
  with d v show "cbs = der_element CBS_ASN1_BOOLEAN [if v then 0xff else 0] @ rest"
    by (auto simp: CBS_get_asn1_iff)
next
  assume "cbs = der_element CBS_ASN1_BOOLEAN [if v then 0xff else 0] @ rest"
  then have "CBS_get_asn1 cbs CBS_ASN1_BOOLEAN = (Some [if v then 0xff else 0], rest)"
    by (simp add: CBS_get_asn1_iff)
  then show "CBS_get_asn1_bool cbs = (Some v, rest)"
    by (simp add: CBS_get_asn1_bool_def cbs_then_def CBS_len_def CBS_data_def)
qed

section \<open>Properties\<close>

text \<open>
  C14: \<^verbatim>\<open>CBS_get_asn1_uint64\<close> and \<^verbatim>\<open>CBS_get_asn1_bool\<close> are exact: they return a value if and only if the
  input starts with the one DER encoding of it, the minimal two's complement octets of the number
  (no negative numbers, no superfluous zero, at most eight significant octets), or the octet 0 or
  255, and then consume that encoding and nothing else.
\<close>

theorem scalar_parsers_exact:
  "(CBS_get_asn1_uint64 cbs = (Some n, rest) \<longleftrightarrow>
      cbs = der_element CBS_ASN1_INTEGER (uint_octets (unat n)) @ rest)
   \<and> (CBS_get_asn1_bool cbs = (Some v, rest) \<longleftrightarrow>
      cbs = der_element CBS_ASN1_BOOLEAN [if v then 0xff else 0] @ rest)"
  by (simp only: asn1_uint64_iff asn1_bool_iff)

end
