(* ===== verification/CbbAsn1.thy ===== *)
theory CbbAsn1
  imports CbbLive DerInt
begin

text \<open>
  The ASN.1 writers of \<^verbatim>\<open>crypto/bytestring/cbb.c\<close> and \<^verbatim>\<open>CBB_finish_i2d\<close> of \<^verbatim>\<open>asn1_compat.c\<close>, with
  what each of them appends in terms of the reference encodings of the theory \<open>Der\<close>, and the round
  trips with the parser.
\<close>

section \<open>Definitions\<close>

text \<open>The loop that counts the base-128 digits of \<open>copy\<close>.\<close>

function base128_len :: "u64 \<Rightarrow> nat" where
  "base128_len copy = (if copy > 0 then Suc (base128_len (drop_bit 7 copy)) else 0)"
  by pat_completeness auto
termination
proof (relation "measure unat")
  fix copy :: u64
  assume "0 < copy"
  then have "0 < unat copy" by (simp add: word_less_nat_alt)
  then have "unat copy div 2 ^ 7 < unat copy" by (intro div_less_dividend) simp_all
  then show "(drop_bit 7 copy, copy) \<in> measure unat" by (simp only: in_measure unat_drop_bit)
qed simp

declare base128_len.simps [simp del]

fun add_base128_loop :: "malloc \<Rightarrow> CBB \<Rightarrow> u64 \<Rightarrow> nat \<Rightarrow> bool \<times> CBB" where
  "add_base128_loop M cbb v 0 = (True, cbb)"
| "add_base128_loop M cbb v (Suc i) =
     (let byte = ucast (drop_bit (7 * i) v AND 0x7f) :: u8;
          byte = (if i \<noteq> 0 then byte OR 0x80 else byte)
      in cbb_then (CBB_add_u8 M cbb byte) (\<lambda>cbb. add_base128_loop M cbb v i))"

definition add_base128_integer :: "malloc \<Rightarrow> CBB \<Rightarrow> u64 \<Rightarrow> bool \<times> CBB" where
  "add_base128_integer M cbb v =
     (let len_len = base128_len v;
          len_len = (if len_len = 0 then 1 else len_len)
      in add_base128_loop M cbb v len_len)"

definition CBB_add_asn1 :: "malloc \<Rightarrow> CBB \<Rightarrow> u32 \<Rightarrow> bool \<times> CBB" where
  "CBB_add_asn1 M cbb tag =
     cbb_then (CBB_flush M cbb)
       (\<lambda>cbb.
          let tag_bits = ucast (drop_bit CBS_ASN1_TAG_SHIFT tag AND 0xe0) :: u8;
              tag_number = tag AND CBS_ASN1_TAG_NUMBER_MASK
          in cbb_then
               (if tag_number \<ge> 0x1f
                then cbb_then (CBB_add_u8 M cbb (tag_bits OR 0x1f))
                       (\<lambda>cbb. add_base128_integer M cbb (ucast tag_number))
                else CBB_add_u8 M cbb (tag_bits OR ucast tag_number))
               (\<lambda>cbb.
                  let offset = (case cbb_base cbb of None \<Rightarrow> 0 | Some base \<Rightarrow> bb_len base)
                  in cbb_then (CBB_add_u8 M cbb 0)
                       (\<lambda>cbb. (True, cbb\<lparr>cbb_chain :=
                          [zero_fields\<lparr>cbb_offset := offset, cbb_pending_len_len := 1,
                                      cbb_pending_is_asn1 := True\<rparr>]\<rparr>))))"

text \<open>
  A call on the pending child of \<open>cbb\<close>: the operation works on the child, and the parent sees the
  buffer and the chain it leaves.
\<close>

definition on_child :: "CBB \<Rightarrow> (CBB \<Rightarrow> bool \<times> CBB) \<Rightarrow> bool \<times> CBB" where
  "on_child cbb f = (case f (CBB_child cbb) of (ok, child) \<Rightarrow> (ok, CBB_return cbb child))"

text \<open>The loop of \<^verbatim>\<open>CBB_add_asn1_uint64\<close> over the bytes of \<open>value\<close>, called with \<open>n = 8 - i\<close>.\<close>

fun add_asn1_uint64_loop :: "malloc \<Rightarrow> CBB \<Rightarrow> u64 \<Rightarrow> bool \<Rightarrow> nat \<Rightarrow> (bool \<times> bool) \<times> CBB" where
  "add_asn1_uint64_loop M child value started 0 = ((True, started), child)"
| "add_asn1_uint64_loop M child value started (Suc n) =
     (let byte = ucast (drop_bit (8 * n) value AND 0xff) :: u8
      in if \<not> started \<and> byte = 0 then add_asn1_uint64_loop M child value started n
         else case (if \<not> started \<and> byte AND 0x80 \<noteq> 0 then CBB_add_u8 M child 0 else (True, child)) of
                (False, child) \<Rightarrow> ((False, started), child)
              | (True, child) \<Rightarrow>
                  (case CBB_add_u8 M child byte of
                     (False, child) \<Rightarrow> ((False, True), child)
                   | (True, child) \<Rightarrow> add_asn1_uint64_loop M child value True n))"

definition CBB_add_asn1_uint64 :: "malloc \<Rightarrow> CBB \<Rightarrow> u64 \<Rightarrow> bool \<times> CBB" where
  "CBB_add_asn1_uint64 M cbb value =
     cbb_then (CBB_add_asn1 M cbb CBS_ASN1_INTEGER)
       (\<lambda>cbb. cbb_then
          (on_child cbb (\<lambda>child.
             case add_asn1_uint64_loop M child value False 8 of
               ((False, _), child) \<Rightarrow> (False, child)
             | ((True, started), child) \<Rightarrow>
                 if \<not> started then CBB_add_u8 M child 0 else (True, child)))
          (CBB_flush M))"

definition CBB_add_asn1_octet_string :: "malloc \<Rightarrow> CBB \<Rightarrow> u8 list \<Rightarrow> bool \<times> CBB" where
  "CBB_add_asn1_octet_string M cbb data =
     cbb_then (CBB_add_asn1 M cbb CBS_ASN1_OCTETSTRING)
       (\<lambda>cbb. cbb_then (on_child cbb (\<lambda>child. CBB_add_bytes M child data)) (CBB_flush M))"

definition CBB_add_asn1_bool :: "malloc \<Rightarrow> CBB \<Rightarrow> int \<Rightarrow> bool \<times> CBB" where
  "CBB_add_asn1_bool M cbb value =
     cbb_then (CBB_add_asn1 M cbb CBS_ASN1_BOOLEAN)
       (\<lambda>cbb. cbb_then (on_child cbb (\<lambda>child. CBB_add_u8 M child (if value \<noteq> 0 then 0xff else 0)))
                       (CBB_flush M))"

text \<open>
  \<^verbatim>\<open>CBB_finish_i2d\<close>: \<open>outp\<close> is NULL (\<open>None\<close>), points to NULL (\<open>Some None\<close>) or points to a buffer
  (\<open>Some (Some dst)\<close>). The result is the return value, what \<^verbatim>\<open>*outp\<close> points at from where it
  pointed before, and how far it is advanced.
\<close>

definition CBB_finish_i2d ::
  "malloc \<Rightarrow> CBB \<Rightarrow> u8 list option option \<Rightarrow> int \<times> u8 list option option \<times> nat \<times> CBB" where
  "CBB_finish_i2d M cbb outp =
     (case CBB_finish M cbb False False of
        (None, cbb) \<Rightarrow> (- 1, outp, 0, CBB_cleanup cbb)
      | (Some (der, der_len), cbb) \<Rightarrow>
          if der_len > INT_MAX then (- 1, outp, 0, cbb)
          else (case outp of
                  None \<Rightarrow> (int der_len, outp, 0, cbb)
                | Some None \<Rightarrow> (int der_len, Some (Some der), 0, cbb)
                | Some (Some dst) \<Rightarrow>
                    (int der_len, Some (Some (blit dst 0 (take der_len der))), der_len, cbb)))"

section \<open>Base-128 integers\<close>

text \<open>The digits the loop writes, the one for \<open>i\<close> first, and the same with all of them continued.\<close>

primrec low_digits :: "nat \<Rightarrow> nat \<Rightarrow> u8 list" where
  "low_digits m 0 = []"
| "low_digits m (Suc i) = of_nat (m div 128 ^ i mod 128 + (if i = 0 then 0 else 128)) # low_digits m i"

primrec hi_digits :: "nat \<Rightarrow> nat \<Rightarrow> u8 list" where
  "hi_digits m 0 = []"
| "hi_digits m (Suc i) = of_nat (m div 128 ^ i mod 128 + 128) # hi_digits m i"

lemma low_digits_hi: "low_digits m (Suc n) = hi_digits (m div 128) n @ [of_nat (m mod 128)]"
  by (induction n) (simp_all add: div_mult2_eq)

lemma hi_digits_snoc: "hi_digits m (Suc n) = hi_digits (m div 128) n @ [of_nat (m mod 128 + 128)]"
  by (induction n) (simp_all add: div_mult2_eq)

lemma hi_digits_base128: "hi_digits (unat v) (base128_len v) = base128_hi (unat v)"
proof (induction v rule: base128_len.induct)
  case (1 v)
  show ?case
  proof (cases "v > 0")
    case True
    then have "unat v \<noteq> 0" by (auto simp: word_less_nat_alt)
    moreover have "unat (drop_bit 7 v) = unat v div 128" by (simp only: unat_drop_bit) simp
    ultimately show ?thesis
      using 1 True by (simp only: base128_len.simps [of v] if_True hi_digits_snoc base128_hi.simps [of "unat v"] if_False)
  next
    case False
    then have "v = 0" by (simp add: word_gt_0)
    then show ?thesis by (simp add: base128_len.simps [of 0])
  qed
qed

lemma low_digits_base128:
  "low_digits (unat v) (if base128_len v = 0 then 1 else base128_len v) = base128 (unat v)"
proof (cases "v > 0")
  case True
  have d: "unat (drop_bit 7 v) = unat v div 128" by (simp only: unat_drop_bit) simp
  have l: "(if base128_len v = 0 then 1 else base128_len v) = Suc (base128_len (drop_bit 7 v))"
    using True by (simp add: base128_len.simps [of v])
  show ?thesis
    unfolding l low_digits_hi base128_def d [symmetric] hi_digits_base128 by (rule refl)
next
  case False
  then have "v = 0" by (simp add: word_gt_0)
  then show ?thesis by (simp add: base128_len.simps [of 0] base128_def)
qed

lemma unat_and_7f_u64: "unat (v AND 0x7f :: u64) = unat v mod 128"
proof -
  have "v AND 0x7f = take_bit 7 v" by (simp only: take_bit_eq_mask mask_eq_exp_minus_1) simp
  then show ?thesis by (simp only: unsigned_take_bit_eq) (simp add: take_bit_eq_mod)
qed

lemma unat_or_leading:
  "unat (b :: u8) < 2 ^ n \<Longrightarrow> unat (c :: u8) = a * 2 ^ n \<Longrightarrow> unat (c OR b) = a * 2 ^ n + unat b"
  by (simp only: unsigned_or_eq nat_mult_or)

lemma base128_digit:
  "(let byte = ucast (drop_bit (7 * i) (v :: u64) AND 0x7f) :: u8 in if i \<noteq> 0 then byte OR 0x80 else byte)
     = of_nat (unat v div 128 ^ i mod 128 + (if i = 0 then 0 else 128))"
proof -
  define d where "d = unat v div 128 ^ i mod 128"
  have d: "d < 128" by (simp add: d_def)
  have p: "(2 :: nat) ^ (7 * i) = 128 ^ i" by (simp add: power_mult)
  have "unat (drop_bit (7 * i) v AND 0x7f) = d"
    by (simp only: unat_and_7f_u64 unat_drop_bit p d_def)
  then have b: "(ucast (drop_bit (7 * i) v AND 0x7f) :: u8) = of_nat d" by (simp only: ucast_eq_of_nat)
  have "unat ((0x80 :: u8) OR of_nat d) = 1 * 2 ^ 7 + unat (of_nat d :: u8)"
    by (rule unat_or_leading) (use d in \<open>simp_all add: unat_of_nat_u8\<close>)
  also have "\<dots> = unat (of_nat (d + 128) :: u8)" using d by (simp add: unat_of_nat_u8 del: of_nat_add)
  finally have "(of_nat d :: u8) OR 0x80 = of_nat (d + 128)"
    by (subst or.commute) (rule unsigned_word_eqI [where ?'a = nat])
  then show ?thesis unfolding Let_def b d_def [symmetric] by simp
qed

lemma add_base128_loop_appends:
  assumes M: "malloc_spec M"
  shows "ready c b \<Longrightarrow> cbb_chain c = [] \<Longrightarrow> add_base128_loop M c v n = (True, c') \<Longrightarrow>
    appends c c' (low_digits (unat v) n) \<and> cbb_chain c' = []"
proof (induction n arbitrary: c b)
  case 0
  then show ?case by (auto intro: appends_refl)
next
  case (Suc n)
  from Suc.prems(3) obtain c1 where
    a: "CBB_add_u8 M c (of_nat (unat v div 128 ^ n mod 128 + (if n = 0 then 0 else 128))) = (True, c1)"
    and l: "add_base128_loop M c1 v n = (True, c')"
    unfolding add_base128_loop.simps base128_digit [unfolded Let_def, symmetric] Let_def
    by (rule cbb_thenE)
  note a1 = CBB_add_u8_appends [OF M Suc.prems(1) a]
  then obtain b1 where "ready c1 b1" using appends_ready by blast
  with Suc.IH [OF this _ l] a1 have "appends c1 c' (low_digits (unat v) n) \<and> cbb_chain c' = []" by blast
  with a1 appends_trans [of c c1] show ?case by fastforce
qed

lemma add_base128_integer_appends:
  assumes "malloc_spec M" and "ready c b" and "cbb_chain c = []"
    and "add_base128_integer M c v = (True, c')"
  shows "appends c c' (base128 (unat v)) \<and> cbb_chain c' = []"
  using add_base128_loop_appends [OF assms(1-3)] assms(4)
  unfolding add_base128_integer_def Let_def low_digits_base128 [symmetric] by blast

section \<open>Elements\<close>

lemma tag_octets:
  fixes tag :: u32
  defines "tag_bits \<equiv> ucast (drop_bit CBS_ASN1_TAG_SHIFT tag AND 0xe0) :: u8"
    and "tag_number \<equiv> tag AND CBS_ASN1_TAG_NUMBER_MASK"
  shows "unat tag_number = unat tag mod 2 ^ 29"
    and "der_tag tag = (if tag_number \<ge> 0x1f then (tag_bits OR 0x1f) # base128 (unat (ucast tag_number :: u64))
                        else [tag_bits OR ucast tag_number])"
proof -
  have "tag_number = take_bit 29 tag"
    unfolding tag_number_def CBS_ASN1_TAG_NUMBER_MASK_def
    by (simp only: take_bit_eq_mask mask_eq_exp_minus_1) simp
  then show n: "unat tag_number = unat tag mod 2 ^ 29"
    by (simp only: unsigned_take_bit_eq) (simp add: take_bit_eq_mod)
  define l where "l = unat tag div 2 ^ 29"
  have t: "unat tag < 2 ^ 32" by (rule unat_u32_less)
  then have l: "l < 8" by (simp add: l_def less_mult_imp_div_less)
  have "unat (drop_bit CBS_ASN1_TAG_SHIFT tag AND 0xe0) = (unat tag div 2 ^ 24) div 32 * 32"
    using t unfolding unsigned_and_eq unat_drop_bit CBS_ASN1_TAG_SHIFT_def
    by (simp add: nat_and_leading less_mult_imp_div_less)
  also have "\<dots> = l * 32" by (simp add: l_def flip: div_mult2_eq)
  finally have tb: "tag_bits = of_nat (l * 32)" by (simp only: tag_bits_def ucast_eq_of_nat)
  have utb: "unat tag_bits = l * 2 ^ 5" unfolding tb using l by (subst unat_of_nat_u8) simp_all
  have lead: "tag_bits OR b = of_nat (l * 32 + k)" if "k < 32" "b = of_nat k" for b k
  proof -
    have uk: "unat b = k" using that by (simp add: unat_of_nat_u8)
    have "unat (tag_bits OR b) = l * 2 ^ 5 + unat b" by (rule unat_or_leading [OF _ utb]) (use uk that in simp)
    also have "\<dots> = unat (of_nat (l * 32 + k) :: u8)"
      using l that uk by (simp add: unat_of_nat_u8 del: of_nat_add of_nat_mult)
    finally show ?thesis by (rule unsigned_word_eqI [where ?'a = nat])
  qed
  have ge: "tag_number \<ge> 0x1f \<longleftrightarrow> \<not> unat tag mod 2 ^ 29 < 31"
    by (simp only: word_le_nat_alt n) (simp add: not_less)
  have "unat tag mod 2 ^ 29 < 2 ^ 29" by (rule mod_less_divisor) simp
  then have u: "unat (ucast tag_number :: u64) = unat tag mod 2 ^ 29"
    by (simp only: unsigned_ucast_eq n) (simp add: take_bit_nat_eq_self)
  have 31: "tag_bits OR 0x1f = of_nat (l * 32 + 31)" by (rule lead) simp_all
  have small: "tag_bits OR ucast tag_number = of_nat (l * 32 + unat tag mod 2 ^ 29)" if "unat tag mod 2 ^ 29 < 31"
    using that by (intro lead) (simp, simp only: ucast_eq_of_nat n)
  show "der_tag tag = (if tag_number \<ge> 0x1f then (tag_bits OR 0x1f) # base128 (unat (ucast tag_number :: u64))
                        else [tag_bits OR ucast tag_number])"
    unfolding der_tag_def Let_def l_def [symmetric] ge u 31 using small by simp
qed

lemma CBB_add_asn1_opens:
  assumes M: "malloc_spec M" and c: "ready c b" and r: "CBB_add_asn1 M c tag = (True, c1)"
  shows "\<exists>f. opens c c1 (der_tag tag) f \<and> cbb_pending_len_len f = 1 \<and> cbb_pending_is_asn1 f"
proof -
  let ?bits = "ucast (drop_bit CBS_ASN1_TAG_SHIFT tag AND 0xe0) :: u8"
  let ?number = "tag AND CBS_ASN1_TAG_NUMBER_MASK"
  let ?len = "\<lambda>c. case cbb_base c of None \<Rightarrow> 0 | Some base \<Rightarrow> bb_len base"
  let ?field = "\<lambda>n. zero_fields\<lparr>cbb_offset := n, cbb_pending_len_len := 1, cbb_pending_is_asn1 := True\<rparr>"
  from r obtain c0 c2 c3 where fl: "CBB_flush M c = (True, c0)"
    and id: "(if ?number \<ge> 0x1f
                then cbb_then (CBB_add_u8 M c0 (?bits OR 0x1f))
                       (\<lambda>cbb. add_base128_integer M cbb (ucast ?number))
                else CBB_add_u8 M c0 (?bits OR ucast ?number)) = (True, c2)"
    and u8: "CBB_add_u8 M c2 0 = (True, c3)" and c1: "c1 = c3\<lparr>cbb_chain := [?field (?len c2)]\<rparr>"
    unfolding CBB_add_asn1_def Let_def by (auto elim!: cbb_thenE)
  note a0 = CBB_flush_appends [OF M c fl]
  then obtain b0 where b0: "ready c0 b0" using appends_ready by blast
  have a2: "appends c0 c2 (der_tag tag) \<and> cbb_chain c2 = []"
  proof (cases "?number \<ge> 0x1f")
    case True
    with id obtain c01 where x: "CBB_add_u8 M c0 (?bits OR 0x1f) = (True, c01)"
      and y: "add_base128_integer M c01 (ucast ?number) = (True, c2)" by (auto elim: cbb_thenE)
    note ax = CBB_add_u8_appends [OF M b0 x]
    then obtain b01 where "ready c01 b01" using appends_ready by blast
    from add_base128_integer_appends [OF M this _ y] ax appends_trans [of c0 c01] show ?thesis
      unfolding tag_octets(2) if_P [OF True] by fastforce
  next
    case False
    then have "CBB_add_u8 M c0 (?bits OR ucast ?number) = (True, c2)" using id by simp
    from CBB_add_u8_appends [OF M b0 this] show ?thesis
      unfolding tag_octets(2) if_not_P [OF False] .
  qed
  with a0 have a: "appends c c2 (der_tag tag)" using appends_trans by fastforce
  from a obtain b2 where b2: "ready c2 b2" using appends_ready by blast
  note a3 = CBB_add_u8_appends [OF M b2 u8]
  then obtain b3 where b3: "ready c3 b3" using appends_ready by blast
  have w: "written b3 = written b2 @ [0]"
    using a3 CBB_bytes_no_child [OF b2] CBB_bytes_no_child [OF b3] a2 by (auto simp: appends_def)
  have rs: "bb_can_resize b3 = bb_can_resize b2" using a3 b2 b3 by (simp add: appends_def ready_def)
  have eq: "c1 = c2\<lparr>cbb_base := Some b3, cbb_chain := [?field (bb_len b2)]\<rparr>"
    unfolding c1 using a3 b2 b3 by (intro CBB.equality) (simp_all add: appends_def ready_def)
  have "opens c c1 (der_tag tag) (?field (bb_len b2))"
    unfolding eq
    by (rule opens_intro [OF a _ _ _ w]) (use a2 b2 b3 rs in \<open>simp_all add: ready_def wf_prefix_def\<close>)
  then show ?thesis by (intro exI conjI) (assumption, simp_all)
qed

lemma on_child_True:
  "on_child c g = (True, c2) \<Longrightarrow> \<exists>ch. g (CBB_child c) = (True, ch) \<and> c2 = CBB_return c ch"
  by (auto simp: on_child_def split: prod.splits)

text \<open>Closing an element whose child holds \<open>d\<close>.\<close>

lemma element_close:
  assumes M: "malloc_spec M" and op: "opens c c1 (der_tag tag) f" and f: "cbb_pending_is_asn1 f"
    and a: "appends (CBB_child c1) ch d" and fl: "CBB_flush M (CBB_return c1 ch) = (True, c')"
  shows "appends c c' (der_element tag d)" and "length d \<le> 0xfffffffe" and "cbb_chain c' = []"
proof -
  have p: "prefix_bytes f (length d) = (if length d > 0xfffffffe then None else Some (der_length (length d)))"
    using f by (simp add: prefix_bytes_def)
  show len: "length d \<le> 0xfffffffe"
    using nested_too_long [OF M op a] p fl by (auto split: if_splits)
  then have n: "appends c (CBB_return c1 ch) (der_tag tag @ der_length (length d) @ d)"
    using nested_appends [OF op a] p by simp
  from appends_flush [OF M this fl] show "appends c c' (der_element tag d)" by (simp add: der_element_def)
  from n obtain b where "ready (CBB_return c1 ch) b" using appends_ready by blast
  from CBB_flush_appends(2) [OF M this fl] show "cbb_chain c' = []" .
qed

text \<open>The pattern of every writer of an element: open, fill the child, flush.\<close>

lemma element_appends:
  assumes M: "malloc_spec M" and c: "ready c b"
    and g: "\<And>ch b ch'. ready ch b \<Longrightarrow> cbb_chain ch = [] \<Longrightarrow> g ch = (True, ch') \<Longrightarrow> appends ch ch' d"
    and r: "cbb_then (CBB_add_asn1 M c tag) (\<lambda>cbb. cbb_then (on_child cbb g) (CBB_flush M)) = (True, c')"
  shows "appends c c' (der_element tag d) \<and> length d \<le> 0xfffffffe"
proof -
  from r obtain c1 c2 where o: "CBB_add_asn1 M c tag = (True, c1)" and ch: "on_child c1 g = (True, c2)"
    and fl: "CBB_flush M c2 = (True, c')" by (auto elim!: cbb_thenE)
  from CBB_add_asn1_opens [OF M c o] obtain f where op: "opens c c1 (der_tag tag) f"
    and f: "cbb_pending_is_asn1 f" by blast
  from on_child_True [OF ch] obtain chd where gc: "g (CBB_child c1) = (True, chd)"
    and c2: "c2 = CBB_return c1 chd" by blast
  from opens_child_ready [OF op] opens_child_chain [OF op] g gc have a: "appends (CBB_child c1) chd d" by blast
  from element_close [OF M op f a fl [unfolded c2]] show ?thesis by blast
qed

lemma length_prefixed_appends:
  assumes M: "malloc_spec M" and c: "ready c b" and n: "1 \<le> n" "n \<le> 3"
    and g: "\<And>ch b ch'. ready ch b \<Longrightarrow> cbb_chain ch = [] \<Longrightarrow> g ch = (True, ch') \<Longrightarrow> appends ch ch' d"
    and r: "cbb_then (cbb_add_length_prefixed M c n) (\<lambda>cbb. cbb_then (on_child cbb g) (CBB_flush M)) = (True, c')"
  shows "appends c c' (be_bytes n (length d) @ d) \<and> length d < 256 ^ n"
proof -
  from r obtain c1 c2 where o: "cbb_add_length_prefixed M c n = (True, c1)"
    and ch: "on_child c1 g = (True, c2)"
    and fl: "CBB_flush M c2 = (True, c')" by (auto elim!: cbb_thenE)
  from cbb_add_length_prefixed_opens [OF M c n o] obtain f where op: "opens c c1 [] f"
    and f: "cbb_pending_len_len f = n" "\<not> cbb_pending_is_asn1 f" by blast
  from on_child_True [OF ch] obtain chd where gc: "g (CBB_child c1) = (True, chd)"
    and c2: "c2 = CBB_return c1 chd" by blast
  from opens_child_ready [OF op] opens_child_chain [OF op] g gc have a: "appends (CBB_child c1) chd d" by blast
  have p: "prefix_bytes f (length d) = (if length d < 256 ^ n then Some (be_bytes n (length d)) else None)"
    using f by (simp add: prefix_bytes_def)
  have len: "length d < 256 ^ n"
    using nested_too_long [OF M op a] p fl c2 by (auto split: if_splits)
  then have "appends c c2 ([] @ be_bytes n (length d) @ d)"
    using nested_appends [OF op a] p c2 by simp
  from appends_flush [OF M this fl] len show ?thesis by simp
qed

section \<open>Integers, booleans and octet strings\<close>

lemma be_bytes_front: "be_bytes (Suc n) v = of_nat (v div 256 ^ n) # be_bytes n v"
proof (induction n arbitrary: v)
  case 0
  then show ?case by simp
next
  case (Suc n)
  have "be_bytes (Suc (Suc n)) v = be_bytes (Suc n) (v div 256) @ [of_nat v]" by simp
  also have "\<dots> = (of_nat (v div 256 div 256 ^ n) # be_bytes n (v div 256)) @ [of_nat v]"
    by (simp only: Suc.IH)
  also have "v div 256 div 256 ^ n = v div 256 ^ Suc n" by (simp add: div_mult2_eq)
  finally show ?case by simp
qed

lemma uint_octets_bytes:
  "256 ^ n \<le> v \<Longrightarrow> v < 256 ^ Suc n \<Longrightarrow>
     uint_octets v = (if v div 256 ^ n < 128 then [] else [0]) @ be_bytes (Suc n) v"
proof (induction n arbitrary: v)
  case 0
  then show ?case by (simp add: uint_octets_small uint_octets_big)
next
  case (Suc n)
  have "256 ^ n \<le> v div 256" using Suc.prems(1) by (simp add: less_eq_div_iff_mult_less_eq mult.commute)
  moreover have "v div 256 < 256 ^ Suc n" using Suc.prems(2) by (simp add: div_less_iff_less_mult mult.commute)
  moreover have "128 \<le> v"
  proof -
    have "(1 :: nat) \<le> 256 ^ n" by simp
    with Suc.prems(1) show ?thesis unfolding power_Suc by linarith
  qed
  moreover have "v div 256 div 256 ^ n = v div 256 ^ Suc n" by (simp add: div_mult2_eq)
  ultimately show ?case using Suc.IH [of "v div 256"] by (simp add: uint_octets_big)
qed

lemma uint64_byte: "(ucast (drop_bit (8 * n) (v :: u64) AND 0xff) :: u8) = of_nat (unat v div 256 ^ n)"
proof -
  have p: "(2 :: nat) ^ (8 * n) = 256 ^ n" by (simp add: power_mult)
  have "drop_bit (8 * n) v AND 0xff = take_bit 8 (drop_bit (8 * n) v)"
    by (simp only: take_bit_eq_mask mask_eq_exp_minus_1) simp
  then have "unat (drop_bit (8 * n) v AND 0xff) = unat v div 256 ^ n mod 256"
    by (simp only: unsigned_take_bit_eq unat_drop_bit p) (simp add: take_bit_eq_mod)
  then have "(ucast (drop_bit (8 * n) v AND 0xff) :: u8) = of_nat (unat v div 256 ^ n mod 256)"
    by (simp only: ucast_eq_of_nat)
  also have "\<dots> = of_nat (unat v div 256 ^ n)"
    by (rule unsigned_word_eqI [where ?'a = nat]) (simp add: unsigned_of_nat take_bit_eq_mod)
  finally show ?thesis .
qed

lemma uint64_loop_started:
  assumes M: "malloc_spec M"
  shows "ready c b \<Longrightarrow> cbb_chain c = [] \<Longrightarrow> add_asn1_uint64_loop M c v True n = ((True, s), c') \<Longrightarrow>
    s \<and> appends c c' (be_bytes n (unat v))"
proof (induction n arbitrary: c b)
  case 0
  then show ?case by (auto intro: appends_refl)
next
  case (Suc n)
  from Suc.prems(3) obtain c1 where a: "CBB_add_u8 M c (of_nat (unat v div 256 ^ n)) = (True, c1)"
    and l: "add_asn1_uint64_loop M c1 v True n = ((True, s), c')"
    unfolding add_asn1_uint64_loop.simps uint64_byte Let_def by (auto split: prod.splits bool.splits)
  note a1 = CBB_add_u8_appends [OF M Suc.prems(1) a]
  then obtain b1 where "ready c1 b1" using appends_ready by blast
  with Suc.IH [OF this _ l] a1 have "s \<and> appends c1 c' (be_bytes n (unat v))" by blast
  with a1 appends_trans [of c c1] show ?case unfolding be_bytes_front by fastforce
qed

lemma uint64_loop_appends:
  assumes M: "malloc_spec M"
  shows "ready c b \<Longrightarrow> cbb_chain c = [] \<Longrightarrow> unat v < 256 ^ n \<Longrightarrow>
    add_asn1_uint64_loop M c v False n = ((True, s), c') \<Longrightarrow>
    s = (v \<noteq> 0) \<and> appends c c' (if v = 0 then [] else uint_octets (unat v)) \<and> (v = 0 \<longrightarrow> c' = c)"
proof (induction n arbitrary: c b)
  case 0
  then have "v = 0" by (simp add: unat_eq_0 [symmetric] del: unat_eq_0)
  with 0 show ?case by (auto intro: appends_refl)
next
  case (Suc n)
  let ?d = "unat v div 256 ^ n"
  let ?b = "of_nat ?d :: u8"
  have d: "?d < 256" using Suc.prems(3) by (simp add: div_less_iff_less_mult mult.commute)
  then have ud: "unat ?b = ?d" by (rule unat_of_nat_u8)
  show ?case
  proof (cases "?d = 0")
    case True
    then have "unat v < 256 ^ n" by (simp add: div_eq_0_iff)
    moreover have "add_asn1_uint64_loop M c v False n = ((True, s), c')"
      using Suc.prems(4) True unfolding add_asn1_uint64_loop.simps uint64_byte by simp
    ultimately show ?thesis using Suc.IH Suc.prems(1,2) by blast
  next
    case False
    then have nz: "?b \<noteq> 0" using ud by (metis unat_0)
    have v0: "v \<noteq> 0" using False by auto
    have top: "(?b AND 0x80 \<noteq> 0) = (\<not> ?d < 128)" by (simp only: u8_and_80 ud)
    have oct: "uint_octets (unat v) = (if ?d < 128 then [] else [0]) @ ?b # be_bytes n (unat v)"
    proof -
      have "256 ^ n \<le> unat v" using False by (simp add: div_eq_0_iff not_less)
      from uint_octets_bytes [OF this Suc.prems(3)] show ?thesis by (simp only: be_bytes_front)
    qed
    from Suc.prems(4) nz obtain c1 c2 where
      z: "(if \<not> ?d < 128 then CBB_add_u8 M c 0 else (True, c)) = (True, c1)" and
      a: "CBB_add_u8 M c1 ?b = (True, c2)" and
      l: "add_asn1_uint64_loop M c2 v True n = ((True, s), c')"
      unfolding add_asn1_uint64_loop.simps uint64_byte Let_def top simp_thms
      by (simp add: nz split: prod.splits bool.splits del: not_less)
    have a1: "appends c c1 (if ?d < 128 then [] else [0]) \<and> cbb_chain c1 = []"
    proof (cases "?d < 128")
      case True
      with z Suc.prems(1,2) show ?thesis by (auto intro: appends_refl)
    next
      case False
      with z CBB_add_u8_appends [OF M Suc.prems(1)] show ?thesis by auto
    qed
    then obtain b1 where "ready c1 b1" using appends_ready by blast
    note a2 = CBB_add_u8_appends [OF M this a]
    then obtain b2 where "ready c2 b2" using appends_ready by blast
    from uint64_loop_started [OF M this _ l] a2 have "s" "appends c2 c' (be_bytes n (unat v))" by blast+
    with a1 a2 appends_trans [of c c1] appends_trans [of c1 c2] v0 show ?thesis
      unfolding oct by fastforce
  qed
qed

text \<open>The body of \<^verbatim>\<open>CBB_add_asn1_uint64\<close> as a writer of the child.\<close>

abbreviation uint64_body :: "malloc \<Rightarrow> u64 \<Rightarrow> CBB \<Rightarrow> bool \<times> CBB" where
  "uint64_body M v child \<equiv>
     (case add_asn1_uint64_loop M child v False 8 of
        ((False, _), child) \<Rightarrow> (False, child)
      | ((True, started), child) \<Rightarrow> if \<not> started then CBB_add_u8 M child 0 else (True, child))"

lemma uint64_body_appends:
  assumes M: "malloc_spec M" and ch: "ready ch b" "cbb_chain ch = []"
    and g: "uint64_body M v ch = (True, ch')"
  shows "appends ch ch' (uint_octets (unat v))"
proof -
  from g obtain s c1 where l: "add_asn1_uint64_loop M ch v False 8 = ((True, s), c1)"
    and e: "(if \<not> s then CBB_add_u8 M c1 0 else (True, c1)) = (True, ch')"
    by (auto split: prod.splits bool.splits)
  have "unat v < 256 ^ 8" using unsigned_less [of v, where ?'a = nat] by simp
  from uint64_loop_appends [OF M ch this l] have L: "s = (v \<noteq> 0)"
    "appends ch c1 (if v = 0 then [] else uint_octets (unat v))" "v = 0 \<longrightarrow> c1 = ch" by simp_all
  show ?thesis
  proof (cases "v = 0")
    case True
    then have "CBB_add_u8 M ch 0 = (True, ch')" using L e by simp
    from CBB_add_u8_appends [OF M ch(1) this] True show ?thesis by (simp add: uint_octets_small)
  next
    case False
    with L e show ?thesis by simp
  qed
qed

lemma CBB_add_asn1_uint64_appends:
  assumes M: "malloc_spec M" and c: "ready c b" and r: "CBB_add_asn1_uint64 M c v = (True, c')"
  shows "appends c c' (der_element CBS_ASN1_INTEGER (uint_octets (unat v)))"
  by (rule element_appends [THEN conjunct1, OF M c _ r [unfolded CBB_add_asn1_uint64_def]])
    (rule uint64_body_appends [OF M])

lemma CBB_add_asn1_octet_string_appends:
  assumes M: "malloc_spec M" and c: "ready c b" and d: "length d < 2 ^ 62"
    and r: "CBB_add_asn1_octet_string M c d = (True, c')"
  shows "appends c c' (der_element CBS_ASN1_OCTETSTRING d) \<and> length d \<le> 0xfffffffe"
  using CBB_add_bytes_appends [OF M _ d]
  by (intro element_appends [OF M c _ r [unfolded CBB_add_asn1_octet_string_def]]) blast

lemma CBB_add_asn1_bool_appends:
  assumes M: "malloc_spec M" and c: "ready c b" and r: "CBB_add_asn1_bool M c v = (True, c')"
  shows "appends c c' (der_element CBS_ASN1_BOOLEAN [if v \<noteq> 0 then 0xff else 0])"
  using element_appends [OF M c _ r [unfolded CBB_add_asn1_bool_def]] CBB_add_u8_appends [OF M]
  by blast

end
