(* ===== verification/CbbTotal.thy ===== *)
theory CbbTotal
  imports CbbAsn1
begin

text \<open>
  Total correctness of the writers of nested and ASN.1 values: with an allocator that does not fail
  they return one whenever the contents fit their length prefix, and then append the reference
  encoding.
\<close>

section \<open>Children\<close>

lemma nested_live:
  assumes o: "opens c c1 pre f" and c: "live c w"
    and a: "appends (CBB_child c1) ch d" and l: "live ch wc"
    and p: "prefix_bytes f (length d) = Some p"
  shows "live (CBB_return c1 ch) (w @ pre @ p @ d)"
proof -
  note n = nested_appends [OF o a p]
  then obtain b where b: "ready (CBB_return c1 ch) b" using appends_ready by blast
  moreover from l b have "roomy b" by (auto simp: live_def ready_def CBB_return_def)
  moreover have "CBB_bytes (CBB_return c1 ch) = Some (w @ pre @ p @ d)"
    using appends_bytes [OF n live_bytes [OF c]] by simp
  ultimately show ?thesis by (auto simp: live_def)
qed

lemma opens_child_live:
  assumes o: "opens c c1 pre f" and c: "live c w" and r: "cbb_base c1 = Some b1" "roomy b1"
  shows "\<exists>z. live (CBB_child c1) (w @ pre @ z) \<and> length z = cbb_pending_len_len f"
proof -
  from o obtain c0 b z where c0: "appends c c0 pre" "cbb_chain c0 = []"
    and b: "ready c1 b" "written b = written (the (cbb_base c0)) @ z" "length z = cbb_pending_len_len f"
    by (auto simp: opens_def)
  from c0 obtain b0 where b0: "ready c0 b0" using appends_ready by blast
  have "written b0 = w @ pre"
    using CBB_bytes_no_child [OF b0 c0(2)] appends_bytes [OF c0(1) live_bytes [OF c]] by simp
  then have w: "written b = w @ pre @ z" using b(2) b0 by (simp add: ready_def)
  from opens_child_ready [OF o] obtain b2 where b2: "ready (CBB_child c1) b2" by blast
  have "cbb_base (CBB_child c1) = cbb_base c1" by (simp add: CBB_child_def)
  with b2 b(1) r have "b2 = b1" "b = b1" by (auto simp: ready_def)
  then have "live (CBB_child c1) (w @ pre @ z)"
    using CBB_bytes_no_child [OF b2 opens_child_chain [OF o]] b2 r(2) w by (auto simp: live_def)
  with b(3) show ?thesis by blast
qed

section \<open>Length prefixes\<close>

lemma cbb_add_length_prefixed_live:
  assumes M: "malloc_total M" and c: "live c w" and n: "1 \<le> n" "n \<le> 3" and len: "length w + n \<le> 2 ^ 60"
  shows "\<exists>c1 b1. cbb_add_length_prefixed M c n = (True, c1) \<and> cbb_base c1 = Some b1 \<and> roomy b1"
proof -
  have "length w \<le> 2 ^ 60" using len by simp
  from CBB_flush_live' [OF M c this] obtain c0 where c0: "CBB_flush M c = (True, c0)" "live c0 w"
    "cbb_chain c0 = []" by blast
  then obtain b0 where b0: "ready c0 b0" "roomy b0" "CBB_bytes c0 = Some w" by (auto simp: live_def)
  then have "bb_len b0 = length w" using CBB_bytes_no_child [OF b0(1) c0(3)] length_written [of b0]
    by (simp add: ready_def)
  with add_live [OF M b0(2), of n] len obtain b1 where a: "cbb_buffer_add M b0 n = (True, b1)" "roomy b1"
    by auto
  have "wf_buffer b0" and ln: "length (replicate n (0 :: u8)) < 2 ^ 62" using b0 n by (simp_all add: ready_def)
  with add_blit(1) [OF malloc_total_spec [OF M] _ ln, of b0 b1] a
  have "roomy (b1\<lparr>bb_buf := blit (bb_buf b1) (bb_len b0) (replicate n 0)\<rparr>)" by (simp add: roomy_def)
  then show ?thesis
    using c0(1) b0(1) a by (simp add: cbb_add_length_prefixed_def cbb_then_def on_base_def ready_def Let_def)
qed

text \<open>
  Filling the child: \<open>g\<close> is any sequence of operations on the child that appends \<open>d\<close> and that
  succeeds when there is room for it and nine bytes more.
\<close>

definition writes :: "malloc \<Rightarrow> (CBB \<Rightarrow> bool \<times> CBB) \<Rightarrow> u8 list \<Rightarrow> bool" where
  "writes M g d \<longleftrightarrow>
     (\<forall>ch b ch'. ready ch b \<longrightarrow> cbb_chain ch = [] \<longrightarrow> g ch = (True, ch') \<longrightarrow> appends ch ch' d)
     \<and> (\<forall>ch w. live ch w \<longrightarrow> cbb_chain ch = [] \<longrightarrow> length w + length d + 9 \<le> 2 ^ 60 \<longrightarrow>
            (\<exists>ch'. g ch = (True, ch') \<and> live ch' (w @ d)))"

lemma writesD:
  assumes "writes M g d"
  shows "ready ch b \<Longrightarrow> cbb_chain ch = [] \<Longrightarrow> g ch = (True, ch') \<Longrightarrow> appends ch ch' d"
    and "live ch w \<Longrightarrow> cbb_chain ch = [] \<Longrightarrow> length w + length d + 9 \<le> 2 ^ 60 \<Longrightarrow>
      \<exists>ch'. g ch = (True, ch') \<and> live ch' (w @ d)"
  using assms unfolding writes_def by blast+

lemma writes_bytes:
  assumes M: "malloc_total M" and d: "length d < 2 ^ 62"
  shows "writes M (\<lambda>ch. CBB_add_bytes M ch d) d"
proof -
  have "\<exists>ch'. CBB_add_bytes M ch d = (True, ch') \<and> live ch' (w @ d)"
    if "live ch w" "length w + length d + 9 \<le> 2 ^ 60" for ch w
    using CBB_add_bytes_live [OF M that(1), of d] that(2) by auto
  then show ?thesis
    unfolding writes_def using CBB_add_bytes_appends [OF malloc_total_spec [OF M] _ d] by blast
qed

lemma length_prefixed_live:
  assumes M: "malloc_total M" and c: "live c w" and n: "1 \<le> n" "n \<le> 3" and g: "writes M g d"
    and d: "length d < 256 ^ n" and len: "length w + length d + n + 9 \<le> 2 ^ 60"
  shows "\<exists>c'. cbb_then (cbb_add_length_prefixed M c n) (\<lambda>cbb. cbb_then (on_child cbb g) (CBB_flush M)) = (True, c')
    \<and> live c' (w @ be_bytes n (length d) @ d)"
proof -
  have len1: "length w + n \<le> 2 ^ 60" using len by simp
  from cbb_add_length_prefixed_live [OF M c n len1] obtain c1 b1 where
    c1: "cbb_add_length_prefixed M c n = (True, c1)" "cbb_base c1 = Some b1" "roomy b1" by blast
  from c obtain b where b: "ready c b" using live_ready by blast
  from cbb_add_length_prefixed_opens [OF malloc_total_spec [OF M] b n c1(1)] obtain f where
    o: "opens c c1 [] f" and f: "cbb_pending_len_len f = n" "\<not> cbb_pending_is_asn1 f" by blast
  from opens_child_live [OF o c c1(2,3)] f obtain z where z: "live (CBB_child c1) (w @ z)" "length z = n" by auto
  from writesD(2) [OF g z(1) opens_child_chain [OF o]] len z(2) obtain ch where
    ch: "g (CBB_child c1) = (True, ch)" "live ch (w @ z @ d)" by auto
  from opens_child_ready [OF o] writesD(1) [OF g] ch(1) opens_child_chain [OF o]
  have a: "appends (CBB_child c1) ch d" by blast
  have p: "prefix_bytes f (length d) = Some (be_bytes n (length d))" using f d by (simp add: prefix_bytes_def)
  have l: "live (CBB_return c1 ch) (w @ be_bytes n (length d) @ d)"
    using nested_live [OF o c a ch(2) p] by simp
  from CBB_flush_live' [OF M l] len obtain c' where
    "CBB_flush M (CBB_return c1 ch) = (True, c')" "live c' (w @ be_bytes n (length d) @ d)" by auto
  then show ?thesis using c1(1) ch(1) by (auto simp: cbb_then_def on_child_def)
qed

section \<open>Elements\<close>

lemma length_low_digits [simp]: "length (low_digits m n) = n"
  by (induction n) simp_all

lemma add_base128_loop_live:
  assumes M: "malloc_total M"
  shows "live c w \<Longrightarrow> cbb_chain c = [] \<Longrightarrow> length w + n \<le> 2 ^ 60 \<Longrightarrow>
    \<exists>c'. add_base128_loop M c v n = (True, c') \<and> live c' (w @ low_digits (unat v) n) \<and> cbb_chain c' = []"
proof (induction n arbitrary: c w)
  case 0
  then show ?case by simp
next
  case (Suc n)
  let ?b = "of_nat (unat v div 128 ^ n mod 128 + (if n = 0 then 0 else 128)) :: u8"
  from CBB_add_u8_live [OF M Suc.prems(1), of ?b] Suc.prems(3) obtain c1 where
    c1: "CBB_add_u8 M c ?b = (True, c1)" "live c1 (w @ [?b])" "cbb_chain c1 = []" by auto
  from Suc.IH [OF c1(2,3)] Suc.prems(3) obtain c2 where
    c2: "add_base128_loop M c1 v n = (True, c2)" "live c2 ((w @ [?b]) @ low_digits (unat v) n)"
    "cbb_chain c2 = []" by auto
  have "add_base128_loop M c v (Suc n) = (True, c2)"
    unfolding add_base128_loop.simps base128_digit [unfolded Let_def, symmetric] Let_def
    using c1(1) c2(1) unfolding base128_digit [unfolded Let_def, symmetric] by (simp add: cbb_then_def)
  with c2 show ?case by simp
qed

lemma add_base128_integer_live:
  assumes M: "malloc_total M" and c: "live c w" "cbb_chain c = []"
    and len: "length w + length (base128 (unat v)) \<le> 2 ^ 60"
  shows "\<exists>c'. add_base128_integer M c v = (True, c') \<and> live c' (w @ base128 (unat v)) \<and> cbb_chain c' = []"
proof -
  let ?n = "if base128_len v = 0 then 1 else base128_len v"
  have "length (base128 (unat v)) = ?n"
    using arg_cong [OF low_digits_base128 [of v], of length] unfolding length_low_digits by (rule sym)
  with add_base128_loop_live [OF M c, of ?n v] len show ?thesis
    unfolding low_digits_base128 add_base128_integer_def Let_def by simp
qed

lemma CBB_add_asn1_live:
  assumes M: "malloc_total M" and c: "live c w" and len: "length w + 7 \<le> 2 ^ 60"
  shows "\<exists>c1 b1. CBB_add_asn1 M c tag = (True, c1) \<and> cbb_base c1 = Some b1 \<and> roomy b1"
proof -
  let ?bits = "ucast (drop_bit CBS_ASN1_TAG_SHIFT tag AND 0xe0) :: u8"
  let ?number = "tag AND CBS_ASN1_TAG_NUMBER_MASK"
  let ?id = "\<lambda>c. if ?number \<ge> 0x1f
                then cbb_then (CBB_add_u8 M c (?bits OR 0x1f))
                       (\<lambda>cbb. add_base128_integer M cbb (ucast ?number))
                else CBB_add_u8 M c (?bits OR ucast ?number)"
  have t: "length (der_tag tag) \<le> 6" by (rule der_tag_length)
  have len0: "length w \<le> 2 ^ 60" using len by simp
  from CBB_flush_live' [OF M c len0] obtain c0 where c0: "CBB_flush M c = (True, c0)" "live c0 w" by blast
  have "\<exists>c2. ?id c0 = (True, c2) \<and> live c2 (w @ der_tag tag)"
  proof (cases "?number \<ge> 0x1f")
    case True
    note dt = tag_octets(2) [of tag, unfolded if_P [OF True]]
    from CBB_add_u8_live [OF M c0(2), of "?bits OR 0x1f"] len obtain c1 where
      c1: "CBB_add_u8 M c0 (?bits OR 0x1f) = (True, c1)" "live c1 (w @ [?bits OR 0x1f])" "cbb_chain c1 = []" by auto
    have "length (w @ [?bits OR 0x1f]) + length (base128 (unat (ucast ?number :: u64))) \<le> 2 ^ 60"
      using t len unfolding dt by simp
    from add_base128_integer_live [OF M c1(2,3) this] obtain c2 where
      "add_base128_integer M c1 (ucast ?number) = (True, c2)"
      "live c2 (w @ der_tag tag)" unfolding dt by auto
    with c1(1) True show ?thesis by (simp add: cbb_then_def)
  next
    case False
    note dt = tag_octets(2) [of tag, unfolded if_not_P [OF False]]
    from CBB_add_u8_live [OF M c0(2), of "?bits OR ucast ?number"] len False show ?thesis
      unfolding dt by auto
  qed
  then obtain c2 where c2: "?id c0 = (True, c2)" "live c2 (w @ der_tag tag)" by blast
  have "length (w @ der_tag tag) + 1 \<le> 2 ^ 60" using t len by simp
  from CBB_add_u8_live [OF M c2(2) this, of 0] obtain c3 where c3: "CBB_add_u8 M c2 0 = (True, c3)"
    "live c3 ((w @ der_tag tag) @ [0])" by blast
  then obtain b3 where "cbb_base c3 = Some b3" "roomy b3" by (auto simp: live_def ready_def)
  then show ?thesis
    using c0(1) c2(1) c3(1) unfolding CBB_add_asn1_def Let_def by (simp add: cbb_then_def)
qed

lemma der_element_length:
  "length (der_element tag d) \<le> length d + 11"
  "length (der_tag tag) + 1 + length d \<le> length (der_element tag d)"
  using der_tag_length [of tag] der_length_length [of "length d"] by (simp_all add: der_element_def)

lemma element_live:
  assumes M: "malloc_total M" and c: "live c w" and g: "writes M g d"
    and d: "length d \<le> 0xfffffffe" and len: "length w + length (der_element tag d) + 9 \<le> 2 ^ 60"
  shows "\<exists>c'. cbb_then (CBB_add_asn1 M c tag) (\<lambda>cbb. cbb_then (on_child cbb g) (CBB_flush M)) = (True, c')
    \<and> live c' (w @ der_element tag d) \<and> cbb_chain c' = []"
proof -
  have len1: "length w + 7 \<le> 2 ^ 60" using len by simp
  from CBB_add_asn1_live [OF M c len1] obtain c1 b1 where
    c1: "CBB_add_asn1 M c tag = (True, c1)" "cbb_base c1 = Some b1" "roomy b1" by blast
  from c obtain b where b: "ready c b" using live_ready by blast
  from CBB_add_asn1_opens [OF malloc_total_spec [OF M] b c1(1)] obtain f where
    o: "opens c c1 (der_tag tag) f" and f: "cbb_pending_len_len f = 1" "cbb_pending_is_asn1 f" by blast
  from opens_child_live [OF o c c1(2,3)] f obtain z where
    z: "live (CBB_child c1) (w @ der_tag tag @ z)" "length z = 1" by auto
  have t: "length (der_tag tag) + 1 + length d \<le> length (der_element tag d)" by (rule der_element_length)
  from writesD(2) [OF g z(1) opens_child_chain [OF o]] len z(2) t obtain ch where
    ch: "g (CBB_child c1) = (True, ch)" "live ch ((w @ der_tag tag @ z) @ d)" by auto
  from opens_child_ready [OF o] writesD(1) [OF g] ch(1) opens_child_chain [OF o]
  have a: "appends (CBB_child c1) ch d" by blast
  have p: "prefix_bytes f (length d) = Some (der_length (length d))" using f d by (simp add: prefix_bytes_def)
  have l: "live (CBB_return c1 ch) (w @ der_element tag d)"
    using nested_live [OF o c a ch(2) p] by (simp add: der_element_def)
  have "length (w @ der_element tag d) \<le> 2 ^ 60" using len by simp
  from CBB_flush_live' [OF M l this] obtain c' where
    "CBB_flush M (CBB_return c1 ch) = (True, c')" "live c' (w @ der_element tag d)" "cbb_chain c' = []" by blast
  then show ?thesis using c1(1) ch(1) by (auto simp: cbb_then_def on_child_def)
qed

section \<open>Integers, booleans and octet strings\<close>

lemma uint64_loop_started_live:
  assumes M: "malloc_total M"
  shows "live c w \<Longrightarrow> cbb_chain c = [] \<Longrightarrow> length w + n \<le> 2 ^ 60 \<Longrightarrow>
    \<exists>c'. add_asn1_uint64_loop M c v True n = ((True, True), c') \<and> live c' (w @ be_bytes n (unat v))"
proof (induction n arbitrary: c w)
  case 0
  then show ?case by simp
next
  case (Suc n)
  let ?b = "of_nat (unat v div 256 ^ n) :: u8"
  from CBB_add_u8_live [OF M Suc.prems(1), of ?b] Suc.prems(3) obtain c1 where
    c1: "CBB_add_u8 M c ?b = (True, c1)" "live c1 (w @ [?b])" "cbb_chain c1 = []" by auto
  from Suc.IH [OF c1(2,3)] Suc.prems(3) obtain c2 where
    c2: "add_asn1_uint64_loop M c1 v True n = ((True, True), c2)" "live c2 ((w @ [?b]) @ be_bytes n (unat v))"
    by auto
  have "add_asn1_uint64_loop M c v True (Suc n) = ((True, True), c2)"
    unfolding add_asn1_uint64_loop.simps uint64_byte Let_def using c1(1) c2(1) by simp
  with c2(2) show ?case unfolding be_bytes_front by simp
qed

lemma uint64_loop_live:
  assumes M: "malloc_total M"
  shows "live c w \<Longrightarrow> cbb_chain c = [] \<Longrightarrow> length w + Suc n \<le> 2 ^ 60 \<Longrightarrow>
    \<exists>s c' w'. add_asn1_uint64_loop M c v False n = ((True, s), c') \<and> live c' w'"
proof (induction n)
  case 0
  then show ?case by auto
next
  case (Suc n)
  let ?b = "of_nat (unat v div 256 ^ n) :: u8"
  let ?z = "if ?b AND 0x80 \<noteq> 0 then CBB_add_u8 M c 0 else (True, c)"
  show ?case
  proof (cases "?b = 0")
    case True
    with Suc show ?thesis unfolding add_asn1_uint64_loop.simps uint64_byte Let_def by simp
  next
    case False
    have len1: "length w + 1 \<le> 2 ^ 60" using Suc.prems(3) by simp
    have "\<exists>c1 w1. ?z = (True, c1) \<and> live c1 w1 \<and> cbb_chain c1 = [] \<and> length w1 \<le> length w + 1"
    proof (cases "?b AND 0x80 = 0")
      case True
      with Suc.prems show ?thesis by auto
    next
      case False
      from CBB_add_u8_live [OF M Suc.prems(1) len1, of 0] obtain c' where
        "CBB_add_u8 M c 0 = (True, c')" "live c' (w @ [0])" "cbb_chain c' = []" by blast
      with False show ?thesis by (intro exI [of _ c'] exI [of _ "w @ [0]"]) simp
    qed
    then obtain c1 w1 where
      c1: "?z = (True, c1)" "live c1 w1" "cbb_chain c1 = []" "length w1 \<le> length w + 1" by blast
    from CBB_add_u8_live [OF M c1(2), of ?b] Suc.prems(3) c1(4) obtain c2 where
      c2: "CBB_add_u8 M c1 ?b = (True, c2)" "live c2 (w1 @ [?b])" "cbb_chain c2 = []" by auto
    from uint64_loop_started_live [OF M c2(2,3), of n v] Suc.prems(3) c1(4) obtain c3 where
      c3: "add_asn1_uint64_loop M c2 v True n = ((True, True), c3)"
        "live c3 ((w1 @ [?b]) @ be_bytes n (unat v))" by auto
    show ?thesis
      unfolding add_asn1_uint64_loop.simps uint64_byte Let_def using False c1(1) c2(1) c3 by auto
  qed
qed

lemma uint64_body_live:
  assumes M: "malloc_total M" and c: "live c w" "cbb_chain c = []" and len: "length w + 9 \<le> 2 ^ 60"
  shows "\<exists>c'. uint64_body M v c = (True, c') \<and> live c' (w @ uint_octets (unat v))"
proof -
  from len have "length w + Suc 8 \<le> 2 ^ 60" by simp
  from uint64_loop_live [OF M c this] obtain s c1 w1 where
    l: "add_asn1_uint64_loop M c v False 8 = ((True, s), c1)" and l1: "live c1 w1" by blast
  from c obtain b where b: "ready c b" using live_ready by blast
  have "unat v < 256 ^ 8" using unsigned_less [of v, where ?'a = nat] by simp
  note L = uint64_loop_appends [OF malloc_total_spec [OF M] b c(2) this l]
  show ?thesis
  proof (cases "v = 0")
    case True
    with L CBB_add_u8_live [OF M c(1), of 0] len l show ?thesis by (auto simp: uint_octets_small)
  next
    case False
    with L l have r: "uint64_body M v c = (True, c1)" and a: "appends c c1 (uint_octets (unat v))" by auto
    with l1 appends_bytes [OF a live_bytes [OF c(1)]] show ?thesis by (auto simp: live_def)
  qed
qed

lemma CBB_add_asn1_uint64_live:
  assumes M: "malloc_total M" and c: "live c w" and len: "length w + 30 \<le> 2 ^ 60"
  shows "\<exists>c'. CBB_add_asn1_uint64 M c v = (True, c')
    \<and> live c' (w @ der_element CBS_ASN1_INTEGER (uint_octets (unat v)))"
proof -
  have "unat v < 256 ^ 8" using unsigned_less [of v, where ?'a = nat] by simp
  then have u: "length (uint_octets (unat v)) \<le> 9" using uint_octets_length by fastforce
  have "writes M (uint64_body M v) (uint_octets (unat v))"
    unfolding writes_def
  proof (intro conjI allI impI)
    show "appends ch ch' (uint_octets (unat v))"
      if "ready ch b" "cbb_chain ch = []" "uint64_body M v ch = (True, ch')" for ch b ch'
      by (rule uint64_body_appends [OF malloc_total_spec [OF M] that])
    show "\<exists>ch'. uint64_body M v ch = (True, ch') \<and> live ch' (wc @ uint_octets (unat v))"
      if "live ch wc" "cbb_chain ch = []" "length wc + length (uint_octets (unat v)) + 9 \<le> 2 ^ 60" for ch wc
      by (rule uint64_body_live [OF M that(1,2)]) (use that(3) in simp)
  qed
  moreover have "length (uint_octets (unat v)) \<le> 0xfffffffe"
    and "length w + length (der_element CBS_ASN1_INTEGER (uint_octets (unat v))) + 9 \<le> 2 ^ 60"
    using u len der_element_length(1) [of CBS_ASN1_INTEGER "uint_octets (unat v)"] by simp_all
  ultimately show ?thesis
    unfolding CBB_add_asn1_uint64_def using element_live [OF M c] by blast
qed

lemma CBB_add_asn1_octet_string_live:
  assumes M: "malloc_total M" and c: "live c w" and d: "length d \<le> 0xfffffffe"
    and len: "length w + length d + 21 \<le> 2 ^ 60"
  shows "\<exists>c'. CBB_add_asn1_octet_string M c d = (True, c')
    \<and> live c' (w @ der_element CBS_ASN1_OCTETSTRING d)"
  unfolding CBB_add_asn1_octet_string_def
proof -
  have "writes M (\<lambda>ch. CBB_add_bytes M ch d) d" using writes_bytes [OF M] d by simp
  moreover have "length w + length (der_element CBS_ASN1_OCTETSTRING d) + 9 \<le> 2 ^ 60"
    using len der_element_length(1) [of CBS_ASN1_OCTETSTRING d] by simp
  ultimately show "\<exists>c'. cbb_then (CBB_add_asn1 M c CBS_ASN1_OCTETSTRING)
      (\<lambda>cbb. cbb_then (on_child cbb (\<lambda>child. CBB_add_bytes M child d)) (CBB_flush M)) = (True, c')
    \<and> live c' (w @ der_element CBS_ASN1_OCTETSTRING d)"
    using element_live [OF M c _ d] by blast
qed

lemma CBB_add_asn1_bool_live:
  assumes M: "malloc_total M" and c: "live c w" and len: "length w + 30 \<le> 2 ^ 60"
  shows "\<exists>c'. CBB_add_asn1_bool M c v = (True, c')
    \<and> live c' (w @ der_element CBS_ASN1_BOOLEAN [if v \<noteq> 0 then 0xff else 0])"
proof -
  have "writes M (\<lambda>ch. CBB_add_u8 M ch x) [x]" for x
    unfolding writes_def using CBB_add_u8_appends [OF malloc_total_spec [OF M]] CBB_add_u8_live [OF M] by fastforce
  moreover have "length w + length (der_element CBS_ASN1_BOOLEAN [x]) + 9 \<le> 2 ^ 60" for x
    using len der_element_length(1) [of CBS_ASN1_BOOLEAN "[x]"] by simp
  moreover have "length [x] \<le> 0xfffffffe" for x :: u8 by simp
  ultimately show ?thesis unfolding CBB_add_asn1_bool_def using element_live [OF M c] by blast
qed

end
