(* ===== verification/Ber.thy ===== *)
theory Ber
  imports CbbAsn1
begin

text \<open>
  \<^verbatim>\<open>crypto/bytestring/ber.c\<close>: the conversion of BER to DER, and what it guarantees. \<open>der_forest\<close>
  describes the inputs that need no conversion: definite lengths and no constructed strings.
\<close>

section \<open>Definitions\<close>

definition kMaxDepth :: nat where "kMaxDepth = 2048"

definition CBS_ASN1_UTF8STRING :: u32 where "CBS_ASN1_UTF8STRING = 0xc"
definition CBS_ASN1_NUMERICSTRING :: u32 where "CBS_ASN1_NUMERICSTRING = 0x12"
definition CBS_ASN1_PRINTABLESTRING :: u32 where "CBS_ASN1_PRINTABLESTRING = 0x13"
definition CBS_ASN1_T61STRING :: u32 where "CBS_ASN1_T61STRING = 0x14"
definition CBS_ASN1_VIDEOTEXSTRING :: u32 where "CBS_ASN1_VIDEOTEXSTRING = 0x15"
definition CBS_ASN1_IA5STRING :: u32 where "CBS_ASN1_IA5STRING = 0x16"
definition CBS_ASN1_GRAPHICSTRING :: u32 where "CBS_ASN1_GRAPHICSTRING = 0x19"
definition CBS_ASN1_VISIBLESTRING :: u32 where "CBS_ASN1_VISIBLESTRING = 0x1a"
definition CBS_ASN1_GENERALSTRING :: u32 where "CBS_ASN1_GENERALSTRING = 0x1b"
definition CBS_ASN1_UNIVERSALSTRING :: u32 where "CBS_ASN1_UNIVERSALSTRING = 0x1c"
definition CBS_ASN1_BMPSTRING :: u32 where "CBS_ASN1_BMPSTRING = 0x1e"

definition is_string_type :: "u32 \<Rightarrow> bool" where
  "is_string_type tag =
     (tag AND NOT CBS_ASN1_CONSTRUCTED \<in>
        {CBS_ASN1_BITSTRING, CBS_ASN1_OCTETSTRING, CBS_ASN1_UTF8STRING, CBS_ASN1_NUMERICSTRING,
         CBS_ASN1_PRINTABLESTRING, CBS_ASN1_T61STRING, CBS_ASN1_VIDEOTEXSTRING, CBS_ASN1_IA5STRING,
         CBS_ASN1_GRAPHICSTRING, CBS_ASN1_VISIBLESTRING, CBS_ASN1_GENERALSTRING,
         CBS_ASN1_UNIVERSALSTRING, CBS_ASN1_BMPSTRING})"

lemmas string_tag_defs = CBS_ASN1_BITSTRING_def CBS_ASN1_OCTETSTRING_def CBS_ASN1_UTF8STRING_def
  CBS_ASN1_NUMERICSTRING_def CBS_ASN1_PRINTABLESTRING_def CBS_ASN1_T61STRING_def
  CBS_ASN1_VIDEOTEXSTRING_def CBS_ASN1_IA5STRING_def CBS_ASN1_GRAPHICSTRING_def
  CBS_ASN1_VISIBLESTRING_def CBS_ASN1_GENERALSTRING_def CBS_ASN1_UNIVERSALSTRING_def
  CBS_ASN1_BMPSTRING_def

lemma element_take:
  assumes "cbs_get_any_asn1_element cbs ber_ok = (Some (out, tag, hl), rest)"
  shows "cbs = out @ rest" and "2 \<le> hl"
proof -
  from assms obtain header where t: "parse_asn1_tag cbs = (Some tag, header)"
    by (auto simp: cbs_get_any_asn1_element_def Let_def cbs_then_def split: prod.splits option.splits if_splits)
  note cbs = parse_asn1_tag_canonical [OF t]
  obtain lb body where h: "header = lb # body"
    using assms t by (cases header) (auto simp: cbs_get_any_asn1_element_def Let_def)
  have n: "\<exists>n k. out = take n cbs \<and> rest = drop n cbs \<and> hl = length cbs - length body + k"
    using assms unfolding cbs_get_any_asn1_element_def t h Let_def CBS_len_def
    by (auto simp: cbs_then_def split: prod.splits option.splits if_splits)
  then show "cbs = out @ rest" by auto
  show "2 \<le> hl" using n der_tag_length [of tag] by (auto simp: cbs h)
qed

definition indefinite_element :: "CBS \<Rightarrow> nat \<Rightarrow> bool" where
  "indefinite_element contents header_len \<longleftrightarrow>
     CBS_len contents = header_len \<and> header_len > 0 \<and> CBS_data contents ! (header_len - 1) = 0x80"

lemma definite_element:
  assumes "CBS_get_any_ber_asn1_element cbs = (Some (out, tag, hl), rest)" and "\<not> indefinite_element out hl"
  shows "\<exists>c. out = der_element tag c \<and> cbs = out @ rest \<and> length c < 2 ^ 32
             \<and> CBS_skip out hl = (Some (), c)"
proof -
  from cbs_get_any_asn1_element_canonical [of cbs True out tag hl rest] assms obtain c where
    "out = der_element tag c" "cbs = out @ rest" "length c < 2 ^ 32" "hl = length (der_header tag (length c))"
    by (auto simp: CBS_get_any_ber_asn1_element_def indefinite_element_def CBS_len_def CBS_data_def
      simp del: length_append)
  then show ?thesis by (intro exI [of _ c]) (simp only: CBS_skip_header simp_thms)
qed

lemma element_shorter:
  assumes "CBS_get_any_ber_asn1_element cbs = (Some (out, tag, hl), rest)"
  shows "length rest < length cbs" and "CBS_skip out hl = (r, c) \<Longrightarrow> length c < length cbs \<or> r = None"
proof -
  from assms have e: "cbs_get_any_asn1_element cbs True = (Some (out, tag, hl), rest)"
    by (simp add: CBS_get_any_ber_asn1_element_def)
  note s = element_take [OF e]
  have "hl \<le> length out"
  proof (cases "indefinite_element out hl")
    case True
    then show ?thesis by (simp add: indefinite_element_def CBS_len_def)
  next
    case False
    from definite_element [OF assms this] obtain c where "CBS_skip out hl = (Some (), c)" by blast
    then show ?thesis by (auto simp: CBS_skip_def cbs_get_def cbs_then_def split: if_splits)
  qed
  with s show "length rest < length cbs" "CBS_skip out hl = (r, c) \<Longrightarrow> length c < length cbs \<or> r = None"
    by (auto simp: CBS_skip_def cbs_get_def cbs_then_def split: if_splits)
qed

lemma element_shorter_skip:
  "(Some (out, tag, hl), rest) = CBS_get_any_ber_asn1_element cbs \<Longrightarrow> (Some u, c) = CBS_skip out hl \<Longrightarrow>
     length c < length cbs"
  using element_shorter(2) [of cbs out tag hl rest "Some u" c] by simp

text \<open>
  \<^verbatim>\<open>cbs_find_ber\<close>: \<open>None\<close> is the return value zero, otherwise \<^verbatim>\<open>*ber_found\<close>. The variable is shared by
  the levels of the recursion: each call resets it and the caller goes on with what it finds there.
\<close>

function cbs_find_ber :: "CBS \<Rightarrow> nat \<Rightarrow> bool option"
  and find_ber_loop :: "CBS \<Rightarrow> bool \<Rightarrow> nat \<Rightarrow> bool option" where
  "cbs_find_ber orig_in depth =
     (if depth > kMaxDepth then None else find_ber_loop orig_in False depth)"
| "find_ber_loop inp ber_found depth =
     (if CBS_len inp > 0
      then (case CBS_get_any_ber_asn1_element inp of
              (None, _) \<Rightarrow> None
            | (Some (contents, tag, header_len), inp') \<Rightarrow>
                if indefinite_element contents header_len then Some True
                else if tag AND CBS_ASN1_CONSTRUCTED \<noteq> 0
                then if is_string_type tag then Some True
                     else (case CBS_skip contents header_len of
                             (None, _) \<Rightarrow> None
                           | (Some _, contents') \<Rightarrow>
                               (case cbs_find_ber contents' (depth + 1) of
                                  None \<Rightarrow> None
                                | Some ber_found \<Rightarrow> find_ber_loop inp' ber_found depth))
                else find_ber_loop inp' ber_found depth)
      else Some ber_found)"
  by pat_completeness auto
termination
proof (relation "measure (\<lambda>x. case x of Inl (inp, d) \<Rightarrow> 2 * length inp + 1 | Inr (inp, f, d) \<Rightarrow> 2 * length inp)",
    goal_cases)
  case 3
  then show ?case using element_shorter_skip by fastforce
qed (auto dest: element_shorter [OF sym])

declare cbs_find_ber.simps [simp del] find_ber_loop.simps [simp del]

definition is_eoc :: "nat \<Rightarrow> CBS \<Rightarrow> bool" where
  "is_eoc header_len contents \<longleftrightarrow>
     header_len = 2 \<and> CBS_len contents = 2 \<and> CBS_data contents = [0, 0]"

text \<open>
  The choice of \<^verbatim>\<open>out_contents\<close> in \<^verbatim>\<open>cbs_convert_ber\<close>: the fragments of a constructed string go to
  \<open>out\<close> itself, everything else to a new child. The result is the success of the step, the string
  tag for the children and the builder, whose pending child is the new one unless \<open>string_tag\<close> is set.
\<close>

definition convert_open :: "malloc \<Rightarrow> CBB \<Rightarrow> u32 \<Rightarrow> u32 \<Rightarrow> bool \<times> u32 \<times> CBB" where
  "convert_open M out string_tag tag =
     (if string_tag \<noteq> 0
      then (tag AND NOT CBS_ASN1_CONSTRUCTED = string_tag, string_tag, out)
      else let is_string = tag AND CBS_ASN1_CONSTRUCTED \<noteq> 0 \<and> is_string_type tag;
               out_tag = (if is_string then tag AND NOT CBS_ASN1_CONSTRUCTED else tag);
               child_string_tag = (if is_string then out_tag else string_tag)
           in (case CBB_add_asn1 M out out_tag of (ok, out) \<Rightarrow> (ok, child_string_tag, out)))"

definition out_contents :: "u32 \<Rightarrow> CBB \<Rightarrow> CBB" where
  "out_contents string_tag out = (if string_tag \<noteq> 0 then out else CBB_child out)"

definition from_contents :: "u32 \<Rightarrow> CBB \<Rightarrow> CBB \<Rightarrow> CBB" where
  "from_contents string_tag out c = (if string_tag \<noteq> 0 then c else CBB_return out c)"

text \<open>\<open>looking_for_eoc\<close> and the return value are the C flags; the input is consumed as in the code.\<close>

function cbs_convert_ber ::
  "malloc \<Rightarrow> CBS \<Rightarrow> CBB \<Rightarrow> u32 \<Rightarrow> bool \<Rightarrow> nat \<Rightarrow> bool \<times> CBS \<times> CBB" where
  "cbs_convert_ber M inp out string_tag looking_for_eoc depth =
     (if depth > kMaxDepth then (False, inp, out)
      else if CBS_len inp > 0
      then (case CBS_get_any_ber_asn1_element inp of
              (None, inp) \<Rightarrow> (False, inp, out)
            | (Some (contents, tag, header_len), inp) \<Rightarrow>
                if is_eoc header_len contents then (looking_for_eoc, inp, out)
                else (case convert_open M out string_tag tag of
                  (ok, child_string_tag, out) \<Rightarrow>
                    if \<not> ok then (False, inp, out)
                    else if indefinite_element contents header_len
                    then (case cbs_convert_ber M inp (out_contents string_tag out) child_string_tag True
                                 (depth + 1) of
                            (ok, inp, c) \<Rightarrow>
                              if \<not> ok then (False, inp, from_contents string_tag out c)
                              else (case CBB_flush M (from_contents string_tag out c) of
                                      (ok, out) \<Rightarrow>
                                        if \<not> ok then (False, inp, out)
                                        else cbs_convert_ber M inp out string_tag looking_for_eoc depth))
                    else (case CBS_skip contents header_len of
                            (None, _) \<Rightarrow> (False, inp, out)
                          | (Some _, contents) \<Rightarrow>
                              (case (if tag AND CBS_ASN1_CONSTRUCTED \<noteq> 0
                                     then (case cbs_convert_ber M contents (out_contents string_tag out)
                                                  child_string_tag False (depth + 1) of
                                             (ok, _, c) \<Rightarrow> (ok, c))
                                     else CBB_add_bytes M (out_contents string_tag out) contents) of
                                 (ok, c) \<Rightarrow>
                                   if \<not> ok then (False, inp, from_contents string_tag out c)
                                   else (case CBB_flush M (from_contents string_tag out c) of
                                           (ok, out) \<Rightarrow>
                                             if \<not> ok then (False, inp, out)
                                             else cbs_convert_ber M inp out string_tag looking_for_eoc depth)))))
      else (\<not> looking_for_eoc, inp, out))"
  by pat_completeness auto

lemma convert_ber_length:
  "cbs_convert_ber_dom (M, inp, out, st, l, d) \<Longrightarrow>
     cbs_convert_ber M inp out st l d = (r, inp', out') \<Longrightarrow> length inp' \<le> length inp"
proof (induction arbitrary: r inp' out' rule: cbs_convert_ber.pinduct)
  case (1 M inp out st l d)
  note IH = 1(2-5) and eq = 1(6) [unfolded cbs_convert_ber.psimps [OF 1(1)]]
  show ?case
  proof (cases "d > kMaxDepth \<or> inp = []")
    case True
    with eq show ?thesis by (auto simp: CBS_len_def split: if_splits)
  next
    case False
    obtain e inp1 where e: "CBS_get_any_ber_asn1_element inp = (e, inp1)" by (rule prod.exhaust)
    show ?thesis
    proof (cases e)
      case None
      then have "inp1 = inp"
        using e cbs_get_any_asn1_element_fail [of inp True inp1] by (simp add: CBS_get_any_ber_asn1_element_def)
      with eq False None e show ?thesis by (simp add: CBS_len_def)
    next
      case (Some x)
      obtain contents tag hl where x: "x = (contents, tag, hl)" by (rule prod_cases3)
      note e = e [unfolded Some x]
      note sh = element_shorter(1) [OF e]
      obtain ok ct out1 where o: "convert_open M out st tag = (ok, ct, out1)" by (rule prod_cases3)
      show ?thesis
      proof (cases "is_eoc hl contents \<or> \<not> ok")
        case True
        with eq False e o sh show ?thesis by (auto simp: CBS_len_def split: if_splits)
      next
        case 2: False
        from False have nd: "\<not> d > kMaxDepth" "0 < CBS_len inp" by (simp_all add: CBS_len_def)
        show ?thesis
        proof (cases "indefinite_element contents hl")
          case True
          have eq1: "(case cbs_convert_ber M inp1 (out_contents st out1) ct True (d + 1) of
               (ok, inp, c) \<Rightarrow>
                 if \<not> ok then (False, inp, from_contents st out1 c)
                 else (case CBB_flush M (from_contents st out1 c) of
                         (ok, out) \<Rightarrow> if \<not> ok then (False, inp, out)
                                     else cbs_convert_ber M inp out st l d)) = (r, inp', out')"
            using eq nd e o 2 True by simp
          obtain ok1 i1 c1 where c1: "cbs_convert_ber M inp1 (out_contents st out1) ct True (d + 1) = (ok1, i1, c1)"
            by (rule prod_cases3)
          have l1: "length i1 \<le> length inp1"
            by (rule IH(1) [OF nd e [symmetric] refl refl refl _ o [symmetric] refl _ True c1]) (use 2 in simp_all)
          obtain ok2 o2 where f: "CBB_flush M (from_contents st out1 c1) = (ok2, o2)" by (rule prod.exhaust)
          show ?thesis
          proof (cases "ok1 \<and> ok2")
            case True
            with eq1 c1 f have "cbs_convert_ber M i1 o2 st l d = (r, inp', out')" by simp
            then have "length inp' \<le> length i1"
              using IH(2) [OF nd e [symmetric] refl refl refl _ o [symmetric] refl _
                  \<open>indefinite_element contents hl\<close> c1 [symmetric] refl _ f [symmetric]] 2 True by blast
            with l1 sh show ?thesis by simp
          next
            case False
            with eq1 c1 f l1 sh show ?thesis by (auto split: if_splits)
          qed
        next
          case False
          obtain sk contents1 where k: "CBS_skip contents hl = (sk, contents1)" by (rule prod.exhaust)
          show ?thesis
          proof (cases sk)
            case None
            with eq nd e o 2 False k sh show ?thesis by simp
          next
            case (Some u)
            obtain ok1 c1 where c1: "(if tag AND CBS_ASN1_CONSTRUCTED \<noteq> 0
                then (case cbs_convert_ber M contents1 (out_contents st out1) ct False (d + 1) of
                        (ok, _, c) \<Rightarrow> (ok, c))
                else CBB_add_bytes M (out_contents st out1) contents1) = (ok1, c1)" by (rule prod.exhaust)
            obtain ok2 o2 where f: "CBB_flush M (from_contents st out1 c1) = (ok2, o2)" by (rule prod.exhaust)
            have eq1: "(if \<not> ok1 then (False, inp1, from_contents st out1 c1)
                else if \<not> ok2 then (False, inp1, o2) else cbs_convert_ber M inp1 o2 st l d) = (r, inp', out')"
              using eq nd e o 2 False k Some c1 f by (auto split: if_splits)
            show ?thesis
            proof (cases "ok1 \<and> ok2")
              case True
              with eq1 have "cbs_convert_ber M inp1 o2 st l d = (r, inp', out')" by simp
              then have "length inp' \<le> length inp1"
                using IH(4) [OF nd e [symmetric] refl refl refl _ o [symmetric] refl _ False k [symmetric] Some
                    c1 [symmetric] _ f [symmetric]] 2 True by blast
              with sh show ?thesis by simp
            next
              case False
              with eq1 sh show ?thesis by (auto split: if_splits)
            qed
          qed
        qed
      qed
    qed
  qed
qed

lemma convert_ber_loop_shorter:
  assumes "cbs_convert_ber_dom (M, y, c0, ct, True, d)" and "(ok, i, c) = cbs_convert_ber M y c0 ct True d"
    and "(Some (contents, tag, hl), y) = CBS_get_any_ber_asn1_element inp"
  shows "length i < length inp"
  using convert_ber_length [OF assms(1) assms(2) [symmetric]] element_shorter(1) [OF assms(3) [symmetric]]
  by simp

termination cbs_convert_ber
proof (relation "(\<lambda>(M, inp, out, st, l, d). Suc kMaxDepth - d) <*mlex*> measure (\<lambda>(M, inp, out, st, l, d). length inp)",
    goal_cases)
  case 1
  then show ?case by (intro wf_mlex) simp
next
  case 2
  then show ?case by (auto simp: mlex_iff)
next
  case 3
  then show ?case
    by (clarsimp simp: mlex_iff) (erule (2) convert_ber_loop_shorter)
next
  case 4
  then show ?case by (auto simp: mlex_iff)
next
  case 5
  then show ?case by (auto simp: mlex_iff dest: element_shorter [OF sym])
qed

declare cbs_convert_ber.simps [simp del]

text \<open>
  The outputs are the return value, \<^verbatim>\<open>*out\<close> with \<^verbatim>\<open>*out_len\<close> (no buffer when the input needs no
  conversion), and the input that is left.
\<close>

definition CBS_asn1_ber_to_der :: "malloc \<Rightarrow> CBS \<Rightarrow> (u8 list option \<times> nat) cbs_result" where
  "CBS_asn1_ber_to_der M inp =
     (case cbs_find_ber inp 0 of
        None \<Rightarrow> (None, inp)
      | Some conversion_needed \<Rightarrow>
          if \<not> conversion_needed then (Some (None, 0), inp)
          else (case CBB_init M (CBS_len inp) of
                  (False, _) \<Rightarrow> (None, inp)
                | (True, cbb) \<Rightarrow>
                    (case cbs_convert_ber M inp cbb 0 False 0 of
                       (False, inp, _) \<Rightarrow> (None, inp)
                     | (True, inp, cbb) \<Rightarrow>
                         (case CBB_finish M cbb False False of
                            (None, _) \<Rightarrow> (None, inp)
                          | (Some (out, out_len), _) \<Rightarrow> (Some (Some (take out_len out), out_len), inp)))))"

text \<open>
  The loop of \<^verbatim>\<open>CBS_get_asn1_implicit_string\<close> over the chunks of a constructed string.
\<close>

function implicit_string_loop :: "malloc \<Rightarrow> CBS \<Rightarrow> u32 \<Rightarrow> CBB \<Rightarrow> bool \<times> CBB" where
  "implicit_string_loop M child inner_tag result =
     (if CBS_len child > 0
      then (case CBS_get_asn1 child inner_tag of
              (None, _) \<Rightarrow> (False, result)
            | (Some chunk, child) \<Rightarrow>
                (case CBB_add_bytes M result chunk of
                   (ok, result) \<Rightarrow>
                     if ok then implicit_string_loop M child inner_tag result else (False, result)))
      else (True, result))"
  by pat_completeness auto
termination
proof (relation "measure (\<lambda>(M, child, tag, result). length child)", goal_cases)
  case (2 M child inner_tag result x y xa xb ya)
  then show ?case
    using CBS_get_asn1_iff [of child inner_tag xa y] der_header_length(1) [of inner_tag "length xa"]
    by (auto simp: der_element_eq)
qed simp

declare implicit_string_loop.simps [simp del]

text \<open>
  The result is \<^verbatim>\<open>out\<close> and, when the chunks had to be concatenated, \<^verbatim>\<open>*out_storage\<close>.
\<close>

definition CBS_get_asn1_implicit_string ::
  "malloc \<Rightarrow> CBS \<Rightarrow> u32 \<Rightarrow> u32 \<Rightarrow> (CBS \<times> u8 list option) cbs_result" where
  "CBS_get_asn1_implicit_string M inp outer_tag inner_tag =
     (if CBS_peek_asn1_tag inp outer_tag
      then cbs_then (CBS_get_asn1 inp outer_tag) (\<lambda>out inp. (Some (out, None), inp))
      else (case CBB_init M (CBS_len inp) of
              (False, _) \<Rightarrow> (None, inp)
            | (True, result) \<Rightarrow>
                cbs_then (CBS_get_asn1 inp (outer_tag OR CBS_ASN1_CONSTRUCTED))
                  (\<lambda>child inp.
                     case implicit_string_loop M child inner_tag result of
                       (False, _) \<Rightarrow> (None, inp)
                     | (True, result) \<Rightarrow>
                         (case CBB_finish M result False False of
                            (None, _) \<Rightarrow> (None, inp)
                          | (Some (data, len), _) \<Rightarrow> (Some (CBS_init data len, Some data), inp)))))"

section \<open>Successful conversions\<close>

text \<open>The runs of \<^verbatim>\<open>cbs_convert_ber\<close> that return one, as a relation.\<close>

inductive converts :: "malloc \<Rightarrow> nat \<Rightarrow> CBS \<Rightarrow> CBB \<Rightarrow> u32 \<Rightarrow> CBS \<Rightarrow> CBB \<Rightarrow> bool" for M where
  converts_end: "d \<le> kMaxDepth \<Longrightarrow> converts M d [] out st [] out"
| converts_eoc: "d \<le> kMaxDepth \<Longrightarrow> CBS_get_any_ber_asn1_element inp = (Some (contents, tag, hl), inp1) \<Longrightarrow>
    is_eoc hl contents \<Longrightarrow> converts M d inp out st inp1 out"
| converts_indefinite: "CBS_get_any_ber_asn1_element inp = (Some (contents, tag, hl), inp1) \<Longrightarrow>
    convert_open M out st tag = (True, ct, out1) \<Longrightarrow>
    converts M (d + 1) inp1 (out_contents st out1) ct inp2 c \<Longrightarrow>
    CBB_flush M (from_contents st out1 c) = (True, out2) \<Longrightarrow>
    converts M d inp2 out2 st inp' out' \<Longrightarrow> converts M d inp out st inp' out'"
| converts_constructed: "CBS_get_any_ber_asn1_element inp = (Some (contents, tag, hl), inp1) \<Longrightarrow>
    convert_open M out st tag = (True, ct, out1) \<Longrightarrow> \<not> indefinite_element contents hl \<Longrightarrow>
    CBS_skip contents hl = (Some (), body) \<Longrightarrow>
    converts M (d + 1) body (out_contents st out1) ct rest c \<Longrightarrow>
    CBB_flush M (from_contents st out1 c) = (True, out2) \<Longrightarrow>
    converts M d inp1 out2 st inp' out' \<Longrightarrow> converts M d inp out st inp' out'"
| converts_primitive: "CBS_get_any_ber_asn1_element inp = (Some (contents, tag, hl), inp1) \<Longrightarrow>
    convert_open M out st tag = (True, ct, out1) \<Longrightarrow> tag AND CBS_ASN1_CONSTRUCTED = 0 \<Longrightarrow>
    CBS_skip contents hl = (Some (), body) \<Longrightarrow>
    CBB_add_bytes M (out_contents st out1) body = (True, c) \<Longrightarrow>
    CBB_flush M (from_contents st out1 c) = (True, out2) \<Longrightarrow>
    converts M d inp1 out2 st inp' out' \<Longrightarrow> converts M d inp out st inp' out'"

lemma convert_ber_converts:
  "cbs_convert_ber M inp out st l d = (True, inp', out') \<Longrightarrow> converts M d inp out st inp' out'"
proof (induction M inp out st l d arbitrary: inp' out' rule: cbs_convert_ber.induct)
  case (1 M inp out st l d)
  note IH = 1(1-4) and eq = 1(5) [unfolded cbs_convert_ber.simps [of M inp out st l d]]
  have d: "d \<le> kMaxDepth" using eq by (auto split: if_splits)
  show ?case
  proof (cases "inp = []")
    case True
    with eq d show ?thesis by (auto simp: CBS_len_def intro: converts_end split: if_splits)
  next
    case False
    with d have nd: "\<not> d > kMaxDepth" "0 < CBS_len inp" by (simp_all add: CBS_len_def)
    with eq obtain contents tag hl inp1 where e: "CBS_get_any_ber_asn1_element inp = (Some (contents, tag, hl), inp1)"
      by (auto split: prod.splits option.splits)
    obtain ok ct out1 where o: "convert_open M out st tag = (ok, ct, out1)" by (rule prod_cases3)
    show ?thesis
    proof (cases "is_eoc hl contents")
      case True
      with eq nd e have "inp' = inp1" "out' = out" by simp_all
      with converts_eoc [OF d e True] show ?thesis by simp
    next
      case 2: False
      with eq nd e o have ok: "ok" by (auto split: if_splits)
      then have okn: "\<not> \<not> ok" by simp
      note o' = o [unfolded eqTrueI [OF ok]]
      show ?thesis
      proof (cases "indefinite_element contents hl")
        case True
        with eq nd e o' 2 obtain i1 c1 o2 where
          c1: "cbs_convert_ber M inp1 (out_contents st out1) ct True (d + 1) = (True, i1, c1)" and
          f: "CBB_flush M (from_contents st out1 c1) = (True, o2)" and
          l: "cbs_convert_ber M i1 o2 st l d = (True, inp', out')"
          by (auto split: prod.splits if_splits)
        have "converts M (d + 1) inp1 (out_contents st out1) ct i1 c1"
          by (rule IH(1) [OF nd e [symmetric] refl refl refl 2 o [symmetric] refl okn True c1])
        moreover have "converts M d i1 o2 st inp' out'"
          using IH(2) [OF nd e [symmetric] refl refl refl 2 o [symmetric] refl okn True c1 [symmetric] refl _
              f [symmetric] _ l] by blast
        ultimately show ?thesis using converts_indefinite [OF e o' _ f] by blast
      next
        case False
        with eq nd e o' 2 obtain body c1 o2 where
          k: "CBS_skip contents hl = (Some (), body)" and
          c1: "(if tag AND CBS_ASN1_CONSTRUCTED \<noteq> 0
                then (case cbs_convert_ber M body (out_contents st out1) ct False (d + 1) of
                        (ok, _, c) \<Rightarrow> (ok, c))
                else CBB_add_bytes M (out_contents st out1) body) = (True, c1)" and
          f: "CBB_flush M (from_contents st out1 c1) = (True, o2)" and
          l: "cbs_convert_ber M inp1 o2 st l d = (True, inp', out')"
          by (auto split: prod.splits option.splits if_splits)
        have L: "converts M d inp1 o2 st inp' out'"
          using IH(4) [OF nd e [symmetric] refl refl refl 2 o [symmetric] refl okn False k [symmetric] refl
                    c1 [symmetric] _ f [symmetric] _ l] by blast
        show ?thesis
        proof (cases "tag AND CBS_ASN1_CONSTRUCTED = 0")
          case True
          with c1 have "CBB_add_bytes M (out_contents st out1) body = (True, c1)" by simp
          from converts_primitive [OF e o' True k this f L] show ?thesis .
        next
          case cons: False
          with c1 obtain i1 where c: "cbs_convert_ber M body (out_contents st out1) ct False (d + 1) = (True, i1, c1)"
            by (auto split: prod.splits)
          have "converts M (d + 1) body (out_contents st out1) ct i1 c1"
            by (rule IH(3) [OF nd e [symmetric] refl refl refl 2 o [symmetric] refl okn False k [symmetric] refl cons c])
          from converts_constructed [OF e o' False k this f L] show ?thesis .
        qed
      qed
    qed
  qed
qed

section \<open>What needs no conversion\<close>

text \<open>
  \<open>der_forest n w\<close>: \<open>w\<close> is a sequence of elements with definite, minimal lengths and without
  constructed strings, in which constructed elements are nested at most \<open>n\<close> deep.
\<close>

inductive der_forest :: "nat \<Rightarrow> u8 list \<Rightarrow> bool" where
  forest_Nil: "der_forest n []"
| forest_primitive: "tag AND CBS_ASN1_CONSTRUCTED = 0 \<Longrightarrow> length c < 2 ^ 32 \<Longrightarrow> der_forest n rest \<Longrightarrow>
    der_forest n (der_element tag c @ rest)"
| forest_constructed: "tag AND CBS_ASN1_CONSTRUCTED \<noteq> 0 \<Longrightarrow> \<not> is_string_type tag \<Longrightarrow>
    length c < 2 ^ 32 \<Longrightarrow> der_forest n c \<Longrightarrow> der_forest (Suc n) rest \<Longrightarrow>
    der_forest (Suc n) (der_element tag c @ rest)"

lemma ber_element_der:
  assumes "length c < 2 ^ 32"
  shows "CBS_get_any_ber_asn1_element (der_element tag c @ rest)
      = (Some (der_element tag c, tag, length (der_header tag (length c))), rest)"
    and "\<not> indefinite_element (der_element tag c) (length (der_header tag (length c)))"
proof -
  show "CBS_get_any_ber_asn1_element (der_element tag c @ rest)
      = (Some (der_element tag c, tag, length (der_header tag (length c))), rest)"
    unfolding CBS_get_any_ber_asn1_element_def by (rule cbs_get_any_asn1_element_der [OF assms])
  show "\<not> indefinite_element (der_element tag c) (length (der_header tag (length c)))"
  proof
    assume i: "indefinite_element (der_element tag c) (length (der_header tag (length c)))"
    then have "c = []" by (simp add: indefinite_element_def CBS_len_def der_element_eq)
    with i show False by (simp add: indefinite_element_def CBS_data_def der_element_eq der_length_def nth_append)
  qed
qed

lemma find_ber_forest:
  "der_forest n w \<Longrightarrow> d + n \<le> kMaxDepth \<Longrightarrow> find_ber_loop w False d = Some False"
proof (induction arbitrary: d rule: der_forest.induct)
  case (forest_Nil n)
  then show ?case by (simp add: find_ber_loop.simps CBS_len_def)
next
  case (forest_primitive tag c n rest)
  then show ?case
    using der_tag_length(1) [of tag] ber_element_der(1) [OF forest_primitive.hyps(2), of tag rest]
      ber_element_der(2) [OF forest_primitive.hyps(2), of tag] forest_primitive
    by (subst find_ber_loop.simps) (auto simp: CBS_len_def der_element_eq)
next
  case (forest_constructed tag c n rest)
  have "cbs_find_ber c (d + 1) = Some False"
    using forest_constructed.IH(1) [of "d + 1"] forest_constructed.prems by (simp add: cbs_find_ber.simps)
  moreover have "CBS_skip (der_element tag c) (length (der_header tag (length c))) = (Some (), c)"
    by (rule CBS_skip_header)
  ultimately show ?case
    using der_tag_length(1) [of tag] ber_element_der(1) [OF forest_constructed.hyps(3), of tag rest]
      ber_element_der(2) [OF forest_constructed.hyps(3), of tag]
      forest_constructed
    by (subst find_ber_loop.simps) (auto simp: CBS_len_def der_element_eq)
qed

lemma der_forest_append: "der_forest n v \<Longrightarrow> der_forest n w \<Longrightarrow> der_forest n (v @ w)"
  by (induction rule: der_forest.induct) (auto intro: der_forest.intros)

section \<open>The output of the conversion\<close>

lemma converts_depth: "converts M d inp out st inp' out' \<Longrightarrow> d \<le> kMaxDepth"
  by (induction rule: converts.induct) auto

lemma converts_shorter: "converts M d inp out st inp' out' \<Longrightarrow> length inp' \<le> length inp"
  by (induction rule: converts.induct) (auto dest!: element_shorter(1))

lemma primitive_string_tag:
  "is_string_type tag \<Longrightarrow> tag AND NOT CBS_ASN1_CONSTRUCTED \<noteq> 0
     \<and> (tag AND NOT CBS_ASN1_CONSTRUCTED) AND CBS_ASN1_CONSTRUCTED = 0"
  by (auto simp: is_string_type_def and.assoc CBS_ASN1_BITSTRING_def CBS_ASN1_OCTETSTRING_def
      CBS_ASN1_UTF8STRING_def CBS_ASN1_NUMERICSTRING_def CBS_ASN1_PRINTABLESTRING_def CBS_ASN1_T61STRING_def
      CBS_ASN1_VIDEOTEXSTRING_def CBS_ASN1_IA5STRING_def CBS_ASN1_GRAPHICSTRING_def
      CBS_ASN1_VISIBLESTRING_def CBS_ASN1_GENERALSTRING_def CBS_ASN1_UNIVERSALSTRING_def CBS_ASN1_BMPSTRING_def)

lemma convert_open_True:
  assumes M: "malloc_spec M" and out: "ready out b" "cbb_chain out = []"
    and o: "convert_open M out st tag = (True, ct, out1)"
  obtains (fragment) "st \<noteq> 0" "ct = st" "out1 = out"
  | (child) ot f where "st = 0" "opens out out1 (der_tag ot) f" "cbb_pending_is_asn1 f"
      "ct = 0 \<Longrightarrow> ot = tag \<and> (tag AND CBS_ASN1_CONSTRUCTED \<noteq> 0 \<longrightarrow> \<not> is_string_type tag)"
      "ct \<noteq> 0 \<Longrightarrow> ot AND CBS_ASN1_CONSTRUCTED = 0"
proof (cases "st = 0")
  case False
  with o show ?thesis by (intro fragment) (auto simp: convert_open_def)
next
  case True
  let ?s = "tag AND CBS_ASN1_CONSTRUCTED \<noteq> 0 \<and> is_string_type tag"
  define ot where "ot = (if ?s then tag AND NOT CBS_ASN1_CONSTRUCTED else tag)"
  from o True have a: "CBB_add_asn1 M out ot = (True, out1)" and ct: "ct = (if ?s then ot else 0)"
    unfolding ot_def by (auto simp: convert_open_def Let_def split: prod.splits if_splits)
  from CBB_add_asn1_opens [OF M out(1) a] obtain f where f: "opens out out1 (der_tag ot) f" "cbb_pending_is_asn1 f"
    by blast
  show ?thesis
  proof (rule child [OF True f])
    show "ot = tag \<and> (tag AND CBS_ASN1_CONSTRUCTED \<noteq> 0 \<longrightarrow> \<not> is_string_type tag)" if "ct = 0"
      using that primitive_string_tag [of tag] ct by (auto simp: ot_def)
    show "ot AND CBS_ASN1_CONSTRUCTED = 0" if "ct \<noteq> 0"
      using that primitive_string_tag [of tag] ct by (auto simp: ot_def split: if_splits)
  qed
qed

lemma out_contents_ready:
  assumes M: "malloc_spec M" and out: "ready out b" "cbb_chain out = []"
    and o: "convert_open M out st tag = (True, ct, out1)"
  shows "\<exists>b. ready (out_contents st out1) b" and "cbb_chain (out_contents st out1) = []"
proof -
  have "(\<exists>b. ready (out_contents st out1) b) \<and> cbb_chain (out_contents st out1) = []"
    using M out o
  proof (cases rule: convert_open_True)
    case fragment
    with out show ?thesis by (auto simp: out_contents_def)
  next
    case (child ot f)
    with opens_child_ready [OF child(2)] opens_child_chain [OF child(2)] show ?thesis
      by (simp add: out_contents_def)
  qed
  then show "\<exists>b. ready (out_contents st out1) b" "cbb_chain (out_contents st out1) = []" by blast+
qed

text \<open>One element of the output, given what was written for its contents.\<close>

lemma convert_close:
  assumes M: "malloc_spec M" and out: "ready out b" "cbb_chain out = []"
    and o: "convert_open M out st tag = (True, ct, out1)"
    and a: "appends (out_contents st out1) c w"
    and fl: "CBB_flush M (from_contents st out1 c) = (True, out2)"
  shows "\<exists>w'. appends out out2 w' \<and> cbb_chain out2 = [] \<and>
    (st = 0 \<longrightarrow> (\<exists>ot. w' = der_element ot w \<and> length w < 2 ^ 32
       \<and> (if ct = 0 then ot = tag \<and> (tag AND CBS_ASN1_CONSTRUCTED \<noteq> 0 \<longrightarrow> \<not> is_string_type tag)
          else ot AND CBS_ASN1_CONSTRUCTED = 0)))"
  using M out o
proof (cases rule: convert_open_True)
  case fragment
  then have a: "appends out c w" and fl: "CBB_flush M c = (True, out2)"
    using a fl by (simp_all add: out_contents_def from_contents_def)
  from a obtain b' where "ready c b'" using appends_ready by blast
  from CBB_flush_appends(2) [OF M this fl] appends_flush [OF M a fl] fragment show ?thesis by blast
next
  case (child ot f)
  then have a: "appends (CBB_child out1) c w" and fl: "CBB_flush M (CBB_return out1 c) = (True, out2)"
    using a fl by (simp_all add: out_contents_def from_contents_def)
  note e = element_close [OF M child(2,3) a fl]
  have "length w < 2 ^ 32" using e(2) by simp
  with e child(4,5) show ?thesis by (intro exI [of _ "der_element ot w"]) auto
qed

text \<open>One step of the conversion: an element is closed and the rest follows.\<close>

lemma converts_forest_step:
  assumes M: "malloc_spec M" and out: "ready out b" "cbb_chain out = []"
    and o: "convert_open M out st tag = (True, ct, out1)"
    and a: "appends (out_contents st out1) c w"
    and fl: "CBB_flush M (from_contents st out1 c) = (True, out2)"
    and w: "tag AND CBS_ASN1_CONSTRUCTED = 0 \<or> (d + 1 \<le> kMaxDepth \<and> (ct = 0 \<longrightarrow> der_forest (kMaxDepth - (d + 1)) w))"
    and IH: "\<And>b. ready out2 b \<Longrightarrow> cbb_chain out2 = [] \<Longrightarrow>
      \<exists>w. appends out2 out' w \<and> cbb_chain out' = [] \<and> (st = 0 \<longrightarrow> der_forest (kMaxDepth - d) w)"
  shows "\<exists>w. appends out out' w \<and> cbb_chain out' = [] \<and> (st = 0 \<longrightarrow> der_forest (kMaxDepth - d) w)"
proof -
  from convert_close [OF M out o a fl] obtain w1 where w1: "appends out out2 w1" "cbb_chain out2 = []"
    and e: "st = 0 \<longrightarrow> (\<exists>ot. w1 = der_element ot w \<and> length w < 2 ^ 32
       \<and> (if ct = 0 then ot = tag \<and> (tag AND CBS_ASN1_CONSTRUCTED \<noteq> 0 \<longrightarrow> \<not> is_string_type tag)
          else ot AND CBS_ASN1_CONSTRUCTED = 0))" by blast
  from w1(1) obtain b2 where "ready out2 b2" using appends_ready by blast
  from IH [OF this w1(2)] obtain w2 where
    w2: "appends out2 out' w2" "cbb_chain out' = []" "st = 0 \<longrightarrow> der_forest (kMaxDepth - d) w2" by blast
  have "der_forest (kMaxDepth - d) (w1 @ w2)" if st: "st = 0"
  proof -
    from e st obtain ot where ot: "w1 = der_element ot w" "length w < 2 ^ 32"
      "if ct = 0 then ot = tag \<and> (tag AND CBS_ASN1_CONSTRUCTED \<noteq> 0 \<longrightarrow> \<not> is_string_type tag)
       else ot AND CBS_ASN1_CONSTRUCTED = 0" by blast
    have f2: "der_forest (kMaxDepth - d) w2" using w2 st by simp
    show ?thesis
    proof (cases "ot AND CBS_ASN1_CONSTRUCTED = 0")
      case True
      from forest_primitive [OF True ot(2) f2] show ?thesis by (simp add: ot(1))
    next
      case False
      with ot(3) have ct: "ct = 0" "ot = tag" "\<not> is_string_type ot" by (auto split: if_splits)
      with w False have f1: "der_forest (kMaxDepth - (d + 1)) w" and d: "kMaxDepth - d = Suc (kMaxDepth - (d + 1))"
        by auto
      from forest_constructed [OF False ct(3) ot(2) f1] f2 show ?thesis unfolding d ot(1) by blast
    qed
  qed
  with w2 appends_trans [OF w1(1) w2(1)] show ?thesis by blast
qed

lemma converts_forest:
  assumes M: "malloc_spec M"
  shows "converts M d inp out st inp' out' \<Longrightarrow> ready out b \<Longrightarrow> cbb_chain out = [] \<Longrightarrow>
    length inp < 2 ^ 62 \<Longrightarrow>
    \<exists>w. appends out out' w \<and> cbb_chain out' = [] \<and> (st = 0 \<longrightarrow> der_forest (kMaxDepth - d) w)"
proof (induction arbitrary: b rule: converts.induct)
  case (converts_end d out st)
  then show ?case by (auto intro: appends_refl forest_Nil)
next
  case (converts_eoc d inp contents tag hl inp1 out st)
  then show ?case by (auto intro: appends_refl forest_Nil)
next
  case (converts_indefinite inp contents tag hl inp1 out st ct out1 d inp2 c out2 inp' out')
  note o = out_contents_ready [OF M converts_indefinite.prems(1,2) converts_indefinite.hyps(2)]
  have l1: "length inp1 < 2 ^ 62"
    using element_shorter(1) [OF converts_indefinite.hyps(1)] converts_indefinite.prems(3) by simp
  then have l2: "length inp2 < 2 ^ 62" using converts_shorter [OF converts_indefinite.hyps(3)] by simp
  from o(1) obtain b1 where "ready (out_contents st out1) b1" by blast
  from converts_indefinite.IH(1) [OF this o(2) l1] obtain w where
    w: "appends (out_contents st out1) c w" "ct = 0 \<longrightarrow> der_forest (kMaxDepth - (d + 1)) w" by blast
  show ?case
    by (rule converts_forest_step [OF M converts_indefinite.prems(1,2) converts_indefinite.hyps(2) w(1)
          converts_indefinite.hyps(4)])
      (use w(2) converts_depth [OF converts_indefinite.hyps(3)] converts_indefinite.IH(2) [OF _ _ l2] in blast)+
next
  case (converts_constructed inp contents tag hl inp1 out st ct out1 body d rest c out2 inp' out')
  note o = out_contents_ready [OF M converts_constructed.prems(1,2) converts_constructed.hyps(2)]
  have l1: "length inp1 < 2 ^ 62" and l2: "length body < 2 ^ 62"
    using element_shorter [OF converts_constructed.hyps(1)] converts_constructed.hyps(4)
      converts_constructed.prems(3) by fastforce+
  from o(1) obtain b1 where "ready (out_contents st out1) b1" by blast
  from converts_constructed.IH(1) [OF this o(2) l2] obtain w where
    w: "appends (out_contents st out1) c w" "ct = 0 \<longrightarrow> der_forest (kMaxDepth - (d + 1)) w" by blast
  show ?case
    by (rule converts_forest_step [OF M converts_constructed.prems(1,2) converts_constructed.hyps(2) w(1)
          converts_constructed.hyps(6)])
      (use w(2) converts_depth [OF converts_constructed.hyps(5)] converts_constructed.IH(2) [OF _ _ l1] in blast)+
next
  case (converts_primitive inp contents tag hl inp1 out st ct out1 body c out2 d inp' out')
  note o = out_contents_ready [OF M converts_primitive.prems(1,2) converts_primitive.hyps(2)]
  have l1: "length inp1 < 2 ^ 62" and l2: "length body < 2 ^ 62"
    using element_shorter [OF converts_primitive.hyps(1)] converts_primitive.hyps(4)
      converts_primitive.prems(3) by fastforce+
  from o(1) obtain b1 where b1: "ready (out_contents st out1) b1" by blast
  have w: "appends (out_contents st out1) c body"
    using CBB_add_bytes_appends [OF M b1 l2 converts_primitive.hyps(5)] by blast
  show ?case
    by (rule converts_forest_step [OF M converts_primitive.prems(1,2) converts_primitive.hyps(2) w
          converts_primitive.hyps(6)])
      (use converts_primitive.hyps(3) converts_primitive.IH [OF _ _ l1] in blast)+
qed

lemma ber_to_der_forest:
  assumes M: "malloc_spec M" and len: "length inp < 2 ^ 62"
    and r: "CBS_asn1_ber_to_der M inp = (Some (Some der, n), rest)"
  shows "der_forest kMaxDepth der" and "n = length der"
proof -
  from r obtain c c1 buf c2 where i: "CBB_init M (length inp) = (True, c)"
    and cv: "cbs_convert_ber M inp c 0 False 0 = (True, rest, c1)"
    and f: "CBB_finish M c1 False False = (Some (buf, n), c2)" and der: "der = take n buf"
    by (auto simp: CBS_asn1_ber_to_der_def CBS_len_def split: option.splits if_splits prod.splits bool.splits)
  have "length inp < size_t_end - 8" using len by simp
  from CBB_init_ready [OF M this i] obtain b where b: "ready c b" "CBB_bytes c = Some []" "cbb_chain c = []" by blast
  from converts_forest [OF M convert_ber_converts [OF cv] b(1,3) len] obtain w where
    w: "appends c c1 w" "der_forest kMaxDepth w" by auto
  from w(1) obtain b1 where "ready c1 b1" using appends_ready by blast
  note fb = CBB_finish_bytes [OF M this f]
  have "der = w" using fb(1) appends_bytes [OF w(1) b(2)] der by simp
  with w(2) show "der_forest kMaxDepth der" by simp
  show "n = length der" using fb(2) der by simp
qed

section \<open>Properties\<close>

text \<open>
  C17: Input that is DER already is left alone: for elements with minimal definite lengths, without
  constructed strings and nested at most 2048 deep, \<^verbatim>\<open>CBS_asn1_ber_to_der\<close> succeeds without an
  allocation, sets \<^verbatim>\<open>*out\<close> to NULL and \<^verbatim>\<open>*out_len\<close> to zero and does not consume the input.
\<close>

theorem ber_to_der_identity:
  assumes "der_forest n inp" and "n \<le> kMaxDepth"
  shows "CBS_asn1_ber_to_der M inp = (Some (None, 0), inp)"
  using find_ber_forest [OF assms(1), of 0] assms(2)
  by (simp add: CBS_asn1_ber_to_der_def cbs_find_ber.simps)

theorem ber_to_der_identity_witness:
  "CBS_asn1_ber_to_der (\<lambda>_. None) (der_element 0x20000010 (der_element 2 [5] @ []) @ [])
     = (Some (None, 0), der_element 0x20000010 (der_element 2 [5] @ []) @ [])"
  by (rule ber_to_der_identity [of "Suc 0", OF forest_constructed [OF _ _ _ forest_primitive [OF _ _ forest_Nil] forest_Nil]])
    (simp_all add: CBS_ASN1_CONSTRUCTED_def is_string_type_def string_tag_defs kMaxDepth_def der_element_def der_tag_def der_length_def)


end
