(* ===== verification/Libc.thy ===== *)
theory Libc
  imports Prelude "HOL-Library.Multiset"
begin

text \<open>
  The functions of the C library that are parameters of the development, with what their
  documentation promises: \<^verbatim>\<open>qsort\<close> and \<^verbatim>\<open>bsearch\<close> for a comparison function that is a total
  preorder on the elements. A comparison function returns a negative number, zero or a positive
  number. The insertion sort and the linear search at the end show that the promises can be kept.
\<close>

type_synonym 'a qsort = "('a \<Rightarrow> 'a \<Rightarrow> int) \<Rightarrow> 'a list \<Rightarrow> 'a list"
type_synonym 'a bsearch = "('a \<Rightarrow> 'a \<Rightarrow> int) \<Rightarrow> 'a \<Rightarrow> 'a list \<Rightarrow> nat option"

definition comparison_on :: "('a \<Rightarrow> 'a \<Rightarrow> int) \<Rightarrow> 'a set \<Rightarrow> bool" where
  "comparison_on cmp A \<longleftrightarrow>
     (\<forall>a \<in> A. \<forall>b \<in> A. (cmp a b \<le> 0 \<or> cmp b a \<le> 0) \<and> (cmp a b < 0 \<longleftrightarrow> \<not> cmp b a \<le> 0)
        \<and> (\<forall>c \<in> A. cmp a b \<le> 0 \<longrightarrow> cmp b c \<le> 0 \<longrightarrow> cmp a c \<le> 0))"

definition qsort_spec :: "'a qsort \<Rightarrow> bool" where
  "qsort_spec q \<longleftrightarrow>
     (\<forall>cmp xs. comparison_on cmp (set xs) \<longrightarrow>
        mset (q cmp xs) = mset xs \<and> sorted_wrt (\<lambda>a b. cmp a b \<le> 0) (q cmp xs))"

text \<open>
  \<^verbatim>\<open>bsearch\<close> expects the elements that compare less than the key before those equal to it and
  those before the greater ones, and finds any equal one.
\<close>

definition bsearch_spec :: "'a bsearch \<Rightarrow> bool" where
  "bsearch_spec f \<longleftrightarrow>
     (\<forall>cmp key xs.
        (\<forall>i j. i < j \<longrightarrow> j < length xs \<longrightarrow>
           (cmp key (xs ! i) < 0 \<longrightarrow> cmp key (xs ! j) < 0) \<and> (cmp key (xs ! i) = 0 \<longrightarrow> cmp key (xs ! j) \<le> 0)) \<longrightarrow>
        (case f cmp key xs of
           None \<Rightarrow> \<forall>x \<in> set xs. cmp key x \<noteq> 0
         | Some i \<Rightarrow> i < length xs \<and> cmp key (xs ! i) = 0))"

section \<open>Instances\<close>

fun insort_cmp :: "('a \<Rightarrow> 'a \<Rightarrow> int) \<Rightarrow> 'a \<Rightarrow> 'a list \<Rightarrow> 'a list" where
  "insort_cmp cmp x [] = [x]"
| "insort_cmp cmp x (y # ys) = (if cmp x y \<le> 0 then x # y # ys else y # insort_cmp cmp x ys)"

definition insertion_sort :: "'a qsort" where
  "insertion_sort cmp xs = foldr (insort_cmp cmp) xs []"

lemma mset_insort_cmp: "mset (insort_cmp cmp x ys) = add_mset x (mset ys)"
  by (induction ys) auto

lemma set_insort_cmp: "set (insort_cmp cmp x ys) = insert x (set ys)"
  by (induction ys) auto

lemma sorted_insort_cmp:
  "comparison_on cmp A \<Longrightarrow> x \<in> A \<Longrightarrow> set ys \<subseteq> A \<Longrightarrow> sorted_wrt (\<lambda>a b. cmp a b \<le> 0) ys \<Longrightarrow>
     sorted_wrt (\<lambda>a b. cmp a b \<le> 0) (insort_cmp cmp x ys)"
proof (induction ys)
  case (Cons y ys)
  then have t: "\<And>a b c. a \<in> A \<Longrightarrow> b \<in> A \<Longrightarrow> c \<in> A \<Longrightarrow> cmp a b \<le> 0 \<Longrightarrow> cmp b c \<le> 0 \<Longrightarrow> cmp a c \<le> 0"
    and tot: "\<And>a b. a \<in> A \<Longrightarrow> b \<in> A \<Longrightarrow> cmp a b \<le> 0 \<or> cmp b a \<le> 0"
    unfolding comparison_on_def by blast+
  show ?case
  proof (cases "cmp x y \<le> 0")
    case True
    have "cmp x z \<le> 0" if z: "z \<in> set ys" for z
      by (rule t [of x y z]) (use Cons.prems z True in auto)
    with True Cons.prems(4) show ?thesis by simp
  next
    case False
    then have "cmp y x \<le> 0" using tot [of x y] Cons.prems by auto
    with Cons False show ?thesis by (auto simp: set_insort_cmp)
  qed
qed simp

lemma insertion_sort_set: "set (insertion_sort cmp xs) = set xs"
  by (induction xs) (auto simp: insertion_sort_def set_insort_cmp)

lemma insertion_sort_spec: "qsort_spec insertion_sort"
  unfolding qsort_spec_def
proof (intro allI impI conjI)
  fix cmp and xs :: "'a list" assume c: "comparison_on cmp (set xs)"
  show "mset (insertion_sort cmp xs) = mset xs"
    by (induction xs) (simp_all add: insertion_sort_def mset_insort_cmp)
  have "set ys \<subseteq> set xs \<Longrightarrow> sorted_wrt (\<lambda>a b. cmp a b \<le> 0) (insertion_sort cmp ys)" for ys
  proof (induction ys)
    case (Cons y ys)
    then show ?case
      using sorted_insort_cmp [OF c, of y "insertion_sort cmp ys"] insertion_sort_set [of cmp ys]
      by (simp add: insertion_sort_def)
  qed (simp add: insertion_sort_def)
  then show "sorted_wrt (\<lambda>a b. cmp a b \<le> 0) (insertion_sort cmp xs)" by blast
qed

fun linear_search :: "'a bsearch" where
  "linear_search cmp key [] = None"
| "linear_search cmp key (x # xs) = (if cmp key x = 0 then Some 0 else map_option Suc (linear_search cmp key xs))"

lemma linear_search_spec: "bsearch_spec linear_search"
proof -
  have "case linear_search cmp key xs of
           None \<Rightarrow> \<forall>x \<in> set xs. cmp key x \<noteq> 0
         | Some i \<Rightarrow> i < length xs \<and> cmp key (xs ! i) = 0" for cmp and key :: 'a and xs
    by (induction xs) (auto split: option.splits)
  then show ?thesis by (simp add: bsearch_spec_def)
qed

end
