(* ===== verification/SetOf.thy ===== *)
theory SetOf
  imports CbbTotal Ber Libc "HOL-Library.List_Lexorder"
begin

text \<open>
  \<^verbatim>\<open>CBB_flush_asn1_set_of\<close> of \<^verbatim>\<open>crypto/bytestring/cbb.c\<close>: the elements of a SET OF are put into the
  order of their encodings. The \<^verbatim>\<open>qsort\<close> of the C library is a parameter (theory \<open>Libc\<close>).
\<close>

section \<open>Definitions\<close>

text \<open>\<^verbatim>\<open>memcmp\<close> returns a negative number, zero or a positive number.\<close>

fun memcmp :: "u8 list \<Rightarrow> u8 list \<Rightarrow> nat \<Rightarrow> int" where
  "memcmp (x # a) (y # b) (Suc n) = (if x < y then - 1 else if y < x then 1 else memcmp a b n)"
| "memcmp a b n = 0"

definition compare_set_of_element :: "CBS \<Rightarrow> CBS \<Rightarrow> int" where
  "compare_set_of_element a b =
     (let a_len = CBS_len a; b_len = CBS_len b;
          min_len = (if a_len < b_len then a_len else b_len);
          ret = memcmp (CBS_data a) (CBS_data b) min_len
      in if ret \<noteq> 0 then ret
         else if a_len = b_len then 0
         else if a_len < b_len then - 1 else 1)"

text \<open>
  The first pass counts the elements. It calls \<^verbatim>\<open>CBS_get_any_asn1_element\<close>, whose outputs it does
  not ask for; the second pass reads \<open>n\<close> elements.
\<close>

function count_elements :: "CBS \<Rightarrow> nat \<Rightarrow> nat option" where
  "count_elements cbs n =
     (if CBS_len cbs \<noteq> 0
      then (case CBS_get_any_asn1_element cbs of
              (None, _) \<Rightarrow> None
            | (Some _, cbs) \<Rightarrow> count_elements cbs (n + 1))
      else Some n)"
  by pat_completeness auto
termination
proof (relation "measure (\<lambda>(cbs, n). length cbs)", goal_cases)
  case (2 cbs n x y e)
  obtain out tag hl where "e = (out, tag, hl)" by (rule prod_cases3)
  with 2 have e: "cbs_get_any_asn1_element cbs False = (Some (out, tag, hl), y)"
    by (simp add: CBS_get_any_asn1_element_def)
  have "CBS_get_any_asn1_element cbs = (Some (out, tag, hl), y)" using e by (simp add: CBS_get_any_asn1_element_def)
  then obtain c where "out = der_element tag c" by (auto simp: CBS_get_any_asn1_element_iff)
  then have "2 \<le> length out" using der_header_length(1) [of tag "length c"] by (simp add: der_element_eq)
  with element_take(1) [OF e] show ?case by auto
qed simp

declare count_elements.simps [simp del]

fun get_elements :: "nat \<Rightarrow> CBS \<Rightarrow> CBS list option" where
  "get_elements 0 cbs = Some []"
| "get_elements (Suc n) cbs =
     (case CBS_get_any_asn1_element cbs of
        (None, _) \<Rightarrow> None
      | (Some (out, _, _), cbs) \<Rightarrow> map_option ((#) out) (get_elements n cbs))"

fun add_all :: "malloc \<Rightarrow> CBB \<Rightarrow> CBS list \<Rightarrow> bool \<times> CBB" where
  "add_all M cbb [] = (True, cbb)"
| "add_all M cbb (c # children) = cbb_then (CBB_add_bytes M cbb c) (\<lambda>cbb. add_all M cbb children)"

text \<open>
  \<^verbatim>\<open>sizeof(CBS)\<close> is 16. \<^verbatim>\<open>CBB_data\<close> and \<^verbatim>\<open>CBB_len\<close> are those of \<open>cbb\<close> after the flush; the contents
  are copied before \<^verbatim>\<open>cbb\<close> is rewound.
\<close>

definition CBB_flush_asn1_set_of :: "malloc \<Rightarrow> CBS qsort \<Rightarrow> CBB \<Rightarrow> bool \<times> CBB" where
  "CBB_flush_asn1_set_of M qsort cbb =
     cbb_then (CBB_flush M cbb)
       (\<lambda>cbb.
          case (CBB_data cbb, CBB_len cbb) of
            (Some data, Some buf_len) \<Rightarrow>
              (case count_elements (CBS_init data buf_len) 0 of
                 None \<Rightarrow> (False, cbb)
               | Some num_children \<Rightarrow>
                   if num_children < 2 then (True, cbb)
                   else if num_children > (size_t_end - 1) div 16 then (False, cbb)
                   else (case (BUF_memdup M data buf_len, OPENSSL_malloc M (size_mul num_children 16)) of
                           (Some buf, Some _) \<Rightarrow>
                             (case get_elements num_children (CBS_init buf buf_len) of
                                None \<Rightarrow> (False, cbb)
                              | Some children \<Rightarrow>
                                  add_all M
                                    (cbb\<lparr>cbb_base := map_option (\<lambda>base. base\<lparr>bb_len :=
                                           cbb_offset (cbb_self cbb) + cbb_pending_len_len (cbb_self cbb)\<rparr>)
                                         (cbb_base cbb)\<rparr>)
                                    (qsort compare_set_of_element children))
                         | _ \<Rightarrow> (False, cbb)))
          | _ \<Rightarrow> (False, cbb))"

section \<open>The order\<close>

lemma compare_simps:
  "compare_set_of_element [] [] = 0"
  "compare_set_of_element [] (y # b) = - 1"
  "compare_set_of_element (x # a) [] = 1"
  "compare_set_of_element (x # a) (y # b) =
     (if x < y then - 1 else if y < x then 1 else compare_set_of_element a b)"
  by (simp_all add: compare_set_of_element_def CBS_len_def CBS_data_def Let_def)

lemma compare_order:
  "(compare_set_of_element a b < 0 \<longleftrightarrow> a < b) \<and> (compare_set_of_element a b = 0 \<longleftrightarrow> a = b)"
proof (induction a arbitrary: b)
  case Nil
  show ?case by (cases b) (simp_all add: compare_simps)
next
  case (Cons x a)
  then show ?case by (cases b) (auto simp: compare_simps)
qed

lemma compare_le: "compare_set_of_element a b \<le> 0 \<longleftrightarrow> a \<le> b"
  using compare_order [of a b] by (auto simp: le_less)

lemma compare_comparison: "comparison_on compare_set_of_element A"
  unfolding comparison_on_def using compare_order by (auto simp: compare_le)

lemma qsort_sort: "qsort_spec q \<Longrightarrow> q compare_set_of_element xs = sort xs"
proof -
  assume "qsort_spec q"
  then have "mset (q compare_set_of_element xs) = mset xs"
    "sorted_wrt (\<lambda>a b. a \<le> b) (q compare_set_of_element xs)"
    using compare_comparison [of "set xs"] unfolding qsort_spec_def compare_le [symmetric] by blast+
  then show ?thesis by (simp add: properties_for_sort)
qed

section \<open>The passes over the contents\<close>

definition der_elements :: "CBS list \<Rightarrow> bool" where
  "der_elements cs \<longleftrightarrow> (\<forall>x \<in> set cs. \<exists>tag c. length c < 2 ^ 32 \<and> x = der_element tag c)"

lemma count_elements_Some:
  "count_elements cbs n = Some m \<Longrightarrow>
     \<exists>cs. der_elements cs \<and> cbs = concat cs \<and> m = n + length cs \<and> get_elements (length cs) cbs = Some cs"
proof (induction cbs n rule: count_elements.induct)
  case (1 cbs n)
  show ?case
  proof (cases "cbs = []")
    case True
    with 1(2) show ?thesis
      by (intro exI [of _ "[]"]) (simp add: count_elements.simps CBS_len_def der_elements_def)
  next
    case False
    with 1(2) obtain out tag hl rest where e: "CBS_get_any_asn1_element cbs = (Some (out, tag, hl), rest)"
      and c: "count_elements rest (n + 1) = Some m"
      by (subst (asm) count_elements.simps) (auto simp: CBS_len_def split: prod.splits option.splits)
    from e obtain c where "length c < 2 ^ 32" "out = der_element tag c" "cbs = out @ rest"
      by (auto simp: CBS_get_any_asn1_element_iff)
    moreover from 1(1) [OF _ e [symmetric] refl c] False obtain cs where "der_elements cs" "rest = concat cs"
      "m = n + 1 + length cs" "get_elements (length cs) rest = Some cs" by (auto simp: CBS_len_def)
    ultimately show ?thesis
      using e by (intro exI [of _ "out # cs"]) (auto simp: der_elements_def)
  qed
qed

lemma add_all_appends:
  assumes M: "malloc_spec M"
  shows "ready c b \<Longrightarrow> cbb_chain c = [] \<Longrightarrow> length (concat cs) < 2 ^ 62 \<Longrightarrow> add_all M c cs = (True, c') \<Longrightarrow>
    appends c c' (concat cs)"
proof (induction cs arbitrary: c b)
  case Nil
  then show ?case by (auto intro: appends_refl)
next
  case (Cons x cs)
  from Cons.prems(4) obtain c1 where a: "CBB_add_bytes M c x = (True, c1)" and l: "add_all M c1 cs = (True, c')"
    by (auto elim: cbb_thenE)
  have "length x < 2 ^ 62" using Cons.prems(3) by simp
  note a1 = CBB_add_bytes_appends [OF M Cons.prems(1) this a]
  then obtain b1 where "ready c1 b1" using appends_ready by blast
  with Cons.IH [OF this] a1 l Cons.prems(3) appends_trans [of c c1] show ?case by fastforce
qed

lemma BUF_memdup_take:
  assumes "malloc_spec M" and "BUF_memdup M d n = Some b" and "n \<le> length d" and "n < 2 ^ 62"
  shows "b = take n d"
proof -
  from assms(2) obtain r where r: "OPENSSL_malloc M n = Some r" "b = blit r 0 (take n d)"
    by (auto simp: BUF_memdup_def split: if_splits option.splits)
  then have "length r = n" using OPENSSL_malloc_length [OF assms(1) r(1)] assms(4) by simp
  with r(2) assms(3) show ?thesis by (simp add: blit_def)
qed

lemma length_concat_sort: "length (concat (sort cs)) = length (concat cs)"
  by (simp add: length_concat flip: sum_mset_sum_list)

lemma set_of_sorts:
  assumes M: "malloc_spec M" and q: "qsort_spec q" and c: "ready c b"
    and r: "CBB_flush_asn1_set_of M q c = (True, c')"
  shows "\<exists>p cs. CBB_bytes c = Some (p @ concat cs) \<and> der_elements cs \<and> length p = fields_end (cbb_self c)
    \<and> CBB_bytes c' = Some (p @ concat (sort cs))"
proof -
  from r obtain c0 where fl: "CBB_flush M c = (True, c0)"
    and r0: "(case (CBB_data c0, CBB_len c0) of
            (Some data, Some buf_len) \<Rightarrow>
              (case count_elements (CBS_init data buf_len) 0 of
                 None \<Rightarrow> (False, c0)
               | Some num_children \<Rightarrow>
                   if num_children < 2 then (True, c0)
                   else if num_children > (size_t_end - 1) div 16 then (False, c0)
                   else (case (BUF_memdup M data buf_len, OPENSSL_malloc M (size_mul num_children 16)) of
                           (Some buf, Some _) \<Rightarrow>
                             (case get_elements num_children (CBS_init buf buf_len) of
                                None \<Rightarrow> (False, c0)
                              | Some children \<Rightarrow>
                                  add_all M
                                    (c0\<lparr>cbb_base := map_option (\<lambda>base. base\<lparr>bb_len :=
                                           cbb_offset (cbb_self c0) + cbb_pending_len_len (cbb_self c0)\<rparr>)
                                         (cbb_base c0)\<rparr>)
                                    (q compare_set_of_element children))
                         | _ \<Rightarrow> (False, c0)))
          | _ \<Rightarrow> (False, c0)) = (True, c')"
    unfolding CBB_flush_asn1_set_of_def by (rule cbb_thenE)
  note a = CBB_flush_appends [OF M c fl]
  then obtain b0 where b0: "ready c0 b0" using appends_ready by blast
  have self: "cbb_self c0 = cbb_self c" using a by (simp add: appends_def)
  define st where "st = fields_end (cbb_self c)"
  have wf: "wf_buffer b0" and st: "st \<le> bb_len b0" "bb_len b0 < 2 ^ 62" "bb_len b0 \<le> length (bb_buf b0)"
    using b0 a(2) self by (auto simp: ready_def st_def wf_buffer_def)
  have D: "CBB_data c0 = Some (drop st (bb_buf b0))" and L: "CBB_len c0 = Some (bb_len b0 - st)"
    using b0 a(2) st self by (simp_all add: CBB_data_def CBB_len_def ready_def st_def fields_end_def Let_def)
  define w where "w = written b0"
  have wb: "CBB_bytes c0 = Some w" using CBB_bytes_no_child [OF b0 a(2)] by (simp add: w_def)
  then have wc: "CBB_bytes c = Some w" using a(1) by (auto simp: appends_def)
  have body: "CBS_init (drop st (bb_buf b0)) (bb_len b0 - st) = drop st w"
    using st by (simp add: CBS_init_def w_def written_def drop_take)
  from r0 D L body obtain n where n: "count_elements (drop st w) 0 = Some n"
    by (auto split: option.splits)
  from count_elements_Some [OF n] obtain cs where cs: "der_elements cs" "drop st w = concat cs" "n = length cs"
    "get_elements n (drop st w) = Some cs" by auto
  have p: "w = take st w @ concat cs" "length (take st w) = st"
    using cs(2) st wf length_written [OF wf] by (simp_all flip: w_def) (metis append_take_drop_id)
  show ?thesis
  proof (cases "n < 2")
    case True
    then have "sort cs = cs" using cs(3) by (cases cs rule: remdups_adj.cases) auto
    moreover have "c' = c0" using r0 D L body n True by simp
    ultimately show ?thesis using wb wc p cs(1) by (intro exI [of _ "take st w"] exI [of _ cs]) (simp add: st_def)
  next
    case False
    define c1 where "c1 = c0\<lparr>cbb_base := Some (b0\<lparr>bb_len := st\<rparr>)\<rparr>"
    from r0 D L body n False obtain buf where
      md: "BUF_memdup M (drop st (bb_buf b0)) (bb_len b0 - st) = Some buf" and
      g: "get_elements n (CBS_init buf (bb_len b0 - st)) \<noteq> None \<Longrightarrow>
        add_all M c1 (q compare_set_of_element (the (get_elements n (CBS_init buf (bb_len b0 - st))))) = (True, c')"
      using b0 self
      by (auto simp: c1_def st_def fields_end_def ready_def split: option.splits if_splits)
    have "bb_len b0 - st \<le> length (drop st (bb_buf b0))" and "bb_len b0 - st < 2 ^ 62" using st by simp_all
    from BUF_memdup_take [OF M md this] body have "CBS_init buf (bb_len b0 - st) = drop st w"
      using length_written [OF wf] by (simp add: CBS_init_def flip: w_def)
    with g cs(4) qsort_sort [OF q] have add: "add_all M c1 (sort cs) = (True, c')" by simp
    have r1: "ready c1 (b0\<lparr>bb_len := st\<rparr>)"
      using b0 a(2) st wf self by (simp add: c1_def ready_def wf_buffer_def st_def)
    have b1: "CBB_bytes c1 = Some (take st w)"
      using a(2) st by (simp add: c1_def CBB_bytes_def written_def w_def min_def)
    have "length (concat cs) < 2 ^ 62"
      using arg_cong [OF cs(2), of length] st length_written [OF wf] by (simp flip: w_def)
    then have "length (concat (sort cs)) < 2 ^ 62" by (simp add: length_concat_sort)
    from add_all_appends [OF M r1 _ this add] a(2) have "appends c1 c' (concat (sort cs))" by (simp add: c1_def)
    from appends_bytes [OF this b1] wc p cs(1) show ?thesis
      by (intro exI [of _ "take st w"] exI [of _ cs]) (simp add: st_def)
  qed
qed

section \<open>Success\<close>

lemma get_element_cons:
  assumes "der_elements (x # cs)"
  shows "\<exists>tag hl. CBS_get_any_asn1_element (x @ rest) = (Some (x, tag, hl), rest)"
    and "2 \<le> length x"
proof -
  from assms obtain tag c where x: "length c < 2 ^ 32" "x = der_element tag c" by (auto simp: der_elements_def)
  then have "CBS_get_any_asn1_element (x @ rest) = (Some (x, tag, length (der_header tag (length c))), rest)"
    unfolding CBS_get_any_asn1_element_iff by blast
  then show "\<exists>tag hl. CBS_get_any_asn1_element (x @ rest) = (Some (x, tag, hl), rest)" by blast
  show "2 \<le> length x" using der_header_length(1) [of tag "length c"] by (simp add: x(2) der_element_eq)
qed

lemma elements_concat:
  "der_elements cs \<Longrightarrow> count_elements (concat cs) n = Some (n + length cs)
     \<and> get_elements (length cs) (concat cs) = Some cs \<and> 2 * length cs \<le> length (concat cs)"
proof (induction cs arbitrary: n)
  case Nil
  show ?case by (simp add: count_elements.simps CBS_len_def)
next
  case (Cons x cs)
  from get_element_cons(1) [OF Cons.prems, of "concat cs"] obtain tag hl where
    e: "CBS_get_any_asn1_element (x @ concat cs) = (Some (x, tag, hl), concat cs)" by blast
  have "der_elements cs" using Cons.prems by (simp add: der_elements_def)
  note IH = Cons.IH [OF this, of "n + 1"]
  have "count_elements (x @ concat cs) n = count_elements (concat cs) (n + 1)"
    using e get_element_cons(2) [OF Cons.prems] by (subst count_elements.simps) (auto simp: CBS_len_def)
  then show ?case using IH e get_element_cons(2) [OF Cons.prems] by simp
qed

lemma add_all_live:
  assumes M: "malloc_total M"
  shows "live c w \<Longrightarrow> length w + length (concat cs) \<le> 2 ^ 60 \<Longrightarrow>
    \<exists>c'. add_all M c cs = (True, c') \<and> live c' (w @ concat cs)"
proof (induction cs arbitrary: c w)
  case Nil
  then show ?case by simp
next
  case (Cons x cs)
  have "length w + length x \<le> 2 ^ 60" using Cons.prems(2) by simp
  from CBB_add_bytes_live [OF M Cons.prems(1) this] obtain c1 where
    c1: "CBB_add_bytes M c x = (True, c1)" "live c1 (w @ x)" by blast
  from Cons.IH [OF c1(2)] Cons.prems(2) c1(1) show ?case by (auto simp: cbb_then_def)
qed

lemma BUF_memdup_total:
  assumes "malloc_total M" and "0 < n" and "n < 2 ^ 61" and "n \<le> length d"
  shows "BUF_memdup M d n = Some (take n d)"
proof -
  from OPENSSL_malloc_total [OF assms(1), of n] assms(3) obtain r where "OPENSSL_malloc M n = Some r" by auto
  then have "BUF_memdup M d n = Some (blit r 0 (take n d))" using assms(2) by (simp add: BUF_memdup_def)
  with BUF_memdup_take [OF malloc_total_spec [OF assms(1)] this] assms(3,4) show ?thesis by simp
qed

lemma set_of_live:
  assumes M: "malloc_total M" and q: "qsort_spec q" and c: "live c (p @ concat cs)" and cs: "der_elements cs"
    and p: "length p = fields_end (cbb_self c)" and len: "length (p @ concat cs) \<le> 2 ^ 58"
  shows "\<exists>c'. CBB_flush_asn1_set_of M q c = (True, c') \<and> live c' (p @ concat (sort cs))"
proof -
  have len60: "length (p @ concat cs) \<le> 2 ^ 60" using len by simp
  from CBB_flush_live' [OF M c len60] obtain c0 where
    fl: "CBB_flush M c = (True, c0)" and l0: "live c0 (p @ concat cs)" and ch: "cbb_chain c0 = []" by blast
  from l0 obtain b0 where b0: "ready c0 b0" "roomy b0" "CBB_bytes c0 = Some (p @ concat cs)" by (auto simp: live_def)
  then have w: "written b0 = p @ concat cs" using CBB_bytes_no_child [OF b0(1) ch] by simp
  have wf: "wf_buffer b0" using b0(2) by (simp add: roomy_def)
  have bl: "bb_len b0 = length p + length (concat cs)" "bb_len b0 \<le> length (bb_buf b0)"
    using length_written [OF wf] w wf by (simp_all add: wf_buffer_def)
  have self: "fields_end (cbb_self c0) = length p" using flush_self [OF fl] p by simp
  have D: "CBB_data c0 = Some (drop (length p) (bb_buf b0))" "CBB_len c0 = Some (length (concat cs))"
    using b0(1) ch bl self by (simp_all add: CBB_data_def CBB_len_def ready_def fields_end_def Let_def)
  have body: "take (length (concat cs)) (drop (length p) (bb_buf b0)) = concat cs"
    using arg_cong [OF w, of "drop (length p)"] bl by (simp add: written_def drop_take)
  note E = elements_concat [OF cs, of 0]
  show ?thesis
  proof (cases "length cs < 2")
    case True
    then have "sort cs = cs" by (cases cs rule: remdups_adj.cases) auto
    moreover have "CBB_flush_asn1_set_of M q c = (True, c0)"
      using fl D body E True by (simp add: CBB_flush_asn1_set_of_def cbb_then_def CBS_init_def)
    ultimately show ?thesis using l0 by simp
  next
    case False
    define c1 where "c1 = c0\<lparr>cbb_base := Some (b0\<lparr>bb_len := length p\<rparr>)\<rparr>"
    have l1: "live c1 p"
      using b0 ch bl self w
      by (auto simp: live_def c1_def ready_def roomy_def wf_buffer_def CBB_bytes_def written_def min_def
          dest: arg_cong [of _ _ "take (length p)"])
    have n: "length (concat (sort cs)) = length (concat cs)" by (rule length_concat_sort)
    from add_all_live [OF M l1, of "sort cs"] len n obtain c' where
      c': "add_all M c1 (sort cs) = (True, c')" "live c' (p @ concat (sort cs))" by auto
    have nz: "0 < length (concat cs)" using E False by linarith
    have small: "length (concat cs) < 2 ^ 61" "length (concat cs) \<le> 2 ^ 58" using len by simp_all
    have "BUF_memdup M (drop (length p) (bb_buf b0)) (length (concat cs)) = Some (concat cs)"
      using BUF_memdup_total [OF M nz small(1), of "drop (length p) (bb_buf b0)"] body bl by simp
    moreover have n16: "16 * length cs < 2 ^ 62 - 8" using E small(2) by simp
    then have "size_mul (length cs) 16 = 16 * length cs" by (simp add: size_mul_def)
    with OPENSSL_malloc_total [OF M n16] obtain r where "OPENSSL_malloc M (size_mul (length cs) 16) = Some r"
      by auto
    moreover have "\<not> (size_t_end - 1) div 16 < length cs" using n16 by simp
    moreover have "cbb_base c0 = Some b0" using b0(1) by (simp add: ready_def)
    ultimately have "CBB_flush_asn1_set_of M q c = add_all M c1 (sort cs)"
      using fl D body E False self qsort_sort [OF q]
      by (simp add: CBB_flush_asn1_set_of_def cbb_then_def CBS_init_def c1_def fields_end_def)
    with c' show ?thesis by simp
  qed
qed

section \<open>Properties\<close>

text \<open>
  C16: \<^verbatim>\<open>CBB_flush_asn1_set_of\<close> turns the contents of a SET OF into its distinguished form, for any C
  library \<^verbatim>\<open>qsort\<close> that sorts: it fails for contents that are not a sequence of DER elements, succeeds
  for every sequence of them when the allocator does not fail, and then the builder holds the same
  elements in ascending order of their encodings.
\<close>

theorem set_of_canonical:
  assumes "malloc_total M" and "qsort_spec q" and "live c (p @ body)"
    and "length p = fields_end (cbb_self c)" and "length (p @ body) \<le> 2 ^ 58"
  shows "(\<forall>cs. der_elements cs \<longrightarrow> body = concat cs \<longrightarrow>
            (\<exists>c'. CBB_flush_asn1_set_of M q c = (True, c') \<and> live c' (p @ concat (sort cs))))
    \<and> ((\<nexists>cs. der_elements cs \<and> body = concat cs) \<longrightarrow> fst (CBB_flush_asn1_set_of M q c) = False)"
proof (intro conjI allI impI)
  show "\<exists>c'. CBB_flush_asn1_set_of M q c = (True, c') \<and> live c' (p @ concat (sort cs))"
    if "der_elements cs" "body = concat cs" for cs
    using set_of_live [OF assms(1,2), of c p cs] assms(3-5) that by blast
next
  assume no: "\<nexists>cs. der_elements cs \<and> body = concat cs"
  show "fst (CBB_flush_asn1_set_of M q c) = False"
  proof (rule ccontr)
    assume "fst (CBB_flush_asn1_set_of M q c) \<noteq> False"
    then obtain c' where r: "CBB_flush_asn1_set_of M q c = (True, c')"
      by (cases "CBB_flush_asn1_set_of M q c") auto
    from assms(3) obtain b where b: "ready c b" "CBB_bytes c = Some (p @ body)" by (auto simp: live_def)
    from set_of_sorts [OF malloc_total_spec [OF assms(1)] assms(2) b(1) r] b(2) obtain pa cs where
      "p @ body = pa @ concat cs" "der_elements cs" "length pa = fields_end (cbb_self c)" by auto
    with assms(4) no show False by (metis append_eq_append_conv)
  qed
qed

text \<open>The elements 02 01 05 and 02 01 03, in this order.\<close>

theorem set_of_canonical_witness:
  "\<exists>c c' c''. CBB_init zero_malloc 0 = (True, c) \<and> CBB_add_bytes zero_malloc c [2, 1, 5, 2, 1, 3] = (True, c')
    \<and> CBB_flush_asn1_set_of zero_malloc insertion_sort c' = (True, c'') \<and> live c'' [2, 1, 3, 2, 1, 5]"
proof -
  let ?cs = "[[2, 1, 5], [2, 1, 3]] :: u8 list list"
  have e: "\<exists>tag c. length c < 2 ^ 32 \<and> [2, 1, x] = der_element tag c" for x
    by (rule exI [of _ 2], rule exI [of _ "[x]"]) (simp add: der_element_def der_tag_def der_length_def)
  have cs: "der_elements ?cs" "[2, 1, 5, 2, 1, 3] = concat ?cs" "concat (sort ?cs) = [2, 1, 3, 2, 1, 5]"
    using e [of 5] e [of 3] by (auto simp: der_elements_def)
  from CBB_init_live [OF zero_malloc_total, of 0] obtain c where
    c: "CBB_init zero_malloc 0 = (True, c)" "live c []" by auto
  from CBB_init_ready [OF zero_malloc_spec _ c(1)] obtain b where b: "ready c b" "fields_end (cbb_self c) = 0" by auto
  from CBB_add_bytes_live [OF zero_malloc_total c(2), of "[2, 1, 5, 2, 1, 3]"] obtain c' where
    c': "CBB_add_bytes zero_malloc c [2, 1, 5, 2, 1, 3] = (True, c')" "live c' ([] @ [2, 1, 5, 2, 1, 3])" by auto
  from CBB_add_bytes_appends [OF zero_malloc_spec b(1) _ c'(1)] b(2) have p: "length [] = fields_end (cbb_self c')"
    by (simp add: appends_def)
  note S = set_of_canonical [OF zero_malloc_total insertion_sort_spec c'(2) p, THEN conjunct1, rule_format, OF _ cs(1,2)]
  then obtain c'' where "CBB_flush_asn1_set_of zero_malloc insertion_sort c' = (True, c'')"
    "live c'' ([] @ concat (sort ?cs))" by auto
  with c(1) c'(1) show ?thesis unfolding cs(3) by auto
qed

end
