(* ===== verification/Oid.thy ===== *)
theory Oid
  imports CbbTotal
begin

text \<open>
  Object identifiers: \<^verbatim>\<open>CBS_asn1_oid_to_text\<close> of \<^verbatim>\<open>crypto/bytestring/cbs.c\<close> and
  \<^verbatim>\<open>CBB_add_asn1_oid_from_text\<close> of \<^verbatim>\<open>cbb.c\<close>, their reference meaning on lists of components and
  the proof that each inverts the other.
\<close>

section \<open>Definitions\<close>

text \<open>What \<^verbatim>\<open>BIO_snprintf\<close> writes for the format \<^verbatim>\<open>"%" PRIu64\<close>.\<close>

fun decimal :: "nat \<Rightarrow> u8 list" where
  "decimal n = (if n < 10 then [of_nat (48 + n)] else decimal (n div 10) @ [of_nat (48 + n mod 10)])"

declare decimal.simps [simp del]

definition add_decimal :: "malloc \<Rightarrow> CBB \<Rightarrow> u64 \<Rightarrow> bool \<times> CBB" where
  "add_decimal M out v = CBB_add_bytes M out (decimal (unat v))"

lemma parse_base128_loop_consumes:
  "parse_base128_loop v cbs = (r, rest) \<Longrightarrow> cbs \<noteq> [] \<Longrightarrow> length rest < length cbs"
proof (induction v cbs rule: parse_base128_loop.induct)
  case (2 v b cbs)
  then show ?case by (cases "cbs = []") (auto simp: Let_def split: if_splits)
qed simp

lemma parse_base128_integer_consumes:
  "parse_base128_integer cbs = (r, rest) \<Longrightarrow> cbs \<noteq> [] \<Longrightarrow> length rest < length cbs"
  by (simp add: parse_base128_integer_def parse_base128_loop_consumes)

text \<open>The loop over the components after the second, which writes to \<open>cbb\<close> what it reads from \<open>copy\<close>.\<close>

function oid_text_loop :: "malloc \<Rightarrow> CBS \<Rightarrow> CBB \<Rightarrow> bool \<times> CBB" where
  "oid_text_loop M copy cbb =
     (if CBS_len copy \<noteq> 0
      then (case parse_base128_integer copy of
              (None, _) \<Rightarrow> (False, cbb)
            | (Some v, copy) \<Rightarrow>
                cbb_then (CBB_add_u8 M cbb 46)
                  (\<lambda>cbb. case add_decimal M cbb v of
                           (ok, cbb) \<Rightarrow> if ok then oid_text_loop M copy cbb else (False, cbb)))
      else (True, cbb))"
  by pat_completeness auto
termination
  by (relation "measure (\<lambda>(M, copy, cbb). length copy)")
    (auto simp: CBS_len_def dest: parse_base128_integer_consumes [OF sym])

declare oid_text_loop.simps [simp del]

text \<open>The result is the \<^verbatim>\<open>txt_len\<close> bytes of the string that is returned, its terminator included.\<close>

definition CBS_asn1_oid_to_text :: "malloc \<Rightarrow> CBS \<Rightarrow> u8 list option" where
  "CBS_asn1_oid_to_text M cbs =
     (case CBB_init M 32 of
        (False, _) \<Rightarrow> None
      | (True, cbb) \<Rightarrow>
          (case parse_base128_integer cbs of
             (None, _) \<Rightarrow> None
           | (Some v, copy) \<Rightarrow>
               (case cbb_then
                       (if v \<ge> 80
                        then cbb_then (CBB_add_bytes M cbb [50, 46]) (\<lambda>cbb. add_decimal M cbb (v - 80))
                        else cbb_then (add_decimal M cbb (v div 40))
                               (\<lambda>cbb. cbb_then (CBB_add_u8 M cbb 46)
                                        (\<lambda>cbb. add_decimal M cbb (v mod 40))))
                       (\<lambda>cbb. cbb_then (oid_text_loop M copy cbb) (\<lambda>cbb. CBB_add_u8 M cbb 0)) of
                  (False, _) \<Rightarrow> None
                | (True, cbb) \<Rightarrow>
                    (case CBB_finish M cbb False False of
                       (None, _) \<Rightarrow> None
                     | (Some (txt, txt_len), _) \<Rightarrow> Some (take txt_len txt)))))"

definition UINT64_MAX :: u64 where "UINT64_MAX = 18446744073709551615"

fun parse_dotted_loop :: "u64 \<Rightarrow> bool \<Rightarrow> CBS \<Rightarrow> u64 cbs_result" where
  "parse_dotted_loop out seen_digit [] = (if seen_digit then Some out else None, [])"
| "parse_dotted_loop out seen_digit (u # cbs) =
     (if u = 46 \<and> CBS_len cbs > 0 then (if seen_digit then Some out else None, cbs)
      else if u < 48 \<or> u > 57 \<or> (seen_digit \<and> out = 0) \<or> out > UINT64_MAX div 10
              \<or> out * 10 > UINT64_MAX - (ucast u - 48)
           then (None, cbs)
      else parse_dotted_loop (out * 10 + (ucast u - 48)) True cbs)"

definition parse_dotted_decimal :: "CBS \<Rightarrow> u64 cbs_result" where
  "parse_dotted_decimal cbs = parse_dotted_loop 0 False cbs"

lemma parse_dotted_loop_consumes:
  "parse_dotted_loop v seen cbs = (r, rest) \<Longrightarrow> cbs \<noteq> [] \<Longrightarrow> length rest < length cbs"
proof (induction v seen cbs rule: parse_dotted_loop.induct)
  case (2 v seen u cbs)
  then show ?case by (cases "cbs = []") (auto split: if_splits)
qed simp

function oid_from_text_loop :: "malloc \<Rightarrow> CBS \<Rightarrow> CBB \<Rightarrow> bool \<times> CBB" where
  "oid_from_text_loop M cbs cbb =
     (if CBS_len cbs > 0
      then (case parse_dotted_decimal cbs of
              (None, _) \<Rightarrow> (False, cbb)
            | (Some a, cbs) \<Rightarrow>
                (case add_base128_integer M cbb a of
                   (ok, cbb) \<Rightarrow> if ok then oid_from_text_loop M cbs cbb else (False, cbb)))
      else (True, cbb))"
  by pat_completeness auto
termination
  by (relation "measure (\<lambda>(M, cbs, cbb). length cbs)")
    (auto simp: CBS_len_def parse_dotted_decimal_def dest: parse_dotted_loop_consumes [OF sym])

declare oid_from_text_loop.simps [simp del]

definition CBB_add_asn1_oid_from_text :: "malloc \<Rightarrow> CBB \<Rightarrow> u8 list \<Rightarrow> nat \<Rightarrow> bool \<times> CBB" where
  "CBB_add_asn1_oid_from_text M cbb txt len =
     cbb_then (CBB_flush M cbb)
       (\<lambda>cbb.
          case parse_dotted_decimal (CBS_init txt len) of
            (None, _) \<Rightarrow> (False, cbb)
          | (Some a, cbs) \<Rightarrow>
              (case parse_dotted_decimal cbs of
                 (None, _) \<Rightarrow> (False, cbb)
               | (Some b, cbs) \<Rightarrow>
                   if a > 2 \<or> (a < 2 \<and> b > 39) \<or> b > UINT64_MAX - 80 then (False, cbb)
                   else cbb_then (add_base128_integer M cbb (40 * a + b))
                          (\<lambda>cbb. oid_from_text_loop M cbs cbb)))"

section \<open>Reference meaning\<close>

text \<open>
  An object identifier is given by its subidentifiers; the first one holds the first two
  components. \<open>oid_octets\<close> is its encoding and \<open>oid_text\<close> its dotted decimal form.
\<close>

definition oid_octets :: "u64 list \<Rightarrow> u8 list" where
  "oid_octets vs = concat (map (\<lambda>v. base128 (unat v)) vs)"

definition dotted :: "u64 list \<Rightarrow> u8 list" where
  "dotted vs = concat (map (\<lambda>v. 46 # decimal (unat v)) vs)"

definition arc1 :: "nat \<Rightarrow> nat" where "arc1 n = (if n < 80 then n div 40 else 2)"
definition arc2 :: "nat \<Rightarrow> nat" where "arc2 n = (if n < 80 then n mod 40 else n - 80)"

definition oid_text :: "u64 \<Rightarrow> u64 list \<Rightarrow> u8 list" where
  "oid_text v vs = decimal (arc1 (unat v)) @ 46 # decimal (arc2 (unat v)) @ dotted vs"

section \<open>Decimal numbers\<close>

lemma unat_u64_less: "unat (v :: u64) < 2 ^ 64"
  using unsigned_less [of v, where ?'a = nat] by simp

lemma decimal_small: "n < 10 \<Longrightarrow> decimal n = [of_nat (48 + n)]"
  by (simp add: decimal.simps)

lemma decimal_snoc: "0 < n \<Longrightarrow> k < 10 \<Longrightarrow> decimal (n * 10 + k) = decimal n @ [of_nat (48 + k)]"
  by (simp add: decimal.simps [of "n * 10 + k"])

lemma decimal_nonempty [simp]: "decimal n \<noteq> []"
  by (simp add: decimal.simps [of n])

lemma digit_range: "\<not> (u < 48 \<or> u > (57 :: u8)) \<longleftrightarrow> (\<exists>k < 10. u = of_nat (48 + k))"
proof
  assume "\<not> (u < 48 \<or> u > 57)"
  then have u: "48 \<le> unat u" "unat u \<le> 57" by (simp_all add: word_less_nat_alt not_less)
  then have "u = of_nat (48 + (unat u - 48))" by simp
  with u show "\<exists>k < 10. u = of_nat (48 + k)" by (intro exI [of _ "unat u - 48"]) simp
next
  assume "\<exists>k < 10. u = of_nat (48 + k)"
  then obtain k where "k < 10" "u = of_nat (48 + k)" by blast
  then have "unat u = 48 + k" by (simp add: unat_of_nat_u8 del: of_nat_add)
  with \<open>k < 10\<close> show "\<not> (u < 48 \<or> u > 57)" by (simp add: word_less_nat_alt)
qed

lemma digit_overflow:
  assumes k: "k < 10"
  shows "(out > UINT64_MAX div 10 \<or> out * 10 > UINT64_MAX - of_nat k) \<longleftrightarrow> 2 ^ 64 \<le> unat out * 10 + k"
proof -
  have m: "unat UINT64_MAX = 2 ^ 64 - 1" by (simp add: UINT64_MAX_def)
  have d: "unat (UINT64_MAX div 10) = 1844674407370955161" by (simp add: unat_div UINT64_MAX_def)
  have uk: "unat (of_nat k :: u64) = k" using k by (intro unat_of_nat_u64) simp
  have s: "unat (UINT64_MAX - of_nat k) = 2 ^ 64 - 1 - k"
    using k by (subst unat_sub) (simp_all add: word_le_nat_alt m uk)
  show ?thesis
  proof (cases "out > UINT64_MAX div 10")
    case True
    then have "1844674407370955161 < unat out" by (simp only: word_less_nat_alt d)
    with True show ?thesis by simp
  next
    case False
    then have o: "unat out \<le> 1844674407370955161" by (simp only: word_less_nat_alt d not_less)
    then have "unat (out * 10) = unat out * 10" by (subst unat_mult_lem [THEN iffD1]) simp_all
    with False o k show ?thesis by (auto simp: word_less_nat_alt s)
  qed
qed

lemma parse_digit:
  assumes k: "k < 10"
  shows "parse_dotted_loop out seen (of_nat (48 + k) # cbs) =
    (if seen \<and> out = 0 \<or> 2 ^ 64 \<le> unat out * 10 + k then (None, cbs)
     else parse_dotted_loop (of_nat (unat out * 10 + k)) True cbs)"
proof -
  let ?u = "of_nat (48 + k) :: u8"
  have u: "unat ?u = 48 + k" using k by (intro unat_of_nat_u8) simp
  then have "?u \<noteq> 46" by (auto simp flip: unat_eq_0 simp: word_unat_eq_iff)
  moreover have "\<not> (?u < 48 \<or> ?u > 57)" using k by (subst digit_range) blast
  moreover have c: "(ucast ?u - 48 :: u64) = of_nat k" by (simp only: ucast_eq_of_nat u) simp
  moreover have "out * 10 + of_nat k = of_nat (unat out * 10 + k)" by simp
  ultimately show ?thesis
    unfolding parse_dotted_loop.simps c
    using digit_overflow [OF k, of out] by (auto simp del: of_nat_add of_nat_mult)
qed

lemma parse_dotted_loop_decimal:
  "n < 2 ^ 64 \<Longrightarrow> parse_dotted_loop 0 False (decimal n @ t) = parse_dotted_loop (of_nat n) True t"
proof (induction n arbitrary: t rule: decimal.induct)
  case (1 n)
  show ?case
  proof (cases "n < 10")
    case True
    then show ?thesis using parse_digit [OF True, of 0 False t] by (simp add: decimal_small)
  next
    case False
    let ?m = "n div 10" and ?k = "n mod 10"
    have m: "unat (of_nat ?m :: u64) = ?m" using 1(2) by (intro unat_of_nat_u64) simp
    have nz: "(of_nat ?m :: u64) \<noteq> 0"
    proof
      assume "(of_nat ?m :: u64) = 0"
      then have "?m = 0" using m by simp
      with False show False by simp
    qed
    have "decimal n @ t = decimal ?m @ of_nat (48 + ?k) # t" using False by (simp add: decimal.simps [of n])
    also have "parse_dotted_loop 0 False \<dots> = parse_dotted_loop (of_nat ?m) True (of_nat (48 + ?k) # t)"
      using 1 False by simp
    also have "\<dots> = parse_dotted_loop (of_nat n) True t"
      using parse_digit [of ?k "of_nat ?m" True t] 1(2) nz by (simp only: m div_mult_mod_eq) simp
    finally show ?thesis .
  qed
qed

lemma parse_dotted_loop_inv:
  "parse_dotted_loop out seen cbs = (Some v, rest) \<Longrightarrow> seen \<or> out = 0 \<Longrightarrow>
     (if seen then decimal (unat out) else []) @ cbs = decimal (unat v) @ (if rest = [] then [] else 46 # rest)"
proof (induction out seen cbs rule: parse_dotted_loop.induct)
  case (1 out seen)
  then show ?case by (simp split: if_splits)
next
  case (2 out seen u cbs)
  show ?case
  proof (cases "u = 46 \<and> CBS_len cbs > 0")
    case True
    with "2.prems" show ?thesis by (auto simp: CBS_len_def split: if_splits)
  next
    case False
    with "2.prems" have "\<not> (u < 48 \<or> u > 57)" by (simp split: if_splits)
    then obtain k where k: "k < 10" and u: "u = of_nat (48 + k)" by (auto simp only: digit_range)
    from "2.prems"(1)[unfolded u parse_digit [OF k]] have
      ok: "\<not> (seen \<and> out = 0)" "unat out * 10 + k < 2 ^ 64" and
      r: "parse_dotted_loop (of_nat (unat out * 10 + k)) True cbs = (Some v, rest)"
      by (auto split: if_splits)
    have n: "unat (of_nat (unat out * 10 + k) :: u64) = unat out * 10 + k" by (rule unat_of_nat_u64 [OF ok(2)])
    have step: "decimal (unat out * 10 + k) = (if seen then decimal (unat out) else []) @ [u]"
    proof (cases seen)
      case True
      with ok(1) have "0 < unat out" by (simp add: unat_gt_0)
      with True k show ?thesis by (simp only: u decimal_snoc if_True)
    next
      case False
      with k "2.prems"(2) show ?thesis by (simp add: u decimal_small del: of_nat_add)
    qed
    have "out * 10 + (ucast u - 48) = of_nat (unat out * 10 + k)"
    proof -
      have "unat u = 48 + k" unfolding u using k by (intro unat_of_nat_u8) simp
      then have "(ucast u - 48 :: u64) = of_nat k" by (simp only: ucast_eq_of_nat) simp
      then show ?thesis by simp
    qed
    then have IH: "decimal (unat out * 10 + k) @ cbs = decimal (unat v) @ (if rest = [] then [] else 46 # rest)"
      using "2.IH" [OF False] r "2.prems"(1) False n by (simp split: if_splits)
    then show ?thesis using step by simp
  qed
qed

lemma parse_dotted_decimal_iff:
  "parse_dotted_decimal cbs = (Some v, rest) \<longleftrightarrow>
     cbs = decimal (unat v) @ (if rest = [] then [] else 46 # rest)"
proof
  assume "parse_dotted_decimal cbs = (Some v, rest)"
  then show "cbs = decimal (unat v) @ (if rest = [] then [] else 46 # rest)"
    using parse_dotted_loop_inv [of 0 False cbs v rest] by (simp add: parse_dotted_decimal_def)
next
  assume cbs: "cbs = decimal (unat v) @ (if rest = [] then [] else 46 # rest)"
  show "parse_dotted_decimal cbs = (Some v, rest)"
    unfolding cbs parse_dotted_decimal_def parse_dotted_loop_decimal [OF unat_u64_less]
    by (simp add: CBS_len_def)
qed

section \<open>From text\<close>

lemma dotted_Cons: "dotted (v # vs) = 46 # decimal (unat v) @ dotted vs"
  by (simp add: dotted_def)

lemma dotted_head: "dotted vs = [] \<or> (\<exists>r. dotted vs = 46 # r \<and> r \<noteq> [])"
  by (cases vs) (simp_all add: dotted_def)

lemma parse_dotted_next:
  "parse_dotted_decimal (decimal (unat v) @ dotted vs) = (Some v, tl (dotted vs))"
  using dotted_head [of vs] by (auto simp: parse_dotted_decimal_iff)

lemma oid_octets_simps [simp]:
  "oid_octets [] = []"
  "oid_octets (v # vs) = base128 (unat v) @ oid_octets vs"
  by (simp_all add: oid_octets_def)

lemma oid_from_text_loop_appends:
  assumes M: "malloc_spec M"
  shows "oid_from_text_loop M cbs c = (True, c') \<Longrightarrow> ready c b \<Longrightarrow> cbb_chain c = [] \<Longrightarrow>
    \<exists>vs. (if cbs = [] then [] else 46 # cbs) = dotted vs \<and> appends c c' (oid_octets vs) \<and> cbb_chain c' = []"
proof (induction "length cbs" arbitrary: cbs c b rule: less_induct)
  case less
  show ?case
  proof (cases "cbs = []")
    case True
    with less.prems show ?thesis
      by (intro exI [of _ "[]"])
        (simp add: oid_from_text_loop.simps [of M "[]"] CBS_len_def dotted_def appends_refl)
  next
    case False
    with less.prems(1) obtain a rest c1 where p: "parse_dotted_decimal cbs = (Some a, rest)"
      and ad: "add_base128_integer M c a = (True, c1)" and l: "oid_from_text_loop M rest c1 = (True, c')"
      by (subst (asm) oid_from_text_loop.simps)
        (auto simp: CBS_len_def split: prod.splits option.splits if_splits)
    note a1 = add_base128_integer_appends [OF M less.prems(2,3) ad]
    then obtain b1 where b1: "ready c1 b1" using appends_ready by blast
    have "length rest < length cbs"
      using p False parse_dotted_loop_consumes [of 0 False cbs "Some a" rest] by (simp add: parse_dotted_decimal_def)
    from less.hyps [OF this l b1] a1 obtain vs where
      vs: "(if rest = [] then [] else 46 # rest) = dotted vs" "appends c1 c' (oid_octets vs)" "cbb_chain c' = []"
      by blast
    from p vs(1) have "46 # cbs = dotted (a # vs)" by (simp add: parse_dotted_decimal_iff dotted_Cons)
    with False vs a1 appends_trans [of c c1] show ?thesis
      by (intro exI [of _ "a # vs"]) fastforce
  qed
qed

lemma oid_from_text_loop_live:
  assumes M: "malloc_total M"
  shows "live c w \<Longrightarrow> cbb_chain c = [] \<Longrightarrow> length w + length (oid_octets vs) \<le> 2 ^ 60 \<Longrightarrow>
    \<exists>c'. oid_from_text_loop M (tl (dotted vs)) c = (True, c') \<and> live c' (w @ oid_octets vs)"
proof (induction vs arbitrary: c w)
  case Nil
  then show ?case by (simp add: oid_from_text_loop.simps CBS_len_def dotted_def)
next
  case (Cons v vs)
  from add_base128_integer_live [OF M Cons.prems(1,2), of v] Cons.prems(3) obtain c1 where
    c1: "add_base128_integer M c v = (True, c1)" "live c1 (w @ base128 (unat v))" "cbb_chain c1 = []" by auto
  from Cons.IH [OF c1(2,3)] Cons.prems(3) obtain c2 where
    c2: "oid_from_text_loop M (tl (dotted vs)) c1 = (True, c2)" "live c2 ((w @ base128 (unat v)) @ oid_octets vs)"
    by auto
  have "parse_dotted_decimal (tl (dotted (v # vs))) = (Some v, tl (dotted vs))"
    by (simp add: dotted_Cons parse_dotted_next)
  with c1(1) c2 show ?case
    by (subst oid_from_text_loop.simps) (simp add: CBS_len_def dotted_Cons)
qed

text \<open>The first two components and the first subidentifier determine each other.\<close>

lemma arcs:
  fixes v :: u64
  defines "a \<equiv> of_nat (arc1 (unat v)) :: u64" and "b \<equiv> of_nat (arc2 (unat v)) :: u64"
  shows "unat a = arc1 (unat v)" "unat b = arc2 (unat v)"
    and "\<not> (a > 2 \<or> (a < 2 \<and> b > 39) \<or> b > UINT64_MAX - 80)" and "40 * a + b = v"
proof -
  have v: "unat v < 2 ^ 64" by (rule unat_u64_less)
  show a: "unat a = arc1 (unat v)" unfolding a_def using v by (intro unat_of_nat_u64) (auto simp: arc1_def)
  show b: "unat b = arc2 (unat v)" unfolding b_def using v by (intro unat_of_nat_u64) (auto simp: arc2_def)
  have m: "unat (UINT64_MAX - 80) = 2 ^ 64 - 81" by (simp add: UINT64_MAX_def)
  show "\<not> (a > 2 \<or> (a < 2 \<and> b > 39) \<or> b > UINT64_MAX - 80)"
    using v unfolding word_less_nat_alt a b m by (auto simp: arc1_def arc2_def)
  have "40 * arc1 (unat v) + arc2 (unat v) = unat v"
    by (auto simp: arc1_def arc2_def mult.commute)
  then have "of_nat (40 * arc1 (unat v) + arc2 (unat v)) = v" by simp
  then show "40 * a + b = v" by (simp add: a_def b_def)
qed

lemma arcs_inv:
  fixes a b :: u64
  assumes "\<not> (a > 2 \<or> (a < 2 \<and> b > 39) \<or> b > UINT64_MAX - 80)"
  shows "arc1 (unat (40 * a + b)) = unat a" and "arc2 (unat (40 * a + b)) = unat b"
proof -
  have m: "unat (UINT64_MAX - 80) = 2 ^ 64 - 81" by (simp add: UINT64_MAX_def)
  have r: "unat a \<le> 2" "unat a < 2 \<Longrightarrow> unat b \<le> 39" "unat b \<le> 2 ^ 64 - 81"
    using assms unfolding word_less_nat_alt m by auto
  have "40 * a + b = of_nat (40 * unat a + unat b)" by simp
  moreover have "40 * unat a + unat b < 2 ^ 64" using r by simp
  ultimately have s: "unat (40 * a + b) = 40 * unat a + unat b" by (simp only: unat_of_nat_u64)
  from r(1) have "unat a = 0 \<or> unat a = 1 \<or> unat a = 2" by linarith
  with r s show "arc1 (unat (40 * a + b)) = unat a" "arc2 (unat (40 * a + b)) = unat b"
    by (auto simp: arc1_def arc2_def)
qed

lemma oid_from_text_appends:
  assumes M: "malloc_spec M" and c: "ready c b"
    and r: "CBB_add_asn1_oid_from_text M c txt len = (True, c')"
  shows "\<exists>v vs. take len txt = oid_text v vs \<and> appends c c' (oid_octets (v # vs))"
proof -
  from r obtain c0 x y r1 r2 c1 where fl: "CBB_flush M c = (True, c0)"
    and p1: "parse_dotted_decimal (take len txt) = (Some x, r1)"
    and p2: "parse_dotted_decimal r1 = (Some y, r2)"
    and g: "\<not> (x > 2 \<or> (x < 2 \<and> y > 39) \<or> y > UINT64_MAX - 80)"
    and ad: "add_base128_integer M c0 (40 * x + y) = (True, c1)"
    and l: "oid_from_text_loop M r2 c1 = (True, c')"
    unfolding CBB_add_asn1_oid_from_text_def CBS_init_def
    by (auto elim!: cbb_thenE split: prod.splits option.splits if_splits)
  note a0 = CBB_flush_appends [OF M c fl]
  then obtain b0 where b0: "ready c0 b0" using appends_ready by blast
  note a1 = add_base128_integer_appends [OF M b0 a0(2) ad]
  then obtain b1 where b1: "ready c1 b1" using appends_ready by blast
  from oid_from_text_loop_appends [OF M l b1] a1 obtain vs where
    vs: "(if r2 = [] then [] else 46 # r2) = dotted vs" "appends c1 c' (oid_octets vs)" by blast
  have "r1 \<noteq> []" using p2 by (auto simp: parse_dotted_decimal_iff)
  then have "take len txt = decimal (unat x) @ 46 # decimal (unat y) @ dotted vs"
    using p1 p2 vs(1) by (simp add: parse_dotted_decimal_iff)
  then have "take len txt = oid_text (40 * x + y) vs" by (simp add: oid_text_def arcs_inv [OF g])
  moreover have "appends c c' (oid_octets ((40 * x + y) # vs))"
    using appends_trans [OF a0(1) appends_trans [OF a1 [THEN conjunct1] vs(2)]] by simp
  ultimately show ?thesis by blast
qed

lemma oid_from_text_live:
  assumes M: "malloc_total M" and c: "live c w" and tx: "take len txt = oid_text v vs"
    and bound: "length w + length (oid_octets (v # vs)) \<le> 2 ^ 60"
  shows "\<exists>c'. CBB_add_asn1_oid_from_text M c txt len = (True, c') \<and> live c' (w @ oid_octets (v # vs))"
proof -
  define a b where "a = (of_nat (arc1 (unat v)) :: u64)" and "b = (of_nat (arc2 (unat v)) :: u64)"
  note A = arcs [of v, folded a_def b_def]
  from bound have "length w \<le> 2 ^ 60" by simp
  from CBB_flush_live' [OF M c this] obtain c0 where
    c0: "CBB_flush M c = (True, c0)" "live c0 w" "cbb_chain c0 = []" by blast
  from add_base128_integer_live [OF M c0(2,3), of v] bound obtain c1 where
    c1: "add_base128_integer M c0 v = (True, c1)" "live c1 (w @ base128 (unat v))" "cbb_chain c1 = []" by auto
  from oid_from_text_loop_live [OF M c1(2,3), of vs] bound obtain c2 where
    c2: "oid_from_text_loop M (tl (dotted vs)) c1 = (True, c2)" "live c2 (w @ oid_octets (v # vs))" by auto
  have p1: "parse_dotted_decimal (take len txt) = (Some a, decimal (unat b) @ dotted vs)"
    by (simp add: tx oid_text_def parse_dotted_decimal_iff A)
  have p2: "parse_dotted_decimal (decimal (unat b) @ dotted vs) = (Some b, tl (dotted vs))"
    by (rule parse_dotted_next)
  have "CBB_add_asn1_oid_from_text M c txt len = (True, c2)"
    unfolding CBB_add_asn1_oid_from_text_def CBS_init_def cbb_then_def c0(1) p1
    using A(3) by (simp add: p2 c1(1) c2(1) A(4))
  with c2(2) show ?thesis by blast
qed

section \<open>To text\<close>

lemma decimal_length: "n < 10 ^ Suc k \<Longrightarrow> length (decimal n) \<le> Suc k"
proof (induction n arbitrary: k rule: decimal.induct)
  case (1 n)
  show ?case
  proof (cases "n < 10")
    case True
    then show ?thesis by (simp add: decimal_small)
  next
    case False
    with "1.prems" obtain j where k: "k = Suc j" by (cases k) auto
    with "1.prems" have "n div 10 < 10 ^ Suc j" by (simp add: div_less_iff_less_mult mult.commute)
    from "1.IH" [OF False this] False k show ?thesis by (simp add: decimal.simps [of n])
  qed
qed

lemma decimal_u64_length: "length (decimal (unat (v :: u64))) \<le> 20"
  using decimal_length [of "unat v" 19] unat_u64_less [of v] by simp

lemma decimal_u64_small: "length (decimal (unat (v :: u64))) < 2 ^ 62"
  by (rule le_less_trans [OF decimal_u64_length]) simp

lemma add_decimal_appends:
  "malloc_spec M \<Longrightarrow> ready c b \<Longrightarrow> add_decimal M c v = (True, c') \<Longrightarrow>
     appends c c' (decimal (unat v)) \<and> cbb_chain c' = []"
  unfolding add_decimal_def by (rule CBB_add_bytes_appends [OF _ _ decimal_u64_small])

lemma oid_text_loop_appends:
  assumes M: "malloc_spec M"
  shows "oid_text_loop M cbs c = (True, c') \<Longrightarrow> ready c b \<Longrightarrow> cbb_chain c = [] \<Longrightarrow>
    \<exists>vs. cbs = oid_octets vs \<and> appends c c' (dotted vs)"
proof (induction "length cbs" arbitrary: cbs c b rule: less_induct)
  case less
  show ?case
  proof (cases "cbs = []")
    case True
    with less.prems show ?thesis
      by (intro exI [of _ "[]"])
        (simp add: oid_text_loop.simps [of M "[]"] CBS_len_def dotted_def appends_refl)
  next
    case False
    with less.prems(1) obtain v rest c1 c2 where p: "parse_base128_integer cbs = (Some v, rest)"
      and dot: "CBB_add_u8 M c 46 = (True, c1)" and d: "add_decimal M c1 v = (True, c2)"
      and l: "oid_text_loop M rest c2 = (True, c')"
      by (subst (asm) oid_text_loop.simps)
        (auto simp: CBS_len_def elim!: cbb_thenE split: prod.splits option.splits if_splits)
    note a1 = CBB_add_u8_appends [OF M less.prems(2) dot]
    then obtain b1 where b1: "ready c1 b1" using appends_ready by blast
    note a2 = add_decimal_appends [OF M b1 d]
    then obtain b2 where b2: "ready c2 b2" using appends_ready by blast
    from less.hyps [OF parse_base128_integer_consumes [OF p False] l b2] a2 obtain vs where
      vs: "rest = oid_octets vs" "appends c2 c' (dotted vs)" by blast
    have "cbs = oid_octets (v # vs)" using parse_base128_integer_canonical [OF p] vs(1) by simp
    moreover have "appends c c' (dotted (v # vs))"
      using appends_trans [OF appends_trans [OF a1 [THEN conjunct1] a2 [THEN conjunct1]] vs(2)]
      by (simp add: dotted_Cons)
    ultimately show ?thesis by blast
  qed
qed

lemma oid_text_loop_live:
  assumes M: "malloc_total M"
  shows "live c w \<Longrightarrow> length w + length (dotted vs) \<le> 2 ^ 60 \<Longrightarrow>
    \<exists>c'. oid_text_loop M (oid_octets vs) c = (True, c') \<and> live c' (w @ dotted vs)"
proof (induction vs arbitrary: c w)
  case Nil
  then show ?case by (simp add: oid_text_loop.simps CBS_len_def dotted_def)
next
  case (Cons v vs)
  from CBB_add_u8_live [OF M Cons.prems(1), of 46] Cons.prems(2) obtain c1 where
    c1: "CBB_add_u8 M c 46 = (True, c1)" "live c1 (w @ [46])" by (auto simp: dotted_Cons)
  from CBB_add_bytes_live [OF M c1(2), of "decimal (unat v)"] Cons.prems(2) obtain c2 where
    c2: "add_decimal M c1 v = (True, c2)" "live c2 ((w @ [46]) @ decimal (unat v))"
    by (auto simp: dotted_Cons add_decimal_def)
  from Cons.IH [OF c2(2)] Cons.prems(2) obtain c3 where
    c3: "oid_text_loop M (oid_octets vs) c2 = (True, c3)" "live c3 (w @ dotted (v # vs))"
    by (auto simp: dotted_Cons)
  have "base128 (unat v) \<noteq> []" by (simp add: base128_def)
  then show ?case
    using c1(1) c2(1) c3 parse_base128_integer_base128 [OF unat_u64_less [of v], of "oid_octets vs"]
    by (subst oid_text_loop.simps) (simp add: CBS_len_def cbb_then_def)
qed

text \<open>What the code writes for the first subidentifier.\<close>

abbreviation first_arcs :: "malloc \<Rightarrow> u64 \<Rightarrow> CBB \<Rightarrow> bool \<times> CBB" where
  "first_arcs M v cbb \<equiv>
     (if v \<ge> 80
      then cbb_then (CBB_add_bytes M cbb [50, 46]) (\<lambda>cbb. add_decimal M cbb (v - 80))
      else cbb_then (add_decimal M cbb (v div 40))
             (\<lambda>cbb. cbb_then (CBB_add_u8 M cbb 46) (\<lambda>cbb. add_decimal M cbb (v mod 40))))"

lemma first_arcs_numbers:
  "v \<ge> 80 \<Longrightarrow> arc1 (unat v) = 2 \<and> arc2 (unat v) = unat (v - 80)"
  "\<not> v \<ge> 80 \<Longrightarrow> arc1 (unat v) = unat (v div 40) \<and> arc2 (unat v) = unat (v mod 40)"
  for v :: u64
  by (auto simp: arc1_def arc2_def word_le_nat_alt unat_sub unat_div unat_mod)

lemma decimal_2: "decimal 2 = [50]"
  by (simp add: decimal_small)

lemma first_arcs_appends:
  assumes M: "malloc_spec M" and c: "ready c b" and r: "first_arcs M v c = (True, c')"
  shows "appends c c' (oid_text v []) \<and> cbb_chain c' = []"
proof (cases "v \<ge> 80")
  case True
  with r obtain c1 where a: "CBB_add_bytes M c [50, 46] = (True, c1)"
    and d: "add_decimal M c1 (v - 80) = (True, c')" by (auto elim: cbb_thenE)
  have "length [50, 46 :: u8] < 2 ^ 62" by simp
  note a1 = CBB_add_bytes_appends [OF M c this a]
  then obtain b1 where "ready c1 b1" using appends_ready by blast
  note a2 = add_decimal_appends [OF M this d]
  show ?thesis
    using appends_trans [OF a1 [THEN conjunct1] a2 [THEN conjunct1]] a2
    by (simp add: oid_text_def first_arcs_numbers(1) [OF True] decimal_2 dotted_def)
next
  case False
  with r obtain c1 c2 where d1: "add_decimal M c (v div 40) = (True, c1)"
    and dot: "CBB_add_u8 M c1 46 = (True, c2)" and d2: "add_decimal M c2 (v mod 40) = (True, c')"
    by (auto elim!: cbb_thenE)
  note a1 = add_decimal_appends [OF M c d1]
  then obtain b1 where b1: "ready c1 b1" using appends_ready by blast
  note a2 = CBB_add_u8_appends [OF M b1 dot]
  then obtain b2 where b2: "ready c2 b2" using appends_ready by blast
  note a3 = add_decimal_appends [OF M b2 d2]
  show ?thesis
    using appends_trans [OF appends_trans [OF a1 [THEN conjunct1] a2 [THEN conjunct1]] a3 [THEN conjunct1]] a3
    by (simp add: oid_text_def first_arcs_numbers(2) [OF False] dotted_def)
qed

lemma first_arcs_live:
  assumes M: "malloc_total M" and c: "live c []"
  shows "\<exists>c'. first_arcs M v c = (True, c') \<and> live c' (oid_text v [])"
proof (cases "v \<ge> 80")
  case True
  from CBB_add_bytes_live [OF M c, of "[50, 46]"] obtain c1 where
    c1: "CBB_add_bytes M c [50, 46] = (True, c1)" "live c1 [50, 46]" by auto
  from CBB_add_bytes_live [OF M c1(2), of "decimal (unat (v - 80))"] decimal_u64_length [of "v - 80"]
  obtain c2 where "add_decimal M c1 (v - 80) = (True, c2)" "live c2 ([50, 46] @ decimal (unat (v - 80)))"
    by (auto simp: add_decimal_def)
  with True c1 show ?thesis
    by (simp add: cbb_then_def oid_text_def first_arcs_numbers(1) [OF True] decimal_2 dotted_def)
next
  case False
  from CBB_add_bytes_live [OF M c, of "decimal (unat (v div 40))"] decimal_u64_length [of "v div 40"]
  obtain c1 where c1: "add_decimal M c (v div 40) = (True, c1)" "live c1 (decimal (unat (v div 40)))"
    by (auto simp: add_decimal_def)
  from CBB_add_u8_live [OF M c1(2), of 46] decimal_u64_length [of "v div 40"]
  obtain c2 where c2: "CBB_add_u8 M c1 46 = (True, c2)" "live c2 (decimal (unat (v div 40)) @ [46])"
    by auto
  from CBB_add_bytes_live [OF M c2(2), of "decimal (unat (v mod 40))"] decimal_u64_length [of "v div 40"]
    decimal_u64_length [of "v mod 40"]
  obtain c3 where "add_decimal M c2 (v mod 40) = (True, c3)"
    "live c3 ((decimal (unat (v div 40)) @ [46]) @ decimal (unat (v mod 40)))"
    by (auto simp: add_decimal_def)
  with False c1 c2 show ?thesis
    by (simp add: cbb_then_def oid_text_def first_arcs_numbers(2) [OF False] dotted_def)
qed

lemma oid_text_dotted: "oid_text v vs = oid_text v [] @ dotted vs"
  by (simp add: oid_text_def dotted_def)

lemma oid_to_text_sound:
  assumes M: "malloc_spec M" and r: "CBS_asn1_oid_to_text M cbs = Some t"
  shows "\<exists>v vs. cbs = oid_octets (v # vs) \<and> t = oid_text v vs @ [0]"
proof -
  from r obtain c v rest c1 c2 c3 str n c4 where i: "CBB_init M 32 = (True, c)"
    and p: "parse_base128_integer cbs = (Some v, rest)"
    and f: "first_arcs M v c = (True, c1)" and l: "oid_text_loop M rest c1 = (True, c2)"
    and z: "CBB_add_u8 M c2 0 = (True, c3)"
    and fin: "CBB_finish M c3 False False = (Some (str, n), c4)" and t: "t = take n str"
    unfolding CBS_asn1_oid_to_text_def
    by (auto elim!: cbb_thenE split: prod.splits option.splits bool.splits)
  obtain b where b: "ready c b" "CBB_bytes c = Some []" using CBB_init_ready [OF M _ i] by auto
  note a1 = first_arcs_appends [OF M b(1) f]
  then obtain b1 where b1: "ready c1 b1" using appends_ready by blast
  from oid_text_loop_appends [OF M l b1] a1 obtain vs where
    vs: "rest = oid_octets vs" "appends c1 c2 (dotted vs)" by blast
  then obtain b2 where b2: "ready c2 b2" using appends_ready by blast
  note a3 = CBB_add_u8_appends [OF M b2 z]
  then obtain b3 where b3: "ready c3 b3" using appends_ready by blast
  have "appends c c3 (oid_text v vs @ [0])"
    using appends_trans [OF appends_trans [OF a1 [THEN conjunct1] vs(2)] a3 [THEN conjunct1]]
    by (simp add: oid_text_dotted [of v vs])
  from appends_bytes [OF this b(2)] CBB_finish_bytes(1) [OF M b3 fin] t
  have "t = oid_text v vs @ [0]" by simp
  moreover have "cbs = oid_octets (v # vs)" using parse_base128_integer_canonical [OF p] vs(1) by simp
  ultimately show ?thesis by blast
qed

lemma oid_to_text_complete:
  assumes M: "malloc_total M" and len: "length (oid_text v vs) < 2 ^ 60"
  shows "CBS_asn1_oid_to_text M (oid_octets (v # vs)) = Some (oid_text v vs @ [0])"
proof -
  obtain c where c: "CBB_init M 32 = (True, c)" "live c []" "cbb_is_top_level (cbb_self c)"
    using CBB_init_live [OF M, of 32] by auto
  from first_arcs_live [OF M c(2), of v] obtain c1 where
    c1: "first_arcs M v c = (True, c1)" "live c1 (oid_text v [])" by blast
  from oid_text_loop_live [OF M c1(2), of vs] len obtain c2 where
    c2: "oid_text_loop M (oid_octets vs) c1 = (True, c2)" "live c2 (oid_text v vs)"
    by (auto simp: oid_text_dotted [of v vs])
  from CBB_add_u8_live [OF M c2(2), of 0] len obtain c3 where
    c3: "CBB_add_u8 M c2 0 = (True, c3)" "live c3 (oid_text v vs @ [0])" by auto
  have "cbb_self c3 = cbb_self c"
  proof -
    from c(2) obtain b where b: "ready c b" using live_ready by blast
    from c1(2) obtain b1 where b1: "ready c1 b1" using live_ready by blast
    from c2(2) obtain b2 where b2: "ready c2 b2" using live_ready by blast
    have "cbb_self c1 = cbb_self c"
      using first_arcs_appends [OF malloc_total_spec [OF M] b c1(1)] by (simp add: appends_def)
    moreover have "cbb_self c2 = cbb_self c1"
      using oid_text_loop_appends [OF malloc_total_spec [OF M] c2(1) b1]
        first_arcs_appends [OF malloc_total_spec [OF M] b c1(1)] by (auto simp: appends_def)
    moreover have "cbb_self c3 = cbb_self c2"
      using CBB_add_u8_appends [OF malloc_total_spec [OF M] b2 c3(1)] by (simp add: appends_def)
    ultimately show ?thesis by simp
  qed
  with CBB_finish_live [OF M c3(2)] c(3) len obtain str n c4 where
    fin: "CBB_finish M c3 False False = (Some (str, n), c4)" "take n str = oid_text v vs @ [0]" by auto
  have p: "parse_base128_integer (oid_octets (v # vs)) = (Some v, oid_octets vs)"
    using parse_base128_integer_base128 [OF unat_u64_less [of v], of "oid_octets vs"] by simp
  show ?thesis
    unfolding CBS_asn1_oid_to_text_def using c(1) c1(1) c2(1) c3(1) fin p by (simp add: cbb_then_def)
qed

section \<open>Properties\<close>

lemma oid_written:
  assumes M: "malloc_spec M" and i: "CBB_init M cap = (True, c)" "cap < 2 ^ 62"
    and a: "CBB_add_asn1_oid_from_text M c txt len = (True, c1)"
    and f: "CBB_finish M c1 False False = (Some (buf, n), c2)"
  shows "\<exists>v vs. take len txt = oid_text v vs \<and> take n buf = oid_octets (v # vs)"
proof -
  from CBB_init_ready [OF M _ i(1)] i(2) obtain b where b: "ready c b" "CBB_bytes c = Some []" by auto
  from oid_from_text_appends [OF M b(1) a] obtain v vs where
    v: "take len txt = oid_text v vs" "appends c c1 (oid_octets (v # vs))" by blast
  from v(2) obtain b1 where "ready c1 b1" using appends_ready by blast
  from CBB_finish_bytes(1) [OF M this f] appends_bytes [OF v(2) b(2)] have "take n buf = oid_octets (v # vs)"
    by simp
  with v(1) show ?thesis by blast
qed

text \<open>
  C18: An object identifier written from its dotted decimal text is printed back as that text: when
  \<^verbatim>\<open>CBB_add_asn1_oid_from_text\<close> accepts a text on a fresh builder, \<^verbatim>\<open>CBS_asn1_oid_to_text\<close> applied to
  what \<^verbatim>\<open>CBB_finish\<close> returns gives the text with its terminating NUL.
\<close>

theorem oid_text_round_trip:
  assumes "malloc_total M" and "cap < 2 ^ 62" and "length txt < 2 ^ 60"
    and "CBB_init M cap = (True, c)" and "CBB_add_asn1_oid_from_text M c txt (length txt) = (True, c1)"
    and "CBB_finish M c1 False False = (Some (buf, n), c2)"
  shows "CBS_asn1_oid_to_text M (take n buf) = Some (txt @ [0])"
  using oid_written [OF malloc_total_spec [OF assms(1)] assms(4,2,5,6)] oid_to_text_complete [OF assms(1)] assms(3)
  by auto

text \<open>The text 1.2.840 and its octets.\<close>

lemma oid_sample: "oid_text 42 [840] = [49, 46, 50, 46, 56, 52, 48]" "length (oid_octets [42, 840]) \<le> 2 ^ 60"
  by (simp_all add: oid_text_def arc1_def arc2_def dotted_def decimal.simps oid_octets_def base128_def
      base128_hi.simps)

theorem oid_text_round_trip_witness:
  "\<exists>c c1 c2 buf n. CBB_init zero_malloc 0 = (True, c)
    \<and> CBB_add_asn1_oid_from_text zero_malloc c (oid_text 42 [840]) 7 = (True, c1)
    \<and> CBB_finish zero_malloc c1 False False = (Some (buf, n), c2)
    \<and> CBS_asn1_oid_to_text zero_malloc (take n buf) = Some (oid_text 42 [840] @ [0])"
proof -
  from CBB_init_live [OF zero_malloc_total, of 0] obtain c where
    c: "CBB_init zero_malloc 0 = (True, c)" "live c []" "cbb_is_top_level (cbb_self c)" by auto
  have t: "take 7 (oid_text 42 [840]) = oid_text 42 [840]" "length (oid_text 42 [840]) = 7"
    by (simp_all add: oid_sample)
  from oid_from_text_live [OF zero_malloc_total c(2) t(1)] oid_sample(2) obtain c1 where
    c1: "CBB_add_asn1_oid_from_text zero_malloc c (oid_text 42 [840]) 7 = (True, c1)"
      "live c1 (oid_octets [42, 840])" by auto
  from c(2) obtain b where "ready c b" using live_ready by blast
  from oid_from_text_appends [OF zero_malloc_spec this c1(1)] c(3) have "cbb_is_top_level (cbb_self c1)"
    by (auto simp: appends_def)
  from CBB_finish_live [OF zero_malloc_total c1(2) oid_sample(2) this] obtain buf n c2 where
    f: "CBB_finish zero_malloc c1 False False = (Some (buf, n), c2)" by blast
  from oid_text_round_trip [OF zero_malloc_total _ _ c(1) c1(1) [folded t(2)] f] c(1) c1(1) f t(2)
  show ?thesis by auto
qed

text \<open>
  C19: The printer accepts exactly the encodings of object identifiers: with an allocator that does
  not fail, \<^verbatim>\<open>CBS_asn1_oid_to_text\<close> returns a text if and only if the input is a nonempty sequence of
  minimal base-128 numbers below 2 to the 64, and the text is their dotted decimal form with the
  first number split into two components.
\<close>

theorem oid_to_text_exact:
  assumes "malloc_total M" and "length t < 2 ^ 60"
  shows "CBS_asn1_oid_to_text M cbs = Some t \<longleftrightarrow>
    (\<exists>v vs. cbs = oid_octets (v # vs) \<and> t = oid_text v vs @ [0])"
  using oid_to_text_sound [OF malloc_total_spec [OF assms(1)], of cbs t]
    oid_to_text_complete [OF assms(1)] assms(2) by auto

theorem oid_to_text_exact_witness:
  "CBS_asn1_oid_to_text zero_malloc (oid_octets [42, 840]) = Some (oid_text 42 [840] @ [0])"
proof -
  have "length (oid_text 42 [840] @ [0]) < 2 ^ 60" by (simp add: oid_sample)
  from oid_to_text_exact [OF zero_malloc_total this] show ?thesis by blast
qed

end
