(* ===== verification/ConstTime.thy ===== *)
theory ConstTime
  imports Prelude
begin

text \<open>
  The constant-time helpers of \<^verbatim>\<open>crypto/internal.h\<close> on the 64-bit \<^verbatim>\<open>crypto_word_t\<close> and the two
  range tests of \<^verbatim>\<open>crypto/base64/base64.c\<close>, with the branching functions they stand for.
\<close>

section \<open>Definitions\<close>

definition CONSTTIME_TRUE_W :: u64 where "CONSTTIME_TRUE_W = NOT 0"
definition CONSTTIME_FALSE_W :: u64 where "CONSTTIME_FALSE_W = 0"

definition constant_time_msb_w :: "u64 \<Rightarrow> u64" where
  "constant_time_msb_w a = 0 - drop_bit (8 * 8 - 1) a"

definition constant_time_lt_w :: "u64 \<Rightarrow> u64 \<Rightarrow> u64" where
  "constant_time_lt_w a b = constant_time_msb_w (a XOR ((a XOR b) OR ((a - b) XOR a)))"

definition constant_time_lt_8 :: "u64 \<Rightarrow> u64 \<Rightarrow> u8" where
  "constant_time_lt_8 a b = ucast (constant_time_lt_w a b)"

definition constant_time_ge_w :: "u64 \<Rightarrow> u64 \<Rightarrow> u64" where
  "constant_time_ge_w a b = NOT (constant_time_lt_w a b)"

definition constant_time_ge_8 :: "u64 \<Rightarrow> u64 \<Rightarrow> u8" where
  "constant_time_ge_8 a b = ucast (constant_time_ge_w a b)"

definition constant_time_is_zero_w :: "u64 \<Rightarrow> u64" where
  "constant_time_is_zero_w a = constant_time_msb_w (NOT a AND (a - 1))"

definition constant_time_is_zero_8 :: "u64 \<Rightarrow> u8" where
  "constant_time_is_zero_8 a = ucast (constant_time_is_zero_w a)"

definition constant_time_eq_w :: "u64 \<Rightarrow> u64 \<Rightarrow> u64" where
  "constant_time_eq_w a b = constant_time_is_zero_w (a XOR b)"

definition constant_time_eq_8 :: "u64 \<Rightarrow> u64 \<Rightarrow> u8" where
  "constant_time_eq_8 a b = ucast (constant_time_eq_w a b)"

text \<open>An \<^verbatim>\<open>int\<close> is a 32-bit word read as a signed number; its conversion to the unsigned word extends the sign.\<close>

definition constant_time_eq_int :: "32 word \<Rightarrow> 32 word \<Rightarrow> u64" where
  "constant_time_eq_int a b = constant_time_eq_w (scast a) (scast b)"

definition constant_time_eq_int_8 :: "32 word \<Rightarrow> 32 word \<Rightarrow> u8" where
  "constant_time_eq_int_8 a b = constant_time_eq_8 (scast a) (scast b)"

definition constant_time_select_w :: "u64 \<Rightarrow> u64 \<Rightarrow> u64 \<Rightarrow> u64" where
  "constant_time_select_w m a b = (m AND a) OR (NOT m AND b)"

definition constant_time_select_8 :: "u8 \<Rightarrow> u8 \<Rightarrow> u8 \<Rightarrow> u8" where
  "constant_time_select_8 m a b = ucast (constant_time_select_w (ucast m) (ucast a) (ucast b))"

definition constant_time_select_int :: "u64 \<Rightarrow> 32 word \<Rightarrow> 32 word \<Rightarrow> 32 word" where
  "constant_time_select_int m a b = ucast (constant_time_select_w m (scast a) (scast b))"

definition constant_time_lt_args_8 :: "u8 \<Rightarrow> u8 \<Rightarrow> u8" where
  "constant_time_lt_args_8 a b = ucast (constant_time_msb_w (ucast a - ucast b))"

definition constant_time_in_range_8 :: "u8 \<Rightarrow> u8 \<Rightarrow> u8 \<Rightarrow> u8" where
  "constant_time_in_range_8 a lo hi = constant_time_lt_args_8 (a - lo) (hi - lo + 1)"

section \<open>Masks\<close>

lemma bit_top: "bit (a :: u64) 63 \<longleftrightarrow> 2 ^ 63 \<le> unat a"
proof -
  have a: "unat a < 2 ^ 64" using unsigned_less [of a, where ?'a = nat] by simp
  have "bit a 63 \<longleftrightarrow> bit (unat a) 63" by (simp add: bit_unsigned_iff)
  also have "\<dots> \<longleftrightarrow> odd (unat a div 2 ^ 63)" by (rule bit_iff_odd)
  also have "\<dots> \<longleftrightarrow> 2 ^ 63 \<le> unat a"
  proof (cases "2 ^ 63 \<le> unat a")
    case True
    then have "unat a div 2 ^ 63 = 1" using a by (intro div_nat_eqI) simp_all
    with True show ?thesis by simp
  qed simp
  finally show ?thesis .
qed

lemma msb_w: "constant_time_msb_w a = (if bit a 63 then NOT 0 else 0)"
proof -
  have "unat (drop_bit 63 a) = (if bit a 63 then 1 else 0)"
  proof -
    have a: "unat a < 2 ^ 64" using unsigned_less [of a, where ?'a = nat] by simp
    show ?thesis
    proof (cases "2 ^ 63 \<le> unat a")
      case True
      then have "unat a div 2 ^ 63 = 1" using a by (intro div_nat_eqI) simp_all
      with True show ?thesis by (simp only: unat_drop_bit bit_top) simp
    next
      case False
      then show ?thesis by (simp only: unat_drop_bit bit_top) simp
    qed
  qed
  then have "drop_bit 63 a = (if bit a 63 then 1 else 0)"
    by (intro unsigned_word_eqI [where ?'a = nat]) simp
  then show ?thesis by (simp add: constant_time_msb_w_def)
qed

lemma sub_top:
  assumes "bit a 63 = bit b 63"
  shows "bit (a - b :: u64) 63 \<longleftrightarrow> a < b"
proof -
  have a: "unat a < 2 ^ 64" "unat b < 2 ^ 64"
    using unsigned_less [of a, where ?'a = nat] unsigned_less [of b, where ?'a = nat] by simp_all
  show ?thesis
  proof (cases "a < b")
    case True
    then have lt: "unat a < unat b" by (simp only: word_less_nat_alt)
    have "unat (a - b) = 2 ^ 64 + unat a - unat b"
      using unat_sub_if' [of a b] lt by simp
    moreover have "2 ^ 63 \<le> 2 ^ 64 + unat a - unat b"
      using assms [unfolded bit_top] a lt by (cases "2 ^ 63 \<le> unat a") auto
    ultimately show ?thesis using True by (simp only: bit_top)
  next
    case False
    then have "unat (a - b) = unat a - unat b" by (simp add: unat_sub not_less)
    moreover have "\<not> 2 ^ 63 \<le> unat a - unat b"
      using assms [unfolded bit_top] a by (cases "2 ^ 63 \<le> unat a") auto
    ultimately show ?thesis using False by (simp only: bit_top)
  qed
qed

lemma lt_w: "constant_time_lt_w a b = (if a < b then CONSTTIME_TRUE_W else CONSTTIME_FALSE_W)"
proof -
  have "bit (a XOR ((a XOR b) OR ((a - b) XOR a))) 63 \<longleftrightarrow> a < b"
  proof (cases "bit a 63 = bit b 63")
    case True
    with sub_top [OF True] show ?thesis by (auto simp: bit_simps)
  next
    case False
    then have "bit b 63 \<longleftrightarrow> a < b" unfolding bit_top word_less_nat_alt by linarith
    with False show ?thesis by (auto simp: bit_simps)
  qed
  then show ?thesis by (simp add: constant_time_lt_w_def msb_w CONSTTIME_TRUE_W_def CONSTTIME_FALSE_W_def)
qed

lemma ge_w: "constant_time_ge_w a b = (if a \<ge> b then CONSTTIME_TRUE_W else CONSTTIME_FALSE_W)"
  by (auto simp: constant_time_ge_w_def lt_w CONSTTIME_TRUE_W_def CONSTTIME_FALSE_W_def)

lemma is_zero_w: "constant_time_is_zero_w a = (if a = 0 then CONSTTIME_TRUE_W else CONSTTIME_FALSE_W)"
proof -
  have "bit (NOT a AND (a - 1)) 63 \<longleftrightarrow> a = 0"
  proof (cases "a = 0")
    case True
    then show ?thesis by (simp add: bit_simps)
  next
    case False
    then have "0 < unat a" by (simp add: unat_gt_0)
    moreover have "unat (a - 1) = unat a - 1" using False by (simp add: unat_minus_one)
    ultimately have "bit (a - 1) 63 \<Longrightarrow> bit a 63" by (simp add: bit_top)
    with False show ?thesis by (auto simp: bit_simps)
  qed
  then show ?thesis by (simp add: constant_time_is_zero_w_def msb_w CONSTTIME_TRUE_W_def CONSTTIME_FALSE_W_def)
qed

lemma eq_w: "constant_time_eq_w a b = (if a = b then CONSTTIME_TRUE_W else CONSTTIME_FALSE_W)"
proof -
  have "a = b" if "a XOR b = 0"
  proof -
    have "a = (a XOR b) XOR b" by (simp add: xor.assoc)
    also have "\<dots> = b" by (simp add: that)
    finally show ?thesis .
  qed
  then have "a XOR b = 0 \<longleftrightarrow> a = b" by auto
  then show ?thesis by (simp add: constant_time_eq_w_def is_zero_w)
qed

lemma select_w:
  "constant_time_select_w CONSTTIME_TRUE_W a b = a"
  "constant_time_select_w CONSTTIME_FALSE_W a b = b"
  by (simp_all add: constant_time_select_w_def CONSTTIME_TRUE_W_def CONSTTIME_FALSE_W_def)

text \<open>The 8-bit versions return the mask cut to a byte.\<close>

lemma u8_ff: "(0xff :: u8) = NOT 0"
proof -
  have "(0xff :: u8) + 1 = 0" by simp
  then show ?thesis by (simp only: eq_neg_iff_add_eq_0 bit.compl_zero)
qed

lemma ucast_ones: "(ucast (NOT 0 :: u64) :: u8) = 0xff"
  unfolding u8_ff by (rule bit_word_eqI) (simp add: bit_simps)

lemma masks_u8:
  "(ucast CONSTTIME_TRUE_W :: u8) = 0xff" "(ucast CONSTTIME_FALSE_W :: u8) = 0"
  unfolding CONSTTIME_TRUE_W_def CONSTTIME_FALSE_W_def by (rule ucast_ones) simp

lemma eq_8: "constant_time_eq_8 a b = (if a = b then 0xff else 0)"
  by (simp add: constant_time_eq_8_def eq_w masks_u8)

lemma unat_ucast_u8_u64 [simp]: "unat (ucast (b :: u8) :: u64) = unat b"
proof -
  have "unat b < 2 ^ LENGTH(64)" by (rule less_le_trans [OF unat_u8_less]) simp
  then show ?thesis by (simp only: unsigned_ucast_eq take_bit_nat_eq_self)
qed

lemma ucast_u8_u64_less: "(ucast a :: u64) < ucast b \<longleftrightarrow> a < (b :: u8)"
  by (simp add: word_less_nat_alt)

lemma lt_args_8: "constant_time_lt_args_8 a b = (if a < b then 0xff else 0)"
proof -
  have a: "unat a < 2 ^ 63" for a :: u8 by (rule less_le_trans [OF unat_u8_less]) simp
  have "\<not> bit (ucast a :: u64) 63" for a :: u8 using a [of a] by (simp only: bit_top unat_ucast_u8_u64 not_le)
  then have "bit (ucast a - ucast b :: u64) 63 \<longleftrightarrow> a < b" by (subst sub_top) (simp_all add: ucast_u8_u64_less)
  then show ?thesis using ucast_ones by (simp add: constant_time_lt_args_8_def msb_w)
qed

lemma in_range_8:
  assumes "lo \<le> hi" and "hi - lo < 255"
  shows "constant_time_in_range_8 a lo hi = (if lo \<le> a \<and> a \<le> hi then 0xff else 0)"
proof -
  have d: "unat (hi - lo) = unat hi - unat lo" using assms(1) by (rule unat_sub)
  then have d1: "unat (hi - lo + 1) = unat hi - unat lo + 1"
    using assms(2) by (simp add: word_less_nat_alt unat_word_ariths)
  have "a - lo < hi - lo + 1 \<longleftrightarrow> lo \<le> a \<and> a \<le> hi"
  proof (cases "lo \<le> a")
    case True
    then have "unat (a - lo) = unat a - unat lo" by (rule unat_sub)
    with True assms(1) d1 show ?thesis by (auto simp: word_less_nat_alt word_le_nat_alt)
  next
    case False
    then have "unat (a - lo) = 256 + unat a - unat lo" using unat_sub_if' [of a lo] by (simp add: word_le_nat_alt)
    then have "\<not> unat (a - lo) < unat (hi - lo + 1)"
      using unat_u8_less [of hi] assms(1) unfolding d1 word_le_nat_alt by linarith
    with False show ?thesis by (simp add: word_less_nat_alt)
  qed
  then show ?thesis by (simp add: constant_time_in_range_8_def lt_args_8)
qed

lemma select_8:
  "constant_time_select_8 0xff a b = a" "constant_time_select_8 0 a b = b"
proof -
  have "ucast ((ucast (0xff :: u8) AND ucast a) OR (NOT (ucast (0xff :: u8)) AND ucast b) :: u64) = a"
    unfolding u8_ff by (rule bit_word_eqI) (auto simp: bit_simps)
  then show "constant_time_select_8 0xff a b = a" by (simp add: constant_time_select_8_def constant_time_select_w_def)
  have "ucast (ucast b :: u64) = b" by (rule bit_word_eqI) (simp add: bit_simps)
  then show "constant_time_select_8 0 a b = b"
    by (simp add: constant_time_select_8_def constant_time_select_w_def)
qed

lemma select_8_if: "constant_time_select_8 (if P then 0xff else 0) a b = (if P then a else b)"
  by (simp add: select_8)

section \<open>Properties\<close>

text \<open>
  C21: The branch-free helpers compute what the branching ones would: each comparison of machine
  words yields the all-ones mask when it holds and zero otherwise, for every pair of words, and
  selecting by such a mask is the conditional.
\<close>

theorem constant_time_exact:
  "constant_time_lt_w a b = (if a < b then CONSTTIME_TRUE_W else CONSTTIME_FALSE_W)
   \<and> constant_time_ge_w a b = (if b \<le> a then CONSTTIME_TRUE_W else CONSTTIME_FALSE_W)
   \<and> constant_time_eq_w a b = (if a = b then CONSTTIME_TRUE_W else CONSTTIME_FALSE_W)
   \<and> constant_time_is_zero_w a = (if a = 0 then CONSTTIME_TRUE_W else CONSTTIME_FALSE_W)
   \<and> constant_time_select_w (constant_time_lt_w a b) x y = (if a < b then x else y)
   \<and> constant_time_select_w (constant_time_eq_w a b) x y = (if a = b then x else y)"
  by (simp add: lt_w ge_w eq_w is_zero_w select_w)

end
