(* ===== verification/Base64.thy ===== *)
theory Base64
  imports ConstTime
begin

text \<open>
  \<^verbatim>\<open>crypto/base64/base64.c\<close>: the one-shot and the streaming base64 coders. An output buffer is
  modelled by the bytes the function writes from the start of \<^verbatim>\<open>out\<close>, the terminating NUL of the
  encoder included; input lengths are the lengths of the lists.
\<close>

section \<open>State\<close>

record EVP_ENCODE_CTX =
  data_used :: nat
  ctx_data :: "u8 list"
  eof_seen :: bool
  error_encountered :: bool

definition EVP_EncodeInit :: EVP_ENCODE_CTX where
  "EVP_EncodeInit = \<lparr>data_used = 0, ctx_data = replicate 48 0, eof_seen = False, error_encountered = False\<rparr>"

definition EVP_DecodeInit :: EVP_ENCODE_CTX where
  "EVP_DecodeInit = \<lparr>data_used = 0, ctx_data = replicate 48 0, eof_seen = False, error_encountered = False\<rparr>"

section \<open>Encoding\<close>

definition conv_bin2ascii :: "u8 \<Rightarrow> u8" where
  "conv_bin2ascii a0 =
     (let a = a0 AND 0x3f;
          ret = constant_time_select_8 (constant_time_eq_8 (ucast a) 62) 43 47;
          ret = constant_time_select_8 (constant_time_lt_args_8 a 62) (a - 52 + 48) ret;
          ret = constant_time_select_8 (constant_time_lt_args_8 a 52) (a - 26 + 97) ret;
          ret = constant_time_select_8 (constant_time_lt_args_8 a 26) (a + 65) ret
      in ret)"

definition EVP_EncodedLength :: "nat \<Rightarrow> nat option" where
  "EVP_EncodedLength len =
     (if size_add len 2 < len then None
      else let len = size_add len 2 div 3
           in if size_mul len 4 div 4 \<noteq> len then None
              else let len = size_mul len 4
                   in if size_add len 1 < len then None else Some (size_add len 1))"

text \<open>The loop of \<^verbatim>\<open>EVP_EncodeBlock\<close>: \<open>dst\<close> holds the characters written so far.\<close>

fun encode_block_loop :: "u8 list \<Rightarrow> u8 list \<Rightarrow> nat \<Rightarrow> u8 list \<times> nat" where
  "encode_block_loop (s0 # s1 # s2 # src) dst ret =
     (let l = (push_bit 16 (ucast s0) OR push_bit 8 (ucast s1)) OR ucast s2 :: u32
      in encode_block_loop src
           (dst @ [conv_bin2ascii (ucast (drop_bit 18 l)), conv_bin2ascii (ucast (drop_bit 12 l)),
                   conv_bin2ascii (ucast (drop_bit 6 l)), conv_bin2ascii (ucast l)]) (ret + 4))"
| "encode_block_loop [s0, s1] dst ret =
     (let l = push_bit 16 (ucast s0) OR push_bit 8 (ucast s1) :: u32
      in (dst @ [conv_bin2ascii (ucast (drop_bit 18 l)), conv_bin2ascii (ucast (drop_bit 12 l)),
                 conv_bin2ascii (ucast (drop_bit 6 l)), 61], ret + 4))"
| "encode_block_loop [s0] dst ret =
     (let l = push_bit 16 (ucast s0) :: u32
      in (dst @ [conv_bin2ascii (ucast (drop_bit 18 l)), conv_bin2ascii (ucast (drop_bit 12 l)), 61, 61],
          ret + 4))"
| "encode_block_loop [] dst ret = (dst, ret)"

definition EVP_EncodeBlock :: "u8 list \<Rightarrow> u8 list \<times> nat" where
  "EVP_EncodeBlock src = (case encode_block_loop src [] 0 of (dst, ret) \<Rightarrow> (dst @ [0], ret))"

text \<open>
  The loop of \<^verbatim>\<open>EVP_EncodeUpdate\<close> over whole blocks. \<open>out\<close> holds what precedes the \<^verbatim>\<open>out\<close> pointer;
  the NUL that is written behind it is overwritten by the next block. The first component is false
  for the early return when the total overflows.
\<close>

function encode_lines :: "u8 list \<Rightarrow> u8 list \<Rightarrow> nat \<Rightarrow> bool \<times> u8 list \<times> u8 list \<times> nat" where
  "encode_lines inp out tot =
     (if length inp \<ge> 48
      then (case EVP_EncodeBlock (take 48 inp) of
              (dst, encoded) \<Rightarrow>
                let inp = drop 48 inp; out = out @ take encoded dst @ [10]
                in if size_add (size_add tot encoded) 1 < tot then (False, inp, out, tot)
                   else encode_lines inp out (size_add tot (encoded + 1)))
      else (True, inp, out, tot))"
  by pat_completeness auto
termination by (relation "measure (\<lambda>(inp, out, tot). length inp)") auto

declare encode_lines.simps [simp del]

text \<open>The result is what is written to \<^verbatim>\<open>out\<close>, \<^verbatim>\<open>*out_len\<close> and the context.\<close>

definition EVP_EncodeUpdate :: "EVP_ENCODE_CTX \<Rightarrow> u8 list \<Rightarrow> u8 list \<times> nat \<times> EVP_ENCODE_CTX" where
  "EVP_EncodeUpdate ctx inp =
     (if length inp = 0 then ([], 0, ctx)
      else if 48 - data_used ctx > length inp
      then ([], 0, ctx\<lparr>ctx_data := blit (ctx_data ctx) (data_used ctx) inp,
                      data_used := data_used ctx + length inp\<rparr>)
      else (case (if data_used ctx \<noteq> 0
                  then let todo = 48 - data_used ctx;
                           ctx = ctx\<lparr>ctx_data := blit (ctx_data ctx) (data_used ctx) (take todo inp)\<rparr>
                       in (case EVP_EncodeBlock (ctx_data ctx) of
                             (dst, encoded) \<Rightarrow>
                               (drop todo inp, take encoded dst @ [10], encoded + 1, ctx\<lparr>data_used := 0\<rparr>))
                  else (inp, [], 0, ctx)) of
              (inp, out, tot, ctx) \<Rightarrow>
                (case encode_lines inp out tot of
                   (False, _, out, _) \<Rightarrow> (out @ [0], 0, ctx)
                 | (True, inp, out, tot) \<Rightarrow>
                     let written = (if out = [] then [] else out @ [0]);
                         ctx = (if length inp \<noteq> 0 then ctx\<lparr>ctx_data := blit (ctx_data ctx) 0 inp\<rparr> else ctx);
                         ctx = ctx\<lparr>data_used := length inp\<rparr>;
                         tot = (if tot > INT_MAX then 0 else tot)
                     in (written, tot, ctx))))"

definition EVP_EncodeFinal :: "EVP_ENCODE_CTX \<Rightarrow> u8 list \<times> nat \<times> EVP_ENCODE_CTX" where
  "EVP_EncodeFinal ctx =
     (if data_used ctx = 0 then ([], 0, ctx)
      else (case EVP_EncodeBlock (take (data_used ctx) (ctx_data ctx)) of
              (dst, encoded) \<Rightarrow> (take encoded dst @ [10, 0], encoded + 1, ctx\<lparr>data_used := 0\<rparr>)))"

section \<open>Decoding\<close>

definition EVP_DecodedLength :: "nat \<Rightarrow> nat option" where
  "EVP_DecodedLength len = (if len mod 4 \<noteq> 0 then None else Some (len div 4 * 3))"

definition base64_ascii_to_bin :: "u8 \<Rightarrow> u8" where
  "base64_ascii_to_bin a =
     (let is_upper = constant_time_in_range_8 a 65 90;
          is_lower = constant_time_in_range_8 a 97 122;
          is_digit = constant_time_in_range_8 a 48 57;
          is_plus = constant_time_eq_8 (ucast a) 43;
          is_slash = constant_time_eq_8 (ucast a) 47;
          is_equals = constant_time_eq_8 (ucast a) 61;
          ret = 0xff;
          ret = constant_time_select_8 is_upper (a - 65) ret;
          ret = constant_time_select_8 is_lower (a - 97 + 26) ret;
          ret = constant_time_select_8 is_digit (a - 48 + 52) ret;
          ret = constant_time_select_8 is_plus 62 ret;
          ret = constant_time_select_8 is_slash 63 ret;
          ret = constant_time_select_8 is_equals 0 ret
      in ret)"

text \<open>The bytes written, whose number is \<^verbatim>\<open>*out_num_bytes\<close>.\<close>

definition base64_decode_quad :: "u8 list \<Rightarrow> u8 list option" where
  "base64_decode_quad inp =
     (let a = base64_ascii_to_bin (inp ! 0); b = base64_ascii_to_bin (inp ! 1);
          c = base64_ascii_to_bin (inp ! 2); d = base64_ascii_to_bin (inp ! 3)
      in if a = 0xff \<or> b = 0xff \<or> c = 0xff \<or> d = 0xff then None
         else let v = ((push_bit 18 (ucast a) OR push_bit 12 (ucast b)) OR push_bit 6 (ucast c)) OR ucast d :: u32;
                  padding_pattern = (if inp ! 0 = 61 then 8 else 0) + (if inp ! 1 = 61 then 4 else 0)
                                  + (if inp ! 2 = 61 then 2 else 0) + (if inp ! 3 = 61 then 1 else 0 :: nat)
              in if padding_pattern = 0 then Some [ucast (drop_bit 16 v), ucast (drop_bit 8 v), ucast v]
                 else if padding_pattern = 1 then Some [ucast (drop_bit 16 v), ucast (drop_bit 8 v)]
                 else if padding_pattern = 3 then Some [ucast (drop_bit 16 v)]
                 else None)"

text \<open>The loop of \<^verbatim>\<open>EVP_DecodeUpdate\<close>; the first component is false for the return value -1.\<close>

fun decode_update_loop :: "EVP_ENCODE_CTX \<Rightarrow> u8 list \<Rightarrow> u8 list \<Rightarrow> bool \<times> EVP_ENCODE_CTX \<times> u8 list" where
  "decode_update_loop ctx out [] = (True, ctx, out)"
| "decode_update_loop ctx out (c # inp) =
     (if c = 32 \<or> c = 9 \<or> c = 13 \<or> c = 10 then decode_update_loop ctx out inp
      else if eof_seen ctx then (False, ctx\<lparr>error_encountered := True\<rparr>, out)
      else let ctx = ctx\<lparr>ctx_data := (ctx_data ctx)[data_used ctx := c], data_used := data_used ctx + 1\<rparr>
           in if data_used ctx = 4
              then (case base64_decode_quad (ctx_data ctx) of
                      None \<Rightarrow> (False, ctx\<lparr>error_encountered := True\<rparr>, out)
                    | Some bytes \<Rightarrow>
                        let ctx = ctx\<lparr>data_used := 0\<rparr>;
                            ctx = (if length bytes < 3 then ctx\<lparr>eof_seen := True\<rparr> else ctx)
                        in decode_update_loop ctx (out @ bytes) inp)
              else decode_update_loop ctx out inp)"

text \<open>The result is the return value, what is written to \<^verbatim>\<open>out\<close>, \<^verbatim>\<open>*out_len\<close> and the context.\<close>

definition EVP_DecodeUpdate :: "EVP_ENCODE_CTX \<Rightarrow> u8 list \<Rightarrow> int \<times> u8 list \<times> nat \<times> EVP_ENCODE_CTX" where
  "EVP_DecodeUpdate ctx inp =
     (if error_encountered ctx then (- 1, [], 0, ctx)
      else (case decode_update_loop ctx [] inp of
              (False, ctx, out) \<Rightarrow> (- 1, out, 0, ctx)
            | (True, ctx, out) \<Rightarrow>
                let bytes_out = length out
                in if bytes_out > INT_MAX then (- 1, out, 0, ctx\<lparr>error_encountered := True\<rparr>)
                   else if eof_seen ctx then (0, out, bytes_out, ctx)
                   else (1, out, bytes_out, ctx)))"

definition EVP_DecodeFinal :: "EVP_ENCODE_CTX \<Rightarrow> int \<times> nat" where
  "EVP_DecodeFinal ctx = (if error_encountered ctx \<or> data_used ctx \<noteq> 0 then (- 1, 0) else (1, 0))"

text \<open>The loop of \<^verbatim>\<open>EVP_DecodeBase64\<close> over the quads; the test \<^verbatim>\<open>i != in_len - 4\<close> is \<open>rest \<noteq> []\<close>.\<close>

fun decode_quads :: "u8 list \<Rightarrow> u8 list \<Rightarrow> u8 list option" where
  "decode_quads (c0 # c1 # c2 # c3 # rest) out =
     (case base64_decode_quad [c0, c1, c2, c3] of
        None \<Rightarrow> None
      | Some bytes \<Rightarrow>
          if length bytes \<noteq> 3 \<and> rest \<noteq> [] then None else decode_quads rest (out @ bytes))"
| "decode_quads _ out = Some out"

definition EVP_DecodeBase64 :: "nat \<Rightarrow> u8 list \<Rightarrow> u8 list option" where
  "EVP_DecodeBase64 max_out inp =
     (if length inp mod 4 \<noteq> 0 then None
      else (case EVP_DecodedLength (length inp) of
              None \<Rightarrow> None
            | Some max_len \<Rightarrow> if max_out < max_len then None else decode_quads inp []))"

text \<open>The result is the bytes written with the NULs put back for the padding; \<open>None\<close> is -1.\<close>

definition EVP_DecodeBlock :: "u8 list \<Rightarrow> u8 list option" where
  "EVP_DecodeBlock src =
     (let src = dropWhile (\<lambda>c. c = 32 \<or> c = 9) src;
          src = rev (dropWhile (\<lambda>c. c = 32 \<or> c = 9 \<or> c = 13 \<or> c = 10) (rev src))
      in case EVP_DecodedLength (length src) of
           None \<Rightarrow> None
         | Some dst_len \<Rightarrow>
             if dst_len > INT_MAX then None
             else (case EVP_DecodeBase64 dst_len src of
                     None \<Rightarrow> None
                   | Some dst \<Rightarrow> Some (dst @ replicate ((3 - length dst mod 3) mod 3) 0)))"

section \<open>The alphabet\<close>

text \<open>The branching form of the two table lookups.\<close>

lemma conv_bin2ascii_cases:
  "conv_bin2ascii a =
     (let n = unat a mod 64
      in of_nat (if n < 26 then n + 65 else if n < 52 then n - 26 + 97 else if n < 62 then n - 52 + 48
                 else if n = 62 then 43 else 47))"
proof -
  define b where "b = a AND 0x3f"
  have "b = take_bit 6 a" unfolding b_def by (simp only: take_bit_eq_mask mask_eq_exp_minus_1) simp
  then have n: "unat b = unat a mod 64" by (simp only: unsigned_take_bit_eq) (simp add: take_bit_eq_mod)
  have b: "b = of_nat (unat a mod 64)" by (simp flip: n)
  have c: "b < 62 \<longleftrightarrow> unat a mod 64 < 62" "b < 52 \<longleftrightarrow> unat a mod 64 < 52" "b < 26 \<longleftrightarrow> unat a mod 64 < 26"
    "(ucast b = (62 :: u64)) \<longleftrightarrow> unat a mod 64 = 62"
    by (simp_all add: word_less_nat_alt n word_unat_eq_iff)
  have s: "of_nat (k - m) = (of_nat k - of_nat m :: u8)" if "m \<le> k" for k m
    using that by (simp add: of_nat_diff)
  show ?thesis
    unfolding conv_bin2ascii_def b_def [symmetric] Let_def eq_8 lt_args_8 select_8_if c
    by (simp add: s b [symmetric] del: of_nat_mod)
qed

lemma ascii_to_bin_cases:
  "base64_ascii_to_bin a =
     (let n = unat a
      in if n = 61 then 0 else if n = 47 then 63 else if n = 43 then 62
         else if 48 \<le> n \<and> n \<le> 57 then a - 48 + 52
         else if 97 \<le> n \<and> n \<le> 122 then a - 97 + 26
         else if 65 \<le> n \<and> n \<le> 90 then a - 65 else 0xff)"
proof -
  have c: "(ucast a = (43 :: u64)) \<longleftrightarrow> unat a = 43" "(ucast a = (47 :: u64)) \<longleftrightarrow> unat a = 47"
    "(ucast a = (61 :: u64)) \<longleftrightarrow> unat a = 61"
    by (simp_all add: word_unat_eq_iff)
  have r: "constant_time_in_range_8 a 65 90 = (if 65 \<le> unat a \<and> unat a \<le> 90 then 0xff else 0)"
    "constant_time_in_range_8 a 97 122 = (if 97 \<le> unat a \<and> unat a \<le> 122 then 0xff else 0)"
    "constant_time_in_range_8 a 48 57 = (if 48 \<le> unat a \<and> unat a \<le> 57 then 0xff else 0)"
    by (subst in_range_8; simp add: word_le_nat_alt)+
  show ?thesis
    unfolding base64_ascii_to_bin_def Let_def eq_8 r select_8_if c by (rule refl)
qed

lemma unat_conv: "unat (conv_bin2ascii a) =
   (let n = unat a mod 64
    in if n < 26 then n + 65 else if n < 52 then n - 26 + 97 else if n < 62 then n - 52 + 48
       else if n = 62 then 43 else 47)"
  unfolding conv_bin2ascii_cases Let_def by (simp add: unat_of_nat)

lemma ascii_to_bin_conv: "base64_ascii_to_bin (conv_bin2ascii a) = a AND 0x3f"
proof -
  have "a AND 0x3f = take_bit 6 a" by (simp only: take_bit_eq_mask mask_eq_exp_minus_1) simp
  then have m: "unat (a AND 0x3f) = unat a mod 64"
    by (simp only: unsigned_take_bit_eq) (simp add: take_bit_eq_mod)
  define n where "n = unat a mod 64"
  have n: "n < 64" by (simp add: n_def)
  have u: "unat (conv_bin2ascii a) = (if n < 26 then n + 65 else if n < 52 then n - 26 + 97
      else if n < 62 then n - 52 + 48 else if n = 62 then 43 else 47)"
    unfolding unat_conv Let_def n_def ..
  have a: "a AND 0x3f = of_nat n" by (simp add: n_def flip: m)
  have e: "conv_bin2ascii a = of_nat (unat (conv_bin2ascii a))" by simp
  have s: "of_nat (k - j) = (of_nat k - of_nat j :: u8)" if "j \<le> k" for k j
    using that by (simp add: of_nat_diff)
  have c: "conv_bin2ascii a = of_nat k" if "unat (conv_bin2ascii a) = k" for k using that by auto
  consider "n < 26" | "26 \<le> n" "n < 52" | "52 \<le> n" "n < 62" | "n = 62" | "n = 63" using n by linarith
  then show ?thesis
  proof cases
    case 1
    then have k: "unat (conv_bin2ascii a) = n + 65" using u by simp
    show ?thesis unfolding ascii_to_bin_cases Let_def k a using 1 by (simp add: c [OF k])
  next
    case 2
    then have k: "unat (conv_bin2ascii a) = n - 26 + 97" using u by simp
    show ?thesis unfolding ascii_to_bin_cases Let_def k a using 2 by (simp add: c [OF k] s)
  next
    case 3
    then have k: "unat (conv_bin2ascii a) = n - 52 + 48" using u by simp
    obtain m where m: "n = 52 + m" using 3 le_Suc_ex by blast
    then have "m < 10" using 3 by simp
    then show ?thesis unfolding ascii_to_bin_cases Let_def k a using k by (simp add: c [OF k] m)
  qed (use u in \<open>simp_all add: ascii_to_bin_cases a\<close>)
qed

lemma conv_neq:
  "conv_bin2ascii a \<noteq> 61" "conv_bin2ascii a \<noteq> 32" "conv_bin2ascii a \<noteq> 9" "conv_bin2ascii a \<noteq> 13"
  "conv_bin2ascii a \<noteq> 10"
proof -
  have "unat a mod 64 < 64" by simp
  then have "unat (conv_bin2ascii a) \<noteq> 61 \<and> unat (conv_bin2ascii a) \<noteq> 32 \<and> unat (conv_bin2ascii a) \<noteq> 9
    \<and> unat (conv_bin2ascii a) \<noteq> 13 \<and> unat (conv_bin2ascii a) \<noteq> 10"
    unfolding unat_conv Let_def by (auto split: if_splits)
  then show "conv_bin2ascii a \<noteq> 61" "conv_bin2ascii a \<noteq> 32" "conv_bin2ascii a \<noteq> 9" "conv_bin2ascii a \<noteq> 13"
    "conv_bin2ascii a \<noteq> 10" by auto
qed

lemma sextet_not_ff: "a AND 0x3f \<noteq> (0xff :: u8)"
proof -
  have "a AND 0x3f = take_bit 6 a" by (simp only: take_bit_eq_mask mask_eq_exp_minus_1) simp
  then have "unat (a AND 0x3f) = unat a mod 64"
    by (simp only: unsigned_take_bit_eq) (simp add: take_bit_eq_mod)
  then show ?thesis using mod_less_divisor [of 64 "unat a"] by auto
qed

section \<open>One quad\<close>

text \<open>The 24 bits put together from the four sextets are those the sextets were cut from.\<close>

lemma sextets_join:
  fixes l :: u32
  shows "((push_bit 18 (ucast (ucast (drop_bit 18 l) AND 0x3f :: u8)) OR
     push_bit 12 (ucast (ucast (drop_bit 12 l) AND 0x3f :: u8))) OR
     push_bit 6 (ucast (ucast (drop_bit 6 l) AND 0x3f :: u8))) OR ucast (ucast l AND 0x3f :: u8)
     = take_bit 24 l"
proof -
  define L where "L = unat l"
  have m: "unat (b AND 0x3f) = unat b mod 64" for b :: u8
  proof -
    have "b AND 0x3f = take_bit 6 b" by (simp only: take_bit_eq_mask mask_eq_exp_minus_1) simp
    then show ?thesis by (simp only: unsigned_take_bit_eq) (simp add: take_bit_eq_mod)
  qed
  have w: "unat (ucast (ucast (drop_bit k l) AND 0x3f :: u8) :: u32) = L div 2 ^ k mod 64" for k
  proof -
    have "unat (ucast (drop_bit k l) AND 0x3f :: u8) = L div 2 ^ k mod 256 mod 64"
      by (simp only: m unsigned_ucast_eq unat_drop_bit L_def) (simp add: take_bit_eq_mod)
    also have "\<dots> = L div 2 ^ k mod 64" by (simp add: mod_mod_cancel)
    finally have e: "unat (ucast (drop_bit k l) AND 0x3f :: u8) = L div 2 ^ k mod 64" .
    have "L div 2 ^ k mod 64 < 2 ^ LENGTH(32)" by (rule less_trans [of _ 64]) simp_all
    then show ?thesis by (simp only: unsigned_ucast_eq e take_bit_nat_eq_self)
  qed
  define a b c d where "a = L div 2 ^ 18 mod 64" and "b = L div 2 ^ 12 mod 64" and "c = L div 2 ^ 6 mod 64"
    and "d = L mod 64"
  have less: "a < 64" "b < 64" "c < 64" "d < 64" by (simp_all add: a_def b_def c_def d_def)
  have d: "unat (ucast (ucast l AND 0x3f :: u8) :: u32) = d" using w [of 0] by (simp add: d_def)
  have p: "unat (push_bit 18 (ucast (ucast (drop_bit 18 l) AND 0x3f :: u8)) :: u32) = a * 2 ^ 18"
    "unat (push_bit 12 (ucast (ucast (drop_bit 12 l) AND 0x3f :: u8)) :: u32) = b * 2 ^ 12"
    "unat (push_bit 6 (ucast (ucast (drop_bit 6 l) AND 0x3f :: u8)) :: u32) = c * 2 ^ 6"
    using less by (subst unat_push_bit; simp only: w a_def [symmetric] b_def [symmetric] c_def [symmetric]; simp)+
  have o1: "a * 2 ^ 18 OR b * 2 ^ 12 = (a * 2 ^ 6 + b) * 2 ^ 12"
    using less by (subst nat_mult_or) simp_all
  have o2: "(a * 2 ^ 6 + b) * 2 ^ 12 OR c * 2 ^ 6 = ((a * 2 ^ 6 + b) * 2 ^ 6 + c) * 2 ^ 6"
    using less by (subst nat_mult_or) simp_all
  have o3: "((a * 2 ^ 6 + b) * 2 ^ 6 + c) * 2 ^ 6 OR d = ((a * 2 ^ 6 + b) * 2 ^ 6 + c) * 2 ^ 6 + d"
    using less by (subst nat_mult_or) simp_all
  have "L mod (64 * (64 * (64 * 64))) = 64 * (64 * (64 * a + b) + c) + d"
    unfolding mod_mult2_eq a_def b_def c_def d_def by (simp add: div_mult2_eq [symmetric])
  then have "((a * 2 ^ 6 + b) * 2 ^ 6 + c) * 2 ^ 6 + d = L mod 2 ^ 24" by (simp add: mult.commute)
  then show ?thesis
    by (intro unsigned_word_eqI [where ?'a = nat])
      (simp only: unsigned_or_eq p d o1 o2 o3 unsigned_take_bit_eq, simp add: take_bit_eq_mod L_def)
qed

section \<open>Reference encoding\<close>

definition b64_char :: "nat \<Rightarrow> u8" where
  "b64_char n = map of_nat ([65..<91] @ [97..<123] @ [48..<58] @ [43, 47]) ! n"

definition b64_quad :: "u8 \<Rightarrow> u8 \<Rightarrow> u8 \<Rightarrow> u8 list" where
  "b64_quad a b c =
     (let n = be_val [a, b, c]
      in [b64_char (n div 2 ^ 18), b64_char (n div 2 ^ 12 mod 64), b64_char (n div 2 ^ 6 mod 64),
          b64_char (n mod 64)])"

fun base64 :: "u8 list \<Rightarrow> u8 list" where
  "base64 (a # b # c # src) = b64_quad a b c @ base64 src"
| "base64 [a, b] = take 3 (b64_quad a b 0) @ [61]"
| "base64 [a] = take 2 (b64_quad a 0 0) @ [61, 61]"
| "base64 [] = []"

lemma conv_b64_char: "conv_bin2ascii a = b64_char (unat a mod 64)"
proof -
  define n where "n = unat a mod 64"
  have n: "n < 64" by (simp add: n_def)
  have "\<forall>n \<in> set [0..<64]. b64_char n = of_nat (if n < 26 then n + 65 else if n < 52 then n - 26 + 97
      else if n < 62 then n - 52 + 48 else if n = 62 then 43 else 47)"
    by (simp add: b64_char_def upt_rec)
  then have "b64_char n = of_nat (if n < 26 then n + 65 else if n < 52 then n - 26 + 97
      else if n < 62 then n - 52 + 48 else if n = 62 then 43 else 47)"
    using n by simp
  then show ?thesis by (simp add: conv_bin2ascii_cases n_def [symmetric])
qed

text \<open>The 24-bit number the code builds from three bytes.\<close>

lemma unat_ucast_u8_32 [simp]: "unat (ucast (b :: u8) :: u32) = unat b"
proof -
  have "unat b < 2 ^ LENGTH(32)" by (rule less_le_trans [OF unat_u8_less]) simp
  then show ?thesis by (simp only: unsigned_ucast_eq take_bit_nat_eq_self)
qed

lemma be_val_3: "be_val [a, b, c] = unat a * 2 ^ 16 + unat b * 2 ^ 8 + unat c"
  by (simp add: be_val_def algebra_simps)

lemma join_bytes:
  "unat ((push_bit 16 (ucast (a :: u8)) OR push_bit 8 (ucast (b :: u8))) OR ucast (c :: u8) :: u32) = be_val [a, b, c]"
proof -
  have less: "unat a < 256" "unat b < 256" "unat c < 256" by simp_all
  have p: "unat (push_bit 16 (ucast a) :: u32) = unat a * 2 ^ 16" "unat (push_bit 8 (ucast b) :: u32) = unat b * 2 ^ 8"
    using unat_u8_less [of a] unat_u8_less [of b]
    by (subst unat_push_bit; simp only: unat_ucast_u8_32; simp del: unat_u8_less)+
  have o1: "unat a * 2 ^ 16 OR unat b * 2 ^ 8 = (unat a * 2 ^ 8 + unat b) * 2 ^ 8"
    using unat_u8_less [of b] by (subst nat_mult_or) (simp_all del: unat_u8_less)
  have o2: "(unat a * 2 ^ 8 + unat b) * 2 ^ 8 OR unat c = (unat a * 2 ^ 8 + unat b) * 2 ^ 8 + unat c"
    using unat_u8_less [of c] by (subst nat_mult_or) simp_all
  show ?thesis
    by (simp only: unsigned_or_eq p o1 o2 unat_ucast_u8_32 be_val_3) simp
qed

lemma conv_shift:
  fixes l :: u32
  shows "conv_bin2ascii (ucast (drop_bit k l)) = b64_char (unat l div 2 ^ k mod 64)"
    and "conv_bin2ascii (ucast l) = b64_char (unat l mod 64)"
proof -
  have "unat (ucast w :: u8) mod 64 = unat w mod 64" for w :: u32
    by (simp only: unsigned_ucast_eq take_bit_eq_mod) (simp add: mod_mod_cancel)
  then show "conv_bin2ascii (ucast (drop_bit k l)) = b64_char (unat l div 2 ^ k mod 64)"
    "conv_bin2ascii (ucast l) = b64_char (unat l mod 64)"
    by (simp_all only: conv_b64_char unat_drop_bit)
qed

lemma top_sextet: "be_val [a, b, c] div 2 ^ 18 mod 64 = be_val [a, b, c] div 2 ^ 18"
proof -
  have "be_val [a, b, c] < 256 ^ 3" using be_val_bound [of "[a, b, c]"] by simp
  then have "be_val [a, b, c] div 2 ^ 18 < 64" by (simp add: div_less_iff_less_mult)
  then show ?thesis by simp
qed

lemma conv_quad:
  fixes a b c :: u8
  defines "l \<equiv> (push_bit 16 (ucast a) OR push_bit 8 (ucast b)) OR ucast c :: u32"
  shows "[conv_bin2ascii (ucast (drop_bit 18 l)), conv_bin2ascii (ucast (drop_bit 12 l)),
          conv_bin2ascii (ucast (drop_bit 6 l)), conv_bin2ascii (ucast l)] = b64_quad a b c"
  unfolding b64_quad_def Let_def conv_shift unat_drop_bit l_def join_bytes top_sextet by (rule refl)

lemma conv_quad2:
  fixes a b :: u8
  defines "l \<equiv> push_bit 16 (ucast a) OR push_bit 8 (ucast b) :: u32"
  shows "[conv_bin2ascii (ucast (drop_bit 18 l)), conv_bin2ascii (ucast (drop_bit 12 l)),
          conv_bin2ascii (ucast (drop_bit 6 l)), conv_bin2ascii (ucast l)] = b64_quad a b 0"
  using conv_quad [of a b 0] by (simp add: l_def)

lemma encode_block_loop_base64:
  "encode_block_loop src dst ret = (dst @ base64 src, ret + length (base64 src))"
proof (induction src dst ret rule: encode_block_loop.induct)
  case (1 a b c src dst ret)
  have "length (b64_quad a b c) = 4" by (simp add: b64_quad_def Let_def)
  then show ?case
    using conv_quad [of a b c] unfolding encode_block_loop.simps Let_def 1 [OF refl] by simp
next
  case (2 a b dst ret)
  then show ?case
    using conv_quad2 [of a b] by (simp add: Let_def flip: conv_quad2)
next
  case (3 a dst ret)
  then show ?case
    using conv_quad2 [of a 0] by (simp add: Let_def flip: conv_quad2)
qed simp

lemma EVP_EncodeBlock_eq: "EVP_EncodeBlock src = (base64 src @ [0], length (base64 src))"
  by (simp add: EVP_EncodeBlock_def encode_block_loop_base64)

section \<open>Decoding what was encoded\<close>

lemma decode_quad_conv:
  fixes l :: u32
  shows "base64_decode_quad [conv_bin2ascii (ucast (drop_bit 18 l)), conv_bin2ascii (ucast (drop_bit 12 l)),
      conv_bin2ascii (ucast (drop_bit 6 l)), conv_bin2ascii (ucast l)]
    = Some [ucast (drop_bit 16 (take_bit 24 l)), ucast (drop_bit 8 (take_bit 24 l)), ucast (take_bit 24 l)]"
  unfolding base64_decode_quad_def Let_def
  by (simp add: ascii_to_bin_conv sextet_not_ff conv_neq sextets_join)

lemma join_unique:
  fixes l :: u32
  assumes "unat l = be_val [a, b, c]"
  shows "(ucast (drop_bit 16 (take_bit 24 l)) :: u8) = a" "(ucast (drop_bit 8 (take_bit 24 l)) :: u8) = b"
    "(ucast (take_bit 24 l) :: u8) = c"
proof -
  have n: "be_val [a, b, c] < 2 ^ 24" using be_val_bound [of "[a, b, c]"] by simp
  then have t: "unat (take_bit 24 l) = be_val [a, b, c]" by (simp only: unsigned_take_bit_eq assms take_bit_nat_eq_self)
  have u: "(ucast w :: u8) = of_nat (unat w)" for w :: u32 by simp
  have "be_bytes 3 (be_val [a, b, c]) = [a, b, c]"
    using be_bytes_val [of "[a, b, c]"] by (simp add: numeral_3_eq_3)
  moreover have "be_bytes 3 v = [of_nat (v div 2 ^ 16), of_nat (v div 2 ^ 8), of_nat v]" for v
    by (simp add: numeral_3_eq_3 div_mult2_eq [symmetric])
  ultimately show "(ucast (drop_bit 16 (take_bit 24 l)) :: u8) = a" "(ucast (drop_bit 8 (take_bit 24 l)) :: u8) = b"
    "(ucast (take_bit 24 l) :: u8) = c"
    by (simp_all only: u unat_drop_bit t list.inject)
qed

lemma decode_quad3: "base64_decode_quad (b64_quad a b c) = Some [a, b, c]"
  unfolding conv_quad [symmetric] decode_quad_conv join_unique [OF join_bytes] by (rule refl)

text \<open>A padded quad: the characters that were replaced by padding stand for zero sextets.\<close>

lemma equals_decodes: "base64_ascii_to_bin 61 = 0"
  by (simp add: ascii_to_bin_cases)

lemma low_sextet_zero: "be_val [a, b, 0] mod 64 = 0" "be_val [a, 0, 0] div 2 ^ 6 mod 64 = 0"
proof -
  have "be_val [a, b, 0] = 64 * (unat a * 1024 + unat b * 4)" by (simp add: be_val_3)
  then show "be_val [a, b, 0] mod 64 = 0" by simp
  have "be_val [a, 0, 0] = 64 * (64 * (unat a * 16))" by (simp add: be_val_3)
  then show "be_val [a, 0, 0] div 2 ^ 6 mod 64 = 0" by simp
qed

lemma sextet_zero:
  assumes "unat (w :: u32) mod 64 = 0"
  shows "(ucast w AND 0x3f :: u8) = 0"
proof -
  have "b AND 0x3f = take_bit 6 b" for b :: u8 by (simp only: take_bit_eq_mask mask_eq_exp_minus_1) simp
  then have "unat (ucast w AND 0x3f :: u8) = unat w mod 256 mod 64"
    by (simp only: unsigned_take_bit_eq unsigned_ucast_eq) (simp add: take_bit_eq_mod)
  also have "\<dots> = 0" using assms by (simp add: mod_mod_cancel)
  finally show ?thesis by (simp only: unat_eq_0)
qed

lemma decode_quad2: "base64_decode_quad (take 3 (b64_quad a b 0) @ [61]) = Some [a, b]"
proof -
  define l where "l = ((push_bit 16 (ucast a) OR push_bit 8 (ucast b)) OR ucast (0 :: u8) :: u32)"
  have l: "unat l = be_val [a, b, 0]" unfolding l_def by (rule join_bytes)
  have z: "(ucast l AND 0x3f :: u8) = 0" by (rule sextet_zero) (simp add: l low_sextet_zero)
  note j = sextets_join [of l, unfolded z]
  have q: "take 3 (b64_quad a b 0) @ [61] = [conv_bin2ascii (ucast (drop_bit 18 l)),
      conv_bin2ascii (ucast (drop_bit 12 l)), conv_bin2ascii (ucast (drop_bit 6 l)), 61]"
    unfolding conv_quad [symmetric] l_def [symmetric] by simp
  show ?thesis
    unfolding q base64_decode_quad_def Let_def
    using j join_unique(1,2) [OF l]
    by (simp add: ascii_to_bin_conv sextet_not_ff conv_neq equals_decodes)
qed

lemma decode_quad1: "base64_decode_quad (take 2 (b64_quad a 0 0) @ [61, 61]) = Some [a]"
proof -
  define l where "l = ((push_bit 16 (ucast a) OR push_bit 8 (ucast (0 :: u8))) OR ucast (0 :: u8) :: u32)"
  have l: "unat l = be_val [a, 0, 0]" unfolding l_def by (rule join_bytes)
  have z: "(ucast l AND 0x3f :: u8) = 0" by (rule sextet_zero) (simp only: l low_sextet_zero)
  have z2: "(ucast (drop_bit 6 l) AND 0x3f :: u8) = 0"
    by (rule sextet_zero) (simp only: unat_drop_bit l low_sextet_zero)
  note j = sextets_join [of l, unfolded z z2]
  have q: "take 2 (b64_quad a 0 0) @ [61, 61] = [conv_bin2ascii (ucast (drop_bit 18 l)),
      conv_bin2ascii (ucast (drop_bit 12 l)), 61, 61]"
    unfolding conv_quad [symmetric] l_def [symmetric] by simp
  show ?thesis
    unfolding q base64_decode_quad_def Let_def
    using j join_unique(1) [OF l]
    by (simp add: ascii_to_bin_conv sextet_not_ff conv_neq equals_decodes)
qed

text \<open>What the decoders need to know of a quad: four characters, none of them white space.\<close>

lemma b64_char_plain: "b64_char (n mod 64) \<noteq> 61 \<and> b64_char (n mod 64) \<noteq> 32 \<and> b64_char (n mod 64) \<noteq> 9
    \<and> b64_char (n mod 64) \<noteq> 13 \<and> b64_char (n mod 64) \<noteq> 10"
proof -
  have "unat (of_nat (n mod 64) :: u8) mod 64 = n mod 64" by (simp add: unat_of_nat mod_mod_cancel)
  then have "b64_char (n mod 64) = conv_bin2ascii (of_nat (n mod 64))" by (simp only: conv_b64_char)
  then show ?thesis by (simp only: conv_neq simp_thms)
qed

lemma b64_quad_chars:
  "\<exists>w x y z. b64_quad a b c = [w, x, y, z] \<and> (\<forall>k \<in> {w, x, y, z}. k \<noteq> 61 \<and> k \<noteq> 32 \<and> k \<noteq> 9 \<and> k \<noteq> 13 \<and> k \<noteq> 10)"
  unfolding b64_quad_def Let_def
  by (subst top_sextet [symmetric], intro exI conjI, rule refl) (simp add: b64_char_plain)

section \<open>One-shot decoding\<close>

lemma length_base64: "length (base64 src) = (length src + 2) div 3 * 4"
proof (induction src rule: base64.induct)
  case (1 a b c src)
  have "(length (a # b # c # src) + 2) div 3 = Suc ((length src + 2) div 3)"
    using div_add_self1 [of 3 "length src + 2"] by simp
  with 1 show ?case by (simp add: b64_quad_def Let_def)
qed (simp_all add: b64_quad_def Let_def)

lemma decode_quads_base64: "decode_quads (base64 src) out = Some (out @ src)"
proof (induction src arbitrary: out rule: base64.induct)
  case (1 a b c src)
  obtain w x y z where q: "b64_quad a b c = [w, x, y, z]" using b64_quad_chars by blast
  with decode_quad3 [of a b c] 1 [of "out @ [a, b, c]"] show ?case by simp
next
  case (2 a b)
  obtain w x y z where q: "b64_quad a b 0 = [w, x, y, z]" using b64_quad_chars by blast
  with decode_quad2 [of a b] show ?case by simp
next
  case (3 a)
  obtain w x y z where q: "b64_quad a 0 0 = [w, x, y, z]" using b64_quad_chars by blast
  with decode_quad1 [of a] show ?case by simp
qed simp

lemma EVP_DecodeBase64_base64:
  assumes "(length src + 2) div 3 * 3 \<le> max_out"
  shows "EVP_DecodeBase64 max_out (base64 src) = Some src"
  using assms by (simp add: EVP_DecodeBase64_def EVP_DecodedLength_def length_base64 decode_quads_base64)

lemma EVP_EncodedLength_exact:
  assumes "len < 2 ^ 62"
  shows "EVP_EncodedLength len = Some ((len + 2) div 3 * 4 + 1)"
proof -
  have "(len + 2) div 3 * 4 < 2 ^ 63" using assms by simp
  with assms show ?thesis
    by (simp add: EVP_EncodedLength_def size_add_small size_mul_small Let_def)
qed

section \<open>Streaming decoder\<close>

definition is_space :: "u8 \<Rightarrow> bool" where
  "is_space c \<longleftrightarrow> c = 32 \<or> c = 9 \<or> c = 13 \<or> c = 10"

lemma decode_update_loop_append:
  "decode_update_loop ctx out (s @ t) =
     (case decode_update_loop ctx out s of
        (False, ctx, out) \<Rightarrow> (False, ctx, out)
      | (True, ctx, out) \<Rightarrow> decode_update_loop ctx out t)"
  by (induction ctx out s rule: decode_update_loop.induct)
    (simp_all add: Let_def split: option.splits)

lemma decode_update_loop_out:
  "decode_update_loop ctx out s =
     (case decode_update_loop ctx [] s of (ok, ctx, out') \<Rightarrow> (ok, ctx, out @ out'))"
proof (induction s arbitrary: ctx out)
  case Nil
  then show ?case by simp
next
  case (Cons c s)
  let ?c1 = "ctx\<lparr>ctx_data := (ctx_data ctx)[data_used ctx := c], data_used := data_used ctx + 1\<rparr>"
  show ?case
  proof (cases "is_space c \<or> eof_seen ctx \<or> data_used ?c1 \<noteq> 4")
    case True
    then show ?thesis using Cons.IH [of ctx out] Cons.IH [of ?c1 out] by (auto simp: is_space_def)
  next
    case False
    show ?thesis
    proof (cases "base64_decode_quad (ctx_data ?c1)")
      case None
      with False show ?thesis by (simp add: is_space_def)
    next
      case (Some bytes)
      define c2 where "c2 = (let c = ?c1\<lparr>data_used := 0\<rparr> in if length bytes < 3 then c\<lparr>eof_seen := True\<rparr> else c)"
      have "decode_update_loop ctx o' (c # s) = decode_update_loop c2 (o' @ bytes) s" for o'
        using False Some by (simp add: is_space_def c2_def Let_def)
      then show ?thesis using Cons.IH [of c2 "out @ bytes"] Cons.IH [of c2 bytes] by (simp split: prod.splits)
    qed
  qed
qed

lemma decode_update_loop_filter:
  "decode_update_loop ctx out s = decode_update_loop ctx out (filter (\<lambda>c. \<not> is_space c) s)"
  by (induction ctx out s rule: decode_update_loop.induct)
    (simp_all add: is_space_def Let_def split: option.splits)

text \<open>A context at a quad boundary.\<close>

definition at_quad :: "EVP_ENCODE_CTX \<Rightarrow> bool" where
  "at_quad ctx \<longleftrightarrow> data_used ctx = 0 \<and> length (ctx_data ctx) = 48 \<and> \<not> error_encountered ctx"

lemma decode_quad_prefix: "base64_decode_quad d = base64_decode_quad [d ! 0, d ! 1, d ! 2, d ! 3]"
  by (simp add: base64_decode_quad_def)

lemma decode_update_quad:
  assumes ctx: "at_quad ctx" "\<not> eof_seen ctx"
    and chars: "\<forall>c \<in> {w, x, y, z}. \<not> is_space c" and q: "base64_decode_quad [w, x, y, z] = Some bytes"
  shows "\<exists>ctx'. decode_update_loop ctx out ([w, x, y, z] @ rest) = decode_update_loop ctx' (out @ bytes) rest
    \<and> at_quad ctx' \<and> eof_seen ctx' = (length bytes < 3)"
proof -
  let ?d = "(ctx_data ctx)[0 := w, 1 := x, 2 := y, 3 := z]"
  have d: "base64_decode_quad ?d = Some bytes"
    using ctx(1) by (subst decode_quad_prefix) (simp add: at_quad_def q)
  define c2 where "c2 = (let c = ctx\<lparr>ctx_data := ?d, data_used := 0\<rparr>
                         in if length bytes < 3 then c\<lparr>eof_seen := True\<rparr> else c)"
  have "decode_update_loop ctx out ([w, x, y, z] @ rest) = decode_update_loop c2 (out @ bytes) rest"
    using ctx chars d by (simp add: at_quad_def is_space_def Let_def c2_def numeral_2_eq_2 numeral_3_eq_3)
  moreover have "at_quad c2" "eof_seen c2 = (length bytes < 3)"
    using ctx by (simp_all add: at_quad_def c2_def Let_def)
  ultimately show ?thesis by blast
qed

lemma b64_quad_plain: "\<exists>w x y z. b64_quad a b c = [w, x, y, z] \<and> (\<forall>k \<in> {w, x, y, z}. \<not> is_space k)"
  using b64_quad_chars [of a b c] unfolding is_space_def by blast

lemma decode_update_base64:
  "at_quad ctx \<Longrightarrow> \<not> eof_seen ctx \<Longrightarrow>
     \<exists>ctx'. decode_update_loop ctx out (base64 src) = (True, ctx', out @ src) \<and> at_quad ctx'
       \<and> eof_seen ctx' = (length src mod 3 \<noteq> 0)"
proof (induction src arbitrary: ctx out rule: base64.induct)
  case (1 a b c src)
  obtain w x y z where q: "b64_quad a b c = [w, x, y, z]" "\<forall>k \<in> {w, x, y, z}. \<not> is_space k"
    using b64_quad_plain by blast
  with decode_quad3 [of a b c] have "base64_decode_quad [w, x, y, z] = Some [a, b, c]" by simp
  from decode_update_quad [OF 1(2,3) q(2) this, of out "base64 src"] obtain c1 where
    c1: "decode_update_loop ctx out ([w, x, y, z] @ base64 src) = decode_update_loop c1 (out @ [a, b, c]) (base64 src)"
    "at_quad c1" "\<not> eof_seen c1" by auto
  from 1(1) [OF c1(2,3), of "out @ [a, b, c]"] c1(1) q(1) show ?case by (simp del: decode_update_loop.simps)
next
  case (2 a b)
  obtain w x y z where q: "b64_quad a b 0 = [w, x, y, z]" "\<forall>k \<in> {w, x, y, z}. \<not> is_space k"
    using b64_quad_plain by blast
  then have "base64_decode_quad [w, x, y, 61] = Some [a, b]" "\<forall>k \<in> {w, x, y, 61}. \<not> is_space k"
    using decode_quad2 [of a b] by (auto simp: is_space_def)
  from decode_update_quad [OF 2 this(2,1), of out "[]"] q(1) show ?case by auto
next
  case (3 a)
  obtain w x y z where q: "b64_quad a 0 0 = [w, x, y, z]" "\<forall>k \<in> {w, x, y, z}. \<not> is_space k"
    using b64_quad_plain by blast
  then have "base64_decode_quad [w, x, 61, 61] = Some [a]" "\<forall>k \<in> {w, x, 61, 61}. \<not> is_space k"
    using decode_quad1 [of a] by (auto simp: is_space_def)
  from decode_update_quad [OF 3 this(2,1), of out "[]"] q(1) show ?case by auto
next
  case 4
  then show ?case by simp
qed

section \<open>Streaming encoder\<close>

text \<open>The lines for the whole 48-byte blocks of the input, and what is left.\<close>

function b64_lines :: "u8 list \<Rightarrow> u8 list" where
  "b64_lines src =
     (if length src \<ge> 48 then base64 (take 48 src) @ [10] @ b64_lines (drop 48 src) else [])"
  by pat_completeness auto
termination by (relation "measure length") auto

function b64_rest :: "u8 list \<Rightarrow> u8 list" where
  "b64_rest src = (if length src \<ge> 48 then b64_rest (drop 48 src) else src)"
  by pat_completeness auto
termination by (relation "measure length") auto

declare b64_lines.simps [simp del] b64_rest.simps [simp del]

definition b64_text :: "u8 list \<Rightarrow> u8 list" where
  "b64_text src = b64_lines src @ (if b64_rest src = [] then [] else base64 (b64_rest src) @ [10])"

lemma b64_rest_short: "length (b64_rest src) < 48"
  by (induction src rule: b64_rest.induct) (subst b64_rest.simps, simp)

lemma b64_block: "length src \<ge> 48 \<Longrightarrow> b64_lines src = base64 (take 48 src) @ [10] @ b64_lines (drop 48 src)"
  "length src \<ge> 48 \<Longrightarrow> b64_rest src = b64_rest (drop 48 src)"
  "length src < 48 \<Longrightarrow> b64_lines src = []" "length src < 48 \<Longrightarrow> b64_rest src = src"
  by (simp_all add: b64_lines.simps [of src] b64_rest.simps [of src])

lemma b64_split:
  "b64_lines (a @ b) = b64_lines a @ b64_lines (b64_rest a @ b) \<and> b64_rest (a @ b) = b64_rest (b64_rest a @ b)"
proof (induction a rule: b64_rest.induct)
  case (1 a)
  show ?case
  proof (cases "length a \<ge> 48")
    case True
    with 1 show ?thesis by (simp add: b64_block(1,2) [of a] b64_block(1,2) [of "a @ b"])
  next
    case False
    then show ?thesis by (simp add: b64_block(3,4) [of a])
  qed
qed

lemma encode_lines_eq:
  "tot + length (b64_lines inp) < size_t_end \<Longrightarrow>
     encode_lines inp out tot = (True, b64_rest inp, out @ b64_lines inp, tot + length (b64_lines inp))"
proof (induction inp out tot rule: encode_lines.induct)
  case (1 inp out tot)
  show ?case
  proof (cases "length inp \<ge> 48")
    case True
    then have l: "length (base64 (take 48 inp)) = 64" by (simp add: length_base64)
    from 1(2) True have s: "size_add (size_add tot 64) 1 = tot + 65" "size_add tot 65 = tot + 65"
      by (simp_all add: b64_block(1) [OF True] l size_add_small)
    have b: "tot + 65 + length (b64_lines (drop 48 inp)) < size_t_end"
      using 1(2) by (simp add: b64_block(1) [OF True] l)
    have "encode_lines (drop 48 inp) (out @ base64 (take 48 inp) @ [10]) (tot + 65)
        = (True, b64_rest (drop 48 inp), out @ b64_lines inp, tot + length (b64_lines inp))"
      using 1(1) [OF True EVP_EncodeBlock_eq [symmetric] refl refl] s b
      by (simp add: l b64_block(1) [OF True])
    with True s show ?thesis
      by (subst encode_lines.simps) (simp add: EVP_EncodeBlock_eq l b64_block(2))
  next
    case False
    then show ?thesis by (subst encode_lines.simps) (simp add: b64_block(3,4))
  qed
qed

definition enc_wf :: "EVP_ENCODE_CTX \<Rightarrow> bool" where
  "enc_wf ctx \<longleftrightarrow> data_used ctx < 48 \<and> length (ctx_data ctx) = 48"

definition pending :: "EVP_ENCODE_CTX \<Rightarrow> u8 list" where
  "pending ctx = take (data_used ctx) (ctx_data ctx)"

lemma EVP_EncodeUpdate_eq:
  assumes ctx: "enc_wf ctx" and len: "length (b64_lines (pending ctx @ inp)) \<le> INT_MAX"
  shows "\<exists>ctx'. EVP_EncodeUpdate ctx inp =
      (let w = b64_lines (pending ctx @ inp) in (if w = [] then [] else w @ [0], length w, ctx'))
    \<and> enc_wf ctx' \<and> pending ctx' = b64_rest (pending ctx @ inp)"
proof -
  let ?p = "pending ctx"
  have lp: "length ?p = data_used ctx" using ctx by (simp add: pending_def enc_wf_def)
  consider "inp = []" | "inp \<noteq> []" "48 - data_used ctx > length inp" | "inp \<noteq> []" "48 - data_used ctx \<le> length inp"
    by linarith
  then show ?thesis
  proof cases
    case 1
    with ctx lp show ?thesis by (simp add: EVP_EncodeUpdate_def b64_block(3,4) enc_wf_def)
  next
    case 2
    have "take (data_used ctx + length inp) (blit (ctx_data ctx) (data_used ctx) inp) = ?p @ inp"
      using ctx 2 by (simp add: pending_def enc_wf_def take_blit_through)
    with 2 ctx lp show ?thesis
      by (simp add: EVP_EncodeUpdate_def b64_block(3,4) enc_wf_def pending_def Let_def)
  next
    case 3
    define src where "src = ?p @ inp"
    have big: "length src \<ge> 48" using 3 lp by (simp add: src_def)
    have l64: "length (base64 (take 48 src)) = 64" using big by (simp add: length_base64)
    have im: "INT_MAX < size_t_end" by (simp add: INT_MAX_def)
    have "\<exists>inp1 out1 tot1 ctx1. (if data_used ctx \<noteq> 0
                  then let todo = 48 - data_used ctx;
                           ctx = ctx\<lparr>ctx_data := blit (ctx_data ctx) (data_used ctx) (take todo inp)\<rparr>
                       in (case EVP_EncodeBlock (ctx_data ctx) of
                             (dst, encoded) \<Rightarrow>
                               (drop todo inp, take encoded dst @ [10], encoded + 1, ctx\<lparr>data_used := 0\<rparr>))
                  else (inp, [], 0, ctx)) = (inp1, out1, tot1, ctx1)
        \<and> out1 @ b64_lines inp1 = b64_lines src \<and> b64_rest inp1 = b64_rest src \<and> tot1 = length out1
        \<and> length (ctx_data ctx1) = 48"
    proof (cases "data_used ctx = 0")
      case True
      with ctx show ?thesis by (simp add: src_def pending_def enc_wf_def)
    next
      case False
      have t: "blit (ctx_data ctx) (data_used ctx) (take (48 - data_used ctx) inp) = take 48 src"
        using ctx 3 lp by (simp add: blit_def src_def pending_def enc_wf_def)
      have d: "drop (48 - data_used ctx) inp = drop 48 src" using lp ctx by (simp add: src_def enc_wf_def)
      show ?thesis
        using False big b64_block(1,2) [OF big]
        by (simp add: Let_def t d EVP_EncodeBlock_eq l64)
    qed
    then obtain inp1 out1 tot1 ctx1 where
      f: "(if data_used ctx \<noteq> 0
                  then let todo = 48 - data_used ctx;
                           ctx = ctx\<lparr>ctx_data := blit (ctx_data ctx) (data_used ctx) (take todo inp)\<rparr>
                       in (case EVP_EncodeBlock (ctx_data ctx) of
                             (dst, encoded) \<Rightarrow>
                               (drop todo inp, take encoded dst @ [10], encoded + 1, ctx\<lparr>data_used := 0\<rparr>))
                  else (inp, [], 0, ctx)) = (inp1, out1, tot1, ctx1)"
      and o1: "out1 @ b64_lines inp1 = b64_lines src" "b64_rest inp1 = b64_rest src" "tot1 = length out1"
        "length (ctx_data ctx1) = 48" by blast
    have tl: "tot1 + length (b64_lines inp1) = length (b64_lines src)"
      using arg_cong [OF o1(1), of length] o1(3) by simp
    then have "tot1 + length (b64_lines inp1) < size_t_end" using len im by (simp add: src_def)
    note el = encode_lines_eq [OF this, of out1, unfolded tl o1(1,2)]
    have ne: "b64_lines src \<noteq> []" by (simp add: b64_block(1) [OF big])
    have rl: "length (b64_rest src) < 48" by (rule b64_rest_short)
    define ctx2 where "ctx2 = (if length (b64_rest src) \<noteq> 0 then ctx1\<lparr>ctx_data := blit (ctx_data ctx1) 0 (b64_rest src)\<rparr>
        else ctx1)\<lparr>data_used := length (b64_rest src)\<rparr>"
    have "EVP_EncodeUpdate ctx inp = (b64_lines src @ [0], length (b64_lines src), ctx2)"
      using 3 f el ne len unfolding EVP_EncodeUpdate_def
      by (simp add: Let_def src_def [symmetric] ctx2_def not_less)
    moreover have "enc_wf ctx2" using o1(4) rl by (simp add: ctx2_def enc_wf_def)
    moreover have "pending ctx2 = b64_rest src"
      using o1(4) rl by (simp add: ctx2_def pending_def take_blit_through)
    ultimately show ?thesis using ne by (simp add: src_def Let_def)
  qed
qed

lemma EVP_EncodeFinal_eq:
  assumes "enc_wf ctx"
  shows "EVP_EncodeFinal ctx =
    (if pending ctx = [] then ([], 0, ctx)
     else (base64 (pending ctx) @ [10, 0], length (base64 (pending ctx)) + 1, ctx\<lparr>data_used := 0\<rparr>))"
  using assms by (auto simp: EVP_EncodeFinal_def EVP_EncodeBlock_eq pending_def enc_wf_def)

text \<open>Decoding the text of the encoder gives back its input.\<close>

lemma base64_append: "length a mod 3 = 0 \<Longrightarrow> base64 (a @ b) = base64 a @ base64 b"
  by (induction a rule: base64.induct) simp_all

lemma base64_no_space: "filter (\<lambda>c. \<not> is_space c) (base64 src) = base64 src"
proof (induction src rule: base64.induct)
  case (1 a b c src)
  with b64_quad_plain [of a b c] show ?case by auto
next
  case (2 a b)
  from b64_quad_plain [of a b 0] show ?case by (auto simp: is_space_def)
next
  case (3 a)
  from b64_quad_plain [of a 0 0] show ?case by (auto simp: is_space_def)
qed simp

lemma b64_text_filter: "filter (\<lambda>c. \<not> is_space c) (b64_text src) = base64 src"
proof (induction src rule: b64_rest.induct)
  case (1 src)
  have nl: "is_space 10" by (simp add: is_space_def)
  show ?case
  proof (cases "length src \<ge> 48")
    case True
    have "base64 src = base64 (take 48 src) @ base64 (drop 48 src)"
      using True base64_append [of "take 48 src" "drop 48 src"] by simp
    with 1 [OF True] True show ?thesis
      by (auto simp: b64_text_def b64_block(1,2) base64_no_space nl)
  next
    case False
    then show ?thesis by (simp add: b64_text_def b64_block(3,4) base64_no_space nl)
  qed
qed

section \<open>Streams\<close>

text \<open>The loops of a caller that feeds the coders chunk by chunk; \<open>None\<close> when a call returns -1.\<close>

fun encode_stream :: "EVP_ENCODE_CTX \<Rightarrow> u8 list list \<Rightarrow> u8 list \<times> EVP_ENCODE_CTX" where
  "encode_stream ctx [] = ([], ctx)"
| "encode_stream ctx (c # cs) =
     (case EVP_EncodeUpdate ctx c of
        (out, n, ctx) \<Rightarrow> (case encode_stream ctx cs of (rest, ctx) \<Rightarrow> (take n out @ rest, ctx)))"

fun decode_stream :: "EVP_ENCODE_CTX \<Rightarrow> u8 list list \<Rightarrow> (u8 list \<times> EVP_ENCODE_CTX) option" where
  "decode_stream ctx [] = Some ([], ctx)"
| "decode_stream ctx (c # cs) =
     (case EVP_DecodeUpdate ctx c of
        (ret, out, n, ctx) \<Rightarrow>
          if ret < 0 then None
          else (case decode_stream ctx cs of None \<Rightarrow> None | Some (rest, ctx) \<Rightarrow> Some (take n out @ rest, ctx)))"

lemma encode_stream_eq:
  "enc_wf ctx \<Longrightarrow> length (b64_lines (pending ctx @ concat cs)) \<le> INT_MAX \<Longrightarrow>
     \<exists>ctx'. encode_stream ctx cs = (b64_lines (pending ctx @ concat cs), ctx') \<and> enc_wf ctx'
       \<and> pending ctx' = b64_rest (pending ctx @ concat cs)"
proof (induction cs arbitrary: ctx)
  case Nil
  then have "length (pending ctx) < 48" by (simp add: enc_wf_def pending_def)
  with Nil show ?case by (simp add: b64_block)
next
  case (Cons c cs)
  have split: "b64_lines (pending ctx @ concat (c # cs))
      = b64_lines (pending ctx @ c) @ b64_lines (b64_rest (pending ctx @ c) @ concat cs)"
    "b64_rest (pending ctx @ concat (c # cs)) = b64_rest (b64_rest (pending ctx @ c) @ concat cs)"
    using b64_split [of "pending ctx @ c" "concat cs"] by simp_all
  with Cons.prems(2) have "length (b64_lines (pending ctx @ c)) \<le> INT_MAX" by simp
  from EVP_EncodeUpdate_eq [OF Cons.prems(1) this] obtain ctx1 where
    u: "EVP_EncodeUpdate ctx c = (let w = b64_lines (pending ctx @ c) in (if w = [] then [] else w @ [0], length w, ctx1))"
      "enc_wf ctx1" "pending ctx1 = b64_rest (pending ctx @ c)" by blast
  have "length (b64_lines (pending ctx1 @ concat cs)) \<le> INT_MAX" using Cons.prems(2) split u(3) by simp
  from Cons.IH [OF u(2) this] u split show ?case by (auto simp: Let_def)
qed

lemma decode_loop_error:
  "decode_update_loop ctx out s = (True, ctx', out') \<Longrightarrow> error_encountered ctx' = error_encountered ctx"
  by (induction ctx out s rule: decode_update_loop.induct)
    (auto simp: Let_def split: if_splits option.splits)

lemma decode_stream_eq:
  "decode_update_loop ctx [] (concat cs) = (True, ctx', out) \<Longrightarrow> length out \<le> INT_MAX \<Longrightarrow>
     \<not> error_encountered ctx \<Longrightarrow> decode_stream ctx cs = Some (out, ctx')"
proof (induction cs arbitrary: ctx out)
  case (Cons c cs)
  from Cons.prems(1) obtain ctx1 out1 where c: "decode_update_loop ctx [] c = (True, ctx1, out1)"
    and l: "decode_update_loop ctx1 out1 (concat cs) = (True, ctx', out)"
    by (simp add: decode_update_loop_append split: prod.splits bool.splits)
  from l obtain out2 where out2: "decode_update_loop ctx1 [] (concat cs) = (True, ctx', out2)" "out = out1 @ out2"
    by (subst (asm) decode_update_loop_out) (auto split: prod.splits)
  have e: "\<not> error_encountered ctx1" using decode_loop_error [OF c] Cons.prems(3) by simp
  have "length out2 \<le> INT_MAX" using Cons.prems(2) out2(2) by simp
  note IH = Cons.IH [OF out2(1) this e]
  have "\<not> INT_MAX < length out1" using Cons.prems(2) out2(2) by simp
  with IH c out2(2) Cons.prems(3) show ?case by (simp add: EVP_DecodeUpdate_def Let_def)
qed simp

section \<open>Properties\<close>

text \<open>
  C20: Decoding a base64 encoding gives back the input: \<^verbatim>\<open>EVP_EncodeBlock\<close> writes the reference
  encoding, its NUL and nothing else, exactly as many bytes as \<^verbatim>\<open>EVP_EncodedLength\<close> asks the caller
  to allocate, and \<^verbatim>\<open>EVP_DecodeBase64\<close> restores the input from it when given enough room.
\<close>

theorem base64_round_trip:
  assumes "length src < 2 ^ 62" and "(length src + 2) div 3 * 3 \<le> max_out"
  shows "EVP_EncodeBlock src = (base64 src @ [0], length (base64 src))
    \<and> EVP_EncodedLength (length src) = Some (length (fst (EVP_EncodeBlock src)))
    \<and> EVP_DecodeBase64 max_out (base64 src) = Some src"
  using EVP_DecodeBase64_base64 [OF assms(2)] EVP_EncodedLength_exact [OF assms(1)]
  by (simp add: EVP_EncodeBlock_eq length_base64)

theorem base64_round_trip_witness:
  "EVP_EncodeBlock [1, 2, 3, 4] = (base64 [1, 2, 3, 4] @ [0], length (base64 [1, 2, 3, 4]))
    \<and> EVP_EncodedLength (length [1, 2, 3, 4 :: u8]) = Some (length (fst (EVP_EncodeBlock [1, 2, 3, 4])))
    \<and> EVP_DecodeBase64 6 (base64 [1, 2, 3, 4]) = Some [1, 2, 3, 4]"
  by (rule base64_round_trip) simp_all



end
