(* ===== verification/Stack.thy ===== *)
theory Stack
  imports Libc Mem
begin

text \<open>
  \<^verbatim>\<open>crypto/stack/stack.c\<close>: the growable array of pointers. A pointer is \<open>None\<close> for NULL and \<open>Some p\<close>
  otherwise; \<open>sk_data\<close> is the allocated array, whose slots from \<open>sk_count\<close> on hold indeterminate
  values that no operation reads (the model has NULL there after an allocation). A comparison
  function is a code address \<open>c\<close>, called through the parameter \<open>call\<close>: the code compares two such
  addresses for equality. A \<^verbatim>\<open>_STACK *\<close> is an option, \<open>None\<close> for NULL. Pointers have eight bytes.
  An operation returns its result and the stack it leaves.
\<close>

section \<open>State\<close>

record ('p, 'c) STACK =
  sk_count :: nat
  sk_data :: "'p option list"
  sk_sorted :: bool
  sk_num_alloc :: nat
  sk_comp :: "'c option"

type_synonym ('p, 'c) caller = "'c \<Rightarrow> 'p option \<Rightarrow> 'p option \<Rightarrow> int"

definition kMinSize :: nat where "kMinSize = 4"

definition sk_new :: "malloc \<Rightarrow> 'c option \<Rightarrow> ('p, 'c) STACK option" where
  "sk_new M cmp_func =
     (case OPENSSL_malloc M 40 of
        None \<Rightarrow> None
      | Some _ \<Rightarrow>
          (case OPENSSL_malloc M (8 * kMinSize) of
             None \<Rightarrow> None
           | Some _ \<Rightarrow> Some \<lparr>sk_count = 0, sk_data = replicate kMinSize None, sk_sorted = False,
                             sk_num_alloc = kMinSize, sk_comp = cmp_func\<rparr>))"

definition sk_new_null :: "malloc \<Rightarrow> ('p, 'c) STACK option" where
  "sk_new_null M = sk_new M None"

section \<open>Elements\<close>

definition sk_num :: "('p, 'c) STACK option \<Rightarrow> nat" where
  "sk_num sk = (case sk of None \<Rightarrow> 0 | Some s \<Rightarrow> sk_count s)"

definition sk_zero :: "('p, 'c) STACK option \<Rightarrow> ('p, 'c) STACK option" where
  "sk_zero sk =
     (case sk of
        None \<Rightarrow> None
      | Some s \<Rightarrow>
          if sk_count s = 0 then Some s
          else Some (s\<lparr>sk_data := blit (sk_data s) 0 (replicate (sk_count s) None), sk_count := 0,
                      sk_sorted := False\<rparr>))"

definition sk_value :: "('p, 'c) STACK option \<Rightarrow> nat \<Rightarrow> 'p option" where
  "sk_value sk i =
     (case sk of None \<Rightarrow> None | Some s \<Rightarrow> if i \<ge> sk_count s then None else sk_data s ! i)"

definition sk_set :: "('p, 'c) STACK option \<Rightarrow> nat \<Rightarrow> 'p option \<Rightarrow> 'p option \<times> ('p, 'c) STACK option" where
  "sk_set sk i val =
     (case sk of
        None \<Rightarrow> (None, None)
      | Some s \<Rightarrow> if i \<ge> sk_count s then (None, Some s)
                  else (val, Some (s\<lparr>sk_data := (sk_data s)[i := val]\<rparr>)))"

text \<open>The pointers \<^verbatim>\<open>func\<close> is called with, in order.\<close>

definition sk_pop_free :: "('p, 'c) STACK option \<Rightarrow> 'p list" where
  "sk_pop_free sk =
     (case sk of
        None \<Rightarrow> []
      | Some s \<Rightarrow> concat (map (\<lambda>i. case sk_data s ! i of None \<Rightarrow> [] | Some p \<Rightarrow> [p]) [0..<sk_count s]))"

text \<open>
  Making room in \<^verbatim>\<open>sk_insert\<close>: double, or add one slot when doubling overflows; \<open>None\<close> is the
  return of zero. A reallocated array keeps its old slots.
\<close>

definition sk_room :: "malloc \<Rightarrow> ('p, 'c) STACK \<Rightarrow> ('p, 'c) STACK option" where
  "sk_room M s =
     (if sk_num_alloc s \<le> size_add (sk_count s) 1
      then let new_alloc = size_mul (sk_num_alloc s) 2; alloc_size = size_mul new_alloc 8;
               again = new_alloc < sk_num_alloc s \<or> alloc_size div 8 \<noteq> new_alloc;
               new_alloc = (if again then size_add (sk_num_alloc s) 1 else new_alloc);
               alloc_size = (if again then size_mul new_alloc 8 else alloc_size)
           in if new_alloc < sk_num_alloc s \<or> alloc_size div 8 \<noteq> new_alloc then None
              else (case OPENSSL_malloc M alloc_size of
                      None \<Rightarrow> None
                    | Some _ \<Rightarrow> Some (s\<lparr>sk_data := blit (replicate new_alloc None) 0 (take new_alloc (sk_data s)),
                                       sk_num_alloc := new_alloc\<rparr>))
      else Some s)"

definition sk_insert ::
  "malloc \<Rightarrow> ('p, 'c) STACK option \<Rightarrow> 'p option \<Rightarrow> nat \<Rightarrow> nat \<times> ('p, 'c) STACK option" where
  "sk_insert M sk p pos =
     (case sk of
        None \<Rightarrow> (0, None)
      | Some s \<Rightarrow>
          (case sk_room M s of
             None \<Rightarrow> (0, Some s)
           | Some s \<Rightarrow>
               let s = (if pos \<ge> sk_count s then s\<lparr>sk_data := (sk_data s)[sk_count s := p]\<rparr>
                        else s\<lparr>sk_data := (memmove (sk_data s) (pos + 1) pos
                                            (sk_count s - pos))[pos := p]\<rparr>);
                   s = s\<lparr>sk_count := sk_count s + 1, sk_sorted := False\<rparr>
               in (sk_count s, Some s)))"

definition sk_delete :: "('p, 'c) STACK option \<Rightarrow> nat \<Rightarrow> 'p option \<times> ('p, 'c) STACK option" where
  "sk_delete sk pos =
     (case sk of
        None \<Rightarrow> (None, None)
      | Some s \<Rightarrow>
          if pos \<ge> sk_count s then (None, Some s)
          else let ret = sk_data s ! pos;
                   s = (if pos \<noteq> sk_count s - 1
                        then s\<lparr>sk_data := memmove (sk_data s) pos (pos + 1) (sk_count s - pos - 1)\<rparr>
                        else s)
               in (ret, Some (s\<lparr>sk_count := sk_count s - 1\<rparr>)))"

text \<open>The first index below \<open>n\<close> whose slot is \<open>p\<close>, as the loops over \<^verbatim>\<open>sk->data[i] == p\<close> find it.\<close>

definition ptr_index :: "('p, 'c) STACK \<Rightarrow> 'p option \<Rightarrow> nat option" where
  "ptr_index s p = List.find (\<lambda>i. sk_data s ! i = p) [0..<sk_count s]"

definition sk_delete_ptr :: "('p, 'c) STACK option \<Rightarrow> 'p option \<Rightarrow> 'p option \<times> ('p, 'c) STACK option" where
  "sk_delete_ptr sk p =
     (case sk of
        None \<Rightarrow> (None, None)
      | Some s \<Rightarrow> (case ptr_index s p of None \<Rightarrow> (None, Some s) | Some i \<Rightarrow> sk_delete (Some s) i))"

definition sk_shift :: "('p, 'c) STACK option \<Rightarrow> 'p option \<times> ('p, 'c) STACK option" where
  "sk_shift sk =
     (case sk of
        None \<Rightarrow> (None, None)
      | Some s \<Rightarrow> if sk_count s = 0 then (None, Some s) else sk_delete (Some s) 0)"

text \<open>\<^verbatim>\<open>sk_push\<close> dereferences \<^verbatim>\<open>sk\<close>; \<open>None\<close> as a result stands for a NULL argument.\<close>

definition sk_push :: "malloc \<Rightarrow> ('p, 'c) STACK option \<Rightarrow> 'p option \<Rightarrow> (nat \<times> ('p, 'c) STACK option) option" where
  "sk_push M sk p = (case sk of None \<Rightarrow> None | Some s \<Rightarrow> Some (sk_insert M (Some s) p (sk_count s)))"

definition sk_pop :: "('p, 'c) STACK option \<Rightarrow> 'p option \<times> ('p, 'c) STACK option" where
  "sk_pop sk =
     (case sk of
        None \<Rightarrow> (None, None)
      | Some s \<Rightarrow> if sk_count s = 0 then (None, Some s) else sk_delete (Some s) (sk_count s - 1))"

section \<open>Sorting and searching\<close>

definition sk_sort :: "'p option qsort \<Rightarrow> ('p, 'c) caller \<Rightarrow> ('p, 'c) STACK option \<Rightarrow> ('p, 'c) STACK option" where
  "sk_sort qsort call sk =
     (case sk of
        None \<Rightarrow> None
      | Some s \<Rightarrow>
          (case sk_comp s of
             None \<Rightarrow> Some s
           | Some cmp_func \<Rightarrow>
               if sk_sorted s then Some s
               else Some (s\<lparr>sk_data := blit (sk_data s) 0 (qsort (call cmp_func) (take (sk_count s) (sk_data s))),
                           sk_sorted := True\<rparr>)))"

definition sk_is_sorted :: "('p, 'c) STACK option \<Rightarrow> bool" where
  "sk_is_sorted sk = (case sk of None \<Rightarrow> True | Some s \<Rightarrow> sk_sorted s)"

text \<open>The loop that walks back to the first equal element.\<close>

fun first_equal :: "('p option \<Rightarrow> 'p option \<Rightarrow> int) \<Rightarrow> 'p option \<Rightarrow> 'p option list \<Rightarrow> nat \<Rightarrow> nat" where
  "first_equal cmp p data 0 = 0"
| "first_equal cmp p data (Suc idx) = (if cmp p (data ! idx) = 0 then first_equal cmp p data idx else Suc idx)"

text \<open>The result is the index, \<open>None\<close> for the return value zero, and the stack, which may get sorted.\<close>

definition sk_find ::
  "'p option qsort \<Rightarrow> 'p option bsearch \<Rightarrow> ('p, 'c) caller \<Rightarrow> ('p, 'c) STACK option \<Rightarrow> 'p option \<Rightarrow>
     nat option \<times> ('p, 'c) STACK option" where
  "sk_find qsort bsearch call sk p =
     (case sk of
        None \<Rightarrow> (None, None)
      | Some s \<Rightarrow>
          (case sk_comp s of
             None \<Rightarrow> (ptr_index s p, Some s)
           | Some cmp_func \<Rightarrow>
               if p = None then (None, Some s)
               else (case sk_sort qsort call (Some s) of
                       None \<Rightarrow> (None, None)
                     | Some s \<Rightarrow>
                         (case bsearch (call cmp_func) p (take (sk_count s) (sk_data s)) of
                            None \<Rightarrow> (None, Some s)
                          | Some idx \<Rightarrow> (Some (first_equal (call cmp_func) p (sk_data s) idx), Some s)))))"

text \<open>\<^verbatim>\<open>sk_set_cmp_func\<close> dereferences \<^verbatim>\<open>sk\<close>.\<close>

definition sk_set_cmp_func :: "('p, 'c) STACK \<Rightarrow> 'c option \<Rightarrow> 'c option \<times> ('p, 'c) STACK" where
  "sk_set_cmp_func s cmp_func =
     (sk_comp s, s\<lparr>sk_sorted := (if sk_comp s \<noteq> cmp_func then False else sk_sorted s), sk_comp := cmp_func\<rparr>)"

section \<open>Copies\<close>

definition sk_dup :: "malloc \<Rightarrow> ('p, 'c) STACK option \<Rightarrow> ('p, 'c) STACK option" where
  "sk_dup M sk =
     (case sk of
        None \<Rightarrow> None
      | Some s \<Rightarrow>
          (case sk_new M (sk_comp s) :: ('p, 'c) STACK option of
             None \<Rightarrow> None
           | Some ret \<Rightarrow>
               (case OPENSSL_malloc M (size_mul 8 (sk_num_alloc s)) of
                  None \<Rightarrow> None
                | Some _ \<Rightarrow>
                    let data = blit (replicate (sk_num_alloc s) None) 0 (take (sk_num_alloc s) (sk_data ret))
                    in Some (ret\<lparr>sk_data := blit data 0 (take (sk_count s) (sk_data s)), sk_count := sk_count s,
                                sk_sorted := sk_sorted s, sk_num_alloc := sk_num_alloc s,
                                sk_comp := sk_comp s\<rparr>))))"

text \<open>
  The loop of \<^verbatim>\<open>sk_deep_copy\<close> over the slots from \<open>i\<close> on: \<open>copy_func\<close> returns NULL when it fails.
  The result is the array, or the pointers \<^verbatim>\<open>free_func\<close> is called with on failure.
\<close>

function deep_copy_loop :: "('p \<Rightarrow> 'p option) \<Rightarrow> nat \<Rightarrow> 'p option list \<Rightarrow> nat \<Rightarrow> 'p list + 'p option list" where
  "deep_copy_loop copy_func num data i =
     (if i < num
      then (case data ! i of
              None \<Rightarrow> deep_copy_loop copy_func num data (i + 1)
            | Some p \<Rightarrow>
                (case copy_func p of
                   None \<Rightarrow> Inl (concat (map (\<lambda>j. case data ! j of None \<Rightarrow> [] | Some q \<Rightarrow> [q]) [0..<i]))
                 | Some q \<Rightarrow> deep_copy_loop copy_func num (data[i := Some q]) (i + 1)))
      else Inr data)"
  by pat_completeness auto
termination by (relation "measure (\<lambda>(c, num, data, i). num - i)") auto

declare deep_copy_loop.simps [simp del]

text \<open>The result is the copy and the pointers that were freed.\<close>

definition sk_deep_copy ::
  "malloc \<Rightarrow> ('p, 'c) STACK option \<Rightarrow> ('p \<Rightarrow> 'p option) \<Rightarrow> ('p, 'c) STACK option \<times> 'p list" where
  "sk_deep_copy M sk copy_func =
     (case sk_dup M sk of
        None \<Rightarrow> (None, [])
      | Some ret \<Rightarrow>
          (case deep_copy_loop copy_func (sk_count ret) (sk_data ret) 0 of
             Inl freed \<Rightarrow> (None, freed)
           | Inr data \<Rightarrow> (Some (ret\<lparr>sk_data := data\<rparr>), [])))"

section \<open>Invariant and contents\<close>

definition sk_wf :: "('p, 'c) STACK \<Rightarrow> bool" where
  "sk_wf s \<longleftrightarrow> sk_count s \<le> sk_num_alloc s \<and> length (sk_data s) = sk_num_alloc s
     \<and> kMinSize \<le> sk_num_alloc s \<and> sk_num_alloc s < 2 ^ 62"

definition elems :: "('p, 'c) STACK \<Rightarrow> 'p option list" where
  "elems s = take (sk_count s) (sk_data s)"

lemma length_elems: "sk_wf s \<Longrightarrow> length (elems s) = sk_count s"
  by (simp add: sk_wf_def elems_def)

lemma sk_new_wf:
  assumes "sk_new M cmp_func = Some s"
  shows "sk_wf s" "elems s = []" "sk_comp s = cmp_func" "\<not> sk_sorted s"
  using assms by (auto simp: sk_new_def sk_wf_def elems_def kMinSize_def split: option.splits)

lemma sk_room_Some:
  assumes M: "malloc_spec M" and s: "sk_wf s" and r: "sk_room M s = Some s'"
  shows "sk_wf s'" "elems s' = elems s" "sk_count s' = sk_count s" "sk_count s' < sk_num_alloc s'"
    "sk_comp s' = sk_comp s" "sk_sorted s' = sk_sorted s"
proof -
  have sz: "size_add (sk_count s) 1 = sk_count s + 1" "size_mul (sk_num_alloc s) 2 = sk_num_alloc s * 2"
    using s by (simp_all add: sk_wf_def size_add_small size_mul_small)
  have *: "sk_wf s' \<and> elems s' = elems s \<and> sk_count s' = sk_count s \<and> sk_count s' < sk_num_alloc s'
    \<and> sk_comp s' = sk_comp s \<and> sk_sorted s' = sk_sorted s"
  proof (cases "sk_num_alloc s \<le> sk_count s + 1")
    case False
    with r [unfolded sk_room_def sz] s show ?thesis by (auto simp: sk_wf_def)
  next
    case True
    let ?n = "sk_num_alloc s * 2" and ?m = "size_add (sk_num_alloc s) 1"
    define n where "n = (if size_mul ?n 8 div 8 \<noteq> ?n then ?m else ?n)"
    have m: "?m = sk_num_alloc s + 1" using s by (simp add: sk_wf_def size_add_small)
    from True r sz obtain b where a: "OPENSSL_malloc M (size_mul n 8) = Some b" and q: "size_mul n 8 div 8 = n"
      and s': "s' = s\<lparr>sk_data := blit (replicate n None) 0 (take n (sk_data s)), sk_num_alloc := n\<rparr>"
      by (auto simp: sk_room_def Let_def n_def split: option.splits if_splits)
    have ge: "sk_num_alloc s < n" "n \<le> 2 ^ 63" using s m by (auto simp: n_def sk_wf_def kMinSize_def)
    have n8: "size_mul n 8 = n * 8"
    proof -
      have "size_mul n 8 div 8 * 8 = size_mul n 8"
        by (rule dvd_div_mult_self) (simp add: size_mul_def mod_mod_cancel dvd_mod)
      then show ?thesis by (simp only: q)
    qed
    have "n * 8 < size_t_end - 8 \<or> n * 8 \<ge> size_t_end - 8" by linarith
    then have "n < 2 ^ 62"
    proof
      assume "n * 8 < size_t_end - 8"
      then show ?thesis by simp
    next
      assume big: "n * 8 \<ge> size_t_end - 8"
      have "n * 8 < size_t_end" using n8 by (metis size_mul_def mod_less_divisor zero_less_numeral)
      then show ?thesis by simp
    qed
    then show ?thesis
      using s ge by (simp add: s' sk_wf_def elems_def take_blit_before blit_def min_def)
  qed
  then show "sk_wf s'" "elems s' = elems s" "sk_count s' = sk_count s" "sk_count s' < sk_num_alloc s'"
    "sk_comp s' = sk_comp s" "sk_sorted s' = sk_sorted s" by simp_all
qed

text \<open>What the operations do to the list of elements.\<close>

lemma sk_insert_elems:
  assumes M: "malloc_spec M" and s: "sk_wf s" and r: "sk_insert M (Some s) p w = (n, Some s')" and n: "n \<noteq> 0"
  shows "sk_wf s'" and "elems s' = take w (elems s) @ [p] @ drop w (elems s)" and "n = length (elems s) + 1"
    and "sk_comp s' = sk_comp s" and "\<not> sk_sorted s'"
proof -
  from r n obtain s1 where r1: "sk_room M s = Some s1" by (auto simp: sk_insert_def split: option.splits)
  note R = sk_room_Some [OF M s r1]
  have l: "sk_count s1 < length (sk_data s1)" using R(1,4) by (simp add: sk_wf_def)
  have e: "take (sk_count s) (sk_data s1) = elems s" using R(2,3) by (simp add: elems_def)
  have *: "sk_wf s' \<and> elems s' = take w (elems s) @ [p] @ drop w (elems s) \<and> n = length (elems s) + 1
    \<and> sk_comp s' = sk_comp s \<and> \<not> sk_sorted s'"
  proof (cases "w \<ge> sk_count s")
    case True
    with r r1 R have s': "s' = s1\<lparr>sk_data := (sk_data s1)[sk_count s := p], sk_count := sk_count s + 1, sk_sorted := False\<rparr>"
      and n': "n = sk_count s + 1" by (auto simp: sk_insert_def Let_def)
    have "elems s' = elems s @ [p]"
      using l R(3) e by (simp add: s' elems_def take_Suc_conv_app_nth take_update_cancel)
    then show ?thesis
      using True R l length_elems [OF s] n' by (simp add: s' sk_wf_def)
  next
    case False
    define d where "d = memmove (sk_data s1) (w + 1) w (sk_count s - w)"
    from False r r1 R have s': "s' = s1\<lparr>sk_data := d[w := p], sk_count := sk_count s + 1, sk_sorted := False\<rparr>"
      and n': "n = sk_count s + 1" by (auto simp: sk_insert_def Let_def d_def)
    have ld: "length d = length (sk_data s1)" using l R(3) False by (simp add: d_def)
    have mid: "take (sk_count s - w) (drop w (sk_data s1)) = drop w (elems s)"
      by (simp add: drop_take flip: e)
    have le: "length (elems s) = sk_count s" by (rule length_elems [OF s])
    have "take (sk_count s + 1) d = take (w + 1) (sk_data s1) @ drop w (elems s)"
      unfolding d_def memmove_def mid using l R(3) False le by (intro take_blit_through) simp_all
    then have "take (sk_count s + 1) (d[w := p]) = (take (w + 1) (sk_data s1))[w := p] @ drop w (elems s)"
      using l R(3) False by (simp add: take_update_swap list_update_append)
    also have "(take (w + 1) (sk_data s1))[w := p] = take w (elems s) @ [p]"
      using l R(3) False by (simp add: take_Suc_conv_app_nth list_update_append flip: e)
    finally have "elems s' = take w (elems s) @ [p] @ drop w (elems s)" by (simp add: s' elems_def)
    then show ?thesis using R l ld le n' by (simp add: s' sk_wf_def)
  qed
  then show "sk_wf s'" "elems s' = take w (elems s) @ [p] @ drop w (elems s)" "n = length (elems s) + 1"
    "sk_comp s' = sk_comp s" "\<not> sk_sorted s'" by simp_all
qed

lemma sk_delete_elems:
  assumes s: "sk_wf s" and i: "i < sk_count s"
  shows "\<exists>s'. sk_delete (Some s) i = (elems s ! i, Some s') \<and> sk_wf s'
    \<and> elems s' = take i (elems s) @ drop (Suc i) (elems s) \<and> sk_comp s' = sk_comp s \<and> sk_sorted s' = sk_sorted s"
proof -
  have len: "length (elems s) = sk_count s" by (rule length_elems [OF s])
  have ret: "sk_data s ! i = elems s ! i" using i by (simp add: elems_def)
  show ?thesis
  proof (cases "i = sk_count s - 1")
    case True
    then have "take (sk_count s - 1) (sk_data s) = take i (elems s)" by (simp add: elems_def min_def)
    with True s i len ret show ?thesis
      by (simp add: sk_delete_def sk_wf_def elems_def)
  next
    case False
    define k where "k = sk_count s - i - 1"
    define d where "d = memmove (sk_data s) i (i + 1) k"
    have l: "sk_count s \<le> length (sk_data s)" using s by (simp add: sk_wf_def)
    have ld: "length d = length (sk_data s)" using l i by (simp add: d_def k_def)
    have mid: "take k (drop (i + 1) (sk_data s)) = drop (Suc i) (elems s)"
      using i by (simp add: elems_def drop_take k_def)
    have "take (sk_count s - 1) d = take i (sk_data s) @ drop (Suc i) (elems s)"
      unfolding d_def memmove_def mid using l i len by (intro take_blit_through) simp_all
    moreover have "take i (sk_data s) = take i (elems s)" using i by (simp add: elems_def min_def)
    ultimately have e: "take (sk_count s - 1) d = take i (elems s) @ drop (Suc i) (elems s)" by simp
    have "sk_delete (Some s) i = (elems s ! i, Some (s\<lparr>sk_data := d, sk_count := sk_count s - 1\<rparr>))"
      using False i ret by (simp add: sk_delete_def d_def k_def)
    moreover have "sk_wf (s\<lparr>sk_data := d, sk_count := sk_count s - 1\<rparr>)"
      using s ld by (simp add: sk_wf_def le_trans [OF diff_le_self])
    ultimately show ?thesis using e by (simp add: elems_def)
  qed
qed

text \<open>Sorting and the flag.\<close>

definition call_ok :: "('p, 'c) caller \<Rightarrow> bool" where
  "call_ok call \<longleftrightarrow> (\<forall>c. comparison_on (call c) UNIV)"

definition flag_ok :: "('p, 'c) caller \<Rightarrow> ('p, 'c) STACK \<Rightarrow> bool" where
  "flag_ok call s \<longleftrightarrow>
     (sk_sorted s \<longrightarrow> (\<forall>c. sk_comp s = Some c \<longrightarrow> sorted_wrt (\<lambda>a b. call c a b \<le> 0) (elems s)))"

lemma comparison_on_UNIV: "comparison_on cmp UNIV \<Longrightarrow> comparison_on cmp A"
  unfolding comparison_on_def by blast

lemma sk_sort_elems:
  assumes q: "qsort_spec q" and call: "call_ok call" and s: "sk_wf s" and f: "flag_ok call s" and c: "sk_comp s = Some c"
  shows "\<exists>s'. sk_sort q call (Some s) = Some s' \<and> sk_wf s' \<and> mset (elems s') = mset (elems s)
    \<and> sorted_wrt (\<lambda>a b. call c a b \<le> 0) (elems s') \<and> sk_comp s' = Some c \<and> sk_sorted s'
    \<and> sk_count s' = sk_count s"
proof (cases "sk_sorted s")
  case True
  with f c s show ?thesis by (simp add: sk_sort_def flag_ok_def)
next
  case False
  let ?d = "q (call c) (elems s)"
  have d: "mset ?d = mset (elems s)" "sorted_wrt (\<lambda>a b. call c a b \<le> 0) ?d"
    using q comparison_on_UNIV [of "call c" "set (elems s)"] call unfolding qsort_spec_def call_ok_def by blast+
  then have l: "length ?d = sk_count s" using length_elems [OF s] by (metis size_mset)
  then have "take (sk_count s) (blit (sk_data s) 0 ?d) = ?d"
    using s by (simp add: sk_wf_def take_blit_through)
  with False c s d l show ?thesis
    by (simp add: sk_sort_def sk_wf_def elems_def)
qed

lemma first_equal_spec:
  assumes "idx < length xs" and "cmp p (xs ! idx) = 0"
    and mono: "\<And>i j. i \<le> j \<Longrightarrow> j \<le> idx \<Longrightarrow> cmp p (xs ! i) = 0 \<Longrightarrow> cmp p (xs ! j) = 0"
  shows "first_equal cmp p xs idx \<le> idx \<and> cmp p (xs ! first_equal cmp p xs idx) = 0
    \<and> (\<forall>j < first_equal cmp p xs idx. cmp p (xs ! j) \<noteq> 0)"
  using assms
proof (induction idx)
  case (Suc idx)
  show ?case
  proof (cases "cmp p (xs ! idx) = 0")
    case True
    have "first_equal cmp p xs idx \<le> idx \<and> cmp p (xs ! first_equal cmp p xs idx) = 0
      \<and> (\<forall>j < first_equal cmp p xs idx. cmp p (xs ! j) \<noteq> 0)"
      by (rule Suc.IH) (use Suc.prems True in auto)
    with True show ?thesis by auto
  next
    case False
    have "cmp p (xs ! j) \<noteq> 0" if "j < Suc idx" for j
    proof
      assume "cmp p (xs ! j) = 0"
      from Suc.prems(3) [OF _ _ this, of idx] that False show False by simp
    qed
    with False Suc.prems(2) show ?thesis by simp
  qed
qed simp

lemma sk_find_sound:
  assumes q: "qsort_spec q" and bs: "bsearch_spec bs" and call: "call_ok call" and s: "sk_wf s"
    and f: "flag_ok call s" and c: "sk_comp s = Some c" and p: "p \<noteq> None"
  shows "\<exists>s'. snd (sk_find q bs call (Some s) p) = Some s' \<and> sk_wf s' \<and> mset (elems s') = mset (elems s)
    \<and> (case fst (sk_find q bs call (Some s) p) of
         None \<Rightarrow> \<forall>x \<in> set (elems s). call c p x \<noteq> 0
       | Some i \<Rightarrow> i < length (elems s') \<and> call c p (elems s' ! i) = 0
                 \<and> (\<forall>j < i. call c p (elems s' ! j) \<noteq> 0))"
proof -
  from sk_sort_elems [OF q call s f c] obtain s' where
    so: "sk_sort q call (Some s) = Some s'" "sk_wf s'" "mset (elems s') = mset (elems s)"
    "sorted_wrt (\<lambda>a b. call c a b \<le> 0) (elems s')" by blast
  let ?xs = "elems s'"
  have cmp: "call c a b \<le> 0 \<or> call c b a \<le> 0" "call c a b < 0 \<longleftrightarrow> \<not> call c b a \<le> 0"
    "call c a b \<le> 0 \<Longrightarrow> call c b d \<le> 0 \<Longrightarrow> call c a d \<le> 0" for a b d
    using call unfolding call_ok_def comparison_on_def by blast+
  have le: "call c (?xs ! i) (?xs ! j) \<le> 0" if "i < j" "j < length ?xs" for i j
    using so(4) that by (rule sorted_wrt_nth_less)
  have part: "(call c p (?xs ! i) < 0 \<longrightarrow> call c p (?xs ! j) < 0) \<and> (call c p (?xs ! i) = 0 \<longrightarrow> call c p (?xs ! j) \<le> 0)"
    if "i < j" "j < length ?xs" for i j
    using le [OF that] cmp(2) [of p "?xs ! i"] cmp(2) [of p "?xs ! j"] cmp(3) [of p "?xs ! i" "?xs ! j"]
      cmp(3) [of "?xs ! i" "?xs ! j" p] by linarith
  have B: "case bs (call c) p ?xs of None \<Rightarrow> \<forall>x \<in> set ?xs. call c p x \<noteq> 0
      | Some i \<Rightarrow> i < length ?xs \<and> call c p (?xs ! i) = 0"
    using bs part unfolding bsearch_spec_def by blast
  have fi: "sk_find q bs call (Some s) p = (case bs (call c) p ?xs of
      None \<Rightarrow> (None, Some s') | Some idx \<Rightarrow> (Some (first_equal (call c) p (sk_data s') idx), Some s'))"
  proof -
    from p obtain y where "p = Some y" by blast
    with c so(1) show ?thesis by (simp add: sk_find_def elems_def split: option.splits)
  qed
  show ?thesis
  proof (cases "bs (call c) p ?xs")
    case None
    have "set ?xs = set (elems s)" using so(3) by (metis set_mset_mset)
    with None B fi so show ?thesis by simp
  next
    case (Some idx)
    with B have idx: "idx < length ?xs" "call c p (?xs ! idx) = 0" by simp_all
    have d: "sk_data s' ! i = ?xs ! i" if "i < length ?xs" for i using that by (simp add: elems_def)
    have l: "length ?xs \<le> length (sk_data s')" by (simp add: elems_def)
    have mono: "call c p (?xs ! j) = 0" if "i \<le> j" "j \<le> idx" "call c p (?xs ! i) = 0" for i j
      using that part [of i j] part [of j idx] idx by (cases "i = j"; cases "j = idx") auto
    have "first_equal (call c) p (sk_data s') idx \<le> idx
      \<and> call c p (sk_data s' ! first_equal (call c) p (sk_data s') idx) = 0
      \<and> (\<forall>j < first_equal (call c) p (sk_data s') idx. call c p (sk_data s' ! j) \<noteq> 0)"
      by (rule first_equal_spec) (use idx d l mono in auto)
    then show ?thesis using Some fi so idx d by auto
  qed
qed

section \<open>Copies\<close>

lemma sk_dup_elems:
  assumes s: "sk_wf s" and r: "sk_dup M (Some s) = Some s'"
  shows "sk_wf s'" "elems s' = elems s" "sk_sorted s' = sk_sorted s" "sk_comp s' = sk_comp s"
proof -
  from r obtain ret where n: "sk_new M (sk_comp s) = Some ret"
    and s': "s' = ret\<lparr>sk_data := blit (blit (replicate (sk_num_alloc s) None) 0 (take (sk_num_alloc s) (sk_data ret)))
        0 (take (sk_count s) (sk_data s)), sk_count := sk_count s, sk_sorted := sk_sorted s,
        sk_num_alloc := sk_num_alloc s, sk_comp := sk_comp s\<rparr>"
    by (auto simp: sk_dup_def Let_def split: option.splits)
  have l: "length (sk_data s) = sk_num_alloc s" "sk_count s \<le> sk_num_alloc s" using s by (simp_all add: sk_wf_def)
  let ?b = "blit (replicate (sk_num_alloc s) None) 0 (take (sk_num_alloc s) (sk_data ret))"
  have lb: "length ?b = sk_num_alloc s" by simp
  have "take (sk_count s) (blit ?b 0 (take (sk_count s) (sk_data s))) = take (sk_count s) (sk_data s)"
    using l lb by (subst take_blit_through) simp_all
  with s l lb show "sk_wf s'" "elems s' = elems s" "sk_sorted s' = sk_sorted s" "sk_comp s' = sk_comp s"
    by (simp_all add: s' sk_wf_def elems_def)
qed

text \<open>A deep copy copies every non-NULL element, or frees exactly the copies it has made.\<close>

definition copied :: "('p \<Rightarrow> 'p option) \<Rightarrow> 'p option \<Rightarrow> 'p option" where
  "copied copy_func x = (case x of None \<Rightarrow> None | Some p \<Rightarrow> copy_func p)"

definition non_null :: "'p option list \<Rightarrow> 'p list" where
  "non_null xs = concat (map (\<lambda>x. case x of None \<Rightarrow> [] | Some p \<Rightarrow> [p]) xs)"

lemma non_null_upto: "i \<le> length data \<Longrightarrow>
    concat (map (\<lambda>j. case data ! j of None \<Rightarrow> [] | Some q \<Rightarrow> [q]) [0..<i]) = non_null (take i data)"
proof -
  assume "i \<le> length data"
  then have "take i data = map ((!) data) [0..<i]" by (simp add: list_eq_iff_nth_eq)
  then show ?thesis by (simp add: non_null_def o_def)
qed

lemma deep_copy_loop_spec:
  assumes "n \<le> length data" and "i \<le> n"
    and "\<forall>j < i. orig ! j \<noteq> None \<longrightarrow> copied cf (orig ! j) \<noteq> None"
    and "take i data = map (copied cf) (take i orig)" and "drop i data = drop i orig" and "length orig = length data"
  shows "case deep_copy_loop cf n data i of
      Inr d \<Rightarrow> d = map (copied cf) (take n orig) @ drop n orig
        \<and> (\<forall>j < n. orig ! j \<noteq> None \<longrightarrow> copied cf (orig ! j) \<noteq> None)
    | Inl freed \<Rightarrow> \<exists>k < n. orig ! k \<noteq> None \<and> copied cf (orig ! k) = None
        \<and> freed = non_null (map (copied cf) (take k orig))"
  using assms
proof (induction cf n data i rule: deep_copy_loop.induct)
  case (1 cf n data i)
  show ?case
  proof (cases "i < n")
    case False
    with "1.prems" have "i = n" by simp
    with "1.prems" have "data = map (copied cf) (take n orig) @ drop n orig" by (metis append_take_drop_id)
    with False \<open>i = n\<close> "1.prems"(3) show ?thesis by (subst deep_copy_loop.simps) simp
  next
    case True
    have di: "data ! i = orig ! i"
      using "1.prems"(1,5,6) True by (metis Cons_nth_drop_Suc le_trans less_imp_le less_le_trans list.inject)
    have tk: "take (Suc i) xs = take i xs @ [xs ! i]" if "length xs = length data" for xs :: "'a option list"
      using that True "1.prems"(1) by (intro take_Suc_conv_app_nth) simp
    have dr: "drop (Suc i) data = drop (Suc i) orig" using arg_cong [OF "1.prems"(5), of tl] by (simp add: drop_Suc tl_drop)
    show ?thesis
    proof (cases "data ! i")
      case None
      have "take (i + 1) data = map (copied cf) (take (i + 1) orig)"
        using "1.prems"(4,6) None di tk [of data] tk [of orig] by (simp add: copied_def)
      moreover have "\<forall>j < i + 1. orig ! j \<noteq> None \<longrightarrow> copied cf (orig ! j) \<noteq> None"
        using "1.prems"(3) None di by (auto simp: less_Suc_eq)
      ultimately show ?thesis
        using "1.IH"(1) [OF True None] "1.prems" True None dr by (subst deep_copy_loop.simps) simp
    next
      case (Some p)
      show ?thesis
      proof (cases "cf p")
        case None
        have "deep_copy_loop cf n data i = Inl (non_null (take i data))"
          using True Some None non_null_upto [of i data] "1.prems"(1)
          by (subst deep_copy_loop.simps) simp
        moreover have "copied cf (orig ! i) = None" "orig ! i \<noteq> None" using Some None di by (simp_all add: copied_def)
        ultimately show ?thesis using True "1.prems"(4) by (auto intro!: exI [of _ i])
      next
        case q: (Some q)
        have "take (i + 1) (data[i := Some q]) = map (copied cf) (take (i + 1) orig)"
          using "1.prems"(1,4,6) Some q di True tk [of "data[i := Some q]"] tk [of orig]
          by (simp add: copied_def)
        moreover have "\<forall>j < i + 1. orig ! j \<noteq> None \<longrightarrow> copied cf (orig ! j) \<noteq> None"
          using "1.prems"(3) Some q di by (auto simp: less_Suc_eq copied_def)
        ultimately show ?thesis
          using "1.IH"(2) [OF True Some q] "1.prems" True Some q dr by (subst deep_copy_loop.simps) simp
      qed
    qed
  qed
qed

section \<open>Reachable stacks\<close>

text \<open>
  The operations that change a stack, as a step relation. \<^verbatim>\<open>sk_set\<close> is left out: it does not reset
  the flag (lemma \<open>sk_set_elems\<close>).
\<close>

inductive sk_step :: "malloc \<Rightarrow> 'p option qsort \<Rightarrow> ('p, 'c) caller \<Rightarrow> ('p, 'c) STACK \<Rightarrow> ('p, 'c) STACK \<Rightarrow> bool"
  for M q call where
  step_insert: "sk_insert M (Some s) p i = (n, Some s') \<Longrightarrow> sk_step M q call s s'"
| step_delete: "sk_delete (Some s) i = (p, Some s') \<Longrightarrow> sk_step M q call s s'"
| step_zero: "sk_zero (Some s) = Some s' \<Longrightarrow> sk_step M q call s s'"
| step_sort: "sk_sort q call (Some s) = Some s' \<Longrightarrow> sk_step M q call s s'"
| step_set_cmp: "sk_set_cmp_func s c = (old, s') \<Longrightarrow> sk_step M q call s s'"

inductive sk_reachable :: "malloc \<Rightarrow> 'p option qsort \<Rightarrow> ('p, 'c) caller \<Rightarrow> ('p, 'c) STACK \<Rightarrow> bool"
  for M q call where
  reach_new: "sk_new M c = Some s \<Longrightarrow> sk_reachable M q call s"
| reach_step: "sk_reachable M q call s \<Longrightarrow> sk_step M q call s s' \<Longrightarrow> sk_reachable M q call s'"

lemma sk_insert_fail: "sk_insert M (Some s) p i = (0, Some s') \<Longrightarrow> s' = s"
  by (auto simp: sk_insert_def Let_def split: option.splits)

lemma sorted_wrt_delete:
  assumes "sorted_wrt P xs"
  shows "sorted_wrt P (take i xs @ drop (Suc i) xs)"
proof -
  have "sorted_wrt P (take i xs @ drop i xs)" using assms by simp
  then show ?thesis
    unfolding sorted_wrt_append using assms
    by (auto simp: sorted_wrt_drop dest: in_set_dropD) (metis drop_Suc in_set_dropD drop_drop set_drop_subset_set_drop subsetD lessI less_imp_le)
qed

lemma sk_step_keeps:
  assumes M: "malloc_spec M" and q: "qsort_spec q" and call: "call_ok call"
    and st: "sk_step M q call s s'" and s: "sk_wf s" "flag_ok call s"
  shows "sk_wf s' \<and> flag_ok call s'"
  using st
proof cases
  case (step_insert p i n)
  then show ?thesis
    using sk_insert_elems [OF M s(1) step_insert] sk_insert_fail [of M s p i s'] s
    by (cases "n = 0") (auto simp: flag_ok_def)
next
  case (step_delete i p)
  show ?thesis
  proof (cases "i < sk_count s")
    case True
    with sk_delete_elems [OF s(1) True] step_delete s(2) sorted_wrt_delete show ?thesis by (auto simp: flag_ok_def)
  next
    case False
    with step_delete s show ?thesis by (simp add: sk_delete_def)
  qed
next
  case step_zero
  with s show ?thesis
    by (auto simp: sk_zero_def sk_wf_def flag_ok_def elems_def split: if_splits)
next
  case step_sort
  show ?thesis
  proof (cases "sk_comp s")
    case None
    with step_sort s show ?thesis by (simp add: sk_sort_def)
  next
    case (Some c)
    from sk_sort_elems [OF q call s Some] step_sort show ?thesis by (auto simp: flag_ok_def)
  qed
next
  case (step_set_cmp c old)
  with s show ?thesis by (auto simp: sk_set_cmp_func_def sk_wf_def flag_ok_def elems_def split: if_splits)
qed

lemma sk_reachable_ok:
  assumes M: "malloc_spec M" and q: "qsort_spec q" and call: "call_ok call"
  shows "sk_reachable M q call s \<Longrightarrow> sk_wf s \<and> flag_ok call s"
proof (induction rule: sk_reachable.induct)
  case (reach_new c s)
  from sk_new_wf [OF this] show ?case by (simp add: flag_ok_def)
next
  case (reach_step s s')
  with sk_step_keeps [OF M q call] show ?case by blast
qed

lemma sk_set_elems:
  assumes "sk_wf s" and "i < sk_count s"
  shows "\<exists>s'. sk_set (Some s) i v = (v, Some s') \<and> sk_wf s' \<and> elems s' = (elems s)[i := v]
    \<and> sk_sorted s' = sk_sorted s"
  using assms by (simp add: sk_set_def sk_wf_def elems_def take_update_swap)

section \<open>Properties\<close>

text \<open>Integers by their value, NULL below all of them, and a stack of the integers three and one.\<close>

definition int_caller :: "(int, unit) caller" where
  "int_caller c a b =
     (case (a, b) of
        (None, None) \<Rightarrow> 0 | (None, Some y) \<Rightarrow> - 1 | (Some x, None) \<Rightarrow> 1 | (Some x, Some y) \<Rightarrow> x - y)"

definition three_one :: "(int, unit) STACK" where
  "three_one = \<lparr>sk_count = 2, sk_data = [Some 3, Some 1, None, None], sk_sorted = False, sk_num_alloc = 4,
                sk_comp = Some ()\<rparr>"

lemma int_caller_ok: "call_ok int_caller"
  by (auto simp: call_ok_def comparison_on_def int_caller_def split: option.splits)

lemma three_one_wf: "sk_wf three_one"
  by (simp add: three_one_def sk_wf_def kMinSize_def)


text \<open>
  C22: The invariant of the pointer stack holds after every sequence of creation, insertion,
  deletion, clearing, sorting and change of the comparison function: the count is below the size of
  the allocated array, and a stack marked as sorted is in ascending order of its comparison function.
\<close>

theorem stack_invariant:
  assumes "malloc_spec M" and "qsort_spec q" and "call_ok call" and "sk_reachable M q call s"
  shows "sk_wf s \<and> flag_ok call s"
  by (rule sk_reachable_ok [OF assms])

theorem stack_invariant_witness:
  "\<exists>s s'. sk_new zero_malloc (Some ()) = Some s \<and> sk_insert zero_malloc (Some s) (Some 7) 0 = (1, Some s')
    \<and> sk_wf s' \<and> flag_ok int_caller s'"
proof -
  have "OPENSSL_malloc zero_malloc n = Some (replicate n 0)" if "n < 1000" for n
    using that by (simp add: OPENSSL_malloc_def zero_malloc_def OPENSSL_MALLOC_PREFIX_def size_add_def)
  then obtain s :: "(int, unit) STACK" where s: "sk_new zero_malloc (Some ()) = Some s" "sk_count s = 0"
      "sk_num_alloc s = 4"
    by (simp add: sk_new_def kMinSize_def)
  then obtain s' where i: "sk_insert zero_malloc (Some s) (Some 7) 0 = (1, Some s')"
    by (simp add: sk_insert_def sk_room_def size_add_def Let_def)
  have "sk_reachable zero_malloc insertion_sort int_caller s'"
    by (rule reach_step [OF reach_new [OF s(1)] step_insert [OF i]])
  from stack_invariant [OF zero_malloc_spec insertion_sort_spec int_caller_ok this] s i show ?thesis by blast
qed

text \<open>
  C23: The stack refines lists: inserting at a position puts the pointer there (at the end when the
  position is beyond it) and deleting at a position returns and removes that pointer; the other
  pointers keep their order and the result of an insertion is the new number of elements.
\<close>

theorem stack_refines_list:
  assumes "malloc_spec M" and "sk_wf s"
  shows "(\<forall>n s'. sk_insert M (Some s) p i = (n, Some s') \<longrightarrow> n \<noteq> 0 \<longrightarrow>
            sk_wf s' \<and> elems s' = take i (elems s) @ [p] @ drop i (elems s) \<and> n = length (elems s'))
    \<and> (\<forall>s'. sk_insert M (Some s) p i = (0, Some s') \<longrightarrow> s' = s)
    \<and> (i < sk_count s \<longrightarrow> (\<exists>s'. sk_delete (Some s) i = (elems s ! i, Some s') \<and> sk_wf s'
            \<and> elems s' = take i (elems s) @ drop (Suc i) (elems s)))"
  using sk_insert_elems [OF assms, of p i] sk_insert_fail [of M s p i] sk_delete_elems [OF assms(2), of i]
  by (auto simp: min_def)

theorem stack_refines_list_witness:
  "\<exists>s' s''. sk_insert zero_malloc (Some three_one) (Some 2) 1 = (3, Some s')
     \<and> elems s' = [Some 3, Some 2, Some 1] \<and> sk_delete (Some three_one) 1 = (Some 1, Some s'')
     \<and> elems s'' = [Some 3]"
proof -
  obtain s' where i: "sk_insert zero_malloc (Some three_one) (Some 2) 1 = (3, Some s')"
    by (simp add: three_one_def sk_insert_def sk_room_def size_add_def Let_def)
  have e: "elems three_one = [Some 3, Some 1]" by (simp add: elems_def three_one_def)
  note R = stack_refines_list [OF zero_malloc_spec three_one_wf, of "Some 2" 1]
  from R i e have "elems s' = [Some 3, Some 2, Some 1]" by auto
  moreover from R e have "\<exists>s''. sk_delete (Some three_one) 1 = (Some 1, Some s'') \<and> elems s'' = [Some 3]"
    by (auto simp: three_one_def)
  ultimately show ?thesis using i by blast
qed

text \<open>
  \<^verbatim>\<open>sk_find\<close> is right on a sorted and on an unsorted stack: it returns the first index of an element
  that compares equal to the one looked for, in the stack it leaves behind, which has the same
  elements, and reports none only when no element compares equal.
\<close>

theorem stack_find_first:
  assumes "qsort_spec q" and "bsearch_spec bs" and "call_ok call" and "sk_wf s" and "flag_ok call s"
    and "sk_comp s = Some c" and "p \<noteq> None"
  shows "\<exists>s'. snd (sk_find q bs call (Some s) p) = Some s' \<and> sk_wf s' \<and> mset (elems s') = mset (elems s)
    \<and> (case fst (sk_find q bs call (Some s) p) of
         None \<Rightarrow> \<forall>x \<in> set (elems s). call c p x \<noteq> 0
       | Some i \<Rightarrow> i < length (elems s') \<and> call c p (elems s' ! i) = 0
                 \<and> (\<forall>j < i. call c p (elems s' ! j) \<noteq> 0))"
  by (rule sk_find_sound [OF assms])

theorem stack_find_first_witness:
  "\<exists>s'. snd (sk_find insertion_sort linear_search int_caller (Some three_one) (Some 1)) = Some s'
    \<and> mset (elems s') = {#Some 3, Some 1#}
    \<and> (case fst (sk_find insertion_sort linear_search int_caller (Some three_one) (Some 1)) of
         None \<Rightarrow> \<forall>x \<in> set [Some 3, Some 1]. int_caller () (Some 1) x \<noteq> 0
       | Some i \<Rightarrow> int_caller () (Some 1) (elems s' ! i) = 0)"
proof -
  have e: "elems three_one = [Some 3, Some 1]" by (simp add: elems_def three_one_def)
  have "flag_ok int_caller three_one" "sk_comp three_one = Some ()" by (simp_all add: flag_ok_def three_one_def)
  from stack_find_first [OF insertion_sort_spec linear_search_spec int_caller_ok three_one_wf this, of "Some 1"]
  show ?thesis unfolding e by (auto split: option.splits)
qed

text \<open>
  C24: \<^verbatim>\<open>sk_deep_copy\<close> copies all or nothing: the stack it returns holds the copies of the elements in
  their order, NULLs included, and nothing has been freed; when a copy fails it returns NULL and has
  freed exactly the copies made so far.
\<close>

theorem deep_copy_all_or_nothing:
  assumes "sk_wf s"
  shows "case sk_deep_copy M (Some s) cf of
      (Some r, freed) \<Rightarrow> freed = [] \<and> sk_wf r \<and> elems r = map (copied cf) (elems s)
         \<and> (\<forall>x \<in> set (elems s). x \<noteq> None \<longrightarrow> copied cf x \<noteq> None)
    | (None, freed) \<Rightarrow> sk_dup M (Some s) = None \<and> freed = []
         \<or> (\<exists>k < length (elems s). elems s ! k \<noteq> None \<and> copied cf (elems s ! k) = None
              \<and> freed = non_null (map (copied cf) (take k (elems s))))"
proof (cases "sk_dup M (Some s)")
  case None
  then show ?thesis by (simp add: sk_deep_copy_def)
next
  case (Some r)
  note r = sk_dup_elems [OF assms Some]
  have n: "sk_count r \<le> length (sk_data r)" "length (elems r) = sk_count r"
    using r(1) length_elems [OF r(1)] by (simp_all add: sk_wf_def)
  have nth: "elems r ! k = sk_data r ! k" if "k < sk_count r" for k
    using that by (simp add: elems_def)
  note L = deep_copy_loop_spec [of "sk_count r" "sk_data r" 0 "sk_data r" cf]
  show ?thesis
  proof (cases "deep_copy_loop cf (sk_count r) (sk_data r) 0")
    case (Inl freed)
    with L n obtain k where k: "k < sk_count r" "sk_data r ! k \<noteq> None" "copied cf (sk_data r ! k) = None"
      "freed = non_null (map (copied cf) (take k (sk_data r)))" by auto
    moreover from k(1) have "take k (elems r) = take k (sk_data r)" by (simp add: elems_def min_def)
    ultimately show ?thesis using Some Inl nth n r(2) by (fastforce simp: sk_deep_copy_def)
  next
    case (Inr d)
    with L n have d: "d = map (copied cf) (take (sk_count r) (sk_data r)) @ drop (sk_count r) (sk_data r)"
      "\<forall>j < sk_count r. sk_data r ! j \<noteq> None \<longrightarrow> copied cf (sk_data r ! j) \<noteq> None" by auto
    have "elems (r\<lparr>sk_data := d\<rparr>) = map (copied cf) (elems r)" "sk_wf (r\<lparr>sk_data := d\<rparr>)"
      using d(1) n r(1) by (simp_all add: elems_def sk_wf_def)
    moreover have "\<forall>x \<in> set (elems r). x \<noteq> None \<longrightarrow> copied cf x \<noteq> None"
      using d(2) nth n by (metis in_set_conv_nth)
    ultimately show ?thesis using Some Inr r(2) by (simp add: sk_deep_copy_def)
  qed
qed

theorem deep_copy_all_or_nothing_witness:
  "case sk_deep_copy zero_malloc (Some three_one) (\<lambda>x. if x = 1 then None else Some (x + 1)) of
      (Some r, freed) \<Rightarrow> False
    | (None, freed) \<Rightarrow> freed = [4 :: int]"
proof -
  have e: "elems three_one = [Some 3, Some 1]" by (simp add: elems_def three_one_def)
  have "OPENSSL_malloc zero_malloc n = Some (replicate n 0)" if "n < 1000" for n
    using that by (simp add: OPENSSL_malloc_def zero_malloc_def OPENSSL_MALLOC_PREFIX_def size_add_def)
  then have "sk_dup zero_malloc (Some three_one) \<noteq> None"
    by (simp add: sk_dup_def sk_new_def kMinSize_def three_one_def size_mul_def Let_def)
  with deep_copy_all_or_nothing [OF three_one_wf, of zero_malloc "\<lambda>x. if x = 1 then None else Some (x + 1)"]
  show ?thesis unfolding e
    by (auto simp: copied_def non_null_def less_Suc_eq split: prod.splits option.splits)
qed

text \<open>
  \<^verbatim>\<open>sk_set\<close> keeps the mark of a sorted stack: after it has replaced an element of a sorted stack
  by one that is out of order, the stack is still marked as sorted, so that \<^verbatim>\<open>sk_find\<close> hands an
  array that is not in order to \<^verbatim>\<open>bsearch\<close>.
\<close>

theorem stack_set_keeps_mark:
  "let s = \<lparr>sk_count = 3, sk_data = [Some 1, Some 2, Some 3, None], sk_sorted = True, sk_num_alloc = 4,
            sk_comp = Some ()\<rparr>
   in sk_wf s \<and> flag_ok int_caller s
      \<and> (\<exists>s'. sk_set (Some s) 0 (Some 9) = (Some 9, Some s') \<and> sk_wf s' \<and> sk_is_sorted (Some s')
            \<and> \<not> flag_ok int_caller s')"
  by (simp add: sk_wf_def kMinSize_def flag_ok_def elems_def sk_set_def sk_is_sorted_def int_caller_def)

end
