(* ===== verification/CbbItems.thy ===== *)
theory CbbItems
  imports CbbTotal
begin

text \<open>
  Whole messages: trees of integers, byte strings, length-prefixed parts and ASN.1 elements, written
  with the builder in the way its callers do (open a child, fill it, flush), against the bytes the
  tree denotes. The tree is the abstract specification; \<open>add_items\<close> is the program over the operations
  of \<^verbatim>\<open>cbb.c\<close>.
\<close>

section \<open>Messages\<close>

datatype item =
    Octets "u8 list" | Int8 u8 | Int16 u16 | Int24 u32 | Int32 u32
  | Prefixed nat "item list" | Element u32 "item list"

fun add_item :: "malloc \<Rightarrow> item \<Rightarrow> CBB \<Rightarrow> bool \<times> CBB"
  and add_items :: "malloc \<Rightarrow> item list \<Rightarrow> CBB \<Rightarrow> bool \<times> CBB" where
  "add_item M (Octets d) c = CBB_add_bytes M c d"
| "add_item M (Int8 v) c = CBB_add_u8 M c v"
| "add_item M (Int16 v) c = CBB_add_u16 M c v"
| "add_item M (Int24 v) c = CBB_add_u24 M c v"
| "add_item M (Int32 v) c = CBB_add_u32 M c v"
| "add_item M (Prefixed n xs) c =
     cbb_then (cbb_add_length_prefixed M c n)
       (\<lambda>c. cbb_then (on_child c (add_items M xs)) (CBB_flush M))"
| "add_item M (Element tag xs) c =
     cbb_then (CBB_add_asn1 M c tag) (\<lambda>c. cbb_then (on_child c (add_items M xs)) (CBB_flush M))"
| "add_items M [] c = (True, c)"
| "add_items M (x # xs) c = cbb_then (add_item M x c) (add_items M xs)"

fun encode_item :: "item \<Rightarrow> u8 list" and encode_items :: "item list \<Rightarrow> u8 list" where
  "encode_item (Octets d) = d"
| "encode_item (Int8 v) = [v]"
| "encode_item (Int16 v) = be_bytes 2 (unat v)"
| "encode_item (Int24 v) = be_bytes 3 (unat v)"
| "encode_item (Int32 v) = be_bytes 4 (unat v)"
| "encode_item (Prefixed n xs) = be_bytes n (length (encode_items xs)) @ encode_items xs"
| "encode_item (Element tag xs) = der_element tag (encode_items xs)"
| "encode_items [] = []"
| "encode_items (x # xs) = encode_item x @ encode_items xs"

text \<open>
  The callers use prefixes of one to three bytes and byte strings that fit into memory
  (\<open>well_typed\<close>); a tree is representable when every part fits its prefix.
\<close>

fun well_typed :: "item \<Rightarrow> bool" and all_well_typed :: "item list \<Rightarrow> bool" where
  "well_typed (Octets d) = (length d < 2 ^ 62)"
| "well_typed (Prefixed n xs) = (1 \<le> n \<and> n \<le> 3 \<and> all_well_typed xs)"
| "well_typed (Element tag xs) = all_well_typed xs"
| "well_typed _ = True"
| "all_well_typed [] = True"
| "all_well_typed (x # xs) = (well_typed x \<and> all_well_typed xs)"

fun representable :: "item \<Rightarrow> bool" and all_representable :: "item list \<Rightarrow> bool" where
  "representable (Int24 v) = (unat v < 2 ^ 24)"
| "representable (Prefixed n xs) = (all_representable xs \<and> length (encode_items xs) < 256 ^ n)"
| "representable (Element tag xs) = (all_representable xs \<and> length (encode_items xs) \<le> 0xfffffffe)"
| "representable _ = True"
| "all_representable [] = True"
| "all_representable (x # xs) = (representable x \<and> all_representable xs)"

section \<open>Partial correctness\<close>

lemma flush_spec_prefix:
  "flush_spec w fs = Some w' \<Longrightarrow> wf_chain s fs (length w) \<Longrightarrow> take s w' = take s w \<and> s \<le> length w'"
proof (induction fs arbitrary: s w')
  case Nil
  then show ?case by simp
next
  case (Cons f fs)
  let ?e = "fields_end f"
  from Cons.prems obtain w1 p where w1: "flush_spec w fs = Some w1"
    and w': "w' = take (cbb_offset f) w1 @ p @ drop ?e w1"
    by (auto simp: Let_def split: option.splits)
  from Cons.prems(2) have ch: "wf_chain ?e fs (length w)" and s: "s \<le> cbb_offset f"
    by (simp_all add: fields_end_def)
  from Cons.IH [OF w1 ch] have t: "take ?e w1 = take ?e w" "?e \<le> length w1" by simp_all
  have o: "cbb_offset f \<le> ?e" by (simp add: fields_end_def)
  have "take s w1 = take s (take ?e w1)" using s o by (simp add: min_def)
  also have "\<dots> = take s w" using s o by (simp add: t(1) min_def)
  finally show ?case using s o t(2) by (auto simp: w' min_def)
qed

lemma appends_none: "ready c b \<Longrightarrow> CBB_bytes c = Some w \<Longrightarrow> appends c c []"
  unfolding appends_def ready_def CBB_bytes_def
  using flush_spec_prefix [of "written b" "cbb_chain c" w "fields_end (cbb_self c)"] length_written [of b]
  by auto

lemma add_u24_fits:
  assumes M: "malloc_spec M" and c: "ready c b" and r: "CBB_add_u24 M c v = (True, c')"
  shows "unat v < 2 ^ 24"
proof -
  from r obtain c1 where fl: "CBB_flush M c = (True, c1)"
    and o: "on_base c1 (\<lambda>base. cbb_buffer_add_u M base v 3) = (True, c')"
    unfolding CBB_add_u24_def by (rule cbb_thenE)
  from CBB_flush_appends(1) [OF M c fl] obtain b1 where b1: "cbb_base c1 = Some b1" "wf_buffer b1"
    by (auto simp: appends_def ready_def)
  from on_base_True [OF o b1(1)] obtain b2 where "cbb_buffer_add_u M b1 v 3 = (True, b2)" by blast
  from add_u_True(5) [OF M b1(2) _ _ this] show ?thesis by simp
qed

text \<open>What filling a child ran on.\<close>

lemma child_ran:
  assumes "cbb_then r (\<lambda>c. cbb_then (on_child c g) (CBB_flush M)) = (True, c')"
    and "\<And>c1. r = (True, c1) \<Longrightarrow> \<exists>pre f. opens c c1 pre f"
  obtains ch b ch' where "ready ch b" and "cbb_chain ch = []" and "g ch = (True, ch')"
proof -
  from assms(1) obtain c1 c2 where r: "r = (True, c1)" and g: "on_child c1 g = (True, c2)"
    by (auto elim!: cbb_thenE)
  from assms(2) [OF r] obtain pre f where o: "opens c c1 pre f" by blast
  from g obtain ch' where "g (CBB_child c1) = (True, ch')" by (auto simp: on_child_def split: prod.splits)
  then show ?thesis using opens_child_ready [OF o] opens_child_chain [OF o] that by blast
qed

lemma add_items_appends:
  assumes M: "malloc_spec M"
  shows "well_typed x \<Longrightarrow> ready c b \<Longrightarrow> add_item M x c = (True, c') \<Longrightarrow>
      appends c c' (encode_item x) \<and> representable x"
    and "all_well_typed xs \<Longrightarrow> ready c b \<Longrightarrow> CBB_bytes c = Some w \<Longrightarrow> add_items M xs c = (True, c') \<Longrightarrow>
      appends c c' (encode_items xs) \<and> all_representable xs"
proof (induction x and xs arbitrary: c b c' and c b w c' rule: encode_item_encode_items.induct)
  case (1 d)
  then show ?case using CBB_add_bytes_appends [OF M] by simp
next
  case (2 v)
  then show ?case using CBB_add_u8_appends [OF M] by simp
next
  case (3 v)
  then show ?case using CBB_add_u16_appends [OF M] by simp
next
  case (4 v)
  then show ?case using CBB_add_u24_appends [OF M] add_u24_fits [OF M] by simp
next
  case (5 v)
  then show ?case using CBB_add_u32_appends [OF M] by simp
next
  case (6 n xs)
  have g: "appends ch ch' (encode_items xs) \<and> all_representable xs"
    if "ready ch b" "cbb_chain ch = []" "add_items M xs ch = (True, ch')" for ch b ch'
    using "6.IH" "6.prems"(1) that CBB_bytes_no_child [OF that(1,2)] by simp
  have n: "1 \<le> n" "n \<le> 3" using "6.prems"(1) by simp_all
  note r = "6.prems"(3) [unfolded add_item.simps]
  have "appends c c' (be_bytes n (length (encode_items xs)) @ encode_items xs)
      \<and> length (encode_items xs) < 256 ^ n"
    by (rule length_prefixed_appends [OF M "6.prems"(2) n _ r]) (use g in blast)
  moreover have "all_representable xs"
    by (rule child_ran [OF r]) (use cbb_add_length_prefixed_opens [OF M "6.prems"(2) n] g in blast)+
  ultimately show ?case by simp
next
  case (7 tag xs)
  have g: "appends ch ch' (encode_items xs) \<and> all_representable xs"
    if "ready ch b" "cbb_chain ch = []" "add_items M xs ch = (True, ch')" for ch b ch'
    using "7.IH" "7.prems"(1) that CBB_bytes_no_child [OF that(1,2)] by simp
  note r = "7.prems"(3) [unfolded add_item.simps]
  have "appends c c' (der_element tag (encode_items xs)) \<and> length (encode_items xs) \<le> 0xfffffffe"
    by (rule element_appends [OF M "7.prems"(2) _ r]) (use g in blast)
  moreover have "all_representable xs"
    by (rule child_ran [OF r]) (use CBB_add_asn1_opens [OF M "7.prems"(2)] g in blast)+
  ultimately show ?case by simp
next
  case 8
  then show ?case using appends_none by simp
next
  case (9 x xs)
  from "9.prems"(4) obtain c1 where x: "add_item M x c = (True, c1)" and xs: "add_items M xs c1 = (True, c')"
    by (auto elim!: cbb_thenE)
  from "9.IH"(1) [OF _ "9.prems"(2) x] "9.prems"(1) have a: "appends c c1 (encode_item x)" "representable x" by simp_all
  from appends_ready [OF a(1)] obtain b1 where b1: "ready c1 b1" by blast
  from "9.IH"(2) [OF _ b1 appends_bytes [OF a(1) "9.prems"(3)] xs] "9.prems"(1) appends_trans [OF a(1)] a(2) show ?case by simp
qed

section \<open>Total correctness\<close>

lemma writes_items:
  assumes M: "malloc_total M" and wt: "all_well_typed xs"
    and live: "\<And>c w. all_well_typed xs \<Longrightarrow> all_representable xs \<Longrightarrow> live c w \<Longrightarrow>
      length w + length (encode_items xs) + 9 \<le> 2 ^ 60 \<Longrightarrow>
      \<exists>c'. add_items M xs c = (True, c') \<and> live c' (w @ encode_items xs)"
    and rep: "all_representable xs"
  shows "writes M (add_items M xs) (encode_items xs)"
  unfolding writes_def
proof (intro conjI allI impI)
  show "appends ch ch' (encode_items xs)"
    if "ready ch b" "cbb_chain ch = []" "add_items M xs ch = (True, ch')" for ch b ch'
    using add_items_appends(2) [OF malloc_total_spec [OF M] wt that(1) CBB_bytes_no_child [OF that(1,2)] that(3)]
    by blast
  show "\<exists>ch'. add_items M xs ch = (True, ch') \<and> live ch' (w @ encode_items xs)"
    if "live ch w" "cbb_chain ch = []" "length w + length (encode_items xs) + 9 \<le> 2 ^ 60" for ch w
    by (rule live [OF wt rep that(1,3)])
qed

lemma add_items_live:
  assumes M: "malloc_total M"
  shows "well_typed x \<Longrightarrow> representable x \<Longrightarrow> live c w \<Longrightarrow> length w + length (encode_item x) + 9 \<le> 2 ^ 60 \<Longrightarrow>
      \<exists>c'. add_item M x c = (True, c') \<and> live c' (w @ encode_item x)"
    and "all_well_typed xs \<Longrightarrow> all_representable xs \<Longrightarrow> live c w \<Longrightarrow>
      length w + length (encode_items xs) + 9 \<le> 2 ^ 60 \<Longrightarrow>
      \<exists>c'. add_items M xs c = (True, c') \<and> live c' (w @ encode_items xs)"
proof (induction x and xs arbitrary: c w and c w rule: encode_item_encode_items.induct)
  case (1 d)
  then show ?case using CBB_add_bytes_live [OF M "1.prems"(3), of d] by auto
next
  case (2 v)
  then show ?case using CBB_add_u8_live [OF M "2.prems"(3), of v] by auto
next
  case (3 v)
  then show ?case using CBB_add_u16_live [OF M "3.prems"(3), of v] by auto
next
  case (4 v)
  then show ?case using CBB_add_u24_live [OF M "4.prems"(3), of v] by auto
next
  case (5 v)
  then show ?case using CBB_add_u32_live [OF M "5.prems"(3), of v] by auto
next
  case (6 n xs)
  have g: "writes M (add_items M xs) (encode_items xs)"
    by (rule writes_items [OF M _ "6.IH"(1)]) (use "6.prems" in simp_all)
  have n: "1 \<le> n" "n \<le> 3" "length (encode_items xs) < 256 ^ n" using "6.prems"(1,2) by simp_all
  have "length w + length (encode_items xs) + n + 9 \<le> 2 ^ 60" using "6.prems"(4) by simp
  from length_prefixed_live [OF M "6.prems"(3) n(1,2) g n(3) this] show ?case by simp
next
  case (7 tag xs)
  have g: "writes M (add_items M xs) (encode_items xs)"
    by (rule writes_items [OF M _ "7.IH"(1)]) (use "7.prems" in simp_all)
  have d: "length (encode_items xs) \<le> 0xfffffffe" using "7.prems"(2) by simp
  from element_live [OF M "7.prems"(3) g d] "7.prems"(4) show ?case by fastforce
next
  case 8
  then show ?case by simp
next
  case (9 x xs)
  have len1: "length w + length (encode_item x) + 9 \<le> 2 ^ 60" using "9.prems"(4) by simp
  have wt: "well_typed x" "representable x" "all_well_typed xs" "all_representable xs" using "9.prems"(1,2) by simp_all
  from "9.IH"(1) [OF wt(1,2) "9.prems"(3) len1] obtain c1 where
    c1: "add_item M x c = (True, c1)" "live c1 (w @ encode_item x)" by blast
  have len2: "length (w @ encode_item x) + length (encode_items xs) + 9 \<le> 2 ^ 60" using "9.prems"(4) by simp
  from "9.IH"(2) [OF wt(3,4) c1(2) len2] obtain c2 where
    "add_items M xs c1 = (True, c2)" "live c2 ((w @ encode_item x) @ encode_items xs)" by blast
  with c1 show ?case by (simp add: cbb_then_def)
qed

section \<open>Reading a message back\<close>

text \<open>
  A reader that knows the shape of the message, that is everything but the contents of its leaves,
  and uses the operations of \<^verbatim>\<open>cbs.c\<close>; a part with a prefix must be used up by what is in it.
\<close>

fun shape :: "item \<Rightarrow> item" where
  "shape (Octets d) = Octets (replicate (length d) 0)"
| "shape (Int8 v) = Int8 0"
| "shape (Int16 v) = Int16 0"
| "shape (Int24 v) = Int24 0"
| "shape (Int32 v) = Int32 0"
| "shape (Prefixed n xs) = Prefixed n (map shape xs)"
| "shape (Element tag xs) = Element tag (map shape xs)"

definition read_leaf :: "('a \<Rightarrow> item) \<Rightarrow> 'a cbs_result \<Rightarrow> (item \<times> CBS) option" where
  "read_leaf f r = (case r of (None, _) \<Rightarrow> None | (Some x, rest) \<Rightarrow> Some (f x, rest))"

definition read_part ::
  "(item list \<Rightarrow> item) \<Rightarrow> (CBS \<Rightarrow> (item list \<times> CBS) option) \<Rightarrow> CBS cbs_result \<Rightarrow> (item \<times> CBS) option" where
  "read_part f g r =
     (case r of
        (None, _) \<Rightarrow> None
      | (Some body, rest) \<Rightarrow> (case g body of Some (ys, []) \<Rightarrow> Some (f ys, rest) | _ \<Rightarrow> None))"

fun read_item :: "item \<Rightarrow> CBS \<Rightarrow> (item \<times> CBS) option"
  and read_items :: "item list \<Rightarrow> CBS \<Rightarrow> (item list \<times> CBS) option" where
  "read_item (Octets d) cbs = read_leaf Octets (CBS_get_bytes cbs (length d))"
| "read_item (Int8 v) cbs = read_leaf Int8 (CBS_get_u8 cbs)"
| "read_item (Int16 v) cbs = read_leaf Int16 (CBS_get_u16 cbs)"
| "read_item (Int24 v) cbs = read_leaf Int24 (CBS_get_u24 cbs)"
| "read_item (Int32 v) cbs = read_leaf Int32 (CBS_get_u32 cbs)"
| "read_item (Prefixed n xs) cbs = read_part (Prefixed n) (read_items xs) (cbs_get_length_prefixed cbs n)"
| "read_item (Element tag xs) cbs = read_part (Element tag) (read_items xs) (CBS_get_asn1 cbs tag)"
| "read_items [] cbs = Some ([], cbs)"
| "read_items (x # xs) cbs =
     (case read_item x cbs of
        None \<Rightarrow> None
      | Some (y, cbs) \<Rightarrow> (case read_items xs cbs of None \<Rightarrow> None | Some (ys, cbs) \<Rightarrow> Some (y # ys, cbs)))"

lemma cbs_get_u_bytes:
  assumes "v < 256 ^ n" and "n \<le> 4"
  shows "\<exists>w :: u32. cbs_get_u (be_bytes n v @ rest) n = (Some w, rest) \<and> unat w = v"
  using be_uint.dec_enc [of v n rest] assms
  by (cases "cbs_get_u (be_bytes n v @ rest) n") (auto simp: cbs_decoder_def split: option.splits)

lemma get_u_word:
  assumes "unat (v :: u32) < 256 ^ n" and "n \<le> 4"
  shows "cbs_get_u (be_bytes n (unat v) @ rest) n = (Some v, rest)"
  using cbs_get_u_bytes [OF assms] by (metis word_unat_eq_iff)

lemma ucast_u16_u32 [simp]: "(ucast (ucast (v :: u16) :: u32) :: u16) = v"
  by transfer simp

lemma get_length_prefixed_bytes:
  assumes "length d < 256 ^ n" and "n \<le> 3"
  shows "cbs_get_length_prefixed (be_bytes n (length d) @ d @ rest) n = (Some d, rest)"
proof -
  from cbs_get_u_bytes [OF assms(1), of "d @ rest"] assms(2) obtain w :: u32 where
    "cbs_get_u (be_bytes n (length d) @ d @ rest) n = (Some w, d @ rest)" "unat w = length d" by auto
  then show ?thesis by (simp add: cbs_get_length_prefixed_def cbs_then_def)
qed

lemma read_items_encode:
  "well_typed x \<Longrightarrow> representable x \<Longrightarrow> read_item (shape x) (encode_item x @ rest) = Some (x, rest)"
  "all_well_typed xs \<Longrightarrow> all_representable xs \<Longrightarrow>
     read_items (map shape xs) (encode_items xs @ rest) = Some (xs, rest)"
proof (induction x and xs arbitrary: rest and rest rule: encode_item_encode_items.induct)
  case (3 v)
  have "unat (ucast v :: u32) < 256 ^ 2" using unsigned_less [of v, where ?'a = nat] by simp
  from get_u_word [OF this, of rest] show ?case by (simp add: read_leaf_def CBS_get_u16_def cbs_then_def)
next
  case (4 v)
  then show ?case using get_u_word [of v 3 rest] by (simp add: read_leaf_def CBS_get_u24_def)
next
  case (5 v)
  have "unat v < 256 ^ 4" using unsigned_less [of v, where ?'a = nat] by simp
  from get_u_word [OF this, of rest] show ?case by (simp add: read_leaf_def CBS_get_u32_def)
next
  case (6 n xs)
  then show ?case using get_length_prefixed_bytes [of "encode_items xs" n rest] "6.IH"(1) [of "[]"]
    by (simp add: read_part_def)
next
  case (7 tag xs)
  then have "CBS_get_asn1 (der_element tag (encode_items xs) @ rest) tag = (Some (encode_items xs), rest)"
    by (simp add: CBS_get_asn1_iff)
  with 7 show ?case using "7.IH"(1) [of "[]"] by (simp add: read_part_def)
qed (simp_all add: read_leaf_def CBS_get_u8_def cbs_then_def cbs_get_def)

section \<open>Properties\<close>

lemma message_live:
  assumes "malloc_total M" and "cap < 2 ^ 61" and "all_well_typed xs" and "all_representable xs"
    and "length (encode_items xs) + 9 \<le> 2 ^ 60"
  shows "\<exists>c c1 c2 buf len. CBB_init M cap = (True, c) \<and> add_items M xs c = (True, c1)
    \<and> CBB_finish M c1 False False = (Some (buf, len), c2) \<and> take len buf = encode_items xs"
proof -
  from CBB_init_live [OF assms(1,2)] obtain c where
    c: "CBB_init M cap = (True, c)" "live c []" "cbb_is_top_level (cbb_self c)" by blast
  from add_items_live(2) [OF assms(1,3,4) c(2)] assms(5) obtain c1 where
    c1: "add_items M xs c = (True, c1)" "live c1 (encode_items xs)" by auto
  from c(2) obtain b where "ready c b" "CBB_bytes c = Some []" by (auto simp: live_def)
  from add_items_appends(2) [OF malloc_total_spec [OF assms(1)] assms(3) this c1(1)] c(3)
  have "cbb_is_top_level (cbb_self c1)" by (simp add: appends_def)
  with CBB_finish_live [OF assms(1) c1(2)] assms(5) c c1 show ?thesis by fastforce
qed

text \<open>
  C3: Every representable message tree, however deeply its length-prefixed parts and ASN.1 elements
  are nested, is written by the builder as exactly the bytes it denotes: with an allocator that does
  not fail, creating the builder, the operations and \<^verbatim>\<open>CBB_finish\<close> all succeed.
\<close>

theorem builder_writes_message:
  assumes "malloc_total M" and "cap < 2 ^ 61" and "all_well_typed xs" and "all_representable xs"
    and "length (encode_items xs) + 9 \<le> 2 ^ 60"
  shows "\<exists>c c1 c2 buf len. CBB_init M cap = (True, c) \<and> add_items M xs c = (True, c1)
    \<and> CBB_finish M c1 False False = (Some (buf, len), c2) \<and> take len buf = encode_items xs"
  by (rule message_live [OF assms])

definition sample :: "item list" where
  "sample = [Element 0x20000010 [Prefixed 2 [Octets [1, 2, 3], Int8 4], Int24 5], Int32 6]"

lemma sample_ok: "all_well_typed sample" "all_representable sample" "length (encode_items sample) = 15"
  by (simp_all add: sample_def der_element_def der_length_def der_tag_def)

theorem builder_writes_message_witness:
  "\<exists>c c1 c2 buf len. CBB_init zero_malloc 0 = (True, c) \<and> add_items zero_malloc sample c = (True, c1)
    \<and> CBB_finish zero_malloc c1 False False = (Some (buf, len), c2) \<and> take len buf = encode_items sample"
  by (rule builder_writes_message [OF zero_malloc_total _ sample_ok(1,2)]) (simp_all add: sample_ok(3))

text \<open>
  C5: Whatever the builder writes, the readers read back: a message written by the builder without
  an error, with any allocator, is representable, and a reader that descends into its parts with
  \<^verbatim>\<open>CBS_get_u*_length_prefixed\<close> and \<^verbatim>\<open>CBS_get_asn1\<close> finds every leaf as it was and nothing behind it.
\<close>

theorem builder_reader_round_trip:
  assumes "malloc_spec M" and "cap < 2 ^ 62" and "all_well_typed xs"
    and "CBB_init M cap = (True, c)" and "add_items M xs c = (True, c1)"
    and "CBB_finish M c1 False False = (Some (buf, len), c2)"
  shows "all_representable xs \<and> read_items (map shape xs) (take len buf) = Some (xs, [])"
proof -
  from CBB_init_ready [OF assms(1) _ assms(4)] assms(2) obtain b where
    b: "ready c b" "CBB_bytes c = Some []" by auto
  note a = add_items_appends(2) [OF assms(1,3) b assms(5)]
  then obtain b1 where b1: "ready c1 b1" using appends_ready by blast
  from a b appends_bytes CBB_finish_bytes(1) [OF assms(1) b1 assms(6)]
  have "take len buf = encode_items xs" by fastforce
  with read_items_encode(2) [OF assms(3), of "[]"] a show ?thesis by simp
qed

theorem builder_reader_round_trip_witness:
  "\<exists>c c1 c2 buf len. CBB_init zero_malloc 0 = (True, c) \<and> add_items zero_malloc sample c = (True, c1)
    \<and> CBB_finish zero_malloc c1 False False = (Some (buf, len), c2)
    \<and> read_items (map shape sample) (take len buf) = Some (sample, [])"
proof -
  have "length (encode_items sample) + 9 \<le> 2 ^ 60" by (simp add: sample_ok(3))
  from message_live [OF zero_malloc_total _ sample_ok(1,2) this, of 0] obtain c c1 c2 buf len where
    r: "CBB_init zero_malloc 0 = (True, c)" "add_items zero_malloc sample c = (True, c1)"
      "CBB_finish zero_malloc c1 False False = (Some (buf, len), c2)" by auto
  have "(0 :: nat) < 2 ^ 62" by simp
  from builder_reader_round_trip [OF zero_malloc_spec this sample_ok(1) r] r show ?thesis by blast
qed

end
