(* ===== verification/CbbRun.thy ===== *)
theory CbbRun
  imports CbbItems
begin

text \<open>
  Arbitrary sequences of operations on a builder and on the children pending below it, in any order
  and with any outcome: the buffer invariant holds throughout, and a builder that has failed once
  never produces anything.
\<close>

section \<open>Steps\<close>

text \<open>The operations that put an error into the shared buffer when they fail.\<close>

inductive cbb_op :: "malloc \<Rightarrow> bool \<Rightarrow> CBB \<Rightarrow> CBB \<Rightarrow> bool" for M where
  op_u8: "CBB_add_u8 M c v = (ok, c') \<Longrightarrow> cbb_op M ok c c'"
| op_u16: "CBB_add_u16 M c w = (ok, c') \<Longrightarrow> cbb_op M ok c c'"
| op_u24: "CBB_add_u24 M c u = (ok, c') \<Longrightarrow> cbb_op M ok c c'"
| op_u32: "CBB_add_u32 M c u = (ok, c') \<Longrightarrow> cbb_op M ok c c'"
| op_bytes: "CBB_add_bytes M c d = (ok, c') \<Longrightarrow> length d < 2 ^ 62 \<Longrightarrow> cbb_op M ok c c'"
| op_space: "CBB_add_space M c n = (ok, c') \<Longrightarrow> n < 2 ^ 62 \<Longrightarrow> cbb_op M ok c c'"
| op_reserve: "CBB_reserve M c n = (ok, c') \<Longrightarrow> n < 2 ^ 62 \<Longrightarrow> cbb_op M ok c c'"
| op_prefixed: "cbb_add_length_prefixed M c n = (ok, c') \<Longrightarrow> 1 \<le> n \<Longrightarrow> n \<le> 3 \<Longrightarrow> cbb_op M ok c c'"
| op_asn1: "CBB_add_asn1 M c tag = (ok, c') \<Longrightarrow> cbb_op M ok c c'"
| op_flush: "CBB_flush M c = (ok, c') \<Longrightarrow> cbb_op M ok c c'"

text \<open>A step of the caller, on the builder itself or on a pending child of it.\<close>

inductive cbb_step :: "malloc \<Rightarrow> CBB \<Rightarrow> CBB \<Rightarrow> bool" for M where
  step_op: "cbb_op M ok c c' \<Longrightarrow> cbb_step M c c'"
| step_did_write: "CBB_did_write c n = (ok, c') \<Longrightarrow> n < 2 ^ 62 \<Longrightarrow> cbb_step M c c'"
| step_discard: "cbb_step M c (CBB_discard_child c)"
| step_child: "cbb_chain c \<noteq> [] \<Longrightarrow> cbb_step M (CBB_child c) ch \<Longrightarrow> cbb_step M c (CBB_return c ch)"

inductive_cases cbb_opE: "cbb_op M ok c c'"

section \<open>The invariant\<close>

definition cbb_ok :: "CBB \<Rightarrow> bool" where
  "cbb_ok c \<longleftrightarrow> CBB_failed c \<or> (\<exists>b. ready c b)"

lemma on_base_self: "on_base c f = (ok, c') \<Longrightarrow> cbb_self c' = cbb_self c"
  by (auto simp: on_base_def split: option.splits prod.splits)

lemma flush_then_self:
  assumes "cbb_then (CBB_flush M c) k = (ok, c')" and "\<And>c1. k c1 = (ok, c') \<Longrightarrow> cbb_self c' = cbb_self c1"
  shows "cbb_self c' = cbb_self c"
  using assms flush_self by (fastforce simp: cbb_then_def split: prod.splits bool.splits)

lemma adders_self:
  "CBB_add_u8 M c v8 = (ok, c') \<Longrightarrow> cbb_self c' = cbb_self c"
  "CBB_add_u16 M c v16 = (ok, c') \<Longrightarrow> cbb_self c' = cbb_self c"
  "CBB_add_u24 M c v32 = (ok, c') \<Longrightarrow> cbb_self c' = cbb_self c"
  "CBB_add_u32 M c v32 = (ok, c') \<Longrightarrow> cbb_self c' = cbb_self c"
  "CBB_add_bytes M c d = (ok, c') \<Longrightarrow> cbb_self c' = cbb_self c"
  "CBB_add_space M c n = (ok, c') \<Longrightarrow> cbb_self c' = cbb_self c"
  "CBB_reserve M c n = (ok, c') \<Longrightarrow> cbb_self c' = cbb_self c"
  unfolding CBB_adders by (erule flush_then_self; erule on_base_self)+

lemma then_self:
  assumes "cbb_then r k = (ok, c')" and "\<And>ok1 c1. r = (ok1, c1) \<Longrightarrow> cbb_self c1 = s"
    and "\<And>c1. k c1 = (ok, c') \<Longrightarrow> cbb_self c' = cbb_self c1"
  shows "cbb_self c' = s"
  using assms by (fastforce simp: cbb_then_def split: prod.splits bool.splits)

lemma add_base128_loop_self: "add_base128_loop M c v n = (ok, c') \<Longrightarrow> cbb_self c' = cbb_self c"
  by (induction n arbitrary: c) (auto simp: Let_def elim!: then_self dest: adders_self(1))

lemma add_base128_loop_False: "add_base128_loop M c v n = (False, c') \<Longrightarrow> CBB_failed c'"
  by (induction n arbitrary: c) (auto simp: Let_def cbb_then_def split: prod.splits bool.splits dest: CBB_add_False)

lemma add_length_prefixed_self: "cbb_add_length_prefixed M c n = (ok, c') \<Longrightarrow> cbb_self c' = cbb_self c"
  unfolding cbb_add_length_prefixed_def Let_def
  by (erule flush_then_self, erule then_self, erule on_base_self) auto

lemma add_length_prefixed_False: "cbb_add_length_prefixed M c n = (False, c') \<Longrightarrow> CBB_failed c'"
  unfolding cbb_add_length_prefixed_def Let_def
  by (auto simp: cbb_then_def on_base_def CBB_failed_def dest: CBB_flush_False dest!: add_False
      split: prod.splits bool.splits option.splits)

lemma add_asn1_self: "CBB_add_asn1 M c tag = (ok, c') \<Longrightarrow> cbb_self c' = cbb_self c"
  unfolding CBB_add_asn1_def Let_def add_base128_integer_def
  by (erule flush_then_self, erule then_self)
    (auto split: if_splits elim!: then_self dest: adders_self(1) add_base128_loop_self)

lemma then_False:
  assumes "cbb_then r k = (False, c')" and "\<And>c1. r = (False, c1) \<Longrightarrow> CBB_failed c1"
    and "\<And>c1. k c1 = (False, c') \<Longrightarrow> CBB_failed c'"
  shows "CBB_failed c'"
  using assms by (fastforce simp: cbb_then_def split: prod.splits bool.splits)

lemma add_asn1_False: "CBB_add_asn1 M c tag = (False, c') \<Longrightarrow> CBB_failed c'"
  unfolding CBB_add_asn1_def Let_def add_base128_integer_def
  by (erule then_False, erule CBB_flush_False, erule then_False)
    (auto split: if_splits elim!: then_False dest: CBB_add_False add_base128_loop_False)

lemma cbb_op_self: "cbb_op M ok c c' \<Longrightarrow> cbb_self c' = cbb_self c"
  by (elim cbb_opE) (auto dest: adders_self add_length_prefixed_self add_asn1_self flush_self)

lemma cbb_op_False: "cbb_op M False c c' \<Longrightarrow> CBB_failed c'"
  by (elim cbb_opE) (auto dest: CBB_add_False add_length_prefixed_False add_asn1_False CBB_flush_False)

lemma cbb_op_failed: "cbb_op M ok c c' \<Longrightarrow> CBB_failed c \<Longrightarrow> \<not> ok \<and> c' = c"
  by (elim cbb_opE) (auto simp: CBB_add_failed CBB_flush_failed CBB_add_asn1_def cbb_then_def)

lemma flush_then_ready:
  assumes M: "malloc_spec M" and c: "ready c b"
    and r: "cbb_then (CBB_flush M c) (\<lambda>c. on_base c f) = (True, c')"
    and f: "\<And>b1 b2. wf_buffer b1 \<Longrightarrow> \<not> bb_error b1 \<Longrightarrow> f b1 = (True, b2) \<Longrightarrow>
      wf_buffer b2 \<and> bb_len b1 \<le> bb_len b2 \<and> \<not> bb_error b2"
  shows "\<exists>b. ready c' b"
proof -
  from r obtain c1 where fl: "CBB_flush M c = (True, c1)" and o: "on_base c1 f = (True, c')" by (rule cbb_thenE)
  from CBB_flush_appends [OF M c fl] obtain b1 where b1: "ready c1 b1" "cbb_chain c1 = []"
    using appends_ready by blast
  from on_base_True [OF o ready_base [OF b1(1)]] obtain b2 where
    b2: "f b1 = (True, b2)" "c' = c1\<lparr>cbb_base := Some b2\<rparr>" by blast
  with b1 f [OF _ _ b2(1)] show ?thesis by (auto simp: ready_def)
qed

lemma add_space_ready:
  assumes M: "malloc_spec M" and c: "ready c b" and n: "n < 2 ^ 62"
    and r: "CBB_add_space M c n = (True, c')"
  shows "\<exists>b. ready c' b"
proof (rule flush_then_ready [OF M c r [unfolded CBB_add_space_def]])
  fix b1 b2 assume b1: "wf_buffer b1" "\<not> bb_error b1" and "cbb_buffer_add M b1 n = (True, b2)"
  note a = add_True [OF M b1(1) n this(3)]
  show "wf_buffer b2 \<and> bb_len b1 \<le> bb_len b2 \<and> \<not> bb_error b2"
    using a(1,2,3) b1(2) by simp
qed

lemma reserve_ready:
  assumes M: "malloc_spec M" and c: "ready c b" and n: "n < 2 ^ 62"
    and r: "CBB_reserve M c n = (True, c')"
  shows "\<exists>b. ready c' b"
proof (rule flush_then_ready [OF M c r [unfolded CBB_reserve_def]])
  fix b1 b2 assume b1: "wf_buffer b1" "\<not> bb_error b1" and "cbb_buffer_reserve M b1 n = (True, b2)"
  note a = reserve_True [OF M b1(1) n this(3)]
  show "wf_buffer b2 \<and> bb_len b1 \<le> bb_len b2 \<and> \<not> bb_error b2"
    using a(1,2,3) b1(2) by simp
qed

lemma opens_ready: "opens c c1 pre f \<Longrightarrow> \<exists>b. ready c1 b"
  by (auto simp: opens_def)

lemma cbb_op_ready:
  assumes M: "malloc_spec M" and c: "ready c b" and op: "cbb_op M True c c'"
  shows "\<exists>b. ready c' b"
  using op
proof (cases rule: cbb_op.cases)
  case (op_u8 v)
  then show ?thesis using CBB_add_u8_appends [OF M c] appends_ready by blast
next
  case (op_u16 w)
  then show ?thesis using CBB_add_u16_appends [OF M c] appends_ready by blast
next
  case (op_u24 u)
  then show ?thesis using CBB_add_u24_appends [OF M c] appends_ready by blast
next
  case (op_u32 u)
  then show ?thesis using CBB_add_u32_appends [OF M c] appends_ready by blast
next
  case (op_bytes d)
  then show ?thesis using CBB_add_bytes_appends [OF M c] appends_ready by blast
next
  case (op_space n)
  then show ?thesis using add_space_ready [OF M c] by blast
next
  case (op_reserve n)
  then show ?thesis using reserve_ready [OF M c] by blast
next
  case (op_prefixed n)
  then show ?thesis using cbb_add_length_prefixed_opens [OF M c] opens_ready by blast
next
  case (op_asn1 tag)
  then show ?thesis using CBB_add_asn1_opens [OF M c] opens_ready by blast
next
  case op_flush
  then show ?thesis using CBB_flush_appends(1) [OF M c] appends_ready by blast
qed

lemma did_write_ready:
  assumes c: "ready c b" and n: "n < 2 ^ 62" and r: "CBB_did_write c n = (ok, c')"
  shows "\<exists>b. ready c' b"
proof -
  from c n have "size_add (bb_len b) n = bb_len b + n" by (simp add: ready_def wf_buffer_def size_add_def)
  with r c show ?thesis
    by (auto simp: CBB_did_write_def on_base_def ready_def wf_buffer_def Let_def split: if_splits)
qed

lemma discard_ready: "ready c b \<Longrightarrow> \<exists>b. ready (CBB_discard_child c) b"
  by (cases "cbb_chain c")
    (auto simp: CBB_discard_child_def ready_def wf_buffer_def fields_end_def dest: wf_chain_bound)

lemma child_ready: "ready c b \<Longrightarrow> cbb_chain c \<noteq> [] \<Longrightarrow> \<exists>b. ready (CBB_child c) b"
  by (cases "cbb_chain c") (auto simp: ready_def CBB_child_def fields_end_def)

lemma return_ready:
  assumes "ready c b" and "cbb_chain c \<noteq> []" and "ready ch b'" and "cbb_self ch = hd (cbb_chain c)"
  shows "ready (CBB_return c ch) b'"
  using assms by (cases "cbb_chain c") (auto simp: ready_def CBB_return_def fields_end_def)

lemma did_write_self: "CBB_did_write c n = (ok, c') \<Longrightarrow> cbb_self c' = cbb_self c"
  by (auto simp: CBB_did_write_def dest: on_base_self)

lemma discard_self: "cbb_self (CBB_discard_child c) = cbb_self c"
  by (simp add: CBB_discard_child_def split: list.splits)

lemma cbb_step_self: "cbb_step M c c' \<Longrightarrow> cbb_self c' = cbb_self c"
  by (induction rule: cbb_step.induct)
    (simp_all add: cbb_op_self did_write_self discard_self CBB_return_def)

lemma cbb_step_failed: "cbb_step M c c' \<Longrightarrow> CBB_failed c \<Longrightarrow> CBB_failed c'"
proof (induction rule: cbb_step.induct)
  case (step_op ok c c')
  then show ?case using cbb_op_failed by blast
next
  case (step_did_write c n ok c')
  then show ?case
    by (auto simp: CBB_did_write_def on_base_def CBB_failed_def Let_def split: option.splits if_splits)
next
  case (step_discard c)
  then show ?case by (auto simp: CBB_discard_child_def CBB_failed_def split: list.splits option.splits)
next
  case (step_child c ch)
  then show ?case by (simp add: CBB_failed_def CBB_child_def CBB_return_def)
qed

lemma cbb_step_ok:
  assumes M: "malloc_spec M"
  shows "cbb_step M c c' \<Longrightarrow> ready c b \<Longrightarrow> cbb_ok c'"
proof (induction arbitrary: b rule: cbb_step.induct)
  case (step_op ok c c')
  then show ?case
    using cbb_op_ready [OF M] cbb_op_False by (cases ok) (auto simp: cbb_ok_def)
next
  case (step_did_write c n ok c')
  then show ?case using did_write_ready by (auto simp: cbb_ok_def)
next
  case (step_discard c)
  then show ?case using discard_ready by (auto simp: cbb_ok_def)
next
  case (step_child c ch)
  from child_ready [OF step_child(4,1)] obtain b1 where "ready (CBB_child c) b1" by blast
  from step_child(3) [OF this] consider "CBB_failed ch" | b2 where "ready ch b2" by (auto simp: cbb_ok_def)
  then show ?case
  proof cases
    case 1
    then have "CBB_failed (CBB_return c ch)" by (simp add: CBB_failed_def CBB_return_def)
    then show ?thesis by (simp add: cbb_ok_def)
  next
    case 2
    have "cbb_self ch = hd (cbb_chain c)" using cbb_step_self [OF step_child(2)] by (simp add: CBB_child_def)
    from return_ready [OF step_child(4,1) 2 this] show ?thesis by (auto simp: cbb_ok_def)
  qed
qed

section \<open>Reachable builders\<close>

inductive cbb_reachable :: "malloc \<Rightarrow> CBB \<Rightarrow> bool" for M where
  reach_init: "CBB_init M cap = (True, c) \<Longrightarrow> cap < 2 ^ 62 \<Longrightarrow> cbb_reachable M c"
| reach_fixed: "CBB_init_fixed M buf (length buf) = (True, c) \<Longrightarrow> length buf < 2 ^ 62 \<Longrightarrow> cbb_reachable M c"
| reach_step: "cbb_reachable M c \<Longrightarrow> cbb_step M c c' \<Longrightarrow> cbb_reachable M c'"

lemma init_fixed_ready:
  assumes "CBB_init_fixed M buf (length buf) = (True, c)" and "length buf < 2 ^ 62"
  shows "\<exists>b. ready c b"
  using assms
  by (auto simp: CBB_init_fixed_def cbb_init_def CBB_zero_def zero_fields_def ready_def wf_buffer_def fields_end_def
      split: option.splits)

lemma cbb_reachable_ok: "cbb_reachable M c \<Longrightarrow> malloc_spec M \<Longrightarrow> cbb_ok c"
proof (induction rule: cbb_reachable.induct)
  case (reach_init cap c)
  then show ?case using CBB_init_ready [of M cap c] by (auto simp: cbb_ok_def)
next
  case (reach_fixed buf c)
  then show ?case using init_fixed_ready by (auto simp: cbb_ok_def)
next
  case (reach_step c c')
  then show ?case using cbb_step_ok cbb_step_failed by (auto simp: cbb_ok_def)
qed

lemma cbb_steps_failed: "(cbb_step M)\<^sup>*\<^sup>* c c' \<Longrightarrow> CBB_failed c \<Longrightarrow> CBB_failed c'"
  by (induction rule: rtranclp_induct) (auto dest: cbb_step_failed)

section \<open>Properties\<close>

text \<open>
  C11: Flushing a builder fills in every pending length prefix of the chain of open children: on
  success the buffer holds what \<open>flush_spec\<close> says, the length of the contents of each child in the
  width of its prefix or in the distinguished form of an ASN.1 length, innermost first, with the
  contents moved where a longer length needs room, and nothing is pending any more.
\<close>

theorem CBB_flush_refines:
  assumes "malloc_spec M" and "ready c b" and "CBB_flush M c = (True, c')"
  shows "\<exists>b'. ready c' b' \<and> cbb_chain c' = [] \<and> flush_spec (written b) (cbb_chain c) = Some (written b')"
  using CBB_flush_appends [OF assms] assms(2)
  by (auto simp: appends_def CBB_bytes_def ready_def)

definition asn1_pending :: CBB where
  "asn1_pending =
     \<lparr>cbb_base = Some \<lparr>bb_buf = [0x30, 0, 7, 8, 0, 0], bb_len = 4, bb_cap = 6, bb_can_resize = False,
                       bb_error = False\<rparr>,
      cbb_self = zero_fields,
      cbb_chain = [zero_fields\<lparr>cbb_offset := 1, cbb_pending_len_len := 1, cbb_pending_is_asn1 := True\<rparr>]\<rparr>"

theorem CBB_flush_refines_witness:
  "\<exists>c' b b'. CBB_flush zero_malloc asn1_pending = (True, c') \<and> ready asn1_pending b \<and> ready c' b'
    \<and> flush_spec (written b) (cbb_chain asn1_pending) = Some (written b')"
proof -
  obtain b where b: "ready asn1_pending b"
    by (auto simp: asn1_pending_def ready_def wf_buffer_def wf_prefix_def fields_end_def zero_fields_def)
  obtain c' where "CBB_flush zero_malloc asn1_pending = (True, c')"
    by (auto simp: asn1_pending_def CBB_flush_def zero_fields_def flush_length_def size_add_def Let_def)
  with CBB_flush_refines [OF zero_malloc_spec b this] b show ?thesis by blast
qed


lemma reachable_sample:
  "\<exists>c c1. CBB_init zero_malloc 0 = (True, c) \<and> CBB_add_asn1 zero_malloc c CBS_ASN1_INTEGER = (True, c1)
    \<and> cbb_reachable zero_malloc c1 \<and> \<not> CBB_failed c1"
proof -
  from CBB_init_live [OF zero_malloc_total, of 0] obtain c where
    c: "CBB_init zero_malloc 0 = (True, c)" "live c []" by auto
  from CBB_add_asn1_live [OF zero_malloc_total c(2), of CBS_ASN1_INTEGER] obtain c1 where
    c1: "CBB_add_asn1 zero_malloc c CBS_ASN1_INTEGER = (True, c1)" by auto
  from c(2) obtain b where "ready c b" using live_ready by blast
  from CBB_add_asn1_opens [OF zero_malloc_spec this c1] have "\<not> CBB_failed c1"
    by (auto simp: opens_def ready_def CBB_failed_def)
  moreover have "cbb_reachable zero_malloc c1"
    by (rule reach_step [OF reach_init [OF c(1)] step_op [OF op_asn1 [OF c1]]]) simp
  ultimately show ?thesis using c(1) c1 by blast
qed


text \<open>
  C13: Errors stick: once one of the adding operations or \<^verbatim>\<open>CBB_flush\<close> has returned zero, no sequence
  of further operations, on the builder or on its children, makes \<^verbatim>\<open>CBB_finish\<close> return anything but
  an error, so a message with a part missing is never produced.
\<close>

theorem builder_errors_stick:
  assumes "cbb_op M False c c'" and "(cbb_step M)\<^sup>*\<^sup>* c' c''"
  shows "fst (CBB_finish M c'' out_data_null out_len_null) = None"
  using CBB_flush_failed [OF cbb_steps_failed [OF assms(2) cbb_op_False [OF assms(1)]]]
  by (simp add: CBB_finish_def)

definition tiny :: CBB where
  "tiny = \<lparr>cbb_base = Some \<lparr>bb_buf = [0], bb_len = 0, bb_cap = 1, bb_can_resize = False, bb_error = False\<rparr>,
           cbb_self = zero_fields\<lparr>cbb_is_top_level := True\<rparr>, cbb_chain = []\<rparr>"

theorem builder_errors_stick_witness:
  "CBB_init_fixed zero_malloc [0] 1 = (True, tiny)
    \<and> (\<exists>c' ok c''. CBB_add_u16 zero_malloc tiny 5 = (False, c') \<and> CBB_add_u8 zero_malloc c' 1 = (ok, c'')
         \<and> fst (CBB_finish zero_malloc c'' False False) = None)"
proof -
  have "OPENSSL_malloc zero_malloc 32 = Some (replicate 32 0)"
    by (simp add: OPENSSL_malloc_def zero_malloc_def OPENSSL_MALLOC_PREFIX_def size_add_def)
  then have i: "CBB_init_fixed zero_malloc [0] 1 = (True, tiny)"
    by (simp add: CBB_init_fixed_def cbb_init_def tiny_def CBB_zero_def)
  obtain c' where r: "CBB_add_u16 zero_malloc tiny 5 = (False, c')"
    by (auto simp: CBB_add_u16_def tiny_def cbb_then_def CBB_flush_def on_base_def cbb_buffer_add_u_def
        cbb_buffer_add_def cbb_buffer_reserve_def size_add_def Let_def)
  obtain ok c'' where s: "CBB_add_u8 zero_malloc c' 1 = (ok, c'')" by (rule prod.exhaust)
  have "(cbb_step zero_malloc)\<^sup>*\<^sup>* c' c''" using step_op [OF op_u8 [OF s]] by blast
  from builder_errors_stick [OF op_u16 [OF r] this] i r s show ?thesis by blast
qed

end
