(* ===== verification/Lhash.thy ===== *)
theory Lhash
  imports Mem Buf "HOL-Library.Multiset"
begin

text \<open>
  \<^verbatim>\<open>crypto/lhash/lhash.c\<close>: the chained hash table. A chain is the list of its items from the head on.
  The items are heap objects that the iteration refers to by address; \<open>item_id\<close> stands for the
  address and \<open>lh_allocated\<close>, the number of items allocated so far, for a fresh one. The elements are
  non-NULL pointers of type \<open>'d\<close>; \<^verbatim>\<open>comp\<close> and \<^verbatim>\<open>hash\<close> are functions of the caller. \<^verbatim>\<open>size_t\<close> counters
  are kept modulo \<open>2 ^ 64\<close>.
\<close>

section \<open>State\<close>

record 'd LHASH_ITEM =
  item_id :: nat
  item_data :: 'd
  item_hash :: u32

record 'd lhash_st =
  num_items :: nat
  buckets :: "'d LHASH_ITEM list list"
  num_buckets :: nat
  callback_depth :: nat
  lh_comp :: "'d \<Rightarrow> 'd \<Rightarrow> int"
  lh_hash :: "'d \<Rightarrow> u32"
  lh_allocated :: nat

definition kMinNumBuckets :: nat where "kMinNumBuckets = 16"
definition kMaxAverageChainLength :: nat where "kMaxAverageChainLength = 2"
definition kMinAverageChainLength :: nat where "kMinAverageChainLength = 1"

text \<open>\<^verbatim>\<open>sizeof(_LHASH)\<close> is 48, a bucket is a pointer of eight bytes.\<close>

definition lh_new :: "malloc \<Rightarrow> ('d \<Rightarrow> u32) \<Rightarrow> ('d \<Rightarrow> 'd \<Rightarrow> int) \<Rightarrow> 'd lhash_st option" where
  "lh_new M hash cmp =
     (case OPENSSL_malloc M 48 of
        None \<Rightarrow> None
      | Some _ \<Rightarrow>
          (case OPENSSL_malloc M (8 * kMinNumBuckets) of
             None \<Rightarrow> None
           | Some _ \<Rightarrow> Some \<lparr>num_items = 0, buckets = replicate kMinNumBuckets [], num_buckets = kMinNumBuckets,
                             callback_depth = 0, lh_comp = cmp, lh_hash = hash, lh_allocated = 0\<rparr>))"

definition lh_num_items :: "'d lhash_st \<Rightarrow> nat" where
  "lh_num_items lh = num_items lh"

section \<open>Search\<close>

text \<open>
  The pointer to the pointer to the item is the bucket and the position in its chain; the position
  is the length of the chain when the pointer found points to NULL.
\<close>

definition get_next_ptr_and_hash :: "'d lhash_st \<Rightarrow> 'd \<Rightarrow> u32 \<times> nat \<times> nat" where
  "get_next_ptr_and_hash lh data =
     (let hash = lh_hash lh data;
          bucket = unat hash mod num_buckets lh
      in (hash, bucket,
          length (takeWhile (\<lambda>cur. lh_comp lh (item_data cur) data \<noteq> 0) (buckets lh ! bucket))))"

text \<open>\<^verbatim>\<open>*next_ptr\<close>\<close>

definition item_at :: "'d lhash_st \<Rightarrow> nat \<Rightarrow> nat \<Rightarrow> 'd LHASH_ITEM option" where
  "item_at lh bucket pos =
     (if pos < length (buckets lh ! bucket) then Some (buckets lh ! bucket ! pos) else None)"

definition lh_retrieve :: "'d lhash_st \<Rightarrow> 'd \<Rightarrow> 'd option" where
  "lh_retrieve lh data =
     (case get_next_ptr_and_hash lh data of
        (_, bucket, pos) \<Rightarrow> map_option item_data (item_at lh bucket pos))"

section \<open>Resizing\<close>

text \<open>The inner loop of \<^verbatim>\<open>lh_rebucket\<close>: each item goes to the front of its new chain.\<close>

definition push_item :: "nat \<Rightarrow> 'd LHASH_ITEM list list \<Rightarrow> 'd LHASH_ITEM \<Rightarrow> 'd LHASH_ITEM list list" where
  "push_item n new_buckets cur =
     (let new_bucket = unat (item_hash cur) mod n
      in new_buckets[new_bucket := cur # new_buckets ! new_bucket])"

definition lh_rebucket :: "malloc \<Rightarrow> 'd lhash_st \<Rightarrow> nat \<Rightarrow> 'd lhash_st" where
  "lh_rebucket M lh new_num_buckets =
     (let alloc_size = size_mul 8 new_num_buckets
      in if alloc_size div 8 \<noteq> new_num_buckets then lh
         else (case OPENSSL_malloc M alloc_size of
                 None \<Rightarrow> lh
               | Some _ \<Rightarrow>
                   lh\<lparr>num_buckets := new_num_buckets,
                      buckets := foldl (foldl (push_item new_num_buckets))
                                       (replicate new_num_buckets []) (buckets lh)\<rparr>))"

definition lh_maybe_resize :: "malloc \<Rightarrow> 'd lhash_st \<Rightarrow> 'd lhash_st" where
  "lh_maybe_resize M lh =
     (if callback_depth lh > 0 then lh
      else let avg_chain_length = num_items lh div num_buckets lh
           in if avg_chain_length > kMaxAverageChainLength
              then let new_num_buckets = size_mul (num_buckets lh) 2
                   in if new_num_buckets > num_buckets lh then lh_rebucket M lh new_num_buckets else lh
              else if avg_chain_length < kMinAverageChainLength \<and> num_buckets lh > kMinNumBuckets
              then let new_num_buckets = num_buckets lh div 2;
                       new_num_buckets = (if new_num_buckets < kMinNumBuckets then kMinNumBuckets
                                          else new_num_buckets)
                   in lh_rebucket M lh new_num_buckets
              else lh)"

section \<open>Insertion and deletion\<close>

text \<open>The result of \<^verbatim>\<open>lh_insert\<close> is its return value, \<^verbatim>\<open>*old_data\<close> and the table.\<close>

definition lh_insert :: "malloc \<Rightarrow> 'd lhash_st \<Rightarrow> 'd \<Rightarrow> bool \<times> 'd option \<times> 'd lhash_st" where
  "lh_insert M lh data =
     (case get_next_ptr_and_hash lh data of
        (hash, bucket, pos) \<Rightarrow>
          (case item_at lh bucket pos of
             Some item \<Rightarrow>
               (True, Some (item_data item),
                lh\<lparr>buckets := (buckets lh)[bucket := (buckets lh ! bucket)[pos := item\<lparr>item_data := data\<rparr>]]\<rparr>)
           | None \<Rightarrow>
               (case OPENSSL_malloc M 24 of
                  None \<Rightarrow> (False, None, lh)
                | Some _ \<Rightarrow>
                    let item = \<lparr>item_id = lh_allocated lh, item_data = data, item_hash = hash\<rparr>
                    in (True, None,
                        lh_maybe_resize M
                          (lh\<lparr>buckets := (buckets lh)[bucket := buckets lh ! bucket @ [item]],
                              lh_allocated := lh_allocated lh + 1,
                              num_items := size_add (num_items lh) 1\<rparr>)))))"

definition lh_delete :: "malloc \<Rightarrow> 'd lhash_st \<Rightarrow> 'd \<Rightarrow> 'd option \<times> 'd lhash_st" where
  "lh_delete M lh data =
     (case get_next_ptr_and_hash lh data of
        (_, bucket, pos) \<Rightarrow>
          (case item_at lh bucket pos of
             None \<Rightarrow> (None, lh)
           | Some item \<Rightarrow>
               (Some (item_data item),
                lh_maybe_resize M
                  (lh\<lparr>buckets := (buckets lh)[bucket := take pos (buckets lh ! bucket) @ drop (Suc pos) (buckets lh ! bucket)],
                      num_items := size_add (num_items lh) (size_t_end - 1)\<rparr>))))"

section \<open>Iteration\<close>

text \<open>
  A callback is given the element and may change the table and its own state. The loop over a chain
  keeps the address of the next item across the call: \<open>Use_after_free\<close> when the item is no longer
  in the chain after the call. A callback that keeps inserting may keep the loop going for ever
  (\<open>None\<close>).
\<close>

type_synonym ('d, 's) callback = "'d \<Rightarrow> 'd lhash_st \<times> 's \<Rightarrow> 'd lhash_st \<times> 's"

datatype 'r iteration = Finished 'r | Use_after_free

definition chain_head :: "'d LHASH_ITEM list \<Rightarrow> nat option" where
  "chain_head chain = (case chain of [] \<Rightarrow> None | cur # _ \<Rightarrow> Some (item_id cur))"

definition find_item :: "'d LHASH_ITEM list \<Rightarrow> nat \<Rightarrow> ('d LHASH_ITEM \<times> nat option) option" where
  "find_item chain cur =
     (case dropWhile (\<lambda>x. item_id x \<noteq> cur) chain of
        [] \<Rightarrow> None
      | item # rest \<Rightarrow> Some (item, chain_head rest))"

partial_function (option) doall_chain ::
  "('d, 's) callback \<Rightarrow> nat \<Rightarrow> nat option \<Rightarrow> 'd lhash_st \<times> 's \<Rightarrow> ('d lhash_st \<times> 's) iteration option" where
  "doall_chain f i cur st =
     (case cur of
        None \<Rightarrow> Some (Finished st)
      | Some addr \<Rightarrow>
          (case find_item (buckets (fst st) ! i) addr of
             None \<Rightarrow> Some Use_after_free
           | Some (item, next) \<Rightarrow> doall_chain f i next (f (item_data item) st)))"

partial_function (option) doall_buckets ::
  "('d, 's) callback \<Rightarrow> nat \<Rightarrow> 'd lhash_st \<times> 's \<Rightarrow> ('d lhash_st \<times> 's) iteration option" where
  "doall_buckets f i st =
     (if i < num_buckets (fst st)
      then Option.bind (doall_chain f i (chain_head (buckets (fst st) ! i)) st)
             (\<lambda>r. case r of Use_after_free \<Rightarrow> Some Use_after_free | Finished st \<Rightarrow> doall_buckets f (i + 1) st)
      else Some (Finished st))"

definition UINT_MAX :: nat where "UINT_MAX = 2 ^ 32 - 1"

definition lh_doall_internal ::
  "malloc \<Rightarrow> 'd lhash_st option \<Rightarrow> ('d, 's) callback \<Rightarrow> 's \<Rightarrow> ('d lhash_st option \<times> 's) iteration option" where
  "lh_doall_internal M lh f s =
     (case lh of
        None \<Rightarrow> Some (Finished (None, s))
      | Some lh \<Rightarrow>
          let lh = (if callback_depth lh < UINT_MAX then lh\<lparr>callback_depth := callback_depth lh + 1\<rparr> else lh)
          in (case doall_buckets f 0 (lh, s) of
                None \<Rightarrow> None
              | Some Use_after_free \<Rightarrow> Some Use_after_free
              | Some (Finished (lh, s)) \<Rightarrow>
                  let lh = (if callback_depth lh < UINT_MAX
                            then lh\<lparr>callback_depth := callback_depth lh - 1\<rparr> else lh)
                  in Some (Finished (Some (lh_maybe_resize M lh), s))))"

definition lh_doall ::
  "malloc \<Rightarrow> 'd lhash_st option \<Rightarrow> ('d, 's) callback \<Rightarrow> 's \<Rightarrow> ('d lhash_st option \<times> 's) iteration option" where
  "lh_doall M lh func s = lh_doall_internal M lh func s"

definition lh_doall_arg ::
  "malloc \<Rightarrow> 'd lhash_st option \<Rightarrow> ('d \<Rightarrow> 'a \<Rightarrow> 'd lhash_st \<times> 's \<Rightarrow> 'd lhash_st \<times> 's) \<Rightarrow> 'a \<Rightarrow> 's \<Rightarrow>
     ('d lhash_st option \<times> 's) iteration option" where
  "lh_doall_arg M lh func arg s = lh_doall_internal M lh (\<lambda>data. func data arg) s"

text \<open>\<open>c\<close> is a C string without its terminator, \<open>None\<close> for NULL.\<close>

definition lh_strhash :: "u8 list option \<Rightarrow> u32" where
  "lh_strhash c = (case c of None \<Rightarrow> 0 | Some s \<Rightarrow> OPENSSL_hash32 s)"

section \<open>The invariant\<close>

text \<open>The comparison is an equality that the hash respects.\<close>

definition key_ok :: "('d \<Rightarrow> 'd \<Rightarrow> int) \<Rightarrow> ('d \<Rightarrow> u32) \<Rightarrow> bool" where
  "key_ok cmp hash \<longleftrightarrow>
     (\<forall>a. cmp a a = 0) \<and> (\<forall>a b. cmp a b = 0 \<longrightarrow> cmp b a = 0)
     \<and> (\<forall>a b c. cmp a b = 0 \<longrightarrow> cmp b c = 0 \<longrightarrow> cmp a c = 0) \<and> (\<forall>a b. cmp a b = 0 \<longrightarrow> hash a = hash b)"

lemma key_okD:
  assumes "key_ok cmp hash"
  shows "cmp a a = 0" and "cmp a b = 0 \<Longrightarrow> cmp b a = 0" and "cmp a b = 0 \<Longrightarrow> cmp b c = 0 \<Longrightarrow> cmp a c = 0"
    and "cmp a b = 0 \<Longrightarrow> hash a = hash b"
  using assms unfolding key_ok_def by blast+

definition items_of :: "'d lhash_st \<Rightarrow> 'd LHASH_ITEM list" where
  "items_of lh = concat (buckets lh)"

definition lh_elems :: "'d lhash_st \<Rightarrow> 'd set" where
  "lh_elems lh = item_data ` set (items_of lh)"

definition items_ok :: "'d lhash_st \<Rightarrow> 'd LHASH_ITEM list \<Rightarrow> bool" where
  "items_ok lh xs \<longleftrightarrow>
     num_items lh = length xs mod size_t_end
     \<and> distinct (map item_id xs) \<and> (\<forall>x \<in> set xs. item_id x < lh_allocated lh)
     \<and> (\<forall>x \<in> set xs. item_hash x = lh_hash lh (item_data x))
     \<and> (\<forall>x \<in> set xs. \<forall>y \<in> set xs. lh_comp lh (item_data x) (item_data y) = 0 \<longrightarrow> x = y)"

definition placed :: "nat \<Rightarrow> 'd LHASH_ITEM list list \<Rightarrow> bool" where
  "placed n bs \<longleftrightarrow> length bs = n \<and> (\<forall>i < n. \<forall>x \<in> set (bs ! i). unat (item_hash x) mod n = i)"

definition lh_wf :: "'d lhash_st \<Rightarrow> bool" where
  "lh_wf lh \<longleftrightarrow>
     key_ok (lh_comp lh) (lh_hash lh) \<and> kMinNumBuckets \<le> num_buckets lh \<and> num_buckets lh < 2 ^ 60
     \<and> placed (num_buckets lh) (buckets lh) \<and> items_ok lh (items_of lh)"

lemma items_ok_mset: "mset xs = mset ys \<Longrightarrow> items_ok lh xs = items_ok lh ys"
proof -
  assume m: "mset xs = mset ys"
  then have "set xs = set ys" "length xs = length ys" by (auto dest: mset_eq_setD mset_eq_length)
  moreover have "distinct (map item_id xs) = distinct (map item_id ys)"
    using m by (intro mset_eq_imp_distinct_iff) simp
  ultimately show ?thesis by (simp add: items_ok_def)
qed

lemma mset_concat_update:
  "i < length bs \<Longrightarrow> mset (concat (bs[i := c])) + mset (bs ! i) = mset (concat bs) + mset c"
proof -
  assume i: "i < length bs"
  have "mset (concat bs) = mset (concat (take i bs)) + mset (bs ! i) + mset (concat (drop (Suc i) bs))"
    by (subst id_take_nth_drop [OF i]) simp
  moreover have "mset (concat (bs[i := c])) = mset (concat (take i bs)) + mset c + mset (concat (drop (Suc i) bs))"
    by (subst upd_conv_take_nth_drop [OF i]) simp
  ultimately show ?thesis by simp
qed

lemma nth_in_concat: "i < length bs \<Longrightarrow> x \<in> set (bs ! i) \<Longrightarrow> x \<in> set (concat bs)"
  by auto

lemma in_concat_placed: "placed n bs \<Longrightarrow> x \<in> set (concat bs) \<Longrightarrow> x \<in> set (bs ! (unat (item_hash x) mod n))"
  by (auto simp: placed_def in_set_conv_nth [of _ bs])

section \<open>Resizing keeps the items\<close>

lemma push_item_placed:
  assumes "placed n bs" and "0 < n"
  shows "placed n (push_item n bs x)" and "mset (concat (push_item n bs x)) = add_mset x (mset (concat bs))"
proof -
  let ?i = "unat (item_hash x) mod n"
  have i: "?i < length bs" using assms by (simp add: placed_def)
  show "placed n (push_item n bs x)"
    using assms i by (auto simp: placed_def push_item_def Let_def nth_list_update)
  show "mset (concat (push_item n bs x)) = add_mset x (mset (concat bs))"
    using mset_concat_update [OF i, of "x # bs ! ?i"] by (simp add: push_item_def Let_def)
qed

lemma push_chain_placed:
  "placed n bs \<Longrightarrow> 0 < n \<Longrightarrow>
     placed n (foldl (push_item n) bs xs) \<and> mset (concat (foldl (push_item n) bs xs)) = mset xs + mset (concat bs)"
  by (induction xs arbitrary: bs) (simp_all add: push_item_placed)

lemma push_chains_placed:
  "placed n bs \<Longrightarrow> 0 < n \<Longrightarrow>
     placed n (foldl (foldl (push_item n)) bs cs)
     \<and> mset (concat (foldl (foldl (push_item n)) bs cs)) = mset (concat cs) + mset (concat bs)"
  by (induction cs arbitrary: bs) (simp_all add: push_chain_placed ac_simps)

text \<open>What a resize does not touch.\<close>

definition same_table :: "'d lhash_st \<Rightarrow> 'd lhash_st \<Rightarrow> bool" where
  "same_table lh lh' \<longleftrightarrow>
     mset (items_of lh') = mset (items_of lh) \<and> lh_comp lh' = lh_comp lh \<and> lh_hash lh' = lh_hash lh
     \<and> callback_depth lh' = callback_depth lh \<and> num_items lh' = num_items lh \<and> lh_allocated lh' = lh_allocated lh"

lemma same_table_refl [simp]: "same_table lh lh"
  by (simp add: same_table_def)

lemma same_table_elems: "same_table lh lh' \<Longrightarrow> lh_elems lh' = lh_elems lh"
  unfolding same_table_def lh_elems_def by (metis mset_eq_setD)

lemma concat_replicate_Nil: "concat (replicate n []) = []"
  by (induction n) simp_all

lemma lh_rebucket_wf:
  assumes M: "malloc_spec M" and lh: "lh_wf lh" and n: "kMinNumBuckets \<le> n" "n < 2 ^ 61 - 1"
  shows "lh_wf (lh_rebucket M lh n) \<and> same_table lh (lh_rebucket M lh n)"
proof (cases "OPENSSL_malloc M (size_mul 8 n)")
  case None
  then show ?thesis using lh by (simp add: lh_rebucket_def Let_def)
next
  case (Some b)
  have m: "size_mul 8 n = 8 * n" "8 * n < size_t_end - 8" using n by (simp_all add: size_mul_def)
  have "8 * n < 2 ^ 62" using OPENSSL_malloc_bound [OF M Some] m by simp
  then have nb: "n < 2 ^ 60" by simp
  have n0: "0 < n" using n(1) by (simp add: kMinNumBuckets_def)
  let ?bs = "foldl (foldl (push_item n)) (replicate n []) (buckets lh)"
  have r: "lh_rebucket M lh n = lh\<lparr>num_buckets := n, buckets := ?bs\<rparr>"
    using Some m by (simp add: lh_rebucket_def Let_def)
  have "placed n (replicate n [])" by (simp add: placed_def)
  note p = push_chains_placed [OF this n0, of "buckets lh"]
  then have ms: "mset (concat ?bs) = mset (items_of lh)" by (simp add: items_of_def concat_replicate_Nil)
  have "items_ok lh (concat ?bs)" using items_ok_mset [OF ms] lh by (simp add: lh_wf_def)
  then show ?thesis
    using p lh n(1) nb ms by (simp add: r lh_wf_def same_table_def items_of_def items_ok_def)
qed

lemma lh_maybe_resize_wf:
  assumes M: "malloc_spec M" and lh: "lh_wf lh"
  shows "lh_wf (lh_maybe_resize M lh)" and "same_table lh (lh_maybe_resize M lh)"
proof -
  have nb: "kMinNumBuckets \<le> num_buckets lh" "num_buckets lh < 2 ^ 60" using lh by (simp_all add: lh_wf_def)
  then have d: "size_mul (num_buckets lh) 2 = num_buckets lh * 2" by (simp add: size_mul_def)
  have "lh_wf (lh_maybe_resize M lh) \<and> same_table lh (lh_maybe_resize M lh)"
    using lh lh_rebucket_wf [OF M lh, of "num_buckets lh * 2"] lh_rebucket_wf [OF M lh, of "num_buckets lh div 2"]
      lh_rebucket_wf [OF M lh, of kMinNumBuckets] nb
    by (simp add: lh_maybe_resize_def d Let_def kMinNumBuckets_def)
  then show "lh_wf (lh_maybe_resize M lh)" "same_table lh (lh_maybe_resize M lh)" by simp_all
qed

lemma lh_new_wf:
  assumes "key_ok cmp hash" and "lh_new M hash cmp = Some lh"
  shows "lh_wf lh" and "lh_elems lh = {}"
  using assms
  by (auto simp: lh_new_def lh_wf_def placed_def items_ok_def items_of_def lh_elems_def kMinNumBuckets_def
      split: option.splits)

section \<open>Search\<close>

lemma take_while_length:
  "length (takeWhile P xs) < length xs \<Longrightarrow> \<not> P (xs ! length (takeWhile P xs))"
  "\<not> length (takeWhile P xs) < length xs \<Longrightarrow> \<forall>x \<in> set xs. P x"
  by (induction xs) (auto split: if_splits)

lemma search_Some:
  assumes lh: "lh_wf lh" and g: "get_next_ptr_and_hash lh d = (h, b, pos)" and x: "item_at lh b pos = Some x"
  shows "b < length (buckets lh)" and "pos < length (buckets lh ! b)" and "x = buckets lh ! b ! pos"
    and "x \<in> set (items_of lh)" and "lh_comp lh (item_data x) d = 0"
proof -
  have b: "b = unat (lh_hash lh d) mod num_buckets lh"
    and pos: "pos = length (takeWhile (\<lambda>cur. lh_comp lh (item_data cur) d \<noteq> 0) (buckets lh ! b))"
    using g by (auto simp: get_next_ptr_and_hash_def Let_def)
  show bl: "b < length (buckets lh)" using lh b by (simp add: lh_wf_def placed_def kMinNumBuckets_def)
  show p: "pos < length (buckets lh ! b)" and xp: "x = buckets lh ! b ! pos"
    using x by (simp_all add: item_at_def split: if_splits)
  show "x \<in> set (items_of lh)"
    unfolding items_of_def using nth_in_concat [OF bl] p xp by simp
  show "lh_comp lh (item_data x) d = 0"
    using take_while_length(1) [of "\<lambda>cur. lh_comp lh (item_data cur) d \<noteq> 0" "buckets lh ! b", folded pos] p
    unfolding xp by blast
qed

lemma search_None:
  assumes lh: "lh_wf lh" and g: "get_next_ptr_and_hash lh d = (h, b, pos)" and x: "item_at lh b pos = None"
  shows "b < length (buckets lh)" and "b = unat (lh_hash lh d) mod num_buckets lh" and "h = lh_hash lh d"
    and "y \<in> lh_elems lh \<Longrightarrow> lh_comp lh y d \<noteq> 0"
proof -
  show b: "b = unat (lh_hash lh d) mod num_buckets lh" and "h = lh_hash lh d"
    using g by (auto simp: get_next_ptr_and_hash_def Let_def)
  have pos: "pos = length (takeWhile (\<lambda>cur. lh_comp lh (item_data cur) d \<noteq> 0) (buckets lh ! b))"
    using g by (auto simp: get_next_ptr_and_hash_def Let_def)
  show "b < length (buckets lh)" using lh b by (simp add: lh_wf_def placed_def kMinNumBuckets_def)
  have no: "\<forall>x \<in> set (buckets lh ! b). lh_comp lh (item_data x) d \<noteq> 0"
    using take_while_length(2) [of "\<lambda>cur. lh_comp lh (item_data cur) d \<noteq> 0" "buckets lh ! b", folded pos] x
    unfolding item_at_def by (metis option.distinct(1))
  show "lh_comp lh y d \<noteq> 0" if y: "y \<in> lh_elems lh"
  proof
    assume e: "lh_comp lh y d = 0"
    from y obtain x where x: "x \<in> set (items_of lh)" "y = item_data x" by (auto simp: lh_elems_def)
    have "lh_hash lh y = lh_hash lh d" using lh e key_okD(4) by (auto simp: lh_wf_def)
    then have "item_hash x = lh_hash lh d" using lh x by (simp add: lh_wf_def items_ok_def)
    with x(1) lh in_concat_placed [of "num_buckets lh" "buckets lh" x] have "x \<in> set (buckets lh ! b)"
      by (simp add: items_of_def lh_wf_def b)
    with no e x(2) show False by simp
  qed
qed

lemma lh_retrieve_iff:
  assumes lh: "lh_wf lh"
  shows "lh_retrieve lh d = Some x \<longleftrightarrow> x \<in> lh_elems lh \<and> lh_comp lh x d = 0"
proof -
  obtain h b pos where g: "get_next_ptr_and_hash lh d = (h, b, pos)" by (rule prod_cases3)
  show ?thesis
  proof (cases "item_at lh b pos")
    case None
    then show ?thesis using search_None(4) [OF lh g None] by (auto simp: lh_retrieve_def g)
  next
    case (Some y)
    note y = search_Some(4,5) [OF lh g Some]
    have k: "key_ok (lh_comp lh) (lh_hash lh)" using lh by (simp add: lh_wf_def)
    have u: "z = y" if z: "z \<in> set (items_of lh)" "lh_comp lh (item_data z) d = 0" for z
    proof -
      have "lh_comp lh (item_data z) (item_data y) = 0"
        using key_okD(3) [OF k z(2)] key_okD(2) [OF k y(2)] by blast
      with lh z(1) y(1) show ?thesis by (simp add: lh_wf_def items_ok_def)
    qed
    have r: "lh_retrieve lh d = Some (item_data y)" by (simp add: lh_retrieve_def g Some)
    show ?thesis
    proof
      assume "lh_retrieve lh d = Some x"
      with r y show "x \<in> lh_elems lh \<and> lh_comp lh x d = 0" by (auto simp: lh_elems_def)
    next
      assume "x \<in> lh_elems lh \<and> lh_comp lh x d = 0"
      then obtain z where "z \<in> set (items_of lh)" "x = item_data z" "lh_comp lh (item_data z) d = 0"
        by (auto simp: lh_elems_def)
      with u r show "lh_retrieve lh d = Some x" by blast
    qed
  qed
qed

section \<open>Insertion and deletion\<close>

lemma concat_at:
  assumes "b < length bs" and "pos < length (bs ! b)"
  obtains u v where "concat bs = u @ bs ! b ! pos # v"
    and "\<And>y. concat (bs[b := (bs ! b)[pos := y]]) = u @ y # v"
    and "concat (bs[b := take pos (bs ! b) @ drop (Suc pos) (bs ! b)]) = u @ v"
proof
  let ?u = "concat (take b bs) @ take pos (bs ! b)" and ?v = "drop (Suc pos) (bs ! b) @ concat (drop (Suc b) bs)"
  have c: "bs ! b = take pos (bs ! b) @ bs ! b ! pos # drop (Suc pos) (bs ! b)"
    by (rule id_take_nth_drop [OF assms(2)])
  show "concat bs = ?u @ bs ! b ! pos # ?v"
    by (subst id_take_nth_drop [OF assms(1)]) (use c in simp)
  show "concat (bs[b := (bs ! b)[pos := y]]) = ?u @ y # ?v" for y
    by (simp add: upd_conv_take_nth_drop assms)
  show "concat (bs[b := take pos (bs ! b) @ drop (Suc pos) (bs ! b)]) = ?u @ ?v"
    by (simp add: upd_conv_take_nth_drop assms)
qed

lemma placed_update:
  "placed n bs \<Longrightarrow> b < n \<Longrightarrow> (\<And>x. x \<in> set c \<Longrightarrow> unat (item_hash x) mod n = b) \<Longrightarrow> placed n (bs[b := c])"
  by (auto simp: placed_def nth_list_update)

text \<open>The elements that are not equal to \<open>d\<close>.\<close>

definition others :: "'d lhash_st \<Rightarrow> 'd \<Rightarrow> 'd set" where
  "others lh d = {y \<in> lh_elems lh. lh_comp lh y d \<noteq> 0}"

lemma others_split:
  assumes lh: "lh_wf lh" and it: "items_of lh = u @ x # v" and e: "lh_comp lh (item_data x) d = 0"
  shows "others lh d = item_data ` (set u \<union> set v)"
proof -
  have k: "key_ok (lh_comp lh) (lh_hash lh)" and ok: "items_ok lh (u @ x # v)"
    using lh it by (simp_all add: lh_wf_def)
  have "lh_comp lh (item_data y) d \<noteq> 0" if y: "y \<in> set u \<union> set v" for y
  proof
    assume "lh_comp lh (item_data y) d = 0"
    then have "lh_comp lh (item_data y) (item_data x) = 0"
      using key_okD(3) [OF k] key_okD(2) [OF k e] by blast
    with ok y have "y = x" by (auto simp: items_ok_def)
    with ok y show False by (auto simp: items_ok_def)
  qed
  then show ?thesis using e by (auto simp: others_def lh_elems_def it)
qed

lemma others_none: "(\<And>y. y \<in> lh_elems lh \<Longrightarrow> lh_comp lh y d \<noteq> 0) \<Longrightarrow> others lh d = lh_elems lh"
  by (auto simp: others_def)

lemma lh_insert_True:
  assumes M: "malloc_spec M" and lh: "lh_wf lh" and r: "lh_insert M lh d = (True, old, lh')"
  shows "lh_wf lh'" and "lh_elems lh' = insert d (others lh d)" and "old = lh_retrieve lh d"
    and "lh_comp lh' = lh_comp lh" and "lh_hash lh' = lh_hash lh" and "callback_depth lh' = callback_depth lh"
proof -
  obtain h b pos where g: "get_next_ptr_and_hash lh d = (h, b, pos)" by (rule prod_cases3)
  have k: "key_ok (lh_comp lh) (lh_hash lh)" and ok: "items_ok lh (items_of lh)"
    and pl: "placed (num_buckets lh) (buckets lh)" using lh by (simp_all add: lh_wf_def)
  have "lh_wf lh' \<and> lh_elems lh' = insert d (others lh d) \<and> old = lh_retrieve lh d
    \<and> lh_comp lh' = lh_comp lh \<and> lh_hash lh' = lh_hash lh \<and> callback_depth lh' = callback_depth lh"
  proof (cases "item_at lh b pos")
    case (Some x)
    note S = search_Some [OF lh g Some]
    define x' where "x' = x\<lparr>item_data := d\<rparr>"
    define bs where "bs = (buckets lh)[b := (buckets lh ! b)[pos := x']]"
    from r have lh': "lh' = lh\<lparr>buckets := bs\<rparr>" and old: "old = Some (item_data x)"
      by (simp_all add: lh_insert_def g Some bs_def x'_def)
    from concat_at [OF S(1,2)] obtain u v where uv: "items_of lh = u @ x # v" "concat bs = u @ x' # v"
      unfolding items_of_def bs_def S(3) by metis
    have h: "lh_hash lh (item_data x) = lh_hash lh d" by (rule key_okD(4) [OF k S(5)])
    have o: "others lh d = item_data ` (set u \<union> set v)" by (rule others_split [OF lh uv(1) S(5)])
    have ne: "lh_comp lh (item_data y) d \<noteq> 0 \<and> lh_comp lh d (item_data y) \<noteq> 0" if "y \<in> set u \<union> set v" for y
      using o that key_okD(2) [OF k] unfolding others_def by blast
    have "items_ok lh (u @ x' # v)"
      using ok h ne unfolding uv(1) by (auto simp: items_ok_def x'_def)
    moreover have "placed (num_buckets lh) bs"
      unfolding bs_def
    proof (rule placed_update [OF pl])
      show "b < num_buckets lh" using S(1) pl by (simp add: placed_def)
      fix y assume "y \<in> set ((buckets lh ! b)[pos := x'])"
      then have "y = x' \<or> y \<in> set (buckets lh ! b)" using set_update_subset_insert [of "buckets lh ! b" pos x'] by auto
      moreover have "item_hash x' = item_hash x" "x \<in> set (buckets lh ! b)" using S(2,3) by (simp_all add: x'_def)
      ultimately show "unat (item_hash y) mod num_buckets lh = b" using pl S(1) by (auto simp: placed_def)
    qed
    ultimately have "lh_wf lh'"
      using lh uv(2) by (simp add: lh' lh_wf_def items_of_def items_ok_def)
    moreover have "lh_elems lh' = insert d (others lh d)"
      by (auto simp: o lh_elems_def items_of_def lh' uv(2) x'_def)
    moreover have "lh_retrieve lh d = Some (item_data x)" by (simp add: lh_retrieve_def g Some)
    ultimately show ?thesis using old by (simp add: lh')
  next
    case None
    note S = search_None [OF lh g None]
    define x where "x = \<lparr>item_id = lh_allocated lh, item_data = d, item_hash = h\<rparr>"
    define lh1 where "lh1 = lh\<lparr>buckets := (buckets lh)[b := buckets lh ! b @ [x]],
                              lh_allocated := lh_allocated lh + 1, num_items := size_add (num_items lh) 1\<rparr>"
    from r have lh': "lh' = lh_maybe_resize M lh1" and old: "old = None"
      by (auto simp: lh_insert_def g None lh1_def x_def split: option.splits)
    have ms: "mset (items_of lh1) = mset (x # items_of lh)"
      using mset_concat_update [OF S(1), of "buckets lh ! b @ [x]"] by (simp add: items_of_def lh1_def)
    have ne: "lh_comp lh (item_data y) d \<noteq> 0 \<and> lh_comp lh d (item_data y) \<noteq> 0" if "y \<in> set (items_of lh)" for y
      using S(4) [of "item_data y"] that key_okD(2) [OF k] unfolding lh_elems_def by blast
    have n: "size_add (num_items lh) 1 = Suc (length (items_of lh)) mod size_t_end"
      using ok by (simp add: items_ok_def size_add_def mod_Suc_eq)
    have "items_ok lh1 (x # items_of lh)"
      using ok n ne S(3) by (auto simp: items_ok_def lh1_def x_def)
    then have "items_ok lh1 (items_of lh1)" using items_ok_mset [OF ms] by simp
    moreover have "placed (num_buckets lh) (buckets lh1)"
      using pl S(1-3) by (auto simp: lh1_def x_def placed_def nth_list_update)
    ultimately have wf1: "lh_wf lh1" using lh by (simp add: lh_wf_def lh1_def)
    note R = lh_maybe_resize_wf [OF M wf1]
    have "lh_elems lh1 = insert d (lh_elems lh)"
      using mset_eq_setD [OF ms] by (simp add: lh_elems_def x_def)
    moreover have "others lh d = lh_elems lh" by (rule others_none) (rule S(4))
    moreover have "lh_retrieve lh d = None" by (simp add: lh_retrieve_def g None)
    ultimately show ?thesis
      using R same_table_elems [OF R(2)] old by (simp add: lh' same_table_def lh1_def)
  qed
  then show "lh_wf lh'" "lh_elems lh' = insert d (others lh d)" "old = lh_retrieve lh d"
    "lh_comp lh' = lh_comp lh" "lh_hash lh' = lh_hash lh" "callback_depth lh' = callback_depth lh" by simp_all
qed

lemma lh_insert_False: "lh_insert M lh d = (False, old, lh') \<Longrightarrow> lh' = lh \<and> old = None"
  by (auto simp: lh_insert_def Let_def split: prod.splits option.splits)

lemma size_pred: "0 < n \<Longrightarrow> size_add (n mod size_t_end) (size_t_end - 1) = (n - 1) mod size_t_end"
proof -
  assume "0 < n"
  then have "n + (size_t_end - 1) = (n - 1) + size_t_end" by simp
  then have "(n + (size_t_end - 1)) mod size_t_end = (n - 1) mod size_t_end" by (metis mod_add_self2)
  then show ?thesis by (simp add: size_add_def mod_add_left_eq)
qed

lemma lh_delete_wf:
  assumes M: "malloc_spec M" and lh: "lh_wf lh" and r: "lh_delete M lh d = (old, lh')"
  shows "lh_wf lh'" and "lh_elems lh' = others lh d" and "old = lh_retrieve lh d"
    and "lh_comp lh' = lh_comp lh" and "lh_hash lh' = lh_hash lh" and "callback_depth lh' = callback_depth lh"
proof -
  obtain h b pos where g: "get_next_ptr_and_hash lh d = (h, b, pos)" by (rule prod_cases3)
  have "lh_wf lh' \<and> lh_elems lh' = others lh d \<and> old = lh_retrieve lh d
    \<and> lh_comp lh' = lh_comp lh \<and> lh_hash lh' = lh_hash lh \<and> callback_depth lh' = callback_depth lh"
  proof (cases "item_at lh b pos")
    case None
    then have "lh' = lh" "old = None" using r by (simp_all add: lh_delete_def g)
    moreover have "others lh d = lh_elems lh" by (rule others_none) (rule search_None(4) [OF lh g None])
    ultimately show ?thesis using lh by (simp add: lh_retrieve_def g None)
  next
    case (Some x)
    note S = search_Some [OF lh g Some]
    define lh1 where "lh1 = lh\<lparr>buckets := (buckets lh)[b := take pos (buckets lh ! b) @ drop (Suc pos) (buckets lh ! b)],
                              num_items := size_add (num_items lh) (size_t_end - 1)\<rparr>"
    from r have lh': "lh' = lh_maybe_resize M lh1" and old: "old = Some (item_data x)"
      by (simp_all add: lh_delete_def g Some lh1_def)
    from concat_at [OF S(1,2)] obtain u v where uv: "items_of lh = u @ x # v" "items_of lh1 = u @ v"
      unfolding items_of_def lh1_def S(3) by (simp del: concat_append) metis
    have ok: "items_ok lh (u @ x # v)" and pl: "placed (num_buckets lh) (buckets lh)"
      using lh uv(1) by (simp_all add: lh_wf_def)
    have "num_items lh = Suc (length (u @ v)) mod size_t_end" using ok by (simp add: items_ok_def)
    with size_pred [of "Suc (length (u @ v))"]
    have n: "size_add (num_items lh) (size_t_end - 1) = length (u @ v) mod size_t_end" by simp
    have "items_ok lh1 (u @ v)"
      using ok n unfolding items_ok_def lh1_def by auto
    moreover have "placed (num_buckets lh) (buckets lh1)"
    proof -
      have "placed (num_buckets lh) ((buckets lh)[b := take pos (buckets lh ! b) @ drop (Suc pos) (buckets lh ! b)])"
        by (rule placed_update [OF pl]) (use pl S(1) in \<open>auto simp: placed_def dest: in_set_takeD in_set_dropD\<close>)
      then show ?thesis by (simp add: lh1_def)
    qed
    ultimately have wf1: "lh_wf lh1" using lh uv(2) by (simp add: lh_wf_def lh1_def)
    note R = lh_maybe_resize_wf [OF M wf1]
    have "lh_elems lh1 = others lh d"
      unfolding others_split [OF lh uv(1) S(5)] by (simp add: lh_elems_def uv(2))
    moreover have "lh_retrieve lh d = Some (item_data x)" by (simp add: lh_retrieve_def g Some)
    ultimately show ?thesis
      using R same_table_elems [OF R(2)] old by (simp add: lh' same_table_def lh1_def)
  qed
  then show "lh_wf lh'" "lh_elems lh' = others lh d" "old = lh_retrieve lh d"
    "lh_comp lh' = lh_comp lh" "lh_hash lh' = lh_hash lh" "callback_depth lh' = callback_depth lh" by simp_all
qed

end
