(* ===== verification/Dict.thy ===== *)
theory Dict
  imports Prelude
begin

text \<open>
  The interface of a dictionary whose elements carry their keys: what retrieving returns after
  insertions and deletions, also after insertions that failed. The hash table interprets it.
\<close>

datatype 'd dict_op = Put 'd | Remove 'd

text \<open>A sequence of operations on a dictionary; the flags tell which of them succeeded.\<close>

fun dict_run ::
  "('t \<Rightarrow> 'd \<Rightarrow> bool \<times> 'd option \<times> 't) \<Rightarrow> ('t \<Rightarrow> 'd \<Rightarrow> 'd option \<times> 't) \<Rightarrow> 't \<Rightarrow> 'd dict_op list \<Rightarrow> 't \<times> bool list" where
  "dict_run ins del t [] = (t, [])"
| "dict_run ins del t (Put d # ops) =
     (case ins t d of (ok, _, t) \<Rightarrow> (case dict_run ins del t ops of (t, oks) \<Rightarrow> (t, ok # oks)))"
| "dict_run ins del t (Remove d # ops) =
     (case del t d of (_, t) \<Rightarrow> (case dict_run ins del t ops of (t, oks) \<Rightarrow> (t, True # oks)))"

text \<open>What the operations mean for the element found under a key.\<close>

fun dict_spec ::
  "('d \<Rightarrow> 'd \<Rightarrow> bool) \<Rightarrow> ('d \<Rightarrow> 'd option) \<Rightarrow> 'd dict_op list \<Rightarrow> bool list \<Rightarrow> 'd \<Rightarrow> 'd option" where
  "dict_spec eq m (Put d # ops) (ok # oks) =
     dict_spec eq (if ok then (\<lambda>k. if eq d k then Some d else m k) else m) ops oks"
| "dict_spec eq m (Remove d # ops) (ok # oks) = dict_spec eq (\<lambda>k. if eq d k then None else m k) ops oks"
| "dict_spec eq m _ _ = m"

locale dictionary =
  fixes inv :: "'t \<Rightarrow> bool"
    and eq :: "'d \<Rightarrow> 'd \<Rightarrow> bool"
    and elems :: "'t \<Rightarrow> 'd set"
    and retrieve :: "'t \<Rightarrow> 'd \<Rightarrow> 'd option"
    and ins :: "'t \<Rightarrow> 'd \<Rightarrow> bool \<times> 'd option \<times> 't"
    and del :: "'t \<Rightarrow> 'd \<Rightarrow> 'd option \<times> 't"
  assumes eq_equiv: "inv t \<Longrightarrow> equivp eq"
    and retrieve_iff: "inv t \<Longrightarrow> retrieve t d = Some x \<longleftrightarrow> x \<in> elems t \<and> eq x d"
    and ins_True: "inv t \<Longrightarrow> ins t d = (True, old, t') \<Longrightarrow>
      inv t' \<and> elems t' = insert d {x \<in> elems t. \<not> eq x d} \<and> old = retrieve t d"
    and ins_False: "inv t \<Longrightarrow> ins t d = (False, old, t') \<Longrightarrow> t' = t"
    and del_removes: "inv t \<Longrightarrow> del t d = (old, t') \<Longrightarrow>
      inv t' \<and> elems t' = {x \<in> elems t. \<not> eq x d} \<and> old = retrieve t d"
begin

lemma eq_rules:
  assumes "inv t"
  shows "eq x x" and "eq x y \<Longrightarrow> eq y x" and "eq x y \<Longrightarrow> eq y z \<Longrightarrow> eq x z"
  using equivp_reflp [OF eq_equiv [OF assms]] equivp_symp [OF eq_equiv [OF assms]]
    equivp_transp [OF eq_equiv [OF assms]] by blast+

lemma retrieve_eqI:
  assumes "\<And>x. a = Some x \<longleftrightarrow> b = Some x"
  shows "a = b"
  using assms [of "the a"] assms [of "the b"] by (cases a; cases b) simp_all

lemma retrieve_ins:
  assumes t: "inv t" and i: "ins t d = (True, old, t')"
  shows "retrieve t' k = (if eq d k then Some d else retrieve t k)"
proof (rule retrieve_eqI)
  fix x
  note I = ins_True [OF t i]
  have iff': "retrieve t' k = Some x \<longleftrightarrow> (x = d \<or> x \<in> elems t \<and> \<not> eq x d) \<and> eq x k"
    using I retrieve_iff [of t' k x] by auto
  show "retrieve t' k = Some x \<longleftrightarrow> (if eq d k then Some d else retrieve t k) = Some x"
  proof (cases "eq d k")
    case True
    have "eq x d" if "eq x k" by (rule eq_rules(3) [OF t that]) (rule eq_rules(2) [OF t True])
    with True iff' show ?thesis by auto
  next
    case False
    have "\<not> eq x d" if "eq x k" using eq_rules(3) [OF t eq_rules(2) [OF t] that] False by blast
    with False iff' retrieve_iff [OF t, of k x] show ?thesis by auto
  qed
qed

lemma retrieve_del:
  assumes t: "inv t" and r: "del t d = (old, t')"
  shows "retrieve t' k = (if eq d k then None else retrieve t k)"
proof (rule retrieve_eqI)
  fix x
  have iff': "retrieve t' k = Some x \<longleftrightarrow> (x \<in> elems t \<and> \<not> eq x d) \<and> eq x k"
    using del_removes [OF t r] retrieve_iff [of t' k x] by auto
  show "retrieve t' k = Some x \<longleftrightarrow> (if eq d k then None else retrieve t k) = Some x"
  proof (cases "eq d k")
    case True
    have "eq x d" if "eq x k" by (rule eq_rules(3) [OF t that]) (rule eq_rules(2) [OF t True])
    with True iff' show ?thesis by auto
  next
    case False
    have "\<not> eq x d" if "eq x k" using eq_rules(3) [OF t eq_rules(2) [OF t] that] False by blast
    with False iff' retrieve_iff [OF t, of k x] show ?thesis by auto
  qed
qed

lemma run_refines:
  "inv t \<Longrightarrow> dict_run ins del t ops = (t', oks) \<Longrightarrow>
     inv t' \<and> retrieve t' = dict_spec eq (retrieve t) ops oks"
proof (induction ops arbitrary: t oks)
  case Nil
  then show ?case by simp
next
  case (Cons op ops)
  show ?case
  proof (cases op)
    case (Put d)
    obtain ok old t1 where i: "ins t d = (ok, old, t1)" by (rule prod_cases3)
    from Cons.prems(2) Put i obtain oks1 where r: "dict_run ins del t1 ops = (t', oks1)" and o: "oks = ok # oks1"
      by (auto split: prod.splits)
    show ?thesis
    proof (cases ok)
      case True
      with i have i: "ins t d = (True, old, t1)" by simp
      have "retrieve t1 = (\<lambda>k. if eq d k then Some d else retrieve t k)"
        by (rule ext) (rule retrieve_ins [OF Cons.prems(1) i])
      with Cons.IH [OF _ r] ins_True [OF Cons.prems(1) i] Put o True show ?thesis by simp
    next
      case False
      with i have "t1 = t" using ins_False [OF Cons.prems(1)] by simp
      with Cons.IH [OF _ r] Cons.prems(1) Put o False show ?thesis by simp
    qed
  next
    case (Remove d)
    obtain old t1 where i: "del t d = (old, t1)" by (rule prod.exhaust)
    from Cons.prems(2) Remove i obtain oks1 where r: "dict_run ins del t1 ops = (t', oks1)" and o: "oks = True # oks1"
      by (auto split: prod.splits)
    have "retrieve t1 = (\<lambda>k. if eq d k then None else retrieve t k)"
      by (rule ext) (rule retrieve_del [OF Cons.prems(1) i])
    with Cons.IH [OF _ r] del_removes [OF Cons.prems(1) i] Remove o show ?thesis by simp
  qed
qed

end

end
