(* ===== verification/LhashProps.thy ===== *)
theory LhashProps
  imports Lhash Dict
begin

text \<open>
  What the hash table promises: it is a dictionary (interpretation of \<open>dictionary\<close>), its size
  follows the number of its items, and an iteration may delete the element it is at.
\<close>

section \<open>The dictionary\<close>

definition lh_inv :: "malloc \<Rightarrow> ('d \<Rightarrow> 'd \<Rightarrow> bool) \<Rightarrow> 'd lhash_st \<Rightarrow> bool" where
  "lh_inv M eq lh \<longleftrightarrow> malloc_spec M \<and> lh_wf lh \<and> (\<forall>a b. lh_comp lh a b = 0 \<longleftrightarrow> eq a b)"

lemma lh_inv_others: "lh_inv M eq lh \<Longrightarrow> others lh d = {x \<in> lh_elems lh. \<not> eq x d}"
  by (simp add: lh_inv_def others_def)

interpretation lh: dictionary "lh_inv M eq" eq lh_elems lh_retrieve "lh_insert M" "lh_delete M" for M eq
proof
  fix t :: "'a lhash_st" and d x old t'
  assume t: "lh_inv M eq t"
  then have M: "malloc_spec M" and w: "lh_wf t" and e: "\<And>a b. eq a b \<longleftrightarrow> lh_comp t a b = 0"
    by (simp_all add: lh_inv_def)
  have k: "key_ok (lh_comp t) (lh_hash t)" using w by (simp add: lh_wf_def)
  show "equivp eq"
    by (rule equivpI) (auto simp: reflp_def symp_def transp_def e intro: key_okD(1-3) [OF k])
  show "(lh_retrieve t d = Some x) = (x \<in> lh_elems t \<and> eq x d)" by (simp add: lh_retrieve_iff [OF w] e)
  show "lh_inv M eq t' \<and> lh_elems t' = insert d {x \<in> lh_elems t. \<not> eq x d} \<and> old = lh_retrieve t d"
    if "lh_insert M t d = (True, old, t')"
    using lh_insert_True [OF M w that] M e lh_inv_others [OF t] by (simp add: lh_inv_def)
  show "t' = t" if "lh_insert M t d = (False, old, t')" using lh_insert_False [OF that] by simp
  show "lh_inv M eq t' \<and> lh_elems t' = {x \<in> lh_elems t. \<not> eq x d} \<and> old = lh_retrieve t d"
    if "lh_delete M t d = (old, t')"
    using lh_delete_wf [OF M w that] M e lh_inv_others [OF t] by (simp add: lh_inv_def)
qed

lemma lh_new_inv:
  assumes "malloc_spec M" and "key_ok cmp hash" and "lh_new M hash cmp = Some lh"
  shows "lh_inv M (\<lambda>a b. cmp a b = 0) lh" and "lh_retrieve lh = (\<lambda>_. None)"
proof -
  note n = lh_new_wf [OF assms(2,3)]
  have "lh_comp lh = cmp" using assms(3) by (auto simp: lh_new_def split: option.splits)
  then show "lh_inv M (\<lambda>a b. cmp a b = 0) lh" using assms(1) n by (simp add: lh_inv_def)
  have "lh_retrieve lh k \<noteq> Some x" for k x using lh_retrieve_iff [OF n(1)] n(2) by simp
  then have "lh_retrieve lh k = None" for k by (cases "lh_retrieve lh k") simp_all
  then show "lh_retrieve lh = (\<lambda>_. None)" by (simp add: fun_eq_iff)
qed

lemma num_items_card:
  assumes "lh_wf lh"
  shows "num_items lh = card (lh_elems lh) mod size_t_end"
proof -
  have k: "lh_comp lh x x = 0" for x using assms key_okD(1) by (auto simp: lh_wf_def)
  have ok: "items_ok lh (items_of lh)" using assms by (simp add: lh_wf_def)
  then have "inj_on item_data (set (items_of lh))"
    unfolding items_ok_def by (intro inj_onI) (metis k)
  moreover have "distinct (items_of lh)" using ok by (simp add: items_ok_def distinct_map)
  ultimately have "card (lh_elems lh) = length (items_of lh)"
    by (simp add: lh_elems_def card_image distinct_card)
  with ok show ?thesis by (simp add: items_ok_def)
qed

text \<open>
  C10: The hash table refines a finite map from keys to elements. For a comparison that is an
  equality respected by the hash, and any allocator: after creation and any sequence of insertions
  and deletions, some insertions failing for lack of memory, \<^verbatim>\<open>lh_retrieve\<close> returns for every key what
  the map has (an equal element is replaced, a failed insertion changes nothing), across all
  resizings, and \<^verbatim>\<open>lh_num_items\<close> is the number of elements modulo \<open>2 ^ 64\<close>.
\<close>

theorem lhash_refines_map:
  assumes "malloc_spec M" and "key_ok cmp hash" and "lh_new M hash cmp = Some lh"
    and "dict_run (lh_insert M) (lh_delete M) lh ops = (lh', oks)"
  shows "lh_retrieve lh' = dict_spec (\<lambda>a b. cmp a b = 0) (\<lambda>_. None) ops oks
    \<and> lh_num_items lh' = card (lh_elems lh') mod size_t_end \<and> lh_wf lh'"
  using lh.run_refines [OF lh_new_inv(1) [OF assms(1-3)] assms(4)] lh_new_inv(2) [OF assms(1-3)]
  by (simp add: lh_inv_def lh_num_items_def num_items_card)


section \<open>The load\<close>

definition lh_load :: "'d lhash_st \<Rightarrow> bool" where
  "lh_load lh \<longleftrightarrow> num_items lh < 3 * num_buckets lh \<and> num_buckets lh \<le> max kMinNumBuckets (num_items lh)"

lemma lh_rebucket_total:
  assumes "malloc_total M" and "n \<le> 2 ^ 58"
  shows "num_buckets (lh_rebucket M lh n) = n \<and> num_items (lh_rebucket M lh n) = num_items lh"
proof -
  have "size_mul 8 n = 8 * n" using assms(2) by (simp add: size_mul_def)
  moreover from this assms OPENSSL_malloc_total [of M "8 * n"] obtain b where "OPENSSL_malloc M (8 * n) = Some b"
    by auto
  ultimately show ?thesis by (simp add: lh_rebucket_def)
qed

lemma lh_maybe_resize_load:
  assumes M: "malloc_total M" and lh: "callback_depth lh = 0" "kMinNumBuckets \<le> num_buckets lh" "num_buckets lh \<le> 2 ^ 57"
    and n: "num_items lh \<le> 3 * num_buckets lh" "num_buckets lh \<le> max kMinNumBuckets (num_items lh + 1)"
  shows "lh_load (lh_maybe_resize M lh)"
proof -
  have nb: "16 \<le> num_buckets lh" using lh by (simp add: kMinNumBuckets_def)
  have d: "size_mul (num_buckets lh) 2 = num_buckets lh * 2" using lh by (simp add: size_mul_def)
  note R = lh_rebucket_total [OF M, of "num_buckets lh * 2" lh] lh_rebucket_total [OF M, of "num_buckets lh div 2" lh]
    lh_rebucket_total [OF M, of 16 lh]
  consider "3 * num_buckets lh \<le> num_items lh" | "num_items lh < 3 * num_buckets lh" "num_buckets lh \<le> num_items lh"
    | "num_items lh < num_buckets lh" by linarith
  then show ?thesis
  proof cases
    case 1
    then have "2 < num_items lh div num_buckets lh"
      using nb by (simp add: less_eq_div_iff_mult_less_eq Suc_le_eq [symmetric])
    then show ?thesis using R(1) lh n nb 1
      by (simp add: lh_maybe_resize_def d Let_def lh_load_def kMaxAverageChainLength_def kMinNumBuckets_def)
  next
    case 2
    have "num_items lh div num_buckets lh < 3" by (rule less_mult_imp_div_less) (rule 2(1))
    moreover have "0 < num_items lh div num_buckets lh" using nb 2(2) by (simp add: div_greater_zero_iff)
    ultimately have "\<not> 2 < num_items lh div num_buckets lh" "\<not> num_items lh div num_buckets lh < 1" by simp_all
    then show ?thesis using lh n nb 2
      by (simp add: lh_maybe_resize_def d Let_def lh_load_def kMaxAverageChainLength_def
          kMinAverageChainLength_def kMinNumBuckets_def)
  next
    case 3
    then have "num_items lh div num_buckets lh = 0" by simp
    then show ?thesis using R(2,3) lh n nb 3
      by (auto simp: lh_maybe_resize_def d Let_def lh_load_def kMaxAverageChainLength_def
          kMinAverageChainLength_def kMinNumBuckets_def)
  qed
qed

text \<open>A table with at most \<open>n\<close> elements outside iterations.\<close>

definition lh_quiet :: "'d lhash_st \<Rightarrow> nat \<Rightarrow> bool" where
  "lh_quiet lh n \<longleftrightarrow> lh_wf lh \<and> lh_load lh \<and> callback_depth lh = 0 \<and> card (lh_elems lh) \<le> n"

lemma lh_quietD:
  assumes "lh_quiet lh n" and "n < 2 ^ 56"
  shows "num_items lh = card (lh_elems lh)" and "num_items lh \<le> n" and "num_buckets lh \<le> 2 ^ 57"
    and "kMinNumBuckets \<le> num_buckets lh"
  using assms num_items_card [of lh]
  by (auto simp: lh_quiet_def lh_load_def lh_wf_def kMinNumBuckets_def max_def split: if_splits)

lemma lh_quiet_load:
  "lh_quiet lh n \<Longrightarrow> callback_depth lh = 0"
  "lh_quiet lh n \<Longrightarrow> Suc (num_items lh) \<le> 3 * num_buckets lh"
  "lh_quiet lh n \<Longrightarrow> num_buckets lh \<le> max kMinNumBuckets (num_items lh)"
  by (simp_all add: lh_quiet_def lh_load_def)

lemma finite_elems [simp]: "finite (lh_elems lh)"
  by (simp add: lh_elems_def)

lemma lh_insert_quiet:
  assumes M: "malloc_total M" and q: "lh_quiet lh n" and n: "n < 2 ^ 56" and r: "lh_insert M lh d = (ok, old, lh')"
  shows "ok" and "lh_quiet lh' (n + 1)"
proof -
  note Q = lh_quietD [OF q n]
  obtain h b pos where g: "get_next_ptr_and_hash lh d = (h, b, pos)" by (rule prod_cases3)
  obtain p where p: "OPENSSL_malloc M 24 = Some p" using OPENSSL_malloc_total [OF M, of 24] by auto
  have l: "ok \<and> lh_load lh'"
  proof (cases "item_at lh b pos")
    case (Some x)
    then show ?thesis using r q by (auto simp: lh_insert_def g lh_quiet_def lh_load_def)
  next
    case None
    have "num_items lh + 1 < size_t_end" using Q(2) n by simp
    then have s: "size_add (num_items lh) 1 = num_items lh + 1" by (simp add: size_add_def)
    obtain lh1 where "ok" "lh' = lh_maybe_resize M lh1" and lh1: "callback_depth lh1 = callback_depth lh"
      "num_buckets lh1 = num_buckets lh" "num_items lh1 = size_add (num_items lh) 1"
      using r None by (fastforce simp: lh_insert_def g p)
    moreover have "lh_load (lh_maybe_resize M lh1)"
      by (rule lh_maybe_resize_load [OF M]) (use lh_quiet_load [OF q] Q(3,4) lh1 s in auto)
    ultimately show ?thesis by simp
  qed
  then show ok by simp
  with r have i: "lh_insert M lh d = (True, old, lh')" by simp
  have wf: "lh_wf lh" using q by (simp add: lh_quiet_def)
  note w = lh_insert_True(1,2,6) [OF malloc_total_spec [OF M] wf i]
  have "card (others lh d) \<le> card (lh_elems lh)" by (rule card_mono) (auto simp: others_def)
  moreover have "card (lh_elems lh') \<le> Suc (card (others lh d))"
    unfolding w(2) by (rule card_insert_le_m1) simp_all
  moreover have "card (lh_elems lh) \<le> n" using q by (simp add: lh_quiet_def)
  ultimately have "card (lh_elems lh') \<le> n + 1" by linarith
  with w l q show "lh_quiet lh' (n + 1)" by (simp add: lh_quiet_def)
qed

lemma lh_delete_quiet:
  assumes M: "malloc_total M" and q: "lh_quiet lh n" and n: "n < 2 ^ 56" and r: "lh_delete M lh d = (old, lh')"
  shows "lh_quiet lh' n"
proof -
  note Q = lh_quietD [OF q n]
  obtain h b pos where g: "get_next_ptr_and_hash lh d = (h, b, pos)" by (rule prod_cases3)
  have wf: "lh_wf lh" using q by (simp add: lh_quiet_def)
  have l: "lh_load lh'"
  proof (cases "item_at lh b pos")
    case None
    then show ?thesis using r q by (auto simp: lh_delete_def g lh_quiet_def)
  next
    case (Some x)
    have "lh_elems lh \<noteq> {}" using search_Some(4) [OF wf g Some] by (auto simp: lh_elems_def)
    then have pos: "0 < num_items lh" using Q(1) by (simp add: card_gt_0_iff)
    have "num_items lh < size_t_end" using Q(2) n by simp
    then have s: "size_add (num_items lh) (size_t_end - 1) = num_items lh - 1"
      using size_pred [OF pos] by simp
    obtain lh1 where "lh' = lh_maybe_resize M lh1" and lh1: "callback_depth lh1 = callback_depth lh"
      "num_buckets lh1 = num_buckets lh" "num_items lh1 = size_add (num_items lh) (size_t_end - 1)"
      using r Some by (fastforce simp: lh_delete_def g)
    moreover have "lh_load (lh_maybe_resize M lh1)"
      by (rule lh_maybe_resize_load [OF M]) (use lh_quiet_load [OF q] Q(3,4) lh1 s pos in auto)
    ultimately show ?thesis by simp
  qed
  note w = lh_delete_wf(1,2,6) [OF malloc_total_spec [OF M] wf r]
  have "card (others lh d) \<le> card (lh_elems lh)" by (rule card_mono) (auto simp: others_def)
  with w l q show "lh_quiet lh' n" by (simp add: lh_quiet_def)
qed

lemma dict_run_quiet:
  "malloc_total M \<Longrightarrow> lh_quiet lh n \<Longrightarrow> n + length ops < 2 ^ 56 \<Longrightarrow>
     dict_run (lh_insert M) (lh_delete M) lh ops = (lh', oks) \<Longrightarrow>
     lh_quiet lh' (n + length ops) \<and> oks = replicate (length ops) True"
proof (induction ops arbitrary: lh n oks)
  case Nil
  then show ?case by simp
next
  case (Cons op ops)
  show ?case
  proof (cases op)
    case (Put d)
    obtain ok old lh1 where i: "lh_insert M lh d = (ok, old, lh1)" by (rule prod_cases3)
    have "ok" "lh_quiet lh1 (n + 1)" using lh_insert_quiet [OF Cons.prems(1,2) _ i] Cons.prems(3) by simp_all
    with Cons.IH [OF Cons.prems(1), of lh1 "n + 1"] Cons.prems(3,4) Put i show ?thesis by (auto split: prod.splits)
  next
    case (Remove d)
    obtain old lh1 where i: "lh_delete M lh d = (old, lh1)" by (rule prod.exhaust)
    have "lh_quiet lh1 n" using lh_delete_quiet [OF Cons.prems(1,2) _ i] Cons.prems(3) by simp
    then have "lh_quiet lh1 (n + 1)" by (simp add: lh_quiet_def)
    with Cons.IH [OF Cons.prems(1), of lh1 "n + 1"] Cons.prems(3,4) Remove i show ?thesis by (auto split: prod.splits)
  qed
qed

text \<open>
  C26: When the allocator does not fail, every operation of a sequence of fewer than \<open>2 ^ 56\<close>
  succeeds, and the number of buckets follows the number of items at every point: chains are shorter
  than three items on average, and beyond the initial sixteen there is no bucket too many.
\<close>

theorem lhash_load_bounded:
  assumes "malloc_total M" and "key_ok cmp hash" and "lh_new M hash cmp = Some lh" and "length ops < 2 ^ 56"
    and "dict_run (lh_insert M) (lh_delete M) lh ops = (lh', oks)"
  shows "oks = replicate (length ops) True \<and> lh_num_items lh' < 3 * num_buckets lh'
    \<and> num_buckets lh' \<le> max 16 (lh_num_items lh')"
proof -
  have "lh_wf lh" "lh_elems lh = {}" using lh_new_wf [OF assms(2,3)] .
  moreover have "callback_depth lh = 0" "lh_load lh"
    using assms(3) by (auto simp: lh_new_def lh_load_def kMinNumBuckets_def split: option.splits)
  ultimately have "lh_quiet lh 0" by (simp add: lh_quiet_def)
  from dict_run_quiet [OF assms(1) this _ assms(5)] assms(4) show ?thesis
    by (simp add: lh_quiet_def lh_load_def lh_num_items_def kMinNumBuckets_def)
qed


section \<open>Iteration\<close>

text \<open>
  A callback that deletes the element it is given when \<open>p\<close> holds of it, as \<^verbatim>\<open>timeout_doall_arg\<close> in
  \<^verbatim>\<open>ssl/ssl_session.cc\<close> does with an expired session, and otherwise leaves the table alone; \<open>g\<close> is
  what else it does.
\<close>

definition deleting :: "malloc \<Rightarrow> ('d \<Rightarrow> bool) \<Rightarrow> ('d \<Rightarrow> 's \<Rightarrow> 's) \<Rightarrow> ('d, 's) callback" where
  "deleting M p g d st = (if p d then snd (lh_delete M (fst st) d) else fst st, g d (snd st))"

lemma find_item_at:
  "distinct (map item_id (pre @ x # suf)) \<Longrightarrow> find_item (pre @ x # suf) (item_id x) = Some (x, chain_head suf)"
proof -
  assume "distinct (map item_id (pre @ x # suf))"
  then have "dropWhile (\<lambda>y. item_id y \<noteq> item_id x) (pre @ x # suf) = x # suf"
    by (subst dropWhile_append2) (auto simp: image_iff)
  then show ?thesis by (simp add: find_item_def)
qed

lemma chain_distinct:
  assumes lh: "lh_wf lh" and i: "i < num_buckets lh"
  shows "distinct (map item_id (buckets lh ! i))"
proof -
  have "i < length (buckets lh)" using lh i by (simp add: lh_wf_def placed_def)
  then have "items_of lh = concat (take i (buckets lh)) @ buckets lh ! i @ concat (drop (Suc i) (buckets lh))"
    unfolding items_of_def by (subst id_take_nth_drop) simp_all
  with lh show ?thesis by (auto simp: lh_wf_def items_ok_def)
qed

text \<open>During an iteration a deletion takes just the element out of its chain.\<close>

lemma lh_delete_current:
  assumes lh: "lh_wf lh" and i: "i < num_buckets lh" and c: "buckets lh ! i = pre @ x # suf" and d: "0 < callback_depth lh"
  shows "buckets (snd (lh_delete M lh (item_data x))) = (buckets lh)[i := pre @ suf]"
    and "num_buckets (snd (lh_delete M lh (item_data x))) = num_buckets lh"
proof -
  have len: "i < length (buckets lh)" and h: "unat (item_hash x) mod num_buckets lh = i"
    using lh i c by (auto simp: lh_wf_def placed_def)
  have sub: "set (buckets lh ! i) \<subseteq> set (items_of lh)" unfolding items_of_def using nth_in_concat [OF len] by blast
  then have x: "x \<in> set (items_of lh)" using c by auto
  have ok: "items_ok lh (items_of lh)" and k: "key_ok (lh_comp lh) (lh_hash lh)" using lh by (simp_all add: lh_wf_def)
  have ne: "lh_comp lh (item_data y) (item_data x) \<noteq> 0" if "y \<in> set pre" for y
  proof
    assume "lh_comp lh (item_data y) (item_data x) = 0"
    moreover have "y \<in> set (items_of lh)" using sub c that by auto
    ultimately have "y = x" using ok x by (auto simp: items_ok_def)
    with chain_distinct [OF lh i] c that show False by auto
  qed
  have "item_hash x = lh_hash lh (item_data x)" using ok x by (auto simp: items_ok_def)
  moreover have "length (takeWhile (\<lambda>cur. lh_comp lh (item_data cur) (item_data x) \<noteq> 0) (pre @ x # suf)) = length pre"
    using ne key_okD(1) [OF k] by simp
  ultimately have g: "get_next_ptr_and_hash lh (item_data x) = (lh_hash lh (item_data x), i, length pre)"
    using h c by (simp add: get_next_ptr_and_hash_def Let_def)
  show "buckets (snd (lh_delete M lh (item_data x))) = (buckets lh)[i := pre @ suf]"
    "num_buckets (snd (lh_delete M lh (item_data x))) = num_buckets lh"
    using d by (simp_all add: lh_delete_def g item_at_def c lh_maybe_resize_def)
qed

definition same_keys :: "'d lhash_st \<Rightarrow> 'd lhash_st \<Rightarrow> bool" where
  "same_keys lh lh' \<longleftrightarrow>
     lh_comp lh' = lh_comp lh \<and> lh_hash lh' = lh_hash lh \<and> callback_depth lh' = callback_depth lh
     \<and> num_buckets lh' = num_buckets lh"

abbreviation kept :: "('d \<Rightarrow> bool) \<Rightarrow> 'd LHASH_ITEM list \<Rightarrow> 'd LHASH_ITEM list" where
  "kept p \<equiv> filter (\<lambda>x. \<not> p (item_data x))"

lemma doall_chain_deleting:
  assumes M: "malloc_spec M"
  shows "lh_wf lh \<Longrightarrow> i < num_buckets lh \<Longrightarrow> buckets lh ! i = pre @ suf \<Longrightarrow> 0 < callback_depth lh \<Longrightarrow>
    \<exists>lh'. doall_chain (deleting M p g) i (chain_head suf) (lh, s) = Some (Finished (lh', fold g (map item_data suf) s))
      \<and> lh_wf lh' \<and> buckets lh' = (buckets lh)[i := pre @ kept p suf] \<and> same_keys lh lh'"
proof (induction suf arbitrary: lh pre s)
  case Nil
  have "(buckets lh)[i := pre] = buckets lh" using Nil.prems(3) by (metis append_Nil2 list_update_id)
  with Nil.prems show ?case by (simp add: chain_head_def doall_chain.simps [of _ _ None] same_keys_def)
next
  case (Cons x suf)
  let ?lh1 = "fst (deleting M p g (item_data x) (lh, s))"
  let ?pre = "pre @ kept p [x]"
  have find: "find_item (buckets lh ! i) (item_id x) = Some (x, chain_head suf)"
    using find_item_at chain_distinct [OF Cons.prems(1,2)] Cons.prems(3) by simp
  have step: "doall_chain (deleting M p g) i (chain_head (x # suf)) (lh, s)
    = doall_chain (deleting M p g) i (chain_head suf) (?lh1, g (item_data x) s)"
    by (subst doall_chain.simps) (simp add: chain_head_def find deleting_def)
  have i: "i < length (buckets lh)" using Cons.prems(1,2) by (simp add: lh_wf_def placed_def)
  have L: "lh_wf ?lh1 \<and> same_keys lh ?lh1 \<and> buckets ?lh1 = (buckets lh)[i := ?pre @ suf]"
  proof (cases "p (item_data x)")
    case True
    obtain old lh1 where d: "lh_delete M lh (item_data x) = (old, lh1)" by (rule prod.exhaust)
    show ?thesis
      using lh_delete_wf(1,4,5,6) [OF M Cons.prems(1) d] lh_delete_current [OF Cons.prems(1-4), of M] True
      by (simp add: d deleting_def same_keys_def)
  next
    case False
    have "(buckets lh)[i := pre @ x # suf] = buckets lh" using Cons.prems(3) by (metis list_update_id)
    with False Cons.prems show ?thesis by (simp add: deleting_def same_keys_def)
  qed
  then have "buckets ?lh1 ! i = ?pre @ suf" using i by simp
  from Cons.IH [OF _ _ this, of "g (item_data x) s"] L Cons.prems(2,4) obtain lh' where
    "doall_chain (deleting M p g) i (chain_head suf) (?lh1, g (item_data x) s)
      = Some (Finished (lh', fold g (map item_data suf) (g (item_data x) s)))" "lh_wf lh'"
    "buckets lh' = (buckets ?lh1)[i := ?pre @ kept p suf]" "same_keys ?lh1 lh'"
    by (auto simp: same_keys_def)
  then show ?case using step L by (intro exI [of _ lh']) (auto simp: same_keys_def)
qed

lemma doall_buckets_deleting:
  assumes M: "malloc_spec M"
  shows "lh_wf lh \<Longrightarrow> i \<le> num_buckets lh \<Longrightarrow> 0 < callback_depth lh \<Longrightarrow>
    \<exists>lh'. doall_buckets (deleting M p g) i (lh, s)
        = Some (Finished (lh', fold g (map item_data (concat (drop i (buckets lh)))) s))
      \<and> lh_wf lh' \<and> buckets lh' = take i (buckets lh) @ map (kept p) (drop i (buckets lh)) \<and> same_keys lh lh'"
proof (induction "num_buckets lh - i" arbitrary: lh i s)
  case 0
  then have "length (buckets lh) \<le> i" by (simp add: lh_wf_def placed_def)
  with 0 show ?case by (simp add: doall_buckets.simps [of _ i] same_keys_def)
next
  case (Suc n)
  then have i: "i < num_buckets lh" by simp
  then have il: "i < length (buckets lh)" using Suc.prems(1) by (simp add: lh_wf_def placed_def)
  obtain lh1 where c: "doall_chain (deleting M p g) i (chain_head (buckets lh ! i)) (lh, s)
      = Some (Finished (lh1, fold g (map item_data (buckets lh ! i)) s))" "lh_wf lh1"
      "buckets lh1 = (buckets lh)[i := kept p (buckets lh ! i)]" "same_keys lh lh1"
    using doall_chain_deleting [OF M Suc.prems(1) i, of "[]" "buckets lh ! i" p g s] Suc.prems(3) by auto
  from c(4) Suc.hyps(2) Suc.prems(3) i have n: "n = num_buckets lh1 - (i + 1)" "i + 1 \<le> num_buckets lh1" "0 < callback_depth lh1"
    by (simp_all add: same_keys_def)
  from Suc.hyps(1) [OF n(1) c(2) n(2,3), of "fold g (map item_data (buckets lh ! i)) s"] obtain lh' where
    r: "doall_buckets (deleting M p g) (i + 1) (lh1, fold g (map item_data (buckets lh ! i)) s)
        = Some (Finished (lh', fold g (map item_data (concat (drop (i + 1) (buckets lh1)))) (fold g (map item_data (buckets lh ! i)) s)))"
      "lh_wf lh'" "buckets lh' = take (i + 1) (buckets lh1) @ map (kept p) (drop (i + 1) (buckets lh1))" "same_keys lh1 lh'"
    by blast
  have dr: "drop i (buckets lh) = buckets lh ! i # drop (i + 1) (buckets lh)" using il by (simp add: Cons_nth_drop_Suc)
  have "doall_buckets (deleting M p g) i (lh, s)
      = Some (Finished (lh', fold g (map item_data (concat (drop i (buckets lh)))) s))"
    using i r(1) c(3) by (subst doall_buckets.simps) (simp add: c(1) dr)
  moreover have "buckets lh' = take i (buckets lh) @ map (kept p) (drop i (buckets lh))"
    using r(3) il unfolding c(3) dr by (simp add: take_Suc_conv_app_nth)
  ultimately show ?case using r(2,4) c(4) by (auto simp: same_keys_def)
qed

lemma concat_kept: "concat (map (kept p) bs) = kept p (concat bs)"
  by (induction bs) simp_all

lemma elems_distinct: "lh_wf lh \<Longrightarrow> distinct (map item_data (items_of lh))"
proof -
  assume w: "lh_wf lh"
  then have k: "lh_comp lh x x = 0" for x using key_okD(1) by (auto simp: lh_wf_def)
  from w have ok: "items_ok lh (items_of lh)" by (simp add: lh_wf_def)
  then have "inj_on item_data (set (items_of lh))"
    unfolding items_ok_def by (intro inj_onI) (metis k)
  with ok show ?thesis by (simp add: items_ok_def distinct_map)
qed

text \<open>
  C27: \<^verbatim>\<open>lh_doall_arg\<close> with a callback that deletes some of the elements it is given, as the expiry of
  sessions does, returns: it calls the callback for every element of the table exactly once and never
  reads a freed item, and leaves a well-formed table with exactly the elements that were not deleted,
  with its resizing allowed again and made up for.
\<close>

theorem lh_doall_deletes_current:
  assumes "malloc_spec M" and "lh_wf lh" and "callback_depth lh + 1 < UINT_MAX"
  shows "\<exists>ds lh'. distinct ds \<and> set ds = lh_elems lh
    \<and> lh_doall_arg M (Some lh) (\<lambda>d a. deleting M p (g a) d) arg s = Some (Finished (Some lh', fold (g arg) ds s))
    \<and> lh_wf lh' \<and> lh_elems lh' = {x \<in> lh_elems lh. \<not> p x} \<and> callback_depth lh' = callback_depth lh"
proof -
  let ?lh = "lh\<lparr>callback_depth := callback_depth lh + 1\<rparr>"
  have w: "lh_wf ?lh" using assms(2) by (simp add: lh_wf_def items_ok_def items_of_def)
  from doall_buckets_deleting [OF assms(1) w, of 0 p "g arg" s] obtain lh1 where
    r: "doall_buckets (deleting M p (g arg)) 0 (?lh, s) = Some (Finished (lh1, fold (g arg) (map item_data (items_of lh)) s))"
    and lh1: "lh_wf lh1" "buckets lh1 = map (kept p) (buckets lh)" "same_keys ?lh lh1"
    by (auto simp: items_of_def)
  let ?lh2 = "lh1\<lparr>callback_depth := callback_depth lh\<rparr>"
  have w2: "lh_wf ?lh2" using lh1(1) by (simp add: lh_wf_def items_ok_def items_of_def)
  note R = lh_maybe_resize_wf [OF assms(1) w2]
  have "lh_elems ?lh2 = {x \<in> lh_elems lh. \<not> p x}"
    using lh1(2) by (auto simp: lh_elems_def items_of_def concat_kept)
  moreover have "lh_doall_arg M (Some lh) (\<lambda>d a. deleting M p (g a) d) arg s
    = Some (Finished (Some (lh_maybe_resize M ?lh2), fold (g arg) (map item_data (items_of lh)) s))"
    using assms(3) r lh1(3) by (simp add: lh_doall_arg_def lh_doall_internal_def Let_def same_keys_def)
  moreover have "callback_depth (lh_maybe_resize M ?lh2) = callback_depth lh" using R(2) by (simp add: same_table_def)
  ultimately show ?thesis using R(1) same_table_elems [OF R(2)] elems_distinct [OF assms(2)]
    by (intro exI [of _ "map item_data (items_of lh)"] exI [of _ "lh_maybe_resize M ?lh2"]) (simp add: lh_elems_def)
qed

text \<open>A table of numbers in which all keys collide.\<close>

definition colliding :: "nat list \<Rightarrow> nat lhash_st" where
  "colliding xs =
     fold (\<lambda>x lh. snd (snd (lh_insert zero_malloc lh x))) xs
       (the (lh_new zero_malloc (\<lambda>_. 0) (\<lambda>a b. int a - int b)))"

lemma zero_mallocs [simp]: "n < 1000 \<Longrightarrow> OPENSSL_malloc zero_malloc n = Some (replicate n 0)"
  by (simp add: OPENSSL_malloc_def zero_malloc_def OPENSSL_MALLOC_PREFIX_def size_add_def)

lemma colliding_wf: "lh_wf (colliding [1, 2])"
proof -
  let ?cmp = "\<lambda>a b. int a - int b" and ?hash = "\<lambda>_::nat. 0 :: u32"
  obtain lh where n: "lh_new zero_malloc ?hash ?cmp = Some lh" by (simp add: lh_new_def kMinNumBuckets_def)
  obtain lh' oks where r: "dict_run (lh_insert zero_malloc) (lh_delete zero_malloc) lh [Put 1, Put 2] = (lh', oks)"
    by (rule prod.exhaust)
  have "key_ok ?cmp ?hash" by (simp add: key_ok_def)
  from lh.run_refines [OF lh_new_inv(1) [OF zero_malloc_spec this n] r] have "lh_wf lh'" by (simp add: lh_inv_def)
  with r n show ?thesis by (simp add: colliding_def split: prod.splits)
qed

theorem lh_doall_deletes_current_witness:
  "\<exists>ds lh'. distinct ds \<and> set ds = lh_elems (colliding [1, 2])
    \<and> lh_doall_arg zero_malloc (Some (colliding [1, 2])) (\<lambda>d a. deleting zero_malloc ((=) 1) (\<lambda>x s. (x + a) # s) d) 7 []
      = Some (Finished (Some lh', fold (\<lambda>x s. (x + 7) # s) ds []))
    \<and> lh_wf lh' \<and> lh_elems lh' = {x \<in> lh_elems (colliding [1, 2]). 1 \<noteq> x}
    \<and> callback_depth lh' = callback_depth (colliding [1, 2])"
  by (rule lh_doall_deletes_current [OF zero_malloc_spec colliding_wf])
    (simp add: colliding_def lh_new_def lh_insert_def get_next_ptr_and_hash_def item_at_def lh_maybe_resize_def
      kMinNumBuckets_def UINT_MAX_def Let_def size_add_def kMaxAverageChainLength_def kMinAverageChainLength_def)

text \<open>
  A callback that deletes an element other than its own can make the iteration read a freed item:
  the address of the next item has been kept across the call. Here the callback for the first of two
  colliding elements deletes the second. The comment in \<^verbatim>\<open>lh_doall_internal\<close> says that the callback may
  have added or removed elements.
\<close>

theorem lh_doall_delete_other_dangles:
  "lh_doall zero_malloc (Some (colliding [1, 2])) (\<lambda>d st. (snd (lh_delete zero_malloc (fst st) (3 - d)), snd st)) () = Some Use_after_free"
  by (simp add: colliding_def lh_new_def lh_insert_def get_next_ptr_and_hash_def item_at_def lh_maybe_resize_def
      kMinNumBuckets_def UINT_MAX_def Let_def size_add_def kMaxAverageChainLength_def kMinAverageChainLength_def
      lh_doall_def lh_doall_internal_def doall_buckets.simps [of _ 0] chain_head_def doall_chain.simps find_item_def
      lh_delete_def)

text \<open>A run of operations, with colliding and replaced keys.\<close>

definition sample_ops :: "nat dict_op list" where
  "sample_ops = [Put 1, Put 2, Remove 1, Put 2]"

theorem lhash_refines_map_witness:
  "\<exists>lh lh' oks. lh_new zero_malloc (\<lambda>_. 0) (\<lambda>a b. int a - int b) = Some lh
    \<and> dict_run (lh_insert zero_malloc) (lh_delete zero_malloc) lh sample_ops = (lh', oks)
    \<and> lh_retrieve lh' = dict_spec (\<lambda>a b. int a - int b = 0) (\<lambda>_. None) sample_ops oks"
proof -
  obtain lh where n: "lh_new zero_malloc (\<lambda>_::nat. 0) (\<lambda>a b. int a - int b) = Some lh"
    by (simp add: lh_new_def kMinNumBuckets_def)
  obtain lh' oks where r: "dict_run (lh_insert zero_malloc) (lh_delete zero_malloc) lh sample_ops = (lh', oks)"
    by (rule prod.exhaust)
  have "key_ok (\<lambda>a b. int a - int b) (\<lambda>_::nat. 0)" by (simp add: key_ok_def)
  from lhash_refines_map [OF zero_malloc_spec this n r] n r show ?thesis by blast
qed

theorem lhash_load_bounded_witness:
  "\<exists>lh lh'. lh_new zero_malloc (\<lambda>_. 0) (\<lambda>a b. int a - int b) = Some lh
    \<and> dict_run (lh_insert zero_malloc) (lh_delete zero_malloc) lh sample_ops = (lh', [True, True, True, True])
    \<and> lh_num_items lh' < 3 * num_buckets lh'"
proof -
  obtain lh where n: "lh_new zero_malloc (\<lambda>_::nat. 0) (\<lambda>a b. int a - int b) = Some lh"
    by (simp add: lh_new_def kMinNumBuckets_def)
  obtain lh' oks where r: "dict_run (lh_insert zero_malloc) (lh_delete zero_malloc) lh sample_ops = (lh', oks)"
    by (rule prod.exhaust)
  have "key_ok (\<lambda>a b. int a - int b) (\<lambda>_::nat. 0)" by (simp add: key_ok_def)
  note b = lhash_load_bounded [OF zero_malloc_total this n _ r]
  have "length sample_ops = 4" and "replicate 4 True = [True, True, True, True]"
    by (simp_all add: sample_ops_def numeral_eq_Suc)
  then have "oks = [True, True, True, True] \<and> lh_num_items lh' < 3 * num_buckets lh'" using b by simp
  with n r show ?thesis by blast
qed

end
