(* ===== verification/PbStream.thy ===== *)
theory PbStream
  imports Prelude
begin

text \<open>
  The streams of nanopb (\<^verbatim>\<open>pb_encode.c\<close>, \<^verbatim>\<open>pb_decode.c\<close>), as the pod is built: \<^verbatim>\<open>PB_FIELD_32BIT\<close>,
  \<^verbatim>\<open>PB_ENABLE_MALLOC\<close>, with error messages and with callbacks. A callback works on the stream's
  \<^verbatim>\<open>state\<close> only, as the rules of \<^verbatim>\<open>pb_encode.h\<close> and \<^verbatim>\<open>pb_decode.h\<close> for callbacks ask; it is an argument
  of the model. A \<^verbatim>\<open>size_t\<close> is a natural number with the wrap-around written out. An operation that
  returns \<^verbatim>\<open>bool\<close> and stores a value returns the value as an option; the stream is returned updated,
  also by an operation that fails.
\<close>

section \<open>Output streams\<close>

text \<open>\<open>ocallback\<close> is \<open>None\<close> for NULL: the stream only counts.\<close>

record 's pb_ostream =
  ocallback :: "(u8 list \<Rightarrow> 's \<Rightarrow> bool \<times> 's) option"
  ostate :: 's
  max_size :: nat
  bytes_written :: nat
  oerrmsg :: "string option"

definition pb_oerror :: "string \<Rightarrow> 's pb_ostream \<Rightarrow> bool \<times> 's pb_ostream" where
  "pb_oerror msg stream =
     (False, stream\<lparr>oerrmsg := (case oerrmsg stream of None \<Rightarrow> Some msg | Some m \<Rightarrow> Some m)\<rparr>)"

text \<open>A pointer into a buffer is the buffer with an offset.\<close>

definition buf_write :: "u8 list \<Rightarrow> u8 list \<times> nat \<Rightarrow> bool \<times> (u8 list \<times> nat)" where
  "buf_write buf dest = (True, (blit (fst dest) (snd dest) buf, snd dest + length buf))"

definition pb_ostream_from_buffer :: "u8 list \<Rightarrow> nat \<Rightarrow> (u8 list \<times> nat) pb_ostream" where
  "pb_ostream_from_buffer buf bufsize =
     \<lparr>ocallback = Some buf_write, ostate = (buf, 0), max_size = bufsize, bytes_written = 0, oerrmsg = None\<rparr>"

definition PB_OSTREAM_SIZING :: "'s \<Rightarrow> 's pb_ostream" where
  "PB_OSTREAM_SIZING s = \<lparr>ocallback = None, ostate = s, max_size = 0, bytes_written = 0, oerrmsg = None\<rparr>"

text \<open>\<open>buf\<close> has at least \<open>count\<close> bytes; it is empty for NULL, which is passed with streams that only count.\<close>

definition pb_write :: "u8 list \<Rightarrow> nat \<Rightarrow> 's pb_ostream \<Rightarrow> bool \<times> 's pb_ostream" where
  "pb_write buf count stream =
     (case ocallback stream of
        Some callback \<Rightarrow>
          if size_add (bytes_written stream) count > max_size stream then pb_oerror ''stream full'' stream
          else (case callback (take count buf) (ostate stream) of
                  (False, s) \<Rightarrow> pb_oerror ''io error'' (stream\<lparr>ostate := s\<rparr>)
                | (True, s) \<Rightarrow>
                    (True, stream\<lparr>ostate := s, bytes_written := size_add (bytes_written stream) count\<rparr>))
      | None \<Rightarrow> (True, stream\<lparr>bytes_written := size_add (bytes_written stream) count\<rparr>))"

text \<open>\<^verbatim>\<open>if (!f(stream)) return false; g(stream)\<close>\<close>

definition both :: "('t \<Rightarrow> bool \<times> 't) \<Rightarrow> ('t \<Rightarrow> bool \<times> 't) \<Rightarrow> 't \<Rightarrow> bool \<times> 't" where
  "both f g st = (case f st of (False, st) \<Rightarrow> (False, st) | (True, st) \<Rightarrow> g st)"

section \<open>Input streams\<close>

text \<open>
  The pair of callback and state: the memory buffer of \<^verbatim>\<open>buf_read\<close> with what is left of it after its
  pointer, or a source of the caller. The callback is asked for a number of bytes.
\<close>

datatype 's pb_input = Buffer "u8 list" | Source "nat \<Rightarrow> 's \<Rightarrow> u8 list option \<times> 's" 's

record 's pb_istream =
  istate :: "'s pb_input"
  bytes_left :: nat
  ierrmsg :: "string option"

definition pb_ierror :: "string \<Rightarrow> 's pb_istream \<Rightarrow> 'a option \<times> 's pb_istream" where
  "pb_ierror msg stream =
     (None, stream\<lparr>ierrmsg := (case ierrmsg stream of None \<Rightarrow> Some msg | Some m \<Rightarrow> Some m)\<rparr>)"

definition buf_read :: "nat \<Rightarrow> u8 list \<Rightarrow> u8 list option \<times> u8 list" where
  "buf_read count source = (Some (take count source), drop count source)"

fun icallback :: "nat \<Rightarrow> 's pb_input \<Rightarrow> u8 list option \<times> 's pb_input" where
  "icallback count (Buffer source) = (case buf_read count source of (r, source) \<Rightarrow> (r, Buffer source))"
| "icallback count (Source f s) = (case f count s of (r, s) \<Rightarrow> (r, Source f s))"

text \<open>The part of \<^verbatim>\<open>pb_read\<close> after the skipping.\<close>

definition read_bytes :: "nat \<Rightarrow> 's pb_istream \<Rightarrow> u8 list option \<times> 's pb_istream" where
  "read_bytes count stream =
     (if bytes_left stream < count then pb_ierror ''end-of-stream'' stream
      else (case icallback count (istate stream) of
              (None, s) \<Rightarrow> pb_ierror ''io error'' (stream\<lparr>istate := s\<rparr>)
            | (Some buf, s) \<Rightarrow> (Some buf, stream\<lparr>istate := s, bytes_left := bytes_left stream - count\<rparr>)))"

function skip_bytes :: "nat \<Rightarrow> 's pb_istream \<Rightarrow> u8 list option \<times> 's pb_istream" where
  "skip_bytes count stream =
     (if count > 16
      then (case read_bytes 16 stream of
              (None, stream) \<Rightarrow> (None, stream)
            | (Some _, stream) \<Rightarrow> skip_bytes (count - 16) stream)
      else read_bytes count stream)"
  by pat_completeness auto
termination
  by (relation "measure fst") auto

declare skip_bytes.simps [simp del]

text \<open>\<open>null\<close>: the bytes are skipped because \<^verbatim>\<open>buf\<close> is NULL; the value is then of no use.\<close>

definition pb_read :: "bool \<Rightarrow> nat \<Rightarrow> 's pb_istream \<Rightarrow> u8 list option \<times> 's pb_istream" where
  "pb_read null count stream =
     (case istate stream of
        Source _ _ \<Rightarrow> if null then skip_bytes count stream else read_bytes count stream
      | Buffer _ \<Rightarrow> read_bytes count stream)"

definition pb_readbyte :: "'s pb_istream \<Rightarrow> u8 option \<times> 's pb_istream" where
  "pb_readbyte stream =
     (if bytes_left stream = 0 then pb_ierror ''end-of-stream'' stream
      else (case icallback 1 (istate stream) of
              (None, s) \<Rightarrow> pb_ierror ''io error'' (stream\<lparr>istate := s\<rparr>)
            | (Some buf, s) \<Rightarrow> (Some (hd buf), stream\<lparr>istate := s, bytes_left := bytes_left stream - 1\<rparr>)))"

definition pb_istream_from_buffer :: "u8 list \<Rightarrow> nat \<Rightarrow> 's pb_istream" where
  "pb_istream_from_buffer buf bufsize = \<lparr>istate = Buffer buf, bytes_left = bufsize, ierrmsg = None\<rparr>"

text \<open>\<^verbatim>\<open>if (!f(stream, &x)) return false; g(x, stream)\<close>\<close>

definition and_then ::
  "('t \<Rightarrow> 'a option \<times> 't) \<Rightarrow> ('a \<Rightarrow> 't \<Rightarrow> 'b option \<times> 't) \<Rightarrow> 't \<Rightarrow> 'b option \<times> 't" where
  "and_then f g st = (case f st of (None, st) \<Rightarrow> (None, st) | (Some x, st) \<Rightarrow> g x st)"

end
