(* ===== verification/PbWire.thy ===== *)
theory PbWire
  imports PbStream
begin

text \<open>
  The wire format of nanopb: variable-length and fixed-width integers, tags, strings, skipping, and
  the substreams of nested values (the helper functions of \<^verbatim>\<open>pb_encode.c\<close> and \<^verbatim>\<open>pb_decode.c\<close>). Wire
  types are natural numbers because a decoded tag may have one without a name.
\<close>

definition PB_WT_VARINT :: nat where "PB_WT_VARINT = 0"
definition PB_WT_64BIT :: nat where "PB_WT_64BIT = 1"
definition PB_WT_STRING :: nat where "PB_WT_STRING = 2"
definition PB_WT_32BIT :: nat where "PB_WT_32BIT = 5"

section \<open>Encoding\<close>

text \<open>The bytes the loop of \<^verbatim>\<open>pb_encode_varint\<close> stores into its local buffer.\<close>

function varint_loop :: "u64 \<Rightarrow> u8 list" where
  "varint_loop v = (if v \<noteq> 0 then ((ucast (v AND 0x7F) :: u8) OR 0x80) # varint_loop (drop_bit 7 v) else [])"
  by pat_completeness auto
termination
proof (relation "measure unat")
  show "wf (measure (unat :: u64 \<Rightarrow> nat))" by simp
  fix v :: u64
  assume "v \<noteq> 0"
  then have "0 < unat v" by (simp add: unat_gt_0)
  then show "(drop_bit 7 v, v) \<in> measure unat" by (simp add: unat_drop_bit)
qed

declare varint_loop.simps [simp del]

definition pb_encode_varint :: "u64 \<Rightarrow> 's pb_ostream \<Rightarrow> bool \<times> 's pb_ostream" where
  "pb_encode_varint v stream =
     (if v \<le> 0x7F then pb_write [ucast v] 1 stream
      else let buffer = varint_loop v; i = length buffer
           in pb_write (buffer[i - 1 := buffer ! (i - 1) AND 0x7F]) i stream)"

definition pb_encode_svarint :: "64 word \<Rightarrow> 's pb_ostream \<Rightarrow> bool \<times> 's pb_ostream" where
  "pb_encode_svarint v stream =
     (let zigzagged = (if sint v < 0 then NOT (push_bit 1 v) else push_bit 1 v)
      in pb_encode_varint zigzagged stream)"

definition pb_encode_fixed32 :: "u32 \<Rightarrow> 's pb_ostream \<Rightarrow> bool \<times> 's pb_ostream" where
  "pb_encode_fixed32 val stream =
     pb_write [ucast (val AND 0xFF), ucast (drop_bit 8 val AND 0xFF), ucast (drop_bit 16 val AND 0xFF),
               ucast (drop_bit 24 val AND 0xFF)] 4 stream"

definition pb_encode_fixed64 :: "u64 \<Rightarrow> 's pb_ostream \<Rightarrow> bool \<times> 's pb_ostream" where
  "pb_encode_fixed64 val stream =
     pb_write [ucast (val AND 0xFF), ucast (drop_bit 8 val AND 0xFF), ucast (drop_bit 16 val AND 0xFF),
               ucast (drop_bit 24 val AND 0xFF), ucast (drop_bit 32 val AND 0xFF), ucast (drop_bit 40 val AND 0xFF),
               ucast (drop_bit 48 val AND 0xFF), ucast (drop_bit 56 val AND 0xFF)] 8 stream"

definition pb_encode_tag :: "nat \<Rightarrow> u32 \<Rightarrow> 's pb_ostream \<Rightarrow> bool \<times> 's pb_ostream" where
  "pb_encode_tag wiretype field_number stream =
     pb_encode_varint (push_bit 3 (ucast field_number :: u64) OR of_nat wiretype) stream"

definition pb_encode_string :: "u8 list \<Rightarrow> nat \<Rightarrow> 's pb_ostream \<Rightarrow> bool \<times> 's pb_ostream" where
  "pb_encode_string buffer n = both (pb_encode_varint (of_nat n)) (pb_write buffer n)"

section \<open>Decoding integers\<close>

text \<open>
  The loop of \<^verbatim>\<open>pb_decode_varint32_eof\<close> for values of several bytes. \<^verbatim>\<open>bitpos\<close> is a \<^verbatim>\<open>uint_fast8_t\<close>,
  eight bits wide on the targets, and wraps around.
\<close>

lemma pb_readbyte_left: "pb_readbyte stream = (Some b, stream') \<Longrightarrow> bytes_left stream' < bytes_left stream"
  by (auto simp: pb_readbyte_def pb_ierror_def split: if_splits prod.splits option.splits)

function varint32_loop :: "nat \<Rightarrow> u32 \<Rightarrow> 's pb_istream \<Rightarrow> u32 option \<times> 's pb_istream" where
  "varint32_loop bitpos result stream =
     (case pb_readbyte stream of
        (None, stream) \<Rightarrow> (None, stream)
      | (Some byte, stream) \<Rightarrow>
          if bitpos \<ge> 32 \<and> byte AND 0x7F \<noteq> 0
             \<and> (drop_bit 31 result = 0 \<or> byte \<noteq> (if bitpos < 63 then 0xFF else 0x01))
          then pb_ierror ''varint overflow'' stream
          else let result = (if bitpos \<ge> 32 then result else result OR push_bit bitpos (ucast (byte AND 0x7F)));
                   bitpos = (bitpos + 7) mod 256
               in if byte AND 0x80 \<noteq> 0 then varint32_loop bitpos result stream
                  else if bitpos = 35 \<and> byte AND 0x70 \<noteq> 0 then pb_ierror ''varint overflow'' stream
                  else (Some result, stream))"
  by pat_completeness auto
termination
  by (relation "measure (\<lambda>(_, _, stream). bytes_left stream)") (auto dest: pb_readbyte_left [OF sym])

declare varint32_loop.simps [simp del]

text \<open>The flag tells whether \<^verbatim>\<open>*eof\<close> is set.\<close>

definition pb_decode_varint32_eof :: "'s pb_istream \<Rightarrow> u32 option \<times> bool \<times> 's pb_istream" where
  "pb_decode_varint32_eof stream =
     (case pb_readbyte stream of
        (None, stream) \<Rightarrow> (None, bytes_left stream = 0, stream)
      | (Some byte, stream) \<Rightarrow>
          if byte AND 0x80 = 0 then (Some (ucast byte), False, stream)
          else (case varint32_loop 7 (ucast (byte AND 0x7F)) stream of (r, stream) \<Rightarrow> (r, False, stream)))"

definition pb_decode_varint32 :: "'s pb_istream \<Rightarrow> u32 option \<times> 's pb_istream" where
  "pb_decode_varint32 stream = (case pb_decode_varint32_eof stream of (r, _, stream) \<Rightarrow> (r, stream))"

function varint_decode_loop :: "nat \<Rightarrow> u64 \<Rightarrow> 's pb_istream \<Rightarrow> u64 option \<times> 's pb_istream" where
  "varint_decode_loop bitpos result stream =
     (if bitpos \<ge> 64 then pb_ierror ''varint overflow'' stream
      else (case pb_readbyte stream of
              (None, stream) \<Rightarrow> (None, stream)
            | (Some byte, stream) \<Rightarrow>
                let result = result OR push_bit bitpos (ucast (byte AND 0x7F))
                in if byte AND 0x80 \<noteq> 0 then varint_decode_loop (bitpos + 7) result stream
                   else (Some result, stream)))"
  by pat_completeness auto
termination
  by (relation "measure (\<lambda>(bitpos, _, _). 64 - bitpos)") auto

declare varint_decode_loop.simps [simp del]

definition pb_decode_varint :: "'s pb_istream \<Rightarrow> u64 option \<times> 's pb_istream" where
  "pb_decode_varint stream = varint_decode_loop 0 0 stream"

definition pb_decode_svarint :: "'s pb_istream \<Rightarrow> 64 word option \<times> 's pb_istream" where
  "pb_decode_svarint =
     and_then pb_decode_varint
       (\<lambda>v stream. (Some (if v AND 1 \<noteq> 0 then NOT (drop_bit 1 v) else drop_bit 1 v), stream))"

definition pb_decode_fixed32 :: "'s pb_istream \<Rightarrow> u32 option \<times> 's pb_istream" where
  "pb_decode_fixed32 =
     and_then (pb_read False 4)
       (\<lambda>bytes stream.
          (Some (ucast (bytes ! 0) OR push_bit 8 (ucast (bytes ! 1)) OR push_bit 16 (ucast (bytes ! 2))
                 OR push_bit 24 (ucast (bytes ! 3))), stream))"

definition pb_decode_fixed64 :: "'s pb_istream \<Rightarrow> u64 option \<times> 's pb_istream" where
  "pb_decode_fixed64 =
     and_then (pb_read False 8)
       (\<lambda>bytes stream.
          (Some (ucast (bytes ! 0) OR push_bit 8 (ucast (bytes ! 1)) OR push_bit 16 (ucast (bytes ! 2))
                 OR push_bit 24 (ucast (bytes ! 3)) OR push_bit 32 (ucast (bytes ! 4))
                 OR push_bit 40 (ucast (bytes ! 5)) OR push_bit 48 (ucast (bytes ! 6))
                 OR push_bit 56 (ucast (bytes ! 7))), stream))"

section \<open>Tags, skipping and substreams\<close>

text \<open>The wire type and the tag, and \<^verbatim>\<open>*eof\<close>.\<close>

definition pb_decode_tag :: "'s pb_istream \<Rightarrow> (nat \<times> u32) option \<times> bool \<times> 's pb_istream" where
  "pb_decode_tag stream =
     (case pb_decode_varint32_eof stream of
        (None, eof, stream) \<Rightarrow> (None, eof, stream)
      | (Some temp, eof, stream) \<Rightarrow>
          if temp = 0 then (None, True, stream)
          else (Some (unat (temp AND 7), drop_bit 3 temp), eof, stream))"

lemma pb_read_left: "pb_read False (Suc n) stream = (Some bs, stream') \<Longrightarrow> bytes_left stream' < bytes_left stream"
  by (auto simp: pb_read_def read_bytes_def pb_ierror_def split: if_splits prod.splits option.splits pb_input.splits)

function pb_skip_varint :: "'s pb_istream \<Rightarrow> unit option \<times> 's pb_istream" where
  "pb_skip_varint stream =
     (case pb_read False (Suc 0) stream of
        (None, stream) \<Rightarrow> (None, stream)
      | (Some byte, stream) \<Rightarrow> if hd byte AND 0x80 \<noteq> 0 then pb_skip_varint stream else (Some (), stream))"
  by pat_completeness auto
termination
  by (relation "measure bytes_left") (auto dest: pb_read_left [OF sym])

declare pb_skip_varint.simps [simp del]

definition skip_unit :: "nat \<Rightarrow> 's pb_istream \<Rightarrow> unit option \<times> 's pb_istream" where
  "skip_unit count = and_then (pb_read True count) (\<lambda>_ stream. (Some (), stream))"

definition pb_skip_string :: "'s pb_istream \<Rightarrow> unit option \<times> 's pb_istream" where
  "pb_skip_string = and_then pb_decode_varint32 (\<lambda>length. skip_unit (unat length))"

definition pb_skip_field :: "nat \<Rightarrow> 's pb_istream \<Rightarrow> unit option \<times> 's pb_istream" where
  "pb_skip_field wire_type =
     (if wire_type = PB_WT_VARINT then pb_skip_varint
      else if wire_type = PB_WT_64BIT then skip_unit 8
      else if wire_type = PB_WT_STRING then pb_skip_string
      else if wire_type = PB_WT_32BIT then skip_unit 4
      else pb_ierror ''invalid wire_type'')"

text \<open>
  The loop of \<^verbatim>\<open>read_raw_value\<close>: \<open>sz\<close> bytes have been stored. Running out of room is not given a
  message.
\<close>

function raw_varint :: "nat \<Rightarrow> nat \<Rightarrow> 's pb_istream \<Rightarrow> u8 list option \<times> 's pb_istream" where
  "raw_varint max_sz sz stream =
     (if sz + 1 > max_sz then (None, stream)
      else (case pb_read False (Suc 0) stream of
              (None, stream) \<Rightarrow> (None, stream)
            | (Some byte, stream) \<Rightarrow>
                if hd byte AND 0x80 \<noteq> 0
                then (case raw_varint max_sz (sz + 1) stream of
                        (None, stream) \<Rightarrow> (None, stream)
                      | (Some buf, stream) \<Rightarrow> (Some (hd byte # buf), stream))
                else (Some [hd byte], stream)))"
  by pat_completeness auto
termination
  by (relation "measure (\<lambda>(_, _, stream). bytes_left stream)") (auto dest: pb_read_left [OF sym])

declare raw_varint.simps [simp del]

definition read_raw_value :: "nat \<Rightarrow> nat \<Rightarrow> 's pb_istream \<Rightarrow> u8 list option \<times> 's pb_istream" where
  "read_raw_value wire_type sz =
     (if wire_type = PB_WT_VARINT then raw_varint sz 0
      else if wire_type = PB_WT_64BIT then pb_read False 8
      else if wire_type = PB_WT_32BIT then pb_read False 4
      else pb_ierror ''invalid wire_type'')"

text \<open>The value is the substream.\<close>

definition pb_make_string_substream :: "'s pb_istream \<Rightarrow> 's pb_istream option \<times> 's pb_istream" where
  "pb_make_string_substream =
     and_then pb_decode_varint32
       (\<lambda>sz stream.
          if bytes_left stream < unat sz then pb_ierror ''parent stream too short'' stream
          else (Some (stream\<lparr>bytes_left := unat sz\<rparr>), stream\<lparr>bytes_left := bytes_left stream - unat sz\<rparr>))"

text \<open>Closing a substream that cannot be read to its end fails without a change to the stream.\<close>

definition pb_close_string_substream :: "'s pb_istream \<Rightarrow> 's pb_istream \<Rightarrow> unit option \<times> 's pb_istream" where
  "pb_close_string_substream substream stream =
     (case (if bytes_left substream \<noteq> 0 then skip_unit (bytes_left substream) substream else (Some (), substream)) of
        (None, _) \<Rightarrow> (None, stream)
      | (Some _, substream) \<Rightarrow> (Some (), stream\<lparr>istate := istate substream, ierrmsg := ierrmsg substream\<rparr>))"

end
