(* ===== verification/PbScalar.thy ===== *)
theory PbScalar
  imports PbWire
begin

text \<open>
  The field encoders and decoders of nanopb (\<^verbatim>\<open>pb_enc_...\<close> and \<^verbatim>\<open>pb_dec_...\<close>, the entries of
  \<^verbatim>\<open>PB_ENCODERS\<close> and \<^verbatim>\<open>PB_DECODERS\<close> but for submessages). A pointer to a field's data is the list of the
  bytes from there on; the target is little endian. A decoder returns its success, the bytes at \<^verbatim>\<open>dest\<close>
  after the call and the stream. Of \<^verbatim>\<open>field\<close> an operation gets the members it uses.
\<close>

section \<open>Field types\<close>

type_synonym pb_type = u8

definition PB_LTYPE_VARINT :: pb_type where "PB_LTYPE_VARINT = 0x00"
definition PB_LTYPE_UVARINT :: pb_type where "PB_LTYPE_UVARINT = 0x01"
definition PB_LTYPE_SVARINT :: pb_type where "PB_LTYPE_SVARINT = 0x02"
definition PB_LTYPE_FIXED32 :: pb_type where "PB_LTYPE_FIXED32 = 0x03"
definition PB_LTYPE_FIXED64 :: pb_type where "PB_LTYPE_FIXED64 = 0x04"
definition PB_LTYPE_BYTES :: pb_type where "PB_LTYPE_BYTES = 0x05"
definition PB_LTYPE_STRING :: pb_type where "PB_LTYPE_STRING = 0x06"
definition PB_LTYPE_SUBMESSAGE :: pb_type where "PB_LTYPE_SUBMESSAGE = 0x07"
definition PB_LTYPE_EXTENSION :: pb_type where "PB_LTYPE_EXTENSION = 0x08"
definition PB_LTYPE_FIXED_LENGTH_BYTES :: pb_type where "PB_LTYPE_FIXED_LENGTH_BYTES = 0x09"

definition PB_HTYPE_REQUIRED :: pb_type where "PB_HTYPE_REQUIRED = 0x00"
definition PB_HTYPE_OPTIONAL :: pb_type where "PB_HTYPE_OPTIONAL = 0x10"
definition PB_HTYPE_REPEATED :: pb_type where "PB_HTYPE_REPEATED = 0x20"
definition PB_HTYPE_ONEOF :: pb_type where "PB_HTYPE_ONEOF = 0x30"

definition PB_ATYPE_STATIC :: pb_type where "PB_ATYPE_STATIC = 0x00"
definition PB_ATYPE_POINTER :: pb_type where "PB_ATYPE_POINTER = 0x80"
definition PB_ATYPE_CALLBACK :: pb_type where "PB_ATYPE_CALLBACK = 0x40"

definition PB_ATYPE :: "pb_type \<Rightarrow> pb_type" where "PB_ATYPE x = x AND 0xC0"
definition PB_HTYPE :: "pb_type \<Rightarrow> pb_type" where "PB_HTYPE x = x AND 0x30"
definition PB_LTYPE :: "pb_type \<Rightarrow> pb_type" where "PB_LTYPE x = x AND 0x0F"

text \<open>\<^verbatim>\<open>pb_size_t\<close> has 32 bits.\<close>

definition PB_SIZE_MAX :: nat where "PB_SIZE_MAX = 2 ^ 32 - 1"

text \<open>The size member of a \<^verbatim>\<open>pb_bytes_array_t\<close> takes up four bytes.\<close>

definition PB_BYTES_ARRAY_T_ALLOCSIZE :: "nat \<Rightarrow> nat" where
  "PB_BYTES_ARRAY_T_ALLOCSIZE n = size_add n 4"

section \<open>Encoders\<close>

text \<open>The integer of \<open>n\<close> bytes at \<open>src\<close>.\<close>

abbreviation load :: "nat \<Rightarrow> u8 list \<Rightarrow> 'a::len word" where
  "load n src \<equiv> of_nat (le_val (take n src))"

definition pb_enc_varint :: "nat \<Rightarrow> u8 list \<Rightarrow> 's pb_ostream \<Rightarrow> bool \<times> 's pb_ostream" where
  "pb_enc_varint data_size src =
     (if data_size = 1 then pb_encode_varint (scast (load 1 src :: 8 word))
      else if data_size = 2 then pb_encode_varint (scast (load 2 src :: 16 word))
      else if data_size = 4 then pb_encode_varint (scast (load 4 src :: 32 word))
      else if data_size = 8 then pb_encode_varint (load 8 src)
      else pb_oerror ''invalid data_size'')"

definition pb_enc_uvarint :: "nat \<Rightarrow> u8 list \<Rightarrow> 's pb_ostream \<Rightarrow> bool \<times> 's pb_ostream" where
  "pb_enc_uvarint data_size src =
     (if data_size = 1 then pb_encode_varint (ucast (load 1 src :: 8 word))
      else if data_size = 2 then pb_encode_varint (ucast (load 2 src :: 16 word))
      else if data_size = 4 then pb_encode_varint (ucast (load 4 src :: 32 word))
      else if data_size = 8 then pb_encode_varint (load 8 src)
      else pb_oerror ''invalid data_size'')"

definition pb_enc_svarint :: "nat \<Rightarrow> u8 list \<Rightarrow> 's pb_ostream \<Rightarrow> bool \<times> 's pb_ostream" where
  "pb_enc_svarint data_size src =
     (if data_size = 1 then pb_encode_svarint (scast (load 1 src :: 8 word))
      else if data_size = 2 then pb_encode_svarint (scast (load 2 src :: 16 word))
      else if data_size = 4 then pb_encode_svarint (scast (load 4 src :: 32 word))
      else if data_size = 8 then pb_encode_svarint (load 8 src)
      else pb_oerror ''invalid data_size'')"

definition pb_enc_fixed32 :: "u8 list \<Rightarrow> 's pb_ostream \<Rightarrow> bool \<times> 's pb_ostream" where
  "pb_enc_fixed32 src = pb_encode_fixed32 (load 4 src)"

definition pb_enc_fixed64 :: "u8 list \<Rightarrow> 's pb_ostream \<Rightarrow> bool \<times> 's pb_ostream" where
  "pb_enc_fixed64 src = pb_encode_fixed64 (load 8 src)"

text \<open>\<open>src\<close> is \<open>None\<close> for NULL.\<close>

definition pb_enc_bytes :: "pb_type \<Rightarrow> nat \<Rightarrow> u8 list option \<Rightarrow> 's pb_ostream \<Rightarrow> bool \<times> 's pb_ostream" where
  "pb_enc_bytes type data_size src =
     (case src of
        None \<Rightarrow> pb_encode_string [] 0
      | Some bytes \<Rightarrow>
          let sz = le_val (take 4 bytes)
          in if PB_ATYPE type = PB_ATYPE_STATIC \<and> PB_BYTES_ARRAY_T_ALLOCSIZE sz > data_size
             then pb_oerror ''bytes size exceeded''
             else pb_encode_string (drop 4 bytes) sz)"

definition pb_enc_string :: "pb_type \<Rightarrow> nat \<Rightarrow> u8 list option \<Rightarrow> 's pb_ostream \<Rightarrow> bool \<times> 's pb_ostream" where
  "pb_enc_string type data_size src =
     (let max_size = (if PB_ATYPE type = PB_ATYPE_POINTER then size_t_end - 1 else data_size)
      in case src of
           None \<Rightarrow> pb_encode_string [] 0
         | Some s \<Rightarrow> pb_encode_string s (length (takeWhile (\<lambda>p. p \<noteq> 0) (take max_size s))))"

definition pb_enc_fixed_length_bytes :: "nat \<Rightarrow> u8 list \<Rightarrow> 's pb_ostream \<Rightarrow> bool \<times> 's pb_ostream" where
  "pb_enc_fixed_length_bytes data_size src = pb_encode_string src data_size"

section \<open>Memory\<close>

text \<open>
  The memory is one list of bytes, a pointer an index of it, NULL is zero and a pointer takes up eight
  bytes. What is outside the list reads as zero.
\<close>

type_synonym memory = "u8 list"

definition load_size :: "memory \<Rightarrow> nat \<Rightarrow> nat" where
  "load_size m p = le_val (take 4 (drop p m))"

definition load_ptr :: "memory \<Rightarrow> nat \<Rightarrow> nat" where
  "load_ptr m p = le_val (take 8 (drop p m))"

definition load_bool :: "memory \<Rightarrow> nat \<Rightarrow> bool" where
  "load_bool m p \<longleftrightarrow> le_val (take 1 (drop p m)) \<noteq> 0"

definition store_size :: "nat \<Rightarrow> nat \<Rightarrow> memory \<Rightarrow> memory" where
  "store_size p n m = blit m p (le_bytes 4 n)"

definition store_ptr :: "nat \<Rightarrow> nat \<Rightarrow> memory \<Rightarrow> memory" where
  "store_ptr p q m = blit m p (le_bytes 8 q)"

definition store_bool :: "nat \<Rightarrow> bool \<Rightarrow> memory \<Rightarrow> memory" where
  "store_bool p b m = blit m p [of_bool b]"

section \<open>Decoders\<close>

text \<open>A decoder works on the memory and the stream; its first argument is \<^verbatim>\<open>dest\<close>.\<close>

type_synonym 's dstate = "memory \<times> 's pb_istream"
type_synonym 's pb_decoder = "nat \<Rightarrow> 's dstate \<Rightarrow> bool \<times> 's dstate"

definition pb_derror :: "string \<Rightarrow> 's dstate \<Rightarrow> bool \<times> 's dstate" where
  "pb_derror msg st = (False, fst st, snd (pb_ierror msg (snd st) :: unit option \<times> 's pb_istream))"

text \<open>What is read from the stream is used by \<open>f\<close>; failure leaves the memory as it is.\<close>

definition d_then ::
  "('s pb_istream \<Rightarrow> 'a option \<times> 's pb_istream) \<Rightarrow> ('a \<Rightarrow> 's dstate \<Rightarrow> bool \<times> 's dstate) \<Rightarrow> 's dstate \<Rightarrow> bool \<times> 's dstate" where
  "d_then d f st =
     (case d (snd st) of
        (None, stream) \<Rightarrow> (False, fst st, stream)
      | (Some x, stream) \<Rightarrow> f x (fst st, stream))"

text \<open>\<^verbatim>\<open>clamped = *(T*)dest = v\<close> for an integer type \<open>T\<close> of \<open>n\<close> bytes, then the check \<^verbatim>\<open>clamped != value\<close>.\<close>

definition store_checked :: "nat \<Rightarrow> 'a::len word \<Rightarrow> bool \<Rightarrow> 's pb_decoder" where
  "store_checked n v differs dest st =
     (let st = (blit (fst st) dest (le_bytes n (unat v)), snd st)
      in if differs then pb_derror ''integer too large'' st else (True, st))"

definition pb_dec_varint :: "nat \<Rightarrow> 's pb_decoder" where
  "pb_dec_varint data_size dest =
     d_then pb_decode_varint
       (\<lambda>v. let svalue = (if data_size = 8 then v else scast (ucast v :: 32 word)) :: 64 word
            in if data_size = 8 then store_checked 8 svalue False dest
               else if data_size = 4
               then (let c = ucast svalue :: 32 word in store_checked 4 c (scast c \<noteq> svalue) dest)
               else if data_size = 2
               then (let c = ucast svalue :: 16 word in store_checked 2 c (scast c \<noteq> svalue) dest)
               else if data_size = 1
               then (let c = ucast svalue :: 8 word in store_checked 1 c (scast c \<noteq> svalue) dest)
               else pb_derror ''invalid data_size'')"

definition pb_dec_uvarint :: "nat \<Rightarrow> 's pb_decoder" where
  "pb_dec_uvarint data_size dest =
     d_then pb_decode_varint
       (\<lambda>v. if data_size = 8 then store_checked 8 v False dest
            else if data_size = 4
            then (let c = ucast v :: 32 word in store_checked 4 c (ucast c \<noteq> v) dest)
            else if data_size = 2
            then (let c = ucast v :: 16 word in store_checked 2 c (ucast c \<noteq> v) dest)
            else if data_size = 1
            then (let c = ucast v :: 8 word in store_checked 1 c (ucast c \<noteq> v) dest)
            else pb_derror ''invalid data_size'')"

definition pb_dec_svarint :: "nat \<Rightarrow> 's pb_decoder" where
  "pb_dec_svarint data_size dest =
     d_then pb_decode_svarint
       (\<lambda>v. if data_size = 8 then store_checked 8 v False dest
            else if data_size = 4
            then (let c = ucast v :: 32 word in store_checked 4 c (scast c \<noteq> v) dest)
            else if data_size = 2
            then (let c = ucast v :: 16 word in store_checked 2 c (scast c \<noteq> v) dest)
            else if data_size = 1
            then (let c = ucast v :: 8 word in store_checked 1 c (scast c \<noteq> v) dest)
            else pb_derror ''invalid data_size'')"

definition pb_dec_fixed32 :: "'s pb_decoder" where
  "pb_dec_fixed32 dest = d_then pb_decode_fixed32 (\<lambda>v. store_checked 4 v False dest)"

definition pb_dec_fixed64 :: "'s pb_decoder" where
  "pb_dec_fixed64 dest = d_then pb_decode_fixed64 (\<lambda>v. store_checked 8 v False dest)"

text \<open>
  \<^verbatim>\<open>pb_realloc\<close> is the C library's and a parameter: given the old pointer, the new size and the memory
  it returns the new pointer and the memory, or nothing when it fails.
\<close>

type_synonym pb_realloc = "nat \<Rightarrow> nat \<Rightarrow> memory \<Rightarrow> (nat \<times> memory) option"

definition allocate_field :: "pb_realloc \<Rightarrow> nat \<Rightarrow> nat \<Rightarrow> 's pb_decoder" where
  "allocate_field R data_size array_size pData st =
     (let ptr = load_ptr (fst st) pData
      in if data_size = 0 \<or> array_size = 0 then pb_derror ''invalid size'' st
         else if (data_size \<ge> 2 ^ 32 \<or> array_size \<ge> 2 ^ 32) \<and> (size_t_end - 1) div array_size < data_size
         then pb_derror ''size too large'' st
         else (case R ptr (size_mul array_size data_size) (fst st) of
                 None \<Rightarrow> pb_derror ''realloc failed'' st
               | Some (ptr, m) \<Rightarrow> (True, store_ptr pData ptr m, snd st)))"

text \<open>
  The bytes that \<^verbatim>\<open>pb_read\<close> has stored at \<open>p\<close>. When the read fails what it has stored is not used by
  the code and not modelled.
\<close>

definition read_into :: "nat \<Rightarrow> 's pb_decoder" where
  "read_into n p = d_then (pb_read False n) (\<lambda>b st. (True, blit (fst st) p b, snd st))"

definition pb_dec_bytes :: "pb_realloc \<Rightarrow> pb_type \<Rightarrow> nat \<Rightarrow> 's pb_decoder" where
  "pb_dec_bytes R type data_size dest =
     d_then pb_decode_varint32
       (\<lambda>sz. let sz = unat sz; alloc_size = PB_BYTES_ARRAY_T_ALLOCSIZE sz;
                fill = (\<lambda>bdest st. read_into sz (bdest + 4) (store_size bdest sz (fst st), snd st))
            in if sz > PB_SIZE_MAX then pb_derror ''bytes overflow''
               else if sz > alloc_size then pb_derror ''size too large''
               else if PB_ATYPE type = PB_ATYPE_POINTER
               then both (allocate_field R alloc_size 1 dest) (\<lambda>st. fill (load_ptr (fst st) dest) st)
               else if alloc_size > data_size then pb_derror ''bytes overflow''
               else fill dest)"

text \<open>\<^verbatim>\<open>size + 1\<close> is computed with 32 bits. The terminator is stored also when the read has failed.\<close>

definition pb_dec_string :: "pb_realloc \<Rightarrow> pb_type \<Rightarrow> nat \<Rightarrow> 's pb_decoder" where
  "pb_dec_string R type data_size dest =
     d_then pb_decode_varint32
       (\<lambda>sz. let alloc_size = unat (sz + 1);
                fill = (\<lambda>dest st. case read_into (unat sz) dest st of
                                    (status, m, stream) \<Rightarrow> (status, m[dest + unat sz := 0], stream))
            in if alloc_size < unat sz then pb_derror ''size too large''
               else if PB_ATYPE type = PB_ATYPE_POINTER
               then both (allocate_field R alloc_size 1 dest) (\<lambda>st. fill (load_ptr (fst st) dest) st)
               else if alloc_size > data_size then pb_derror ''string overflow''
               else fill dest)"

definition pb_dec_fixed_length_bytes :: "nat \<Rightarrow> 's pb_decoder" where
  "pb_dec_fixed_length_bytes data_size dest =
     d_then pb_decode_varint32
       (\<lambda>sz. if unat sz > PB_SIZE_MAX then pb_derror ''bytes overflow''
            else if sz = 0 then (\<lambda>st. (True, blit (fst st) dest (replicate data_size 0), snd st))
            else if unat sz \<noteq> data_size then pb_derror ''incorrect fixed length bytes size''
            else read_into data_size dest)"

section \<open>The packable types\<close>

text \<open>The first five entries of \<^verbatim>\<open>PB_ENCODERS\<close> and \<^verbatim>\<open>PB_DECODERS\<close>.\<close>

definition packable_encoder :: "pb_type \<Rightarrow> nat \<Rightarrow> u8 list \<Rightarrow> 's pb_ostream \<Rightarrow> bool \<times> 's pb_ostream" where
  "packable_encoder ltype data_size src =
     (if ltype = PB_LTYPE_VARINT then pb_enc_varint data_size src
      else if ltype = PB_LTYPE_UVARINT then pb_enc_uvarint data_size src
      else if ltype = PB_LTYPE_SVARINT then pb_enc_svarint data_size src
      else if ltype = PB_LTYPE_FIXED32 then pb_enc_fixed32 src
      else pb_enc_fixed64 src)"

definition packable_decoder :: "pb_type \<Rightarrow> nat \<Rightarrow> 's pb_decoder" where
  "packable_decoder ltype data_size =
     (if ltype = PB_LTYPE_VARINT then pb_dec_varint data_size
      else if ltype = PB_LTYPE_UVARINT then pb_dec_uvarint data_size
      else if ltype = PB_LTYPE_SVARINT then pb_dec_svarint data_size
      else if ltype = PB_LTYPE_FIXED32 then pb_dec_fixed32
      else pb_dec_fixed64)"

end
