(* ===== verification/PbIter.thy ===== *)
theory PbIter
  imports PbScalar
begin

text \<open>
  Field descriptions of nanopb (\<^verbatim>\<open>pb.h\<close>) and the iterator over the fields of a structure
  (\<^verbatim>\<open>pb_common.c\<close>). A field list is the array without its terminating entry of tag zero; \<open>field_at\<close>
  reads the terminator behind the list. Addresses are integers, a pointer has eight bytes.
\<close>

section \<open>Field descriptions\<close>

datatype pb_field =
    Field (tag: nat) (ptype: pb_type) (data_offset: nat) (size_offset: int) (data_size: nat) (array_size: nat) (ptr: pb_ptr)
and pb_ptr =
    Null_ptr
  | Submsg_fields "pb_field list"
  | Default_value "u8 list"

definition PB_LAST_FIELD :: pb_field where
  "PB_LAST_FIELD = Field 0 0 0 0 0 0 Null_ptr"

definition field_at :: "pb_field list \<Rightarrow> nat \<Rightarrow> pb_field" where
  "field_at fs i = (if i < length fs then fs ! i else PB_LAST_FIELD)"

text \<open>\<^verbatim>\<open>(const pb_field_t*)field->ptr\<close>: the description of a submessage.\<close>

definition sub_fields :: "pb_field \<Rightarrow> pb_field list" where
  "sub_fields f = (case ptr f of Submsg_fields fs \<Rightarrow> fs | _ \<Rightarrow> [])"

section \<open>The iterator\<close>

record pb_field_iter =
  start :: "pb_field list"
  pos :: nat
  required_field_index :: nat
  dest_struct :: int
  pData :: int
  pSize :: int

definition iter_pos :: "pb_field_iter \<Rightarrow> pb_field" where
  "iter_pos iter = field_at (start iter) (pos iter)"

definition pb_field_iter_begin :: "pb_field list \<Rightarrow> int \<Rightarrow> bool \<times> pb_field_iter" where
  "pb_field_iter_begin fs dest =
     (let f = field_at fs 0;
          data = dest + int (data_offset f)
      in (tag f \<noteq> 0,
          \<lparr>start = fs, pos = 0, required_field_index = 0, dest_struct = dest,
           pData = data, pSize = data + size_offset f\<rparr>))"

text \<open>The bytes the previous field takes up in the structure.\<close>

definition prev_field_size :: "pb_field \<Rightarrow> nat" where
  "prev_field_size prev =
     (if PB_ATYPE (ptype prev) = PB_ATYPE_STATIC \<and> PB_HTYPE (ptype prev) = PB_HTYPE_REPEATED
      then size_mul (data_size prev) (array_size prev)
      else if PB_ATYPE (ptype prev) = PB_ATYPE_POINTER then 8
      else data_size prev)"

definition pb_field_iter_next :: "pb_field_iter \<Rightarrow> bool \<times> pb_field_iter" where
  "pb_field_iter_next iter =
     (let prev = iter_pos iter
      in if tag prev = 0 then (False, iter)
         else let iter = iter\<lparr>pos := pos iter + 1\<rparr>; cur = iter_pos iter
              in if tag cur = 0 then (False, snd (pb_field_iter_begin (start iter) (dest_struct iter)))
                 else if PB_HTYPE (ptype prev) = PB_HTYPE_ONEOF \<and> PB_HTYPE (ptype cur) = PB_HTYPE_ONEOF
                         \<and> data_offset cur = PB_SIZE_MAX
                 then (True, iter)
                 else let index = (if PB_HTYPE (ptype prev) = PB_HTYPE_REQUIRED
                                   then required_field_index iter + 1 else required_field_index iter);
                          data = pData iter + int (prev_field_size prev) + int (data_offset cur)
                      in (True, iter\<lparr>required_field_index := index, pData := data, pSize := data + size_offset cur\<rparr>))"

text \<open>The loop ends when the iterator is back at \<open>begin\<close>; on a malformed list it may not.\<close>

definition iter_matches :: "nat \<Rightarrow> pb_field_iter \<Rightarrow> bool" where
  "iter_matches t iter \<longleftrightarrow> tag (iter_pos iter) = t \<and> PB_LTYPE (ptype (iter_pos iter)) \<noteq> PB_LTYPE_EXTENSION"

partial_function (option) iter_find_loop :: "nat \<Rightarrow> nat \<Rightarrow> pb_field_iter \<Rightarrow> (bool \<times> pb_field_iter) option" where
  "iter_find_loop t begin_pos iter =
     (if iter_matches t iter then Some (True, iter)
      else let iter = snd (pb_field_iter_next iter)
           in if pos iter \<noteq> begin_pos then iter_find_loop t begin_pos iter else Some (False, iter))"

definition pb_field_iter_find :: "nat \<Rightarrow> pb_field_iter \<Rightarrow> (bool \<times> pb_field_iter) option" where
  "pb_field_iter_find t iter = iter_find_loop t (pos iter) iter"

section \<open>Structures and their descriptions\<close>

text \<open>
  A member of a structure is given by its offset; \<open>member_size\<close> is what it takes up there, as
  \<^verbatim>\<open>pb_membersize\<close> computes it. \<open>described\<close> says that the field list was made from the offsets with the
  macros of \<^verbatim>\<open>pb.h\<close>: the first field has its offset (\<^verbatim>\<open>PB_DATAOFFSET_FIRST\<close>), the others the gap to the
  end of the previous member (\<^verbatim>\<open>PB_DATAOFFSET_OTHER\<close>), or the mark \<^verbatim>\<open>PB_SIZE_MAX\<close> for the members of a
  union after the first (\<^verbatim>\<open>PB_DATAOFFSET_UNION\<close>).
\<close>

definition member_size :: "pb_field \<Rightarrow> nat" where
  "member_size f =
     (if PB_ATYPE (ptype f) = PB_ATYPE_STATIC \<and> PB_HTYPE (ptype f) = PB_HTYPE_REPEATED then data_size f * array_size f
      else if PB_ATYPE (ptype f) = PB_ATYPE_POINTER then 8 else data_size f)"

definition union_next :: "pb_field \<Rightarrow> pb_field \<Rightarrow> bool" where
  "union_next f g \<longleftrightarrow> PB_HTYPE (ptype f) = PB_HTYPE_ONEOF \<and> PB_HTYPE (ptype g) = PB_HTYPE_ONEOF \<and> data_offset g = PB_SIZE_MAX"

definition described :: "pb_field list \<Rightarrow> nat list \<Rightarrow> bool" where
  "described fs offs \<longleftrightarrow>
     length offs = length fs \<and> (\<forall>f \<in> set fs. tag f \<noteq> 0 \<and> member_size f < 2 ^ 32)
     \<and> (fs \<noteq> [] \<longrightarrow> data_offset (fs ! 0) = offs ! 0)
     \<and> (\<forall>i < length fs - 1.
          (if union_next (fs ! i) (fs ! Suc i)
           then offs ! Suc i = offs ! i \<and> size_offset (fs ! Suc i) = size_offset (fs ! i)
           else offs ! i + member_size (fs ! i) + data_offset (fs ! Suc i) = offs ! Suc i))"

text \<open>The iterator at field \<open>i\<close> of a structure at \<open>dest\<close>.\<close>

definition at_field :: "pb_field list \<Rightarrow> nat list \<Rightarrow> int \<Rightarrow> nat \<Rightarrow> pb_field_iter" where
  "at_field fs offs dest i =
     \<lparr>start = fs, pos = i,
      required_field_index = length (filter (\<lambda>f. PB_HTYPE (ptype f) = PB_HTYPE_REQUIRED) (take i fs)),
      dest_struct = dest, pData = dest + int (offs ! i), pSize = dest + int (offs ! i) + size_offset (fs ! i)\<rparr>"

lemma begin_at_field:
  assumes "described fs offs" and "fs \<noteq> []"
  shows "pb_field_iter_begin fs dest = (True, at_field fs offs dest 0)"
  using assms by (simp add: pb_field_iter_begin_def at_field_def field_at_def described_def Let_def)

lemma begin_empty: "\<not> fst (pb_field_iter_begin [] dest)"
  by (simp add: pb_field_iter_begin_def field_at_def PB_LAST_FIELD_def Let_def)

lemma next_at_field:
  assumes d: "described fs offs" and i: "Suc i < length fs"
  shows "pb_field_iter_next (at_field fs offs dest i) = (True, at_field fs offs dest (Suc i))"
proof -
  have t: "tag (fs ! i) \<noteq> 0" "tag (fs ! Suc i) \<noteq> 0" "member_size (fs ! i) < 2 ^ 32"
    using d i by (simp_all add: described_def)
  have m: "prev_field_size (fs ! i) = member_size (fs ! i)"
    using t(3) by (auto simp: prev_field_size_def member_size_def size_mul_def)
  have nr: "PB_HTYPE_ONEOF \<noteq> PB_HTYPE_REQUIRED" by (simp add: PB_HTYPE_ONEOF_def PB_HTYPE_REQUIRED_def)
  have step: "if union_next (fs ! i) (fs ! Suc i)
           then offs ! Suc i = offs ! i \<and> size_offset (fs ! Suc i) = size_offset (fs ! i)
           else offs ! i + member_size (fs ! i) + data_offset (fs ! Suc i) = offs ! Suc i"
    using d i by (simp add: described_def)
  show ?thesis
  proof (cases "union_next (fs ! i) (fs ! Suc i)")
    case True
    then have "PB_HTYPE (ptype (fs ! i)) = PB_HTYPE_ONEOF" by (simp add: union_next_def)
    with True step t nr i show ?thesis
      by (simp add: pb_field_iter_next_def at_field_def iter_pos_def field_at_def Let_def union_next_def take_Suc_conv_app_nth)
  next
    case False
    then have u: "\<not> (PB_HTYPE (ptype (fs ! i)) = PB_HTYPE_ONEOF \<and> PB_HTYPE (ptype (fs ! Suc i)) = PB_HTYPE_ONEOF
        \<and> data_offset (fs ! Suc i) = PB_SIZE_MAX)" by (simp add: union_next_def)
    have o: "int (offs ! i) + int (member_size (fs ! i)) + int (data_offset (fs ! Suc i)) = int (offs ! Suc i)"
      using step False by (simp flip: of_nat_add)
    show ?thesis using t i o
      unfolding pb_field_iter_next_def Let_def
      by (simp add: at_field_def iter_pos_def field_at_def u m take_Suc_conv_app_nth flip: o)
  qed
qed

lemma next_wraps:
  assumes d: "described fs offs" and i: "Suc i = length fs"
  shows "pb_field_iter_next (at_field fs offs dest i) = (False, at_field fs offs dest 0)"
proof -
  have "fs \<noteq> []" using i by auto
  moreover have "tag (fs ! i) \<noteq> 0" using d i by (simp add: described_def)
  ultimately show ?thesis using begin_at_field [OF d, of dest] i
    by (simp add: pb_field_iter_next_def iter_pos_def at_field_def field_at_def PB_LAST_FIELD_def Let_def)
qed

lemma length_offs [simp]: "described fs offs \<Longrightarrow> length offs = length fs"
  by (simp add: described_def)

lemma pos_at_field [simp]: "pos (at_field fs offs dest i) = i"
  by (simp add: at_field_def)

section \<open>Iterating\<close>

definition advance_iter :: "nat \<Rightarrow> pb_field_iter \<Rightarrow> pb_field_iter" where
  "advance_iter k = (\<lambda>iter. snd (pb_field_iter_next iter)) ^^ k"

lemma advance_at_field:
  assumes d: "described fs offs" and k: "k < length fs"
  shows "advance_iter k (snd (pb_field_iter_begin fs dest)) = at_field fs offs dest k"
  using k
proof (induction k)
  case 0
  then show ?case using begin_at_field [OF d] by (simp add: advance_iter_def)
next
  case (Suc k)
  then show ?case using next_at_field [OF d, of k dest] by (simp add: advance_iter_def)
qed

text \<open>
  C33: for a description made from the offsets of a structure's members, calling
  \<^verbatim>\<open>pb_field_iter_next\<close> \<open>k\<close> times after \<^verbatim>\<open>pb_field_iter_begin\<close> leaves the iterator at field \<open>k\<close> with
  \<^verbatim>\<open>pData\<close> at that member's offset in the structure, \<^verbatim>\<open>pSize\<close> at its size field and
  \<^verbatim>\<open>required_field_index\<close> counting the required fields before it; the next call answers true while there
  are further fields, and at the last one answers false with the iterator back at its beginning.
\<close>

theorem pb_iter_follows_layout:
  fixes dest :: int
  assumes "described fs offs" and "k < length fs"
  defines "iter \<equiv> advance_iter k (snd (pb_field_iter_begin fs dest))"
  shows "iter_pos iter = fs ! k \<and> pData iter = dest + int (offs ! k)
    \<and> pSize iter = dest + int (offs ! k) + size_offset (fs ! k)
    \<and> required_field_index iter = length (filter (\<lambda>f. PB_HTYPE (ptype f) = PB_HTYPE_REQUIRED) (take k fs))
    \<and> fst (pb_field_iter_next iter) = (Suc k < length fs)
    \<and> (Suc k = length fs \<longrightarrow> snd (pb_field_iter_next iter) = snd (pb_field_iter_begin fs dest))"
proof -
  have it: "iter = at_field fs offs dest k"
    using assms(1,2) by (simp add: iter_def advance_at_field)
  have e: "Suc k = length fs \<or> Suc k < length fs" using assms(2) by linarith
  have "fs \<noteq> []" using assms(2) by auto
  then have b: "pb_field_iter_begin fs dest = (True, at_field fs offs dest 0)"
    using begin_at_field [OF assms(1)] by simp
  have n: "fst (pb_field_iter_next iter) = (Suc k < length fs)"
    using e next_at_field [OF assms(1)] next_wraps [OF assms(1)] by (auto simp: it)
  have w: "Suc k = length fs \<longrightarrow> snd (pb_field_iter_next iter) = snd (pb_field_iter_begin fs dest)"
    using next_wraps [OF assms(1)] by (simp add: it b)
  show ?thesis using n w assms(2) by (simp add: it at_field_def iter_pos_def field_at_def)
qed

text \<open>
  A structure with a required \<^verbatim>\<open>uint32\<close> at offset 0, an optional \<^verbatim>\<open>uint64\<close> whose \<^verbatim>\<open>has_\<close> flag is one byte before
  it, and a static array of four \<^verbatim>\<open>uint32\<close> with its count before it.
\<close>

definition layout_fields :: "pb_field list" where
  "layout_fields =
     [Field 1 0x01 0 0 4 0 Null_ptr,
      Field 2 0x11 4 (-1) 8 0 Null_ptr,
      Field 3 0x21 8 (-8) 4 4 Null_ptr]"

definition layout_offs :: "nat list" where
  "layout_offs = [0, 8, 24]"

lemma layout_sizes: "map member_size layout_fields = [4, 8, 16]" by code_simp

lemma layout_gaps:
  "\<not> union_next (layout_fields ! 0) (layout_fields ! 1)" "\<not> union_next (layout_fields ! 1) (layout_fields ! 2)"
  by (simp_all add: union_next_def layout_fields_def PB_SIZE_MAX_def)

lemma layout_described: "described layout_fields layout_offs"
  using layout_sizes layout_gaps
  by (auto simp: described_def layout_fields_def layout_offs_def less_Suc_eq nth_Cons')

theorem pb_iter_follows_layout_witness:
  "pData (advance_iter 2 (snd (pb_field_iter_begin layout_fields 1000))) = 1024
   \<and> required_field_index (advance_iter 2 (snd (pb_field_iter_begin layout_fields 1000))) = 1"
proof -
  have "filter (\<lambda>f. PB_HTYPE (ptype f) = PB_HTYPE_REQUIRED) (take 2 layout_fields) = [Field 1 0x01 0 0 4 0 Null_ptr]"
    by code_simp
  then show ?thesis
    using pb_iter_follows_layout [OF layout_described, of 2 1000] by (simp add: layout_fields_def layout_offs_def)
qed

section \<open>Searching\<close>

text \<open>The search order: from the current field to the end of the list, then from the beginning.\<close>

definition search_order :: "nat \<Rightarrow> nat \<Rightarrow> nat list" where
  "search_order n i = [i..<n] @ [0..<i]"

definition field_matches :: "nat \<Rightarrow> pb_field \<Rightarrow> bool" where
  "field_matches t f \<longleftrightarrow> tag f = t \<and> PB_LTYPE (ptype f) \<noteq> PB_LTYPE_EXTENSION"

definition find_result :: "pb_field list \<Rightarrow> nat list \<Rightarrow> int \<Rightarrow> nat \<Rightarrow> nat option \<Rightarrow> bool \<times> pb_field_iter" where
  "find_result fs offs dest i r = (case r of None \<Rightarrow> (False, at_field fs offs dest i) | Some j \<Rightarrow> (True, at_field fs offs dest j))"

lemma iter_matches_at_field:
  "i < length fs \<Longrightarrow> iter_matches t (at_field fs offs dest i) = field_matches t (fs ! i)"
  by (simp add: iter_matches_def field_matches_def iter_pos_def at_field_def field_at_def)

lemma find_before:
  assumes d: "described fs offs" and i: "i < length fs" and j: "j < i"
  shows "iter_find_loop t i (at_field fs offs dest j)
    = Some (find_result fs offs dest i (List.find (\<lambda>j. field_matches t (fs ! j)) [j..<i]))"
  using j
proof (induction "i - j" arbitrary: j)
  case (Suc n)
  have u: "[j..<i] = j # [Suc j..<i]" using Suc.prems by (simp add: upt_conv_Cons)
  have j: "j < length fs" "Suc j < length fs" using Suc.prems i by simp_all
  note e = iter_find_loop.simps [of t i "at_field fs offs dest j"] iter_matches_at_field [OF j(1)]
    next_at_field [OF d j(2)]
  show ?case
  proof (cases "Suc j = i")
    case True
    then show ?thesis using u by (simp add: e find_result_def)
  next
    case False
    then have "Suc j < i" "n = i - Suc j" using Suc by linarith+
    with Suc.hyps(1) show ?thesis using u by (simp add: e find_result_def)
  qed
qed simp

lemma find_after:
  assumes d: "described fs offs" and i: "i \<le> j" and j: "j < length fs"
  shows "iter_find_loop t i (at_field fs offs dest j)
    = Some (find_result fs offs dest i (List.find (\<lambda>j. field_matches t (fs ! j)) ([j..<length fs] @ [0..<i])))"
  using i j
proof (induction "length fs - j" arbitrary: j)
  case (Suc n)
  have u: "[j..<length fs] = j # [Suc j..<length fs]" using Suc.prems by (simp add: upt_conv_Cons)
  note e = iter_find_loop.simps [of t i "at_field fs offs dest j"] iter_matches_at_field [OF Suc.prems(2)]
  show ?case
  proof (cases "Suc j = length fs")
    case True
    have "iter_find_loop t i (at_field fs offs dest 0)
        = Some (find_result fs offs dest i (List.find (\<lambda>j. field_matches t (fs ! j)) [0..<i]))" if "i \<noteq> 0"
      using find_before [OF d _ , of i 0 t dest] that Suc.prems by simp
    then show ?thesis using u True next_wraps [OF d True, of dest] by (auto simp: e find_result_def Let_def)
  next
    case False
    then have "Suc j < length fs" "n = length fs - Suc j" using Suc by linarith+
    with Suc.hyps(1) [of "Suc j"] Suc.prems show ?thesis using u next_at_field [OF d, of j dest] by (simp add: e find_result_def)
  qed
qed simp

lemma find_searches:
  assumes "described fs offs" and "i < length fs"
  shows "pb_field_iter_find t (at_field fs offs dest i)
    = Some (find_result fs offs dest i (List.find (\<lambda>j. field_matches t (fs ! j)) (search_order (length fs) i)))"
  using find_after [OF assms(1) order_refl assms(2)] by (simp add: pb_field_iter_find_def search_order_def)

text \<open>
  C34: on such a description \<^verbatim>\<open>pb_field_iter_find\<close> always returns: it stops at the first field with the
  tag that is not an extension, looking from the current field to the end and then from the beginning,
  and when no field has the tag it answers false and leaves the iterator where it was.
\<close>

theorem pb_iter_find_searches_all:
  assumes "described fs offs" and "i < length fs"
  shows "pb_field_iter_find t (at_field fs offs dest i)
    = Some (case List.find (\<lambda>j. field_matches t (fs ! j)) (search_order (length fs) i) of
              None \<Rightarrow> (False, at_field fs offs dest i)
            | Some j \<Rightarrow> (True, at_field fs offs dest j))"
  using find_searches [OF assms] by (simp add: find_result_def)

theorem pb_iter_find_searches_all_witness:
  "pb_field_iter_find 2 (at_field layout_fields layout_offs 1000 2)
     = Some (True, at_field layout_fields layout_offs 1000 1)
   \<and> pb_field_iter_find 9 (at_field layout_fields layout_offs 1000 2)
     = Some (False, at_field layout_fields layout_offs 1000 2)"
proof -
  have a: "List.find (\<lambda>j. field_matches 2 (layout_fields ! j)) (search_order 3 2) = Some 1" by code_simp
  have b: "List.find (\<lambda>j. field_matches 9 (layout_fields ! j)) (search_order 3 2) = None" by code_simp
  have l: "length layout_fields = 3" by (simp add: layout_fields_def)
  show ?thesis
    using pb_iter_find_searches_all [OF layout_described, of 2 2 1000]
      pb_iter_find_searches_all [OF layout_described, of 2 9 1000] by (simp add: l a b)
qed

end
