(* ===== verification/PbEncode.thy ===== *)
theory PbEncode
  imports PbIter
begin

text \<open>
  The encoder of \<^verbatim>\<open>pb_encode.c\<close> on a structure in memory, driven by its field descriptions. A
  function that calls \<^verbatim>\<open>pb_encode\<close> for a submessage gets it as the argument \<open>sub\<close>; \<open>pb_encode\<close> ties the
  knot, which ends because the descriptions are finite trees. User callbacks and the handlers of
  extensions are functions of the caller.
\<close>

section \<open>Loops\<close>

text \<open>\<^verbatim>\<open>do { if (!body(iter)) return false; } while (pb_field_iter_next(&iter)); return true;\<close>\<close>

lemma next_advances:
  "pb_field_iter_next iter = (True, iter') \<Longrightarrow>
     start iter' = start iter \<and> pos iter' = Suc (pos iter) \<and> pos iter' < length (start iter)"
  by (auto simp: pb_field_iter_next_def Let_def iter_pos_def field_at_def PB_LAST_FIELD_def split: if_splits)

function fields_loop :: "(pb_field_iter \<Rightarrow> 't \<Rightarrow> bool \<times> 't) \<Rightarrow> pb_field_iter \<Rightarrow> 't \<Rightarrow> bool \<times> 't" where
  "fields_loop body iter st =
     (case body iter st of
        (False, st) \<Rightarrow> (False, st)
      | (True, st) \<Rightarrow>
          (case pb_field_iter_next iter of
             (True, iter) \<Rightarrow> fields_loop body iter st
           | (False, _) \<Rightarrow> (True, st)))"
  by pat_completeness auto
termination
  by (relation "measure (\<lambda>(_, iter, _). length (start iter) - pos iter)") (use next_advances [OF sym] in fastforce)+

declare fields_loop.simps [simp del]

text \<open>\<^verbatim>\<open>for (i = 0; i < count; i++) { if (!f(p)) return false; p += step; }\<close>\<close>

fun items_loop :: "(nat \<Rightarrow> 't \<Rightarrow> bool \<times> 't) \<Rightarrow> nat \<Rightarrow> nat \<Rightarrow> nat \<Rightarrow> 't \<Rightarrow> bool \<times> 't" where
  "items_loop f step 0 p st = (True, st)"
| "items_loop f step (Suc count) p st = both (f p) (items_loop f step count (p + step)) st"

section \<open>Arrays\<close>

definition PB_LTYPE_LAST_PACKABLE :: pb_type where "PB_LTYPE_LAST_PACKABLE = 0x04"

definition pb_encode_tag_for_field :: "pb_field \<Rightarrow> 's pb_ostream \<Rightarrow> bool \<times> 's pb_ostream" where
  "pb_encode_tag_for_field field =
     (let ltype = PB_LTYPE (ptype field); tag = of_nat (tag field)
      in if ltype \<in> {PB_LTYPE_VARINT, PB_LTYPE_UVARINT, PB_LTYPE_SVARINT} then pb_encode_tag PB_WT_VARINT tag
         else if ltype = PB_LTYPE_FIXED32 then pb_encode_tag PB_WT_32BIT tag
         else if ltype = PB_LTYPE_FIXED64 then pb_encode_tag PB_WT_64BIT tag
         else if ltype \<in> {PB_LTYPE_BYTES, PB_LTYPE_STRING, PB_LTYPE_SUBMESSAGE, PB_LTYPE_FIXED_LENGTH_BYTES}
         then pb_encode_tag PB_WT_STRING tag
         else pb_oerror ''invalid field type'')"

text \<open>The total size of a packed array, or nothing when an entry cannot be encoded.\<close>

definition packed_size ::
  "pb_field \<Rightarrow> nat \<Rightarrow> nat \<Rightarrow> (nat \<Rightarrow> 's pb_ostream \<Rightarrow> bool \<times> 's pb_ostream) \<Rightarrow> 's pb_ostream \<Rightarrow> nat option" where
  "packed_size field data count func stream =
     (if PB_LTYPE (ptype field) = PB_LTYPE_FIXED32 then Some (size_mul 4 count)
      else if PB_LTYPE (ptype field) = PB_LTYPE_FIXED64 then Some (size_mul 8 count)
      else (case items_loop func (data_size field) count data (PB_OSTREAM_SIZING (ostate stream)) of
              (False, _) \<Rightarrow> None
            | (True, sizestream) \<Rightarrow> Some (bytes_written sizestream)))"

definition encode_array ::
  "memory \<Rightarrow> pb_field \<Rightarrow> nat \<Rightarrow> nat \<Rightarrow> (nat \<Rightarrow> 's pb_ostream \<Rightarrow> bool \<times> 's pb_ostream) \<Rightarrow> 's pb_ostream \<Rightarrow> bool \<times> 's pb_ostream" where
  "encode_array m field data count func stream =
     (if count = 0 then (True, stream)
      else if PB_ATYPE (ptype field) \<noteq> PB_ATYPE_POINTER \<and> count > array_size field
      then pb_oerror ''array max size exceeded'' stream
      else if PB_LTYPE (ptype field) \<le> PB_LTYPE_LAST_PACKABLE
      then both (pb_encode_tag PB_WT_STRING (of_nat (tag field)))
             (\<lambda>stream.
                case packed_size field data count func stream of
                  None \<Rightarrow> (False, stream)
                | Some sz \<Rightarrow>
                    both (pb_encode_varint (of_nat sz))
                      (\<lambda>stream. case ocallback stream of
                         None \<Rightarrow> pb_write [] sz stream
                       | Some _ \<Rightarrow> items_loop func (data_size field) count data stream) stream) stream
      else items_loop
             (\<lambda>p. both (pb_encode_tag_for_field field)
                (if PB_ATYPE (ptype field) = PB_ATYPE_POINTER
                    \<and> (PB_LTYPE (ptype field) = PB_LTYPE_STRING \<or> PB_LTYPE (ptype field) = PB_LTYPE_BYTES)
                 then func (load_ptr m p) else func p))
             (data_size field) count data stream)"

section \<open>Values that a proto3 message leaves out\<close>

text \<open>The byte-per-byte comparison with zero.\<close>

definition all_zero :: "memory \<Rightarrow> nat \<Rightarrow> nat \<Rightarrow> bool" where
  "all_zero m p n \<longleftrightarrow> (\<forall>b \<in> set (take n (drop p m)). b = 0)"

text \<open>
  \<open>rec\<close> is the function itself, for the fields of a submessage. \<^verbatim>\<open>pSize\<close> is \<^verbatim>\<open>pData\<close> when the field has
  no size field.
\<close>

definition check_default ::
  "(pb_field \<Rightarrow> nat \<Rightarrow> bool) \<Rightarrow> memory \<Rightarrow> pb_field \<Rightarrow> nat \<Rightarrow> bool" where
  "check_default rec m field data =
     (let type = ptype field; pSize = nat (int data + size_offset field)
      in if PB_HTYPE type = PB_HTYPE_REQUIRED then False
         else if PB_HTYPE type = PB_HTYPE_REPEATED then load_size m pSize = 0
         else if PB_HTYPE type = PB_HTYPE_ONEOF then load_size m pSize = 0
         else if PB_HTYPE type = PB_HTYPE_OPTIONAL \<and> size_offset field \<noteq> 0 then \<not> load_bool m pSize
         else if PB_ATYPE type = PB_ATYPE_STATIC \<and> PB_LTYPE type = PB_LTYPE_BYTES then load_size m data = 0
         else if PB_ATYPE type = PB_ATYPE_STATIC \<and> PB_LTYPE type = PB_LTYPE_STRING then all_zero m data 1
         else if PB_ATYPE type = PB_ATYPE_STATIC \<and> PB_LTYPE type = PB_LTYPE_FIXED_LENGTH_BYTES then data_size field = 0
         else if PB_ATYPE type = PB_ATYPE_STATIC \<and> PB_LTYPE type = PB_LTYPE_SUBMESSAGE
         then (case pb_field_iter_begin (sub_fields field) (int data) of
                 (False, _) \<Rightarrow> True
               | (True, iter) \<Rightarrow>
                   fst (fields_loop (\<lambda>iter st. (rec (iter_pos iter) (nat (pData iter)), st)) iter ()))
         else all_zero m data (data_size field))"

text \<open>The nesting depth of a description bounds the recursion.\<close>

fun field_depth :: "pb_field \<Rightarrow> nat" and ptr_depth :: "pb_ptr \<Rightarrow> nat" where
  "field_depth (Field _ _ _ _ _ _ q) = ptr_depth q"
| "ptr_depth (Submsg_fields fs) = Suc (foldr max (map field_depth fs) 0)"
| "ptr_depth _ = 0"

definition message_depth :: "pb_field list \<Rightarrow> nat" where
  "message_depth fs = foldr max (map field_depth fs) 0"

primrec check_default_n :: "memory \<Rightarrow> nat \<Rightarrow> pb_field \<Rightarrow> nat \<Rightarrow> bool" where
  "check_default_n m 0 = check_default (\<lambda>_ _. True) m"
| "check_default_n m (Suc d) = check_default (check_default_n m d) m"

definition pb_check_proto3_default_value :: "memory \<Rightarrow> pb_field \<Rightarrow> nat \<Rightarrow> bool" where
  "pb_check_proto3_default_value m field = check_default_n m (field_depth field) field"

section \<open>Fields\<close>

text \<open>
  The caller's functions: the encoder of a callback field, by its address, with the field and the
  address of the argument, and the encoder for the list of extensions at an address.
\<close>

record 's encode_env =
  env_callback :: "nat \<Rightarrow> pb_field \<Rightarrow> nat \<Rightarrow> 's pb_ostream \<Rightarrow> bool \<times> 's pb_ostream"
  env_extension :: "nat \<Rightarrow> 's pb_ostream \<Rightarrow> bool \<times> 's pb_ostream"

type_synonym 's message_encoder = "pb_field list \<Rightarrow> nat \<Rightarrow> 's pb_ostream \<Rightarrow> bool \<times> 's pb_ostream"

text \<open>The second pass over a submessage of \<open>sz\<close> bytes, by \<open>g\<close>, after the size has been written.\<close>

definition second_pass :: "('s pb_ostream \<Rightarrow> bool \<times> 's pb_ostream) \<Rightarrow> nat \<Rightarrow> 's pb_ostream \<Rightarrow> bool \<times> 's pb_ostream" where
  "second_pass g sz stream =
     (case ocallback stream of
        None \<Rightarrow> pb_write [] sz stream
      | Some callback \<Rightarrow>
          if size_add (bytes_written stream) sz > max_size stream then pb_oerror ''stream full'' stream
          else (case g \<lparr>ocallback = Some callback, ostate = ostate stream, max_size = sz,
                        bytes_written = 0, oerrmsg = None\<rparr> of
                  (status, substream) \<Rightarrow>
                    let stream = stream\<lparr>bytes_written := size_add (bytes_written stream) (bytes_written substream),
                                        ostate := ostate substream, oerrmsg := oerrmsg substream\<rparr>
                    in if bytes_written substream \<noteq> sz then pb_oerror ''submsg size changed'' stream
                       else (status, stream)))"

definition pb_encode_submessage :: "'s message_encoder \<Rightarrow> 's message_encoder" where
  "pb_encode_submessage sub fs src stream =
     (case sub fs src (PB_OSTREAM_SIZING (ostate stream)) of
        (False, substream) \<Rightarrow> (False, stream\<lparr>oerrmsg := oerrmsg substream\<rparr>)
      | (True, substream) \<Rightarrow>
          let sz = bytes_written substream
          in both (pb_encode_varint (of_nat sz)) (second_pass (sub fs src) sz) stream)"

definition pb_enc_submessage :: "'s message_encoder \<Rightarrow> pb_field \<Rightarrow> nat \<Rightarrow> 's pb_ostream \<Rightarrow> bool \<times> 's pb_ostream" where
  "pb_enc_submessage sub field src =
     (if ptr field = Null_ptr then pb_oerror ''invalid field descriptor''
      else pb_encode_submessage sub (sub_fields field) src)"

text \<open>
  \<^verbatim>\<open>PB_ENCODERS[PB_LTYPE(field->type)]\<close>. The tag is encoded first, and that fails for the types without
  an encoder.
\<close>

definition PB_ENCODERS :: "'s message_encoder \<Rightarrow> memory \<Rightarrow> pb_field \<Rightarrow> nat \<Rightarrow> 's pb_ostream \<Rightarrow> bool \<times> 's pb_ostream" where
  "PB_ENCODERS sub m field src =
     (let ltype = PB_LTYPE (ptype field);
          bytes = (if src = 0 then None else Some (drop src m))
      in if ltype \<le> PB_LTYPE_LAST_PACKABLE then packable_encoder ltype (data_size field) (drop src m)
         else if ltype = PB_LTYPE_BYTES then pb_enc_bytes (ptype field) (data_size field) bytes
         else if ltype = PB_LTYPE_STRING then pb_enc_string (ptype field) (data_size field) bytes
         else if ltype = PB_LTYPE_SUBMESSAGE then pb_enc_submessage sub field src
         else pb_enc_fixed_length_bytes (data_size field) (drop src m))"

text \<open>
  \<open>size_at\<close> is \<^verbatim>\<open>pSize\<close>, or \<open>None\<close> when that is the address of \<open>implicit_has\<close>; a field of a union has a
  size field.
\<close>

definition encode_basic_field ::
  "'s message_encoder \<Rightarrow> memory \<Rightarrow> pb_field \<Rightarrow> nat \<Rightarrow> 's pb_ostream \<Rightarrow> bool \<times> 's pb_ostream" where
  "encode_basic_field sub m field data =
     (let func = PB_ENCODERS sub m field; type = ptype field;
          size_at = (if size_offset field \<noteq> 0 then Some (nat (int data + size_offset field)) else None);
          implicit_has = (PB_HTYPE type = PB_HTYPE_OPTIONAL \<longrightarrow> \<not> pb_check_proto3_default_value m field data);
          pointer = (PB_ATYPE type = PB_ATYPE_POINTER);
          data = (if pointer then load_ptr m data else data);
          implicit_has = (if pointer then data \<noteq> 0 else implicit_has);
          write_field = both (pb_encode_tag_for_field field) (func data)
      in if PB_HTYPE type = PB_HTYPE_REQUIRED
         then (if data = 0 then pb_oerror ''missing required field'' else write_field)
         else if PB_HTYPE type = PB_HTYPE_OPTIONAL
         then (if (case size_at of Some p \<Rightarrow> load_bool m p | None \<Rightarrow> implicit_has) then write_field
               else (\<lambda>stream. (True, stream)))
         else if PB_HTYPE type = PB_HTYPE_REPEATED
         then (let count = (case size_at of Some p \<Rightarrow> load_size m p | None \<Rightarrow> array_size field)
               in encode_array m field data count func)
         else (if (case size_at of Some p \<Rightarrow> load_size m p | None \<Rightarrow> of_bool implicit_has) = tag field then write_field
               else (\<lambda>stream. (True, stream))))"

text \<open>A \<^verbatim>\<open>pb_callback_t\<close> holds the address of the function and the argument.\<close>

definition encode_callback_field ::
  "'s encode_env \<Rightarrow> memory \<Rightarrow> pb_field \<Rightarrow> nat \<Rightarrow> 's pb_ostream \<Rightarrow> bool \<times> 's pb_ostream" where
  "encode_callback_field E m field data stream =
     (let encode = load_ptr m data
      in if encode \<noteq> 0
         then (case env_callback E encode field (data + 8) stream of
                 (False, stream) \<Rightarrow> pb_oerror ''callback error'' stream
               | (True, stream) \<Rightarrow> (True, stream))
         else (True, stream))"

definition encode_field ::
  "'s encode_env \<Rightarrow> 's message_encoder \<Rightarrow> memory \<Rightarrow> pb_field \<Rightarrow> nat \<Rightarrow> 's pb_ostream \<Rightarrow> bool \<times> 's pb_ostream" where
  "encode_field E sub m field data =
     (let atype = PB_ATYPE (ptype field)
      in if atype = PB_ATYPE_STATIC \<or> atype = PB_ATYPE_POINTER then encode_basic_field sub m field data
         else if atype = PB_ATYPE_CALLBACK then encode_callback_field E m field data
         else pb_oerror ''invalid field type'')"

section \<open>Messages\<close>

definition encode_message :: "'s encode_env \<Rightarrow> 's message_encoder \<Rightarrow> memory \<Rightarrow> 's message_encoder" where
  "encode_message E sub m fs src stream =
     (case pb_field_iter_begin fs (int src) of
        (False, _) \<Rightarrow> (True, stream)
      | (True, iter) \<Rightarrow>
          fields_loop
            (\<lambda>iter. if PB_LTYPE (ptype (iter_pos iter)) = PB_LTYPE_EXTENSION
                    then env_extension E (load_ptr m (nat (pData iter)))
                    else encode_field E sub m (iter_pos iter) (nat (pData iter)))
            iter stream)"

text \<open>At the innermost level there are no submessages with fields; encoding no fields writes nothing.\<close>

primrec encode_n :: "'s encode_env \<Rightarrow> memory \<Rightarrow> nat \<Rightarrow> 's message_encoder" where
  "encode_n E m 0 = encode_message E (\<lambda>_ _ stream. (True, stream)) m"
| "encode_n E m (Suc d) = encode_message E (encode_n E m d) m"

definition pb_encode :: "'s encode_env \<Rightarrow> memory \<Rightarrow> 's message_encoder" where
  "pb_encode E m fs = encode_n E m (message_depth fs) fs"

definition pb_encode_delimited :: "'s encode_env \<Rightarrow> memory \<Rightarrow> 's message_encoder" where
  "pb_encode_delimited E m = pb_encode_submessage (pb_encode E m)"

definition pb_encode_nullterminated :: "'s encode_env \<Rightarrow> memory \<Rightarrow> 's message_encoder" where
  "pb_encode_nullterminated E m fs src = both (pb_encode E m fs src) (pb_write [0] 1)"

definition pb_get_encoded_size :: "'s encode_env \<Rightarrow> memory \<Rightarrow> 's \<Rightarrow> pb_field list \<Rightarrow> nat \<Rightarrow> nat option" where
  "pb_get_encoded_size E m s fs src =
     (case pb_encode E m fs src (PB_OSTREAM_SIZING s) of
        (False, _) \<Rightarrow> None
      | (True, stream) \<Rightarrow> Some (bytes_written stream))"

end
