(* ===== verification/PbDecode.thy ===== *)
theory PbDecode
  imports PbEncode
begin

text \<open>
  The decoder of \<^verbatim>\<open>pb_decode.c\<close> into a structure in memory, driven by its field descriptions. A decoding
  function works on the memory and the stream; it returns \<open>None\<close> when it does not return, which only a
  callback of the user can bring about. Functions that recur into submessages get the
  recursive call as an argument, as in the encoder.
\<close>

section \<open>The environment\<close>

text \<open>
  What is not part of the decoder: the allocator of the C library; the decoder of a callback field, by
  the address of the function, with the field and the address of the argument; the walks over a list of
  extensions, by its address; and the addresses of the variables \<^verbatim>\<open>fixed_count_size\<close> of the nested
  calls on the stack.
\<close>

record 's decode_env =
  env_realloc :: pb_realloc
  env_free :: "nat \<Rightarrow> memory \<Rightarrow> memory"
  env_decode_callback :: "nat \<Rightarrow> pb_field \<Rightarrow> nat \<Rightarrow> 's dstate \<Rightarrow> (bool \<times> 's dstate) option"
  env_decode_extension :: "nat \<Rightarrow> u32 \<Rightarrow> nat \<Rightarrow> 's dstate \<Rightarrow> (bool \<times> 's dstate) option"
  env_default_extension :: "nat \<Rightarrow> memory \<Rightarrow> memory"
  env_release_extension :: "nat \<Rightarrow> memory \<Rightarrow> memory"
  env_slot :: "nat \<Rightarrow> nat"

type_synonym 's d_result = "(bool \<times> 's dstate) option"

text \<open>A read of the stream whose value goes to \<open>f\<close>.\<close>

definition read_then ::
  "('s pb_istream \<Rightarrow> 'a option \<times> 's pb_istream) \<Rightarrow> ('a \<Rightarrow> 's dstate \<Rightarrow> 's d_result) \<Rightarrow> 's dstate \<Rightarrow> 's d_result" where
  "read_then d f st =
     (case d (snd st) of
        (None, stream) \<Rightarrow> Some (False, fst st, stream)
      | (Some x, stream) \<Rightarrow> f x (fst st, stream))"

text \<open>A substream is decoded by \<open>f\<close> and closed; its status is returned.\<close>

definition close_with :: "bool \<Rightarrow> memory \<Rightarrow> 's pb_istream \<Rightarrow> 's pb_istream \<Rightarrow> bool \<times> 's dstate" where
  "close_with status m substream stream =
     (case pb_close_string_substream substream stream of
        (None, stream) \<Rightarrow> (False, m, stream)
      | (Some _, stream) \<Rightarrow> (status, m, stream))"

section \<open>Default values\<close>

text \<open>\<open>rec\<close> is \<open>pb_message_set_to_defaults\<close>.\<close>

definition pb_field_set_to_default ::
  "'s decode_env \<Rightarrow> (pb_field list \<Rightarrow> nat \<Rightarrow> memory \<Rightarrow> memory) \<Rightarrow> pb_field_iter \<Rightarrow> memory \<Rightarrow> memory" where
  "pb_field_set_to_default E rec iter m =
     (let field = iter_pos iter; type = ptype field; data = nat (pData iter); size_at = nat (pSize iter)
      in if PB_LTYPE type = PB_LTYPE_EXTENSION then env_default_extension E (load_ptr m data) m
         else if PB_ATYPE type = PB_ATYPE_STATIC
         then (let init = (\<lambda>m. if PB_LTYPE type = PB_LTYPE_SUBMESSAGE then rec (sub_fields field) data m
                               else (case ptr field of
                                       Default_value b \<Rightarrow> blit m data (take (data_size field) b)
                                     | _ \<Rightarrow> blit m data (replicate (data_size field) 0)))
               in if PB_HTYPE type = PB_HTYPE_OPTIONAL \<and> pSize iter \<noteq> pData iter then init (store_bool size_at False m)
                  else if PB_HTYPE type = PB_HTYPE_REPEATED \<or> PB_HTYPE type = PB_HTYPE_ONEOF then store_size size_at 0 m
                  else init m)
         else if PB_ATYPE type = PB_ATYPE_POINTER
         then (let m = store_ptr data 0 m
               in if PB_HTYPE type = PB_HTYPE_REPEATED \<or> PB_HTYPE type = PB_HTYPE_ONEOF then store_size size_at 0 m
                  else m)
         else m)"

definition message_defaults ::
  "'s decode_env \<Rightarrow> (pb_field list \<Rightarrow> nat \<Rightarrow> memory \<Rightarrow> memory) \<Rightarrow> pb_field list \<Rightarrow> nat \<Rightarrow> memory \<Rightarrow> memory" where
  "message_defaults E rec fs dest m =
     (case pb_field_iter_begin fs (int dest) of
        (False, _) \<Rightarrow> m
      | (True, iter) \<Rightarrow> snd (fields_loop (\<lambda>iter m. (True, pb_field_set_to_default E rec iter m)) iter m))"

primrec defaults_n :: "'s decode_env \<Rightarrow> nat \<Rightarrow> pb_field list \<Rightarrow> nat \<Rightarrow> memory \<Rightarrow> memory" where
  "defaults_n E 0 = message_defaults E (\<lambda>_ _ m. m)"
| "defaults_n E (Suc d) = message_defaults E (defaults_n E d)"

definition pb_message_set_to_defaults :: "'s decode_env \<Rightarrow> pb_field list \<Rightarrow> nat \<Rightarrow> memory \<Rightarrow> memory" where
  "pb_message_set_to_defaults E fs = defaults_n E (message_depth fs) fs"

section \<open>Releasing\<close>

text \<open>\<open>rec\<close> is \<open>pb_release\<close>. The loops over the items of an array count down from \<open>count\<close>.\<close>

fun release_items :: "(nat \<Rightarrow> memory \<Rightarrow> memory) \<Rightarrow> nat \<Rightarrow> nat \<Rightarrow> nat \<Rightarrow> memory \<Rightarrow> memory" where
  "release_items f step 0 p m = m"
| "release_items f step (Suc count) p m = release_items f step count (p + step) (f p m)"

definition release_submessages ::
  "(pb_field list \<Rightarrow> nat \<Rightarrow> memory \<Rightarrow> memory) \<Rightarrow> pb_field_iter \<Rightarrow> memory \<Rightarrow> memory" where
  "release_submessages rec iter m =
     (let field = iter_pos iter; type = ptype field; data = nat (pData iter);
          item = (if PB_ATYPE type = PB_ATYPE_POINTER then load_ptr m data else data);
          static = (PB_ATYPE type = PB_ATYPE_STATIC);
          count = (if PB_HTYPE type = PB_HTYPE_REPEATED
                   then (let count = (if static \<and> pSize iter = pData iter then array_size field
                                      else load_size m (nat (pSize iter)))
                         in if static \<and> count > array_size field then array_size field else count)
                   else 1)
      in if item \<noteq> 0 then release_items (rec (sub_fields field)) (data_size field) count item m else m)"

definition pb_release_single_field ::
  "'s decode_env \<Rightarrow> (pb_field list \<Rightarrow> nat \<Rightarrow> memory \<Rightarrow> memory) \<Rightarrow> pb_field_iter \<Rightarrow> memory \<Rightarrow> memory" where
  "pb_release_single_field E rec iter m =
     (let field = iter_pos iter; type = ptype field; data = nat (pData iter); size_at = nat (pSize iter)
      in if PB_HTYPE type = PB_HTYPE_ONEOF \<and> load_size m size_at \<noteq> tag field then m
         else let m = (if PB_LTYPE type = PB_LTYPE_EXTENSION then env_release_extension E (load_ptr m data) m
                       else if PB_LTYPE type = PB_LTYPE_SUBMESSAGE then release_submessages rec iter m
                       else m)
              in if PB_ATYPE type = PB_ATYPE_POINTER
                 then (let m = (if PB_HTYPE type = PB_HTYPE_REPEATED
                                   \<and> (PB_LTYPE type = PB_LTYPE_STRING \<or> PB_LTYPE type = PB_LTYPE_BYTES)
                                then release_items (\<lambda>p m. store_ptr p 0 (env_free E (load_ptr m p) m)) 8
                                       (load_size m size_at) (load_ptr m data) m
                                else m);
                           m = (if PB_HTYPE type = PB_HTYPE_REPEATED then store_size size_at 0 m else m)
                       in store_ptr data 0 (env_free E (load_ptr m data) m))
                 else m)"

definition message_release ::
  "'s decode_env \<Rightarrow> (pb_field list \<Rightarrow> nat \<Rightarrow> memory \<Rightarrow> memory) \<Rightarrow> pb_field list \<Rightarrow> nat \<Rightarrow> memory \<Rightarrow> memory" where
  "message_release E rec fs dest m =
     (if dest = 0 then m
      else (case pb_field_iter_begin fs (int dest) of
              (False, _) \<Rightarrow> m
            | (True, iter) \<Rightarrow> snd (fields_loop (\<lambda>iter m. (True, pb_release_single_field E rec iter m)) iter m)))"

primrec release_n :: "'s decode_env \<Rightarrow> nat \<Rightarrow> pb_field list \<Rightarrow> nat \<Rightarrow> memory \<Rightarrow> memory" where
  "release_n E 0 = message_release E (\<lambda>_ _ m. m)"
| "release_n E (Suc d) = message_release E (release_n E d)"

definition pb_release :: "'s decode_env \<Rightarrow> pb_field list \<Rightarrow> nat \<Rightarrow> memory \<Rightarrow> memory" where
  "pb_release E fs = release_n E (message_depth fs) fs"

text \<open>The iterator is moved to the old field of the union and back.\<close>

definition pb_release_union_field ::
  "'s decode_env \<Rightarrow> pb_field_iter \<Rightarrow> 's dstate \<Rightarrow> (bool \<times> pb_field_iter \<times> 's dstate) option" where
  "pb_release_union_field E iter st =
     (let old_tag = load_size (fst st) (nat (pSize iter)); new_tag = tag (iter_pos iter);
          fail = (\<lambda>msg iter st. case pb_derror msg st of (status, st) \<Rightarrow> Some (status, iter, st))
      in if old_tag = 0 \<or> old_tag = new_tag then Some (True, iter, st)
         else (case pb_field_iter_find old_tag iter of
                 None \<Rightarrow> None
               | Some (False, iter) \<Rightarrow> fail ''invalid union tag'' iter st
               | Some (True, iter) \<Rightarrow>
                   let st = (pb_release_single_field E (pb_release E) iter (fst st), snd st)
                   in (case pb_field_iter_find new_tag iter of
                         None \<Rightarrow> None
                       | Some (False, iter) \<Rightarrow> fail ''iterator error'' iter st
                       | Some (True, iter) \<Rightarrow> Some (True, iter, st))))"

section \<open>Static fields\<close>

text \<open>
  \<open>dec\<close> decodes a submessage: after setting the defaults (\<^verbatim>\<open>pb_decode\<close>) or without
  (\<^verbatim>\<open>pb_decode_noinit\<close>).
\<close>

type_synonym 's message_decoder = "bool \<Rightarrow> pb_field list \<Rightarrow> nat \<Rightarrow> 's dstate \<Rightarrow> 's d_result"

definition pb_dec_submessage :: "'s message_decoder \<Rightarrow> pb_field \<Rightarrow> nat \<Rightarrow> 's dstate \<Rightarrow> 's d_result" where
  "pb_dec_submessage dec field dest st =
     (case pb_make_string_substream (snd st) of
        (None, stream) \<Rightarrow> Some (False, fst st, stream)
      | (Some substream, stream) \<Rightarrow>
          if ptr field = Null_ptr then Some (pb_derror ''invalid field descriptor'' (fst st, stream))
          else (case dec (PB_HTYPE (ptype field) = PB_HTYPE_REPEATED) (sub_fields field) dest (fst st, substream) of
                  None \<Rightarrow> None
                | Some (status, m, substream) \<Rightarrow> Some (close_with status m substream stream)))"

text \<open>\<^verbatim>\<open>PB_DECODERS[PB_LTYPE(type)]\<close>; extensions have none, and their fields are not decoded with it.\<close>

definition PB_DECODERS :: "'s decode_env \<Rightarrow> 's message_decoder \<Rightarrow> pb_field \<Rightarrow> nat \<Rightarrow> 's dstate \<Rightarrow> 's d_result" where
  "PB_DECODERS E dec field dest st =
     (let type = ptype field; ltype = PB_LTYPE type; n = data_size field
      in if ltype \<le> PB_LTYPE_LAST_PACKABLE then Some (packable_decoder ltype n dest st)
         else if ltype = PB_LTYPE_BYTES then Some (pb_dec_bytes (env_realloc E) type n dest st)
         else if ltype = PB_LTYPE_STRING then Some (pb_dec_string (env_realloc E) type n dest st)
         else if ltype = PB_LTYPE_SUBMESSAGE then pb_dec_submessage dec field dest st
         else Some (pb_dec_fixed_length_bytes n dest st))"

text \<open>
  The entries of a packed array, on its substream: \<open>size_at\<close> is the address of the count, which goes up
  with every entry.
\<close>

partial_function (option) packed_entries ::
  "(nat \<Rightarrow> 's dstate \<Rightarrow> 's d_result) \<Rightarrow> pb_field \<Rightarrow> nat \<Rightarrow> nat \<Rightarrow> 's dstate \<Rightarrow> 's d_result" where
  "packed_entries func field data size_at st =
     (let n = load_size (fst st) size_at
      in if bytes_left (snd st) > 0 \<and> n < array_size field
         then (case func (data + data_size field * n) st of
                 None \<Rightarrow> None
               | Some (status, m, substream) \<Rightarrow>
                   if status
                   then packed_entries func field data size_at (store_size size_at (load_size m size_at + 1) m, substream)
                   else Some (False, m, substream))
         else Some (True, st))"

definition decode_static_field ::
  "'s decode_env \<Rightarrow> 's message_decoder \<Rightarrow> nat \<Rightarrow> pb_field_iter \<Rightarrow> 's dstate \<Rightarrow> 's d_result" where
  "decode_static_field E dec wire_type iter st =
     (let field = iter_pos iter; type = ptype field; func = PB_DECODERS E dec field;
          data = nat (pData iter); size_at = nat (pSize iter); m = fst st; stream = snd st
      in if PB_HTYPE type = PB_HTYPE_REQUIRED then func data st
         else if PB_HTYPE type = PB_HTYPE_OPTIONAL
         then func data (if pSize iter \<noteq> pData iter then store_bool size_at True m else m, stream)
         else if PB_HTYPE type = PB_HTYPE_REPEATED
         then (if wire_type = PB_WT_STRING \<and> PB_LTYPE type \<le> PB_LTYPE_LAST_PACKABLE
               then (case pb_make_string_substream stream of
                       (None, stream) \<Rightarrow> Some (False, m, stream)
                     | (Some substream, stream) \<Rightarrow>
                         (case packed_entries func field data size_at (m, substream) of
                            None \<Rightarrow> None
                          | Some (status, m, substream) \<Rightarrow>
                              if bytes_left substream \<noteq> 0 then Some (pb_derror ''array overflow'' (m, stream))
                              else Some (close_with status m substream stream)))
               else let n = load_size m size_at; st = (store_size size_at (n + 1) m, stream)
                    in if n \<ge> array_size field then Some (pb_derror ''array overflow'' st)
                       else func (data + data_size field * n) st)
         else let m = store_size size_at (tag field) m;
                  m = (if PB_LTYPE type = PB_LTYPE_SUBMESSAGE
                       then pb_message_set_to_defaults E (sub_fields field) data (blit m data (replicate (data_size field) 0))
                       else m)
              in func data (m, stream))"

section \<open>Pointer fields\<close>

definition initialize_pointer_field :: "'s decode_env \<Rightarrow> nat \<Rightarrow> pb_field_iter \<Rightarrow> memory \<Rightarrow> memory" where
  "initialize_pointer_field E item iter m =
     (let field = iter_pos iter; ltype = PB_LTYPE (ptype field)
      in if ltype = PB_LTYPE_STRING \<or> ltype = PB_LTYPE_BYTES then store_ptr item 0 m
         else if ltype = PB_LTYPE_SUBMESSAGE
         then pb_message_set_to_defaults E (sub_fields field) item (blit m item (replicate (data_size field) 0))
         else m)"

text \<open>\<open>sz\<close> is \<^verbatim>\<open>allocated_size\<close>. The message about too many entries goes to the outer stream.\<close>

partial_function (option) pointer_entries ::
  "'s decode_env \<Rightarrow> (nat \<Rightarrow> 's dstate \<Rightarrow> 's d_result) \<Rightarrow> pb_field_iter \<Rightarrow> nat \<Rightarrow> 's pb_istream \<Rightarrow> 's dstate
     \<Rightarrow> (bool \<times> 's pb_istream \<times> 's dstate) option" where
  "pointer_entries E func iter sz stream st =
     (let data = nat (pData iter); size_at = nat (pSize iter); ds = data_size (iter_pos iter);
          m = fst st; substream = snd st; n = load_size m size_at;
          grow = (n + 1 > sz);
          sz = (if grow then size_add sz ((bytes_left substream - 1) div ds + 1) else sz)
      in if bytes_left substream = 0 then Some (True, stream, st)
         else (case if grow then allocate_field (env_realloc E) ds sz data st else (True, st) of
                 (ok, m, substream) \<Rightarrow>
                   if \<not> ok then Some (False, stream, m, substream)
                   else let item = load_ptr m data + ds * load_size m size_at
                        in (case func item (initialize_pointer_field E item iter m, substream) of
                              None \<Rightarrow> None
                            | Some (status, m, substream) \<Rightarrow>
                                if \<not> status then Some (False, stream, m, substream)
                                else if load_size m size_at = PB_SIZE_MAX
                                then Some (False, stream\<lparr>ierrmsg := Some ''too many array entries''\<rparr>, m, substream)
                                else pointer_entries E func iter sz stream
                                       (store_size size_at (load_size m size_at + 1) m, substream))))"

definition decode_pointer_field ::
  "'s decode_env \<Rightarrow> 's message_decoder \<Rightarrow> nat \<Rightarrow> pb_field_iter \<Rightarrow> 's dstate \<Rightarrow> 's d_result" where
  "decode_pointer_field E dec wire_type iter st =
     (let field = iter_pos iter; type = ptype field; ltype = PB_LTYPE type; func = PB_DECODERS E dec field;
          data = nat (pData iter); size_at = nat (pSize iter); m = fst st; stream = snd st; ds = data_size field
      in if PB_HTYPE type \<noteq> PB_HTYPE_REPEATED
         then (let m = (if ltype = PB_LTYPE_SUBMESSAGE \<and> load_ptr m data \<noteq> 0
                        then pb_release_single_field E (pb_release E) iter m else m);
                   m = (if PB_HTYPE type = PB_HTYPE_ONEOF then store_size size_at (tag field) m else m)
               in if ltype = PB_LTYPE_STRING \<or> ltype = PB_LTYPE_BYTES then func data (m, stream)
                  else (case allocate_field (env_realloc E) ds 1 data (m, stream) of
                          (False, st) \<Rightarrow> Some (False, st)
                        | (True, m, stream) \<Rightarrow>
                            func (load_ptr m data) (initialize_pointer_field E (load_ptr m data) iter m, stream)))
         else if wire_type = PB_WT_STRING \<and> ltype \<le> PB_LTYPE_LAST_PACKABLE
         then (case pb_make_string_substream stream of
                 (None, stream) \<Rightarrow> Some (False, m, stream)
               | (Some substream, stream) \<Rightarrow>
                   (case pointer_entries E func iter (load_size m size_at) stream (m, substream) of
                      None \<Rightarrow> None
                    | Some (status, stream, m, substream) \<Rightarrow> Some (close_with status m substream stream)))
         else if load_size m size_at = PB_SIZE_MAX then Some (pb_derror ''too many array entries'' st)
         else let n = load_size m size_at; m = store_size size_at (n + 1) m
              in (case allocate_field (env_realloc E) ds (n + 1) data (m, stream) of
                    (False, st) \<Rightarrow> Some (False, st)
                  | (True, m, stream) \<Rightarrow>
                      let item = load_ptr m data + ds * (load_size m size_at - 1)
                      in func item (initialize_pointer_field E item iter m, stream)))"

section \<open>Callback fields\<close>

text \<open>\<^verbatim>\<open>do { ... } while (substream.bytes_left)\<close>: the callback has to consume the substream.\<close>

partial_function (option) callback_calls :: "('s dstate \<Rightarrow> 's d_result) \<Rightarrow> 's dstate \<Rightarrow> 's d_result" where
  "callback_calls f st =
     (case f st of
        None \<Rightarrow> None
      | Some (status, st) \<Rightarrow>
          if status \<and> bytes_left (snd st) \<noteq> 0 then callback_calls f st else Some (status, st))"

definition decode_callback_field ::
  "'s decode_env \<Rightarrow> nat \<Rightarrow> pb_field_iter \<Rightarrow> 's dstate \<Rightarrow> 's d_result" where
  "decode_callback_field E wire_type iter st =
     (let data = nat (pData iter); m = fst st; stream = snd st;
          decode = (if data = 0 then 0 else load_ptr m data);
          call = env_decode_callback E decode (iter_pos iter) (data + 8)
      in if decode = 0 then read_then (pb_skip_field wire_type) (\<lambda>_ st. Some (True, st)) st
         else if wire_type = PB_WT_STRING
         then (case pb_make_string_substream stream of
                 (None, stream) \<Rightarrow> Some (False, m, stream)
               | (Some substream, stream) \<Rightarrow>
                   (case callback_calls call (m, substream) of
                      None \<Rightarrow> None
                    | Some (False, m, _) \<Rightarrow> Some (pb_derror ''callback failed'' (m, stream))
                    | Some (True, m, substream) \<Rightarrow> Some (close_with True m substream stream)))
         else (case read_raw_value wire_type 10 stream of
                 (None, stream) \<Rightarrow> Some (False, m, stream)
               | (Some buffer, stream) \<Rightarrow>
                   (case call (m, pb_istream_from_buffer buffer (length buffer)) of
                      None \<Rightarrow> None
                    | Some (status, m, _) \<Rightarrow> Some (status, m, stream))))"

section \<open>Fields\<close>

text \<open>The iterator is returned because the release of a union moves it.\<close>

definition decode_field ::
  "'s decode_env \<Rightarrow> 's message_decoder \<Rightarrow> nat \<Rightarrow> pb_field_iter \<Rightarrow> 's dstate
     \<Rightarrow> (bool \<times> pb_field_iter \<times> 's dstate) option" where
  "decode_field E dec wire_type iter st =
     (case (if PB_HTYPE (ptype (iter_pos iter)) = PB_HTYPE_ONEOF then pb_release_union_field E iter st
            else Some (True, iter, st)) of
        None \<Rightarrow> None
      | Some (False, iter, st) \<Rightarrow> Some (False, iter, st)
      | Some (True, iter, st) \<Rightarrow>
          map_option (\<lambda>(status, st). (status, iter, st))
            (let atype = PB_ATYPE (ptype (iter_pos iter))
             in if atype = PB_ATYPE_STATIC then decode_static_field E dec wire_type iter st
                else if atype = PB_ATYPE_POINTER then decode_pointer_field E dec wire_type iter st
                else if atype = PB_ATYPE_CALLBACK then decode_callback_field E wire_type iter st
                else Some (pb_derror ''invalid field type'' st)))"

section \<open>The loop over the fields of a message\<close>

text \<open>
  The local variables of \<^verbatim>\<open>pb_decode_noinit\<close>. \<open>fixed\<close> is the position of \<^verbatim>\<open>fixed_count_field\<close>, and
  \<^verbatim>\<open>fixed_count_size\<close> is in memory at the address \<open>slot\<close>; it is only looked at when there is such a
  field, after it has been set.
\<close>

record decode_locals =
  cur :: pb_field_iter
  fields_seen :: "u32 list"
  extension_range_start :: u32
  fixed :: "nat option"

definition PB_MAX_REQUIRED_FIELDS :: nat where "PB_MAX_REQUIRED_FIELDS = 64"

partial_function (option) find_extension_loop :: "nat \<Rightarrow> pb_field_iter \<Rightarrow> (bool \<times> pb_field_iter) option" where
  "find_extension_loop begin_pos it =
     (if PB_LTYPE (ptype (iter_pos it)) = PB_LTYPE_EXTENSION then Some (True, it)
      else let it = snd (pb_field_iter_next it)
           in if pos it \<noteq> begin_pos then find_extension_loop begin_pos it else Some (False, it))"

definition find_extension_field :: "pb_field_iter \<Rightarrow> (bool \<times> pb_field_iter) option" where
  "find_extension_field it = find_extension_loop (pos it) it"

text \<open>A tag without a field of the message: an extension, or skipped.\<close>

definition decode_unknown ::
  "'s decode_env \<Rightarrow> nat \<Rightarrow> u32 \<Rightarrow> decode_locals \<Rightarrow> 's dstate \<Rightarrow> (bool \<times> decode_locals \<times> 's dstate) option" where
  "decode_unknown E wire_type t L st =
     (let skip = (\<lambda>L st. case pb_skip_field wire_type (snd st) of
                           (None, stream) \<Rightarrow> Some (False, L, fst st, stream)
                         | (Some _, stream) \<Rightarrow> Some (True, L, fst st, stream))
      in if t \<ge> extension_range_start L
         then (case find_extension_field (cur L) of
                 None \<Rightarrow> None
               | Some (found, it) \<Rightarrow>
                   let L = L\<lparr>cur := it, extension_range_start := (if found then of_nat (tag (iter_pos it)) else - 1)\<rparr>
                   in if t \<ge> extension_range_start L
                      then (case env_decode_extension E (load_ptr (fst st) (nat (pData it))) t wire_type st of
                              None \<Rightarrow> None
                            | Some (False, st) \<Rightarrow> Some (False, L, st)
                            | Some (True, st') \<Rightarrow>
                                if bytes_left (snd st') \<noteq> bytes_left (snd st) then Some (True, L, st') else skip L st')
                      else skip L st)
         else skip L st)"

text \<open>The count of an array of fixed size is kept in the local variable.\<close>

definition select_count ::
  "nat \<Rightarrow> decode_locals \<Rightarrow> 's dstate \<Rightarrow> bool \<times> decode_locals \<times> 's dstate" where
  "select_count slot L st =
     (let it = cur L
      in if PB_HTYPE (ptype (iter_pos it)) = PB_HTYPE_REPEATED \<and> pSize it = pData it
         then (let L' = L\<lparr>cur := it\<lparr>pSize := int slot\<rparr>\<rparr>
               in if fixed L = Some (pos it) then (True, L', st)
                  else (case fixed L of
                          Some i \<Rightarrow>
                            if load_size (fst st) slot \<noteq> array_size (field_at (start it) i)
                            then (case pb_derror ''wrong size for fixed count field'' st of (_, st) \<Rightarrow> (False, L, st))
                            else (True, L'\<lparr>fixed := Some (pos it)\<rparr>, store_size slot 0 (fst st), snd st)
                        | None \<Rightarrow> (True, L'\<lparr>fixed := Some (pos it)\<rparr>, store_size slot 0 (fst st), snd st)))
         else (True, L, st))"

definition mark_required :: "decode_locals \<Rightarrow> decode_locals" where
  "mark_required L =
     (let i = required_field_index (cur L)
      in if PB_HTYPE (ptype (iter_pos (cur L))) = PB_HTYPE_REQUIRED \<and> i < PB_MAX_REQUIRED_FIELDS
         then L\<lparr>fields_seen := (fields_seen L)[i div 32 := fields_seen L ! (i div 32) OR push_bit (i mod 32) 1]\<rparr>
         else L)"

text \<open>One field, after its tag.\<close>

definition decode_one ::
  "'s decode_env \<Rightarrow> 's message_decoder \<Rightarrow> nat \<Rightarrow> nat \<Rightarrow> u32 \<Rightarrow> decode_locals \<Rightarrow> 's dstate
     \<Rightarrow> (bool \<times> decode_locals \<times> 's dstate) option" where
  "decode_one E dec slot wire_type t L st =
     (case pb_field_iter_find (unat t) (cur L) of
        None \<Rightarrow> None
      | Some (found, it) \<Rightarrow>
          let L = L\<lparr>cur := it\<rparr>
          in if \<not> found then decode_unknown E wire_type t L st
             else (case select_count slot L st of
                     (ok, L, st) \<Rightarrow>
                       if \<not> ok then Some (False, L, st)
                       else let L = mark_required L
                            in map_option (\<lambda>(status, it, st). (status, L\<lparr>cur := it\<rparr>, st))
                                 (decode_field E dec wire_type (cur L) st)))"

partial_function (option) decode_loop ::
  "'s decode_env \<Rightarrow> 's message_decoder \<Rightarrow> nat \<Rightarrow> decode_locals \<Rightarrow> 's dstate \<Rightarrow> (bool \<times> decode_locals \<times> 's dstate) option" where
  "decode_loop E dec slot L st =
     (if bytes_left (snd st) = 0 then Some (True, L, st)
      else (case pb_decode_tag (snd st) of
              (r, eof, stream) \<Rightarrow>
                (case r of
                   None \<Rightarrow> Some (eof, L, fst st, stream)
                 | Some (wire_type, t) \<Rightarrow>
                     (case decode_one E dec slot wire_type t L (fst st, stream) of
                        None \<Rightarrow> None
                      | Some (status, L, st) \<Rightarrow>
                          if status then decode_loop E dec slot L st else Some (False, L, st)))))"

section \<open>The checks at the end\<close>

text \<open>
  The loop to the end of the field array: the index of required fields and the type at the last field,
  and the iterator back at the beginning.
\<close>

function last_required :: "pb_field_iter \<Rightarrow> nat \<times> pb_type \<times> pb_field_iter" where
  "last_required it =
     (case pb_field_iter_next it of
        (True, it') \<Rightarrow> last_required it'
      | (False, it') \<Rightarrow> (required_field_index it, ptype (iter_pos it), it'))"
  by pat_completeness auto
termination
  by (relation "measure (\<lambda>it. length (start it) - pos it)") (use next_advances [OF sym] in fastforce)+

declare last_required.simps [simp del]

definition required_count :: "pb_field_iter \<Rightarrow> nat" where
  "required_count it =
     (case last_required it of
        (n, last_type, it) \<Rightarrow>
          let n = (if PB_HTYPE last_type = PB_HTYPE_REQUIRED \<and> tag (iter_pos it) \<noteq> 0 then n + 1 else n)
          in if n > PB_MAX_REQUIRED_FIELDS then PB_MAX_REQUIRED_FIELDS else n)"

definition all_seen :: "nat \<Rightarrow> u32 list \<Rightarrow> bool" where
  "all_seen n seen \<longleftrightarrow>
     (\<forall>i \<in> set [0..<n div 32]. seen ! i = - 1)
     \<and> (n mod 32 \<noteq> 0 \<longrightarrow> seen ! (n div 32) = drop_bit (32 - n mod 32) (- 1))"

section \<open>Messages\<close>

definition decode_noinit :: "'s decode_env \<Rightarrow> 's message_decoder \<Rightarrow> nat \<Rightarrow> pb_field list \<Rightarrow> nat \<Rightarrow> 's dstate \<Rightarrow> 's d_result" where
  "decode_noinit E dec slot fs dest st =
     (case decode_loop E dec slot
             \<lparr>cur = snd (pb_field_iter_begin fs (int dest)), fields_seen = [0, 0], extension_range_start = 0, fixed = None\<rparr> st of
        None \<Rightarrow> None
      | Some (False, L, st) \<Rightarrow> Some (False, st)
      | Some (True, L, st) \<Rightarrow>
          if (case fixed L of None \<Rightarrow> False | Some i \<Rightarrow> load_size (fst st) slot \<noteq> array_size (field_at fs i))
          then Some (pb_derror ''wrong size for fixed count field'' st)
          else if \<not> all_seen (required_count (cur L)) (fields_seen L)
          then Some (pb_derror ''missing required field'' st)
          else Some (True, st))"

definition decode_init ::
  "'s decode_env \<Rightarrow> (pb_field list \<Rightarrow> nat \<Rightarrow> 's dstate \<Rightarrow> 's d_result) \<Rightarrow> pb_field list \<Rightarrow> nat \<Rightarrow> 's dstate \<Rightarrow> 's d_result" where
  "decode_init E noinit fs dest st =
     (case noinit fs dest (pb_message_set_to_defaults E fs dest (fst st), snd st) of
        None \<Rightarrow> None
      | Some (status, m, stream) \<Rightarrow> Some (status, if status then m else pb_release E fs dest m, stream))"

text \<open>
  The nesting of the descriptions bounds the recursion: at the innermost level no submessage has a
  description.
\<close>

primrec decode_at :: "'s decode_env \<Rightarrow> nat \<Rightarrow> pb_field list \<Rightarrow> nat \<Rightarrow> 's dstate \<Rightarrow> 's d_result" where
  "decode_at E 0 = decode_noinit E (\<lambda>_ _ _ _. None) (env_slot E 0)"
| "decode_at E (Suc d) =
     decode_noinit E (\<lambda>init fs. if init then decode_init E (decode_at E d) fs else decode_at E d fs) (env_slot E (Suc d))"

definition pb_decode_noinit :: "'s decode_env \<Rightarrow> pb_field list \<Rightarrow> nat \<Rightarrow> 's dstate \<Rightarrow> 's d_result" where
  "pb_decode_noinit E fs = decode_at E (message_depth fs) fs"

definition pb_decode :: "'s decode_env \<Rightarrow> pb_field list \<Rightarrow> nat \<Rightarrow> 's dstate \<Rightarrow> 's d_result" where
  "pb_decode E fs = decode_init E (pb_decode_noinit E) fs"

text \<open>The two delimited variants.\<close>

definition delimited :: "(pb_field list \<Rightarrow> nat \<Rightarrow> 's dstate \<Rightarrow> 's d_result) \<Rightarrow> pb_field list \<Rightarrow> nat \<Rightarrow> 's dstate \<Rightarrow> 's d_result" where
  "delimited decode fs dest st =
     (case pb_make_string_substream (snd st) of
        (None, stream) \<Rightarrow> Some (False, fst st, stream)
      | (Some substream, stream) \<Rightarrow>
          (case decode fs dest (fst st, substream) of
             None \<Rightarrow> None
           | Some (status, m, substream) \<Rightarrow> Some (close_with status m substream stream)))"

definition pb_decode_delimited_noinit :: "'s decode_env \<Rightarrow> pb_field list \<Rightarrow> nat \<Rightarrow> 's dstate \<Rightarrow> 's d_result" where
  "pb_decode_delimited_noinit E = delimited (pb_decode_noinit E)"

definition pb_decode_delimited :: "'s decode_env \<Rightarrow> pb_field list \<Rightarrow> nat \<Rightarrow> 's dstate \<Rightarrow> 's d_result" where
  "pb_decode_delimited E = delimited (pb_decode E)"

definition pb_decode_nullterminated :: "'s decode_env \<Rightarrow> pb_field list \<Rightarrow> nat \<Rightarrow> 's dstate \<Rightarrow> 's d_result" where
  "pb_decode_nullterminated E = pb_decode E"

end
