(* ===== verification/PbEncodeRec.thy ===== *)
theory PbEncodeRec
  imports PbEncode
begin

text \<open>
  The recursion of the encoder is the one of the C code: \<open>pb_encode\<close> is \<open>encode_message\<close> with itself for
  the submessages.
\<close>

lemma fields_loop_cong:
  assumes "\<And>i st. start i = start iter \<Longrightarrow> pos i < length (start iter) \<Longrightarrow> body i st = body' i st"
    and "pos iter < length (start iter)"
  shows "fields_loop body iter st = fields_loop body' iter st"
  using assms
proof (induction body iter st rule: fields_loop.induct)
  case (1 body iter st)
  have b: "body iter st = body' iter st" using "1.prems" by simp
  have "fields_loop body iter' st1 = fields_loop body' iter' st1"
    if s: "body iter st = (True, st1)" and n: "pb_field_iter_next iter = (True, iter')" for st1 iter'
    using "1.IH" [OF s [symmetric] refl n [symmetric] refl] next_advances [OF n] "1.prems"(1) by simp
  then show ?case
    by (simp add: fields_loop.simps [of body] fields_loop.simps [of body'] flip: b split: prod.split bool.split)
qed

lemma iter_pos_in: "pos iter < length (start iter) \<Longrightarrow> iter_pos iter \<in> set (start iter)"
  by (simp add: iter_pos_def field_at_def)

lemma begin_True:
  assumes "pb_field_iter_begin fs dest = (True, iter)"
  shows "start iter = fs" and "pos iter < length fs"
proof -
  have "fs \<noteq> []" using assms by (auto simp: pb_field_iter_begin_def field_at_def PB_LAST_FIELD_def Let_def)
  then show "start iter = fs" "pos iter < length fs"
    using assms by (auto simp: pb_field_iter_begin_def Let_def)
qed

lemma encode_message_cong:
  assumes "\<And>f. f \<in> set fs \<Longrightarrow> sub (sub_fields f) = sub' (sub_fields f)"
  shows "encode_message E sub m fs = encode_message E sub' m fs"
proof (intro ext)
  fix src and stream :: "'a pb_ostream"
  obtain ok iter where b: "pb_field_iter_begin fs (int src) = (ok, iter)" by (rule prod.exhaust)
  have f: "encode_field E sub m f = encode_field E sub' m f" if "f \<in> set fs" for f
  proof -
    have "pb_encode_submessage sub (sub_fields f) = pb_encode_submessage sub' (sub_fields f)"
      by (intro ext) (unfold pb_encode_submessage_def assms [OF that], rule refl)
    then have "PB_ENCODERS sub m f = PB_ENCODERS sub' m f"
      by (intro ext) (simp add: PB_ENCODERS_def Let_def pb_enc_submessage_def)
    then show ?thesis by (intro ext) (simp add: encode_field_def encode_basic_field_def Let_def)
  qed
  show "encode_message E sub m fs src stream = encode_message E sub' m fs src stream"
  proof (cases ok)
    case True
    with b have b: "pb_field_iter_begin fs (int src) = (True, iter)" by simp
    note s = begin_True [OF b]
    have "encode_field E sub m (iter_pos i) = encode_field E sub' m (iter_pos i)"
      if "start i = start iter" "pos i < length (start iter)" for i
      using f [of "iter_pos i"] iter_pos_in [of i] that s by simp
    then show ?thesis using s by (auto simp: encode_message_def b intro!: fields_loop_cong)
  qed (simp add: encode_message_def b)
qed

lemma foldr_max_le: "foldr max xs (0 :: nat) \<le> n \<longleftrightarrow> (\<forall>x \<in> set xs. x \<le> n)"
  by (induction xs) auto

lemma sub_fields_depth:
  assumes "message_depth fs \<le> d" and "f \<in> set fs"
  shows "sub_fields f = [] \<or> (0 < d \<and> message_depth (sub_fields f) \<le> d - 1)"
proof -
  have "field_depth f \<le> d" using assms by (auto simp: message_depth_def foldr_max_le)
  then show ?thesis by (cases f; cases "ptr f") (auto simp: sub_fields_def message_depth_def split: pb_ptr.splits)
qed

lemma message_depth_Nil [simp]: "message_depth [] = 0"
  by (simp add: message_depth_def)

lemma encode_nothing [simp]: "encode_n E m d [] = (\<lambda>src stream. (True, stream))"
proof -
  have "encode_message E sub m [] = (\<lambda>src stream. (True, stream))" for sub
    by (intro ext) (simp add: encode_message_def pb_field_iter_begin_def field_at_def PB_LAST_FIELD_def Let_def)
  then show ?thesis by (cases d) simp_all
qed

lemma encode_n_depth:
  "message_depth fs \<le> d \<Longrightarrow> message_depth fs \<le> d' \<Longrightarrow> encode_n E m d fs = encode_n E m d' fs"
proof (induction d arbitrary: d' fs)
  case 0
  show ?case
  proof (cases d')
    case (Suc e)
    then show ?thesis using sub_fields_depth [OF 0(1)] by (auto intro!: encode_message_cong)
  qed simp
next
  case (Suc d)
  have S: "sub_fields f = [] \<or> message_depth (sub_fields f) \<le> d" if "f \<in> set fs" for f
    using sub_fields_depth [OF Suc.prems(1) that] by auto
  show ?case
  proof (cases d')
    case 0
    then show ?thesis using sub_fields_depth [of fs 0] Suc.prems(2) by (auto intro!: encode_message_cong)
  next
    case (Suc e)
    have "encode_n E m d (sub_fields f) = encode_n E m e (sub_fields f)" if "f \<in> set fs" for f
      using S [OF that] sub_fields_depth [OF Suc.prems(2) that] Suc Suc.IH [of "sub_fields f" e] by auto
    then show ?thesis using Suc by (auto intro!: encode_message_cong)
  qed
qed

lemma pb_encode_unfold: "pb_encode E m fs = encode_message E (pb_encode E m) m fs"
proof -
  have "encode_n E m (Suc (message_depth fs)) fs = encode_message E (pb_encode E m) m fs"
    unfolding encode_n.simps
  proof (rule encode_message_cong)
    fix f assume "f \<in> set fs"
    then show "encode_n E m (message_depth fs) (sub_fields f) = pb_encode E m (sub_fields f)"
      using sub_fields_depth [OF order_refl, of f fs] by (auto simp: pb_encode_def intro!: encode_n_depth)
  qed
  then show ?thesis using encode_n_depth [of fs "message_depth fs" "Suc (message_depth fs)" E m] by (simp add: pb_encode_def)
qed

end
