(* ===== verification/PbCodec.thy ===== *)
theory PbCodec
  imports PbWire Codec
begin

text \<open>
  The contracts of stream callbacks (\<open>byte_sink\<close>, \<open>byte_source\<close>) and what the stream operations do on
  any stream that keeps them: \<open>emits f bs\<close> says that \<open>f\<close> writes exactly \<open>bs\<close>, and \<open>parses d p\<close> that
  \<open>d\<close> reads what the function \<open>p\<close> on byte strings takes off the front of the remaining input.
\<close>

section \<open>Output\<close>

text \<open>
  \<open>out\<close> is what has been written to a state and \<open>room\<close> how much more it takes. A stream is ready when
  its limit respects the room.
\<close>

definition sink_ready :: "(u8 list \<Rightarrow> 's \<Rightarrow> bool \<times> 's) \<Rightarrow> ('s \<Rightarrow> nat) \<Rightarrow> 's pb_ostream \<Rightarrow> bool" where
  "sink_ready write room st \<longleftrightarrow>
     ocallback st = Some write \<and> bytes_written st \<le> max_size st \<and> max_size st < 2 ^ 63
     \<and> max_size st - bytes_written st \<le> room (ostate st) \<and> oerrmsg st = None"

text \<open>The state after the callback has been given the pieces \<open>cs\<close>.\<close>

definition feed :: "(u8 list \<Rightarrow> 's \<Rightarrow> bool \<times> 's) \<Rightarrow> u8 list list \<Rightarrow> 's \<Rightarrow> 's" where
  "feed write cs s = fold (\<lambda>b s. snd (write b s)) cs s"

text \<open>The stream after \<open>bs\<close> has been written to it in some pieces.\<close>

definition written ::
  "(u8 list \<Rightarrow> 's \<Rightarrow> bool \<times> 's) \<Rightarrow> ('s \<Rightarrow> u8 list) \<Rightarrow> ('s \<Rightarrow> nat) \<Rightarrow> u8 list \<Rightarrow> 's pb_ostream \<Rightarrow> 's pb_ostream \<Rightarrow> bool" where
  "written write out room bs st st' \<longleftrightarrow>
     (\<exists>cs s. concat cs = bs \<and> s = feed write cs (ostate st)
        \<and> st' = st\<lparr>ostate := s, bytes_written := bytes_written st + length bs\<rparr>
        \<and> out s = out (ostate st) @ bs \<and> room s = room (ostate st) - length bs)"

definition emits ::
  "(u8 list \<Rightarrow> 's \<Rightarrow> bool \<times> 's) \<Rightarrow> ('s \<Rightarrow> u8 list) \<Rightarrow> ('s \<Rightarrow> nat)
     \<Rightarrow> ('s pb_ostream \<Rightarrow> bool \<times> 's pb_ostream) \<Rightarrow> u8 list \<Rightarrow> bool" where
  "emits write out room f bs \<longleftrightarrow>
     (\<forall>st. sink_ready write room st \<longrightarrow>
        (if bytes_written st + length bs \<le> max_size st
         then \<exists>st'. f st = (True, st') \<and> written write out room bs st st'
         else \<not> fst (f st)))
     \<and> (\<forall>st. ocallback st = None \<and> bytes_written st < size_t_end \<longrightarrow> f st = (True, st\<lparr>bytes_written := size_add (bytes_written st) (length bs)\<rparr>))"

lemma size_add_add: "size_add (size_add a b) c = size_add a (b + c)"
  by (simp add: size_add_def mod_add_left_eq add.assoc)

lemma emitsD:
  assumes "emits write out room f bs"
  shows "sink_ready write room st \<Longrightarrow> bytes_written st + length bs \<le> max_size st \<Longrightarrow>
      \<exists>st'. f st = (True, st') \<and> written write out room bs st st'"
    and "sink_ready write room st \<Longrightarrow> max_size st < bytes_written st + length bs \<Longrightarrow> \<not> fst (f st)"
    and "ocallback st = None \<Longrightarrow> bytes_written st < size_t_end \<Longrightarrow>
      f st = (True, st\<lparr>bytes_written := size_add (bytes_written st) (length bs)\<rparr>)"
  using assms by (simp_all add: emits_def)

lemma emitsI:
  assumes "\<And>st. sink_ready write room st \<Longrightarrow> bytes_written st + length bs \<le> max_size st \<Longrightarrow>
      \<exists>st'. f st = (True, st') \<and> written write out room bs st st'"
    and "\<And>st. sink_ready write room st \<Longrightarrow> max_size st < bytes_written st + length bs \<Longrightarrow> \<not> fst (f st)"
    and "\<And>st. ocallback st = None \<Longrightarrow> bytes_written st < size_t_end \<Longrightarrow>
      f st = (True, st\<lparr>bytes_written := size_add (bytes_written st) (length bs)\<rparr>)"
  shows "emits write out room f bs"
  using assms by (auto simp: emits_def not_le)

lemma written_fields:
  assumes "written write out room bs st st'"
  shows "bytes_written st' = bytes_written st + length bs" and "max_size st' = max_size st"
    and "out (ostate st') = out (ostate st) @ bs"
  using assms by (auto simp: written_def)

lemma written_ready:
  assumes "written write out room bs st st'" and "sink_ready write room st"
    and "bytes_written st + length bs \<le> max_size st"
  shows "sink_ready write room st'"
  using assms diff_le_mono [of "max_size st - bytes_written st" "room (ostate st)" "length bs"]
  by (auto simp: sink_ready_def written_def)

lemma written_refl: "written write out room [] st st"
  unfolding written_def by (intro exI [of _ "[]"] exI [of _ "ostate st"]) (simp add: feed_def)

lemma written_trans:
  assumes "written write out room as st st1" and "written write out room bs st1 st2"
  shows "written write out room (as @ bs) st st2"
proof -
  from assms obtain cs ds where
    1: "concat cs = as" "st1 = st\<lparr>ostate := feed write cs (ostate st), bytes_written := bytes_written st + length as\<rparr>"
      "out (ostate st1) = out (ostate st) @ as" "room (ostate st1) = room (ostate st) - length as"
    and 2: "concat ds = bs" "st2 = st1\<lparr>ostate := feed write ds (ostate st1), bytes_written := bytes_written st1 + length bs\<rparr>"
      "out (ostate st2) = out (ostate st1) @ bs" "room (ostate st2) = room (ostate st1) - length bs"
    by (auto simp: written_def)
  have f: "feed write (cs @ ds) (ostate st) = feed write ds (feed write cs (ostate st))" by (simp add: feed_def)
  have "st2 = st\<lparr>ostate := feed write (cs @ ds) (ostate st), bytes_written := bytes_written st + length (as @ bs)\<rparr>"
    unfolding f using 1(2) 2(2) by (simp add: add.assoc)
  moreover have "concat (cs @ ds) = as @ bs" using 1(1) 2(1) by simp
  ultimately show ?thesis unfolding written_def using 1(3,4) 2(3,4)
    by (intro exI [of _ "cs @ ds"] exI [of _ "ostate st2"]) simp
qed

lemma emits_done: "emits write out room (\<lambda>st. (True, st)) []"
  by (rule emitsI) (auto simp: sink_ready_def size_add_def intro: written_refl)

lemma emits_both:
  fixes f :: "'s pb_ostream \<Rightarrow> bool \<times> 's pb_ostream"
  assumes f: "emits write out room f as" and g: "emits write out room g bs"
  shows "emits write out room (both f g) (as @ bs)"
proof (rule emitsI)
  fix st :: "'s pb_ostream"
  assume "ocallback st = None" "bytes_written st < size_t_end"
  then show "both f g st = (True, st\<lparr>bytes_written := size_add (bytes_written st) (length (as @ bs))\<rparr>)"
    using emitsD(3) [OF f] emitsD(3) [OF g] by (simp add: both_def size_add_add)
next
  fix st :: "'s pb_ostream"
  assume st: "sink_ready write room st" and fit: "bytes_written st + length (as @ bs) \<le> max_size st"
  from emitsD(1) [OF f st] fit obtain st1 where s: "f st = (True, st1)" "written write out room as st st1" by auto
  have "sink_ready write room st1" by (rule written_ready [OF s(2) st]) (use fit in simp)
  from emitsD(1) [OF g this] fit written_fields [OF s(2)] obtain st2 where
    "g st1 = (True, st2)" "written write out room bs st1 st2" by auto
  with s(1) written_trans [OF s(2)]
  show "\<exists>st'. both f g st = (True, st') \<and> written write out room (as @ bs) st st'" by (auto simp: both_def)
next
  fix st :: "'s pb_ostream"
  assume st: "sink_ready write room st" and fit: "max_size st < bytes_written st + length (as @ bs)"
  show "\<not> fst (both f g st)"
  proof (cases "max_size st < bytes_written st + length as")
    case True
    with emitsD(2) [OF f st] show ?thesis by (auto simp: both_def split: prod.splits bool.splits)
  next
    case False
    with emitsD(1) [OF f st] obtain st1 where s: "f st = (True, st1)" "written write out room as st st1" by auto
    have "sink_ready write room st1" by (rule written_ready [OF s(2) st]) (use False in simp)
    from emitsD(2) [OF g this] fit s(1) written_fields [OF s(2)] show ?thesis by (simp add: both_def)
  qed
qed

locale byte_sink =
  fixes "write" :: "u8 list \<Rightarrow> 's \<Rightarrow> bool \<times> 's"
    and out :: "'s \<Rightarrow> u8 list"
    and room :: "'s \<Rightarrow> nat"
  assumes write_appends: "length bs \<le> room s \<Longrightarrow>
    \<exists>s'. write bs s = (True, s') \<and> out s' = out s @ bs \<and> room s' = room s - length bs"
begin

lemma write_emits:
  assumes bs: "take count buf = bs" "length bs = count" and n: "count < 2 ^ 63"
  shows "emits write out room (pb_write buf count) bs"
proof (rule emitsI)
  fix st :: "'s pb_ostream"
  assume "ocallback st = None" "bytes_written st < size_t_end"
  then show "pb_write buf count st = (True, st\<lparr>bytes_written := size_add (bytes_written st) (length bs)\<rparr>)"
    using bs by (simp add: pb_write_def)
next
  fix st :: "'s pb_ostream"
  assume st: "sink_ready write room st" and fit: "bytes_written st + length bs \<le> max_size st"
  have sum: "size_add (bytes_written st) count = bytes_written st + count"
    using st n by (simp add: sink_ready_def size_add_def)
  have "length bs \<le> room (ostate st)" using st fit unfolding sink_ready_def by linarith
  from write_appends [OF this] obtain s' where
    "write bs (ostate st) = (True, s')" "out s' = out (ostate st) @ bs" "room s' = room (ostate st) - length bs" by blast
  moreover have "ocallback st = Some write" using st by (simp add: sink_ready_def)
  ultimately show "\<exists>st'. pb_write buf count st = (True, st') \<and> written write out room bs st st'"
    using fit bs by (auto simp: pb_write_def sum written_def feed_def intro!: exI [of _ "[bs]"])
next
  fix st :: "'s pb_ostream"
  assume st: "sink_ready write room st" and "max_size st < bytes_written st + length bs"
  moreover have "size_add (bytes_written st) count = bytes_written st + count"
    using st n by (simp add: sink_ready_def size_add_def)
  ultimately show "\<not> fst (pb_write buf count st)" using bs
    by (simp add: pb_write_def sink_ready_def pb_oerror_def)
qed

lemma write_all_emits: "length bs < 2 ^ 63 \<Longrightarrow> emits write out room (pb_write bs (length bs)) bs"
  by (rule write_emits) simp_all

end

text \<open>The memory buffer: what is before its pointer has been written.\<close>

definition buf_out :: "u8 list \<times> nat \<Rightarrow> u8 list" where
  "buf_out s = take (snd s) (fst s)"

definition buf_room :: "u8 list \<times> nat \<Rightarrow> nat" where
  "buf_room s = length (fst s) - snd s"

interpretation buffer: byte_sink buf_write buf_out buf_room
proof
  fix bs :: "u8 list" and s :: "u8 list \<times> nat"
  assume "length bs \<le> buf_room s"
  then show "\<exists>s'. buf_write bs s = (True, s') \<and> buf_out s' = buf_out s @ bs \<and> buf_room s' = buf_room s - length bs"
  proof (cases "bs = []")
    case False
    with \<open>length bs \<le> buf_room s\<close> have "snd s + length bs \<le> length (fst s)" "snd s \<le> length (fst s)"
      by (simp_all add: buf_room_def flip: length_greater_0_conv)
    then show ?thesis by (simp add: buf_write_def buf_out_def buf_room_def blit_simps)
  qed (simp add: buf_write_def buf_out_def buf_room_def)
qed

lemma blit_blit:
  assumes "off + (length a + length b) \<le> length d"
  shows "blit (blit d off a) (off + length a) b = blit d off (a @ b)"
proof -
  have "length (take off d) = off" using assms by simp
  moreover have "off + length a - off = length a" by simp
  ultimately show ?thesis by (simp add: blit_def ac_simps)
qed

lemma buffer_feed:
  "snd s + length (concat cs) \<le> length (fst s) \<Longrightarrow>
     feed buf_write cs s = (blit (fst s) (snd s) (concat cs), snd s + length (concat cs))"
proof (induction cs arbitrary: s)
  case Nil
  then show ?case by (simp add: feed_def)
next
  case (Cons c cs)
  let ?s = "snd (buf_write c s)"
  have "feed buf_write cs ?s = (blit (fst ?s) (snd ?s) (concat cs), snd ?s + length (concat cs))"
    by (rule Cons.IH) (use Cons.prems in \<open>simp add: buf_write_def\<close>)
  moreover have "blit (blit (fst s) (snd s) c) (snd s + length c) (concat cs) = blit (fst s) (snd s) (c @ concat cs)"
    using Cons.prems by (intro blit_blit) simp
  ultimately show ?case by (simp add: feed_def buf_write_def add.assoc)
qed

section \<open>Input\<close>

definition input_bytes :: "('s \<Rightarrow> u8 list) \<Rightarrow> 's pb_input \<Rightarrow> u8 list" where
  "input_bytes rest inp = (case inp of Buffer b \<Rightarrow> b | Source f s \<Rightarrow> rest s)"

definition source_ready :: "(nat \<Rightarrow> 's \<Rightarrow> u8 list option \<times> 's) \<Rightarrow> ('s \<Rightarrow> u8 list) \<Rightarrow> 's pb_istream \<Rightarrow> bool" where
  "source_ready f rest st \<longleftrightarrow>
     bytes_left st \<le> length (input_bytes rest (istate st))
     \<and> (case istate st of Buffer _ \<Rightarrow> True | Source g _ \<Rightarrow> g = f)"

text \<open>What is left of the stream.\<close>

definition stream_bytes :: "('s \<Rightarrow> u8 list) \<Rightarrow> 's pb_istream \<Rightarrow> u8 list" where
  "stream_bytes rest st = take (bytes_left st) (input_bytes rest (istate st))"

text \<open>\<open>n\<close> bytes have been read.\<close>

definition advanced :: "(nat \<Rightarrow> 's \<Rightarrow> u8 list option \<times> 's) \<Rightarrow> ('s \<Rightarrow> u8 list) \<Rightarrow> 's pb_istream \<Rightarrow> nat \<Rightarrow> 's pb_istream \<Rightarrow> bool" where
  "advanced f rest st n st' \<longleftrightarrow>
     n \<le> bytes_left st \<and> bytes_left st' = bytes_left st - n \<and> source_ready f rest st'
     \<and> input_bytes rest (istate st') = drop n (input_bytes rest (istate st)) \<and> ierrmsg st' = ierrmsg st"

definition parses ::
  "(nat \<Rightarrow> 's \<Rightarrow> u8 list option \<times> 's) \<Rightarrow> ('s \<Rightarrow> u8 list) \<Rightarrow> ('s pb_istream \<Rightarrow> 'a option \<times> 's pb_istream)
     \<Rightarrow> (u8 list \<Rightarrow> ('a \<times> u8 list) option) \<Rightarrow> bool" where
  "parses f rest d p \<longleftrightarrow>
     (\<forall>st. source_ready f rest st \<longrightarrow>
        (case p (stream_bytes rest st) of
           None \<Rightarrow> fst (d st) = None
         | Some (x, r) \<Rightarrow> \<exists>n st'. d st = (Some x, st') \<and> advanced f rest st n st' \<and> r = drop n (stream_bytes rest st)))"

lemma advanced_bytes: "advanced f rest st n st' \<Longrightarrow> stream_bytes rest st' = drop n (stream_bytes rest st)"
  by (simp add: advanced_def stream_bytes_def drop_take)

lemma advanced_trans: "advanced f rest st n st' \<Longrightarrow> advanced f rest st' m st'' \<Longrightarrow> advanced f rest st (n + m) st''"
  by (auto simp: advanced_def add.commute)

lemma advanced_refl: "source_ready f rest st \<Longrightarrow> advanced f rest st 0 st"
  by (simp add: advanced_def)

lemma stream_bytes_length: "source_ready f rest st \<Longrightarrow> length (stream_bytes rest st) = bytes_left st"
  by (simp add: source_ready_def stream_bytes_def)

lemma parsesI:
  assumes "\<And>st. source_ready f rest st \<Longrightarrow> p (stream_bytes rest st) = None \<Longrightarrow> fst (d st) = None"
    and "\<And>st x r. source_ready f rest st \<Longrightarrow> p (stream_bytes rest st) = Some (x, r) \<Longrightarrow>
      \<exists>n st'. d st = (Some x, st') \<and> advanced f rest st n st' \<and> r = drop n (stream_bytes rest st)"
  shows "parses f rest d p"
  using assms by (auto simp: parses_def split: option.splits)

lemma parsesD:
  assumes "parses f rest d p" and "source_ready f rest st"
  shows "p (stream_bytes rest st) = None \<Longrightarrow> fst (d st) = None"
    and "p (stream_bytes rest st) = Some (x, r) \<Longrightarrow>
      \<exists>n st'. d st = (Some x, st') \<and> advanced f rest st n st' \<and> r = drop n (stream_bytes rest st)
        \<and> source_ready f rest st' \<and> stream_bytes rest st' = r"
  using assms advanced_bytes by (fastforce simp: parses_def advanced_def)+

text \<open>Reference parsers in sequence.\<close>

definition p_then ::
  "(u8 list \<Rightarrow> ('a \<times> u8 list) option) \<Rightarrow> ('a \<Rightarrow> u8 list \<Rightarrow> ('b \<times> u8 list) option) \<Rightarrow> u8 list \<Rightarrow> ('b \<times> u8 list) option" where
  "p_then p q bs = (case p bs of None \<Rightarrow> None | Some (x, r) \<Rightarrow> q x r)"

definition p_return :: "'a \<Rightarrow> u8 list \<Rightarrow> ('a \<times> u8 list) option" where
  "p_return x bs = Some (x, bs)"

definition p_bytes :: "nat \<Rightarrow> u8 list \<Rightarrow> (u8 list \<times> u8 list) option" where
  "p_bytes n bs = (if n \<le> length bs then Some (take n bs, drop n bs) else None)"

lemma parses_return: "parses f rest (\<lambda>st. (Some x, st)) (p_return x)"
  by (rule parsesI) (auto simp: p_return_def intro: advanced_refl exI [of _ 0])

lemma parses_error: "parses f rest (pb_ierror msg) (\<lambda>_. None)"
  by (rule parsesI) (simp_all add: pb_ierror_def)

lemma parses_and_then:
  assumes d: "parses f rest d p" and e: "\<And>x. parses f rest (e x) (q x)"
  shows "parses f rest (and_then d e) (p_then p q)"
proof (rule parsesI)
  fix st
  assume st: "source_ready f rest st" and n: "p_then p q (stream_bytes rest st) = None"
  show "fst (and_then d e st) = None"
  proof (cases "p (stream_bytes rest st)")
    case None
    with parsesD(1) [OF d st] show ?thesis by (auto simp: and_then_def split: prod.splits option.splits)
  next
    case (Some a)
    obtain x r where a: "a = (x, r)" by (rule prod.exhaust)
    from parsesD(2) [OF d st Some [unfolded a]] obtain n st' where
      s: "d st = (Some x, st')" "source_ready f rest st'" "stream_bytes rest st' = r" by blast
    have "q x (stream_bytes rest st') = None" using n Some a s(3) by (simp add: p_then_def)
    from parsesD(1) [OF e s(2) this] s(1) show ?thesis by (simp add: and_then_def)
  qed
next
  fix st y t
  assume st: "source_ready f rest st" and t: "p_then p q (stream_bytes rest st) = Some (y, t)"
  then obtain x r where p: "p (stream_bytes rest st) = Some (x, r)" and q: "q x r = Some (y, t)"
    by (auto simp: p_then_def split: option.splits)
  from parsesD(2) [OF d st p] obtain n st' where
    s: "d st = (Some x, st')" "advanced f rest st n st'" "source_ready f rest st'" "stream_bytes rest st' = r" by blast
  from parsesD(2) [OF e s(3)] q s(4) obtain m st'' where
    u: "e x st' = (Some y, st'')" "advanced f rest st' m st''" "t = drop m r" by blast
  have "t = drop (n + m) (stream_bytes rest st)" using u(3) s(4) advanced_bytes [OF s(2)] by (metis drop_drop add.commute)
  with s(1) u(1) advanced_trans [OF s(2) u(2)]
  show "\<exists>n st'. and_then d e st = (Some y, st') \<and> advanced f rest st n st' \<and> t = drop n (stream_bytes rest st)"
    by (auto simp: and_then_def)
qed

fun p_byte :: "u8 list \<Rightarrow> (u8 \<times> u8 list) option" where
  "p_byte [] = None"
| "p_byte (b # bs) = Some (b, bs)"

definition p_skip :: "nat \<Rightarrow> u8 list \<Rightarrow> (unit \<times> u8 list) option" where
  "p_skip n bs = (if n \<le> length bs then Some ((), drop n bs) else None)"

locale byte_source =
  fixes f :: "nat \<Rightarrow> 's \<Rightarrow> u8 list option \<times> 's" and rest :: "'s \<Rightarrow> u8 list"
  assumes source_reads: "n \<le> length (rest s) \<Longrightarrow>
    \<exists>s'. f n s = (Some (take n (rest s)), s') \<and> rest s' = drop n (rest s)"
begin

lemma callback_reads:
  assumes st: "source_ready f rest st" and n: "n \<le> bytes_left st"
  shows "\<exists>i. icallback n (istate st) = (Some (take n (stream_bytes rest st)), i)
    \<and> advanced f rest st n (st\<lparr>istate := i, bytes_left := bytes_left st - n\<rparr>)"
proof (cases "istate st")
  case (Buffer b)
  with st n show ?thesis
    by (auto simp: buf_read_def stream_bytes_def input_bytes_def advanced_def source_ready_def min_absorb1)
next
  case (Source g s)
  with st have g: "g = f" and l: "bytes_left st \<le> length (rest s)" by (simp_all add: source_ready_def input_bytes_def)
  from source_reads [of n s] n l obtain s' where "f n s = (Some (take n (rest s)), s')" "rest s' = drop n (rest s)" by auto
  with Source g n l show ?thesis
    by (auto simp: stream_bytes_def input_bytes_def advanced_def source_ready_def min_absorb1)
qed

lemma read_bytes_parses: "parses f rest (read_bytes n) (p_bytes n)"
proof (rule parsesI)
  fix st :: "'s pb_istream"
  assume st: "source_ready f rest st" and "p_bytes n (stream_bytes rest st) = None"
  then have "bytes_left st < n" using stream_bytes_length [OF st] by (simp add: p_bytes_def split: if_splits)
  then show "fst (read_bytes n st) = None" by (simp add: read_bytes_def pb_ierror_def)
next
  fix st :: "'s pb_istream" and x r
  assume st: "source_ready f rest st" and p: "p_bytes n (stream_bytes rest st) = Some (x, r)"
  then have n: "n \<le> bytes_left st" and x: "x = take n (stream_bytes rest st)" "r = drop n (stream_bytes rest st)"
    using stream_bytes_length [OF st] by (simp_all add: p_bytes_def split: if_splits)
  from callback_reads [OF st n] n x
  show "\<exists>k st'. read_bytes n st = (Some x, st') \<and> advanced f rest st k st' \<and> r = drop k (stream_bytes rest st)"
    by (auto simp: read_bytes_def intro!: exI [of _ n])
qed

lemma read_parses: "parses f rest (pb_read False n) (p_bytes n)"
proof -
  have "pb_read False n = (read_bytes n :: 's pb_istream \<Rightarrow> _)"
    by (intro ext) (simp add: pb_read_def split: pb_input.split)
  then show ?thesis using read_bytes_parses by simp
qed

lemma readbyte_parses: "parses f rest pb_readbyte p_byte"
proof (rule parsesI)
  fix st :: "'s pb_istream"
  assume st: "source_ready f rest st" and "p_byte (stream_bytes rest st) = None"
  then have "bytes_left st = 0" using stream_bytes_length [OF st] by (cases "stream_bytes rest st") simp_all
  then show "fst (pb_readbyte st) = None" by (simp add: pb_readbyte_def pb_ierror_def)
next
  fix st :: "'s pb_istream" and x r
  assume st: "source_ready f rest st" and p: "p_byte (stream_bytes rest st) = Some (x, r)"
  then have s: "stream_bytes rest st = x # r" by (cases "stream_bytes rest st") simp_all
  then have n: "1 \<le> bytes_left st" using stream_bytes_length [OF st] by simp
  from callback_reads [OF st n] n s
  show "\<exists>k st'. pb_readbyte st = (Some x, st') \<and> advanced f rest st k st' \<and> r = drop k (stream_bytes rest st)"
    by (auto simp: pb_readbyte_def intro!: exI [of _ 1])
qed

lemma unit_parses:
  assumes "parses f rest d (p_bytes n)"
  shows "parses f rest (and_then d (\<lambda>_ st. (Some (), st))) (p_skip n)"
proof -
  have "p_skip n = p_then (p_bytes n) (\<lambda>_. p_return ())"
    by (rule ext) (simp add: p_skip_def p_then_def p_bytes_def p_return_def)
  then show ?thesis using parses_and_then [OF assms parses_return] by simp
qed

lemma skip_bytes_parses: "parses f rest (and_then (skip_bytes n) (\<lambda>_ st. (Some (), st))) (p_skip n)"
proof (induction n rule: less_induct)
  case (less n)
  show ?case
  proof (cases "n > 16")
    case False
    then have "skip_bytes n = (read_bytes n :: 's pb_istream \<Rightarrow> _)"
      by (intro ext) (simp add: skip_bytes.simps [of n])
    then show ?thesis using unit_parses [OF read_bytes_parses] by simp
  next
    case True
    have "and_then (skip_bytes n) (\<lambda>_ st. (Some (), st))
        = and_then (read_bytes 16) (\<lambda>_. and_then (skip_bytes (n - 16)) (\<lambda>_ st. (Some (), st :: 's pb_istream)))"
      using True by (intro ext) (simp add: and_then_def skip_bytes.simps [of n] split: prod.split option.split)
    moreover have "p_skip n = p_then (p_bytes 16) (\<lambda>_. p_skip (n - 16))"
      using True by (intro ext) (auto simp: p_then_def p_bytes_def p_skip_def)
    ultimately show ?thesis
      using parses_and_then [OF read_bytes_parses less.IH [of "n - 16"]] True by simp
  qed
qed

lemma skip_parses: "parses f rest (skip_unit n) (p_skip n)"
proof (rule parsesI)
  fix st :: "'s pb_istream"
  assume st: "source_ready f rest st" and "p_skip n (stream_bytes rest st) = None"
  with parsesD(1) [OF skip_bytes_parses st] parsesD(1) [OF unit_parses [OF read_bytes_parses] st]
  show "fst (skip_unit n st) = None"
    by (auto simp: skip_unit_def and_then_def pb_read_def split: pb_input.splits)
next
  fix st :: "'s pb_istream" and x r
  assume st: "source_ready f rest st" and "p_skip n (stream_bytes rest st) = Some (x, r)"
  with parsesD(2) [OF skip_bytes_parses st] parsesD(2) [OF unit_parses [OF read_bytes_parses] st]
  show "\<exists>k st'. skip_unit n st = (Some x, st') \<and> advanced f rest st k st' \<and> r = drop k (stream_bytes rest st)"
    by (cases "istate st") (fastforce simp: skip_unit_def and_then_def pb_read_def)+
qed

end

text \<open>The code's own reader as a source.\<close>

interpretation buf: byte_source buf_read "\<lambda>b. b"
  by unfold_locales (simp add: buf_read_def)

end
