(* ===== verification/PbVarint.thy ===== *)
theory PbVarint
  imports PbCodec
begin

text \<open>
  The reference meaning of the integers on the wire, and that the encoders write it and the decoders
  read it, on any stream.
\<close>

section \<open>Base-128 numbers, least significant group first\<close>

fun varint :: "nat \<Rightarrow> u8 list" where
  "varint n = (if n < 128 then [of_nat n] else of_nat (n mod 128 + 128) # varint (n div 128))"

declare varint.simps [simp del]

text \<open>A number of at most \<open>k\<close> groups.\<close>

fun uvarint :: "nat \<Rightarrow> u8 list \<Rightarrow> (nat \<times> u8 list) option" where
  "uvarint 0 bs = None"
| "uvarint (Suc k) [] = None"
| "uvarint (Suc k) (b # bs) =
     (if unat b < 128 then Some (unat b, bs)
      else (case uvarint k bs of None \<Rightarrow> None | Some (n, r) \<Rightarrow> Some (unat b mod 128 + 128 * n, r)))"

lemma varint_small: "n < 128 \<Longrightarrow> varint n = [of_nat n]"
  by (subst varint.simps) simp

lemma varint_big: "\<not> n < 128 \<Longrightarrow> varint n = of_nat (n mod 128 + 128) # varint (n div 128)"
  by (subst varint.simps) (simp only: if_False)

lemma u8_eqI: "unat w = n \<Longrightarrow> (w :: u8) = of_nat n"
  by (metis of_nat_unat ucast_id)

lemma unat_u8: "n < 256 \<Longrightarrow> unat (of_nat n :: u8) = n"
  by (simp only: unat_of_nat) simp

lemma uvarint_varint: "n < 128 ^ Suc k \<Longrightarrow> uvarint (Suc k) (varint n @ r) = Some (n, r)"
proof (induction k arbitrary: n)
  case 0
  then show ?case by (simp add: varint_small unat_u8)
next
  case (Suc k)
  show ?case
  proof (cases "n < 128")
    case True
    then show ?thesis by (simp add: varint_small unat_u8)
  next
    case False
    have "n div 128 < 128 ^ Suc k" using Suc.prems by (simp add: less_mult_imp_div_less mult.commute)
    moreover have "unat (of_nat (n mod 128 + 128) :: u8) = n mod 128 + 128" by (rule unat_u8) simp
    ultimately show ?thesis using Suc.IH False by (simp add: varint_big del: of_nat_add)
  qed
qed

lemma varint_length: "n < 128 ^ Suc k \<Longrightarrow> length (varint n) \<le> Suc k"
proof (induction k arbitrary: n)
  case 0
  then show ?case by (subst varint.simps) simp
next
  case (Suc k)
  then have "n div 128 < 128 ^ Suc k" by (simp add: less_mult_imp_div_less mult.commute)
  with Suc.IH show ?case by (subst varint.simps) simp
qed

lemma varint_nonempty [simp]: "varint n \<noteq> []"
  by (subst varint.simps) simp

lemma u64_groups: "unat (v :: u64) < 128 ^ 10"
  using unsigned_less [of v, where ?'a = nat] by simp

lemma varint_u64_length: "length (varint (unat (v :: u64))) \<le> 10"
  using varint_length [of "unat v" 9] u64_groups [of v] by simp

section \<open>Encoding\<close>

text \<open>The local buffer after the loop and after the top bit of its last byte has been cleared.\<close>

lemma low_group: "(ucast (v AND 0x7F) :: u8) = of_nat (unat (v :: u64) mod 128)"
proof (rule u8_eqI)
  have "v AND 0x7F = take_bit 7 v" by (simp only: take_bit_eq_mask mask_eq_exp_minus_1) simp
  then have "unat (v AND 0x7F) = unat v mod 128" by (simp only: unsigned_take_bit_eq) (simp add: take_bit_eq_mod)
  then show "unat (ucast (v AND 0x7F) :: u8) = unat v mod 128"
    by (simp only: unsigned_ucast_eq) (simp add: take_bit_nat_eq_self)
qed

lemma or_80: "n < 128 \<Longrightarrow> (of_nat n :: u8) OR 0x80 = of_nat (n + 128)"
proof (rule u8_eqI)
  assume n: "n < 128"
  then have "unat (push_bit 7 (1 :: u8) OR of_nat n) = unat (1 :: u8) * 2 ^ 7 + unat (of_nat n :: u8)"
    by (intro unat_push_or) (simp_all add: unat_u8)
  then show "unat ((of_nat n :: u8) OR 0x80) = n + 128" using n by (simp add: unat_u8 or.commute)
qed

lemma and_7f: "n < 128 \<Longrightarrow> (of_nat (n + 128) :: u8) AND 0x7F = of_nat n"
proof (rule u8_eqI)
  assume "n < 128"
  then show "unat ((of_nat (n + 128) :: u8) AND 0x7F) = n"
    by (simp only: u8_and_7f unat_u8 [of "n + 128"]) simp
qed

lemma varint_loop_masked:
  "v \<noteq> 0 \<Longrightarrow> butlast (varint_loop v) @ [List.last (varint_loop v) AND 0x7F] = varint (unat v)"
proof (induction v rule: varint_loop.induct)
  case (1 v)
  have d: "unat (drop_bit 7 v) = unat v div 128" by (simp add: unat_drop_bit)
  have h: "(ucast (v AND 0x7F) :: u8) OR 0x80 = of_nat (unat v mod 128 + 128)"
    by (simp add: low_group or_80)
  show ?case
  proof (cases "drop_bit 7 v = 0")
    case True
    then have l: "unat v < 128" by (simp add: drop_bit_zero)
    have "varint_loop v = [of_nat (unat v mod 128 + 128)]"
      by (subst varint_loop.simps) (simp only: h True "1.prems" varint_loop.simps [of 0] simp_thms if_True if_False)
    then show ?thesis using l and_7f [OF l] by (simp add: varint_small del: of_nat_add)
  next
    case False
    then have l: "\<not> unat v < 128" by (simp add: drop_bit_zero)
    have e: "varint_loop v = of_nat (unat v mod 128 + 128) # varint_loop (drop_bit 7 v)"
      by (subst varint_loop.simps) (simp only: h "1.prems" simp_thms if_True)
    have "varint_loop (drop_bit 7 v) \<noteq> []" by (subst varint_loop.simps) (simp add: False)
    with "1.IH" [OF "1.prems" False] l show ?thesis unfolding e varint_big [OF l] d by simp
  qed
qed

lemma mask_last: "xs \<noteq> [] \<Longrightarrow> xs[length xs - 1 := f (xs ! (length xs - 1))] = butlast xs @ [f (List.last xs)]"
  by (cases xs rule: rev_cases) simp_all

lemma pb_encode_varint_eq: "pb_encode_varint v = (pb_write (varint (unat v)) (length (varint (unat v))) :: 's pb_ostream \<Rightarrow> _)"
proof (cases "v \<le> 0x7F")
  case True
  then have "unat v < 128" by (simp add: word_le_nat_alt)
  then have "varint (unat v) = [ucast v]" by (simp only: varint_small of_nat_unat)
  then show ?thesis using True by (intro ext) (simp add: pb_encode_varint_def)
next
  case False
  then have v: "v \<noteq> 0" by auto
  then have ne: "varint_loop v \<noteq> []" by (subst varint_loop.simps) simp
  have "length (varint_loop v) = length (varint (unat v))"
    using varint_loop_masked [OF v] ne by (metis length_append_singleton append_butlast_last_id)
  then show ?thesis using False varint_loop_masked [OF v] mask_last [OF ne, of "\<lambda>b. b AND 0x7F"]
    by (intro ext) (simp add: pb_encode_varint_def Let_def)
qed

context byte_sink
begin

lemma varint_emits: "emits write out room (pb_encode_varint v) (varint (unat v))"
  unfolding pb_encode_varint_eq by (rule write_all_emits) (use varint_u64_length [of v] in simp)

end

section \<open>Decoding\<close>

lemma or_push_bit:
  fixes r w :: "'a::len word"
  assumes "unat r < 2 ^ n"
  shows "r OR push_bit n w = r + push_bit n w"
proof -
  have "drop_bit n r = 0" using assms by (simp add: drop_bit_zero)
  then have nb: "\<not> bit r (n + i)" for i by (metis bit_0_eq bit_drop_bit_eq bot_apply bot_bool_def comp_apply)
  have "\<not> bit r i" if "n \<le> i" for i using nb [of "i - n"] that by simp
  then have "r AND push_bit n w = 0" by (intro bit_word_eqI) (auto simp: bit_simps)
  then show ?thesis by (simp add: disjunctive_add_eq_or)
qed

lemma ucast_7f: "(ucast ((b :: u8) AND 0x7F) :: 'a::len word) = of_nat (unat b mod 128)"
  by (metis u8_and_7f ucast_eq_of_nat)

lemma unat_add_le: "unat (r + of_nat n :: 'a::len word) \<le> unat r + n"
  by (metis unat_of_nat of_nat_add of_nat_unat ucast_id mod_less_eq_dividend)

text \<open>One more group of seven bits.\<close>

lemma add_group:
  fixes r :: "'a::len word"
  assumes "unat r < 2 ^ n"
  shows "r OR push_bit n (ucast ((b :: u8) AND 0x7F)) = r + of_nat (2 ^ n * (unat b mod 128))"
    and "unat (r OR push_bit n (ucast ((b :: u8) AND 0x7F))) < 2 ^ (n + 7)"
proof -
  show e: "r OR push_bit n (ucast ((b :: u8) AND 0x7F)) = r + of_nat (2 ^ n * (unat b mod 128))"
    unfolding or_push_bit [OF assms] ucast_7f by (simp add: push_bit_eq_mult mult.commute)
  have "unat r + 2 ^ n * (unat b mod 128) < 2 ^ n + 2 ^ n * 127"
    by (rule add_less_le_mono [OF assms]) simp
  also have "\<dots> = 2 ^ (n + 7)" by (simp add: power_add)
  finally show "unat (r OR push_bit n (ucast ((b :: u8) AND 0x7F))) < 2 ^ (n + 7)"
    using unat_add_le [of r "2 ^ n * (unat b mod 128)"] unfolding e by linarith
qed

lemma top_bit_set: "(b AND 0x80 \<noteq> 0) = (\<not> unat (b :: u8) < 128)"
  by (simp add: u8_and_80)

text \<open>Decoding with a reference parser of numbers.\<close>

definition p_number :: "(nat \<Rightarrow> 'a) \<Rightarrow> (u8 list \<Rightarrow> (nat \<times> u8 list) option) \<Rightarrow> u8 list \<Rightarrow> ('a \<times> u8 list) option" where
  "p_number g p bs = (case p bs of None \<Rightarrow> None | Some (n, r) \<Rightarrow> Some (g n, r))"

context byte_source
begin

lemma varint_decode_loop_parses:
  "k \<le> 10 \<Longrightarrow> unat result < 2 ^ (70 - 7 * k) \<Longrightarrow>
     parses f rest (varint_decode_loop (70 - 7 * k) result)
       (p_number (\<lambda>n. result + of_nat (2 ^ (70 - 7 * k) * n)) (uvarint k))"
proof (induction k arbitrary: result)
  case 0
  have "varint_decode_loop 70 result = (pb_ierror ''varint overflow'' :: 's pb_istream \<Rightarrow> _)"
    by (intro ext) (simp add: varint_decode_loop.simps)
  then show ?case using parses_error by (simp add: p_number_def fun_eq_iff)
next
  case (Suc k)
  define n where "n = 70 - 7 * Suc k"
  have n: "n < 64" "70 - 7 * k = n + 7" using Suc.prems(1) by (auto simp: n_def)
  have r: "unat result < 2 ^ n" using Suc.prems(2) by (simp add: n_def)
  define g where "g b = result OR push_bit n (ucast ((b :: u8) AND 0x7F))" for b
  have G: "g b = result + of_nat (2 ^ n * (unat b mod 128))" "unat (g b) < 2 ^ (n + 7)" for b
    using add_group [OF r] by (simp_all add: g_def)
  have "varint_decode_loop n result = and_then pb_readbyte
      (\<lambda>b. if unat b < 128 then (\<lambda>st. (Some (g b), st)) else (varint_decode_loop (n + 7) (g b) :: 's pb_istream \<Rightarrow> _))"
    by (intro ext) (use n in \<open>simp add: varint_decode_loop.simps [of n] and_then_def g_def top_bit_set Let_def
        split: prod.split option.split\<close>)
  moreover have "p_number (\<lambda>m. result + of_nat (2 ^ n * m)) (uvarint (Suc k)) = p_then p_byte
      (\<lambda>b. if unat b < 128 then p_return (g b) else p_number (\<lambda>m. g b + of_nat (2 ^ (n + 7) * m)) (uvarint k))"
  proof (rule ext)
    fix bs
    show "p_number (\<lambda>m. result + of_nat (2 ^ n * m)) (uvarint (Suc k)) bs = p_then p_byte
      (\<lambda>b. if unat b < 128 then p_return (g b) else p_number (\<lambda>m. g b + of_nat (2 ^ (n + 7) * m)) (uvarint k)) bs"
      by (cases bs) (auto simp: p_number_def p_then_def p_return_def G(1) power_add algebra_simps split: option.split)
  qed
  moreover have "parses f rest (varint_decode_loop (n + 7) (g b)) (p_number (\<lambda>m. g b + of_nat (2 ^ (n + 7) * m)) (uvarint k))" for b
    using Suc.IH [of "g b"] Suc.prems(1) G(2) by (simp only: n(2))
  ultimately show ?case unfolding n_def [symmetric]
    using parses_and_then [OF readbyte_parses, of
      "\<lambda>b. if unat b < 128 then (\<lambda>st. (Some (g b), st)) else varint_decode_loop (n + 7) (g b)"
      "\<lambda>b. if unat b < 128 then p_return (g b) else p_number (\<lambda>m. g b + of_nat (2 ^ (n + 7) * m)) (uvarint k)"]
    by (simp add: parses_return)
qed

lemma varint_parses: "parses f rest pb_decode_varint (p_number of_nat (uvarint 10))"
proof -
  have "pb_decode_varint = (varint_decode_loop 0 0 :: 's pb_istream \<Rightarrow> _)" by (intro ext) (simp add: pb_decode_varint_def)
  then show ?thesis using varint_decode_loop_parses [of 10 0] by simp
qed

end

section \<open>Fixed-width integers\<close>

lemma low_byte: "(ucast (v AND 0xFF) :: u8) = of_nat (unat (v :: 'a::len word))"
proof -
  have "v AND 0xFF = take_bit 8 v" by (simp only: take_bit_eq_mask mask_eq_exp_minus_1) simp
  then have "unat (ucast (v AND 0xFF) :: u8) = unat v mod 256"
    by (simp only: unsigned_ucast_eq unsigned_take_bit_eq) (simp add: take_bit_eq_mod)
  also have "\<dots> = unat (of_nat (unat v) :: u8)" by (simp only: unat_of_nat) simp
  finally show ?thesis by (simp only: word_unat_eq_iff)
qed

lemma le_bytes_Suc: "le_bytes (Suc n) v = of_nat v # le_bytes n (v div 256)"
  by (simp add: le_bytes_def)

lemma le_bytes_0: "le_bytes 0 v = []"
  by (simp add: le_bytes_def)

lemma four: "4 = Suc (Suc (Suc (Suc 0)))" and eight: "8 = Suc (Suc (Suc (Suc 4)))"
  by simp_all

lemma fixed32_bytes:
  "[ucast (v AND 0xFF), ucast (drop_bit 8 v AND 0xFF), ucast (drop_bit 16 v AND 0xFF), ucast (drop_bit 24 v AND 0xFF)]
    = le_bytes 4 (unat (v :: 'a::len word))"
  unfolding four le_bytes_Suc le_bytes_0 low_byte unat_drop_bit div_mult2_eq [symmetric] by simp

lemma fixed64_bytes:
  "[ucast (v AND 0xFF), ucast (drop_bit 8 v AND 0xFF), ucast (drop_bit 16 v AND 0xFF), ucast (drop_bit 24 v AND 0xFF),
    ucast (drop_bit 32 v AND 0xFF), ucast (drop_bit 40 v AND 0xFF), ucast (drop_bit 48 v AND 0xFF), ucast (drop_bit 56 v AND 0xFF)]
    = le_bytes 8 (unat (v :: 'a::len word))"
  unfolding eight four le_bytes_Suc le_bytes_0 low_byte unat_drop_bit div_mult2_eq [symmetric] by simp

text \<open>One more byte.\<close>

lemma add_byte:
  fixes r :: "'a::len word"
  assumes "unat r < 2 ^ n"
  shows "r OR push_bit n (ucast (b :: u8)) = r + of_nat (2 ^ n * unat b)"
    and "unat (r OR push_bit n (ucast (b :: u8))) < 2 ^ (n + 8)"
proof -
  show e: "r OR push_bit n (ucast b) = r + of_nat (2 ^ n * unat b)"
    unfolding or_push_bit [OF assms] ucast_eq_of_nat by (simp add: push_bit_eq_mult mult.commute)
  have "unat r + 2 ^ n * unat b < 2 ^ n + 2 ^ n * 255"
    by (rule add_less_le_mono [OF assms], rule mult_le_mono2) (use unat_u8_less [of b] in linarith)
  also have "\<dots> = 2 ^ (n + 8)" by (simp add: power_add)
  finally show "unat (r OR push_bit n (ucast b)) < 2 ^ (n + 8)"
    using unat_add_le [of r "2 ^ n * unat b"] unfolding e by linarith
qed

lemma le_val_Cons: "le_val (b # bs) = unat b + 256 * le_val bs"
  by (simp add: le_val_def endian_simps)

lemma le_val_Nil: "le_val [] = 0"
  by (simp add: le_val_def endian_simps)

lemma first_byte: "unat (ucast (a :: u8) :: 'a::len word) < 2 ^ 8"
proof -
  have "unat (ucast a :: 'a word) \<le> unat a" using unat_add_le [of "0 :: 'a word" "unat a"] by simp
  with unat_u8_less [of a] have "unat (ucast a :: 'a word) < 256" by linarith
  then show ?thesis by simp
qed

lemma fixed32_value:
  "length bs = 4 \<Longrightarrow> ucast (bs ! 0) OR push_bit 8 (ucast (bs ! 1)) OR push_bit 16 (ucast (bs ! 2)) OR push_bit 24 (ucast (bs ! 3))
    = (of_nat (le_val bs) :: u32)"
proof -
  assume "length bs = 4"
  then obtain a b c d where bs: "bs = [a, b, c, d]" by (auto simp: four length_Suc_conv)
  note 1 = add_byte [OF first_byte [of a, where ?'a = 32], of b, simplified]
  note 2 = add_byte [where n = 16, simplified, OF 1(2), of c]
  note 3 = add_byte [where n = 24, simplified, OF 2(2), of d]
  show ?thesis using 1(1) 2(1) 3(1) by (simp add: bs le_val_Cons le_val_Nil algebra_simps flip: or.assoc)
qed

lemma fixed64_value:
  "length bs = 8 \<Longrightarrow> ucast (bs ! 0) OR push_bit 8 (ucast (bs ! 1)) OR push_bit 16 (ucast (bs ! 2)) OR push_bit 24 (ucast (bs ! 3))
      OR push_bit 32 (ucast (bs ! 4)) OR push_bit 40 (ucast (bs ! 5)) OR push_bit 48 (ucast (bs ! 6)) OR push_bit 56 (ucast (bs ! 7))
    = (of_nat (le_val bs) :: u64)"
proof -
  assume "length bs = 8"
  then obtain a b c d e f g h where bs: "bs = [a, b, c, d, e, f, g, h]" by (auto simp: eight four length_Suc_conv)
  note 1 = add_byte [OF first_byte [of a, where ?'a = 64], of b, simplified]
  note 2 = add_byte [where n = 16, simplified, OF 1(2), of c]
  note 3 = add_byte [where n = 24, simplified, OF 2(2), of d]
  note 4 = add_byte [where n = 32, simplified, OF 3(2), of e]
  note 5 = add_byte [where n = 40, simplified, OF 4(2), of f]
  note 6 = add_byte [where n = 48, simplified, OF 5(2), of g]
  note 7 = add_byte [where n = 56, simplified, OF 6(2), of h]
  show ?thesis using 1(1) 2(1) 3(1) 4(1) 5(1) 6(1) 7(1)
    by (simp add: bs le_val_Cons le_val_Nil algebra_simps flip: or.assoc)
qed

section \<open>Zigzag\<close>

text \<open>Signed integers are numbered 0, -1, 1, -2, 2 and so on.\<close>

definition zigzag :: "int \<Rightarrow> nat" where
  "zigzag i = (if 0 \<le> i then nat (2 * i) else nat (- 2 * i - 1))"

lemma sint_u64: "sint (v :: u64) = (if unat v < 2 ^ 63 then int (unat v) else int (unat v) - 2 ^ 64)"
proof -
  have s: "sint v = (uint v + 2 ^ 63) mod 2 ^ 64 - 2 ^ 63"
    by (simp add: sint_uint signed_take_bit_eq_take_bit_shift take_bit_eq_mod)
  have u: "0 \<le> uint v" "uint v < 2 ^ 64" using unsigned_less [of v, where ?'a = int] by simp_all
  have i: "int (unat v) = uint v" by simp
  show ?thesis
  proof (cases "unat v < 2 ^ 63")
    case True
    then have "int (unat v) < int (2 ^ 63)" by (simp only: of_nat_less_iff)
    then have "uint v < 2 ^ 63" by simp
    with u have "(uint v + 2 ^ 63) mod 2 ^ 64 = uint v + 2 ^ 63" by (intro mod_pos_pos_trivial) simp_all
    with True s i show ?thesis by simp
  next
    case False
    then have "int (2 ^ 63) \<le> int (unat v)" by (simp only: of_nat_le_iff not_less)
    then have "2 ^ 63 \<le> uint v" by simp
    with u have "(uint v + 2 ^ 63 - 2 ^ 64) mod 2 ^ 64 = uint v + 2 ^ 63 - 2 ^ 64" by (intro mod_pos_pos_trivial) simp_all
    then have "(uint v + 2 ^ 63) mod 2 ^ 64 = uint v + 2 ^ 63 - 2 ^ 64" by (simp only: minus_mod_self2)
    with False s i show ?thesis by simp
  qed
qed

lemma zigzag_int: "zigzag (int n) = 2 * n"
  by (simp add: zigzag_def)

lemma zigzag_neg: "n < 2 ^ 64 \<Longrightarrow> zigzag (int n - 2 ^ 64) = 2 * 2 ^ 64 - 1 - 2 * n"
  by (simp add: zigzag_def)

lemma zigzag_encode: "unat (if sint v < 0 then NOT (push_bit 1 v) else push_bit 1 v) = zigzag (sint (v :: u64))"
proof -
  have p: "unat (push_bit 1 v) = 2 * unat v mod 2 ^ 64"
    by (simp only: unsigned_push_bit_eq) (simp add: take_bit_eq_mod push_bit_eq_mult mult.commute)
  have u: "unat v < 2 ^ 64" using unsigned_less [of v, where ?'a = nat] by simp
  show ?thesis
  proof (cases "unat v < 2 ^ 63")
    case True
    then have e: "sint v = int (unat v)" by (simp only: sint_u64 if_True)
    then have "\<not> sint v < 0" by simp
    then show ?thesis using True p unfolding e zigzag_int by (simp only: if_False) simp
  next
    case False
    then have e: "sint v = int (unat v) - 2 ^ 64" by (simp only: sint_u64 if_False)
    have neg: "sint v < 0" unfolding e using unsigned_less [of v, where ?'a = int] by simp
    have "2 * unat v mod 2 ^ 64 = 2 * unat v - 2 ^ 64" using False u by (simp add: mod_if)
    moreover have "NOT (push_bit 1 v) = - 1 - push_bit 1 v" by (simp add: not_eq_complement)
    moreover have "unat (- 1 - push_bit 1 v) = unat (- 1 :: u64) - unat (push_bit 1 v)"
      by (rule unat_sub) simp
    moreover have "unat (- 1 :: u64) = 2 ^ 64 - 1" by (simp add: unsigned_minus_1_eq_mask mask_eq_exp_minus_1)
    ultimately show ?thesis using neg False u unfolding e zigzag_neg [OF u] by (simp only: p if_True) simp
  qed
qed

lemma zigzag_decode:
  assumes "unat (v :: u64) = zigzag i"
  shows "sint (if v AND 1 \<noteq> 0 then NOT (drop_bit 1 v) else drop_bit 1 v) = i"
proof -
  have odd: "v AND 1 \<noteq> 0 \<longleftrightarrow> odd (unat v)" 
  proof -
    have "unat (v AND 1) = unat v mod 2" by (simp only: unsigned_and_eq unat_1) (simp only: and_one_eq)
    then show ?thesis by (simp only: odd_iff_mod_2_eq_one flip: unat_eq_0) simp
  qed
  have d: "unat (drop_bit 1 v) = unat v div 2" by (simp only: unat_drop_bit power_one_right)
  have u: "unat v < 2 ^ 64" using unsigned_less [of v, where ?'a = nat] by simp
  show ?thesis
  proof (cases "0 \<le> i")
    case True
    then have "unat v = 2 * nat i" using assms by (simp add: zigzag_def nat_mult_distrib)
    with True u odd d show ?thesis by (simp add: sint_u64)
  next
    case False
    then have e: "unat v = 2 * nat (- i - 1) + 1" using assms by (simp add: zigzag_def)
    have "NOT (drop_bit 1 v) = - 1 - drop_bit 1 v" by (simp add: not_eq_complement)
    moreover have "unat (- 1 - drop_bit 1 v) = unat (- 1 :: u64) - unat (drop_bit 1 v)" by (rule unat_sub) simp
    moreover have "unat (- 1 :: u64) = 2 ^ 64 - 1" by (simp add: unsigned_minus_1_eq_mask mask_eq_exp_minus_1)
    ultimately show ?thesis using e False u odd d by (simp add: sint_u64)
  qed
qed

end
