(* ===== verification/PbFields.thy ===== *)
theory PbFields
  imports PbVarint
begin

text \<open>
  Whole fields on the wire: what each encoder writes is read back by its decoder and skipped by
  \<^verbatim>\<open>pb_skip_field\<close>, from any source.
\<close>

section \<open>Reading one encoding\<close>

text \<open>On a stream that starts with \<open>bs\<close>, \<open>d\<close> returns \<open>x\<close> and is then after \<open>bs\<close>.\<close>

definition decodes ::
  "(nat \<Rightarrow> 's \<Rightarrow> u8 list option \<times> 's) \<Rightarrow> ('s \<Rightarrow> u8 list) \<Rightarrow> ('s pb_istream \<Rightarrow> 'a option \<times> 's pb_istream)
     \<Rightarrow> u8 list \<Rightarrow> 'a \<Rightarrow> bool" where
  "decodes f rest d bs x \<longleftrightarrow>
     (\<forall>st r. source_ready f rest st \<and> stream_bytes rest st = bs @ r \<longrightarrow>
        (\<exists>st'. d st = (Some x, st') \<and> advanced f rest st (length bs) st'))"

lemma decodesI:
  assumes "\<And>st r. source_ready f rest st \<Longrightarrow> stream_bytes rest st = bs @ r \<Longrightarrow>
    \<exists>st'. d st = (Some x, st') \<and> advanced f rest st (length bs) st'"
  shows "decodes f rest d bs x"
  using assms by (auto simp: decodes_def)

lemma decodesE:
  assumes "decodes f rest d bs x" and "source_ready f rest st" and "stream_bytes rest st = bs @ r"
  obtains st' where "d st = (Some x, st')" and "advanced f rest st (length bs) st'"
    and "source_ready f rest st'" and "stream_bytes rest st' = r"
proof -
  from assms obtain st' where s: "d st = (Some x, st')" "advanced f rest st (length bs) st'"
    by (auto simp: decodes_def)
  show thesis by (rule that [OF s]) (use s(2) advanced_bytes [OF s(2)] assms(3) in \<open>simp_all add: advanced_def\<close>)
qed

lemma parses_decodes:
  assumes d: "parses f rest d p" and p: "\<And>r. p (bs @ r) = Some (x, r)"
  shows "decodes f rest d bs x"
proof (rule decodesI)
  fix st r
  assume st: "source_ready f rest st" and b: "stream_bytes rest st = bs @ r"
  from parsesD(2) [OF d st] p b obtain n st' where
    s: "d st = (Some x, st')" "advanced f rest st n st'" "r = drop n (bs @ r)" by metis
  have "n \<le> length (bs @ r)" using s(2) stream_bytes_length [OF st] b by (simp add: advanced_def)
  with arg_cong [OF s(3), of length] have "n = length bs" by simp
  with s show "\<exists>st'. d st = (Some x, st') \<and> advanced f rest st (length bs) st'" by blast
qed

lemma decodes_and_then:
  assumes d: "decodes f rest d as x" and e: "decodes f rest (e x) bs y"
  shows "decodes f rest (and_then d e) (as @ bs) y"
proof (rule decodesI)
  fix st r
  assume st: "source_ready f rest st" and b: "stream_bytes rest st = (as @ bs) @ r"
  from decodesE [OF d st, of "bs @ r"] b obtain st' where
    s: "d st = (Some x, st')" "advanced f rest st (length as) st'" "source_ready f rest st'" "stream_bytes rest st' = bs @ r"
    by auto
  from decodesE [OF e s(3,4)] obtain st'' where "e x st' = (Some y, st'')" "advanced f rest st' (length bs) st''" by blast
  with s(1) advanced_trans [OF s(2)]
  show "\<exists>st'. and_then d e st = (Some y, st') \<and> advanced f rest st (length (as @ bs)) st'"
    by (auto simp: and_then_def)
qed

lemma decodes_return: "decodes f rest (\<lambda>st. (Some x, st)) [] x"
  by (rule decodesI) (auto intro: advanced_refl)

lemma decodes_map: "decodes f rest d bs x \<Longrightarrow> g x = y \<Longrightarrow> decodes f rest (and_then d (\<lambda>x st. (Some (g x), st))) bs y"
  using decodes_and_then [of f rest d bs x "\<lambda>x st. (Some (g x), st)" "[]" "g x"] decodes_return by fastforce

section \<open>Integers\<close>

definition p_varint64 :: "u8 list \<Rightarrow> (u64 \<times> u8 list) option" where
  "p_varint64 = p_number of_nat (uvarint 10)"

lemma p_varint64_varint: "p_varint64 (varint (unat v) @ r) = Some (v, r)"
  using uvarint_varint [of "unat v" 9 r] u64_groups [of v] by (simp add: p_varint64_def p_number_def)

interpretation varint64: prefix_codec "\<lambda>v. varint (unat (v :: u64))" p_varint64 "\<lambda>_. True"
  by unfold_locales (rule p_varint64_varint)

lemma length_le_val: "length bs = 4 \<Longrightarrow> le_val bs < 2 ^ 32" "length bs = 8 \<Longrightarrow> le_val bs < 2 ^ 64"
  using be_val_bound [of "rev bs"] by (simp_all add: le_val_def)

context byte_source
begin

lemma varint_decodes: "decodes f rest pb_decode_varint (varint (unat v)) v"
  by (rule parses_decodes [OF varint_parses]) (rule p_varint64_varint [unfolded p_varint64_def])

lemma svarint_decodes: "decodes f rest pb_decode_svarint (varint (zigzag (sint v))) v"
proof -
  let ?g = "\<lambda>u :: u64. if u AND 1 \<noteq> 0 then NOT (drop_bit 1 u) else drop_bit 1 u"
  let ?z = "if sint v < 0 then NOT (push_bit 1 v) else push_bit 1 v"
  have z: "unat ?z = zigzag (sint v)" by (rule zigzag_encode)
  have "sint (?g ?z) = sint v" by (rule zigzag_decode [OF z])
  then have g: "?g ?z = v" by (rule signed_word_eqI)
  show ?thesis using decodes_map [where g = ?g, OF varint_decodes g] unfolding pb_decode_svarint_def z .
qed

lemma fixed32_decodes: "decodes f rest pb_decode_fixed32 (le_bytes 4 (unat v)) v"
proof -
  have "decodes f rest (pb_read False 4) (le_bytes 4 (unat v)) (le_bytes 4 (unat v))"
    by (rule parses_decodes [OF read_parses]) (simp add: p_bytes_def)
  moreover have "le_val (le_bytes 4 (unat v)) = unat v"
    using unsigned_less [of v, where ?'a = nat] by (simp add: le_val_bytes)
  ultimately show ?thesis
    unfolding pb_decode_fixed32_def by (intro decodes_map [where x = "le_bytes 4 (unat v)"]) (simp_all only: fixed32_value length_le_bytes of_nat_unat ucast_id)
qed

lemma fixed64_decodes: "decodes f rest pb_decode_fixed64 (le_bytes 8 (unat v)) v"
proof -
  have "decodes f rest (pb_read False 8) (le_bytes 8 (unat v)) (le_bytes 8 (unat v))"
    by (rule parses_decodes [OF read_parses]) (simp add: p_bytes_def)
  moreover have "le_val (le_bytes 8 (unat v)) = unat v"
    using unsigned_less [of v, where ?'a = nat] by (simp add: le_val_bytes)
  ultimately show ?thesis
    unfolding pb_decode_fixed64_def by (intro decodes_map [where x = "le_bytes 8 (unat v)"]) (simp_all only: fixed64_value length_le_bytes of_nat_unat ucast_id)
qed

end

text \<open>
  The varints of at most 32 bits that \<^verbatim>\<open>pb_decode_varint32\<close> reads: the loop is at the group of bit
  position \<open>bitpos\<close>.
\<close>

lemma u8_and_70: "n < 16 \<Longrightarrow> (of_nat n :: u8) AND 0x70 = 0"
proof -
  assume "n < 16"
  then have "drop_bit 4 n = 0" by (simp add: drop_bit_eq_div)
  moreover have "(112 :: nat) = push_bit 4 (mask 3)" by (simp add: push_bit_eq_mult mask_eq_exp_minus_1)
  ultimately have "n AND 112 = 0" by (simp only: and_shifted_mask) simp
  moreover have "unat ((of_nat n :: u8) AND 0x70) = unat (of_nat n :: u8) AND unat (0x70 :: u8)" by (rule unsigned_and_eq)
  moreover have "unat (of_nat n :: u8) = n" using \<open>n < 16\<close> by (intro unat_u8) simp
  moreover have "unat (0x70 :: u8) = 112" by simp
  ultimately have "unat ((of_nat n :: u8) AND 0x70) = 0" by (simp only:)
  then show ?thesis by (simp only: unat_eq_0)
qed

context byte_source
begin

lemma varint32_loop_decodes:
  "i \<in> {7, 14, 21, 28} \<Longrightarrow> n < 2 ^ (32 - i) \<Longrightarrow> unat result < 2 ^ i \<Longrightarrow>
     decodes f rest (varint32_loop i result) (varint n) (result + of_nat (2 ^ i * n))"
proof (induction "35 - i" arbitrary: i n result rule: less_induct)
  case less
  have i: "i < 32" using less.prems(1) by auto
  define g where "g b = result OR push_bit i (ucast ((b :: u8) AND 0x7F))" for b
  have G: "g b = result + of_nat (2 ^ i * (unat b mod 128))" "unat (g b) < 2 ^ (i + 7)" for b
    using add_group [OF less.prems(3)] by (simp_all add: g_def)
  have step: "varint32_loop i result = and_then pb_readbyte
      (\<lambda>b. if b AND 0x80 \<noteq> 0 then varint32_loop (i + 7) (g b)
           else if i + 7 = 35 \<and> b AND 0x70 \<noteq> 0 then pb_ierror ''varint overflow''
           else (\<lambda>st. (Some (g b), st :: 's pb_istream)))"
    using i by (intro ext) (simp add: varint32_loop.simps [of i] and_then_def g_def Let_def split: prod.split option.split)
  have read: "decodes f rest pb_readbyte [b] b" for b
    by (rule parses_decodes [OF readbyte_parses]) simp
  show ?case
  proof (cases "n < 128")
    case True
    have b: "unat (of_nat n :: u8) = n" using True by (intro unat_u8) simp
    then have "(of_nat n :: u8) AND 0x80 = 0" using True by (simp only: u8_and_80)
    moreover have "(of_nat n :: u8) AND 0x70 = 0" if "i + 7 = 35"
      using less.prems(2) that by (intro u8_and_70) (simp add: eq_diff_iff)
    ultimately have "decodes f rest (varint32_loop i result) ([of_nat n] @ []) (g (of_nat n))"
      unfolding step by (intro decodes_and_then [OF read]) (auto intro: decodes_return)
    then show ?thesis using True b by (simp add: varint_small G)
  next
    case False
    let ?b = "of_nat (n mod 128 + 128) :: u8"
    have b: "unat ?b = n mod 128 + 128" by (rule unat_u8) simp
    then have hi: "?b AND 0x80 \<noteq> 0" by (simp only: top_bit_set)
    have "i \<noteq> 28" using less.prems(2) False by auto
    with less.prems(1) have i7: "i + 7 \<in> {7, 14, 21, 28}" "i \<le> 21" by auto
    then have "2 ^ (32 - i) = 128 * (2 ^ (32 - (i + 7)) :: nat)" by auto
    with less.prems(2) have "n div 128 < 2 ^ (32 - (i + 7))" by (simp add: less_mult_imp_div_less mult.commute)
    from less.hyps [OF _ i7(1) this G(2)] i7(2)
    have "decodes f rest (varint32_loop (i + 7) (g ?b)) (varint (n div 128)) (g ?b + of_nat (2 ^ (i + 7) * (n div 128)))" by auto
    then have "decodes f rest (varint32_loop i result) ([?b] @ varint (n div 128)) (g ?b + of_nat (2 ^ (i + 7) * (n div 128)))"
      unfolding step by (intro decodes_and_then [OF read]) (simp only: hi if_True simp_thms)
    moreover
    have "2 ^ i * (n mod 128) + 2 ^ (i + 7) * (n div 128) = 2 ^ i * (n mod 128 + 128 * (n div 128))"
      by (simp only: distrib_left power_add) simp
    then have "2 ^ i * (n mod 128) + 2 ^ (i + 7) * (n div 128) = 2 ^ i * n" by (simp only: mod_mult_div_eq)
    then have "g ?b + of_nat (2 ^ (i + 7) * (n div 128)) = result + of_nat (2 ^ i * n)"
      unfolding G b add.assoc of_nat_add [symmetric] by simp
    ultimately show ?thesis using False by (simp add: varint_big del: of_nat_add)
  qed
qed

end

context byte_source
begin

lemma varint32_eof_decodes:
  assumes n: "n < 2 ^ 32" and st: "source_ready f rest st" and b: "stream_bytes rest st = varint n @ r"
  shows "\<exists>st'. pb_decode_varint32_eof st = (Some (of_nat n), False, st') \<and> advanced f rest st (length (varint n)) st'"
proof -
  have read: "decodes f rest pb_readbyte [b] b" for b
    by (rule parses_decodes [OF readbyte_parses]) simp
  show ?thesis
  proof (cases "n < 128")
    case True
    have u: "unat (of_nat n :: u8) = n" using True by (intro unat_u8) simp
    then have lo: "(of_nat n :: u8) AND 0x80 = 0" using True by (simp only: u8_and_80)
    from decodesE [OF read st, of "of_nat n" r] b True obtain st' where
      "pb_readbyte st = (Some (of_nat n), st')" "advanced f rest st 1 st'" by (auto simp: varint_small)
    moreover have "(ucast (of_nat n :: u8) :: u32) = of_nat n" by (simp only: u ucast_eq_of_nat)
    ultimately show ?thesis using True lo by (simp add: pb_decode_varint32_eof_def varint_small)
  next
    case False
    let ?b = "of_nat (n mod 128 + 128) :: u8"
    have u: "unat ?b = n mod 128 + 128" by (rule unat_u8) simp
    then have hi: "?b AND 0x80 \<noteq> 0" by (simp only: top_bit_set)
    have s: "stream_bytes rest st = [?b] @ (varint (n div 128) @ r)" using b False by (simp add: varint_big del: of_nat_add)
    from decodesE [OF read st s] obtain st1 where
      r: "pb_readbyte st = (Some ?b, st1)" "advanced f rest st (length [?b]) st1" "source_ready f rest st1"
        "stream_bytes rest st1 = varint (n div 128) @ r" by blast
    have g: "(ucast (?b AND 0x7F) :: u32) = of_nat (n mod 128)" by (simp only: ucast_7f u) simp
    have "unat (of_nat (n mod 128) :: u32) < 2 ^ 7"
    proof -
      have "unat (of_nat (n mod 128) :: u32) \<le> n mod 128" using unat_add_le [of "0 :: u32" "n mod 128"] by simp
      also have "\<dots> < 2 ^ 7" by simp
      finally show ?thesis .
    qed
    moreover have "n div 128 < 2 ^ (32 - 7)" using n by (simp add: less_mult_imp_div_less)
    ultimately have "decodes f rest (varint32_loop 7 (of_nat (n mod 128))) (varint (n div 128))
        (of_nat (n mod 128) + of_nat (2 ^ 7 * (n div 128)))"
      by (intro varint32_loop_decodes) simp_all
    from decodesE [OF this r(3,4)] obtain st' where
      l: "varint32_loop 7 (of_nat (n mod 128)) st1 = (Some (of_nat (n mod 128) + of_nat (2 ^ 7 * (n div 128))), st')"
        "advanced f rest st1 (length (varint (n div 128))) st'" by blast
    have "n mod 128 + 2 ^ 7 * (n div 128) = n" by simp
    then have "of_nat (n mod 128) + of_nat (2 ^ 7 * (n div 128)) = (of_nat n :: u32)" by (metis of_nat_add)
    moreover have "length (varint n) = length [?b] + length (varint (n div 128))" using False by (simp add: varint_big)
    ultimately show ?thesis using r(1) l(1) hi g advanced_trans [OF r(2) l(2)]
      by (simp add: pb_decode_varint32_eof_def del: of_nat_add)
  qed
qed

lemma varint32_decodes: "n < 2 ^ 32 \<Longrightarrow> decodes f rest pb_decode_varint32 (varint n) (of_nat n)"
  using varint32_eof_decodes by (fastforce intro!: decodesI simp: pb_decode_varint32_def)

end

end
