(* ===== verification/PbMessage.thy ===== *)
theory PbMessage
  imports PbFields
begin

text \<open>
  Messages as a user callback writes and reads them with the helper functions: a sequence of fields,
  each a tag and a value. What \<open>encode_fields\<close> writes \<open>decode_fields\<close> reads back and \<open>skip_fields\<close> skips.
\<close>

section \<open>Values and fields\<close>

datatype pb_value =
    Varint u64
  | Svarint "64 word"
  | Fixed32 u32
  | Fixed64 u64
  | Bytes "u8 list"

datatype pb_kind = K_varint | K_svarint | K_fixed32 | K_fixed64 | K_bytes

fun kind_of :: "pb_value \<Rightarrow> pb_kind" where
  "kind_of (Varint _) = K_varint"
| "kind_of (Svarint _) = K_svarint"
| "kind_of (Fixed32 _) = K_fixed32"
| "kind_of (Fixed64 _) = K_fixed64"
| "kind_of (Bytes _) = K_bytes"

fun kind_wiretype :: "pb_kind \<Rightarrow> nat" where
  "kind_wiretype K_varint = PB_WT_VARINT"
| "kind_wiretype K_svarint = PB_WT_VARINT"
| "kind_wiretype K_fixed32 = PB_WT_32BIT"
| "kind_wiretype K_fixed64 = PB_WT_64BIT"
| "kind_wiretype K_bytes = PB_WT_STRING"

text \<open>The bytes the protobuf format prescribes.\<close>

fun value_bytes :: "pb_value \<Rightarrow> u8 list" where
  "value_bytes (Varint v) = varint (unat v)"
| "value_bytes (Svarint v) = varint (zigzag (sint v))"
| "value_bytes (Fixed32 v) = le_bytes 4 (unat v)"
| "value_bytes (Fixed64 v) = le_bytes 8 (unat v)"
| "value_bytes (Bytes b) = varint (length b) @ b"

definition field_bytes :: "u32 \<times> pb_value \<Rightarrow> u8 list" where
  "field_bytes x = (case x of (tag, v) \<Rightarrow> varint (8 * unat tag + kind_wiretype (kind_of v)) @ value_bytes v)"

definition message_bytes :: "(u32 \<times> pb_value) list \<Rightarrow> u8 list" where
  "message_bytes xs = concat (map field_bytes xs)"

definition valid_field :: "u32 \<times> pb_value \<Rightarrow> bool" where
  "valid_field x = (case x of (tag, v) \<Rightarrow>
     0 < unat tag \<and> unat tag < 2 ^ 29 \<and> (case v of Bytes b \<Rightarrow> length b < 2 ^ 32 | _ \<Rightarrow> True))"

section \<open>Using the helper functions\<close>

fun encode_value :: "pb_value \<Rightarrow> 's pb_ostream \<Rightarrow> bool \<times> 's pb_ostream" where
  "encode_value (Varint v) = pb_encode_varint v"
| "encode_value (Svarint v) = pb_encode_svarint v"
| "encode_value (Fixed32 v) = pb_encode_fixed32 v"
| "encode_value (Fixed64 v) = pb_encode_fixed64 v"
| "encode_value (Bytes b) = pb_encode_string b (length b)"

fun encode_fields :: "(u32 \<times> pb_value) list \<Rightarrow> 's pb_ostream \<Rightarrow> bool \<times> 's pb_ostream" where
  "encode_fields [] = (\<lambda>st. (True, st))"
| "encode_fields ((tag, v) # xs) =
     both (both (pb_encode_tag (kind_wiretype (kind_of v)) tag) (encode_value v)) (encode_fields xs)"

text \<open>A string is read whole through a substream, as a callback for a string field does.\<close>

definition decode_bytes :: "'s pb_istream \<Rightarrow> u8 list option \<times> 's pb_istream" where
  "decode_bytes =
     and_then pb_make_string_substream
       (\<lambda>substream stream.
          (case pb_read False (bytes_left substream) substream of
             (None, _) \<Rightarrow> (None, stream)
           | (Some b, substream) \<Rightarrow>
               and_then (pb_close_string_substream substream) (\<lambda>_ stream. (Some b, stream)) stream))"

fun decode_value :: "pb_kind \<Rightarrow> 's pb_istream \<Rightarrow> pb_value option \<times> 's pb_istream" where
  "decode_value K_varint = and_then pb_decode_varint (\<lambda>v st. (Some (Varint v), st))"
| "decode_value K_svarint = and_then pb_decode_svarint (\<lambda>v st. (Some (Svarint v), st))"
| "decode_value K_fixed32 = and_then pb_decode_fixed32 (\<lambda>v st. (Some (Fixed32 v), st))"
| "decode_value K_fixed64 = and_then pb_decode_fixed64 (\<lambda>v st. (Some (Fixed64 v), st))"
| "decode_value K_bytes = and_then decode_bytes (\<lambda>v st. (Some (Bytes v), st))"

definition next_tag :: "'s pb_istream \<Rightarrow> (nat \<times> u32) option \<times> 's pb_istream" where
  "next_tag st = (case pb_decode_tag st of (r, _, st) \<Rightarrow> (r, st))"

text \<open>The fields of the given kinds, with the wire type checked.\<close>

fun decode_fields :: "pb_kind list \<Rightarrow> 's pb_istream \<Rightarrow> (u32 \<times> pb_value) list option \<times> 's pb_istream" where
  "decode_fields [] = (\<lambda>st. (Some [], st))"
| "decode_fields (k # ks) =
     and_then next_tag
       (\<lambda>(wire_type, tag).
          if wire_type \<noteq> kind_wiretype k then pb_ierror ''wrong wire type''
          else and_then (decode_value k)
                 (\<lambda>v. and_then (decode_fields ks) (\<lambda>xs st. (Some ((tag, v) # xs), st))))"

text \<open>The loop of a reader that knows none of the fields, with the number of fields it may see.\<close>

fun skip_fields :: "nat \<Rightarrow> 's pb_istream \<Rightarrow> unit option \<times> 's pb_istream" where
  "skip_fields 0 = (\<lambda>st. (Some (), st))"
| "skip_fields (Suc n) =
     and_then next_tag (\<lambda>(wire_type, tag). and_then (pb_skip_field wire_type) (\<lambda>_. skip_fields n))"

section \<open>Writing\<close>

lemma tag_value:
  assumes "unat tag < 2 ^ 29" and "wt < 8"
  shows "unat (push_bit 3 (ucast (tag :: u32) :: u64) OR of_nat wt) = 8 * unat tag + wt"
proof -
  have "unat (ucast tag :: u64) = unat tag"
    by (simp only: unsigned_ucast_eq take_bit_eq_mod) (use assms(1) in simp)
  moreover have "unat (of_nat wt :: u64) = wt" using assms(2) by (simp only: unat_of_nat) simp
  ultimately show ?thesis
    using unat_push_or [of "of_nat wt :: u64" 3 "ucast tag"] assms by simp
qed

lemma kind_wiretype_less: "kind_wiretype k < 8"
  by (cases k) (simp_all add: PB_WT_VARINT_def PB_WT_32BIT_def PB_WT_64BIT_def PB_WT_STRING_def)

context byte_sink
begin

lemma tag_emits:
  "unat tag < 2 ^ 29 \<Longrightarrow> wt < 8 \<Longrightarrow> emits write out room (pb_encode_tag wt tag) (varint (8 * unat tag + wt))"
  using varint_emits [of "push_bit 3 (ucast tag :: u64) OR of_nat wt"]
  by (simp add: tag_value pb_encode_tag_def [abs_def])

lemma svarint_emits: "emits write out room (pb_encode_svarint v) (varint (zigzag (sint v)))"
  using varint_emits [of "if sint v < 0 then NOT (push_bit 1 v) else push_bit 1 v"]
  unfolding zigzag_encode by (simp only: pb_encode_svarint_def [abs_def] Let_def)

lemma string_emits: "length b < 2 ^ 32 \<Longrightarrow> emits write out room (pb_encode_string b (length b)) (varint (length b) @ b)"
proof -
  assume b: "length b < 2 ^ 32"
  then have "unat (of_nat (length b) :: u64) = length b" by (simp only: unat_of_nat) simp
  moreover have "emits write out room (pb_write b (length b)) b" by (rule write_all_emits) (use b in simp)
  ultimately show ?thesis using emits_both [OF varint_emits [of "of_nat (length b)"]]
    unfolding pb_encode_string_def by simp
qed

lemma value_emits:
  assumes "valid_field (tag, v)"
  shows "emits write out room (encode_value v) (value_bytes v)"
proof (cases v)
  case (Fixed32 x)
  then show ?thesis using write_all_emits [of "le_bytes 4 (unat x)"]
    by (simp add: pb_encode_fixed32_def [abs_def] fixed32_bytes)
next
  case (Fixed64 x)
  then show ?thesis using write_all_emits [of "le_bytes 8 (unat x)"]
    by (simp add: pb_encode_fixed64_def [abs_def] fixed64_bytes)
qed (use assms in \<open>simp_all add: varint_emits svarint_emits string_emits valid_field_def\<close>)

lemma fields_emits: "\<forall>x \<in> set xs. valid_field x \<Longrightarrow> emits write out room (encode_fields xs) (message_bytes xs)"
proof (induction xs rule: encode_fields.induct)
  case 1
  show ?case using emits_done by (simp add: message_bytes_def)
next
  case (2 tag v xs)
  have t: "emits write out room (pb_encode_tag (kind_wiretype (kind_of v)) tag) (varint (8 * unat tag + kind_wiretype (kind_of v)))"
    by (rule tag_emits [OF _ kind_wiretype_less]) (use "2.prems" in \<open>simp add: valid_field_def\<close>)
  have v: "emits write out room (encode_value v) (value_bytes v)" by (rule value_emits [where tag = tag]) (use "2.prems" in simp)
  have "emits write out room (encode_fields xs) (message_bytes xs)" using 2 by simp
  from emits_both [OF emits_both [OF t v] this] show ?case by (simp add: message_bytes_def field_bytes_def)
qed

end

section \<open>Reading\<close>

context byte_source
begin

lemma tag_decodes:
  assumes tag: "0 < unat tag" "unat tag < 2 ^ 29" and wt: "wt < 8"
  shows "decodes f rest next_tag (varint (8 * unat tag + wt)) (wt, tag)"
proof (rule decodesI)
  fix st r
  let ?n = "8 * unat tag + wt"
  assume st: "source_ready f rest st" "stream_bytes rest st = varint ?n @ r"
  have n: "?n < 2 ^ 32" using tag wt by simp
  from varint32_eof_decodes [OF n st] obtain st' where
    d: "pb_decode_varint32_eof st = (Some (of_nat ?n), False, st')" "advanced f rest st (length (varint ?n)) st'" by blast
  have u: "unat (of_nat ?n :: u32) = ?n" using n by (simp only: unat_of_nat) simp
  have "(of_nat ?n :: u32) \<noteq> 0" using u tag(1) by (simp only: flip: unat_eq_0)
  moreover have "unat ((of_nat ?n :: u32) AND 7) = wt"
  proof -
    have "(of_nat ?n :: u32) AND 7 = take_bit 3 (of_nat ?n)" by (simp only: take_bit_eq_mask mask_eq_exp_minus_1) simp
    then have "unat ((of_nat ?n :: u32) AND 7) = ?n mod 2 ^ 3"
      by (simp only: unsigned_take_bit_eq u) (simp only: take_bit_eq_mod)
    then show ?thesis using wt by simp
  qed
  moreover have "drop_bit 3 (of_nat ?n :: u32) = tag"
  proof -
    have "unat (drop_bit 3 (of_nat ?n :: u32)) = unat tag" using wt by (simp only: unat_drop_bit u) simp
    then show ?thesis by (simp only: word_unat_eq_iff)
  qed
  ultimately have "next_tag st = (Some (wt, tag), st')"
    by (simp only: next_tag_def pb_decode_tag_def d(1) prod.case option.case if_False)
  with d(2) show "\<exists>st'. next_tag st = (Some (wt, tag), st') \<and> advanced f rest st (length (varint ?n)) st'" by blast
qed

lemma bytes_decodes:
  assumes b: "length b < 2 ^ 32"
  shows "decodes f rest decode_bytes (varint (length b) @ b) b"
proof (rule decodesI)
  fix st r
  assume st: "source_ready f rest st" "stream_bytes rest st = (varint (length b) @ b) @ r"
  from decodesE [OF varint32_decodes [OF b] st(1), of "b @ r"] st(2) obtain st1 where
    d: "pb_decode_varint32 st = (Some (of_nat (length b)), st1)" "advanced f rest st (length (varint (length b))) st1"
      "source_ready f rest st1" "stream_bytes rest st1 = b @ r" by auto
  have n: "unat (of_nat (length b) :: u32) = length b" using b by (simp only: unat_of_nat) simp
  have left: "bytes_left st1 = length b + length r" using stream_bytes_length [OF d(3)] d(4) by simp
  define sub where "sub = st1\<lparr>bytes_left := length b\<rparr>"
  define st2 where "st2 = st1\<lparr>bytes_left := length r\<rparr>"
  have make: "pb_make_string_substream st = (Some sub, st2)"
    by (simp add: pb_make_string_substream_def and_then_def d(1) n left sub_def st2_def)
  have sub: "source_ready f rest sub" "stream_bytes rest sub = b"
    using d(3,4) left by (simp_all add: sub_def source_ready_def stream_bytes_def) (metis append_eq_conv_conj take_take min_absorb1 le_add1)
  have "decodes f rest (pb_read False (length b)) b b" by (rule parses_decodes [OF read_parses]) (simp add: p_bytes_def)
  from decodesE [OF this sub(1), of "[]"] sub(2) obtain sub' where
    r: "pb_read False (length b) sub = (Some b, sub')" "advanced f rest sub (length b) sub'" by auto
  have close: "pb_close_string_substream sub' st2 = (Some (), st2\<lparr>istate := istate sub', ierrmsg := ierrmsg sub'\<rparr>)"
    using r(2) by (simp add: pb_close_string_substream_def advanced_def sub_def)
  have "decode_bytes st = (Some b, st2\<lparr>istate := istate sub', ierrmsg := ierrmsg sub'\<rparr>)"
    using r(1) by (simp add: decode_bytes_def and_then_def make close sub_def)
  moreover have "advanced f rest st1 (length b) (st2\<lparr>istate := istate sub', ierrmsg := ierrmsg sub'\<rparr>)"
    using r(2) d(3) left by (auto simp: advanced_def sub_def st2_def source_ready_def)
  ultimately show "\<exists>st'. decode_bytes st = (Some b, st') \<and> advanced f rest st (length (varint (length b) @ b)) st'"
    using advanced_trans [OF d(2)] by auto
qed

lemma value_decodes: "valid_field (tag, v) \<Longrightarrow> decodes f rest (decode_value (kind_of v)) (value_bytes v) v"
  by (cases v) (auto simp: valid_field_def
      intro!: decodes_map varint_decodes svarint_decodes fixed32_decodes fixed64_decodes bytes_decodes)

lemma fields_decodes:
  "\<forall>x \<in> set xs. valid_field x \<Longrightarrow> decodes f rest (decode_fields (map (\<lambda>x. kind_of (snd x)) xs)) (message_bytes xs) xs"
proof (induction xs)
  case Nil
  then show ?case using decodes_return by (simp add: message_bytes_def)
next
  case (Cons x xs)
  obtain tag v where x: "x = (tag, v)" by (rule prod.exhaust)
  have "decodes f rest next_tag (varint (8 * unat tag + kind_wiretype (kind_of v))) (kind_wiretype (kind_of v), tag)"
    by (rule tag_decodes [OF _ _ kind_wiretype_less]) (use Cons.prems x in \<open>simp_all add: valid_field_def\<close>)
  moreover have "decodes f rest (decode_value (kind_of v)) (value_bytes v) v"
    by (rule value_decodes [where tag = tag]) (use Cons.prems x in simp)
  moreover have "decodes f rest (and_then (decode_fields (map (\<lambda>x. kind_of (snd x)) xs)) (\<lambda>xs st. (Some ((tag, v) # xs), st)))
      (message_bytes xs) ((tag, v) # xs)"
    by (rule decodes_map) (use Cons in simp_all)
  ultimately show ?case
    using decodes_and_then [OF _ decodes_and_then]
    by (simp add: x message_bytes_def field_bytes_def) (fastforce intro!: decodes_and_then)
qed

end

section \<open>Skipping\<close>

context byte_source
begin

lemma skip_varint_decodes: "decodes f rest pb_skip_varint (varint n) ()"
proof (induction n rule: varint.induct)
  case (1 n)
  have step: "pb_skip_varint = and_then (pb_read False (Suc 0))
      (\<lambda>byte. if hd byte AND 0x80 \<noteq> 0 then pb_skip_varint else (\<lambda>st. (Some (), st :: 's pb_istream)))"
    by (intro ext) (simp add: pb_skip_varint.simps [of "_ :: 's pb_istream"] and_then_def split: prod.split option.split)
  have read: "decodes f rest (pb_read False (Suc 0)) [b] [b]" for b
    by (rule parses_decodes [OF read_parses]) (simp add: p_bytes_def)
  show ?case
  proof (cases "n < 128")
    case True
    then have "unat (of_nat n :: u8) = n" by (intro unat_u8) simp
    then have "(of_nat n :: u8) AND 0x80 = 0" using True by (simp only: u8_and_80)
    then have "decodes f rest pb_skip_varint ([of_nat n] @ []) ()"
      by (subst step, intro decodes_and_then [OF read]) (simp add: decodes_return)
    with True show ?thesis by (simp add: varint_small)
  next
    case False
    let ?b = "of_nat (n mod 128 + 128) :: u8"
    have "unat ?b = n mod 128 + 128" by (rule unat_u8) simp
    then have "?b AND 0x80 \<noteq> 0" by (simp only: top_bit_set)
    then have "decodes f rest pb_skip_varint ([?b] @ varint (n div 128)) ()"
      using 1 False by (subst step, intro decodes_and_then [OF read]) (simp del: of_nat_add)
    with False show ?thesis by (simp add: varint_big del: of_nat_add)
  qed
qed

lemma skip_unit_decodes: "length b = n \<Longrightarrow> decodes f rest (skip_unit n) b ()"
  by (rule parses_decodes [OF skip_parses]) (simp add: p_skip_def)

lemma skip_string_decodes:
  assumes b: "length b < 2 ^ 32"
  shows "decodes f rest pb_skip_string (varint (length b) @ b) ()"
proof -
  have "unat (of_nat (length b) :: u32) = length b" using b by (simp only: unat_of_nat) simp
  then have "decodes f rest (skip_unit (unat (of_nat (length b) :: u32))) b ()" by (intro skip_unit_decodes) simp
  then show ?thesis unfolding pb_skip_string_def by (rule decodes_and_then [OF varint32_decodes [OF b]])
qed

lemma skip_field_decodes:
  assumes "valid_field (tag, v)"
  shows "decodes f rest (pb_skip_field (kind_wiretype (kind_of v))) (value_bytes v) ()"
  using assms by (cases v) (simp_all add: pb_skip_field_def valid_field_def PB_WT_VARINT_def PB_WT_32BIT_def
      PB_WT_64BIT_def PB_WT_STRING_def skip_varint_decodes skip_unit_decodes skip_string_decodes)

lemma skip_fields_decodes:
  "\<forall>x \<in> set xs. valid_field x \<Longrightarrow> decodes f rest (skip_fields (length xs)) (message_bytes xs) ()"
proof (induction xs)
  case Nil
  then show ?case using decodes_return by (simp add: message_bytes_def)
next
  case (Cons x xs)
  obtain tag v where x: "x = (tag, v)" by (rule prod.exhaust)
  have "decodes f rest next_tag (varint (8 * unat tag + kind_wiretype (kind_of v))) (kind_wiretype (kind_of v), tag)"
    by (rule tag_decodes [OF _ _ kind_wiretype_less]) (use Cons.prems x in \<open>simp_all add: valid_field_def\<close>)
  moreover have "decodes f rest (pb_skip_field (kind_wiretype (kind_of v))) (value_bytes v) ()"
    by (rule skip_field_decodes [where tag = tag]) (use Cons.prems x in simp)
  ultimately show ?case using Cons
    by (simp add: x message_bytes_def field_bytes_def) (fastforce intro!: decodes_and_then)
qed

end

section \<open>Properties\<close>

text \<open>
  C30: On any input stream whose callback delivers the bytes it is asked for, \<^verbatim>\<open>pb_decode_varint\<close>
  returns a value if and only if the input starts with a varint of at most ten bytes, namely its
  value modulo \<open>2 ^ 64\<close>, consumes exactly the varint and sets no error.
\<close>

theorem pb_decode_varint_exact:
  assumes "byte_source f rest"
  shows "parses f rest pb_decode_varint (p_number of_nat (uvarint 10))"
  using assms by (rule byte_source.varint_parses)

theorem pb_decode_varint_exact_witness: "parses buf_read (\<lambda>b. b) pb_decode_varint (p_number of_nat (uvarint 10))"
  by (rule pb_decode_varint_exact) (rule buf.byte_source_axioms)

lemma buffer_ready: "n \<le> length mem \<Longrightarrow> n < 2 ^ 63 \<Longrightarrow> sink_ready buf_write buf_room (pb_ostream_from_buffer mem n)"
  by (simp add: sink_ready_def pb_ostream_from_buffer_def buf_room_def)

lemma buffer_written:
  assumes w: "written buf_write buf_out buf_room bs (pb_ostream_from_buffer mem n) st" and "length bs \<le> length mem"
  shows "st = (pb_ostream_from_buffer mem n)\<lparr>ostate := (blit mem 0 bs, length bs), bytes_written := length bs\<rparr>"
proof -
  from w obtain cs where cs: "concat cs = bs"
    "st = (pb_ostream_from_buffer mem n)\<lparr>ostate := feed buf_write cs (mem, 0), bytes_written := length bs\<rparr>"
    by (auto simp: written_def pb_ostream_from_buffer_def)
  have "feed buf_write cs (mem, 0) = (blit mem 0 bs, length bs)"
    using buffer_feed [of "(mem, 0)" cs] cs(1) assms(2) by simp
  with cs(2) show ?thesis by simp
qed

text \<open>
  C29: What the nanopb helper functions write for a sequence of fields of all wire types is the
  protobuf encoding of the fields: at the start of a buffer that is large enough, leaving the rest of
  the memory alone; with a smaller buffer they fail. The counting stream counts its length.
\<close>

theorem pb_fields_written:
  assumes "\<forall>x \<in> set xs. valid_field x" and "n \<le> length mem" and "n < 2 ^ 63"
  shows "(if length (message_bytes xs) \<le> n
      then \<exists>st. encode_fields xs (pb_ostream_from_buffer mem n) = (True, st)
             \<and> fst (ostate st) = message_bytes xs @ drop (length (message_bytes xs)) mem
             \<and> bytes_written st = length (message_bytes xs)
      else \<not> fst (encode_fields xs (pb_ostream_from_buffer mem n)))
    \<and> bytes_written (snd (encode_fields xs (PB_OSTREAM_SIZING (mem, 0 :: nat)))) = length (message_bytes xs) mod size_t_end"
proof -
  note e = buffer.fields_emits [OF assms(1)]
  have st: "bytes_written (pb_ostream_from_buffer mem n) = 0" "max_size (pb_ostream_from_buffer mem n) = n"
    by (simp_all add: pb_ostream_from_buffer_def)
  have "\<exists>st. encode_fields xs (pb_ostream_from_buffer mem n) = (True, st)
             \<and> fst (ostate st) = message_bytes xs @ drop (length (message_bytes xs)) mem
             \<and> bytes_written st = length (message_bytes xs)" if l: "length (message_bytes xs) \<le> n"
  proof -
    from emitsD(1) [OF e buffer_ready [OF assms(2,3)]] st l obtain st' where
      s: "encode_fields xs (pb_ostream_from_buffer mem n) = (True, st')"
        "written buf_write buf_out buf_room (message_bytes xs) (pb_ostream_from_buffer mem n) st'" by auto
    have "st' = (pb_ostream_from_buffer mem n)\<lparr>ostate := (blit mem 0 (message_bytes xs), length (message_bytes xs)),
        bytes_written := length (message_bytes xs)\<rparr>"
      by (rule buffer_written [OF s(2)]) (use l assms(2) in simp)
    with s(1) show ?thesis by (simp add: blit_def)
  qed
  moreover have "\<not> fst (encode_fields xs (pb_ostream_from_buffer mem n))" if "\<not> length (message_bytes xs) \<le> n"
    by (rule emitsD(2) [OF e buffer_ready [OF assms(2,3)]]) (use that st in simp)
  moreover have "bytes_written (snd (encode_fields xs (PB_OSTREAM_SIZING (mem, 0 :: nat)))) = length (message_bytes xs) mod size_t_end"
    using emitsD(3) [OF e, of "PB_OSTREAM_SIZING (mem, 0 :: nat)"] by (simp add: PB_OSTREAM_SIZING_def size_add_def)
  ultimately show ?thesis by simp
qed

text \<open>Fields of all wire types.\<close>

definition sample_fields :: "(u32 \<times> pb_value) list" where
  "sample_fields = [(1, Varint 300), (2, Svarint (- 1)), (3, Fixed32 7), (4, Fixed64 9), (5, Bytes [1, 2, 3])]"

lemma sample_fields_valid: "\<forall>x \<in> set sample_fields. valid_field x"
  by (simp add: sample_fields_def valid_field_def)

theorem pb_fields_written_witness:
  "(if length (message_bytes sample_fields) \<le> 40
      then \<exists>st. encode_fields sample_fields (pb_ostream_from_buffer (replicate 64 0) 40) = (True, st)
             \<and> fst (ostate st) = message_bytes sample_fields @ drop (length (message_bytes sample_fields)) (replicate 64 0)
             \<and> bytes_written st = length (message_bytes sample_fields)
      else \<not> fst (encode_fields sample_fields (pb_ostream_from_buffer (replicate 64 0) 40)))
    \<and> bytes_written (snd (encode_fields sample_fields (PB_OSTREAM_SIZING (replicate 64 (0 :: u8), 0 :: nat))))
      = length (message_bytes sample_fields) mod size_t_end"
  by (rule pb_fields_written [OF sample_fields_valid]) simp_all

text \<open>
  C28: Reading back what was written restores the fields: for any sequence of fields that fits the
  buffer, decoding tags and values of the expected kinds from the bytes written returns the same
  fields and reaches the end of the stream, where \<^verbatim>\<open>pb_decode_tag\<close> reports the end of the message;
  a reader that knows none of the fields gets to the same place with \<^verbatim>\<open>pb_skip_field\<close>.
\<close>

theorem pb_fields_round_trip:
  assumes "\<forall>x \<in> set xs. valid_field x" and "length (message_bytes xs) \<le> n" and "n \<le> length mem" and "n < 2 ^ 63"
  shows "\<exists>st st1 st2. encode_fields xs (pb_ostream_from_buffer mem n) = (True, st)
    \<and> decode_fields (map (\<lambda>x. kind_of (snd x)) xs)
         (pb_istream_from_buffer (fst (ostate st)) (bytes_written st)) = (Some xs, st1 :: u8 list pb_istream)
    \<and> skip_fields (length xs)
         (pb_istream_from_buffer (fst (ostate st)) (bytes_written st)) = (Some (), st2 :: u8 list pb_istream)
    \<and> fst (snd (pb_decode_tag st1)) \<and> fst (snd (pb_decode_tag st2))"
proof -
  let ?bs = "message_bytes xs"
  have "bytes_written (pb_ostream_from_buffer mem n) + length ?bs \<le> max_size (pb_ostream_from_buffer mem n)"
    using assms(2) by (simp add: pb_ostream_from_buffer_def)
  from emitsD(1) [OF buffer.fields_emits [OF assms(1)] buffer_ready [OF assms(3,4)] this] obtain st where
    e: "encode_fields xs (pb_ostream_from_buffer mem n) = (True, st)"
      "written buf_write buf_out buf_room ?bs (pb_ostream_from_buffer mem n) st" by auto
  have st: "st = (pb_ostream_from_buffer mem n)\<lparr>ostate := (blit mem 0 ?bs, length ?bs), bytes_written := length ?bs\<rparr>"
    by (rule buffer_written [OF e(2)]) (use assms in simp)
  define i where "i = (pb_istream_from_buffer (fst (ostate st)) (bytes_written st) :: u8 list pb_istream)"
  have i: "source_ready buf_read (\<lambda>b. b) i" "stream_bytes (\<lambda>b. b) i = ?bs @ []" "bytes_left i = length ?bs"
    by (simp_all add: i_def st pb_istream_from_buffer_def source_ready_def stream_bytes_def input_bytes_def blit_def)
  have eof: "fst (snd (pb_decode_tag s))" if "advanced buf_read (\<lambda>b. b) i (length ?bs) s" for s :: "u8 list pb_istream"
    using that i(3) by (simp add: advanced_def pb_decode_tag_def pb_decode_varint32_eof_def pb_readbyte_def pb_ierror_def)
  from decodesE [OF buf.fields_decodes [OF assms(1)] i(1,2)] obtain st1 where
    "decode_fields (map (\<lambda>x. kind_of (snd x)) xs) i = (Some xs, st1)" "advanced buf_read (\<lambda>b. b) i (length ?bs) st1" by blast
  moreover from decodesE [OF buf.skip_fields_decodes [OF assms(1)] i(1,2)] obtain st2 where
    "skip_fields (length xs) i = (Some (), st2)" "advanced buf_read (\<lambda>b. b) i (length ?bs) st2" by blast
  ultimately show ?thesis using e(1) eof unfolding i_def by blast
qed

lemma sample_fields_length: "length (message_bytes sample_fields) \<le> 40"
proof -
  have t: "length (varint n) \<le> 2" if "n < 16384" for n using varint_length [of n 1] that by simp
  have z: "zigzag (- 1) = 1" by (simp add: zigzag_def)
  show ?thesis
    using t [of 8] t [of 300] t [of 16] t [of 1] t [of 29] t [of 33] t [of 42] t [of "Suc (Suc (Suc 0))"]
    by (simp add: sample_fields_def message_bytes_def field_bytes_def PB_WT_VARINT_def PB_WT_32BIT_def
        PB_WT_64BIT_def PB_WT_STRING_def z)
qed

theorem pb_fields_round_trip_witness:
  "\<exists>st st1 st2. encode_fields sample_fields (pb_ostream_from_buffer (replicate 64 0) 40) = (True, st)
    \<and> decode_fields (map (\<lambda>x. kind_of (snd x)) sample_fields)
         (pb_istream_from_buffer (fst (ostate st)) (bytes_written st)) = (Some sample_fields, st1 :: u8 list pb_istream)
    \<and> skip_fields (length sample_fields)
         (pb_istream_from_buffer (fst (ostate st)) (bytes_written st)) = (Some (), st2 :: u8 list pb_istream)
    \<and> fst (snd (pb_decode_tag st1)) \<and> fst (snd (pb_decode_tag st2))"
  by (rule pb_fields_round_trip [OF sample_fields_valid sample_fields_length]) simp_all

text \<open>
  \<^verbatim>\<open>pb_decode_varint32\<close> accepts varints that are too long or too large. Its bit position is a
  \<^verbatim>\<open>uint_fast8_t\<close> that wraps around after 37 bytes, so that the 38th byte of a varint can set a bit
  again, where \<^verbatim>\<open>pb_decode_varint\<close> reports an overflow; and the check of the fifth byte is only made
  when it is the last one, so that \<open>2 ^ 32\<close> with a zero byte appended is read as zero, where the
  varint of \<open>2 ^ 32\<close> itself is reported as an overflow.
\<close>

theorem pb_decode_varint32_lenient:
  "fst (pb_decode_varint32 (pb_istream_from_buffer (replicate 37 0x80 @ [1]) 38)) = Some 8
   \<and> fst (pb_decode_varint (pb_istream_from_buffer (replicate 37 0x80 @ [1]) 38)) = None
   \<and> fst (pb_decode_varint32 (pb_istream_from_buffer [0x80, 0x80, 0x80, 0x80, 0x90, 0] 6)) = Some 0
   \<and> fst (pb_decode_varint32 (pb_istream_from_buffer [0x80, 0x80, 0x80, 0x80, 0x10] 5)) = None"
  by code_simp

end
