(* ===== verification/PbScalarProps.thy ===== *)
theory PbScalarProps
  imports PbScalar PbMessage
begin

text \<open>
  The scalar field encoders and decoders are inverse to each other at every width, and the decoders
  report the values that do not fit the field.
\<close>

section \<open>Decoders of fields\<close>

text \<open>
  On a stream that starts with \<open>bs\<close>, the action \<open>d\<close> succeeds, turns the memory \<open>m\<close> into \<open>m'\<close> and is
  then after \<open>bs\<close>.
\<close>

definition fills ::
  "(nat \<Rightarrow> 's \<Rightarrow> u8 list option \<times> 's) \<Rightarrow> ('s \<Rightarrow> u8 list) \<Rightarrow> ('s dstate \<Rightarrow> bool \<times> 's dstate) \<Rightarrow> u8 list \<Rightarrow> memory \<Rightarrow> memory \<Rightarrow> bool" where
  "fills f rest d bs m m' \<longleftrightarrow>
     (\<forall>st r. source_ready f rest st \<and> stream_bytes rest st = bs @ r \<longrightarrow>
        (\<exists>st'. d (m, st) = (True, m', st') \<and> advanced f rest st (length bs) st'))"

lemma fillsI:
  assumes "\<And>st r. source_ready f rest st \<Longrightarrow> stream_bytes rest st = bs @ r \<Longrightarrow>
    \<exists>st'. d (m, st) = (True, m', st') \<and> advanced f rest st (length bs) st'"
  shows "fills f rest d bs m m'"
  using assms by (auto simp: fills_def)

lemma fillsE:
  assumes "fills f rest d bs m m'" and "source_ready f rest st" and "stream_bytes rest st = bs @ r"
  obtains st' where "d (m, st) = (True, m', st')" and "advanced f rest st (length bs) st'"
    and "source_ready f rest st'" and "stream_bytes rest st' = r"
proof -
  from assms obtain st' where s: "d (m, st) = (True, m', st')" "advanced f rest st (length bs) st'"
    by (auto simp: fills_def)
  show thesis by (rule that [OF s]) (use s(2) advanced_bytes [OF s(2)] assms(3) in \<open>simp_all add: advanced_def\<close>)
qed

lemma fills_done: "(\<And>st. d (m, st) = (True, m', st)) \<Longrightarrow> fills f rest d [] m m'"
  by (rule fillsI) (auto intro: advanced_refl)

lemma fills_then:
  assumes d: "decodes f rest d as x" and e: "fills f rest (e x) bs m m'"
  shows "fills f rest (d_then d e) (as @ bs) m m'"
proof (rule fillsI)
  fix st r
  assume st: "source_ready f rest st" and b: "stream_bytes rest st = (as @ bs) @ r"
  from decodesE [OF d st, of "bs @ r"] b obtain st1 where
    s: "d st = (Some x, st1)" "advanced f rest st (length as) st1" "source_ready f rest st1" "stream_bytes rest st1 = bs @ r"
    by auto
  from fillsE [OF e s(3,4)] obtain st2 where "e x (m, st1) = (True, m', st2)" "advanced f rest st1 (length bs) st2" .
  with s(1) advanced_trans [OF s(2)]
  show "\<exists>st'. d_then d e (m, st) = (True, m', st') \<and> advanced f rest st (length (as @ bs)) st'"
    by (auto simp: d_then_def)
qed

lemma fills_then': "decodes f rest d bs x \<Longrightarrow> fills f rest (e x) [] m m' \<Longrightarrow> fills f rest (d_then d e) bs m m'"
  using fills_then [of f rest d bs x e "[]"] by simp

lemma fills_both:
  assumes d: "fills f rest d as m m1" and e: "fills f rest e bs m1 m2"
  shows "fills f rest (both d e) (as @ bs) m m2"
proof (rule fillsI)
  fix st r
  assume st: "source_ready f rest st" and b: "stream_bytes rest st = (as @ bs) @ r"
  from fillsE [OF d st, of "bs @ r"] b obtain st1 where
    s: "d (m, st) = (True, m1, st1)" "advanced f rest st (length as) st1" "source_ready f rest st1" "stream_bytes rest st1 = bs @ r"
    by auto
  from fillsE [OF e s(3,4)] obtain st2 where "e (m1, st1) = (True, m2, st2)" "advanced f rest st1 (length bs) st2" .
  with s(1) advanced_trans [OF s(2)]
  show "\<exists>st'. both d e (m, st) = (True, m2, st') \<and> advanced f rest st (length (as @ bs)) st'"
    by (auto simp: both_def)
qed

lemma fills_store:
  "\<not> differs \<Longrightarrow> fills f rest (store_checked n v differs dest) [] m (blit m dest (le_bytes n (unat v)))"
  by (rule fills_done) (simp add: store_checked_def)

section \<open>Widths\<close>

lemma scast_back: "LENGTH('a) \<le> LENGTH('c) \<Longrightarrow> ucast (scast (x :: 'a::len word) :: 'c::len word) = x"
proof (rule bit_word_eqI)
  fix n
  assume "LENGTH('a) \<le> LENGTH('c)" and "n < LENGTH('a)"
  moreover from this have "n = LENGTH('a) - Suc 0 \<or> n < LENGTH('a) - Suc 0" by linarith
  ultimately show "bit (ucast (scast x :: 'c word) :: 'a word) n = bit x n" by (auto simp: bit_simps min_def)
qed

lemma scast_through:
  "LENGTH('a) \<le> LENGTH('b) \<Longrightarrow> LENGTH('b) \<le> LENGTH('c) \<Longrightarrow>
     scast (ucast (scast (x :: 'a::len word) :: 'c::len word) :: 'b::len word) = (scast x :: 'c word)"
  by (rule bit_word_eqI) (auto simp: bit_simps min_def)

lemma ucast_back: "LENGTH('a) \<le> LENGTH('c) \<Longrightarrow> ucast (ucast (x :: 'a::len word) :: 'c::len word) = x"
  by (rule bit_word_eqI) (auto simp: bit_simps)

lemma le_val_bound: "le_val bs < 256 ^ length bs"
  using be_val_bound [of "rev bs"] by (simp add: le_val_def)

lemma unat_load:
  assumes "n \<le> length src" and "256 ^ n = (2 :: nat) ^ LENGTH('a)"
  shows "le_bytes n (unat (load n src :: 'a::len word)) = take n src"
proof -
  have "le_val (take n src) < 2 ^ LENGTH('a)" using le_val_bound [of "take n src"] assms by simp
  then have "unat (load n src :: 'a word) = le_val (take n src)" by (simp add: unat_of_nat take_bit_nat_eq_self unsigned_of_nat)
  then show ?thesis using le_bytes_val [of "take n src"] assms(1) by simp
qed

section \<open>The first five encoders and decoders\<close>

text \<open>The widths of the C types that a field of a packable type may have.\<close>

definition packable_width :: "pb_type \<Rightarrow> nat \<Rightarrow> bool" where
  "packable_width ltype n \<longleftrightarrow>
     (ltype \<in> {PB_LTYPE_VARINT, PB_LTYPE_UVARINT, PB_LTYPE_SVARINT} \<and> n \<in> {1, 2, 4, 8})
     \<or> (ltype = PB_LTYPE_FIXED32 \<and> n = 4) \<or> (ltype = PB_LTYPE_FIXED64 \<and> n = 8)"

text \<open>The signed value of a little-endian integer, and what each packable type writes for its bytes.\<close>

definition le_sval :: "u8 list \<Rightarrow> int" where
  "le_sval b = signed_take_bit (8 * length b - 1) (int (le_val b))"

definition scalar_wire :: "pb_type \<Rightarrow> u8 list \<Rightarrow> u8 list" where
  "scalar_wire ltype b =
     (if ltype = PB_LTYPE_VARINT then varint (nat (le_sval b mod 2 ^ 64))
      else if ltype = PB_LTYPE_UVARINT then varint (le_val b)
      else if ltype = PB_LTYPE_SVARINT then varint (zigzag (le_sval b))
      else b)"

text \<open>An integer type of \<open>n\<close> bytes is a word of that width.\<close>

lemma load_word:
  fixes x :: "'a::len word"
  assumes "n \<le> length src" and "256 ^ n = (2 :: nat) ^ LENGTH('a)" and "x = load n src"
  shows "le_bytes n (unat x) = take n src"
  using unat_load [OF assms(1,2)] assms(3) by simp

lemma width_bits: "256 ^ n = (2 :: nat) ^ k \<Longrightarrow> k = 8 * n"
proof -
  assume "256 ^ n = (2 :: nat) ^ k"
  then have "(2 :: nat) ^ (8 * n) = 2 ^ k" by (simp add: power_mult)
  then show "k = 8 * n" by (simp only: power_inject_exp)
qed

lemma load_unat:
  assumes "n \<le> length src" and "256 ^ n = (2 :: nat) ^ LENGTH('a)"
  shows "unat (load n src :: 'a::len word) = le_val (take n src)"
proof -
  have "le_val (take n src) < 2 ^ LENGTH('a)" using le_val_bound [of "take n src"] assms by simp
  then show ?thesis by (simp add: unat_of_nat take_bit_nat_eq_self unsigned_of_nat)
qed

lemma load_sint:
  assumes "n \<le> length src" and "256 ^ n = (2 :: nat) ^ LENGTH('a)"
  shows "sint (load n src :: 'a::len word) = le_sval (take n src)"
proof -
  have "sint (load n src :: 'a word) = signed_take_bit (LENGTH('a) - 1) (int (unat (load n src :: 'a word)))"
    by (simp add: signed_take_bit_int_eq_self sint_uint)
  then show ?thesis using load_unat [OF assms] width_bits [OF assms(2)] assms(1) by (simp add: le_sval_def min_absorb2)
qed

lemma unat_scast: "unat (scast (x :: 'a::len word) :: u64) = nat (sint x mod 2 ^ 64)"
proof -
  have "(scast x :: u64) = word_of_int (sint x)" by (rule scast_eq)
  then have "uint (scast x :: u64) = sint x mod 2 ^ 64" by (simp only: uint_word_of_int) simp
  then show ?thesis by (simp add: unat_eq_nat_uint)
qed

lemma unat_ucast_u64:
  assumes "LENGTH('a) \<le> 64"
  shows "unat (ucast (x :: 'a::len word) :: u64) = unat x"
proof -
  have "unat x < 2 ^ LENGTH('a)" by (rule unsigned_less)
  also have "(2 :: nat) ^ LENGTH('a) \<le> 2 ^ 64" using assms by (rule power_increasing) simp
  finally have "take_bit 64 (unat x) = unat x" by (rule take_bit_nat_eq_self)
  then show ?thesis by (simp only: unsigned_ucast_eq) simp
qed

lemma le_sval_8:
  assumes "length b = 8"
  shows "nat (le_sval b mod 2 ^ 64) = le_val b"
proof -
  have "nat (sint (load 8 b :: u64) mod 2 ^ 64) = unat (load 8 b :: u64)"
    using unat_scast [of "load 8 b :: u64"] by (simp only: scast_id)
  moreover have "sint (load 8 b :: u64) = le_sval b" using load_sint [of 8 b, where ?'a = 64] assms by simp
  moreover have "unat (load 8 b :: u64) = le_val b" using load_unat [of 8 b, where ?'a = 64] assms by simp
  ultimately show ?thesis by simp
qed

lemma sint_scast: "LENGTH('a) \<le> LENGTH('b) \<Longrightarrow> sint (scast (x :: 'a::len word) :: 'b::len word) = sint x"
proof -
  assume l: "LENGTH('a) \<le> LENGTH('b)"
  have "bit (sint (scast x :: 'b word)) n = bit (sint x) n" for n
    using l by (auto simp: bit_simps min_def)
  then show ?thesis by (rule bit_eqI)
qed

text \<open>What is written and read as the same word.\<close>

definition carries ::
  "(u8 list \<Rightarrow> 's \<Rightarrow> bool \<times> 's) \<Rightarrow> ('s \<Rightarrow> u8 list) \<Rightarrow> ('s \<Rightarrow> nat)
     \<Rightarrow> (nat \<Rightarrow> 't \<Rightarrow> u8 list option \<times> 't) \<Rightarrow> ('t \<Rightarrow> u8 list)
     \<Rightarrow> ('s pb_ostream \<Rightarrow> bool \<times> 's pb_ostream) \<Rightarrow> 't pb_decoder \<Rightarrow> u8 list \<Rightarrow> u8 list \<Rightarrow> bool" where
  "carries write out room f rest enc dec b bs \<longleftrightarrow>
     emits write out room enc bs \<and> (\<forall>dest m. fills f rest (dec dest) bs m (blit m dest b))"

lemma carriesI:
  assumes "emits write out room f bs" and "decodes f' rest d bs x" and "\<And>dest. dec dest = d_then d (g dest)"
    and "\<And>dest. g dest x = store_checked n v False dest" and "le_bytes n (unat v) = b" and "bs = bs'"
  shows "carries write out room f' rest f dec b bs'"
proof -
  have "fills f' rest (dec dest) bs m (blit m dest b)" for dest m
    using fills_then' [OF assms(2), of "g dest"] fills_store [of False f' rest n v dest m] assms(3-5) by simp
  with assms(1,6) show ?thesis by (auto simp: carries_def)
qed

lemmas wire_simps = scalar_wire_def unat_scast unat_ucast_u64 sint_scast le_sval_8 [simplified] PB_LTYPE_VARINT_def PB_LTYPE_UVARINT_def PB_LTYPE_SVARINT_def
  PB_LTYPE_FIXED32_def PB_LTYPE_FIXED64_def

text \<open>A sink and a source.\<close>

locale byte_pipe = byte_sink "write" out room + byte_source f rest
  for "write" :: "u8 list \<Rightarrow> 's \<Rightarrow> bool \<times> 's" and out room
    and f :: "nat \<Rightarrow> 't \<Rightarrow> u8 list option \<times> 't" and rest
begin

lemma varint_carries:
  assumes "n \<in> {1, 2, 4, 8}" and src: "n \<le> length src"
  shows "carries write out room f rest (pb_enc_varint n src) (pb_dec_varint n) (take n src) (scalar_wire PB_LTYPE_VARINT (take n src))"
proof -
  consider "n = 1" | "n = 2" | "n = 4" | "n = 8" using assms by auto
  then show ?thesis
  proof cases
    case 1
    have e: "pb_enc_varint n src = (pb_encode_varint (scast (load n src :: 8 word)) :: 's pb_ostream \<Rightarrow> _)" by (simp add: pb_enc_varint_def 1)
    show ?thesis unfolding e
      by (rule carriesI [OF varint_emits varint_decodes _ _ load_word [OF src _ refl, where ?'a = 8]])
        (rule pb_dec_varint_def, insert src, simp_all add: 1 Let_def scast_back scast_through ucast_back wire_simps load_unat load_sint)
  next
    case 2
    have e: "pb_enc_varint n src = (pb_encode_varint (scast (load n src :: 16 word)) :: 's pb_ostream \<Rightarrow> _)" by (simp add: pb_enc_varint_def 2)
    show ?thesis unfolding e
      by (rule carriesI [OF varint_emits varint_decodes _ _ load_word [OF src _ refl, where ?'a = 16]])
        (rule pb_dec_varint_def, insert src, simp_all add: 2 Let_def scast_back scast_through ucast_back wire_simps load_unat load_sint)
  next
    case 3
    have e: "pb_enc_varint n src = (pb_encode_varint (scast (load n src :: 32 word)) :: 's pb_ostream \<Rightarrow> _)" by (simp add: pb_enc_varint_def 3)
    show ?thesis unfolding e
      by (rule carriesI [OF varint_emits varint_decodes _ _ load_word [OF src _ refl, where ?'a = 32]])
        (rule pb_dec_varint_def, insert src, simp_all add: 3 Let_def scast_back scast_through ucast_back wire_simps load_unat load_sint)
  next
    case 4
    have e: "pb_enc_varint n src = (pb_encode_varint (load n src) :: 's pb_ostream \<Rightarrow> _)" by (simp add: pb_enc_varint_def 4)
    show ?thesis unfolding e
      by (rule carriesI [OF varint_emits varint_decodes _ _ load_word [OF src _ refl, where ?'a = 64]])
        (rule pb_dec_varint_def, insert src, simp_all add: 4 Let_def scast_back scast_through ucast_back wire_simps load_unat load_sint)
  qed
qed

lemma uvarint_carries:
  assumes "n \<in> {1, 2, 4, 8}" and src: "n \<le> length src"
  shows "carries write out room f rest (pb_enc_uvarint n src) (pb_dec_uvarint n) (take n src) (scalar_wire PB_LTYPE_UVARINT (take n src))"
proof -
  consider "n = 1" | "n = 2" | "n = 4" | "n = 8" using assms by auto
  then show ?thesis
  proof cases
    case 1
    have e: "pb_enc_uvarint n src = (pb_encode_varint (ucast (load n src :: 8 word)) :: 's pb_ostream \<Rightarrow> _)" by (simp add: pb_enc_uvarint_def 1)
    show ?thesis unfolding e
      by (rule carriesI [OF varint_emits varint_decodes _ _ load_word [OF src _ refl, where ?'a = 8]])
        (rule pb_dec_uvarint_def, insert src, simp_all add: 1 Let_def scast_back scast_through ucast_back wire_simps load_unat load_sint)
  next
    case 2
    have e: "pb_enc_uvarint n src = (pb_encode_varint (ucast (load n src :: 16 word)) :: 's pb_ostream \<Rightarrow> _)" by (simp add: pb_enc_uvarint_def 2)
    show ?thesis unfolding e
      by (rule carriesI [OF varint_emits varint_decodes _ _ load_word [OF src _ refl, where ?'a = 16]])
        (rule pb_dec_uvarint_def, insert src, simp_all add: 2 Let_def scast_back scast_through ucast_back wire_simps load_unat load_sint)
  next
    case 3
    have e: "pb_enc_uvarint n src = (pb_encode_varint (ucast (load n src :: 32 word)) :: 's pb_ostream \<Rightarrow> _)" by (simp add: pb_enc_uvarint_def 3)
    show ?thesis unfolding e
      by (rule carriesI [OF varint_emits varint_decodes _ _ load_word [OF src _ refl, where ?'a = 32]])
        (rule pb_dec_uvarint_def, insert src, simp_all add: 3 Let_def scast_back scast_through ucast_back wire_simps load_unat load_sint)
  next
    case 4
    have e: "pb_enc_uvarint n src = (pb_encode_varint (load n src) :: 's pb_ostream \<Rightarrow> _)" by (simp add: pb_enc_uvarint_def 4)
    show ?thesis unfolding e
      by (rule carriesI [OF varint_emits varint_decodes _ _ load_word [OF src _ refl, where ?'a = 64]])
        (rule pb_dec_uvarint_def, insert src, simp_all add: 4 Let_def scast_back scast_through ucast_back wire_simps load_unat load_sint)
  qed
qed

lemma svarint_carries:
  assumes "n \<in> {1, 2, 4, 8}" and src: "n \<le> length src"
  shows "carries write out room f rest (pb_enc_svarint n src) (pb_dec_svarint n) (take n src) (scalar_wire PB_LTYPE_SVARINT (take n src))"
proof -
  consider "n = 1" | "n = 2" | "n = 4" | "n = 8" using assms by auto
  then show ?thesis
  proof cases
    case 1
    have e: "pb_enc_svarint n src = (pb_encode_svarint (scast (load n src :: 8 word)) :: 's pb_ostream \<Rightarrow> _)" by (simp add: pb_enc_svarint_def 1)
    show ?thesis unfolding e
      by (rule carriesI [OF svarint_emits svarint_decodes _ _ load_word [OF src _ refl, where ?'a = 8]])
        (rule pb_dec_svarint_def, insert src, simp_all add: 1 Let_def scast_back scast_through ucast_back wire_simps load_unat load_sint)
  next
    case 2
    have e: "pb_enc_svarint n src = (pb_encode_svarint (scast (load n src :: 16 word)) :: 's pb_ostream \<Rightarrow> _)" by (simp add: pb_enc_svarint_def 2)
    show ?thesis unfolding e
      by (rule carriesI [OF svarint_emits svarint_decodes _ _ load_word [OF src _ refl, where ?'a = 16]])
        (rule pb_dec_svarint_def, insert src, simp_all add: 2 Let_def scast_back scast_through ucast_back wire_simps load_unat load_sint)
  next
    case 3
    have e: "pb_enc_svarint n src = (pb_encode_svarint (scast (load n src :: 32 word)) :: 's pb_ostream \<Rightarrow> _)" by (simp add: pb_enc_svarint_def 3)
    show ?thesis unfolding e
      by (rule carriesI [OF svarint_emits svarint_decodes _ _ load_word [OF src _ refl, where ?'a = 32]])
        (rule pb_dec_svarint_def, insert src, simp_all add: 3 Let_def scast_back scast_through ucast_back wire_simps load_unat load_sint)
  next
    case 4
    have e: "pb_enc_svarint n src = (pb_encode_svarint (load n src) :: 's pb_ostream \<Rightarrow> _)" by (simp add: pb_enc_svarint_def 4)
    show ?thesis unfolding e
      by (rule carriesI [OF svarint_emits svarint_decodes _ _ load_word [OF src _ refl, where ?'a = 64]])
        (rule pb_dec_svarint_def, insert src, simp_all add: 4 Let_def scast_back scast_through ucast_back wire_simps load_unat load_sint)
  qed
qed

lemma fixed32_carries:
  assumes "4 \<le> length src"
  shows "carries write out room f rest (pb_enc_fixed32 src) pb_dec_fixed32 (take 4 src) (scalar_wire PB_LTYPE_FIXED32 (take 4 src))"
proof (rule carriesI [where v = "load 4 src :: u32" and x = "load 4 src :: u32"])
  show "emits write out room (pb_enc_fixed32 src) (le_bytes 4 (unat (load 4 src :: u32)))"
    using write_all_emits [of "le_bytes 4 (unat (load 4 src :: u32))"]
    by (simp add: pb_enc_fixed32_def pb_encode_fixed32_def [abs_def] fixed32_bytes)
  show "decodes f rest pb_decode_fixed32 (le_bytes 4 (unat (load 4 src :: u32))) (load 4 src)" by (rule fixed32_decodes)
  show "le_bytes 4 (unat (load 4 src :: u32)) = take 4 src" by (rule unat_load) (use assms in simp_all)
  then show "le_bytes 4 (unat (load 4 src :: u32)) = scalar_wire PB_LTYPE_FIXED32 (take 4 src)" by (simp add: wire_simps)
qed (simp_all add: pb_dec_fixed32_def)

lemma fixed64_carries:
  assumes "8 \<le> length src"
  shows "carries write out room f rest (pb_enc_fixed64 src) pb_dec_fixed64 (take 8 src) (scalar_wire PB_LTYPE_FIXED64 (take 8 src))"
proof (rule carriesI [where v = "load 8 src :: u64" and x = "load 8 src :: u64"])
  show "emits write out room (pb_enc_fixed64 src) (le_bytes 8 (unat (load 8 src :: u64)))"
    using write_all_emits [of "le_bytes 8 (unat (load 8 src :: u64))"]
    by (simp add: pb_enc_fixed64_def pb_encode_fixed64_def [abs_def] fixed64_bytes)
  show "decodes f rest pb_decode_fixed64 (le_bytes 8 (unat (load 8 src :: u64))) (load 8 src)" by (rule fixed64_decodes)
  show "le_bytes 8 (unat (load 8 src :: u64)) = take 8 src" by (rule unat_load) (use assms in simp_all)
  then show "le_bytes 8 (unat (load 8 src :: u64)) = scalar_wire PB_LTYPE_FIXED64 (take 8 src)" by (simp add: wire_simps)
qed (simp_all add: pb_dec_fixed64_def)

lemma packable_carries:
  assumes "packable_width ltype n" and "n \<le> length src"
  shows "carries write out room f rest (packable_encoder ltype n src) (packable_decoder ltype n) (take n src) (scalar_wire ltype (take n src))"
  using assms varint_carries uvarint_carries svarint_carries fixed32_carries fixed64_carries
  by (auto simp: packable_width_def packable_encoder_def packable_decoder_def PB_LTYPE_VARINT_def
      PB_LTYPE_UVARINT_def PB_LTYPE_SVARINT_def PB_LTYPE_FIXED32_def PB_LTYPE_FIXED64_def)

end

interpretation pipe: byte_pipe buf_write buf_out buf_room buf_read "\<lambda>b. b" ..

section \<open>Values that do not fit\<close>

lemma ucast_fits: "ucast (ucast (v :: 'c::len word) :: 'a::len word) = v \<longleftrightarrow> unat v < 2 ^ LENGTH('a)"
  if "LENGTH('a) \<le> LENGTH('c)"
proof -
  have "unat (ucast (ucast v :: 'a word) :: 'c word) = unat v mod 2 ^ LENGTH('a)"
    using that by (simp only: unsigned_ucast_eq ucast_id unsigned_take_bit_eq take_bit_take_bit min_absorb2) (simp only: take_bit_eq_mod)
  then show ?thesis by (simp add: word_unat_eq_iff mod_eq_self_iff_div_eq_0 div_eq_0_iff)
qed

lemma scast_fits: "scast (ucast (v :: 'c::len word) :: 'a::len word) = v \<longleftrightarrow>
    - (2 ^ (LENGTH('a) - 1)) \<le> sint v \<and> sint v < 2 ^ (LENGTH('a) - 1)"
  if "LENGTH('a) \<le> LENGTH('c)"
proof -
  have "bit (sint (scast (ucast v :: 'a word) :: 'c word)) n = bit (signed_take_bit (LENGTH('a) - 1) (sint v)) n" for n
    using that by (auto simp: bit_simps min_def)
  then have "sint (scast (ucast v :: 'a word) :: 'c word) = signed_take_bit (LENGTH('a) - 1) (sint v)"
    by (rule bit_eqI)
  then have "scast (ucast v :: 'a word) = v \<longleftrightarrow> signed_take_bit (LENGTH('a) - 1) (sint v) = sint v"
    by (metis signed_word_eqI)
  then show ?thesis by (simp only: signed_take_bit_int_eq_self_iff)
qed

context byte_source
begin

lemma store_checked_iff: "fst (store_checked n v differs dest st) \<longleftrightarrow> \<not> differs"
  by (simp add: store_checked_def Let_def pb_derror_def)

lemma d_then_iff:
  assumes "decodes f rest d bs x" and "source_ready f rest st" and "stream_bytes rest st = bs @ r"
    and "\<And>st'. fst (g x st') \<longleftrightarrow> P"
  shows "fst (d_then d g (m, st)) \<longleftrightarrow> P"
proof -
  from decodesE [OF assms(1-3)] obtain st' where "d st = (Some x, st')" by blast
  then show ?thesis using assms(4) [of "(m, st')"] by (simp add: d_then_def)
qed

lemma uvarint_fits:
  fixes v :: u64
  assumes n: "n \<in> {1, 2, 4, 8}" and st: "source_ready f rest st" "stream_bytes rest st = varint (unat v) @ r"
  shows "fst (pb_dec_uvarint n dest (m, st)) \<longleftrightarrow> unat v < 256 ^ n"
proof -
  have "unat v < 2 ^ 64" using unsigned_less [of v, where ?'a = nat] by simp
  then show ?thesis using n unfolding pb_dec_uvarint_def
    by (intro d_then_iff [OF varint_decodes st]) (auto simp: store_checked_iff Let_def ucast_fits)
qed

lemma svarint_fits:
  fixes v :: u64
  assumes n: "n \<in> {1, 2, 4, 8}" and st: "source_ready f rest st" "stream_bytes rest st = varint (zigzag (sint v)) @ r"
  shows "fst (pb_dec_svarint n dest (m, st)) \<longleftrightarrow> - (256 ^ n div 2) \<le> sint v \<and> sint v < 256 ^ n div 2"
proof -
  have "- (2 ^ 63) \<le> sint v" "sint v < 2 ^ 63" using sint_greater_eq [of v] sint_less [of v] by simp_all
  then show ?thesis using n unfolding pb_dec_svarint_def
    by (intro d_then_iff [OF svarint_decodes st]) (auto simp: store_checked_iff Let_def scast_fits)
qed

end

section \<open>Staying inside the field\<close>

text \<open>\<open>outside_same\<close>: the memories differ only in the \<open>n\<close> bytes from \<open>p\<close> on.\<close>

definition outside_same :: "nat \<Rightarrow> nat \<Rightarrow> memory \<Rightarrow> memory \<Rightarrow> bool" where
  "outside_same p n m m' \<longleftrightarrow> length m' = length m \<and> take p m' = take p m \<and> drop (p + n) m' = drop (p + n) m"

lemma outside_same_refl [simp]: "outside_same p n m m"
  by (simp add: outside_same_def)

lemma outside_same_trans: "outside_same p n m m1 \<Longrightarrow> outside_same p n m1 m2 \<Longrightarrow> outside_same p n m m2"
  by (simp add: outside_same_def)

lemma outside_same_length: "outside_same p n m m' \<Longrightarrow> length m' = length m"
  by (simp add: outside_same_def)

lemma outside_same_mono:
  assumes "outside_same p n m m'" and "q \<le> p" and "p + n \<le> q + k"
  shows "outside_same q k m m'"
proof -
  have "take q x = take q (take p x)" "drop (q + k) x = drop (q + k - (p + n)) (drop (p + n) x)" for x :: memory
    using assms(2,3) by (simp_all add: min.absorb1)
  then have "take q m' = take q m" "drop (q + k) m' = drop (q + k) m"
    using assms(1) unfolding outside_same_def by metis+
  then show ?thesis using assms(1) by (simp add: outside_same_def)
qed

lemma outside_same_blit:
  assumes "p \<le> q" and "q + length b \<le> p + n" and "p + n \<le> length m"
  shows "outside_same p n m (blit m q b)"
proof -
  have "outside_same q (length b) m (blit m q b)" using assms by (simp add: outside_same_def blit_def)
  then show ?thesis by (rule outside_same_mono) (use assms in simp_all)
qed

lemma outside_same_update:
  assumes "p \<le> q" and "q < p + n"
  shows "outside_same p n m (m[q := x])"
  using assms by (simp add: outside_same_def)

text \<open>\<open>moved\<close>: the stream is the other one after some more bytes have been read.\<close>

definition moved :: "(nat \<Rightarrow> 's \<Rightarrow> u8 list option \<times> 's) \<Rightarrow> ('s \<Rightarrow> u8 list) \<Rightarrow> 's pb_istream \<Rightarrow> 's pb_istream \<Rightarrow> bool" where
  "moved f rest st st' \<longleftrightarrow>
     source_ready f rest st' \<and> bytes_left st' \<le> bytes_left st
     \<and> input_bytes rest (istate st') = drop (bytes_left st - bytes_left st') (input_bytes rest (istate st))"

lemma moved_refl [simp]: "source_ready f rest st \<Longrightarrow> moved f rest st st"
  by (simp add: moved_def)

lemma moved_trans: "moved f rest st st1 \<Longrightarrow> moved f rest st1 st2 \<Longrightarrow> moved f rest st st2"
  by (auto simp: moved_def)

lemma moved_ready: "moved f rest st st' \<Longrightarrow> source_ready f rest st'"
  by (simp add: moved_def)

lemma advanced_moved: "advanced f rest st n st' \<Longrightarrow> moved f rest st st'"
  by (auto simp: advanced_def moved_def)

text \<open>
  Whatever the input, \<open>d\<close> writes to the \<open>n\<close> bytes from \<open>p\<close> on only, and a success leaves the stream good
  for further reading. \<open>keeps\<close> is the latter for reading functions.
\<close>

definition inside ::
  "(nat \<Rightarrow> 's \<Rightarrow> u8 list option \<times> 's) \<Rightarrow> ('s \<Rightarrow> u8 list) \<Rightarrow> nat \<Rightarrow> nat \<Rightarrow> ('s dstate \<Rightarrow> bool \<times> 's dstate) \<Rightarrow> bool" where
  "inside f rest p n d \<longleftrightarrow>
     (\<forall>m st ok m' st'. p + n \<le> length m \<longrightarrow> source_ready f rest st \<longrightarrow> d (m, st) = (ok, m', st') \<longrightarrow>
        outside_same p n m m' \<and> (ok \<longrightarrow> moved f rest st st'))"

lemma insideD:
  assumes "inside f rest p n d" and "p + n \<le> length m" and "source_ready f rest st" and "d (m, st) = (ok, m', st')"
  shows "outside_same p n m m'" and "ok \<Longrightarrow> moved f rest st st'"
  using assms unfolding inside_def by blast+

lemma insideI:
  assumes "\<And>m st ok m' st'. p + n \<le> length m \<Longrightarrow> source_ready f rest st \<Longrightarrow> d (m, st) = (ok, m', st') \<Longrightarrow>
    outside_same p n m m' \<and> (ok \<longrightarrow> moved f rest st st')"
  shows "inside f rest p n d"
  using assms unfolding inside_def by blast

definition keeps :: "(nat \<Rightarrow> 's \<Rightarrow> u8 list option \<times> 's) \<Rightarrow> ('s \<Rightarrow> u8 list) \<Rightarrow> ('s pb_istream \<Rightarrow> 'a option \<times> 's pb_istream) \<Rightarrow> bool" where
  "keeps f rest d \<longleftrightarrow> (\<forall>st x st'. source_ready f rest st \<longrightarrow> d st = (Some x, st') \<longrightarrow> moved f rest st st')"

lemma parses_keeps: "parses f rest d p \<Longrightarrow> keeps f rest d"
  unfolding keeps_def
proof (intro allI impI)
  fix st x st'
  assume d: "parses f rest d p" and st: "source_ready f rest st" and r: "d st = (Some x, st')"
  show "moved f rest st st'"
  proof (cases "p (stream_bytes rest st)")
    case None
    with parsesD(1) [OF d st] r show ?thesis by simp
  next
    case (Some a)
    then obtain y t where "p (stream_bytes rest st) = Some (y, t)" by (cases a) simp
    from parsesD(2) [OF d st this] r show ?thesis by (auto dest: advanced_moved)
  qed
qed

lemma keeps_map: "keeps f rest d \<Longrightarrow> keeps f rest (and_then d (\<lambda>x st. (Some (g x), st)))"
  unfolding keeps_def and_then_def by (auto split: prod.splits option.splits)

lemma inside_then:
  assumes d: "keeps f rest d" and e: "\<And>x. inside f rest p n (e x)"
  shows "inside f rest p n (d_then d e)"
proof (rule insideI)
  fix m st ok m' st'
  assume l: "p + n \<le> length m" and st: "source_ready f rest st" and r: "d_then d e (m, st) = (ok, m', st')"
  obtain o' st1 where d1: "d st = (o', st1)" by (rule prod.exhaust)
  show "outside_same p n m m' \<and> (ok \<longrightarrow> moved f rest st st')"
  proof (cases o')
    case None
    with r d1 show ?thesis by (simp add: d_then_def)
  next
    case (Some x)
    with d d1 st have s1: "moved f rest st st1" by (auto simp: keeps_def)
    moreover have "e x (m, st1) = (ok, m', st')" using r d1 Some by (simp add: d_then_def)
    ultimately show ?thesis using insideD [OF e l moved_ready [OF s1]] moved_trans [OF s1] by blast
  qed
qed

lemma inside_both:
  assumes d: "inside f rest p n d" and e: "inside f rest p n e"
  shows "inside f rest p n (both d e)"
proof (rule insideI)
  fix m st ok m' st'
  assume l: "p + n \<le> length m" and st: "source_ready f rest st" and r: "both d e (m, st) = (ok, m', st')"
  obtain ok1 m1 st1 where d1: "d (m, st) = (ok1, m1, st1)" by (rule prod_cases3)
  note D = insideD [OF d l st d1]
  show "outside_same p n m m' \<and> (ok \<longrightarrow> moved f rest st st')"
  proof (cases ok1)
    case False
    with r d1 D show ?thesis by (simp add: both_def)
  next
    case True
    with r d1 have e1: "e (m1, st1) = (ok, m', st')" by (simp add: both_def)
    have l1: "p + n \<le> length m1" using l outside_same_length [OF D(1)] by simp
    from insideD [OF e l1 moved_ready [OF D(2) [OF True]] e1] outside_same_trans [OF D(1)] moved_trans [OF D(2) [OF True]]
    show ?thesis by blast
  qed
qed

lemma inside_mono: "inside f rest p n d \<Longrightarrow> q \<le> p \<Longrightarrow> p + n \<le> q + k \<Longrightarrow> inside f rest q k d"
proof (rule insideI)
  fix m st ok m' st'
  assume d: "inside f rest p n d" and q: "q \<le> p" "p + n \<le> q + k" and l: "q + k \<le> length m"
    and st: "source_ready f rest st" and r: "d (m, st) = (ok, m', st')"
  have "p + n \<le> length m" using l q by linarith
  from insideD [OF d this st r] outside_same_mono [OF _ q] show "outside_same q k m m' \<and> (ok \<longrightarrow> moved f rest st st')"
    by blast
qed

lemma inside_error: "inside f rest p n (pb_derror msg)"
  by (rule insideI) (auto simp: pb_derror_def)

lemma inside_store: "n \<le> k \<Longrightarrow> inside f rest p k (store_checked n v differs p)"
  by (rule insideI) (auto simp: store_checked_def Let_def pb_derror_def split: if_splits intro!: outside_same_blit)

lemma inside_write:
  "p \<le> q \<Longrightarrow> q + length b \<le> p + n \<Longrightarrow> inside f rest p n (\<lambda>st. (True, blit (fst st) q b, snd st))"
  by (rule insideI) (auto intro: outside_same_blit)

context byte_source
begin

lemma varint32_keeps: "keeps f rest pb_decode_varint32"
proof -
  have byte: "moved f rest st st1" if "source_ready f rest st" "pb_readbyte st = (Some b, st1)" for st st1 b
    using parses_keeps [OF readbyte_parses] that unfolding keeps_def by blast
  have loop: "source_ready f rest st \<Longrightarrow> varint32_loop i result st = (Some x, st') \<Longrightarrow> moved f rest st st'"
    for i result x and st st' :: "'s pb_istream"
  proof (induction i result st rule: varint32_loop.induct)
    case (1 i result st)
    obtain o' st1 where b: "pb_readbyte st = (o', st1)" by (rule prod.exhaust)
    from "1.prems"(2) b obtain c where o': "o' = Some c"
      by (cases o') (simp_all add: varint32_loop.simps [of i])
    have s1: "moved f rest st st1" using byte [OF "1.prems"(1)] b o' by simp
    show ?case using "1.prems"(2) "1.IH" [OF b [symmetric] o'] s1 moved_ready [OF s1] moved_trans [OF s1]
      by (simp add: varint32_loop.simps [of i] b o' pb_ierror_def Let_def split: if_splits)
  qed
  show ?thesis unfolding keeps_def
  proof (intro allI impI)
    fix st x st'
    assume st: "source_ready f rest st" and r: "pb_decode_varint32 st = (Some x, st')"
    obtain o' st1 where b: "pb_readbyte st = (o', st1)" by (rule prod.exhaust)
    from r b obtain c where o': "o' = Some c" by (cases o') (simp_all add: pb_decode_varint32_def pb_decode_varint32_eof_def)
    with byte [OF st] b have s1: "moved f rest st st1" by simp
    from r b o' have "st' = st1 \<or> varint32_loop 7 (ucast (c AND 0x7F)) st1 = (Some x, st')"
      by (auto simp: pb_decode_varint32_def pb_decode_varint32_eof_def split: if_splits prod.splits)
    with s1 loop [OF moved_ready [OF s1]] moved_trans [OF s1] show "moved f rest st st'" by blast
  qed
qed

lemma read_length:
  assumes st: "source_ready f rest st" and r: "pb_read False n st = (Some b, st')"
  shows "length b = n"
proof (cases "p_bytes n (stream_bytes rest st)")
  case None
  from parsesD(1) [OF read_parses st this] r show ?thesis by simp
next
  case (Some c)
  then obtain x t where c: "p_bytes n (stream_bytes rest st) = Some (x, t)" by (cases c) simp
  from parsesD(2) [OF read_parses st c] r have "b = x" by auto
  with c show ?thesis by (auto simp: p_bytes_def split: if_splits)
qed

lemma inside_read:
  assumes "p \<le> q" and "q + n \<le> p + k"
  shows "inside f rest p k (read_into n q)"
proof (rule insideI)
  fix m ok m' and st st' :: "'s pb_istream"
  assume l: "p + k \<le> length m" and st: "source_ready f rest st" and r: "read_into n q (m, st) = (ok, m', st')"
  obtain o' st1 where d: "pb_read False n st = (o', st1)" by (rule prod.exhaust)
  show "outside_same p k m m' \<and> (ok \<longrightarrow> moved f rest st st')"
  proof (cases o')
    case None
    with r d show ?thesis by (simp add: read_into_def d_then_def)
  next
    case (Some b)
    with d st parses_keeps [OF read_parses, of n] have "moved f rest st st1" unfolding keeps_def by blast
    moreover have "length b = n" using read_length [OF st] d Some by simp
    ultimately show ?thesis using r d Some l assms by (auto simp: read_into_def d_then_def intro: outside_same_blit)
  qed
qed

lemma packable_inside:
  assumes "packable_width ltype n"
  shows "inside f rest dest n (packable_decoder ltype n dest)"
proof -
  have K: "keeps f rest pb_decode_varint" by (rule parses_keeps [OF varint_parses])
  have "keeps f rest pb_decode_svarint" unfolding pb_decode_svarint_def by (rule keeps_map [OF K])
  note K = K this
  have "keeps f rest pb_decode_fixed32" "keeps f rest pb_decode_fixed64"
    unfolding pb_decode_fixed32_def pb_decode_fixed64_def by (rule keeps_map, rule parses_keeps [OF read_parses])+
  note K = K this
  have "inside f rest dest n (pb_dec_varint n dest)" "inside f rest dest n (pb_dec_uvarint n dest)"
    "inside f rest dest n (pb_dec_svarint n dest)" if "n \<in> {1, 2, 4, 8}"
    unfolding pb_dec_varint_def pb_dec_uvarint_def pb_dec_svarint_def using that
    by (auto intro!: inside_then [OF K(1)] inside_then [OF K(2)] inside_store simp: Let_def)
  moreover have "inside f rest dest 4 (pb_dec_fixed32 dest)" "inside f rest dest 8 (pb_dec_fixed64 dest)"
    unfolding pb_dec_fixed32_def pb_dec_fixed64_def
    by (auto intro!: inside_then [OF K(3)] inside_then [OF K(4)] inside_store)
  ultimately show ?thesis using assms
    by (auto simp: packable_width_def packable_decoder_def PB_LTYPE_VARINT_def
      PB_LTYPE_UVARINT_def PB_LTYPE_SVARINT_def PB_LTYPE_FIXED32_def PB_LTYPE_FIXED64_def)
qed

lemma bytes_inside:
  assumes "PB_ATYPE type \<noteq> PB_ATYPE_POINTER"
  shows "inside f rest dest n (pb_dec_bytes R type n dest)"
  unfolding pb_dec_bytes_def
proof (rule inside_then [OF varint32_keeps])
  fix sz :: u32
  have "unat sz < 2 ^ 32" using unsigned_less [of sz, where ?'a = nat] by simp
  then have a: "PB_BYTES_ARRAY_T_ALLOCSIZE (unat sz) = unat sz + 4"
    by (simp add: PB_BYTES_ARRAY_T_ALLOCSIZE_def size_add_def)
  have "inside f rest dest n (\<lambda>st. read_into (unat sz) (dest + 4) (store_size dest (unat sz) (fst st), snd st))"
    if "unat sz + 4 \<le> n"
  proof -
    have "inside f rest dest n (both (\<lambda>st. (True, blit (fst st) dest (le_bytes 4 (unat sz)), snd st)) (read_into (unat sz) (dest + 4)))"
      by (intro inside_both inside_write inside_read) (use that in simp_all)
    then show ?thesis by (simp add: both_def [abs_def] store_size_def)
  qed
  then show "inside f rest dest n (let sz = unat sz; alloc_size = PB_BYTES_ARRAY_T_ALLOCSIZE sz;
                fill = (\<lambda>bdest st. read_into sz (bdest + 4) (store_size bdest sz (fst st), snd st))
            in if sz > PB_SIZE_MAX then pb_derror ''bytes overflow''
               else if sz > alloc_size then pb_derror ''size too large''
               else if PB_ATYPE type = PB_ATYPE_POINTER
               then both (allocate_field R alloc_size 1 dest) (\<lambda>st. fill (load_ptr (fst st) dest) st)
               else if alloc_size > n then pb_derror ''bytes overflow''
               else fill dest)"
    using assms a by (auto simp: Let_def inside_error)
qed

lemma string_inside:
  assumes "PB_ATYPE type \<noteq> PB_ATYPE_POINTER"
  shows "inside f rest dest n (pb_dec_string R type n dest)"
  unfolding pb_dec_string_def
proof (rule inside_then [OF varint32_keeps])
  fix sz :: u32
  let ?fill = "\<lambda>dest st. case read_into (unat sz) dest st of (status, m, stream) \<Rightarrow> (status, m[dest + unat sz := 0], stream :: 's pb_istream)"
  have fill: "inside f rest dest n (?fill dest)" if "unat sz < n"
  proof (rule insideI)
    fix m ok m' and st st' :: "'s pb_istream"
    assume l: "dest + n \<le> length m" and st: "source_ready f rest st" and r: "?fill dest (m, st) = (ok, m', st')"
    obtain ok1 m1 st1 where d: "read_into (unat sz) dest (m, st) = (ok1, m1, st1)" by (rule prod_cases3)
    have "inside f rest dest n (read_into (unat sz) dest)" by (rule inside_read) (use that in simp_all)
    note D = insideD [OF this l st d]
    have "outside_same dest n m1 (m1[dest + unat sz := 0])" by (rule outside_same_update) (use that in simp_all)
    from outside_same_trans [OF D(1) this] D(2) r d show "outside_same dest n m m' \<and> (ok \<longrightarrow> moved f rest st st')"
      by auto
  qed
  have "unat sz < n" if "\<not> unat (sz + 1) < unat sz" "\<not> n < unat (sz + 1)"
  proof -
    have w: "unat (sz + 1) = (unat sz + 1) mod 2 ^ 32" by (simp add: unat_word_ariths)
    have "unat sz < 2 ^ 32" using unsigned_less [of sz, where ?'a = nat] by simp
    then have "unat sz + 1 < 2 ^ 32 \<or> unat sz + 1 = 2 ^ 32" by linarith
    then have "unat (sz + 1) = unat sz + 1" using w that by auto
    then show ?thesis using that by simp
  qed
  with fill assms show "inside f rest dest n (let alloc_size = unat (sz + 1); fill = ?fill
            in if alloc_size < unat sz then pb_derror ''size too large''
               else if PB_ATYPE type = PB_ATYPE_POINTER
               then both (allocate_field R alloc_size 1 dest) (\<lambda>st. fill (load_ptr (fst st) dest) st)
               else if alloc_size > n then pb_derror ''string overflow''
               else fill dest)"
    by (auto simp: Let_def inside_error)
qed

lemma fixed_length_inside: "inside f rest dest n (pb_dec_fixed_length_bytes n dest)"
  unfolding pb_dec_fixed_length_bytes_def
  by (rule inside_then [OF varint32_keeps]) (auto intro: inside_error inside_write inside_read)

end

section \<open>Properties\<close>

text \<open>
  C31: What a scalar field encoder writes for a C integer of any width, the decoder of the same field
  type stores back: for every packable field type and width, on any output callback that appends and
  any input callback that delivers, the decoder leaves the same bytes at the destination, touches
  no other memory and consumes exactly what the encoder wrote.
\<close>

theorem pb_scalar_round_trip:
  assumes "byte_sink write out room" and "byte_source f rest" and "packable_width ltype n" and "n \<le> length src"
  defines "bs \<equiv> scalar_wire ltype (take n src)"
  shows "emits write out room (packable_encoder ltype n src) bs
    \<and> (\<forall>dest m. fills f rest (packable_decoder ltype n dest) bs m (blit m dest (take n src)))"
  using byte_pipe.packable_carries [OF byte_pipe.intro [OF assms(1,2)] assms(3,4)] by (simp add: carries_def bs_def)

theorem pb_scalar_round_trip_witness:
  "emits buf_write buf_out buf_room (packable_encoder PB_LTYPE_SVARINT 2 [0xfe, 0xff, 7]) (scalar_wire PB_LTYPE_SVARINT [0xfe, 0xff])
    \<and> (\<forall>dest m. fills buf_read (\<lambda>b. b) (packable_decoder PB_LTYPE_SVARINT 2 dest) (scalar_wire PB_LTYPE_SVARINT [0xfe, 0xff]) m
          (blit m dest [0xfe, 0xff]))"
  using pb_scalar_round_trip [OF buffer.byte_sink_axioms buf.byte_source_axioms, of PB_LTYPE_SVARINT 2 "[0xfe, 0xff, 7]"]
  by (simp add: packable_width_def)

text \<open>
  The decoders of unsigned and zigzag fields report a value if and only if it does not fit the
  field's C type, instead of truncating it.
\<close>

theorem pb_dec_checks_range:
  assumes "byte_source f rest" and "n \<in> {1, 2, 4, 8}" and "source_ready f rest st"
  shows "(\<forall>(v :: u64) r. stream_bytes rest st = varint (unat v) @ r \<longrightarrow> (fst (pb_dec_uvarint n dest (m, st)) \<longleftrightarrow> unat v < 256 ^ n))
    \<and> (\<forall>(v :: u64) r. stream_bytes rest st = varint (zigzag (sint v)) @ r \<longrightarrow>
        (fst (pb_dec_svarint n dest (m, st)) \<longleftrightarrow> - (256 ^ n div 2) \<le> sint v \<and> sint v < 256 ^ n div 2))"
  using byte_source.uvarint_fits [OF assms(1,2,3)] byte_source.svarint_fits [OF assms(1,2,3)] by blast

theorem pb_dec_checks_range_witness:
  "fst (pb_dec_uvarint 1 0 ([0], pb_istream_from_buffer (varint (unat (255 :: u64))) (length (varint (unat (255 :: u64)))) :: u8 list pb_istream))
    \<longleftrightarrow> unat (255 :: u64) < 256 ^ 1"
proof -
  let ?st = "pb_istream_from_buffer (varint (unat (255 :: u64))) (length (varint (unat (255 :: u64)))) :: u8 list pb_istream"
  have st: "source_ready buf_read (\<lambda>b. b) ?st" "stream_bytes (\<lambda>b. b) ?st = varint (unat (255 :: u64)) @ []"
    by (simp_all add: source_ready_def stream_bytes_def input_bytes_def pb_istream_from_buffer_def)
  from pb_dec_checks_range [OF buf.byte_source_axioms _ st(1), where n = 1 and dest = 0 and m = "[0]"] st(2) show ?thesis by blast
qed

text \<open>
  C32: The decoders of fields with static allocation write inside the field only: whatever the input
  stream holds, a decoder of a packable type, of bytes, of a string or of fixed-length bytes leaves
  the memory around the \<open>data_size\<close> bytes of its field alone, also when it fails.
\<close>

theorem pb_dec_stays_inside:
  assumes "byte_source f rest" and "source_ready f rest st" and "dest + n \<le> length m"
    and "d \<in> {pb_dec_bytes R PB_ATYPE_STATIC n, pb_dec_string R PB_ATYPE_STATIC n, pb_dec_fixed_length_bytes n}
      \<or> (\<exists>ltype. packable_width ltype n \<and> d = packable_decoder ltype n)"
    and "d dest (m, st) = (ok, m', st')"
  shows "length m' = length m \<and> take dest m' = take dest m \<and> drop (dest + n) m' = drop (dest + n) m"
proof -
  have "PB_ATYPE PB_ATYPE_STATIC \<noteq> PB_ATYPE_POINTER" by (simp add: PB_ATYPE_def PB_ATYPE_STATIC_def PB_ATYPE_POINTER_def)
  then have "inside f rest dest n (d dest)"
    using assms(4) byte_source.bytes_inside [OF assms(1)] byte_source.string_inside [OF assms(1)]
      byte_source.fixed_length_inside [OF assms(1)] byte_source.packable_inside [OF assms(1)] by auto
  from insideD(1) [OF this assms(3,2,5)] show ?thesis by (simp add: outside_same_def)
qed

theorem pb_dec_stays_inside_witness:
  "\<exists>ok m' st'. pb_dec_string (\<lambda>_ _ _. None) PB_ATYPE_STATIC 3 1 ([9, 1, 2, 3, 4],
       pb_istream_from_buffer [2, 65, 66] 3 :: u8 list pb_istream) = (ok, m', st')
     \<and> length m' = 5 \<and> take 1 m' = [9] \<and> drop 4 m' = [4]"
proof -
  let ?st = "pb_istream_from_buffer [2, 65, 66] 3 :: u8 list pb_istream" and ?m = "[9, 1, 2, 3, 4] :: memory"
  obtain ok m' st' where r: "pb_dec_string (\<lambda>_ _ _. None) PB_ATYPE_STATIC 3 1 (?m, ?st) = (ok, m', st')"
    by (rule prod_cases3)
  have st: "source_ready buf_read (\<lambda>b. b) ?st" by (simp add: source_ready_def input_bytes_def pb_istream_from_buffer_def)
  have "length m' = length ?m \<and> take 1 m' = take 1 ?m \<and> drop (1 + 3) m' = drop (1 + 3) ?m"
    by (rule pb_dec_stays_inside [where R = "\<lambda>_ _ _. None" and d = "pb_dec_string (\<lambda>_ _ _. None) PB_ATYPE_STATIC 3",
        OF buf.byte_source_axioms st _ _ r]) simp_all
  with r show ?thesis by simp
qed

end
