(* ===== verification/PbLayout.thy ===== *)
theory PbLayout
  imports PbEncodeRec PbScalarProps
begin

text \<open>
  What a message in memory means and what it is on the wire, independently of the encoder and the
  decoder. A message is the list of the items that each field holds; \<open>message_at\<close> reads it out of the
  memory by the layout of the structure, \<open>message_wire\<close> is the protobuf encoding of it.
\<close>

section \<open>Layout\<close>

text \<open>The offsets of the members.\<close>

fun layout_from :: "nat \<Rightarrow> pb_field \<Rightarrow> pb_field list \<Rightarrow> nat list" where
  "layout_from off f [] = [off]"
| "layout_from off f (g # gs) =
     off # layout_from (if union_next f g then off else off + member_size f + data_offset g) g gs"

fun layout :: "pb_field list \<Rightarrow> nat list" where
  "layout [] = []"
| "layout (f # fs) = layout_from (data_offset f) f fs"

lemma length_layout_from [simp]: "length (layout_from off f fs) = Suc (length fs)"
  by (induction off f fs rule: layout_from.induct) simp_all

lemma length_layout [simp]: "length (layout fs) = length fs"
  by (cases fs) simp_all

definition placed :: "pb_field list \<Rightarrow> (pb_field \<times> nat) list" where
  "placed fs = zip fs (layout fs)"

lemma placed_fst: "(f, off) \<in> set (placed fs) \<Longrightarrow> f \<in> set fs"
  by (auto simp: placed_def dest: set_zip_leftD)

section \<open>Static descriptions\<close>

text \<open>
  The descriptions of structures whose members are all stored in the structure itself, as the
  generator makes them: widths that exist, a size field for every union, and a has-field for optional
  submessages.
\<close>

definition scalar_type :: "pb_field \<Rightarrow> bool" where
  "scalar_type f \<longleftrightarrow> packable_width (PB_LTYPE (ptype f)) (data_size f)"

definition is_submessage :: "pb_field \<Rightarrow> bool" where
  "is_submessage f \<longleftrightarrow> PB_LTYPE (ptype f) = PB_LTYPE_SUBMESSAGE"

definition plain_field :: "pb_field \<Rightarrow> bool" where
  "plain_field f \<longleftrightarrow>
     PB_ATYPE (ptype f) = PB_ATYPE_STATIC \<and> tag f < 2 ^ 29
     \<and> (scalar_type f \<or> PB_LTYPE (ptype f) \<in> {PB_LTYPE_BYTES, PB_LTYPE_STRING, PB_LTYPE_FIXED_LENGTH_BYTES}
        \<or> is_submessage f \<and> (\<exists>fs. ptr f = Submsg_fields fs))
     \<and> (PB_LTYPE (ptype f) = PB_LTYPE_STRING \<longrightarrow> 0 < data_size f)
     \<and> (PB_HTYPE (ptype f) \<notin> {PB_HTYPE_REQUIRED, PB_HTYPE_OPTIONAL, PB_HTYPE_REPEATED} \<longrightarrow> size_offset f \<noteq> 0)
     \<and> (PB_HTYPE (ptype f) = PB_HTYPE_OPTIONAL \<and> is_submessage f \<longrightarrow> size_offset f \<noteq> 0)"

lemma sub_fields_smaller: "f \<in> set fs \<Longrightarrow> size_list size (sub_fields f) < size_list size fs"
proof (rule size_list_estimation)
  show "size_list size (sub_fields f) < size f"
    by (cases f) (auto simp: sub_fields_def split: pb_ptr.split)
qed

function plain_message :: "nat \<Rightarrow> pb_field list \<Rightarrow> bool" where
  "plain_message sz fs \<longleftrightarrow>
     described fs (layout fs)
     \<and> (\<forall>(f, off) \<in> set (placed fs). off + member_size f \<le> sz)
     \<and> (\<forall>f \<in> set fs. plain_field f \<and> (is_submessage f \<longrightarrow> plain_message (data_size f) (sub_fields f)))"
  by pat_completeness auto
termination
  by (relation "measure (\<lambda>(_, fs). size_list size fs)") (auto intro: sub_fields_smaller)

declare plain_message.simps [simp del]

section \<open>Messages in memory\<close>

text \<open>An item of a field: the bytes of a value, or a submessage with the items of each of its fields.\<close>

datatype pb_item = Raw "u8 list" | Sub "pb_item list list"

text \<open>\<open>size_addr\<close> is the address of the size field: the has-flag, the count or the tag of the union.\<close>

definition size_addr :: "pb_field \<Rightarrow> nat \<Rightarrow> nat" where
  "size_addr f p = nat (int p + size_offset f)"

text \<open>The bytes of the value at \<open>p\<close>.\<close>

definition raw_at :: "memory \<Rightarrow> pb_field \<Rightarrow> nat \<Rightarrow> u8 list" where
  "raw_at m f p =
     (if PB_LTYPE (ptype f) = PB_LTYPE_BYTES then take (load_size m p) (drop (p + 4) m)
      else if PB_LTYPE (ptype f) = PB_LTYPE_STRING then takeWhile (\<lambda>b. b \<noteq> 0) (take (data_size f) (drop p m))
      else take (data_size f) (drop p m))"

text \<open>An optional field without a has-flag is there when its value is not the default one of proto3.\<close>

definition default_at :: "memory \<Rightarrow> pb_field \<Rightarrow> nat \<Rightarrow> bool" where
  "default_at m f p \<longleftrightarrow>
     (if scalar_type f then \<forall>x \<in> set (raw_at m f p). x = 0
      else if PB_LTYPE (ptype f) = PB_LTYPE_BYTES then load_size m p = 0
      else raw_at m f p = [])"

definition item_count :: "memory \<Rightarrow> pb_field \<Rightarrow> nat \<Rightarrow> nat" where
  "item_count m f p =
     (if PB_HTYPE (ptype f) = PB_HTYPE_REQUIRED then 1
      else if PB_HTYPE (ptype f) = PB_HTYPE_OPTIONAL
      then of_bool (if size_offset f \<noteq> 0 then load_bool m (size_addr f p) else \<not> default_at m f p)
      else if PB_HTYPE (ptype f) = PB_HTYPE_REPEATED
      then (if size_offset f \<noteq> 0 then load_size m (size_addr f p) else array_size f)
      else of_bool (load_size m (size_addr f p) = tag f))"

definition field_items :: "(nat \<Rightarrow> pb_item list list) \<Rightarrow> memory \<Rightarrow> pb_field \<Rightarrow> nat \<Rightarrow> pb_item list" where
  "field_items sub m f p =
     map (\<lambda>i. let q = p + i * data_size f in if is_submessage f then Sub (sub q) else Raw (raw_at m f q))
       [0..<item_count m f p]"

function message_at :: "memory \<Rightarrow> pb_field list \<Rightarrow> nat \<Rightarrow> pb_item list list" where
  "message_at m fs p = map (\<lambda>(f, off). field_items (message_at m (sub_fields f)) m f (p + off)) (placed fs)"
  by pat_completeness auto
termination
  by (relation "measure (\<lambda>(_, fs, _). size_list size fs)") (auto intro: sub_fields_smaller dest: placed_fst)

declare message_at.simps [simp del]

text \<open>
  What can be encoded: the arrays hold no more items than they have room for, and the byte arrays no
  more bytes.
\<close>

definition field_ok :: "(nat \<Rightarrow> bool) \<Rightarrow> memory \<Rightarrow> pb_field \<Rightarrow> nat \<Rightarrow> bool" where
  "field_ok sub m f p \<longleftrightarrow>
     (PB_HTYPE (ptype f) = PB_HTYPE_REPEATED \<longrightarrow> item_count m f p \<le> array_size f)
     \<and> (\<forall>i \<in> set [0..<item_count m f p]. let q = p + i * data_size f
          in (is_submessage f \<longrightarrow> sub q) \<and> (PB_LTYPE (ptype f) = PB_LTYPE_BYTES \<longrightarrow> load_size m q + 4 \<le> data_size f))"

function message_ok :: "memory \<Rightarrow> pb_field list \<Rightarrow> nat \<Rightarrow> bool" where
  "message_ok m fs p \<longleftrightarrow> (\<forall>(f, off) \<in> set (placed fs). field_ok (message_ok m (sub_fields f)) m f (p + off))"
  by pat_completeness auto
termination
  by (relation "measure (\<lambda>(_, fs, _). size_list size fs)") (auto intro: sub_fields_smaller dest: placed_fst)

declare message_ok.simps [simp del]

section \<open>Messages on the wire\<close>

definition wire_type :: "pb_field \<Rightarrow> nat" where
  "wire_type f =
     (if PB_LTYPE (ptype f) \<in> {PB_LTYPE_VARINT, PB_LTYPE_UVARINT, PB_LTYPE_SVARINT} then 0
      else if PB_LTYPE (ptype f) = PB_LTYPE_FIXED32 then 5
      else if PB_LTYPE (ptype f) = PB_LTYPE_FIXED64 then 1
      else 2)"

definition with_length :: "u8 list \<Rightarrow> u8 list" where
  "with_length b = varint (length b) @ b"

definition item_wire :: "(pb_item list list \<Rightarrow> u8 list) \<Rightarrow> pb_field \<Rightarrow> pb_item \<Rightarrow> u8 list" where
  "item_wire sub f c =
     (case c of
        Raw b \<Rightarrow> if scalar_type f then scalar_wire (PB_LTYPE (ptype f)) b else with_length b
      | Sub css \<Rightarrow> with_length (sub css))"

definition packed :: "pb_field \<Rightarrow> bool" where
  "packed f \<longleftrightarrow> PB_HTYPE (ptype f) = PB_HTYPE_REPEATED \<and> scalar_type f"

definition field_wire :: "(pb_item list list \<Rightarrow> u8 list) \<Rightarrow> pb_field \<Rightarrow> pb_item list \<Rightarrow> u8 list" where
  "field_wire sub f cs =
     (if packed f
      then (if cs = [] then [] else varint (8 * tag f + 2) @ with_length (concat (map (item_wire sub f) cs)))
      else concat (map (\<lambda>c. varint (8 * tag f + wire_type f) @ item_wire sub f c) cs))"

function message_wire :: "pb_field list \<Rightarrow> pb_item list list \<Rightarrow> u8 list" where
  "message_wire fs css = concat (map (\<lambda>(f, cs). field_wire (message_wire (sub_fields f)) f cs) (zip fs css))"
  by pat_completeness auto
termination
  by (relation "measure (\<lambda>(fs, _). size_list size fs)") (auto intro: sub_fields_smaller dest: set_zip_leftD)

declare message_wire.simps [simp del]

end
