(* ===== verification/PbEncodeProps.thy ===== *)
theory PbEncodeProps
  imports PbLayout
begin

text \<open>
  The encoder writes the protobuf encoding of what is in the structure, for every static description.
\<close>

section \<open>Sequences of writes\<close>

primrec run_all :: "('a \<Rightarrow> 't \<Rightarrow> bool \<times> 't) \<Rightarrow> 'a list \<Rightarrow> 't \<Rightarrow> bool \<times> 't" where
  "run_all f [] = (\<lambda>st. (True, st))"
| "run_all f (x # xs) = both (f x) (run_all f xs)"

lemma items_loop_run: "items_loop f step n p = run_all (\<lambda>i. f (p + i * step)) [0..<n]"
proof -
  have "items_loop f step n (p + k * step) = run_all (\<lambda>i. f (p + i * step)) [k..<k + n]" for k
  proof (induction n arbitrary: k)
    case 0
    show ?case by (intro ext) simp
  next
    case (Suc n)
    from Suc [of "Suc k"] show ?case by (intro ext) (simp add: upt_conv_Cons both_def ac_simps del: upt_Suc)
  qed
  from this [of 0] show ?thesis by simp
qed

lemma fields_loop_at:
  assumes "described fs offs" and "k < length fs"
  shows "fields_loop body (at_field fs offs dest k) st = run_all (\<lambda>i. body (at_field fs offs dest i)) [k..<length fs] st"
  using assms(2)
proof (induction "length fs - k" arbitrary: k st)
  case (Suc n)
  have u: "[k..<length fs] = k # [Suc k..<length fs]" using Suc.prems by (simp add: upt_conv_Cons)
  show ?case
  proof (cases "Suc k = length fs")
    case True
    then show ?thesis using next_wraps [OF assms(1) True]
      by (simp add: fields_loop.simps [of body] u both_def split: prod.split bool.split)
  next
    case False
    then have k: "Suc k < length fs" "n = length fs - Suc k" using Suc by simp_all
    with Suc.hyps(1) [OF k(2) k(1)] next_at_field [OF assms(1) k(1)]
    show ?thesis by (simp add: fields_loop.simps [of body] u both_def split: prod.split bool.split)
  qed
qed simp

text \<open>Every field of a description from its first to its last one.\<close>

lemma fields_loop_placed:
  assumes "described fs (layout fs)" and "fs \<noteq> []"
  shows "fields_loop (\<lambda>iter. g (iter_pos iter) (nat (pData iter))) (at_field fs (layout fs) (int src) 0) st
    = run_all (\<lambda>(f, off). g f (src + off)) (placed fs) st"
proof -
  have r: "run_all h (map k xs) = run_all (\<lambda>x. h (k x)) xs" for h k and xs :: "'x list"
    by (induction xs) simp_all
  have c: "run_all h xs = run_all h' xs" if "\<And>x. x \<in> set xs \<Longrightarrow> h x = h' x" for h h' and xs :: "nat list"
    using that by (induction xs) simp_all
  have p: "placed fs = map (\<lambda>i. (fs ! i, layout fs ! i)) [0..<length fs]"
    by (intro nth_equalityI) (simp_all add: placed_def)
  have "fields_loop (\<lambda>iter. g (iter_pos iter) (nat (pData iter))) (at_field fs (layout fs) (int src) 0) st
    = run_all (\<lambda>i. g (iter_pos (at_field fs (layout fs) (int src) i)) (nat (pData (at_field fs (layout fs) (int src) i))))
        [0..<length fs] st"
    by (rule fields_loop_at [OF assms(1)]) (use assms(2) in simp)
  also have "\<dots> = run_all (\<lambda>i. g (fs ! i) (src + layout fs ! i)) [0..<length fs] st"
    by (rule arg_cong [where f = "\<lambda>x. x st"], rule c) (simp add: at_field_def iter_pos_def field_at_def nat_int_add)
  also have "\<dots> = run_all (\<lambda>(f, off). g f (src + off)) (placed fs) st" unfolding p r by simp
  finally show ?thesis .
qed

section \<open>Writing or failing\<close>

text \<open>\<open>g\<close> writes \<open>bs\<close> when \<open>ok\<close> holds, and otherwise fails on every stream.\<close>

definition writes ::
  "(u8 list \<Rightarrow> 's \<Rightarrow> bool \<times> 's) \<Rightarrow> ('s \<Rightarrow> u8 list) \<Rightarrow> ('s \<Rightarrow> nat)
     \<Rightarrow> ('s pb_ostream \<Rightarrow> bool \<times> 's pb_ostream) \<Rightarrow> bool \<Rightarrow> u8 list \<Rightarrow> bool" where
  "writes write out room g ok bs \<longleftrightarrow>
     (if ok then length bs < 2 ^ 63 \<longrightarrow> emits write out room g bs else \<forall>st. \<not> fst (g st))"

lemma writes_emits: "emits write out room g bs \<Longrightarrow> writes write out room g True bs"
  by (simp add: writes_def)

lemma writes_fails: "(\<And>st. \<not> fst (g st)) \<Longrightarrow> writes write out room g False bs"
  by (simp add: writes_def)

lemma writes_both:
  assumes "writes write out room f ok as" and "writes write out room g ok' bs"
  shows "writes write out room (both f g) (ok \<and> ok') (as @ bs)"
proof (cases "ok \<and> ok'")
  case True
  then show ?thesis using assms by (auto simp: writes_def intro: emits_both)
next
  case False
  then have "(\<forall>st. \<not> fst (f st)) \<or> (\<forall>st. \<not> fst (g st))" using assms by (auto simp: writes_def)
  then have "\<not> fst (both f g st)" for st by (auto simp: both_def split: prod.split bool.split) (metis fst_conv)+
  moreover have "(ok \<and> ok') = False" using False by simp
  ultimately show ?thesis unfolding writes_def by (simp only: if_False) simp
qed

lemma writes_done: "writes write out room (\<lambda>st. (True, st)) True []"
  by (rule writes_emits) (rule emits_done)

lemma writes_run_all:
  "(\<And>x. x \<in> set xs \<Longrightarrow> writes write out room (f x) (ok x) (w x)) \<Longrightarrow>
     writes write out room (run_all f xs) (\<forall>x \<in> set xs. ok x) (concat (map w xs))"
  by (induction xs) (auto simp: writes_done intro: writes_both)

context byte_sink
begin

lemma encode_string_emits:
  assumes "take n buf = b" and "length b = n" and "n < 2 ^ 63"
  shows "emits write out room (pb_encode_string buf n) (with_length b)"
proof -
  have "unat (of_nat n :: u64) = n" using assms(3) by (simp only: unat_of_nat) simp
  then show ?thesis using emits_both [OF varint_emits [of "of_nat n"] write_emits [OF assms]]
    by (simp add: with_length_def assms(2) pb_encode_string_def)
qed

text \<open>Content that is only counted on a counting stream.\<close>

lemma counted_emits:
  assumes "emits write out room g bs" and "length bs = sz"
  shows "emits write out room (\<lambda>st. case ocallback st of None \<Rightarrow> pb_write [] sz st | Some _ \<Rightarrow> g st) bs"
  using emitsD [OF assms(1)] assms(2)
  by (intro emitsI) (auto simp: pb_write_def sink_ready_def)

lemma length_then_emits:
  assumes "emits write out room g bs" and "length bs < 2 ^ 63"
  shows "emits write out room (both (pb_encode_varint (of_nat (length bs)))
    (\<lambda>st. case ocallback st of None \<Rightarrow> pb_write [] (length bs) st | Some _ \<Rightarrow> g st)) (with_length bs)"
proof -
  have "unat (of_nat (length bs) :: u64) = length bs" using assms(2) by (simp only: unat_of_nat) simp
  then show ?thesis
    using emits_both [OF varint_emits [of "of_nat (length bs)"] counted_emits [OF assms(1) refl]] by (simp add: with_length_def)
qed

lemma counts:
  assumes "emits write out room g bs" and "length bs < 2 ^ 63"
  shows "g (PB_OSTREAM_SIZING s) = (True, (PB_OSTREAM_SIZING s)\<lparr>bytes_written := length bs\<rparr>)"
  using emitsD(3) [OF assms(1), of "PB_OSTREAM_SIZING s"] assms(2) by (simp add: PB_OSTREAM_SIZING_def size_add_def)

text \<open>The second pass over a submessage, on a stream limited to the size found by the first.\<close>

lemma second_pass_emits:
  assumes g: "emits write out room g bs" and len: "length bs < 2 ^ 63"
  shows "emits write out room (second_pass g (length bs)) bs"
proof (rule emitsI)
  fix st :: "'s pb_ostream"
  assume "ocallback st = None" "bytes_written st < size_t_end"
  then show "second_pass g (length bs) st = (True, st\<lparr>bytes_written := size_add (bytes_written st) (length bs)\<rparr>)" by (simp add: second_pass_def pb_write_def)
next
  fix st :: "'s pb_ostream"
  assume st: "sink_ready write room st" and fit: "max_size st < bytes_written st + length bs"
  then have "size_add (bytes_written st) (length bs) = bytes_written st + length bs"
    using len by (simp add: sink_ready_def size_add_def)
  with st fit show "\<not> fst (second_pass g (length bs) st)" by (simp add: second_pass_def sink_ready_def pb_oerror_def)
next
  fix st :: "'s pb_ostream"
  assume st: "sink_ready write room st" and fit: "bytes_written st + length bs \<le> max_size st"
  then have sum: "size_add (bytes_written st) (length bs) = bytes_written st + length bs"
    using len by (simp add: sink_ready_def size_add_def)
  let ?sub = "\<lparr>ocallback = Some write, ostate = ostate st, max_size = length bs, bytes_written = 0, oerrmsg = None\<rparr>"
  have "length bs \<le> max_size st - bytes_written st" using fit by linarith
  then have "length bs \<le> room (ostate st)" using st by (simp add: sink_ready_def)
  then have "sink_ready write room ?sub" using st fit len by (simp add: sink_ready_def)
  from emitsD(1) [OF g this] obtain st' where s: "g ?sub = (True, st')" "written write out room bs ?sub st'" by auto
  from s(2) obtain cs t where "concat cs = bs" "t = feed write cs (ostate st)"
    "st' = ?sub\<lparr>ostate := t, bytes_written := length bs\<rparr>" "out t = out (ostate st) @ bs" "room t = room (ostate st) - length bs"
    by (auto simp: written_def)
  then show "\<exists>st'. second_pass g (length bs) st = (True, st') \<and> written write out room bs st st'"
    using st fit s(1) sum by (auto simp: second_pass_def sink_ready_def written_def intro!: exI [of _ cs])
qed

lemma submessage_writes:
  assumes "writes write out room (sub fs src) ok bs"
  shows "writes write out room (pb_encode_submessage sub fs src) ok (with_length bs)"
proof (cases ok)
  case False
  then have "\<not> fst (pb_encode_submessage sub fs src st)" for st
    using assms by (auto simp: writes_def pb_encode_submessage_def split: prod.split bool.split) (metis fst_conv)
  with False show ?thesis by (simp add: writes_def)
next
  case True
  have "emits write out room (pb_encode_submessage sub fs src) (with_length bs)" if l: "length (with_length bs) < 2 ^ 63"
  proof -
    have len: "length bs < 2 ^ 63" using l by (simp add: with_length_def)
    with assms True have e: "emits write out room (sub fs src) bs" by (simp add: writes_def)
    have "unat (of_nat (length bs) :: u64) = length bs" using len by (simp only: unat_of_nat) simp
    then have "emits write out room (both (pb_encode_varint (of_nat (length bs))) (second_pass (sub fs src) (length bs))) (with_length bs)"
      using emits_both [OF varint_emits [of "of_nat (length bs)"] second_pass_emits [OF e len]] by (simp add: with_length_def)
    moreover have "pb_encode_submessage sub fs src = both (pb_encode_varint (of_nat (length bs))) (second_pass (sub fs src) (length bs))"
      by (intro ext) (simp add: pb_encode_submessage_def counts [OF e len] Let_def)
    ultimately show ?thesis by simp
  qed
  with True show ?thesis by (simp add: writes_def)
qed

end

section \<open>Fields\<close>

lemmas ltype_defs = PB_LTYPE_VARINT_def PB_LTYPE_UVARINT_def PB_LTYPE_SVARINT_def PB_LTYPE_FIXED32_def
  PB_LTYPE_FIXED64_def PB_LTYPE_BYTES_def PB_LTYPE_STRING_def PB_LTYPE_SUBMESSAGE_def PB_LTYPE_EXTENSION_def
  PB_LTYPE_FIXED_LENGTH_BYTES_def PB_LTYPE_LAST_PACKABLE_def

lemmas htype_defs = PB_HTYPE_REQUIRED_def PB_HTYPE_OPTIONAL_def PB_HTYPE_REPEATED_def PB_HTYPE_ONEOF_def

lemmas atype_defs = PB_ATYPE_STATIC_def PB_ATYPE_POINTER_def PB_ATYPE_CALLBACK_def

lemma scalar_type_packable: "scalar_type f \<Longrightarrow> PB_LTYPE (ptype f) \<le> PB_LTYPE_LAST_PACKABLE"
  by (auto simp: scalar_type_def packable_width_def ltype_defs)

text \<open>The kinds of values of a plain field.\<close>

lemma plain_cases [consumes 1, case_names scalar bytes string fixed sub]:
  assumes "plain_field f"
  obtains (scalar) "scalar_type f" "PB_LTYPE (ptype f) \<le> PB_LTYPE_LAST_PACKABLE" "\<not> is_submessage f"
  | (bytes) "PB_LTYPE (ptype f) = PB_LTYPE_BYTES" "\<not> is_submessage f" "\<not> scalar_type f"
  | (string) "PB_LTYPE (ptype f) = PB_LTYPE_STRING" "\<not> is_submessage f" "\<not> scalar_type f"
  | (fixed) "PB_LTYPE (ptype f) = PB_LTYPE_FIXED_LENGTH_BYTES" "\<not> is_submessage f" "\<not> scalar_type f"
  | (sub) fs where "is_submessage f" "ptr f = Submsg_fields fs" "\<not> scalar_type f"
  using assms
  by (auto simp: plain_field_def scalar_type_def packable_width_def is_submessage_def ltype_defs)

text \<open>The item of a field at \<open>q\<close>.\<close>

definition item_at :: "(nat \<Rightarrow> pb_item list list) \<Rightarrow> memory \<Rightarrow> pb_field \<Rightarrow> nat \<Rightarrow> pb_item" where
  "item_at sub m f q = (if is_submessage f then Sub (sub q) else Raw (raw_at m f q))"

definition item_ok :: "(nat \<Rightarrow> bool) \<Rightarrow> memory \<Rightarrow> pb_field \<Rightarrow> nat \<Rightarrow> bool" where
  "item_ok sub m f q \<longleftrightarrow>
     (is_submessage f \<longrightarrow> sub q) \<and> (PB_LTYPE (ptype f) = PB_LTYPE_BYTES \<longrightarrow> load_size m q + 4 \<le> data_size f)"

lemma load_size_less: "load_size m p < 2 ^ 32"
proof -
  have "load_size m p < 256 ^ length (take 4 (drop p m))" unfolding load_size_def by (rule le_val_bound)
  also have "(256 :: nat) ^ length (take 4 (drop p m)) \<le> 256 ^ 4" by (rule power_increasing) simp_all
  finally show ?thesis by simp
qed

context byte_sink
begin

lemma scalar_emits:
  assumes "scalar_type f" and "q + data_size f \<le> length m"
  shows "emits write out room (packable_encoder (PB_LTYPE (ptype f)) (data_size f) (drop q m))
    (scalar_wire (PB_LTYPE (ptype f)) (take (data_size f) (drop q m)))"
proof -
  have "byte_pipe write out room buf_read (\<lambda>b. b)" by (intro byte_pipe.intro byte_sink_axioms buf.byte_source_axioms)
  from byte_pipe.packable_carries [OF this, of "PB_LTYPE (ptype f)" "data_size f" "drop q m"] assms
  show ?thesis by (simp add: scalar_type_def carries_def)
qed

lemma item_writes:
  assumes f: "plain_field f" and q: "0 < q" "q + data_size f \<le> length m" and d: "data_size f < 2 ^ 32"
    and sub: "is_submessage f \<Longrightarrow> writes write out room (enc (sub_fields f) q) (ok q) (wire (items q))"
  shows "writes write out room (PB_ENCODERS enc m f q) (item_ok ok m f q) (item_wire wire f (item_at items m f q))"
using f
proof (cases rule: plain_cases)
  case scalar
  have "\<not> PB_LTYPE (ptype f) = PB_LTYPE_BYTES" using scalar by (auto simp: ltype_defs)
  then show ?thesis using scalar scalar_emits [OF scalar(1) q(2)]
    by (auto simp: writes_def PB_ENCODERS_def item_ok_def item_at_def item_wire_def raw_at_def ltype_defs)
next
  case bytes
  let ?n = "load_size m q"
  have e: "PB_ENCODERS enc m f q = pb_enc_bytes (ptype f) (data_size f) (Some (drop q m))"
    using bytes q by (simp add: PB_ENCODERS_def ltype_defs)
  have n: "PB_BYTES_ARRAY_T_ALLOCSIZE ?n = ?n + 4"
    using load_size_less [of m q] by (simp add: PB_BYTES_ARRAY_T_ALLOCSIZE_def size_add_def)
  have st: "PB_ATYPE (ptype f) = PB_ATYPE_STATIC" using f by (simp add: plain_field_def)
  have ok: "item_ok ok m f q = (?n + 4 \<le> data_size f)" using bytes by (simp add: item_ok_def)
  have w: "item_wire wire f (item_at items m f q) = with_length (take ?n (drop (q + 4) m))"
    using bytes by (simp add: item_wire_def item_at_def raw_at_def)
  show ?thesis
  proof (cases "?n + 4 \<le> data_size f")
    case True
    have "pb_enc_bytes (ptype f) (data_size f) (Some (drop q m)) = (pb_encode_string (drop (q + 4) m) ?n :: 's pb_ostream \<Rightarrow> _)"
      using True n st by (simp add: pb_enc_bytes_def load_size_def [symmetric] Let_def add.commute)
    moreover have "emits write out room (pb_encode_string (drop (q + 4) m) ?n) (with_length (take ?n (drop (q + 4) m)))"
      by (rule encode_string_emits) (use True q load_size_less [of m q] in simp_all)
    ultimately show ?thesis using True by (simp add: e ok w writes_def)
  next
    case False
    then have "pb_enc_bytes (ptype f) (data_size f) (Some (drop q m)) = (pb_oerror ''bytes size exceeded'' :: 's pb_ostream \<Rightarrow> _)"
      using n st by (simp add: pb_enc_bytes_def load_size_def [symmetric] Let_def)
    then show ?thesis using False by (simp add: e ok w writes_def pb_oerror_def)
  qed
next
  case string
  let ?s = "takeWhile (\<lambda>b. b \<noteq> 0) (take (data_size f) (drop q m))"
  have "PB_ENCODERS enc m f q = (pb_encode_string (drop q m) (length ?s) :: 's pb_ostream \<Rightarrow> _)"
    using string q f by (simp add: PB_ENCODERS_def pb_enc_string_def plain_field_def ltype_defs atype_defs)
  moreover have "take (length ?s) (drop q m) = ?s"
  proof -
    have "length ?s \<le> data_size f" using length_takeWhile_le [of _ "take (data_size f) (drop q m)"] by (rule order_trans) simp
    then have "take (length ?s) (drop q m) = take (length ?s) (take (data_size f) (drop q m))" by (simp add: min_absorb1)
    then show ?thesis by (simp only: takeWhile_eq_take [symmetric])
  qed
  moreover have "length ?s < 2 ^ 63"
  proof -
    have "length ?s \<le> data_size f" using length_takeWhile_le [of _ "take (data_size f) (drop q m)"] by (rule order_trans) simp
    then show ?thesis using d by simp
  qed
  ultimately have "emits write out room (PB_ENCODERS enc m f q) (with_length ?s)"
    using encode_string_emits [of "length ?s" "drop q m" ?s] by simp
  then show ?thesis using string by (simp add: writes_def item_ok_def item_wire_def item_at_def raw_at_def ltype_defs)
next
  case fixed
  have "emits write out room (pb_encode_string (drop q m) (data_size f)) (with_length (take (data_size f) (drop q m)))"
    by (rule encode_string_emits) (use q d in simp_all)
  then show ?thesis using fixed
    by (simp add: writes_def PB_ENCODERS_def pb_enc_fixed_length_bytes_def item_ok_def item_wire_def item_at_def raw_at_def ltype_defs)
next
  case (sub fs)
  have "PB_ENCODERS enc m f q = pb_encode_submessage enc (sub_fields f) q"
    using sub by (simp add: PB_ENCODERS_def pb_enc_submessage_def is_submessage_def ltype_defs)
  moreover have "item_ok ok m f q = ok q" using sub by (simp add: item_ok_def is_submessage_def ltype_defs)
  moreover have "writes write out room (pb_encode_submessage enc (sub_fields f) q) (ok q) (with_length (wire (items q)))"
    by (rule submessage_writes) (rule assms(5) [OF sub(1)])
  ultimately show ?thesis using sub by (simp add: item_wire_def item_at_def)
qed

lemma field_tag_emits:
  assumes "plain_field f" and "tag f \<noteq> 0"
  shows "emits write out room (pb_encode_tag_for_field f) (varint (8 * tag f + wire_type f))"
proof -
  have t: "unat (of_nat (tag f) :: u32) = tag f" using assms by (simp add: plain_field_def unat_of_nat take_bit_nat_eq_self)
  have "pb_encode_tag_for_field f = (pb_encode_tag (wire_type f) (of_nat (tag f)) :: 's pb_ostream \<Rightarrow> _)"
    using assms(1) by (cases rule: plain_cases)
      (auto simp: pb_encode_tag_for_field_def wire_type_def Let_def scalar_type_def packable_width_def is_submessage_def
        PB_WT_VARINT_def PB_WT_32BIT_def PB_WT_64BIT_def PB_WT_STRING_def ltype_defs)
  moreover have "wire_type f < 8" by (simp add: wire_type_def)
  ultimately show ?thesis using tag_emits [of "of_nat (tag f)" "wire_type f"] assms(1) t by (simp add: plain_field_def)
qed

lemma packed_tag_emits:
  assumes "plain_field f"
  shows "emits write out room (pb_encode_tag PB_WT_STRING (of_nat (tag f))) (varint (8 * tag f + 2))"
proof -
  have t: "unat (of_nat (tag f) :: u32) = tag f" using assms by (simp add: plain_field_def unat_of_nat take_bit_nat_eq_self)
  then show ?thesis using tag_emits [of "of_nat (tag f)" 2] assms by (simp add: plain_field_def PB_WT_STRING_def)
qed

end

section \<open>Arrays and whole fields\<close>

lemma check_default_is:
  assumes f: "plain_field f" "\<not> is_submessage f" and h: "PB_HTYPE (ptype f) = PB_HTYPE_OPTIONAL" "size_offset f = 0"
    and p: "p + data_size f \<le> length m"
  shows "pb_check_proto3_default_value m f p = default_at m f p"
proof -
  have st: "PB_ATYPE (ptype f) = PB_ATYPE_STATIC" using f by (simp add: plain_field_def)
  have c: "\<exists>rec. pb_check_proto3_default_value m f p = check_default rec m f p"
    by (cases "field_depth f") (auto simp: pb_check_proto3_default_value_def)
  have str: "PB_LTYPE (ptype f) = PB_LTYPE_STRING \<Longrightarrow> 0 < data_size f" using f by (simp add: plain_field_def)
  have s: "all_zero m p 1 \<longleftrightarrow> takeWhile (\<lambda>b. b \<noteq> 0) (take (data_size f) (drop p m)) = []" if pos: "0 < data_size f"
  proof -
    have "p < length m" using p pos by linarith
    then obtain x xs where d: "drop p m = x # xs" by (cases "drop p m") simp_all
    obtain k where "data_size f = Suc k" using pos by (cases "data_size f") simp_all
    then show ?thesis by (simp add: all_zero_def d)
  qed
  from f(1) show ?thesis
  proof (cases rule: plain_cases)
    case scalar
    then have "PB_LTYPE (ptype f) \<notin> {PB_LTYPE_BYTES, PB_LTYPE_STRING, PB_LTYPE_FIXED_LENGTH_BYTES, PB_LTYPE_SUBMESSAGE}"
      by (auto simp: ltype_defs)
    then show ?thesis using c h st scalar
      by (auto simp: check_default_def Let_def default_at_def raw_at_def all_zero_def htype_defs)
  next
    case bytes
    then show ?thesis using c h st
      by (auto simp: check_default_def Let_def default_at_def htype_defs ltype_defs)
  next
    case string
    then show ?thesis using c h st s str
      by (auto simp: check_default_def Let_def default_at_def raw_at_def htype_defs ltype_defs)
  next
    case fixed
    have "take (data_size f) (drop p m) = [] \<longleftrightarrow> data_size f = 0" using p by auto
    then show ?thesis using fixed c h st
      by (auto simp: check_default_def Let_def default_at_def raw_at_def htype_defs ltype_defs)
  next
    case sub
    then show ?thesis using f by simp
  qed
qed

lemma field_items_eq:
  "field_items items m f p = map (\<lambda>i. item_at items m f (p + i * data_size f)) [0..<item_count m f p]"
  by (simp add: field_items_def item_at_def Let_def)

lemma field_ok_eq:
  "field_ok ok m f p \<longleftrightarrow> (PB_HTYPE (ptype f) = PB_HTYPE_REPEATED \<longrightarrow> item_count m f p \<le> array_size f)
     \<and> (\<forall>i \<in> set [0..<item_count m f p]. item_ok ok m f (p + i * data_size f))"
  by (auto simp: field_ok_def item_ok_def Let_def)

context byte_sink
begin

lemma packed_array_emits:
  assumes f: "scalar_type f" "plain_field f" and n: "0 < n" "p + n * data_size f \<le> length m"
    and func: "\<And>q. q + data_size f \<le> length m \<Longrightarrow> 0 < q \<Longrightarrow> emits write out room (func q) (w q)"
    and w: "\<And>q. w q = scalar_wire (PB_LTYPE (ptype f)) (take (data_size f) (drop q m))"
    and p: "0 < p"
    and len: "length (with_length (concat (map (\<lambda>i. w (p + i * data_size f)) [0..<n]))) < 2 ^ 63"
  shows "emits write out room
    (\<lambda>stream. case packed_size f p n func stream of
        None \<Rightarrow> (False, stream)
      | Some sz \<Rightarrow> both (pb_encode_varint (of_nat sz))
          (\<lambda>stream. case ocallback stream of
             None \<Rightarrow> pb_write [] sz stream
           | Some _ \<Rightarrow> items_loop func (data_size f) n p stream) stream)
    (with_length (concat (map (\<lambda>i. w (p + i * data_size f)) [0..<n])))"
proof -
  let ?bs = "concat (map (\<lambda>i. w (p + i * data_size f)) [0..<n])"
  have in_bounds: "p + i * data_size f + data_size f \<le> length m" if "i < n" for i
  proof -
    have "i * data_size f + data_size f \<le> n * data_size f" using that mult_le_mono1 [of "Suc i" n "data_size f"] by simp
    then show ?thesis using n(2) by linarith
  qed
  have bs: "length ?bs < 2 ^ 63" using len by (simp add: with_length_def)
  have "writes write out room (run_all (\<lambda>i. func (p + i * data_size f)) [0..<n]) (\<forall>i \<in> set [0..<n]. True) ?bs"
    by (rule writes_run_all) (use in_bounds p in \<open>auto intro!: writes_emits func\<close>)
  then have e: "emits write out room (items_loop func (data_size f) n p) ?bs"
    using bs by (simp add: writes_def items_loop_run)
  have fixed: "length ?bs = k * n" if "PB_LTYPE (ptype f) \<notin> {PB_LTYPE_VARINT, PB_LTYPE_UVARINT, PB_LTYPE_SVARINT}" "data_size f = k" for k
  proof -
    have "length (w (p + i * data_size f)) = k" if "i < n" for i
      using in_bounds [OF that] \<open>data_size f = k\<close> that \<open>PB_LTYPE (ptype f) \<notin> _\<close> by (simp add: w scalar_wire_def min_absorb2)
    then have "map (length \<circ> (\<lambda>i. w (p + i * data_size f))) [0..<n] = map (\<lambda>_. k) [0..<n]" by (intro map_cong) simp_all
    then show ?thesis by (simp add: length_concat sum_list_replicate map_replicate_const)
  qed
  have "packed_size f p n func st = Some (length ?bs)" for st :: "'s pb_ostream"
  proof -
    consider "PB_LTYPE (ptype f) = PB_LTYPE_FIXED32" "data_size f = 4" | "PB_LTYPE (ptype f) = PB_LTYPE_FIXED64" "data_size f = 8"
      | "PB_LTYPE (ptype f) \<noteq> PB_LTYPE_FIXED32" "PB_LTYPE (ptype f) \<noteq> PB_LTYPE_FIXED64"
      using f(1) by (auto simp: scalar_type_def packable_width_def ltype_defs)
    then show ?thesis
    proof cases
      case 1
      then have "length ?bs = 4 * n" by (intro fixed) (simp_all add: ltype_defs)
      then show ?thesis using 1 bs by (simp add: packed_size_def size_mul_def)
    next
      case 2
      then have "length ?bs = 8 * n" by (intro fixed) (simp_all add: ltype_defs)
      then show ?thesis using 2 bs by (simp add: packed_size_def size_mul_def ltype_defs)
    next
      case 3
      then show ?thesis using counts [OF e bs, of "ostate st"] by (simp add: packed_size_def)
    qed
  qed
  then show ?thesis using length_then_emits [OF e bs] by simp
qed

lemma array_writes:
  assumes f: "plain_field f" "PB_HTYPE (ptype f) = PB_HTYPE_REPEATED" "tag f \<noteq> 0"
    and p: "0 < p" "p + member_size f \<le> length m" and d: "member_size f < 2 ^ 32"
    and sub: "\<And>q. is_submessage f \<Longrightarrow> 0 < q \<Longrightarrow> q + data_size f \<le> length m \<Longrightarrow>
      writes write out room (enc (sub_fields f) q) (ok q) (wire (items q))"
  shows "writes write out room (encode_array m f p n (PB_ENCODERS enc m f))
    (n \<le> array_size f \<and> (\<forall>i \<in> set [0..<n]. item_ok ok m f (p + i * data_size f)))
    (field_wire wire f (map (\<lambda>i. item_at items m f (p + i * data_size f)) [0..<n]))"
proof -
  have st: "PB_ATYPE (ptype f) = PB_ATYPE_STATIC" using f by (simp add: plain_field_def)
  have sz: "member_size f = data_size f * array_size f" using f st by (simp add: member_size_def)
  show ?thesis
  proof (cases "n = 0 \<or> array_size f < n")
    case True
    then show ?thesis using st writes_done
      by (auto simp: encode_array_def [abs_def] writes_def field_wire_def pb_oerror_def atype_defs sz)
  next
    case False
    then have n: "0 < n" "n \<le> array_size f" by simp_all
    have "n * data_size f \<le> member_size f" using mult_le_mono1 [OF n(2), of "data_size f"] sz by (simp only: mult.commute)
    then have pn: "p + n * data_size f \<le> length m" using p(2) by linarith
    have "1 * data_size f \<le> array_size f * data_size f" using n by (intro mult_le_mono1) linarith
    then have "data_size f \<le> member_size f" unfolding sz by (simp only: mult_1 mult.commute)
    then have ds: "data_size f < 2 ^ 32" using d by linarith
    have in_bounds: "p + i * data_size f + data_size f \<le> length m" if "i < n" for i
    proof -
      have "i * data_size f + data_size f \<le> n * data_size f" using that mult_le_mono1 [of "Suc i" n "data_size f"] by simp
      then show ?thesis using pn by linarith
    qed
    have item: "writes write out room (PB_ENCODERS enc m f q) (item_ok ok m f q) (item_wire wire f (item_at items m f q))"
      if "0 < q" "q + data_size f \<le> length m" for q
      by (rule item_writes [OF f(1) that ds]) (rule sub [OF _ that])
    show ?thesis
    proof (cases "scalar_type f")
      case True
      have sc: "PB_LTYPE (ptype f) \<le> PB_LTYPE_LAST_PACKABLE" "\<not> is_submessage f" "PB_LTYPE (ptype f) \<noteq> PB_LTYPE_BYTES"
        "PB_LTYPE (ptype f) \<noteq> PB_LTYPE_STRING"
        using True by (auto simp: scalar_type_def packable_width_def is_submessage_def ltype_defs)
      let ?w = "\<lambda>q. scalar_wire (PB_LTYPE (ptype f)) (take (data_size f) (drop q m))"
      have func: "emits write out room (PB_ENCODERS enc m f q) (?w q)" if "q + data_size f \<le> length m" "0 < q" for q
        using scalar_emits [OF True that(1)] sc by (simp add: PB_ENCODERS_def)
      have iw: "item_wire wire f (item_at items m f q) = ?w q" for q
        using True sc by (simp add: item_wire_def item_at_def raw_at_def)
      have e: "emits write out room (encode_array m f p n (PB_ENCODERS enc m f))
          (varint (8 * tag f + 2) @ with_length (concat (map (\<lambda>i. ?w (p + i * data_size f)) [0..<n])))"
        if "length (with_length (concat (map (\<lambda>i. ?w (p + i * data_size f)) [0..<n]))) < 2 ^ 63"
        using emits_both [OF packed_tag_emits [OF f(1)] packed_array_emits [OF True f(1) n(1) pn func refl p(1) that]] n st sc
        by (simp add: encode_array_def [abs_def] atype_defs)
      have fw: "field_wire wire f (map (\<lambda>i. item_at items m f (p + i * data_size f)) [0..<n])
          = varint (8 * tag f + 2) @ with_length (concat (map (\<lambda>i. ?w (p + i * data_size f)) [0..<n]))"
        using True f n by (simp add: field_wire_def packed_def iw comp_def)
      have "n \<le> array_size f \<and> (\<forall>i \<in> set [0..<n]. item_ok ok m f (p + i * data_size f))"
        using n sc by (simp add: item_ok_def)
      then show ?thesis unfolding fw writes_def using e by simp
    next
      case False
      have sc: "\<not> PB_LTYPE (ptype f) \<le> PB_LTYPE_LAST_PACKABLE"
        using f(1) False by (cases rule: plain_cases) (auto simp: is_submessage_def ltype_defs)
      have "writes write out room (run_all (\<lambda>i. both (pb_encode_tag_for_field f) (PB_ENCODERS enc m f (p + i * data_size f))) [0..<n])
          (\<forall>i \<in> set [0..<n]. True \<and> item_ok ok m f (p + i * data_size f))
          (concat (map (\<lambda>i. varint (8 * tag f + wire_type f) @ item_wire wire f (item_at items m f (p + i * data_size f))) [0..<n]))"
        by (rule writes_run_all, rule writes_both [OF writes_emits [OF field_tag_emits [OF f(1,3)]] item])
          (use p in_bounds in auto)
      moreover have "encode_array m f p n (PB_ENCODERS enc m f)
          = (run_all (\<lambda>i. both (pb_encode_tag_for_field f) (PB_ENCODERS enc m f (p + i * data_size f))) [0..<n] :: 's pb_ostream \<Rightarrow> _)"
        using n st sc by (intro ext) (simp add: encode_array_def items_loop_run atype_defs)
      ultimately show ?thesis using n False by (simp add: field_wire_def packed_def comp_def)
    qed
  qed
qed

end

text \<open>The cases of the three kinds of presence.\<close>

lemma repeated_items [simp]:
  "PB_HTYPE (ptype f) = PB_HTYPE_REPEATED \<Longrightarrow>
     item_count m f p = (if size_offset f \<noteq> 0 then load_size m (size_addr f p) else array_size f)"
  by (simp add: item_count_def htype_defs)

context byte_sink
begin

lemma field_writes:
  assumes f: "plain_field f" "tag f \<noteq> 0"
    and p: "0 < p" "p + member_size f \<le> length m" and d: "member_size f < 2 ^ 32"
    and sub: "\<And>q. is_submessage f \<Longrightarrow> 0 < q \<Longrightarrow> q + data_size f \<le> length m \<Longrightarrow>
      writes write out room (enc (sub_fields f) q) (ok q) (wire (items q))"
  shows "writes write out room (encode_field E enc m f p) (field_ok ok m f p) (field_wire wire f (field_items items m f p))"
proof -
  have st: "PB_ATYPE (ptype f) = PB_ATYPE_STATIC" using f by (simp add: plain_field_def)
  have ptr: "PB_ATYPE (ptype f) \<noteq> PB_ATYPE_POINTER" using st by (simp add: atype_defs)
  have e: "encode_field E enc m f p = encode_basic_field enc m f p"
    using st by (simp add: encode_field_def)
  show ?thesis
  proof (cases "PB_HTYPE (ptype f) = PB_HTYPE_REPEATED")
    case True
    have "encode_basic_field enc m f p = encode_array m f p (item_count m f p) (PB_ENCODERS enc m f)"
      using True ptr by (simp add: encode_basic_field_def Let_def htype_defs size_addr_def)
    moreover have "writes write out room (encode_array m f p (item_count m f p) (PB_ENCODERS enc m f))
      (item_count m f p \<le> array_size f \<and> (\<forall>i \<in> set [0..<item_count m f p]. item_ok ok m f (p + i * data_size f)))
      (field_wire wire f (map (\<lambda>i. item_at items m f (p + i * data_size f)) [0..<item_count m f p]))"
      by (rule array_writes [OF f(1) True f(2) p d]) (rule sub)
    ultimately show ?thesis unfolding e field_items_eq field_ok_eq using True by simp
  next
    case False
    then have sz: "member_size f = data_size f" using ptr by (simp add: member_size_def)
    have "writes write out room (PB_ENCODERS enc m f p) (item_ok ok m f p) (item_wire wire f (item_at items m f p))"
      by (rule item_writes [OF f(1) p(1)]) (use p d sz sub in simp_all)
    then have one: "writes write out room (both (pb_encode_tag_for_field f) (PB_ENCODERS enc m f p)) (item_ok ok m f p)
        (varint (8 * tag f + wire_type f) @ item_wire wire f (item_at items m f p))"
      using writes_both [OF writes_emits [OF field_tag_emits [OF f]]] by fastforce
    have fw: "field_wire wire f (field_items items m f p) = (if item_count m f p = 0 then []
        else varint (8 * tag f + wire_type f) @ item_wire wire f (item_at items m f p))"
      "field_ok ok m f p = (item_count m f p \<noteq> 0 \<longrightarrow> item_ok ok m f p)" if "item_count m f p \<le> 1"
    proof -
      have "item_count m f p = 0 \<or> item_count m f p = 1" using that by linarith
      then show "field_wire wire f (field_items items m f p) = (if item_count m f p = 0 then []
        else varint (8 * tag f + wire_type f) @ item_wire wire f (item_at items m f p))"
        "field_ok ok m f p = (item_count m f p \<noteq> 0 \<longrightarrow> item_ok ok m f p)"
        using False by (auto simp: field_wire_def packed_def field_items_eq field_ok_eq)
    qed
    have c: "item_count m f p \<le> 1" using False by (simp add: item_count_def)
    have "encode_basic_field enc m f p = (if item_count m f p = 0 then (\<lambda>stream. (True, stream))
        else both (pb_encode_tag_for_field f) (PB_ENCODERS enc m f p))"
    proof -
      consider "PB_HTYPE (ptype f) = PB_HTYPE_REQUIRED" | "PB_HTYPE (ptype f) = PB_HTYPE_OPTIONAL" "size_offset f \<noteq> 0"
        | "PB_HTYPE (ptype f) = PB_HTYPE_OPTIONAL" "size_offset f = 0" "\<not> is_submessage f"
        | "PB_HTYPE (ptype f) \<notin> {PB_HTYPE_REQUIRED, PB_HTYPE_OPTIONAL, PB_HTYPE_REPEATED}" "size_offset f \<noteq> 0"
        using f(1) False by (auto simp: plain_field_def)
      then show ?thesis
      proof cases
        case 3
        then show ?thesis using ptr check_default_is [OF f(1) 3(3,1,2), of p m] p sz
          by (simp add: encode_basic_field_def item_count_def Let_def htype_defs)
      qed (use ptr p in \<open>simp_all add: encode_basic_field_def item_count_def Let_def htype_defs size_addr_def\<close>)
    qed
    then show ?thesis unfolding e fw [OF c] using one writes_done by auto
  qed
qed

end

section \<open>Messages\<close>

lemma zip_map_self: "zip xs (map g xs) = map (\<lambda>x. (x, g x)) xs"
  by (induction xs) simp_all

lemma message_wire_at:
  "message_wire fs (message_at m fs p)
   = concat (map (\<lambda>(f, off). field_wire (message_wire (sub_fields f)) f (field_items (message_at m (sub_fields f)) m f (p + off)))
       (placed fs))"
proof -
  have z: "zip fs (map g (placed fs)) = map (\<lambda>x. (fst x, g x)) (placed fs)" for g :: "pb_field \<times> nat \<Rightarrow> pb_item list"
  proof -
    have "zip (map fst (placed fs)) (map g (placed fs)) = map (\<lambda>x. (fst x, g x)) (placed fs)"
      by (induction "placed fs") (simp_all add: zip_map_map zip_map_self zip_same_conv_map)
    then show ?thesis by (simp add: placed_def)
  qed
  show ?thesis
    unfolding message_wire.simps [of fs] message_at.simps [of m fs] z
    by (simp add: comp_def case_prod_unfold)
qed

context byte_sink
begin

lemma message_writes:
  "plain_message sz fs \<Longrightarrow> 0 < src \<Longrightarrow> src + sz \<le> length m \<Longrightarrow>
     writes write out room (pb_encode E m fs src) (message_ok m fs src) (message_wire fs (message_at m fs src))"
proof (induction sz fs arbitrary: src rule: plain_message.induct)
  case (1 sz fs)
  note plain = "1.prems"(1) [unfolded plain_message.simps [of sz]]
  then have desc: "described fs (layout fs)" by blast
  show ?case
  proof (cases "fs = []")
    case True
    have "pb_encode E m [] src = (\<lambda>st. (True, st))" by (simp only: pb_encode_def message_depth_Nil encode_nothing)
    then show ?thesis using True writes_done by (simp add: message_ok.simps message_wire.simps placed_def)
  next
    case False
    have field: "writes write out room (encode_field E (pb_encode E m) m f (src + off))
        (field_ok (message_ok m (sub_fields f)) m f (src + off))
        (field_wire (message_wire (sub_fields f)) f (field_items (message_at m (sub_fields f)) m f (src + off)))"
      if f: "(f, off) \<in> set (placed fs)" for f off
    proof (rule field_writes)
      have fs: "f \<in> set fs" using f by (rule placed_fst)
      show "plain_field f" using plain fs by blast
      show "tag f \<noteq> 0" "member_size f < 2 ^ 32" using desc fs by (auto simp: described_def)
      have "off + member_size f \<le> sz" using plain f by blast
      then show "src + off + member_size f \<le> length m" using "1.prems"(3) by linarith
      show "0 < src + off" using "1.prems"(2) by simp
      fix q assume "is_submessage f" "0 < q" "q + data_size f \<le> length m"
      then show "writes write out room (pb_encode E m (sub_fields f) q) (message_ok m (sub_fields f) q)
          (message_wire (sub_fields f) (message_at m (sub_fields f) q))"
        using "1.IH" [OF fs] plain fs by blast
    qed
    have no_ext: "PB_LTYPE (ptype f) \<noteq> PB_LTYPE_EXTENSION" if "f \<in> set fs" for f
    proof -
      have "plain_field f" using plain that by blast
      then show ?thesis by (cases rule: plain_cases) (auto simp: is_submessage_def ltype_defs)
    qed
    have "pb_encode E m fs src = (run_all (\<lambda>(f, off). encode_field E (pb_encode E m) m f (src + off)) (placed fs) :: 's pb_ostream \<Rightarrow> _)"
    proof (rule ext)
      fix st :: "'s pb_ostream"
      let ?it = "at_field fs (layout fs) (int src) 0"
      have "pb_encode E m fs src st = fields_loop
            (\<lambda>iter. if PB_LTYPE (ptype (iter_pos iter)) = PB_LTYPE_EXTENSION
                    then env_extension E (load_ptr m (nat (pData iter)))
                    else encode_field E (pb_encode E m) m (iter_pos iter) (nat (pData iter))) ?it st"
        by (subst pb_encode_unfold) (simp add: encode_message_def begin_at_field [OF desc False])
      also have "\<dots> = fields_loop (\<lambda>iter. encode_field E (pb_encode E m) m (iter_pos iter) (nat (pData iter))) ?it st"
      proof (rule fields_loop_cong)
        fix i :: pb_field_iter and st
        assume "start i = start ?it" "pos i < length (start ?it)"
        then have "iter_pos i \<in> set fs" using iter_pos_in [of i] by (simp add: at_field_def)
        then show "(if PB_LTYPE (ptype (iter_pos i)) = PB_LTYPE_EXTENSION then env_extension E (load_ptr m (nat (pData i)))
            else encode_field E (pb_encode E m) m (iter_pos i) (nat (pData i))) st
          = encode_field E (pb_encode E m) m (iter_pos i) (nat (pData i)) st" using no_ext by simp
      next
        show "pos ?it < length (start ?it)" using False by (simp add: at_field_def)
      qed
      also have "\<dots> = run_all (\<lambda>(f, off). encode_field E (pb_encode E m) m f (src + off)) (placed fs) st"
        by (rule fields_loop_placed [OF desc False])
      finally show "pb_encode E m fs src st
        = run_all (\<lambda>(f, off). encode_field E (pb_encode E m) m f (src + off)) (placed fs) st" .
    qed
    moreover have "writes write out room (run_all (\<lambda>(f, off). encode_field E (pb_encode E m) m f (src + off)) (placed fs))
        (\<forall>x \<in> set (placed fs). case x of (f, off) \<Rightarrow> field_ok (message_ok m (sub_fields f)) m f (src + off))
        (concat (map (\<lambda>(f, off). field_wire (message_wire (sub_fields f)) f
            (field_items (message_at m (sub_fields f)) m f (src + off))) (placed fs)))"
      by (rule writes_run_all) (use field in auto)
    ultimately show ?thesis unfolding message_wire_at message_ok.simps [of m fs] by (simp add: case_prod_beta)
  qed
qed

end

section \<open>Properties\<close>


text \<open>
  A structure of \<open>layout_fields\<close> at address 8: the number 3, the optional number 5, and two of at most
  four numbers.
\<close>

definition layout_memory :: memory where
  "layout_memory = replicate 8 0 @ [3, 0, 0, 0, 0, 0, 0, 1] @ [5, 0, 0, 0, 0, 0, 0, 0] @ [2, 0, 0, 0, 0, 0, 0, 0]
     @ [7, 0, 0, 0] @ [9, 0, 0, 0] @ replicate 8 0"

definition no_env :: "'s encode_env" where
  "no_env = \<lparr>env_callback = (\<lambda>_ _ _ st. (True, st)), env_extension = (\<lambda>_ st. (True, st))\<rparr>"

lemma layout_fields_layout: "layout layout_fields = layout_offs"
  by code_simp

lemma layout_plain: "plain_message 40 layout_fields"
proof -
  have "\<forall>f \<in> set layout_fields. tag f < 2 ^ 29" by (simp add: layout_fields_def)
  moreover have "\<forall>f \<in> set layout_fields. PB_ATYPE (ptype f) = PB_ATYPE_STATIC \<and> scalar_type f \<and> \<not> is_submessage f
      \<and> PB_LTYPE (ptype f) \<noteq> PB_LTYPE_STRING
      \<and> (PB_HTYPE (ptype f) \<notin> {PB_HTYPE_REQUIRED, PB_HTYPE_OPTIONAL, PB_HTYPE_REPEATED} \<longrightarrow> size_offset f \<noteq> 0)"
    by code_simp
  moreover have "\<forall>(f, off) \<in> set (placed layout_fields). off + member_size f \<le> 40" by code_simp
  ultimately show ?thesis using layout_described layout_fields_layout
    by (auto simp: plain_message.simps [of 40] plain_field_def)
qed

lemma layout_items:
  "message_at layout_memory layout_fields 8
   = [[Raw [3, 0, 0, 0]], [Raw [5, 0, 0, 0, 0, 0, 0, 0]], [Raw [7, 0, 0, 0], Raw [9, 0, 0, 0]]]"
  by code_simp

lemma layout_wire: "message_wire layout_fields (message_at layout_memory layout_fields 8) = [8, 3, 16, 5, 26, 2, 7, 9]"
proof -
  have [simp]: "le_val [] = 0" by (simp add: le_val_def be_val_def)
  show ?thesis
    unfolding layout_items message_wire.simps [of layout_fields]
    by (simp add: layout_fields_def field_wire_def packed_def scalar_type_def packable_width_def item_wire_def
        with_length_def scalar_wire_def wire_type_def le_val_Cons varint_small PB_HTYPE_def PB_LTYPE_def htype_defs ltype_defs)
qed

lemma layout_ok: "message_ok layout_memory layout_fields 8"
  by code_simp


text \<open>
  A proto3 submessage without a has-flag is left out when all its fields have their default
  values, but for an array of fixed size, which has no count, the check takes the first four bytes of
  the data for the count: a submessage holding the array 0, 5 is encoded as nothing, although the
  encoder writes four bytes for the same structure as a message of its own.
\<close>

definition fixed_array :: "pb_field list" where
  "fixed_array = [Field 1 0x21 0 0 4 2 Null_ptr]"

definition holds_fixed_array :: "pb_field list" where
  "holds_fixed_array = [Field 1 0x17 0 0 8 0 (Submsg_fields fixed_array)]"

definition array_memory :: memory where
  "array_memory = replicate 8 0 @ [0, 0, 0, 0, 5, 0, 0, 0]"

lemma array_default: "pb_check_proto3_default_value array_memory (Field 1 0x17 0 0 8 0 (Submsg_fields fixed_array)) 8"
  by code_simp

lemma fixed_array_plain: "plain_message 8 fixed_array"
proof -
  have "layout fixed_array = [0]" "map member_size fixed_array = [8]" "\<forall>(f, off) \<in> set (placed fixed_array). off + member_size f \<le> 8"
    by code_simp+
  moreover have "\<forall>f \<in> set fixed_array. PB_ATYPE (ptype f) = PB_ATYPE_STATIC \<and> scalar_type f \<and> \<not> is_submessage f
      \<and> PB_LTYPE (ptype f) \<noteq> PB_LTYPE_STRING
      \<and> (PB_HTYPE (ptype f) \<notin> {PB_HTYPE_REQUIRED, PB_HTYPE_OPTIONAL, PB_HTYPE_REPEATED} \<longrightarrow> size_offset f \<noteq> 0)"
    by code_simp
  ultimately show ?thesis
    by (auto simp: plain_message.simps [of 8] plain_field_def described_def fixed_array_def)
qed

lemma array_wire: "message_wire fixed_array (message_at array_memory fixed_array 8) = [10, 2, 0, 5]"
proof -
  have i: "message_at array_memory fixed_array 8 = [[Raw [0, 0, 0, 0], Raw [5, 0, 0, 0]]]" by code_simp
  have [simp]: "le_val [] = 0" by (simp add: le_val_def be_val_def)
  show ?thesis
    unfolding i message_wire.simps [of fixed_array]
    by (simp add: fixed_array_def field_wire_def packed_def scalar_type_def packable_width_def item_wire_def
        with_length_def scalar_wire_def wire_type_def le_val_Cons varint_small PB_HTYPE_def PB_LTYPE_def htype_defs ltype_defs)
qed

theorem pb_encode_drops_fixed_array:
  "pb_get_encoded_size no_env array_memory ([] :: u8 list, 0 :: nat) fixed_array 8 = Some 4
   \<and> pb_get_encoded_size no_env array_memory ([] :: u8 list, 0 :: nat) holds_fixed_array 8 = Some 0"
proof -
  have "message_ok array_memory fixed_array 8" by code_simp
  moreover have "8 + 8 \<le> length array_memory" by (simp add: array_memory_def)
  ultimately have "emits buf_write buf_out buf_room (pb_encode no_env array_memory fixed_array 8) [10, 2, 0, 5]"
    using buffer.message_writes [OF fixed_array_plain, of 8 array_memory no_env] array_wire by (simp add: writes_def)
  from buffer.counts [OF this] have "pb_get_encoded_size no_env array_memory ([] :: u8 list, 0 :: nat) fixed_array 8 = Some 4"
    by (simp add: pb_get_encoded_size_def)
  moreover have "pb_get_encoded_size no_env array_memory ([] :: u8 list, 0 :: nat) holds_fixed_array 8 = Some 0"
    by (subst pb_get_encoded_size_def, subst pb_encode_unfold)
      (simp add: encode_message_def holds_fixed_array_def pb_field_iter_begin_def pb_field_iter_next_def field_at_def
        iter_pos_def PB_LAST_FIELD_def fields_loop.simps [of _ "\<lparr>start = _, pos = _, required_field_index = _, dest_struct = _, pData = _, pSize = _\<rparr>"]
        encode_field_def encode_basic_field_def array_default [simplified] Let_def PB_LTYPE_def PB_HTYPE_def PB_ATYPE_def
        htype_defs atype_defs ltype_defs PB_OSTREAM_SIZING_def)
  ultimately show ?thesis ..
qed

end
