(* ===== verification/PbSafe.thy ===== *)
theory PbSafe
  imports PbDecode PbEncodeProps
begin

text \<open>
  The decoder on static descriptions and any input: it returns, and it writes inside the structure
  only.
\<close>

section \<open>Layouts with size fields\<close>

text \<open>
  The size field of a member lies in the structure and apart from the member; every array has a count.
\<close>

definition has_size :: "pb_field \<Rightarrow> bool" where
  "has_size f \<longleftrightarrow> PB_HTYPE (ptype f) \<noteq> PB_HTYPE_REQUIRED \<and> size_offset f \<noteq> 0"

definition size_bytes :: "pb_field \<Rightarrow> nat" where
  "size_bytes f = (if PB_HTYPE (ptype f) = PB_HTYPE_OPTIONAL then 1 else 4)"

definition sized_inside :: "nat \<Rightarrow> pb_field \<Rightarrow> nat \<Rightarrow> bool" where
  "sized_inside sz f off \<longleftrightarrow>
     (PB_HTYPE (ptype f) = PB_HTYPE_REPEATED \<longrightarrow> size_offset f \<noteq> 0)
     \<and> (has_size f \<longrightarrow>
          0 \<le> int off + size_offset f \<and> int off + size_offset f + int (size_bytes f) \<le> int sz
          \<and> (size_offset f + int (size_bytes f) \<le> 0 \<or> int (member_size f) \<le> size_offset f))"

function safe_message :: "nat \<Rightarrow> pb_field list \<Rightarrow> bool" where
  "safe_message sz fs \<longleftrightarrow>
     plain_message sz fs \<and> (\<forall>(f, off) \<in> set (placed fs). sized_inside sz f off)
     \<and> (\<forall>f \<in> set fs. is_submessage f \<longrightarrow> safe_message (data_size f) (sub_fields f))"
  by pat_completeness auto
termination
  by (relation "measure (\<lambda>(_, fs). size_list size fs)") (auto intro: sub_fields_smaller)

declare safe_message.simps [simp del]

text \<open>What a safe message says of its fields.\<close>

lemma safe_field:
  assumes "safe_message sz fs" and "(f, off) \<in> set (placed fs)"
  shows "plain_field f" and "off + member_size f \<le> sz" and "sized_inside sz f off" and "tag f \<noteq> 0"
    and "member_size f < 2 ^ 32" and "is_submessage f \<Longrightarrow> safe_message (data_size f) (sub_fields f)"
proof -
  note s = assms(1) [unfolded safe_message.simps [of sz]]
  then have p: "plain_message sz fs" by blast
  have f: "f \<in> set fs" using assms(2) by (rule placed_fst)
  show "plain_field f" "off + member_size f \<le> sz"
    using p assms(2) f unfolding plain_message.simps [of sz] by blast+
  show "sized_inside sz f off" using s assms(2) by blast
  show "tag f \<noteq> 0" "member_size f < 2 ^ 32" using p f unfolding plain_message.simps [of sz] described_def by blast+
  show "is_submessage f \<Longrightarrow> safe_message (data_size f) (sub_fields f)" using s f by blast
qed

lemma safe_described: "safe_message sz fs \<Longrightarrow> described fs (layout fs)"
  unfolding safe_message.simps [of sz] plain_message.simps [of sz] by blast

lemma placed_nth: "k < length fs \<Longrightarrow> (fs ! k, layout fs ! k) \<in> set (placed fs)"
  by (auto simp: placed_def set_zip)

lemma plain_static:
  assumes "plain_field f"
  shows "PB_ATYPE (ptype f) = PB_ATYPE_STATIC" and "PB_LTYPE (ptype f) \<noteq> PB_LTYPE_EXTENSION"
proof -
  show "PB_ATYPE (ptype f) = PB_ATYPE_STATIC" using assms by (simp add: plain_field_def)
  show "PB_LTYPE (ptype f) \<noteq> PB_LTYPE_EXTENSION"
    using assms by (cases rule: plain_cases) (auto simp: is_submessage_def ltype_defs PB_LTYPE_EXTENSION_def)
qed

lemma data_member: "plain_field f \<Longrightarrow> PB_HTYPE (ptype f) \<noteq> PB_HTYPE_REPEATED \<Longrightarrow> member_size f = data_size f"
  by (simp add: member_size_def plain_field_def atype_defs)

lemma array_member: "plain_field f \<Longrightarrow> PB_HTYPE (ptype f) = PB_HTYPE_REPEATED \<Longrightarrow> member_size f = data_size f * array_size f"
  by (simp add: member_size_def plain_field_def)

section \<open>Loads and stores\<close>

lemma load_size_outside:
  assumes "outside_same p n m m'" and "q + 4 \<le> p \<or> p + n \<le> q"
  shows "load_size m' q = load_size m q"
proof -
  have "take 4 (drop q m') = take 4 (drop q m)"
  proof (cases "q + 4 \<le> p")
    case True
    have "take 4 (drop q x) = drop q (take (q + 4) (take p x))" for x :: memory
      using True by (simp add: drop_take min_absorb1)
    then show ?thesis using assms(1) unfolding outside_same_def by metis
  next
    case False
    then have "drop q x = drop (q - (p + n)) (drop (p + n) x)" for x :: memory using assms(2) by simp
    then show ?thesis using assms(1) unfolding outside_same_def by metis
  qed
  then show ?thesis by (simp add: load_size_def)
qed

lemma load_store_size:
  assumes "p + 4 \<le> length m" and "n < 2 ^ 32"
  shows "load_size (store_size p n m) p = n"
proof -
  have "take 4 (drop p (store_size p n m)) = le_bytes 4 n" using assms(1) by (simp add: store_size_def blit_def)
  then show ?thesis using assms(2) by (simp add: load_size_def le_val_bytes)
qed

lemma store_size_same: "p \<le> q \<Longrightarrow> q + 4 \<le> p + n \<Longrightarrow> p + n \<le> length m \<Longrightarrow> outside_same p n m (store_size q k m)"
  unfolding store_size_def by (rule outside_same_blit) simp_all

lemma store_bool_same: "p \<le> q \<Longrightarrow> q + 1 \<le> p + n \<Longrightarrow> p + n \<le> length m \<Longrightarrow> outside_same p n m (store_bool q k m)"
  unfolding store_bool_def by (rule outside_same_blit) simp_all

section \<open>Decoding steps that stay inside\<close>

definition good ::
  "(nat \<Rightarrow> 's \<Rightarrow> u8 list option \<times> 's) \<Rightarrow> ('s \<Rightarrow> u8 list) \<Rightarrow> nat \<Rightarrow> nat \<Rightarrow> ('s dstate \<Rightarrow> 's d_result) \<Rightarrow> bool" where
  "good f rest p n act \<longleftrightarrow>
     (\<forall>m st. p + n \<le> length m \<longrightarrow> source_ready f rest st \<longrightarrow>
        (\<exists>ok m' st'. act (m, st) = Some (ok, m', st') \<and> outside_same p n m m' \<and> (ok \<longrightarrow> moved f rest st st')))"

lemma goodI:
  assumes "\<And>m st. p + n \<le> length m \<Longrightarrow> source_ready f rest st \<Longrightarrow>
    \<exists>ok m' st'. act (m, st) = Some (ok, m', st') \<and> outside_same p n m m' \<and> (ok \<longrightarrow> moved f rest st st')"
  shows "good f rest p n act"
  using assms by (simp add: good_def)

lemma goodE:
  assumes "good f rest p n act" and "p + n \<le> length m" and "source_ready f rest st"
  obtains ok m' st' where "act (m, st) = Some (ok, m', st')" and "outside_same p n m m'"
    and "ok \<Longrightarrow> moved f rest st st'" and "length m' = length m"
  using assms outside_same_length unfolding good_def by metis

lemma good_total:
  assumes "inside f rest p n d"
  shows "good f rest p n (\<lambda>st. Some (d st))"
proof (rule goodI)
  fix m :: memory and st :: "'a pb_istream"
  assume l: "p + n \<le> length m" and st: "source_ready f rest st"
  obtain ok m' st' where r: "d (m, st) = (ok, m', st')" by (rule prod_cases3)
  from insideD [OF assms l st r] r
  show "\<exists>ok m' st'. Some (d (m, st)) = Some (ok, m', st') \<and> outside_same p n m m' \<and> (ok \<longrightarrow> moved f rest st st')" by blast
qed

lemma good_mono:
  assumes "good f rest p n act" and "q \<le> p" and "p + n \<le> q + k"
  shows "good f rest q k act"
proof (rule goodI)
  fix m :: memory and st :: "'a pb_istream"
  assume l: "q + k \<le> length m" and st: "source_ready f rest st"
  have "p + n \<le> length m" using l assms by linarith
  from goodE [OF assms(1) this st] outside_same_mono [OF _ assms(2,3)]
  show "\<exists>ok m' st'. act (m, st) = Some (ok, m', st') \<and> outside_same q k m m' \<and> (ok \<longrightarrow> moved f rest st st')" by metis
qed

text \<open>A change of the memory inside the region before the step.\<close>

lemma good_after:
  assumes "good f rest p n act" and g: "\<And>m. p + n \<le> length m \<Longrightarrow> outside_same p n m (g m)"
  shows "good f rest p n (\<lambda>st. act (g (fst st), snd st))"
proof (rule goodI)
  fix m :: memory and st :: "'a pb_istream"
  assume l: "p + n \<le> length m" and st: "source_ready f rest st"
  note G = g [OF l]
  have "p + n \<le> length (g m)" using l outside_same_length [OF G] by simp
  from goodE [OF assms(1) this st] outside_same_trans [OF G]
  show "\<exists>ok m' st'. act (g (fst (m, st)), snd (m, st)) = Some (ok, m', st') \<and> outside_same p n m m' \<and> (ok \<longrightarrow> moved f rest st st')"
    by (metis fst_conv snd_conv)
qed

lemma good_error: "good f rest p n (\<lambda>st. Some (pb_derror msg st))"
  by (rule good_total [OF inside_error])

section \<open>Substreams\<close>

context byte_source
begin

lemma skip_moved: "source_ready f rest st \<Longrightarrow> skip_unit n st = (Some u, st') \<Longrightarrow>
    n \<le> bytes_left st \<and> moved f rest st st' \<and> bytes_left st' = bytes_left st - n"
proof -
  assume st: "source_ready f rest st" and r: "skip_unit n st = (Some u, st')"
  show ?thesis
  proof (cases "p_skip n (stream_bytes rest st)")
    case None
    from parsesD(1) [OF skip_parses st this] r show ?thesis by simp
  next
    case (Some a)
    then have p: "p_skip n (stream_bytes rest st) = Some ((), drop n (stream_bytes rest st))" "n \<le> bytes_left st"
      using stream_bytes_length [OF st] by (auto simp: p_skip_def split: if_splits)
    from parsesD(2) [OF skip_parses st p(1)] r obtain k where
      k: "advanced f rest st k st'" "drop n (stream_bytes rest st) = drop k (stream_bytes rest st)" by auto
    have "k \<le> bytes_left st" using k(1) by (simp add: advanced_def)
    with arg_cong [OF k(2), of length] p(2) stream_bytes_length [OF st] have "k = n" by simp
    with k(1) p(2) advanced_moved [OF k(1)] show ?thesis by (simp add: advanced_def)
  qed
qed

lemma substream_moved:
  assumes st: "source_ready f rest st" and r: "pb_make_string_substream st = (Some sub, st1)"
  obtains st0 n where "moved f rest st st0" and "n \<le> bytes_left st0" and "sub = st0\<lparr>bytes_left := n\<rparr>"
    and "st1 = st0\<lparr>bytes_left := bytes_left st0 - n\<rparr>" and "source_ready f rest sub"
proof -
  obtain o' st0 where d: "pb_decode_varint32 st = (o', st0)" by (rule prod.exhaust)
  with r obtain sz where o': "o' = Some sz" by (cases o') (simp_all add: pb_make_string_substream_def and_then_def)
  have m: "moved f rest st st0" using varint32_keeps st d o' unfolding keeps_def by blast
  have s: "unat sz \<le> bytes_left st0" "sub = st0\<lparr>bytes_left := unat sz\<rparr>" "st1 = st0\<lparr>bytes_left := bytes_left st0 - unat sz\<rparr>"
    using r d o' by (auto simp: pb_make_string_substream_def and_then_def pb_ierror_def split: if_splits)
  moreover have "source_ready f rest sub" using moved_ready [OF m] s by (simp add: source_ready_def)
  ultimately show thesis using that m by blast
qed

lemma close_moved:
  assumes st: "source_ready f rest st0" and n: "n \<le> bytes_left st0" and m: "moved f rest (st0\<lparr>bytes_left := n\<rparr>) sub"
    and r: "close_with status mem sub (st0\<lparr>bytes_left := bytes_left st0 - n\<rparr>) = (ok, mem', st')"
  shows "mem' = mem" and "ok \<Longrightarrow> status" and "ok \<Longrightarrow> moved f rest st0 st'"
proof -
  show "mem' = mem" "ok \<Longrightarrow> status" using r by (auto simp: close_with_def split: prod.splits option.splits)
  assume ok
  let ?skip = "if bytes_left sub \<noteq> 0 then skip_unit (bytes_left sub) sub else (Some (), sub)"
  obtain o' sub' where s: "?skip = (o', sub')" by (rule prod.exhaust)
  from r \<open>ok\<close> s obtain u where o': "o' = Some u"
    by (cases o') (auto simp: close_with_def pb_close_string_substream_def split: prod.splits option.splits if_splits)
  have sub': "moved f rest sub sub'" "bytes_left sub' = 0"
    using s o' skip_moved [OF moved_ready [OF m], of "bytes_left sub" u sub'] moved_ready [OF m]
    by (auto split: if_splits)
  from moved_trans [OF m sub'(1)] sub'(2)
  have i: "input_bytes rest (istate sub') = drop n (input_bytes rest (istate st0))" by (simp add: moved_def)
  have st': "st' = st0\<lparr>bytes_left := bytes_left st0 - n, istate := istate sub', ierrmsg := ierrmsg sub'\<rparr>"
    using r s o' by (auto simp: close_with_def pb_close_string_substream_def split: if_splits)
  have "source_ready f rest sub'" using sub'(1) by (rule moved_ready)
  then show "moved f rest st0 st'" using st n i by (auto simp: moved_def st' source_ready_def)
qed

lemma substream_good:
  assumes body: "good f rest p n body"
    and fin: "\<And>status m sub st. fin status m sub st = Some (close_with status m sub st)
      \<or> (\<exists>msg. fin status m sub st = Some (pb_derror msg (m, st)))"
  shows "good f rest p n
    (\<lambda>st. case pb_make_string_substream (snd st) of
       (None, stream) \<Rightarrow> Some (False, fst st, stream)
     | (Some sub, stream) \<Rightarrow>
         (case body (fst st, sub) of
            None \<Rightarrow> None
          | Some (status, m, sub) \<Rightarrow> fin status m sub stream))"
proof (rule goodI)
  fix m :: memory and st :: "'s pb_istream"
  assume l: "p + n \<le> length m" and st: "source_ready f rest st"
  obtain o' st1 where d: "pb_make_string_substream st = (o', st1)" by (rule prod.exhaust)
  show "\<exists>ok m' st'. (case pb_make_string_substream (snd (m, st)) of
       (None, stream) \<Rightarrow> Some (False, fst (m, st), stream)
     | (Some sub, stream) \<Rightarrow>
         (case body (fst (m, st), sub) of
            None \<Rightarrow> None
          | Some (status, m, sub) \<Rightarrow> fin status m sub stream)) = Some (ok, m', st')
      \<and> outside_same p n m m' \<and> (ok \<longrightarrow> moved f rest st st')"
  proof (cases o')
    case None
    with d have "pb_make_string_substream st = (None, st1)" by simp
    then show ?thesis by (auto intro!: exI [of _ False])
  next
    case (Some sub)
    with d have "pb_make_string_substream st = (Some sub, st1)" by simp
    from substream_moved [OF st this] obtain st0 k where
      s: "moved f rest st st0" "k \<le> bytes_left st0" "sub = st0\<lparr>bytes_left := k\<rparr>"
        "st1 = st0\<lparr>bytes_left := bytes_left st0 - k\<rparr>" "source_ready f rest sub" .
    from goodE [OF body l s(5)] obtain status m1 sub1 where
      b: "body (m, sub) = Some (status, m1, sub1)" "outside_same p n m m1" "status \<Longrightarrow> moved f rest sub sub1" by blast
    obtain ok m' st' where c: "close_with status m1 sub1 st1 = (ok, m', st')" by (rule prod_cases3)
    have "outside_same p n m m' \<and> (ok \<longrightarrow> moved f rest st st')"
    proof (cases status)
      case True
      note C = close_moved [OF moved_ready [OF s(1)] s(2) b(3) [OF True, unfolded s(3)] c [unfolded s(4)]]
      show ?thesis using C(1,3) b(2) moved_trans [OF s(1)] by blast
    next
      case False
      then have "\<not> ok" "m' = m1" using c by (auto simp: close_with_def split: prod.splits option.splits)
      then show ?thesis using b(2) by simp
    qed
    then show ?thesis using fin [of status m1 sub1 st1] d Some b(1,2) c by (auto simp: pb_derror_def)
  qed
qed

lemma submessage_unfold:
  assumes "ptr g \<noteq> Null_ptr"
  shows "pb_dec_submessage dec g q = (\<lambda>st. case pb_make_string_substream (snd st) of
       (None, stream) \<Rightarrow> Some (False, fst st, stream)
     | (Some sub, stream) \<Rightarrow>
         (case dec (PB_HTYPE (ptype g) = PB_HTYPE_REPEATED) (sub_fields g) q (fst st, sub) of
            None \<Rightarrow> None
          | Some (status, m, sub) \<Rightarrow> Some (close_with status m sub stream)))"
  by (intro ext) (simp only: pb_dec_submessage_def if_not_P [OF assms])

lemma submessage_good:
  assumes "\<And>init. good f rest q n (dec init (sub_fields g) q)" and "ptr g \<noteq> Null_ptr"
  shows "good f rest q n (pb_dec_submessage dec g q)"
  unfolding submessage_unfold [OF assms(2)]
  using substream_good [OF assms(1), of "\<lambda>status m sub st. Some (close_with status m sub st)"] by simp

lemma func_good:
  assumes p: "plain_field g" and d: "\<And>init. is_submessage g \<Longrightarrow> good f rest q (data_size g) (dec init (sub_fields g) q)"
  shows "good f rest q (data_size g) (PB_DECODERS E dec g q)"
  using p
proof (cases rule: plain_cases)
  case scalar
  then have "PB_DECODERS E dec g q = (\<lambda>st. Some (packable_decoder (PB_LTYPE (ptype g)) (data_size g) q st))"
    by (intro ext) (simp add: PB_DECODERS_def)
  then show ?thesis using good_total [OF packable_inside] scalar(1) by (simp add: scalar_type_def)
next
  case bytes
  then have "PB_DECODERS E dec g q = (\<lambda>st. Some (pb_dec_bytes (env_realloc E) (ptype g) (data_size g) q st))"
    by (intro ext) (simp add: PB_DECODERS_def ltype_defs)
  then show ?thesis using good_total [OF bytes_inside] p by (simp add: plain_field_def atype_defs)
next
  case string
  then have "PB_DECODERS E dec g q = (\<lambda>st. Some (pb_dec_string (env_realloc E) (ptype g) (data_size g) q st))"
    by (intro ext) (simp add: PB_DECODERS_def ltype_defs)
  then show ?thesis using good_total [OF string_inside] p by (simp add: plain_field_def atype_defs)
next
  case fixed
  then have "PB_DECODERS E dec g q = (\<lambda>st. Some (pb_dec_fixed_length_bytes (data_size g) q st))"
    by (intro ext) (simp add: PB_DECODERS_def ltype_defs)
  then show ?thesis using good_total [OF fixed_length_inside] by simp
next
  case sub
  then have "PB_DECODERS E dec g q = pb_dec_submessage dec g q"
    by (intro ext) (simp add: PB_DECODERS_def is_submessage_def ltype_defs)
  then show ?thesis using submessage_good [of q "data_size g" dec g] d sub by simp
qed

end

section \<open>Fields in place\<close>

abbreviation field_iter :: "pb_field list \<Rightarrow> nat \<Rightarrow> nat \<Rightarrow> pb_field_iter" where
  "field_iter fs dest k \<equiv> at_field fs (layout fs) (int dest) k"

lemma field_iter_simps [simp]:
  "k < length fs \<Longrightarrow> iter_pos (field_iter fs dest k) = fs ! k"
  "nat (pData (field_iter fs dest k)) = dest + layout fs ! k"
  "pSize (field_iter fs dest k) = pData (field_iter fs dest k) \<longleftrightarrow> size_offset (fs ! k) = 0"
  "start (field_iter fs dest k) = fs"
  by (simp_all add: at_field_def iter_pos_def field_at_def nat_int_add)

lemma size_place:
  fixes dest :: nat
  assumes "safe_message sz fs" and "k < length fs" and "has_size (fs ! k)"
  defines "a \<equiv> nat (pSize (field_iter fs dest k))" and "q \<equiv> dest + layout fs ! k" and "n \<equiv> size_bytes (fs ! k)"
  shows "dest \<le> a" and "a + n \<le> dest + sz" and "a + n \<le> q \<or> q + member_size (fs ! k) \<le> a"
  using safe_field(3) [OF assms(1) placed_nth [OF assms(2)]] assms(3)
  by (auto simp: sized_inside_def a_def q_def n_def at_field_def)

lemma data_place:
  assumes "safe_message sz fs" and "k < length fs"
  shows "plain_field (fs ! k)" and "layout fs ! k + member_size (fs ! k) \<le> sz"
  using safe_field(1,2) [OF assms(1) placed_nth [OF assms(2)]] by blast+

text \<open>Setting the size field.\<close>

lemma set_size:
  assumes "safe_message sz fs" and "k < length fs" and "dest + sz \<le> length m"
    and "PB_HTYPE (ptype (fs ! k)) \<notin> {PB_HTYPE_REQUIRED, PB_HTYPE_OPTIONAL}"
  shows "outside_same dest sz m (store_size (nat (pSize (field_iter fs dest k))) c m)"
proof -
  have "plain_field (fs ! k)" "sized_inside sz (fs ! k) (layout fs ! k)"
    using safe_field(1,3) [OF assms(1) placed_nth [OF assms(2)]] by blast+
  with assms(4) have "has_size (fs ! k)" "size_bytes (fs ! k) = 4"
    by (auto simp: has_size_def size_bytes_def sized_inside_def plain_field_def)
  with size_place [OF assms(1,2), where dest = dest] assms(3) show ?thesis by (auto intro!: store_size_same)
qed

lemma set_has:
  assumes "safe_message sz fs" and "k < length fs" and "dest + sz \<le> length m"
    and "PB_HTYPE (ptype (fs ! k)) = PB_HTYPE_OPTIONAL" and "size_offset (fs ! k) \<noteq> 0"
  shows "outside_same dest sz m (store_bool (nat (pSize (field_iter fs dest k))) b m)"
proof -
  have "has_size (fs ! k)" "size_bytes (fs ! k) = 1"
    using assms(4,5) by (simp_all add: has_size_def size_bytes_def htype_defs)
  with size_place [OF assms(1,2), where dest = dest] assms(3) show ?thesis by (auto intro!: store_bool_same)
qed

section \<open>Default values\<close>

lemma run_all_preserves:
  assumes "\<And>x st. x \<in> set xs \<Longrightarrow> P st \<Longrightarrow> P (snd (g x st))" and "P st"
  shows "P (snd (run_all g xs st))"
  using assms
proof (induction xs arbitrary: st)
  case (Cons x xs)
  obtain ok st1 where g: "g x st = (ok, st1)" by (rule prod.exhaust)
  with Cons.prems(1) [of x st] Cons.prems(2) have "P st1" by simp
  with g Cons.IH [of st1] Cons.prems(1) show ?case by (cases ok) (simp_all add: both_def)
qed simp

lemma fields_loop_preserves:
  assumes "described fs (layout fs)" and "fs \<noteq> []"
    and "\<And>k st. k < length fs \<Longrightarrow> P st \<Longrightarrow> P (snd (body (field_iter fs dest k) st))" and "P st"
  shows "P (snd (fields_loop body (field_iter fs dest 0) st))"
proof -
  have "P (snd (run_all (\<lambda>i. body (field_iter fs dest i)) [0..<length fs] st))"
    by (rule run_all_preserves) (use assms(3,4) in simp_all)
  then show ?thesis using fields_loop_at [OF assms(1), of 0 body "int dest" st] assms(2) by simp
qed

lemma field_default_inside:
  assumes s: "safe_message sz fs" and k: "k < length fs" and l: "dest + sz \<le> length m"
    and rec: "\<And>m q. is_submessage (fs ! k) \<Longrightarrow> q + data_size (fs ! k) \<le> length m \<Longrightarrow>
        outside_same q (data_size (fs ! k)) m (rec (sub_fields (fs ! k)) q m)"
  shows "outside_same dest sz m (pb_field_set_to_default E rec (field_iter fs dest k) m)"
proof -
  let ?g = "fs ! k" and ?q = "dest + layout fs ! k" and ?it = "field_iter fs dest k"
  note d = data_place [OF s k]
  have st: "PB_ATYPE (ptype ?g) = PB_ATYPE_STATIC" "PB_LTYPE (ptype ?g) \<noteq> PB_LTYPE_EXTENSION"
    using plain_static [OF d(1)] by simp_all
  define init where "init = (\<lambda>m. if PB_LTYPE (ptype ?g) = PB_LTYPE_SUBMESSAGE then rec (sub_fields ?g) ?q m
                               else (case ptr ?g of
                                       Default_value b \<Rightarrow> blit m ?q (take (data_size ?g) b)
                                     | _ \<Rightarrow> blit m ?q (replicate (data_size ?g) 0)))"
  have i: "outside_same dest sz m' (init m')" if "PB_HTYPE (ptype ?g) \<noteq> PB_HTYPE_REPEATED" "dest + sz \<le> length m'" for m'
  proof -
    have e: "?q + data_size ?g \<le> dest + sz" using d data_member [OF d(1) that(1)] by simp
    have "outside_same ?q (data_size ?g) m' (init m')"
    proof (cases "is_submessage ?g")
      case True
      then show ?thesis using rec [of ?q m'] e that(2) by (simp add: init_def is_submessage_def)
    next
      case False
      then show ?thesis using e that(2)
        by (auto simp: init_def is_submessage_def split: pb_ptr.split intro!: outside_same_blit)
    qed
    then show ?thesis by (rule outside_same_mono) (use e in simp_all)
  qed
  have "pb_field_set_to_default E rec ?it m =
      (if PB_HTYPE (ptype ?g) = PB_HTYPE_OPTIONAL \<and> size_offset ?g \<noteq> 0 then init (store_bool (nat (pSize ?it)) False m)
       else if PB_HTYPE (ptype ?g) = PB_HTYPE_REPEATED \<or> PB_HTYPE (ptype ?g) = PB_HTYPE_ONEOF
       then store_size (nat (pSize ?it)) 0 m
       else init m)"
    by (simp only: pb_field_set_to_default_def Let_def field_iter_simps(1) [OF k] field_iter_simps(2,3) st init_def
        if_False if_True simp_thms)
  moreover have "outside_same dest sz m (init (store_bool (nat (pSize ?it)) False m))"
    if o: "PB_HTYPE (ptype ?g) = PB_HTYPE_OPTIONAL" "size_offset ?g \<noteq> 0"
  proof -
    note h = set_has [OF s k l o, of False]
    have "outside_same dest sz (store_bool (nat (pSize ?it)) False m) (init (store_bool (nat (pSize ?it)) False m))"
      by (rule i) (use o l outside_same_length [OF h] in \<open>simp_all add: htype_defs\<close>)
    with h show ?thesis by (rule outside_same_trans)
  qed
  moreover have "outside_same dest sz m (store_size (nat (pSize ?it)) 0 m)"
    if "PB_HTYPE (ptype ?g) = PB_HTYPE_REPEATED \<or> PB_HTYPE (ptype ?g) = PB_HTYPE_ONEOF"
    by (rule set_size [OF s k l]) (use that in \<open>auto simp: htype_defs\<close>)
  ultimately show ?thesis using i [of m] l by auto
qed

lemma safe_sub:
  assumes "safe_message sz fs" and "k < length fs" and "is_submessage (fs ! k)"
  shows "safe_message (data_size (fs ! k)) (sub_fields (fs ! k))"
  using safe_field(6) [OF assms(1) placed_nth [OF assms(2)]] assms(3) by blast

lemma safe_depth:
  assumes "safe_message sz fs" and "k < length fs" and "is_submessage (fs ! k)" and "message_depth fs \<le> d"
  obtains d' where "d = Suc d'" and "message_depth (sub_fields (fs ! k)) \<le> d'"
proof -
  have "\<exists>gs. ptr (fs ! k) = Submsg_fields gs"
    using data_place(1) [OF assms(1,2)] assms(3)
    by (cases rule: plain_cases) simp_all
  then obtain gs where g: "ptr (fs ! k) = Submsg_fields gs" by blast
  have "field_depth (fs ! k) = Suc (message_depth (sub_fields (fs ! k)))"
    using g by (cases "fs ! k") (simp add: sub_fields_def message_depth_def)
  moreover have "field_depth (fs ! k) \<le> d"
    using assms(2,4) by (auto simp: message_depth_def foldr_max_le)
  ultimately show thesis using that by (cases d) auto
qed

lemma message_defaults_inside:
  assumes s: "safe_message sz fs" and l: "dest + sz \<le> length m"
    and rec: "\<And>k q m. k < length fs \<Longrightarrow> is_submessage (fs ! k) \<Longrightarrow> q + data_size (fs ! k) \<le> length m \<Longrightarrow>
        outside_same q (data_size (fs ! k)) m (rec (sub_fields (fs ! k)) q m)"
  shows "outside_same dest sz m (message_defaults E rec fs dest m)"
proof (cases "fs = []")
  case True
  then show ?thesis by (simp add: message_defaults_def pb_field_iter_begin_def field_at_def PB_LAST_FIELD_def Let_def)
next
  case False
  let ?body = "\<lambda>iter m. (True, pb_field_set_to_default E rec iter m)"
  have "outside_same dest sz m (snd (fields_loop ?body (field_iter fs dest 0) m))"
  proof (rule fields_loop_preserves [OF safe_described [OF s] False])
    fix k st assume k: "k < length fs" and P: "outside_same dest sz m st"
    have "dest + sz \<le> length st" using l outside_same_length [OF P] by simp
    from field_default_inside [where rec = rec and E = E, OF s k this rec [OF k]] outside_same_trans [OF P]
    show "outside_same dest sz m (snd (?body (field_iter fs dest k) st))" by simp
  qed simp
  then show ?thesis using begin_at_field [OF safe_described [OF s] False] by (simp add: message_defaults_def)
qed

lemma defaults_n_inside:
  "safe_message sz fs \<Longrightarrow> message_depth fs \<le> d \<Longrightarrow> dest + sz \<le> length m \<Longrightarrow> outside_same dest sz m (defaults_n E d fs dest m)"
proof (induction d arbitrary: sz fs dest m)
  case 0
  show ?case unfolding defaults_n.simps
    by (rule message_defaults_inside [OF 0(1,3)]) (use safe_depth [OF 0(1) _ _ 0(2)] in blast)
next
  case (Suc d)
  show ?case unfolding defaults_n.simps
  proof (rule message_defaults_inside [OF Suc.prems(1,3)])
    fix k q and m :: memory
    assume k: "k < length fs" "is_submessage (fs ! k)" and l: "q + data_size (fs ! k) \<le> length m"
    from safe_depth [OF Suc.prems(1) k Suc.prems(2)] have "message_depth (sub_fields (fs ! k)) \<le> d" by blast
    with Suc.IH [OF safe_sub [OF Suc.prems(1) k] _ l]
    show "outside_same q (data_size (fs ! k)) m (defaults_n E d (sub_fields (fs ! k)) q m)" by simp
  qed
qed

lemma defaults_inside: "safe_message sz fs \<Longrightarrow> dest + sz \<le> length m \<Longrightarrow> outside_same dest sz m (pb_message_set_to_defaults E fs dest m)"
  unfolding pb_message_set_to_defaults_def by (rule defaults_n_inside [OF _ order_refl])

section \<open>Releasing\<close>

text \<open>Nothing of a static message is released.\<close>

lemma release_items_id: "(\<And>p m. g p m = m) \<Longrightarrow> release_items g step n p m = m"
  by (induction n arbitrary: p) simp_all

lemma release_single_id:
  assumes s: "safe_message sz fs" and k: "k < length fs"
    and rec: "\<And>p m. is_submessage (fs ! k) \<Longrightarrow> rec (sub_fields (fs ! k)) p m = m"
  shows "pb_release_single_field E rec (field_iter fs dest k) m = m"
proof -
  let ?g = "fs ! k"
  have st: "PB_ATYPE (ptype ?g) = PB_ATYPE_STATIC" "PB_LTYPE (ptype ?g) \<noteq> PB_LTYPE_EXTENSION"
    using plain_static [OF data_place(1) [OF s k]] by simp_all
  have np: "PB_ATYPE_STATIC \<noteq> PB_ATYPE_POINTER" by (simp add: atype_defs)
  have "release_submessages rec (field_iter fs dest k) m = m" if "PB_LTYPE (ptype ?g) = PB_LTYPE_SUBMESSAGE"
    using rec that release_items_id [of "rec (sub_fields ?g)"] k
    by (simp add: release_submessages_def Let_def is_submessage_def)
  then show ?thesis using k st np by (simp add: pb_release_single_field_def Let_def)
qed

lemma message_release_id:
  assumes s: "safe_message sz fs"
    and rec: "\<And>k p m. k < length fs \<Longrightarrow> is_submessage (fs ! k) \<Longrightarrow> rec (sub_fields (fs ! k)) p m = m"
  shows "message_release E rec fs dest m = m"
proof (cases "fs = []")
  case True
  then show ?thesis by (simp add: message_release_def pb_field_iter_begin_def field_at_def PB_LAST_FIELD_def Let_def)
next
  case False
  let ?body = "\<lambda>iter m. (True, pb_release_single_field E rec iter m)"
  have "snd (fields_loop ?body (field_iter fs dest 0) m) = m"
    by (rule fields_loop_preserves [OF safe_described [OF s] False, where P = "\<lambda>m'. m' = m"])
      (use release_single_id [where rec = rec, OF s _ rec] in simp_all)
  then show ?thesis using begin_at_field [OF safe_described [OF s] False] by (simp add: message_release_def)
qed

lemma release_n_id: "safe_message sz fs \<Longrightarrow> message_depth fs \<le> d \<Longrightarrow> release_n E d fs dest m = m"
proof (induction d arbitrary: sz fs dest m)
  case 0
  show ?case unfolding release_n.simps
    by (rule message_release_id [OF 0(1)]) (use safe_depth [OF 0(1) _ _ 0(2)] in blast)
next
  case (Suc d)
  show ?case unfolding release_n.simps
  proof (rule message_release_id [OF Suc.prems(1)])
    fix k p m assume k: "k < length fs" "is_submessage (fs ! k)"
    from safe_depth [OF Suc.prems(1) k Suc.prems(2)] have "message_depth (sub_fields (fs ! k)) \<le> d" by blast
    with Suc.IH [OF safe_sub [OF Suc.prems(1) k]] show "release_n E d (sub_fields (fs ! k)) p m = m" by simp
  qed
qed

lemma release_id: "safe_message sz fs \<Longrightarrow> pb_release E fs dest m = m"
  unfolding pb_release_def by (rule release_n_id [OF _ order_refl])

section \<open>Static fields\<close>

text \<open>\<^verbatim>\<open>decode_static_field\<close> for each kind of field.\<close>

lemma static_required:
  assumes "k < length fs" and "PB_HTYPE (ptype (fs ! k)) = PB_HTYPE_REQUIRED"
  shows "decode_static_field E dec wt (field_iter fs dest k) = PB_DECODERS E dec (fs ! k) (dest + layout fs ! k)"
  using assms by (intro ext) (simp add: decode_static_field_def Let_def)

lemma static_optional:
  assumes "k < length fs" and "PB_HTYPE (ptype (fs ! k)) = PB_HTYPE_OPTIONAL"
  shows "decode_static_field E dec wt (field_iter fs dest k) =
    (\<lambda>st. PB_DECODERS E dec (fs ! k) (dest + layout fs ! k)
      (if size_offset (fs ! k) \<noteq> 0 then store_bool (nat (pSize (field_iter fs dest k))) True (fst st) else fst st, snd st))"
  using assms by (intro ext) (simp add: decode_static_field_def Let_def htype_defs)

lemma static_packed:
  assumes "k < length fs" and "PB_HTYPE (ptype (fs ! k)) = PB_HTYPE_REPEATED"
    and "wt = PB_WT_STRING \<and> PB_LTYPE (ptype (fs ! k)) \<le> PB_LTYPE_LAST_PACKABLE"
  shows "decode_static_field E dec wt (field_iter fs dest k) =
    (\<lambda>st. case pb_make_string_substream (snd st) of
       (None, stream) \<Rightarrow> Some (False, fst st, stream)
     | (Some sub, stream) \<Rightarrow>
         (case packed_entries (PB_DECODERS E dec (fs ! k)) (fs ! k) (dest + layout fs ! k)
                 (nat (pSize (field_iter fs dest k))) (fst st, sub) of
            None \<Rightarrow> None
          | Some (status, m, sub) \<Rightarrow>
              if bytes_left sub \<noteq> 0 then Some (pb_derror ''array overflow'' (m, stream))
              else Some (close_with status m sub stream)))"
  using assms by (intro ext) (simp add: decode_static_field_def Let_def htype_defs cong: if_cong)

lemma static_unpacked:
  assumes "k < length fs" and "PB_HTYPE (ptype (fs ! k)) = PB_HTYPE_REPEATED"
    and "\<not> (wt = PB_WT_STRING \<and> PB_LTYPE (ptype (fs ! k)) \<le> PB_LTYPE_LAST_PACKABLE)"
  shows "decode_static_field E dec wt (field_iter fs dest k) (m, st) =
    (let n = load_size m (nat (pSize (field_iter fs dest k))); st = (store_size (nat (pSize (field_iter fs dest k))) (n + 1) m, st)
     in if n \<ge> array_size (fs ! k) then Some (pb_derror ''array overflow'' st)
        else PB_DECODERS E dec (fs ! k) (dest + layout fs ! k + data_size (fs ! k) * n) st)"
proof -
  have h: "PB_HTYPE_REPEATED \<noteq> PB_HTYPE_REQUIRED" "PB_HTYPE_REPEATED \<noteq> PB_HTYPE_OPTIONAL" by (simp_all add: htype_defs)
  show ?thesis
    by (simp only: decode_static_field_def Let_def field_iter_simps(1) [OF assms(1)] field_iter_simps(2) assms(2) h
        if_not_P [OF assms(3)] if_False if_True fst_conv snd_conv simp_thms)
qed

definition union_prepared :: "'s decode_env \<Rightarrow> pb_field \<Rightarrow> nat \<Rightarrow> nat \<Rightarrow> memory \<Rightarrow> memory" where
  "union_prepared E g q a m =
     (let m = store_size a (tag g) m
      in if PB_LTYPE (ptype g) = PB_LTYPE_SUBMESSAGE
         then pb_message_set_to_defaults E (sub_fields g) q (blit m q (replicate (data_size g) 0)) else m)"

lemma static_union:
  assumes "k < length fs" and "PB_HTYPE (ptype (fs ! k)) \<notin> {PB_HTYPE_REQUIRED, PB_HTYPE_OPTIONAL, PB_HTYPE_REPEATED}"
  shows "decode_static_field E dec wt (field_iter fs dest k) =
    (\<lambda>st. PB_DECODERS E dec (fs ! k) (dest + layout fs ! k)
      (union_prepared E (fs ! k) (dest + layout fs ! k) (nat (pSize (field_iter fs dest k))) (fst st), snd st))"
  using assms by (intro ext) (simp add: decode_static_field_def union_prepared_def Let_def)

context byte_source
begin

lemma packed_good:
  assumes func: "\<And>i. i < array_size g \<Longrightarrow> good f rest (data + data_size g * i) (data_size g) (func (data + data_size g * i))"
    and data: "p \<le> data" "data + data_size g * array_size g \<le> p + n"
    and count: "p \<le> a" "a + 4 \<le> p + n" "a + 4 \<le> data \<or> data + data_size g * array_size g \<le> a"
    and size: "array_size g < 2 ^ 32"
  shows "good f rest p n (packed_entries func g data a)"
proof (rule goodI)
  fix m :: memory and st :: "'s pb_istream"
  assume "p + n \<le> length m" and "source_ready f rest st"
  then show "\<exists>ok m' st'. packed_entries func g data a (m, st) = Some (ok, m', st') \<and> outside_same p n m m' \<and> (ok \<longrightarrow> moved f rest st st')"
  proof (induction "array_size g - load_size m a" arbitrary: m st rule: less_induct)
    case less
    let ?c = "load_size m a"
    show ?case
    proof (cases "bytes_left st > 0 \<and> ?c < array_size g")
      case True
      have "data_size g * Suc ?c \<le> data_size g * array_size g" using True by (intro mult_le_mono2) simp
      then have item: "data + data_size g * ?c + data_size g \<le> data + data_size g * array_size g" by simp
      have "data + data_size g * ?c + data_size g \<le> length m" using item data(2) less.prems(1) by linarith
      from goodE [OF func this less.prems(2)] True obtain ok m1 st1 where
        r: "func (data + data_size g * ?c) (m, st) = Some (ok, m1, st1)"
          "outside_same (data + data_size g * ?c) (data_size g) m m1" "ok \<Longrightarrow> moved f rest st st1" "length m1 = length m"
        by blast
      have o1: "outside_same p n m m1" by (rule outside_same_mono [OF r(2)]) (use item data in linarith)+
      have c1: "load_size m1 a = ?c" by (rule load_size_outside [OF r(2)]) (use item count(3) in linarith)
      show ?thesis
      proof (cases ok)
        case False
        then show ?thesis using r o1 True by (auto simp: packed_entries.simps)
      next
        case ok: True
        let ?m = "store_size a (?c + 1) m1"
        have l1: "p + n \<le> length m1" using less.prems(1) r(4) by simp
        have o2: "outside_same p n m1 ?m" using count l1 by (intro store_size_same)
        have l2: "p + n \<le> length ?m" using l1 outside_same_length [OF o2] by simp
        have c2: "load_size ?m a = ?c + 1" using load_store_size [of a m1 "?c + 1"] count l1 True size by simp
        have "array_size g - load_size ?m a < array_size g - ?c" using True unfolding c2 by linarith
        from less.hyps [OF this l2 moved_ready [OF r(3) [OF ok]]] obtain ok' m' st' where
          R: "packed_entries func g data a (?m, st1) = Some (ok', m', st')" "outside_same p n ?m m'" "ok' \<longrightarrow> moved f rest st1 st'"
          by blast
        have "packed_entries func g data a (m, st) = Some (ok', m', st')"
          using True r(1) ok R(1) c1 by (simp add: packed_entries.simps [of _ _ _ _ "(m, st)"])
        moreover have "outside_same p n m m'" using o1 o2 R(2) outside_same_trans by blast
        ultimately show ?thesis using R(3) moved_trans [OF r(3) [OF ok]] by blast
      qed
    next
      case False
      then show ?thesis using less.prems by (auto simp: packed_entries.simps)
    qed
  qed
qed

lemma static_good:
  assumes s: "safe_message sz fs" and k: "k < length fs"
    and dec: "\<And>init q. is_submessage (fs ! k) \<Longrightarrow>
        good f rest q (data_size (fs ! k)) (dec init (sub_fields (fs ! k)) q)"
  shows "good f rest dest sz (decode_static_field E dec wt (field_iter fs dest k))"
proof -
  let ?g = "fs ! k" and ?q = "dest + layout fs ! k" and ?it = "field_iter fs dest k" and ?a = "nat (pSize (field_iter fs dest k))"
  let ?ds = "data_size ?g"
  define F where "F = PB_DECODERS E dec ?g"
  note d = data_place [OF s k]
  have F: "good f rest p ?ds (F p)" for p unfolding F_def using d(1) dec by (rule func_good)
  have one: "?q + ?ds \<le> dest + sz" "good f rest dest sz (F ?q)" if "PB_HTYPE (ptype ?g) \<noteq> PB_HTYPE_REPEATED"
  proof -
    show e: "?q + ?ds \<le> dest + sz" using d data_member [OF d(1) that] by simp
    show "good f rest dest sz (F ?q)" by (rule good_mono [OF F]) (use e in simp_all)
  qed
  consider (req) "PB_HTYPE (ptype ?g) = PB_HTYPE_REQUIRED" | (opt) "PB_HTYPE (ptype ?g) = PB_HTYPE_OPTIONAL"
    | (rep) "PB_HTYPE (ptype ?g) = PB_HTYPE_REPEATED"
    | (union) "PB_HTYPE (ptype ?g) \<notin> {PB_HTYPE_REQUIRED, PB_HTYPE_OPTIONAL, PB_HTYPE_REPEATED}" by blast
  then show ?thesis
  proof cases
    case req
    then show ?thesis using one(2) by (simp add: static_required [OF k req] F_def htype_defs)
  next
    case opt
    let ?set = "\<lambda>m. if size_offset ?g \<noteq> 0 then store_bool ?a True m else m"
    have "outside_same dest sz m (?set m)" if "dest + sz \<le> length m" for m
      using set_has [OF s k that opt] by simp
    then show ?thesis using good_after [OF one(2), of ?set] opt by (simp add: static_optional [OF k opt] F_def htype_defs)
  next
    case rep
    have sz: "size_offset ?g \<noteq> 0" using safe_field(3) [OF s placed_nth [OF k]] rep by (simp add: sized_inside_def)
    then have "has_size ?g" "size_bytes ?g = 4" using rep by (simp_all add: has_size_def size_bytes_def htype_defs)
    then have a: "dest \<le> ?a" "?a + 4 \<le> dest + sz" "?a + 4 \<le> ?q \<or> ?q + ?ds * array_size ?g \<le> ?a"
      using size_place [OF s k, where dest = dest] array_member [OF d(1) rep] by simp_all
    have e: "dest \<le> ?q" "?q + ?ds * array_size ?g \<le> dest + sz" using d array_member [OF d(1) rep] by simp_all
    show ?thesis
    proof (cases "wt = PB_WT_STRING \<and> PB_LTYPE (ptype ?g) \<le> PB_LTYPE_LAST_PACKABLE")
      case True
      have "scalar_type ?g" using d(1) True
        by (cases rule: plain_cases) (simp_all add: is_submessage_def ltype_defs PB_LTYPE_LAST_PACKABLE_def)
      then have "1 \<le> ?ds" by (auto simp: scalar_type_def packable_width_def split: if_splits)
      then have "array_size ?g \<le> member_size ?g" using array_member [OF d(1) rep] by simp
      from le_less_trans [OF this safe_field(5) [OF s placed_nth [OF k]]] have "array_size ?g < 2 ^ 32" .
      then have P: "good f rest dest sz (packed_entries F ?g ?q ?a)" by (intro packed_good F e a)
      then show ?thesis unfolding static_packed [OF k rep True] F_def [symmetric]
        by (rule substream_good [of _ _ _ "\<lambda>status m sub st. if bytes_left sub \<noteq> 0
            then Some (pb_derror ''array overflow'' (m, st)) else Some (close_with status m sub st)"]) auto
    next
      case False
      note e1 = static_unpacked [OF k rep False, of E dec dest, folded F_def]
      show ?thesis
      proof (rule goodI)
        fix m :: memory and st :: "'s pb_istream"
        assume l: "dest + sz \<le> length m" and st: "source_ready f rest st"
        let ?n = "load_size m ?a" and ?m = "store_size ?a (load_size m ?a + 1) m"
        have o: "outside_same dest sz m ?m" by (rule set_size [OF s k l]) (use rep in \<open>simp add: htype_defs\<close>)
        show "\<exists>ok m' st'. decode_static_field E dec wt ?it (m, st) = Some (ok, m', st') \<and> outside_same dest sz m m'
            \<and> (ok \<longrightarrow> moved f rest st st')"
        proof (cases "?n \<ge> array_size ?g")
          case True
          then show ?thesis using o by (auto simp: e1 Let_def pb_derror_def intro!: exI [of _ False])
        next
          case False
          then have "?ds * Suc ?n \<le> ?ds * array_size ?g" by (intro mult_le_mono2) simp
          with e have i: "?q + ?ds * ?n + ?ds \<le> dest + sz" by simp
          have "good f rest dest sz (F (?q + ?ds * ?n))" by (rule good_mono [OF F]) (use i in simp_all)
          from goodE [OF this _ st, of ?m] l outside_same_length [OF o] obtain ok m' st' where
            "F (?q + ?ds * ?n) (?m, st) = Some (ok, m', st')" "outside_same dest sz ?m m'" "ok \<longrightarrow> moved f rest st st'" by metis
          with False outside_same_trans [OF o] show ?thesis by (simp add: e1 Let_def)
        qed
      qed
    qed
  next
    case union
    let ?prep = "union_prepared E ?g ?q ?a"
    have "outside_same dest sz m (?prep m)" if l: "dest + sz \<le> length m" for m
    proof -
      let ?m1 = "store_size ?a (tag ?g) m"
      have o1: "outside_same dest sz m ?m1" by (rule set_size [OF s k l]) (use union in simp)
      let ?m2 = "blit ?m1 ?q (replicate ?ds 0)"
      have l1: "?q + ?ds \<le> length ?m1" using one(1) union l outside_same_length [OF o1] by simp
      have o2: "outside_same ?q ?ds ?m1 ?m2" using l1 by (intro outside_same_blit) simp_all
      have l2: "?q + ?ds \<le> length ?m2" using l1 outside_same_length [OF o2] by simp
      have "outside_same ?q ?ds ?m2 (pb_message_set_to_defaults E (sub_fields ?g) ?q ?m2)"
        if "PB_LTYPE (ptype ?g) = PB_LTYPE_SUBMESSAGE"
        by (rule defaults_inside [OF safe_sub [OF s k] l2]) (use that in \<open>simp add: is_submessage_def\<close>)
      then have "outside_same ?q ?ds ?m1 (if PB_LTYPE (ptype ?g) = PB_LTYPE_SUBMESSAGE
          then pb_message_set_to_defaults E (sub_fields ?g) ?q ?m2 else ?m1)"
        using outside_same_trans [OF o2] by simp
      then have "outside_same dest sz ?m1 (if PB_LTYPE (ptype ?g) = PB_LTYPE_SUBMESSAGE
          then pb_message_set_to_defaults E (sub_fields ?g) ?q ?m2 else ?m1)"
        by (rule outside_same_mono) (use one(1) union in simp_all)
      with o1 show ?thesis unfolding union_prepared_def Let_def by (rule outside_same_trans)
    qed
    then show ?thesis using good_after [OF one(2), of ?prep] union by (simp add: static_union [OF k union] F_def)
  qed
qed

end

end
