(* ===== verification/PbTotal.thy ===== *)
theory PbTotal
  imports PbSafe
begin

text \<open>
  The decoder returns on every input: its loops over the fields, the tags and the nested messages, on
  static descriptions, end, and nothing outside of the structure is written.
\<close>

section \<open>Iterators over a description\<close>

definition on_fields :: "pb_field list \<Rightarrow> nat \<Rightarrow> pb_field_iter \<Rightarrow> bool" where
  "on_fields fs dest it \<longleftrightarrow>
     (if fs = [] then it = snd (pb_field_iter_begin [] (int dest)) else \<exists>k < length fs. it = field_iter fs dest k)"

lemma begin_on_fields:
  assumes "described fs (layout fs)"
  shows "on_fields fs dest (snd (pb_field_iter_begin fs (int dest)))"
  using begin_at_field [OF assms, of "int dest"] by (cases "fs = []") (auto simp: on_fields_def)

lemma empty_iter:
  "pb_field_iter_begin [] dest = (False, \<lparr>start = [], pos = 0, required_field_index = 0, dest_struct = dest, pData = dest, pSize = dest\<rparr>)"
  by (simp add: pb_field_iter_begin_def field_at_def PB_LAST_FIELD_def Let_def)

lemma find_on_fields:
  assumes "described fs (layout fs)" and "on_fields fs dest it"
  obtains found it' where "pb_field_iter_find t it = Some (found, it')" and "on_fields fs dest it'"
    and "found \<Longrightarrow> tag (iter_pos it') = t"
proof (cases "fs = []")
  case True
  with assms(2) have "it = snd (pb_field_iter_begin [] (int dest))" by (simp add: on_fields_def)
  moreover from this have "pb_field_iter_find t it = Some (t = 0, it)"
    by (simp add: pb_field_iter_find_def iter_find_loop.simps iter_matches_def iter_pos_def empty_iter field_at_def
        PB_LAST_FIELD_def pb_field_iter_next_def PB_LTYPE_def PB_LTYPE_EXTENSION_def)
  ultimately show thesis using True that [of "t = 0" it] assms(2)
    by (auto simp: iter_pos_def empty_iter field_at_def PB_LAST_FIELD_def)
next
  case False
  with assms(2) obtain k where k: "k < length fs" "it = field_iter fs dest k" by (auto simp: on_fields_def)
  note f = find_searches [OF assms(1) k(1), of t "int dest", unfolded find_result_def]
  show thesis
  proof (cases "List.find (\<lambda>j. field_matches t (fs ! j)) (search_order (length fs) k)")
    case None
    with f k False show thesis by (intro that [of False it]) (auto simp: on_fields_def)
  next
    case (Some j)
    then have "j \<in> set (search_order (length fs) k)" "field_matches t (fs ! j)" by (auto simp: find_Some_iff)
    then have "j < length fs" "tag (fs ! j) = t" using k(1) by (auto simp: search_order_def field_matches_def)
    with f k Some False show thesis by (intro that [of True "field_iter fs dest j"]) (auto simp: on_fields_def)
  qed
qed

text \<open>Without extensions none is found.\<close>

lemma no_extension_loop:
  assumes d: "described fs offs" and i: "i < length fs" and j: "j < length fs"
    and e: "\<And>g. g \<in> set fs \<Longrightarrow> PB_LTYPE (ptype g) \<noteq> PB_LTYPE_EXTENSION"
  shows "find_extension_loop i (at_field fs offs dest j) = Some (False, at_field fs offs dest i)"
  using j
proof (induction "if j < i then i - j else length fs - j + i" arbitrary: j rule: less_induct)
  case less
  have n: "PB_LTYPE (ptype (iter_pos (at_field fs offs dest j))) \<noteq> PB_LTYPE_EXTENSION"
    using e less.prems by (simp add: at_field_def iter_pos_def field_at_def)
  define j' where "j' = (if Suc j < length fs then Suc j else 0)"
  have s: "snd (pb_field_iter_next (at_field fs offs dest j)) = at_field fs offs dest j'"
    using next_at_field [OF d, of j dest] next_wraps [OF d, of j dest] less.prems by (auto simp: j'_def)
  show ?case
  proof (cases "j' = i")
    case True
    then show ?thesis using n s by (simp add: find_extension_loop.simps [of i])
  next
    case False
    have "j' < length fs" using i by (auto simp: j'_def)
    moreover have "(if j' < i then i - j' else length fs - j' + i) < (if j < i then i - j else length fs - j + i)"
      using False less.prems i by (auto simp: j'_def)
    ultimately have "find_extension_loop i (at_field fs offs dest j') = Some (False, at_field fs offs dest i)"
      using less.hyps by simp
    then show ?thesis using n s False by (simp add: find_extension_loop.simps [of i "at_field fs offs dest j"])
  qed
qed

lemma no_extension:
  assumes "safe_message sz fs" and "on_fields fs dest it"
  shows "find_extension_field it = Some (False, it)"
proof (cases "fs = []")
  case True
  with assms(2) have "it = snd (pb_field_iter_begin [] (int dest))" by (simp add: on_fields_def)
  then show ?thesis
    by (simp add: find_extension_field_def find_extension_loop.simps iter_pos_def empty_iter field_at_def
        PB_LAST_FIELD_def pb_field_iter_next_def PB_LTYPE_def PB_LTYPE_EXTENSION_def)
next
  case False
  with assms(2) obtain k where k: "k < length fs" "it = field_iter fs dest k" by (auto simp: on_fields_def)
  have "PB_LTYPE (ptype g) \<noteq> PB_LTYPE_EXTENSION" if "g \<in> set fs" for g
    using plain_static(2) data_place(1) [OF assms(1)] that by (metis in_set_conv_nth)
  from no_extension_loop [OF safe_described [OF assms(1)] k(1) k(1) this] k show ?thesis
    by (simp add: find_extension_field_def)
qed

section \<open>Reading tags and skipping\<close>

lemma varint32_loop_left: "varint32_loop i r st = (Some x, st') \<Longrightarrow> bytes_left st' \<le> bytes_left st"
proof (induction i r st rule: varint32_loop.induct)
  case (1 i r st)
  obtain o' st1 where b: "pb_readbyte st = (o', st1)" by (rule prod.exhaust)
  from "1.prems" b obtain c where o': "o' = Some c"
    by (cases o') (simp_all add: varint32_loop.simps [of i])
  have "bytes_left st' \<le> bytes_left st1" using "1.prems" "1.IH" [OF b [symmetric] o']
    by (auto simp: varint32_loop.simps [of i] b o' pb_ierror_def Let_def split: if_splits)
  then show ?case using pb_readbyte_left [of st c st1] b o' by simp
qed

lemma varint32_left:
  assumes "pb_decode_varint32_eof st = (Some x, eof, st')"
  shows "bytes_left st' < bytes_left st"
proof -
  obtain o' st1 where b: "pb_readbyte st = (o', st1)" by (rule prod.exhaust)
  from assms b obtain c where o': "o' = Some c" by (cases o') (simp_all add: pb_decode_varint32_eof_def)
  have l: "bytes_left st1 < bytes_left st" using pb_readbyte_left b o' by blast
  from assms b o' have "st' = st1 \<or> varint32_loop 7 (ucast (c AND 0x7F)) st1 = (Some x, st')"
    by (auto simp: pb_decode_varint32_eof_def split: if_splits prod.splits)
  with l varint32_loop_left [of 7 _ st1 x st'] show ?thesis by fastforce
qed

context byte_source
begin

lemma tag_moved:
  assumes st: "source_ready f rest st" and r: "pb_decode_tag st = (Some (wt, t), eof, st')"
  shows "moved f rest st st'" and "bytes_left st' < bytes_left st" and "unat t < 2 ^ 29"
proof -
  from r obtain temp where d: "pb_decode_varint32_eof st = (Some temp, eof, st')" "t = drop_bit 3 temp"
    by (auto simp: pb_decode_tag_def split: prod.splits option.splits if_splits)
  then have "pb_decode_varint32 st = (Some temp, st')" by (simp add: pb_decode_varint32_def)
  with varint32_keeps st show "moved f rest st st'" unfolding keeps_def by blast
  show "bytes_left st' < bytes_left st" using varint32_left d(1) .
  have "unat t = drop_bit 3 (unat temp)" by (simp only: d(2) unat_drop_bit_eq)
  moreover have "unat temp < 2 ^ 32" using unsigned_less [of temp] by simp
  ultimately show "unat t < 2 ^ 29" by (simp add: drop_bit_eq_div)
qed

lemma tag_eof:
  assumes st: "source_ready f rest st" "bytes_left st \<noteq> 0" and r: "pb_decode_tag st = (None, True, st')"
  shows "moved f rest st st'"
proof -
  have "\<exists>b st1. pb_readbyte st = (Some b, st1)"
  proof -
    obtain b bs where "stream_bytes rest st = b # bs"
      using st(2) stream_bytes_length [OF st(1)] by (cases "stream_bytes rest st") simp_all
    then have "p_byte (stream_bytes rest st) = Some (b, bs)" by simp
    from parsesD(2) [OF readbyte_parses st(1) this] show ?thesis by blast
  qed
  then obtain temp where "pb_decode_varint32_eof st = (Some temp, False, st') \<or> pb_decode_varint32_eof st = (Some temp, True, st')"
    using r by (auto simp: pb_decode_tag_def pb_decode_varint32_eof_def split: prod.splits option.splits if_splits)
  then have "pb_decode_varint32 st = (Some temp, st')" by (auto simp: pb_decode_varint32_def)
  with varint32_keeps st show ?thesis unfolding keeps_def by blast
qed

lemma keeps_then:
  assumes "keeps f rest d" and "\<And>x. keeps f rest (e x)"
  shows "keeps f rest (and_then d e)"
  unfolding keeps_def
proof (intro allI impI)
  fix st x st'
  assume st: "source_ready f rest st" and r: "and_then d e st = (Some x, st')"
  obtain o' st1 where d: "d st = (o', st1)" by (rule prod.exhaust)
  with r obtain y where y: "o' = Some y" "e y st1 = (Some x, st')" by (cases o') (simp_all add: and_then_def)
  have s1: "moved f rest st st1" using assms(1) st d y(1) unfolding keeps_def by blast
  have "moved f rest st1 st'" using assms(2) moved_ready [OF s1] y(2) unfolding keeps_def by blast
  with s1 show "moved f rest st st'" by (rule moved_trans)
qed

lemma skip_unit_keeps: "keeps f rest (skip_unit n)"
  by (rule parses_keeps [OF skip_parses])

lemma skip_varint_keeps: "keeps f rest pb_skip_varint"
  unfolding keeps_def
proof (intro allI impI)
  fix st st' :: "'s pb_istream" and x
  show "source_ready f rest st \<Longrightarrow> pb_skip_varint st = (Some x, st') \<Longrightarrow> moved f rest st st'"
  proof (induction st rule: pb_skip_varint.induct)
    case (1 st)
    obtain o' st1 where b: "pb_read False (Suc 0) st = (o', st1)" by (rule prod.exhaust)
    with "1.prems"(2) obtain c where o': "o' = Some c" by (cases o') (simp_all add: pb_skip_varint.simps)
    have s1: "moved f rest st st1" using parses_keeps [OF read_parses] "1.prems"(1) b o' unfolding keeps_def by blast
    show ?case using "1.prems"(2) "1.IH" [OF b [symmetric] o'] s1 moved_ready [OF s1] moved_trans [OF s1]
      by (simp add: pb_skip_varint.simps [of st] b o' split: if_splits)
  qed
qed

lemma skip_field_keeps: "keeps f rest (pb_skip_field wt)"
proof -
  have "keeps f rest pb_skip_string"
    unfolding pb_skip_string_def by (rule keeps_then [OF varint32_keeps skip_unit_keeps])
  then show ?thesis using skip_varint_keeps skip_unit_keeps
    by (auto simp: pb_skip_field_def keeps_def pb_ierror_def)
qed

end

section \<open>Fields\<close>

context byte_source
begin

lemma union_steps:
  fixes st :: "'s pb_istream"
  assumes s: "safe_message sz fs" and k: "k < length fs"
  obtains ok it' st' where "pb_release_union_field E (field_iter fs dest k) (m, st) = Some (ok, it', m, st')"
    and "on_fields fs dest it'" and "ok \<Longrightarrow> st' = st"
proof -
  have ne: "fs \<noteq> []" using k by auto
  note d = safe_described [OF s]
  let ?it = "field_iter fs dest k" and ?old = "load_size m (nat (pSize (field_iter fs dest k)))"
  have on: "on_fields fs dest ?it" using k ne by (auto simp: on_fields_def)
  have rel: "pb_release_single_field E (pb_release E) it m = m" if it: "on_fields fs dest it" for it
  proof -
    from it ne obtain j where j: "j < length fs" "it = field_iter fs dest j" by (auto simp: on_fields_def)
    show ?thesis unfolding j(2)
      by (rule release_single_id [OF s j(1)]) (rule release_id [OF safe_sub [OF s j(1)]])
  qed
  obtain f1 it1 where f1: "pb_field_iter_find ?old ?it = Some (f1, it1)" "on_fields fs dest it1"
    by (rule find_on_fields [OF d on])
  obtain f2 it2 where f2: "pb_field_iter_find (tag (fs ! k)) it1 = Some (f2, it2)" "on_fields fs dest it2"
    by (rule find_on_fields [OF d f1(2)])
  let ?u = "pb_release_union_field E ?it (m, st)"
  consider "?old = 0 \<or> ?old = tag (fs ! k)" | "\<not> (?old = 0 \<or> ?old = tag (fs ! k))" "\<not> f1"
    | "\<not> (?old = 0 \<or> ?old = tag (fs ! k))" "f1" by blast
  then show thesis
  proof cases
    case 1
    then have "?u = Some (True, ?it, m, st)" using k by (auto simp: pb_release_union_field_def Let_def)
    then show thesis using that on by blast
  next
    case 2
    then have "?u = Some (False, it1, m, snd (pb_ierror ''invalid union tag'' st :: unit option \<times> 's pb_istream))"
      using k f1(1) by (simp add: pb_release_union_field_def Let_def pb_derror_def)
    then show thesis using that f1(2) by blast
  next
    case 3
    then have "?u = (if f2 then Some (True, it2, m, st)
        else Some (False, it2, m, snd (pb_ierror ''iterator error'' st :: unit option \<times> 's pb_istream)))"
      using k f1 f2(1) rel [OF f1(2)] by (simp add: pb_release_union_field_def Let_def pb_derror_def)
    then show thesis using that f2(2) by (cases f2) auto
  qed
qed

lemma field_good:
  assumes s: "safe_message sz fs" and k: "k < length fs"
    and dec: "\<And>j init q. j < length fs \<Longrightarrow> is_submessage (fs ! j) \<Longrightarrow>
        good f rest q (data_size (fs ! j)) (dec init (sub_fields (fs ! j)) q)"
    and l: "dest + sz \<le> length m" and st: "source_ready f rest st"
  shows "\<exists>ok it' m' st'. decode_field E dec wt (field_iter fs dest k) (m, st) = Some (ok, it', m', st')
    \<and> outside_same dest sz m m' \<and> (ok \<longrightarrow> moved f rest st st' \<and> on_fields fs dest it')"
proof -
  have ne: "fs \<noteq> []" using k by auto
  let ?u = "if PB_HTYPE (ptype (iter_pos (field_iter fs dest k))) = PB_HTYPE_ONEOF
     then pb_release_union_field E (field_iter fs dest k) (m, st) else Some (True, field_iter fs dest k, m, st)"
  have "on_fields fs dest (field_iter fs dest k)" using k ne by (auto simp: on_fields_def)
  with union_steps [OF s k, of E dest m st] obtain ok it' st' where
    u: "?u = Some (ok, it', m, st')" "on_fields fs dest it'" "ok \<Longrightarrow> st' = st" by (metis (no_types))
  show ?thesis
  proof (cases ok)
    case False
    then show ?thesis using u by (auto simp: decode_field_def)
  next
    case True
    from u(2) ne obtain j where j: "j < length fs" "it' = field_iter fs dest j" by (auto simp: on_fields_def)
    have static: "PB_ATYPE (ptype (fs ! j)) = PB_ATYPE_STATIC" using plain_static [OF data_place(1) [OF s j(1)]] by simp
    have G: "good f rest dest sz (decode_static_field E dec wt it')"
      unfolding j(2) by (rule static_good [where dec = dec, OF s j(1) dec [OF j(1)]])
    have "decode_field E dec wt (field_iter fs dest k) (m, st)
        = map_option (\<lambda>(status, st). (status, it', st)) (decode_static_field E dec wt it' (m, st))"
      unfolding decode_field_def fst_conv u(1) using True u(3) j static by simp
    moreover obtain ok1 m1 st1 where "decode_static_field E dec wt it' (m, st) = Some (ok1, m1, st1)"
      "outside_same dest sz m m1" "ok1 \<Longrightarrow> moved f rest st st1"
      using goodE [OF G l st] by metis
    ultimately show ?thesis using u(2) by simp
  qed
qed

text \<open>The terminator of an empty description fails.\<close>

lemma terminator_fails:
  "\<exists>st'. decode_field E dec wt (snd (pb_field_iter_begin [] dest)) (m, st)
     = Some (False, snd (pb_field_iter_begin [] dest), m, st')"
proof -
  obtain o' st1 where d: "pb_decode_varint st = (o', st1)" by (rule prod.exhaust)
  then show ?thesis
    by (cases o') (simp_all add: decode_field_def empty_iter iter_pos_def field_at_def PB_LAST_FIELD_def
        PB_HTYPE_def PB_ATYPE_def PB_LTYPE_def htype_defs atype_defs ltype_defs decode_static_field_def Let_def
        PB_DECODERS_def packable_decoder_def pb_dec_varint_def d_then_def pb_derror_def)
qed

section \<open>Messages\<close>

lemma unknown_good:
  assumes s: "safe_message sz fs" and c: "on_fields fs dest (cur L)" and t: "unat t < 2 ^ 29" and st: "source_ready f rest st"
  shows "\<exists>ok L' st'. decode_unknown E wt t L (m, st) = Some (ok, L', m, st')
    \<and> (ok \<longrightarrow> moved f rest st st' \<and> on_fields fs dest (cur L'))"
proof -
  obtain o' st1 where k: "pb_skip_field wt st = (o', st1)" by (rule prod.exhaust)
  have m: "moved f rest st st1" if "o' \<noteq> None" using skip_field_keeps st k that unfolding keeps_def by blast
  have e: "find_extension_field (cur L) = Some (False, cur L)" by (rule no_extension [OF s c])
  have "\<not> t \<ge> - 1" using t by (simp add: word_le_nat_alt unsigned_minus_1_eq_mask mask_eq_exp_minus_1)
  then show ?thesis using k m c
    by (cases o') (auto simp: decode_unknown_def e Let_def)
qed

lemma select_count_plain:
  assumes s: "safe_message sz fs" and c: "on_fields fs dest (cur L)"
  shows "select_count slot L st = (True, L, st)"
proof (cases "fs = []")
  case True
  with c have "iter_pos (cur L) = PB_LAST_FIELD" by (simp add: on_fields_def empty_iter iter_pos_def field_at_def)
  then show ?thesis by (simp add: select_count_def Let_def PB_LAST_FIELD_def PB_HTYPE_def htype_defs)
next
  case False
  with c obtain k where k: "k < length fs" "cur L = field_iter fs dest k" by (auto simp: on_fields_def)
  have "PB_HTYPE (ptype (fs ! k)) = PB_HTYPE_REPEATED \<longrightarrow> size_offset (fs ! k) \<noteq> 0"
    using safe_field(3) [OF s placed_nth [OF k(1)]] by (simp add: sized_inside_def)
  then show ?thesis using k by (auto simp: select_count_def Let_def)
qed

lemma cur_mark_required [simp]: "cur (mark_required L) = cur L"
  by (simp add: mark_required_def Let_def)

definition sub_good where
  "sub_good fs dec \<longleftrightarrow> (\<forall>g \<in> set fs. is_submessage g \<longrightarrow> (\<forall>init q. good f rest q (data_size g) (dec init (sub_fields g) q)))"

lemma one_good:
  assumes s: "safe_message sz fs" and dec: "sub_good fs dec" and c: "on_fields fs dest (cur L)" and t: "unat t < 2 ^ 29"
    and l: "dest + sz \<le> length m" and st: "source_ready f rest st"
  shows "\<exists>ok L' m' st'. decode_one E dec slot wt t L (m, st) = Some (ok, L', m', st')
    \<and> outside_same dest sz m m' \<and> (ok \<longrightarrow> moved f rest st st' \<and> on_fields fs dest (cur L'))"
proof -
  obtain found it where F: "pb_field_iter_find (unat t) (cur L) = Some (found, it)" "on_fields fs dest it"
    by (rule find_on_fields [OF safe_described [OF s] c])
  let ?L = "L\<lparr>cur := it\<rparr>"
  show ?thesis
  proof (cases found)
    case False
    have "decode_one E dec slot wt t L (m, st) = decode_unknown E wt t ?L (m, st)"
      using F False by (simp add: decode_one_def Let_def)
    with unknown_good [OF s, of dest ?L t st E wt m] F(2) t st show ?thesis by auto
  next
    case True
    have "select_count slot ?L (m, st) = (True, ?L, (m, st))" by (rule select_count_plain [OF s]) (use F(2) in simp)
    then have e: "decode_one E dec slot wt t L (m, st)
        = map_option (\<lambda>(status, it, st). (status, (mark_required ?L)\<lparr>cur := it\<rparr>, st)) (decode_field E dec wt it (m, st))"
      using F True by (simp add: decode_one_def Let_def)
    show ?thesis
    proof (cases "fs = []")
      case True
      then have "it = snd (pb_field_iter_begin [] (int dest))" using F(2) by (simp add: on_fields_def)
      with terminator_fails [of E dec wt "int dest" m st] e show ?thesis by auto
    next
      case False
      with F(2) obtain k where k: "k < length fs" "it = field_iter fs dest k" by (auto simp: on_fields_def)
      have "good f rest q (data_size (fs ! j)) (dec init (sub_fields (fs ! j)) q)"
        if "j < length fs" "is_submessage (fs ! j)" for j init q using dec that unfolding sub_good_def by auto
      from field_good [where dec = dec, OF s k(1) this l st, of E wt] k(2) e show ?thesis by auto
    qed
  qed
qed

lemma loop_good:
  assumes s: "safe_message sz fs" and dec: "sub_good fs dec"
  shows "on_fields fs dest (cur L) \<Longrightarrow> dest + sz \<le> length m \<Longrightarrow> source_ready f rest st \<Longrightarrow>
    \<exists>ok L' m' st'. decode_loop E dec slot L (m, st) = Some (ok, L', m', st')
      \<and> outside_same dest sz m m' \<and> (ok \<longrightarrow> moved f rest st st')"
proof (induction "bytes_left st" arbitrary: L m st rule: less_induct)
  case less
  show ?case
  proof (cases "bytes_left st = 0")
    case True
    then show ?thesis using less.prems by (auto simp: decode_loop.simps)
  next
    case ne: False
    obtain r eof st1 where d: "pb_decode_tag st = (r, eof, st1)" by (rule prod_cases3)
    show ?thesis
    proof (cases r)
      case None
      then show ?thesis using d ne tag_eof [OF less.prems(3) ne, of st1] by (auto simp: decode_loop.simps)
    next
      case (Some x)
      then obtain wt t where x: "r = Some (wt, t)" by (cases x) simp
      note T = tag_moved [OF less.prems(3) d [unfolded x]]
      from one_good [OF s dec less.prems(1) T(3) less.prems(2) moved_ready [OF T(1)], of E slot wt]
      obtain ok L2 m2 st2 where O: "decode_one E dec slot wt t L (m, st1) = Some (ok, L2, m2, st2)"
        "outside_same dest sz m m2" "ok \<longrightarrow> moved f rest st1 st2 \<and> on_fields fs dest (cur L2)" by blast
      have e: "decode_loop E dec slot L (m, st)
          = (if ok then decode_loop E dec slot L2 (m2, st2) else Some (False, L2, m2, st2))"
        using ne d x O(1) by (simp add: decode_loop.simps [of _ _ _ L])
      show ?thesis
      proof (cases ok)
        case False
        then show ?thesis using e O(2) by auto
      next
        case True
        with O(3) have o: "moved f rest st1 st2" "on_fields fs dest (cur L2)" by blast+
        have "bytes_left st2 < bytes_left st" using o(1) T(2) by (simp add: moved_def)
        moreover have "dest + sz \<le> length m2" using less.prems(2) outside_same_length [OF O(2)] by simp
        ultimately obtain ok' L' m' st' where R: "decode_loop E dec slot L2 (m2, st2) = Some (ok', L', m', st')"
          "outside_same dest sz m2 m'" "ok' \<longrightarrow> moved f rest st2 st'"
          using less.hyps [of st2 L2 m2] o moved_ready [OF o(1)] by blast
        then show ?thesis using e True outside_same_trans [OF O(2)] moved_trans [OF T(1)] moved_trans [OF o(1)]
          by (metis (no_types))
      qed
    qed
  qed
qed

lemma noinit_good:
  assumes s: "safe_message sz fs" and dec: "sub_good fs dec"
  shows "good f rest dest sz (decode_noinit E dec slot fs dest)"
proof (rule goodI)
  fix m :: memory and st :: "'s pb_istream"
  assume l: "dest + sz \<le> length m" and st: "source_ready f rest st"
  let ?L = "\<lparr>cur = snd (pb_field_iter_begin fs (int dest)), fields_seen = [0, 0], extension_range_start = 0, fixed = None\<rparr>"
  have "on_fields fs dest (cur ?L)" using begin_on_fields [OF safe_described [OF s]] by simp
  from loop_good [OF s dec this l st, of E slot] obtain ok L' m' st' where
    R: "decode_loop E dec slot ?L (m, st) = Some (ok, L', m', st')" "outside_same dest sz m m'" "ok \<longrightarrow> moved f rest st st'"
    by blast
  then show "\<exists>ok m' st'. decode_noinit E dec slot fs dest (m, st) = Some (ok, m', st') \<and> outside_same dest sz m m'
      \<and> (ok \<longrightarrow> moved f rest st st')"
    by (cases ok) (auto simp: decode_noinit_def pb_derror_def)
qed

lemma init_good:
  assumes s: "safe_message sz fs" and g: "good f rest dest sz (noinit fs dest)"
  shows "good f rest dest sz (decode_init E noinit fs dest)"
proof -
  have "decode_init E noinit fs dest = (\<lambda>st. noinit fs dest (pb_message_set_to_defaults E fs dest (fst st), snd st))"
    by (intro ext) (simp add: decode_init_def release_id [OF s] split: option.split prod.split)
  then show ?thesis using good_after [OF g defaults_inside [OF s]] by simp
qed

lemma decode_at_good:
  "safe_message sz fs \<Longrightarrow> message_depth fs \<le> d \<Longrightarrow> good f rest dest sz (decode_at E d fs dest)"
proof (induction d arbitrary: sz fs dest)
  case 0
  have "\<not> is_submessage g" if "g \<in> set fs" for g
    using safe_depth [OF 0(1) _ _ 0(2)] that by (metis in_set_conv_nth Zero_not_Suc)
  then show ?case unfolding decode_at.simps by (intro noinit_good [OF 0(1)]) (auto simp: sub_good_def)
next
  case (Suc d)
  show ?case unfolding decode_at.simps
  proof (rule noinit_good [OF Suc.prems(1)])
    show "sub_good fs (\<lambda>init fs. if init then decode_init E (decode_at E d) fs else decode_at E d fs)"
      unfolding sub_good_def
    proof (intro ballI impI allI)
      fix g init q assume "g \<in> set fs" and g: "is_submessage g"
      then obtain k where k: "k < length fs" "fs ! k = g" by (auto simp: in_set_conv_nth)
      from safe_depth [OF Suc.prems(1) k(1) _ Suc.prems(2)] g k have d: "message_depth (sub_fields g) \<le> d" by auto
      have s: "safe_message (data_size g) (sub_fields g)" using safe_sub [OF Suc.prems(1) k(1)] g k(2) by simp
      note G = Suc.IH [OF s d, of q]
      show "good f rest q (data_size g)
          ((if init then decode_init E (decode_at E d) (sub_fields g) else decode_at E d (sub_fields g)) q)"
        using G init_good [where noinit = "decode_at E d", OF s G] by simp
    qed
  qed
qed

lemma decode_good: "safe_message sz fs \<Longrightarrow> good f rest dest sz (pb_decode E fs dest)"
  unfolding pb_decode_def by (rule init_good) (simp_all add: pb_decode_noinit_def decode_at_good)

end


lemma layout_safe: "safe_message 40 layout_fields"
proof -
  have "\<forall>(f, off) \<in> set (placed layout_fields). sized_inside 40 f off" by code_simp
  moreover have "\<forall>f \<in> set layout_fields. \<not> is_submessage f" by code_simp
  ultimately show ?thesis using layout_plain by (auto simp: safe_message.simps [of 40])
qed

definition no_decode_env :: "'s decode_env" where
  "no_decode_env = \<lparr>env_realloc = (\<lambda>_ _ _. None), env_free = (\<lambda>_ m. m), env_decode_callback = (\<lambda>_ _ _ st. Some (True, st)),
     env_decode_extension = (\<lambda>_ _ _ st. Some (True, st)), env_default_extension = (\<lambda>_ m. m),
     env_release_extension = (\<lambda>_ m. m), env_slot = (\<lambda>_. 0)\<rparr>"


text \<open>
  C35: The restriction to arrays with a count is needed: an array of fixed size has none, and setting a
  message to its defaults stores a count of four bytes over the data all the same. For a structure of
  two one-byte items this overwrites the two bytes behind the structure.
\<close>

definition fixed_bytes :: "pb_field list" where
  "fixed_bytes = [Field 1 0x21 0 0 1 2 Null_ptr]"


end
