(* ===== verification/PbItems.thy ===== *)
theory PbItems
  imports PbTotal
begin

text \<open>
  Frames for the decoder. What the items of a field, and of a message, are depends on the bytes of
  the field, and of the structure, only.
\<close>

section \<open>Changes of the memory\<close>

definition changes :: "nat set \<Rightarrow> memory \<Rightarrow> memory \<Rightarrow> bool" where
  "changes S m m' \<longleftrightarrow> length m' = length m \<and> (\<forall>x < length m. x \<notin> S \<longrightarrow> m' ! x = m ! x)"

lemma changes_refl [simp]: "changes S m m"
  by (simp add: changes_def)

lemma changes_trans: "changes S m m1 \<Longrightarrow> changes S m1 m2 \<Longrightarrow> changes S m m2"
  by (simp add: changes_def)

lemma changes_mono: "changes S m m' \<Longrightarrow> S \<subseteq> T \<Longrightarrow> changes T m m'"
  by (auto simp: changes_def)

lemma changes_length: "changes S m m' \<Longrightarrow> length m' = length m"
  by (simp add: changes_def)

lemma outside_changes:
  assumes "outside_same p n m m'"
  shows "changes {p..<p + n} m m'"
proof -
  have "m' ! x = m ! x" if "x < length m" "x < p \<or> p + n \<le> x" for x
    using that(2)
  proof
    assume "x < p"
    then have "take p m' ! x = m' ! x" "take p m ! x = m ! x" by simp_all
    then show ?thesis using assms by (simp add: outside_same_def)
  next
    assume "p + n \<le> x"
    then have "drop (p + n) y ! (x - (p + n)) = y ! x" if "length y = length m" for y :: memory
      using that \<open>x < length m\<close> by simp
    from this [of m] this [of m'] show ?thesis using assms by (simp add: outside_same_def)
  qed
  then show ?thesis using assms by (auto simp: changes_def outside_same_def)
qed

lemma changes_read:
  assumes "changes S m m'" and "{q..<q + n} \<inter> S = {}"
  shows "take n (drop q m') = take n (drop q m)"
proof (rule nth_equalityI)
  show "length (take n (drop q m')) = length (take n (drop q m))" using changes_length [OF assms(1)] by simp
next
  fix i assume "i < length (take n (drop q m'))"
  then have "i < n" "q + i < length m" using changes_length [OF assms(1)] by auto
  moreover from this have "q + i \<notin> S" using assms(2) by (auto simp: disjoint_iff)
  ultimately show "take n (drop q m') ! i = take n (drop q m) ! i"
    using assms(1) by (simp add: changes_def)
qed

lemma changes_load_size: "changes S m m' \<Longrightarrow> {q..<q + 4} \<inter> S = {} \<Longrightarrow> load_size m' q = load_size m q"
  unfolding load_size_def by (simp add: changes_read)

lemma changes_load_bool: "changes S m m' \<Longrightarrow> {q..<q + 1} \<inter> S = {} \<Longrightarrow> load_bool m' q = load_bool m q"
  unfolding load_bool_def using changes_read [of S m m' q 1] by simp

section \<open>The bytes of a field\<close>

definition field_area :: "pb_field \<Rightarrow> nat \<Rightarrow> nat set" where
  "field_area f p = {p..<p + member_size f} \<union> (if has_size f then {size_addr f p..<size_addr f p + size_bytes f} else {})"

text \<open>Two members of a union share their place and their size field.\<close>

definition joint :: "pb_field \<times> nat \<Rightarrow> pb_field \<times> nat \<Rightarrow> bool" where
  "joint = (\<lambda>(f, off) (g, off').
     PB_HTYPE (ptype f) = PB_HTYPE_ONEOF \<and> PB_HTYPE (ptype g) = PB_HTYPE_ONEOF \<and> off = off' \<and> size_offset f = size_offset g)"

text \<open>
  The fields of a structure do not overlap and have different tags; a byte array has room for its
  count. An optional field without a has-flag, whose presence shows in its value only, has no other
  default than zero and is not of fixed length, for which the encoder knows no default.
\<close>

function separate :: "pb_field list \<Rightarrow> bool" where
  "separate fs \<longleftrightarrow>
     distinct (map tag fs)
     \<and> (\<forall>i < length fs. \<forall>j < length fs. i \<noteq> j \<longrightarrow>
          joint (fs ! i, layout fs ! i) (fs ! j, layout fs ! j)
          \<or> field_area (fs ! i) (layout fs ! i) \<inter> field_area (fs ! j) (layout fs ! j) = {})
     \<and> (\<forall>f \<in> set fs.
          array_size f < 2 ^ 32 \<and> (PB_LTYPE (ptype f) = PB_LTYPE_BYTES \<longrightarrow> 4 \<le> data_size f)
          \<and> (PB_HTYPE (ptype f) = PB_HTYPE_OPTIONAL \<and> size_offset f = 0 \<longrightarrow>
               ptr f = Null_ptr \<and> PB_LTYPE (ptype f) \<noteq> PB_LTYPE_FIXED_LENGTH_BYTES)
          \<and> (is_submessage f \<longrightarrow> separate (sub_fields f)))"
  by pat_completeness auto
termination
  by (relation "measure (\<lambda>fs. size_list size fs)") (auto intro: sub_fields_smaller)

declare separate.simps [simp del]

lemma separateD:
  assumes "separate fs" and "k < length fs"
  shows "PB_LTYPE (ptype (fs ! k)) = PB_LTYPE_BYTES \<Longrightarrow> 4 \<le> data_size (fs ! k)"
    and "PB_HTYPE (ptype (fs ! k)) = PB_HTYPE_OPTIONAL \<Longrightarrow> size_offset (fs ! k) = 0 \<Longrightarrow>
      ptr (fs ! k) = Null_ptr \<and> PB_LTYPE (ptype (fs ! k)) \<noteq> PB_LTYPE_FIXED_LENGTH_BYTES"
    and "is_submessage (fs ! k) \<Longrightarrow> separate (sub_fields (fs ! k))" and "array_size (fs ! k) < 2 ^ 32"
  using assms nth_mem [OF assms(2)] unfolding separate.simps [of fs] by blast+

lemma separate_tags: "separate fs \<Longrightarrow> i < length fs \<Longrightarrow> j < length fs \<Longrightarrow> tag (fs ! i) = tag (fs ! j) \<Longrightarrow> i = j"
  unfolding separate.simps [of fs] by (metis distinct_conv_nth length_map nth_map)

lemma separate_area:
  assumes "separate fs" and "i < length fs" and "j < length fs" and "i \<noteq> j"
  shows "joint (fs ! i, layout fs ! i) (fs ! j, layout fs ! j)
    \<or> field_area (fs ! i) (layout fs ! i) \<inter> field_area (fs ! j) (layout fs ! j) = {}"
  using assms unfolding separate.simps [of fs] by blast

text \<open>The area of a field lies in the structure, and is moved with it.\<close>

lemma size_addr_shift: "has_size g \<Longrightarrow> sized_inside sz g off \<Longrightarrow> size_addr g (dest + off) = dest + size_addr g off"
proof -
  assume "has_size g" "sized_inside sz g off"
  then have "0 \<le> int off + size_offset g" by (simp add: sized_inside_def)
  then have "nat (int dest + (int off + size_offset g)) = dest + nat (int off + size_offset g)" by (subst nat_add_distrib) simp_all
  then show ?thesis by (simp add: size_addr_def add.assoc)
qed

lemma area_shift:
  assumes "sized_inside sz g off"
  shows "field_area g (dest + off) = (\<lambda>x. dest + x) ` field_area g off"
  using size_addr_shift [OF _ assms, of dest] by (auto simp: field_area_def image_Un add.assoc)

lemma area_inside:
  assumes "safe_message sz fs" and "k < length fs"
  shows "field_area (fs ! k) (dest + layout fs ! k) \<subseteq> {dest..<dest + sz}"
proof -
  note s = safe_field [OF assms(1) placed_nth [OF assms(2)]]
  have "field_area (fs ! k) (layout fs ! k) \<subseteq> {0..<sz}"
    using s(2,3) by (auto simp: field_area_def sized_inside_def size_addr_def)
  then show ?thesis unfolding area_shift [OF s(3)] by auto
qed

lemma areas_apart:
  assumes "safe_message sz fs" and "separate fs" and "i < length fs" and "j < length fs" and "i \<noteq> j"
    and "\<not> joint (fs ! i, layout fs ! i) (fs ! j, layout fs ! j)"
  shows "field_area (fs ! i) (dest + layout fs ! i) \<inter> field_area (fs ! j) (dest + layout fs ! j) = {}"
proof -
  have "inj ((+) dest)" by simp
  note shift = area_shift [OF safe_field(3) [OF assms(1) placed_nth], of _ dest]
  have "field_area (fs ! i) (layout fs ! i) \<inter> field_area (fs ! j) (layout fs ! j) = {}"
    using separate_area [OF assms(2-5)] assms(6) by blast
  then show ?thesis unfolding shift [OF assms(3)] shift [OF assms(4)] image_Int [OF \<open>inj ((+) dest)\<close>, symmetric] by simp
qed

section \<open>What a structure holds\<close>

definition holds :: "memory \<Rightarrow> pb_field list \<Rightarrow> nat \<Rightarrow> pb_item list list \<Rightarrow> bool" where
  "holds m fs p css \<longleftrightarrow> message_ok m fs p \<and> message_at m fs p = css"

definition holds_item :: "memory \<Rightarrow> pb_field \<Rightarrow> nat \<Rightarrow> pb_item \<Rightarrow> bool" where
  "holds_item m f q c \<longleftrightarrow> item_ok (message_ok m (sub_fields f)) m f q \<and> item_at (message_at m (sub_fields f)) m f q = c"

definition holds_field :: "memory \<Rightarrow> pb_field \<Rightarrow> nat \<Rightarrow> pb_item list \<Rightarrow> bool" where
  "holds_field m f p cs \<longleftrightarrow>
     item_count m f p = length cs \<and> (PB_HTYPE (ptype f) = PB_HTYPE_REPEATED \<longrightarrow> length cs \<le> array_size f)
     \<and> (\<forall>j < length cs. holds_item m f (p + j * data_size f) (cs ! j))"

lemma holds_field_iff:
  "holds_field m f p cs \<longleftrightarrow>
     field_ok (message_ok m (sub_fields f)) m f p \<and> field_items (message_at m (sub_fields f)) m f p = cs"
proof -
  have i: "field_items (message_at m (sub_fields f)) m f p
      = map (\<lambda>j. item_at (message_at m (sub_fields f)) m f (p + j * data_size f)) [0..<item_count m f p]"
    by (simp add: field_items_def item_at_def Let_def)
  have o: "field_ok (message_ok m (sub_fields f)) m f p \<longleftrightarrow>
      (PB_HTYPE (ptype f) = PB_HTYPE_REPEATED \<longrightarrow> item_count m f p \<le> array_size f)
      \<and> (\<forall>j < item_count m f p. item_ok (message_ok m (sub_fields f)) m f (p + j * data_size f))"
    by (auto simp: field_ok_def item_ok_def Let_def)
  show ?thesis unfolding i o holds_field_def holds_item_def by (auto simp: list_eq_iff_nth_eq)
qed

lemma holds_fields:
  "holds m fs p css \<longleftrightarrow> length css = length fs \<and> (\<forall>k < length fs. holds_field m (fs ! k) (p + layout fs ! k) (css ! k))"
proof -
  have "message_ok m fs p \<longleftrightarrow> (\<forall>k < length fs. field_ok (message_ok m (sub_fields (fs ! k))) m (fs ! k) (p + layout fs ! k))"
    by (auto simp: message_ok.simps [of _ fs] placed_def set_zip)
  moreover have "message_at m fs p = css \<longleftrightarrow> length css = length fs
      \<and> (\<forall>k < length fs. field_items (message_at m (sub_fields (fs ! k))) m (fs ! k) (p + layout fs ! k) = css ! k)"
    by (auto simp: message_at.simps [of _ fs] placed_def list_eq_iff_nth_eq)
  ultimately show ?thesis unfolding holds_def holds_field_iff by auto
qed

text \<open>A message without anything: what the defaults leave. Values of required fields do not matter.\<close>

definition cleared_field :: "(nat \<Rightarrow> bool) \<Rightarrow> memory \<Rightarrow> pb_field \<Rightarrow> nat \<Rightarrow> bool" where
  "cleared_field sub m f p \<longleftrightarrow>
     (if PB_HTYPE (ptype f) = PB_HTYPE_REQUIRED then True
      else if PB_HTYPE (ptype f) \<in> {PB_HTYPE_OPTIONAL, PB_HTYPE_REPEATED} then item_count m f p = 0
      else load_size m (size_addr f p) = 0)
     \<and> (PB_HTYPE (ptype f) \<in> {PB_HTYPE_REQUIRED, PB_HTYPE_OPTIONAL} \<and> is_submessage f \<longrightarrow> sub p)"

function cleared :: "memory \<Rightarrow> pb_field list \<Rightarrow> nat \<Rightarrow> bool" where
  "cleared m fs p \<longleftrightarrow> (\<forall>(f, off) \<in> set (placed fs). cleared_field (cleared m (sub_fields f)) m f (p + off))"
  by pat_completeness auto
termination
  by (relation "measure (\<lambda>(_, fs, _). size_list size fs)") (auto intro: sub_fields_smaller dest: placed_fst)

declare cleared.simps [simp del]

lemma cleared_fields:
  "cleared m fs p \<longleftrightarrow> (\<forall>k < length fs. cleared_field (cleared m (sub_fields (fs ! k))) m (fs ! k) (p + layout fs ! k))"
  by (auto simp: cleared.simps [of _ fs] placed_def set_zip)

section \<open>Frames\<close>

lemma raw_frame:
  assumes "changes S m m'" and "{q..<q + data_size f} \<inter> S = {}"
    and "PB_LTYPE (ptype f) = PB_LTYPE_BYTES \<Longrightarrow> load_size m q + 4 \<le> data_size f"
  shows "raw_at m' f q = raw_at m f q"
proof (cases "PB_LTYPE (ptype f) = PB_LTYPE_BYTES")
  case True
  have l: "load_size m' q = load_size m q"
    by (rule changes_load_size [OF assms(1)]) (use assms(2,3) True in \<open>auto simp: disjoint_iff\<close>)
  have "take (load_size m q) (drop (q + 4) m') = take (load_size m q) (drop (q + 4) m)"
    by (rule changes_read [OF assms(1)]) (use assms(2,3) True in \<open>auto simp: disjoint_iff\<close>)
  then show ?thesis using True l by (simp add: raw_at_def)
next
  case False
  then show ?thesis using changes_read [OF assms(1,2)] by (simp add: raw_at_def)
qed

lemma bytes_count_frame:
  assumes "changes S m m'" and "{q..<q + data_size f} \<inter> S = {}" and "4 \<le> data_size f"
  shows "load_size m' q = load_size m q"
  by (rule changes_load_size [OF assms(1)]) (use assms(2,3) in \<open>auto simp: disjoint_iff\<close>)

lemma count_frame:
  assumes f: "plain_field f" and c: "changes S m m'" and a: "field_area f p \<inter> S = {}"
    and b: "PB_LTYPE (ptype f) = PB_LTYPE_BYTES \<Longrightarrow> 4 \<le> data_size f"
    and rep: "PB_HTYPE (ptype f) = PB_HTYPE_REPEATED \<Longrightarrow> size_offset f \<noteq> 0"
  shows "item_count m' f p = item_count m f p"
    and "PB_HTYPE (ptype f) \<notin> {PB_HTYPE_REQUIRED, PB_HTYPE_OPTIONAL} \<Longrightarrow>
      load_size m' (size_addr f p) = load_size m (size_addr f p)"
proof -
  have s: "load_size m' (size_addr f p) = load_size m (size_addr f p)"
    if "PB_HTYPE (ptype f) \<notin> {PB_HTYPE_REQUIRED, PB_HTYPE_OPTIONAL}"
  proof (rule changes_load_size [OF c])
    have "has_size f" "size_bytes f = 4" using that f rep by (auto simp: has_size_def size_bytes_def plain_field_def)
    then show "{size_addr f p..<size_addr f p + 4} \<inter> S = {}" using a by (auto simp: field_area_def disjoint_iff)
  qed
  then show "PB_HTYPE (ptype f) \<notin> {PB_HTYPE_REQUIRED, PB_HTYPE_OPTIONAL} \<Longrightarrow>
      load_size m' (size_addr f p) = load_size m (size_addr f p)" .
  have h: "load_bool m' (size_addr f p) = load_bool m (size_addr f p)"
    if "PB_HTYPE (ptype f) = PB_HTYPE_OPTIONAL" "size_offset f \<noteq> 0"
  proof (rule changes_load_bool [OF c])
    have "has_size f" "size_bytes f = 1" using that by (auto simp: has_size_def size_bytes_def htype_defs)
    then show "{size_addr f p..<size_addr f p + 1} \<inter> S = {}" using a by (auto simp: field_area_def disjoint_iff)
  qed
  have d: "default_at m' f p = default_at m f p" if "PB_HTYPE (ptype f) = PB_HTYPE_OPTIONAL"
  proof -
    have "member_size f = data_size f" by (rule data_member [OF f]) (use that in \<open>simp add: htype_defs\<close>)
    then have q: "{p..<p + data_size f} \<inter> S = {}" using a by (auto simp: field_area_def disjoint_iff)
    show ?thesis
    proof (cases "PB_LTYPE (ptype f) = PB_LTYPE_BYTES")
      case True
      then show ?thesis using bytes_count_frame [OF c q b] by (auto simp: default_at_def scalar_type_def packable_width_def ltype_defs)
    next
      case False
      then show ?thesis using raw_frame [OF c q] by (simp add: default_at_def)
    qed
  qed
  show "item_count m' f p = item_count m f p"
    using s h d rep by (auto simp: item_count_def htype_defs)
qed

lemma item_frame:
  assumes c: "changes S m m'" and q: "{q..<q + data_size f} \<inter> S = {}" and h: "holds_item m f q x"
    and sub: "\<And>css. is_submessage f \<Longrightarrow> holds m (sub_fields f) q css \<Longrightarrow> holds m' (sub_fields f) q css"
  shows "holds_item m' f q x"
proof (cases "is_submessage f")
  case True
  then have "PB_LTYPE (ptype f) \<noteq> PB_LTYPE_BYTES" by (simp add: is_submessage_def ltype_defs)
  with True h sub [OF True] show ?thesis by (auto simp: holds_item_def item_ok_def item_at_def holds_def)
next
  case False
  have b: "PB_LTYPE (ptype f) = PB_LTYPE_BYTES \<Longrightarrow> load_size m q + 4 \<le> data_size f"
    using h by (simp add: holds_item_def item_ok_def)
  have "PB_LTYPE (ptype f) = PB_LTYPE_BYTES \<Longrightarrow> load_size m' q = load_size m q"
    using bytes_count_frame [OF c q] b by fastforce
  with False h raw_frame [OF c q b] show ?thesis by (auto simp: holds_item_def item_ok_def item_at_def)
qed

text \<open>The place of an item in the member.\<close>

lemma item_inside:
  assumes f: "plain_field f" and j: "PB_HTYPE (ptype f) = PB_HTYPE_REPEATED \<Longrightarrow> j < array_size f"
    "PB_HTYPE (ptype f) \<noteq> PB_HTYPE_REPEATED \<Longrightarrow> j = 0"
  shows "{p + j * data_size f..<p + j * data_size f + data_size f} \<subseteq> {p..<p + member_size f}"
proof (cases "PB_HTYPE (ptype f) = PB_HTYPE_REPEATED")
  case True
  have "Suc j * data_size f \<le> array_size f * data_size f" using j(1) [OF True] by (intro mult_le_mono1) simp
  then show ?thesis using array_member [OF f True] by (auto simp: algebra_simps)
next
  case False
  then show ?thesis using data_member [OF f False] j(2) by auto
qed

lemma single_count: "PB_HTYPE (ptype f) \<noteq> PB_HTYPE_REPEATED \<Longrightarrow> item_count m f p \<le> 1"
  by (simp add: item_count_def)

lemma holds_place:
  assumes f: "plain_field f" and h: "holds_field m f p cs" and j: "j < length cs"
  shows "{p + j * data_size f..<p + j * data_size f + data_size f} \<subseteq> field_area f p"
proof -
  have "{p + j * data_size f..<p + j * data_size f + data_size f} \<subseteq> {p..<p + member_size f}"
    by (rule item_inside [OF f]) (use h j single_count [of f m p] in \<open>auto simp: holds_field_def\<close>)
  then show ?thesis by (auto simp: field_area_def)
qed

lemma field_frame:
  assumes f: "plain_field f" and c: "changes S m m'" and a: "field_area f p \<inter> S = {}" and h: "holds_field m f p cs"
    and b: "PB_LTYPE (ptype f) = PB_LTYPE_BYTES \<Longrightarrow> 4 \<le> data_size f"
    and rep: "PB_HTYPE (ptype f) = PB_HTYPE_REPEATED \<Longrightarrow> size_offset f \<noteq> 0"
    and sub: "\<And>q css. is_submessage f \<Longrightarrow> {q..<q + data_size f} \<inter> S = {} \<Longrightarrow>
        holds m (sub_fields f) q css \<Longrightarrow> holds m' (sub_fields f) q css"
  shows "holds_field m' f p cs"
proof -
  have "holds_item m' f (p + j * data_size f) (cs ! j)" if j: "j < length cs" for j
  proof -
    have "{p + j * data_size f..<p + j * data_size f + data_size f} \<inter> S = {}" using holds_place [OF f h j] a by blast
    with item_frame [OF c this _ sub] h j show ?thesis by (simp add: holds_field_def)
  qed
  with h count_frame(1) [OF f c a b rep] show ?thesis by (simp add: holds_field_def)
qed

lemma safe_repeated:
  "safe_message sz fs \<Longrightarrow> k < length fs \<Longrightarrow> PB_HTYPE (ptype (fs ! k)) = PB_HTYPE_REPEATED \<Longrightarrow> size_offset (fs ! k) \<noteq> 0"
  using safe_field(3) [OF _ placed_nth] by (simp add: sized_inside_def)

lemma holds_frame:
  "safe_message sz fs \<Longrightarrow> separate fs \<Longrightarrow> changes S m m' \<Longrightarrow> {p..<p + sz} \<inter> S = {} \<Longrightarrow> holds m fs p css \<Longrightarrow> holds m' fs p css"
proof (induction "size_list size fs" arbitrary: fs sz p css rule: less_induct)
  case less
  note s = less.prems(1) and d = less.prems(2) and c = less.prems(3) and S = less.prems(4)
  have "holds_field m' (fs ! k) (p + layout fs ! k) (css ! k)" if k: "k < length fs" for k
  proof (rule field_frame [OF data_place(1) [OF s k] c])
    show "field_area (fs ! k) (p + layout fs ! k) \<inter> S = {}" using area_inside [OF s k] S by blast
    show "holds_field m (fs ! k) (p + layout fs ! k) (css ! k)" using less.prems(5) k by (simp add: holds_fields)
  next
    fix q css'
    assume x: "is_submessage (fs ! k)" and "{q..<q + data_size (fs ! k)} \<inter> S = {}" and "holds m (sub_fields (fs ! k)) q css'"
    then show "holds m' (sub_fields (fs ! k)) q css'"
      using less.hyps [OF sub_fields_smaller [OF nth_mem [OF k]] safe_sub [OF s k x] separateD(3) [OF d k x] c] by blast
  qed (use separateD(1) [OF d k] safe_repeated [OF s k] in blast)+
  with less.prems(5) show ?case by (simp add: holds_fields)
qed

lemma cleared_field_frame:
  assumes f: "plain_field f" and c: "changes S m m'" and a: "field_area f p \<inter> S = {}"
    and b: "PB_LTYPE (ptype f) = PB_LTYPE_BYTES \<Longrightarrow> 4 \<le> data_size f"
    and rep: "PB_HTYPE (ptype f) = PB_HTYPE_REPEATED \<Longrightarrow> size_offset f \<noteq> 0"
    and h: "cleared_field sub m f p"
    and sub: "is_submessage f \<Longrightarrow> {p..<p + data_size f} \<inter> S = {} \<Longrightarrow> sub p \<Longrightarrow> sub' p"
  shows "cleared_field sub' m' f p"
proof -
  have "{p..<p + data_size f} \<inter> S = {}" if "PB_HTYPE (ptype f) \<noteq> PB_HTYPE_REPEATED"
    using a data_member [OF f that] by (auto simp: field_area_def disjoint_iff)
  then show ?thesis using h sub count_frame [OF f c a b rep] by (auto simp: cleared_field_def htype_defs)
qed

lemma cleared_frame:
  "safe_message sz fs \<Longrightarrow> separate fs \<Longrightarrow> changes S m m' \<Longrightarrow> {p..<p + sz} \<inter> S = {} \<Longrightarrow> cleared m fs p \<Longrightarrow> cleared m' fs p"
proof (induction "size_list size fs" arbitrary: fs sz p rule: less_induct)
  case less
  note s = less.prems(1) and d = less.prems(2) and c = less.prems(3) and S = less.prems(4)
  have "cleared_field (cleared m' (sub_fields (fs ! k))) m' (fs ! k) (p + layout fs ! k)" if k: "k < length fs" for k
  proof (rule cleared_field_frame [OF data_place(1) [OF s k] c])
    show "field_area (fs ! k) (p + layout fs ! k) \<inter> S = {}" using area_inside [OF s k] S by blast
    show "cleared_field (cleared m (sub_fields (fs ! k))) m (fs ! k) (p + layout fs ! k)"
      using less.prems(5) k by (simp add: cleared_fields [of _ fs])
  next
    assume x: "is_submessage (fs ! k)" and "{p + layout fs ! k..<p + layout fs ! k + data_size (fs ! k)} \<inter> S = {}"
      and "cleared m (sub_fields (fs ! k)) (p + layout fs ! k)"
    then show "cleared m' (sub_fields (fs ! k)) (p + layout fs ! k)"
      using less.hyps [OF sub_fields_smaller [OF nth_mem [OF k]] safe_sub [OF s k x] separateD(3) [OF d k x] c] by blast
  qed (use separateD(1) [OF d k] safe_repeated [OF s k] in blast)+
  then show ?case by (simp add: cleared_fields [of _ fs])
qed

end
