(* ===== verification/PbStore.thy ===== *)
theory PbStore
  imports PbItems
begin

text \<open>
  What the decoder stores: the defaults leave an empty message, and an item that was on the wire is
  in its place afterwards.
\<close>

section \<open>Size fields\<close>

lemma field_iter_size [simp]: "nat (pSize (field_iter fs dest k)) = size_addr (fs ! k) (dest + layout fs ! k)"
  by (simp add: at_field_def size_addr_def)

lemma size_apart:
  assumes "sized_inside sz g off" and "has_size g"
  shows "{size_addr g (dest + off)..<size_addr g (dest + off) + size_bytes g} \<inter> {dest + off..<dest + off + member_size g} = {}"
  unfolding size_addr_shift [OF assms(2,1)] using assms by (auto simp: sized_inside_def size_addr_def)

lemma size_inside:
  assumes "sized_inside sz g off" and "has_size g"
  shows "size_addr g (dest + off) + size_bytes g \<le> dest + sz"
  unfolding size_addr_shift [OF assms(2,1)] using assms by (auto simp: sized_inside_def size_addr_def)

lemma blit_changes: "q + length b \<le> length m \<Longrightarrow> changes {q..<q + length b} m (blit m q b)"
  by (rule outside_changes) (auto intro: outside_same_blit)

lemma store_size_changes: "q + 4 \<le> length m \<Longrightarrow> changes {q..<q + 4} m (store_size q n m)"
  unfolding store_size_def using blit_changes [of q "le_bytes 4 n" m] by simp

lemma store_bool_changes: "q + 1 \<le> length m \<Longrightarrow> changes {q..<q + 1} m (store_bool q b m)"
  unfolding store_bool_def using blit_changes [of q "[of_bool b]" m] by simp

lemma blit_read: "q + length b \<le> length m \<Longrightarrow> take (length b) (drop q (blit m q b)) = b"
  by (simp add: blit_def)

lemma load_store_bool: "q + 1 \<le> length m \<Longrightarrow> load_bool (store_bool q b m) q = b"
  using blit_read [of q "[of_bool b]" m]
  by (simp add: load_bool_def store_bool_def le_val_def be_val_def)

lemma htype_cases: "PB_HTYPE t \<in> {PB_HTYPE_REQUIRED, PB_HTYPE_OPTIONAL, PB_HTYPE_REPEATED, PB_HTYPE_ONEOF}"
proof -
  let ?x = "take_bit 2 (drop_bit 4 t)"
  have "t AND 0x30 = push_bit 4 ?x"
  proof (rule bit_word_eqI)
    fix n assume "n < LENGTH(8)"
    then have "n \<in> {0, 1, 2, 3, 4, 5, 6, 7}" by auto
    then show "bit (t AND 0x30) n = bit (push_bit 4 ?x) n"
      by (auto simp: bit_simps)
  qed
  moreover have "?x \<in> {0, 1, 2, 3}"
  proof -
    have "unat ?x < 2 ^ 2" by (simp only: unsigned_take_bit_eq take_bit_nat_less_exp)
    then have "unat ?x \<in> {0, 1, 2, 3}" by auto
    then show ?thesis by (simp only: insert_iff empty_iff word_unat_eq_iff) simp
  qed
  ultimately show ?thesis by (auto simp: PB_HTYPE_def htype_defs push_bit_eq_mult)
qed

text \<open>Writing zeros gives the default value.\<close>

lemma zeros_default:
  assumes f: "plain_field f" and n: "\<not> is_submessage f" "PB_LTYPE (ptype f) \<noteq> PB_LTYPE_FIXED_LENGTH_BYTES"
    and b: "PB_LTYPE (ptype f) = PB_LTYPE_BYTES \<Longrightarrow> 4 \<le> data_size f" and l: "q + data_size f \<le> length m"
  shows "default_at (blit m q (replicate (data_size f) 0)) f q"
proof -
  let ?m = "blit m q (replicate (data_size f) 0)"
  have r: "take (data_size f) (drop q ?m) = replicate (data_size f) 0"
    using blit_read [of q "replicate (data_size f) 0" m] l by simp
  show ?thesis using f
  proof (cases rule: plain_cases)
    case scalar
    then show ?thesis using r by (auto simp: default_at_def raw_at_def ltype_defs scalar_type_def packable_width_def)
  next
    case bytes
    have "take 4 (drop q ?m) = take 4 (take (data_size f) (drop q ?m))" using b bytes by (simp add: min_absorb1)
    also have "\<dots> = replicate 4 0" unfolding r using b bytes by (simp add: min_absorb1)
    finally have "load_size ?m q = 0" by (simp add: load_size_def le_val_def be_val_def numeral_eq_Suc)
    then show ?thesis using bytes by (simp add: default_at_def)
  next
    case string
    have "takeWhile (\<lambda>b. b \<noteq> 0) (replicate n (0 :: u8)) = []" for n by (cases n) simp_all
    then show ?thesis using string r by (simp add: default_at_def raw_at_def ltype_defs)
  qed (use n in simp_all)
qed

section \<open>Default values\<close>

text \<open>The default of a field changes the bytes of the field only and leaves it empty.\<close>

lemma field_default_clears:
  fixes E :: "'s decode_env"
  assumes s: "safe_message sz fs" and d: "separate fs" and k: "k < length fs" and l: "dest + sz \<le> length m"
    and rec: "\<And>m q. is_submessage (fs ! k) \<Longrightarrow> q + data_size (fs ! k) \<le> length m \<Longrightarrow>
        outside_same q (data_size (fs ! k)) m (rec (sub_fields (fs ! k)) q m)
        \<and> cleared (rec (sub_fields (fs ! k)) q m) (sub_fields (fs ! k)) q"
  defines "m' \<equiv> pb_field_set_to_default E rec (field_iter fs dest k) m"
  shows "changes (field_area (fs ! k) (dest + layout fs ! k)) m m'"
    and "cleared_field (cleared m' (sub_fields (fs ! k))) m' (fs ! k) (dest + layout fs ! k)"
    and "PB_HTYPE (ptype (fs ! k)) = PB_HTYPE_ONEOF \<Longrightarrow> load_size m' (size_addr (fs ! k) (dest + layout fs ! k)) = 0"
proof -
  let ?g = "fs ! k" and ?q = "dest + layout fs ! k" and ?it = "field_iter fs dest k"
  let ?a = "size_addr ?g ?q" and ?A = "field_area ?g ?q"
  note p = data_place [OF s k]
  note z = safe_field(3) [OF s placed_nth [OF k]]
  note plain = p(1)
  note st = plain_static [OF plain]
  define init where "init = (\<lambda>m. if PB_LTYPE (ptype ?g) = PB_LTYPE_SUBMESSAGE then rec (sub_fields ?g) ?q m
                               else (case ptr ?g of
                                       Default_value b \<Rightarrow> blit m ?q (take (data_size ?g) b)
                                     | _ \<Rightarrow> blit m ?q (replicate (data_size ?g) 0)))"
  have m': "m' = (if PB_HTYPE (ptype ?g) = PB_HTYPE_OPTIONAL \<and> size_offset ?g \<noteq> 0 then init (store_bool ?a False m)
       else if PB_HTYPE (ptype ?g) = PB_HTYPE_REPEATED \<or> PB_HTYPE (ptype ?g) = PB_HTYPE_ONEOF then store_size ?a 0 m
       else init m)"
    unfolding m'_def
    by (simp only: pb_field_set_to_default_def Let_def field_iter_simps(1) [OF k] field_iter_simps(2,3) field_iter_size st init_def
        if_False if_True simp_thms)
  have i: "changes {?q..<?q + data_size ?g} n (init n)" "is_submessage ?g \<Longrightarrow> cleared (init n) (sub_fields ?g) ?q"
    if "PB_HTYPE (ptype ?g) \<noteq> PB_HTYPE_REPEATED" "length n = length m" for n
  proof -
    have e: "?q + data_size ?g \<le> length n" using p data_member [OF plain that(1)] l that(2) by simp
    have "outside_same ?q (data_size ?g) n (init n)"
    proof (cases "is_submessage ?g")
      case True
      then show ?thesis using rec [of ?q n] e by (simp add: init_def is_submessage_def)
    next
      case False
      then show ?thesis using e
        by (auto simp: init_def is_submessage_def split: pb_ptr.split intro!: outside_same_blit)
    qed
    then show "changes {?q..<?q + data_size ?g} n (init n)" by (rule outside_changes)
    show "is_submessage ?g \<Longrightarrow> cleared (init n) (sub_fields ?g) ?q"
      using rec [of ?q n] e by (simp add: init_def is_submessage_def)
  qed
  have data: "{?q..<?q + data_size ?g} \<subseteq> ?A" if "PB_HTYPE (ptype ?g) \<noteq> PB_HTYPE_REPEATED"
    using data_member [OF plain that] by (auto simp: field_area_def)
  consider (has) "PB_HTYPE (ptype ?g) = PB_HTYPE_OPTIONAL" "size_offset ?g \<noteq> 0"
    | (implicit) "PB_HTYPE (ptype ?g) = PB_HTYPE_OPTIONAL" "size_offset ?g = 0"
    | (size) "PB_HTYPE (ptype ?g) \<notin> {PB_HTYPE_REQUIRED, PB_HTYPE_OPTIONAL}"
    | (req) "PB_HTYPE (ptype ?g) = PB_HTYPE_REQUIRED" by blast
  then have "changes ?A m m' \<and> cleared_field (cleared m' (sub_fields ?g)) m' ?g ?q
    \<and> (PB_HTYPE (ptype ?g) = PB_HTYPE_ONEOF \<longrightarrow> load_size m' ?a = 0)"
  proof cases
    case has
    have h: "has_size ?g" "size_bytes ?g = 1" using has by (simp_all add: has_size_def size_bytes_def htype_defs)
    have nr: "PB_HTYPE (ptype ?g) \<noteq> PB_HTYPE_REPEATED" "PB_HTYPE (ptype ?g) \<noteq> PB_HTYPE_ONEOF" using has by (simp_all add: htype_defs)
    have al: "?a + 1 \<le> length m" using size_inside [OF z h(1), of dest] h(2) l by simp
    let ?n = "store_bool ?a False m"
    have M: "m' = init ?n" using m' has by simp
    have c1: "changes ?A m ?n"
      by (rule changes_mono [OF store_bool_changes [OF al]]) (use h in \<open>auto simp: field_area_def\<close>)
    note I = i [OF nr(1) changes_length [OF c1]]
    have "load_bool m' ?a = load_bool ?n ?a" unfolding M
    proof (rule changes_load_bool [OF I(1)])
      show "{?a..<?a + 1} \<inter> {?q..<?q + data_size ?g} = {}"
        using size_apart [OF z h(1), of dest] h(2) data_member [OF plain nr(1)] by simp
    qed
    then have "item_count m' ?g ?q = 0" using load_store_bool [OF al] has by (simp add: item_count_def htype_defs)
    then show ?thesis
      using changes_trans [OF c1 changes_mono [OF I(1) data [OF nr(1)]]] I(2) has nr
      by (simp add: M cleared_field_def htype_defs)
  next
    case implicit
    have nr: "PB_HTYPE (ptype ?g) \<noteq> PB_HTYPE_REPEATED" "PB_HTYPE (ptype ?g) \<noteq> PB_HTYPE_ONEOF" using implicit by (simp_all add: htype_defs)
    have M: "m' = init m" using m' implicit nr by simp
    have n: "\<not> is_submessage ?g" using plain implicit by (auto simp: plain_field_def)
    have "init m = blit m ?q (replicate (data_size ?g) 0)"
      using n separateD(2) [OF d k implicit] by (simp add: init_def is_submessage_def)
    moreover have "?q + data_size ?g \<le> length m" using p data_member [OF plain nr(1)] l by simp
    ultimately have "default_at m' ?g ?q"
      using zeros_default [OF plain n _ separateD(1) [OF d k]] separateD(2) [OF d k implicit] by (simp add: M)
    then have "item_count m' ?g ?q = 0" using implicit by (simp add: item_count_def htype_defs)
    then show ?thesis using changes_mono [OF i(1) [OF nr(1) refl] data [OF nr(1)]] implicit n nr
      by (simp add: M cleared_field_def htype_defs)
  next
    case size
    have h: "has_size ?g" "size_bytes ?g = 4"
      using size plain safe_repeated [OF s k] by (auto simp: has_size_def size_bytes_def plain_field_def)
    have al: "?a + 4 \<le> length m" using size_inside [OF z h(1), of dest] h(2) l by simp
    have "PB_HTYPE (ptype ?g) = PB_HTYPE_REPEATED \<or> PB_HTYPE (ptype ?g) = PB_HTYPE_ONEOF"
      using size htype_cases [of "ptype ?g"] by auto
    then have M: "m' = store_size ?a 0 m" using m' size by auto
    have c: "changes ?A m m'"
      unfolding M by (rule changes_mono [OF store_size_changes [OF al]]) (use h in \<open>auto simp: field_area_def\<close>)
    have z: "load_size m' ?a = 0" unfolding M by (rule load_store_size [OF al]) simp
    then have "item_count m' ?g ?q = 0 \<or> PB_HTYPE (ptype ?g) \<noteq> PB_HTYPE_REPEATED"
      using safe_repeated [OF s k] by (auto simp: item_count_def htype_defs)
    with c z size show ?thesis by (auto simp: cleared_field_def)
  next
    case req
    have nr: "PB_HTYPE (ptype ?g) \<noteq> PB_HTYPE_REPEATED" "PB_HTYPE (ptype ?g) \<noteq> PB_HTYPE_ONEOF" using req by (simp_all add: htype_defs)
    have "m' = init m" using m' req nr by (simp add: htype_defs)
    then show ?thesis using changes_mono [OF i(1) [OF nr(1) refl] data [OF nr(1)]] i(2) [OF nr(1) refl] req nr
      by (simp add: cleared_field_def htype_defs)
  qed
  then show "changes ?A m m'" "cleared_field (cleared m' (sub_fields ?g)) m' ?g ?q"
    "PB_HTYPE (ptype ?g) = PB_HTYPE_ONEOF \<Longrightarrow> load_size m' ?a = 0" by blast+
qed

lemma run_upto:
  assumes "\<And>i st. k \<le> i \<Longrightarrow> i < n \<Longrightarrow> P i st \<Longrightarrow> fst (g i st) \<and> P (Suc i) (snd (g i st))" and "P k st" and "k \<le> n"
  shows "P n (snd (run_all g [k..<n] st))"
  using assms
proof (induction "n - k" arbitrary: k st)
  case (Suc x)
  then have k: "k < n" by simp
  then have u: "[k..<n] = k # [Suc k..<n]" by (simp add: upt_conv_Cons)
  obtain ok st1 where g: "g k st = (ok, st1)" by (rule prod.exhaust)
  with Suc.prems(1) [of k st] Suc.prems(2) k have ok: "ok" "P (Suc k) st1" by simp_all
  have "P n (snd (run_all g [Suc k..<n] st1))" by (rule Suc.hyps(1)) (use Suc ok k in auto)
  then show ?case using g ok(1) by (simp add: u both_def)
qed simp

lemma message_defaults_clears:
  fixes E :: "'s decode_env"
  assumes s: "safe_message sz fs" and d: "separate fs" and l: "dest + sz \<le> length m"
    and rec: "\<And>k q m. k < length fs \<Longrightarrow> is_submessage (fs ! k) \<Longrightarrow> q + data_size (fs ! k) \<le> length m \<Longrightarrow>
        outside_same q (data_size (fs ! k)) m (rec (sub_fields (fs ! k)) q m)
        \<and> cleared (rec (sub_fields (fs ! k)) q m) (sub_fields (fs ! k)) q"
  shows "cleared (message_defaults E rec fs dest m) fs dest"
proof (cases "fs = []")
  case True
  then show ?thesis by (simp add: cleared_fields)
next
  case False
  let ?body = "\<lambda>iter m. (True, pb_field_set_to_default E rec iter m)"
  let ?c = "\<lambda>m j. cleared_field (cleared m (sub_fields (fs ! j))) m (fs ! j) (dest + layout fs ! j)"
  define P where "P = (\<lambda>i m'. length m' = length m \<and> (\<forall>j < i. ?c m' j))"
  have "P (length fs) (snd (run_all (\<lambda>i. ?body (field_iter fs dest i)) [0..<length fs] m))"
  proof (rule run_upto)
    fix k m1 assume k: "k < length fs" and P: "P k m1"
    let ?m = "pb_field_set_to_default E rec (field_iter fs dest k) m1"
    have l1: "dest + sz \<le> length m1" using P l by (simp add: P_def)
    note F = field_default_clears [where rec = rec and E = E, OF s d k l1 rec [OF k]]
    have "?c ?m j" if j: "j < Suc k" for j
    proof (cases "j = k")
      case True
      then show ?thesis using F(2) by blast
    next
      case False
      with j have j: "j < k" by simp
      then have jl: "j < length fs" using k by simp
      show ?thesis
      proof (cases "joint (fs ! j, layout fs ! j) (fs ! k, layout fs ! k)")
        case True
        then show ?thesis using F(3)
          by (auto simp: joint_def cleared_field_def size_addr_def htype_defs)
      next
        case nj: False
        have A: "field_area (fs ! j) (dest + layout fs ! j) \<inter> field_area (fs ! k) (dest + layout fs ! k) = {}"
          by (rule areas_apart [OF s d jl k]) (use j nj in simp_all)
        show ?thesis
        proof (rule cleared_field_frame [OF data_place(1) [OF s jl] F(1) A])
          show "?c m1 j" using P j by (simp add: P_def)
        next
          assume x: "is_submessage (fs ! j)"
            and a: "{dest + layout fs ! j..<dest + layout fs ! j + data_size (fs ! j)} \<inter> field_area (fs ! k) (dest + layout fs ! k) = {}"
            and c: "cleared m1 (sub_fields (fs ! j)) (dest + layout fs ! j)"
          from cleared_frame [OF safe_sub [OF s jl x] separateD(3) [OF d jl x] F(1) a c]
          show "cleared ?m (sub_fields (fs ! j)) (dest + layout fs ! j)" by blast
        qed (use separateD(1) [OF d jl] safe_repeated [OF s jl] in blast)+
      qed
    qed
    moreover have "length ?m = length m" using changes_length [OF F(1)] P by (simp add: P_def)
    ultimately show "fst (?body (field_iter fs dest k) m1) \<and> P (Suc k) (snd (?body (field_iter fs dest k) m1))"
      by (simp add: P_def)
  qed (simp_all add: P_def)
  moreover have "message_defaults E rec fs dest m = snd (run_all (\<lambda>i. ?body (field_iter fs dest i)) [0..<length fs] m)"
    using begin_at_field [OF safe_described [OF s] False, of "int dest"] fields_loop_at [OF safe_described [OF s], of 0 ?body "int dest" m] False
    by (simp add: message_defaults_def)
  ultimately show ?thesis by (simp add: cleared_fields [of _ fs] P_def)
qed

lemma defaults_n_clears:
  "safe_message sz fs \<Longrightarrow> separate fs \<Longrightarrow> message_depth fs \<le> d \<Longrightarrow> dest + sz \<le> length m \<Longrightarrow> cleared (defaults_n E d fs dest m) fs dest"
proof (induction d arbitrary: sz fs dest m)
  case 0
  show ?case unfolding defaults_n.simps
    by (rule message_defaults_clears [OF 0(1,2,4)]) (use safe_depth [OF 0(1) _ _ 0(3)] in blast)
next
  case (Suc d)
  show ?case unfolding defaults_n.simps
  proof (rule message_defaults_clears [OF Suc.prems(1,2,4)])
    fix k q and m :: memory
    assume k: "k < length fs" "is_submessage (fs ! k)" and l: "q + data_size (fs ! k) \<le> length m"
    from safe_depth [OF Suc.prems(1) k Suc.prems(3)] have d: "message_depth (sub_fields (fs ! k)) \<le> d" by blast
    note s = safe_sub [OF Suc.prems(1) k]
    show "outside_same q (data_size (fs ! k)) m (defaults_n E d (sub_fields (fs ! k)) q m)
        \<and> cleared (defaults_n E d (sub_fields (fs ! k)) q m) (sub_fields (fs ! k)) q"
      using defaults_n_inside [OF s d l] Suc.IH [OF s separateD(3) [OF Suc.prems(2) k] d l] by blast
  qed
qed

lemma defaults_clears:
  "safe_message sz fs \<Longrightarrow> separate fs \<Longrightarrow> dest + sz \<le> length m \<Longrightarrow> cleared (pb_message_set_to_defaults E fs dest m) fs dest"
  unfolding pb_message_set_to_defaults_def by (rule defaults_n_clears [OF _ _ order_refl])

end
