(* ===== verification/PbStoreItems.thy ===== *)
theory PbStoreItems
  imports PbStore
begin

text \<open>Items on the wire and the messages that fit a description.\<close>

section \<open>Messages that fit\<close>

definition item_fits :: "(pb_item list list \<Rightarrow> bool) \<Rightarrow> pb_field \<Rightarrow> pb_item \<Rightarrow> bool" where
  "item_fits sub f c \<longleftrightarrow>
     (case c of
        Raw b \<Rightarrow> \<not> is_submessage f
          \<and> (if PB_LTYPE (ptype f) = PB_LTYPE_BYTES then length b + 4 \<le> data_size f
             else if PB_LTYPE (ptype f) = PB_LTYPE_STRING then length b < data_size f \<and> 0 \<notin> set b
             else length b = data_size f)
      | Sub css \<Rightarrow> is_submessage f \<and> sub css)"

definition default_item :: "pb_field \<Rightarrow> pb_item \<Rightarrow> bool" where
  "default_item f c \<longleftrightarrow> (case c of Raw b \<Rightarrow> if scalar_type f then \<forall>x \<in> set b. x = 0 else b = [] | Sub css \<Rightarrow> False)"

definition field_fits :: "(pb_item list list \<Rightarrow> bool) \<Rightarrow> pb_field \<Rightarrow> pb_item list \<Rightarrow> bool" where
  "field_fits sub f cs \<longleftrightarrow>
     (\<forall>c \<in> set cs. item_fits sub f c)
     \<and> (if PB_HTYPE (ptype f) = PB_HTYPE_REQUIRED then length cs = 1
        else if PB_HTYPE (ptype f) = PB_HTYPE_REPEATED then length cs \<le> array_size f
        else length cs \<le> 1)
     \<and> (PB_HTYPE (ptype f) = PB_HTYPE_OPTIONAL \<and> size_offset f = 0 \<longrightarrow> (\<forall>c \<in> set cs. \<not> default_item f c))"

text \<open>Of the members of a union at most one is there.\<close>

function message_fits :: "pb_field list \<Rightarrow> pb_item list list \<Rightarrow> bool" where
  "message_fits fs css \<longleftrightarrow>
     length css = length fs
     \<and> (\<forall>(f, cs) \<in> set (zip fs css). field_fits (message_fits (sub_fields f)) f cs)
     \<and> (\<forall>i < length fs. \<forall>j < length fs. i \<noteq> j \<longrightarrow> joint (fs ! i, layout fs ! i) (fs ! j, layout fs ! j) \<longrightarrow>
          css ! i = [] \<or> css ! j = [])"
  by pat_completeness auto
termination
  by (relation "measure (\<lambda>(fs, _). size_list size fs)") (auto intro: sub_fields_smaller dest: set_zip_leftD)

declare message_fits.simps [simp del]

lemma fits_field:
  assumes "message_fits fs css" and "k < length fs"
  shows "field_fits (message_fits (sub_fields (fs ! k))) (fs ! k) (css ! k)"
proof -
  have "(fs ! k, css ! k) \<in> set (zip fs css)" using assms by (auto simp: set_zip message_fits.simps [of fs])
  then show ?thesis using assms(1) unfolding message_fits.simps [of fs] by blast
qed

section \<open>Storing\<close>

text \<open>
  On a stream that starts with \<open>bs\<close>, the action succeeds, is then after \<open>bs\<close>, has changed bytes of \<open>A\<close>
  only and leaves a memory with \<open>post\<close>.
\<close>

definition puts ::
  "(nat \<Rightarrow> 's \<Rightarrow> u8 list option \<times> 's) \<Rightarrow> ('s \<Rightarrow> u8 list) \<Rightarrow> nat set \<Rightarrow> ('s dstate \<Rightarrow> 's d_result) \<Rightarrow> memory \<Rightarrow> u8 list
     \<Rightarrow> (memory \<Rightarrow> bool) \<Rightarrow> bool" where
  "puts f rest A act m bs post \<longleftrightarrow>
     (\<forall>st r. source_ready f rest st \<and> stream_bytes rest st = bs @ r \<longrightarrow>
        (\<exists>m' st'. act (m, st) = Some (True, m', st') \<and> advanced f rest st (length bs) st' \<and> changes A m m' \<and> post m'))"

lemma putsE:
  assumes "puts f rest A act m bs post" and "source_ready f rest st" and "stream_bytes rest st = bs @ r"
  obtains m' st' where "act (m, st) = Some (True, m', st')" and "advanced f rest st (length bs) st'"
    and "source_ready f rest st'" and "stream_bytes rest st' = r" and "changes A m m'" and "post m'"
proof -
  from assms obtain m' st' where p: "act (m, st) = Some (True, m', st')" "advanced f rest st (length bs) st'"
    "changes A m m'" "post m'" unfolding puts_def by blast
  have "stream_bytes rest st' = r" using advanced_bytes [OF p(2)] assms(3) by simp
  moreover have "source_ready f rest st'" using p(2) by (simp add: advanced_def)
  ultimately show thesis using that p by blast
qed

lemma fills_puts:
  assumes "fills f rest d bs m m'" and "changes A m m'" and "post m'"
  shows "puts f rest A (\<lambda>st. Some (d st)) m bs post"
  unfolding puts_def
proof (intro allI impI)
  fix st r assume "source_ready f rest st \<and> stream_bytes rest st = bs @ r"
  then obtain st' where "d (m, st) = (True, m', st')" "advanced f rest st (length bs) st'"
    using assms(1) unfolding fills_def by blast
  then show "\<exists>m' st'. Some (d (m, st)) = Some (True, m', st') \<and> advanced f rest st (length bs) st' \<and> changes A m m' \<and> post m'"
    using assms(2,3) by auto
qed

lemma puts_mono: "puts f rest A act m bs post \<Longrightarrow> A \<subseteq> B \<Longrightarrow> (\<And>m'. changes A m m' \<Longrightarrow> post m' \<Longrightarrow> post' m') \<Longrightarrow> puts f rest B act m bs post'"
  unfolding puts_def by (meson changes_mono)

text \<open>The same for an action that reads the stream to its end.\<close>

definition puts_all ::
  "(nat \<Rightarrow> 's \<Rightarrow> u8 list option \<times> 's) \<Rightarrow> ('s \<Rightarrow> u8 list) \<Rightarrow> nat set \<Rightarrow> ('s dstate \<Rightarrow> 's d_result) \<Rightarrow> memory \<Rightarrow> u8 list
     \<Rightarrow> (memory \<Rightarrow> bool) \<Rightarrow> bool" where
  "puts_all f rest A act m bs post \<longleftrightarrow>
     (\<forall>st. source_ready f rest st \<and> stream_bytes rest st = bs \<longrightarrow>
        (\<exists>m' st'. act (m, st) = Some (True, m', st') \<and> advanced f rest st (length bs) st' \<and> changes A m m' \<and> post m'))"

text \<open>A change of the memory before.\<close>

lemma puts_after:
  assumes "puts f rest A act (g m) bs post" and "changes A m (g m)"
  shows "puts f rest A (\<lambda>st. act (g (fst st), snd st)) m bs post"
  using assms unfolding puts_def fst_conv snd_conv by (meson changes_trans)

lemma fills_shift: "fills f rest d bs (g m) m' \<Longrightarrow> fills f rest (\<lambda>st. d (g (fst st), snd st)) bs m m'"
  by (simp add: fills_def)

context byte_source
begin

lemma read_into_fills: "length b = n \<Longrightarrow> fills f rest (read_into n p) b m (blit m p b)"
proof -
  assume "length b = n"
  then have "decodes f rest (pb_read False n) b b" by (intro parses_decodes [OF read_parses]) (simp add: p_bytes_def)
  then show ?thesis unfolding read_into_def by (rule fills_then') (rule fills_done, simp)
qed

lemma packable_fills:
  assumes "packable_width ltype n" and "length b = n"
  shows "fills f rest (packable_decoder ltype n dest) (scalar_wire ltype b) m (blit m dest b)"
  using byte_pipe.packable_carries [OF byte_pipe.intro [OF buffer.byte_sink_axioms byte_source_axioms] assms(1), of b] assms(2)
  by (simp add: carries_def)

lemma bytes_fills:
  assumes n: "length b + 4 \<le> n" "n < 2 ^ 32" and a: "PB_ATYPE type \<noteq> PB_ATYPE_POINTER"
  shows "fills f rest (pb_dec_bytes R type n q) (with_length b) m (blit (store_size q (length b) m) (q + 4) b)"
  unfolding pb_dec_bytes_def with_length_def
proof (rule fills_then [OF varint32_decodes])
  show "length b < 2 ^ 32" using n by simp
  let ?w = "of_nat (length b) :: u32"
  have u: "unat ?w = length b" using n by (simp only: unat_of_nat) simp
  have s: "\<not> length b > PB_SIZE_MAX" using n by (simp add: PB_SIZE_MAX_def)
  have z: "PB_BYTES_ARRAY_T_ALLOCSIZE (length b) = length b + 4" using n by (simp add: PB_BYTES_ARRAY_T_ALLOCSIZE_def size_add_def)
  have "fills f rest (\<lambda>st. read_into (length b) (q + 4) (store_size q (length b) (fst st), snd st)) b m
      (blit (store_size q (length b) m) (q + 4) b)"
    by (rule fills_shift) (rule read_into_fills [OF refl])
  then show "fills f rest (let sz = unat ?w; alloc_size = PB_BYTES_ARRAY_T_ALLOCSIZE sz;
                fill = (\<lambda>bdest st. read_into sz (bdest + 4) (store_size bdest sz (fst st), snd st))
            in if sz > PB_SIZE_MAX then pb_derror ''bytes overflow''
               else if sz > alloc_size then pb_derror ''size too large''
               else if PB_ATYPE type = PB_ATYPE_POINTER
               then both (allocate_field R alloc_size 1 q) (\<lambda>st. fill (load_ptr (fst st) q) st)
               else if alloc_size > n then pb_derror ''bytes overflow''
               else fill q) b m (blit (store_size q (length b) m) (q + 4) b)"
    using n s z a by (simp add: Let_def u)
qed

lemma string_fills:
  assumes n: "length b < n" "n < 2 ^ 32" and a: "PB_ATYPE type \<noteq> PB_ATYPE_POINTER"
  shows "fills f rest (pb_dec_string R type n q) (with_length b) m ((blit m q b)[q + length b := 0])"
  unfolding pb_dec_string_def with_length_def
proof (rule fills_then [OF varint32_decodes])
  show "length b < 2 ^ 32" using n by simp
  let ?w = "of_nat (length b) :: u32"
  have u: "unat ?w = length b" using n by (simp only: unat_of_nat) simp
  have u1: "unat (?w + 1) = length b + 1"
  proof -
    have "?w + 1 = of_nat (length b + 1)" by simp
    then show ?thesis using n by (simp only: unat_of_nat) simp
  qed
  have "fills f rest (\<lambda>st. case read_into (length b) q st of (status, m, stream) \<Rightarrow> (status, m[q + length b := 0], stream)) b m
      ((blit m q b)[q + length b := 0])"
    by (rule fillsI) (use fillsE [OF read_into_fills [OF refl, of b q m]] in fastforce)
  then show "fills f rest (let alloc_size = unat (?w + 1);
                fill = (\<lambda>dest st. case read_into (unat ?w) dest st of
                                    (status, m, stream) \<Rightarrow> (status, m[dest + unat ?w := 0], stream))
            in if alloc_size < unat ?w then pb_derror ''size too large''
               else if PB_ATYPE type = PB_ATYPE_POINTER
               then both (allocate_field R alloc_size 1 q) (\<lambda>st. fill (load_ptr (fst st) q) st)
               else if alloc_size > n then pb_derror ''string overflow''
               else fill q) b m ((blit m q b)[q + length b := 0])"
    using n a by (simp add: Let_def u u1)
qed

lemma fixed_length_fills:
  assumes "length b = n" and "n < 2 ^ 32"
  shows "fills f rest (pb_dec_fixed_length_bytes n q) (with_length b) m (blit m q b)"
  unfolding pb_dec_fixed_length_bytes_def with_length_def
proof (rule fills_then [OF varint32_decodes])
  show "length b < 2 ^ 32" using assms by simp
  let ?w = "of_nat (length b) :: u32"
  have u: "unat ?w = length b" using assms by (simp only: unat_of_nat) simp
  have z: "?w = 0 \<longleftrightarrow> length b = 0" using u by (metis unat_eq_0)
  have s: "\<not> length b > PB_SIZE_MAX" using assms by (simp add: PB_SIZE_MAX_def)
  show "fills f rest (if unat ?w > PB_SIZE_MAX then pb_derror ''bytes overflow''
            else if ?w = 0 then (\<lambda>st. (True, blit (fst st) q (replicate n 0), snd st))
            else if unat ?w \<noteq> n then pb_derror ''incorrect fixed length bytes size''
            else read_into n q) b m (blit m q b)"
    using s assms read_into_fills [of b n q m] by (auto simp: u z intro: fills_done)
qed

text \<open>A substream is decoded to its end and closed.\<close>

lemma substream_puts:
  assumes body: "puts_all f rest A body m bs post" and b: "length bs < 2 ^ 32"
    and fin: "\<And>status m sub st. bytes_left sub = 0 \<Longrightarrow> fin status m sub st = Some (close_with status m sub st)"
  shows "puts f rest A
    (\<lambda>st. case pb_make_string_substream (snd st) of
       (None, stream) \<Rightarrow> Some (False, fst st, stream)
     | (Some sub, stream) \<Rightarrow>
         (case body (fst st, sub) of
            None \<Rightarrow> None
          | Some (status, m, sub) \<Rightarrow> fin status m sub stream)) m (with_length bs) post"
  unfolding puts_def
proof (intro allI impI, elim conjE)
  fix st r
  assume st: "source_ready f rest st" "stream_bytes rest st = with_length bs @ r"
  from decodesE [OF varint32_decodes [OF b] st(1), of "bs @ r"] st(2) obtain st1 where
    d: "pb_decode_varint32 st = (Some (of_nat (length bs)), st1)" "advanced f rest st (length (varint (length bs))) st1"
      "source_ready f rest st1" "stream_bytes rest st1 = bs @ r" by (auto simp: with_length_def)
  have n: "unat (of_nat (length bs) :: u32) = length bs" using b by (simp only: unat_of_nat) simp
  have left: "bytes_left st1 = length bs + length r" using stream_bytes_length [OF d(3)] d(4) by simp
  define sub where "sub = st1\<lparr>bytes_left := length bs\<rparr>"
  define st2 where "st2 = st1\<lparr>bytes_left := length r\<rparr>"
  have make: "pb_make_string_substream st = (Some sub, st2)"
    by (simp add: pb_make_string_substream_def and_then_def d(1) n left sub_def st2_def)
  have sub: "source_ready f rest sub" "stream_bytes rest sub = bs"
    using d(3,4) left by (simp_all add: sub_def source_ready_def stream_bytes_def) (metis append_eq_conv_conj take_take min_absorb1 le_add1)
  from body sub obtain m' sub' where
    p: "body (m, sub) = Some (True, m', sub')" "advanced f rest sub (length bs) sub'" "changes A m m'" "post m'"
    unfolding puts_all_def by blast
  have z: "bytes_left sub' = 0" using p(2) by (simp add: advanced_def sub_def)
  define st' where "st' = st2\<lparr>istate := istate sub', ierrmsg := ierrmsg sub'\<rparr>"
  have close: "close_with True m' sub' st2 = (True, m', st')"
    using z by (simp add: close_with_def pb_close_string_substream_def st'_def)
  have "advanced f rest st1 (length bs) st'"
    using p(2) d(3) left by (auto simp: advanced_def sub_def st2_def st'_def source_ready_def)
  then have "advanced f rest st (length (with_length bs)) st'" using advanced_trans [OF d(2)] by (simp add: with_length_def)
  then show "\<exists>m' st'. (case pb_make_string_substream (snd (m, st)) of
       (None, stream) \<Rightarrow> Some (False, fst (m, st), stream)
     | (Some sub, stream) \<Rightarrow>
         (case body (fst (m, st), sub) of
            None \<Rightarrow> None
          | Some (status, m, sub) \<Rightarrow> fin status m sub stream)) = Some (True, m', st')
      \<and> advanced f rest st (length (with_length bs)) st' \<and> changes A m m' \<and> post m'"
    using make p fin [OF z] close by simp
qed

end

section \<open>Items\<close>

text \<open>What the decoders of single values leave in the field.\<close>

lemma scalar_stored:
  assumes "length b = data_size g" and "q + data_size g \<le> length m" and "\<not> is_submessage g"
    and "PB_LTYPE (ptype g) \<notin> {PB_LTYPE_BYTES, PB_LTYPE_STRING}"
  shows "holds_item (blit m q b) g q (Raw b)"
  using assms blit_read [of q b m] by (simp add: holds_item_def item_ok_def item_at_def raw_at_def)

lemma bytes_stored:
  assumes n: "length b + 4 \<le> data_size g" "data_size g < 2 ^ 32" and l: "q + data_size g \<le> length m"
    and g: "PB_LTYPE (ptype g) = PB_LTYPE_BYTES" "\<not> is_submessage g"
  defines "m' \<equiv> blit (store_size q (length b) m) (q + 4) b"
  shows "holds_item m' g q (Raw b)" and "changes {q..<q + data_size g} m m'"
proof -
  let ?m = "store_size q (length b) m"
  have c1: "changes {q..<q + 4} m ?m" by (rule store_size_changes) (use n l in simp)
  have lb: "q + 4 + length b \<le> length ?m" using changes_length [OF c1] n l by simp
  have c2: "changes {q + 4..<q + 4 + length b} ?m m'" unfolding m'_def by (rule blit_changes [OF lb])
  have "load_size m' q = load_size ?m q" by (rule changes_load_size [OF c2]) auto
  also have "\<dots> = length b" by (rule load_store_size) (use n l in simp_all)
  finally have s: "load_size m' q = length b" .
  have "take (length b) (drop (q + 4) m') = b" unfolding m'_def by (rule blit_read [OF lb])
  with s n g show "holds_item m' g q (Raw b)" by (simp add: holds_item_def item_ok_def item_at_def raw_at_def)
  have "changes {q..<q + data_size g} m ?m" by (rule changes_mono [OF c1]) (use n in auto)
  moreover have "changes {q..<q + data_size g} ?m m'" by (rule changes_mono [OF c2]) (use n in auto)
  ultimately show "changes {q..<q + data_size g} m m'" by (rule changes_trans)
qed

lemma string_stored:
  assumes n: "length b < data_size g" "0 \<notin> set b" and l: "q + data_size g \<le> length m"
    and g: "PB_LTYPE (ptype g) = PB_LTYPE_STRING" "\<not> is_submessage g"
  defines "m' \<equiv> (blit m q b)[q + length b := 0]"
  shows "holds_item m' g q (Raw b)" and "changes {q..<q + data_size g} m m'"
proof -
  have lb: "q + length b \<le> length m" using n l by simp
  have c1: "changes {q..<q + length b} m (blit m q b)" by (rule blit_changes [OF lb])
  have len: "length (blit m q b) = length m" by (rule changes_length [OF c1])
  have c2: "changes {q..<q + data_size g} m (blit m q b)" by (rule changes_mono [OF c1]) (use n in auto)
  have c3: "changes {q..<q + data_size g} (blit m q b) m'" using n by (auto simp: m'_def changes_def)
  from c2 c3 show "changes {q..<q + data_size g} m m'" by (rule changes_trans)
  have t: "take (length b) (drop q m') = b" using blit_read [OF lb] by (simp add: m'_def drop_update_swap)
  have "take (Suc (length b)) (drop q m') = take (length b) (drop q m') @ [drop q m' ! length b]"
    by (rule take_Suc_conv_app_nth) (use n l len in \<open>simp add: m'_def\<close>)
  also have "drop q m' ! length b = 0" using n l len by (simp add: m'_def)
  finally have "take (Suc (length b)) (drop q m') = b @ [0]" using t by simp
  moreover have "take (Suc (length b)) (drop q m') = take (Suc (length b)) (take (data_size g) (drop q m'))"
    using n(1) by (simp add: min_absorb1)
  ultimately have "take (data_size g) (drop q m') = b @ 0 # drop (Suc (length b)) (take (data_size g) (drop q m'))"
    by (metis append.assoc append_Cons append_Nil append_take_drop_id)
  moreover have "takeWhile (\<lambda>x. x \<noteq> 0) (b @ 0 # xs) = b" for xs using n(2) by (induction b) auto
  ultimately have "takeWhile (\<lambda>x. x \<noteq> 0) (take (data_size g) (drop q m')) = b" by metis
  then show "holds_item m' g q (Raw b)" using g by (simp add: holds_item_def item_ok_def item_at_def raw_at_def ltype_defs)
qed

context byte_source
begin

lemma item_puts:
  assumes g: "plain_field g" and n: "data_size g < 2 ^ 32" and l: "q + data_size g \<le> length m"
    and c: "item_fits fits g c" and w: "length (item_wire wire g c) < 2 ^ 32"
    and sub: "\<And>css. is_submessage g \<Longrightarrow> c = Sub css \<Longrightarrow> fits css \<Longrightarrow> length (wire css) < 2 ^ 32 \<Longrightarrow>
      puts_all f rest {q..<q + data_size g} (dec (PB_HTYPE (ptype g) = PB_HTYPE_REPEATED) (sub_fields g) q) m (wire css)
        (\<lambda>m'. holds m' (sub_fields g) q css)"
  shows "puts f rest {q..<q + data_size g} (PB_DECODERS E dec g q) m (item_wire wire g c) (\<lambda>m'. holds_item m' g q c)"
proof -
  have np: "PB_ATYPE (ptype g) \<noteq> PB_ATYPE_POINTER" using plain_static(1) [OF g] by (simp add: atype_defs)
  show ?thesis using g
  proof (cases rule: plain_cases)
    case scalar
    then have t: "PB_LTYPE (ptype g) \<notin> {PB_LTYPE_BYTES, PB_LTYPE_STRING}" by (auto simp: ltype_defs)
    from c scalar t obtain b where b: "c = Raw b" "length b = data_size g" by (cases c) (auto simp: item_fits_def)
    have e: "PB_DECODERS E dec g q = (\<lambda>st. Some (packable_decoder (PB_LTYPE (ptype g)) (data_size g) q st))"
      using scalar by (intro ext) (simp add: PB_DECODERS_def)
    have "item_wire wire g c = scalar_wire (PB_LTYPE (ptype g)) b" using scalar b by (simp add: item_wire_def)
    then show ?thesis unfolding e using scalar(1) b l scalar_stored [OF b(2) l scalar(3) t]
      by (auto intro!: fills_puts [OF packable_fills] blit_changes [of q b m, unfolded b(2)] simp: scalar_type_def)
  next
    case bytes
    from c bytes obtain b where b: "c = Raw b" "length b + 4 \<le> data_size g" by (cases c) (auto simp: item_fits_def)
    have e: "PB_DECODERS E dec g q = (\<lambda>st. Some (pb_dec_bytes (env_realloc E) (ptype g) (data_size g) q st))"
      using bytes by (intro ext) (simp add: PB_DECODERS_def ltype_defs)
    have "item_wire wire g c = with_length b" using bytes b by (simp add: item_wire_def)
    then show ?thesis unfolding e using bytes_stored [OF b(2) n l bytes(1,2)] b(1)
      by (auto intro!: fills_puts [OF bytes_fills [OF b(2) n np]])
  next
    case string
    from c string obtain b where b: "c = Raw b" "length b < data_size g" "0 \<notin> set b"
      by (cases c) (auto simp: item_fits_def ltype_defs)
    have e: "PB_DECODERS E dec g q = (\<lambda>st. Some (pb_dec_string (env_realloc E) (ptype g) (data_size g) q st))"
      using string by (intro ext) (simp add: PB_DECODERS_def ltype_defs)
    have "item_wire wire g c = with_length b" using string b by (simp add: item_wire_def)
    then show ?thesis unfolding e using string_stored [OF b(2,3) l string(1,2)] b(1)
      by (auto intro!: fills_puts [OF string_fills [OF b(2) n np]])
  next
    case fixed
    then have t: "PB_LTYPE (ptype g) \<notin> {PB_LTYPE_BYTES, PB_LTYPE_STRING}" by (auto simp: ltype_defs)
    from c fixed t obtain b where b: "c = Raw b" "length b = data_size g" by (cases c) (auto simp: item_fits_def)
    have e: "PB_DECODERS E dec g q = (\<lambda>st. Some (pb_dec_fixed_length_bytes (data_size g) q st))"
      using fixed by (intro ext) (simp add: PB_DECODERS_def ltype_defs)
    have "item_wire wire g c = with_length b" using fixed b by (simp add: item_wire_def)
    then show ?thesis unfolding e using b l scalar_stored [OF b(2) l fixed(2) t]
      by (auto intro!: fills_puts [OF fixed_length_fills [OF b(2) n]] blit_changes [of q b m, unfolded b(2)])
  next
    case (sub fs')
    from c sub obtain css where b: "c = Sub css" "fits css" by (cases c) (auto simp: item_fits_def)
    have w1: "item_wire wire g c = with_length (wire css)" using b by (simp add: item_wire_def)
    then have w2: "length (wire css) < 2 ^ 32" using w by (simp add: with_length_def)
    note S = assms(6) [OF sub(1) b w2]
    have e: "PB_DECODERS E dec g q = pb_dec_submessage dec g q"
      using sub by (intro ext) (simp add: PB_DECODERS_def is_submessage_def ltype_defs)
    have e2: "ptr g \<noteq> Null_ptr" using sub by simp
    have "holds m' (sub_fields g) q css \<Longrightarrow> holds_item m' g q c" for m'
      using sub b by (auto simp: holds_item_def item_ok_def item_at_def holds_def is_submessage_def ltype_defs)
    then show ?thesis unfolding e submessage_unfold [OF e2] w1
      using puts_mono [OF substream_puts [OF S w2, of "\<lambda>status m sub st. Some (close_with status m sub st)"] order_refl] by simp
  qed
qed

end

end
