(* ===== verification/PbStoreFields.thy ===== *)
theory PbStoreFields
  imports PbStoreItems
begin

text \<open>What \<^verbatim>\<open>decode_static_field\<close> leaves in a field after an item of it was on the wire.\<close>

section \<open>Adding items\<close>

lemma default_item_iff:
  assumes "plain_field g" and "holds_item m g q c" and "\<not> is_submessage g"
    and "default_at m g q"
  shows "default_item g c"
  using assms(1)
proof (cases rule: plain_cases)
  case scalar
  then show ?thesis using assms by (auto simp: holds_item_def item_at_def default_at_def default_item_def split: pb_item.split)
next
  case bytes
  then show ?thesis using assms by (auto simp: holds_item_def item_at_def default_at_def default_item_def raw_at_def split: pb_item.split)
qed (use assms in \<open>auto simp: holds_item_def item_at_def default_at_def default_item_def ltype_defs split: pb_item.split\<close>)

text \<open>The only item of a field.\<close>

lemma single_holds:
  assumes "item_count m g q = 1" and "holds_item m g q c" and "PB_HTYPE (ptype g) \<noteq> PB_HTYPE_REPEATED"
  shows "holds_field m g q [c]"
  using assms by (simp add: holds_field_def)

text \<open>The next item of an array.\<close>

lemma append_holds:
  assumes g: "plain_field g" "PB_HTYPE (ptype g) = PB_HTYPE_REPEATED" "size_offset g \<noteq> 0"
    and s: "is_submessage g \<Longrightarrow> safe_message (data_size g) (sub_fields g) \<and> separate (sub_fields g)"
    and h: "holds_field m g q cs" and n: "length cs < array_size g"
    and apart: "{size_addr g q..<size_addr g q + 4} \<inter> {q..<q + member_size g} = {}"
    and ch: "changes ({size_addr g q..<size_addr g q + 4} \<union> {q + length cs * data_size g..<q + length cs * data_size g + data_size g}) m m'"
    and count: "load_size m' (size_addr g q) = length cs + 1"
    and c: "holds_item m' g (q + length cs * data_size g) c"
  shows "holds_field m' g q (cs @ [c])"
proof -
  let ?S = "{size_addr g q..<size_addr g q + 4} \<union> {q + length cs * data_size g..<q + length cs * data_size g + data_size g}"
  have "holds_item m' g (q + j * data_size g) (cs ! j)" if j: "j < length cs" for j
  proof (rule item_frame [OF ch])
    have "Suc j * data_size g \<le> length cs * data_size g" using j by (intro mult_le_mono1) simp
    moreover have "{q + j * data_size g..<q + j * data_size g + data_size g} \<subseteq> {q..<q + member_size g}"
      by (rule item_inside [OF g(1)]) (use g(2) j n in simp_all)
    ultimately show A: "{q + j * data_size g..<q + j * data_size g + data_size g} \<inter> ?S = {}"
      using apart by (auto simp: disjoint_iff)
    show "holds_item m g (q + j * data_size g) (cs ! j)" using h j by (simp add: holds_field_def)
    show "holds m' (sub_fields g) (q + j * data_size g) css"
      if "is_submessage g" "holds m (sub_fields g) (q + j * data_size g) css" for css
      using holds_frame [OF _ _ ch A that(2)] s [OF that(1)] by blast
  qed
  then show ?thesis using count c n g(2,3)
    by (auto simp: holds_field_def item_count_def htype_defs less_Suc_eq nth_append)
qed

section \<open>Fields\<close>

context byte_source
begin

text \<open>What is assumed of the decoder of submessages.\<close>

definition subs_put :: "pb_field list \<Rightarrow> 's message_decoder \<Rightarrow> bool" where
  "subs_put fs dec \<longleftrightarrow>
     (\<forall>g \<in> set fs. is_submessage g \<longrightarrow>
        (\<forall>init q m css. q + data_size g \<le> length m \<longrightarrow> (\<not> init \<longrightarrow> cleared m (sub_fields g) q) \<longrightarrow>
           message_fits (sub_fields g) css \<longrightarrow> length (message_wire (sub_fields g) css) < 2 ^ 32 \<longrightarrow>
           puts_all f rest {q..<q + data_size g} (dec init (sub_fields g) q) m (message_wire (sub_fields g) css)
             (\<lambda>m'. holds m' (sub_fields g) q css)))"

abbreviation "wire_of g \<equiv> item_wire (message_wire (sub_fields g)) g"
abbreviation "fits_of g \<equiv> item_fits (message_fits (sub_fields g)) g"

lemma func_puts:
  assumes s: "safe_message sz fs" and k: "k < length fs" and dec: "subs_put fs dec"
    and l: "q + data_size (fs ! k) \<le> length m" and n: "data_size (fs ! k) < 2 ^ 32"
    and c: "fits_of (fs ! k) c" and w: "length (wire_of (fs ! k) c) < 2 ^ 32"
    and clear: "is_submessage (fs ! k) \<Longrightarrow> PB_HTYPE (ptype (fs ! k)) \<noteq> PB_HTYPE_REPEATED \<Longrightarrow> cleared m (sub_fields (fs ! k)) q"
  shows "puts f rest {q..<q + data_size (fs ! k)} (PB_DECODERS E dec (fs ! k) q) m (wire_of (fs ! k) c) (\<lambda>m'. holds_item m' (fs ! k) q c)"
proof (rule item_puts [OF data_place(1) [OF s k] n l c w])
  fix css
  assume "is_submessage (fs ! k)" and "message_fits (sub_fields (fs ! k)) css" and "length (message_wire (sub_fields (fs ! k)) css) < 2 ^ 32"
  then show "puts_all f rest {q..<q + data_size (fs ! k)} (dec (PB_HTYPE (ptype (fs ! k)) = PB_HTYPE_REPEATED) (sub_fields (fs ! k)) q) m
      (message_wire (sub_fields (fs ! k)) css) (\<lambda>m'. holds m' (sub_fields (fs ! k)) q css)"
    using dec k l clear unfolding subs_put_def by simp
qed

lemma single_puts:
  assumes s: "safe_message sz fs" and d: "separate fs" and k: "k < length fs" and dec: "subs_put fs dec"
    and h: "PB_HTYPE (ptype (fs ! k)) \<noteq> PB_HTYPE_REPEATED" and l: "dest + sz \<le> length m"
    and c: "fits_of (fs ! k) c" and w: "length (wire_of (fs ! k) c) < 2 ^ 32"
    and clear: "cleared_field (cleared m (sub_fields (fs ! k))) m (fs ! k) (dest + layout fs ! k)"
    and def: "PB_HTYPE (ptype (fs ! k)) = PB_HTYPE_OPTIONAL \<Longrightarrow> size_offset (fs ! k) = 0 \<Longrightarrow> \<not> default_item (fs ! k) c"
  shows "puts f rest (field_area (fs ! k) (dest + layout fs ! k)) (decode_static_field E dec wt (field_iter fs dest k)) m
    (wire_of (fs ! k) c) (\<lambda>m'. holds_field m' (fs ! k) (dest + layout fs ! k) [c])"
proof -
  let ?g = "fs ! k" and ?q = "dest + layout fs ! k"
  let ?a = "size_addr ?g ?q" and ?A = "field_area ?g ?q" and ?F = "PB_DECODERS E dec (fs ! k) (dest + layout fs ! k)"
  note p = data_place [OF s k]
  note z = safe_field(3) [OF s placed_nth [OF k]]
  have ds: "member_size ?g = data_size ?g" by (rule data_member [OF p(1) h])
  have n: "data_size ?g < 2 ^ 32" using safe_field(5) [OF s placed_nth [OF k]] ds by simp
  have e: "?q + data_size ?g \<le> length m" using p(2) ds l by simp
  have dataA: "{?q..<?q + data_size ?g} \<subseteq> ?A" using ds by (auto simp: field_area_def)
  have F: "puts f rest {?q..<?q + data_size ?g} ?F n (wire_of ?g c) (\<lambda>m'. holds_item m' ?g ?q c)"
    if "length n = length m" "is_submessage ?g \<Longrightarrow> cleared n (sub_fields ?g) ?q" for n :: memory
    by (rule func_puts [OF s k dec _ _ c w]) (use that e n in simp_all)
  have sub: "cleared m (sub_fields ?g) ?q" if "is_submessage ?g" "PB_HTYPE (ptype ?g) \<in> {PB_HTYPE_REQUIRED, PB_HTYPE_OPTIONAL}"
    using clear that by (auto simp: cleared_field_def)
  consider (has) "PB_HTYPE (ptype ?g) = PB_HTYPE_OPTIONAL" "size_offset ?g \<noteq> 0"
    | (implicit) "PB_HTYPE (ptype ?g) = PB_HTYPE_OPTIONAL" "size_offset ?g = 0"
    | (union) "PB_HTYPE (ptype ?g) \<notin> {PB_HTYPE_REQUIRED, PB_HTYPE_OPTIONAL, PB_HTYPE_REPEATED}"
    | (req) "PB_HTYPE (ptype ?g) = PB_HTYPE_REQUIRED" using h by blast
  then show ?thesis
  proof cases
    case has
    have hs: "has_size ?g" "size_bytes ?g = 1" using has by (simp_all add: has_size_def size_bytes_def htype_defs)
    have al: "?a + 1 \<le> length m" using size_inside [OF z hs(1), of dest] hs(2) l by simp
    let ?n = "store_bool ?a True m"
    note c1 = store_bool_changes [OF al, of True]
    have ap: "{?a..<?a + 1} \<inter> {?q..<?q + data_size ?g} = {}" using size_apart [OF z hs(1), of dest] hs(2) ds by simp
    have "cleared ?n (sub_fields ?g) ?q" if "is_submessage ?g"
      using cleared_frame [OF safe_sub [OF s k that] separateD(3) [OF d k that] c1 _ sub [OF that]] ap has by blast
    from F [OF changes_length [OF c1] this]
    have "puts f rest ?A ?F ?n (wire_of ?g c) (\<lambda>m'. holds_field m' ?g ?q [c])"
    proof (rule puts_mono [OF _ dataA])
      fix m' assume m': "changes {?q..<?q + data_size ?g} ?n m'" "holds_item m' ?g ?q c"
      have "load_bool m' ?a = load_bool ?n ?a" by (rule changes_load_bool [OF m'(1) ap])
      then have "item_count m' ?g ?q = 1" using load_store_bool [OF al] has by (simp add: item_count_def htype_defs)
      from single_holds [OF this m'(2) h] show "holds_field m' ?g ?q [c]" .
    qed
    moreover have "changes ?A m ?n" by (rule changes_mono [OF c1]) (use hs in \<open>auto simp: field_area_def\<close>)
    ultimately show ?thesis
      using puts_after [of f rest ?A ?F "store_bool ?a True" m] has by (simp add: static_optional [OF k has(1)])
  next
    case implicit
    have ns: "\<not> is_submessage ?g" using p(1) implicit by (auto simp: plain_field_def)
    from F [OF refl] ns have "puts f rest ?A ?F m (wire_of ?g c) (\<lambda>m'. holds_field m' ?g ?q [c])"
    proof (intro puts_mono [OF _ dataA])
      fix m' assume m': "holds_item m' ?g ?q c"
      have "\<not> default_at m' ?g ?q" using default_item_iff [OF p(1) m' ns] def implicit by blast
      then have "item_count m' ?g ?q = 1" using implicit by (simp add: item_count_def htype_defs)
      from single_holds [OF this m' h] show "holds_field m' ?g ?q [c]" .
    qed auto
    then show ?thesis using implicit by (simp add: static_optional [OF k implicit(1)])
  next
    case union
    have hs: "has_size ?g" "size_bytes ?g = 4" using union p(1) by (auto simp: has_size_def size_bytes_def plain_field_def)
    have al: "?a + 4 \<le> length m" using size_inside [OF z hs(1), of dest] hs(2) l by simp
    have ap: "{?a..<?a + 4} \<inter> {?q..<?q + data_size ?g} = {}" using size_apart [OF z hs(1), of dest] hs(2) ds by simp
    let ?n1 = "store_size ?a (tag ?g) m" and ?n = "union_prepared E ?g ?q ?a m"
    note c1 = store_size_changes [OF al, of "tag ?g"]
    have e1: "?q + data_size ?g \<le> length ?n1" using e changes_length [OF c1] by simp
    have sm: "outside_same ?q (data_size ?g) ?n1 (blit ?n1 ?q (replicate (data_size ?g) 0))"
      using e1 by (intro outside_same_blit) simp_all
    have e2: "?q + data_size ?g \<le> length (blit ?n1 ?q (replicate (data_size ?g) 0))" using e1 outside_same_length [OF sm] by simp
    have c2: "changes {?q..<?q + data_size ?g} ?n1 ?n"
    proof (cases "is_submessage ?g")
      case True
      then have "?n = pb_message_set_to_defaults E (sub_fields ?g) ?q (blit ?n1 ?q (replicate (data_size ?g) 0))"
        by (simp add: union_prepared_def is_submessage_def)
      then show ?thesis
        using outside_changes [OF outside_same_trans [OF sm defaults_inside [OF safe_sub [OF s k True] e2]]] by simp
    qed (simp add: union_prepared_def is_submessage_def)
    have "cleared ?n (sub_fields ?g) ?q" if "is_submessage ?g"
      using defaults_clears [OF safe_sub [OF s k that] separateD(3) [OF d k that] e2, of E] that
      by (simp add: union_prepared_def is_submessage_def)
    from F [OF _ this] changes_length [OF c1] changes_length [OF c2]
    have "puts f rest ?A ?F ?n (wire_of ?g c) (\<lambda>m'. holds_field m' ?g ?q [c])"
    proof (intro puts_mono [OF _ dataA])
      fix m' assume m': "changes {?q..<?q + data_size ?g} ?n m'" "holds_item m' ?g ?q c"
      have "load_size m' ?a = load_size ?n1 ?a" by (rule changes_load_size [OF changes_trans [OF c2 m'(1)] ap])
      also have "\<dots> = tag ?g" using p(1) by (intro load_store_size [OF al]) (simp add: plain_field_def)
      finally have "item_count m' ?g ?q = 1" using union by (simp add: item_count_def)
      from single_holds [OF this m'(2) h] show "holds_field m' ?g ?q [c]" .
    qed simp
    moreover have "changes ?A m ?n"
      by (rule changes_trans [OF changes_mono [OF c1] changes_mono [OF c2 dataA]]) (use hs in \<open>auto simp: field_area_def\<close>)
    ultimately show ?thesis
      using puts_after [of f rest ?A ?F "union_prepared E ?g ?q ?a" m] by (simp add: static_union [OF k union])
  next
    case req
    have "puts f rest {?q..<?q + data_size ?g} ?F m (wire_of ?g c) (\<lambda>m'. holds_item m' ?g ?q c)"
      using F [OF refl] sub req by simp
    then have "puts f rest ?A ?F m (wire_of ?g c) (\<lambda>m'. holds_field m' ?g ?q [c])"
    proof (rule puts_mono [OF _ dataA])
      fix m' assume "holds_item m' ?g ?q c"
      then show "holds_field m' ?g ?q [c]" by (intro single_holds [OF _ _ h]) (simp_all add: item_count_def req)
    qed
    then show ?thesis by (simp add: static_required [OF k req])
  qed
qed

text \<open>The bytes of an array and its count.\<close>

lemma array_place:
  fixes dest :: nat
  assumes s: "safe_message sz fs" and k: "k < length fs" and h: "PB_HTYPE (ptype (fs ! k)) = PB_HTYPE_REPEATED"
  defines "q \<equiv> dest + layout fs ! k"
  shows "has_size (fs ! k)" and "size_bytes (fs ! k) = 4" and "size_addr (fs ! k) q + 4 \<le> dest + sz"
    and "{size_addr (fs ! k) q..<size_addr (fs ! k) q + 4} \<inter> {q..<q + member_size (fs ! k)} = {}"
    and "q + member_size (fs ! k) \<le> dest + sz"
    and "j < array_size (fs ! k) \<Longrightarrow>
      {q + j * data_size (fs ! k)..<q + j * data_size (fs ! k) + data_size (fs ! k)} \<subseteq> {q..<q + member_size (fs ! k)}"
    and "j < array_size (fs ! k) \<Longrightarrow> q + j * data_size (fs ! k) + data_size (fs ! k) \<le> dest + sz"
    and "j < array_size (fs ! k) \<Longrightarrow> data_size (fs ! k) < 2 ^ 32"
proof -
  let ?g = "fs ! k"
  note p = data_place [OF s k] and z = safe_field(3) [OF s placed_nth [OF k]]
  show hs: "has_size ?g" "size_bytes ?g = 4" using h safe_repeated [OF s k h] by (simp_all add: has_size_def size_bytes_def htype_defs)
  show "size_addr ?g q + 4 \<le> dest + sz" using size_inside [OF z hs(1), of dest] hs(2) by (simp add: q_def)
  show "{size_addr ?g q..<size_addr ?g q + 4} \<inter> {q..<q + member_size ?g} = {}"
    using size_apart [OF z hs(1), of dest] hs(2) by (simp add: q_def)
  show e: "q + member_size ?g \<le> dest + sz" using p(2) by (simp add: q_def)
  assume j: "j < array_size ?g"
  then have "Suc j * data_size ?g \<le> array_size ?g * data_size ?g" by (intro mult_le_mono1) simp
  then have n: "j * data_size ?g + data_size ?g \<le> member_size ?g" using array_member [OF p(1) h] by (simp add: mult.commute)
  then show "{q + j * data_size ?g..<q + j * data_size ?g + data_size ?g} \<subseteq> {q..<q + member_size ?g}" by auto
  show "q + j * data_size ?g + data_size ?g \<le> dest + sz" using n e by simp
  show "data_size ?g < 2 ^ 32" using n safe_field(5) [OF s placed_nth [OF k]] by simp
qed

lemma array_count:
  "PB_HTYPE (ptype g) = PB_HTYPE_REPEATED \<Longrightarrow> size_offset g \<noteq> 0 \<Longrightarrow> holds_field m g q cs \<Longrightarrow> load_size m (size_addr g q) = length cs"
  by (simp add: holds_field_def item_count_def htype_defs)

lemma unpacked_puts:
  assumes s: "safe_message sz fs" and d: "separate fs" and k: "k < length fs" and dec: "subs_put fs dec"
    and h: "PB_HTYPE (ptype (fs ! k)) = PB_HTYPE_REPEATED" and l: "dest + sz \<le> length m"
    and wt: "\<not> (wt = PB_WT_STRING \<and> PB_LTYPE (ptype (fs ! k)) \<le> PB_LTYPE_LAST_PACKABLE)"
    and c: "fits_of (fs ! k) c" and w: "length (wire_of (fs ! k) c) < 2 ^ 32"
    and held: "holds_field m (fs ! k) (dest + layout fs ! k) cs" and n: "length cs < array_size (fs ! k)"
  shows "puts f rest (field_area (fs ! k) (dest + layout fs ! k)) (decode_static_field E dec wt (field_iter fs dest k)) m
    (wire_of (fs ! k) c) (\<lambda>m'. holds_field m' (fs ! k) (dest + layout fs ! k) (cs @ [c]))"
proof -
  let ?g = "fs ! k" and ?q = "dest + layout fs ! k"
  let ?a = "size_addr ?g ?q" and ?A = "field_area ?g ?q" and ?i = "?q + length cs * data_size ?g"
  let ?I = "{?i..<?i + data_size ?g}" and ?n = "store_size ?a (length cs + 1) m"
  note p = data_place [OF s k] and r = safe_repeated [OF s k h]
  note P = array_place(1,2) [OF s k h] array_place(3-7) [OF s k h, where dest = dest] array_place(8) [OF s k h]
  have al: "?a + 4 \<le> length m" using P(3) l by simp
  note c1 = store_size_changes [OF al, of "length cs + 1"]
  have I: "?I \<subseteq> {?q..<?q + member_size ?g}" by (rule P(6) [OF n])
  have "?i + data_size ?g \<le> length ?n" using P(7) [OF n] l changes_length [OF c1] by simp
  from func_puts [OF s k dec this P(8) [OF n] c w, of E] h
  have F: "puts f rest ?I (PB_DECODERS E dec ?g ?i) ?n (wire_of ?g c) (\<lambda>m'. holds_item m' ?g ?i c)" by simp
  show ?thesis unfolding puts_def
  proof (intro allI impI, elim conjE)
    fix st r
    assume st: "source_ready f rest st" "stream_bytes rest st = wire_of ?g c @ r"
    from putsE [OF F st] obtain m' st' where
      R: "PB_DECODERS E dec ?g ?i (?n, st) = Some (True, m', st')" "advanced f rest st (length (wire_of ?g c)) st'"
        "changes ?I ?n m'" "holds_item m' ?g ?i c" by blast
    have e: "decode_static_field E dec wt (field_iter fs dest k) (m, st) = Some (True, m', st')"
      using R(1) n array_count [OF h r held] by (simp add: static_unpacked [OF k h wt] Let_def mult.commute)
    have ch: "changes ({?a..<?a + 4} \<union> ?I) m m'"
      by (rule changes_trans [OF changes_mono [OF c1] changes_mono [OF R(3)]]) auto
    have "load_size m' ?a = load_size ?n ?a" by (rule changes_load_size [OF R(3)]) (use P(4) I in blast)
    also have "\<dots> = length cs + 1" by (rule load_store_size [OF al]) (use n separateD(4) [OF d k] in simp)
    finally have "holds_field m' ?g ?q (cs @ [c])"
      using append_holds [OF p(1) h r _ held n P(4) ch _ R(4)] safe_sub [OF s k] separateD(3) [OF d k] by blast
    moreover have "changes ?A m m'" by (rule changes_mono [OF ch]) (use P(1,2) I in \<open>auto simp: field_area_def\<close>)
    ultimately show "\<exists>m' st'. decode_static_field E dec wt (field_iter fs dest k) (m, st) = Some (True, m', st')
        \<and> advanced f rest st (length (wire_of ?g c)) st' \<and> changes ?A m m' \<and> holds_field m' ?g ?q (cs @ [c])"
      using e R(2) by blast
  qed
qed

lemma scalar_wire_nonempty: "scalar_type g \<Longrightarrow> fits_of g c \<Longrightarrow> wire_of g c \<noteq> []"
  by (cases c) (auto simp: item_wire_def item_fits_def scalar_wire_def scalar_type_def packable_width_def is_submessage_def ltype_defs)

lemma packed_puts:
  assumes s: "safe_message sz fs" and d: "separate fs" and k: "k < length fs" and dec: "subs_put fs dec"
    and h: "PB_HTYPE (ptype (fs ! k)) = PB_HTYPE_REPEATED" and sc: "scalar_type (fs ! k)"
  shows "dest + sz \<le> length m \<Longrightarrow> \<forall>c \<in> set xs. fits_of (fs ! k) c \<Longrightarrow> length (concat (map (wire_of (fs ! k)) xs)) < 2 ^ 32 \<Longrightarrow>
    holds_field m (fs ! k) (dest + layout fs ! k) cs \<Longrightarrow> length cs + length xs \<le> array_size (fs ! k) \<Longrightarrow>
    puts_all f rest (field_area (fs ! k) (dest + layout fs ! k))
      (packed_entries (PB_DECODERS E dec (fs ! k)) (fs ! k) (dest + layout fs ! k) (size_addr (fs ! k) (dest + layout fs ! k))) m
      (concat (map (wire_of (fs ! k)) xs)) (\<lambda>m'. holds_field m' (fs ! k) (dest + layout fs ! k) (cs @ xs))"
proof (induction xs arbitrary: m cs)
  case Nil
  then show ?case unfolding puts_all_def
    by (auto simp: packed_entries.simps stream_bytes_length [symmetric] intro: advanced_refl)
next
  case (Cons c xs)
  let ?g = "fs ! k" and ?q = "dest + layout fs ! k"
  let ?a = "size_addr ?g ?q" and ?A = "field_area ?g ?q" and ?i = "?q + length cs * data_size ?g" and ?F = "PB_DECODERS E dec (fs ! k)"
  let ?I = "{?i..<?i + data_size ?g}" and ?w = "concat (map (wire_of ?g) xs)"
  note p = data_place [OF s k] and r = safe_repeated [OF s k h]
  note P = array_place(1,2) [OF s k h] array_place(3-7) [OF s k h, where dest = dest] array_place(8) [OF s k h]
  have n: "length cs < array_size ?g" using Cons.prems(5) by simp
  have I: "?I \<subseteq> {?q..<?q + member_size ?g}" by (rule P(6) [OF n])
  have fits: "fits_of ?g c" "length (wire_of ?g c) < 2 ^ 32" using Cons.prems(2,3) by simp_all
  have il: "?i + data_size ?g \<le> length m" using P(7) [OF n] Cons.prems(1) by simp
  have "\<not> is_submessage ?g" using sc by (auto simp: scalar_type_def packable_width_def is_submessage_def ltype_defs)
  then have F: "puts f rest ?I (?F ?i) m (wire_of ?g c) (\<lambda>m'. holds_item m' ?g ?i c)"
    using func_puts [OF s k dec il P(8) [OF n] fits, of E] by simp
  show ?case unfolding puts_all_def
  proof (intro allI impI, elim conjE)
    fix st
    assume st: "source_ready f rest st" "stream_bytes rest st = concat (map (wire_of ?g) (c # xs))"
    then have "stream_bytes rest st \<noteq> []" using scalar_wire_nonempty [OF sc fits(1)] by simp
    then have "bytes_left st \<noteq> 0" using stream_bytes_length [OF st(1)] by (metis length_0_conv)
    from putsE [OF F st(1), of ?w] st(2) obtain m1 st1 where
      R: "?F ?i (m, st) = Some (True, m1, st1)" "advanced f rest st (length (wire_of ?g c)) st1"
        "source_ready f rest st1" "stream_bytes rest st1 = ?w" "changes ?I m m1" "holds_item m1 ?g ?i c" by auto
    have count: "load_size m ?a = length cs" by (rule array_count [OF h r Cons.prems(4)])
    have count1: "load_size m1 ?a = length cs" unfolding count [symmetric] by (rule changes_load_size [OF R(5)]) (use P(4) I in blast)
    let ?m = "store_size ?a (length cs + 1) m1"
    have al: "?a + 4 \<le> length m1" using P(3) Cons.prems(1) changes_length [OF R(5)] by simp
    note c2 = store_size_changes [OF al, of "length cs + 1"]
    have ch: "changes ({?a..<?a + 4} \<union> ?I) m ?m" by (rule changes_trans [OF changes_mono [OF R(5)] changes_mono [OF c2]]) auto
    have it: "holds_item ?m ?g ?i c"
      by (rule item_frame [OF c2 _ R(6)]) (use P(4) I \<open>\<not> is_submessage ?g\<close> in blast)+
    have "load_size ?m ?a = length cs + 1" by (rule load_store_size [OF al]) (use n separateD(4) [OF d k] in simp)
    from append_holds [OF p(1) h r _ Cons.prems(4) n P(4) ch this it]
    have held: "holds_field ?m ?g ?q (cs @ [c])" using \<open>\<not> is_submessage ?g\<close> by blast
    have "dest + sz \<le> length ?m" using Cons.prems(1) changes_length [OF ch] by simp
    from Cons.IH [OF this _ _ held] Cons.prems(2,3,5) R(3,4) obtain m' st' where
      R2: "packed_entries ?F ?g ?q ?a (?m, st1) = Some (True, m', st')" "advanced f rest st1 (length ?w) st'"
        "changes ?A ?m m'" "holds_field m' ?g ?q ((cs @ [c]) @ xs)"
      unfolding puts_all_def by fastforce
    have "packed_entries ?F ?g ?q ?a (m, st) = Some (True, m', st')"
      using \<open>bytes_left st \<noteq> 0\<close> n count count1 R(1) R2(1) by (simp add: packed_entries.simps [of _ _ _ _ "(m, st)"] mult.commute)
    moreover have "changes ?A m m'"
      by (rule changes_trans [OF changes_mono [OF ch] R2(3)]) (use P(1,2) I in \<open>auto simp: field_area_def\<close>)
    moreover have "advanced f rest st (length (concat (map (wire_of ?g) (c # xs)))) st'"
      using advanced_trans [OF R(2) R2(2)] by simp
    ultimately show "\<exists>m' st'. packed_entries ?F ?g ?q ?a (m, st) = Some (True, m', st')
        \<and> advanced f rest st (length (concat (map (wire_of ?g) (c # xs)))) st' \<and> changes ?A m m' \<and> holds_field m' ?g ?q (cs @ c # xs)"
      using R2(4) by auto
  qed
qed

text \<open>A packed array in one piece.\<close>

lemma packed_field_puts:
  assumes s: "safe_message sz fs" and d: "separate fs" and k: "k < length fs" and dec: "subs_put fs dec"
    and h: "PB_HTYPE (ptype (fs ! k)) = PB_HTYPE_REPEATED" and sc: "scalar_type (fs ! k)" and l: "dest + sz \<le> length m"
    and c: "\<forall>c \<in> set cs. fits_of (fs ! k) c" and w: "length (concat (map (wire_of (fs ! k)) cs)) < 2 ^ 32"
    and held: "holds_field m (fs ! k) (dest + layout fs ! k) []" and n: "length cs \<le> array_size (fs ! k)"
  shows "puts f rest (field_area (fs ! k) (dest + layout fs ! k)) (decode_static_field E dec 2 (field_iter fs dest k)) m
    (with_length (concat (map (wire_of (fs ! k)) cs))) (\<lambda>m'. holds_field m' (fs ! k) (dest + layout fs ! k) cs)"
proof -
  have lt: "2 = PB_WT_STRING \<and> PB_LTYPE (ptype (fs ! k)) \<le> PB_LTYPE_LAST_PACKABLE"
    using sc by (auto simp: PB_WT_STRING_def scalar_type_def packable_width_def ltype_defs)
  show ?thesis unfolding static_packed [OF k h lt] field_iter_size
    by (rule substream_puts [OF packed_puts [OF s d k dec h sc l c w held, simplified, of E] w]) (use n in simp_all)
qed

end

end
