(* ===== verification/PbRound.thy ===== *)
theory PbRound
  imports PbStoreFields
begin

text \<open>Whole messages: the loop over the tags of a message that was written by the encoder.\<close>

section \<open>Required fields\<close>

text \<open>The words \<^verbatim>\<open>fields_seen\<close> after the first \<open>n\<close> required fields.\<close>

definition seen_first :: "nat \<Rightarrow> u32 list" where
  "seen_first n = [mask n, mask (n - 32)]"

lemma second_word: "32 \<le> n \<Longrightarrow> n < 64 \<Longrightarrow> n div 32 = 1 \<and> n mod 32 = n - (32 :: nat)"
  by (simp add: le_mod_geq le_div_geq)

lemma mask_all: "32 \<le> n \<Longrightarrow> (mask n :: u32) = - 1"
  by (rule bit_word_eqI) (simp add: bit_simps)

lemma mask_next: "(mask n :: u32) OR push_bit n 1 = mask (Suc n)"
  by (rule bit_word_eqI) (auto simp: bit_simps)

definition required_before :: "pb_field list \<Rightarrow> nat \<Rightarrow> nat" where
  "required_before fs k = length (filter (\<lambda>f. PB_HTYPE (ptype f) = PB_HTYPE_REQUIRED) (take k fs))"

lemma required_before_Suc:
  "k < length fs \<Longrightarrow> required_before fs (Suc k) = required_before fs k + of_bool (PB_HTYPE (ptype (fs ! k)) = PB_HTYPE_REQUIRED)"
  by (simp add: required_before_def take_Suc_conv_app_nth)

lemma mark_seen:
  assumes "k < length fs" and "fields_seen L = seen_first (required_before fs k)" and "cur L = field_iter fs dest k"
  shows "fields_seen (mark_required L) = seen_first (required_before fs (if PB_HTYPE (ptype (fs ! k)) = PB_HTYPE_REQUIRED then Suc k else k))"
proof -
  let ?i = "required_before fs k"
  have i: "required_field_index (cur L) = ?i" using assms(3) by (simp add: at_field_def required_before_def)
  have "(seen_first ?i)[?i div 32 := seen_first ?i ! (?i div 32) OR push_bit (?i mod 32) 1] = seen_first (Suc ?i)" if "?i < 64"
  proof (cases "?i < 32")
    case True
    then show ?thesis by (simp add: seen_first_def mask_next [simplified])
  next
    case False
    then have "?i div 32 = 1" "?i mod 32 = ?i - 32" "Suc ?i - 32 = Suc (?i - 32)" using that second_word [of ?i] by auto
    then show ?thesis using False by (simp add: seen_first_def mask_next [simplified] mask_all)
  qed
  moreover have "seen_first ?i = seen_first (Suc ?i)" if "\<not> ?i < 64" using that by (simp add: seen_first_def mask_all)
  ultimately show ?thesis using assms i
    by (auto simp: mark_required_def Let_def PB_MAX_REQUIRED_FIELDS_def required_before_Suc)
qed

lemma last_required_at:
  assumes d: "described fs (layout fs)" and k: "k < length fs"
  shows "last_required (field_iter fs dest k)
    = (required_before fs (length fs - 1), ptype (fs ! (length fs - 1)), field_iter fs dest 0)"
  using k
proof (induction "length fs - k" arbitrary: k)
  case (Suc n)
  show ?case
  proof (cases "Suc k = length fs")
    case True
    then have "length fs - 1 = k" by simp
    then show ?thesis using next_wraps [OF d True, of "int dest"] Suc.prems
      by (simp add: last_required.simps [of "field_iter fs dest k"]) (simp add: at_field_def required_before_def)
  next
    case False
    then have "Suc k < length fs" "n = length fs - Suc k" using Suc by simp_all
    then show ?thesis using Suc.hyps(1) [of "Suc k"] next_at_field [OF d, of k "int dest"]
      by (simp add: last_required.simps [of "field_iter fs dest k"])
  qed
qed simp

lemma all_required_seen:
  assumes d: "described fs (layout fs)" and it: "on_fields fs dest it"
  shows "all_seen (required_count it) (seen_first (required_before fs (length fs)))"
proof (cases "fs = []")
  case True
  then have i: "it = snd (pb_field_iter_begin [] (int dest))" using it by (simp add: on_fields_def)
  have "last_required it = (0, 0, it)" unfolding i
    by (subst last_required.simps) (simp add: empty_iter pb_field_iter_next_def iter_pos_def field_at_def PB_LAST_FIELD_def)
  then have "required_count it = 0"
    by (simp add: required_count_def i empty_iter iter_pos_def field_at_def PB_LAST_FIELD_def)
  then show ?thesis by (simp add: all_seen_def)
next
  case False
  then obtain k where k: "k < length fs" "it = field_iter fs dest k" using it by (auto simp: on_fields_def)
  let ?n = "required_before fs (length fs)"
  have l: "Suc (length fs - 1) = length fs" using False by (cases fs) simp_all
  have t: "tag (fs ! 0) \<noteq> 0" using d False by (simp add: described_def)
  have "?n = required_before fs (length fs - 1) + of_bool (PB_HTYPE (ptype (fs ! (length fs - 1))) = PB_HTYPE_REQUIRED)"
    using required_before_Suc [of "length fs - 1" fs] l False by simp
  then have "required_count it = min ?n 64"
    using False t by (auto simp: required_count_def k(2) last_required_at [OF d k(1)] PB_MAX_REQUIRED_FIELDS_def Let_def)
  moreover have "all_seen (min n 64) (seen_first n)" for n
  proof -
    have drop: "drop_bit (32 - r) (- 1) = (mask r :: u32)" if "r \<le> 32" for r
      by (rule bit_word_eqI) (use that in \<open>auto simp: bit_simps\<close>)
    consider "n < 32" | "32 \<le> n" "n < 64" | "64 \<le> n" by linarith
    then show ?thesis
    proof cases
      case 1
      then show ?thesis by (simp add: all_seen_def seen_first_def drop)
    next
      case 2
      then have "n div 32 = 1" "n mod 32 = n - 32" using second_word [of n] by auto
      then show ?thesis using 2 by (simp add: all_seen_def seen_first_def drop mask_all)
    next
      case 3
      then show ?thesis by (simp add: all_seen_def seen_first_def mask_all numeral_2_eq_2)
    qed
  qed
  ultimately show ?thesis by simp
qed

section \<open>One tag\<close>

lemma find_tag:
  assumes s: "safe_message sz fs" and d: "separate fs" and k: "k < length fs" and it: "on_fields fs dest it"
  shows "pb_field_iter_find (tag (fs ! k)) it = Some (True, field_iter fs dest k)"
proof -
  have "fs \<noteq> []" using k by auto
  with it obtain i where i: "i < length fs" "it = field_iter fs dest i" by (auto simp: on_fields_def)
  let ?P = "\<lambda>j. field_matches (tag (fs ! k)) (fs ! j)"
  have m: "?P k" using plain_static(2) [OF data_place(1) [OF s k]] by (simp add: field_matches_def)
  have "k \<in> set (search_order (length fs) i)" using k i(1) by (auto simp: search_order_def)
  with m obtain j where j: "List.find ?P (search_order (length fs) i) = Some j" by (metis find_None_iff option.exhaust)
  then have "j \<in> set (search_order (length fs) i)" "?P j" by (auto simp: find_Some_iff)
  then have "j = k" using separate_tags [OF d _ k] i(1) by (auto simp: search_order_def field_matches_def)
  then show ?thesis using find_searches [OF safe_described [OF s] i(1), of "tag (fs ! k)" "int dest"] i(2) j
    by (simp add: find_result_def)
qed

lemma decode_field_static:
  assumes s: "safe_message sz fs" and k: "k < length fs"
    and u: "PB_HTYPE (ptype (fs ! k)) = PB_HTYPE_ONEOF \<Longrightarrow> load_size m (size_addr (fs ! k) (dest + layout fs ! k)) = 0"
  shows "decode_field E dec wt (field_iter fs dest k) (m, st)
    = map_option (\<lambda>(ok, st). (ok, field_iter fs dest k, st)) (decode_static_field E dec wt (field_iter fs dest k) (m, st))"
  using k u plain_static(1) [OF data_place(1) [OF s k]]
  by (simp add: decode_field_def pb_release_union_field_def Let_def)

context byte_source
begin

lemma loop_step:
  assumes s: "safe_message sz fs" and d: "separate fs" and k: "k < length fs" and it: "on_fields fs dest (cur L)"
    and u: "PB_HTYPE (ptype (fs ! k)) = PB_HTYPE_ONEOF \<Longrightarrow> load_size m (size_addr (fs ! k) (dest + layout fs ! k)) = 0"
    and p: "puts f rest A (decode_static_field E dec wt (field_iter fs dest k)) m bs post" and wt: "wt < 8"
    and st: "source_ready f rest st" "stream_bytes rest st = varint (8 * tag (fs ! k) + wt) @ bs @ r"
  obtains m' st' where "decode_loop E dec slot L (m, st) = decode_loop E dec slot (mark_required (L\<lparr>cur := field_iter fs dest k\<rparr>)) (m', st')"
    and "advanced f rest st (length (varint (8 * tag (fs ! k) + wt) @ bs)) st'" and "source_ready f rest st'" and "stream_bytes rest st' = r"
    and "changes A m m'" and "post m'"
proof -
  let ?t = "of_nat (tag (fs ! k)) :: u32" and ?L = "L\<lparr>cur := field_iter fs dest k\<rparr>"
  have t: "unat ?t = tag (fs ! k)" "0 < tag (fs ! k)" "tag (fs ! k) < 2 ^ 29"
  proof -
    show b: "tag (fs ! k) < 2 ^ 29" using data_place(1) [OF s k] by (simp add: plain_field_def)
    then show "unat ?t = tag (fs ! k)" by (simp only: unat_of_nat) simp
    show "0 < tag (fs ! k)" using safe_field(4) [OF s placed_nth [OF k]] by simp
  qed
  have "decodes f rest next_tag (varint (8 * unat ?t + wt)) (wt, ?t)" by (rule tag_decodes) (use t wt in simp_all)
  from decodesE [OF this st(1), of "bs @ r"] st(2) t(1) obtain st1 where
    T: "next_tag st = (Some (wt, ?t), st1)" "advanced f rest st (length (varint (8 * tag (fs ! k) + wt))) st1"
      "source_ready f rest st1" "stream_bytes rest st1 = bs @ r" by auto
  from T(1) obtain eof where tag: "pb_decode_tag st = (Some (wt, ?t), eof, st1)"
    by (auto simp: next_tag_def split: prod.splits)
  from putsE [OF p T(3,4)] obtain m' st' where
    R: "decode_static_field E dec wt (field_iter fs dest k) (m, st1) = Some (True, m', st')" "advanced f rest st1 (length bs) st'"
      "source_ready f rest st'" "stream_bytes rest st' = r" "changes A m m'" "post m'" by blast
  have "stream_bytes rest st \<noteq> []" using st(2) by simp
  then have ne: "bytes_left st \<noteq> 0" using stream_bytes_length [OF st(1)] by (metis length_0_conv)
  have on: "on_fields fs dest (cur ?L)" using k by (auto simp: on_fields_def)
  have one: "decode_one E dec slot wt ?t L (m, st1) = Some (True, mark_required ?L, m', st')"
    using find_tag [OF s d k it] select_count_plain [OF s on, of slot "(m, st1)"] decode_field_static [OF s k u, where E = E and dec = dec and wt = wt and st = st1] R(1)
    by (simp add: decode_one_def t(1) Let_def)
  have "decode_loop E dec slot L (m, st) = decode_loop E dec slot (mark_required ?L) (m', st')"
    using ne tag one by (simp add: decode_loop.simps [of _ _ _ L])
  moreover have "advanced f rest st (length (varint (8 * tag (fs ! k) + wt) @ bs)) st'" using advanced_trans [OF T(2) R(2)] by simp
  ultimately show thesis using that R by blast
qed

section \<open>One field\<close>

lemma fixed_mark_required [simp]: "fixed (mark_required L) = fixed L"
  by (simp add: mark_required_def Let_def)

text \<open>The locals before field \<open>k\<close>.\<close>

definition ready :: "pb_field list \<Rightarrow> nat \<Rightarrow> nat \<Rightarrow> decode_locals \<Rightarrow> bool" where
  "ready fs dest k L \<longleftrightarrow> on_fields fs dest (cur L) \<and> fixed L = None \<and> fields_seen L = seen_first (required_before fs k)"

lemma ready_mark:
  assumes "ready fs dest k L" and "k < length fs"
  shows "ready fs dest (if PB_HTYPE (ptype (fs ! k)) = PB_HTYPE_REQUIRED then Suc k else k) (mark_required (L\<lparr>cur := field_iter fs dest k\<rparr>))"
  using assms mark_seen [of k fs "L\<lparr>cur := field_iter fs dest k\<rparr>" dest] by (auto simp: ready_def on_fields_def)

lemma ready_Suc:
  "k < length fs \<Longrightarrow> PB_HTYPE (ptype (fs ! k)) \<noteq> PB_HTYPE_REQUIRED \<Longrightarrow> ready fs dest (Suc k) L \<longleftrightarrow> ready fs dest k L"
  by (simp add: ready_def required_before_Suc)

text \<open>The stream has been read past \<open>bs\<close> and the loop goes on.\<close>

definition goes_on where
  "goes_on E dec slot L m st bs r L' m' st' \<longleftrightarrow>
     decode_loop E dec slot L (m, st) = decode_loop E dec slot L' (m', st')
     \<and> advanced f rest st (length bs) st' \<and> source_ready f rest st' \<and> stream_bytes rest st' = r"

lemma goes_on_trans:
  "goes_on E dec slot L m st as (bs @ r) L1 m1 st1 \<Longrightarrow> goes_on E dec slot L1 m1 st1 bs r L2 m2 st2 \<Longrightarrow>
    goes_on E dec slot L m st (as @ bs) r L2 m2 st2"
  unfolding goes_on_def using advanced_trans by fastforce

lemma goes_on_refl: "source_ready f rest st \<Longrightarrow> stream_bytes rest st = r \<Longrightarrow> goes_on E dec slot L m st [] r L m st"
  by (simp add: goes_on_def advanced_refl)

lemma unpacked_steps:
  assumes s: "safe_message sz fs" and d: "separate fs" and k: "k < length fs" and dec: "subs_put fs dec"
    and h: "PB_HTYPE (ptype (fs ! k)) = PB_HTYPE_REPEATED" and ns: "\<not> scalar_type (fs ! k)"
  defines "w \<equiv> \<lambda>c. varint (8 * tag (fs ! k) + wire_type (fs ! k)) @ wire_of (fs ! k) c"
  shows "ready fs dest k L \<Longrightarrow> dest + sz \<le> length m \<Longrightarrow> \<forall>c \<in> set xs. fits_of (fs ! k) c \<Longrightarrow> length (concat (map w xs)) < 2 ^ 32 \<Longrightarrow>
    holds_field m (fs ! k) (dest + layout fs ! k) cs \<Longrightarrow> length cs + length xs \<le> array_size (fs ! k) \<Longrightarrow>
    source_ready f rest st \<Longrightarrow> stream_bytes rest st = concat (map w xs) @ r \<Longrightarrow>
    \<exists>L' m' st'. goes_on E dec slot L m st (concat (map w xs)) r L' m' st' \<and> ready fs dest k L'
      \<and> changes (field_area (fs ! k) (dest + layout fs ! k)) m m' \<and> holds_field m' (fs ! k) (dest + layout fs ! k) (cs @ xs)"
proof (induction xs arbitrary: L m cs st)
  case Nil
  then show ?case using goes_on_refl by fastforce
next
  case (Cons c xs)
  let ?g = "fs ! k" and ?q = "dest + layout fs ! k" and ?A = "field_area (fs ! k) (dest + layout fs ! k)"
  let ?L = "mark_required (L\<lparr>cur := field_iter fs dest k\<rparr>)"
  have "\<not> PB_LTYPE (ptype ?g) \<le> PB_LTYPE_LAST_PACKABLE"
    using data_place(1) [OF s k] by (cases rule: plain_cases) (use ns in \<open>auto simp: is_submessage_def ltype_defs\<close>)
  then have wt: "\<not> (wire_type ?g = PB_WT_STRING \<and> PB_LTYPE (ptype ?g) \<le> PB_LTYPE_LAST_PACKABLE)" by blast
  have c: "fits_of ?g c" "length (wire_of ?g c) < 2 ^ 32" using Cons.prems(3,4) by (simp_all add: w_def)
  have n: "length cs < array_size ?g" using Cons.prems(6) by simp
  note P = unpacked_puts [OF s d k dec h Cons.prems(2) wt c Cons.prems(5) n]
  have it: "on_fields fs dest (cur L)" using Cons.prems(1) by (simp add: ready_def)
  have st: "stream_bytes rest st = varint (8 * tag ?g + wire_type ?g) @ wire_of ?g c @ concat (map w xs) @ r"
    using Cons.prems(8) by (simp add: w_def)
  obtain m1 st1 where
    R: "decode_loop E dec slot L (m, st) = decode_loop E dec slot ?L (m1, st1)"
      "advanced f rest st (length (varint (8 * tag ?g + wire_type ?g) @ wire_of ?g c)) st1"
      "source_ready f rest st1" "stream_bytes rest st1 = concat (map w xs) @ r" "changes ?A m m1" "holds_field m1 ?g ?q (cs @ [c])"
    by (rule loop_step [OF s d k it _ P _ Cons.prems(7) st]) (use h in \<open>simp_all add: htype_defs wire_type_def\<close>)
  have L: "ready fs dest k ?L" using ready_mark [OF Cons.prems(1) k] h by (simp add: htype_defs)
  have "dest + sz \<le> length m1" using Cons.prems(2) changes_length [OF R(5)] by simp
  from Cons.IH [OF L this _ _ R(6) _ R(3,4)] Cons.prems(3,4,6) obtain L' m' st' where
    R2: "goes_on E dec slot ?L m1 st1 (concat (map w xs)) r L' m' st'" "ready fs dest k L'" "changes ?A m1 m'"
      "holds_field m' ?g ?q ((cs @ [c]) @ xs)" by fastforce
  have "goes_on E dec slot L m st (w c) (concat (map w xs) @ r) ?L m1 st1" using R by (simp add: goes_on_def w_def)
  from goes_on_trans [OF this R2(1)] R2(2,4) changes_trans [OF R(5) R2(3)] show ?case by auto
qed

lemma field_steps:
  assumes s: "safe_message sz fs" and d: "separate fs" and k: "k < length fs" and dec: "subs_put fs dec"
    and L: "ready fs dest k L" and l: "dest + sz \<le> length m"
    and fits: "field_fits (message_fits (sub_fields (fs ! k))) (fs ! k) cs"
    and clear: "cs \<noteq> [] \<Longrightarrow> cleared_field (cleared m (sub_fields (fs ! k))) m (fs ! k) (dest + layout fs ! k)"
    and none: "PB_HTYPE (ptype (fs ! k)) \<noteq> PB_HTYPE_REQUIRED \<Longrightarrow> item_count m (fs ! k) (dest + layout fs ! k) = 0"
  defines "fw \<equiv> field_wire (message_wire (sub_fields (fs ! k))) (fs ! k) cs"
  assumes w: "length fw < 2 ^ 32" and st: "source_ready f rest st" "stream_bytes rest st = fw @ r"
  shows "\<exists>L' m' st'. goes_on E dec slot L m st fw r L' m' st' \<and> ready fs dest (Suc k) L'
      \<and> changes (if cs = [] then {} else field_area (fs ! k) (dest + layout fs ! k)) m m'
      \<and> holds_field m' (fs ! k) (dest + layout fs ! k) cs"
proof -
  let ?g = "fs ! k" and ?q = "dest + layout fs ! k" and ?A = "field_area (fs ! k) (dest + layout fs ! k)"
  let ?v = "varint (8 * tag ?g + wire_type ?g)"
  have it: "on_fields fs dest (cur L)" using L by (simp add: ready_def)
  consider (none) "cs = []" | (single) c where "cs = [c]" "PB_HTYPE (ptype ?g) \<noteq> PB_HTYPE_REPEATED"
    | (packed) "cs \<noteq> []" "PB_HTYPE (ptype ?g) = PB_HTYPE_REPEATED" "scalar_type ?g"
    | (unpacked) "cs \<noteq> []" "PB_HTYPE (ptype ?g) = PB_HTYPE_REPEATED" "\<not> scalar_type ?g"
    using fits by (cases cs) (auto simp: field_fits_def split: if_splits)
  then show ?thesis
  proof cases
    case none
    have nr: "PB_HTYPE (ptype ?g) \<noteq> PB_HTYPE_REQUIRED" using fits none by (auto simp: field_fits_def)
    have "fw = []" using none by (simp add: fw_def field_wire_def)
    moreover have "holds_field m ?g ?q []" using assms(9) nr by (simp add: holds_field_def)
    ultimately show ?thesis using none ready_Suc [OF k nr] L goes_on_refl [OF st(1)] st(2) by fastforce
  next
    case single
    have e: "fw = ?v @ wire_of ?g c" using single by (simp add: fw_def field_wire_def packed_def)
    have c: "fits_of ?g c" "length (wire_of ?g c) < 2 ^ 32" using fits w e single(1) by (simp_all add: field_fits_def)
    have df: "PB_HTYPE (ptype ?g) = PB_HTYPE_OPTIONAL \<Longrightarrow> size_offset ?g = 0 \<Longrightarrow> \<not> default_item ?g c"
      using fits single(1) by (simp add: field_fits_def)
    have cl: "cleared_field (cleared m (sub_fields ?g)) m ?g ?q" using clear single by simp
    have u: "PB_HTYPE (ptype ?g) = PB_HTYPE_ONEOF \<Longrightarrow> load_size m (size_addr ?g ?q) = 0"
      using cl by (auto simp: cleared_field_def htype_defs)
    note P = single_puts [OF s d k dec single(2) l c cl df]
    obtain m1 st1 where
      R: "decode_loop E dec slot L (m, st) = decode_loop E dec slot (mark_required (L\<lparr>cur := field_iter fs dest k\<rparr>)) (m1, st1)"
        "advanced f rest st (length (?v @ wire_of ?g c)) st1"
        "source_ready f rest st1" "stream_bytes rest st1 = r" "changes ?A m m1" "holds_field m1 ?g ?q [c]"
      by (rule loop_step [OF s d k it u P _ st(1), of "wire_type ?g" r E slot]) (use st(2) e in \<open>simp_all add: wire_type_def\<close>)
    have "ready fs dest (Suc k) (mark_required (L\<lparr>cur := field_iter fs dest k\<rparr>))"
      using ready_mark [OF L k] ready_Suc [OF k] by (simp split: if_splits)
    then show ?thesis using R single(1) e by (auto simp: goes_on_def)
  next
    case packed
    let ?w = "concat (map (wire_of ?g) cs)"
    have wt: "8 * tag ?g + 2 = 8 * tag ?g + 2" ..
    have e: "fw = varint (8 * tag ?g + 2) @ with_length ?w" using packed by (simp add: fw_def field_wire_def packed_def)
    have c: "\<forall>c \<in> set cs. fits_of ?g c" "length ?w < 2 ^ 32" "length cs \<le> array_size ?g"
      using fits w e packed(2) by (simp_all add: field_fits_def with_length_def htype_defs)
    have z: "holds_field m ?g ?q []" using assms(9) packed(2) by (simp add: holds_field_def htype_defs)
    note P = packed_field_puts [OF s d k dec packed(2,3) l c(1,2) z c(3)]
    obtain m1 st1 where
      R: "decode_loop E dec slot L (m, st) = decode_loop E dec slot (mark_required (L\<lparr>cur := field_iter fs dest k\<rparr>)) (m1, st1)"
        "advanced f rest st (length (varint (8 * tag ?g + 2) @ with_length ?w)) st1"
        "source_ready f rest st1" "stream_bytes rest st1 = r" "changes ?A m m1" "holds_field m1 ?g ?q cs"
      by (rule loop_step [OF s d k it _ P _ st(1), of r E slot]) (use st(2) e packed(2) in \<open>simp_all add: htype_defs\<close>)
    have "ready fs dest (Suc k) (mark_required (L\<lparr>cur := field_iter fs dest k\<rparr>))"
      using ready_mark [OF L k] ready_Suc [OF k] by (simp split: if_splits)
    then show ?thesis using R packed(1) e by (auto simp: goes_on_def)
  next
    case unpacked
    let ?w = "\<lambda>c. ?v @ wire_of ?g c"
    have e: "fw = concat (map ?w cs)" using unpacked by (simp add: fw_def field_wire_def packed_def)
    have c: "\<forall>c \<in> set cs. fits_of ?g c" "length [] + length cs \<le> array_size ?g"
      using fits unpacked(2) by (simp_all add: field_fits_def htype_defs)
    have z: "holds_field m ?g ?q []" using assms(9) unpacked(2) by (simp add: holds_field_def htype_defs)
    have nr: "PB_HTYPE (ptype ?g) \<noteq> PB_HTYPE_REQUIRED" using unpacked(2) by (simp add: htype_defs)
    from unpacked_steps [OF s d k dec unpacked(2,3) L l c(1) _ z c(2) st(1), of r E slot] w st(2) e
    show ?thesis using ready_Suc [OF k nr] unpacked(1) by auto
  qed
qed

end

end
