(* ===== verification/PbRoundTrip.thy ===== *)
theory PbRoundTrip
  imports PbRound
begin

text \<open>The decoder restores the message that the encoder wrote.\<close>

section \<open>All fields\<close>

lemma changes_nothing: "changes {} m m' \<Longrightarrow> m' = m"
  by (simp add: changes_def nth_equalityI)

lemma cleared_none:
  assumes "cleared_field sub m g q" and "PB_HTYPE (ptype g) \<noteq> PB_HTYPE_REQUIRED" and "tag g \<noteq> 0"
  shows "item_count m g q = 0"
  using assms by (auto simp: cleared_field_def item_count_def)

text \<open>A field that is still to come: it is cleared, or left out and without items.\<close>

definition awaits :: "memory \<Rightarrow> pb_field \<Rightarrow> nat \<Rightarrow> pb_item list \<Rightarrow> bool" where
  "awaits m g q cs \<longleftrightarrow>
     (cs \<noteq> [] \<longrightarrow> cleared_field (cleared m (sub_fields g)) m g q)
     \<and> (PB_HTYPE (ptype g) \<noteq> PB_HTYPE_REQUIRED \<longrightarrow> item_count m g q = 0)"

lemma awaits_frame:
  assumes s: "safe_message sz fs" and d: "separate fs" and j: "j < length fs" and c: "changes S m m'"
    and a: "field_area (fs ! j) (dest + layout fs ! j) \<inter> S = {}" and w: "awaits m (fs ! j) (dest + layout fs ! j) cs"
  shows "awaits m' (fs ! j) (dest + layout fs ! j) cs"
proof -
  note p = data_place(1) [OF s j] and b = separateD(1) [OF d j] and r = safe_repeated [OF s j]
  have sub: "cleared m' (sub_fields (fs ! j)) (dest + layout fs ! j)"
    if "is_submessage (fs ! j)" "{dest + layout fs ! j..<dest + layout fs ! j + data_size (fs ! j)} \<inter> S = {}"
      "cleared m (sub_fields (fs ! j)) (dest + layout fs ! j)"
    using cleared_frame [OF safe_sub [OF s j that(1)] separateD(3) [OF d j that(1)] c that(2,3)] .
  have "item_count m' (fs ! j) (dest + layout fs ! j) = item_count m (fs ! j) (dest + layout fs ! j)"
    by (rule count_frame(1) [OF p c a b r])
  moreover have "cleared_field (cleared m' (sub_fields (fs ! j))) m' (fs ! j) (dest + layout fs ! j)" if "cs \<noteq> []"
    by (rule cleared_field_frame [where sub = "cleared m (sub_fields (fs ! j))" and sub' = "cleared m' (sub_fields (fs ! j))", OF p c a b r _ sub])
      (use w that in \<open>simp_all add: awaits_def\<close>)
  ultimately show ?thesis using w by (simp add: awaits_def)
qed

lemma held_frame:
  assumes s: "safe_message sz fs" and d: "separate fs" and j: "j < length fs" and c: "changes S m m'"
    and a: "field_area (fs ! j) (dest + layout fs ! j) \<inter> S = {}" and h: "holds_field m (fs ! j) (dest + layout fs ! j) cs"
  shows "holds_field m' (fs ! j) (dest + layout fs ! j) cs"
proof (rule field_frame [OF data_place(1) [OF s j] c a h separateD(1) [OF d j] safe_repeated [OF s j]])
  fix q css
  assume x: "is_submessage (fs ! j)" and q: "{q..<q + data_size (fs ! j)} \<inter> S = {}" and "holds m (sub_fields (fs ! j)) q css"
  then show "holds m' (sub_fields (fs ! j)) q css" using holds_frame [OF safe_sub [OF s j x] separateD(3) [OF d j x] c q] by blast
qed

text \<open>The other members of a union are gone after one of them has been stored.\<close>

lemma joint_gone:
  assumes d: "separate fs" and k: "k < length fs" and j: "j < length fs" "j \<noteq> k"
    and u: "joint (fs ! j, layout fs ! j) (fs ! k, layout fs ! k)"
    and h: "holds_field m (fs ! k) (dest + layout fs ! k) cs" and ne: "cs \<noteq> []"
  shows "item_count m (fs ! j) (dest + layout fs ! j) = 0"
proof -
  have "item_count m (fs ! k) (dest + layout fs ! k) \<noteq> 0" using h ne by (simp add: holds_field_def)
  then have "load_size m (size_addr (fs ! k) (dest + layout fs ! k)) = tag (fs ! k)"
    using u by (auto simp: joint_def item_count_def htype_defs split: if_splits)
  moreover have "tag (fs ! k) \<noteq> tag (fs ! j)" using separate_tags [OF d k j(1)] j(2) by auto
  ultimately show ?thesis using u by (auto simp: joint_def item_count_def size_addr_def htype_defs)
qed

context byte_source
begin

lemma message_puts:
  assumes s: "safe_message sz fs" and d: "separate fs" and dec: "subs_put fs dec" and l: "dest + sz \<le> length m"
    and c: "cleared m fs dest" and fits: "message_fits fs css" and w: "length (message_wire fs css) < 2 ^ 32"
  shows "puts_all f rest {dest..<dest + sz} (decode_noinit E dec slot fs dest) m (message_wire fs css) (\<lambda>m'. holds m' fs dest css)"
  unfolding puts_all_def
proof (intro allI impI, elim conjE)
  fix st assume st: "source_ready f rest st" "stream_bytes rest st = message_wire fs css"
  let ?fw = "\<lambda>k. field_wire (message_wire (sub_fields (fs ! k))) (fs ! k) (css ! k)"
  let ?q = "\<lambda>k. dest + layout fs ! k"
  let ?L0 = "\<lparr>cur = snd (pb_field_iter_begin fs (int dest)), fields_seen = [0, 0], extension_range_start = 0, fixed = None\<rparr>"
  have len: "length css = length fs" using fits unfolding message_fits.simps [of fs] by blast
  have wire: "message_wire fs css = concat (map ?fw [0..<length fs])"
  proof -
    have "zip fs css = map (\<lambda>k. (fs ! k, css ! k)) [0..<length fs]" using len by (intro nth_equalityI) simp_all
    then show ?thesis by (simp add: message_wire.simps [of fs] comp_def)
  qed
  have split: "message_wire fs css = concat (map ?fw [0..<k]) @ concat (map ?fw [k..<length fs])" if "k \<le> length fs" for k
  proof -
    have "[0..<length fs] = [0..<k] @ [k..<length fs]" using that upt_add_eq_append [of 0 k "length fs - k"] by simp
    then show ?thesis by (simp add: wire)
  qed
  have "\<exists>L m' st'. goes_on E dec slot ?L0 m st (concat (map ?fw [0..<k])) (concat (map ?fw [k..<length fs])) L m' st'
      \<and> ready fs dest k L \<and> changes {dest..<dest + sz} m m'
      \<and> (\<forall>j < k. holds_field m' (fs ! j) (?q j) (css ! j)) \<and> (\<forall>j < length fs. k \<le> j \<longrightarrow> awaits m' (fs ! j) (?q j) (css ! j))"
    if "k \<le> length fs" for k
    using that
  proof (induction k)
    case 0
    have "ready fs dest 0 ?L0"
      using begin_on_fields [OF safe_described [OF s], of dest] by (simp add: ready_def seen_first_def required_before_def)
    moreover have "awaits m (fs ! j) (?q j) (css ! j)" if "j < length fs" for j
      using c that cleared_none safe_field(4) [OF s placed_nth [OF that]] by (auto simp: awaits_def cleared_fields [of _ fs])
    moreover have "goes_on E dec slot ?L0 m st [] (concat (map ?fw [0..<length fs])) ?L0 m st"
      by (rule goes_on_refl) (use st wire in simp_all)
    ultimately show ?case by (intro exI [of _ ?L0] exI [of _ m] exI [of _ st]) simp
  next
    case (Suc k)
    then have k: "k < length fs" by simp
    from Suc.IH k obtain L m1 st1 where
      G: "goes_on E dec slot ?L0 m st (concat (map ?fw [0..<k])) (concat (map ?fw [k..<length fs])) L m1 st1"
        "ready fs dest k L" "changes {dest..<dest + sz} m m1"
      and H: "\<And>j. j < k \<Longrightarrow> holds_field m1 (fs ! j) (?q j) (css ! j)"
      and W: "\<And>j. j < length fs \<Longrightarrow> k \<le> j \<Longrightarrow> awaits m1 (fs ! j) (?q j) (css ! j)" by auto
    have u: "[k..<length fs] = k # [Suc k..<length fs]" using k by (simp add: upt_conv_Cons)
    have st1: "source_ready f rest st1" "stream_bytes rest st1 = ?fw k @ concat (map ?fw [Suc k..<length fs])"
      using G(1) u by (simp_all add: goes_on_def)
    have fw: "length (?fw k) < 2 ^ 32" using w split [of k] k u by simp
    have l1: "dest + sz \<le> length m1" using l changes_length [OF G(3)] by simp
    have "css ! k \<noteq> [] \<Longrightarrow> cleared_field (cleared m1 (sub_fields (fs ! k))) m1 (fs ! k) (?q k)"
      "PB_HTYPE (ptype (fs ! k)) \<noteq> PB_HTYPE_REQUIRED \<Longrightarrow> item_count m1 (fs ! k) (?q k) = 0"
      using W [OF k order_refl] by (simp_all add: awaits_def)
    from field_steps [OF s d k dec G(2) l1 fits_field [OF fits k] this fw st1, of E slot] obtain L2 m2 st2 where
      R: "goes_on E dec slot L m1 st1 (?fw k) (concat (map ?fw [Suc k..<length fs])) L2 m2 st2" "ready fs dest (Suc k) L2"
        "changes (if css ! k = [] then {} else field_area (fs ! k) (?q k)) m1 m2" "holds_field m2 (fs ! k) (?q k) (css ! k)"
      by blast
    let ?S = "if css ! k = [] then {} else field_area (fs ! k) (?q k)"
    have other: "field_area (fs ! j) (?q j) \<inter> ?S = {}
        \<or> css ! j = [] \<and> css ! k \<noteq> [] \<and> joint (fs ! j, layout fs ! j) (fs ! k, layout fs ! k)" if j: "j < length fs" "j \<noteq> k" for j
    proof (cases "joint (fs ! j, layout fs ! j) (fs ! k, layout fs ! k)")
      case True
      then have "css ! j = [] \<or> css ! k = []" using fits j k unfolding message_fits.simps [of fs] by blast
      then show ?thesis using True by auto
    next
      case False
      then show ?thesis using areas_apart [OF s d j(1) k j(2)] by auto
    qed
    have gone: "item_count m2 (fs ! j) (?q j) = 0"
      if "j < length fs" "j \<noteq> k" "css ! k \<noteq> []" "joint (fs ! j, layout fs ! j) (fs ! k, layout fs ! k)" for j
      by (rule joint_gone [OF d k that(1,2,4) R(4) that(3)])
    have "holds_field m2 (fs ! j) (?q j) (css ! j)" if j: "j < Suc k" for j
    proof (cases "j = k")
      case False
      then have j': "j < k" "j < length fs" using j k by simp_all
      show ?thesis using other [OF j'(2) False] held_frame [OF s d j'(2) R(3) _ H [OF j'(1)]] gone [OF j'(2) False]
        by (auto simp: holds_field_def)
    qed (use R(4) in simp)
    moreover have "awaits m2 (fs ! j) (?q j) (css ! j)" if j: "j < length fs" "Suc k \<le> j" for j
      using other [OF j(1)] j awaits_frame [OF s d j(1) R(3) _ W [OF j(1)]] gone [OF j(1)] by (auto simp: awaits_def)
    moreover have "changes {dest..<dest + sz} m m2"
      using changes_trans [OF G(3) changes_mono [OF R(3)]] area_inside [OF s k] by (auto split: if_splits)
    moreover have "goes_on E dec slot ?L0 m st (concat (map ?fw [0..<Suc k])) (concat (map ?fw [Suc k..<length fs])) L2 m2 st2"
      using goes_on_trans [OF _ R(1)] G(1) u by simp
    ultimately show ?case using R(2) by blast
  qed
  from this [OF order_refl] obtain L m' st' where
    G: "goes_on E dec slot ?L0 m st (message_wire fs css) [] L m' st'" "ready fs dest (length fs) L" "changes {dest..<dest + sz} m m'"
      "\<forall>j < length fs. holds_field m' (fs ! j) (?q j) (css ! j)" by (auto simp: wire)
  have "bytes_left st' = 0" using G(1) stream_bytes_length [of f rest st'] by (simp add: goes_on_def)
  then have "decode_loop E dec slot ?L0 (m, st) = Some (True, L, m', st')"
    using G(1) by (simp add: goes_on_def decode_loop.simps [of _ _ _ L])
  then have "decode_noinit E dec slot fs dest (m, st) = Some (True, m', st')"
    using G(2) all_required_seen [OF safe_described [OF s], of dest "cur L"] by (simp add: decode_noinit_def ready_def)
  moreover have "holds m' fs dest css" using G(4) len by (simp add: holds_fields)
  ultimately show "\<exists>m' st'. decode_noinit E dec slot fs dest (m, st) = Some (True, m', st')
      \<and> advanced f rest st (length (message_wire fs css)) st' \<and> changes {dest..<dest + sz} m m' \<and> holds m' fs dest css"
    using G(1,3) by (auto simp: goes_on_def)
qed

section \<open>Nested messages\<close>

lemma init_puts:
  assumes s: "safe_message sz fs" and d: "separate fs" and l: "dest + sz \<le> length m"
    and p: "\<And>m. dest + sz \<le> length m \<Longrightarrow> cleared m fs dest \<Longrightarrow> puts_all f rest {dest..<dest + sz} (noinit fs dest) m bs post"
  shows "puts_all f rest {dest..<dest + sz} (decode_init E noinit fs dest) m bs post"
proof -
  let ?m = "pb_message_set_to_defaults E fs dest m"
  have o: "outside_same dest sz m ?m" by (rule defaults_inside [OF s l])
  have "dest + sz \<le> length ?m" using l outside_same_length [OF o] by simp
  note P = p [OF this defaults_clears [OF s d l]]
  have e: "decode_init E noinit fs dest (m, st) = noinit fs dest (?m, st)" for st
    by (simp add: decode_init_def release_id [OF s] split: option.split prod.split)
  show ?thesis using P changes_trans [OF outside_changes [OF o]] unfolding puts_all_def e by blast
qed

lemma decode_at_puts:
  "safe_message sz fs \<Longrightarrow> separate fs \<Longrightarrow> message_depth fs \<le> d \<Longrightarrow> dest + sz \<le> length m \<Longrightarrow> cleared m fs dest \<Longrightarrow>
    message_fits fs css \<Longrightarrow> length (message_wire fs css) < 2 ^ 32 \<Longrightarrow>
    puts_all f rest {dest..<dest + sz} (decode_at E d fs dest) m (message_wire fs css) (\<lambda>m'. holds m' fs dest css)"
proof (induction d arbitrary: sz fs dest m css)
  case 0
  have "\<not> is_submessage g" if "g \<in> set fs" for g
    using safe_depth [OF 0(1) _ _ 0(3)] that by (metis in_set_conv_nth Zero_not_Suc)
  then have "subs_put fs (\<lambda>_ _ _ _. None)" by (simp add: subs_put_def)
  from message_puts [OF 0(1,2) this 0(4-7)] show ?case by simp
next
  case (Suc d)
  have "subs_put fs (\<lambda>init fs. if init then decode_init E (decode_at E d) fs else decode_at E d fs)"
    unfolding subs_put_def
  proof (intro ballI impI allI)
    fix g init q and m :: memory and css'
    assume "g \<in> set fs" and g: "is_submessage g" and l: "q + data_size g \<le> length m" and c: "\<not> init \<longrightarrow> cleared m (sub_fields g) q"
      and fits: "message_fits (sub_fields g) css'" and w: "length (message_wire (sub_fields g) css') < 2 ^ 32"
    then obtain k where k: "k < length fs" "fs ! k = g" by (auto simp: in_set_conv_nth)
    from safe_depth [OF Suc.prems(1) k(1) _ Suc.prems(3)] g k have dp: "message_depth (sub_fields g) \<le> d" by auto
    have s: "safe_message (data_size g) (sub_fields g)" using safe_sub [OF Suc.prems(1) k(1)] g k(2) by simp
    have d: "separate (sub_fields g)" using separateD(3) [OF Suc.prems(2) k(1)] g k(2) by simp
    have P: "puts_all f rest {q..<q + data_size g} (decode_at E d (sub_fields g) q) m (message_wire (sub_fields g) css')
        (\<lambda>m'. holds m' (sub_fields g) q css')" if "q + data_size g \<le> length m" "cleared m (sub_fields g) q" for m
      by (rule Suc.IH [OF s d dp that fits w])
    show "puts_all f rest {q..<q + data_size g}
        ((if init then decode_init E (decode_at E d) (sub_fields g) else decode_at E d (sub_fields g)) q) m
        (message_wire (sub_fields g) css') (\<lambda>m'. holds m' (sub_fields g) q css')"
      using P [OF l] c init_puts [where noinit = "decode_at E d", OF s d l P] by simp
  qed
  from message_puts [OF Suc.prems(1,2) this Suc.prems(4-7)] show ?case by simp
qed

lemma decode_puts:
  assumes "safe_message sz fs" and "separate fs" and "dest + sz \<le> length m" and "message_fits fs css"
    and "length (message_wire fs css) < 2 ^ 32"
  shows "puts_all f rest {dest..<dest + sz} (pb_decode E fs dest) m (message_wire fs css) (\<lambda>m'. holds m' fs dest css)"
  unfolding pb_decode_def
  by (rule init_puts [OF assms(1-3)]) (simp add: pb_decode_noinit_def decode_at_puts [OF assms(1,2) order_refl _ _ assms(4,5)])

end

section \<open>Property\<close>


text \<open>
  A message with a string, an optional submessage of one required number, and at most four numbers, in
  a structure at address 8.
\<close>

definition chat_sub :: "pb_field list" where
  "chat_sub = [Field 1 0x01 0 0 4 0 Null_ptr]"

definition chat_fields :: "pb_field list" where
  "chat_fields =
     [Field 1 0x16 0 0 8 0 Null_ptr,
      Field 2 0x17 4 (-4) 4 0 (Submsg_fields chat_sub),
      Field 3 0x21 4 (-4) 4 4 Null_ptr]"

definition chat_memory :: memory where
  "chat_memory = replicate 8 0 @ [104, 105, 0, 7, 7, 7, 7, 7] @ [1, 0, 0, 0] @ [9, 0, 0, 0] @ [2, 0, 0, 0]
     @ [5, 0, 0, 0] @ [6, 0, 0, 0] @ replicate 8 0"

lemma chat_layout: "layout chat_sub = [0]" "layout chat_fields = [0, 12, 20]"
  "map member_size chat_sub = [4]" "map member_size chat_fields = [8, 4, 16]"
  by code_simp+

lemma chat_described: "described chat_sub [0]" "described chat_fields [0, 12, 20]"
proof -
  have "\<not> union_next (chat_fields ! 0) (chat_fields ! 1)" "\<not> union_next (chat_fields ! 1) (chat_fields ! 2)" by code_simp+
  then show "described chat_fields [0, 12, 20]"
    using chat_layout(4) by (auto simp: described_def chat_fields_def less_Suc_eq nth_Cons')
  show "described chat_sub [0]" using chat_layout(3) by (auto simp: described_def chat_sub_def)
qed

lemma chat_types:
  "\<forall>f \<in> set (chat_sub @ chat_fields). PB_ATYPE (ptype f) = PB_ATYPE_STATIC
     \<and> (scalar_type f \<or> PB_LTYPE (ptype f) = PB_LTYPE_STRING \<or> is_submessage f)
     \<and> (PB_LTYPE (ptype f) = PB_LTYPE_STRING \<longrightarrow> 0 < data_size f)
     \<and> (PB_HTYPE (ptype f) \<notin> {PB_HTYPE_REQUIRED, PB_HTYPE_OPTIONAL, PB_HTYPE_REPEATED} \<longrightarrow> size_offset f \<noteq> 0)
     \<and> (PB_HTYPE (ptype f) = PB_HTYPE_OPTIONAL \<and> is_submessage f \<longrightarrow> size_offset f \<noteq> 0)
     \<and> PB_LTYPE (ptype f) \<noteq> PB_LTYPE_BYTES
     \<and> (PB_HTYPE (ptype f) = PB_HTYPE_OPTIONAL \<and> size_offset f = 0 \<longrightarrow> PB_LTYPE (ptype f) \<noteq> PB_LTYPE_FIXED_LENGTH_BYTES)"
  by code_simp

lemma chat_inside:
  "\<forall>(f, off) \<in> set (placed chat_sub). off + member_size f \<le> 4 \<and> sized_inside 4 f off"
  "\<forall>(f, off) \<in> set (placed chat_fields). off + member_size f \<le> 36 \<and> sized_inside 36 f off"
  by code_simp+

lemma chat_submessages: "map is_submessage chat_fields = [False, True, False]" "map is_submessage chat_sub = [False]"
  by code_simp+

lemma chat_sub_fields: "f \<in> set chat_fields \<Longrightarrow> is_submessage f \<Longrightarrow> sub_fields f = chat_sub \<and> data_size f = 4"
  using chat_submessages(1) by (auto simp: chat_fields_def sub_fields_def)

lemma chat_plain: "\<forall>f \<in> set (chat_sub @ chat_fields). plain_field f"
proof
  fix f assume f: "f \<in> set (chat_sub @ chat_fields)"
  have "tag f < 2 ^ 29" using f by (auto simp: chat_sub_def chat_fields_def)
  moreover have "\<exists>fs. ptr f = Submsg_fields fs" if "is_submessage f"
    using that f chat_submessages by (auto simp: chat_sub_def chat_fields_def)
  ultimately show "plain_field f" using bspec [OF chat_types f] unfolding plain_field_def by blast
qed

lemma chat_safe: "safe_message 36 chat_fields"
proof -
  have ns: "\<not> is_submessage f" if "f \<in> set chat_sub" for f using that chat_submessages(2) by (simp add: chat_sub_def)
  have "plain_message 4 chat_sub" unfolding plain_message.simps [of 4 chat_sub] chat_layout(1)
    using chat_described(1) chat_inside(1) chat_plain ns by fastforce
  then have s: "plain_message 4 chat_sub" "safe_message 4 chat_sub"
    unfolding safe_message.simps [of 4 chat_sub] using chat_inside(1) ns by fastforce+
  have "plain_message 36 chat_fields" unfolding plain_message.simps [of 36 chat_fields] chat_layout(2)
  proof (intro conjI ballI impI)
    show "described chat_fields [0, 12, 20]" by (rule chat_described)
    show "plain_field f" if "f \<in> set chat_fields" for f using that chat_plain by simp
    show "plain_message (data_size f) (sub_fields f)" if "f \<in> set chat_fields" "is_submessage f" for f
      using chat_sub_fields [OF that] s(1) by simp
    show "case x of (f, off) \<Rightarrow> off + member_size f \<le> 36" if "x \<in> set (placed chat_fields)" for x
      using bspec [OF chat_inside(2) that] by (auto split: prod.splits)
  qed
  moreover have "\<forall>(f, off) \<in> set (placed chat_fields). sized_inside 36 f off" using chat_inside(2) by blast
  ultimately show ?thesis unfolding safe_message.simps [of 36 chat_fields] using chat_sub_fields s(2) by simp
qed

lemma chat_areas:
  "field_area (chat_fields ! 0) 0 = {0..<8}" "field_area (chat_fields ! 1) 12 = {12..<16} \<union> {8..<9}"
  "field_area (chat_fields ! 2) 20 = {20..<36} \<union> {16..<20}"
proof -
  have "map has_size chat_fields = [False, True, True]" "map size_bytes chat_fields = [1, 1, 4]"
    "map2 size_addr chat_fields [0, 12, 20] = [0, 8, 16]" by code_simp+
  then show "field_area (chat_fields ! 0) 0 = {0..<8}" "field_area (chat_fields ! 1) 12 = {12..<16} \<union> {8..<9}"
    "field_area (chat_fields ! 2) 20 = {20..<36} \<union> {16..<20}"
    using chat_layout(4) by (auto simp: field_area_def chat_fields_def)
qed

lemma chat_separate: "separate chat_fields"
proof -
  have t: "\<forall>f \<in> set (chat_sub @ chat_fields). PB_LTYPE (ptype f) \<noteq> PB_LTYPE_BYTES \<and> array_size f < 2 ^ 32
      \<and> (PB_HTYPE (ptype f) = PB_HTYPE_OPTIONAL \<and> size_offset f = 0 \<longrightarrow> ptr f = Null_ptr \<and> PB_LTYPE (ptype f) \<noteq> PB_LTYPE_FIXED_LENGTH_BYTES)"
    using chat_types by (auto simp: chat_sub_def chat_fields_def)
  have "separate chat_sub" unfolding separate.simps [of chat_sub] using t chat_submessages(2)
    by (auto simp: chat_sub_def)
  then have m: "\<forall>f \<in> set chat_fields. is_submessage f \<longrightarrow> separate (sub_fields f)" using chat_sub_fields by simp
  have "length chat_fields = 3" by (simp add: chat_fields_def)
  then have "field_area (chat_fields ! i) (layout chat_fields ! i) \<inter> field_area (chat_fields ! j) (layout chat_fields ! j) = {}"
    if "i < length chat_fields" "j < length chat_fields" "i \<noteq> j" for i j
    using that chat_areas [unfolded numeral_2_eq_2] chat_layout(2) by (auto simp: less_Suc_eq numeral_3_eq_3)
  then show ?thesis unfolding separate.simps [of chat_fields] using t m by (simp add: chat_fields_def)
qed

lemma chat_items:
  "message_at chat_memory chat_fields 8 = [[Raw [104, 105]], [Sub [[Raw [9, 0, 0, 0]]]], [Raw [5, 0, 0, 0], Raw [6, 0, 0, 0]]]"
  by code_simp

lemma chat_ok: "message_ok chat_memory chat_fields 8"
  by code_simp

lemma chat_fits: "message_fits chat_fields [[Raw [104, 105]], [Sub [[Raw [9, 0, 0, 0]]]], [Raw [5, 0, 0, 0], Raw [6, 0, 0, 0]]]"
proof -
  have n: "PB_HTYPE (ptype (fs ! i)) \<noteq> PB_HTYPE_ONEOF" if "fs = chat_sub \<or> fs = chat_fields" "i < length fs" for fs i
  proof -
    have "\<forall>f \<in> set (chat_sub @ chat_fields). PB_HTYPE (ptype f) \<noteq> PB_HTYPE_ONEOF" by code_simp
    with that show ?thesis by (auto dest: nth_mem)
  qed
  have "message_fits chat_sub [[Raw [9, 0, 0, 0]]]"
    unfolding message_fits.simps [of chat_sub] using n [of chat_sub] chat_submessages(2)
    by (simp add: joint_def) (simp add: chat_sub_def field_fits_def item_fits_def PB_HTYPE_def PB_LTYPE_def htype_defs ltype_defs)
  then show ?thesis
    unfolding message_fits.simps [of chat_fields] using n [of chat_fields] chat_submessages(1)
    by (simp add: joint_def) (simp add: chat_fields_def field_fits_def item_fits_def default_item_def scalar_type_def packable_width_def sub_fields_def PB_HTYPE_def PB_LTYPE_def htype_defs ltype_defs)
qed

lemma chat_wire:
  "message_wire chat_fields [[Raw [104, 105]], [Sub [[Raw [9, 0, 0, 0]]]], [Raw [5, 0, 0, 0], Raw [6, 0, 0, 0]]]
   = [10, 2, 104, 105, 18, 2, 8, 9, 26, 2, 5, 6]"
proof -
  have [simp]: "le_val [] = 0" by (simp add: le_val_def be_val_def)
  note simps = field_wire_def packed_def scalar_type_def packable_width_def item_wire_def sub_fields_def
        with_length_def scalar_wire_def wire_type_def le_val_Cons varint_small PB_HTYPE_def PB_LTYPE_def htype_defs ltype_defs
  have "message_wire chat_sub [[Raw [9, 0, 0, 0]]] = [8, 9]"
    unfolding message_wire.simps [of chat_sub] by (simp add: chat_sub_def simps)
  then show ?thesis unfolding message_wire.simps [of chat_fields] by (simp add: chat_fields_def simps)
qed


end
