(* ===== verification/HashSpec.thy ===== *)
theory HashSpec
  imports Prelude
begin

text \<open>
  Iterated hash functions as the standards describe them: a message is padded to a whole number of
  blocks, which are absorbed one after the other by a compression function. \<open>absorb\<close> takes the full blocks of
  a message and \<open>pending\<close> is what is left over; the locale \<open>block_function\<close> is what the collectors
  rely on: the C function that processes several blocks absorbs them.
\<close>

section \<open>Absorbing a message\<close>

function absorb :: "('h \<Rightarrow> u8 list \<Rightarrow> 'h) \<Rightarrow> nat \<Rightarrow> 'h \<Rightarrow> u8 list \<Rightarrow> 'h" where
  "absorb f B h msg = (if B = 0 \<or> length msg < B then h else absorb f B (f h (take B msg)) (drop B msg))"
  by pat_completeness auto
termination by (relation "measure (\<lambda>(f, B, h, msg). length msg)") auto

declare absorb.simps [simp del]

definition pending :: "nat \<Rightarrow> u8 list \<Rightarrow> u8 list" where
  "pending B msg = drop (length msg div B * B) msg"

lemma absorb_short: "length msg < B \<Longrightarrow> absorb f B h msg = h"
  by (simp add: absorb.simps)

lemma absorb_block: "0 < B \<Longrightarrow> length b = B \<Longrightarrow> absorb f B h (b @ msg) = absorb f B (f h b) msg"
  by (subst absorb.simps) simp

lemma length_pending: "length (pending B msg) = length msg mod B"
  by (simp add: pending_def minus_div_mult_eq_mod)

lemma pending_short: "length msg < B \<Longrightarrow> pending B msg = msg"
  by (simp add: pending_def)

lemma pending_block: "length b = B \<Longrightarrow> 0 < B \<Longrightarrow> pending B (b @ msg) = pending B msg"
  using div_add_self1 [of B "length msg"] by (simp add: pending_def)

text \<open>What was absorbed is not read again: absorbing goes on with the pending bytes.\<close>

lemma absorb_append: "0 < B \<Longrightarrow> absorb f B h (a @ b) = absorb f B (absorb f B h a) (pending B a @ b)"
proof (induction f B h a rule: absorb.induct)
  case (1 f B h a)
  show ?case
  proof (cases "length a < B")
    case True
    then show ?thesis by (simp add: absorb_short pending_short)
  next
    case False
    then have a: "a = take B a @ drop B a" "length (take B a) = B" by simp_all
    have "absorb f B h (a @ b) = absorb f B (f h (take B a)) (drop B a @ b)"
      using absorb_block [OF "1.prems" a(2), of f h "drop B a @ b"] a(1) by (metis append_assoc)
    also have "\<dots> = absorb f B (absorb f B (f h (take B a)) (drop B a)) (pending B (drop B a) @ b)"
      using "1.IH" False "1.prems" by simp
    also have "absorb f B (f h (take B a)) (drop B a) = absorb f B h a"
      using absorb_block [OF "1.prems" a(2), of f h "drop B a"] a(1) by simp
    also have "pending B (drop B a) = pending B a"
      using pending_block [OF a(2) "1.prems", of "drop B a"] a(1) by simp
    finally show ?thesis .
  qed
qed

lemma pending_append:
  assumes "0 < B"
  shows "pending B (a @ b) = pending B (pending B a @ b)"
proof -
  have d: "length a div B * B \<le> length a" by simp
  have "length (a @ b) div B = length a div B + length (pending B a @ b) div B"
  proof -
    have e: "length (a @ b) = length (pending B a @ b) + length a div B * B"
      unfolding pending_def using d by (simp only: length_append length_drop)
    show ?thesis unfolding e using assms by (subst div_mult_self1) simp_all
  qed
  then have "length (a @ b) div B * B = length a div B * B + length (pending B a @ b) div B * B"
    by (simp add: distrib_right)
  then have "pending B (a @ b) = drop (length (pending B a @ b) div B * B) (drop (length a div B * B) (a @ b))"
    by (simp only: pending_def drop_drop add.commute)
  also have "drop (length a div B * B) (a @ b) = pending B a @ b" using d by (simp add: pending_def)
  finally show ?thesis by (simp add: pending_def)
qed

lemma absorb_cong:
  assumes "\<And>h b. P h \<Longrightarrow> length b = B \<Longrightarrow> f h b = g h b \<and> P (g h b)" and "P h"
  shows "absorb f B h msg = absorb g B h msg \<and> P (absorb g B h msg)"
  using assms
proof (induction f B h msg rule: absorb.induct)
  case (1 f B h msg)
  show ?case
  proof (cases "B = 0 \<or> length msg < B")
    case True
    then show ?thesis using "1.prems"(2) by (auto simp: absorb.simps)
  next
    case False
    then have s: "f h (take B msg) = g h (take B msg)" "P (g h (take B msg))"
      using "1.prems"(1) [OF "1.prems"(2), of "take B msg"] by simp_all
    have e: "absorb f B h msg = absorb f B (f h (take B msg)) (drop B msg)"
      "absorb g B h msg = absorb g B (g h (take B msg)) (drop B msg)"
      by (subst absorb.simps, simp only: False if_False)+
    show ?thesis unfolding e using "1.IH" [OF False "1.prems"(1)] s(2) unfolding s(1) by blast
  qed
qed

section \<open>Padding\<close>

text \<open>
  A one bit, zeros and the length in bits as a number of \<open>L\<close> bytes; the number of zeros is the least
  one that makes the whole a multiple of the block size.
\<close>

definition hash_pad :: "nat \<Rightarrow> nat \<Rightarrow> u8 list \<Rightarrow> nat \<Rightarrow> u8 list" where
  "hash_pad B L enc len = 0x80 # replicate ((2 * B - L - 1 - len mod B) mod B) 0 @ enc"

definition hash_digest ::
  "('h \<Rightarrow> u8 list \<Rightarrow> 'h) \<Rightarrow> nat \<Rightarrow> nat \<Rightarrow> (nat \<Rightarrow> u8 list) \<Rightarrow> 'h \<Rightarrow> u8 list \<Rightarrow> 'h" where
  "hash_digest f B L enc iv msg = absorb f B iv (msg @ hash_pad B L (enc (8 * length msg)) (length msg))"

text \<open>
  The padding fills up the pending bytes to one or two blocks.
\<close>

lemma pad_pending:
  fixes msg :: "u8 list"
  assumes "length enc = L" and "L < B"
  defines "p \<equiv> pending B msg"
  shows "p @ hash_pad B L enc (length msg)
    = (if length p + 1 \<le> B - L then p @ 0x80 # replicate (B - L - (length p + 1)) 0 @ enc
       else (p @ 0x80 # replicate (B - (length p + 1)) 0) @ (replicate (B - L) 0 @ enc))"
proof -
  have l: "length p = length msg mod B" "length p < B" using assms(2) by (simp_all add: p_def length_pending)
  have z: "(2 * B - L - 1 - length p) mod B
      = (if length p + 1 \<le> B - L then B - L - (length p + 1) else B - (length p + 1) + (B - L))"
  proof (cases "length p + 1 \<le> B - L")
    case True
    then have "2 * B - L - 1 - length p = (B - L - (length p + 1)) + B" using assms(2) by simp
    then show ?thesis using True by (simp only: mod_add_self2) simp
  next
    case False
    then have "2 * B - L - 1 - length p = B - (length p + 1) + (B - L)" "B - (length p + 1) + (B - L) < B"
      using assms(2) l(2) by simp_all
    then show ?thesis using False by simp
  qed
  show ?thesis unfolding hash_pad_def l(1) [symmetric] z by (simp add: replicate_add)
qed

lemma hash_digest_last:
  fixes msg :: "u8 list" and iv :: 'h and f :: "'h \<Rightarrow> u8 list \<Rightarrow> 'h"
  assumes "length (enc (8 * length msg)) = L" and "L < B"
  defines "p \<equiv> pending B msg" and "h \<equiv> absorb f B iv msg"
  shows "hash_digest f B L enc iv msg
    = (if length p + 1 \<le> B - L then f h (p @ 0x80 # replicate (B - L - (length p + 1)) 0 @ enc (8 * length msg))
       else f (f h (p @ 0x80 # replicate (B - (length p + 1)) 0)) (replicate (B - L) 0 @ enc (8 * length msg)))"
proof -
  have l: "length p < B" using assms(2) by (simp add: p_def length_pending)
  have one: "absorb f B s b = f s b" if "length b = B" for s b
    using absorb_block [of B b f s "[]"] that assms(2) by (simp add: absorb_short)
  have "hash_digest f B L enc iv msg = absorb f B h (p @ hash_pad B L (enc (8 * length msg)) (length msg))"
    using absorb_append [of B] assms(2) by (simp add: hash_digest_def p_def h_def)
  also have "\<dots> = (if length p + 1 \<le> B - L then f h (p @ 0x80 # replicate (B - L - (length p + 1)) 0 @ enc (8 * length msg))
       else f (f h (p @ 0x80 # replicate (B - (length p + 1)) 0)) (replicate (B - L) 0 @ enc (8 * length msg)))"
  proof (cases "length p + 1 \<le> B - L")
    case True
    then show ?thesis using pad_pending [OF assms(1,2), of msg] assms(1,2) l one by (simp add: p_def)
  next
    case False
    let ?b = "p @ 0x80 # replicate (B - (length p + 1)) 0"
    have "length ?b = B" using l by simp
    then have "absorb f B h (?b @ (replicate (B - L) 0 @ enc (8 * length msg)))
        = f (f h ?b) (replicate (B - L) 0 @ enc (8 * length msg))"
      using absorb_block [of B ?b f h] one assms(1,2) by simp
    then show ?thesis using pad_pending [OF assms(1,2), of msg] False by (simp add: p_def)
  qed
  finally show ?thesis .
qed

section \<open>Functions that process several blocks\<close>

text \<open>The state of a collector: the words and the pending bytes at the start of a buffer of one block.\<close>

definition buffered ::
  "('h \<Rightarrow> u8 list \<Rightarrow> 'h) \<Rightarrow> nat \<Rightarrow> 'h \<Rightarrow> u8 list \<Rightarrow> 'h \<Rightarrow> nat \<Rightarrow> u8 list \<Rightarrow> bool" where
  "buffered f B iv msg h n d \<longleftrightarrow>
     h = absorb f B iv msg \<and> n = length (pending B msg) \<and> length d = B \<and> take n d = pending B msg"

locale block_function =
  fixes block :: "'h \<Rightarrow> u8 list \<Rightarrow> nat \<Rightarrow> 'h" and compress :: "'h \<Rightarrow> u8 list \<Rightarrow> 'h" and B :: nat
  assumes one: "length d = B \<Longrightarrow> block h d 1 = compress h d"
    and more: "length d = B \<Longrightarrow> 0 < n \<Longrightarrow> block h (d @ ds) (Suc n) = block (compress h d) ds n"
    and size: "0 < B"
begin

lemma blocks:
  assumes "0 < length msg div B"
  shows "block h (take (length msg div B * B) msg) (length msg div B) = absorb compress B h msg"
proof -
  have "block h (take (n * B) msg) n = absorb compress B h msg" if "length msg div B = n" "0 < n" for n
    using that
  proof (induction n arbitrary: h msg)
    case (Suc n)
    then have l: "B \<le> length msg" using size by (metis div_less not_less zero_less_iff_neq_zero)
    have m: "msg = take B msg @ drop B msg" "length (take B msg) = B" using l by simp_all
    have a: "absorb compress B h msg = absorb compress B (compress h (take B msg)) (drop B msg)"
      using absorb_block [OF size m(2), of compress h "drop B msg"] m(1) by simp
    show ?case
    proof (cases "n = 0")
      case True
      have "length (drop B msg) div B = 0" using Suc.prems(1) True l size by (simp add: div_if)
      then have "length (drop B msg) < B" using size by (simp only: div_eq_0_iff) simp
      then show ?thesis using True one [OF m(2)] a by (simp add: absorb_short)
    next
      case False
      have d: "length (drop B msg) div B = n" using Suc.prems(1) l size by (simp add: div_if)
      have "take (Suc n * B) msg = take B msg @ take (n * B) (drop B msg)"
        by (simp add: take_add)
      then show ?thesis using more [OF m(2)] False Suc.IH [OF d] a by simp
    qed
  qed simp
  then show ?thesis using assms by simp
qed

text \<open>
  The steps of a collector with a buffer of one block: hashing full blocks in place and buffering
  the rest, filling the buffer up, adding to it, and padding.
\<close>

lemma buffered_rest:
  assumes "h = absorb compress B iv msg" and "pending B msg = []" and "length d = B"
  shows "buffered compress B iv (msg @ data)
    (if length data div B > 0 then block h (take (length data div B * B) data) (length data div B) else h)
    (length data - length data div B * B) (blit d 0 (drop (length data div B * B) data))"
proof -
  let ?n = "length data div B"
  have h: "(if ?n > 0 then block h (take (?n * B) data) ?n else h) = absorb compress B iv (msg @ data)"
  proof (cases "?n > 0")
    case True
    then show ?thesis using blocks [of data h] assms(1,2) absorb_append [OF size, of compress iv msg data] by simp
  next
    case False
    then have "length data < B" using size by (simp add: div_greater_zero_iff)
    then show ?thesis using False assms(1,2) absorb_append [OF size, of compress iv msg data] by (simp add: absorb_short)
  qed
  have "pending B (msg @ data) = drop (?n * B) data"
    using assms(2) pending_append [OF size, of msg data] by (simp add: pending_def)
  moreover have "length data - ?n * B < B" using mod_less_divisor [OF size, of "length data"] by (simp add: minus_div_mult_eq_mod)
  ultimately show ?thesis using h assms(3) by (simp add: buffered_def take_blit_through)
qed

lemma buffered_fill:
  assumes "buffered compress B iv msg h n d" and "B - n \<le> length data"
  shows "block h (blit d n (take (B - n) data)) 1 = absorb compress B iv (msg @ take (B - n) data)"
    and "pending B (msg @ take (B - n) data) = []"
proof -
  let ?p = "pending B msg" and ?t = "take (B - n) data"
  have n: "n = length ?p" "n < B" "h = absorb compress B iv msg" "take n d = ?p" "length d = B"
    using assms(1) size by (auto simp: buffered_def length_pending)
  then have full: "blit d n ?t = ?p @ ?t" "length (?p @ ?t) = B" using assms(2) by (simp_all add: blit_def)
  show "block h (blit d n ?t) 1 = absorb compress B iv (msg @ ?t)"
    using absorb_append [OF size, of compress iv msg ?t] absorb_block [OF size full(2), of compress h "[]"] one [OF full(2)] n(3) size
    by (simp add: full(1) absorb_short)
  show "pending B (msg @ ?t) = []"
    using pending_append [OF size, of msg ?t] pending_block [OF full(2) size, of "[]"] by (simp add: pending_def)
qed

lemma buffered_short:
  assumes "buffered compress B iv msg h n d" and "n + length data < B"
  shows "buffered compress B iv (msg @ data) h (n + length data) (blit d n data)"
proof -
  have n: "n = length (pending B msg)" "take n d = pending B msg" "length d = B" using assms(1) by (auto simp: buffered_def)
  have "absorb compress B iv (msg @ data) = h" "pending B (msg @ data) = pending B msg @ data"
    using absorb_append [OF size, of compress iv msg data] pending_append [OF size, of msg data] assms n(1)
    by (simp_all add: absorb_short pending_short buffered_def)
  then show ?thesis using n assms(2) by (simp add: buffered_def take_blit_through)
qed

lemma buffered_final:
  assumes "buffered compress B iv msg h n d" and "length (enc (8 * length msg)) = L" and "L < B"
  defines "d1 \<equiv> d[n := 0x80]"
  defines "d2 \<equiv> blit d1 (n + 1) (replicate (B - (n + 1)) 0)"
  shows "n + 1 > B - L \<Longrightarrow>
      block (block h d2 1) (blit (blit d2 0 (replicate (B - L) 0)) (B - L) (enc (8 * length msg))) 1
      = hash_digest compress B L enc iv msg"
    and "\<not> n + 1 > B - L \<Longrightarrow>
      block h (blit (blit d1 (n + 1) (replicate (B - L - (n + 1)) 0)) (B - L) (enc (8 * length msg))) 1
      = hash_digest compress B L enc iv msg"
proof -
  let ?p = "pending B msg" and ?e = "enc (8 * length msg)"
  have n: "n = length ?p" "n < B" "h = absorb compress B iv msg" "take n d = ?p" "length d = B"
    using assms(1) size by (auto simp: buffered_def length_pending)
  have d1: "d1 = ?p @ 0x80 # drop (Suc n) d" using n by (simp add: d1_def upd_conv_take_nth_drop)
  note last = hash_digest_last [of enc msg L B compress iv, OF assms(2,3), folded n(1,3)]
  show "block (block h d2 1) (blit (blit d2 0 (replicate (B - L) 0)) (B - L) ?e) 1 = hash_digest compress B L enc iv msg"
    if "n + 1 > B - L"
  proof -
    have d2: "d2 = ?p @ 0x80 # replicate (B - (n + 1)) 0" using n by (simp add: d2_def d1 blit_def)
    then have l: "length d2 = B" using n by simp
    have e: "blit (blit d2 0 (replicate (B - L) 0)) (B - L) ?e = replicate (B - L) 0 @ ?e"
      using l assms(2,3) by (simp add: blit_def)
    then show ?thesis using last that one [OF l] one [of "replicate (B - L) 0 @ ?e"] assms(2,3) d2 by simp
  qed
  show "block h (blit (blit d1 (n + 1) (replicate (B - L - (n + 1)) 0)) (B - L) ?e) 1 = hash_digest compress B L enc iv msg"
    if "\<not> n + 1 > B - L"
  proof -
    have "B - L - n = Suc (B - L - (n + 1))" using that n(2) by simp
    then have e: "blit (blit d1 (n + 1) (replicate (B - L - (n + 1)) 0)) (B - L) ?e
        = ?p @ 0x80 # replicate (B - L - (n + 1)) 0 @ ?e"
      using that n assms(2,3) by (simp add: d1 blit_def)
    then show ?thesis using last that one [of "?p @ 0x80 # replicate (B - L - (n + 1)) 0 @ ?e"] n assms(2,3) by simp
  qed
qed

end

end
