(* ===== verification/Md32.thy ===== *)
theory Md32
  imports HashSpec
begin

text \<open>
  The collector of 32-bit hash functions in \<^verbatim>\<open>crypto/fipsmodule/digest/md32_common.h\<close>: a template
  over the block function, the byte order of the data and the way the digest is written. It buffers
  what does not fill a block, counts the bits in two words and pads the message at the end.
\<close>

section \<open>State\<close>

record hash_ctx =
  hc_h :: "u32 list"
  hc_Nl :: u32
  hc_Nh :: u32
  hc_data :: "u8 list"
  hc_num :: nat
  hc_md_len :: nat

abbreviation HASH_CBLOCK :: nat where "HASH_CBLOCK \<equiv> 64"

text \<open>A context cleared by \<^verbatim>\<open>OPENSSL_memset(sha, 0, sizeof)\<close>, with the words and the digest length set.\<close>

definition hash_ctx_init :: "u32 list \<Rightarrow> nat \<Rightarrow> hash_ctx" where
  "hash_ctx_init iv md_len = \<lparr>hc_h = iv, hc_Nl = 0, hc_Nh = 0, hc_data = replicate HASH_CBLOCK 0, hc_num = 0, hc_md_len = md_len\<rparr>"

datatype data_order = DATA_ORDER_IS_BIG_ENDIAN | DATA_ORDER_IS_LITTLE_ENDIAN

definition HOST_c2l :: "data_order \<Rightarrow> u8 list \<Rightarrow> u32" where
  "HOST_c2l order c =
     (case order of
        DATA_ORDER_IS_BIG_ENDIAN \<Rightarrow>
          push_bit 24 (ucast (c ! 0)) OR push_bit 16 (ucast (c ! 1)) OR push_bit 8 (ucast (c ! 2)) OR ucast (c ! 3)
      | DATA_ORDER_IS_LITTLE_ENDIAN \<Rightarrow>
          ucast (c ! 0) OR push_bit 8 (ucast (c ! 1)) OR push_bit 16 (ucast (c ! 2)) OR push_bit 24 (ucast (c ! 3)))"

definition HOST_l2c :: "data_order \<Rightarrow> u32 \<Rightarrow> u8 list" where
  "HOST_l2c order l =
     (case order of
        DATA_ORDER_IS_BIG_ENDIAN \<Rightarrow>
          [ucast (drop_bit 24 l AND 0xff), ucast (drop_bit 16 l AND 0xff), ucast (drop_bit 8 l AND 0xff), ucast (l AND 0xff)]
      | DATA_ORDER_IS_LITTLE_ENDIAN \<Rightarrow>
          [ucast (l AND 0xff), ucast (drop_bit 8 l AND 0xff), ucast (drop_bit 16 l AND 0xff), ucast (drop_bit 24 l AND 0xff)])"

section \<open>Update and final\<close>

text \<open>
  The length counter: the low word is advanced by eight times the length, a carry and the bits of
  the length that the shift loses go to the high word.
\<close>

definition count_bits :: "nat \<Rightarrow> hash_ctx \<Rightarrow> hash_ctx" where
  "count_bits len c =
     (let l = hc_Nl c + push_bit 3 (of_nat len);
          Nh = (if l < hc_Nl c then hc_Nh c + 1 else hc_Nh c)
      in c\<lparr>hc_Nh := Nh + of_nat (drop_bit 29 len), hc_Nl := l\<rparr>)"

text \<open>The part behind the buffer: full blocks are hashed where they are, the rest is buffered.\<close>

definition update_rest :: "(u32 list \<Rightarrow> u8 list \<Rightarrow> nat \<Rightarrow> u32 list) \<Rightarrow> hash_ctx \<Rightarrow> u8 list \<Rightarrow> hash_ctx" where
  "update_rest block c data =
     (let n = length data div HASH_CBLOCK;
          c = (if n > 0 then c\<lparr>hc_h := block (hc_h c) (take (n * HASH_CBLOCK) data) n\<rparr> else c);
          data = drop (n * HASH_CBLOCK) data
      in if length data \<noteq> 0 then c\<lparr>hc_num := length data, hc_data := blit (hc_data c) 0 data\<rparr> else c)"

definition HASH_UPDATE :: "(u32 list \<Rightarrow> u8 list \<Rightarrow> nat \<Rightarrow> u32 list) \<Rightarrow> hash_ctx \<Rightarrow> u8 list \<Rightarrow> hash_ctx" where
  "HASH_UPDATE block c data =
     (let len = length data
      in if len = 0 then c
         else let c = count_bits len c; n = hc_num c
              in if n \<noteq> 0
                 then if len \<ge> HASH_CBLOCK \<or> size_add len n \<ge> HASH_CBLOCK
                      then let d = blit (hc_data c) n (take (HASH_CBLOCK - n) data)
                           in update_rest block (c\<lparr>hc_h := block (hc_h c) d 1, hc_num := 0, hc_data := replicate HASH_CBLOCK 0\<rparr>)
                                (drop (HASH_CBLOCK - n) data)
                      else c\<lparr>hc_data := blit (hc_data c) n data, hc_num := hc_num c + len\<rparr>
                 else update_rest block c data)"

definition HASH_TRANSFORM :: "(u32 list \<Rightarrow> u8 list \<Rightarrow> nat \<Rightarrow> u32 list) \<Rightarrow> hash_ctx \<Rightarrow> u8 list \<Rightarrow> hash_ctx" where
  "HASH_TRANSFORM block c data = c\<lparr>hc_h := block (hc_h c) data 1\<rparr>"

definition HASH_FINAL ::
  "(u32 list \<Rightarrow> u8 list \<Rightarrow> nat \<Rightarrow> u32 list) \<Rightarrow> data_order \<Rightarrow> (hash_ctx \<Rightarrow> u8 list option) \<Rightarrow> hash_ctx
     \<Rightarrow> hash_ctx \<times> u8 list option" where
  "HASH_FINAL block order make_string c =
     (let n = hc_num c; d = (hc_data c)[n := 0x80]; n = n + 1;
          (h, d, n) = (if n > HASH_CBLOCK - 8
                       then let d = blit d n (replicate (HASH_CBLOCK - n) 0) in (block (hc_h c) d 1, d, 0)
                       else (hc_h c, d, n));
          d = blit d n (replicate (HASH_CBLOCK - 8 - n) 0);
          p = (case order of
                 DATA_ORDER_IS_BIG_ENDIAN \<Rightarrow> HOST_l2c order (hc_Nh c) @ HOST_l2c order (hc_Nl c)
               | DATA_ORDER_IS_LITTLE_ENDIAN \<Rightarrow> HOST_l2c order (hc_Nl c) @ HOST_l2c order (hc_Nh c));
          d = blit d (HASH_CBLOCK - 8) p;
          c = c\<lparr>hc_h := block h d 1, hc_num := 0, hc_data := replicate HASH_CBLOCK 0\<rparr>
      in (c, make_string c))"

section \<open>Byte order\<close>

lemma ucast_and_ff: "(ucast (w AND 0xff :: 'a::len word) :: u8) = of_nat (unat w)"
proof -
  have "(0xff :: 'a word) = mask 8" by (simp add: mask_eq_exp_minus_1)
  then have "(ucast (w AND 0xff) :: u8) = ucast w" by (simp only: flip: take_bit_eq_mask) (rule bit_word_eqI, auto simp: bit_simps)
  then show ?thesis by (simp only: ucast_eq_of_nat)
qed

lemma be_bytes_4: "be_bytes 4 v = [of_nat (v div 2 ^ 24), of_nat (v div 2 ^ 16), of_nat (v div 2 ^ 8), of_nat v]"
proof -
  have "(4 :: nat) = Suc (Suc (Suc (Suc 0)))" "(2 :: nat) ^ 24 = 256 * 256 * 256" "(2 :: nat) ^ 16 = 256 * 256" "(2 :: nat) ^ 8 = 256"
    by simp_all
  then show ?thesis by (simp only: be_bytes.simps append.simps div_mult2_eq)
qed

lemma HOST_l2c_big: "HOST_l2c DATA_ORDER_IS_BIG_ENDIAN l = be_bytes 4 (unat l)"
  unfolding HOST_l2c_def be_bytes_4 data_order.case ucast_and_ff unat_drop_bit ..

lemma HOST_l2c_little: "HOST_l2c DATA_ORDER_IS_LITTLE_ENDIAN l = le_bytes 4 (unat l)"
  unfolding HOST_l2c_def le_bytes_def be_bytes_4 data_order.case ucast_and_ff unat_drop_bit by simp

lemma HOST_c2l_big:
  assumes "length c = 4" shows "HOST_c2l DATA_ORDER_IS_BIG_ENDIAN c = of_nat (be_val c)"
proof -
  have "c = [c ! 0, c ! 1, c ! 2, c ! 3]"
    by (rule nth_equalityI) (use assms in \<open>auto simp: less_Suc_eq numeral_eq_Suc\<close>)
  then have "(of_nat (be_val c) :: u32) = foldl (\<lambda>r b. push_bit 8 r OR ucast b) 0 [c ! 0, c ! 1, c ! 2, c ! 3]"
    by (simp only: foldl_shift_or)
  then show ?thesis by (simp add: HOST_c2l_def push_bit_or or.assoc)
qed

lemma be_bytes_append: "b < 256 ^ n \<Longrightarrow> be_bytes (m + n) (a * 256 ^ n + b) = be_bytes m a @ be_bytes n b"
proof (induction n arbitrary: b)
  case (Suc n)
  have d: "(a * 256 ^ Suc n + b) div 256 = a * 256 ^ n + b div 256" by simp
  have m: "(of_nat (a * 256 ^ Suc n + b) :: u8) = of_nat b"
    using u8_modulus by (simp only: of_nat_add of_nat_mult of_nat_power of_nat_numeral power_Suc) simp
  have "b div 256 < 256 ^ n" using Suc.prems by (simp add: less_mult_imp_div_less mult.commute)
  from Suc.IH [OF this] show ?case by (simp only: add_Suc_right be_bytes.simps d m append_assoc)
qed simp

lemma be_bytes_mod: "be_bytes n (v mod 256 ^ n) = be_bytes n v"
  by (rule be_val_inject) (simp_all add: endian_simps)

section \<open>The length counter\<close>

lemma unat_overflow:
  fixes a b :: "'a::len word"
  shows "unat (a + b) + 2 ^ LENGTH('a) * (if a + b < a then 1 else 0) = unat a + unat b"
proof -
  have ab: "unat a < 2 ^ LENGTH('a)" "unat b < 2 ^ LENGTH('a)" by (rule unsigned_less)+
  have s: "unat (a + b) = (unat a + unat b) mod 2 ^ LENGTH('a)" by (rule unat_word_ariths(1))
  show ?thesis
  proof (cases "unat a + unat b < 2 ^ LENGTH('a)")
    case True
    then have "unat (a + b) = unat a + unat b" unfolding s by simp
    then show ?thesis by (simp add: word_less_nat_alt)
  next
    case False
    then have "unat (a + b) = (unat a + unat b - 2 ^ LENGTH('a)) mod 2 ^ LENGTH('a)" unfolding s by (simp add: le_mod_geq)
    moreover have "unat a + unat b - 2 ^ LENGTH('a) < 2 ^ LENGTH('a)" using ab by linarith
    ultimately have "unat (a + b) = unat a + unat b - 2 ^ LENGTH('a)" by (simp only: mod_less)
    then have "unat (a + b) < unat a" "unat (a + b) + 2 ^ LENGTH('a) = unat a + unat b" using False ab by linarith+
    then show ?thesis by (simp only: word_less_nat_alt if_True mult_1_right)
  qed
qed

lemma two_word_counter:
  fixes Nl Nh :: "'a::len word" and n :: nat
  assumes "3 \<le> LENGTH('a)"
  defines "l \<equiv> Nl + push_bit 3 (of_nat n)"
  defines "h \<equiv> (if l < Nl then Nh + 1 else Nh) + of_nat (drop_bit (LENGTH('a) - 3) n)"
  shows "unat h * 2 ^ LENGTH('a) + unat l = (unat Nh * 2 ^ LENGTH('a) + unat Nl + 8 * n) mod (2 ^ LENGTH('a) * 2 ^ LENGTH('a))"
proof -
  let ?W = "2 ^ LENGTH('a) :: nat"
  define c :: nat where "c = (if l < Nl then 1 else 0)"
  have W: "?W = 8 * 2 ^ (LENGTH('a) - 3)" using power_add [of "2 :: nat" 3 "LENGTH('a) - 3"] assms(1) by simp
  have p: "unat (push_bit 3 (of_nat n :: 'a word)) = 8 * n mod ?W"
    unfolding unsigned_push_bit_eq by (simp add: take_bit_eq_mod push_bit_eq_mult unat_of_nat mod_mult_left_eq mult.commute [of 8])
  have l: "unat l + ?W * c = unat Nl + 8 * n mod ?W"
    using unat_overflow [of Nl "push_bit 3 (of_nat n)"] by (simp add: l_def c_def p)
  have "h = Nh + of_nat (c + drop_bit (LENGTH('a) - 3) n)" by (simp add: h_def c_def)
  then have "unat h = (unat Nh + (c + n div 2 ^ (LENGTH('a) - 3))) mod ?W"
    by (simp only: unat_word_ariths(1) unat_of_nat mod_add_right_eq drop_bit_eq_div)
  also have "n div 2 ^ (LENGTH('a) - 3) = 8 * n div ?W" by (simp add: W)
  finally have h: "unat h = (unat Nh + (c + 8 * n div ?W)) mod ?W" .
  have "unat Nh * ?W + unat Nl + 8 * n = (unat Nh + (c + 8 * n div ?W)) * ?W + unat l"
  proof -
    have "8 * n = 8 * n div ?W * ?W + 8 * n mod ?W" by (rule div_mult_mod_eq [symmetric])
    with l show ?thesis by (simp only: distrib_right mult.commute [of ?W c])
  qed
  moreover have "unat l < ?W" by (rule unsigned_less)
  ultimately show ?thesis unfolding h
    by (simp add: mod_mult2_eq)
qed

section \<open>What the collector computes\<close>

definition bit_count :: "hash_ctx \<Rightarrow> nat" where
  "bit_count c = unat (hc_Nh c) * 2 ^ 32 + unat (hc_Nl c)"

text \<open>The context has seen \<open>msg\<close>.\<close>

definition collects :: "(u32 list \<Rightarrow> u8 list \<Rightarrow> u32 list) \<Rightarrow> u32 list \<Rightarrow> u8 list \<Rightarrow> hash_ctx \<Rightarrow> bool" where
  "collects f iv msg c \<longleftrightarrow>
     buffered f HASH_CBLOCK iv msg (hc_h c) (hc_num c) (hc_data c) \<and> bit_count c = (8 * length msg) mod 2 ^ 64"

definition length_bytes :: "data_order \<Rightarrow> nat \<Rightarrow> u8 list" where
  "length_bytes order n =
     (case order of DATA_ORDER_IS_BIG_ENDIAN \<Rightarrow> be_bytes 8 n | DATA_ORDER_IS_LITTLE_ENDIAN \<Rightarrow> le_bytes 8 n)"

lemma length_length_bytes [simp]: "length (length_bytes order n) = 8"
  by (simp add: length_bytes_def split: data_order.split)

lemma final_length_bytes:
  assumes "bit_count c = (8 * n) mod 2 ^ 64"
  shows "(case order of
       DATA_ORDER_IS_BIG_ENDIAN \<Rightarrow> HOST_l2c order (hc_Nh c) @ HOST_l2c order (hc_Nl c)
     | DATA_ORDER_IS_LITTLE_ENDIAN \<Rightarrow> HOST_l2c order (hc_Nl c) @ HOST_l2c order (hc_Nh c)) = length_bytes order (8 * n)"
proof -
  have "unat (hc_Nl c) < 256 ^ 4" using unsigned_less [of "hc_Nl c", where ?'a = nat] by simp
  from be_bytes_append [OF this, of 4 "unat (hc_Nh c)"]
  have "be_bytes 8 (bit_count c) = be_bytes 4 (unat (hc_Nh c)) @ be_bytes 4 (unat (hc_Nl c))"
    by (simp add: bit_count_def)
  moreover have "be_bytes 8 (bit_count c) = be_bytes 8 (8 * n)" using assms be_bytes_mod [of 8 "8 * n"] by simp
  ultimately have "be_bytes 4 (unat (hc_Nh c)) @ be_bytes 4 (unat (hc_Nl c)) = be_bytes 8 (8 * n)" by simp
  then show ?thesis
    by (cases order) (simp_all add: HOST_l2c_big HOST_l2c_little length_bytes_def le_bytes_def flip: rev_append)
qed

lemma count_bits_adds:
  "bit_count (count_bits n c) = (bit_count c + 8 * n) mod 2 ^ 64"
  using two_word_counter [of "hc_Nl c" n "hc_Nh c"] by (simp add: bit_count_def count_bits_def Let_def)

lemma count_bits_frame [simp]:
  "hc_h (count_bits n c) = hc_h c" "hc_num (count_bits n c) = hc_num c" "hc_data (count_bits n c) = hc_data c"
  "hc_md_len (count_bits n c) = hc_md_len c"
  by (simp_all add: count_bits_def Let_def)

lemma hash_md_len [simp]: "hc_md_len (HASH_UPDATE block c data) = hc_md_len c"
  by (simp add: HASH_UPDATE_def update_rest_def Let_def)

lemma collects_init: "collects f iv [] (hash_ctx_init iv ml)"
  by (simp add: collects_def buffered_def hash_ctx_init_def bit_count_def absorb_short pending_def)

locale md_collector = block_function block compress HASH_CBLOCK
  for block :: "u32 list \<Rightarrow> u8 list \<Rightarrow> nat \<Rightarrow> u32 list" and compress :: "u32 list \<Rightarrow> u8 list \<Rightarrow> u32 list"
begin

text \<open>The tail of an update, with nothing in the buffer and the bits counted already.\<close>

lemma update_rest_collects:
  assumes "hc_h c = absorb compress HASH_CBLOCK iv msg" and "pending HASH_CBLOCK msg = []" and "hc_num c = 0"
    and "length (hc_data c) = HASH_CBLOCK" and "bit_count c = 8 * length (msg @ data) mod 2 ^ 64"
  shows "collects compress iv (msg @ data) (update_rest block c data)"
proof -
  have "drop (length data div HASH_CBLOCK * HASH_CBLOCK) data = [] \<longleftrightarrow> length data - length data div HASH_CBLOCK * HASH_CBLOCK = 0"
    by simp
  with buffered_rest [OF assms(1,2,4), of data] show ?thesis
    using assms(3,5) by (auto simp: collects_def update_rest_def Let_def bit_count_def)
qed

lemma update_collects:
  assumes "collects compress iv msg c"
  shows "collects compress iv (msg @ data) (HASH_UPDATE block c data)"
proof (cases "data = []")
  case True
  then show ?thesis using assms by (simp add: HASH_UPDATE_def)
next
  case False
  let ?c = "count_bits (length data) c" and ?n = "hc_num c"
  have c: "buffered compress HASH_CBLOCK iv msg (hc_h c) ?n (hc_data c)" "?n < HASH_CBLOCK" "length (hc_data c) = HASH_CBLOCK"
      "hc_h c = absorb compress HASH_CBLOCK iv msg" "?n = length (pending HASH_CBLOCK msg)"
    using assms by (auto simp: collects_def buffered_def length_pending)
  have b: "bit_count ?c = 8 * length (msg @ data) mod 2 ^ 64"
    using assms by (simp add: collects_def count_bits_adds mod_add_left_eq)
  show ?thesis
  proof (cases "?n = 0")
    case True
    have "collects compress iv (msg @ data) (update_rest block ?c data)"
      by (rule update_rest_collects) (use c True b in simp_all)
    then show ?thesis using True False by (simp add: HASH_UPDATE_def Let_def)
  next
    case nz: False
    show ?thesis
    proof (cases "length data \<ge> HASH_CBLOCK \<or> size_add (length data) ?n \<ge> HASH_CBLOCK")
      case True
      then have "HASH_CBLOCK - ?n \<le> length data"
        by (cases "length data \<ge> HASH_CBLOCK") (use c(2) in \<open>auto simp: size_add_def\<close>)
      note fill = buffered_fill [OF c(1) this]
      let ?t = "take (HASH_CBLOCK - ?n) data" and ?d = "drop (HASH_CBLOCK - ?n) data"
      have "collects compress iv ((msg @ ?t) @ ?d)
          (update_rest block (?c\<lparr>hc_h := block (hc_h c) (blit (hc_data c) ?n ?t) 1, hc_num := 0, hc_data := replicate HASH_CBLOCK 0\<rparr>) ?d)"
        by (rule update_rest_collects) (use b fill in \<open>simp_all add: bit_count_def\<close>)
      then show ?thesis using False nz True by (simp add: HASH_UPDATE_def Let_def)
    next
      case short: False
      then have "?n + length data < HASH_CBLOCK" using c(2) by (auto simp: size_add_def)
      from buffered_short [OF c(1) this] show ?thesis using False nz short b
        by (simp add: HASH_UPDATE_def Let_def collects_def bit_count_def)
    qed
  qed
qed

lemma updates_collect: "collects compress iv msg c \<Longrightarrow> collects compress iv (msg @ concat ds) (foldl (HASH_UPDATE block) c ds)"
  by (induction ds arbitrary: msg c) (use update_collects in \<open>fastforce simp flip: append_assoc\<close>)+

lemma final_digest:
  assumes "collects compress iv msg c"
  shows "HASH_FINAL block order mk c
    = (let c' = c\<lparr>hc_h := hash_digest compress HASH_CBLOCK 8 (length_bytes order) iv msg, hc_num := 0,
                  hc_data := replicate HASH_CBLOCK 0\<rparr>
       in (c', mk c'))"
proof -
  have c: "buffered compress HASH_CBLOCK iv msg (hc_h c) (hc_num c) (hc_data c)" "bit_count c = (8 * length msg) mod 2 ^ 64"
    using assms by (simp_all add: collects_def)
  show ?thesis
    using buffered_final [OF c(1), of "length_bytes order" 8] unfolding HASH_FINAL_def final_length_bytes [OF c(2)]
    by (cases "hc_num c + 1 > HASH_CBLOCK - 8") (simp_all add: Let_def)
qed

text \<open>The whole: any split of the message into updates gives the digest of the standard.\<close>

lemma streaming:
  "HASH_FINAL block order mk (foldl (HASH_UPDATE block) (hash_ctx_init iv ml) ds)
   = (let c = (foldl (HASH_UPDATE block) (hash_ctx_init iv ml) ds)
               \<lparr>hc_h := hash_digest compress HASH_CBLOCK 8 (length_bytes order) iv (concat ds), hc_num := 0,
                hc_data := replicate HASH_CBLOCK 0\<rparr>
      in (c, mk c))"
  using final_digest [OF updates_collect [OF collects_init]] by simp

end

end
