(* ===== verification/Sha2.thy ===== *)
theory Sha2
  imports Md32
begin

text \<open>
  What SHA-256 and SHA-512 have in common. The standard (FIPS 180-4) computes a message schedule
  of one word per round and moves eight working variables along; the code keeps the last sixteen
  words of the schedule in a ring and renames the variables from round to round instead of moving
  them. The lemmas here relate the two, for words of any width.
\<close>

section \<open>The standard\<close>

definition Ch :: "'a::len word \<Rightarrow> 'a word \<Rightarrow> 'a word \<Rightarrow> 'a word" where
  "Ch x y z = (x AND y) XOR ((NOT x) AND z)"

definition Maj :: "'a::len word \<Rightarrow> 'a word \<Rightarrow> 'a word \<Rightarrow> 'a word" where
  "Maj x y z = (x AND y) XOR (x AND z) XOR (y AND z)"

record 'w sha2_functions =
  big0 :: "'w \<Rightarrow> 'w"
  big1 :: "'w \<Rightarrow> 'w"
  small0 :: "'w \<Rightarrow> 'w"
  small1 :: "'w \<Rightarrow> 'w"
  constants :: "'w list"

fun schedule :: "'a::len word sha2_functions \<Rightarrow> (nat \<Rightarrow> 'a word) \<Rightarrow> nat \<Rightarrow> 'a word" where
  "schedule F M t =
     (if t < 16 then M t
      else small1 F (schedule F M (t - 2)) + schedule F M (t - 7) + small0 F (schedule F M (t - 15)) + schedule F M (t - 16))"

declare schedule.simps [simp del]

definition sha2_step :: "'a::len word sha2_functions \<Rightarrow> 'a word \<Rightarrow> 'a word \<Rightarrow> 'a word list \<Rightarrow> 'a word list" where
  "sha2_step F k w v =
     (let T1 = v ! 7 + big1 F (v ! 4) + Ch (v ! 4) (v ! 5) (v ! 6) + k + w; T2 = big0 F (v ! 0) + Maj (v ! 0) (v ! 1) (v ! 2)
      in [T1 + T2, v ! 0, v ! 1, v ! 2, v ! 3 + T1, v ! 4, v ! 5, v ! 6])"

primrec sha2_steps :: "'a::len word sha2_functions \<Rightarrow> (nat \<Rightarrow> 'a word) \<Rightarrow> nat \<Rightarrow> 'a word list \<Rightarrow> 'a word list" where
  "sha2_steps F M 0 v = v"
| "sha2_steps F M (Suc t) v = sha2_step F (constants F ! t) (schedule F M t) (sha2_steps F M t v)"

definition sha2_compress :: "'a::len word sha2_functions \<Rightarrow> nat \<Rightarrow> (nat \<Rightarrow> 'a word) \<Rightarrow> 'a word list \<Rightarrow> 'a word list" where
  "sha2_compress F rounds M v = map2 (+) v (sha2_steps F M rounds v)"

lemma length_sha2_steps [simp]: "length v = 8 \<Longrightarrow> length (sha2_steps F M n v) = 8"
  by (induction n) (simp_all add: sha2_step_def Let_def)

section \<open>Rotations\<close>

lemma rotate_right:
  fixes x :: "'a::len word"
  assumes "0 < n" and "n < LENGTH('a)"
  shows "drop_bit n x OR push_bit (LENGTH('a) - n) x = word_rotr n x"
proof (rule bit_word_eqI)
  fix k assume k: "k < LENGTH('a)"
  show "bit (drop_bit n x OR push_bit (LENGTH('a) - n) x) k = bit (word_rotr n x) k"
  proof (cases "k + n < LENGTH('a)")
    case True
    then have "\<not> LENGTH('a) - n \<le> k" by linarith
    then show ?thesis using True k assms by (simp add: bit_word_rotr_iff bit_simps add.commute)
  next
    case False
    then have "(k + n) mod LENGTH('a) = k - (LENGTH('a) - n)" using k assms by (simp add: le_mod_geq)
    moreover have "\<not> bit x (n + k)" using False bit_imp_le_length [of x "n + k"] by auto
    moreover have "LENGTH('a) - n \<le> k" using False by linarith
    ultimately show ?thesis using False k assms by (simp add: bit_word_rotr_iff bit_simps)
  qed
qed

section \<open>Renamed working variables\<close>

text \<open>The variable that is argument \<open>j\<close> of round \<open>i\<close>: with every round the arguments move on by one.\<close>

definition reg :: "nat \<Rightarrow> nat \<Rightarrow> nat" where
  "reg i j = (j + 8 - i mod 8) mod 8"

definition view :: "nat \<Rightarrow> 'a list \<Rightarrow> 'a list" where
  "view i r = map (\<lambda>j. r ! reg i j) [0..<8]"

lemma view_nth: "j < 8 \<Longrightarrow> view i r ! j = r ! reg i j"
  by (simp add: view_def)

lemma view_0: "length r = 8 \<Longrightarrow> i mod 8 = 0 \<Longrightarrow> view i r = r"
  by (rule nth_equalityI) (simp_all add: view_def reg_def)

lemma view_step:
  assumes "length r = 8"
  shows "view (Suc i) (r[reg i 3 := x, reg i 7 := y])
    = [y, r ! reg i 0, r ! reg i 1, r ! reg i 2, x, r ! reg i 4, r ! reg i 5, r ! reg i 6]"
proof -
  have "i mod 8 < 8" by simp
  then have "i mod 8 = 0 \<or> i mod 8 = 1 \<or> i mod 8 = 2 \<or> i mod 8 = 3 \<or> i mod 8 = 4 \<or> i mod 8 = 5 \<or> i mod 8 = 6 \<or> i mod 8 = 7"
    by linarith
  moreover have "Suc i mod 8 = (if i mod 8 = 7 then 0 else Suc (i mod 8))" by (simp add: mod_Suc)
  ultimately show ?thesis using assms
    by (elim disjE) (simp_all add: view_def reg_def upt_rec numeral_2_eq_2)
qed

section \<open>The schedule in a ring\<close>

definition ring :: "'a list \<Rightarrow> nat \<Rightarrow> (nat \<Rightarrow> 'a) \<Rightarrow> bool" where
  "ring X n W \<longleftrightarrow> length X = 16 \<and> (\<forall>t < n. n \<le> t + 16 \<longrightarrow> X ! (t mod 16) = W t)"

lemma ring_0: "length X = 16 \<Longrightarrow> ring X 0 W"
  by (simp add: ring_def)

lemma ring_add: "ring X n W \<Longrightarrow> ring (X[n mod 16 := W n]) (Suc n) W"
proof -
  assume X: "ring X n W"
  have "X[n mod 16 := W n] ! (t mod 16) = W t" if "t < Suc n" "Suc n \<le> t + 16" for t
  proof (cases "t = n")
    case True
    then show ?thesis using X by (simp add: ring_def)
  next
    case False
    then have "t mod 16 \<noteq> n mod 16" using that by (metis add.commute add_less_cancel_left le_add_diff_inverse
        less_Suc_eq less_imp_le mod_eq_dvd_iff_nat nat_dvd_not_less not_less_eq_eq zero_less_diff le_eq_less_or_eq not_le)
    then show ?thesis using X that False by (simp add: ring_def)
  qed
  then show ?thesis using X by (simp add: ring_def)
qed

lemma and_15: "n AND 0x0f = n mod (16 :: nat)"
  using and_shifted_mask [of n 0 4] by (simp add: mask_eq_exp_minus_1 take_bit_eq_mod)

lemma ring_lookup:
  assumes "ring X n W" and "16 \<le> n" and "0 < k" and "k \<le> 16"
  shows "X ! ((n + (16 - k)) mod 16) = W (n - k)"
proof -
  have "n + (16 - k) = (n - k) + 16" using assms(2,4) by simp
  then have "(n + (16 - k)) mod 16 = (n - k) mod 16" by (simp only: mod_add_self2)
  moreover have "X ! ((n - k) mod 16) = W (n - k)" using assms by (simp add: ring_def)
  ultimately show ?thesis by simp
qed

text \<open>The update of the ring in the later rounds, given what the four words are.\<close>

lemma ring_schedule:
  assumes "ring X n (schedule F M)" and "16 \<le> n"
  shows "X ! (n mod 16) + (small0 F (X ! ((n + 1) mod 16)) + small1 F (X ! ((n + 14) mod 16))) + X ! ((n + 9) mod 16)
    = schedule F M n"
  using ring_lookup [OF assms, of 16] ring_lookup [OF assms, of 15] ring_lookup [OF assms, of 7] ring_lookup [OF assms, of 2]
    assms(2) schedule.simps [of F M n] by (simp add: algebra_simps)

end
