(* ===== verification/Sha256.thy ===== *)
theory Sha256
  imports Sha2
begin

text \<open>
  \<^verbatim>\<open>crypto/fipsmodule/sha/sha256.c\<close>: SHA-224 and SHA-256 on the collector of \<^verbatim>\<open>md32_common.h\<close>,
  the functions of the standard, and that the code computes them.
\<close>

section \<open>The code\<close>

definition SHA224_DIGEST_LENGTH :: nat where "SHA224_DIGEST_LENGTH = 28"
definition SHA256_DIGEST_LENGTH :: nat where "SHA256_DIGEST_LENGTH = 32"

text \<open>A constant with the suffix \<^verbatim>\<open>UL\<close>, stored in a word of 32 bits.\<close>

definition UL :: "u32 \<Rightarrow> u32" where
  "UL x = x"

definition K256 :: "u32 list" where
  "K256 =
    [UL 0x428a2f98, UL 0x71374491, UL 0xb5c0fbcf, UL 0xe9b5dba5,
     UL 0x3956c25b, UL 0x59f111f1, UL 0x923f82a4, UL 0xab1c5ed5,
     UL 0xd807aa98, UL 0x12835b01, UL 0x243185be, UL 0x550c7dc3,
     UL 0x72be5d74, UL 0x80deb1fe, UL 0x9bdc06a7, UL 0xc19bf174,
     UL 0xe49b69c1, UL 0xefbe4786, UL 0x0fc19dc6, UL 0x240ca1cc,
     UL 0x2de92c6f, UL 0x4a7484aa, UL 0x5cb0a9dc, UL 0x76f988da,
     UL 0x983e5152, UL 0xa831c66d, UL 0xb00327c8, UL 0xbf597fc7,
     UL 0xc6e00bf3, UL 0xd5a79147, UL 0x06ca6351, UL 0x14292967,
     UL 0x27b70a85, UL 0x2e1b2138, UL 0x4d2c6dfc, UL 0x53380d13,
     UL 0x650a7354, UL 0x766a0abb, UL 0x81c2c92e, UL 0x92722c85,
     UL 0xa2bfe8a1, UL 0xa81a664b, UL 0xc24b8b70, UL 0xc76c51a3,
     UL 0xd192e819, UL 0xd6990624, UL 0xf40e3585, UL 0x106aa070,
     UL 0x19a4c116, UL 0x1e376c08, UL 0x2748774c, UL 0x34b0bcb5,
     UL 0x391c0cb3, UL 0x4ed8aa4a, UL 0x5b9cca4f, UL 0x682e6ff3,
     UL 0x748f82ee, UL 0x78a5636f, UL 0x84c87814, UL 0x8cc70208,
     UL 0x90befffa, UL 0xa4506ceb, UL 0xbef9a3f7, UL 0xc67178f2]"

definition ROTATE :: "u32 \<Rightarrow> nat \<Rightarrow> u32" where
  "ROTATE a n = push_bit n a OR drop_bit (32 - n) a"

definition Sigma0 :: "u32 \<Rightarrow> u32" where "Sigma0 x = ROTATE x 30 XOR ROTATE x 19 XOR ROTATE x 10"
definition Sigma1 :: "u32 \<Rightarrow> u32" where "Sigma1 x = ROTATE x 26 XOR ROTATE x 21 XOR ROTATE x 7"
definition sigma0 :: "u32 \<Rightarrow> u32" where "sigma0 x = ROTATE x 25 XOR ROTATE x 14 XOR drop_bit 3 x"
definition sigma1 :: "u32 \<Rightarrow> u32" where "sigma1 x = ROTATE x 15 XOR ROTATE x 13 XOR drop_bit 10 x"

text \<open>
  A round of the macro \<^verbatim>\<open>ROUND_00_15\<close>, with the variables \<^verbatim>\<open>a\<close> to \<^verbatim>\<open>h\<close> as a list and the arguments
  of the \<open>i\<close>-th call as indices of it.
\<close>

definition ROUND_00_15 :: "nat \<Rightarrow> u32 \<Rightarrow> u32 list \<Rightarrow> u32 list" where
  "ROUND_00_15 i T1 r =
     (let a = r ! reg i 0; b = r ! reg i 1; c = r ! reg i 2; d = r ! reg i 3;
          e = r ! reg i 4; f = r ! reg i 5; g = r ! reg i 6; h = r ! reg i 7;
          T1 = T1 + (h + Sigma1 e + Ch e f g + K256 ! i);
          h = Sigma0 a + Maj a b c
      in r[reg i 3 := d + T1, reg i 7 := h + T1])"

fun ROUND_16_63 :: "nat \<Rightarrow> u32 list \<times> u32 list \<Rightarrow> u32 list \<times> u32 list" where
  "ROUND_16_63 i (X, r) =
     (let s0 = sigma0 (X ! ((i + 1) AND 0x0f)); s1 = sigma1 (X ! ((i + 14) AND 0x0f));
          T1 = X ! (i AND 0x0f) + (s0 + s1 + X ! ((i + 9) AND 0x0f))
      in (X[i AND 0x0f := T1], ROUND_00_15 i T1 r))"

fun sha256_first :: "u8 list \<Rightarrow> nat \<Rightarrow> u32 list \<times> u32 list \<Rightarrow> u32 list \<times> u32 list" where
  "sha256_first data i (X, r) =
     (let l = HOST_c2l DATA_ORDER_IS_BIG_ENDIAN (take 4 (drop (4 * i) data)) in (X[i := l], ROUND_00_15 i l r))"

text \<open>One turn of the loop over the blocks; the array \<^verbatim>\<open>X\<close> is written before it is read.\<close>

definition sha256_block :: "u32 list \<Rightarrow> u8 list \<Rightarrow> u32 list" where
  "sha256_block state data =
     (let (X, r) = fold (sha256_first data) [0..<16] (replicate 16 0, state);
          (X, r) = fold ROUND_16_63 [16..<64] (X, r)
      in map2 (+) state r)"

fun sha256_block_data_order :: "u32 list \<Rightarrow> u8 list \<Rightarrow> nat \<Rightarrow> u32 list" where
  "sha256_block_data_order state data 0 = state"
| "sha256_block_data_order state data (Suc num) = sha256_block_data_order (sha256_block state (take 64 data)) (drop 64 data) num"

definition SHA224_Init :: hash_ctx where
  "SHA224_Init = hash_ctx_init [0xc1059ed8, 0x367cd507, 0x3070dd17, 0xf70e5939, 0xffc00b31, 0x68581511, 0x64f98fa7, 0xbefa4fa4] SHA224_DIGEST_LENGTH"

definition SHA256_Init :: hash_ctx where
  "SHA256_Init = hash_ctx_init [0x6a09e667, 0xbb67ae85, 0x3c6ef372, 0xa54ff53a, 0x510e527f, 0x9b05688c, 0x1f83d9ab, 0x5be0cd19] SHA256_DIGEST_LENGTH"

definition sha256_make_string :: "hash_ctx \<Rightarrow> u8 list option" where
  "sha256_make_string c =
     (let out = (\<lambda>n. concat (map (\<lambda>nn. HOST_l2c DATA_ORDER_IS_BIG_ENDIAN (hc_h c ! nn)) [0..<n]))
      in if hc_md_len c = SHA224_DIGEST_LENGTH then Some (out (SHA224_DIGEST_LENGTH div 4))
         else if hc_md_len c = SHA256_DIGEST_LENGTH then Some (out (SHA256_DIGEST_LENGTH div 4))
         else if hc_md_len c > SHA256_DIGEST_LENGTH then None
         else Some (out (hc_md_len c div 4)))"

definition SHA256_Update :: "hash_ctx \<Rightarrow> u8 list \<Rightarrow> hash_ctx" where
  "SHA256_Update = HASH_UPDATE sha256_block_data_order"

definition SHA256_Transform :: "hash_ctx \<Rightarrow> u8 list \<Rightarrow> hash_ctx" where
  "SHA256_Transform = HASH_TRANSFORM sha256_block_data_order"

definition SHA256_Final :: "hash_ctx \<Rightarrow> hash_ctx \<times> u8 list option" where
  "SHA256_Final = HASH_FINAL sha256_block_data_order DATA_ORDER_IS_BIG_ENDIAN sha256_make_string"

definition SHA224_Update :: "hash_ctx \<Rightarrow> u8 list \<Rightarrow> hash_ctx" where
  "SHA224_Update = SHA256_Update"

definition SHA224_Final :: "hash_ctx \<Rightarrow> hash_ctx \<times> u8 list option" where
  "SHA224_Final = SHA256_Final"

definition SHA224 :: "u8 list \<Rightarrow> u8 list option" where
  "SHA224 data = snd (SHA224_Final (SHA224_Update SHA224_Init data))"

definition SHA256 :: "u8 list \<Rightarrow> u8 list option" where
  "SHA256 data = snd (SHA256_Final (SHA256_Update SHA256_Init data))"

section \<open>The standard\<close>

definition sha256_functions :: "u32 sha2_functions" where
  "sha256_functions =
     \<lparr>big0 = (\<lambda>x. word_rotr 2 x XOR word_rotr 13 x XOR word_rotr 22 x),
      big1 = (\<lambda>x. word_rotr 6 x XOR word_rotr 11 x XOR word_rotr 25 x),
      small0 = (\<lambda>x. word_rotr 7 x XOR word_rotr 18 x XOR drop_bit 3 x),
      small1 = (\<lambda>x. word_rotr 17 x XOR word_rotr 19 x XOR drop_bit 10 x),
      constants = K256\<rparr>"

definition sha256_compress :: "u32 list \<Rightarrow> u8 list \<Rightarrow> u32 list" where
  "sha256_compress h b = sha2_compress sha256_functions 64 (\<lambda>t. of_nat (be_val (take 4 (drop (4 * t) b)))) h"

text \<open>The hash of a message with the words it starts from; the digest is its words in big-endian order.\<close>

definition sha256_hash :: "u32 list \<Rightarrow> u8 list \<Rightarrow> u32 list" where
  "sha256_hash iv msg = hash_digest sha256_compress 64 8 (be_bytes 8) iv msg"

definition be_words :: "'a::len word list \<Rightarrow> u8 list" where
  "be_words ws = concat (map (\<lambda>w. be_bytes (LENGTH('a) div 8) (unat w)) ws)"

section \<open>The block function\<close>

lemma sigmas:
  "Sigma0 = big0 sha256_functions" "Sigma1 = big1 sha256_functions"
  "sigma0 = small0 sha256_functions" "sigma1 = small1 sha256_functions"
proof -
  have r: "ROTATE x (32 - n) = word_rotr n x" if "0 < n" "n < 32" for x n
    using rotate_right [of n x] that by (simp add: ROTATE_def or.commute)
  note rs = r [of 2] r [of 13] r [of 22] r [of 6] r [of 11] r [of 25] r [of 7] r [of 18] r [of 17] r [of 19]
  show "Sigma0 = big0 sha256_functions" "Sigma1 = big1 sha256_functions"
    "sigma0 = small0 sha256_functions" "sigma1 = small1 sha256_functions"
    using rs by (auto simp: Sigma0_def Sigma1_def sigma0_def sigma1_def sha256_functions_def)
qed

lemma round_view:
  assumes "length r = 8"
  shows "view (Suc i) (ROUND_00_15 i w r) = sha2_step sha256_functions (K256 ! i) w (view i r)"
    and "length (ROUND_00_15 i w r) = 8"
  using view_step [OF assms] assms
  by (simp_all add: ROUND_00_15_def sha2_step_def Let_def view_nth sigmas algebra_simps)

definition sha256_agrees :: "(nat \<Rightarrow> u32) \<Rightarrow> u32 list \<Rightarrow> nat \<Rightarrow> u32 list \<times> u32 list \<Rightarrow> bool" where
  "sha256_agrees M v n = (\<lambda>(X, r).
     ring X n (schedule sha256_functions M) \<and> length r = 8 \<and> view n r = sha2_steps sha256_functions M n v)"

lemma agrees_round:
  assumes "sha256_agrees M v n (X, r)" and "w = schedule sha256_functions M n"
  shows "sha256_agrees M v (Suc n) (X[n mod 16 := w], ROUND_00_15 n w r)"
  using assms ring_add [of X n "schedule sha256_functions M"] round_view [of r n w]
  by (simp add: sha256_agrees_def) (simp add: sha256_functions_def)

lemma first_agrees:
  assumes "length v = 8" and "length b = 64" and "n \<le> 16"
  shows "sha256_agrees (\<lambda>t. of_nat (be_val (take 4 (drop (4 * t) b)))) v n
    (fold (sha256_first b) [0..<n] (replicate 16 0, v))"
  using assms(3)
proof (induction n)
  case 0
  then show ?case using assms(1) by (simp add: sha256_agrees_def ring_0 view_0)
next
  case (Suc n)
  obtain X r where f: "fold (sha256_first b) [0..<n] (replicate 16 0, v) = (X, r)" by fastforce
  have w: "HOST_c2l DATA_ORDER_IS_BIG_ENDIAN (take 4 (drop (4 * n) b))
      = schedule sha256_functions (\<lambda>t. of_nat (be_val (take 4 (drop (4 * t) b)))) n"
    using Suc.prems assms(2) HOST_c2l_big [of "take 4 (drop (4 * n) b)"] by (simp add: schedule.simps)
  have "fold (sha256_first b) [0..<Suc n] (replicate 16 0, v) = sha256_first b n (X, r)" using f by simp
  then show ?case using agrees_round [OF _ w] Suc f by (simp add: Let_def del: upt_Suc)
qed

lemma later_agrees:
  assumes "sha256_agrees M v 16 s" and "16 \<le> n"
  shows "sha256_agrees M v n (fold ROUND_16_63 [16..<n] s)"
  using assms(2)
proof (induction n rule: dec_induct)
  case base
  then show ?case using assms(1) by simp
next
  case (step n)
  obtain X r where f: "fold ROUND_16_63 [16..<n] s = (X, r)" by fastforce
  have "ring X n (schedule sha256_functions M)" using step.IH f by (simp add: sha256_agrees_def)
  from ring_schedule [OF this step.hyps(1)]
  have w: "X ! (n mod 16) + (sigma0 (X ! ((n + 1) mod 16)) + sigma1 (X ! ((n + 14) mod 16)) + X ! ((n + 9) mod 16))
      = schedule sha256_functions M n" by (simp only: sigmas add.assoc)
  have "fold ROUND_16_63 [16..<Suc n] s = ROUND_16_63 n (X, r)" using f step.hyps(1) by simp
  then show ?case using agrees_round [OF _ w] step.IH f by (simp add: Let_def and_15 del: upt_Suc)
qed

lemma sha256_block_compress:
  assumes "length v = 8" and "length b = 64"
  shows "sha256_block v b = sha256_compress v b"
proof -
  define M where "M = (\<lambda>t. of_nat (be_val (take 4 (drop (4 * t) b))) :: u32)"
  obtain X r where f: "fold (sha256_first b) [0..<16] (replicate 16 0, v) = (X, r)" by fastforce
  obtain Y q where g: "fold ROUND_16_63 [16..<64] (X, r) = (Y, q)" by fastforce
  have "sha256_agrees M v 64 (Y, q)"
    using later_agrees [of M v "(X, r)" 64] first_agrees [OF assms, of 16] f g by (simp add: M_def)
  then have "q = sha2_steps sha256_functions M 64 v" using view_0 [of q 64] by (simp add: sha256_agrees_def)
  then show ?thesis using f g by (simp add: sha256_block_def sha256_compress_def sha2_compress_def M_def)
qed

lemma length_sha256_compress [simp]: "length v = 8 \<Longrightarrow> length (sha256_compress v b) = 8"
  by (simp add: sha256_compress_def sha2_compress_def)

section \<open>Whole messages\<close>

interpretation sha256: md_collector sha256_block_data_order sha256_block
  by unfold_locales simp_all

lemma sha256_hash_block:
  assumes "length iv = 8"
  shows "hash_digest sha256_block HASH_CBLOCK 8 (length_bytes DATA_ORDER_IS_BIG_ENDIAN) iv msg = sha256_hash iv msg"
    and "length (sha256_hash iv msg) = 8"
  using absorb_cong [of "\<lambda>h. length h = 8" HASH_CBLOCK sha256_block sha256_compress iv] sha256_block_compress assms
  by (simp_all add: hash_digest_def sha256_hash_def length_bytes_def)

lemma sha256_make_string_words:
  assumes "length (hc_h c) = 8"
  shows "sha256_make_string c
    = (if hc_md_len c \<le> 32 then Some (be_words (take (hc_md_len c div 4) (hc_h c))) else None)"
proof -
  have "concat (map (\<lambda>nn. HOST_l2c DATA_ORDER_IS_BIG_ENDIAN (hc_h c ! nn)) [0..<n]) = be_words (take n (hc_h c))"
    if "n \<le> 8" for n
  proof -
    have "take n (hc_h c) = map ((!) (hc_h c)) [0..<n]" by (rule nth_equalityI) (use assms that in simp_all)
    then show ?thesis by (simp add: be_words_def HOST_l2c_big comp_def)
  qed
  then show ?thesis
    by (auto simp: sha256_make_string_def Let_def SHA224_DIGEST_LENGTH_def SHA256_DIGEST_LENGTH_def)
qed

lemma sha256_final:
  assumes "collects sha256_block iv msg c" and "length iv = 8" and "hc_md_len c \<le> 32"
  shows "snd (SHA256_Final c) = Some (be_words (take (hc_md_len c div 4) (sha256_hash iv msg)))"
  using assms(3) sha256_hash_block [OF assms(2), of msg]
  by (simp add: SHA256_Final_def sha256.final_digest [OF assms(1)] Let_def sha256_make_string_words)

lemma sha256_ctx_final:
  assumes "length iv = 8" and "ml \<le> 32"
  shows "snd (SHA256_Final (foldl SHA256_Update (hash_ctx_init iv ml) ds))
    = Some (be_words (take (ml div 4) (sha256_hash iv (concat ds))))"
proof -
  have "hc_md_len (foldl (HASH_UPDATE b) c ds) = hc_md_len c" for b c
    by (induction ds arbitrary: c) simp_all
  then have "hc_md_len (foldl SHA256_Update (hash_ctx_init iv ml) ds) = ml"
    by (simp add: SHA256_Update_def hash_ctx_init_def)
  moreover have "collects sha256_block iv (concat ds) (foldl SHA256_Update (hash_ctx_init iv ml) ds)"
    using sha256.updates_collect [OF collects_init [of sha256_block iv ml], of ds] by (simp add: SHA256_Update_def)
  ultimately show ?thesis using sha256_final [OF _ assms(1)] assms(2) by fastforce
qed

text \<open>
  C8: SHA-256 and SHA-224 are computed: feeding a message in any pieces to \<^verbatim>\<open>SHA256_Update\<close> and
  calling \<^verbatim>\<open>SHA256_Final\<close> gives the digest that FIPS 180-4 defines for the whole message, the one-shot
  functions included. The standard's padding, message schedule and rounds are stated independently of the collector, the ring
  of sixteen words and the renamed registers of the code.
\<close>

theorem sha256_streams:
  "snd (SHA256_Final (foldl SHA256_Update SHA256_Init ds)) = Some (be_words (sha256_hash (hc_h SHA256_Init) (concat ds)))
   \<and> snd (SHA224_Final (foldl SHA224_Update SHA224_Init ds)) = Some (be_words (take 7 (sha256_hash (hc_h SHA224_Init) (concat ds))))
   \<and> SHA256 (concat ds) = snd (SHA256_Final (foldl SHA256_Update SHA256_Init ds))
   \<and> SHA224 (concat ds) = snd (SHA224_Final (foldl SHA224_Update SHA224_Init ds))"
proof -
  let ?i = "hc_h SHA256_Init" and ?j = "hc_h SHA224_Init"
  have i: "SHA256_Init = hash_ctx_init ?i 32" "length ?i = 8" "SHA224_Init = hash_ctx_init ?j 28" "length ?j = 8"
    by (simp_all add: SHA256_Init_def SHA224_Init_def hash_ctx_init_def SHA256_DIGEST_LENGTH_def SHA224_DIGEST_LENGTH_def)
  have a: "snd (SHA256_Final (foldl SHA256_Update SHA256_Init ds)) = Some (be_words (sha256_hash ?i (concat ds)))" for ds
    using sha256_ctx_final [OF i(2), of 32 ds] sha256_hash_block(2) [OF i(2), of "concat ds"] by (simp flip: i(1))
  have b: "snd (SHA224_Final (foldl SHA224_Update SHA224_Init ds)) = Some (be_words (take 7 (sha256_hash ?j (concat ds))))" for ds
    using sha256_ctx_final [OF i(4), of 28 ds] by (simp add: SHA224_Final_def SHA224_Update_def flip: i(3))
  show ?thesis using a [of ds] b [of ds] a [of "[concat ds]"] b [of "[concat ds]"]
    by (simp add: SHA256_def SHA224_def)
qed

end
