(* ===== verification/Sha512.thy ===== *)
theory Sha512
  imports Sha256
begin

text \<open>
  \<^verbatim>\<open>crypto/fipsmodule/sha/sha512.c\<close>: SHA-384 and SHA-512 with a collector of their own, which
  counts in two 64-bit words and pads blocks of 128 bytes, and that the code computes the functions of the standard. The block
  function reads its input where it is, as on targets that can read unaligned words.
\<close>

section \<open>The code\<close>

definition SHA384_DIGEST_LENGTH :: nat where "SHA384_DIGEST_LENGTH = 48"
definition SHA512_DIGEST_LENGTH :: nat where "SHA512_DIGEST_LENGTH = 64"

record SHA512_CTX =
  s5_h :: "u64 list"
  s5_Nl :: u64
  s5_Nh :: u64
  s5_u :: "u8 list"
  s5_num :: nat
  s5_md_len :: nat

abbreviation SHA512_CBLOCK :: nat where "SHA512_CBLOCK \<equiv> 128"

text \<open>The macro of \<^verbatim>\<open>stdint.h\<close> that makes a constant of the type.\<close>

definition UINT64_C :: "u64 \<Rightarrow> u64" where
  "UINT64_C x = x"

definition K512 :: "u64 list" where
  "K512 =
    [UINT64_C 0x428a2f98d728ae22, UINT64_C 0x7137449123ef65cd, UINT64_C 0xb5c0fbcfec4d3b2f,
     UINT64_C 0xe9b5dba58189dbbc, UINT64_C 0x3956c25bf348b538, UINT64_C 0x59f111f1b605d019,
     UINT64_C 0x923f82a4af194f9b, UINT64_C 0xab1c5ed5da6d8118, UINT64_C 0xd807aa98a3030242,
     UINT64_C 0x12835b0145706fbe, UINT64_C 0x243185be4ee4b28c, UINT64_C 0x550c7dc3d5ffb4e2,
     UINT64_C 0x72be5d74f27b896f, UINT64_C 0x80deb1fe3b1696b1, UINT64_C 0x9bdc06a725c71235,
     UINT64_C 0xc19bf174cf692694, UINT64_C 0xe49b69c19ef14ad2, UINT64_C 0xefbe4786384f25e3,
     UINT64_C 0x0fc19dc68b8cd5b5, UINT64_C 0x240ca1cc77ac9c65, UINT64_C 0x2de92c6f592b0275,
     UINT64_C 0x4a7484aa6ea6e483, UINT64_C 0x5cb0a9dcbd41fbd4, UINT64_C 0x76f988da831153b5,
     UINT64_C 0x983e5152ee66dfab, UINT64_C 0xa831c66d2db43210, UINT64_C 0xb00327c898fb213f,
     UINT64_C 0xbf597fc7beef0ee4, UINT64_C 0xc6e00bf33da88fc2, UINT64_C 0xd5a79147930aa725,
     UINT64_C 0x06ca6351e003826f, UINT64_C 0x142929670a0e6e70, UINT64_C 0x27b70a8546d22ffc,
     UINT64_C 0x2e1b21385c26c926, UINT64_C 0x4d2c6dfc5ac42aed, UINT64_C 0x53380d139d95b3df,
     UINT64_C 0x650a73548baf63de, UINT64_C 0x766a0abb3c77b2a8, UINT64_C 0x81c2c92e47edaee6,
     UINT64_C 0x92722c851482353b, UINT64_C 0xa2bfe8a14cf10364, UINT64_C 0xa81a664bbc423001,
     UINT64_C 0xc24b8b70d0f89791, UINT64_C 0xc76c51a30654be30, UINT64_C 0xd192e819d6ef5218,
     UINT64_C 0xd69906245565a910, UINT64_C 0xf40e35855771202a, UINT64_C 0x106aa07032bbd1b8,
     UINT64_C 0x19a4c116b8d2d0c8, UINT64_C 0x1e376c085141ab53, UINT64_C 0x2748774cdf8eeb99,
     UINT64_C 0x34b0bcb5e19b48a8, UINT64_C 0x391c0cb3c5c95a63, UINT64_C 0x4ed8aa4ae3418acb,
     UINT64_C 0x5b9cca4f7763e373, UINT64_C 0x682e6ff3d6b2b8a3, UINT64_C 0x748f82ee5defb2fc,
     UINT64_C 0x78a5636f43172f60, UINT64_C 0x84c87814a1f0ab72, UINT64_C 0x8cc702081a6439ec,
     UINT64_C 0x90befffa23631e28, UINT64_C 0xa4506cebde82bde9, UINT64_C 0xbef9a3f7b2c67915,
     UINT64_C 0xc67178f2e372532b, UINT64_C 0xca273eceea26619c, UINT64_C 0xd186b8c721c0c207,
     UINT64_C 0xeada7dd6cde0eb1e, UINT64_C 0xf57d4f7fee6ed178, UINT64_C 0x06f067aa72176fba,
     UINT64_C 0x0a637dc5a2c898a6, UINT64_C 0x113f9804bef90dae, UINT64_C 0x1b710b35131c471b,
     UINT64_C 0x28db77f523047d84, UINT64_C 0x32caab7b40c72493, UINT64_C 0x3c9ebe0a15c9bebc,
     UINT64_C 0x431d67c49c100d4c, UINT64_C 0x4cc5d4becb3e42b6, UINT64_C 0x597f299cfc657e2a,
     UINT64_C 0x5fcb6fab3ad6faec, UINT64_C 0x6c44198c4a475817]"

definition PULL64 :: "u8 list \<Rightarrow> u64" where
  "PULL64 x =
     push_bit 56 (ucast (x ! 0)) OR push_bit 48 (ucast (x ! 1)) OR push_bit 40 (ucast (x ! 2)) OR push_bit 32 (ucast (x ! 3))
     OR push_bit 24 (ucast (x ! 4)) OR push_bit 16 (ucast (x ! 5)) OR push_bit 8 (ucast (x ! 6)) OR ucast (x ! 7)"

definition ROTR :: "u64 \<Rightarrow> nat \<Rightarrow> u64" where
  "ROTR x s = drop_bit s x OR push_bit (64 - s) x"

definition Sigma0_512 :: "u64 \<Rightarrow> u64" where "Sigma0_512 x = ROTR x 28 XOR ROTR x 34 XOR ROTR x 39"
definition Sigma1_512 :: "u64 \<Rightarrow> u64" where "Sigma1_512 x = ROTR x 14 XOR ROTR x 18 XOR ROTR x 41"
definition sigma0_512 :: "u64 \<Rightarrow> u64" where "sigma0_512 x = ROTR x 1 XOR ROTR x 8 XOR drop_bit 7 x"
definition sigma1_512 :: "u64 \<Rightarrow> u64" where "sigma1_512 x = ROTR x 19 XOR ROTR x 61 XOR drop_bit 6 x"

definition ROUND_00_15_512 :: "nat \<Rightarrow> u64 \<Rightarrow> u64 list \<Rightarrow> u64 list" where
  "ROUND_00_15_512 i T1 r =
     (let a = r ! reg i 0; b = r ! reg i 1; c = r ! reg i 2; d = r ! reg i 3;
          e = r ! reg i 4; f = r ! reg i 5; g = r ! reg i 6; h = r ! reg i 7;
          T1 = T1 + (h + Sigma1_512 e + Ch e f g + K512 ! i);
          h = Sigma0_512 a + Maj a b c
      in r[reg i 3 := d + T1, reg i 7 := h + T1])"

text \<open>The call \<^verbatim>\<open>ROUND_16_80(i, j, ...)\<close> for \<open>i + j\<close>, with \<open>i\<close> a multiple of sixteen and \<open>j\<close> below it.\<close>

fun ROUND_16_80 :: "nat \<Rightarrow> u64 list \<times> u64 list \<Rightarrow> u64 list \<times> u64 list" where
  "ROUND_16_80 t (X, r) =
     (let i = t div 16 * 16; j = t mod 16;
          s0 = sigma0_512 (X ! ((j + 1) AND 0x0f)); s1 = sigma1_512 (X ! ((j + 14) AND 0x0f));
          T1 = X ! (j AND 0x0f) + (s0 + s1 + X ! ((j + 9) AND 0x0f))
      in (X[j AND 0x0f := T1], ROUND_00_15_512 (i + j) T1 r))"

fun sha512_first :: "u8 list \<Rightarrow> nat \<Rightarrow> u64 list \<times> u64 list \<Rightarrow> u64 list \<times> u64 list" where
  "sha512_first W i (X, r) =
     (let T1 = PULL64 (take 8 (drop (8 * i) W)) in (X[i := T1], ROUND_00_15_512 i T1 r))"

definition sha512_block :: "u64 list \<Rightarrow> u8 list \<Rightarrow> u64 list" where
  "sha512_block state W =
     (let (X, r) = fold (sha512_first W) [0..<16] (replicate 16 0, state);
          (X, r) = fold ROUND_16_80 [16..<80] (X, r)
      in map2 (+) state r)"

fun sha512_block_data_order :: "u64 list \<Rightarrow> u8 list \<Rightarrow> nat \<Rightarrow> u64 list" where
  "sha512_block_data_order state W 0 = state"
| "sha512_block_data_order state W (Suc num) = sha512_block_data_order (sha512_block state (take 128 W)) (drop 128 W) num"

definition SHA384_Init :: "SHA512_CTX \<Rightarrow> SHA512_CTX" where
  "SHA384_Init sha = sha\<lparr>s5_h :=
      [0xcbbb9d5dc1059ed8, 0x629a292a367cd507, 0x9159015a3070dd17, 0x152fecd8f70e5939,
       0x67332667ffc00b31, 0x8eb44a8768581511, 0xdb0c2e0d64f98fa7, 0x47b5481dbefa4fa4],
     s5_Nl := 0, s5_Nh := 0, s5_num := 0, s5_md_len := SHA384_DIGEST_LENGTH\<rparr>"

definition SHA512_Init :: "SHA512_CTX \<Rightarrow> SHA512_CTX" where
  "SHA512_Init sha = sha\<lparr>s5_h :=
      [0x6a09e667f3bcc908, 0xbb67ae8584caa73b, 0x3c6ef372fe94f82b, 0xa54ff53a5f1d36f1,
       0x510e527fade682d1, 0x9b05688c2b3e6c1f, 0x1f83d9abfb41bd6b, 0x5be0cd19137e2179],
     s5_Nl := 0, s5_Nh := 0, s5_num := 0, s5_md_len := SHA512_DIGEST_LENGTH\<rparr>"

definition SHA512_Transform :: "SHA512_CTX \<Rightarrow> u8 list \<Rightarrow> SHA512_CTX" where
  "SHA512_Transform c block = c\<lparr>s5_h := sha512_block_data_order (s5_h c) block 1\<rparr>"

definition sha512_count :: "nat \<Rightarrow> SHA512_CTX \<Rightarrow> SHA512_CTX" where
  "sha512_count len c =
     (let l = s5_Nl c + push_bit 3 (of_nat len);
          Nh = (if l < s5_Nl c then s5_Nh c + 1 else s5_Nh c)
      in c\<lparr>s5_Nh := Nh + of_nat (drop_bit 61 len), s5_Nl := l\<rparr>)"

definition sha512_update_rest :: "SHA512_CTX \<Rightarrow> u8 list \<Rightarrow> SHA512_CTX" where
  "sha512_update_rest c data =
     (let len = length data;
          (c, data) = (if len \<ge> SHA512_CBLOCK
                       then (c\<lparr>s5_h := sha512_block_data_order (s5_h c) data (len div SHA512_CBLOCK)\<rparr>,
                             drop (len - len mod SHA512_CBLOCK) data)
                       else (c, data))
      in if length data \<noteq> 0 then c\<lparr>s5_u := blit (s5_u c) 0 data, s5_num := length data\<rparr> else c)"

definition SHA512_Update :: "SHA512_CTX \<Rightarrow> u8 list \<Rightarrow> SHA512_CTX" where
  "SHA512_Update c data =
     (let len = length data
      in if len = 0 then c
         else let c = sha512_count len c
              in if s5_num c \<noteq> 0
                 then let n = SHA512_CBLOCK - s5_num c
                      in if len < n then c\<lparr>s5_u := blit (s5_u c) (s5_num c) data, s5_num := s5_num c + len\<rparr>
                         else let p = blit (s5_u c) (s5_num c) (take n data)
                              in sha512_update_rest (c\<lparr>s5_u := p, s5_num := 0, s5_h := sha512_block_data_order (s5_h c) p 1\<rparr>)
                                   (drop n data)
                 else sha512_update_rest c data)"

definition sha512_bytes :: "u64 \<Rightarrow> u8 list" where
  "sha512_bytes t = [ucast (drop_bit 56 t), ucast (drop_bit 48 t), ucast (drop_bit 40 t), ucast (drop_bit 32 t),
     ucast (drop_bit 24 t), ucast (drop_bit 16 t), ucast (drop_bit 8 t), ucast t]"

text \<open>The output buffer is not \<^verbatim>\<open>NULL\<close>.\<close>

definition SHA512_Final :: "SHA512_CTX \<Rightarrow> SHA512_CTX \<times> u8 list option" where
  "SHA512_Final sha =
     (let n = s5_num sha; p = (s5_u sha)[n := 0x80]; n = n + 1;
          (h, p, n) = (if n > SHA512_CBLOCK - 16
                       then let p = blit p n (replicate (SHA512_CBLOCK - n) 0) in (sha512_block_data_order (s5_h sha) p 1, p, 0)
                       else (s5_h sha, p, n));
          p = blit p n (replicate (SHA512_CBLOCK - 16 - n) 0);
          p = blit p (SHA512_CBLOCK - 16) (sha512_bytes (s5_Nh sha) @ sha512_bytes (s5_Nl sha));
          h = sha512_block_data_order h p 1;
          out = (\<lambda>n. concat (map (\<lambda>i. sha512_bytes (h ! i)) [0..<n]))
      in (sha\<lparr>s5_h := h, s5_u := p\<rparr>,
          if s5_md_len sha = SHA384_DIGEST_LENGTH then Some (out (SHA384_DIGEST_LENGTH div 8))
          else if s5_md_len sha = SHA512_DIGEST_LENGTH then Some (out (SHA512_DIGEST_LENGTH div 8))
          else None))"

definition SHA384_Update :: "SHA512_CTX \<Rightarrow> u8 list \<Rightarrow> SHA512_CTX" where
  "SHA384_Update = SHA512_Update"

definition SHA384_Final :: "SHA512_CTX \<Rightarrow> SHA512_CTX \<times> u8 list option" where
  "SHA384_Final = SHA512_Final"

text \<open>The one-shot functions work on a context on the stack, whose content \<open>junk\<close> is arbitrary.\<close>

definition SHA384 :: "SHA512_CTX \<Rightarrow> u8 list \<Rightarrow> u8 list option" where
  "SHA384 junk data = snd (SHA384_Final (SHA384_Update (SHA384_Init junk) data))"

definition SHA512 :: "SHA512_CTX \<Rightarrow> u8 list \<Rightarrow> u8 list option" where
  "SHA512 junk data = snd (SHA512_Final (SHA512_Update (SHA512_Init junk) data))"

section \<open>The standard\<close>

definition sha512_functions :: "u64 sha2_functions" where
  "sha512_functions =
     \<lparr>big0 = (\<lambda>x. word_rotr 28 x XOR word_rotr 34 x XOR word_rotr 39 x),
      big1 = (\<lambda>x. word_rotr 14 x XOR word_rotr 18 x XOR word_rotr 41 x),
      small0 = (\<lambda>x. word_rotr 1 x XOR word_rotr 8 x XOR drop_bit 7 x),
      small1 = (\<lambda>x. word_rotr 19 x XOR word_rotr 61 x XOR drop_bit 6 x),
      constants = K512\<rparr>"

definition sha512_compress :: "u64 list \<Rightarrow> u8 list \<Rightarrow> u64 list" where
  "sha512_compress h b = sha2_compress sha512_functions 80 (\<lambda>t. of_nat (be_val (take 8 (drop (8 * t) b)))) h"

definition sha512_hash :: "u64 list \<Rightarrow> u8 list \<Rightarrow> u64 list" where
  "sha512_hash iv msg = hash_digest sha512_compress 128 16 (be_bytes 16) iv msg"

section \<open>The block function\<close>

lemma sigmas_512:
  "Sigma0_512 = big0 sha512_functions" "Sigma1_512 = big1 sha512_functions"
  "sigma0_512 = small0 sha512_functions" "sigma1_512 = small1 sha512_functions"
proof -
  have r: "ROTR x n = word_rotr n x" if "0 < n" "n < 64" for x n
    using rotate_right [of n x] that by (simp add: ROTR_def)
  show "Sigma0_512 = big0 sha512_functions" "Sigma1_512 = big1 sha512_functions"
    "sigma0_512 = small0 sha512_functions" "sigma1_512 = small1 sha512_functions"
    by (auto simp: Sigma0_512_def Sigma1_512_def sigma0_512_def sigma1_512_def sha512_functions_def r)
qed

lemma PULL64_be:
  assumes "length x = 8" shows "PULL64 x = of_nat (be_val x)"
proof -
  have "x = [x ! 0, x ! 1, x ! 2, x ! 3, x ! 4, x ! 5, x ! 6, x ! 7]"
    by (rule nth_equalityI) (use assms in \<open>auto simp: less_Suc_eq numeral_eq_Suc\<close>)
  then have "(of_nat (be_val x) :: u64)
      = foldl (\<lambda>r b. push_bit 8 r OR ucast b) 0 [x ! 0, x ! 1, x ! 2, x ! 3, x ! 4, x ! 5, x ! 6, x ! 7]"
    by (simp only: foldl_shift_or)
  then show ?thesis by (simp add: PULL64_def push_bit_or or.assoc)
qed

lemma round_view_512:
  assumes "length r = 8"
  shows "view (Suc i) (ROUND_00_15_512 i w r) = sha2_step sha512_functions (K512 ! i) w (view i r)"
    and "length (ROUND_00_15_512 i w r) = 8"
  using view_step [OF assms] assms
  by (simp_all add: ROUND_00_15_512_def sha2_step_def Let_def view_nth sigmas_512 algebra_simps)

definition sha512_agrees :: "(nat \<Rightarrow> u64) \<Rightarrow> u64 list \<Rightarrow> nat \<Rightarrow> u64 list \<times> u64 list \<Rightarrow> bool" where
  "sha512_agrees M v n = (\<lambda>(X, r).
     ring X n (schedule sha512_functions M) \<and> length r = 8 \<and> view n r = sha2_steps sha512_functions M n v)"

lemma agrees_round_512:
  assumes "sha512_agrees M v n (X, r)" and "w = schedule sha512_functions M n"
  shows "sha512_agrees M v (Suc n) (X[n mod 16 := w], ROUND_00_15_512 n w r)"
  using assms ring_add [of X n "schedule sha512_functions M"] round_view_512 [of r n w]
  by (simp add: sha512_agrees_def) (simp add: sha512_functions_def)

lemma first_agrees_512:
  assumes "length v = 8" and "length b = 128" and "n \<le> 16"
  shows "sha512_agrees (\<lambda>t. of_nat (be_val (take 8 (drop (8 * t) b)))) v n
    (fold (sha512_first b) [0..<n] (replicate 16 0, v))"
  using assms(3)
proof (induction n)
  case 0
  then show ?case using assms(1) by (simp add: sha512_agrees_def ring_0 view_0)
next
  case (Suc n)
  obtain X r where f: "fold (sha512_first b) [0..<n] (replicate 16 0, v) = (X, r)" by fastforce
  have w: "PULL64 (take 8 (drop (8 * n) b)) = schedule sha512_functions (\<lambda>t. of_nat (be_val (take 8 (drop (8 * t) b)))) n"
    using Suc.prems assms(2) PULL64_be [of "take 8 (drop (8 * n) b)"] by (simp add: schedule.simps)
  have "fold (sha512_first b) [0..<Suc n] (replicate 16 0, v) = sha512_first b n (X, r)" using f by simp
  then show ?case using agrees_round_512 [OF _ w] Suc f by (simp add: Let_def del: upt_Suc)
qed

lemma later_agrees_512:
  assumes "sha512_agrees M v 16 s" and "16 \<le> n"
  shows "sha512_agrees M v n (fold ROUND_16_80 [16..<n] s)"
  using assms(2)
proof (induction n rule: dec_induct)
  case base
  then show ?case using assms(1) by simp
next
  case (step n)
  obtain X r where f: "fold ROUND_16_80 [16..<n] s = (X, r)" by fastforce
  have "ring X n (schedule sha512_functions M)" using step.IH f by (simp add: sha512_agrees_def)
  from ring_schedule [OF this step.hyps(1)]
  have w: "X ! (n mod 16) + (sigma0_512 (X ! ((n mod 16 + 1) mod 16)) + sigma1_512 (X ! ((n mod 16 + 14) mod 16))
        + X ! ((n mod 16 + 9) mod 16)) = schedule sha512_functions M n"
    by (simp only: sigmas_512 add.assoc mod_add_left_eq)
  have "n div 16 * 16 + n mod 16 = n" by simp
  then have "fold ROUND_16_80 [16..<Suc n] s
      = (X[n mod 16 := schedule sha512_functions M n], ROUND_00_15_512 n (schedule sha512_functions M n) r)"
    using f step.hyps(1) w by (simp add: Let_def and_15 mod_mod_trivial del: mod_add_left_eq)
  then show ?case using agrees_round_512 [of M v n X r] step.IH f by (simp del: upt_Suc)
qed

lemma sha512_block_compress:
  assumes "length v = 8" and "length b = 128"
  shows "sha512_block v b = sha512_compress v b"
proof -
  define M where "M = (\<lambda>t. of_nat (be_val (take 8 (drop (8 * t) b))) :: u64)"
  obtain X r where f: "fold (sha512_first b) [0..<16] (replicate 16 0, v) = (X, r)" by fastforce
  obtain Y q where g: "fold ROUND_16_80 [16..<80] (X, r) = (Y, q)" by fastforce
  have "sha512_agrees M v 80 (Y, q)"
    using later_agrees_512 [of M v "(X, r)" 80] first_agrees_512 [OF assms, of 16] f g by (simp add: M_def)
  then have "q = sha2_steps sha512_functions M 80 v" using view_0 [of q 80] by (simp add: sha512_agrees_def)
  then show ?thesis using f g by (simp add: sha512_block_def sha512_compress_def sha2_compress_def M_def)
qed

lemma length_sha512_compress [simp]: "length v = 8 \<Longrightarrow> length (sha512_compress v b) = 8"
  using length_sha2_steps by (simp add: sha512_compress_def sha2_compress_def)

interpretation sha512: block_function sha512_block_data_order sha512_block SHA512_CBLOCK
  by unfold_locales simp_all

lemma sha512_hash_block:
  assumes "length iv = 8"
  shows "hash_digest sha512_block SHA512_CBLOCK 16 (be_bytes 16) iv msg = sha512_hash iv msg"
    and "length (sha512_hash iv msg) = 8"
  using absorb_cong [of "\<lambda>h. length h = 8" SHA512_CBLOCK sha512_block sha512_compress iv] sha512_block_compress assms
  by (simp_all add: hash_digest_def sha512_hash_def)

section \<open>The collector\<close>

definition sha512_bit_count :: "SHA512_CTX \<Rightarrow> nat" where
  "sha512_bit_count c = unat (s5_Nh c) * 2 ^ 64 + unat (s5_Nl c)"

definition sha512_collects :: "u64 list \<Rightarrow> u8 list \<Rightarrow> SHA512_CTX \<Rightarrow> bool" where
  "sha512_collects iv msg c \<longleftrightarrow>
     buffered sha512_block SHA512_CBLOCK iv msg (s5_h c) (s5_num c) (s5_u c) \<and> sha512_bit_count c = (8 * length msg) mod 2 ^ 128"

lemma sha512_bytes_be: "sha512_bytes t = be_bytes 8 (unat t)"
proof -
  have e: "(8 :: nat) = Suc (Suc (Suc (Suc 4)))" by simp
  have "sha512_bytes t = [of_nat (unat t div 2 ^ 56), of_nat (unat t div 2 ^ 48), of_nat (unat t div 2 ^ 40), of_nat (unat t div 2 ^ 32),
     of_nat (unat t div 2 ^ 24), of_nat (unat t div 2 ^ 16), of_nat (unat t div 2 ^ 8), of_nat (unat t)]"
    unfolding sha512_bytes_def ucast_eq_of_nat unat_drop_bit ..
  also have "\<dots> = be_bytes 8 (unat t)" unfolding e be_bytes.simps be_bytes_4 by (simp add: div_mult2_eq [symmetric])
  finally show ?thesis .
qed

lemma sha512_length_bytes:
  assumes "sha512_bit_count c = (8 * n) mod 2 ^ 128"
  shows "sha512_bytes (s5_Nh c) @ sha512_bytes (s5_Nl c) = be_bytes 16 (8 * n)"
proof -
  have "unat (s5_Nl c) < 256 ^ 8" using unsigned_less [of "s5_Nl c", where ?'a = nat] by simp
  from be_bytes_append [OF this, of 8 "unat (s5_Nh c)"] show ?thesis
    using assms be_bytes_mod [of 16 "8 * n"] by (simp add: sha512_bit_count_def sha512_bytes_be)
qed

lemma sha512_count_adds: "sha512_bit_count (sha512_count n c) = (sha512_bit_count c + 8 * n) mod 2 ^ 128"
  using two_word_counter [of "s5_Nl c" n "s5_Nh c"] by (simp add: sha512_bit_count_def sha512_count_def Let_def)

lemma sha512_count_frame [simp]:
  "s5_h (sha512_count n c) = s5_h c" "s5_num (sha512_count n c) = s5_num c" "s5_u (sha512_count n c) = s5_u c"
  "s5_md_len (sha512_count n c) = s5_md_len c"
  by (simp_all add: sha512_count_def Let_def)

lemma sha512_blocks_prefix:
  "length data \<ge> n * 128 \<Longrightarrow> sha512_block_data_order h (take (n * 128) data) n = sha512_block_data_order h data n"
  by (induction n arbitrary: h data) (simp_all add: min_absorb1 drop_take)

lemma sha512_update_rest_collects:
  assumes "s5_h c = absorb sha512_block SHA512_CBLOCK iv msg" and "pending SHA512_CBLOCK msg = []" and "s5_num c = 0"
    and "length (s5_u c) = SHA512_CBLOCK" and "sha512_bit_count c = 8 * length (msg @ data) mod 2 ^ 128"
  shows "sha512_collects iv (msg @ data) (sha512_update_rest c data)"
proof -
  let ?n = "length data div SHA512_CBLOCK"
  have d: "length data - length data mod SHA512_CBLOCK = ?n * SHA512_CBLOCK" by (simp add: minus_mod_eq_div_mult)
  have n: "?n > 0 \<longleftrightarrow> length data \<ge> SHA512_CBLOCK" by (simp add: div_greater_zero_iff)
  have z: "drop (?n * SHA512_CBLOCK) data = [] \<longleftrightarrow> length data - ?n * SHA512_CBLOCK = 0" by simp
  have s: "?n = 0 \<Longrightarrow> \<not> SHA512_CBLOCK \<le> length data" using n by simp
  have p: "sha512_block_data_order (s5_h c) (take (?n * SHA512_CBLOCK) data) ?n = sha512_block_data_order (s5_h c) data ?n"
    by (rule sha512_blocks_prefix) simp
  have r: "sha512_update_rest c data
      = (let c = (if ?n > 0 then c\<lparr>s5_h := sha512_block_data_order (s5_h c) (take (?n * SHA512_CBLOCK) data) ?n\<rparr> else c);
             data = drop (?n * SHA512_CBLOCK) data
         in if data \<noteq> [] then c\<lparr>s5_u := blit (s5_u c) 0 data, s5_num := length data\<rparr> else c)"
    unfolding sha512_update_rest_def d Let_def n [symmetric] p using s by (cases "?n > 0") simp_all
  show ?thesis using sha512.buffered_rest [OF assms(1,2,4), of data] assms(3,5) z unfolding r
    by (cases "?n > 0"; cases "drop (?n * SHA512_CBLOCK) data = []") (simp_all add: sha512_collects_def sha512_bit_count_def Let_def)
qed

lemma sha512_update_collects:
  assumes "sha512_collects iv msg c"
  shows "sha512_collects iv (msg @ data) (SHA512_Update c data)"
proof (cases "data = []")
  case True
  then show ?thesis using assms by (simp add: SHA512_Update_def)
next
  case False
  let ?c = "sha512_count (length data) c" and ?n = "s5_num c"
  have c: "buffered sha512_block SHA512_CBLOCK iv msg (s5_h c) ?n (s5_u c)" "?n < SHA512_CBLOCK" "length (s5_u c) = SHA512_CBLOCK"
      "s5_h c = absorb sha512_block SHA512_CBLOCK iv msg" "?n = length (pending SHA512_CBLOCK msg)"
    using assms by (auto simp: sha512_collects_def buffered_def length_pending)
  have b: "sha512_bit_count ?c = 8 * length (msg @ data) mod 2 ^ 128"
    using assms by (simp add: sha512_collects_def sha512_count_adds mod_add_left_eq)
  show ?thesis
  proof (cases "?n = 0")
    case True
    have "sha512_collects iv (msg @ data) (sha512_update_rest ?c data)"
      by (rule sha512_update_rest_collects) (use c True b in simp_all)
    then show ?thesis using True False by (simp add: SHA512_Update_def Let_def)
  next
    case nz: False
    let ?t = "take (SHA512_CBLOCK - ?n) data" and ?d = "drop (SHA512_CBLOCK - ?n) data"
    show ?thesis
    proof (cases "length data < SHA512_CBLOCK - ?n")
      case True
      then have "?n + length data < SHA512_CBLOCK" using c(2) by simp
      from sha512.buffered_short [OF c(1) this] show ?thesis using False nz True b
        by (simp add: SHA512_Update_def Let_def sha512_collects_def sha512_bit_count_def)
    next
      case full: False
      then have "SHA512_CBLOCK - ?n \<le> length data" by simp
      note fill = sha512.buffered_fill [OF c(1) this]
      let ?p = "blit (s5_u c) ?n ?t"
      have "length ?p = SHA512_CBLOCK" using c(2,3) full by simp
      then have "sha512_collects iv ((msg @ ?t) @ ?d)
          (sha512_update_rest (?c\<lparr>s5_u := ?p, s5_num := 0, s5_h := sha512_block_data_order (s5_h c) ?p 1\<rparr>) ?d)"
        by (intro sha512_update_rest_collects) (use b fill in \<open>simp_all add: sha512_bit_count_def\<close>)
      then show ?thesis using False nz full by (simp add: SHA512_Update_def Let_def)
    qed
  qed
qed

lemma sha512_updates_collect:
  "sha512_collects iv msg c \<Longrightarrow> sha512_collects iv (msg @ concat ds) (foldl SHA512_Update c ds)"
  by (induction ds arbitrary: msg c) (use sha512_update_collects in \<open>fastforce simp flip: append_assoc\<close>)+

lemma sha512_final_digest:
  assumes "sha512_collects iv msg c" and "length iv = 8" and "s5_md_len c = 48 \<or> s5_md_len c = 64"
  shows "snd (SHA512_Final c) = Some (be_words (take (s5_md_len c div 8) (sha512_hash iv msg)))"
proof -
  have c: "buffered sha512_block SHA512_CBLOCK iv msg (s5_h c) (s5_num c) (s5_u c)"
      "sha512_bit_count c = (8 * length msg) mod 2 ^ 128" using assms(1) by (simp_all add: sha512_collects_def)
  let ?h = "sha512_hash iv msg"
  have out: "concat (map (\<lambda>i. sha512_bytes (?h ! i)) [0..<n]) = be_words (take n ?h)" if "n \<le> 8" for n
  proof -
    have "take n ?h = map ((!) ?h) [0..<n]"
      by (rule nth_equalityI) (use sha512_hash_block(2) [OF assms(2)] that in simp_all)
    then show ?thesis by (simp add: be_words_def sha512_bytes_be comp_def)
  qed
  note final = sha512.buffered_final [OF c(1), of "be_bytes 16" 16, unfolded sha512_hash_block(1) [OF assms(2)]]
  show ?thesis unfolding SHA512_Final_def sha512_length_bytes [OF c(2)] using assms(3) final out
    by (cases "s5_num c + 1 > SHA512_CBLOCK - 16") (auto simp: Let_def SHA384_DIGEST_LENGTH_def SHA512_DIGEST_LENGTH_def)
qed

lemma sha512_md_len_update: "s5_md_len (SHA512_Update c d) = s5_md_len c"
  by (simp add: SHA512_Update_def sha512_update_rest_def Let_def)

lemma sha512_final_buffer:
  assumes "length (s5_u c) = SHA512_CBLOCK" and "s5_num c < SHA512_CBLOCK"
  shows "length (s5_u (fst (SHA512_Final c))) = SHA512_CBLOCK"
  using assms by (simp add: SHA512_Final_def Let_def sha512_bytes_be split: prod.split)

lemma sha512_md_len: "s5_md_len (foldl SHA512_Update c ds) = s5_md_len c"
  by (induction ds arbitrary: c) (simp_all add: sha512_md_len_update)

text \<open>
  C36: SHA-512 and SHA-384 are computed: from any context with a buffer of one block, initialised and fed
  with a message in any pieces, \<^verbatim>\<open>SHA512_Final\<close> gives the digest that FIPS 180-4 defines for the whole message;
  so do the one-shot functions, whatever was on the stack.
\<close>

theorem sha512_streams:
  assumes "length (s5_u c) = 128"
  shows "snd (SHA512_Final (foldl SHA512_Update (SHA512_Init c) ds)) = Some (be_words (sha512_hash (s5_h (SHA512_Init c)) (concat ds)))
   \<and> snd (SHA384_Final (foldl SHA384_Update (SHA384_Init c) ds)) = Some (be_words (take 6 (sha512_hash (s5_h (SHA384_Init c)) (concat ds))))
   \<and> SHA512 c (concat ds) = snd (SHA512_Final (foldl SHA512_Update (SHA512_Init c) ds))
   \<and> SHA384 c (concat ds) = snd (SHA384_Final (foldl SHA384_Update (SHA384_Init c) ds))"
proof -
  have i: "sha512_collects (s5_h (SHA512_Init c)) [] (SHA512_Init c)" "sha512_collects (s5_h (SHA384_Init c)) [] (SHA384_Init c)"
    "length (s5_h (SHA512_Init c)) = 8" "length (s5_h (SHA384_Init c)) = 8" "s5_md_len (SHA512_Init c) = 64" "s5_md_len (SHA384_Init c) = 48"
    using assms by (simp_all add: sha512_collects_def buffered_def sha512_bit_count_def absorb_short pending_def
        SHA512_Init_def SHA384_Init_def SHA384_DIGEST_LENGTH_def SHA512_DIGEST_LENGTH_def)
  have a: "snd (SHA512_Final (foldl SHA512_Update (SHA512_Init c) ds)) = Some (be_words (sha512_hash (s5_h (SHA512_Init c)) (concat ds)))" for ds
    using sha512_final_digest [OF sha512_updates_collect [OF i(1)] i(3), of ds] sha512_hash_block(2) [OF i(3), of "concat ds"]
    by (simp add: sha512_md_len i(5))
  have b: "snd (SHA384_Final (foldl SHA384_Update (SHA384_Init c) ds)) = Some (be_words (take 6 (sha512_hash (s5_h (SHA384_Init c)) (concat ds))))" for ds
    using sha512_final_digest [OF sha512_updates_collect [OF i(2)] i(4), of ds]
    by (simp add: sha512_md_len i(6) SHA384_Final_def SHA384_Update_def)
  show ?thesis using a [of ds] b [of ds] a [of "[concat ds]"] b [of "[concat ds]"]
    by (simp add: SHA512_def SHA384_def)
qed

text \<open>A context on a stack of zeros.\<close>

definition zero_sha512 :: SHA512_CTX where
  "zero_sha512 = \<lparr>s5_h = replicate 8 0, s5_Nl = 0, s5_Nh = 0, s5_u = replicate 128 0, s5_num = 0, s5_md_len = 0\<rparr>"

theorem sha512_streams_witness:
  "snd (SHA512_Final (foldl SHA512_Update (SHA512_Init zero_sha512) [[97], [98, 99]]))
   = Some (be_words (sha512_hash (s5_h (SHA512_Init zero_sha512)) [97, 98, 99]))"
proof -
  have "length (s5_u zero_sha512) = 128" by (simp add: zero_sha512_def)
  from sha512_streams [OF this, of "[[97], [98, 99]]"] show ?thesis by simp
qed

end
