(* ===== verification/Sha1.thy ===== *)
theory Sha1
  imports Sha256
begin

text \<open>
  \<^verbatim>\<open>crypto/fipsmodule/sha/sha1.c\<close> on the collector of \<^verbatim>\<open>md32_common.h\<close>: six variables of which
  one is free in every round, the schedule in sixteen variables that are overwritten, and simplified
  logical functions. The code computes the function of FIPS 180-4.
\<close>

section \<open>The code\<close>

definition K_00_19 :: u32 where "K_00_19 = 0x5a827999"
definition K_20_39 :: u32 where "K_20_39 = 0x6ed9eba1"
definition K_40_59 :: u32 where "K_40_59 = 0x8f1bbcdc"
definition K_60_79 :: u32 where "K_60_79 = 0xca62c1d6"

definition F_00_19 :: "u32 \<Rightarrow> u32 \<Rightarrow> u32 \<Rightarrow> u32" where "F_00_19 b c d = ((c XOR d) AND b) XOR d"
definition F_20_39 :: "u32 \<Rightarrow> u32 \<Rightarrow> u32 \<Rightarrow> u32" where "F_20_39 b c d = b XOR c XOR d"
definition F_40_59 :: "u32 \<Rightarrow> u32 \<Rightarrow> u32 \<Rightarrow> u32" where "F_40_59 b c d = (b AND c) OR ((b OR c) AND d)"
definition F_60_79 :: "u32 \<Rightarrow> u32 \<Rightarrow> u32 \<Rightarrow> u32" where "F_60_79 b c d = F_20_39 b c d"

text \<open>Which of the variables \<^verbatim>\<open>A\<close> to \<^verbatim>\<open>E\<close> and \<^verbatim>\<open>T\<close> is argument \<open>j\<close> of the \<open>i\<close>-th call.\<close>

definition reg6 :: "nat \<Rightarrow> nat \<Rightarrow> nat" where
  "reg6 i j = (j + 6 - i mod 6) mod 6"

definition Xupdate :: "nat \<Rightarrow> u32 list \<Rightarrow> u32" where
  "Xupdate i X = ROTATE (X ! (i mod 16) XOR X ! ((i + 2) mod 16) XOR X ! ((i + 8) mod 16) XOR X ! ((i + 13) mod 16)) 1"

definition BODY_00_15 :: "nat \<Rightarrow> u32 list \<Rightarrow> u32 \<Rightarrow> u32 list" where
  "BODY_00_15 i r xi =
     (let a = r ! reg6 i 0; b = r ! reg6 i 1; c = r ! reg6 i 2; d = r ! reg6 i 3; e = r ! reg6 i 4
      in r[reg6 i 5 := xi + e + K_00_19 + ROTATE a 5 + F_00_19 b c d, reg6 i 1 := ROTATE b 30])"

definition BODY_16_19 :: "nat \<Rightarrow> u32 list \<Rightarrow> u32 \<Rightarrow> u32 list" where
  "BODY_16_19 i r f =
     (let a = r ! reg6 i 0; b = r ! reg6 i 1; c = r ! reg6 i 2; d = r ! reg6 i 3; e = r ! reg6 i 4
      in r[reg6 i 5 := f + (e + K_00_19 + ROTATE a 5 + F_00_19 b c d), reg6 i 1 := ROTATE b 30])"

definition BODY_20_31 :: "nat \<Rightarrow> u32 list \<Rightarrow> u32 \<Rightarrow> u32 list" where
  "BODY_20_31 i r f =
     (let a = r ! reg6 i 0; b = r ! reg6 i 1; c = r ! reg6 i 2; d = r ! reg6 i 3; e = r ! reg6 i 4
      in r[reg6 i 5 := f + (e + K_20_39 + ROTATE a 5 + F_20_39 b c d), reg6 i 1 := ROTATE b 30])"

definition BODY_32_39 :: "nat \<Rightarrow> u32 list \<Rightarrow> u32 \<Rightarrow> u32 list" where
  "BODY_32_39 i r f =
     (let a = r ! reg6 i 0; b = r ! reg6 i 1; c = r ! reg6 i 2; d = r ! reg6 i 3; e = r ! reg6 i 4
      in r[reg6 i 5 := f + (e + K_20_39 + ROTATE a 5 + F_20_39 b c d), reg6 i 1 := ROTATE b 30])"

definition BODY_40_59 :: "nat \<Rightarrow> u32 list \<Rightarrow> u32 \<Rightarrow> u32 list" where
  "BODY_40_59 i r f =
     (let a = r ! reg6 i 0; b = r ! reg6 i 1; c = r ! reg6 i 2; d = r ! reg6 i 3; e = r ! reg6 i 4
      in r[reg6 i 5 := f + (e + K_40_59 + ROTATE a 5 + F_40_59 b c d), reg6 i 1 := ROTATE b 30])"

definition BODY_60_79 :: "nat \<Rightarrow> u32 list \<Rightarrow> u32 \<Rightarrow> u32 list" where
  "BODY_60_79 i r xa =
     (let a = r ! reg6 i 0; b = r ! reg6 i 1; c = r ! reg6 i 2; d = r ! reg6 i 3; e = r ! reg6 i 4
      in r[reg6 i 5 := xa + e + K_60_79 + ROTATE a 5 + F_60_79 b c d, reg6 i 1 := ROTATE b 30])"

text \<open>The calls of the body of the loop in their order: sixteen on the words of the block, then the others.\<close>

fun sha1_first :: "u8 list \<Rightarrow> nat \<Rightarrow> u32 list \<times> u32 list \<Rightarrow> u32 list \<times> u32 list" where
  "sha1_first data i (X, r) =
     (let l = HOST_c2l DATA_ORDER_IS_BIG_ENDIAN (take 4 (drop (4 * i) data)) in (X[i := l], BODY_00_15 i r l))"

fun sha1_later :: "nat \<Rightarrow> u32 list \<times> u32 list \<Rightarrow> u32 list \<times> u32 list" where
  "sha1_later i (X, r) =
     (let w = Xupdate i X
      in (X[i mod 16 := w],
          if i < 20 then BODY_16_19 i r w else if i < 32 then BODY_20_31 i r w else if i < 40 then BODY_32_39 i r w
          else if i < 60 then BODY_40_59 i r w else BODY_60_79 i r w))"

definition sha1_block :: "u32 list \<Rightarrow> u8 list \<Rightarrow> u32 list" where
  "sha1_block state data =
     (let (X, r) = fold (sha1_first data) [0..<16] (replicate 16 0, state @ [0]);
          (X, r) = fold sha1_later [16..<80] (X, r);
          A = r ! 0; B = r ! 1; C = r ! 2; E = r ! 4; T = r ! 5
      in [state ! 0 + E, state ! 1 + T, state ! 2 + A, state ! 3 + B, state ! 4 + C])"

fun sha1_blocks :: "u32 list \<Rightarrow> u8 list \<Rightarrow> nat \<Rightarrow> u32 list" where
  "sha1_blocks state data 0 = state"
| "sha1_blocks state data (Suc num) = sha1_blocks (sha1_block state (take 64 data)) (drop 64 data) num"

text \<open>The loop tests after a turn, so that a count of zero wraps around.\<close>

definition sha1_block_data_order :: "u32 list \<Rightarrow> u8 list \<Rightarrow> nat \<Rightarrow> u32 list" where
  "sha1_block_data_order state data num = sha1_blocks state data (if num = 0 then size_t_end else num)"

definition SHA1_Init :: hash_ctx where
  "SHA1_Init = hash_ctx_init [0x67452301, 0xefcdab89, 0x98badcfe, 0x10325476, 0xc3d2e1f0] 0"

definition sha1_make_string :: "hash_ctx \<Rightarrow> u8 list option" where
  "sha1_make_string c = Some (concat (map (\<lambda>i. HOST_l2c DATA_ORDER_IS_BIG_ENDIAN (hc_h c ! i)) [0, 1, 2, 3, 4]))"

definition SHA1_Update :: "hash_ctx \<Rightarrow> u8 list \<Rightarrow> hash_ctx" where
  "SHA1_Update = HASH_UPDATE sha1_block_data_order"

definition SHA1_Transform :: "hash_ctx \<Rightarrow> u8 list \<Rightarrow> hash_ctx" where
  "SHA1_Transform = HASH_TRANSFORM sha1_block_data_order"

definition SHA1_Final :: "hash_ctx \<Rightarrow> hash_ctx \<times> u8 list option" where
  "SHA1_Final = HASH_FINAL sha1_block_data_order DATA_ORDER_IS_BIG_ENDIAN sha1_make_string"

definition SHA1 :: "u8 list \<Rightarrow> u8 list option" where
  "SHA1 data = snd (SHA1_Final (SHA1_Update SHA1_Init data))"

section \<open>The standard\<close>

definition sha1_f :: "nat \<Rightarrow> u32 \<Rightarrow> u32 \<Rightarrow> u32 \<Rightarrow> u32" where
  "sha1_f t x y z =
     (if t < 20 then Ch x y z else if t < 40 then x XOR y XOR z else if t < 60 then Maj x y z else x XOR y XOR z)"

definition sha1_K :: "nat \<Rightarrow> u32" where
  "sha1_K t = (if t < 20 then 0x5a827999 else if t < 40 then 0x6ed9eba1 else if t < 60 then 0x8f1bbcdc else 0xca62c1d6)"

fun sha1_schedule :: "(nat \<Rightarrow> u32) \<Rightarrow> nat \<Rightarrow> u32" where
  "sha1_schedule M t =
     (if t < 16 then M t
      else word_rotl 1 (sha1_schedule M (t - 3) XOR sha1_schedule M (t - 8) XOR sha1_schedule M (t - 14) XOR sha1_schedule M (t - 16)))"

declare sha1_schedule.simps [simp del]

definition sha1_step :: "nat \<Rightarrow> u32 \<Rightarrow> u32 list \<Rightarrow> u32 list" where
  "sha1_step t w v =
     [word_rotl 5 (v ! 0) + sha1_f t (v ! 1) (v ! 2) (v ! 3) + v ! 4 + sha1_K t + w, v ! 0, word_rotl 30 (v ! 1), v ! 2, v ! 3]"

primrec sha1_steps :: "(nat \<Rightarrow> u32) \<Rightarrow> nat \<Rightarrow> u32 list \<Rightarrow> u32 list" where
  "sha1_steps M 0 v = v"
| "sha1_steps M (Suc t) v = sha1_step t (sha1_schedule M t) (sha1_steps M t v)"

definition sha1_compress :: "u32 list \<Rightarrow> u8 list \<Rightarrow> u32 list" where
  "sha1_compress h b = map2 (+) h (sha1_steps (\<lambda>t. of_nat (be_val (take 4 (drop (4 * t) b)))) 80 h)"

definition sha1_hash :: "u32 list \<Rightarrow> u8 list \<Rightarrow> u32 list" where
  "sha1_hash iv msg = hash_digest sha1_compress 64 8 (be_bytes 8) iv msg"

section \<open>The block function\<close>

lemma rotate_left:
  assumes "0 < n" and "n < 32" shows "ROTATE x n = word_rotl n x"
proof -
  have "word_rotl n x = word_rotr (32 - n) x"
    by (rule bit_word_eqI) (use assms in \<open>simp add: bit_word_rotl_iff bit_word_rotr_iff\<close>)
  then show ?thesis using rotate_right [of "32 - n" x] assms by (simp add: ROTATE_def or.commute)
qed

lemma sha1_logical:
  "F_00_19 b c d = Ch b c d" "F_20_39 b c d = b XOR c XOR d" "F_40_59 b c d = Maj b c d" "F_60_79 b c d = b XOR c XOR d"
proof -
  show "F_00_19 b c d = Ch b c d" by (rule bit_word_eqI) (auto simp: F_00_19_def Ch_def bit_simps)
  show "F_40_59 b c d = Maj b c d" by (rule bit_word_eqI) (auto simp: F_40_59_def Maj_def bit_simps)
  show "F_20_39 b c d = b XOR c XOR d" "F_60_79 b c d = b XOR c XOR d" by (simp_all add: F_20_39_def F_60_79_def)
qed

text \<open>The five working variables before round \<open>i\<close>.\<close>

definition view6 :: "nat \<Rightarrow> 'a list \<Rightarrow> 'a list" where
  "view6 i r = map (\<lambda>j. r ! reg6 i j) [0..<5]"

lemma view6_step:
  assumes "length r = 6"
  shows "view6 (Suc i) (r[reg6 i 5 := x, reg6 i 1 := y]) = [x, r ! reg6 i 0, y, r ! reg6 i 2, r ! reg6 i 3]"
proof -
  have "i mod 6 < 6" by simp
  then have "i mod 6 = 0 \<or> i mod 6 = 1 \<or> i mod 6 = 2 \<or> i mod 6 = 3 \<or> i mod 6 = 4 \<or> i mod 6 = 5" by linarith
  moreover have "Suc i mod 6 = (if i mod 6 = 5 then 0 else Suc (i mod 6))" by (simp add: mod_Suc)
  ultimately show ?thesis using assms
    by (elim disjE) (simp_all add: view6_def reg6_def upt_rec numeral_2_eq_2)
qed

text \<open>One call of a body, with the word of the schedule: all bodies do what the standard does in their round.\<close>

definition sha1_body :: "nat \<Rightarrow> u32 list \<Rightarrow> u32 \<Rightarrow> u32 list" where
  "sha1_body i r w =
     (if i < 16 then BODY_00_15 i r w else if i < 20 then BODY_16_19 i r w else if i < 32 then BODY_20_31 i r w
      else if i < 40 then BODY_32_39 i r w else if i < 60 then BODY_40_59 i r w else BODY_60_79 i r w)"

lemma body_view:
  assumes "length r = 6"
  shows "view6 (Suc i) (sha1_body i r w) = sha1_step i w (view6 i r)" and "length (sha1_body i r w) = 6"
proof -
  let ?a = "r ! reg6 i 0" and ?b = "r ! reg6 i 1" and ?c = "r ! reg6 i 2" and ?d = "r ! reg6 i 3" and ?e = "r ! reg6 i 4"
  have b: "sha1_body i r w = r[reg6 i 5 := word_rotl 5 ?a + sha1_f i ?b ?c ?d + ?e + sha1_K i + w, reg6 i 1 := word_rotl 30 ?b]"
    by (simp add: sha1_body_def BODY_00_15_def BODY_16_19_def BODY_20_31_def BODY_32_39_def BODY_40_59_def BODY_60_79_def
        sha1_f_def sha1_K_def sha1_logical rotate_left Let_def algebra_simps K_00_19_def K_20_39_def K_40_59_def K_60_79_def)
  show "length (sha1_body i r w) = 6" using assms by (simp add: b)
  show "view6 (Suc i) (sha1_body i r w) = sha1_step i w (view6 i r)"
    unfolding b view6_step [OF assms] by (simp add: sha1_step_def view6_def numeral_2_eq_2)
qed

lemma Xupdate_schedule:
  assumes "ring X n (sha1_schedule M)" and "16 \<le> n"
  shows "Xupdate n X = sha1_schedule M n"
  using ring_lookup [OF assms, of 16] ring_lookup [OF assms, of 14] ring_lookup [OF assms, of 8] ring_lookup [OF assms, of 3]
    assms(2) sha1_schedule.simps [of M n] by (simp add: Xupdate_def rotate_left ac_simps)

definition sha1_agrees :: "(nat \<Rightarrow> u32) \<Rightarrow> u32 list \<Rightarrow> nat \<Rightarrow> u32 list \<times> u32 list \<Rightarrow> bool" where
  "sha1_agrees M v n = (\<lambda>(X, r). ring X n (sha1_schedule M) \<and> length r = 6 \<and> view6 n r = sha1_steps M n v)"

lemma sha1_agrees_round:
  assumes "sha1_agrees M v n (X, r)" and "w = sha1_schedule M n"
  shows "sha1_agrees M v (Suc n) (X[n mod 16 := w], sha1_body n r w)"
  using assms ring_add [of X n "sha1_schedule M"] body_view [of r n w] by (simp add: sha1_agrees_def)

lemma sha1_first_agrees:
  assumes "length v = 5" and "length b = 64" and "n \<le> 16"
  shows "sha1_agrees (\<lambda>t. of_nat (be_val (take 4 (drop (4 * t) b)))) v n (fold (sha1_first b) [0..<n] (replicate 16 0, v @ [0]))"
  using assms(3)
proof (induction n)
  case 0
  have "view6 0 (v @ [0]) = v" by (rule nth_equalityI) (use assms(1) in \<open>simp_all add: view6_def reg6_def nth_append\<close>)
  then show ?case using assms(1) by (simp add: sha1_agrees_def ring_0)
next
  case (Suc n)
  obtain X r where f: "fold (sha1_first b) [0..<n] (replicate 16 0, v @ [0]) = (X, r)" by fastforce
  have w: "HOST_c2l DATA_ORDER_IS_BIG_ENDIAN (take 4 (drop (4 * n) b))
      = sha1_schedule (\<lambda>t. of_nat (be_val (take 4 (drop (4 * t) b)))) n"
    using Suc.prems assms(2) HOST_c2l_big [of "take 4 (drop (4 * n) b)"] by (simp add: sha1_schedule.simps)
  have "fold (sha1_first b) [0..<Suc n] (replicate 16 0, v @ [0]) = sha1_first b n (X, r)" using f by simp
  then show ?case using sha1_agrees_round [OF _ w] Suc f by (simp add: sha1_body_def Let_def del: upt_Suc)
qed

lemma sha1_later_agrees:
  assumes "sha1_agrees M v 16 s" and "16 \<le> n"
  shows "sha1_agrees M v n (fold sha1_later [16..<n] s)"
  using assms(2)
proof (induction n rule: dec_induct)
  case base
  then show ?case using assms(1) by simp
next
  case (step n)
  obtain X r where f: "fold sha1_later [16..<n] s = (X, r)" by fastforce
  have "ring X n (sha1_schedule M)" using step.IH f by (simp add: sha1_agrees_def)
  note w = Xupdate_schedule [OF this step.hyps(1)]
  have "fold sha1_later [16..<Suc n] s = sha1_later n (X, r)" using f step.hyps(1) by simp
  also have "\<dots> = (X[n mod 16 := Xupdate n X], sha1_body n r (Xupdate n X))"
    using step.hyps(1) by (simp add: sha1_body_def Let_def)
  finally show ?case using sha1_agrees_round [OF _ w] step.IH f by (simp del: upt_Suc)
qed

lemma list_of_5: "length v = 5 \<Longrightarrow> v = [v ! 0, v ! 1, v ! 2, v ! 3, v ! 4]"
  by (rule nth_equalityI) (auto simp: less_Suc_eq numeral_eq_Suc)

lemma sha1_block_compress:
  assumes "length v = 5" and "length b = 64"
  shows "sha1_block v b = sha1_compress v b"
proof -
  define M where "M = (\<lambda>t. of_nat (be_val (take 4 (drop (4 * t) b))) :: u32)"
  obtain X r where f: "fold (sha1_first b) [0..<16] (replicate 16 0, v @ [0]) = (X, r)" by fastforce
  obtain Y q where g: "fold sha1_later [16..<80] (X, r) = (Y, q)" by fastforce
  have "sha1_agrees M v 80 (Y, q)"
    using sha1_later_agrees [of M v "(X, r)" 80] sha1_first_agrees [OF assms, of 16] f g by (simp add: M_def)
  then have "sha1_steps M 80 v = view6 80 q" by (simp add: sha1_agrees_def)
  also have "view6 80 q = [q ! 4, q ! 5, q ! 0, q ! 1, q ! 2]" by (simp add: view6_def reg6_def upt_rec)
  finally have "sha1_compress v b = map2 (+) v [q ! 4, q ! 5, q ! 0, q ! 1, q ! 2]" by (simp add: sha1_compress_def M_def)
  moreover have "sha1_block v b = [v ! 0 + q ! 4, v ! 1 + q ! 5, v ! 2 + q ! 0, v ! 3 + q ! 1, v ! 4 + q ! 2]"
    unfolding sha1_block_def f g Let_def prod.case ..
  moreover have "map2 (+) v [q ! 4, q ! 5, q ! 0, q ! 1, q ! 2] = [v ! 0 + q ! 4, v ! 1 + q ! 5, v ! 2 + q ! 0, v ! 3 + q ! 1, v ! 4 + q ! 2]"
    by (rule nth_equalityI) (use assms(1) in \<open>auto simp: less_Suc_eq numeral_eq_Suc\<close>)
  ultimately show ?thesis by simp
qed

lemma length_sha1_compress [simp]: "length v = 5 \<Longrightarrow> length (sha1_compress v b) = 5"
proof -
  have "length v = 5 \<Longrightarrow> length (sha1_steps M n v) = 5" for M n v by (induction n) (simp_all add: sha1_step_def)
  then show "length v = 5 \<Longrightarrow> length (sha1_compress v b) = 5" by (simp add: sha1_compress_def)
qed

section \<open>Whole messages\<close>

interpretation sha1: md_collector sha1_block_data_order sha1_block
  by unfold_locales (simp_all add: sha1_block_data_order_def)

lemma sha1_hash_block:
  assumes "length iv = 5"
  shows "hash_digest sha1_block HASH_CBLOCK 8 (length_bytes DATA_ORDER_IS_BIG_ENDIAN) iv msg = sha1_hash iv msg"
    and "length (sha1_hash iv msg) = 5"
  using absorb_cong [of "\<lambda>h. length h = 5" HASH_CBLOCK sha1_block sha1_compress iv] sha1_block_compress assms
  by (simp_all add: hash_digest_def sha1_hash_def length_bytes_def)

lemma sha1_make_string_words:
  assumes "length (hc_h c) = 5" shows "sha1_make_string c = Some (be_words (hc_h c))"
proof -
  have "concat (map (\<lambda>i. HOST_l2c DATA_ORDER_IS_BIG_ENDIAN (hc_h c ! i)) [0, 1, 2, 3, 4])
      = be_words [hc_h c ! 0, hc_h c ! 1, hc_h c ! 2, hc_h c ! 3, hc_h c ! 4]" by (simp add: be_words_def HOST_l2c_big)
  then show ?thesis using list_of_5 [OF assms] by (simp add: sha1_make_string_def)
qed

lemma sha1_final:
  assumes "collects sha1_block iv msg c" and "length iv = 5"
  shows "snd (SHA1_Final c) = Some (be_words (sha1_hash iv msg))"
  by (simp add: SHA1_Final_def sha1.final_digest [OF assms(1)] Let_def sha1_hash_block [OF assms(2)] sha1_make_string_words)

text \<open>
  C37: SHA-1 is computed: feeding a message in any pieces to \<^verbatim>\<open>SHA1_Update\<close> and calling \<^verbatim>\<open>SHA1_Final\<close> gives the
  digest that FIPS 180-4 defines for the whole message, and so does \<^verbatim>\<open>SHA1\<close>.
\<close>

theorem sha1_streams:
  "snd (SHA1_Final (foldl SHA1_Update SHA1_Init ds)) = Some (be_words (sha1_hash (hc_h SHA1_Init) (concat ds)))
   \<and> SHA1 (concat ds) = snd (SHA1_Final (foldl SHA1_Update SHA1_Init ds))"
proof -
  let ?i = "hc_h SHA1_Init"
  have i: "SHA1_Init = hash_ctx_init ?i 0" "length ?i = 5" by (simp_all add: SHA1_Init_def hash_ctx_init_def)
  have a: "snd (SHA1_Final (foldl SHA1_Update SHA1_Init ds)) = Some (be_words (sha1_hash ?i (concat ds)))" for ds
    using sha1_final [OF sha1.updates_collect [OF collects_init] i(2), of 0 ds] i(1) by (simp add: SHA1_Update_def)
  show ?thesis using a [of ds] a [of "[concat ds]"] by (simp add: SHA1_def)
qed

end
