(* ===== verification/Md5.thy ===== *)
theory Md5
  imports Sha1
begin

text \<open>
  \<^verbatim>\<open>crypto/fipsmodule/md5/md5.c\<close> on the little-endian instance of the collector of
  \<^verbatim>\<open>md32_common.h\<close>: the unrolled calls with their arguments as tables, and that they compute the
  function of RFC 1321 with its order of the words and its logical functions.
\<close>

section \<open>The code\<close>

definition F_md5 :: "u32 \<Rightarrow> u32 \<Rightarrow> u32 \<Rightarrow> u32" where "F_md5 b c d = ((c XOR d) AND b) XOR d"
definition G_md5 :: "u32 \<Rightarrow> u32 \<Rightarrow> u32 \<Rightarrow> u32" where "G_md5 b c d = ((b XOR c) AND d) XOR c"
definition H_md5 :: "u32 \<Rightarrow> u32 \<Rightarrow> u32 \<Rightarrow> u32" where "H_md5 b c d = b XOR c XOR d"
definition I_md5 :: "u32 \<Rightarrow> u32 \<Rightarrow> u32 \<Rightarrow> u32" where "I_md5 b c d = ((NOT d) OR b) XOR c"

text \<open>Which of the variables \<^verbatim>\<open>A\<close> to \<^verbatim>\<open>D\<close> is argument \<open>j\<close> of the \<open>i\<close>-th call.\<close>

definition reg4 :: "nat \<Rightarrow> nat \<Rightarrow> nat" where
  "reg4 i j = (j + 4 - i mod 4) mod 4"

definition R0 :: "nat \<Rightarrow> u32 \<Rightarrow> nat \<Rightarrow> u32 \<Rightarrow> u32 list \<Rightarrow> u32 list" where
  "R0 i k s t r =
     (let a = r ! reg4 i 0; b = r ! reg4 i 1; c = r ! reg4 i 2; d = r ! reg4 i 3; a = a + (k + t + F_md5 b c d); a = ROTATE a s
      in r[reg4 i 0 := a + b])"

definition R1 :: "nat \<Rightarrow> u32 \<Rightarrow> nat \<Rightarrow> u32 \<Rightarrow> u32 list \<Rightarrow> u32 list" where
  "R1 i k s t r =
     (let a = r ! reg4 i 0; b = r ! reg4 i 1; c = r ! reg4 i 2; d = r ! reg4 i 3; a = a + (k + t + G_md5 b c d); a = ROTATE a s
      in r[reg4 i 0 := a + b])"

definition R2 :: "nat \<Rightarrow> u32 \<Rightarrow> nat \<Rightarrow> u32 \<Rightarrow> u32 list \<Rightarrow> u32 list" where
  "R2 i k s t r =
     (let a = r ! reg4 i 0; b = r ! reg4 i 1; c = r ! reg4 i 2; d = r ! reg4 i 3; a = a + (k + t + H_md5 b c d); a = ROTATE a s
      in r[reg4 i 0 := a + b])"

definition R3 :: "nat \<Rightarrow> u32 \<Rightarrow> nat \<Rightarrow> u32 \<Rightarrow> u32 list \<Rightarrow> u32 list" where
  "R3 i k s t r =
     (let a = r ! reg4 i 0; b = r ! reg4 i 1; c = r ! reg4 i 2; d = r ! reg4 i 3; a = a + (k + t + I_md5 b c d); a = ROTATE a s
      in r[reg4 i 0 := a + b])"

text \<open>The arguments of the calls: the index of the word, the rotation and the constant.\<close>

definition md5_calls_0 :: "(nat \<times> nat \<times> u32) list" where
  "md5_calls_0 =
    [(0, 7, 0xd76aa478), (1, 12, 0xe8c7b756), (2, 17, 0x242070db), (3, 22, 0xc1bdceee),
     (4, 7, 0xf57c0faf), (5, 12, 0x4787c62a), (6, 17, 0xa8304613), (7, 22, 0xfd469501),
     (8, 7, 0x698098d8), (9, 12, 0x8b44f7af), (10, 17, 0xffff5bb1), (11, 22, 0x895cd7be),
     (12, 7, 0x6b901122), (13, 12, 0xfd987193), (14, 17, 0xa679438e), (15, 22, 0x49b40821)]"

definition md5_calls_1 :: "(nat \<times> nat \<times> u32) list" where
  "md5_calls_1 =
    [(1, 5, 0xf61e2562), (6, 9, 0xc040b340), (11, 14, 0x265e5a51), (0, 20, 0xe9b6c7aa),
     (5, 5, 0xd62f105d), (10, 9, 0x02441453), (15, 14, 0xd8a1e681), (4, 20, 0xe7d3fbc8),
     (9, 5, 0x21e1cde6), (14, 9, 0xc33707d6), (3, 14, 0xf4d50d87), (8, 20, 0x455a14ed),
     (13, 5, 0xa9e3e905), (2, 9, 0xfcefa3f8), (7, 14, 0x676f02d9), (12, 20, 0x8d2a4c8a)]"

definition md5_calls_2 :: "(nat \<times> nat \<times> u32) list" where
  "md5_calls_2 =
    [(5, 4, 0xfffa3942), (8, 11, 0x8771f681), (11, 16, 0x6d9d6122), (14, 23, 0xfde5380c),
     (1, 4, 0xa4beea44), (4, 11, 0x4bdecfa9), (7, 16, 0xf6bb4b60), (10, 23, 0xbebfbc70),
     (13, 4, 0x289b7ec6), (0, 11, 0xeaa127fa), (3, 16, 0xd4ef3085), (6, 23, 0x04881d05),
     (9, 4, 0xd9d4d039), (12, 11, 0xe6db99e5), (15, 16, 0x1fa27cf8), (2, 23, 0xc4ac5665)]"

definition md5_calls_3 :: "(nat \<times> nat \<times> u32) list" where
  "md5_calls_3 =
    [(0, 6, 0xf4292244), (7, 10, 0x432aff97), (14, 15, 0xab9423a7), (5, 21, 0xfc93a039),
     (12, 6, 0x655b59c3), (3, 10, 0x8f0ccc92), (10, 15, 0xffeff47d), (1, 21, 0x85845dd1),
     (8, 6, 0x6fa87e4f), (15, 10, 0xfe2ce6e0), (6, 15, 0xa3014314), (13, 21, 0x4e0811a1),
     (4, 6, 0xf7537e82), (11, 10, 0xbd3af235), (2, 15, 0x2ad7d2bb), (9, 21, 0xeb86d391)]"

definition md5_load :: "u8 list \<Rightarrow> u32 list" where
  "md5_load data = map (\<lambda>i. HOST_c2l DATA_ORDER_IS_LITTLE_ENDIAN (take 4 (drop (4 * i) data))) [0..<16]"

definition md5_round :: "(nat \<Rightarrow> u32 \<Rightarrow> nat \<Rightarrow> u32 \<Rightarrow> u32 list \<Rightarrow> u32 list) \<Rightarrow> u32 list \<Rightarrow> (nat \<times> nat \<times> u32) list \<Rightarrow> u32 list \<Rightarrow> u32 list" where
  "md5_round R X calls r = fold (\<lambda>i r. case calls ! i of (k, s, t) \<Rightarrow> R i (X ! k) s t r) [0..<16] r"

definition md5_block :: "u32 list \<Rightarrow> u8 list \<Rightarrow> u32 list" where
  "md5_block state data =
     (let X = md5_load data;
          r = md5_round R0 X md5_calls_0 state;
          r = md5_round R1 X md5_calls_1 r;
          r = md5_round R2 X md5_calls_2 r;
          r = md5_round R3 X md5_calls_3 r
      in map2 (+) state r)"

fun md5_block_data_order :: "u32 list \<Rightarrow> u8 list \<Rightarrow> nat \<Rightarrow> u32 list" where
  "md5_block_data_order state data 0 = state"
| "md5_block_data_order state data (Suc num) = md5_block_data_order (md5_block state (take 64 data)) (drop 64 data) num"

definition MD5_Init :: hash_ctx where
  "MD5_Init = hash_ctx_init [0x67452301, 0xefcdab89, 0x98badcfe, 0x10325476] 0"

definition md5_make_string :: "hash_ctx \<Rightarrow> u8 list option" where
  "md5_make_string c = Some (concat (map (\<lambda>i. HOST_l2c DATA_ORDER_IS_LITTLE_ENDIAN (hc_h c ! i)) [0, 1, 2, 3]))"

definition MD5_Update :: "hash_ctx \<Rightarrow> u8 list \<Rightarrow> hash_ctx" where
  "MD5_Update = HASH_UPDATE md5_block_data_order"

definition MD5_Transform :: "hash_ctx \<Rightarrow> u8 list \<Rightarrow> hash_ctx" where
  "MD5_Transform = HASH_TRANSFORM md5_block_data_order"

definition MD5_Final :: "hash_ctx \<Rightarrow> hash_ctx \<times> u8 list option" where
  "MD5_Final = HASH_FINAL md5_block_data_order DATA_ORDER_IS_LITTLE_ENDIAN md5_make_string"

definition MD5 :: "u8 list \<Rightarrow> u8 list option" where
  "MD5 data = snd (MD5_Final (MD5_Update MD5_Init data))"

section \<open>The RFC\<close>

definition rfc_F :: "nat \<Rightarrow> u32 \<Rightarrow> u32 \<Rightarrow> u32 \<Rightarrow> u32" where
  "rfc_F n x y z =
     (if n = 0 then (x AND y) OR (NOT x AND z) else if n = 1 then (x AND z) OR (y AND NOT z)
      else if n = 2 then x XOR y XOR z else y XOR (x OR NOT z))"

definition rfc_word :: "nat \<Rightarrow> nat \<Rightarrow> nat" where
  "rfc_word n i = (if n = 0 then i else if n = 1 then 5 * i + 1 else if n = 2 then 3 * i + 5 else 7 * i) mod 16"

definition rfc_shift :: "nat \<Rightarrow> nat \<Rightarrow> nat" where
  "rfc_shift n i = ([[7, 12, 17, 22], [5, 9, 14, 20], [4, 11, 16, 23], [6, 10, 15, 21]] ! n) ! (i mod 4)"

definition rfc_T :: "nat \<Rightarrow> nat \<Rightarrow> u32" where
  "rfc_T n i = snd (snd (([md5_calls_0, md5_calls_1, md5_calls_2, md5_calls_3] ! n) ! i))"

text \<open>The operation \<^verbatim>\<open>[abcd k s i]\<close>, with the four words moved on.\<close>

definition rfc_step :: "(nat \<Rightarrow> u32) \<Rightarrow> nat \<Rightarrow> nat \<Rightarrow> u32 list \<Rightarrow> u32 list" where
  "rfc_step M n i v =
     [v ! 3, v ! 1 + word_rotl (rfc_shift n i) (v ! 0 + rfc_F n (v ! 1) (v ! 2) (v ! 3) + M (rfc_word n i) + rfc_T n i), v ! 1, v ! 2]"

definition rfc_round :: "(nat \<Rightarrow> u32) \<Rightarrow> nat \<Rightarrow> u32 list \<Rightarrow> u32 list" where
  "rfc_round M n v = fold (rfc_step M n) [0..<16] v"

definition md5_compress :: "u32 list \<Rightarrow> u8 list \<Rightarrow> u32 list" where
  "md5_compress h b =
     map2 (+) h (fold (rfc_round (\<lambda>i. of_nat (le_val (take 4 (drop (4 * i) b))))) [0..<4] h)"

definition md5_hash :: "u32 list \<Rightarrow> u8 list \<Rightarrow> u32 list" where
  "md5_hash iv msg = hash_digest md5_compress 64 8 (le_bytes 8) iv msg"

definition le_words :: "u32 list \<Rightarrow> u8 list" where
  "le_words ws = concat (map (\<lambda>w. le_bytes 4 (unat w)) ws)"

section \<open>The block function\<close>

lemma HOST_c2l_little:
  assumes "length c = 4" shows "HOST_c2l DATA_ORDER_IS_LITTLE_ENDIAN c = of_nat (le_val c)"
proof -
  have c: "c = [c ! 0, c ! 1, c ! 2, c ! 3]"
    by (rule nth_equalityI) (use assms in \<open>auto simp: less_Suc_eq numeral_eq_Suc\<close>)
  have "HOST_c2l DATA_ORDER_IS_LITTLE_ENDIAN c = HOST_c2l DATA_ORDER_IS_BIG_ENDIAN [c ! 3, c ! 2, c ! 1, c ! 0]"
    by (simp add: HOST_c2l_def ac_simps)
  also have "[c ! 3, c ! 2, c ! 1, c ! 0] = rev c" by (subst (5) c) simp
  finally show ?thesis using assms by (simp add: HOST_c2l_big le_val_def)
qed

lemma md5_logical: "F_md5 = rfc_F 0" "G_md5 = rfc_F 1" "H_md5 = rfc_F 2" "I_md5 = rfc_F 3"
proof -
  have "F_md5 b c d = rfc_F 0 b c d" "G_md5 b c d = rfc_F 1 b c d" "H_md5 b c d = rfc_F 2 b c d" "I_md5 b c d = rfc_F 3 b c d" for b c d
    by (rule bit_word_eqI, auto simp: F_md5_def G_md5_def H_md5_def I_md5_def rfc_F_def bit_simps)+
  then show "F_md5 = rfc_F 0" "G_md5 = rfc_F 1" "H_md5 = rfc_F 2" "I_md5 = rfc_F 3" by (simp_all add: fun_eq_iff)
qed

definition view4 :: "nat \<Rightarrow> 'a list \<Rightarrow> 'a list" where
  "view4 i r = map (\<lambda>j. r ! reg4 i j) [0..<4]"

lemma view4_step:
  assumes "length r = 4"
  shows "view4 (Suc i) (r[reg4 i 0 := x]) = [r ! reg4 i 3, x, r ! reg4 i 1, r ! reg4 i 2]"
proof -
  have "i mod 4 < 4" by simp
  then have "i mod 4 = 0 \<or> i mod 4 = 1 \<or> i mod 4 = 2 \<or> i mod 4 = 3" by linarith
  moreover have "Suc i mod 4 = (if i mod 4 = 3 then 0 else Suc (i mod 4))" by (simp add: mod_Suc)
  ultimately show ?thesis using assms
    by (elim disjE) (simp_all add: view4_def reg4_def upt_rec numeral_2_eq_2)
qed

text \<open>A call of round \<open>n\<close> does the operation of the RFC, whatever the round.\<close>

lemma R_view:
  assumes "length r = 4" and "0 < s" and "s < 32"
    and "R = R0 \<and> n = 0 \<or> R = R1 \<and> n = 1 \<or> R = R2 \<and> n = 2 \<or> R = R3 \<and> n = 3"
  shows "view4 (Suc i) (R i k s t r)
    = (let v = view4 i r in [v ! 3, v ! 1 + word_rotl s (v ! 0 + rfc_F n (v ! 1) (v ! 2) (v ! 3) + k + t), v ! 1, v ! 2])"
    and "length (R i k s t r) = 4"
proof -
  let ?a = "r ! reg4 i 0" and ?b = "r ! reg4 i 1" and ?c = "r ! reg4 i 2" and ?d = "r ! reg4 i 3"
  have R: "R i k s t r = r[reg4 i 0 := ?b + word_rotl s (?a + rfc_F n ?b ?c ?d + k + t)]"
    using assms(4) by (elim disjE conjE)
      (simp_all add: R0_def R1_def R2_def R3_def Let_def rotate_left [OF assms(2,3)] md5_logical ac_simps)
  show "length (R i k s t r) = 4" using assms(1) by (simp add: R)
  show "view4 (Suc i) (R i k s t r)
    = (let v = view4 i r in [v ! 3, v ! 1 + word_rotl s (v ! 0 + rfc_F n (v ! 1) (v ! 2) (v ! 3) + k + t), v ! 1, v ! 2])"
    unfolding R view4_step [OF assms(1)] by (simp add: view4_def Let_def numeral_2_eq_2)
qed

lemma md5_calls:
  "\<forall>i < 16. \<exists>t. md5_calls_0 ! i = (rfc_word 0 i, rfc_shift 0 i, t)" "\<forall>i < 16. \<exists>t. md5_calls_1 ! i = (rfc_word 1 i, rfc_shift 1 i, t)"
  "\<forall>i < 16. \<exists>t. md5_calls_2 ! i = (rfc_word 2 i, rfc_shift 2 i, t)" "\<forall>i < 16. \<exists>t. md5_calls_3 ! i = (rfc_word 3 i, rfc_shift 3 i, t)"
proof -
  have c: "map (\<lambda>i. (rfc_word 0 i, rfc_shift 0 i)) [0..<16] = map (\<lambda>i. (fst (md5_calls_0 ! i), fst (snd (md5_calls_0 ! i)))) [0..<16]"
    "map (\<lambda>i. (rfc_word 1 i, rfc_shift 1 i)) [0..<16] = map (\<lambda>i. (fst (md5_calls_1 ! i), fst (snd (md5_calls_1 ! i)))) [0..<16]"
    "map (\<lambda>i. (rfc_word 2 i, rfc_shift 2 i)) [0..<16] = map (\<lambda>i. (fst (md5_calls_2 ! i), fst (snd (md5_calls_2 ! i)))) [0..<16]"
    "map (\<lambda>i. (rfc_word 3 i, rfc_shift 3 i)) [0..<16] = map (\<lambda>i. (fst (md5_calls_3 ! i), fst (snd (md5_calls_3 ! i)))) [0..<16]"
    by code_simp+
  have e: "\<forall>i < 16. \<exists>t. g ! i = (f1 i, f2 i, t)"
    if "map (\<lambda>i. (f1 i, f2 i)) [0..<16] = map (\<lambda>i. (fst (g ! i), fst (snd (g ! i)))) [0..<16]"
    for f1 f2 and g :: "(nat \<times> nat \<times> u32) list"
    using that by (auto simp: map_eq_conv) (metis prod.collapse)
  show "\<forall>i < 16. \<exists>t. md5_calls_0 ! i = (rfc_word 0 i, rfc_shift 0 i, t)" "\<forall>i < 16. \<exists>t. md5_calls_1 ! i = (rfc_word 1 i, rfc_shift 1 i, t)"
    "\<forall>i < 16. \<exists>t. md5_calls_2 ! i = (rfc_word 2 i, rfc_shift 2 i, t)" "\<forall>i < 16. \<exists>t. md5_calls_3 ! i = (rfc_word 3 i, rfc_shift 3 i, t)"
    by (rule e, rule c)+
qed

lemma md5_round_rfc:
  assumes "length r = 4" and "calls = [md5_calls_0, md5_calls_1, md5_calls_2, md5_calls_3] ! n"
    and "R = R0 \<and> n = 0 \<or> R = R1 \<and> n = 1 \<or> R = R2 \<and> n = 2 \<or> R = R3 \<and> n = 3"
  shows "md5_round R (map M [0..<16]) calls r = rfc_round M n r \<and> length (md5_round R (map M [0..<16]) calls r) = 4"
proof -
  let ?f = "\<lambda>i r. case calls ! i of (k, s, t) \<Rightarrow> R i (map M [0..<16] ! k) s t r"
  have c: "\<forall>i < 16. calls ! i = (rfc_word n i, rfc_shift n i, rfc_T n i)"
    using assms(2,3) md5_calls by (auto simp: rfc_T_def)
  have s: "0 < rfc_shift n i \<and> rfc_shift n i < 32" for i
  proof -
    have "i mod 4 < 4" by simp
    then have "i mod 4 = 0 \<or> i mod 4 = 1 \<or> i mod 4 = 2 \<or> i mod 4 = 3" by linarith
    then show ?thesis using assms(3) by (auto simp: rfc_shift_def)
  qed
  have w: "rfc_word n i < 16" for i by (simp add: rfc_word_def)
  have "view4 m (fold ?f [0..<m] r) = fold (rfc_step M n) [0..<m] r \<and> length (fold ?f [0..<m] r) = 4" if "m \<le> 16" for m
    using that
  proof (induction m)
    case 0
    have "view4 0 r = r" by (rule nth_equalityI) (use assms(1) in \<open>simp_all add: view4_def reg4_def\<close>)
    then show ?case using assms(1) by simp
  next
    case (Suc m)
    let ?r = "fold ?f [0..<m] r"
    have "fold ?f [0..<Suc m] r = R m (M (rfc_word n m)) (rfc_shift n m) (rfc_T n m) ?r"
      using c Suc.prems w [of m] by simp
    moreover have "fold (rfc_step M n) [0..<Suc m] r = rfc_step M n m (fold (rfc_step M n) [0..<m] r)" by simp
    ultimately show ?case
      using R_view [of ?r "rfc_shift n m" R n m "M (rfc_word n m)" "rfc_T n m"] s [of m] assms(3) Suc
      by (simp add: rfc_step_def [of M n m "fold (rfc_step M n) [0..<m] r"] Let_def del: upt_Suc)
  qed
  from this [of 16] have e: "view4 16 (md5_round R (map M [0..<16]) calls r) = rfc_round M n r"
      "length (md5_round R (map M [0..<16]) calls r) = 4"
    by (simp_all only: md5_round_def rfc_round_def order_refl)
  moreover have "view4 16 x = x" if "length x = 4" for x :: "u32 list"
    by (rule nth_equalityI) (use that in \<open>simp_all add: view4_def reg4_def\<close>)
  ultimately show ?thesis by simp
qed

lemma md5_block_compress:
  assumes "length v = 4" and "length b = 64"
  shows "md5_block v b = md5_compress v b" and "length (md5_block v b) = 4"
proof -
  define M where "M = (\<lambda>i. of_nat (le_val (take 4 (drop (4 * i) b))) :: u32)"
  have X: "md5_load b = map M [0..<16]" using assms(2) by (simp add: md5_load_def M_def HOST_c2l_little)
  note r = md5_round_rfc [of _ _ _ _ M]
  let ?r0 = "md5_round R0 (md5_load b) md5_calls_0 v" and ?v0 = "rfc_round M 0 v"
  have 0: "?r0 = ?v0" "length ?v0 = 4" using r [of v md5_calls_0 0 R0] assms(1) by (auto simp: X)
  have 1: "md5_round R1 (md5_load b) md5_calls_1 ?v0 = rfc_round M 1 ?v0" "length (rfc_round M 1 ?v0) = 4"
    using r [of ?v0 md5_calls_1 1 R1] 0(2) by (auto simp: X)
  have 2: "md5_round R2 (md5_load b) md5_calls_2 (rfc_round M 1 ?v0) = rfc_round M 2 (rfc_round M 1 ?v0)"
      "length (rfc_round M 2 (rfc_round M 1 ?v0)) = 4"
    using r [of "rfc_round M 1 ?v0" md5_calls_2 2 R2] 1(2) by (auto simp: X)
  have 3: "md5_round R3 (md5_load b) md5_calls_3 (rfc_round M 2 (rfc_round M 1 ?v0)) = rfc_round M 3 (rfc_round M 2 (rfc_round M 1 ?v0))"
      "length (rfc_round M 3 (rfc_round M 2 (rfc_round M 1 ?v0))) = 4"
    using r [of "rfc_round M 2 (rfc_round M 1 ?v0)" md5_calls_3 3 R3] 2(2) by (auto simp: X)
  have "fold (rfc_round M) [0..<4] v = rfc_round M 3 (rfc_round M 2 (rfc_round M 1 ?v0))" by (simp add: upt_rec numeral_2_eq_2 numeral_3_eq_3)
  then have "md5_block v b = map2 (+) v (fold (rfc_round M) [0..<4] v)"
    unfolding md5_block_def Let_def 0(1) 1(1) 2(1) 3(1) by simp
  then show "md5_block v b = md5_compress v b" by (simp add: md5_compress_def M_def)
  show "length (md5_block v b) = 4" unfolding md5_block_def Let_def 0(1) 1(1) 2(1) 3(1) using assms(1) 3(2) by simp
qed

section \<open>Whole messages\<close>

interpretation md5: md_collector md5_block_data_order md5_block
  by unfold_locales simp_all

lemma md5_hash_block:
  assumes "length iv = 4"
  shows "hash_digest md5_block HASH_CBLOCK 8 (length_bytes DATA_ORDER_IS_LITTLE_ENDIAN) iv msg = md5_hash iv msg"
    and "length (md5_hash iv msg) = 4"
  using absorb_cong [of "\<lambda>h. length h = 4" HASH_CBLOCK md5_block md5_compress iv] md5_block_compress assms
  by (simp_all add: hash_digest_def md5_hash_def length_bytes_def)

lemma list_of_4: "length v = 4 \<Longrightarrow> v = [v ! 0, v ! 1, v ! 2, v ! 3]"
  by (rule nth_equalityI) (auto simp: less_Suc_eq numeral_eq_Suc)

lemma md5_make_string_words:
  assumes "length (hc_h c) = 4" shows "md5_make_string c = Some (le_words (hc_h c))"
proof -
  have "concat (map (\<lambda>i. HOST_l2c DATA_ORDER_IS_LITTLE_ENDIAN (hc_h c ! i)) [0, 1, 2, 3])
      = le_words [hc_h c ! 0, hc_h c ! 1, hc_h c ! 2, hc_h c ! 3]" by (simp add: le_words_def HOST_l2c_little)
  then show ?thesis using list_of_4 [OF assms] by (simp add: md5_make_string_def)
qed

lemma md5_final:
  assumes "collects md5_block iv msg c" and "length iv = 4"
  shows "snd (MD5_Final c) = Some (le_words (md5_hash iv msg))"
  by (simp add: MD5_Final_def md5.final_digest [OF assms(1)] Let_def md5_hash_block [OF assms(2)] md5_make_string_words)

end
