(* ===== verification/Digest.thy ===== *)
theory Digest
  imports Sha512 Md5 "HOL-Library.Monad_Syntax"
begin

text \<open>
  The digests behind one interface: \<^verbatim>\<open>crypto/fipsmodule/digest/digests.c\<close> has a table of methods for every
  hash function and \<^verbatim>\<open>digest.c\<close> the contexts that dispatch on it. The locale \<open>message_digest\<close> is the
  contract of a table; every table meets it. A context has no \<^verbatim>\<open>EVP_PKEY_CTX\<close>. The allocator is a parameter: the memory
  it returns for the context of a digest holds arbitrary values.
\<close>

section \<open>Method tables\<close>

datatype evp_md = EVP_md5 | EVP_sha1 | EVP_sha224 | EVP_sha256 | EVP_sha384 | EVP_sha512 | EVP_md5_sha1

text \<open>The memory \<^verbatim>\<open>md_data\<close> points to, as the type that the methods take it for.\<close>

datatype md_state = Md32_Ctx hash_ctx | Sha512_Ctx SHA512_CTX | Md5_Sha1_Ctx hash_ctx hash_ctx

definition EVP_MD_size :: "evp_md \<Rightarrow> nat" where
  "EVP_MD_size md =
     (case md of EVP_md5 \<Rightarrow> 16 | EVP_sha1 \<Rightarrow> 20 | EVP_sha224 \<Rightarrow> SHA224_DIGEST_LENGTH | EVP_sha256 \<Rightarrow> SHA256_DIGEST_LENGTH
      | EVP_sha384 \<Rightarrow> SHA384_DIGEST_LENGTH | EVP_sha512 \<Rightarrow> SHA512_DIGEST_LENGTH | EVP_md5_sha1 \<Rightarrow> 16 + 20)"

definition EVP_MD_block_size :: "evp_md \<Rightarrow> nat" where
  "EVP_MD_block_size md = (case md of EVP_sha384 \<Rightarrow> 128 | EVP_sha512 \<Rightarrow> 128 | _ \<Rightarrow> 64)"

definition md_init :: "evp_md \<Rightarrow> md_state \<Rightarrow> md_state" where
  "md_init md d =
     (case md of
        EVP_md5 \<Rightarrow> Md32_Ctx MD5_Init
      | EVP_sha1 \<Rightarrow> Md32_Ctx SHA1_Init
      | EVP_sha224 \<Rightarrow> Md32_Ctx SHA224_Init
      | EVP_sha256 \<Rightarrow> Md32_Ctx SHA256_Init
      | EVP_sha384 \<Rightarrow> (case d of Sha512_Ctx c \<Rightarrow> Sha512_Ctx (SHA384_Init c) | _ \<Rightarrow> d)
      | EVP_sha512 \<Rightarrow> (case d of Sha512_Ctx c \<Rightarrow> Sha512_Ctx (SHA512_Init c) | _ \<Rightarrow> d)
      | EVP_md5_sha1 \<Rightarrow> Md5_Sha1_Ctx MD5_Init SHA1_Init)"

definition md_update :: "evp_md \<Rightarrow> md_state \<Rightarrow> u8 list \<Rightarrow> md_state" where
  "md_update md d data =
     (case d of
        Md32_Ctx c \<Rightarrow>
          Md32_Ctx (case md of EVP_md5 \<Rightarrow> MD5_Update c data | EVP_sha1 \<Rightarrow> SHA1_Update c data | EVP_sha224 \<Rightarrow> SHA224_Update c data
                    | EVP_sha256 \<Rightarrow> SHA256_Update c data | _ \<Rightarrow> c)
      | Sha512_Ctx c \<Rightarrow>
          Sha512_Ctx (case md of EVP_sha384 \<Rightarrow> SHA384_Update c data | EVP_sha512 \<Rightarrow> SHA512_Update c data | _ \<Rightarrow> c)
      | Md5_Sha1_Ctx a b \<Rightarrow>
          (case md of EVP_md5_sha1 \<Rightarrow> Md5_Sha1_Ctx (MD5_Update a data) (SHA1_Update b data) | _ \<Rightarrow> d))"

text \<open>The digest written to \<^verbatim>\<open>out\<close>; nothing is written when a final function fails.\<close>

definition md_final :: "evp_md \<Rightarrow> md_state \<Rightarrow> md_state \<times> u8 list" where
  "md_final md d =
     (let out = (\<lambda>r. case r of Some bs \<Rightarrow> bs | None \<Rightarrow> []);
          one = (\<lambda>(c, r). (Md32_Ctx c, out r)); five = (\<lambda>(c, r). (Sha512_Ctx c, out r))
      in case d of
        Md32_Ctx c \<Rightarrow>
          (case md of EVP_md5 \<Rightarrow> one (MD5_Final c) | EVP_sha1 \<Rightarrow> one (SHA1_Final c) | EVP_sha224 \<Rightarrow> one (SHA224_Final c)
           | EVP_sha256 \<Rightarrow> one (SHA256_Final c) | _ \<Rightarrow> (d, []))
      | Sha512_Ctx c \<Rightarrow>
          (case md of EVP_sha384 \<Rightarrow> five (SHA384_Final c) | EVP_sha512 \<Rightarrow> five (SHA512_Final c) | _ \<Rightarrow> (d, []))
      | Md5_Sha1_Ctx a b \<Rightarrow>
          (case md of EVP_md5_sha1 \<Rightarrow> (Md5_Sha1_Ctx (fst (MD5_Final a)) (fst (SHA1_Final b)), out (snd (MD5_Final a)) @ out (snd (SHA1_Final b)))
           | _ \<Rightarrow> (d, [])))"

section \<open>Contexts\<close>

record evp_md_ctx =
  digest :: "evp_md option"
  md_data :: "md_state option"

definition EVP_MD_CTX_init :: evp_md_ctx where
  "EVP_MD_CTX_init = \<lparr>digest = None, md_data = None\<rparr>"

text \<open>\<^verbatim>\<open>OPENSSL_cleanse\<close> of the memory of a context.\<close>

definition cleanse_hash :: "hash_ctx \<Rightarrow> hash_ctx" where
  "cleanse_hash c = \<lparr>hc_h = map (\<lambda>_. 0) (hc_h c), hc_Nl = 0, hc_Nh = 0, hc_data = map (\<lambda>_. 0) (hc_data c), hc_num = 0, hc_md_len = 0\<rparr>"

definition cleanse_sha512 :: "SHA512_CTX \<Rightarrow> SHA512_CTX" where
  "cleanse_sha512 c = \<lparr>s5_h = map (\<lambda>_. 0) (s5_h c), s5_Nl = 0, s5_Nh = 0, s5_u = map (\<lambda>_. 0) (s5_u c), s5_num = 0, s5_md_len = 0\<rparr>"

definition md_cleanse :: "md_state \<Rightarrow> md_state" where
  "md_cleanse d = (case d of Md32_Ctx c \<Rightarrow> Md32_Ctx (cleanse_hash c) | Sha512_Ctx c \<Rightarrow> Sha512_Ctx (cleanse_sha512 c)
     | Md5_Sha1_Ctx a b \<Rightarrow> Md5_Sha1_Ctx (cleanse_hash a) (cleanse_hash b))"

text \<open>The functions below are \<open>None\<close> when they dereference a null pointer.\<close>

definition EVP_DigestInit_ex :: "(evp_md \<Rightarrow> md_state option) \<Rightarrow> evp_md_ctx \<Rightarrow> evp_md \<Rightarrow> (bool \<times> evp_md_ctx) option" where
  "EVP_DigestInit_ex alloc ctx type =
     (if digest ctx \<noteq> Some type
      then (case alloc type of
              None \<Rightarrow> Some (False, ctx)
            | Some d \<Rightarrow> Some (True, ctx\<lparr>md_data := Some (md_init type d), digest := Some type\<rparr>))
      else do { d \<leftarrow> md_data ctx; Some (True, ctx\<lparr>md_data := Some (md_init type d)\<rparr>) })"

definition EVP_DigestInit :: "(evp_md \<Rightarrow> md_state option) \<Rightarrow> evp_md \<Rightarrow> (bool \<times> evp_md_ctx) option" where
  "EVP_DigestInit alloc type = EVP_DigestInit_ex alloc EVP_MD_CTX_init type"

definition EVP_DigestUpdate :: "evp_md_ctx \<Rightarrow> u8 list \<Rightarrow> evp_md_ctx option" where
  "EVP_DigestUpdate ctx data =
     do { md \<leftarrow> digest ctx; d \<leftarrow> md_data ctx; Some (ctx\<lparr>md_data := Some (md_update md d data)\<rparr>) }"

definition EVP_DigestFinal_ex :: "evp_md_ctx \<Rightarrow> (evp_md_ctx \<times> u8 list) option" where
  "EVP_DigestFinal_ex ctx =
     do { md \<leftarrow> digest ctx; d \<leftarrow> md_data ctx;
          let (d, out) = md_final md d in Some (ctx\<lparr>md_data := Some (md_cleanse d)\<rparr>, out) }"

definition EVP_DigestFinal :: "evp_md_ctx \<Rightarrow> (evp_md_ctx \<times> u8 list) option" where
  "EVP_DigestFinal ctx = do { (_, out) \<leftarrow> EVP_DigestFinal_ex ctx; Some (EVP_MD_CTX_init, out) }"

text \<open>The copy has memory of its own, which is reused when both contexts are of the same digest.\<close>

definition EVP_MD_CTX_copy_ex :: "(evp_md \<Rightarrow> md_state option) \<Rightarrow> evp_md_ctx \<Rightarrow> evp_md_ctx \<Rightarrow> (bool \<times> evp_md_ctx) option" where
  "EVP_MD_CTX_copy_ex alloc out inp =
     (case digest inp of
        None \<Rightarrow> Some (False, out)
      | Some md \<Rightarrow>
          if digest out \<noteq> digest inp \<and> alloc md = None then Some (False, out)
          else do { d \<leftarrow> md_data inp; Some (True, EVP_MD_CTX_init\<lparr>digest := digest inp, md_data := Some d\<rparr>) })"

definition EVP_MD_CTX_copy :: "(evp_md \<Rightarrow> md_state option) \<Rightarrow> evp_md_ctx \<Rightarrow> (bool \<times> evp_md_ctx) option" where
  "EVP_MD_CTX_copy alloc inp = EVP_MD_CTX_copy_ex alloc EVP_MD_CTX_init inp"

definition EVP_Digest :: "(evp_md \<Rightarrow> md_state option) \<Rightarrow> u8 list \<Rightarrow> evp_md \<Rightarrow> u8 list option option" where
  "EVP_Digest alloc data type =
     do { (ok, ctx) \<leftarrow> EVP_DigestInit_ex alloc EVP_MD_CTX_init type;
          if \<not> ok then Some None
          else do { ctx \<leftarrow> EVP_DigestUpdate ctx data; (_, out) \<leftarrow> EVP_DigestFinal_ex ctx; Some (Some out) } }"

section \<open>The contract of a method table\<close>

locale message_digest =
  fixes shape :: "'d \<Rightarrow> bool" and holds :: "'d \<Rightarrow> u8 list \<Rightarrow> bool"
    and init :: "'d \<Rightarrow> 'd" and update :: "'d \<Rightarrow> u8 list \<Rightarrow> 'd" and final :: "'d \<Rightarrow> 'd \<times> u8 list" and clean :: "'d \<Rightarrow> 'd"
    and hash :: "u8 list \<Rightarrow> u8 list" and size :: nat
  assumes init_holds: "shape d \<Longrightarrow> holds (init d) []"
    and update_holds: "holds d m \<Longrightarrow> holds (update d x) (m @ x)"
    and final_hash: "holds d m \<Longrightarrow> snd (final d) = hash m"
    and final_shape: "holds d m \<Longrightarrow> shape (clean (fst (final d)))"
    and holds_shape: "holds d m \<Longrightarrow> shape d"
    and hash_size: "length (hash m) = size"
begin

lemma updates_hold: "holds d m \<Longrightarrow> holds (foldl update d xs) (m @ concat xs)"
  by (induction xs arbitrary: d m) (use update_holds in \<open>fastforce simp flip: append_assoc\<close>)+

lemma digest: "shape d \<Longrightarrow> snd (final (foldl update (init d) xs)) = hash (concat xs)"
  using final_hash updates_hold [OF init_holds] by fastforce

text \<open>A context can be used again after the final function and the cleaning of its memory.\<close>

lemma digest_again:
  "shape d \<Longrightarrow> snd (final (foldl update (init (clean (fst (final (foldl update (init d) xs))))) ys)) = hash (concat ys)"
  by (rule digest, rule final_shape [OF updates_hold [OF init_holds]])

end

section \<open>The tables meet it\<close>

definition sha512_iv :: "u64 list" where
  "sha512_iv = s5_h (SHA512_Init \<lparr>s5_h = [], s5_Nl = 0, s5_Nh = 0, s5_u = [], s5_num = 0, s5_md_len = 0\<rparr>)"

definition sha384_iv :: "u64 list" where
  "sha384_iv = s5_h (SHA384_Init \<lparr>s5_h = [], s5_Nl = 0, s5_Nh = 0, s5_u = [], s5_num = 0, s5_md_len = 0\<rparr>)"

text \<open>The hash functions of the standards.\<close>

definition md_hash :: "evp_md \<Rightarrow> u8 list \<Rightarrow> u8 list" where
  "md_hash md msg =
     (case md of
        EVP_md5 \<Rightarrow> le_words (md5_hash (hc_h MD5_Init) msg)
      | EVP_sha1 \<Rightarrow> be_words (sha1_hash (hc_h SHA1_Init) msg)
      | EVP_sha224 \<Rightarrow> be_words (take 7 (sha256_hash (hc_h SHA224_Init) msg))
      | EVP_sha256 \<Rightarrow> be_words (sha256_hash (hc_h SHA256_Init) msg)
      | EVP_sha384 \<Rightarrow> be_words (take 6 (sha512_hash sha384_iv msg))
      | EVP_sha512 \<Rightarrow> be_words (sha512_hash sha512_iv msg)
      | EVP_md5_sha1 \<Rightarrow> le_words (md5_hash (hc_h MD5_Init) msg) @ be_words (sha1_hash (hc_h SHA1_Init) msg))"

definition md_shape :: "evp_md \<Rightarrow> md_state \<Rightarrow> bool" where
  "md_shape md d =
     (case d of
        Md32_Ctx c \<Rightarrow> md \<in> {EVP_md5, EVP_sha1, EVP_sha224, EVP_sha256}
      | Sha512_Ctx c \<Rightarrow> md \<in> {EVP_sha384, EVP_sha512} \<and> length (s5_u c) = 128
      | Md5_Sha1_Ctx a b \<Rightarrow> md = EVP_md5_sha1)"

definition md_holds :: "evp_md \<Rightarrow> md_state \<Rightarrow> u8 list \<Rightarrow> bool" where
  "md_holds md d msg =
     (case d of
        Md32_Ctx c \<Rightarrow>
          md = EVP_md5 \<and> collects md5_block (hc_h MD5_Init) msg c
          \<or> md = EVP_sha1 \<and> collects sha1_block (hc_h SHA1_Init) msg c
          \<or> md = EVP_sha224 \<and> collects sha256_block (hc_h SHA224_Init) msg c \<and> hc_md_len c = 28
          \<or> md = EVP_sha256 \<and> collects sha256_block (hc_h SHA256_Init) msg c \<and> hc_md_len c = 32
      | Sha512_Ctx c \<Rightarrow>
          md = EVP_sha384 \<and> sha512_collects sha384_iv msg c \<and> s5_md_len c = 48
          \<or> md = EVP_sha512 \<and> sha512_collects sha512_iv msg c \<and> s5_md_len c = 64
      | Md5_Sha1_Ctx a b \<Rightarrow>
          md = EVP_md5_sha1 \<and> collects md5_block (hc_h MD5_Init) msg a \<and> collects sha1_block (hc_h SHA1_Init) msg b)"

lemma ivs: "length (hc_h MD5_Init) = 4" "length (hc_h SHA1_Init) = 5" "length (hc_h SHA224_Init) = 8" "length (hc_h SHA256_Init) = 8"
  "length sha384_iv = 8" "length sha512_iv = 8"
  by (simp_all add: MD5_Init_def SHA1_Init_def SHA224_Init_def SHA256_Init_def hash_ctx_init_def sha384_iv_def sha512_iv_def
      SHA384_Init_def SHA512_Init_def)

lemma be_words_length: "length (be_words (ws :: 'a::len word list)) = length ws * (LENGTH('a) div 8)"
  by (induction ws) (simp_all add: be_words_def)

lemma le_words_length: "length (le_words ws) = length ws * 4"
  by (induction ws) (simp_all add: le_words_def)

lemma md_hash_size: "length (md_hash md msg) = EVP_MD_size md"
  by (cases md) (simp_all add: md_hash_def EVP_MD_size_def be_words_length le_words_length md5_hash_block sha1_hash_block
      sha256_hash_block sha512_hash_block ivs SHA224_DIGEST_LENGTH_def SHA256_DIGEST_LENGTH_def SHA384_DIGEST_LENGTH_def
      SHA512_DIGEST_LENGTH_def)

lemma init_collects:
  "collects f (hc_h MD5_Init) [] MD5_Init" "collects f (hc_h SHA1_Init) [] SHA1_Init"
  "collects f (hc_h SHA224_Init) [] SHA224_Init" "collects f (hc_h SHA256_Init) [] SHA256_Init"
  "hc_md_len SHA224_Init = 28" "hc_md_len SHA256_Init = 32"
proof -
  have "collects f (hc_h (hash_ctx_init iv ml)) [] (hash_ctx_init iv ml)" for iv ml
    using collects_init [of f iv ml] by (simp add: hash_ctx_init_def)
  then show "collects f (hc_h MD5_Init) [] MD5_Init" "collects f (hc_h SHA1_Init) [] SHA1_Init"
    "collects f (hc_h SHA224_Init) [] SHA224_Init" "collects f (hc_h SHA256_Init) [] SHA256_Init"
    by (simp_all only: MD5_Init_def SHA1_Init_def SHA224_Init_def SHA256_Init_def)
  show "hc_md_len SHA224_Init = 28" "hc_md_len SHA256_Init = 32"
    by (simp_all add: SHA224_Init_def SHA256_Init_def hash_ctx_init_def SHA224_DIGEST_LENGTH_def SHA256_DIGEST_LENGTH_def)
qed

lemma sha512_init_collects:
  "length (s5_u c) = 128 \<Longrightarrow> sha512_collects sha384_iv [] (SHA384_Init c) \<and> s5_md_len (SHA384_Init c) = 48"
  "length (s5_u c) = 128 \<Longrightarrow> sha512_collects sha512_iv [] (SHA512_Init c) \<and> s5_md_len (SHA512_Init c) = 64"
  by (simp_all add: sha512_collects_def buffered_def sha512_bit_count_def absorb_short pending_def sha384_iv_def sha512_iv_def
      SHA512_Init_def SHA384_Init_def SHA384_DIGEST_LENGTH_def SHA512_DIGEST_LENGTH_def)

lemma md_init_holds: "md_shape md d \<Longrightarrow> md_holds md (md_init md d) []"
  by (cases md; cases d) (simp_all add: md_shape_def md_holds_def md_init_def init_collects sha512_init_collects)

lemma md_update_holds: "md_holds md d m \<Longrightarrow> md_holds md (md_update md d x) (m @ x)"
  by (cases md; cases d)
    (simp_all add: md_holds_def md_update_def MD5_Update_def SHA1_Update_def SHA224_Update_def SHA256_Update_def SHA384_Update_def
      md5.update_collects sha1.update_collects sha256.update_collects sha512_update_collects hash_md_len sha512_md_len_update)

lemma finals:
  "collects md5_block (hc_h MD5_Init) m c \<Longrightarrow> snd (MD5_Final c) = Some (le_words (md5_hash (hc_h MD5_Init) m))"
  "collects sha1_block (hc_h SHA1_Init) m c \<Longrightarrow> snd (SHA1_Final c) = Some (be_words (sha1_hash (hc_h SHA1_Init) m))"
  "collects sha256_block (hc_h SHA224_Init) m c \<Longrightarrow> hc_md_len c = 28 \<Longrightarrow>
     snd (SHA256_Final c) = Some (be_words (take 7 (sha256_hash (hc_h SHA224_Init) m)))"
  "collects sha256_block (hc_h SHA256_Init) m c \<Longrightarrow> hc_md_len c = 32 \<Longrightarrow>
     snd (SHA256_Final c) = Some (be_words (sha256_hash (hc_h SHA256_Init) m))"
  "sha512_collects sha384_iv m s \<Longrightarrow> s5_md_len s = 48 \<Longrightarrow> snd (SHA512_Final s) = Some (be_words (take 6 (sha512_hash sha384_iv m)))"
  "sha512_collects sha512_iv m s \<Longrightarrow> s5_md_len s = 64 \<Longrightarrow> snd (SHA512_Final s) = Some (be_words (sha512_hash sha512_iv m))"
  using md5_final [OF _ ivs(1), of m c] sha1_final [OF _ ivs(2), of m c] sha256_final [OF _ ivs(3), of m c]
    sha256_final [OF _ ivs(4), of m c] sha512_final_digest [OF _ ivs(5), of m s] sha512_final_digest [OF _ ivs(6), of m s]
  by (simp_all add: sha256_hash_block sha512_hash_block ivs)

lemma md_final_hash: "md_holds md d m \<Longrightarrow> snd (md_final md d) = md_hash md m"
  by (cases md; cases d)
    (auto simp: md_holds_def md_final_def md_hash_def SHA224_Final_def SHA384_Final_def Let_def case_prod_beta finals)

lemma md_final_shape: "md_holds md d m \<Longrightarrow> md_shape md (md_cleanse (fst (md_final md d)))"
  by (cases md; cases d)
    (simp_all add: md_holds_def md_final_def md_shape_def md_cleanse_def cleanse_sha512_def SHA384_Final_def Let_def case_prod_beta
      sha512_collects_def buffered_def sha512_final_buffer length_pending)

lemma md_holds_shape: "md_holds md d m \<Longrightarrow> md_shape md d"
  by (cases md; cases d) (simp_all add: md_holds_def md_shape_def sha512_collects_def buffered_def)

interpretation evp: message_digest "md_shape md" "md_holds md" "md_init md" "md_update md" "md_final md" md_cleanse "md_hash md" "EVP_MD_size md"
  for md
  by unfold_locales
    (blast intro: md_init_holds md_update_holds md_final_hash md_final_shape md_holds_shape md_hash_size)+

end
