(* ===== verification/Hmac.thy ===== *)
theory Hmac
  imports Digest
begin

text \<open>
  \<^verbatim>\<open>crypto/fipsmodule/hmac/hmac.c\<close>: the keyed contexts for the inner and the outer hash, restarting
  with the key in place, and that every use computes the HMAC of FIPS 198-1.
\<close>

section \<open>The code\<close>

definition EVP_MAX_MD_BLOCK_SIZE :: nat where "EVP_MAX_MD_BLOCK_SIZE = 128"

record hmac_ctx =
  hm_md :: "evp_md option"
  md_ctx :: evp_md_ctx
  i_ctx :: evp_md_ctx
  o_ctx :: evp_md_ctx

definition HMAC_CTX_init :: hmac_ctx where
  "HMAC_CTX_init = \<lparr>hm_md = None, md_ctx = EVP_MD_CTX_init, i_ctx = EVP_MD_CTX_init, o_ctx = EVP_MD_CTX_init\<rparr>"

text \<open>
  The key as a block of zeros behind it, and the context used for hashing a long one; the key block
  is missing when the allocator fails.
\<close>

definition hmac_key_block ::
  "(evp_md \<Rightarrow> md_state option) \<Rightarrow> evp_md \<Rightarrow> evp_md_ctx \<Rightarrow> u8 list \<Rightarrow> (u8 list option \<times> evp_md_ctx) option" where
  "hmac_key_block alloc md ctx key =
     (let pad = (\<lambda>k. k @ replicate (EVP_MAX_MD_BLOCK_SIZE - length k) 0)
      in if EVP_MD_block_size md < length key
         then do { (ok, ctx) \<leftarrow> EVP_DigestInit_ex alloc ctx md;
                   if \<not> ok then Some (None, ctx)
                   else do { ctx \<leftarrow> EVP_DigestUpdate ctx key; (ctx, out) \<leftarrow> EVP_DigestFinal_ex ctx; Some (Some (pad out), ctx) } }
         else Some (Some (pad key), ctx))"

text \<open>One of the two contexts: initialised and fed with a block of the key and the pad byte.\<close>

definition hmac_pad :: "(evp_md \<Rightarrow> md_state option) \<Rightarrow> evp_md \<Rightarrow> evp_md_ctx \<Rightarrow> u8 \<Rightarrow> u8 list \<Rightarrow> (bool \<times> evp_md_ctx) option" where
  "hmac_pad alloc md ctx x key_block =
     (let pad = map (\<lambda>k. x XOR k) key_block
      in do { (ok, ctx) \<leftarrow> EVP_DigestInit_ex alloc ctx md;
              if \<not> ok then Some (False, ctx)
              else do { ctx \<leftarrow> EVP_DigestUpdate ctx (take (EVP_MD_block_size md) pad); Some (True, ctx) } })"

definition HMAC_Init_ex ::
  "(evp_md \<Rightarrow> md_state option) \<Rightarrow> hmac_ctx \<Rightarrow> u8 list option \<Rightarrow> evp_md option \<Rightarrow> (bool \<times> hmac_ctx) option" where
  "HMAC_Init_ex alloc ctx key md =
     (let md = (case md of None \<Rightarrow> hm_md ctx | Some m \<Rightarrow> Some m)
      in do {
        (ok, ctx) \<leftarrow>
          (if md \<noteq> hm_md ctx \<or> key \<noteq> None
           then do {
             m \<leftarrow> md;
             (kb, c) \<leftarrow> hmac_key_block alloc m (md_ctx ctx) (case key of None \<Rightarrow> [] | Some k \<Rightarrow> k);
             let ctx = ctx\<lparr>md_ctx := c\<rparr>;
             case kb of
               None \<Rightarrow> Some (False, ctx)
             | Some key_block \<Rightarrow> do {
                 (ok, c) \<leftarrow> hmac_pad alloc m (i_ctx ctx) 0x36 key_block;
                 let ctx = ctx\<lparr>i_ctx := c\<rparr>;
                 if \<not> ok then Some (False, ctx)
                 else do {
                   (ok, c) \<leftarrow> hmac_pad alloc m (o_ctx ctx) 0x5c key_block;
                   let ctx = ctx\<lparr>o_ctx := c\<rparr>;
                   if \<not> ok then Some (False, ctx) else Some (True, ctx\<lparr>hm_md := Some m\<rparr>) } } }
           else Some (True, ctx));
        if \<not> ok then Some (False, ctx)
        else do { (ok, c) \<leftarrow> EVP_MD_CTX_copy_ex alloc (md_ctx ctx) (i_ctx ctx); Some (ok, ctx\<lparr>md_ctx := c\<rparr>) } })"

definition HMAC_Update :: "hmac_ctx \<Rightarrow> u8 list \<Rightarrow> hmac_ctx option" where
  "HMAC_Update ctx data = do { c \<leftarrow> EVP_DigestUpdate (md_ctx ctx) data; Some (ctx\<lparr>md_ctx := c\<rparr>) }"

definition HMAC_Final :: "(evp_md \<Rightarrow> md_state option) \<Rightarrow> hmac_ctx \<Rightarrow> (hmac_ctx \<times> u8 list option) option" where
  "HMAC_Final alloc ctx =
     do { (c, buf) \<leftarrow> EVP_DigestFinal_ex (md_ctx ctx);
          (ok, c) \<leftarrow> EVP_MD_CTX_copy_ex alloc c (o_ctx ctx);
          if \<not> ok then Some (ctx\<lparr>md_ctx := c\<rparr>, None)
          else do { c \<leftarrow> EVP_DigestUpdate c buf; (c, out) \<leftarrow> EVP_DigestFinal_ex c; Some (ctx\<lparr>md_ctx := c\<rparr>, Some out) } }"

definition HMAC_size :: "hmac_ctx \<Rightarrow> nat option" where
  "HMAC_size ctx = map_option EVP_MD_size (hm_md ctx)"

definition HMAC :: "(evp_md \<Rightarrow> md_state option) \<Rightarrow> evp_md \<Rightarrow> u8 list \<Rightarrow> u8 list \<Rightarrow> u8 list option option" where
  "HMAC alloc md key data =
     do { (ok, ctx) \<leftarrow> HMAC_Init_ex alloc HMAC_CTX_init (Some key) (Some md);
          if \<not> ok then Some None
          else do { ctx \<leftarrow> HMAC_Update ctx data; (_, out) \<leftarrow> HMAC_Final alloc ctx; Some out } }"

definition HMAC_CTX_copy_ex :: "(evp_md \<Rightarrow> md_state option) \<Rightarrow> hmac_ctx \<Rightarrow> hmac_ctx \<Rightarrow> (bool \<times> hmac_ctx) option" where
  "HMAC_CTX_copy_ex alloc dest src =
     do { (ok, c) \<leftarrow> EVP_MD_CTX_copy_ex alloc (i_ctx dest) (i_ctx src);
          let dest = dest\<lparr>i_ctx := c\<rparr>;
          if \<not> ok then Some (False, dest)
          else do { (ok, c) \<leftarrow> EVP_MD_CTX_copy_ex alloc (o_ctx dest) (o_ctx src);
                    let dest = dest\<lparr>o_ctx := c\<rparr>;
                    if \<not> ok then Some (False, dest)
                    else do { (ok, c) \<leftarrow> EVP_MD_CTX_copy_ex alloc (md_ctx dest) (md_ctx src);
                              let dest = dest\<lparr>md_ctx := c\<rparr>;
                              if \<not> ok then Some (False, dest) else Some (True, dest\<lparr>hm_md := hm_md src\<rparr>) } } }"

section \<open>The standard\<close>

definition hmac_K0 :: "evp_md \<Rightarrow> u8 list \<Rightarrow> u8 list" where
  "hmac_K0 md key =
     (let k = (if length key > EVP_MD_block_size md then md_hash md key else key)
      in k @ replicate (EVP_MD_block_size md - length k) 0)"

definition hmac_spec :: "evp_md \<Rightarrow> u8 list \<Rightarrow> u8 list \<Rightarrow> u8 list" where
  "hmac_spec md key msg =
     (let K0 = hmac_K0 md key
      in md_hash md (map ((XOR) 0x5c) K0 @ md_hash md (map ((XOR) 0x36) K0 @ msg)))"

section \<open>Contexts that have seen a message\<close>

definition evp_holds :: "evp_md \<Rightarrow> u8 list \<Rightarrow> evp_md_ctx \<Rightarrow> bool" where
  "evp_holds md msg c \<longleftrightarrow> digest c = Some md \<and> (\<exists>d. md_data c = Some d \<and> md_holds md d msg)"

text \<open>A context that can be initialised: empty, or of some digest with memory for it.\<close>

definition evp_usable :: "evp_md_ctx \<Rightarrow> bool" where
  "evp_usable c \<longleftrightarrow> (case digest c of None \<Rightarrow> True | Some md \<Rightarrow> \<exists>d. md_data c = Some d \<and> md_shape md d)"

definition allocates :: "(evp_md \<Rightarrow> md_state option) \<Rightarrow> bool" where
  "allocates alloc \<longleftrightarrow> (\<forall>md. \<exists>d. alloc md = Some d \<and> md_shape md d)"

lemma evp_holds_usable: "evp_holds md msg c \<Longrightarrow> evp_usable c"
  using evp.holds_shape by (auto simp: evp_holds_def evp_usable_def)

lemma evp_init:
  assumes "allocates alloc" and "evp_usable c"
  shows "\<exists>c'. EVP_DigestInit_ex alloc c md = Some (True, c') \<and> evp_holds md [] c'"
  using assms evp.init_holds [of md]
  by (cases "digest c = Some md")
    (force simp: EVP_DigestInit_ex_def evp_usable_def evp_holds_def allocates_def)+

lemma evp_update:
  "evp_holds md msg c \<Longrightarrow> \<exists>c'. EVP_DigestUpdate c data = Some c' \<and> evp_holds md (msg @ data) c'"
  using evp.update_holds by (force simp: EVP_DigestUpdate_def evp_holds_def)

lemma evp_final:
  assumes "evp_holds md msg c"
  shows "\<exists>c'. EVP_DigestFinal_ex c = Some (c', md_hash md msg) \<and> digest c' = Some md \<and> evp_usable c'"
proof -
  obtain d where d: "digest c = Some md" "md_data c = Some d" "md_holds md d msg" using assms by (auto simp: evp_holds_def)
  then show ?thesis using evp.final_hash [OF d(3)] evp.final_shape [OF d(3)]
    by (auto simp: EVP_DigestFinal_ex_def evp_usable_def Let_def split: prod.split)
qed

lemma evp_copy:
  assumes "allocates alloc" and "evp_holds md msg c"
  shows "\<exists>c'. EVP_MD_CTX_copy_ex alloc out c = Some (True, c') \<and> evp_holds md msg c'"
proof -
  obtain d where "alloc md = Some d" using assms(1) unfolding allocates_def by blast
  then show ?thesis using assms(2) by (auto simp: EVP_MD_CTX_copy_ex_def evp_holds_def EVP_MD_CTX_init_def)
qed

section \<open>The key\<close>

lemma block_sizes: "EVP_MD_block_size md \<le> 128" "EVP_MD_size md \<le> EVP_MD_block_size md"
  by (cases md; simp add: EVP_MD_block_size_def EVP_MD_size_def SHA224_DIGEST_LENGTH_def SHA256_DIGEST_LENGTH_def
      SHA384_DIGEST_LENGTH_def SHA512_DIGEST_LENGTH_def)+

lemma pad_key:
  assumes "length k \<le> EVP_MD_block_size md"
  shows "take (EVP_MD_block_size md) (map f (k @ replicate (EVP_MAX_MD_BLOCK_SIZE - length k) 0))
    = map f (k @ replicate (EVP_MD_block_size md - length k) 0)"
  using assms block_sizes(1) [of md] by (simp add: EVP_MAX_MD_BLOCK_SIZE_def min_def)

lemma key_block:
  assumes "allocates alloc" and "evp_usable c"
  shows "\<exists>c' kb. hmac_key_block alloc md c key = Some (Some kb, c') \<and> evp_usable c'
    \<and> (\<forall>x. take (EVP_MD_block_size md) (map ((XOR) x) kb) = map ((XOR) x) (hmac_K0 md key))"
proof (cases "EVP_MD_block_size md < length key")
  case True
  obtain c1 where 1: "EVP_DigestInit_ex alloc c md = Some (True, c1)" "evp_holds md [] c1" using evp_init [OF assms] by blast
  obtain c2 where 2: "EVP_DigestUpdate c1 key = Some c2" "evp_holds md key c2" using evp_update [OF 1(2), of key] by auto
  obtain c3 where 3: "EVP_DigestFinal_ex c2 = Some (c3, md_hash md key)" "evp_usable c3" using evp_final [OF 2(2)] by blast
  have "length (md_hash md key) \<le> EVP_MD_block_size md" using block_sizes(2) by (simp add: evp.hash_size)
  note pad = pad_key [OF this]
  show ?thesis unfolding hmac_key_block_def hmac_K0_def Let_def using True 1 2 3
    by (simp add: pad del: map_append take_append map_replicate take_map)
next
  case False
  then have "length key \<le> EVP_MD_block_size md" by simp
  note pad = pad_key [OF this]
  show ?thesis unfolding hmac_key_block_def hmac_K0_def Let_def using False assms(2)
    by (simp add: pad del: map_append take_append map_replicate take_map)
qed

lemma pad_holds:
  assumes "allocates alloc" and "evp_usable c"
  shows "\<exists>c'. hmac_pad alloc md c x kb = Some (True, c') \<and> evp_holds md (take (EVP_MD_block_size md) (map ((XOR) x) kb)) c'"
proof -
  obtain c1 where 1: "EVP_DigestInit_ex alloc c md = Some (True, c1)" "evp_holds md [] c1" using evp_init [OF assms] by blast
  from evp_update [OF 1(2), of "take (EVP_MD_block_size md) (map ((XOR) x) kb)"] show ?thesis
    using 1 by (auto simp: hmac_pad_def Let_def)
qed

section \<open>Keyed contexts\<close>

text \<open>A context with a key, and one with a key and the message fed so far.\<close>

definition hmac_keyed :: "evp_md \<Rightarrow> u8 list \<Rightarrow> hmac_ctx \<Rightarrow> bool" where
  "hmac_keyed md key ctx \<longleftrightarrow>
     hm_md ctx = Some md \<and> evp_holds md (map ((XOR) 0x36) (hmac_K0 md key)) (i_ctx ctx)
     \<and> evp_holds md (map ((XOR) 0x5c) (hmac_K0 md key)) (o_ctx ctx) \<and> evp_usable (md_ctx ctx)"

definition hmac_fed :: "evp_md \<Rightarrow> u8 list \<Rightarrow> u8 list \<Rightarrow> hmac_ctx \<Rightarrow> bool" where
  "hmac_fed md key msg ctx \<longleftrightarrow>
     hmac_keyed md key ctx \<and> evp_holds md (map ((XOR) 0x36) (hmac_K0 md key) @ msg) (md_ctx ctx)"

definition hmac_usable :: "hmac_ctx \<Rightarrow> bool" where
  "hmac_usable ctx \<longleftrightarrow> evp_usable (md_ctx ctx) \<and> evp_usable (i_ctx ctx) \<and> evp_usable (o_ctx ctx)"

lemma keyed_usable: "hmac_keyed md key ctx \<Longrightarrow> hmac_usable ctx"
  using evp_holds_usable by (auto simp: hmac_keyed_def hmac_usable_def)

lemma fresh_usable: "hmac_usable HMAC_CTX_init"
  by (simp add: hmac_usable_def HMAC_CTX_init_def evp_usable_def EVP_MD_CTX_init_def)

lemma hmac_start:
  assumes "allocates alloc" and "hmac_keyed md key ctx"
  shows "\<exists>ctx'. do { (ok, c) \<leftarrow> EVP_MD_CTX_copy_ex alloc (md_ctx ctx) (i_ctx ctx); Some (ok, ctx\<lparr>md_ctx := c\<rparr>) } = Some (True, ctx')
    \<and> hmac_fed md key [] ctx'"
proof -
  have "evp_holds md (map ((XOR) 0x36) (hmac_K0 md key)) (i_ctx ctx)" using assms(2) by (simp add: hmac_keyed_def)
  from evp_copy [OF assms(1) this, of "md_ctx ctx"] show ?thesis
    using assms(2) evp_holds_usable by (fastforce simp: hmac_keyed_def hmac_fed_def)
qed

lemma hmac_init_key:
  assumes "allocates alloc" and "hmac_usable ctx"
  shows "\<exists>ctx'. HMAC_Init_ex alloc ctx (Some key) (Some md) = Some (True, ctx') \<and> hmac_fed md key [] ctx'"
proof -
  have u: "evp_usable (md_ctx ctx)" "evp_usable (i_ctx ctx)" "evp_usable (o_ctx ctx)" using assms(2) by (simp_all add: hmac_usable_def)
  obtain c kb where kb: "hmac_key_block alloc md (md_ctx ctx) key = Some (Some kb, c)" "evp_usable c"
      "\<And>x. take (EVP_MD_block_size md) (map ((XOR) x) kb) = map ((XOR) x) (hmac_K0 md key)"
    using key_block [OF assms(1) u(1), of md key] by blast
  obtain i where i: "hmac_pad alloc md (i_ctx ctx) 0x36 kb = Some (True, i)" "evp_holds md (map ((XOR) 0x36) (hmac_K0 md key)) i"
    using pad_holds [OF assms(1) u(2), of md "0x36" kb] by (auto simp: kb(3))
  obtain j where j: "hmac_pad alloc md (o_ctx ctx) 0x5c kb = Some (True, j)" "evp_holds md (map ((XOR) 0x5c) (hmac_K0 md key)) j"
    using pad_holds [OF assms(1) u(3), of md "0x5c" kb] by (auto simp: kb(3))
  let ?ctx = "ctx\<lparr>md_ctx := c, i_ctx := i, o_ctx := j, hm_md := Some md\<rparr>"
  have "hmac_keyed md key ?ctx" using kb(2) i(2) j(2) by (simp add: hmac_keyed_def)
  from hmac_start [OF assms(1) this] show ?thesis using kb(1) i(1) j(1) by (simp add: HMAC_Init_ex_def Let_def)
qed

lemma hmac_restart:
  assumes "allocates alloc" and "hmac_keyed md key ctx"
  shows "\<exists>ctx'. HMAC_Init_ex alloc ctx None None = Some (True, ctx') \<and> hmac_fed md key [] ctx'"
  using hmac_start [OF assms] assms(2) by (simp add: HMAC_Init_ex_def Let_def hmac_keyed_def)

lemma hmac_update:
  "hmac_fed md key msg ctx \<Longrightarrow> \<exists>ctx'. HMAC_Update ctx data = Some ctx' \<and> hmac_fed md key (msg @ data) ctx'"
  using evp_update [of md _ "md_ctx ctx" data] evp_holds_usable
  by (fastforce simp: HMAC_Update_def hmac_fed_def hmac_keyed_def)

lemma hmac_final:
  assumes "allocates alloc" and "hmac_fed md key msg ctx"
  shows "\<exists>ctx'. HMAC_Final alloc ctx = Some (ctx', Some (hmac_spec md key msg)) \<and> hmac_keyed md key ctx'"
proof -
  let ?i = "map ((XOR) 0x36) (hmac_K0 md key)" and ?o = "map ((XOR) 0x5c) (hmac_K0 md key)"
  have h: "evp_holds md (?i @ msg) (md_ctx ctx)" "hmac_keyed md key ctx" "evp_holds md ?o (o_ctx ctx)"
    using assms(2) by (simp_all add: hmac_fed_def hmac_keyed_def)
  obtain c1 where 1: "EVP_DigestFinal_ex (md_ctx ctx) = Some (c1, md_hash md (?i @ msg))" using evp_final [OF h(1)] by blast
  obtain c2 where 2: "EVP_MD_CTX_copy_ex alloc c1 (o_ctx ctx) = Some (True, c2)" "evp_holds md ?o c2"
    using evp_copy [OF assms(1) h(3)] by blast
  obtain c3 where 3: "EVP_DigestUpdate c2 (md_hash md (?i @ msg)) = Some c3" "evp_holds md (?o @ md_hash md (?i @ msg)) c3"
    using evp_update [OF 2(2)] by blast
  obtain c4 where 4: "EVP_DigestFinal_ex c3 = Some (c4, md_hash md (?o @ md_hash md (?i @ msg)))" "evp_usable c4"
    using evp_final [OF 3(2)] by blast
  show ?thesis using 1 2 3 4 h(2) by (simp add: HMAC_Final_def hmac_spec_def Let_def hmac_keyed_def)
qed

section \<open>Whole messages\<close>

primrec HMAC_Updates :: "hmac_ctx \<Rightarrow> u8 list list \<Rightarrow> hmac_ctx option" where
  "HMAC_Updates ctx [] = Some ctx"
| "HMAC_Updates ctx (d # ds) = do { ctx \<leftarrow> HMAC_Update ctx d; HMAC_Updates ctx ds }"

lemma hmac_updates:
  "hmac_fed md key msg ctx \<Longrightarrow> \<exists>ctx'. HMAC_Updates ctx ds = Some ctx' \<and> hmac_fed md key (msg @ concat ds) ctx'"
proof (induction ds arbitrary: msg ctx)
  case (Cons d ds)
  obtain c where "HMAC_Update ctx d = Some c" "hmac_fed md key (msg @ d) c" using hmac_update [OF Cons.prems] by blast
  then show ?case using Cons.IH [of "msg @ d" c] by simp
qed simp

text \<open>
  C7: Every HMAC is computed: with an allocator that does not fail, a context that is new or was used before, keyed with any
  key (a long one is hashed first) and fed with a message in any pieces, yields the HMAC of FIPS 198-1 over the
  digest's hash function; initialised again without a key it does so for the next message under the same key; the one-shot function
  agrees. No null pointer is dereferenced.
\<close>

theorem hmac_exact:
  assumes "allocates alloc" and "hmac_usable ctx"
  shows "\<exists>c1 c2 c3 c4 c5 c6.
      HMAC_Init_ex alloc ctx (Some key) (Some md) = Some (True, c1)
    \<and> HMAC_Updates c1 ds = Some c2
    \<and> HMAC_Final alloc c2 = Some (c3, Some (hmac_spec md key (concat ds)))
    \<and> HMAC_Init_ex alloc c3 None None = Some (True, c4)
    \<and> HMAC_Updates c4 es = Some c5
    \<and> HMAC_Final alloc c5 = Some (c6, Some (hmac_spec md key (concat es))) \<and> hmac_usable c6
    \<and> HMAC alloc md key (concat ds) = Some (Some (hmac_spec md key (concat ds)))"
proof -
  obtain c1 where 1: "HMAC_Init_ex alloc ctx (Some key) (Some md) = Some (True, c1)" "hmac_fed md key [] c1"
    using hmac_init_key [OF assms] by blast
  obtain c2 where 2: "HMAC_Updates c1 ds = Some c2" "hmac_fed md key (concat ds) c2" using hmac_updates [OF 1(2), of ds] by auto
  obtain c3 where 3: "HMAC_Final alloc c2 = Some (c3, Some (hmac_spec md key (concat ds)))" "hmac_keyed md key c3"
    using hmac_final [OF assms(1) 2(2)] by blast
  obtain c4 where 4: "HMAC_Init_ex alloc c3 None None = Some (True, c4)" "hmac_fed md key [] c4"
    using hmac_restart [OF assms(1) 3(2)] by blast
  obtain c5 where 5: "HMAC_Updates c4 es = Some c5" "hmac_fed md key (concat es) c5" using hmac_updates [OF 4(2), of es] by auto
  obtain c6 where 6: "HMAC_Final alloc c5 = Some (c6, Some (hmac_spec md key (concat es)))" "hmac_keyed md key c6"
    using hmac_final [OF assms(1) 5(2)] by blast
  obtain d1 where d1: "HMAC_Init_ex alloc HMAC_CTX_init (Some key) (Some md) = Some (True, d1)" "hmac_fed md key [] d1"
    using hmac_init_key [OF assms(1) fresh_usable] by blast
  obtain d2 where d2: "HMAC_Update d1 (concat ds) = Some d2" "hmac_fed md key (concat ds) d2"
    using hmac_update [OF d1(2), of "concat ds"] by auto
  obtain d3 where d3: "HMAC_Final alloc d2 = Some (d3, Some (hmac_spec md key (concat ds)))"
    using hmac_final [OF assms(1) d2(2)] by blast
  have "HMAC alloc md key (concat ds) = Some (Some (hmac_spec md key (concat ds)))"
    using d1 d2 d3 by (simp add: HMAC_def)
  then show ?thesis using 1 2 3 4 5 6 keyed_usable by blast
qed

text \<open>A malloc that returns memory of zeros of the size of the context.\<close>

definition zero_alloc :: "evp_md \<Rightarrow> md_state option" where
  "zero_alloc md =
     (let z = hash_ctx_init (replicate 8 0) 0; s = \<lparr>s5_h = replicate 8 0, s5_Nl = 0, s5_Nh = 0, s5_u = replicate 128 0, s5_num = 0, s5_md_len = 0\<rparr>
      in Some (if md = EVP_md5_sha1 then Md5_Sha1_Ctx z z else if md \<in> {EVP_sha384, EVP_sha512} then Sha512_Ctx s else Md32_Ctx z))"

theorem hmac_exact_witness:
  "\<exists>c1 c2 c3. HMAC_Init_ex zero_alloc HMAC_CTX_init (Some [1, 2, 3]) (Some EVP_sha256) = Some (True, c1)
   \<and> HMAC_Updates c1 [[72], [105, 33]] = Some c2
   \<and> HMAC_Final zero_alloc c2 = Some (c3, Some (hmac_spec EVP_sha256 [1, 2, 3] [72, 105, 33]))"
proof -
  have "allocates zero_alloc" unfolding allocates_def
  proof
    fix md show "\<exists>d. zero_alloc md = Some d \<and> md_shape md d" by (cases md) (simp_all add: zero_alloc_def md_shape_def Let_def)
  qed
  from hmac_exact [OF this fresh_usable, of "[1, 2, 3]" EVP_sha256 "[[72], [105, 33]]" "[]"] show ?thesis by auto
qed

end
