(* ===== verification/Bn.thy ===== *)
theory Bn
  imports ConstTime
begin

text \<open>
  The word routines of \<^verbatim>\<open>crypto/fipsmodule/bn/generic.c\<close>: a number is a list of 64-bit words, the
  least significant first, and \<open>words_val\<close> the number it stands for. The double word of the C code
  (\<^verbatim>\<open>BN_ULLONG\<close>) is a 128-bit word. A routine returns the words it writes through its result
  pointer and the carry it returns; it reads a word of an argument before it writes the word of the same index,
  so the result may be one of the arguments.
\<close>

section \<open>Numbers as lists of words\<close>

type_synonym u128 = "128 word"

declare of_nat_unat [simp del]

text \<open>The base of the digits is kept folded, so that the simplifier does not compute with it.\<close>

definition BN_BASE :: nat where "BN_BASE = 2 ^ 64"

primrec words_val :: "u64 list \<Rightarrow> nat" where
  "words_val [] = 0"
| "words_val (w # ws) = unat w + BN_BASE * words_val ws"

named_theorems words_simps \<open>lists of words and the number they stand for\<close>

lemma BN_BASE_pos [simp]: "0 < BN_BASE" "BN_BASE \<noteq> 0" "1 < BN_BASE" "Suc 0 < BN_BASE" "1 \<le> BN_BASE" "Suc 0 \<le> BN_BASE"
  by (simp_all add: BN_BASE_def)

lemma unat_less_base [simp]: "unat (w :: u64) < BN_BASE"
  using unsigned_less [of w, where ?'a = nat] by (simp add: BN_BASE_def)

lemma unat_le_base: "unat (w :: u64) \<le> BN_BASE - 1"
  using unat_less_base [of w] by linarith

lemma words_val_append [words_simps]: "words_val (as @ bs) = words_val as + BN_BASE ^ length as * words_val bs"
  by (induction as) (simp_all add: algebra_simps)

lemma words_val_less [simp]: "words_val ws < BN_BASE ^ length ws"
proof (induction ws)
  case (Cons w ws)
  have "words_val (w # ws) < BN_BASE * (words_val ws + 1)" by (simp add: algebra_simps)
  also have "\<dots> \<le> BN_BASE * BN_BASE ^ length ws" using Cons by (intro mult_left_mono) simp_all
  finally show ?case by simp
qed simp

lemma words_val_less_exp: "length ws = n \<Longrightarrow> words_val ws < BN_BASE ^ n"
  using words_val_less [of ws] by simp

lemma words_val_zeros [simp, words_simps]: "words_val (replicate n 0) = 0"
  by (induction n) simp_all

lemma words_val_split: "n \<le> length ws \<Longrightarrow> words_val ws = words_val (take n ws) + BN_BASE ^ n * words_val (drop n ws)"
  using words_val_append [of "take n ws" "drop n ws"] by (simp add: min_absorb2)

lemma words_val_Cons_mod: "words_val (c # cs) mod BN_BASE = unat c"
  unfolding words_val.simps mod_mult_self2 by (rule mod_less) (rule unat_less_base)

lemma words_val_Cons_div: "words_val (c # cs) div BN_BASE = words_val cs"
  unfolding words_val.simps by (subst div_mult_self2) (simp_all only: BN_BASE_pos div_less unat_less_base add_0_right, simp_all)

lemma words_val_inject: "length as = length bs \<Longrightarrow> words_val as = words_val bs \<longleftrightarrow> as = bs"
proof (induction as bs rule: list_induct2)
  case (Cons a as b bs)
  then show ?case
    by (metis word_unat_eq_iff words_val_Cons_div words_val_Cons_mod)
qed simp

section \<open>Double words\<close>

definition Lw :: "u128 \<Rightarrow> u64" where "Lw t = ucast t"
definition Hw :: "u128 \<Rightarrow> u64" where "Hw t = ucast (drop_bit 64 t)"

lemma base_square: "BN_BASE * BN_BASE = 2 ^ 128"
  by (simp add: BN_BASE_def)

lemma unat_Lw: "unat (Lw t) = unat t mod BN_BASE"
  by (simp add: Lw_def BN_BASE_def unsigned_ucast_eq take_bit_eq_mod)

lemma unat_Hw: "unat (Hw t) = unat t div BN_BASE"
proof -
  have "unat t < 2 ^ 128" using unsigned_less [of t, where ?'a = nat] by simp
  then have "unat t div 2 ^ 64 < 2 ^ 64" by (intro less_mult_imp_div_less) simp
  then show ?thesis
    by (simp add: Hw_def BN_BASE_def unsigned_ucast_eq take_bit_eq_mod unat_drop_bit)
qed

lemma Lw_Hw: "unat (Lw t) + BN_BASE * unat (Hw t) = unat t"
  by (simp add: unat_Lw unat_Hw)

lemma unat_double [simp]: "unat (ucast (w :: u64) :: u128) = unat w"
proof -
  have "unat w < 2 ^ 64" using unsigned_less [of w, where ?'a = nat] by simp
  then show ?thesis by (simp add: unsigned_ucast_eq take_bit_eq_mod)
qed

lemma unat_double_add:
  "unat a + unat b < BN_BASE * BN_BASE \<Longrightarrow> unat (a + b :: u128) = unat a + unat b"
  by (simp add: base_square unat_word_ariths)

lemma digit_product_bound: "x < BN_BASE \<Longrightarrow> y < BN_BASE \<Longrightarrow> c < BN_BASE \<Longrightarrow> d < BN_BASE \<Longrightarrow> x * y + c + d < BN_BASE * BN_BASE"
proof -
  assume *: "x < BN_BASE" "y < BN_BASE" "c < BN_BASE" "d < BN_BASE"
  define B where "B = BN_BASE - 1"
  have B: "BN_BASE = B + 1" by (simp add: B_def)
  from * have "x * y \<le> B * B" by (intro mult_mono) (simp_all add: B)
  with * show ?thesis by (simp add: B algebra_simps)
qed

lemma unat_double_mult: "unat (ucast (a :: u64) * ucast (b :: u64) :: u128) = unat a * unat b"
proof -
  have "unat a * unat b < BN_BASE * BN_BASE" by (intro mult_strict_mono) simp_all
  then show ?thesis by (simp add: base_square unat_word_ariths)
qed

section \<open>Multiplication by one word\<close>

definition mul_add :: "u64 \<Rightarrow> u64 \<Rightarrow> u64 \<Rightarrow> u64 \<Rightarrow> u64 \<times> u64" where
  "mul_add r a w c = (let t = ucast w * ucast a + ucast r + ucast c in (Lw t, Hw t))"

definition mul :: "u64 \<Rightarrow> u64 \<Rightarrow> u64 \<Rightarrow> u64 \<times> u64" where
  "mul a w c = (let t = ucast w * ucast a + ucast c in (Lw t, Hw t))"

definition sqr :: "u64 \<Rightarrow> u64 \<times> u64" where
  "sqr a = (let t = ucast a * ucast a in (Lw t, Hw t))"

text \<open>
  The loops take four digits at a time while there are four, and then one at a time; the arguments end
  where the words do, so \<^verbatim>\<open>num\<close> of the C code is their length. \<open>quad_loop\<close> is this loop for the step
  \<open>f\<close> of one digit and the carry that the steps hand on.
\<close>

fun quad_loop :: "('a \<Rightarrow> 'c \<Rightarrow> 'b \<times> 'c) \<Rightarrow> 'a list \<Rightarrow> 'c \<Rightarrow> 'b list \<times> 'c" where
  "quad_loop f (a0 # a1 # a2 # a3 # ap) c =
     (let (r0, c) = f a0 c; (r1, c) = f a1 c; (r2, c) = f a2 c; (r3, c) = f a3 c;
          (rp, c) = quad_loop f ap c
      in (r0 # r1 # r2 # r3 # rp, c))"
| "quad_loop f (a0 # ap) c = (let (r0, c) = f a0 c; (rp, c) = quad_loop f ap c in (r0 # rp, c))"
| "quad_loop f [] c = ([], c)"

definition bn_mul_add_words :: "u64 list \<Rightarrow> u64 list \<Rightarrow> u64 \<Rightarrow> u64 list \<times> u64" where
  "bn_mul_add_words rp ap w = quad_loop (\<lambda>(r, a). mul_add r a w) (zip rp ap) 0"

definition bn_mul_words :: "u64 list \<Rightarrow> u64 \<Rightarrow> u64 list \<times> u64" where
  "bn_mul_words ap w = quad_loop (\<lambda>a. mul a w) ap 0"

definition bn_sqr_words :: "u64 list \<Rightarrow> u64 list" where
  "bn_sqr_words ap = concat (fst (quad_loop (\<lambda>a c. case sqr a of (r0, r1) \<Rightarrow> ([r0, r1], c)) ap ()))"

section \<open>Sums and differences\<close>

text \<open>The sum of two digits is added to the double word \<open>ll\<close>, whose upper half is the carry.\<close>

definition add_digit :: "u64 \<times> u64 \<Rightarrow> u128 \<Rightarrow> u64 \<times> u128" where
  "add_digit ab ll = (case ab of (a, b) \<Rightarrow> let ll = ll + (ucast a + ucast b) in (Lw ll, drop_bit 64 ll))"

definition bn_add_words :: "u64 list \<Rightarrow> u64 list \<Rightarrow> u64 list \<times> u64" where
  "bn_add_words a b = (let (r, ll) = quad_loop add_digit (zip a b) 0 in (r, Lw ll))"

text \<open>The borrow is an \<^verbatim>\<open>int\<close> that is zero or one.\<close>

definition sub_digit :: "u64 \<times> u64 \<Rightarrow> bool \<Rightarrow> u64 \<times> bool" where
  "sub_digit ab c = (case ab of (t1, t2) \<Rightarrow> (t1 - t2 - of_bool c, if t1 \<noteq> t2 then t1 < t2 else c))"

definition bn_sub_words :: "u64 list \<Rightarrow> u64 list \<Rightarrow> u64 list \<times> u64" where
  "bn_sub_words a b = (let (r, c) = quad_loop sub_digit (zip a b) False in (r, of_bool c))"

section \<open>Products by columns\<close>

text \<open>
  \<^verbatim>\<open>mul_add_c\<close> adds a product to a number of three words. The code gives the three variables in
  turn the roles of the low, middle and high word; here they are listed in the order of their roles.
\<close>

type_synonym acc3 = "u64 \<times> u64 \<times> u64"

fun mul_add_c :: "u64 \<Rightarrow> u64 \<Rightarrow> acc3 \<Rightarrow> acc3" where
  "mul_add_c a b (c0, c1, c2) =
     (let t = ucast a * ucast b + ucast c0;
          c0 = Lw t; hi = Hw t;
          c1 = c1 + hi;
          c2 = (if c1 < hi then c2 + 1 else c2)
      in (c0, c1, c2))"

fun mul_add_c2 :: "u64 \<Rightarrow> u64 \<Rightarrow> acc3 \<Rightarrow> acc3" where
  "mul_add_c2 a b (c0, c1, c2) =
     (let t = ucast a * ucast b;
          tt = t + ucast c0;
          c0 = Lw tt; hi = Hw tt;
          c1 = c1 + hi;
          c2 = (if c1 < hi then c2 + 1 else c2);
          t = t + ucast c0;
          c0 = Lw t; hi = Hw t;
          c1 = c1 + hi;
          c2 = (if c1 < hi then c2 + 1 else c2)
      in (c0, c1, c2))"

text \<open>\<^verbatim>\<open>sqr_add_c\<close> for a square and \<^verbatim>\<open>sqr_add_c2\<close> for the product of two different digits.\<close>

definition sqr_add_c :: "u64 list \<Rightarrow> nat \<Rightarrow> acc3 \<Rightarrow> acc3" where
  "sqr_add_c a i = mul_add_c (a ! i) (a ! i)"

definition sqr_add_c2 :: "u64 list \<Rightarrow> nat \<Rightarrow> nat \<Rightarrow> acc3 \<Rightarrow> acc3" where
  "sqr_add_c2 a i j = mul_add_c2 (a ! i) (a ! j)"

text \<open>
  After the products of a column the low word is the digit of the result, and its variable, set
  to zero, becomes the high word of the next column. The last digit is the low word that is left.
\<close>

fun comba :: "('i \<Rightarrow> acc3 \<Rightarrow> acc3) \<Rightarrow> 'i list list \<Rightarrow> acc3 \<Rightarrow> u64 list" where
  "comba f [] (c0, c1, c2) = [c0]"
| "comba f (col # cols) acc = (case fold f col acc of (c0, c1, c2) \<Rightarrow> c0 # comba f cols (c1, c2, 0))"

text \<open>The calls of the unrolled functions, column by column, by the indices of their digits.\<close>

definition mul_comba8_columns :: "(nat \<times> nat) list list" where
  "mul_comba8_columns =
    [[(0, 0)],
     [(0, 1), (1, 0)],
     [(2, 0), (1, 1), (0, 2)],
     [(0, 3), (1, 2), (2, 1), (3, 0)],
     [(4, 0), (3, 1), (2, 2), (1, 3), (0, 4)],
     [(0, 5), (1, 4), (2, 3), (3, 2), (4, 1), (5, 0)],
     [(6, 0), (5, 1), (4, 2), (3, 3), (2, 4), (1, 5), (0, 6)],
     [(0, 7), (1, 6), (2, 5), (3, 4), (4, 3), (5, 2), (6, 1), (7, 0)],
     [(7, 1), (6, 2), (5, 3), (4, 4), (3, 5), (2, 6), (1, 7)],
     [(2, 7), (3, 6), (4, 5), (5, 4), (6, 3), (7, 2)],
     [(7, 3), (6, 4), (5, 5), (4, 6), (3, 7)],
     [(4, 7), (5, 6), (6, 5), (7, 4)],
     [(7, 5), (6, 6), (5, 7)],
     [(6, 7), (7, 6)],
     [(7, 7)]]"

definition mul_comba4_columns :: "(nat \<times> nat) list list" where
  "mul_comba4_columns =
    [[(0, 0)],
     [(0, 1), (1, 0)],
     [(2, 0), (1, 1), (0, 2)],
     [(0, 3), (1, 2), (2, 1), (3, 0)],
     [(3, 1), (2, 2), (1, 3)],
     [(2, 3), (3, 2)],
     [(3, 3)]]"

definition sqr_comba8_columns :: "(nat \<times> nat) list list" where
  "sqr_comba8_columns =
    [[(0, 0)],
     [(1, 0)],
     [(1, 1), (2, 0)],
     [(3, 0), (2, 1)],
     [(2, 2), (3, 1), (4, 0)],
     [(5, 0), (4, 1), (3, 2)],
     [(3, 3), (4, 2), (5, 1), (6, 0)],
     [(7, 0), (6, 1), (5, 2), (4, 3)],
     [(4, 4), (5, 3), (6, 2), (7, 1)],
     [(7, 2), (6, 3), (5, 4)],
     [(5, 5), (6, 4), (7, 3)],
     [(7, 4), (6, 5)],
     [(6, 6), (7, 5)],
     [(7, 6)],
     [(7, 7)]]"

definition sqr_comba4_columns :: "(nat \<times> nat) list list" where
  "sqr_comba4_columns =
    [[(0, 0)],
     [(1, 0)],
     [(1, 1), (2, 0)],
     [(3, 0), (2, 1)],
     [(2, 2), (3, 1)],
     [(3, 2)],
     [(3, 3)]]"

definition comba_product :: "(nat \<times> nat) list list \<Rightarrow> u64 list \<Rightarrow> u64 list \<Rightarrow> u64 list" where
  "comba_product cols a b = comba (\<lambda>(i, j). mul_add_c (a ! i) (b ! j)) cols (0, 0, 0)"

definition comba_square :: "(nat \<times> nat) list list \<Rightarrow> u64 list \<Rightarrow> u64 list" where
  "comba_square cols a = comba (\<lambda>(i, j). if i = j then sqr_add_c a i else sqr_add_c2 a i j) cols (0, 0, 0)"

definition bn_mul_comba8 :: "u64 list \<Rightarrow> u64 list \<Rightarrow> u64 list" where
  "bn_mul_comba8 = comba_product mul_comba8_columns"

definition bn_mul_comba4 :: "u64 list \<Rightarrow> u64 list \<Rightarrow> u64 list" where
  "bn_mul_comba4 = comba_product mul_comba4_columns"

definition bn_sqr_comba8 :: "u64 list \<Rightarrow> u64 list" where
  "bn_sqr_comba8 = comba_square sqr_comba8_columns"

definition bn_sqr_comba4 :: "u64 list \<Rightarrow> u64 list" where
  "bn_sqr_comba4 = comba_square sqr_comba4_columns"

section \<open>The value of one digit step\<close>

lemma mul_add_val: "mul_add r a w c = (l, h) \<Longrightarrow> unat l + BN_BASE * unat h = unat a * unat w + unat r + unat c"
proof -
  assume "mul_add r a w c = (l, h)"
  then have e: "unat l + BN_BASE * unat h = unat (ucast w * ucast a + ucast r + ucast c :: u128)"
    using Lw_Hw by (auto simp: mul_add_def Let_def)
  have b: "unat a * unat w + unat r + unat c < BN_BASE * BN_BASE" by (rule digit_product_bound) simp_all
  then have "unat (ucast w * ucast a + ucast r :: u128) = unat a * unat w + unat r"
    by (subst unat_double_add) (simp_all add: unat_double_mult mult.commute)
  then show ?thesis using b unfolding e by (subst unat_double_add) simp_all
qed

lemma mul_val: "mul a w c = (l, h) \<Longrightarrow> unat l + BN_BASE * unat h = unat a * unat w + unat c"
  using mul_add_val [of 0 a w c l h] by (simp add: mul_def mul_add_def)

lemma sqr_val: "sqr a = (l, h) \<Longrightarrow> unat l + BN_BASE * unat h = unat a * unat a"
  using Lw_Hw by (auto simp: sqr_def Let_def simp flip: unat_double_mult)

text \<open>The loop by fours is the loop by ones.\<close>

lemma quad_loop_Cons: "quad_loop f (a # ap) c = (let (r, c) = f a c; (rp, c) = quad_loop f ap c in (r # rp, c))"
proof (induction ap arbitrary: a c rule: length_induct)
  case (1 ap)
  show ?case
  proof (cases "(f, a # ap, c)" rule: quad_loop.cases)
    case (1 f' a0 a1 a2 a3 aq c')
    with "1.IH" show ?thesis by (cases aq) (auto split: prod.split)
  qed (auto split: prod.split)
qed

lemma length_quad_loop [simp]: "length (fst (quad_loop f ap c)) = length ap"
  by (induction ap arbitrary: c) (simp_all add: quad_loop_Cons case_prod_beta del: quad_loop.simps(1-4))

declare quad_loop.simps(1-4) [simp del]

text \<open>
  A number is made of its digits by Horner's rule. When the digit and the carry of each step carry over to
  the next place what the step adds, the digits and the last carry are the sum; the carry counts negative when the
  digits are subtracted.
\<close>

definition digits_sum :: "('a \<Rightarrow> int) \<Rightarrow> 'a list \<Rightarrow> int" where
  "digits_sum g as = foldr (\<lambda>a s. g a + int BN_BASE * s) as 0"

lemma digits_sum_simps [simp]:
  "digits_sum g [] = 0" "digits_sum g (a # as) = g a + int BN_BASE * digits_sum g as"
  by (simp_all add: digits_sum_def)

lemma digits_sum_words: "digits_sum (\<lambda>a. int (unat a)) as = int (words_val as)"
  by (induction as) simp_all

lemma digits_sum_zip:
  assumes "length as = length bs"
  shows "digits_sum (\<lambda>(a, b). x * int (unat a) + y * int (unat b)) (zip as bs) = x * int (words_val as) + y * int (words_val bs)"
  using assms
proof (induction as bs rule: list_induct2)
  case (Cons a as b bs)
  show ?case by (simp add: Cons.IH) (simp add: algebra_simps)
qed simp

lemma quad_loop_val:
  assumes step: "\<And>a c. Inv c \<Longrightarrow> Inv (snd (f a c)) \<and>
      int (unat (fst (f a c))) + int BN_BASE * cv (snd (f a c)) = g a + cv c"
    and "Inv c"
  shows "Inv (snd (quad_loop f as c)) \<and>
     int (words_val (fst (quad_loop f as c))) + int (BN_BASE ^ length as) * cv (snd (quad_loop f as c)) = digits_sum g as + cv c"
  using \<open>Inv c\<close>
proof (induction as arbitrary: c)
  case (Cons a as)
  obtain r c' where f: "f a c = (r, c')" by fastforce
  obtain rp c'' where l: "quad_loop f as c' = (rp, c'')" by fastforce
  from step [OF Cons.prems, of a] have s: "Inv c'" "int (unat r) + int BN_BASE * cv c' = g a + cv c"
    by (simp_all add: f)
  from Cons.IH [OF s(1)] l have "Inv c''"
    and h: "int (words_val rp) + int (BN_BASE ^ length as) * cv c'' = digits_sum g as + cv c'" by simp_all
  have "int (unat r) + int BN_BASE * (int (words_val rp) + int (BN_BASE ^ length as) * cv c'') =
      g a + int BN_BASE * digits_sum g as + cv c"
    unfolding h using s(2) by (simp add: algebra_simps)
  with \<open>Inv c''\<close> show ?case by (simp add: quad_loop_Cons f l algebra_simps)
qed simp

section \<open>What the word routines compute\<close>

lemma bn_mul_add_words_val:
  assumes "bn_mul_add_words rp ap w = (r, c)" and "length rp = length ap"
  shows "length r = length ap"
    and "words_val r + BN_BASE ^ length ap * unat c = words_val rp + words_val ap * unat w"
proof -
  let ?f = "\<lambda>(r, a). mul_add r a w"
  from assms have q: "quad_loop ?f (zip rp ap) 0 = (r, c)" by (simp add: bn_mul_add_words_def)
  with length_quad_loop [of ?f "zip rp ap" 0] assms(2) show "length r = length ap" by simp
  let ?g = "\<lambda>(r, a). int (unat r) + int (unat w) * int (unat a)"
  have d: "digits_sum ?g (zip rp ap) = int (words_val rp) + int (unat w) * int (words_val ap)"
    using digits_sum_zip [OF assms(2), of 1 "int (unat w)"] by simp
  have st: "int (unat (fst (?f ra c))) + int BN_BASE * int (unat (snd (?f ra c))) =
      ?g ra + int (unat c)" for ra c
    using mul_add_val [of "fst ra" "snd ra" w c]
    by (cases "mul_add (fst ra) (snd ra) w c") (simp add: case_prod_beta mult.commute flip: of_nat_mult of_nat_add)
  have "int (words_val r) + int (BN_BASE ^ length ap) * int (unat c) = int (words_val rp + words_val ap * unat w)"
    using quad_loop_val [where Inv = "\<lambda>_. True" and cv = "\<lambda>c. int (unat c)" and c = 0 and as = "zip rp ap", of ?f ?g, OF conjI [OF TrueI st] TrueI]
      assms(2) by (simp add: q d)
  then show "words_val r + BN_BASE ^ length ap * unat c = words_val rp + words_val ap * unat w"
    by (simp only: flip: of_nat_mult of_nat_add of_nat_eq_iff [where 'a = int])
qed

lemma mul_is_mul_add: "mul a w c = mul_add 0 a w c"
  by (simp add: mul_def mul_add_def)

lemma bn_mul_words_is_add: "bn_mul_words ap w = bn_mul_add_words (replicate (length ap) 0) ap w"
proof -
  have "quad_loop (\<lambda>a. mul a w) ap c = quad_loop (\<lambda>(r, a). mul_add r a w) (zip (replicate (length ap) 0) ap) c" for c
    by (induction ap arbitrary: c) (simp_all add: quad_loop_Cons mul_is_mul_add)
  then show ?thesis by (simp add: bn_mul_words_def bn_mul_add_words_def)
qed

lemma bn_mul_words_val:
  assumes "bn_mul_words ap w = (r, c)"
  shows "length r = length ap"
    and "words_val r + BN_BASE ^ length ap * unat c = words_val ap * unat w"
  using bn_mul_add_words_val [OF assms [unfolded bn_mul_words_is_add]] by simp_all

lemma bn_sqr_words_Nil [simp]: "bn_sqr_words [] = []"
  by (simp add: bn_sqr_words_def)

lemma bn_sqr_words_Cons [simp]: "bn_sqr_words (a # ap) = fst (sqr a) # snd (sqr a) # bn_sqr_words ap"
  by (simp add: bn_sqr_words_def quad_loop_Cons split: prod.split)

lemma length_bn_sqr_words [simp]: "length (bn_sqr_words ap) = 2 * length ap"
  by (induction ap) simp_all

lemma add_digit_val:
  assumes "unat ll \<le> 1"
  shows "unat (snd (add_digit (a, b) ll)) \<le> 1"
    and "unat (fst (add_digit (a, b) ll)) + BN_BASE * unat (snd (add_digit (a, b) ll)) = unat a + unat b + unat ll"
proof -
  let ?s = "ll + (ucast a + ucast b) :: u128"
  have b: "unat a + unat b < BN_BASE + BN_BASE" by (intro add_strict_mono) simp_all
  have B: "BN_BASE + BN_BASE < BN_BASE * BN_BASE" "1 + (BN_BASE + BN_BASE) < BN_BASE * BN_BASE"
    by (simp_all add: BN_BASE_def)
  have s: "unat ?s = unat a + unat b + unat ll"
    using b B assms by (simp add: unat_double_add)
  have h: "unat (drop_bit 64 ?s) = unat ?s div BN_BASE"
    by (simp add: unat_drop_bit BN_BASE_def)
  have lt: "unat ?s < BN_BASE * 2"
  proof -
    have "unat a + 1 \<le> BN_BASE" "unat b + 1 \<le> BN_BASE" by (simp_all add: Suc_leI)
    with assms show ?thesis unfolding s by linarith
  qed
  then have "unat ?s div BN_BASE < 2" by (intro less_mult_imp_div_less) (simp add: mult.commute)
  then show "unat (snd (add_digit (a, b) ll)) \<le> 1"
    unfolding add_digit_def by (simp add: Let_def h)
  show "unat (fst (add_digit (a, b) ll)) + BN_BASE * unat (snd (add_digit (a, b) ll)) = unat a + unat b + unat ll"
    unfolding add_digit_def by (simp add: Let_def h unat_Lw) (simp add: s)
qed

lemma bn_add_words_val:
  assumes "bn_add_words a b = (r, c)" and "length a = length b"
  shows "length r = length b" and "unat c \<le> 1"
    and "words_val r + BN_BASE ^ length b * unat c = words_val a + words_val b"
proof -
  obtain ll where q: "quad_loop add_digit (zip a b) 0 = (r, ll)" and c: "c = Lw ll"
    using assms(1) by (auto simp: bn_add_words_def split: prod.splits)
  with length_quad_loop [of add_digit "zip a b" 0] assms(2) show "length r = length b" by simp
  let ?g = "\<lambda>(a, b). int (unat a) + int (unat b)"
  have d: "digits_sum ?g (zip a b) = int (words_val a) + int (words_val b)"
    using digits_sum_zip [OF assms(2), of 1 1] by simp
  have st: "unat (snd (add_digit ab ll)) \<le> 1 \<and>
      int (unat (fst (add_digit ab ll))) + int BN_BASE * int (unat (snd (add_digit ab ll))) =
      ?g ab + int (unat ll)" if "unat ll \<le> 1" for ab ll
    using add_digit_val [OF that, of "fst ab" "snd ab"]
    by (simp add: case_prod_beta flip: of_nat_mult of_nat_add)
  from quad_loop_val [of "\<lambda>ll. unat ll \<le> 1" add_digit "\<lambda>ll. int (unat ll)" ?g 0 "zip a b", OF st]
  have v: "unat ll \<le> 1" "int (words_val r) + int (BN_BASE ^ length b) * int (unat ll) = int (words_val a + words_val b)"
    using assms(2) by (simp_all add: q d)
  have c': "unat c = unat ll" using v(1) by (simp add: c unat_Lw le_less_trans [OF _ BN_BASE_pos(3)])
  with v(1) show "unat c \<le> 1" by simp
  show "words_val r + BN_BASE ^ length b * unat c = words_val a + words_val b"
    using v(2) unfolding c' by (simp only: flip: of_nat_mult of_nat_add of_nat_eq_iff [where 'a = int])
qed

lemma sub_digit_val:
  "int (unat (fst (sub_digit (t1, t2) c))) - int BN_BASE * of_bool (snd (sub_digit (t1, t2) c)) =
   int (unat t1) - int (unat t2) - of_bool c"
proof -
  have m: "int (unat (x - y)) = int (unat x) - int (unat y) + (if unat y \<le> unat x then 0 else int BN_BASE)" for x y :: u64
    using unat_sub_if' [of x y] unat_less_base [of y] by (simp add: BN_BASE_def of_nat_diff)
  have d: "int (unat (t1 - t2 - of_bool c)) = int (unat (t1 - t2)) - of_bool c + (if c \<and> unat (t1 - t2) = 0 then int BN_BASE else 0)"
    using m [of "t1 - t2" 1] by (cases c) (auto simp: not_le)
  have e: "unat (t1 - t2) = 0 \<longleftrightarrow> t1 = t2"
    by (metis eq_iff_diff_eq_0 unat_0 word_unat_eq_iff)
  have l: "unat t2 \<le> unat t1 \<longleftrightarrow> \<not> t1 < t2" by (simp add: word_less_nat_alt not_less)
  show ?thesis unfolding sub_digit_def prod.case fst_conv snd_conv d e
    by (simp only: m l) (cases c; cases "t1 = t2"; cases "t1 < t2"; simp)
qed

lemma bn_sub_words_val:
  assumes "bn_sub_words a b = (r, c)" and "length a = length b"
  shows "length r = length b" and "unat c \<le> 1"
    and "int (words_val r) - int (BN_BASE ^ length b) * int (unat c) = int (words_val a) - int (words_val b)"
proof -
  obtain c' where q: "quad_loop sub_digit (zip a b) False = (r, c')" and c: "c = of_bool c'"
    using assms(1) by (auto simp: bn_sub_words_def split: prod.splits)
  with length_quad_loop [of sub_digit "zip a b" False] assms(2) show "length r = length b" by simp
  show "unat c \<le> 1" by (simp add: c)
  let ?g = "\<lambda>(a, b). int (unat a) - int (unat b)"
  have d: "digits_sum ?g (zip a b) = int (words_val a) - int (words_val b)"
    using digits_sum_zip [OF assms(2), of 1 "-1"] by simp
  have st: "int (unat (fst (sub_digit ab c))) + int BN_BASE * - of_bool (snd (sub_digit ab c)) =
      ?g ab + - of_bool c" for ab c
    using sub_digit_val [of "fst ab" "snd ab" c] by (simp add: case_prod_beta)
  from quad_loop_val [of "\<lambda>_. True" sub_digit "\<lambda>c. - of_bool c" ?g False "zip a b"] st
  show "int (words_val r) - int (BN_BASE ^ length b) * int (unat c) = int (words_val a) - int (words_val b)"
    using assms(2) by (cases c') (simp_all add: q d c)
qed

text \<open>The accumulator of a column is the number of its three words; it stays one as long as the sum fits.\<close>

fun acc_val :: "acc3 \<Rightarrow> nat" where
  "acc_val (c0, c1, c2) = unat c0 + BN_BASE * unat c1 + BN_BASE * BN_BASE * unat c2"

lemma acc_carry:
  fixes c1 c2 hi :: u64
  assumes "unat c1 + BN_BASE * unat c2 + unat hi < BN_BASE * BN_BASE"
  shows "unat (c1 + hi) + BN_BASE * unat (if c1 + hi < hi then c2 + 1 else c2) = unat c1 + BN_BASE * unat c2 + unat hi"
proof (cases "unat c1 + unat hi < BN_BASE")
  case True
  then have "unat (c1 + hi) = unat c1 + unat hi" by (simp add: unat_word_ariths BN_BASE_def)
  then show ?thesis by (simp add: word_less_nat_alt)
next
  case False
  have "unat c1 + unat hi - BN_BASE < BN_BASE" using unat_less_base [of c1] unat_less_base [of hi] by linarith
  with False have h: "unat (c1 + hi) = unat c1 + unat hi - BN_BASE"
    using le_mod_geq [of BN_BASE "unat c1 + unat hi"] by (simp add: unat_word_ariths BN_BASE_def)
  have "BN_BASE * (unat c2 + 1) < BN_BASE * BN_BASE" using assms False by (simp add: distrib_left del: mult_less_cancel1)
  then have "unat c2 + 1 < BN_BASE" by (simp only: mult_less_cancel1)
  then have "unat (c2 + 1) = unat c2 + 1" by (simp add: unat_word_ariths BN_BASE_def)
  moreover have "c1 + hi < hi" unfolding word_less_nat_alt h using False unat_less_base [of c1] by linarith
  ultimately show ?thesis using False by (simp add: h algebra_simps)
qed

lemma mul_add_c_val:
  assumes "acc_val acc + unat a * unat b < BN_BASE ^ 3"
  shows "acc_val (mul_add_c a b acc) = acc_val acc + unat a * unat b"
proof -
  obtain c0 c1 c2 where acc: "acc = (c0, c1, c2)" by (cases acc) auto
  let ?t = "ucast a * ucast b + ucast c0 :: u128"
  have "unat a * unat b + unat c0 < BN_BASE * BN_BASE"
    using digit_product_bound [of "unat a" "unat b" "unat c0" 0] by simp
  then have t: "unat (Lw ?t) + BN_BASE * unat (Hw ?t) = unat a * unat b + unat c0"
    unfolding Lw_Hw by (subst unat_double_add) (simp_all add: unat_double_mult)
  have "BN_BASE * (unat c1 + BN_BASE * unat c2 + unat (Hw ?t)) \<le> acc_val acc + unat a * unat b"
    using t by (simp add: acc algebra_simps)
  also have "\<dots> < BN_BASE * (BN_BASE * BN_BASE)"
    using assms by (simp only: power3_eq_cube mult.assoc)
  finally have "unat c1 + BN_BASE * unat c2 + unat (Hw ?t) < BN_BASE * BN_BASE" by simp
  note carry = acc_carry [OF this]
  let ?c1 = "c1 + Hw ?t"
  have "acc_val (mul_add_c a b acc) = unat (Lw ?t) + BN_BASE * (unat ?c1 + BN_BASE * unat (if ?c1 < Hw ?t then c2 + 1 else c2))"
    by (simp add: acc Let_def distrib_left mult.assoc)
  then have "acc_val (mul_add_c a b acc) = unat (Lw ?t) + BN_BASE * (unat c1 + BN_BASE * unat c2 + unat (Hw ?t))"
    unfolding carry .
  also have "\<dots> = acc_val acc + unat a * unat b" using t by (simp add: acc algebra_simps)
  finally show ?thesis .
qed

lemma mul_add_c2_twice: "mul_add_c2 a b acc = mul_add_c a b (mul_add_c a b acc)"
  by (cases acc) (simp add: Let_def)

declare mul_add_c.simps [simp del] mul_add_c2.simps [simp del]

lemma mul_add_c2_val:
  assumes "acc_val acc + 2 * (unat a * unat b) < BN_BASE ^ 3"
  shows "acc_val (mul_add_c2 a b acc) = acc_val acc + 2 * (unat a * unat b)"
  using assms unfolding mul_add_c2_twice by (subst mul_add_c_val; (subst mul_add_c_val)?) simp_all

text \<open>
  \<open>g i\<close> is what the step of the index \<open>i\<close> adds. Columns of at most \<open>N\<close> steps with \<open>N\<close> far below the base
  do not overflow three words.
\<close>

lemma fold_acc_val:
  assumes "\<And>i acc. acc_val acc + g i < BN_BASE ^ 3 \<Longrightarrow> acc_val (f i acc) = acc_val acc + g i"
    and "acc_val acc + sum_list (map g col) < BN_BASE ^ 3"
  shows "acc_val (fold f col acc) = acc_val acc + sum_list (map g col)"
  using assms
proof (induction col arbitrary: acc)
  case (Cons i col)
  from Cons.prems(2) have "acc_val (f i acc) = acc_val acc + g i" by (intro Cons.prems(1)) simp_all
  with Cons.IH [of "f i acc"] Cons.prems show ?case by simp
qed simp

primrec columns_val :: "('i \<Rightarrow> nat) \<Rightarrow> 'i list list \<Rightarrow> nat" where
  "columns_val g [] = 0"
| "columns_val g (col # cols) = sum_list (map g col) + BN_BASE * columns_val g cols"

lemma length_comba [simp]: "length (comba f cols acc) = length cols + 1"
  by (induction f cols acc rule: comba.induct) (simp_all split: prod.split)

lemma comba_val:
  assumes "\<And>i acc. acc_val acc + g i < BN_BASE ^ 3 \<Longrightarrow> acc_val (f i acc) = acc_val acc + g i"
    and "\<And>col. col \<in> set cols \<Longrightarrow> sum_list (map g col) \<le> BN_BASE ^ 3 - BN_BASE ^ 2"
    and "acc_val acc < BN_BASE ^ 2"
  shows "\<exists>x. words_val (comba f cols acc) + BN_BASE ^ (length cols + 1) * x = acc_val acc + columns_val g cols"
  using assms
proof (induction f cols acc rule: comba.induct)
  case (1 f c0 c1 c2)
  show ?case by (rule exI [of _ "unat c1 + BN_BASE * unat c2"]) (simp add: algebra_simps)
next
  case (2 f col cols acc)
  obtain c0 c1 c2 where fd: "fold f col acc = (c0, c1, c2)" by (cases "fold f col acc") auto
  have "acc_val acc + sum_list (map g col) < BN_BASE ^ 2 + (BN_BASE ^ 3 - BN_BASE ^ 2)"
    using "2.prems"(2) [of col] "2.prems"(3) by (intro add_less_le_mono) simp_all
  also have "\<dots> = BN_BASE ^ 3" by (simp add: BN_BASE_def)
  finally have v: "acc_val (c0, c1, c2) = acc_val acc + sum_list (map g col)"
    using fold_acc_val [of g f acc col] "2.prems"(1) by (simp add: fd)
  have "acc_val (c1, c2, 0) < BN_BASE ^ 2"
    using words_val_less [of "[c1, c2]"] by (simp add: power2_eq_square)
  with "2.IH" [of c0 "(c1, c2)" c1 c2] fd "2.prems"(1,2)
  obtain x where x: "words_val (comba f cols (c1, c2, 0)) + BN_BASE ^ (length cols + 1) * x = acc_val (c1, c2, 0) + columns_val g cols"
    by (metis (no_types, lifting) list.set_intros(2))
  have "words_val (c0 # comba f cols (c1, c2, 0)) + BN_BASE ^ (length (col # cols) + 1) * x =
      unat c0 + BN_BASE * (words_val (comba f cols (c1, c2, 0)) + BN_BASE ^ (length cols + 1) * x)"
    by (simp add: algebra_simps)
  also have "\<dots> = acc_val acc + columns_val g (col # cols)"
    unfolding x using v by (simp add: algebra_simps)
  finally show ?case by (auto simp: fd)
qed

text \<open>The indices of the column \<open>k\<close> add up to \<open>k\<close>, so what the columns add is the sum over all the indices.\<close>

fun graded :: "nat \<Rightarrow> (nat \<times> nat) list list \<Rightarrow> bool" where
  "graded k [] = True"
| "graded k (col # cols) = (list_all (\<lambda>(i, j). i + j = k) col \<and> graded (Suc k) cols)"

lemma columns_val_graded:
  "graded k cols \<Longrightarrow> BN_BASE ^ k * columns_val g cols = sum_list (map (\<lambda>(i, j). g (i, j) * BN_BASE ^ (i + j)) (concat cols))"
proof (induction cols arbitrary: k)
  case (Cons col cols)
  have "BN_BASE ^ k * sum_list (map g col) = sum_list (map (\<lambda>(i, j). g (i, j) * BN_BASE ^ (i + j)) col)"
    using Cons.prems by (induction col) (auto simp: algebra_simps)
  with Cons.IH [of "Suc k"] Cons.prems show ?case by (simp add: algebra_simps)
qed simp

lemma words_val_sum: "words_val ws = (\<Sum>i < length ws. unat (ws ! i) * BN_BASE ^ i)"
proof (induction ws)
  case (Cons w ws)
  have "(\<Sum>i < length (w # ws). unat ((w # ws) ! i) * BN_BASE ^ i) = unat w + (\<Sum>i < length ws. unat (ws ! i) * BN_BASE ^ Suc i)"
    by (simp only: length_Cons sum.lessThan_Suc_shift) simp
  also have "\<dots> = words_val (w # ws)" by (simp add: Cons.IH sum_distrib_left algebra_simps)
  finally show ?case by simp
qed simp

lemma column_bound:
  assumes "\<And>i. i \<in> set col \<Longrightarrow> g i \<le> 2 * (BN_BASE * BN_BASE)" and "length col \<le> 8"
  shows "sum_list (map g col) \<le> BN_BASE ^ 3 - BN_BASE ^ 2"
proof -
  have "sum_list (map g col) \<le> length col * (2 * (BN_BASE * BN_BASE))"
    using assms(1) by (induction col) (simp_all add: add_mono algebra_simps)
  also have "\<dots> \<le> 8 * (2 * (BN_BASE * BN_BASE))" using assms(2) by (intro mult_right_mono) simp_all
  also have "\<dots> \<le> BN_BASE ^ 3 - BN_BASE ^ 2" by (simp add: BN_BASE_def)
  finally show ?thesis .
qed

lemma words_val_mult:
  assumes "length a = n" and "length b = n"
  shows "words_val a * words_val b = (\<Sum>(i, j) \<in> {..<n} \<times> {..<n}. unat (a ! i) * unat (b ! j) * BN_BASE ^ (i + j))"
proof -
  have "words_val a * words_val b = (\<Sum>i < n. \<Sum>j < n. (unat (a ! i) * BN_BASE ^ i) * (unat (b ! j) * BN_BASE ^ j))"
    unfolding words_val_sum assms by (rule sum_product)
  also have "\<dots> = (\<Sum>(i, j) \<in> {..<n} \<times> {..<n}. (unat (a ! i) * BN_BASE ^ i) * (unat (b ! j) * BN_BASE ^ j))"
    by (rule sum.cartesian_product)
  finally show ?thesis by (simp add: power_add algebra_simps)
qed

text \<open>A number whose value is a product of values that fit has no carry.\<close>

lemma product_fits: "length a = n \<Longrightarrow> length b = m \<Longrightarrow> words_val a * words_val b < BN_BASE ^ (n + m)"
  unfolding power_add using words_val_less [of a] words_val_less [of b] by (intro mult_strict_mono) simp_all

lemma fits_no_carry:
  fixes v :: nat
  assumes "r + BN_BASE ^ n * x = v" and "v < BN_BASE ^ n"
  shows "x = 0" and "r = v"
proof -
  show "x = 0" using assms by (cases x) simp_all
  with assms(1) show "r = v" by simp
qed

text \<open>A column does not overflow, since it has few products.\<close>

lemma comba_total:
  assumes "\<And>i acc. acc_val acc + g i < BN_BASE ^ 3 \<Longrightarrow> acc_val (f i acc) = acc_val acc + g i"
    and "\<And>i. g i \<le> 2 * (BN_BASE * BN_BASE)" and "list_all (\<lambda>col. length col \<le> 8) cols"
    and "columns_val g cols < BN_BASE ^ (length cols + 1)"
  shows "words_val (comba f cols (0, 0, 0)) = columns_val g cols"
proof -
  have "sum_list (map g col) \<le> BN_BASE ^ 3 - BN_BASE ^ 2" if "col \<in> set cols" for col
    using that assms(2,3) by (intro column_bound) (auto simp: list_all_iff)
  from comba_val [of g f cols "(0, 0, 0)", OF assms(1) this]
  obtain x where "words_val (comba f cols (0, 0, 0)) + BN_BASE ^ (length cols + 1) * x = columns_val g cols"
    unfolding acc_val.simps by auto
  from fits_no_carry(2) [OF this assms(4)] show ?thesis .
qed

lemma digits_product_le: "unat (x :: u64) * unat (y :: u64) \<le> BN_BASE * BN_BASE"
  by (intro mult_mono) (simp_all add: less_imp_le)

definition product_table :: "nat \<Rightarrow> (nat \<times> nat) list list \<Rightarrow> bool" where
  "product_table n cols \<longleftrightarrow> graded 0 cols \<and> distinct (concat cols) \<and> set (concat cols) = set (List.product [0..<n] [0..<n])
     \<and> list_all (\<lambda>col. length col \<le> 8) cols \<and> length cols + 1 = 2 * n"

lemma comba_product_val:
  assumes t: "product_table n cols" and "length a = n" and "length b = n"
  shows "length (comba_product cols a b) = 2 * n" and "words_val (comba_product cols a b) = words_val a * words_val b"
proof -
  let ?f = "\<lambda>(i, j). mul_add_c (a ! i) (b ! j)" and ?g = "\<lambda>(i, j). unat (a ! i) * unat (b ! j)"
  show l: "length (comba_product cols a b) = 2 * n" using t by (simp add: comba_product_def product_table_def)
  have "columns_val ?g cols = sum_list (map (\<lambda>(i, j). ?g (i, j) * BN_BASE ^ (i + j)) (concat cols))"
    using columns_val_graded [of 0 cols ?g] t by (simp add: product_table_def)
  also have "\<dots> = (\<Sum>(i, j) \<in> {..<n} \<times> {..<n}. unat (a ! i) * unat (b ! j) * BN_BASE ^ (i + j))"
    using t by (subst sum_list_distinct_conv_sum_set) (simp_all add: product_table_def lessThan_atLeast0)
  finally have c: "columns_val ?g cols = words_val a * words_val b"
    using words_val_mult [OF assms(2,3)] by simp
  have "columns_val ?g cols < BN_BASE ^ (length cols + 1)"
    using product_fits [OF assms(2,3)] t unfolding c by (simp add: product_table_def mult_2)
  moreover have "?g i \<le> 2 * (BN_BASE * BN_BASE)" for i
    using digits_product_le [of "a ! fst i" "b ! snd i"] by (simp add: case_prod_beta)
  ultimately have "words_val (comba ?f cols (0, 0, 0)) = columns_val ?g cols"
    using t by (intro comba_total) (auto simp: mul_add_c_val product_table_def simp del: acc_val.simps power_Suc)
  then show "words_val (comba_product cols a b) = words_val a * words_val b" by (simp add: comba_product_def c)
qed

text \<open>The squares of the digits once, the products of two different ones twice.\<close>

definition square_table :: "nat \<Rightarrow> (nat \<times> nat) list list \<Rightarrow> bool" where
  "square_table n cols \<longleftrightarrow> graded 0 cols \<and> distinct (concat cols)
     \<and> set (concat cols) = set (filter (\<lambda>(i, j). j \<le> i) (List.product [0..<n] [0..<n]))
     \<and> list_all (\<lambda>col. length col \<le> 8) cols \<and> length cols + 1 = 2 * n"

lemma sum_square:
  fixes h :: "nat \<Rightarrow> nat \<Rightarrow> nat"
  assumes "\<And>i j. h i j = h j i"
  shows "(\<Sum>(i, j) \<in> {..<n} \<times> {..<n}. h i j) = (\<Sum>(i, j) \<in> {(i, j). i < n \<and> j \<le> i}. (if i = j then 1 else 2) * h i j)"
proof (induction n)
  case (Suc n)
  have "{..<Suc n} \<times> {..<Suc n} = {..<n} \<times> {..<n} \<union> ({(n, n)} \<union> ((\<lambda>i. (i, n)) ` {..<n} \<union> (\<lambda>i. (n, i)) ` {..<n}))" by auto
  then have "(\<Sum>(i, j) \<in> {..<Suc n} \<times> {..<Suc n}. h i j) =
      (\<Sum>(i, j) \<in> {..<n} \<times> {..<n}. h i j) + (h n n + ((\<Sum>i < n. h i n) + (\<Sum>i < n. h n i)))"
    by (simp only:) (subst sum.union_disjoint, simp, simp, fastforce, subst sum.union_disjoint, simp, simp, fastforce,
        subst sum.union_disjoint, simp, simp, fastforce, simp add: sum.reindex inj_on_def)
  also have "(\<Sum>i < n. h i n) = (\<Sum>i < n. h n i)" by (simp add: assms)
  finally have a: "(\<Sum>(i, j) \<in> {..<Suc n} \<times> {..<Suc n}. h i j) =
      (\<Sum>(i, j) \<in> {(i, j). i < n \<and> j \<le> i}. (if i = j then 1 else 2) * h i j) + (h n n + 2 * (\<Sum>i < n. h n i))"
    by (simp add: Suc.IH)
  have fin: "finite {(i, j). i < n \<and> j \<le> i}" by (rule finite_subset [of _ "{..<n} \<times> {..<n}"]) auto
  have "{(i, j). i < Suc n \<and> j \<le> i} = {(i, j). i < n \<and> j \<le> i} \<union> ({(n, n)} \<union> (\<lambda>i. (n, i)) ` {..<n})" by auto
  then have "(\<Sum>(i, j) \<in> {(i, j). i < Suc n \<and> j \<le> i}. (if i = j then 1 else 2) * h i j) =
      (\<Sum>(i, j) \<in> {(i, j). i < n \<and> j \<le> i}. (if i = j then 1 else 2) * h i j) + (h n n + (\<Sum>i < n. 2 * h n i))"
    by (simp only:) (subst sum.union_disjoint, rule fin, simp, fastforce, subst sum.union_disjoint, simp, simp, fastforce,
        simp add: sum.reindex inj_on_def)
  then show ?case by (simp add: a sum_distrib_left)
qed simp

lemma comba_square_val:
  assumes t: "square_table n cols" and "length a = n"
  shows "length (comba_square cols a) = 2 * n" and "words_val (comba_square cols a) = words_val a * words_val a"
proof -
  let ?f = "\<lambda>(i, j). if i = j then sqr_add_c a i else sqr_add_c2 a i j"
  let ?h = "\<lambda>i j. unat (a ! i) * unat (a ! j)"
  let ?g = "\<lambda>(i, j). (if i = j then 1 else 2) * ?h i j"
  show l: "length (comba_square cols a) = 2 * n" using t by (simp add: comba_square_def square_table_def)
  have "columns_val ?g cols = sum_list (map (\<lambda>(i, j). ?g (i, j) * BN_BASE ^ (i + j)) (concat cols))"
    using columns_val_graded [of 0 cols ?g] t by (simp add: square_table_def)
  also have "\<dots> = (\<Sum>(i, j) \<in> {(i, j). i < n \<and> j \<le> i}. ?g (i, j) * BN_BASE ^ (i + j))"
  proof -
    have "set (filter (\<lambda>(i, j). j \<le> i) (List.product [0..<n] [0..<n])) = {(i, j). i < n \<and> j \<le> i}" by auto
    then show ?thesis using t by (subst sum_list_distinct_conv_sum_set) (simp_all add: square_table_def)
  qed
  also have "\<dots> = (\<Sum>(i, j) \<in> {(i, j). i < n \<and> j \<le> i}. (if i = j then 1 else 2) * (?h i j * BN_BASE ^ (i + j)))"
    by (rule sum.cong) (auto simp: mult.assoc)
  also have "\<dots> = (\<Sum>(i, j) \<in> {..<n} \<times> {..<n}. ?h i j * BN_BASE ^ (i + j))"
    by (rule sum_square [symmetric]) (simp add: add.commute mult.commute)
  finally have c: "columns_val ?g cols = words_val a * words_val a"
    using words_val_mult [OF assms(2,2)] by simp
  have "columns_val ?g cols < BN_BASE ^ (length cols + 1)"
    using product_fits [OF assms(2,2)] t unfolding c by (simp add: square_table_def mult_2)
  moreover have "?g i \<le> 2 * (BN_BASE * BN_BASE)" for i
    using digits_product_le [of "a ! fst i" "a ! snd i"] by (auto simp: case_prod_beta)
  ultimately have "words_val (comba ?f cols (0, 0, 0)) = columns_val ?g cols"
    using t by (intro comba_total) (auto simp: sqr_add_c_def sqr_add_c2_def mul_add_c_val mul_add_c2_val square_table_def simp del: acc_val.simps power_Suc split: if_splits)
  then show "words_val (comba_square cols a) = words_val a * words_val a" by (simp add: comba_square_def c)
qed

lemma comba_tables:
  "product_table 4 mul_comba4_columns" "product_table 8 mul_comba8_columns"
  "square_table 4 sqr_comba4_columns" "square_table 8 sqr_comba8_columns"
  by code_simp+

lemmas bn_mul_comba4_val = comba_product_val [OF comba_tables(1), folded bn_mul_comba4_def]
  and bn_mul_comba8_val = comba_product_val [OF comba_tables(2), folded bn_mul_comba8_def]
  and bn_sqr_comba4_val = comba_square_val [OF comba_tables(3), folded bn_sqr_comba4_def]
  and bn_sqr_comba8_val = comba_square_val [OF comba_tables(4), folded bn_sqr_comba8_def]

end
