(* ===== verification/BnMul.thy ===== *)
theory BnMul
  imports Bn "HOL-Library.Monad_Syntax"
begin

text \<open>
  Multiplication and squaring of numbers given as words: \<^verbatim>\<open>crypto/fipsmodule/bn/mul.c\<close>, schoolbook
  and Karatsuba, and that each of them computes the product. A function returns the words it writes
  through \<^verbatim>\<open>r\<close>; the scratch space \<^verbatim>\<open>t\<close> is written before it is read, so its parts are local values.
  An assertion that fails is \<open>None\<close>.
\<close>

section \<open>Differences\<close>

definition bn_select_words :: "u64 \<Rightarrow> u64 list \<Rightarrow> u64 list \<Rightarrow> u64 list" where
  "bn_select_words m a b = map2 (constant_time_select_w m) a b"

definition bn_abs_sub_words :: "u64 list \<Rightarrow> u64 list \<Rightarrow> u64 list" where
  "bn_abs_sub_words a b =
     (let (tmp, borrow) = bn_sub_words a b; (r, _) = bn_sub_words b a
      in bn_select_words (0 - borrow) r tmp)"

text \<open>The digits of the longer argument behind the common length, when it is the one subtracted.\<close>

definition neg_digit :: "u64 \<Rightarrow> u64 \<Rightarrow> u64 \<times> u64" where
  "neg_digit t c = (0 - t - c, if t \<noteq> 0 then 1 else c)"

text \<open>
  When it is the other one, the borrow is handed on as long as there is one, four digits at a time, and the
  rest is copied. The borrow is tested after whole groups, so the \<^verbatim>\<open>switch\<close> on a group left
  in the middle is never reached.
\<close>

definition borrow_digit :: "u64 \<Rightarrow> u64 \<Rightarrow> u64 \<times> u64" where
  "borrow_digit t c = (t - c, if t \<noteq> 0 then 0 else c)"

fun sub_part_borrow :: "u64 list \<Rightarrow> u64 \<Rightarrow> u64 list \<times> u64" where
  "sub_part_borrow (a0 # a1 # a2 # a3 # a) c =
     (if c = 0 then (a0 # a1 # a2 # a3 # a, c)
      else let (r0, c) = borrow_digit a0 c; (r1, c) = borrow_digit a1 c; (r2, c) = borrow_digit a2 c; (r3, c) = borrow_digit a3 c;
               (r, c) = sub_part_borrow a c
           in (r0 # r1 # r2 # r3 # r, c))"
| "sub_part_borrow a c = (if c = 0 then (a, c) else quad_loop borrow_digit a c)"

definition bn_sub_part_words :: "u64 list \<Rightarrow> u64 list \<Rightarrow> nat \<Rightarrow> int \<Rightarrow> u64 list \<times> u64" where
  "bn_sub_part_words a b cl dl =
     (let (r, c) = bn_sub_words (take cl a) (take cl b)
      in if dl = 0 then (r, c)
         else if dl < 0
         then let (r', c) = quad_loop neg_digit (take (nat (- dl)) (drop cl b)) c in (r @ r', c)
         else let (r', c) = sub_part_borrow (take (nat dl) (drop cl a)) c in (r @ r', c))"

definition bn_abs_sub_part_words :: "u64 list \<Rightarrow> u64 list \<Rightarrow> nat \<Rightarrow> int \<Rightarrow> u64 list \<times> u64" where
  "bn_abs_sub_part_words a b cl dl =
     (let (tmp, borrow) = bn_sub_part_words a b cl dl;
          (r, _) = bn_sub_part_words b a cl (- dl);
          borrow = 0 - borrow
      in (bn_select_words borrow r tmp, borrow))"

section \<open>Schoolbook multiplication\<close>

text \<open>
  One row for each further digit of \<^verbatim>\<open>b\<close>: \<open>w\<close> are the words that the rows so far have left at \<^verbatim>\<open>r\<close>, of
  which the first is final.
\<close>

fun mul_normal_rows :: "u64 list \<Rightarrow> u64 list \<Rightarrow> u64 list \<Rightarrow> u64 list" where
  "mul_normal_rows a (x # w) (b # bs) =
     (let (w, c) = bn_mul_add_words w a b in x # mul_normal_rows a (w @ [c]) bs)"
| "mul_normal_rows a w bs = w"

definition bn_mul_normal :: "u64 list \<Rightarrow> u64 list \<Rightarrow> u64 list" where
  "bn_mul_normal a b =
     (let (a, b) = (if length a < length b then (b, a) else (a, b))
      in case b of
           [] \<Rightarrow> replicate (length a) 0
         | b0 # bs \<Rightarrow> (let (r, c) = bn_mul_words a b0 in mul_normal_rows a (r @ [c]) bs))"

section \<open>Karatsuba multiplication\<close>

definition BN_MUL_RECURSIVE_SIZE_NORMAL :: nat where
  "BN_MUL_RECURSIVE_SIZE_NORMAL = 16"

definition carry_digit :: "u64 \<Rightarrow> u64 \<Rightarrow> u64 \<times> u64" where
  "carry_digit old c = (let r = old + c in (r, of_bool (r < old)))"

primrec propagate :: "u64 list \<Rightarrow> u64 \<Rightarrow> u64 list \<times> u64" where
  "propagate [] c = ([], c)"
| "propagate (old # rs) c = (let (r, c) = carry_digit old c; (rs, c) = propagate rs c in (r # rs, c))"

text \<open>
  The end of both functions: \<open>r\<close> holds the products of the lower and of the upper halves, \<open>t\<close>
  the product of the differences and \<open>neg\<close> the mask of its sign. The carry that is left must be zero.
\<close>

definition karatsuba_add :: "nat \<Rightarrow> u64 list \<Rightarrow> u64 list \<Rightarrow> u64 \<Rightarrow> u64 list \<times> u64" where
  "karatsuba_add n r t c =
     (let (mid, c') = bn_add_words (take (2 * n) (drop n r)) t; c = c + c';
          (top, c) = propagate (drop (3 * n) r) c
      in (take n r @ mid @ top, c))"

definition karatsuba_combine :: "nat \<Rightarrow> u64 list \<Rightarrow> u64 list \<Rightarrow> u64 \<Rightarrow> u64 list option" where
  "karatsuba_combine n r t neg =
     (let n2 = 2 * n;
          (t01, c) = bn_add_words (take n2 r) (drop n2 r);
          (s, b) = bn_sub_words t01 t; c_neg = c - b;
          (p, b) = bn_add_words t01 t; c_pos = c + b;
          t = bn_select_words neg s p;
          c = constant_time_select_w neg c_neg c_pos;
          (r, c) = karatsuba_add n r t c
      in if c = 0 then Some r else None)"

definition is_power_of_two :: "nat \<Rightarrow> bool" where
  "is_power_of_two n \<longleftrightarrow> n \<noteq> 0 \<and> n AND (n - 1) = 0"

function bn_mul_recursive :: "u64 list \<Rightarrow> u64 list \<Rightarrow> nat \<Rightarrow> int \<Rightarrow> int \<Rightarrow> u64 list option" where
  "bn_mul_recursive a b n2 dna dnb =
     (if \<not> (is_power_of_two n2 \<and> - 8 \<le> dna \<and> dna \<le> 0 \<and> - 8 \<le> dnb \<and> dnb \<le> 0) then None
      else if n2 = 8 \<and> dna = 0 \<and> dnb = 0 then Some (bn_mul_comba8 a b)
      else if n2 < BN_MUL_RECURSIVE_SIZE_NORMAL
      then Some (bn_mul_normal (take (nat (int n2 + dna)) a) (take (nat (int n2 + dnb)) b) @
                 (if dna + dnb < 0 then replicate (nat (- (dna + dnb))) 0 else []))
      else let n = n2 div 2; tna = nat (int n + dna); tnb = nat (int n + dnb);
               (t0, neg0) = bn_abs_sub_part_words (take n a) (drop n a) tna (int n - int tna);
               (t1, neg1) = bn_abs_sub_part_words (drop n b) (take n b) tnb (int tnb - int n);
               neg = neg0 XOR neg1
           in if n = 4 \<and> dna = 0 \<and> dnb = 0
              then karatsuba_combine n (bn_mul_comba4 (take n a) (take n b) @ bn_mul_comba4 (drop n a) (drop n b)) (bn_mul_comba4 t0 t1) neg
              else if n = 8 \<and> dna = 0 \<and> dnb = 0
              then karatsuba_combine n (bn_mul_comba8 (take n a) (take n b) @ bn_mul_comba8 (drop n a) (drop n b)) (bn_mul_comba8 t0 t1) neg
              else do { t23 \<leftarrow> bn_mul_recursive t0 t1 n 0 0;
                        r01 \<leftarrow> bn_mul_recursive (take n a) (take n b) n 0 0;
                        r23 \<leftarrow> bn_mul_recursive (drop n a) (drop n b) n dna dnb;
                        karatsuba_combine n (r01 @ r23) t23 neg })"
  by pat_completeness auto
termination by (relation "measure (\<lambda>(a, b, n2, dna, dnb). n2)") (auto simp: BN_MUL_RECURSIVE_SIZE_NORMAL_def)

declare bn_mul_recursive.simps [simp del]

text \<open>
  The loop that looks for the half at which to split the upper parts: \<open>True\<close> when a part is longer than it,
  \<open>False\<close> when one ends there. Zero is one of these for lengths that are not negative, which the caller
  asserts, so the last case is for the totality of the function only.
\<close>

function part_size :: "nat \<Rightarrow> int \<Rightarrow> int \<Rightarrow> nat \<times> bool" where
  "part_size i tna tnb =
     (let i = i div 2
      in if int i < tna \<or> int i < tnb then (i, True)
         else if int i = tna \<or> int i = tnb then (i, False)
         else if i = 0 then (0, False)
         else part_size i tna tnb)"
  by pat_completeness auto
termination by (relation "measure (\<lambda>(i, tna, tnb). i)") auto

declare part_size.simps [simp del]

lemma part_size_less: "0 < i \<Longrightarrow> fst (part_size i tna tnb) < i"
proof (induction i tna tnb rule: part_size.induct)
  case (1 i tna tnb)
  show ?case
  proof (cases "int (i div 2) < tna \<or> int (i div 2) < tnb \<or> int (i div 2) = tna \<or> int (i div 2) = tnb \<or> i div 2 = 0")
    case True
    then show ?thesis using 1(2) by (auto simp: part_size.simps [of i] Let_def)
  next
    case False
    then have "part_size i tna tnb = part_size (i div 2) tna tnb" by (auto simp: part_size.simps [of i] Let_def)
    moreover have "fst (part_size (i div 2) tna tnb) < i div 2" using False by (intro 1(1)) auto
    ultimately show ?thesis using 1(2) by simp
  qed
qed

text \<open>\<^verbatim>\<open>memset\<close> of \<open>k\<close> bytes of zeros on little-endian words.\<close>

fun zero_bytes :: "nat \<Rightarrow> u64 list \<Rightarrow> u64 list" where
  "zero_bytes k [] = []"
| "zero_bytes k (w # ws) = (if 8 \<le> k then 0 # zero_bytes (k - 8) ws else (w AND NOT (mask (8 * k))) # ws)"

text \<open>
  \<^verbatim>\<open>r\<close> is the contents of the result before the call, which the first case does not overwrite
  completely: its \<^verbatim>\<open>memset\<close> counts words as bytes.
\<close>

function bn_mul_part_recursive :: "u64 list \<Rightarrow> u64 list \<Rightarrow> u64 list \<Rightarrow> nat \<Rightarrow> int \<Rightarrow> int \<Rightarrow> u64 list option" where
  "bn_mul_part_recursive r a b n tna tnb =
     (if \<not> (is_power_of_two n \<and> 0 \<le> tna \<and> tna < int n \<and> 0 \<le> tnb \<and> tnb < int n \<and> - 1 \<le> tna - tnb \<and> tna - tnb \<le> 1) then None
      else if n < 8
      then let p = bn_mul_normal a b in Some (p @ zero_bytes (nat (2 * int n - tna - tnb)) (drop (length p) r))
      else let n2 = 2 * n;
               (t0, neg0) = bn_abs_sub_part_words (take n a) (drop n a) (nat tna) (int n - tna);
               (t1, neg1) = bn_abs_sub_part_words (drop n b) (take n b) (nat tnb) (tnb - int n);
               neg = neg0 XOR neg1
           in if n = 8
              then let p = bn_mul_normal (drop n a) (drop n b)
                   in karatsuba_combine n (bn_mul_comba8 (take n a) (take n b) @ p @ replicate (nat (int n2 - tna - tnb)) 0) (bn_mul_comba8 t0 t1) neg
              else do { t23 \<leftarrow> bn_mul_recursive t0 t1 n 0 0;
                        r01 \<leftarrow> bn_mul_recursive (take n a) (take n b) n 0 0;
                        let z = replicate n2 0;
                        r23 \<leftarrow> (if tna < int BN_MUL_RECURSIVE_SIZE_NORMAL \<and> tnb < int BN_MUL_RECURSIVE_SIZE_NORMAL
                                then Some (blit z 0 (bn_mul_normal (drop n a) (drop n b)))
                                else let (i, longer) = part_size n tna tnb
                                     in if longer
                                        then map_option (blit z 0) (bn_mul_part_recursive (take (4 * i) z) (drop n a) (drop n b) i (tna - int i) (tnb - int i))
                                        else map_option (blit z 0) (bn_mul_recursive (drop n a) (drop n b) i (tna - int i) (tnb - int i)));
                        karatsuba_combine n (r01 @ r23) t23 neg })"
  by pat_completeness auto
termination
proof (relation "measure (\<lambda>(r, a, b, n, tna, tnb). n)")
  fix n :: nat and tna tnb :: int and x i longer
  assume "\<not> n < 8" "x = part_size n tna tnb" "(i, longer) = x"
  then have "i < n" using part_size_less [of n tna tnb] by (metis fst_conv gr0I zero_less_numeral)
  then show "((take (4 * i) z, drop n a, drop n b, i, tna - int i, tnb - int i), r, a, b, n, tna, tnb) \<in> measure (\<lambda>(r, a, b, n, tna, tnb). n)"
    for z a b :: "u64 list" and r :: "u64 list" by simp
qed auto

declare bn_mul_part_recursive.simps [simp del]

section \<open>Squaring\<close>

text \<open>
  The products of different digits, one row for each digit but the last: a row is added at \<^verbatim>\<open>rp\<close>, whose words are
  \<open>w\<close>, and its carry put behind it; then \<^verbatim>\<open>rp\<close> moves on by two words.
\<close>

fun sqr_rows :: "u64 list \<Rightarrow> u64 list \<Rightarrow> u64 list" where
  "sqr_rows w (x # y # ap) =
     (let (r, c) = bn_mul_add_words w (y # ap) x; r = r @ [c] in take 2 r @ sqr_rows (drop 2 r) (y # ap))"
| "sqr_rows w ap = w"

definition bn_sqr_normal :: "u64 list \<Rightarrow> u64 list" where
  "bn_sqr_normal a =
     (case a of
        [] \<Rightarrow> []
      | x # ap \<Rightarrow>
          (let cross = (if ap = [] then [] else let (r, c) = bn_mul_words ap x; r = r @ [c] in take 2 r @ sqr_rows (drop 2 r) ap);
               r = 0 # cross @ [0];
               (r, _) = bn_add_words r r;
               (r, _) = bn_add_words r (bn_sqr_words a)
           in r))"

function bn_sqr_recursive :: "u64 list \<Rightarrow> nat \<Rightarrow> u64 list option" where
  "bn_sqr_recursive a n2 =
     (if \<not> is_power_of_two n2 then None
      else if n2 = 4 then Some (bn_sqr_comba4 a)
      else if n2 = 8 then Some (bn_sqr_comba8 a)
      else if n2 < BN_MUL_RECURSIVE_SIZE_NORMAL then Some (bn_sqr_normal a)
      else let n = n2 div 2; t0 = bn_abs_sub_words (take n a) (drop n a)
           in do { t23 \<leftarrow> bn_sqr_recursive t0 n;
                   r01 \<leftarrow> bn_sqr_recursive (take n a) n;
                   r23 \<leftarrow> bn_sqr_recursive (drop n a) n;
                   let (t01, c) = bn_add_words r01 r23;
                   let (t, b) = bn_sub_words t01 t23;
                   let c = c - b;
                   let (r, c) = karatsuba_add n (r01 @ r23) t c;
                   if c = 0 then Some r else None })"
  by pat_completeness auto
termination by (relation "measure (\<lambda>(a, n2). n2)") (auto simp: BN_MUL_RECURSIVE_SIZE_NORMAL_def)

declare bn_sqr_recursive.simps [simp del]

section \<open>Absolute differences\<close>

lemma unat_diff_base: "int (unat (x - y)) = int (unat x) - int (unat y) + (if unat y \<le> unat x then 0 else int BN_BASE)"
  for x y :: u64
  using unat_sub_if' [of x y] unat_less_base [of y] by (simp add: BN_BASE_def of_nat_diff)

lemma small_word: "unat (c :: u64) \<le> 1 \<Longrightarrow> c = 0 \<or> c = 1"
  by (metis One_nat_def le_Suc_eq le_zero_eq unat_0 unat_1 word_unat_eq_iff)

lemma neg_digit_val:
  assumes "unat c \<le> 1"
  shows "unat (snd (neg_digit t c)) \<le> 1 \<and>
    int (unat (fst (neg_digit t c))) + int BN_BASE * - int (unat (snd (neg_digit t c))) = - int (unat t) + - int (unat c)"
proof -
  have "int (unat (0 - t)) = - int (unat t) + (if t = 0 then 0 else int BN_BASE)"
    using unat_diff_base [of 0 t] by (auto simp: unat_eq_0)
  moreover have "unat (0 - t) = 0 \<longleftrightarrow> t = 0" by (simp add: unat_eq_0)
  ultimately show ?thesis
    using unat_diff_base [of "0 - t" 1] small_word [OF assms] by (auto simp: neg_digit_def unat_eq_0 Suc_le_eq)
qed

lemma borrow_digit_val:
  assumes "unat c \<le> 1"
  shows "unat (snd (borrow_digit t c)) \<le> 1 \<and>
    int (unat (fst (borrow_digit t c))) + int BN_BASE * - int (unat (snd (borrow_digit t c))) = int (unat t) + - int (unat c)"
  using unat_diff_base [of t 1] small_word [OF assms] by (auto simp: borrow_digit_def unat_eq_0 Suc_le_eq)

lemma no_borrow: "quad_loop borrow_digit a 0 = (a, 0)"
  by (induction a) (simp_all add: quad_loop_Cons borrow_digit_def)

lemma sub_part_borrow_loop: "sub_part_borrow a c = quad_loop borrow_digit a c"
proof (induction a c rule: sub_part_borrow.induct)
  case (1 a0 a1 a2 a3 a c)
  show ?case
  proof (cases "c = 0")
    case True
    then show ?thesis by (simp add: no_borrow)
  next
    case False
    then show ?thesis using "1.IH" by (simp add: quad_loop_Cons split: prod.split)
  qed
qed (simp_all add: no_borrow)

lemma bn_sub_part_words_val:
  assumes "bn_sub_part_words a b cl dl = (r, c)" and "length a = cl + nat dl" and "length b = cl + nat (- dl)"
  shows "length r = cl + nat \<bar>dl\<bar>" and "unat c \<le> 1"
    and "int (words_val r) - int (BN_BASE ^ (cl + nat \<bar>dl\<bar>)) * int (unat c) = int (words_val a) - int (words_val b)"
proof -
  obtain r0 c0 where s: "bn_sub_words (take cl a) (take cl b) = (r0, c0)" by fastforce
  have l: "length (take cl a) = length (take cl b)" "length (take cl b) = cl" using assms(2,3) by simp_all
  note v = bn_sub_words_val [OF s l(1), unfolded l(2)]
  have A: "words_val a = words_val (take cl a) + BN_BASE ^ cl * words_val (drop cl a)"
    and B: "words_val b = words_val (take cl b) + BN_BASE ^ cl * words_val (drop cl b)"
    using assms(2,3) by (simp_all add: words_val_split [symmetric])
  have "length r = cl + nat \<bar>dl\<bar> \<and> unat c \<le> 1 \<and>
    int (words_val r) - int (BN_BASE ^ (cl + nat \<bar>dl\<bar>)) * int (unat c) = int (words_val a) - int (words_val b)"
  proof (cases "dl = 0")
    case True
    with assms v s show ?thesis by (simp add: bn_sub_part_words_def)
  next
    case False
    define g where "g = (if dl < 0 then quad_loop neg_digit (drop cl b) c0 else quad_loop borrow_digit (drop cl a) c0)"
    obtain r1 c1 where g1: "g = (r1, c1)" by fastforce
    have rc: "r = r0 @ r1" "c = c1"
      using assms(1) False g1 s assms(2,3) by (auto simp: bn_sub_part_words_def g_def sub_part_borrow_loop split: prod.splits if_splits)
    have "length r1 = nat \<bar>dl\<bar> \<and> unat c1 \<le> 1 \<and> int (words_val r1) + int (BN_BASE ^ nat \<bar>dl\<bar>) * - int (unat c1) =
        int (words_val (drop cl a)) - int (words_val (drop cl b)) - int (unat c0)"
    proof (cases "dl < 0")
      case True
      have n: "length b - cl = nat \<bar>dl\<bar>" "drop cl a = []" using True assms(2,3) by simp_all
      have d: "digits_sum (\<lambda>t. - int (unat t)) ts = - int (words_val ts)" for ts
        by (induction ts) (simp_all add: algebra_simps)
      show ?thesis
        using quad_loop_val [where Inv = "\<lambda>c. unat c \<le> 1" and cv = "\<lambda>c. - int (unat c)" and g = "\<lambda>t. - int (unat t)"
            and c = c0 and as = "drop cl b", OF neg_digit_val v(2)] g1 True n(2) length_quad_loop [of neg_digit "drop cl b" c0]
        by (simp add: g_def n(1) d)
    next
      case nonneg: False
      have n: "length a - cl = nat \<bar>dl\<bar>" "drop cl b = []" using nonneg assms(2,3) by simp_all
      show ?thesis
        using quad_loop_val [where Inv = "\<lambda>c. unat c \<le> 1" and cv = "\<lambda>c. - int (unat c)" and g = "\<lambda>t. int (unat t)"
            and c = c0 and as = "drop cl a", OF borrow_digit_val v(2)] g1 nonneg n(2) length_quad_loop [of borrow_digit "drop cl a" c0]
        by (simp add: g_def n(1) digits_sum_words)
    qed
    then have r1: "length r1 = nat \<bar>dl\<bar>" "unat c1 \<le> 1"
      and w1: "int (words_val r1) = int (words_val (drop cl a)) - int (words_val (drop cl b)) - int (unat c0) + int (BN_BASE ^ nat \<bar>dl\<bar>) * int (unat c1)"
      by simp_all
    have w0: "int (words_val r0) = int (words_val (take cl a)) - int (words_val (take cl b)) + int (BN_BASE ^ cl) * int (unat c0)"
      using v(3) by simp
    show ?thesis using r1 v(1) unfolding rc A B
      by (simp add: words_val_append w0 w1) (simp add: algebra_simps power_add)
  qed
  then show "length r = cl + nat \<bar>dl\<bar>" and "unat c \<le> 1"
    and "int (words_val r) - int (BN_BASE ^ (cl + nat \<bar>dl\<bar>)) * int (unat c) = int (words_val a) - int (words_val b)" by blast+
qed

lemma length_bn_select_words [simp]: "length a = length b \<Longrightarrow> length (bn_select_words m a b) = length b"
  by (simp add: bn_select_words_def)

lemma bn_select_words_mask:
  assumes "length a = length b"
  shows "bn_select_words (- 1) a b = a" and "bn_select_words 0 a b = b"
  using assms select_w unfolding bn_select_words_def CONSTTIME_TRUE_W_def CONSTTIME_FALSE_W_def
  by (induction a b rule: list_induct2; simp)+

lemma borrow_mask: "unat (c :: u64) \<le> 1 \<Longrightarrow> - c = (if c = 0 then 0 else - 1)"
  using small_word [of c] by auto

text \<open>The borrow tells which of the two differences is the absolute one.\<close>

lemma borrow_iff:
  assumes "int x - int (BN_BASE ^ n) * int (unat c) = int a - int b" and "unat (c :: u64) \<le> 1" and "x < BN_BASE ^ n"
  shows "c = 0 \<longleftrightarrow> b \<le> a" and "c = 0 \<Longrightarrow> x = a - b"
proof -
  have lt: "int x < int (BN_BASE ^ n)" using assms(3) by (rule of_nat_less_iff [THEN iffD2])
  show "c = 0 \<longleftrightarrow> b \<le> a"
  proof (cases "c = 0")
    case False
    then have "int x - int (BN_BASE ^ n) = int a - int b" using assms(1) small_word [OF assms(2)] by simp
    with lt False show ?thesis by linarith
  qed (use assms(1) in simp)
  show "c = 0 \<Longrightarrow> x = a - b" using assms(1) by simp
qed

lemma bn_abs_sub_words_val:
  assumes "length a = length b"
  shows "length (bn_abs_sub_words a b) = length b"
    and "int (words_val (bn_abs_sub_words a b)) = \<bar>int (words_val a) - int (words_val b)\<bar>"
proof -
  obtain t c where t: "bn_sub_words a b = (t, c)" by fastforce
  obtain r d where r: "bn_sub_words b a = (r, d)" by fastforce
  note vt = bn_sub_words_val [OF t assms] and vr = bn_sub_words_val [OF r assms [symmetric]]
  have bt: "c = 0 \<longleftrightarrow> words_val b \<le> words_val a" "c = 0 \<Longrightarrow> words_val t = words_val a - words_val b"
    using borrow_iff [OF vt(3,2)] words_val_less_exp [OF vt(1)] by simp_all
  have br: "d = 0 \<longleftrightarrow> words_val a \<le> words_val b" "d = 0 \<Longrightarrow> words_val r = words_val b - words_val a"
    using borrow_iff [OF vr(3,2)] words_val_less_exp [OF vr(1)] by simp_all
  have e: "bn_abs_sub_words a b = (if c = 0 then t else r)"
    using vt(1) vr(1) assms by (simp add: bn_abs_sub_words_def t r borrow_mask [OF vt(2)] bn_select_words_mask)
  show "length (bn_abs_sub_words a b) = length b" using e vt(1) vr(1) assms by simp
  show "int (words_val (bn_abs_sub_words a b)) = \<bar>int (words_val a) - int (words_val b)\<bar>"
    using e bt br by (cases "c = 0") (simp_all add: of_nat_diff)
qed

lemma bn_abs_sub_part_words_val:
  assumes "bn_abs_sub_part_words a b cl dl = (r, m)" and "length a = cl + nat dl" and "length b = cl + nat (- dl)"
  shows "length r = cl + nat \<bar>dl\<bar>"
    and "int (words_val r) = \<bar>int (words_val a) - int (words_val b)\<bar>"
    and "m = (if words_val a < words_val b then - 1 else 0)"
proof -
  obtain t c where t: "bn_sub_part_words a b cl dl = (t, c)" by fastforce
  obtain r' d where r: "bn_sub_part_words b a cl (- dl) = (r', d)" by fastforce
  note vt = bn_sub_part_words_val [OF t assms(2,3)]
  have vr: "length r' = cl + nat \<bar>dl\<bar>" "unat d \<le> 1"
    "int (words_val r') - int (BN_BASE ^ (cl + nat \<bar>dl\<bar>)) * int (unat d) = int (words_val b) - int (words_val a)"
    using bn_sub_part_words_val [OF r] assms(2,3) by simp_all
  have bt: "c = 0 \<longleftrightarrow> words_val b \<le> words_val a" "c = 0 \<Longrightarrow> words_val t = words_val a - words_val b"
    using borrow_iff [OF vt(3,2)] words_val_less_exp [OF vt(1)] by simp_all
  have br: "d = 0 \<longleftrightarrow> words_val a \<le> words_val b" "d = 0 \<Longrightarrow> words_val r' = words_val b - words_val a"
    using borrow_iff [OF vr(3,2)] words_val_less_exp [OF vr(1)] by simp_all
  have e: "r = (if c = 0 then t else r')" "m = (if c = 0 then 0 else - 1)"
    using assms(1) vt(1) vr(1)
    by (auto simp: bn_abs_sub_part_words_def t r borrow_mask [OF vt(2)] bn_select_words_mask Let_def split: if_splits)
  show "length r = cl + nat \<bar>dl\<bar>" using e vt(1) vr(1) by simp
  show "int (words_val r) = \<bar>int (words_val a) - int (words_val b)\<bar>"
    using e bt br by (cases "c = 0") (simp_all add: of_nat_diff)
  show "m = (if words_val a < words_val b then - 1 else 0)" using e(2) bt(1) by auto
qed

section \<open>Schoolbook multiplication is multiplication\<close>

lemma mul_normal_rows_val:
  assumes "length w = Suc (length a)"
  shows "length (mul_normal_rows a w bs) = length w + length bs
    \<and> words_val (mul_normal_rows a w bs) = words_val w + BN_BASE * (words_val a * words_val bs)"
  using assms
proof (induction bs arbitrary: w)
  case (Cons b bs)
  obtain x v where w: "w = x # v" "length v = length a" using Cons.prems by (cases w) auto
  obtain r c where m: "bn_mul_add_words v a b = (r, c)" by fastforce
  note mv = bn_mul_add_words_val [OF m w(2)]
  have v: "words_val (r @ [c]) = words_val v + words_val a * unat b"
    using mv by (simp add: words_val_append)
  from Cons.IH [of "r @ [c]"] mv(1)
  have "length (mul_normal_rows a (r @ [c]) bs) = Suc (length a) + length bs"
    and "words_val (mul_normal_rows a (r @ [c]) bs) = words_val v + words_val a * unat b + BN_BASE * (words_val a * words_val bs)"
    by (simp_all add: v)
  then show ?case using w by (simp add: m) (simp add: algebra_simps)
qed simp

lemma bn_mul_normal_le:
  assumes "length b \<le> length a"
  shows "length (bn_mul_normal a b) = length a + length b \<and> words_val (bn_mul_normal a b) = words_val a * words_val b"
proof (cases b)
  case Nil
  then show ?thesis by (simp add: bn_mul_normal_def)
next
  case (Cons b0 bs)
  obtain r c where m: "bn_mul_words a b0 = (r, c)" by fastforce
  note mv = bn_mul_words_val [OF m]
  have v: "words_val (r @ [c]) = words_val a * unat b0" using mv by (simp add: words_val_append)
  from mul_normal_rows_val [of "r @ [c]" a bs] assms mv(1) show ?thesis
    unfolding v by (simp add: bn_mul_normal_def Cons m algebra_simps)
qed

lemma bn_mul_normal_val:
  "length (bn_mul_normal a b) = length a + length b" "words_val (bn_mul_normal a b) = words_val a * words_val b"
proof -
  have "bn_mul_normal a b = bn_mul_normal b a" if "length a < length b" using that by (simp add: bn_mul_normal_def)
  then show "length (bn_mul_normal a b) = length a + length b" "words_val (bn_mul_normal a b) = words_val a * words_val b"
    using bn_mul_normal_le [of b a] bn_mul_normal_le [of a b] by (cases "length a < length b"; simp)+
qed

section \<open>Karatsuba multiplication is multiplication\<close>

lemma carry_digit_val:
  "carry_digit old c = (r, d) \<Longrightarrow> unat r + BN_BASE * unat d = unat old + unat c"
proof -
  assume "carry_digit old c = (r, d)"
  then have r: "r = old + c" "d = of_bool (r < old)" by (auto simp: carry_digit_def Let_def)
  show ?thesis
  proof (cases "unat old + unat c < BN_BASE")
    case True
    then have "unat r = unat old + unat c" by (simp add: r unat_word_ariths BN_BASE_def)
    then show ?thesis by (simp add: r(2) word_less_nat_alt)
  next
    case False
    have "unat old + unat c - BN_BASE < BN_BASE" using unat_less_base [of old] unat_less_base [of c] by linarith
    with False have u: "unat r = unat old + unat c - BN_BASE"
      using le_mod_geq [of BN_BASE "unat old + unat c"] by (simp add: r unat_word_ariths BN_BASE_def)
    then have "r < old" unfolding word_less_nat_alt using False unat_less_base [of c] by linarith
    with False u show ?thesis by (simp add: r(2))
  qed
qed

lemma propagate_val:
  "propagate rs c = (rs', d) \<Longrightarrow> length rs' = length rs \<and> words_val rs' + BN_BASE ^ length rs * unat d = words_val rs + unat c"
proof (induction rs arbitrary: c rs' d)
  case (Cons x rs)
  obtain y e where y: "carry_digit x c = (y, e)" by fastforce
  obtain zs d' where z: "propagate rs e = (zs, d')" by fastforce
  from Cons.IH [OF z] have i: "length zs = length rs" "words_val zs + BN_BASE ^ length rs * unat d' = words_val rs + unat e" by simp_all
  have "unat y + BN_BASE * (words_val zs + BN_BASE ^ length rs * unat d') = unat x + BN_BASE * words_val rs + unat c"
    unfolding i(2) using carry_digit_val [OF y] by (simp add: algebra_simps)
  with Cons.prems i(1) show ?case by (auto simp: y z algebra_simps)
qed simp

text \<open>The middle part, whose carry is \<open>c\<close>, is added one half further up. No carry is left when the sum fits.\<close>

lemma karatsuba_add_val:
  assumes "length r = 4 * n" and "length t = 2 * n" and "unat c \<le> 2" and "karatsuba_add n r t c = (r', d)"
    and "words_val r + BN_BASE ^ n * (words_val t + BN_BASE ^ (2 * n) * unat c) < BN_BASE ^ (4 * n)"
  shows "d = 0" and "length r' = 4 * n"
    and "words_val r' = words_val r + BN_BASE ^ n * (words_val t + BN_BASE ^ (2 * n) * unat c)"
proof -
  obtain mid c' where m: "bn_add_words (take (2 * n) (drop n r)) t = (mid, c')" by fastforce
  obtain top c'' where p: "propagate (drop (3 * n) r) (c + c') = (top, c'')" by fastforce
  have l: "length (take (2 * n) (drop n r)) = length t" using assms(1,2) by simp
  note mv = bn_add_words_val [OF m l, unfolded assms(2)]
  from propagate_val [OF p] assms(1) have tl: "length top = n"
    and tv: "words_val top + BN_BASE ^ n * unat c'' = words_val (drop (3 * n) r) + unat (c + c')" by simp_all
  have B: "3 < BN_BASE" by (simp add: BN_BASE_def)
  have cc: "unat (c + c') = unat c + unat c'"
  proof -
    have "unat c + unat c' < BN_BASE" using assms(3) mv(2) B by linarith
    then show ?thesis by (simp add: unat_word_ariths BN_BASE_def)
  qed
  have r': "r' = take n r @ mid @ top" "d = c''" using assms(4) by (simp_all add: karatsuba_add_def m p)
  have split: "words_val r = words_val (take n r) + BN_BASE ^ n * (words_val (take (2 * n) (drop n r)) + BN_BASE ^ (2 * n) * words_val (drop (3 * n) r))"
    using words_val_split [of n r] words_val_split [of "2 * n" "drop n r"] assms(1) by simp
  show len: "length r' = 4 * n" using assms(1) mv(1) tl by (simp add: r')
  have "words_val r' + BN_BASE ^ (4 * n) * unat c'' =
      words_val (take n r) + BN_BASE ^ n * (words_val mid + BN_BASE ^ (2 * n) * (words_val top + BN_BASE ^ n * unat c''))"
  proof -
    have "BN_BASE ^ (4 * n) = BN_BASE ^ n * (BN_BASE ^ (2 * n) * BN_BASE ^ n)" by (simp flip: power_add)
    then show ?thesis using assms(1) mv(1) by (simp add: r' words_val_append) (simp add: algebra_simps)
  qed
  also have "\<dots> = words_val (take n r) + BN_BASE ^ n * ((words_val mid + BN_BASE ^ (2 * n) * unat c') + BN_BASE ^ (2 * n) * (words_val (drop (3 * n) r) + unat c))"
    unfolding tv cc by (simp add: algebra_simps)
  also have "\<dots> = words_val r + BN_BASE ^ n * (words_val t + BN_BASE ^ (2 * n) * unat c)"
    unfolding mv(3) split by (simp add: algebra_simps)
  finally have e: "words_val r' + BN_BASE ^ (4 * n) * unat c'' = words_val r + BN_BASE ^ n * (words_val t + BN_BASE ^ (2 * n) * unat c)" .
  from fits_no_carry [OF e assms(5)] show "d = 0" "words_val r' = words_val r + BN_BASE ^ n * (words_val t + BN_BASE ^ (2 * n) * unat c)"
    by (simp_all add: r'(2) unat_eq_0)
qed

lemma select_w_ones:
  "constant_time_select_w (- 1) a b = a" "constant_time_select_w 0 a b = b"
  using select_w [of a b] by (simp_all add: CONSTTIME_TRUE_W_def CONSTTIME_FALSE_W_def)

lemma middle_difference:
  assumes a: "bn_add_words p q = (t01, c)" and s: "bn_sub_words t01 t = (s, b)"
    and l: "length p = m" "length q = m" "length t = m"
    and M: "int M = int (words_val p) + int (words_val q) - int (words_val t)"
  shows "length s = m" and "unat (c - b) \<le> 2" and "words_val s + BN_BASE ^ m * unat (c - b) = M"
proof -
  let ?B = "BN_BASE ^ m"
  have "length p = length q" using l by simp
  note av = bn_add_words_val [OF a this, unfolded l]
  have "length t01 = length t" using av(1) l by simp
  note sv = bn_sub_words_val [OF s this, unfolded l]
  show "length s = m" by (rule sv(1))
  have "int (words_val t01) + int ?B * int (unat c) = int (words_val p) + int (words_val q)"
    using av(3) by (simp only: flip: of_nat_mult of_nat_add)
  with M sv(3) have e: "int M = int (words_val s) + int ?B * (int (unat c) - int (unat b))"
    unfolding right_diff_distrib by simp
  have ge: "unat b \<le> unat c"
  proof (rule ccontr)
    assume "\<not> unat b \<le> unat c"
    with sv(2) have "unat c = 0" "unat b = 1" by simp_all
    with e have "int M = int (words_val s) - int ?B" by simp
    moreover have "int (words_val s) < int ?B" using words_val_less_exp [OF sv(1)] by (rule of_nat_less_iff [THEN iffD2])
    ultimately show False by linarith
  qed
  then have d: "unat (c - b) = unat c - unat b" by (simp add: unat_sub word_le_nat_alt)
  then show "unat (c - b) \<le> 2" using av(2) by simp
  have "int (words_val s + ?B * unat (c - b)) = int M" using e ge by (simp add: d of_nat_diff)
  then show "words_val s + ?B * unat (c - b) = M" by (simp only: of_nat_eq_iff)
qed

text \<open>The sum or the difference of the middle part as a number of \<open>2 * n\<close> words and a carry.\<close>

lemma middle_part:
  assumes "length r = 4 * n" and "length t = 2 * n" and "neg = (if sg then - 1 else 0)"
    and "int M = int (words_val (take (2 * n) r)) + int (words_val (drop (2 * n) r)) + (if sg then - int (words_val t) else int (words_val t))"
  shows "\<exists>u c. length u = 2 * n \<and> unat c \<le> 2 \<and> words_val u + BN_BASE ^ (2 * n) * unat c = M \<and>
    karatsuba_combine n r t neg = (case karatsuba_add n r u c of (r, c) \<Rightarrow> if c = 0 then Some r else None)"
proof -
  let ?B = "BN_BASE ^ (2 * n)"
  obtain t01 c where a: "bn_add_words (take (2 * n) r) (drop (2 * n) r) = (t01, c)" by fastforce
  have "length (take (2 * n) r) = length (drop (2 * n) r)" "length (drop (2 * n) r) = 2 * n" using assms(1) by simp_all
  note av = bn_add_words_val [OF a this(1), unfolded this(2)]
  obtain s b where s: "bn_sub_words t01 t = (s, b)" by fastforce
  have "length t01 = length t" using av(1) assms(2) by simp
  note sv = bn_sub_words_val [OF s this, unfolded assms(2)]
  obtain p b' where p: "bn_add_words t01 t = (p, b')" by fastforce
  note pv = bn_add_words_val [OF p \<open>length t01 = length t\<close>, unfolded assms(2)]
  have sp: "length s = length p" using sv(1) pv(1) by simp
  show ?thesis
  proof (cases sg)
    case True
    have "words_val s + ?B * unat (c - b) = M" "unat (c - b) \<le> 2"
      using middle_difference [OF a s _ _ assms(2), of M] assms(1,4) True by simp_all
    moreover have "karatsuba_combine n r t neg = (case karatsuba_add n r s (c - b) of (r, c) \<Rightarrow> if c = 0 then Some r else None)"
      using True assms(3) sp by (simp add: karatsuba_combine_def a s p bn_select_words_mask select_w_ones)
    ultimately show ?thesis using sv(1) by blast
  next
    case False
    have B: "2 < BN_BASE" by (simp add: BN_BASE_def)
    have c: "unat (c + b') = unat c + unat b'"
    proof -
      have "unat c + unat b' < BN_BASE" using av(2) pv(2) B by linarith
      then show ?thesis by (simp add: unat_word_ariths BN_BASE_def)
    qed
    have "int M = int (words_val (take (2 * n) r) + words_val (drop (2 * n) r) + words_val t)" using assms(4) False by simp
    then have "M = words_val (take (2 * n) r) + words_val (drop (2 * n) r) + words_val t" by (simp only: of_nat_eq_iff)
    then have "words_val p + ?B * unat (c + b') = M" using av(3) pv(3) unfolding c by (simp add: distrib_left)
    moreover have "unat (c + b') \<le> 2" using c av(2) pv(2) by simp
    moreover have "karatsuba_combine n r t neg = (case karatsuba_add n r p (c + b') of (r, c) \<Rightarrow> if c = 0 then Some r else None)"
      using False assms(3) sp by (simp add: karatsuba_combine_def a s p bn_select_words_mask select_w_ones)
    ultimately show ?thesis using pv(1) by blast
  qed
qed

lemma karatsuba_combine_val:
  assumes "length r = 4 * n" and "length t = 2 * n" and "neg = (if sg then - 1 else 0)"
    and "int M = int (words_val (take (2 * n) r)) + int (words_val (drop (2 * n) r)) + (if sg then - int (words_val t) else int (words_val t))"
    and "words_val r + BN_BASE ^ n * M < BN_BASE ^ (4 * n)"
  shows "\<exists>r'. karatsuba_combine n r t neg = Some r' \<and> length r' = 4 * n \<and> words_val r' = words_val r + BN_BASE ^ n * M"
proof -
  from middle_part [OF assms(1-4)] obtain u c where u: "length u = 2 * n" "unat c \<le> 2" "words_val u + BN_BASE ^ (2 * n) * unat c = M"
    and k: "karatsuba_combine n r t neg = (case karatsuba_add n r u c of (r, c) \<Rightarrow> if c = 0 then Some r else None)" by blast
  obtain r' d where a: "karatsuba_add n r u c = (r', d)" by fastforce
  from karatsuba_add_val [OF assms(1) u(1,2) a, unfolded u(3), OF assms(5)] show ?thesis by (simp add: k a)
qed

text \<open>The algebra of Karatsuba: the halves, the product of the differences and its sign.\<close>

lemma karatsuba_identity:
  fixes A0 A1 B0 B1 :: nat
  assumes "int X = \<bar>int A0 - int A1\<bar>" and "int Y = \<bar>int B1 - int B0\<bar>"
  shows "int (A0 * B1 + A1 * B0) = int (A0 * B0) + int (A1 * B1) + (if (A0 < A1) \<noteq> (B1 < B0) then - int (X * Y) else int (X * Y))"
  unfolding of_nat_mult of_nat_add assms by (auto simp: abs_if algebra_simps)

lemma karatsuba_step:
  assumes len: "length a \<le> 2 * n" "n \<le> length a" "length b \<le> 2 * n" "n \<le> length b"
    and t0: "bn_abs_sub_part_words (take n a) (drop n a) (length a - n) (int n - int (length a - n)) = (t0, neg0)"
    and t1: "bn_abs_sub_part_words (drop n b) (take n b) (length b - n) (int (length b - n) - int n) = (t1, neg1)"
    and r: "length r01 = 2 * n" "words_val r01 = words_val (take n a) * words_val (take n b)"
      "length r23 = 2 * n" "words_val r23 = words_val (drop n a) * words_val (drop n b)"
    and t: "length t = 2 * n" "words_val t = words_val t0 * words_val t1"
  shows "length t0 = n" and "length t1 = n"
    and "\<exists>r. karatsuba_combine n (r01 @ r23) t (neg0 XOR neg1) = Some r \<and> length r = 4 * n \<and> words_val r = words_val a * words_val b"
proof -
  let ?A0 = "words_val (take n a)" and ?A1 = "words_val (drop n a)" and ?B0 = "words_val (take n b)" and ?B1 = "words_val (drop n b)"
  note v0 = bn_abs_sub_part_words_val [OF t0] and v1 = bn_abs_sub_part_words_val [OF t1]
  show "length t0 = n" using v0(1) len by simp
  show "length t1 = n" using v1(1) len by simp
  let ?sg = "(?A0 < ?A1) \<noteq> (?B1 < ?B0)"
  have neg: "neg0 XOR neg1 = (if ?sg then - 1 else 0)"
    using v0(3) v1(3) len by auto
  have "int (?A0 * ?B1 + ?A1 * ?B0) = int (?A0 * ?B0) + int (?A1 * ?B1) + (if ?sg then - int (words_val t) else int (words_val t))"
    unfolding t(2) using v0(2) v1(2) len by (intro karatsuba_identity) simp_all
  then have M: "int (?A0 * ?B1 + ?A1 * ?B0) = int (words_val (take (2 * n) (r01 @ r23))) + int (words_val (drop (2 * n) (r01 @ r23)))
      + (if ?sg then - int (words_val t) else int (words_val t))"
    using r by simp
  have AB: "words_val a * words_val b = words_val (r01 @ r23) + BN_BASE ^ n * (?A0 * ?B1 + ?A1 * ?B0)"
    using words_val_split [OF len(2)] words_val_split [OF len(4)] r
      power_add [of BN_BASE n n]
    by (simp add: words_val_append mult_2) (simp add: algebra_simps)
  have "words_val a * words_val b < BN_BASE ^ (length a + length b)" by (rule product_fits) simp_all
  also have "\<dots> \<le> BN_BASE ^ (4 * n)" using len by (intro power_increasing) simp_all
  finally show "\<exists>r. karatsuba_combine n (r01 @ r23) t (neg0 XOR neg1) = Some r \<and> length r = 4 * n \<and> words_val r = words_val a * words_val b"
    unfolding AB using r(1,3) t(1) neg M by (intro karatsuba_combine_val [of _ n t _ ?sg]) simp_all
qed

lemma power_of_two_iff: "is_power_of_two (2 ^ k)"
proof -
  have "(2 :: nat) ^ k AND (2 ^ k - 1) = take_bit k (2 ^ k)"
    by (simp only: take_bit_eq_mask mask_eq_exp_minus_1)
  then show ?thesis by (simp add: is_power_of_two_def take_bit_eq_mod)
qed

lemma bn_mul_recursive_normal:
  assumes "is_power_of_two n2" and "- 8 \<le> dna" "dna \<le> 0" "- 8 \<le> dnb" "dnb \<le> 0"
    and "int (length a) = int n2 + dna" and "int (length b) = int n2 + dnb"
    and "\<not> (n2 = 8 \<and> dna = 0 \<and> dnb = 0)" and "n2 < 16"
  shows "\<exists>r. bn_mul_recursive a b n2 dna dnb = Some r \<and> length r = 2 * n2 \<and> words_val r = words_val a * words_val b"
proof -
  have "bn_mul_recursive a b n2 dna dnb = Some (bn_mul_normal a b @ (if dna + dnb < 0 then replicate (nat (- (dna + dnb))) 0 else []))"
    using assms by (auto simp: bn_mul_recursive.simps [of a b n2] BN_MUL_RECURSIVE_SIZE_NORMAL_def)
  then show ?thesis using assms by (auto simp: bn_mul_normal_val words_val_append)
qed

lemma bn_mul_recursive_val:
  assumes "n2 = 2 ^ k" and "- 8 \<le> dna" "dna \<le> 0" "- 8 \<le> dnb" "dnb \<le> 0"
    and "int (length a) = int n2 + dna" and "int (length b) = int n2 + dnb"
  shows "\<exists>r. bn_mul_recursive a b n2 dna dnb = Some r \<and> length r = 2 * n2 \<and> words_val r = words_val a * words_val b"
  using assms
proof (induction k arbitrary: a b n2 dna dnb)
  case 0
  then show ?case using power_of_two_iff [of 0] by (intro bn_mul_recursive_normal) simp_all
next
  case (Suc k)
  note guard = power_of_two_iff [of "Suc k", folded Suc.prems(1)] Suc.prems(2-5)
  consider (comba) "n2 = 8 \<and> dna = 0 \<and> dnb = 0" | (normal) "\<not> (n2 = 8 \<and> dna = 0 \<and> dnb = 0)" "n2 < 16"
    | (split) "\<not> n2 < 16" by blast
  then show ?case
  proof cases
    case comba
    then have "length a = 8" "length b = 8" using Suc.prems by simp_all
    with guard comba show ?thesis by (auto simp: bn_mul_recursive.simps [of a b 8 0 0] bn_mul_comba8_val)
  next
    case normal
    then show ?thesis using guard Suc.prems by (intro bn_mul_recursive_normal) simp_all
  next
    case split
    define n where "n = n2 div 2"
    have n: "n = 2 ^ k" "n2 = 2 * n" using Suc.prems(1) by (simp_all add: n_def)
    have la: "length a \<le> 2 * n" "n \<le> length a" "length b \<le> 2 * n" "n \<le> length b" using Suc.prems split n(2) by linarith+
    have tn: "nat (int n + dna) = length a - n" "nat (int n + dnb) = length b - n"
      using Suc.prems(6,7) n(2) by linarith+
    obtain t0 neg0 where t0: "bn_abs_sub_part_words (take n a) (drop n a) (length a - n) (int n - int (length a - n)) = (t0, neg0)" by fastforce
    obtain t1 neg1 where t1: "bn_abs_sub_part_words (drop n b) (take n b) (length b - n) (int (length b - n) - int n) = (t1, neg1)" by fastforce
    note step = karatsuba_step [OF la t0 t1]
    have not: "\<not> (n2 = 8 \<and> dna = 0 \<and> dnb = 0)" "\<not> n2 < BN_MUL_RECURSIVE_SIZE_NORMAL" "\<not> (n = 4 \<and> dna = 0 \<and> dnb = 0)"
      using split n(2) by (auto simp: BN_MUL_RECURSIVE_SIZE_NORMAL_def)
    have eq: "bn_mul_recursive a b n2 dna dnb =
        (if n = 8 \<and> dna = 0 \<and> dnb = 0
         then karatsuba_combine n (bn_mul_comba8 (take n a) (take n b) @ bn_mul_comba8 (drop n a) (drop n b)) (bn_mul_comba8 t0 t1) (neg0 XOR neg1)
         else do { t23 \<leftarrow> bn_mul_recursive t0 t1 n 0 0;
                   r01 \<leftarrow> bn_mul_recursive (take n a) (take n b) n 0 0;
                   r23 \<leftarrow> bn_mul_recursive (drop n a) (drop n b) n dna dnb;
                   karatsuba_combine n (r01 @ r23) t23 (neg0 XOR neg1) })"
      using guard not by (simp only: bn_mul_recursive.simps [of a b n2] n_def [symmetric] Let_def tn t0 t1 prod.case if_False not_not simp_thms)
    have lt: "length t0 = n" "length t1 = n" using bn_abs_sub_part_words_val(1) [OF t0] bn_abs_sub_part_words_val(1) [OF t1] la by simp_all
    show ?thesis
    proof (cases "n = 8 \<and> dna = 0 \<and> dnb = 0")
      case True
      then have "length a = 16" "length b = 16" using Suc.prems n(2) by simp_all
      with True lt show ?thesis unfolding eq unfolding n(2)
        using step(3) [of "bn_mul_comba8 (take n a) (take n b)" "bn_mul_comba8 (drop n a) (drop n b)" "bn_mul_comba8 t0 t1"]
        by (simp add: bn_mul_comba8_val)
    next
      case False
      obtain t where t: "bn_mul_recursive t0 t1 n 0 0 = Some t" "length t = 2 * n" "words_val t = words_val t0 * words_val t1"
        using Suc.IH [of n 0 0 t0 t1] n(1) lt by auto
      obtain r01 where r01: "bn_mul_recursive (take n a) (take n b) n 0 0 = Some r01" "length r01 = 2 * n"
          "words_val r01 = words_val (take n a) * words_val (take n b)"
        using Suc.IH [of n 0 0 "take n a" "take n b"] n(1) la by auto
      have "int (length (drop n a)) = int n + dna" "int (length (drop n b)) = int n + dnb"
        using Suc.prems(6,7) la n(2) by (simp_all add: of_nat_diff)
      then obtain r23 where r23: "bn_mul_recursive (drop n a) (drop n b) n dna dnb = Some r23" "length r23 = 2 * n"
          "words_val r23 = words_val (drop n a) * words_val (drop n b)"
        using Suc.IH [of n dna dnb "drop n a" "drop n b"] n(1) Suc.prems(2-5) by auto
      show ?thesis using step(3) [OF r01(2,3) r23(2,3) t(2,3)] False unfolding eq unfolding n(2)
        by (auto simp: t(1) r01(1) r23(1))
    qed
  qed
qed

text \<open>The half found is a power of two that splits both parts, or at which one ends and the other is at most one word shorter.\<close>

lemma part_size_val:
  assumes "n = 2 ^ k" and "0 \<le> tna" "tna < int n" "0 \<le> tnb" "tnb < int n" "- 1 \<le> tna - tnb" "tna - tnb \<le> 1"
    and "16 \<le> tna \<or> 16 \<le> tnb" and "part_size n tna tnb = (i, longer)"
  shows "\<exists>j. i = 2 ^ j" and "8 \<le> i" and "2 * i \<le> n" and "tna < 2 * int i" and "tnb < 2 * int i"
    and "longer \<Longrightarrow> int i \<le> tna" and "longer \<Longrightarrow> int i \<le> tnb"
    and "\<not> longer \<Longrightarrow> tna - int i \<in> {0, - 1} \<and> tnb - int i \<in> {0, - 1}"
proof -
  have "(\<exists>j. i = 2 ^ j) \<and> 8 \<le> i \<and> 2 * i \<le> n \<and> tna < 2 * int i \<and> tnb < 2 * int i \<and> (longer \<longrightarrow> int i \<le> tna \<and> int i \<le> tnb)
      \<and> (\<not> longer \<longrightarrow> tna - int i \<in> {0, - 1} \<and> tnb - int i \<in> {0, - 1})"
    using assms
  proof (induction k arbitrary: n)
    case (Suc k)
    define h where "h = n div 2"
    have h: "h = 2 ^ k" "n = 2 * h" using Suc.prems(1) by (simp_all add: h_def)
    have h8: "8 \<le> h" using Suc.prems(3,5,8) h(2) by auto
    consider (a) "int h < tna \<or> int h < tnb" | (b) "\<not> (int h < tna \<or> int h < tnb)" "int h = tna \<or> int h = tnb"
      | (c) "tna < int h" "tnb < int h" by linarith
    then show ?case
    proof cases
      case a
      then have "i = h" "longer" using Suc.prems(9) by (auto simp: part_size.simps [of n] Let_def h_def)
      with a h h8 Suc.prems show ?thesis by auto
    next
      case b
      then have "i = h" "\<not> longer" using Suc.prems(9) by (auto simp: part_size.simps [of n] Let_def h_def)
      with b h h8 Suc.prems show ?thesis by auto
    next
      case c
      then have "part_size h tna tnb = (i, longer)"
        using Suc.prems(9) h8 by (auto simp: part_size.simps [of n] Let_def h_def)
      from Suc.IH [OF h(1) Suc.prems(2) c(1) Suc.prems(4) c(2) Suc.prems(6-8) this] h(2) show ?thesis by auto
    qed
  qed auto
  then show "\<exists>j. i = 2 ^ j" and "8 \<le> i" and "2 * i \<le> n" and "tna < 2 * int i" and "tnb < 2 * int i"
    and "longer \<Longrightarrow> int i \<le> tna" and "longer \<Longrightarrow> int i \<le> tnb"
    and "\<not> longer \<Longrightarrow> tna - int i \<in> {0, - 1} \<and> tnb - int i \<in> {0, - 1}" by blast+
qed

lemma blit_zeros_val:
  "length p \<le> m \<Longrightarrow> length (blit (replicate m 0) 0 p) = m \<and> words_val (blit (replicate m 0) 0 p) = words_val p"
  by (simp add: blit_def words_val_append)

lemma bn_mul_part_recursive_val:
  assumes "n = 2 ^ k" and "8 \<le> n" and "0 \<le> tna" "tna < int n" "0 \<le> tnb" "tnb < int n" "- 1 \<le> tna - tnb" "tna - tnb \<le> 1"
    and "int (length a) = int n + tna" and "int (length b) = int n + tnb"
  shows "\<exists>r'. bn_mul_part_recursive r a b n tna tnb = Some r' \<and> length r' = 4 * n \<and> words_val r' = words_val a * words_val b"
  using assms
proof (induction n arbitrary: r a b k tna tnb rule: less_induct)
  case (less n)
  note guard = power_of_two_iff [of k, folded less.prems(1)] less.prems(3-8)
  have la: "length a \<le> 2 * n" "n \<le> length a" "length b \<le> 2 * n" "n \<le> length b" using less.prems by linarith+
  have ta: "tna = int (length a - n)" "tnb = int (length b - n)" "nat tna = length a - n" "nat tnb = length b - n"
    using less.prems(9,10) la by (simp_all add: of_nat_diff)
  obtain t0 neg0 where t0: "bn_abs_sub_part_words (take n a) (drop n a) (length a - n) (int n - int (length a - n)) = (t0, neg0)" by fastforce
  obtain t1 neg1 where t1: "bn_abs_sub_part_words (drop n b) (take n b) (length b - n) (int (length b - n) - int n) = (t1, neg1)" by fastforce
  note step = karatsuba_step [OF la t0 t1]
  have lt: "length t0 = n" "length t1 = n" using bn_abs_sub_part_words_val(1) [OF t0] bn_abs_sub_part_words_val(1) [OF t1] la by simp_all
  have t0': "bn_abs_sub_part_words (take n a) (drop n a) (nat tna) (int n - tna) = (t0, neg0)" using t0 ta by simp
  have t1': "bn_abs_sub_part_words (drop n b) (take n b) (nat tnb) (tnb - int n) = (t1, neg1)" using t1 ta by simp
  note eq = bn_mul_part_recursive.simps [of r a b n tna tnb, unfolded Let_def t0' t1' prod.case]
  let ?p = "bn_mul_normal (drop n a) (drop n b)"
  have p: "length ?p \<le> 2 * n" "words_val ?p = words_val (drop n a) * words_val (drop n b)" "int (length ?p) = tna + tnb"
    using la ta by (simp_all add: bn_mul_normal_val of_nat_diff)
  show ?case
  proof (cases "n = 8")
    case True
    have c: "length (take n a) = 8" "length (take n b) = 8" using la True by simp_all
    let ?r23 = "?p @ replicate (nat (2 * int n - tna - tnb)) 0"
    have "length ?r23 = 2 * n" "words_val ?r23 = words_val (drop n a) * words_val (drop n b)"
      using p by (simp_all add: words_val_append)
    from step(3) [OF _ bn_mul_comba8_val(2) [OF c] this, of "bn_mul_comba8 t0 t1"]
    have k: "\<exists>r. karatsuba_combine n (bn_mul_comba8 (take n a) (take n b) @ ?r23) (bn_mul_comba8 t0 t1) (neg0 XOR neg1) = Some r \<and>
        length r = 4 * n \<and> words_val r = words_val a * words_val b"
      using True lt c by (simp add: bn_mul_comba8_val)
    have "bn_mul_part_recursive r a b n tna tnb =
        karatsuba_combine n (bn_mul_comba8 (take n a) (take n b) @ ?r23) (bn_mul_comba8 t0 t1) (neg0 XOR neg1)"
      unfolding eq using guard True by simp
    with k show ?thesis by simp
  next
    case False
    obtain t where t: "bn_mul_recursive t0 t1 n 0 0 = Some t" "length t = 2 * n" "words_val t = words_val t0 * words_val t1"
      using bn_mul_recursive_val [of n k 0 0 t0 t1] less.prems(1) lt by auto
    obtain r01 where r01: "bn_mul_recursive (take n a) (take n b) n 0 0 = Some r01" "length r01 = 2 * n"
        "words_val r01 = words_val (take n a) * words_val (take n b)"
      using bn_mul_recursive_val [of n k 0 0 "take n a" "take n b"] less.prems(1) la by auto
    let ?z = "replicate (2 * n) (0 :: u64)"
    let ?m = "if tna < int BN_MUL_RECURSIVE_SIZE_NORMAL \<and> tnb < int BN_MUL_RECURSIVE_SIZE_NORMAL
        then Some (blit ?z 0 ?p)
        else case part_size n tna tnb of (i, longer) \<Rightarrow>
          if longer
          then map_option (blit ?z 0) (bn_mul_part_recursive (take (4 * i) ?z) (drop n a) (drop n b) i (tna - int i) (tnb - int i))
          else map_option (blit ?z 0) (bn_mul_recursive (drop n a) (drop n b) i (tna - int i) (tnb - int i))"
    have "\<exists>r23. ?m = Some r23 \<and> length r23 = 2 * n \<and> words_val r23 = words_val (drop n a) * words_val (drop n b)"
    proof (cases "tna < int BN_MUL_RECURSIVE_SIZE_NORMAL \<and> tnb < int BN_MUL_RECURSIVE_SIZE_NORMAL")
      case True
      with p blit_zeros_val [OF p(1)] show ?thesis by simp
    next
      case big: False
      then have b16: "16 \<le> tna \<or> 16 \<le> tnb" by (auto simp: BN_MUL_RECURSIVE_SIZE_NORMAL_def)
      obtain i longer where ps: "part_size n tna tnb = (i, longer)" by fastforce
      note i = part_size_val [OF less.prems(1,3-8) b16 ps]
      obtain j where j: "i = 2 ^ j" using i(1) by blast
      have ld: "int (length (drop n a)) = int i + (tna - int i)" "int (length (drop n b)) = int i + (tnb - int i)" using ta by simp_all
      show ?thesis
      proof (cases longer)
        case True
        have "i < n" using i(2,3) by simp
        from less.IH [OF this j i(2) _ _ _ _ _ _ ld] i(4,5) i(6) [OF True] i(7) [OF True] True less.prems(7,8)
        obtain q where q: "bn_mul_part_recursive (take (4 * i) ?z) (drop n a) (drop n b) i (tna - int i) (tnb - int i) = Some q"
          "length q = 4 * i" "words_val q = words_val (drop n a) * words_val (drop n b)" by fastforce
        have "length q \<le> 2 * n" using q(2) i(3) by simp
        from blit_zeros_val [OF this] show ?thesis using big True q by (auto simp: ps simp del: take_replicate)
      next
        case False
        from i(8) [OF False] obtain q where q: "bn_mul_recursive (drop n a) (drop n b) i (tna - int i) (tnb - int i) = Some q"
          "length q = 2 * i" "words_val q = words_val (drop n a) * words_val (drop n b)"
          using bn_mul_recursive_val [OF j _ _ _ _ ld] by auto
        have "length q \<le> 2 * n" using q(2) i(3) by simp
        from blit_zeros_val [OF this] show ?thesis using big False q by (auto simp: ps)
      qed
    qed
    then obtain r23 where r23: "?m = Some r23" "length r23 = 2 * n" "words_val r23 = words_val (drop n a) * words_val (drop n b)" by blast
    have "bn_mul_part_recursive r a b n tna tnb = karatsuba_combine n (r01 @ r23) t (neg0 XOR neg1)"
      using guard False less.prems(2) by (simp only: eq t(1) r01(1) r23(1)) simp
    then show ?thesis using step(3) [OF r01(2,3) r23(2,3) t(2,3)] by simp
  qed
qed

section \<open>Squaring is multiplication by itself\<close>

primrec cross_val :: "u64 list \<Rightarrow> nat" where
  "cross_val [] = 0"
| "cross_val (x # ap) = unat x * words_val ap + BN_BASE ^ 2 * cross_val ap"

text \<open>The squares of the digits, and twice the products of different ones.\<close>

lemma words_val_square: "words_val a * words_val a = words_val (bn_sqr_words a) + 2 * (BN_BASE * cross_val a)"
proof (induction a)
  case (Cons x a)
  have "unat (fst (sqr x)) + BN_BASE * unat (snd (sqr x)) = unat x * unat x"
    using sqr_val [of x "fst (sqr x)" "snd (sqr x)"] by simp
  then have "words_val (bn_sqr_words (x # a)) = unat x * unat x + BN_BASE ^ 2 * words_val (bn_sqr_words a)"
    by (simp add: algebra_simps power2_eq_square)
  moreover have "words_val (x # a) * words_val (x # a) =
      unat x * unat x + 2 * (BN_BASE * (unat x * words_val a)) + BN_BASE ^ 2 * (words_val a * words_val a)"
    by (simp add: algebra_simps power2_eq_square)
  ultimately show ?case by (simp add: Cons.IH) (simp add: algebra_simps)
qed simp

lemma sqr_rows_val:
  "Suc (length w) = length ap \<Longrightarrow>
   length (sqr_rows w ap) = 2 * length w \<and> words_val (sqr_rows w ap) = words_val w + cross_val ap"
proof (induction w ap rule: sqr_rows.induct)
  case (1 w x y ap)
  obtain r c where m: "bn_mul_add_words w (y # ap) x = (r, c)" by fastforce
  have l: "length w = length (y # ap)" using "1.prems" by simp
  note mv = bn_mul_add_words_val [OF m l]
  let ?r = "r @ [c]"
  have v: "words_val ?r = words_val w + words_val (y # ap) * unat x"
    using mv by (simp add: words_val_append)
  have lr: "length ?r = length ap + 2" using mv(1) by simp
  then have "Suc (length (drop 2 ?r)) = length (y # ap)" by simp
  from "1.IH" [OF m [symmetric] refl refl this]
  have i: "length (sqr_rows (drop 2 ?r) (y # ap)) = 2 * length ap"
    "words_val (sqr_rows (drop 2 ?r) (y # ap)) = words_val (drop 2 ?r) + cross_val (y # ap)" using lr by simp_all
  define T where "T = take 2 ?r"
  define D where "D = drop 2 ?r"
  have T: "length T = 2" "words_val T + BN_BASE ^ 2 * words_val D = words_val ?r"
    using words_val_split [of 2 ?r] lr by (simp_all add: T_def D_def del: take_append drop_append)
  have "words_val (T @ sqr_rows D (y # ap)) = words_val T + BN_BASE ^ 2 * (words_val D + cross_val (y # ap))"
    unfolding D_def i(2) [symmetric] by (simp only: words_val_append T(1))
  also have "\<dots> = words_val w + cross_val (x # y # ap)"
    using T(2) unfolding v distrib_left by (simp only: cross_val.simps(2) [of x] add.assoc mult.commute [of "unat x"])
  finally have "words_val (T @ sqr_rows D (y # ap)) = words_val w + cross_val (x # y # ap)" .
  moreover have "length (T @ sqr_rows D (y # ap)) = 2 * length w"
    using i(1) lr l by (simp add: T(1) D_def del: drop_append)
  moreover have "sqr_rows w (x # y # ap) = T @ sqr_rows D (y # ap)" by (simp add: m T_def D_def Let_def del: take_append drop_append)
  ultimately show ?case by simp
qed simp_all

lemma bn_sqr_normal_val:
  "length (bn_sqr_normal a) = 2 * length a \<and> words_val (bn_sqr_normal a) = words_val a * words_val a"
proof (cases a)
  case Nil
  then show ?thesis by (simp add: bn_sqr_normal_def)
next
  case (Cons x ap)
  define cross where "cross = (if ap = [] then [] else case bn_mul_words ap x of (r, c) \<Rightarrow> take 2 (r @ [c]) @ sqr_rows (drop 2 (r @ [c])) ap)"
  have c: "length cross = 2 * length ap" "words_val cross = cross_val a"
  proof -
    have "length cross = 2 * length ap \<and> words_val cross = cross_val a"
    proof (cases ap)
      case Nil
      then show ?thesis by (simp add: cross_def Cons)
    next
      case (Cons y ap')
      have "sqr_rows (replicate (length ap) 0) (x # ap) = cross"
        by (simp add: cross_def Cons bn_mul_words_is_add Let_def split: prod.split)
      then show ?thesis using sqr_rows_val [of "replicate (length ap) 0" "x # ap"] by (simp add: \<open>a = x # ap\<close>)
    qed
    then show "length cross = 2 * length ap" "words_val cross = cross_val a" by simp_all
  qed
  let ?n = "2 * length a"
  let ?r = "0 # cross @ [0 :: u64]"
  have r: "length ?r = ?n" "words_val ?r = BN_BASE * cross_val a" using c by (simp_all add: Cons words_val_append)
  obtain r1 c1 where a1: "bn_add_words ?r ?r = (r1, c1)" by fastforce
  note v1 = bn_add_words_val [OF a1 refl, unfolded r]
  have lt: "words_val a * words_val a < BN_BASE ^ ?n" using product_fits [of a "length a" a "length a"] by (simp add: mult_2)
  have "BN_BASE * cross_val a + BN_BASE * cross_val a < BN_BASE ^ ?n" using lt words_val_square [of a] by linarith
  from fits_no_carry(2) [OF v1(3) this] have w1: "words_val r1 = BN_BASE * cross_val a + BN_BASE * cross_val a" .
  obtain r2 c2 where a2: "bn_add_words r1 (bn_sqr_words a) = (r2, c2)" by fastforce
  have "length r1 = length (bn_sqr_words a)" using v1(1) by simp
  note v2 = bn_add_words_val [OF a2 this, unfolded length_bn_sqr_words]
  have "words_val r1 + words_val (bn_sqr_words a) = words_val a * words_val a"
    using words_val_square [of a] w1 by simp
  with fits_no_carry(2) [OF v2(3)] lt have "words_val r2 = words_val a * words_val a" by simp
  moreover have "bn_sqr_normal a = (case bn_add_words ?r ?r of (r, _) \<Rightarrow> case bn_add_words r (bn_sqr_words a) of (r, _) \<Rightarrow> r)"
    by (simp only: bn_sqr_normal_def Cons list.case cross_def Let_def)
  then have "bn_sqr_normal a = r2" by (simp add: a1 a2)
  ultimately show ?thesis using v2(1) by simp
qed

lemma bn_sqr_recursive_val:
  assumes "n2 = 2 ^ k" and "length a = n2"
  shows "\<exists>r. bn_sqr_recursive a n2 = Some r \<and> length r = 2 * n2 \<and> words_val r = words_val a * words_val a"
  using assms
proof (induction k arbitrary: a n2)
  case 0
  then show ?case using power_of_two_iff [of 0] bn_sqr_normal_val [of a]
    by (simp add: bn_sqr_recursive.simps [of a "Suc 0"] BN_MUL_RECURSIVE_SIZE_NORMAL_def)
next
  case (Suc k)
  note guard = power_of_two_iff [of "Suc k", folded Suc.prems(1)]
  show ?case
  proof (cases "n2 < 16")
    case True
    show ?thesis unfolding bn_sqr_recursive.simps [of a n2]
      using True guard bn_sqr_normal_val [of a] Suc.prems(2) bn_sqr_comba4_val [of a] bn_sqr_comba8_val [of a]
      by (auto simp: BN_MUL_RECURSIVE_SIZE_NORMAL_def)
  next
    case False
    define n where "n = n2 div 2"
    have n: "n = 2 ^ k" "n2 = 2 * n" using Suc.prems(1) by (simp_all add: n_def)
    let ?A0 = "take n a" and ?A1 = "drop n a"
    have l: "length ?A0 = length ?A1" "length ?A1 = n" "length ?A0 = n" using Suc.prems(2) n(2) by simp_all
    note d = bn_abs_sub_words_val [OF l(1), unfolded l(2)]
    obtain t where t: "bn_sqr_recursive (bn_abs_sub_words ?A0 ?A1) n = Some t" "length t = 2 * n"
        "words_val t = words_val (bn_abs_sub_words ?A0 ?A1) * words_val (bn_abs_sub_words ?A0 ?A1)"
      using Suc.IH [OF n(1) d(1)] by auto
    obtain p where p: "bn_sqr_recursive ?A0 n = Some p" "length p = 2 * n" "words_val p = words_val ?A0 * words_val ?A0"
      using Suc.IH [OF n(1) l(3)] by auto
    obtain q where q: "bn_sqr_recursive ?A1 n = Some q" "length q = 2 * n" "words_val q = words_val ?A1 * words_val ?A1"
      using Suc.IH [OF n(1) l(2)] by auto
    obtain t01 c where a: "bn_add_words p q = (t01, c)" by fastforce
    obtain s b where s: "bn_sub_words t01 t = (s, b)" by fastforce
    let ?M = "2 * (words_val ?A0 * words_val ?A1)"
    have M: "int ?M = int (words_val p) + int (words_val q) - int (words_val t)"
      unfolding p(3) q(3) t(3) of_nat_mult d(2) by (simp add: abs_if algebra_simps)
    note m = middle_difference [OF a s p(2) q(2) t(2) M]
    obtain r e where r: "karatsuba_add n (p @ q) s (c - b) = (r, e)" by fastforce
    have AA: "words_val a * words_val a = words_val (p @ q) + BN_BASE ^ n * ?M"
      using words_val_split [of n a] power_add [of BN_BASE n n] Suc.prems(2) n(2)
      by (simp add: words_val_append p q mult_2) (simp add: algebra_simps)
    have "words_val a * words_val a < BN_BASE ^ (4 * n)"
      using product_fits [of a n2 a n2] Suc.prems(2) n(2) by simp
    then have "words_val (p @ q) + BN_BASE ^ n * (words_val s + BN_BASE ^ (2 * n) * unat (c - b)) < BN_BASE ^ (4 * n)"
      unfolding m(3) AA .
    moreover have "length (p @ q) = 4 * n" using p(2) q(2) by simp
    ultimately have "e = 0" "length r = 4 * n" "words_val r = words_val a * words_val a"
      using karatsuba_add_val [OF _ m(1,2) r] unfolding m(3) AA by simp_all
    moreover have "bn_sqr_recursive a n2 = (if e = 0 then Some r else None)"
      unfolding bn_sqr_recursive.simps [of a n2] using guard False
      by (simp add: BN_MUL_RECURSIVE_SIZE_NORMAL_def t p q a s r flip: n_def)
    ultimately show ?thesis using n(2) by simp
  qed
qed

end
