(* ===== verification/BnNum.thy ===== *)
theory BnNum
  imports BnMul Mem
begin

text \<open>
  Numbers with a sign and their memory: \<^verbatim>\<open>BIGNUM\<close>, \<^verbatim>\<open>crypto/fipsmodule/bn/bn.c\<close> and the
  comparisons of \<^verbatim>\<open>cmp.c\<close>. A function that writes a number returns it, after the value that the C
  function returns. The result may be one of the arguments: the number is then given twice, which is right because the code
  reads a word of an argument before it writes the word of the same index.
\<close>

declare of_nat_unat [simp del]

section \<open>The data\<close>

text \<open>
  \<open>bn_d\<close> are the words of the allocated block, which are unspecified behind the first \<open>bn_width\<close>. The
  counters are never negative, so they are natural numbers.
\<close>

record BIGNUM =
  bn_d :: "u64 list"
  bn_width :: nat
  bn_dmax :: nat
  bn_neg :: bool
  bn_malloced :: bool
  bn_static :: bool

text \<open>
  A block of bytes as little-endian words. The allocator gives blocks of bytes, and some functions look at the
  words of a number as bytes.
\<close>

fun words_of_bytes :: "u8 list \<Rightarrow> u64 list" where
  "words_of_bytes bs = (if length bs < 8 then [] else of_nat (le_val (take 8 bs)) # words_of_bytes (drop 8 bs))"

declare words_of_bytes.simps [simp del]

definition bytes_of_words :: "u64 list \<Rightarrow> u8 list" where
  "bytes_of_words ws = concat (map (\<lambda>w. le_bytes 8 (unat w)) ws)"

section \<open>Memory\<close>

definition BN_init :: BIGNUM where
  "BN_init = \<lparr>bn_d = [], bn_width = 0, bn_dmax = 0, bn_neg = False, bn_malloced = False, bn_static = False\<rparr>"

text \<open>The size of the structure is forty bytes.\<close>

definition BN_new :: "malloc \<Rightarrow> BIGNUM option" where
  "BN_new M = (case OPENSSL_malloc M 40 of None \<Rightarrow> None | Some _ \<Rightarrow> Some (BN_init\<lparr>bn_malloced := True\<rparr>))"

definition bn_wexpand :: "malloc \<Rightarrow> BIGNUM \<Rightarrow> nat \<Rightarrow> bool \<times> BIGNUM" where
  "bn_wexpand M bn words =
     (if words \<le> bn_dmax bn then (True, bn)
      else if words > INT_MAX div (4 * 64) then (False, bn)
      else if bn_static bn then (False, bn)
      else case OPENSSL_malloc M (size_mul 8 words) of
             None \<Rightarrow> (False, bn)
           | Some a \<Rightarrow> (True, bn\<lparr>bn_d := blit (words_of_bytes a) 0 (take (bn_width bn) (bn_d bn)), bn_dmax := words\<rparr>))"

definition bn_expand :: "malloc \<Rightarrow> BIGNUM \<Rightarrow> nat \<Rightarrow> bool \<times> BIGNUM" where
  "bn_expand M bn bits =
     (if size_add bits (64 - 1) < bits then (False, bn)
      else bn_wexpand M bn (size_add bits (64 - 1) div 64))"

text \<open>The returned pointer is \<^verbatim>\<open>dest\<close> or null.\<close>

definition BN_copy :: "malloc \<Rightarrow> BIGNUM \<Rightarrow> BIGNUM \<Rightarrow> bool \<times> BIGNUM" where
  "BN_copy M dest src =
     (case bn_wexpand M dest (bn_width src) of
        (False, dest) \<Rightarrow> (False, dest)
      | (True, dest) \<Rightarrow>
          (True, dest\<lparr>bn_d := blit (bn_d dest) 0 (take (bn_width src) (bn_d src)), bn_width := bn_width src, bn_neg := bn_neg src\<rparr>))"

definition BN_dup :: "malloc \<Rightarrow> BIGNUM \<Rightarrow> BIGNUM option" where
  "BN_dup M src =
     (case BN_new M of
        None \<Rightarrow> None
      | Some copy \<Rightarrow> (case BN_copy M copy src of (ok, copy) \<Rightarrow> if ok then Some copy else None))"

definition BN_clear :: "BIGNUM \<Rightarrow> BIGNUM" where
  "BN_clear bn = bn\<lparr>bn_d := replicate (bn_dmax bn) 0, bn_width := 0, bn_neg := False\<rparr>"

definition BN_value_one :: BIGNUM where
  "BN_value_one = \<lparr>bn_d = [1], bn_width = 1, bn_dmax = 1, bn_neg = False, bn_malloced = False, bn_static = True\<rparr>"

section \<open>Width and bits\<close>

text \<open>The words from the most significant one that is not zero downwards.\<close>

fun minimal_width_loop :: "u64 list \<Rightarrow> nat \<Rightarrow> nat" where
  "minimal_width_loop d 0 = 0"
| "minimal_width_loop d (Suc ret) = (if d ! ret = 0 then minimal_width_loop d ret else Suc ret)"

definition bn_minimal_width :: "BIGNUM \<Rightarrow> nat" where
  "bn_minimal_width bn = minimal_width_loop (bn_d bn) (bn_width bn)"

definition bn_set_minimal_width :: "BIGNUM \<Rightarrow> BIGNUM" where
  "bn_set_minimal_width bn =
     (let bn = bn\<lparr>bn_width := bn_minimal_width bn\<rparr>
      in if bn_width bn = 0 then bn\<lparr>bn_neg := False\<rparr> else bn)"

text \<open>
  One halving: the upper part of the low \<^verbatim>\<open>2 * s\<close> bits is counted if it is not zero, which the mask says,
  and then looked at instead of the lower one.
\<close>

definition num_bits_step :: "nat \<Rightarrow> nat \<times> u64 \<Rightarrow> nat \<times> u64" where
  "num_bits_step s bl =
     (case bl of (bits, l) \<Rightarrow>
        let x = drop_bit s l;
            mask = 0 - x;
            mask = 0 - drop_bit (64 - 1) mask;
            bits = bits + unat (of_nat s AND mask);
            l = l XOR ((x XOR l) AND mask)
        in (bits, l))"

definition BN_num_bits_word :: "u64 \<Rightarrow> nat" where
  "BN_num_bits_word l = fst (fold num_bits_step [32, 16, 8, 4, 2, 1] (if l \<noteq> 0 then 1 else 0, l))"

definition BN_num_bits :: "BIGNUM \<Rightarrow> nat" where
  "BN_num_bits bn =
     (let width = bn_minimal_width bn
      in if width = 0 then 0 else (width - 1) * 64 + BN_num_bits_word (bn_d bn ! (width - 1)))"

definition BN_num_bytes :: "BIGNUM \<Rightarrow> nat" where
  "BN_num_bytes bn = (BN_num_bits bn + 7) div 8"

section \<open>Setting and reading\<close>

definition BN_zero :: "BIGNUM \<Rightarrow> BIGNUM" where
  "BN_zero bn = bn\<lparr>bn_width := 0, bn_neg := False\<rparr>"

definition BN_set_word :: "malloc \<Rightarrow> BIGNUM \<Rightarrow> u64 \<Rightarrow> bool \<times> BIGNUM" where
  "BN_set_word M bn value =
     (if value = 0 then (True, BN_zero bn)
      else case bn_wexpand M bn 1 of
             (False, bn) \<Rightarrow> (False, bn)
           | (True, bn) \<Rightarrow> (True, bn\<lparr>bn_neg := False, bn_d := (bn_d bn)[0 := value], bn_width := 1\<rparr>))"

definition BN_set_u64 :: "malloc \<Rightarrow> BIGNUM \<Rightarrow> u64 \<Rightarrow> bool \<times> BIGNUM" where
  "BN_set_u64 = BN_set_word"

definition BN_one :: "malloc \<Rightarrow> BIGNUM \<Rightarrow> bool \<times> BIGNUM" where
  "BN_one M bn = BN_set_word M bn 1"

definition bn_set_words :: "malloc \<Rightarrow> BIGNUM \<Rightarrow> u64 list \<Rightarrow> bool \<times> BIGNUM" where
  "bn_set_words M bn words =
     (case bn_wexpand M bn (length words) of
        (False, bn) \<Rightarrow> (False, bn)
      | (True, bn) \<Rightarrow> (True, bn\<lparr>bn_d := blit (bn_d bn) 0 words, bn_width := length words, bn_neg := False\<rparr>))"

definition bn_fits_in_words :: "BIGNUM \<Rightarrow> nat \<Rightarrow> bool" where
  "bn_fits_in_words bn num = (fold (\<lambda>i m. m OR bn_d bn ! i) [num..<bn_width bn] 0 = 0)"

definition bn_copy_words :: "u64 list \<Rightarrow> nat \<Rightarrow> BIGNUM \<Rightarrow> bool \<times> u64 list" where
  "bn_copy_words out num bn =
     (if bn_neg bn then (False, out)
      else if bn_width bn > num \<and> \<not> bn_fits_in_words bn num then (False, out)
      else let width = (if bn_width bn > num then num else bn_width bn);
               out = blit out 0 (replicate num 0)
           in (True, blit out 0 (take width (bn_d bn))))"

definition BN_is_negative :: "BIGNUM \<Rightarrow> bool" where
  "BN_is_negative bn = bn_neg bn"

definition BN_is_zero :: "BIGNUM \<Rightarrow> bool" where
  "BN_is_zero bn = bn_fits_in_words bn 0"

definition BN_set_negative :: "BIGNUM \<Rightarrow> bool \<Rightarrow> BIGNUM" where
  "BN_set_negative bn sign = (if sign \<and> \<not> BN_is_zero bn then bn\<lparr>bn_neg := True\<rparr> else bn\<lparr>bn_neg := False\<rparr>)"

definition bn_resize_words :: "malloc \<Rightarrow> BIGNUM \<Rightarrow> nat \<Rightarrow> bool \<times> BIGNUM" where
  "bn_resize_words M bn words =
     (if bn_width bn \<le> words
      then case bn_wexpand M bn words of
             (False, bn) \<Rightarrow> (False, bn)
           | (True, bn) \<Rightarrow>
               (True, bn\<lparr>bn_d := blit (bn_d bn) (bn_width bn) (replicate (words - bn_width bn) 0), bn_width := words\<rparr>)
      else if \<not> bn_fits_in_words bn words then (False, bn)
      else (True, bn\<lparr>bn_width := words\<rparr>))"

section \<open>Comparison\<close>

text \<open>An \<^verbatim>\<open>int\<close> is a word of 32 bits; \<^verbatim>\<open>-1\<close> is the word of ones.\<close>

definition bn_cmp_words_consttime :: "u64 list \<Rightarrow> nat \<Rightarrow> u64 list \<Rightarrow> nat \<Rightarrow> 32 word" where
  "bn_cmp_words_consttime a a_len b b_len =
     (let m = (if a_len < b_len then a_len else b_len);
          ret = fold (\<lambda>i ret. let eq = constant_time_eq_w (a ! i) (b ! i); lt = constant_time_lt_w (a ! i) (b ! i)
                             in constant_time_select_int eq ret (constant_time_select_int lt (- 1) 1)) [0..<m] 0
      in if a_len < b_len
         then let mask = fold (\<lambda>i m. m OR b ! i) [a_len..<b_len] 0 in constant_time_select_int (constant_time_is_zero_w mask) ret (- 1)
         else if b_len < a_len
         then let mask = fold (\<lambda>i m. m OR a ! i) [b_len..<a_len] 0 in constant_time_select_int (constant_time_is_zero_w mask) ret 1
         else ret)"

definition BN_ucmp :: "BIGNUM \<Rightarrow> BIGNUM \<Rightarrow> 32 word" where
  "BN_ucmp a b = bn_cmp_words_consttime (bn_d a) (bn_width a) (bn_d b) (bn_width b)"

definition BN_cmp :: "BIGNUM option \<Rightarrow> BIGNUM option \<Rightarrow> 32 word" where
  "BN_cmp a b =
     (case (a, b) of
        (Some a, Some b) \<Rightarrow>
          if bn_neg a \<noteq> bn_neg b then (if bn_neg a then - 1 else 1)
          else let ret = BN_ucmp a b in if bn_neg a then - ret else ret
      | (Some a, None) \<Rightarrow> - 1
      | (None, Some b) \<Rightarrow> 1
      | (None, None) \<Rightarrow> 0)"

definition bn_less_than_words :: "u64 list \<Rightarrow> u64 list \<Rightarrow> nat \<Rightarrow> bool" where
  "bn_less_than_words a b len = (bn_cmp_words_consttime a len b len <s 0)"

definition BN_abs_is_word :: "BIGNUM \<Rightarrow> u64 \<Rightarrow> bool" where
  "BN_abs_is_word bn w =
     (if bn_width bn = 0 then w = 0
      else fold (\<lambda>i m. m OR bn_d bn ! i) [1..<bn_width bn] (bn_d bn ! 0 XOR w) = 0)"

definition BN_cmp_word :: "BIGNUM \<Rightarrow> u64 \<Rightarrow> 32 word" where
  "BN_cmp_word a b = BN_cmp (Some a) (Some (BN_init\<lparr>bn_d := [b], bn_width := (if 0 < b then 1 else 0), bn_dmax := 1, bn_static := True\<rparr>))"

definition BN_is_one :: "BIGNUM \<Rightarrow> bool" where
  "BN_is_one bn = (\<not> bn_neg bn \<and> BN_abs_is_word bn 1)"

definition BN_is_word :: "BIGNUM \<Rightarrow> u64 \<Rightarrow> bool" where
  "BN_is_word bn w = (BN_abs_is_word bn w \<and> (w = 0 \<or> \<not> bn_neg bn))"

definition BN_is_odd :: "BIGNUM \<Rightarrow> bool" where
  "BN_is_odd bn = (0 < bn_width bn \<and> bn_d bn ! 0 AND 1 = 1)"

definition BN_is_pow2 :: "BIGNUM \<Rightarrow> bool" where
  "BN_is_pow2 bn =
     (let width = bn_minimal_width bn
      in if width = 0 \<or> bn_neg bn then False
         else if \<not> list_all (\<lambda>i. bn_d bn ! i = 0) [0..<width - 1] then False
         else 0 = bn_d bn ! (width - 1) AND (bn_d bn ! (width - 1) - 1))"

definition BN_equal_consttime :: "BIGNUM \<Rightarrow> BIGNUM \<Rightarrow> bool" where
  "BN_equal_consttime a b =
     (let mask = fold (\<lambda>i m. m OR bn_d b ! i) [bn_width a..<bn_width b] 0;
          mask = fold (\<lambda>i m. m OR bn_d a ! i) [bn_width b..<bn_width a] mask;
          mask = fold (\<lambda>i m. m OR (bn_d a ! i XOR bn_d b ! i)) [0..<(if bn_width a < bn_width b then bn_width a else bn_width b)] mask;
          mask = mask OR of_bool (bn_neg a \<noteq> bn_neg b)
      in mask = 0)"

definition BN_get_word :: "BIGNUM \<Rightarrow> u64" where
  "BN_get_word bn = (case bn_minimal_width bn of 0 \<Rightarrow> 0 | Suc 0 \<Rightarrow> bn_d bn ! 0 | _ \<Rightarrow> NOT 0)"

definition BN_get_u64 :: "BIGNUM \<Rightarrow> u64 option" where
  "BN_get_u64 bn = (case bn_minimal_width bn of 0 \<Rightarrow> Some 0 | Suc 0 \<Rightarrow> Some (bn_d bn ! 0) | _ \<Rightarrow> None)"

section \<open>What a number is\<close>

text \<open>
  A well-formed number has a block of \<open>bn_dmax\<close> words, as many as \<open>bn_wexpand\<close> allows at most, so that
  the sums and products of the C code stay far from the largest \<^verbatim>\<open>int\<close>.
\<close>

definition BN_MAX_WORDS :: nat where "BN_MAX_WORDS = INT_MAX div (4 * 64)"

definition bn_ok :: "BIGNUM \<Rightarrow> bool" where
  "bn_ok bn \<longleftrightarrow> length (bn_d bn) = bn_dmax bn \<and> bn_width bn \<le> bn_dmax bn \<and> bn_dmax bn \<le> BN_MAX_WORDS"

definition bn_words :: "BIGNUM \<Rightarrow> u64 list" where
  "bn_words bn = take (bn_width bn) (bn_d bn)"

definition bn_abs :: "BIGNUM \<Rightarrow> nat" where
  "bn_abs bn = words_val (bn_words bn)"

definition bn_val :: "BIGNUM \<Rightarrow> int" where
  "bn_val bn = (if bn_neg bn then - int (bn_abs bn) else int (bn_abs bn))"

lemma BN_MAX_WORDS_val: "BN_MAX_WORDS = 8388607"
  by (simp add: BN_MAX_WORDS_def INT_MAX_def)

lemma bn_ok_width: "bn_ok bn \<Longrightarrow> bn_width bn \<le> length (bn_d bn)"
  by (simp add: bn_ok_def)

lemma length_bn_words [simp]: "bn_ok bn \<Longrightarrow> length (bn_words bn) = bn_width bn"
  by (simp add: bn_words_def bn_ok_def)

lemma bn_words_nth [simp]: "i < bn_width bn \<Longrightarrow> bn_words bn ! i = bn_d bn ! i"
  by (simp add: bn_words_def)

lemma bn_abs_less: "bn_ok bn \<Longrightarrow> bn_abs bn < BN_BASE ^ bn_width bn"
  unfolding bn_abs_def by (rule words_val_less_exp) simp

lemma length_words_of_bytes: "length (words_of_bytes bs) = length bs div 8"
proof (induction bs rule: words_of_bytes.induct)
  case (1 bs)
  show ?case
  proof (cases "length bs < 8")
    case False
    then have "length bs div 8 = Suc ((length bs - 8) div 8)" by (simp add: le_div_geq)
    with False 1 show ?thesis by (simp add: words_of_bytes.simps [of bs])
  qed (simp add: words_of_bytes.simps)
qed

section \<open>Growing\<close>

lemma bn_wexpand_ok:
  assumes "malloc_spec M" and "bn_ok bn" and "bn_wexpand M bn n = (True, bn')"
  shows "bn_ok bn'" and "n \<le> bn_dmax bn'" and "bn_words bn' = bn_words bn" and "bn_width bn' = bn_width bn" and "bn_neg bn' = bn_neg bn"
    and "bn_dmax bn \<le> bn_dmax bn'" and "bn_static bn' = bn_static bn" and "bn_malloced bn' = bn_malloced bn"
proof -
  have "bn_ok bn' \<and> n \<le> bn_dmax bn' \<and> bn_words bn' = bn_words bn \<and> bn_width bn' = bn_width bn \<and> bn_neg bn' = bn_neg bn
      \<and> bn_dmax bn \<le> bn_dmax bn' \<and> bn_static bn' = bn_static bn \<and> bn_malloced bn' = bn_malloced bn"
  proof (cases "n \<le> bn_dmax bn")
    case True
    with assms(2,3) show ?thesis by (simp add: bn_wexpand_def)
  next
    case False
    then have n: "n \<le> BN_MAX_WORDS" and "\<exists>a. OPENSSL_malloc M (size_mul 8 n) = Some a"
      using assms(3) by (auto simp: bn_wexpand_def BN_MAX_WORDS_def split: if_splits option.splits)
    then obtain a where a: "OPENSSL_malloc M (8 * n) = Some a" by (auto simp: BN_MAX_WORDS_val size_mul_small)
    then have "length a = 8 * n" using OPENSSL_malloc_length [OF assms(1)] n by (simp add: BN_MAX_WORDS_val)
    then have l: "length (words_of_bytes a) = n" by (simp add: length_words_of_bytes)
    have b: "bn' = bn\<lparr>bn_d := blit (words_of_bytes a) 0 (bn_words bn), bn_dmax := n\<rparr>"
      using False assms(3) n a by (simp add: bn_wexpand_def BN_MAX_WORDS_val INT_MAX_def size_mul_small bn_words_def split: if_splits)
    have w: "bn_width bn < n" "length (bn_words bn) = bn_width bn" using False assms(2) by (simp_all add: bn_ok_def bn_words_def)
    then show ?thesis using l n False assms(2)
      by (simp add: b bn_ok_def) (simp add: bn_words_def blit_def min_def)
  qed
  then show "bn_ok bn'" and "n \<le> bn_dmax bn'" and "bn_words bn' = bn_words bn" and "bn_width bn' = bn_width bn" and "bn_neg bn' = bn_neg bn"
    and "bn_dmax bn \<le> bn_dmax bn'" and "bn_static bn' = bn_static bn" and "bn_malloced bn' = bn_malloced bn" by blast+
qed

lemma bn_wexpand_fails: "bn_wexpand M bn n = (False, bn') \<Longrightarrow> bn' = bn"
  by (auto simp: bn_wexpand_def split: if_splits option.splits)

text \<open>Growing succeeds for sizes below the limit, unless the words are constants of the program.\<close>

lemma bn_wexpand_total:
  assumes "malloc_total M" and "n \<le> BN_MAX_WORDS" and "\<not> bn_static bn \<or> n \<le> bn_dmax bn"
  shows "\<exists>bn'. bn_wexpand M bn n = (True, bn')"
proof -
  have "\<exists>a. OPENSSL_malloc M (8 * n) = Some a"
    using assms(1,2) by (intro OPENSSL_malloc_total) (simp_all add: BN_MAX_WORDS_val)
  then show ?thesis using assms(2,3)
    by (auto simp: bn_wexpand_def BN_MAX_WORDS_val INT_MAX_def size_mul_small)
qed

text \<open>Writing the first words of a number.\<close>

definition bn_write :: "BIGNUM \<Rightarrow> u64 list \<Rightarrow> bool \<Rightarrow> BIGNUM" where
  "bn_write bn ws neg = bn\<lparr>bn_d := blit (bn_d bn) 0 ws, bn_width := length ws, bn_neg := neg\<rparr>"

lemma bn_write_ok:
  assumes "bn_ok bn" and "length ws \<le> bn_dmax bn"
  shows "bn_ok (bn_write bn ws neg)" and "bn_words (bn_write bn ws neg) = ws" and "bn_neg (bn_write bn ws neg) = neg"
    and "bn_width (bn_write bn ws neg) = length ws" and "bn_dmax (bn_write bn ws neg) = bn_dmax bn"
  using assms by (simp_all add: bn_write_def bn_ok_def bn_words_def blit_def)

section \<open>Zero words\<close>

lemma fold_or_zero: "fold (\<lambda>i m. m OR f i) is (m :: u64) = 0 \<longleftrightarrow> m = 0 \<and> (\<forall>i \<in> set is. f i = 0)"
proof (induction "is" arbitrary: m)
  case (Cons i "is")
  have "m OR f i = 0 \<longleftrightarrow> m = 0 \<and> f i = 0" by (metis or_eq_0_iff)
  with Cons show ?case by auto
qed simp

lemma words_val_zero: "words_val ws = 0 \<longleftrightarrow> (\<forall>w \<in> set ws. w = 0)"
  by (induction ws) (auto simp: unat_eq_0)

lemma words_val_drop_zero: "words_val (drop n ws) = 0 \<longleftrightarrow> (\<forall>i \<in> {n..<length ws}. ws ! i = 0)"
proof -
  have "set (drop n ws) = (!) ws ` {n..<length ws}"
  proof (cases "n \<le> length ws")
    case True
    have "set (drop n ws) = (\<lambda>i. ws ! (n + i)) ` {0..<length ws - n}"
      using True by (auto simp: set_conv_nth image_def)
    also have "\<dots> = (!) ws ` ((+) n ` {0..<length ws - n})" by (simp only: image_image)
    also have "(+) n ` {0..<length ws - n} = {n..<length ws}" using True by simp
    finally show ?thesis .
  qed simp
  then show ?thesis unfolding words_val_zero by simp
qed

lemma bn_fits_in_words_iff:
  assumes "bn_ok bn"
  shows "bn_fits_in_words bn n \<longleftrightarrow> bn_abs bn < BN_BASE ^ n"
proof (cases "n < bn_width bn")
  case True
  have f: "bn_fits_in_words bn n \<longleftrightarrow> words_val (drop n (bn_words bn)) = 0"
    using assms unfolding bn_fits_in_words_def fold_or_zero words_val_drop_zero by simp
  have s: "bn_abs bn = words_val (take n (bn_words bn)) + BN_BASE ^ n * words_val (drop n (bn_words bn))"
    unfolding bn_abs_def by (rule words_val_split) (use True assms in simp)
  have "words_val (take n (bn_words bn)) < BN_BASE ^ n" by (rule words_val_less_exp) (use True assms in simp)
  then show ?thesis unfolding f s by (cases "words_val (drop n (bn_words bn))") auto
next
  case False
  have "bn_abs bn < BN_BASE ^ n"
    by (rule less_le_trans [OF bn_abs_less [OF assms]]) (use False in \<open>simp add: power_increasing\<close>)
  with False show ?thesis by (simp add: bn_fits_in_words_def)
qed

lemma BN_is_zero_iff: "bn_ok bn \<Longrightarrow> BN_is_zero bn \<longleftrightarrow> bn_val bn = 0"
  by (simp add: BN_is_zero_def bn_fits_in_words_iff bn_val_def)

section \<open>Minimal width and bits\<close>

lemma minimal_width_loop_le: "minimal_width_loop d n \<le> n"
  by (induction n) auto

lemma minimal_width_loop_zero: "i < n \<Longrightarrow> minimal_width_loop d n \<le> i \<Longrightarrow> d ! i = 0"
  by (induction n) (auto simp: less_Suc_eq split: if_splits)

lemma minimal_width_loop_top: "0 < minimal_width_loop d n \<Longrightarrow> d ! (minimal_width_loop d n - 1) \<noteq> 0"
  by (induction n) auto

lemma bn_set_minimal_width_ok:
  assumes "bn_ok bn"
  shows "bn_ok (bn_set_minimal_width bn)" and "bn_abs (bn_set_minimal_width bn) = bn_abs bn"
    and "bn_val (bn_set_minimal_width bn) = bn_val bn"
    and "bn_neg (bn_set_minimal_width bn) \<longleftrightarrow> bn_val bn < 0"
    and "bn_dmax (bn_set_minimal_width bn) = bn_dmax bn"
proof -
  let ?w = "bn_minimal_width bn" and ?m = "bn_set_minimal_width bn"
  have w: "?w \<le> bn_width bn" by (simp add: bn_minimal_width_def minimal_width_loop_le)
  have m: "bn_d ?m = bn_d bn" "bn_width ?m = ?w" "bn_dmax ?m = bn_dmax bn" "bn_neg ?m = (bn_neg bn \<and> ?w \<noteq> 0)"
    by (simp_all add: bn_set_minimal_width_def Let_def)
  show "bn_ok ?m" using assms w by (simp add: bn_ok_def m)
  show "bn_dmax ?m = bn_dmax bn" by (rule m)
  have z: "words_val (drop ?w (bn_words bn)) = 0"
    unfolding words_val_drop_zero using assms
    by (auto simp: bn_minimal_width_def intro: minimal_width_loop_zero)
  have t: "bn_words ?m = take ?w (bn_words bn)" using w by (simp add: bn_words_def m min_def)
  have "bn_abs bn = words_val (take ?w (bn_words bn)) + BN_BASE ^ ?w * words_val (drop ?w (bn_words bn))"
    unfolding bn_abs_def by (rule words_val_split) (use w assms in simp)
  then show a: "bn_abs ?m = bn_abs bn" by (simp add: z t bn_abs_def)
  have w0: "bn_abs bn = 0" if "?w = 0" using a that by (simp add: t bn_abs_def)
  have w1: "bn_abs bn \<noteq> 0" if "?w \<noteq> 0"
  proof -
    have "bn_d bn ! (?w - 1) \<noteq> 0" using that unfolding bn_minimal_width_def by (intro minimal_width_loop_top) simp
    moreover have "bn_d bn ! (?w - 1) \<in> set (bn_words bn)"
      using that w assms by (metis bn_words_nth diff_less le_trans length_bn_words less_le_trans less_one not_gr0 nth_mem)
    ultimately show ?thesis unfolding bn_abs_def words_val_zero by blast
  qed
  have "?w = 0 \<longleftrightarrow> bn_abs bn = 0" using w0 w1 by blast
  then show "bn_val ?m = bn_val bn" and "bn_neg ?m \<longleftrightarrow> bn_val bn < 0"
    by (simp_all add: bn_val_def a m(4))
qed

text \<open>\<open>n\<close> is the number of bits of \<open>v\<close>.\<close>

definition bit_count :: "nat \<Rightarrow> nat \<Rightarrow> bool" where
  "bit_count v n \<longleftrightarrow> v < 2 ^ n \<and> (n \<noteq> 0 \<longrightarrow> 2 ^ (n - 1) \<le> v)"

lemma num_bits_step_val:
  assumes "0 < s" and "s < 64"
  shows "num_bits_step s (bits, l) = (if drop_bit s l = 0 then (bits, l) else (bits + s, drop_bit s l))"
proof -
  let ?x = "drop_bit s l"
  show ?thesis
  proof (cases "?x = 0")
    case True
    then show ?thesis by (simp add: num_bits_step_def)
  next
    case False
    have "unat l < 2 ^ 64" using unsigned_less [of l, where ?'a = nat] by simp
    moreover have "unat l div 2 ^ s \<le> unat l div 2 ^ 1"
      using assms(1) by (intro div_le_mono2 power_increasing) simp_all
    ultimately have x: "unat ?x < 2 ^ 63" unfolding unat_drop_bit by simp
    have "2 ^ 63 \<le> unat (- ?x)"
      using x False unat_diff_base [of 0 ?x] by (simp add: unat_eq_0 BN_BASE_def)
    then have "bit (- ?x) 63" by (simp add: bit_top)
    then have "0 - drop_bit 63 (- ?x) = (- 1 :: u64)"
      using msb_w [of "- ?x"] by (simp add: constant_time_msb_w_def)
    moreover have "unat (of_nat s :: u64) = s" using assms(2) by (simp add: unat_of_nat)
    moreover have "l XOR (?x XOR l) = ?x" by (simp add: xor.left_commute [of l])
    ultimately show ?thesis using False by (simp add: num_bits_step_def Let_def)
  qed
qed

text \<open>What is left of a number that is not zero after shifting out all but \<open>bits\<close> of its counted bits.\<close>

definition bits_left :: "u64 \<Rightarrow> nat \<Rightarrow> nat \<times> u64 \<Rightarrow> bool" where
  "bits_left v t bl \<longleftrightarrow> (case bl of (bits, l) \<Rightarrow> 0 < bits \<and> l = drop_bit (bits - 1) v \<and> l \<noteq> 0 \<and> unat l < 2 ^ t)"

lemma num_bits_step_left:
  assumes "bits_left v (2 * s) bl" and "0 < s" and "s < 64"
  shows "bits_left v s (num_bits_step s bl)"
proof -
  obtain bits l where bl: "bl = (bits, l)" by fastforce
  have i: "0 < bits" "l = drop_bit (bits - 1) v" "l \<noteq> 0" "unat l < 2 ^ (2 * s)" using assms(1) by (auto simp: bits_left_def bl)
  have "unat (drop_bit s l) < 2 ^ s"
    using i(4) unfolding unat_drop_bit mult_2 power_add by (rule less_mult_imp_div_less)
  moreover have "drop_bit s l = drop_bit (bits + s - 1) v" using i(1) by (simp add: i(2) drop_bit_drop_bit add.commute)
  moreover have "unat l < 2 ^ s" if "drop_bit s l = 0" using that by (simp add: drop_bit_zero)
  ultimately show ?thesis using i assms(2,3) by (simp add: bl num_bits_step_val bits_left_def)
qed

lemma BN_num_bits_word_val: "bit_count (unat l) (BN_num_bits_word l)"
proof (cases "l = 0")
  case True
  then show ?thesis by (simp add: BN_num_bits_word_def bit_count_def num_bits_step_val)
next
  case False
  obtain bits r where b: "fold num_bits_step [32, 16, 8, 4, 2, 1] (1, l) = (bits, r)" by fastforce
  have "unat l < 2 ^ 64" using unsigned_less [of l, where ?'a = nat] by simp
  with False have "bits_left l (2 * 32) (1, l)" by (simp add: bits_left_def)
  from num_bits_step_left [OF this]
  have "bits_left l (2 * 16) (num_bits_step 32 (1, l))" by simp
  from num_bits_step_left [OF this]
  have "bits_left l (2 * 8) (num_bits_step 16 (num_bits_step 32 (1, l)))" by simp
  from num_bits_step_left [OF this]
  have "bits_left l (2 * 4) (num_bits_step 8 (num_bits_step 16 (num_bits_step 32 (1, l))))" by simp
  from num_bits_step_left [OF this]
  have "bits_left l (2 * 2) (num_bits_step 4 (num_bits_step 8 (num_bits_step 16 (num_bits_step 32 (1, l)))))" by simp
  from num_bits_step_left [OF this]
  have "bits_left l (2 * 1) (num_bits_step 2 (num_bits_step 4 (num_bits_step 8 (num_bits_step 16 (num_bits_step 32 (1, l))))))" by simp
  from num_bits_step_left [OF this]
  have "bits_left l 1 (bits, r)" using b by simp
  then have i: "0 < bits" "r = drop_bit (bits - 1) l" "r \<noteq> 0" "unat r < 2" by (auto simp: bits_left_def)
  then have "unat l div 2 ^ (bits - 1) = 1"
    by (metis One_nat_def Suc_1 less_2_cases unat_drop_bit unat_eq_0)
  then have "2 ^ (bits - 1) \<le> unat l" "unat l < 2 * 2 ^ (bits - 1)"
    by (metis div_less not_le zero_neq_one) (metis \<open>unat l div 2 ^ (bits - 1) = 1\<close> dividend_less_times_div mult.commute mult_2 mult.right_neutral zero_less_numeral zero_less_power)
  moreover have "2 * 2 ^ (bits - 1) = (2 :: nat) ^ bits" using i(1) by (simp flip: power_Suc)
  ultimately show ?thesis using False b i(1) by (simp add: BN_num_bits_word_def bit_count_def)
qed

text \<open>The top word of the minimal width decides.\<close>

lemma BN_num_bits_val:
  assumes "bn_ok bn"
  shows "bit_count (bn_abs bn) (BN_num_bits bn)"
proof -
  let ?w = "bn_minimal_width bn"
  have w: "?w \<le> bn_width bn" by (simp add: bn_minimal_width_def minimal_width_loop_le)
  have a: "bn_abs bn = words_val (take ?w (bn_words bn))"
    using bn_set_minimal_width_ok(2) [OF assms] w
    by (auto simp: bn_abs_def bn_words_def bn_set_minimal_width_def Let_def min_def split: if_splits)
  show ?thesis
  proof (cases ?w)
    case 0
    then show ?thesis by (simp add: a BN_num_bits_def bit_count_def)
  next
    case (Suc k)
    let ?t = "bn_d bn ! k"
    have "take ?w (bn_words bn) = take k (bn_words bn) @ [?t]"
      using Suc w assms by (simp add: take_Suc_conv_app_nth)
    then have v: "bn_abs bn = words_val (take k (bn_words bn)) + BN_BASE ^ k * unat ?t"
      using Suc w assms by (simp add: a words_val_append)
    have k: "words_val (take k (bn_words bn)) < BN_BASE ^ k" by (rule words_val_less_exp) (use Suc w assms in simp)
    have "?t \<noteq> 0" using minimal_width_loop_top [of "bn_d bn" "bn_width bn"] Suc by (simp add: bn_minimal_width_def)
    let ?n = "BN_num_bits_word ?t"
    have n: "unat ?t < 2 ^ ?n" "2 ^ (?n - 1) \<le> unat ?t" "?n \<noteq> 0"
      using BN_num_bits_word_val [of ?t] \<open>?t \<noteq> 0\<close> by (auto simp: bit_count_def unat_eq_0 intro: ccontr)
    have B: "BN_BASE ^ k = 2 ^ (k * 64)" by (simp only: BN_BASE_def power_mult [symmetric] mult.commute)
    have "bn_abs bn < BN_BASE ^ k * (unat ?t + 1)" using v k by (simp add: algebra_simps)
    also have "\<dots> \<le> BN_BASE ^ k * 2 ^ ?n" using n(1) by (intro mult_left_mono) simp_all
    also have "\<dots> = 2 ^ (k * 64 + ?n)" by (simp add: B power_add)
    finally have u: "bn_abs bn < 2 ^ (k * 64 + ?n)" .
    have "2 ^ (k * 64 + ?n - 1) = BN_BASE ^ k * 2 ^ (?n - 1)" using n(3) by (simp add: B flip: power_add)
    also have "\<dots> \<le> BN_BASE ^ k * unat ?t" using n(2) by (intro mult_left_mono) simp_all
    also have "\<dots> \<le> bn_abs bn" using v by simp
    finally show ?thesis using u Suc by (simp add: BN_num_bits_def bit_count_def)
  qed
qed

section \<open>Comparisons compare\<close>

lemma select_int: "constant_time_select_int CONSTTIME_TRUE_W a b = a" "constant_time_select_int CONSTTIME_FALSE_W a b = b"
proof -
  have "ucast (scast (x :: 32 word) :: u64) = x" for x by (rule bit_word_eqI) (simp add: bit_simps)
  then show "constant_time_select_int CONSTTIME_TRUE_W a b = a" "constant_time_select_int CONSTTIME_FALSE_W a b = b"
    by (simp_all add: constant_time_select_int_def select_w)
qed

definition cmp_result :: "nat \<Rightarrow> nat \<Rightarrow> 32 word" where
  "cmp_result x y = (if x < y then - 1 else if x = y then 0 else 1)"

lemma cmp_common:
  assumes "m \<le> length a" and "m \<le> length b"
  shows "fold (\<lambda>i ret. let eq = constant_time_eq_w (a ! i) (b ! i); lt = constant_time_lt_w (a ! i) (b ! i)
           in constant_time_select_int eq ret (constant_time_select_int lt (- 1) 1)) [0..<m] 0
    = cmp_result (words_val (take m a)) (words_val (take m b))"
  using assms
proof (induction m)
  case (Suc m)
  let ?x = "words_val (take m a)" and ?y = "words_val (take m b)"
  have x: "words_val (take (Suc m) a) = ?x + BN_BASE ^ m * unat (a ! m)" "words_val (take (Suc m) b) = ?y + BN_BASE ^ m * unat (b ! m)"
    using Suc.prems by (simp_all add: take_Suc_conv_app_nth words_val_append)
  have l: "?x < BN_BASE ^ m" "?y < BN_BASE ^ m" by (rule words_val_less_exp; use Suc.prems in simp)+
  have lt: "p + BN_BASE ^ m * c < q + BN_BASE ^ m * d" if "p < BN_BASE ^ m" "c < d" for p q c d
  proof -
    have "p + BN_BASE ^ m * c < BN_BASE ^ m * Suc c" using that(1) by simp
    also have "\<dots> \<le> BN_BASE ^ m * d" using that(2) by (intro mult_left_mono) simp_all
    finally show ?thesis by simp
  qed
  consider "a ! m = b ! m" | "unat (a ! m) < unat (b ! m)" | "unat (b ! m) < unat (a ! m)"
    by (metis nat_neq_iff word_unat_eq_iff)
  then show ?case
  proof cases
    case 1
    then show ?thesis using Suc by (simp add: x eq_w select_int) (simp add: cmp_result_def)
  next
    case 2
    then have "a ! m \<noteq> b ! m" "a ! m < b ! m" by (auto simp: word_less_nat_alt)
    with lt [OF l(1) 2, of ?y] show ?thesis by (simp add: x eq_w lt_w select_int cmp_result_def)
  next
    case 3
    then have "a ! m \<noteq> b ! m" "\<not> a ! m < b ! m" by (auto simp: word_less_nat_alt)
    with lt [OF l(2) 3, of ?x] show ?thesis by (simp add: x eq_w lt_w select_int cmp_result_def)
  qed
qed (simp add: cmp_result_def)

lemma cmp_longer:
  assumes "n \<le> length a"
  shows "words_val a = words_val (take n a) + BN_BASE ^ n * words_val (drop n a)"
    and "words_val (drop n a) \<noteq> 0 \<Longrightarrow> words_val b < BN_BASE ^ n \<Longrightarrow> words_val b < words_val a"
proof -
  show s: "words_val a = words_val (take n a) + BN_BASE ^ n * words_val (drop n a)" using assms by (rule words_val_split)
  assume d: "words_val (drop n a) \<noteq> 0" and b: "words_val b < BN_BASE ^ n"
  have "BN_BASE ^ n \<le> BN_BASE ^ n * words_val (drop n a)" using d by simp
  with b s show "words_val b < words_val a" by linarith
qed

lemma bn_cmp_words_val:
  "bn_cmp_words_consttime a (length a) b (length b) = cmp_result (words_val a) (words_val b)"
proof -
  have z: "fold (\<lambda>i m. m OR c ! i) [n..<length c] 0 = 0 \<longleftrightarrow> words_val (drop n c) = 0" for n and c :: "u64 list"
    unfolding fold_or_zero words_val_drop_zero by simp
  have longer: "cmp_result (words_val b) (words_val a) = (if words_val (drop n a) = 0 then cmp_result (words_val b) (words_val (take n a)) else - 1)"
    "cmp_result (words_val a) (words_val b) = (if words_val (drop n a) = 0 then cmp_result (words_val (take n a)) (words_val b) else 1)"
    if "n = length b" "n \<le> length a" for n and a b :: "u64 list"
  proof -
    have "words_val b < BN_BASE ^ n" using that(1) by simp
    with cmp_longer(1) [OF that(2)] cmp_longer(2) [OF that(2), of b] show
      "cmp_result (words_val b) (words_val a) = (if words_val (drop n a) = 0 then cmp_result (words_val b) (words_val (take n a)) else - 1)"
      "cmp_result (words_val a) (words_val b) = (if words_val (drop n a) = 0 then cmp_result (words_val (take n a)) (words_val b) else 1)"
      by (cases "words_val (drop n a) = 0"; fastforce simp: cmp_result_def)+
  qed
  consider "length a < length b" | "length b < length a" | "length a = length b" by linarith
  then show ?thesis
  proof cases
    case 1
    then show ?thesis using cmp_common [of "length a" a b] longer(1) [of "length a" a b] 1
      by (simp add: bn_cmp_words_consttime_def Let_def is_zero_w z select_int split: if_split)
  next
    case 2
    then show ?thesis using cmp_common [of "length b" a b] longer(2) [of "length b" b a] 2
      by (simp add: bn_cmp_words_consttime_def Let_def is_zero_w z select_int split: if_split)
  next
    case 3
    then show ?thesis using cmp_common [of "length a" a b] by (simp add: bn_cmp_words_consttime_def)
  qed
qed

lemma bn_cmp_words_take:
  assumes "n \<le> length a" and "m \<le> length b"
  shows "bn_cmp_words_consttime a n b m = cmp_result (words_val (take n a)) (words_val (take m b))"
proof -
  have "bn_cmp_words_consttime a n b m = bn_cmp_words_consttime (take n a) (length (take n a)) (take m b) (length (take m b))"
    using assms unfolding bn_cmp_words_consttime_def Let_def
    by (simp add: min_absorb2 cong: if_cong) (auto intro!: arg_cong2 [where f = "\<lambda>m r. constant_time_select_int (constant_time_is_zero_w m) r _"] fold_cong)
  then show ?thesis by (simp only: bn_cmp_words_val)
qed

lemma BN_ucmp_val: "bn_ok a \<Longrightarrow> bn_ok b \<Longrightarrow> BN_ucmp a b = cmp_result (bn_abs a) (bn_abs b)"
  by (simp add: BN_ucmp_def bn_cmp_words_take bn_ok_width bn_abs_def bn_words_def)

lemma sint_cmp_result: "sint (cmp_result x y) = sgn (int x - int y)"
  by (simp add: cmp_result_def sgn_if)

lemma cmp_result_neg: "cmp_result x y <s 0 \<longleftrightarrow> x < y"
  by (simp add: word_sless_alt cmp_result_def)

text \<open>A zero has no sign.\<close>

definition bn_signed :: "BIGNUM \<Rightarrow> bool" where
  "bn_signed bn \<longleftrightarrow> (bn_neg bn \<longrightarrow> bn_abs bn \<noteq> 0)"

text \<open>The number of a list of words, for examples.\<close>

definition bn_of_words :: "bool \<Rightarrow> u64 list \<Rightarrow> BIGNUM" where
  "bn_of_words neg ws = \<lparr>bn_d = ws, bn_width = length ws, bn_dmax = length ws, bn_neg = neg, bn_malloced = False, bn_static = False\<rparr>"

lemma bn_of_words [simp]:
  "bn_words (bn_of_words neg ws) = ws" "bn_width (bn_of_words neg ws) = length ws" "bn_neg (bn_of_words neg ws) = neg"
  "bn_abs (bn_of_words neg ws) = words_val ws" "\<not> bn_static (bn_of_words neg ws)"
  "bn_val (bn_of_words neg ws) = (if neg then - int (words_val ws) else int (words_val ws))"
  "bn_ok (bn_of_words neg ws) \<longleftrightarrow> length ws \<le> BN_MAX_WORDS"
  by (simp_all add: bn_of_words_def bn_words_def bn_abs_def bn_val_def bn_ok_def)

lemma BN_init_ok [simp]: "bn_ok BN_init" "\<not> bn_static BN_init"
  by (simp_all add: bn_ok_def BN_init_def)

lemma bn_set_minimal_width_signed: "bn_ok bn \<Longrightarrow> bn_signed (bn_set_minimal_width bn)"
  using bn_set_minimal_width_ok [of bn] by (auto simp: bn_signed_def bn_val_def)

lemma BN_cmp_val:
  assumes "bn_ok a" "bn_ok b" "bn_signed a" "bn_signed b"
  shows "sint (BN_cmp (Some a) (Some b)) = sgn (bn_val a - bn_val b)"
proof (cases "bn_neg a = bn_neg b")
  case False
  then show ?thesis using assms(3,4)
    by (auto simp: BN_cmp_def bn_val_def bn_signed_def sgn_if)
next
  case True
  have "sint (- cmp_result x y) = sgn (int y - int x)" for x y by (simp add: cmp_result_def sgn_if)
  with True show ?thesis using assms(1,2)
    by (auto simp: BN_cmp_def Let_def BN_ucmp_val sint_cmp_result bn_val_def)
qed

text \<open>A word compared with a number, and the tests of single values.\<close>

lemma BN_abs_is_word_val:
  assumes "bn_ok a"
  shows "BN_abs_is_word a w \<longleftrightarrow> bn_abs a = unat w"
proof (cases "bn_width a")
  case 0
  then show ?thesis by (auto simp: BN_abs_is_word_def bn_abs_def bn_words_def unat_eq_0)
next
  case (Suc n)
  obtain x xs where x: "bn_words a = x # xs" using Suc assms length_bn_words [of a] by (cases "bn_words a") auto
  have x0: "bn_d a ! 0 = x" using bn_words_nth [of 0 a] Suc by (simp add: x)
  have "BN_abs_is_word a w \<longleftrightarrow> x = w \<and> words_val (drop 1 (bn_words a)) = 0"
  proof -
    have "x XOR w = 0 \<longleftrightarrow> x = w" by (metis xor_self_eq xor.right_neutral xor.left_commute xor.commute)
    then show ?thesis using Suc assms unfolding BN_abs_is_word_def fold_or_zero words_val_drop_zero by (simp add: x0 del: upt_Suc)
  qed
  also have "\<dots> \<longleftrightarrow> bn_abs a = unat w"
  proof
    assume "bn_abs a = unat w"
    then have e: "unat x + BN_BASE * words_val xs = unat w" by (simp add: bn_abs_def x)
    have "words_val xs = 0"
    proof (rule ccontr)
      assume "words_val xs \<noteq> 0"
      then have "BN_BASE \<le> BN_BASE * words_val xs" by simp
      with e unat_less_base [of w] show False by linarith
    qed
    with e show "x = w \<and> words_val (drop 1 (bn_words a)) = 0" by (simp add: x word_unat_eq_iff)
  qed (simp add: bn_abs_def x)
  finally show ?thesis .
qed

lemma BN_equal_consttime_val:
  assumes "bn_ok a" "bn_ok b"
  shows "BN_equal_consttime a b \<longleftrightarrow> bn_neg a = bn_neg b \<and> bn_abs a = bn_abs b"
proof -
  have xor0: "x XOR y = 0 \<longleftrightarrow> x = y" for x y :: u64 by (metis xor_self_eq xor.right_neutral xor.left_commute xor.commute)
  have or0: "m OR of_bool p = (0 :: u64) \<longleftrightarrow> m = 0 \<and> \<not> p" for m p by (metis or_eq_0_iff of_bool_eq_0_iff)
  let ?m = "if bn_width a < bn_width b then bn_width a else bn_width b"
  have "BN_equal_consttime a b \<longleftrightarrow> bn_neg a = bn_neg b \<and> (\<forall>i < ?m. bn_words a ! i = bn_words b ! i)
      \<and> words_val (drop (bn_width b) (bn_words a)) = 0 \<and> words_val (drop (bn_width a) (bn_words b)) = 0"
    using assms unfolding BN_equal_consttime_def Let_def or0 fold_or_zero words_val_drop_zero xor0 by auto
  also have "(\<forall>i < ?m. bn_words a ! i = bn_words b ! i) \<longleftrightarrow> take ?m (bn_words a) = take ?m (bn_words b)"
    using assms by (auto simp: list_eq_iff_nth_eq)
  also have "bn_neg a = bn_neg b \<and> take ?m (bn_words a) = take ?m (bn_words b)
      \<and> words_val (drop (bn_width b) (bn_words a)) = 0 \<and> words_val (drop (bn_width a) (bn_words b)) = 0
    \<longleftrightarrow> bn_neg a = bn_neg b \<and> bn_abs a = bn_abs b"
  proof -
    have l: "length (bn_words a) = bn_width a" "length (bn_words b) = bn_width b" using assms by simp_all
    have m: "?m \<le> length (bn_words a)" "?m \<le> length (bn_words b)" using l by simp_all
    have eq: "bn_abs a = bn_abs b \<longleftrightarrow> take ?m (bn_words a) = take ?m (bn_words b) \<and> words_val (drop ?m (bn_words a)) = words_val (drop ?m (bn_words b))"
    proof -
      let ?B = "BN_BASE ^ ?m"
      have lt: "words_val (take ?m (bn_words a)) < ?B" "words_val (take ?m (bn_words b)) < ?B"
        by (rule words_val_less_exp; use m in simp)+
      have s: "bn_abs a = words_val (take ?m (bn_words a)) + ?B * words_val (drop ?m (bn_words a))"
        "bn_abs b = words_val (take ?m (bn_words b)) + ?B * words_val (drop ?m (bn_words b))"
        unfolding bn_abs_def using m by (simp_all only: words_val_split)
      have d: "(p + ?B * q) mod ?B = p" "(p + ?B * q) div ?B = q" if "p < ?B" for p q
        using that by simp_all
      have "words_val (take ?m (bn_words a)) = words_val (take ?m (bn_words b)) \<longleftrightarrow> take ?m (bn_words a) = take ?m (bn_words b)"
        by (rule words_val_inject) (use m in simp)
      then show ?thesis unfolding s using d [OF lt(1)] d [OF lt(2)] by metis
    qed
    show ?thesis unfolding eq using l by (cases "bn_width a < bn_width b") (auto simp: words_val_zero)
  qed
  finally show ?thesis .
qed

end
