(* ===== verification/BnAdd.thy ===== *)
theory BnAdd
  imports BnNum
begin

text \<open>
  Sums and differences of numbers: \<^verbatim>\<open>crypto/fipsmodule/bn/add.c\<close>, and that they are those of the
  integers.
\<close>

declare of_nat_unat [simp del]

section \<open>The code\<close>

text \<open>The carry of the common words runs through the rest of the longer number, which is the loop \<open>propagate\<close>.\<close>

definition bn_uadd_consttime :: "malloc \<Rightarrow> BIGNUM \<Rightarrow> BIGNUM \<Rightarrow> BIGNUM \<Rightarrow> bool \<times> BIGNUM" where
  "bn_uadd_consttime M r a b =
     (let (a, b) = (if bn_width a < bn_width b then (b, a) else (a, b));
          mx = bn_width a; mn = bn_width b
      in case bn_wexpand M r (mx + 1) of
           (False, r) \<Rightarrow> (False, r)
         | (True, r) \<Rightarrow>
             let (s, carry) = bn_add_words (take mn (bn_d a)) (take mn (bn_d b));
                 (t, carry) = propagate (take (mx - mn) (drop mn (bn_d a))) carry
             in (True, r\<lparr>bn_width := mx + 1, bn_d := blit (bn_d r) 0 (s @ t @ [carry])\<rparr>))"

definition BN_uadd :: "malloc \<Rightarrow> BIGNUM \<Rightarrow> BIGNUM \<Rightarrow> BIGNUM \<Rightarrow> bool \<times> BIGNUM" where
  "BN_uadd M r a b =
     (case bn_uadd_consttime M r a b of (False, r) \<Rightarrow> (False, r) | (True, r) \<Rightarrow> (True, bn_set_minimal_width r))"

text \<open>The loop over the words of the longer number; the borrow is the comparison of the word with what is left of it.\<close>

definition usub_digit :: "u64 \<Rightarrow> u64 \<Rightarrow> u64 \<times> u64" where
  "usub_digit tmp borrow = (let r = tmp - borrow in (r, of_bool (tmp < r)))"

primrec usub_tail :: "u64 list \<Rightarrow> u64 \<Rightarrow> u64 list \<times> u64" where
  "usub_tail [] c = ([], c)"
| "usub_tail (a # as) c = (let (r, c) = usub_digit a c; (rs, c) = usub_tail as c in (r # rs, c))"

definition bn_usub_consttime :: "malloc \<Rightarrow> BIGNUM \<Rightarrow> BIGNUM \<Rightarrow> BIGNUM \<Rightarrow> bool \<times> BIGNUM" where
  "bn_usub_consttime M r a b =
     (if bn_width b > bn_width a \<and> \<not> bn_fits_in_words b (bn_width a) then (False, r)
      else let b_width = (if bn_width b > bn_width a then bn_width a else bn_width b)
           in case bn_wexpand M r (bn_width a) of
                (False, r) \<Rightarrow> (False, r)
              | (True, r) \<Rightarrow>
                  let (s, borrow) = bn_sub_words (take b_width (bn_d a)) (take b_width (bn_d b));
                      (t, borrow) = usub_tail (take (bn_width a - b_width) (drop b_width (bn_d a))) borrow;
                      r = r\<lparr>bn_d := blit (bn_d r) 0 (s @ t)\<rparr>
                  in if borrow \<noteq> 0 then (False, r) else (True, r\<lparr>bn_width := bn_width a, bn_neg := False\<rparr>))"

definition BN_usub :: "malloc \<Rightarrow> BIGNUM \<Rightarrow> BIGNUM \<Rightarrow> BIGNUM \<Rightarrow> bool \<times> BIGNUM" where
  "BN_usub M r a b =
     (case bn_usub_consttime M r a b of (False, r) \<Rightarrow> (False, r) | (True, r) \<Rightarrow> (True, bn_set_minimal_width r))"

definition BN_add :: "malloc \<Rightarrow> BIGNUM \<Rightarrow> BIGNUM \<Rightarrow> BIGNUM \<Rightarrow> bool \<times> BIGNUM" where
  "BN_add M r a b =
     (let a_neg = bn_neg a
      in if a_neg \<noteq> bn_neg b
         then let (a, b) = (if a_neg then (b, a) else (a, b))
              in if BN_ucmp a b <s 0
                 then case BN_usub M r b a of (False, r) \<Rightarrow> (False, r) | (True, r) \<Rightarrow> (True, r\<lparr>bn_neg := True\<rparr>)
                 else case BN_usub M r a b of (False, r) \<Rightarrow> (False, r) | (True, r) \<Rightarrow> (True, r\<lparr>bn_neg := False\<rparr>)
         else case BN_uadd M r a b of (ret, r) \<Rightarrow> (ret, r\<lparr>bn_neg := a_neg\<rparr>))"

definition BN_sub :: "malloc \<Rightarrow> BIGNUM \<Rightarrow> BIGNUM \<Rightarrow> BIGNUM \<Rightarrow> bool \<times> BIGNUM" where
  "BN_sub M r a b =
     (let (a, b, add, neg) =
            (if bn_neg a then (if bn_neg b then (b, a, False, False) else (a, b, True, True))
             else if bn_neg b then (a, b, True, False) else (a, b, False, False))
      in if add
         then case BN_uadd M r a b of (False, r) \<Rightarrow> (False, r) | (True, r) \<Rightarrow> (True, r\<lparr>bn_neg := neg\<rparr>)
         else if BN_ucmp a b <s 0
         then case BN_usub M r b a of (False, r) \<Rightarrow> (False, r) | (True, r) \<Rightarrow> (True, r\<lparr>bn_neg := True\<rparr>)
         else case BN_usub M r a b of (False, r) \<Rightarrow> (False, r) | (True, r) \<Rightarrow> (True, r\<lparr>bn_neg := False\<rparr>))"

text \<open>A word is added until there is no carry, which is left when the words are used up.\<close>

primrec add_word_loop :: "u64 list \<Rightarrow> u64 \<Rightarrow> u64 list \<times> u64" where
  "add_word_loop [] w = ([], w)"
| "add_word_loop (d # ds) w =
     (if w = 0 then (d # ds, w)
      else let l = d + w; (ds, w) = add_word_loop ds (of_bool (w > l)) in (l # ds, w))"

text \<open>A word is subtracted until there is no borrow; the loop may not leave the words. \<open>i\<close> is the index of the last word written.\<close>

fun sub_word_loop :: "u64 list \<Rightarrow> u64 \<Rightarrow> (u64 list \<times> nat) option" where
  "sub_word_loop [] w = None"
| "sub_word_loop (d # ds) w =
     (if d \<ge> w then Some ((d - w) # ds, 0)
      else map_option (\<lambda>(ds, i). ((d - w) # ds, Suc i)) (sub_word_loop ds 1))"

function BN_add_word :: "malloc \<Rightarrow> BIGNUM \<Rightarrow> u64 \<Rightarrow> (bool \<times> BIGNUM) option"
  and BN_sub_word :: "malloc \<Rightarrow> BIGNUM \<Rightarrow> u64 \<Rightarrow> (bool \<times> BIGNUM) option" where
  "BN_add_word M a w =
     (if w = 0 then Some (True, a)
      else if BN_is_zero a then Some (BN_set_word M a w)
      else if bn_neg a
      then map_option (\<lambda>(i, a). (i, if \<not> BN_is_zero a then a\<lparr>bn_neg := \<not> bn_neg a\<rparr> else a)) (BN_sub_word M (a\<lparr>bn_neg := False\<rparr>) w)
      else let (ds, w) = add_word_loop (take (bn_width a) (bn_d a)) w;
               a = a\<lparr>bn_d := blit (bn_d a) 0 ds\<rparr>
           in if w \<noteq> 0
              then case bn_wexpand M a (bn_width a + 1) of
                     (False, a) \<Rightarrow> Some (False, a)
                   | (True, a) \<Rightarrow> Some (True, a\<lparr>bn_d := (bn_d a)[bn_width a := w], bn_width := bn_width a + 1\<rparr>)
              else Some (True, a))"
| "BN_sub_word M a w =
     (if w = 0 then Some (True, a)
      else if BN_is_zero a
      then case BN_set_word M a w of (i, a) \<Rightarrow> Some (i, if i then BN_set_negative a True else a)
      else if bn_neg a
      then map_option (\<lambda>(i, a). (i, a\<lparr>bn_neg := True\<rparr>)) (BN_add_word M (a\<lparr>bn_neg := False\<rparr>) w)
      else if bn_minimal_width a = 1 \<and> bn_d a ! 0 < w
      then Some (True, a\<lparr>bn_d := (bn_d a)[0 := w - bn_d a ! 0], bn_neg := True\<rparr>)
      else map_option (\<lambda>(ds, i).
             let a = a\<lparr>bn_d := blit (bn_d a) 0 ds\<rparr>
             in (True, if bn_d a ! i = 0 \<and> i = bn_width a - 1 then a\<lparr>bn_width := bn_width a - 1\<rparr> else a))
             (sub_word_loop (take (bn_width a) (bn_d a)) w))"
  by pat_completeness auto
termination
  by (relation "measure (\<lambda>x. case x of Inl (M, a, w) \<Rightarrow> of_bool (bn_neg a) | Inr (M, a, w) \<Rightarrow> of_bool (bn_neg a))") auto

declare BN_add_word.simps [simp del] BN_sub_word.simps [simp del]

section \<open>Sums and differences of absolute values\<close>

text \<open>What a function promises when it succeeds, and that it succeeds when memory does not run out.\<close>

definition returns :: "malloc \<Rightarrow> BIGNUM \<Rightarrow> nat \<Rightarrow> bool \<times> BIGNUM \<Rightarrow> (BIGNUM \<Rightarrow> bool) \<Rightarrow> bool" where
  "returns M r n res P \<longleftrightarrow> (case res of (ok, r') \<Rightarrow>
     (ok \<longrightarrow> bn_ok r' \<and> P r') \<and> (malloc_total M \<and> n \<le> BN_MAX_WORDS \<and> (\<not> bn_static r \<or> n \<le> bn_dmax r) \<longrightarrow> ok))"

lemma returns_mono: "returns M r n res P \<Longrightarrow> n \<le> m \<Longrightarrow> (\<And>r'. bn_ok r' \<Longrightarrow> P r' \<Longrightarrow> Q r') \<Longrightarrow> returns M r m res Q"
  by (auto simp: returns_def)

lemma returns_map:
  assumes "returns M r n res P" and "\<And>r'. bn_ok r' \<Longrightarrow> P r' \<Longrightarrow> bn_ok (f r') \<and> Q (f r')"
  shows "returns M r n (case res of (False, r) \<Rightarrow> (False, r) | (True, r) \<Rightarrow> (True, f r)) Q"
  using assms by (cases res) (auto simp: returns_def split: bool.split)

lemma bn_wexpand_returns:
  assumes "malloc_spec M" and "bn_ok r"
    and "\<And>r'. bn_ok r' \<Longrightarrow> n \<le> bn_dmax r' \<Longrightarrow> bn_words r' = bn_words r \<Longrightarrow> bn_width r' = bn_width r \<Longrightarrow> bn_neg r' = bn_neg r \<Longrightarrow> bn_ok (f r') \<and> P (f r')"
  shows "returns M r n (case bn_wexpand M r n of (False, r) \<Rightarrow> (False, r) | (True, r) \<Rightarrow> (True, f r)) P"
proof -
  obtain ok r' where w: "bn_wexpand M r n = (ok, r')" by fastforce
  show ?thesis
  proof (cases ok)
    case True
    with assms(3) bn_wexpand_ok [OF assms(1,2)] w show ?thesis by (auto simp: returns_def)
  next
    case False
    with bn_wexpand_total [of M n r] w show ?thesis by (auto simp: returns_def)
  qed
qed

lemma bn_write_same: "length ws = n \<Longrightarrow> r\<lparr>bn_width := n, bn_d := blit (bn_d r) 0 ws\<rparr> = bn_write r ws (bn_neg r)"
  by (cases r) (simp add: bn_write_def)

lemma bn_uadd_words:
  assumes "bn_ok a" "bn_ok b" "bn_width b \<le> bn_width a"
    and s: "bn_add_words (take (bn_width b) (bn_d a)) (take (bn_width b) (bn_d b)) = (s, c)"
    and t: "propagate (take (bn_width a - bn_width b) (drop (bn_width b) (bn_d a))) c = (t, d)"
  shows "length (s @ t @ [d]) = bn_width a + 1" and "words_val (s @ t @ [d]) = bn_abs a + bn_abs b"
proof -
  let ?n = "bn_width b" and ?m = "bn_width a"
  have l: "length (take ?n (bn_d a)) = length (take ?n (bn_d b))" "length (take ?n (bn_d b)) = ?n"
    using assms(1-3) by (simp_all add: bn_ok_def)
  note v = bn_add_words_val [OF s l(1), unfolded l(2)]
  have l2: "length (take (?m - ?n) (drop ?n (bn_d a))) = ?m - ?n" using assms(1,3) by (auto simp: bn_ok_def min_def)
  from propagate_val [OF t, unfolded l2]
  have tl: "length t = ?m - ?n" and tv: "words_val t + BN_BASE ^ (?m - ?n) * unat d = words_val (take (?m - ?n) (drop ?n (bn_d a))) + unat c" by simp_all
  show "length (s @ t @ [d]) = bn_width a + 1" using v(1) tl assms(3) by simp
  have a: "bn_abs a = words_val (take ?n (bn_d a)) + BN_BASE ^ ?n * words_val (take (?m - ?n) (drop ?n (bn_d a)))"
  proof -
    have "bn_words a = take ?n (bn_d a) @ take (?m - ?n) (drop ?n (bn_d a))"
      using assms(3) by (simp add: bn_words_def flip: take_add)
    then show ?thesis using l by (simp add: bn_abs_def words_val_append)
  qed
  have "words_val (s @ t @ [d]) = words_val s + BN_BASE ^ ?n * (words_val t + BN_BASE ^ (?m - ?n) * unat d)"
    using v(1) tl by (simp add: words_val_append)
  also have "\<dots> = words_val s + BN_BASE ^ ?n * unat c + BN_BASE ^ ?n * words_val (take (?m - ?n) (drop ?n (bn_d a)))"
    unfolding tv by (simp add: algebra_simps)
  also have "\<dots> = bn_abs a + bn_abs b" unfolding v(3) a by (simp add: bn_abs_def bn_words_def)
  finally show "words_val (s @ t @ [d]) = bn_abs a + bn_abs b" .
qed

lemma bn_uadd_consttime_val:
  assumes "malloc_spec M" "bn_ok r" "bn_ok a" "bn_ok b"
  shows "returns M r (max (bn_width a) (bn_width b) + 1) (bn_uadd_consttime M r a b)
    (\<lambda>r'. bn_abs r' = bn_abs a + bn_abs b \<and> bn_neg r' = bn_neg r \<and> bn_width r' = max (bn_width a) (bn_width b) + 1)"
proof -
  define p q where "p = (if bn_width a < bn_width b then b else a)" and "q = (if bn_width a < bn_width b then a else b)"
  have pq: "bn_ok p" "bn_ok q" "bn_width q \<le> bn_width p" "bn_width p = max (bn_width a) (bn_width b)" "bn_abs p + bn_abs q = bn_abs a + bn_abs b"
    using assms(3,4) by (auto simp: p_def q_def)
  obtain s c where s: "bn_add_words (take (bn_width q) (bn_d p)) (take (bn_width q) (bn_d q)) = (s, c)" by fastforce
  obtain t d where t: "propagate (take (bn_width p - bn_width q) (drop (bn_width q) (bn_d p))) c = (t, d)" by fastforce
  note v = bn_uadd_words [OF pq(1-3) s t]
  have e: "bn_uadd_consttime M r a b = (case bn_wexpand M r (bn_width p + 1) of (False, r) \<Rightarrow> (False, r)
      | (True, r) \<Rightarrow> (True, bn_write r (s @ t @ [d]) (bn_neg r)))"
  proof -
    have "(if bn_width a < bn_width b then (b, a) else (a, b)) = (p, q)" by (simp add: p_def q_def)
    then show ?thesis using v(1)
      by (auto simp: bn_uadd_consttime_def Let_def s t bn_write_same simp del: append.simps append_assoc split: prod.split bool.split)
  qed
  show ?thesis unfolding e pq(4) [symmetric]
    using v(1) v(2) [unfolded pq(5)] bn_write_ok [where ws = "s @ t @ [d]"]
    by (intro bn_wexpand_returns [OF assms(1,2)]) (simp add: bn_abs_def)
qed

text \<open>\<^verbatim>\<open>BN_uadd\<close> leaves the sign of the result as it was.\<close>

lemma BN_uadd_val:
  assumes "malloc_spec M" "bn_ok r" "bn_ok a" "bn_ok b"
  shows "returns M r (max (bn_width a) (bn_width b) + 1) (BN_uadd M r a b)
    (\<lambda>r'. bn_abs r' = bn_abs a + bn_abs b \<and> (bn_neg r' \<longleftrightarrow> bn_neg r \<and> bn_abs r' \<noteq> 0))"
  unfolding BN_uadd_def
proof (rule returns_map [OF bn_uadd_consttime_val [OF assms]])
  fix r' assume "bn_ok r'" "bn_abs r' = bn_abs a + bn_abs b \<and> bn_neg r' = bn_neg r \<and> bn_width r' = max (bn_width a) (bn_width b) + 1"
  then show "bn_ok (bn_set_minimal_width r') \<and> bn_abs (bn_set_minimal_width r') = bn_abs a + bn_abs b \<and>
      (bn_neg (bn_set_minimal_width r') \<longleftrightarrow> bn_neg r \<and> bn_abs (bn_set_minimal_width r') \<noteq> 0)"
    using bn_set_minimal_width_ok [of r'] by (auto simp: bn_val_def)
qed

lemma usub_digit_val:
  assumes "unat c \<le> 1"
  shows "unat (snd (usub_digit t c)) \<le> 1 \<and>
    int (unat (fst (usub_digit t c))) - int BN_BASE * int (unat (snd (usub_digit t c))) = int (unat t) - int (unat c)"
proof (cases "c = 0")
  case True
  then show ?thesis by (simp add: usub_digit_def Let_def)
next
  case False
  then have c: "c = 1" using small_word [OF assms] by blast
  have d: "int (unat (t - 1)) = int (unat t) - 1 + (if t = 0 then int BN_BASE else 0)"
    using unat_diff_base [of t 1] by (auto simp: unat_eq_0 Suc_le_eq)
  have "t < t - 1 \<longleftrightarrow> t = 0"
  proof (cases "t = 0")
    case True
    then have "int (unat (t - 1)) = int BN_BASE - 1" using d by simp
    then have "0 < unat (t - 1)" using BN_BASE_pos(3) by linarith
    with True show ?thesis by (simp add: word_less_nat_alt)
  next
    case False
    then have "int (unat (t - 1)) = int (unat t) - 1" using d by simp
    with False show ?thesis by (simp add: word_less_nat_alt)
  qed
  with d show ?thesis by (simp add: usub_digit_def Let_def c)
qed

lemma usub_tail_val:
  "usub_tail as c = (rs, d) \<Longrightarrow> unat c \<le> 1 \<Longrightarrow> length rs = length as \<and> unat d \<le> 1 \<and>
     int (words_val rs) - int (BN_BASE ^ length as) * int (unat d) = int (words_val as) - int (unat c)"
proof (induction as arbitrary: c rs d)
  case (Cons a as)
  obtain r e where r: "usub_digit a c = (r, e)" by fastforce
  obtain qs f where q: "usub_tail as e = (qs, f)" by fastforce
  have e: "unat e \<le> 1" "int (unat r) - int BN_BASE * int (unat e) = int (unat a) - int (unat c)"
    using usub_digit_val [OF Cons.prems(2), of a] by (simp_all add: r)
  from Cons.IH [OF q e(1)] have i: "length qs = length as" "unat f \<le> 1"
    "int (words_val qs) = int (words_val as) - int (unat e) + int (BN_BASE ^ length as) * int (unat f)" by simp_all
  have "rs = r # qs" "d = f" using Cons.prems(1) by (simp_all add: r q)
  moreover have "int (words_val (r # qs)) - int (BN_BASE ^ length (a # as)) * int (unat f) = int (words_val (a # as)) - int (unat c)"
    using e(2) by (simp add: i(3)) (simp add: algebra_simps)
  ultimately show ?case using i(1,2) by simp
qed simp

lemma bn_usub_words:
  assumes "bn_ok a" "bn_ok b" and n: "n = min (bn_width a) (bn_width b)" and "bn_fits_in_words b n"
    and s: "bn_sub_words (take n (bn_d a)) (take n (bn_d b)) = (s, c)"
    and t: "usub_tail (take (bn_width a - n) (drop n (bn_d a))) c = (t, d)"
  shows "length (s @ t) = bn_width a" and "d = 0 \<longleftrightarrow> bn_abs b \<le> bn_abs a" and "d = 0 \<Longrightarrow> words_val (s @ t) = bn_abs a - bn_abs b"
proof -
  let ?m = "bn_width a"
  have nm: "n \<le> ?m" "n \<le> bn_width b" "?m \<le> length (bn_d a)" "bn_width b \<le> length (bn_d b)"
    using assms(1,2) by (simp_all add: n bn_ok_def)
  have l: "length (take n (bn_d a)) = length (take n (bn_d b))" "length (take n (bn_d b)) = n" using nm by simp_all
  note v = bn_sub_words_val [OF s l(1), unfolded l(2)]
  have l2: "length (take (?m - n) (drop n (bn_d a))) = ?m - n" using nm by simp
  from usub_tail_val [OF t v(2), unfolded l2]
  have tl: "length t = ?m - n" "unat d \<le> 1"
    and tv: "int (words_val t) - int (BN_BASE ^ (?m - n)) * int (unat d) = int (words_val (take (?m - n) (drop n (bn_d a)))) - int (unat c)" by simp_all
  show len: "length (s @ t) = ?m" using v(1) tl(1) nm(1) by simp
  have "bn_words a = take n (bn_d a) @ take (?m - n) (drop n (bn_d a))"
    using nm(1) by (simp add: bn_words_def flip: take_add)
  then have A: "bn_abs a = words_val (take n (bn_d a)) + BN_BASE ^ n * words_val (take (?m - n) (drop n (bn_d a)))"
    using l by (simp add: bn_abs_def words_val_append)
  have B: "bn_abs b = words_val (take n (bn_d b))"
  proof -
    have sp: "bn_abs b = words_val (take n (bn_words b)) + BN_BASE ^ n * words_val (drop n (bn_words b))"
      unfolding bn_abs_def by (rule words_val_split) (use nm assms(2) in simp)
    have "bn_abs b < BN_BASE ^ n" using assms(2,4) by (simp add: bn_fits_in_words_iff)
    then have "words_val (drop n (bn_words b)) = 0" using sp by (cases "words_val (drop n (bn_words b))") auto
    then show ?thesis using sp nm by (simp add: bn_words_def min_absorb1)
  qed
  have "int (words_val (s @ t)) - int (BN_BASE ^ ?m) * int (unat d) =
      int (words_val s) + int (BN_BASE ^ n) * (int (words_val t) - int (BN_BASE ^ (?m - n)) * int (unat d))"
  proof -
    have "BN_BASE ^ ?m = BN_BASE ^ n * BN_BASE ^ (?m - n)" using nm(1) by (simp flip: power_add)
    then show ?thesis using v(1) by (simp add: words_val_append) (simp add: algebra_simps)
  qed
  also have "\<dots> = int (words_val s) - int (BN_BASE ^ n) * int (unat c) + int (BN_BASE ^ n) * int (words_val (take (?m - n) (drop n (bn_d a))))"
    unfolding tv by (simp add: algebra_simps)
  also have "\<dots> = int (bn_abs a) - int (bn_abs b)" unfolding v(3) A B by simp
  finally have e: "int (words_val (s @ t)) - int (BN_BASE ^ ?m) * int (unat d) = int (bn_abs a) - int (bn_abs b)" .
  from borrow_iff [OF e tl(2)] words_val_less_exp [OF len]
  show "d = 0 \<longleftrightarrow> bn_abs b \<le> bn_abs a" and "d = 0 \<Longrightarrow> words_val (s @ t) = bn_abs a - bn_abs b" by simp_all
qed

text \<open>A difference that would be negative is an error.\<close>

lemma bn_usub_consttime_val:
  assumes "malloc_spec M" "bn_ok r" "bn_ok a" "bn_ok b" and "bn_abs b \<le> bn_abs a"
  shows "returns M r (bn_width a) (bn_usub_consttime M r a b)
    (\<lambda>r'. bn_abs r' = bn_abs a - bn_abs b \<and> \<not> bn_neg r' \<and> bn_width r' = bn_width a)"
proof -
  let ?n = "min (bn_width a) (bn_width b)"
  have "bn_abs b < BN_BASE ^ bn_width a" using assms(5) bn_abs_less [OF assms(3)] by simp
  then have fits: "bn_fits_in_words b (bn_width a)" "bn_fits_in_words b ?n"
    using assms(4) bn_abs_less [OF assms(4)] by (auto simp: bn_fits_in_words_iff min_def)
  obtain s c where s: "bn_sub_words (take ?n (bn_d a)) (take ?n (bn_d b)) = (s, c)" by fastforce
  obtain t d where t: "usub_tail (take (bn_width a - ?n) (drop ?n (bn_d a))) c = (t, d)" by fastforce
  note v = bn_usub_words [OF assms(3,4) refl fits(2) s t]
  have d: "d = 0" using v(2) assms(5) by simp
  have n: "(if bn_width b > bn_width a then bn_width a else bn_width b) = ?n" by simp
  have w: "r\<lparr>bn_d := blit (bn_d r) 0 (s @ t), bn_width := bn_width a, bn_neg := False\<rparr> = bn_write r (s @ t) False" for r
    using v(1) by (simp add: bn_write_def)
  have e: "bn_usub_consttime M r a b = (case bn_wexpand M r (bn_width a) of (False, r) \<Rightarrow> (False, r) | (True, r) \<Rightarrow> (True, bn_write r (s @ t) False))"
    unfolding bn_usub_consttime_def n Let_def s prod.case t d using fits(1) w by (auto split: prod.split bool.split)
  show ?thesis unfolding e
    using v(1) v(3) [OF d] bn_write_ok [where ws = "s @ t"]
    by (intro bn_wexpand_returns [OF assms(1,2)]) (simp add: bn_abs_def)
qed

lemma BN_usub_val:
  assumes "malloc_spec M" "bn_ok r" "bn_ok a" "bn_ok b" and "bn_abs b \<le> bn_abs a"
  shows "returns M r (bn_width a) (BN_usub M r a b) (\<lambda>r'. bn_abs r' = bn_abs a - bn_abs b \<and> \<not> bn_neg r')"
  unfolding BN_usub_def
proof (rule returns_map [OF bn_usub_consttime_val [OF assms]])
  fix r' assume "bn_ok r'" "bn_abs r' = bn_abs a - bn_abs b \<and> \<not> bn_neg r' \<and> bn_width r' = bn_width a"
  then show "bn_ok (bn_set_minimal_width r') \<and> bn_abs (bn_set_minimal_width r') = bn_abs a - bn_abs b \<and> \<not> bn_neg (bn_set_minimal_width r')"
    using bn_set_minimal_width_ok [of r'] by (auto simp: bn_val_def)
qed

section \<open>Sums and differences of integers\<close>

lemma bn_val_neg: "bn_val bn = (if bn_neg bn then - int (bn_abs bn) else int (bn_abs bn))"
  by (rule bn_val_def)

lemma set_neg:
  "bn_ok (r\<lparr>bn_neg := neg\<rparr>) = bn_ok r" "bn_abs (r\<lparr>bn_neg := neg\<rparr>) = bn_abs r"
  by (simp_all add: bn_ok_def bn_abs_def bn_words_def)

lemma usub_signed:
  assumes "malloc_spec M" "bn_ok r" "bn_ok a" "bn_ok b" and "bn_abs b \<le> bn_abs a"
  shows "returns M r (max (bn_width a) (bn_width b) + 1) (case BN_usub M r a b of (False, r) \<Rightarrow> (False, r) | (True, r) \<Rightarrow> (True, r\<lparr>bn_neg := neg\<rparr>))
    (\<lambda>r'. bn_abs r' = bn_abs a - bn_abs b \<and> bn_neg r' = neg)"
  by (rule returns_map [OF returns_mono [OF BN_usub_val [OF assms]]]) (auto simp: set_neg)

text \<open>The smaller absolute value is subtracted from the larger one, which gives the sign.\<close>

lemma usub_by_cmp:
  assumes "malloc_spec M" "bn_ok r" "bn_ok a" "bn_ok b"
  shows "returns M r (max (bn_width a) (bn_width b) + 1)
    (if BN_ucmp a b <s 0
     then case BN_usub M r b a of (False, r) \<Rightarrow> (False, r) | (True, r) \<Rightarrow> (True, r\<lparr>bn_neg := True\<rparr>)
     else case BN_usub M r a b of (False, r) \<Rightarrow> (False, r) | (True, r) \<Rightarrow> (True, r\<lparr>bn_neg := False\<rparr>))
    (\<lambda>r'. bn_val r' = int (bn_abs a) - int (bn_abs b) \<and> bn_signed r')"
proof (cases "bn_abs a < bn_abs b")
  case True
  then have "bn_abs a \<le> bn_abs b" by simp
  from returns_mono [OF usub_signed [OF assms(1,2,4,3) this, of True]] True assms(3,4) show ?thesis
    by (auto simp: BN_ucmp_val cmp_result_neg max.commute bn_val_def bn_signed_def of_nat_diff)
next
  case False
  then have "bn_abs b \<le> bn_abs a" by simp
  from returns_mono [OF usub_signed [OF assms this, of False]] False assms(3,4) show ?thesis
    by (auto simp: BN_ucmp_val cmp_result_neg bn_val_def bn_signed_def of_nat_diff)
qed

lemma BN_add_returns:
  assumes "malloc_spec M" "bn_ok r" "bn_ok a" "bn_ok b"
  shows "returns M r (max (bn_width a) (bn_width b) + 1) (BN_add M r a b) (\<lambda>r'. bn_val r' = bn_val a + bn_val b \<and> (bn_signed a \<longrightarrow> bn_signed r'))"
proof (cases "bn_neg a = bn_neg b")
  case True
  obtain ok r' where u: "BN_uadd M r a b = (ok, r')" by fastforce
  from BN_uadd_val [OF assms] u have
    "returns M r (max (bn_width a) (bn_width b) + 1) (ok, r'\<lparr>bn_neg := bn_neg a\<rparr>) (\<lambda>r'. bn_val r' = bn_val a + bn_val b \<and> (bn_signed a \<longrightarrow> bn_signed r'))"
    using True by (auto simp: returns_def set_neg bn_val_def bn_signed_def)
  with True u show ?thesis by (simp add: BN_add_def)
next
  case False
  define p q where "p = (if bn_neg a then b else a)" and "q = (if bn_neg a then a else b)"
  have pq: "bn_ok p" "bn_ok q" "max (bn_width p) (bn_width q) = max (bn_width a) (bn_width b)"
    "int (bn_abs p) - int (bn_abs q) = bn_val a + bn_val b"
    using False assms(3,4) by (auto simp: p_def q_def bn_val_def)
  have "(if bn_neg a then (b, a) else (a, b)) = (p, q)" by (simp add: p_def q_def)
  with False have "BN_add M r a b = (if BN_ucmp p q <s 0
     then case BN_usub M r q p of (False, r) \<Rightarrow> (False, r) | (True, r) \<Rightarrow> (True, r\<lparr>bn_neg := True\<rparr>)
     else case BN_usub M r p q of (False, r) \<Rightarrow> (False, r) | (True, r) \<Rightarrow> (True, r\<lparr>bn_neg := False\<rparr>))"
    by (simp add: BN_add_def Let_def)
  with returns_mono [OF usub_by_cmp [OF assms(1,2) pq(1,2)] order_refl] show ?thesis unfolding pq(3,4) by simp
qed

lemma BN_sub_returns:
  assumes "malloc_spec M" "bn_ok r" "bn_ok a" "bn_ok b"
  shows "returns M r (max (bn_width a) (bn_width b) + 1) (BN_sub M r a b) (\<lambda>r'. bn_val r' = bn_val a - bn_val b \<and> (bn_signed a \<longrightarrow> bn_signed r'))"
proof (cases "bn_neg a = bn_neg b")
  case False
  have e: "BN_sub M r a b = (case BN_uadd M r a b of (False, r) \<Rightarrow> (False, r) | (True, r) \<Rightarrow> (True, r\<lparr>bn_neg := bn_neg a\<rparr>))"
    using False by (cases "bn_neg a") (auto simp: BN_sub_def split: prod.split bool.split)
  show ?thesis unfolding e
    using False by (intro returns_map [OF BN_uadd_val [OF assms]]) (auto simp: set_neg bn_val_def bn_signed_def)
next
  case True
  define p q where "p = (if bn_neg a then b else a)" and "q = (if bn_neg a then a else b)"
  have pq: "bn_ok p" "bn_ok q" "max (bn_width p) (bn_width q) = max (bn_width a) (bn_width b)"
    "int (bn_abs p) - int (bn_abs q) = bn_val a - bn_val b"
    using True assms(3,4) by (auto simp: p_def q_def bn_val_def)
  have "BN_sub M r a b = (if BN_ucmp p q <s 0
     then case BN_usub M r q p of (False, r) \<Rightarrow> (False, r) | (True, r) \<Rightarrow> (True, r\<lparr>bn_neg := True\<rparr>)
     else case BN_usub M r p q of (False, r) \<Rightarrow> (False, r) | (True, r) \<Rightarrow> (True, r\<lparr>bn_neg := False\<rparr>))"
    using True by (cases "bn_neg a") (simp_all add: BN_sub_def p_def q_def)
  with returns_mono [OF usub_by_cmp [OF assms(1,2) pq(1,2)] order_refl] show ?thesis unfolding pq(3,4) by simp
qed

section \<open>Adding and subtracting a word\<close>

lemma BN_set_word_returns:
  assumes "malloc_spec M" "bn_ok r"
  shows "returns M r 1 (BN_set_word M r w) (\<lambda>r'. bn_abs r' = unat w \<and> \<not> bn_neg r')"
proof (cases "w = 0")
  case True
  then show ?thesis using assms(2) by (simp add: BN_set_word_def BN_zero_def returns_def bn_ok_def bn_abs_def bn_words_def)
next
  case False
  have e: "BN_set_word M r w = (case bn_wexpand M r 1 of (False, r) \<Rightarrow> (False, r)
      | (True, r) \<Rightarrow> (True, r\<lparr>bn_neg := False, bn_d := (bn_d r)[0 := w], bn_width := 1\<rparr>))"
    using False by (simp add: BN_set_word_def)
  show ?thesis unfolding e
  proof (rule bn_wexpand_returns [OF assms])
    fix r' assume r': "bn_ok r'" "1 \<le> bn_dmax r'"
    then obtain x xs where x: "bn_d r' = x # xs" by (cases "bn_d r'") (auto simp: bn_ok_def)
    from r' show "bn_ok (r'\<lparr>bn_neg := False, bn_d := (bn_d r')[0 := w], bn_width := 1\<rparr>) \<and>
        bn_abs (r'\<lparr>bn_neg := False, bn_d := (bn_d r')[0 := w], bn_width := 1\<rparr>) = unat w \<and>
        \<not> bn_neg (r'\<lparr>bn_neg := False, bn_d := (bn_d r')[0 := w], bn_width := 1\<rparr>)"
      by (auto simp: bn_ok_def bn_abs_def bn_words_def x)
  qed
qed

lemma add_word_loop_val:
  "add_word_loop ds w = (ds', w') \<Longrightarrow> length ds' = length ds \<and> words_val ds' + BN_BASE ^ length ds * unat w' = words_val ds + unat w"
proof (induction ds arbitrary: w ds' w')
  case (Cons d ds)
  show ?case
  proof (cases "w = 0")
    case True
    with Cons.prems show ?thesis by auto
  next
    case False
    obtain qs v where q: "add_word_loop ds (of_bool (w > d + w)) = (qs, v)" by fastforce
    from Cons.IH [OF q] have i: "length qs = length ds" "words_val qs + BN_BASE ^ length ds * unat v = words_val ds + unat (of_bool (w > d + w) :: u64)" by simp_all
    have c: "unat (d + w) + BN_BASE * unat (of_bool (w > d + w) :: u64) = unat d + unat w"
      using carry_digit_val [of w d "d + w" "of_bool (w > d + w)"] by (simp add: carry_digit_def add.commute)
    have e: "ds' = (d + w) # qs" "w' = v" using Cons.prems False by (simp_all add: q Let_def)
    have "unat (d + w) + BN_BASE * (words_val qs + BN_BASE ^ length ds * unat v) = unat d + BN_BASE * words_val ds + unat w"
      unfolding i(2) using c by (simp add: algebra_simps)
    then show ?thesis using i(1) by (simp add: e) (simp add: algebra_simps)
  qed
qed auto

lemma sub_word_loop_val:
  assumes "unat w \<le> words_val ds" and "ds \<noteq> []"
  shows "\<exists>ds' i. sub_word_loop ds w = Some (ds', i) \<and> length ds' = length ds \<and> i < length ds \<and> words_val ds' = words_val ds - unat w"
  using assms
proof (induction ds arbitrary: w)
  case (Cons d ds)
  show ?case
  proof (cases "d \<ge> w")
    case True
    then have "unat (d - w) = unat d - unat w" "unat w \<le> unat d" by (simp_all add: unat_sub word_le_nat_alt)
    with True show ?thesis by simp
  next
    case False
    then have lt: "unat d < unat w" by (simp add: word_le_nat_alt)
    have pos: "0 < words_val ds" using Cons.prems lt by (cases "words_val ds") auto
    then have "unat (1 :: u64) \<le> words_val ds" "ds \<noteq> []" by auto
    from Cons.IH [OF this] obtain qs i where q: "sub_word_loop ds 1 = Some (qs, i)" "length qs = length ds" "i < length ds"
      "words_val qs = words_val ds - 1" by auto
    have "int (unat (d - w)) = int (unat d) - int (unat w) + int BN_BASE" using unat_diff_base [of d w] lt by simp
    then have "unat (d - w) + unat w = unat d + BN_BASE" by linarith
    then have "unat (d - w) + BN_BASE * (words_val ds - 1) = unat d + BN_BASE * words_val ds - unat w"
      using pos by (cases "words_val ds") simp_all
    with False q show ?thesis by simp
  qed
qed simp

lemma BN_add_word_pos:
  assumes "malloc_spec M" "bn_ok a" "\<not> bn_neg a" "bn_val a \<noteq> 0" "w \<noteq> 0"
  shows "\<exists>res. BN_add_word M a w = Some res \<and> returns M a (bn_width a + 1) res (\<lambda>a'. bn_val a' = bn_val a + int (unat w))"
proof -
  obtain ds v where l: "add_word_loop (take (bn_width a) (bn_d a)) w = (ds, v)" by fastforce
  from add_word_loop_val [OF l] assms(2) have d: "length ds = bn_width a"
    and dv: "words_val ds + BN_BASE ^ bn_width a * unat v = bn_abs a + unat w"
    by (simp_all add: bn_ok_def min_absorb2 bn_abs_def bn_words_def)
  define a1 where "a1 = a\<lparr>bn_d := blit (bn_d a) 0 ds\<rparr>"
  have a1: "a1 = bn_write a ds False" using assms(3) d by (cases a) (simp add: a1_def bn_write_def)
  have w1: "bn_ok a1" "bn_words a1 = ds" "\<not> bn_neg a1" "bn_width a1 = bn_width a" "bn_dmax a1 = bn_dmax a" "bn_static a1 = bn_static a"
    using bn_write_ok [of a ds False] assms(2) d by (simp_all add: a1 bn_ok_def) (simp add: bn_write_def)
  show ?thesis
  proof (cases "v = 0")
    case True
    have "BN_add_word M a w = Some (True, a1)"
      using assms(2-5) True by (simp add: BN_add_word.simps BN_is_zero_iff l a1_def)
    then show ?thesis using w1 dv True assms(3) by (simp add: returns_def bn_val_def bn_abs_def)
  next
    case False
    let ?f = "\<lambda>a. a\<lparr>bn_d := (bn_d a)[bn_width a := v], bn_width := bn_width a + 1\<rparr>"
    have e: "BN_add_word M a w = Some (case bn_wexpand M a1 (bn_width a1 + 1) of (False, a) \<Rightarrow> (False, a) | (True, a) \<Rightarrow> (True, ?f a))"
      using assms(2-5) False by (auto simp: BN_add_word.simps BN_is_zero_iff l a1_def split: prod.split bool.split)
    have "returns M a1 (bn_width a1 + 1) (case bn_wexpand M a1 (bn_width a1 + 1) of (False, a) \<Rightarrow> (False, a) | (True, a) \<Rightarrow> (True, ?f a))
        (\<lambda>a'. bn_val a' = bn_val a + int (unat w))"
    proof (rule bn_wexpand_returns [OF assms(1) w1(1)])
      fix r assume r: "bn_ok r" "bn_width a1 + 1 \<le> bn_dmax r" "bn_words r = bn_words a1" "bn_width r = bn_width a1" "bn_neg r = bn_neg a1"
      have "bn_words (?f r) = bn_words r @ [v]"
        using r(1,2,4) by (simp add: bn_words_def bn_ok_def take_Suc_conv_app_nth take_update_cancel)
      then have "bn_abs (?f r) = words_val ds + BN_BASE ^ bn_width a * unat v"
        using r(1,3,4) w1 d by (simp add: bn_abs_def words_val_append)
      then show "bn_ok (?f r) \<and> bn_val (?f r) = bn_val a + int (unat w)"
        using r w1 dv assms(3) by (simp add: bn_ok_def bn_val_def)
    qed
    with w1 show ?thesis unfolding e by (simp add: returns_def)
  qed
qed

lemma BN_sub_word_pos:
  assumes "malloc_spec M" "bn_ok a" "\<not> bn_neg a" "bn_val a \<noteq> 0" "w \<noteq> 0"
  shows "\<exists>res. BN_sub_word M a w = Some res \<and> returns M a (bn_width a + 1) res (\<lambda>a'. bn_val a' = bn_val a - int (unat w))"
proof -
  let ?w = "bn_minimal_width a"
  have m: "?w \<le> bn_width a" by (simp add: bn_minimal_width_def minimal_width_loop_le)
  have abs: "bn_abs a = words_val (take ?w (bn_words a))"
    using bn_set_minimal_width_ok(2) [OF assms(2)] m
    by (auto simp: bn_abs_def bn_words_def bn_set_minimal_width_def Let_def min_def split: if_splits)
  have w0: "0 < ?w" using assms(4) abs by (cases "?w") (simp_all add: bn_val_def split: if_splits)
  then have d0: "0 < bn_width a" using m by simp
  show ?thesis
  proof (cases "?w = 1 \<and> bn_d a ! 0 < w")
    case True
    let ?a = "a\<lparr>bn_d := (bn_d a)[0 := w - bn_d a ! 0], bn_neg := True\<rparr>"
    obtain x xs where x: "bn_words a = x # xs" using d0 assms(2) length_bn_words [of a] by (cases "bn_words a") auto
    have x0: "bn_d a ! 0 = x" using bn_words_nth [OF d0] by (simp add: x)
    have ax: "bn_abs a = unat x" "words_val xs = 0"
    proof -
      show "bn_abs a = unat x" using abs True by (simp add: x)
      then show "words_val xs = 0" by (simp add: bn_abs_def x)
    qed
    have "bn_words ?a = (w - x) # xs"
      using x d0 by (cases "bn_d a") (simp_all add: bn_words_def take_Cons' x0 split: if_splits)
    then have "bn_abs ?a = unat w - unat x"
      using True ax(2) by (simp add: bn_abs_def x0 unat_sub word_less_nat_alt word_le_nat_alt)
    moreover have "BN_sub_word M a w = Some (True, ?a)"
      using True assms(2-5) by (simp add: BN_sub_word.simps BN_is_zero_iff)
    moreover have "bn_ok ?a" using assms(2) by (simp add: bn_ok_def)
    ultimately show ?thesis using True assms(3)
      by (simp add: returns_def bn_val_def ax(1) x0 word_less_nat_alt of_nat_diff)
  next
    case False
    have ge: "unat w \<le> bn_abs a"
    proof (cases "?w = 1")
      case True
      have "take 1 (bn_words a) = [bn_d a ! 0]"
        using d0 assms(2) bn_words_nth [OF d0] length_bn_words [OF assms(2)] by (cases "bn_words a") auto
      then have "bn_abs a = unat (bn_d a ! 0)" using abs True by simp
      with False True show ?thesis by (simp add: word_less_nat_alt)
    next
      case False
      then obtain k where k: "?w = Suc k" "1 \<le> k" using w0 by (cases "?w") auto
      have nz: "bn_d a ! k \<noteq> 0" using minimal_width_loop_top [of "bn_d a" "bn_width a"] k by (simp add: bn_minimal_width_def)
      have "take ?w (bn_words a) = take k (bn_words a) @ [bn_d a ! k]"
        using k m assms(2) by (simp add: take_Suc_conv_app_nth)
      then have "bn_abs a = words_val (take k (bn_words a)) + BN_BASE ^ k * unat (bn_d a ! k)"
        using k m assms(2) by (simp add: abs words_val_append)
      moreover have "BN_BASE ^ k * 1 \<le> BN_BASE ^ k * unat (bn_d a ! k)"
        using nz by (intro mult_left_mono) (simp_all add: Suc_le_eq unat_gt_0)
      ultimately have "BN_BASE ^ k \<le> bn_abs a" by linarith
      moreover have "BN_BASE ^ 1 \<le> BN_BASE ^ k" using k(2) by (intro power_increasing) simp_all
      moreover have "unat w \<le> BN_BASE ^ 1" by (simp add: less_imp_le)
      ultimately show ?thesis by linarith
    qed
    have "bn_words a \<noteq> []" using d0 length_bn_words [OF assms(2)] by auto
    from ge sub_word_loop_val [OF _ this, of w] obtain ds i where l: "sub_word_loop (take (bn_width a) (bn_d a)) w = Some (ds, i)" "length ds = bn_width a" "i < bn_width a"
      "words_val ds = bn_abs a - unat w"
      unfolding length_bn_words [OF assms(2)] by (auto simp: bn_abs_def bn_words_def)
    let ?a1 = "bn_write a ds False"
    have a1: "a\<lparr>bn_d := blit (bn_d a) 0 ds\<rparr> = ?a1" using assms(3) l(2) by (cases a) (simp add: bn_write_def)
    have w1: "bn_ok ?a1" "bn_words ?a1 = ds" "\<not> bn_neg ?a1" "bn_width ?a1 = bn_width a" "bn_dmax ?a1 = bn_dmax a"
      using bn_write_ok [of a ds False] assms(2) l(2) by (simp_all add: bn_ok_def)
    let ?a2 = "if bn_d ?a1 ! i = 0 \<and> i = bn_width ?a1 - 1 then ?a1\<lparr>bn_width := bn_width ?a1 - 1\<rparr> else ?a1"
    have z: "\<not> BN_is_zero a" using assms(2,4) by (simp add: BN_is_zero_iff)
    have "BN_sub_word M a w = Some (True, ?a2)"
      unfolding BN_sub_word.simps [of M a] if_not_P [OF assms(5)] if_not_P [OF z] if_not_P [OF assms(3)] if_not_P [OF False]
        l(1) option.map prod.case Let_def a1 using w1(4) by simp
    moreover have "bn_ok ?a2 \<and> bn_abs ?a2 = words_val ds \<and> \<not> bn_neg ?a2"
    proof (cases "bn_d ?a1 ! i = 0 \<and> i = bn_width ?a1 - 1")
      case True
      obtain n where n: "bn_width a = Suc n" using d0 by (cases "bn_width a") auto
      have "ds = take n ds @ [ds ! n]" using l(2) n take_Suc_conv_app_nth [of n ds] by simp
      moreover have "ds ! n = 0" using True bn_words_nth [of n ?a1] w1 n by auto
      ultimately have "words_val ds = words_val (take n ds)"
        by (metis (no_types, lifting) add.right_neutral mult_zero_right unat_0 words_val.simps words_val_append)
      moreover have "bn_words (?a1\<lparr>bn_width := n\<rparr>) = take n ds"
        using w1(2,4) n by (simp add: bn_words_def) (metis min.absorb1 le_SucI order_refl take_take)
      ultimately show ?thesis using True w1 n by (simp add: bn_abs_def bn_ok_def)
    qed (use w1 in \<open>auto simp: bn_abs_def\<close>)
    ultimately show ?thesis using ge assms(3) l(4)
      by (auto simp: returns_def bn_val_def of_nat_diff)
  qed
qed

text \<open>A negative number is made positive, and the sign is put back.\<close>

lemma BN_word_returns:
  assumes "malloc_spec M" "bn_ok a" "bn_signed a"
  shows "\<exists>res. BN_add_word M a w = Some res \<and> returns M a (bn_width a + 1) res (\<lambda>a'. bn_val a' = bn_val a + int (unat w))"
    and "\<exists>res. BN_sub_word M a w = Some res \<and> returns M a (bn_width a + 1) res (\<lambda>a'. bn_val a' = bn_val a - int (unat w))"
proof -
  have set: "returns M a (bn_width a + 1) (BN_set_word M a w) (\<lambda>r'. bn_abs r' = unat w \<and> \<not> bn_neg r')"
    by (rule returns_mono [OF BN_set_word_returns [OF assms(1,2)]]) simp_all
  consider "w = 0" | "w \<noteq> 0" "bn_val a = 0" | "w \<noteq> 0" "bn_val a \<noteq> 0" "\<not> bn_neg a" | "w \<noteq> 0" "bn_val a \<noteq> 0" "bn_neg a" by blast
  then have "(\<exists>res. BN_add_word M a w = Some res \<and> returns M a (bn_width a + 1) res (\<lambda>a'. bn_val a' = bn_val a + int (unat w)))
    \<and> (\<exists>res. BN_sub_word M a w = Some res \<and> returns M a (bn_width a + 1) res (\<lambda>a'. bn_val a' = bn_val a - int (unat w)))"
  proof cases
    case 1
    then show ?thesis using assms(2) by (simp add: BN_add_word.simps BN_sub_word.simps returns_def)
  next
    case 2
    obtain ok r where r: "BN_set_word M a w = (ok, r)" by fastforce
    have p: "ok \<Longrightarrow> bn_ok r \<and> bn_abs r = unat w \<and> \<not> bn_neg r" using set by (simp add: returns_def r)
    have z: "BN_is_zero r \<longleftrightarrow> w = 0" if "ok" using p [OF that] by (simp add: BN_is_zero_iff bn_val_def unat_eq_0)
    show ?thesis using 2 assms(2) set p z
      by (auto simp: BN_add_word.simps BN_sub_word.simps BN_is_zero_iff r returns_def BN_set_negative_def set_neg) (auto simp: bn_val_def set_neg)
  next
    case 3
    then show ?thesis using BN_add_word_pos [OF assms(1,2)] BN_sub_word_pos [OF assms(1,2)] by blast
  next
    case 4
    let ?a = "a\<lparr>bn_neg := False\<rparr>"
    have a: "bn_ok ?a" "\<not> bn_neg ?a" "bn_val ?a = - bn_val a" "bn_val ?a \<noteq> 0"
      using 4 assms(2) by (simp_all add: set_neg bn_val_def)
    obtain ok r where add: "BN_add_word M ?a w = Some (ok, r)" "returns M ?a (bn_width a + 1) (ok, r) (\<lambda>a'. bn_val a' = bn_val ?a + int (unat w))"
      using BN_add_word_pos [OF assms(1) a(1,2,4) 4(1)] by auto
    obtain ok' r' where sub: "BN_sub_word M ?a w = Some (ok', r')" "returns M ?a (bn_width a + 1) (ok', r') (\<lambda>a'. bn_val a' = bn_val ?a - int (unat w))"
      using BN_sub_word_pos [OF assms(1) a(1,2,4) 4(1)] by auto
    have rn: "returns M a n (ok, r) P" if "returns M ?a n (ok, r) P" for ok r n P using that by (simp add: returns_def)
    have flip: "bn_val (r\<lparr>bn_neg := \<not> bn_neg r\<rparr>) = - bn_val r" for r by (simp add: bn_val_def set_neg)
    have pos: "bn_val (r\<lparr>bn_neg := True\<rparr>) = - bn_val r" if "0 < bn_val r" for r
      using that by (auto simp: bn_val_def set_neg split: if_splits)
    have A: "BN_add_word M a w = Some (ok', if \<not> BN_is_zero r' then r'\<lparr>bn_neg := \<not> bn_neg r'\<rparr> else r')"
      using 4 assms(2) sub(1) by (simp add: BN_add_word.simps [of M a] BN_is_zero_iff)
    have S: "BN_sub_word M a w = Some (ok, r\<lparr>bn_neg := True\<rparr>)"
      using 4 assms(2) add(1) by (simp add: BN_sub_word.simps [of M a] BN_is_zero_iff)
    have "returns M a (bn_width a + 1) (ok', if \<not> BN_is_zero r' then r'\<lparr>bn_neg := \<not> bn_neg r'\<rparr> else r') (\<lambda>a'. bn_val a' = bn_val a + int (unat w))"
      using rn [OF sub(2)] a(3) by (auto simp: returns_def set_neg flip BN_is_zero_iff)
    moreover have "returns M a (bn_width a + 1) (ok, r\<lparr>bn_neg := True\<rparr>) (\<lambda>a'. bn_val a' = bn_val a - int (unat w))"
    proof -
      have "0 < bn_val ?a + int (unat w)" using a(2,4) by (simp add: bn_val_def)
      then show ?thesis using rn [OF add(2)] a(3) pos [of r] by (auto simp: returns_def set_neg)
    qed
    ultimately show ?thesis using A S by blast
  qed
  then show "\<exists>res. BN_add_word M a w = Some res \<and> returns M a (bn_width a + 1) res (\<lambda>a'. bn_val a' = bn_val a + int (unat w))"
    and "\<exists>res. BN_sub_word M a w = Some res \<and> returns M a (bn_width a + 1) res (\<lambda>a'. bn_val a' = bn_val a - int (unat w))" by blast+
qed

section \<open>Properties\<close>

text \<open>
  C39: Sums and differences are those of the integers, for every combination of signs and widths: when
  \<^verbatim>\<open>BN_add\<close> or \<^verbatim>\<open>BN_sub\<close> return one the result is well formed, its value is exact and a zero is not negative, and they
  return one unless memory runs out, the number gets too long or the result is a constant of the program.
\<close>

theorem bn_add_sub_exact:
  assumes "malloc_spec M" and "bn_ok r" "bn_ok a" "bn_ok b" and "bn_signed a" "bn_signed b"
  shows "(case BN_add M r a b of (ok, r') \<Rightarrow>
            (ok \<longrightarrow> bn_ok r' \<and> bn_signed r' \<and> bn_val r' = bn_val a + bn_val b)
            \<and> (malloc_total M \<and> bn_width a < BN_MAX_WORDS \<and> bn_width b < BN_MAX_WORDS \<and> \<not> bn_static r \<longrightarrow> ok))
       \<and> (case BN_sub M r a b of (ok, r') \<Rightarrow>
            (ok \<longrightarrow> bn_ok r' \<and> bn_signed r' \<and> bn_val r' = bn_val a - bn_val b)
            \<and> (malloc_total M \<and> bn_width a < BN_MAX_WORDS \<and> bn_width b < BN_MAX_WORDS \<and> \<not> bn_static r \<longrightarrow> ok))"
  using BN_add_returns [OF assms(1-4)] BN_sub_returns [OF assms(1-4)] assms(5)
  by (auto simp: returns_def)

theorem bn_add_sub_exact_witness:
  "case BN_add zero_malloc BN_init (bn_of_words False [0xffffffffffffffff]) (bn_of_words True [5, 1]) of (ok, r') \<Rightarrow> ok \<and> bn_val r' = - 6"
proof -
  have "bn_val (bn_of_words False [0xffffffffffffffff]) + bn_val (bn_of_words True [5, 1]) = - 6"
    by (simp add: BN_BASE_def)
  then show ?thesis
    using bn_add_sub_exact [OF zero_malloc_spec, of BN_init "bn_of_words False [0xffffffffffffffff]" "bn_of_words True [5, 1]"] zero_malloc_total
    by (auto simp: bn_signed_def BN_MAX_WORDS_val)
qed

text \<open>
  C40: Adding a word to a number and subtracting one are exact too, and the borrow never runs out of the
  words of the number.
\<close>

theorem bn_word_exact:
  assumes "malloc_spec M" and "bn_ok a" "bn_signed a"
  shows "(\<exists>ok a'. BN_add_word M a w = Some (ok, a') \<and> (ok \<longrightarrow> bn_ok a' \<and> bn_val a' = bn_val a + int (unat w)))
    \<and> (\<exists>ok a'. BN_sub_word M a w = Some (ok, a') \<and> (ok \<longrightarrow> bn_ok a' \<and> bn_val a' = bn_val a - int (unat w)))"
  using BN_word_returns [OF assms, of w] by (auto simp: returns_def)

theorem bn_word_exact_witness:
  "\<exists>ok a'. BN_sub_word zero_malloc (bn_of_words False [3, 1]) 5 = Some (ok, a') \<and> (ok \<longrightarrow> bn_val a' = 2 ^ 64 - 2)"
  using bn_word_exact [OF zero_malloc_spec, of "bn_of_words False [3, 1]" 5]
  by (auto simp: bn_signed_def BN_MAX_WORDS_val BN_BASE_def)

end
