(* ===== verification/BnProduct.thy ===== *)
theory BnProduct
  imports BnAdd
begin

text \<open>
  Products of numbers: the functions of \<^verbatim>\<open>crypto/fipsmodule/bn/mul.c\<close> on \<^verbatim>\<open>BIGNUM\<close>, which choose
  between the routines on words of \<open>BnMul\<close>. Temporary numbers come from a \<^verbatim>\<open>BN_CTX\<close>: the arguments
  \<open>g\<close> and \<open>h\<close> are what \<^verbatim>\<open>BN_CTX_get\<close> returns for the result and for the scratch space. \<open>alias\<close> says that the result is one of the arguments.
  An assertion that fails and the use of a null pointer are \<open>None\<close>.
\<close>

declare of_nat_unat [simp del]

section \<open>The code\<close>

text \<open>The choice of the routine; the words go to \<^verbatim>\<open>rr\<close>, whose sign is set.\<close>

definition bn_mul_choose :: "malloc \<Rightarrow> BIGNUM option \<Rightarrow> BIGNUM \<Rightarrow> BIGNUM \<Rightarrow> BIGNUM \<Rightarrow> (bool \<times> BIGNUM) option" where
  "bn_mul_choose M h rr a b =
     (let al = bn_width a; bl = bn_width b; i = int al - int bl; top = al + bl;
          aw = take al (bn_d a); bw = take bl (bn_d b)
      in if i = 0 \<and> al = 8
         then case bn_wexpand M rr 16 of
                (False, rr) \<Rightarrow> Some (False, rr)
              | (True, rr) \<Rightarrow> Some (True, rr\<lparr>bn_width := 16, bn_d := blit (bn_d rr) 0 (bn_mul_comba8 aw bw)\<rparr>)
         else if al \<ge> 16 \<and> bl \<ge> 16 \<and> - 1 \<le> i \<and> i \<le> 1
         then let j = 2 ^ (BN_num_bits_word (of_nat (if i \<ge> 0 then al else bl)) - 1)
              in if \<not> (j \<le> al \<or> j \<le> bl) then None
                 else case h of
                        None \<Rightarrow> Some (False, rr)
                      | Some t \<Rightarrow>
                          if al > j \<or> bl > j
                          then if \<not> (al \<ge> j \<and> bl \<ge> j) then None
                               else if \<not> fst (bn_wexpand M t (j * 8)) then Some (False, rr)
                               else case bn_wexpand M rr (j * 4) of
                                      (False, rr) \<Rightarrow> Some (False, rr)
                                    | (True, rr) \<Rightarrow>
                                        do { r \<leftarrow> bn_mul_part_recursive (take (4 * j) (bn_d rr)) aw bw j (int al - int j) (int bl - int j);
                                             Some (True, rr\<lparr>bn_d := blit (bn_d rr) 0 r, bn_width := top\<rparr>) }
                          else if \<not> fst (bn_wexpand M t (j * 4)) then Some (False, rr)
                               else case bn_wexpand M rr (j * 2) of
                                      (False, rr) \<Rightarrow> Some (False, rr)
                                    | (True, rr) \<Rightarrow>
                                        do { r \<leftarrow> bn_mul_recursive aw bw j (int al - int j) (int bl - int j);
                                             Some (True, rr\<lparr>bn_d := blit (bn_d rr) 0 r, bn_width := top\<rparr>) }
         else case bn_wexpand M rr top of
                (False, rr) \<Rightarrow> Some (False, rr)
              | (True, rr) \<Rightarrow> Some (True, rr\<lparr>bn_width := top, bn_d := blit (bn_d rr) 0 (bn_mul_normal aw bw)\<rparr>))"

text \<open>After \<^verbatim>\<open>rr = BN_CTX_get(ctx)\<close> the code tests \<^verbatim>\<open>r\<close> and not \<^verbatim>\<open>rr\<close> for null, so a null \<^verbatim>\<open>rr\<close> is used.\<close>

definition bn_mul_impl :: "malloc \<Rightarrow> bool \<Rightarrow> BIGNUM option \<Rightarrow> BIGNUM option \<Rightarrow> BIGNUM \<Rightarrow> BIGNUM \<Rightarrow> BIGNUM \<Rightarrow> (bool \<times> BIGNUM) option" where
  "bn_mul_impl M alias g h r a b =
     (if bn_width a = 0 \<or> bn_width b = 0 then Some (True, BN_zero r)
      else do {
        rr \<leftarrow> (if alias then g else Some r);
        (ok, rr) \<leftarrow> bn_mul_choose M h (rr\<lparr>bn_neg := (bn_neg a \<noteq> bn_neg b)\<rparr>) a b;
        if \<not> ok then Some (False, if alias then r else rr)
        else if alias then Some (BN_copy M r rr)
        else Some (True, rr) })"

definition BN_mul :: "malloc \<Rightarrow> bool \<Rightarrow> BIGNUM option \<Rightarrow> BIGNUM option \<Rightarrow> BIGNUM \<Rightarrow> BIGNUM \<Rightarrow> BIGNUM \<Rightarrow> (bool \<times> BIGNUM) option" where
  "BN_mul M alias g h r a b =
     do { (ok, r) \<leftarrow> bn_mul_impl M alias g h r a b;
          if \<not> ok then Some (False, r) else Some (True, bn_set_minimal_width r) }"

definition bn_mul_consttime :: "malloc \<Rightarrow> bool \<Rightarrow> BIGNUM option \<Rightarrow> BIGNUM option \<Rightarrow> BIGNUM \<Rightarrow> BIGNUM \<Rightarrow> BIGNUM \<Rightarrow> (bool \<times> BIGNUM) option" where
  "bn_mul_consttime M alias g h r a b =
     (if bn_neg a \<or> bn_neg b then Some (False, r) else bn_mul_impl M alias g h r a b)"

definition bn_mul_small :: "nat \<Rightarrow> u64 list \<Rightarrow> u64 list \<Rightarrow> u64 list option" where
  "bn_mul_small num_r a b =
     (if num_r \<noteq> length a + length b then None
      else if length a = 8 \<and> length b = 8 then Some (bn_mul_comba8 a b)
      else Some (bn_mul_normal a b))"

definition BN_mul_word :: "malloc \<Rightarrow> BIGNUM \<Rightarrow> u64 \<Rightarrow> bool \<times> BIGNUM" where
  "BN_mul_word M bn w =
     (if bn_width bn = 0 then (True, bn)
      else if w = 0 then (True, BN_zero bn)
      else let (r, ll) = bn_mul_words (take (bn_width bn) (bn_d bn)) w;
               bn = bn\<lparr>bn_d := blit (bn_d bn) 0 r\<rparr>
           in if ll \<noteq> 0
              then case bn_wexpand M bn (bn_width bn + 1) of
                     (False, bn) \<Rightarrow> (False, bn)
                   | (True, bn) \<Rightarrow> (True, bn\<lparr>bn_d := (bn_d bn)[bn_width bn := ll], bn_width := bn_width bn + 1\<rparr>)
              else (True, bn))"

text \<open>Squaring; only powers of two are split.\<close>

definition bn_sqr_choose :: "malloc \<Rightarrow> BIGNUM \<Rightarrow> u64 list \<Rightarrow> u64 list option option" where
  "bn_sqr_choose M tmp aw =
     (let al = length aw
      in if al = 4 then Some (Some (bn_sqr_comba4 aw))
         else if al = 8 then Some (Some (bn_sqr_comba8 aw))
         else if al < BN_MUL_RECURSIVE_SIZE_NORMAL then Some (Some (bn_sqr_normal aw))
         else if is_power_of_two al
         then if \<not> fst (bn_wexpand M tmp (al * 4)) then Some None else map_option Some (bn_sqr_recursive aw al)
         else if \<not> fst (bn_wexpand M tmp (2 * al)) then Some None else Some (Some (bn_sqr_normal aw)))"

definition bn_sqr_consttime :: "malloc \<Rightarrow> bool \<Rightarrow> BIGNUM option \<Rightarrow> BIGNUM option \<Rightarrow> BIGNUM \<Rightarrow> BIGNUM \<Rightarrow> (bool \<times> BIGNUM) option" where
  "bn_sqr_consttime M alias g h r a =
     (let al = bn_width a; mx = 2 * al
      in if al = 0 then Some (True, r\<lparr>bn_width := 0, bn_neg := False\<rparr>)
         else case (if alias then g else Some r, h) of
                (Some rr, Some tmp) \<Rightarrow>
                  (case bn_wexpand M rr mx of
                     (False, rr) \<Rightarrow> Some (False, if alias then r else rr)
                   | (True, rr) \<Rightarrow>
                       (case bn_sqr_choose M tmp (take al (bn_d a)) of
                          None \<Rightarrow> None
                        | Some None \<Rightarrow> Some (False, if alias then r else rr)
                        | Some (Some ws) \<Rightarrow>
                            let rr = rr\<lparr>bn_d := blit (bn_d rr) 0 ws, bn_neg := False, bn_width := mx\<rparr>
                            in Some (if alias then BN_copy M r rr else (True, rr))))
              | _ \<Rightarrow> Some (False, r))"

definition BN_sqr :: "malloc \<Rightarrow> bool \<Rightarrow> BIGNUM option \<Rightarrow> BIGNUM option \<Rightarrow> BIGNUM \<Rightarrow> BIGNUM \<Rightarrow> (bool \<times> BIGNUM) option" where
  "BN_sqr M alias g h r a =
     do { (ok, r) \<leftarrow> bn_sqr_consttime M alias g h r a;
          if \<not> ok then Some (False, r) else Some (True, bn_set_minimal_width r) }"

definition BN_SMALL_MAX_WORDS :: nat where "BN_SMALL_MAX_WORDS = 9"

definition bn_sqr_small :: "nat \<Rightarrow> u64 list \<Rightarrow> u64 list option" where
  "bn_sqr_small num_r a =
     (if num_r \<noteq> 2 * length a \<or> length a > BN_SMALL_MAX_WORDS then None
      else if length a = 4 then Some (bn_sqr_comba4 a)
      else if length a = 8 then Some (bn_sqr_comba8 a)
      else Some (bn_sqr_normal a))"

definition bn_abs_sub_consttime :: "malloc \<Rightarrow> BIGNUM option \<Rightarrow> BIGNUM \<Rightarrow> BIGNUM \<Rightarrow> BIGNUM \<Rightarrow> bool \<times> BIGNUM" where
  "bn_abs_sub_consttime M tmp r a b =
     (let cl = (if bn_width a < bn_width b then bn_width a else bn_width b);
          dl = int (bn_width a) - int (bn_width b);
          r_len = (if bn_width a < bn_width b then bn_width b else bn_width a)
      in case tmp of
           None \<Rightarrow> (False, r)
         | Some tmp \<Rightarrow>
             (case bn_wexpand M r r_len of
                (False, r) \<Rightarrow> (False, r)
              | (True, r) \<Rightarrow>
                  if \<not> fst (bn_wexpand M tmp r_len) then (False, r)
                  else (True, r\<lparr>bn_d := blit (bn_d r) 0 (fst (bn_abs_sub_part_words (take (bn_width a) (bn_d a)) (take (bn_width b) (bn_d b)) cl dl)),
                               bn_width := r_len\<rparr>)))"

section \<open>Products are exact\<close>

lemma take_fits: "words_val ws < BN_BASE ^ n \<Longrightarrow> words_val (take n ws) = words_val ws"
proof (cases "n \<le> length ws")
  case True
  assume "words_val ws < BN_BASE ^ n"
  then show ?thesis using words_val_split [OF True] by (cases "words_val (drop n ws)") auto
qed simp

lemma write_width:
  assumes "bn_ok r" and "length ws \<le> bn_dmax r" and "tw \<le> length ws" and "words_val ws < BN_BASE ^ tw"
  shows "bn_ok (r\<lparr>bn_d := blit (bn_d r) 0 ws, bn_width := tw\<rparr>)"
    and "bn_abs (r\<lparr>bn_d := blit (bn_d r) 0 ws, bn_width := tw\<rparr>) = words_val ws"
proof -
  show "bn_ok (r\<lparr>bn_d := blit (bn_d r) 0 ws, bn_width := tw\<rparr>)" using assms(1-3) by (simp add: bn_ok_def)
  have "take tw (blit (bn_d r) 0 ws) = take tw ws" using assms(3) by (simp add: blit_def)
  then show "bn_abs (r\<lparr>bn_d := blit (bn_d r) 0 ws, bn_width := tw\<rparr>) = words_val ws"
    using take_fits [OF assms(4)] by (simp add: bn_abs_def bn_words_def)
qed

text \<open>Growing to \<open>n\<close> words and writing words of which the first \<open>tw\<close> count.\<close>

lemma grow_write:
  assumes "malloc_spec M" "bn_ok rr" and "tw \<le> n" and "v < BN_BASE ^ tw"
    and F: "\<And>rr. \<exists>ws. F rr = Some ws \<and> length ws = n \<and> words_val ws = v"
  shows "\<exists>ok rr'. (case bn_wexpand M rr n of (False, rr) \<Rightarrow> Some (False, rr)
       | (True, rr) \<Rightarrow> do { r \<leftarrow> F rr; Some (True, rr\<lparr>bn_d := blit (bn_d rr) 0 r, bn_width := tw\<rparr>) }) = Some (ok, rr')
     \<and> returns M rr n (ok, rr') (\<lambda>rr'. bn_abs rr' = v \<and> bn_neg rr' = bn_neg rr \<and> bn_width rr' = tw)"
proof -
  obtain ok r where w: "bn_wexpand M rr n = (ok, r)" by fastforce
  show ?thesis
  proof (cases ok)
    case True
    then have w1: "bn_wexpand M rr n = (True, r)" using w by simp
    note g = bn_wexpand_ok [OF assms(1,2) w1]
    from F [of r] obtain ws where ws: "F r = Some ws" "length ws = n" "words_val ws = v" by blast
    have "bn_ok (r\<lparr>bn_d := blit (bn_d r) 0 ws, bn_width := tw\<rparr>)"
      "bn_abs (r\<lparr>bn_d := blit (bn_d r) 0 ws, bn_width := tw\<rparr>) = v"
      using write_width [of r ws tw] g(1,2) ws assms(3,4) by simp_all
    then show ?thesis using True w1 ws(1) g(5) by (auto simp: returns_def)
  next
    case False
    then show ?thesis using w bn_wexpand_total [of M n rr] by (auto simp: returns_def)
  qed
qed

lemma choose_size:
  assumes "16 \<le> al" "16 \<le> bl" "- 1 \<le> int al - int bl" "int al - int bl \<le> 1" "al \<le> BN_MAX_WORDS" "bl \<le> BN_MAX_WORDS"
    and j: "j = 2 ^ (BN_num_bits_word (of_nat (if int al - int bl \<ge> 0 then al else bl)) - 1)"
  shows "j \<le> max al bl" and "max al bl < 2 * j" and "8 < j"
proof -
  let ?m = "max al bl"
  have m: "(if int al - int bl \<ge> 0 then al else bl) = ?m" by simp
  have "unat (of_nat ?m :: u64) = ?m" using assms(5,6) by (simp add: unat_of_nat BN_MAX_WORDS_val)
  with BN_num_bits_word_val [of "of_nat ?m"] have b: "bit_count ?m (BN_num_bits_word (of_nat ?m))" by simp
  let ?n = "BN_num_bits_word (of_nat ?m)"
  have n: "?n \<noteq> 0" using b assms(1) by (auto simp: bit_count_def intro: ccontr)
  have jm: "j = 2 ^ (?n - 1)" unfolding j m ..
  have "2 * j = 2 ^ ?n" unfolding jm using n by (simp flip: power_Suc)
  then show *: "?m < 2 * j" using b by (simp add: bit_count_def)
  show "j \<le> ?m" using b n by (simp add: bit_count_def jm)
  from * assms(1) show "8 < j" by simp
qed

lemma bn_mul_choose_val:
  assumes "malloc_spec M" "bn_ok rr" "bn_ok a" "bn_ok b"
  shows "\<exists>ok rr'. bn_mul_choose M h rr a b = Some (ok, rr') \<and>
    (ok \<longrightarrow> bn_ok rr' \<and> bn_abs rr' = bn_abs a * bn_abs b \<and> bn_neg rr' = bn_neg rr \<and> bn_width rr' = bn_width a + bn_width b) \<and>
    (malloc_total M \<and> 8 * (bn_width a + bn_width b) \<le> BN_MAX_WORDS \<and> \<not> bn_static rr \<and> (\<exists>t. h = Some t \<and> \<not> bn_static t) \<longrightarrow> ok)"
proof -
  define al bl i tw aw bw where "al = bn_width a" and "bl = bn_width b" and "i = int al - int bl" and "tw = al + bl"
    and "aw = take al (bn_d a)" and "bw = take bl (bn_d b)"
  note defs = al_def [symmetric] bl_def [symmetric] i_def [symmetric] tw_def [symmetric] aw_def [symmetric] bw_def [symmetric]
  have l: "length aw = al" "length bw = bl" "bn_abs a = words_val aw" "bn_abs b = words_val bw" "al \<le> BN_MAX_WORDS" "bl \<le> BN_MAX_WORDS"
    using assms(3,4) by (simp_all add: aw_def bw_def al_def bl_def bn_ok_def bn_abs_def bn_words_def)
  let ?v = "words_val aw * words_val bw"
  have v: "?v < BN_BASE ^ tw" using product_fits [OF l(1,2)] by (simp add: tw_def)
  let ?P = "\<lambda>rr'. bn_abs rr' = ?v \<and> bn_neg rr' = bn_neg rr \<and> bn_width rr' = tw"
  let ?C = "malloc_total M \<and> 8 * tw \<le> BN_MAX_WORDS \<and> \<not> bn_static rr \<and> (\<exists>t. h = Some t \<and> \<not> bn_static t)"
  let ?G = "\<lambda>res. \<exists>ok rr'. res = Some (ok, rr') \<and> (ok \<longrightarrow> bn_ok rr' \<and> ?P rr') \<and> (?C \<longrightarrow> ok)"
  have G: "?G res" if "\<exists>ok rr'. res = Some (ok, rr') \<and> returns M rr n (ok, rr') ?P" "n \<le> 8 * tw" for res n
  proof -
    from that(1) obtain ok rr' where r: "res = Some (ok, rr')" "returns M rr n (ok, rr') ?P" by blast
    have "(ok \<longrightarrow> bn_ok rr' \<and> ?P rr') \<and> (?C \<longrightarrow> ok)" using r(2) that(2) unfolding returns_def prod.case by linarith
    with r(1) show ?thesis by blast
  qed
  have gw: "?G (case bn_wexpand M rr n of (False, rr) \<Rightarrow> Some (False, rr)
       | (True, rr) \<Rightarrow> do { r \<leftarrow> F rr; Some (True, rr\<lparr>bn_d := blit (bn_d rr) 0 r, bn_width := tw\<rparr>) })"
    if "tw \<le> n" "n \<le> 8 * tw" "\<And>rr. \<exists>ws. F rr = Some ws \<and> length ws = n \<and> words_val ws = ?v" for n F
    by (rule G [OF grow_write [OF assms(1,2) that(1) v that(3)] that(2)])
  consider (comba) "i = 0 \<and> al = 8" | (split) "\<not> (i = 0 \<and> al = 8)" "al \<ge> 16 \<and> bl \<ge> 16 \<and> - 1 \<le> i \<and> i \<le> 1"
    | (normal) "\<not> (i = 0 \<and> al = 8)" "\<not> (al \<ge> 16 \<and> bl \<ge> 16 \<and> - 1 \<le> i \<and> i \<le> 1)" by blast
  then have "?G (bn_mul_choose M h rr a b)"
  proof cases
    case comba
    then have b8: "bl = 8" "al = 8" "tw = 16" by (simp_all add: i_def tw_def)
    have "bn_mul_choose M h rr a b = (case bn_wexpand M rr 16 of (False, rr) \<Rightarrow> Some (False, rr)
       | (True, rr) \<Rightarrow> do { r \<leftarrow> Some (bn_mul_comba8 aw bw); Some (True, rr\<lparr>bn_d := blit (bn_d rr) 0 r, bn_width := tw\<rparr>) })"
      unfolding bn_mul_choose_def Let_def defs if_P [OF comba] using b8 by (auto split: prod.split bool.split)
    then show ?thesis using gw [of 16 "\<lambda>_. Some (bn_mul_comba8 aw bw)"] l b8 by (simp add: bn_mul_comba8_val)
  next
    case normal
    have "bn_mul_choose M h rr a b = (case bn_wexpand M rr tw of (False, rr) \<Rightarrow> Some (False, rr)
       | (True, rr) \<Rightarrow> do { r \<leftarrow> Some (bn_mul_normal aw bw); Some (True, rr\<lparr>bn_d := blit (bn_d rr) 0 r, bn_width := tw\<rparr>) })"
      unfolding bn_mul_choose_def Let_def defs if_not_P [OF normal(1)] if_not_P [OF normal(2)] by (auto split: prod.split bool.split)
    then show ?thesis using gw [of tw "\<lambda>_. Some (bn_mul_normal aw bw)"] l by (simp add: bn_mul_normal_val tw_def)
  next
    case split
    define j :: nat where "j = 2 ^ (BN_num_bits_word (of_nat (if i \<ge> 0 then al else bl)) - 1)"
    have j: "j \<le> max al bl" "max al bl < 2 * j" "8 < j"
      using choose_size [OF _ _ _ _ l(5,6) j_def [unfolded i_def]] split(2) by (simp_all add: i_def)
    have ij: "\<not> \<not> (j \<le> al \<or> j \<le> bl)" using j(1) by linarith
    show ?thesis
    proof (cases h)
      case None
      then show ?thesis unfolding bn_mul_choose_def Let_def defs if_not_P [OF split(1)] if_P [OF split(2)] j_def [symmetric] if_not_P [OF ij]
        by auto
    next
      case (Some t)
      show ?thesis
      proof (cases "al > j \<or> bl > j")
        case True
        then have a2: "\<not> \<not> (al \<ge> j \<and> bl \<ge> j)" using split(2) by (auto simp: i_def)
        let ?F = "\<lambda>rr. bn_mul_part_recursive (take (4 * j) (bn_d rr)) aw bw j (int al - int j) (int bl - int j)"
        have e: "bn_mul_choose M h rr a b = (if \<not> fst (bn_wexpand M t (j * 8)) then Some (False, rr)
            else case bn_wexpand M rr (j * 4) of (False, rr) \<Rightarrow> Some (False, rr)
              | (True, rr) \<Rightarrow> do { r \<leftarrow> ?F rr; Some (True, rr\<lparr>bn_d := blit (bn_d rr) 0 r, bn_width := tw\<rparr>) })"
          unfolding bn_mul_choose_def Let_def defs if_not_P [OF split(1)] if_P [OF split(2)] j_def [symmetric] if_not_P [OF ij]
            Some option.case if_P [OF True] if_not_P [OF a2] ..
        have F: "\<exists>ws. ?F rr = Some ws \<and> length ws = j * 4 \<and> words_val ws = ?v" for rr
          using bn_mul_part_recursive_val [OF j_def, of "int al - int j" "int bl - int j" aw bw "take (4 * j) (bn_d rr)"] j a2 split(2) l(1,2)
          by (auto simp: i_def mult.commute)
        have n: "tw \<le> j * 4" "j * 4 \<le> 8 * tw" using j by (simp_all add: tw_def)
        have t: "fst (bn_wexpand M t (j * 8))" if ?C
        proof -
          have "j * 8 \<le> BN_MAX_WORDS" using that j(1) by (auto simp: tw_def max_def split: if_splits)
          with that bn_wexpand_total [of M "j * 8" t] Some show ?thesis by fastforce
        qed
        show ?thesis unfolding e using gw [OF n F] t by auto
      next
        case False
        let ?F = "\<lambda>rr. bn_mul_recursive aw bw j (int al - int j) (int bl - int j)"
        have e: "bn_mul_choose M h rr a b = (if \<not> fst (bn_wexpand M t (j * 4)) then Some (False, rr)
            else case bn_wexpand M rr (j * 2) of (False, rr) \<Rightarrow> Some (False, rr)
              | (True, rr) \<Rightarrow> do { r \<leftarrow> ?F rr; Some (True, rr\<lparr>bn_d := blit (bn_d rr) 0 r, bn_width := tw\<rparr>) })"
          unfolding bn_mul_choose_def Let_def defs if_not_P [OF split(1)] if_P [OF split(2)] j_def [symmetric] if_not_P [OF ij]
            Some option.case if_not_P [OF False] ..
        have F: "\<exists>ws. ?F rr = Some ws \<and> length ws = j * 2 \<and> words_val ws = ?v" for rr
          using bn_mul_recursive_val [OF j_def, of "int al - int j" "int bl - int j" aw bw] j False split(2) l(1,2)
          by (auto simp: i_def mult.commute)
        have n: "tw \<le> j * 2" "j * 2 \<le> 8 * tw" using j False by (simp_all add: tw_def)
        have t: "fst (bn_wexpand M t (j * 4))" if ?C
        proof -
          have "j * 4 \<le> BN_MAX_WORDS" using that j(1) by (auto simp: tw_def max_def split: if_splits)
          with that bn_wexpand_total [of M "j * 4" t] Some show ?thesis by fastforce
        qed
        show ?thesis unfolding e using gw [OF n F] t by auto
      qed
    qed
  qed
  then show ?thesis by (simp add: l(3,4) tw_def al_def bl_def)
qed

lemma BN_copy_val:
  assumes "malloc_spec M" "bn_ok r" "bn_ok a"
  shows "returns M r (bn_width a) (BN_copy M r a) (\<lambda>r'. bn_words r' = bn_words a \<and> bn_neg r' = bn_neg a)"
proof -
  have e: "BN_copy M r a = (case bn_wexpand M r (bn_width a) of (False, r) \<Rightarrow> (False, r) | (True, r) \<Rightarrow> (True, bn_write r (bn_words a) (bn_neg a)))"
    using assms(3) by (auto simp: BN_copy_def bn_write_def bn_words_def bn_ok_def min_absorb2 split: prod.split bool.split)
  show ?thesis unfolding e
    by (rule bn_wexpand_returns [OF assms(1,2)]) (use assms(3) in \<open>simp add: bn_write_ok\<close>)
qed

lemma BN_zero_val: "bn_ok r \<Longrightarrow> bn_ok (BN_zero r) \<and> bn_abs (BN_zero r) = 0 \<and> \<not> bn_neg (BN_zero r)"
  by (simp add: BN_zero_def bn_ok_def bn_abs_def bn_words_def)

text \<open>The condition under which memory does not run out for a product.\<close>

definition product_room :: "malloc \<Rightarrow> bool \<Rightarrow> BIGNUM option \<Rightarrow> BIGNUM option \<Rightarrow> BIGNUM \<Rightarrow> nat \<Rightarrow> bool" where
  "product_room M alias g h r n \<longleftrightarrow> malloc_total M \<and> 8 * n \<le> BN_MAX_WORDS \<and> \<not> bn_static r
     \<and> (\<exists>t. h = Some t \<and> \<not> bn_static t) \<and> (alias \<longrightarrow> (\<exists>t. g = Some t \<and> \<not> bn_static t))"

definition temporary_ok :: "BIGNUM option \<Rightarrow> bool" where
  "temporary_ok g \<longleftrightarrow> (\<forall>t. g = Some t \<longrightarrow> bn_ok t)"

lemma bn_mul_impl_val:
  assumes "malloc_spec M" "bn_ok r" "bn_ok a" "bn_ok b" "temporary_ok g" and "alias \<Longrightarrow> g \<noteq> None"
  shows "\<exists>ok r'. bn_mul_impl M alias g h r a b = Some (ok, r') \<and>
    (ok \<longrightarrow> bn_ok r' \<and> bn_val r' = bn_val a * bn_val b) \<and>
    (product_room M alias g h r (bn_width a + bn_width b) \<longrightarrow> ok)"
proof (cases "bn_width a = 0 \<or> bn_width b = 0")
  case True
  then have "bn_abs a = 0 \<or> bn_abs b = 0" by (auto simp: bn_abs_def bn_words_def)
  then show ?thesis using True BN_zero_val [OF assms(2)] by (auto simp: bn_mul_impl_def bn_val_def)
next
  case False
  obtain rr0 where rr0: "(if alias then g else Some r) = Some rr0" using assms(6) by (cases "alias") auto
  define rr where "rr = rr0\<lparr>bn_neg := (bn_neg a \<noteq> bn_neg b)\<rparr>"
  have ok0: "bn_ok rr" "bn_static rr = bn_static rr0" "bn_neg rr = (bn_neg a \<noteq> bn_neg b)"
    using rr0 assms(2,5) by (auto simp: rr_def set_neg temporary_ok_def split: if_splits)
  obtain ok rr' where c: "bn_mul_choose M h rr a b = Some (ok, rr')"
    "ok \<Longrightarrow> bn_ok rr' \<and> bn_abs rr' = bn_abs a * bn_abs b \<and> bn_neg rr' = bn_neg rr \<and> bn_width rr' = bn_width a + bn_width b"
    "malloc_total M \<and> 8 * (bn_width a + bn_width b) \<le> BN_MAX_WORDS \<and> \<not> bn_static rr \<and> (\<exists>t. h = Some t \<and> \<not> bn_static t) \<Longrightarrow> ok"
    using bn_mul_choose_val [OF assms(1) ok0(1) assms(3,4), of h] by blast
  have e: "bn_mul_impl M alias g h r a b =
      (if \<not> ok then Some (False, if alias then r else rr') else if alias then Some (BN_copy M r rr') else Some (True, rr'))"
    unfolding bn_mul_impl_def if_not_P [OF False] rr0 using c(1) by (simp add: rr_def)
  have room: "ok" if "product_room M alias g h r (bn_width a + bn_width b)"
    using that rr0 by (intro c(3)) (auto simp: product_room_def ok0(2) split: if_splits)
  have val: "bn_val x = bn_val a * bn_val b" if "bn_abs x = bn_abs a * bn_abs b" "bn_neg x = (bn_neg a \<noteq> bn_neg b)" for x
    using that by (auto simp: bn_val_def)
  show ?thesis
  proof (cases "ok \<and> alias")
    case True
    obtain ok2 r2 where cp: "BN_copy M r rr' = (ok2, r2)" by fastforce
    have r': "bn_ok rr'" "bn_abs rr' = bn_abs a * bn_abs b" "bn_neg rr' = (bn_neg a \<noteq> bn_neg b)" "bn_width rr' = bn_width a + bn_width b"
      using c(2) True ok0(3) by simp_all
    from BN_copy_val [OF assms(1,2) r'(1)] cp
    have p: "ok2 \<Longrightarrow> bn_ok r2 \<and> bn_words r2 = bn_words rr' \<and> bn_neg r2 = bn_neg rr'"
      and q: "malloc_total M \<and> bn_width rr' \<le> BN_MAX_WORDS \<and> \<not> bn_static r \<Longrightarrow> ok2" by (auto simp: returns_def)
    have "bn_ok r2 \<and> bn_val r2 = bn_val a * bn_val b" if ok2
      using p [OF that] r'(2,3) val [of r2] by (simp add: bn_abs_def)
    moreover have ok2 if "product_room M alias g h r (bn_width a + bn_width b)"
      using that by (intro q) (simp add: product_room_def r'(4))
    moreover have "bn_mul_impl M alias g h r a b = Some (ok2, r2)" using True unfolding e cp by simp
    ultimately show ?thesis by blast
  next
    case False
    define r' where "r' = (if \<not> ok \<and> alias then r else rr')"
    have "bn_mul_impl M alias g h r a b = Some (ok, r')" using False unfolding e r'_def by (cases ok; cases "alias") simp_all
    moreover have "bn_ok r' \<and> bn_val r' = bn_val a * bn_val b" if ok
      using c(2) [OF that] ok0(3) val [of rr'] that by (simp add: r'_def)
    ultimately show ?thesis using room by blast
  qed
qed

lemma power_of_two_ex: "is_power_of_two n \<Longrightarrow> \<exists>k. n = 2 ^ k"
proof (induction n rule: less_induct)
  case (less n)
  then have n: "n \<noteq> 0" "n AND (n - 1) = 0" by (simp_all add: is_power_of_two_def)
  show ?case
  proof (cases "even n")
    case True
    then obtain m where m: "n = 2 * m" by blast
    from n(1) m have "m \<noteq> 0" by simp
    then have "n - 1 = 1 + 2 * (m - 1)" using m by simp
    then have "n AND (n - 1) = 2 * (m AND (m - 1))" using m and_nat_rec [of n "n - 1"] by simp
    then have "is_power_of_two m" using n \<open>m \<noteq> 0\<close> by (simp add: is_power_of_two_def)
    moreover have "m < n" using m \<open>m \<noteq> 0\<close> by simp
    ultimately obtain k where "m = 2 ^ k" using less.IH by blast
    then have "n = 2 ^ Suc k" using m by simp
    then show ?thesis by blast
  next
    case False
    then obtain m where m: "n = 2 * m + 1" by (elim oddE)
    have "n AND (n - 1) = 2 * (m AND m)" using m and_nat_rec [of n "n - 1"] by simp
    then have "n = 2 ^ 0" using n m by simp
    then show ?thesis by blast
  qed
qed

lemma bn_sqr_choose_val:
  assumes "aw \<noteq> []"
  shows "\<exists>res. bn_sqr_choose M tmp aw = Some res \<and>
    (\<forall>ws. res = Some ws \<longrightarrow> length ws = 2 * length aw \<and> words_val ws = words_val aw * words_val aw) \<and>
    (malloc_total M \<and> 4 * length aw \<le> BN_MAX_WORDS \<and> \<not> bn_static tmp \<longrightarrow> res \<noteq> None)"
proof -
  have room: "fst (bn_wexpand M tmp n)" if "malloc_total M \<and> 4 * length aw \<le> BN_MAX_WORDS \<and> \<not> bn_static tmp" "n \<le> 4 * length aw" for n
    using bn_wexpand_total [of M n tmp] that by fastforce
  have small: "?thesis" if "bn_sqr_choose M tmp aw = Some (Some ws)" "length ws = 2 * length aw \<and> words_val ws = words_val aw * words_val aw" for ws
    using that by blast
  have temp: "?thesis" if "bn_sqr_choose M tmp aw = (if \<not> fst (bn_wexpand M tmp n) then Some None else map_option Some w)" "n \<le> 4 * length aw"
    "\<exists>ws. w = Some ws \<and> length ws = 2 * length aw \<and> words_val ws = words_val aw * words_val aw" for n w
    using that room [of n] by (cases "fst (bn_wexpand M tmp n)") auto
  consider "length aw = 4" | "length aw = 8" | "length aw \<noteq> 4" "length aw \<noteq> 8" "length aw < 16"
    | "16 \<le> length aw" "is_power_of_two (length aw)" | "16 \<le> length aw" "\<not> is_power_of_two (length aw)" by linarith
  then show ?thesis
  proof cases
    case 1
    then show ?thesis by (intro small [of "bn_sqr_comba4 aw"]) (simp_all add: bn_sqr_choose_def bn_sqr_comba4_val)
  next
    case 2
    then show ?thesis by (intro small [of "bn_sqr_comba8 aw"]) (simp_all add: bn_sqr_choose_def bn_sqr_comba8_val)
  next
    case 3
    then show ?thesis by (intro small [of "bn_sqr_normal aw"]) (simp_all add: bn_sqr_choose_def bn_sqr_normal_val BN_MUL_RECURSIVE_SIZE_NORMAL_def)
  next
    case 4
    then obtain k where "length aw = 2 ^ k" using power_of_two_ex by blast
    from bn_sqr_recursive_val [OF this refl] 4 show ?thesis
      by (intro temp [of "length aw * 4" "bn_sqr_recursive aw (length aw)"]) (simp_all add: bn_sqr_choose_def BN_MUL_RECURSIVE_SIZE_NORMAL_def)
  next
    case 5
    then show ?thesis
      by (intro temp [of "2 * length aw" "Some (bn_sqr_normal aw)"]) (simp_all add: bn_sqr_choose_def bn_sqr_normal_val BN_MUL_RECURSIVE_SIZE_NORMAL_def)
  qed
qed

lemma bn_sqr_consttime_val:
  assumes "malloc_spec M" "bn_ok r" "bn_ok a" "temporary_ok g"
  shows "\<exists>ok r'. bn_sqr_consttime M alias g h r a = Some (ok, r') \<and>
    (ok \<longrightarrow> bn_ok r' \<and> bn_val r' = bn_val a * bn_val a) \<and>
    (product_room M alias g h r (bn_width a) \<longrightarrow> ok)"
proof (cases "bn_width a = 0 \<or> (if alias then g else Some r) = None \<or> h = None")
  case True
  have zero: "bn_abs a = 0 \<and> bn_ok (r\<lparr>bn_width := 0, bn_neg := False\<rparr>) \<and> bn_val (r\<lparr>bn_width := 0, bn_neg := False\<rparr>) = 0" if "bn_width a = 0"
    using that assms(2) by (simp add: bn_abs_def bn_words_def bn_ok_def bn_val_def)
  have "bn_sqr_consttime M alias g h r a = (if bn_width a = 0 then Some (True, r\<lparr>bn_width := 0, bn_neg := False\<rparr>) else Some (False, r))"
    using True by (auto simp: bn_sqr_consttime_def Let_def split: option.split)
  moreover have "\<not> product_room M alias g h r (bn_width a)" if "bn_width a \<noteq> 0" using True that by (auto simp: product_room_def split: if_splits)
  ultimately show ?thesis using zero by (cases "bn_width a = 0") (auto simp: bn_val_def)
next
  case False
  then obtain rr tmp where g: "(if alias then g else Some r) = Some rr" "h = Some tmp" by auto
  have rr: "bn_ok rr" using g(1) assms(2,4) by (auto simp: temporary_ok_def split: if_splits)
  define aw where "aw = take (bn_width a) (bn_d a)"
  have aw: "length aw = bn_width a" "bn_abs a = words_val aw" "aw \<noteq> []" using assms(3) False by (auto simp: aw_def bn_ok_def bn_abs_def bn_words_def)
  have v: "words_val aw * words_val aw < BN_BASE ^ (2 * bn_width a)" using product_fits [OF aw(1,1)] by (simp add: mult_2)
  have sq: "bn_val x = bn_val a * bn_val a" if "bn_abs x = words_val aw * words_val aw" "\<not> bn_neg x" for x
    using that aw(2) by (simp add: bn_val_def)
  obtain ok rr' where w: "bn_wexpand M rr (2 * bn_width a) = (ok, rr')" by fastforce
  obtain res where c: "bn_sqr_choose M tmp aw = Some res"
    "\<And>ws. res = Some ws \<Longrightarrow> length ws = 2 * bn_width a \<and> words_val ws = words_val aw * words_val aw"
    "malloc_total M \<and> 4 * bn_width a \<le> BN_MAX_WORDS \<and> \<not> bn_static tmp \<Longrightarrow> res \<noteq> None"
    using bn_sqr_choose_val [OF aw(3), of M tmp] by (auto simp: aw(1))
  define rx where "rx = (\<lambda>ws. rr'\<lparr>bn_d := blit (bn_d rr') 0 ws, bn_neg := False, bn_width := 2 * bn_width a\<rparr>)"
  have e: "bn_sqr_consttime M alias g h r a =
      (if \<not> ok then Some (False, if alias then r else rr')
       else case res of None \<Rightarrow> Some (False, if alias then r else rr')
            | Some ws \<Rightarrow> Some (if alias then BN_copy M r (rx ws) else (True, rx ws)))"
    using False g w c(1) by (simp add: bn_sqr_consttime_def rx_def Let_def flip: aw_def split: option.split)
  have okr: "ok" if "product_room M alias g h r (bn_width a)"
    using bn_wexpand_total [of M "2 * bn_width a" rr] that g w by (auto simp: product_room_def split: if_splits)
  show ?thesis
  proof (cases "ok \<and> res \<noteq> None")
    case True
    then obtain ws where ws: "res = Some ws" and ok by blast
    note g' = bn_wexpand_ok [OF assms(1) rr w [unfolded eq_True [THEN iffD2, OF \<open>ok\<close>]]]
    have rx_ws: "rx ws = rr'\<lparr>bn_d := blit (bn_d rr') 0 ws, bn_width := 2 * bn_width a\<rparr>\<lparr>bn_neg := False\<rparr>" by (simp add: rx_def)
    have x: "bn_ok (rx ws)" "bn_abs (rx ws) = words_val aw * words_val aw" "\<not> bn_neg (rx ws)" "bn_width (rx ws) = 2 * bn_width a"
      unfolding rx_ws using write_width [of rr' ws "2 * bn_width a"] g'(1,2) c(2) [OF ws] v by (simp_all add: set_neg)
    obtain ok2 r2 where cp: "BN_copy M r (rx ws) = (ok2, r2)" by fastforce
    from BN_copy_val [OF assms(1,2) x(1)] cp
    have p: "ok2 \<Longrightarrow> bn_ok r2 \<and> bn_words r2 = bn_words (rx ws) \<and> bn_neg r2 = bn_neg (rx ws)"
      and q: "malloc_total M \<and> 2 * bn_width a \<le> BN_MAX_WORDS \<and> \<not> bn_static r \<Longrightarrow> ok2" by (auto simp: returns_def x(4))
    have "bn_ok r2 \<and> bn_val r2 = bn_val a * bn_val a" if ok2
      using p [OF that] x(2,3) sq [of r2] by (simp add: bn_abs_def)
    moreover have ok2 if "product_room M alias g h r (bn_width a)" using that by (intro q) (simp add: product_room_def)
    moreover have "bn_sqr_consttime M alias g h r a = Some (if alias then (ok2, r2) else (True, rx ws))"
      unfolding e using \<open>ok\<close> ws cp by simp
    moreover have "bn_ok (rx ws) \<and> bn_val (rx ws) = bn_val a * bn_val a" using x sq by blast
    ultimately show ?thesis by (cases "alias") auto
  next
    case False
    then have "bn_sqr_consttime M alias g h r a = Some (False, if alias then r else rr')" unfolding e by (auto split: option.split)
    moreover have "\<not> product_room M alias g h r (bn_width a)" using False okr c(3) g(2) by (auto simp: product_room_def)
    ultimately show ?thesis by blast
  qed
qed

section \<open>Properties\<close>

text \<open>
  C9: Multiplication is exact: whichever routine the widths of the arguments select, column products of eight words,
  Karatsuba multiplication on a power of two, its variant for other sizes or the schoolbook rows, the result is well
  formed, a zero has no sign, and the value is the product of the integers. No assertion of the
  code fails, and the functions return one unless memory runs out.
\<close>

theorem bn_mul_exact:
  assumes "malloc_spec M" and "bn_ok r" "bn_ok a" "bn_ok b" and "temporary_ok g" and "alias \<Longrightarrow> g \<noteq> None"
  shows "\<exists>ok r'. BN_mul M alias g h r a b = Some (ok, r') \<and>
    (ok \<longrightarrow> bn_ok r' \<and> bn_signed r' \<and> bn_val r' = bn_val a * bn_val b) \<and>
    (product_room M alias g h r (bn_width a + bn_width b) \<longrightarrow> ok)"
proof -
  from bn_mul_impl_val [OF assms, where h = h] obtain ok r' where r: "bn_mul_impl M alias g h r a b = Some (ok, r')"
    "ok \<Longrightarrow> bn_ok r' \<and> bn_val r' = bn_val a * bn_val b"
    "product_room M alias g h r (bn_width a + bn_width b) \<Longrightarrow> ok" by blast
  have "BN_mul M alias g h r a b = Some (ok, if ok then bn_set_minimal_width r' else r')"
    by (simp add: BN_mul_def r(1))
  then show ?thesis using r(2,3) bn_set_minimal_width_ok [of r'] bn_set_minimal_width_signed [of r'] by auto
qed

theorem bn_mul_exact_witness:
  "\<exists>r'. BN_mul zero_malloc False None (Some BN_init) BN_init (bn_of_words False (replicate 17 3)) (bn_of_words True (replicate 16 5)) = Some (True, r')
    \<and> bn_val r' = - int (15 * words_val (replicate 17 1) * words_val (replicate 16 1))"
proof -
  have v: "words_val (replicate n k) = unat k * words_val (replicate n 1)" for n and k :: "64 word"
    by (induction n) (simp_all only: replicate.simps words_val.simps unat_1 algebra_simps)
  have "bn_val (bn_of_words False (replicate 17 3)) * bn_val (bn_of_words True (replicate 16 5)) =
      - int (15 * words_val (replicate 17 1) * words_val (replicate 16 1))"
    unfolding bn_of_words v [of 17 3] v [of 16 5] by (simp del: replicate.simps words_val.simps)
  then show ?thesis
    using bn_mul_exact [OF zero_malloc_spec, of BN_init "bn_of_words False (replicate 17 3)" "bn_of_words True (replicate 16 5)" None False "Some BN_init"]
      zero_malloc_total
    by (auto simp: temporary_ok_def product_room_def BN_MAX_WORDS_val)
qed

text \<open>
  C38: Squares are exact, by the column squares of four and eight words, by halving for powers of two or
  by rows of products that are doubled.
\<close>

theorem bn_sqr_exact:
  assumes "malloc_spec M" and "bn_ok r" "bn_ok a" and "temporary_ok g"
  shows "\<exists>ok r'. BN_sqr M alias g h r a = Some (ok, r') \<and>
    (ok \<longrightarrow> bn_ok r' \<and> bn_signed r' \<and> bn_val r' = bn_val a * bn_val a) \<and>
    (product_room M alias g h r (bn_width a) \<longrightarrow> ok)"
proof -
  from bn_sqr_consttime_val [OF assms, where h = h] obtain ok r' where r: "bn_sqr_consttime M alias g h r a = Some (ok, r')"
    "ok \<Longrightarrow> bn_ok r' \<and> bn_val r' = bn_val a * bn_val a" "product_room M alias g h r (bn_width a) \<Longrightarrow> ok" by blast
  have "BN_sqr M alias g h r a = Some (ok, if ok then bn_set_minimal_width r' else r')"
    by (simp add: BN_sqr_def r(1))
  then show ?thesis using r(2,3) bn_set_minimal_width_ok [of r'] bn_set_minimal_width_signed [of r'] by auto
qed

theorem bn_sqr_exact_witness:
  "\<exists>r'. BN_sqr zero_malloc False None (Some BN_init) BN_init (bn_of_words True [0, 1, 0, 0, 5]) = Some (True, r')
    \<and> bn_val r' = (int (words_val [0, 1, 0, 0, 5])) ^ 2"
  using bn_sqr_exact [OF zero_malloc_spec, of BN_init "bn_of_words True [0, 1, 0, 0, 5]" None False "Some BN_init"] zero_malloc_total
  by (auto simp: temporary_ok_def product_room_def BN_MAX_WORDS_val power2_eq_square simp del: words_val.simps)

text \<open>
  When the result is one of the arguments and no temporary number can be had, the code uses the null pointer it was given
  instead of returning zero, because it tests the wrong variable.
\<close>

theorem bn_mul_null_temporary:
  assumes "bn_width a \<noteq> 0" and "bn_width b \<noteq> 0"
  shows "BN_mul M True None h r a b = None"
  using assms by (simp add: BN_mul_def bn_mul_impl_def)

end
