(* ===== verification/Spec2Isabelle.thy ===== *)
theory Spec2Isabelle
  imports Buf SetOf Oid Base64 Stack CbbRun LhashProps PbRoundTrip Hmac BnProduct
begin

text \<open>
  Verification of the C code under \<^verbatim>\<open>src/ios/Pods\<close> that the chat application links: the byte-string,
  base64, container and hashing code of BoringSSL (\<^verbatim>\<open>BoringSSL-GRPC\<close>) and the protobuf library nanopb
  (\<^verbatim>\<open>nanopb\<close>). The application itself (\<^verbatim>\<open>src/lib\<close>, Dart) only composes user interface and service
  calls; the parsing and serialisation of what comes from the network is done by this C code:
  certificates and TLS by BoringSSL, the Firestore messages by nanopb.

  The program's parts and how they interact. \<^verbatim>\<open>crypto/mem.c\<close> wraps the C library's allocator; every
  other part of BoringSSL gets its memory there. \<^verbatim>\<open>crypto/buf/buf.c\<close> has growable buffers and string
  copies. \<^verbatim>\<open>crypto/bytestring\<close> has the parser \<^verbatim>\<open>CBS\<close> (\<^verbatim>\<open>cbs.c\<close>), the builder \<^verbatim>\<open>CBB\<close> (\<^verbatim>\<open>cbb.c\<close>), both
  used by the conversion of BER to DER (\<^verbatim>\<open>ber.c\<close>) and by the X.509 and TLS code, which is not modelled.
  \<^verbatim>\<open>crypto/base64\<close> uses the constant-time helpers of \<^verbatim>\<open>crypto/internal.h\<close>. \<^verbatim>\<open>crypto/stack\<close> and
  \<^verbatim>\<open>crypto/lhash\<close> are the containers of the X.509 and TLS code. \<^verbatim>\<open>crypto/fipsmodule/sha\<close> and
  \<^verbatim>\<open>crypto/fipsmodule/md5\<close> have the hash functions; the 64-byte ones share the block collector of
  \<^verbatim>\<open>crypto/fipsmodule/digest/md32_common.h\<close>. \<^verbatim>\<open>crypto/fipsmodule/digest\<close> puts all of them behind the table of
  functions \<^verbatim>\<open>EVP_MD\<close>, which \<^verbatim>\<open>crypto/fipsmodule/hmac\<close> uses. \<^verbatim>\<open>crypto/fipsmodule/bn\<close> is the
  arithmetic of long integers, on which the public-key code (not modelled) rests: \<^verbatim>\<open>generic.c\<close> and the first part of
  \<^verbatim>\<open>mul.c\<close> compute on arrays of words, the rest on \<^verbatim>\<open>BIGNUM\<close>s, which own such an array and a
  sign. In nanopb, \<^verbatim>\<open>pb_encode.c\<close> and
  \<^verbatim>\<open>pb_decode.c\<close> move values between a stream and a C structure in memory; the structure is described
  by an array of \<^verbatim>\<open>pb_field_t\<close>, which both walk with the iterator of \<^verbatim>\<open>pb_common.c\<close>. The stream is a
  buffer or a callback of the caller.

  Theories. \<open>Prelude\<close>: machine words, \<^verbatim>\<open>size_t\<close> arithmetic, big- and little-endian digits,
  \<open>blit\<close> and \<open>memmove\<close>. \<open>Codec\<close>: the interface of a prefix-free encoding, a locale that \<open>Der\<close> and
  \<open>PbFields\<close> interpret. \<open>Dict\<close>: the interface of a dictionary with deletion, a locale that
  \<open>LhashProps\<close> interprets. \<open>Libc\<close>: \<^verbatim>\<open>qsort\<close> and \<^verbatim>\<open>bsearch\<close>. \<open>Mem\<close>, \<open>Buf\<close>, \<open>Cbs\<close>, \<open>Cbb\<close>, \<open>Ber\<close>,
  \<open>SetOf\<close>, \<open>Oid\<close>, \<open>ConstTime\<close>, \<open>Base64\<close>, \<open>Stack\<close>, \<open>Lhash\<close>: the definitions translated from the C
  functions of the same names, with their properties. \<open>Der\<close> and \<open>DerInt\<close>: the reference encodings and the
  exactness of the parser. \<open>CbbProps\<close>, \<open>CbbOps\<close>, \<open>CbbLive\<close>, \<open>CbbAsn1\<close>, \<open>CbbTotal\<close>: invariant, partial
  and total correctness of the builder. \<open>CbbItems\<close>: whole messages and the round trip. \<open>CbbRun\<close>:
  arbitrary sequences of operations. \<open>LhashProps\<close>: the hash table as a finite map, its load and the
  iteration with deletions.

  Theories of hashing. \<open>HashSpec\<close>: the reference digest (padding, then the compression of each block)
  and the locale \<open>block_function\<close> of a compression function, with what an incremental computation has to
  keep (\<open>buffered\<close>). \<open>Md32\<close>: \<^verbatim>\<open>md32_common.h\<close>, its macros with the hash function as an argument, and the locale
  \<open>md_collector\<close>, in which updates of any sizes followed by the end compute the reference digest. \<open>Sha2\<close>: the message
  schedule and the rounds of SHA-2 for any word width. \<open>Sha1\<close>, \<open>Sha256\<close>, \<open>Sha512\<close>, \<open>Md5\<close>: the functions of
  \<^verbatim>\<open>sha1.c\<close>, \<^verbatim>\<open>sha256.c\<close>, \<^verbatim>\<open>sha512.c\<close> and \<^verbatim>\<open>md5.c\<close>, which interpret these locales, with reference rounds over a single
  tuple of registers; \<^verbatim>\<open>sha512.c\<close> has a collector of its own. A round macro whose arguments the C code renames from round to
  round is one function, and the renaming is the position in a ring of registers. \<open>Digest\<close>: \<^verbatim>\<open>digests.c\<close> and
  \<^verbatim>\<open>digest.c\<close>, a context being the state of one of the hash functions, and the locale \<open>message_digest\<close> of
  what a client relies on, interpreted for every \<^verbatim>\<open>EVP_MD\<close> modelled. \<open>Hmac\<close>: \<^verbatim>\<open>hmac.c\<close> and its exactness.

  Theories of long integers. \<open>Bn\<close>: the routines of \<^verbatim>\<open>generic.c\<close> on words, and \<open>words_val\<close>, the number that a list of
  words stands for; the column products are tables of index pairs, which are checked to cover every pair of
  digits. \<open>BnMul\<close>: the routines of \<^verbatim>\<open>mul.c\<close> on words, with Karatsuba's method in its two variants. \<open>BnNum\<close>: the
  data type \<^verbatim>\<open>BIGNUM\<close>, its memory, its widths (\<^verbatim>\<open>bn.c\<close>) and comparisons (\<^verbatim>\<open>cmp.c\<close>), and \<open>bn_val\<close>, the integer it stands
  for. \<open>BnAdd\<close>: \<^verbatim>\<open>add.c\<close>. \<open>BnProduct\<close>: products and squares of numbers. The lemmas say that each function
  computes the operation of the integers exactly and succeeds when memory does not run out (\<open>returns\<close>).

  Theories of nanopb. \<open>PbStream\<close> and \<open>PbWire\<close>: streams, integers, tags, skipping, substreams. \<open>PbCodec\<close>:
  what a stream has to do, the locales \<open>byte_sink\<close>, \<open>byte_source\<close> and \<open>byte_pipe\<close>, interpreted on the code's own
  buffers, with the calculus of writing (\<open>emits\<close>) and of reading (\<open>parses\<close>). \<open>PbVarint\<close>: the integer
  encodings. \<open>PbFields\<close> and \<open>PbMessage\<close>: sequences of fields written and read with the helper
  functions. \<open>PbScalar\<close>: encoders and decoders of single values in memory, \<open>PbScalarProps\<close> their round
  trips, range checks and memory safety. \<open>PbIter\<close>: field descriptions, the iterator and the search. \<open>PbEncode\<close>:
  the encoder of whole messages, \<open>PbEncodeRec\<close> its recursion, \<open>PbLayout\<close> what a structure in memory
  means and its encoding, independently of the code, and \<open>PbEncodeProps\<close> the exactness of the
  encoder. \<open>PbDecode\<close>: the decoder of whole messages, \<open>PbSafe\<close> its steps on static structures, and
  \<open>PbTotal\<close> its termination and memory safety on any input. The round trip of whole messages: \<open>PbItems\<close>
  says which bytes of a structure a message depends on, \<open>PbStore\<close> that the defaults leave an empty
  message, \<open>PbStoreItems\<close> and \<open>PbStoreFields\<close> what an item and a field on the wire leave in memory,
  \<open>PbRound\<close> follows the loop over the fields, and \<open>PbRoundTrip\<close> has that decoding inverts encoding.

  Correspondence. A C function is a HOL function of the same name; what it writes through pointers
  is part of its result, the return values zero and one are \<open>False\<close> and \<open>True\<close> or \<open>None\<close> and
  \<open>Some\<close>. Integers are words at their C width where they wrap or are taken apart; a \<^verbatim>\<open>size_t\<close> is a
  natural number and sums and products that can wrap are \<open>size_add\<close> and \<open>size_mul\<close>, modulo
  \<open>2 ^ 64\<close>. The target has 64-bit pointers, is little endian and has a signed \<^verbatim>\<open>char\<close>. A C loop is a
  recursive function over what the loop consumes; a loop that may not end is a partial function with
  \<open>None\<close> for not returning, and the properties about it show that it returns.
  For nanopb the memory is one list of bytes and an address an index of it; a field array is a list
  without its terminator, and a description of a submessage is part of the field that points to it.
  The recursion into submessages is bounded by the nesting of the descriptions (\<open>message_depth\<close>),
  which is enough because a description without submessages is at depth zero: \<open>pb_encode_unfold\<close>
  recovers the equation of the C code. nanopb is built as its \<^verbatim>\<open>xcconfig\<close> files have it, with \<^verbatim>\<open>PB_FIELD_32BIT\<close>
  and \<^verbatim>\<open>PB_ENABLE_MALLOC\<close>, so a \<^verbatim>\<open>pb_size_t\<close> has 32 bits.

  A result that is one of the arguments is given as both; where the code distinguishes the two cases the
  argument \<open>alias\<close> says which one it is. An assertion that fails is \<open>None\<close>, and the theorems show that it is not reached.

  Parameters. \<open>malloc\<close> is the C library's allocator: a request succeeds with a block of its size or
  fails, and no object has \<open>2 ^ 62\<close> bytes or more (\<open>malloc_spec\<close>; \<open>malloc_total\<close> says that smaller
  requests succeed). \<^verbatim>\<open>qsort\<close> sorts and \<^verbatim>\<open>bsearch\<close> finds (\<open>qsort_spec\<close>, \<open>bsearch_spec\<close>).
  In \<open>Digest\<close> and \<open>Hmac\<close> a fresh context may hold any bytes of its shape, which the argument \<open>alloc\<close> gives, and \<open>None\<close> is
  the use of a null pointer. What \<^verbatim>\<open>BN_CTX_get\<close> returns, a temporary number or null, is an argument. The callbacks of
  nanopb streams are functions on the state of the stream; \<^verbatim>\<open>pb_realloc\<close>, \<^verbatim>\<open>pb_free\<close>, the callbacks of callback
  fields and the walk over the extensions of an extension field are functions of an environment
  record.

  Bounds. Total correctness of the builder is stated for messages below \<open>2 ^ 60\<close> bytes, so that
  doubling the capacity stays below what an allocator may return. The depth bound of the BER
  conversion is the code's own. Structures described to nanopb are below \<open>2 ^ 32\<close> bytes per member.

  Not modelled: of the hashing code, MD4, the contexts of public keys
  that an \<^verbatim>\<open>EVP_MD_CTX\<close> may carry, and the variants for 32-bit x86 and for assembly, which this build does not have; the rest of BoringSSL (the other operations on long integers, ciphers, curves, X.509, TLS), gRPC, abseil, leveldb,
  Firestore and the Objective-C frameworks, which are C++ or Objective-C, depend on threads, files and sockets, or are
  tables; the list of extensions of a nanopb message, whose nodes and handlers belong to the caller;
  input and output; the freeing of memory, except where the caller's callbacks observe it;
  timing, so the constant-time code is shown to be right but not to run in constant time.
\<close>

end
